(* ===== verification/Prelude.thy ===== *)
theory Prelude
  imports Main "HOL-Library.AList" "HOL-Library.Multiset" "HOL-Library.Product_Lexorder"
begin

section \<open>Shared vocabulary: exceptions, dictionaries, decimal numerals, keyed sorting\<close>

text \<open>
  What every component theory shares.

  \<^item> \<open>exn\<close>: the Python exceptions the modelled code raises; a fallible operation returns
    \<open>exn + 'a\<close>, \<open>Inl\<close> for the raise. Messages are dropped.
  \<^item> Dictionaries: a Python \<open>dict\<close> is insertion ordered, and several components iterate over
    one, so a dictionary is an association list: \<open>d[k] = v\<close> replaces in place or appends
    (\<open>AList.update\<close>), \<open>pop\<close> deletes (\<open>AList.delete\<close>), \<open>get\<close> is \<open>map_of\<close>.
  \<^item> Decimal numerals: \<open>str(int)\<close> and \<open>int(str)\<close>, used by the stream ids.
  \<^item> Lemmas on \<open>map_of\<close>, sums over a dictionary, and lists sorted by an injective key,
    which the order book's refinement rests on.
\<close>

subsection \<open>Exceptions\<close>

datatype exn =
    ValueError
  | KeyError
  | TypeError
  | StructError
  | IndexError
  | RuntimeError
  | CheckpointRefused
  | AttributeError
  | ConfigError
  | ZeroDivisionError

fun is_ok :: "exn + 'a \<Rightarrow> bool" where
  "is_ok (Inl _) = False"
| "is_ok (Inr _) = True"

text \<open>Evaluation in sequence: a raise ends it. \<open>each\<close> is a loop that collects its results.\<close>

definition sbind :: "exn + 'a \<Rightarrow> ('a \<Rightarrow> exn + 'b) \<Rightarrow> exn + 'b" where
  "sbind r f = (case r of Inl e \<Rightarrow> Inl e | Inr x \<Rightarrow> f x)"

lemma sbind_simps [simp]: "sbind (Inl e) f = Inl e" "sbind (Inr x) f = f x"
  by (simp_all add: sbind_def)

fun each :: "('a \<Rightarrow> exn + 'b) \<Rightarrow> 'a list \<Rightarrow> exn + 'b list" where
  "each f [] = Inr []"
| "each f (x # xs) = sbind (f x) (\<lambda>y. sbind (each f xs) (\<lambda>ys. Inr (y # ys)))"

lemma each_map: "(\<And>x. x \<in> set xs \<Longrightarrow> f (g x) = Inr (h x)) \<Longrightarrow> each f (map g xs) = Inr (map h xs)"
  by (induction xs) auto

lemma is_okE: "is_ok r \<Longrightarrow> (\<And>x. r = Inr x \<Longrightarrow> P) \<Longrightarrow> P"
  by (cases r) auto

subsection \<open>Dictionaries\<close>

type_synonym ('k, 'v) dict = "('k \<times> 'v) list"

abbreviation dget :: "('k, 'v) dict \<Rightarrow> 'k \<Rightarrow> 'v option" where
  "dget d k \<equiv> map_of d k"

abbreviation dset :: "'k \<Rightarrow> 'v \<Rightarrow> ('k, 'v) dict \<Rightarrow> ('k, 'v) dict" where
  "dset k v d \<equiv> AList.update k v d"

abbreviation dpop :: "'k \<Rightarrow> ('k, 'v) dict \<Rightarrow> ('k, 'v) dict" where
  "dpop k d \<equiv> AList.delete k d"

abbreviation dkeys :: "('k, 'v) dict \<Rightarrow> 'k list" where
  "dkeys d \<equiv> map fst d"

abbreviation dvalues :: "('k, 'v) dict \<Rightarrow> 'v list" where
  "dvalues d \<equiv> map snd d"

text \<open>\<open>d.get(k, 0)\<close>, the idiom every balance in the code is read with.\<close>

definition dget0 :: "('k, int) dict \<Rightarrow> 'k \<Rightarrow> int" where
  "dget0 d k = (case dget d k of None \<Rightarrow> 0 | Some v \<Rightarrow> v)"

definition wf_dict :: "('k, 'v) dict \<Rightarrow> bool" where
  "wf_dict d \<longleftrightarrow> distinct (dkeys d)"

named_theorems dict_simps

lemma dget_dset [simp, dict_simps]: "dget (dset k v d) = (dget d)(k \<mapsto> v)"
  by (rule update_conv')

lemma dget_dpop [simp, dict_simps]: "dget (dpop k d) = (dget d)(k := None)"
  by (rule delete_conv')

lemma wf_dict_Nil [simp]: "wf_dict []"
  by (simp add: wf_dict_def)

lemma wf_dict_dset [simp, intro]: "wf_dict d \<Longrightarrow> wf_dict (dset k v d)"
  by (simp add: wf_dict_def distinct_update)

lemma wf_dict_dpop [simp, intro]: "wf_dict d \<Longrightarrow> wf_dict (dpop k d)"
  by (simp add: wf_dict_def distinct_delete)

lemma dget0_Nil [simp]: "dget0 [] k = 0"
  by (simp add: dget0_def)

lemma dget0_dset [simp]: "dget0 (dset k v d) k' = (if k' = k then v else dget0 d k')"
  by (simp add: dget0_def)

lemma dget_in_set: "wf_dict d \<Longrightarrow> dget d k = Some v \<longleftrightarrow> (k, v) \<in> set d"
  by (simp add: wf_dict_def)

lemma dget_Some_key: "dget d k = Some v \<Longrightarrow> k \<in> set (dkeys d)"
  by (force dest: map_of_SomeD)

lemma dget_None_iff: "dget d k = None \<longleftrightarrow> k \<notin> set (dkeys d)"
  by (simp add: map_of_eq_None_iff)

lemma dget_key_iff: "k \<in> set (dkeys d) \<longleftrightarrow> (\<exists>v. dget d k = Some v)"
  by (metis dget_None_iff not_None_eq)

lemma set_dkeys_dset [simp]: "set (dkeys (dset k v d)) = insert k (set (dkeys d))"
  by (induction d) auto

lemma set_dkeys_dpop [simp]: "set (dkeys (dpop k d)) = set (dkeys d) - {k}"
  by (auto simp: delete_keys)

lemma set_dset: "wf_dict d \<Longrightarrow> set (dset k v d) = insert (k, v) {p \<in> set d. fst p \<noteq> k}"
  by (induction d) (auto simp: wf_dict_def image_iff)

lemma set_dpop: "set (dpop k d) = {p \<in> set d. fst p \<noteq> k}"
  by (induction d) auto

lemma dset_fresh: "k \<notin> set (dkeys d) \<Longrightarrow> dset k v d = d @ [(k, v)]"
  by (induction d) auto

text \<open>A dictionary comprehension \<open>{k: v for k, v in kvs}\<close>.\<close>

definition dict_of :: "('k \<times> 'v) list \<Rightarrow> ('k, 'v) dict" where
  "dict_of kvs = fold (\<lambda>(k, v). dset k v) kvs []"

lemma fold_dset_distinct: "distinct (map fst (d @ kvs)) \<Longrightarrow> fold (\<lambda>(k, v). dset k v) kvs d = d @ kvs"
proof (induction kvs arbitrary: d)
  case (Cons p kvs)
  obtain k v where p: "p = (k, v)" by (cases p)
  with Cons.prems have "k \<notin> set (dkeys d)" by auto
  with p have "(case p of (k, v) \<Rightarrow> dset k v) d = d @ [p]" by (simp add: dset_fresh)
  with Cons.IH [of "d @ [p]"] Cons.prems show ?case by simp
qed simp

lemma dict_of_distinct: "distinct (map fst kvs) \<Longrightarrow> dict_of kvs = kvs"
  using fold_dset_distinct [of "[]" kvs] by (simp add: dict_of_def)

text \<open>Sums over the values of a dictionary: what an update or a removal changes.\<close>

definition dsum :: "('v \<Rightarrow> int) \<Rightarrow> ('k, 'v) dict \<Rightarrow> int" where
  "dsum f d = sum_list (map f (dvalues d))"

definition at :: "('v \<Rightarrow> int) \<Rightarrow> 'v option \<Rightarrow> int" where
  "at f o' = (case o' of None \<Rightarrow> 0 | Some v \<Rightarrow> f v)"

lemma at_simps [simp]: "at f None = 0" "at f (Some v) = f v"
  by (simp_all add: at_def)

lemma dsum_Nil [simp]: "dsum f [] = 0"
  by (simp add: dsum_def)

lemma dsum_Cons [simp]: "dsum f (p # d) = f (snd p) + dsum f d"
  by (simp add: dsum_def)

lemma dsum_dset: "dsum f (dset k v d) = dsum f d - at f (dget d k) + f v"
  by (induction d) auto

lemma dpop_notin: "k \<notin> set (dkeys d) \<Longrightarrow> dpop k d = d"
  by (simp add: delete_notin_dom)

lemma dsum_dpop: "wf_dict d \<Longrightarrow> dsum f (dpop k d) = dsum f d - at f (dget d k)"
proof (induction d)
  case Nil
  then show ?case by simp
next
  case (Cons p d)
  then have wf: "wf_dict d" and fresh: "fst p \<notin> set (dkeys d)"
    by (auto simp: wf_dict_def)
  show ?case
  proof (cases "fst p = k")
    case True
    with fresh have "dpop k d = d" by (simp add: dpop_notin)
    with True show ?thesis by (cases p) simp
  next
    case False
    with Cons.IH [OF wf] show ?thesis by (cases p) simp
  qed
qed

lemma dsum_cong: "(\<And>k v. (k, v) \<in> set d \<Longrightarrow> f v = g v) \<Longrightarrow> dsum f d = dsum g d"
  unfolding dsum_def by (rule arg_cong [where f = sum_list]) auto

lemma dsum_nonneg: "(\<And>k v. (k, v) \<in> set d \<Longrightarrow> 0 \<le> f v) \<Longrightarrow> 0 \<le> dsum f d"
  unfolding dsum_def by (rule sum_list_nonneg) auto

lemma dsum_ge_at: "(\<And>k v. (k, v) \<in> set d \<Longrightarrow> 0 \<le> f v) \<Longrightarrow> at f (dget d k) \<le> dsum f d"
proof (induction d)
  case Nil
  then show ?case by simp
next
  case (Cons p d)
  have ih: "at f (dget d k) \<le> dsum f d" using Cons by auto
  have "0 \<le> f (snd p)" using Cons.prems [of "fst p" "snd p"] by simp
  moreover have "0 \<le> dsum f d" by (rule dsum_nonneg) (use Cons.prems in auto)
  ultimately show ?case using ih by (cases p) auto
qed

text \<open>Sums that look at the key as well: a balance over one user's or one symbol's entries.\<close>

definition ksum :: "('k \<Rightarrow> 'v \<Rightarrow> int) \<Rightarrow> ('k, 'v) dict \<Rightarrow> int" where
  "ksum f d = sum_list (map (\<lambda>(k, v). f k v) d)"

lemma ksum_Nil [simp]: "ksum f [] = 0"
  by (simp add: ksum_def)

lemma ksum_Cons [simp]: "ksum f (p # d) = f (fst p) (snd p) + ksum f d"
  by (simp add: ksum_def split: prod.splits)

lemma ksum_dset: "ksum f (dset k v d) = ksum f d - at (f k) (dget d k) + f k v"
  by (induction d) auto

lemma ksum_dpop: "wf_dict d \<Longrightarrow> ksum f (dpop k d) = ksum f d - at (f k) (dget d k)"
proof (induction d)
  case (Cons p d)
  obtain k' v where p: "p = (k', v)" by (cases p)
  with Cons.prems have "wf_dict d" "k' \<notin> set (dkeys d)" by (auto simp: wf_dict_def)
  with Cons.IH p show ?case by (cases "k' = k") (simp_all add: dpop_notin)
qed simp

lemma ksum_nonneg: "(\<And>k v. (k, v) \<in> set d \<Longrightarrow> 0 \<le> f k v) \<Longrightarrow> 0 \<le> ksum f d"
  unfolding ksum_def by (rule sum_list_nonneg) auto

lemma mset_dict_eq:
  assumes "wf_dict d" "wf_dict e" "dget d = dget e"
  shows "mset d = mset e"
proof -
  have "distinct d" "distinct e" using assms(1,2) by (auto simp: wf_dict_def distinct_map)
  moreover have "(k, v) \<in> set d \<longleftrightarrow> (k, v) \<in> set e" for k v
    using assms by (simp flip: dget_in_set)
  then have "set d = set e" by auto
  ultimately show ?thesis by (simp add: set_eq_iff_mset_eq_distinct)
qed

lemma dget_eq_mset:
  assumes "wf_dict d" "mset e = mset d"
  shows "wf_dict e" "dget e = dget d"
proof -
  have "mset (dkeys e) = mset (dkeys d)" using assms(2) by (metis mset_map)
  then show w: "wf_dict e" using assms(1) by (metis mset_eq_imp_distinct_iff wf_dict_def)
  have s: "set e = set d" using assms(2) by (rule mset_eq_setD)
  show "dget e = dget d"
  proof
    fix k
    have "dget e k = Some v \<longleftrightarrow> dget d k = Some v" for v
      using w assms(1) s by (simp add: dget_in_set)
    then show "dget e k = dget d k" by (cases "dget d k"; cases "dget e k") auto
  qed
qed

lemma ksum_cong_dget: "wf_dict d \<Longrightarrow> wf_dict e \<Longrightarrow> dget d = dget e \<Longrightarrow> ksum f d = ksum f e"
  unfolding ksum_def by (metis (no_types, lifting) mset_dict_eq mset_map sum_mset_sum_list)

subsection \<open>Decimal numerals\<close>

definition digit_char :: "nat \<Rightarrow> char" where
  "digit_char n = char_of (48 + n)"

definition is_digit :: "char \<Rightarrow> bool" where
  "is_digit c \<longleftrightarrow> 48 \<le> (of_char c :: nat) \<and> (of_char c :: nat) \<le> 57"

definition digit_value :: "char \<Rightarrow> int" where
  "digit_value c = of_char c - 48"

fun str_nat :: "nat \<Rightarrow> string" where
  "str_nat n = (if n < 10 then [digit_char n] else str_nat (n div 10) @ [digit_char (n mod 10)])"

declare str_nat.simps [simp del]

text \<open>\<open>str(n)\<close> for an \<open>int\<close>.\<close>

definition str_int :: "int \<Rightarrow> string" where
  "str_int n = (if n < 0 then CHR ''-'' # str_nat (nat (- n)) else str_nat (nat n))"

text \<open>
  \<open>int(s)\<close> on an ASCII string: an optional sign and at least one digit, with single
  underscores allowed between digits and blanks stripped at both ends, else \<open>ValueError\<close>.
\<close>

definition is_blank :: "char \<Rightarrow> bool" where
  "is_blank c \<longleftrightarrow> (of_char c :: nat) = 32 \<or> (9 \<le> (of_char c :: nat) \<and> (of_char c :: nat) \<le> 13)"

definition strip :: "string \<Rightarrow> string" where
  "strip s = rev (dropWhile is_blank (rev (dropWhile is_blank s)))"

fun digits_value :: "int \<Rightarrow> string \<Rightarrow> int option" where
  "digits_value acc [] = Some acc"
| "digits_value acc (c # cs) =
     (if is_digit c then digits_value (10 * acc + digit_value c) cs
      else case cs of
             [] \<Rightarrow> None
           | c' # cs' \<Rightarrow>
               if c = CHR ''_'' \<and> is_digit c'
               then digits_value (10 * acc + digit_value c') cs' else None)"

definition unsigned_value :: "string \<Rightarrow> exn + int" where
  "unsigned_value s =
     (case s of
        [] \<Rightarrow> Inl ValueError
      | c # cs \<Rightarrow>
          if is_digit c
          then (case digits_value (digit_value c) cs of None \<Rightarrow> Inl ValueError | Some v \<Rightarrow> Inr v)
          else Inl ValueError)"

definition parse_int :: "string \<Rightarrow> exn + int" where
  "parse_int s =
     (case strip s of
        [] \<Rightarrow> Inl ValueError
      | c # cs \<Rightarrow>
          if c = CHR ''-'' then (case unsigned_value cs of Inl e \<Rightarrow> Inl e | Inr v \<Rightarrow> Inr (- v))
          else if c = CHR ''+'' then unsigned_value cs
          else unsigned_value (c # cs))"

lemma of_char_digit_char [simp]: "n < 10 \<Longrightarrow> (of_char (digit_char n) :: nat) = 48 + n"
  by (simp add: digit_char_def of_char_of)

lemma is_digit_digit_char [simp]: "n < 10 \<Longrightarrow> is_digit (digit_char n)"
  by (simp add: is_digit_def)

lemma digit_value_digit_char [simp]:
  assumes "n < 10"
  shows "digit_value (digit_char n) = int n"
proof -
  have "(of_char (digit_char n) :: int) = int (of_char (digit_char n) :: nat)"
    by (simp add: of_char_def)
  with assms show ?thesis by (simp add: digit_value_def)
qed

lemma str_nat_digits: "c \<in> set (str_nat n) \<Longrightarrow> is_digit c"
proof (induction n arbitrary: c rule: str_nat.induct)
  case (1 n)
  show ?case
  proof (cases "n < 10")
    case True
    with "1.prems" show ?thesis by (simp add: str_nat.simps [of n])
  next
    case False
    with "1.prems" "1.IH" show ?thesis by (auto simp: str_nat.simps [of n])
  qed
qed

lemma str_nat_nonempty: "str_nat n \<noteq> []"
  by (subst str_nat.simps) simp

lemma digits_value_append:
  "(\<And>c. c \<in> set xs \<Longrightarrow> is_digit c) \<Longrightarrow>
    digits_value acc (xs @ ys) =
      (case digits_value acc xs of None \<Rightarrow> None | Some v \<Rightarrow> digits_value v ys)"
  by (induction xs arbitrary: acc) auto

lemma digits_value_str_nat: "digits_value 0 (str_nat n) = Some (int n)"
proof (induction n rule: str_nat.induct)
  case (1 n)
  show ?case
  proof (cases "n < 10")
    case True
    then show ?thesis by (simp add: str_nat.simps [of n])
  next
    case False
    have "int n = 10 * (int n div 10) + int n mod 10" by simp
    with False 1 show ?thesis
      by (simp add: str_nat.simps [of n] digits_value_append str_nat_digits zdiv_int zmod_int)
  qed
qed

lemma unsigned_value_str_nat: "unsigned_value (str_nat n) = Inr (int n)"
proof -
  obtain c cs where s: "str_nat n = c # cs"
    by (cases "str_nat n") (auto simp: str_nat_nonempty)
  have d: "is_digit c" using str_nat_digits [of c n] s by simp
  have "digits_value 0 (c # cs) = Some (int n)"
    using digits_value_str_nat [of n] s by simp
  with d have "digits_value (digit_value c) cs = Some (int n)" by simp
  with s d show ?thesis by (simp add: unsigned_value_def)
qed

lemma not_blank_digit: "is_digit c \<Longrightarrow> \<not> is_blank c"
  by (auto simp: is_digit_def is_blank_def)

lemma strip_digits:
  assumes "\<And>c. c \<in> set s \<Longrightarrow> \<not> is_blank c"
  shows "strip s = s"
proof -
  have "dropWhile is_blank t = t" if "\<And>c. c \<in> set t \<Longrightarrow> \<not> is_blank c" for t
    using that by (cases t) auto
  from this [of s] this [of "rev s"] assms show ?thesis by (simp add: strip_def)
qed

lemma parse_int_str_nat: "parse_int (str_nat n) = Inr (int n)"
proof -
  obtain c cs where s: "str_nat n = c # cs"
    by (cases "str_nat n") (auto simp: str_nat_nonempty)
  have d: "is_digit c" using str_nat_digits [of c n] s by simp
  then have "c \<noteq> CHR ''-''" "c \<noteq> CHR ''+''" by (auto simp: is_digit_def)
  moreover have "strip (str_nat n) = c # cs"
    using s by (metis not_blank_digit str_nat_digits strip_digits)
  ultimately show ?thesis
    using s unsigned_value_str_nat [of n] by (simp add: parse_int_def)
qed

lemma parse_int_str_int: "0 \<le> n \<Longrightarrow> parse_int (str_int n) = Inr n"
  by (simp add: str_int_def parse_int_str_nat)

lemma str_int_inj: "0 \<le> a \<Longrightarrow> 0 \<le> b \<Longrightarrow> str_int a = str_int b \<longleftrightarrow> a = b"
  using parse_int_str_int by (metis sum.inject(2))

text \<open>\<open>s.partition(sep)\<close> for a one-character separator: what comes before and after it.\<close>

fun partition_at :: "char \<Rightarrow> string \<Rightarrow> string \<times> string" where
  "partition_at c [] = ([], [])"
| "partition_at c (x # xs) =
     (if x = c then ([], xs) else (let (a, b) = partition_at c xs in (x # a, b)))"

lemma partition_at_append: "c \<notin> set a \<Longrightarrow> partition_at c (a @ c # b) = (a, b)"
  by (induction a) auto

subsection \<open>Lists sorted by an injective key\<close>

lemma sort_key_eqI:
  assumes "mset xs = mset ys" "inj_on f (set ys)" "sorted (map f ys)"
  shows "sort_key f xs = ys"
proof -
  have "set xs = set ys" using assms(1) by (rule mset_eq_setD)
  with assms show ?thesis by (intro sort_key_inj_key_eq) auto
qed

lemma sort_key_congr:
  assumes "mset xs = mset ys" "inj_on f (set xs)" "\<And>x. x \<in> set xs \<Longrightarrow> f x = g x"
  shows "sort_key f xs = sort_key g ys"
proof -
  have s: "set xs = set ys" using assms(1) by (rule mset_eq_setD)
  have m: "map f (sort_key g ys) = map g (sort_key g ys)"
    using assms(3) s by (intro map_cong) auto
  have "mset xs = mset (sort_key g ys)" using assms(1) by simp
  moreover have "inj_on f (set (sort_key g ys))" using assms(2) s by simp
  moreover have "sorted (map f (sort_key g ys))" by (subst m) simp
  ultimately show ?thesis by (rule sort_key_eqI)
qed

lemma distinct_sort_key [simp]: "distinct (sort_key f xs) = distinct xs"
  by (metis distinct_sort)

lemma strict_sorted_map:
  "sorted (map f xs) \<Longrightarrow> distinct xs \<Longrightarrow> inj_on f (set xs) \<Longrightarrow>
    sorted_wrt (\<lambda>x y. f x < f y) xs"
  by (induction xs) (force simp: less_le)+

lemma remove1_sort_key:
  assumes "x \<in> set xs" "inj_on f (set xs)" "distinct xs"
  shows "sort_key f (remove1 x xs) = remove1 x (sort_key f xs)"
proof (rule sort_key_eqI)
  show "mset (remove1 x xs) = mset (remove1 x (sort_key f xs))" by simp
  show "inj_on f (set (remove1 x (sort_key f xs)))"
    using assms by (auto simp: inj_on_def dest: notin_set_remove1 set_remove1_subset [THEN subsetD])
  have "sorted (map f (filter (\<lambda>y. y \<noteq> x) (sort_key f xs)))"
    by (rule sorted_filter) simp
  then show "sorted (map f (remove1 x (sort_key f xs)))"
    using assms(3) by (simp add: distinct_remove1_removeAll removeAll_filter_not_eq eq_commute)
qed

lemma set_map_filter: "y \<in> set (List.map_filter f xs) \<longleftrightarrow> (\<exists>x \<in> set xs. f x = Some y)"
  by (induction xs) (auto simp: List.map_filter_simps split: option.split)

end
