(* ===== verification/Struct_Codec.thy ===== *)
theory Struct_Codec
  imports Prelude "HOL-Library.Word"
begin

section \<open>Little-endian fixed-width codecs: the part of Python's struct module the wire uses\<close>

text \<open>
  Every record on the wire and every engine snapshot is packed with a \<open>struct\<close> format that
  starts with \<open><\<close>: little endian, standard sizes, no padding. The codes the repository uses
  are \<open>B H h I Q q\<close>. Packing raises \<open>struct.error\<close> when a value does not fit its code or the
  number of values is wrong; unpacking raises it when the buffer is not exactly as long as
  the format. A byte is an \<open>8 word\<close>, a Python integer an \<open>int\<close>.

  The lemmas give both round trips. The locale \<open>codec\<close> is the interface the records and the
  snapshot present to their clients: a packer and an unpacker, with the law that what packs
  unpacks to itself.
\<close>

type_synonym bytes = "8 word list"

datatype fmt = FB | FH | Fh | FI | FQ | Fq

fun fmt_size :: "fmt \<Rightarrow> nat" where
  "fmt_size FB = 1"
| "fmt_size FH = 2"
| "fmt_size Fh = 2"
| "fmt_size FI = 4"
| "fmt_size FQ = 8"
| "fmt_size Fq = 8"

fun fmt_signed :: "fmt \<Rightarrow> bool" where
  "fmt_signed Fh = True"
| "fmt_signed Fq = True"
| "fmt_signed _ = False"

definition fmt_lo :: "fmt \<Rightarrow> int" where
  "fmt_lo f = (if fmt_signed f then - (2 ^ (8 * fmt_size f - 1)) else 0)"

definition fmt_hi :: "fmt \<Rightarrow> int" where
  "fmt_hi f = (if fmt_signed f then 2 ^ (8 * fmt_size f - 1) else 2 ^ (8 * fmt_size f))"

definition fits :: "fmt \<Rightarrow> int \<Rightarrow> bool" where
  "fits f v \<longleftrightarrow> fmt_lo f \<le> v \<and> v < fmt_hi f"

definition struct_size :: "fmt list \<Rightarrow> nat" where
  "struct_size fs = sum_list (map fmt_size fs)"

fun le_bytes :: "nat \<Rightarrow> int \<Rightarrow> bytes" where
  "le_bytes 0 v = []"
| "le_bytes (Suc n) v = word_of_int v # le_bytes n (v div 256)"

fun le_value :: "bytes \<Rightarrow> int" where
  "le_value [] = 0"
| "le_value (b # bs) = uint b + 256 * le_value bs"

definition decode_field :: "fmt \<Rightarrow> bytes \<Rightarrow> int" where
  "decode_field f bs =
     (let u = le_value bs
      in if fmt_signed f \<and> 2 ^ (8 * fmt_size f - 1) \<le> u then u - 2 ^ (8 * fmt_size f) else u)"

fun struct_pack :: "fmt list \<Rightarrow> int list \<Rightarrow> exn + bytes" where
  "struct_pack [] [] = Inr []"
| "struct_pack (f # fs) (v # vs) =
     (if fits f v
      then (case struct_pack fs vs of
              Inl e \<Rightarrow> Inl e
            | Inr bs \<Rightarrow> Inr (le_bytes (fmt_size f) v @ bs))
      else Inl StructError)"
| "struct_pack _ _ = Inl StructError"

fun decode_fields :: "fmt list \<Rightarrow> bytes \<Rightarrow> int list" where
  "decode_fields [] bs = []"
| "decode_fields (f # fs) bs =
     decode_field f (take (fmt_size f) bs) # decode_fields fs (drop (fmt_size f) bs)"

definition struct_unpack :: "fmt list \<Rightarrow> bytes \<Rightarrow> exn + int list" where
  "struct_unpack fs bs =
     (if length bs = struct_size fs then Inr (decode_fields fs bs) else Inl StructError)"

text \<open>\<open>struct.unpack_from(f, data, offset)[0]\<close> for a one-field format.\<close>

definition unpack_from :: "fmt \<Rightarrow> bytes \<Rightarrow> nat \<Rightarrow> exn + int" where
  "unpack_from f bs off =
     (if off + fmt_size f \<le> length bs
      then Inr (decode_field f (take (fmt_size f) (drop off bs))) else Inl StructError)"

subsection \<open>Round trips\<close>

lemma struct_size_simps [simp]:
  "struct_size [] = 0" "struct_size (f # fs) = fmt_size f + struct_size fs"
  by (simp_all add: struct_size_def)

lemma length_le_bytes [simp]: "length (le_bytes n v) = n"
  by (induction n arbitrary: v) auto

lemma le_value_bounds: "0 \<le> le_value bs \<and> le_value bs < 256 ^ length bs"
proof (induction bs)
  case Nil
  then show ?case by simp
next
  case (Cons b bs)
  have "uint b < 256" using uint_lt2p [of b] by simp
  with Cons show ?case by auto
qed

lemma le_value_le_bytes: "le_value (le_bytes n v) = v mod 256 ^ n"
proof (induction n arbitrary: v)
  case 0
  then show ?case by simp
next
  case (Suc n)
  have "le_value (le_bytes (Suc n) v) = v mod 256 + 256 * (v div 256 mod 256 ^ n)"
    by (simp add: Suc uint_word_of_int)
  also have "\<dots> = v mod 256 ^ Suc n"
    by (simp add: zmod_zmult2_eq)
  finally show ?case .
qed

lemma le_bytes_le_value: "le_bytes (length bs) (le_value bs) = bs"
proof (induction bs)
  case Nil
  then show ?case by simp
next
  case (Cons b bs)
  have b: "0 \<le> uint b" "uint b < 256" using uint_lt2p [of b] by simp_all
  have "word_of_int (uint b + 256 * le_value bs) = (b :: 8 word)"
  proof (rule word_uint_eqI)
    have "uint (word_of_int (uint b + 256 * le_value bs) :: 8 word) = (uint b + 256 * le_value bs) mod 256"
      by (simp only: uint_word_of_int) simp
    also have "\<dots> = uint b" using b by simp
    finally show "uint (word_of_int (uint b + 256 * le_value bs) :: 8 word) = uint b" .
  qed
  moreover have "(uint b + 256 * le_value bs) div 256 = le_value bs"
    using b by simp
  ultimately show ?case by (simp add: Cons)
qed

lemma pow_256: "(256 :: int) ^ n = 2 ^ (8 * n)"
  by (simp add: power_mult)

lemma fmt_size_pos: "0 < fmt_size f"
  by (cases f) auto

lemma two_pow_size: "(2 :: int) ^ (8 * fmt_size f) = 2 * 2 ^ (8 * fmt_size f - 1)"
  by (cases f) auto

lemma decode_field_le_bytes: "fits f v \<Longrightarrow> decode_field f (le_bytes (fmt_size f) v) = v"
proof -
  assume fit: "fits f v"
  let ?h = "2 ^ (8 * fmt_size f - 1) :: int"
  have dbl: "(2 :: int) ^ (8 * fmt_size f) = 2 * ?h" by (rule two_pow_size)
  have h: "0 < ?h" by simp
  have val: "le_value (le_bytes (fmt_size f) v) = v mod (2 * ?h)"
    by (simp only: le_value_le_bytes pow_256 dbl)
  show ?thesis
  proof (cases "fmt_signed f")
    case False
    with fit have "0 \<le> v" "v < 2 * ?h" by (simp_all add: fits_def fmt_lo_def fmt_hi_def dbl)
    with False show ?thesis by (simp add: decode_field_def val)
  next
    case True
    with fit have b: "- ?h \<le> v" "v < ?h" by (simp_all add: fits_def fmt_lo_def fmt_hi_def)
    show ?thesis
    proof (cases "0 \<le> v")
      case nn: True
      with b h have "v mod (2 * ?h) = v" by simp
      with b True show ?thesis by (simp add: decode_field_def val)
    next
      case neg: False
      have "v mod (2 * ?h) = (v + 2 * ?h) mod (2 * ?h)" by simp
      also have "\<dots> = v + 2 * ?h" using b neg by (intro mod_pos_pos_trivial) auto
      finally have m: "v mod (2 * ?h) = v + 2 * ?h" .
      with b True show ?thesis by (simp add: decode_field_def val m dbl)
    qed
  qed
qed

lemma decode_field_fits: "length bs = fmt_size f \<Longrightarrow> fits f (decode_field f bs)"
proof -
  assume len: "length bs = fmt_size f"
  have dbl: "(2 :: int) ^ (8 * fmt_size f) = 2 * 2 ^ (8 * fmt_size f - 1)" by (rule two_pow_size)
  have "0 \<le> le_value bs" "le_value bs < 2 * 2 ^ (8 * fmt_size f - 1)"
    using le_value_bounds [of bs] by (simp_all only: len pow_256 dbl)
  then show ?thesis
    by (auto simp: fits_def fmt_lo_def fmt_hi_def decode_field_def Let_def dbl)
qed

lemma le_bytes_cong: "v mod 256 ^ n = w mod 256 ^ n \<Longrightarrow> le_bytes n v = le_bytes n w"
  by (metis le_bytes_le_value le_value_le_bytes length_le_bytes)

lemma le_bytes_decode_field: "length bs = fmt_size f \<Longrightarrow> le_bytes (fmt_size f) (decode_field f bs) = bs"
proof -
  assume len: "length bs = fmt_size f"
  have "decode_field f bs mod 256 ^ fmt_size f = le_value bs mod 256 ^ fmt_size f"
    by (simp add: decode_field_def Let_def pow_256)
  then have "le_bytes (fmt_size f) (decode_field f bs) = le_bytes (fmt_size f) (le_value bs)"
    by (rule le_bytes_cong)
  also have "\<dots> = bs" using le_bytes_le_value [of bs] len by simp
  finally show ?thesis .
qed

lemma struct_pack_length: "struct_pack fs vs = Inr bs \<Longrightarrow> length bs = struct_size fs"
  by (induction fs vs arbitrary: bs rule: struct_pack.induct) (auto split: if_splits sum.splits)

lemma struct_pack_decode: "struct_pack fs vs = Inr bs \<Longrightarrow> decode_fields fs bs = vs"
  by (induction fs vs arbitrary: bs rule: struct_pack.induct)
     (auto simp: decode_field_le_bytes split: if_splits sum.splits)

lemma struct_unpack_pack: "struct_pack fs vs = Inr bs \<Longrightarrow> struct_unpack fs bs = Inr vs"
  by (simp add: struct_unpack_def struct_pack_length struct_pack_decode)

lemma struct_pack_unpack_aux:
  "length bs = struct_size fs \<Longrightarrow> struct_pack fs (decode_fields fs bs) = Inr bs"
  by (induction fs arbitrary: bs) (auto simp: decode_field_fits le_bytes_decode_field)

lemma struct_pack_unpack: "struct_unpack fs bs = Inr vs \<Longrightarrow> struct_pack fs vs = Inr bs"
  by (auto simp: struct_unpack_def struct_pack_unpack_aux split: if_splits)

lemma struct_pack_ok:
  "list_all2 fits fs vs \<Longrightarrow> \<exists>bs. struct_pack fs vs = Inr bs"
  by (induction rule: list_all2_induct) auto

lemma struct_pack_fits: "struct_pack fs vs = Inr bs \<Longrightarrow> list_all2 fits fs vs"
  by (induction fs vs arbitrary: bs rule: struct_pack.induct) (auto split: if_splits sum.splits)

lemma struct_pack_iff: "is_ok (struct_pack fs vs) \<longleftrightarrow> list_all2 fits fs vs"
proof
  show "is_ok (struct_pack fs vs) \<Longrightarrow> list_all2 fits fs vs"
    by (auto elim!: is_okE dest: struct_pack_fits)
  show "list_all2 fits fs vs \<Longrightarrow> is_ok (struct_pack fs vs)"
    using struct_pack_ok by fastforce
qed

lemma length_decode_fields [simp]: "length (decode_fields fs bs) = length fs"
  by (induction fs arbitrary: bs) auto

subsection \<open>The interface of a codec\<close>

locale codec =
  fixes enc :: "'a \<Rightarrow> exn + bytes"
    and dec :: "bytes \<Rightarrow> exn + 'a"
    and good :: "'a \<Rightarrow> bool"
  assumes dec_enc: "good x \<Longrightarrow> enc x = Inr bs \<Longrightarrow> dec bs = Inr x"
    and enc_ok: "good x \<Longrightarrow> \<exists>bs. enc x = Inr bs"
begin

lemma enc_inj:
  assumes "good x" "good y" "enc x = enc y"
  shows "x = y"
proof -
  obtain bs where x: "enc x = Inr bs" using enc_ok [OF assms(1)] by blast
  then have y: "enc y = Inr bs" by (simp only: assms(3))
  have "Inr x = (Inr y :: exn + 'a)"
    by (simp only: dec_enc [OF assms(1) x, symmetric] dec_enc [OF assms(2) y, symmetric])
  then show ?thesis by simp
qed

lemma transported:
  assumes "good x"
  shows "\<exists>bs. enc x = Inr bs \<and> dec bs = Inr x"
  using assms dec_enc enc_ok by blast

end

end
