(* ===== verification/Contracts.thy ===== *)
theory Contracts
  imports Struct_Codec
begin

section \<open>Wire records: contracts/v1/generated/contracts.py\<close>

text \<open>
  The thirteen record classes every service exchanges through the two streams. Each Python
  \<open>NamedTuple\<close> is a constructor of \<open>wire\<close>: the five header fields are the record \<open>header\<close>,
  the rest are the constructor's own, in the order of the class, and \<open>isinstance\<close> is the
  constructor's discriminator \<open>is_X\<close>. Each class's constants (\<open>FORMAT\<close>, \<open>SIZE\<close>, \<open>RECORD_TYPE\<close>,
  \<open>OFFSETS\<close>) and its constructor-from-a-tuple are a value of \<open>record_class\<close>; \<open>X_new\<close> is the
  class's \<open>new\<close>. \<open>pack\<close>, \<open>unpack\<close>, \<open>unpack_any\<close>, \<open>parse_stream_id\<close> and \<open>with_seq\<close> follow.

  Field values are Python integers, so a record may hold values that do not fit its format;
  \<open>pack\<close> raises on them. The main result is that a record whose header names its own class
  and whose values fit comes back from \<open>unpack_any\<close> as it was.
\<close>

subsection \<open>Enumerations and header constants\<close>

definition SCHEMA_VERSION :: int where "SCHEMA_VERSION = 2"
definition SEQ_UNASSIGNED :: int where "SEQ_UNASSIGNED = 0"

definition Side_BUY :: int where "Side_BUY = 1"
definition Side_SELL :: int where "Side_SELL = 2"
definition Tif_GTC :: int where "Tif_GTC = 1"
definition Tif_IOC :: int where "Tif_IOC = 2"
definition CancelReason_USER_REQUESTED :: int where "CancelReason_USER_REQUESTED = 1"
definition CancelReason_IOC_EXPIRED :: int where "CancelReason_IOC_EXPIRED = 2"
definition RejectReason_UNKNOWN_SYMBOL :: int where "RejectReason_UNKNOWN_SYMBOL = 1"
definition RejectReason_INVALID_PRICE :: int where "RejectReason_INVALID_PRICE = 2"
definition RejectReason_INVALID_QUANTITY :: int where "RejectReason_INVALID_QUANTITY = 3"
definition RejectReason_INVALID_SIDE :: int where "RejectReason_INVALID_SIDE = 4"
definition RejectReason_INVALID_TIF :: int where "RejectReason_INVALID_TIF = 5"
definition RejectReason_INSUFFICIENT_CASH :: int where "RejectReason_INSUFFICIENT_CASH = 6"
definition RejectReason_INSUFFICIENT_POSITION :: int where "RejectReason_INSUFFICIENT_POSITION = 7"
definition RejectReason_UNKNOWN_ORDER :: int where "RejectReason_UNKNOWN_ORDER = 8"
definition RejectReason_NOT_ORDER_OWNER :: int where "RejectReason_NOT_ORDER_OWNER = 9"
definition RejectReason_DUPLICATE_CLIENT_ORDER_ID :: int where "RejectReason_DUPLICATE_CLIENT_ORDER_ID = 10"
definition RejectReason_EXCHANGE_HALTED :: int where "RejectReason_EXCHANGE_HALTED = 11"
definition RejectReason_ACCOUNT_NOT_FOUND :: int where "RejectReason_ACCOUNT_NOT_FOUND = 12"
definition RejectReason_ACCOUNT_ALREADY_EXISTS :: int where "RejectReason_ACCOUNT_ALREADY_EXISTS = 13"

lemmas enum_defs =
  Side_BUY_def Side_SELL_def Tif_GTC_def
  Tif_IOC_def CancelReason_USER_REQUESTED_def CancelReason_IOC_EXPIRED_def
  RejectReason_UNKNOWN_SYMBOL_def RejectReason_INVALID_PRICE_def RejectReason_INVALID_QUANTITY_def
  RejectReason_INVALID_SIDE_def RejectReason_INVALID_TIF_def RejectReason_INSUFFICIENT_CASH_def
  RejectReason_INSUFFICIENT_POSITION_def RejectReason_UNKNOWN_ORDER_def RejectReason_NOT_ORDER_OWNER_def
  RejectReason_DUPLICATE_CLIENT_ORDER_ID_def RejectReason_EXCHANGE_HALTED_def RejectReason_ACCOUNT_NOT_FOUND_def
  RejectReason_ACCOUNT_ALREADY_EXISTS_def

record header =
  schema_version :: int
  record_type :: int
  seq_ms :: int
  seq_ord :: int
  timestamp_ns :: int

subsection \<open>The record classes\<close>

datatype wire =
    is_SubmitOrder: SubmitOrder (hdr: header)
      (client_order_id: int) (user_id: int) (price_ticks: int) (qty: int) (symbol_id: int)
      (side: int) (tif: int)
  | is_CancelOrder: CancelOrder (hdr: header)
      (client_order_id: int) (user_id: int) (target_client_order_id: int)
  | is_CreateAccount: CreateAccount (hdr: header)
      (client_order_id: int) (user_id: int)
  | is_CreditCash: CreditCash (hdr: header)
      (client_order_id: int) (user_id: int) (amount_ticks: int)
  | is_ConfigureReplay: ConfigureReplay (hdr: header)
      (client_order_id: int) (real_seconds_per_simulated_minute: int) (config_hash_hi: int)
      (config_hash_lo: int)
  | is_OrderAccepted: OrderAccepted (hdr: header)
      (order_id: int) (client_order_id: int) (user_id: int) (price_ticks: int) (qty: int)
      (symbol_id: int) (side: int) (tif: int)
  | is_OrderRejected: OrderRejected (hdr: header)
      (client_order_id: int) (user_id: int) (symbol_id: int) (reason: int)
  | is_Fill: Fill (hdr: header)
      (maker_order_id: int) (taker_order_id: int) (maker_user_id: int) (taker_user_id: int)
      (price_ticks: int) (qty: int) (symbol_id: int) (aggressor_side: int)
  | is_OrderCancelled: OrderCancelled (hdr: header)
      (order_id: int) (client_order_id: int) (user_id: int) (remaining_qty: int)
      (symbol_id: int) (reason: int)
  | is_BookChanged: BookChanged (hdr: header)
      (price_ticks: int) (qty_at_level: int) (symbol_id: int) (side: int)
  | is_AccountCreated: AccountCreated (hdr: header)
      (client_order_id: int) (user_id: int) (initial_cash_ticks: int)
  | is_CashCredited: CashCredited (hdr: header)
      (client_order_id: int) (user_id: int) (amount_ticks: int)
  | is_ReplayConfigured: ReplayConfigured (hdr: header)
      (client_order_id: int) (real_seconds_per_simulated_minute: int) (config_hash_hi: int)
      (config_hash_lo: int)

definition header_values :: "header \<Rightarrow> int list" where
  "header_values h = [schema_version h, record_type h, seq_ms h, seq_ord h, timestamp_ns h]"

definition mk_header :: "int \<Rightarrow> int \<Rightarrow> int \<Rightarrow> int \<Rightarrow> int \<Rightarrow> header" where
  "mk_header sv rt ms ord ts =
     \<lparr> schema_version = sv, record_type = rt, seq_ms = ms, seq_ord = ord, timestamp_ns = ts \<rparr>"

text \<open>The header every \<open>new\<close> builds: the class's own type, and no sequence number yet.\<close>

definition new_header :: "int \<Rightarrow> int \<Rightarrow> header" where
  "new_header rt ts = mk_header SCHEMA_VERSION rt SEQ_UNASSIGNED SEQ_UNASSIGNED ts"

record record_class =
  FORMAT :: "fmt list"
  SIZE :: nat
  RECORD_TYPE :: int
  OFFSETS :: "(string \<times> nat) list"
  of_tuple :: "int list \<Rightarrow> wire option"

text \<open>A record as the tuple it is.\<close>

fun wire_values :: "wire \<Rightarrow> int list" where
  "wire_values (SubmitOrder h x0 x1 x2 x3 x4 x5 x6) =
     header_values h @ [x0, x1, x2, x3, x4, x5, x6]"
| "wire_values (CancelOrder h x0 x1 x2) =
     header_values h @ [x0, x1, x2]"
| "wire_values (CreateAccount h x0 x1) =
     header_values h @ [x0, x1]"
| "wire_values (CreditCash h x0 x1 x2) =
     header_values h @ [x0, x1, x2]"
| "wire_values (ConfigureReplay h x0 x1 x2 x3) =
     header_values h @ [x0, x1, x2, x3]"
| "wire_values (OrderAccepted h x0 x1 x2 x3 x4 x5 x6 x7) =
     header_values h @ [x0, x1, x2, x3, x4, x5, x6, x7]"
| "wire_values (OrderRejected h x0 x1 x2 x3) =
     header_values h @ [x0, x1, x2, x3]"
| "wire_values (Fill h x0 x1 x2 x3 x4 x5 x6 x7) =
     header_values h @ [x0, x1, x2, x3, x4, x5, x6, x7]"
| "wire_values (OrderCancelled h x0 x1 x2 x3 x4 x5) =
     header_values h @ [x0, x1, x2, x3, x4, x5]"
| "wire_values (BookChanged h x0 x1 x2 x3) =
     header_values h @ [x0, x1, x2, x3]"
| "wire_values (AccountCreated h x0 x1 x2) =
     header_values h @ [x0, x1, x2]"
| "wire_values (CashCredited h x0 x1 x2) =
     header_values h @ [x0, x1, x2]"
| "wire_values (ReplayConfigured h x0 x1 x2 x3) =
     header_values h @ [x0, x1, x2, x3]"

fun SubmitOrder_of_tuple :: "int list \<Rightarrow> wire option" where
  "SubmitOrder_of_tuple [sv, rt, ms, ord, ts, x0, x1, x2, x3, x4, x5, x6] =
     Some (SubmitOrder (mk_header sv rt ms ord ts) x0 x1 x2 x3 x4 x5 x6)"
| "SubmitOrder_of_tuple _ = None"

definition SubmitOrder_cls :: record_class where
  "SubmitOrder_cls = \<lparr>
     FORMAT = [FH, FH, FQ, FQ, Fq, FQ, FQ, Fq, Fq, Fh, FB, FB],
     SIZE = 64, RECORD_TYPE = 1,
     OFFSETS = [(''schema_version'', 0), (''record_type'', 2), (''seq_ms'', 4),
       (''seq_ord'', 12), (''timestamp_ns'', 20), (''client_order_id'', 28), (''user_id'', 36),
       (''price_ticks'', 44), (''qty'', 52), (''symbol_id'', 60), (''side'', 62),
       (''tif'', 63)],
     of_tuple = SubmitOrder_of_tuple \<rparr>"

definition SubmitOrder_new :: "int \<Rightarrow> int \<Rightarrow> int \<Rightarrow> int \<Rightarrow> int \<Rightarrow> int \<Rightarrow> int \<Rightarrow> int \<Rightarrow> wire" where
  "SubmitOrder_new ts client_order_id' user_id' price_ticks' qty' symbol_id' side' tif' =
     SubmitOrder (new_header 1 ts) client_order_id' user_id' price_ticks' qty' symbol_id' side' tif'"

fun CancelOrder_of_tuple :: "int list \<Rightarrow> wire option" where
  "CancelOrder_of_tuple [sv, rt, ms, ord, ts, x0, x1, x2] =
     Some (CancelOrder (mk_header sv rt ms ord ts) x0 x1 x2)"
| "CancelOrder_of_tuple _ = None"

definition CancelOrder_cls :: record_class where
  "CancelOrder_cls = \<lparr>
     FORMAT = [FH, FH, FQ, FQ, Fq, FQ, FQ, FQ],
     SIZE = 52, RECORD_TYPE = 2,
     OFFSETS = [(''schema_version'', 0), (''record_type'', 2), (''seq_ms'', 4),
       (''seq_ord'', 12), (''timestamp_ns'', 20), (''client_order_id'', 28), (''user_id'', 36),
       (''target_client_order_id'', 44)],
     of_tuple = CancelOrder_of_tuple \<rparr>"

definition CancelOrder_new :: "int \<Rightarrow> int \<Rightarrow> int \<Rightarrow> int \<Rightarrow> wire" where
  "CancelOrder_new ts client_order_id' user_id' target_client_order_id' =
     CancelOrder (new_header 2 ts) client_order_id' user_id' target_client_order_id'"

fun CreateAccount_of_tuple :: "int list \<Rightarrow> wire option" where
  "CreateAccount_of_tuple [sv, rt, ms, ord, ts, x0, x1] =
     Some (CreateAccount (mk_header sv rt ms ord ts) x0 x1)"
| "CreateAccount_of_tuple _ = None"

definition CreateAccount_cls :: record_class where
  "CreateAccount_cls = \<lparr>
     FORMAT = [FH, FH, FQ, FQ, Fq, FQ, FQ],
     SIZE = 44, RECORD_TYPE = 3,
     OFFSETS = [(''schema_version'', 0), (''record_type'', 2), (''seq_ms'', 4),
       (''seq_ord'', 12), (''timestamp_ns'', 20), (''client_order_id'', 28), (''user_id'', 36)],
     of_tuple = CreateAccount_of_tuple \<rparr>"

definition CreateAccount_new :: "int \<Rightarrow> int \<Rightarrow> int \<Rightarrow> wire" where
  "CreateAccount_new ts client_order_id' user_id' =
     CreateAccount (new_header 3 ts) client_order_id' user_id'"

fun CreditCash_of_tuple :: "int list \<Rightarrow> wire option" where
  "CreditCash_of_tuple [sv, rt, ms, ord, ts, x0, x1, x2] =
     Some (CreditCash (mk_header sv rt ms ord ts) x0 x1 x2)"
| "CreditCash_of_tuple _ = None"

definition CreditCash_cls :: record_class where
  "CreditCash_cls = \<lparr>
     FORMAT = [FH, FH, FQ, FQ, Fq, FQ, FQ, Fq],
     SIZE = 52, RECORD_TYPE = 4,
     OFFSETS = [(''schema_version'', 0), (''record_type'', 2), (''seq_ms'', 4),
       (''seq_ord'', 12), (''timestamp_ns'', 20), (''client_order_id'', 28), (''user_id'', 36),
       (''amount_ticks'', 44)],
     of_tuple = CreditCash_of_tuple \<rparr>"

definition CreditCash_new :: "int \<Rightarrow> int \<Rightarrow> int \<Rightarrow> int \<Rightarrow> wire" where
  "CreditCash_new ts client_order_id' user_id' amount_ticks' =
     CreditCash (new_header 4 ts) client_order_id' user_id' amount_ticks'"

fun ConfigureReplay_of_tuple :: "int list \<Rightarrow> wire option" where
  "ConfigureReplay_of_tuple [sv, rt, ms, ord, ts, x0, x1, x2, x3] =
     Some (ConfigureReplay (mk_header sv rt ms ord ts) x0 x1 x2 x3)"
| "ConfigureReplay_of_tuple _ = None"

definition ConfigureReplay_cls :: record_class where
  "ConfigureReplay_cls = \<lparr>
     FORMAT = [FH, FH, FQ, FQ, Fq, FQ, Fq, FQ, FQ],
     SIZE = 60, RECORD_TYPE = 5,
     OFFSETS = [(''schema_version'', 0), (''record_type'', 2), (''seq_ms'', 4),
       (''seq_ord'', 12), (''timestamp_ns'', 20), (''client_order_id'', 28),
       (''real_seconds_per_simulated_minute'', 36), (''config_hash_hi'', 44),
       (''config_hash_lo'', 52)],
     of_tuple = ConfigureReplay_of_tuple \<rparr>"

definition ConfigureReplay_new :: "int \<Rightarrow> int \<Rightarrow> int \<Rightarrow> int \<Rightarrow> int \<Rightarrow> wire" where
  "ConfigureReplay_new ts client_order_id' real_seconds_per_simulated_minute' config_hash_hi' config_hash_lo' =
     ConfigureReplay (new_header 5 ts) client_order_id' real_seconds_per_simulated_minute' config_hash_hi' config_hash_lo'"

fun OrderAccepted_of_tuple :: "int list \<Rightarrow> wire option" where
  "OrderAccepted_of_tuple [sv, rt, ms, ord, ts, x0, x1, x2, x3, x4, x5, x6, x7] =
     Some (OrderAccepted (mk_header sv rt ms ord ts) x0 x1 x2 x3 x4 x5 x6 x7)"
| "OrderAccepted_of_tuple _ = None"

definition OrderAccepted_cls :: record_class where
  "OrderAccepted_cls = \<lparr>
     FORMAT = [FH, FH, FQ, FQ, Fq, FQ, FQ, FQ, Fq, Fq, Fh, FB, FB],
     SIZE = 72, RECORD_TYPE = 10,
     OFFSETS = [(''schema_version'', 0), (''record_type'', 2), (''seq_ms'', 4),
       (''seq_ord'', 12), (''timestamp_ns'', 20), (''order_id'', 28),
       (''client_order_id'', 36), (''user_id'', 44), (''price_ticks'', 52), (''qty'', 60),
       (''symbol_id'', 68), (''side'', 70), (''tif'', 71)],
     of_tuple = OrderAccepted_of_tuple \<rparr>"

definition OrderAccepted_new :: "int \<Rightarrow> int \<Rightarrow> int \<Rightarrow> int \<Rightarrow> int \<Rightarrow> int \<Rightarrow> int \<Rightarrow> int \<Rightarrow> int \<Rightarrow> wire" where
  "OrderAccepted_new ts order_id' client_order_id' user_id' price_ticks' qty' symbol_id' side' tif' =
     OrderAccepted (new_header 10 ts) order_id' client_order_id' user_id' price_ticks' qty' symbol_id' side' tif'"

fun OrderRejected_of_tuple :: "int list \<Rightarrow> wire option" where
  "OrderRejected_of_tuple [sv, rt, ms, ord, ts, x0, x1, x2, x3] =
     Some (OrderRejected (mk_header sv rt ms ord ts) x0 x1 x2 x3)"
| "OrderRejected_of_tuple _ = None"

definition OrderRejected_cls :: record_class where
  "OrderRejected_cls = \<lparr>
     FORMAT = [FH, FH, FQ, FQ, Fq, FQ, FQ, Fh, FH],
     SIZE = 48, RECORD_TYPE = 11,
     OFFSETS = [(''schema_version'', 0), (''record_type'', 2), (''seq_ms'', 4),
       (''seq_ord'', 12), (''timestamp_ns'', 20), (''client_order_id'', 28), (''user_id'', 36),
       (''symbol_id'', 44), (''reason'', 46)],
     of_tuple = OrderRejected_of_tuple \<rparr>"

definition OrderRejected_new :: "int \<Rightarrow> int \<Rightarrow> int \<Rightarrow> int \<Rightarrow> int \<Rightarrow> wire" where
  "OrderRejected_new ts client_order_id' user_id' symbol_id' reason' =
     OrderRejected (new_header 11 ts) client_order_id' user_id' symbol_id' reason'"

fun Fill_of_tuple :: "int list \<Rightarrow> wire option" where
  "Fill_of_tuple [sv, rt, ms, ord, ts, x0, x1, x2, x3, x4, x5, x6, x7] =
     Some (Fill (mk_header sv rt ms ord ts) x0 x1 x2 x3 x4 x5 x6 x7)"
| "Fill_of_tuple _ = None"

definition Fill_cls :: record_class where
  "Fill_cls = \<lparr>
     FORMAT = [FH, FH, FQ, FQ, Fq, FQ, FQ, FQ, FQ, Fq, Fq, Fh, FB],
     SIZE = 79, RECORD_TYPE = 12,
     OFFSETS = [(''schema_version'', 0), (''record_type'', 2), (''seq_ms'', 4),
       (''seq_ord'', 12), (''timestamp_ns'', 20), (''maker_order_id'', 28),
       (''taker_order_id'', 36), (''maker_user_id'', 44), (''taker_user_id'', 52),
       (''price_ticks'', 60), (''qty'', 68), (''symbol_id'', 76), (''aggressor_side'', 78)],
     of_tuple = Fill_of_tuple \<rparr>"

definition Fill_new :: "int \<Rightarrow> int \<Rightarrow> int \<Rightarrow> int \<Rightarrow> int \<Rightarrow> int \<Rightarrow> int \<Rightarrow> int \<Rightarrow> int \<Rightarrow> wire" where
  "Fill_new ts maker_order_id' taker_order_id' maker_user_id' taker_user_id' price_ticks' qty' symbol_id' aggressor_side' =
     Fill (new_header 12 ts) maker_order_id' taker_order_id' maker_user_id' taker_user_id' price_ticks' qty' symbol_id' aggressor_side'"

fun OrderCancelled_of_tuple :: "int list \<Rightarrow> wire option" where
  "OrderCancelled_of_tuple [sv, rt, ms, ord, ts, x0, x1, x2, x3, x4, x5] =
     Some (OrderCancelled (mk_header sv rt ms ord ts) x0 x1 x2 x3 x4 x5)"
| "OrderCancelled_of_tuple _ = None"

definition OrderCancelled_cls :: record_class where
  "OrderCancelled_cls = \<lparr>
     FORMAT = [FH, FH, FQ, FQ, Fq, FQ, FQ, FQ, Fq, Fh, FB],
     SIZE = 63, RECORD_TYPE = 13,
     OFFSETS = [(''schema_version'', 0), (''record_type'', 2), (''seq_ms'', 4),
       (''seq_ord'', 12), (''timestamp_ns'', 20), (''order_id'', 28),
       (''client_order_id'', 36), (''user_id'', 44), (''remaining_qty'', 52),
       (''symbol_id'', 60), (''reason'', 62)],
     of_tuple = OrderCancelled_of_tuple \<rparr>"

definition OrderCancelled_new :: "int \<Rightarrow> int \<Rightarrow> int \<Rightarrow> int \<Rightarrow> int \<Rightarrow> int \<Rightarrow> int \<Rightarrow> wire" where
  "OrderCancelled_new ts order_id' client_order_id' user_id' remaining_qty' symbol_id' reason' =
     OrderCancelled (new_header 13 ts) order_id' client_order_id' user_id' remaining_qty' symbol_id' reason'"

fun BookChanged_of_tuple :: "int list \<Rightarrow> wire option" where
  "BookChanged_of_tuple [sv, rt, ms, ord, ts, x0, x1, x2, x3] =
     Some (BookChanged (mk_header sv rt ms ord ts) x0 x1 x2 x3)"
| "BookChanged_of_tuple _ = None"

definition BookChanged_cls :: record_class where
  "BookChanged_cls = \<lparr>
     FORMAT = [FH, FH, FQ, FQ, Fq, Fq, Fq, Fh, FB],
     SIZE = 47, RECORD_TYPE = 14,
     OFFSETS = [(''schema_version'', 0), (''record_type'', 2), (''seq_ms'', 4),
       (''seq_ord'', 12), (''timestamp_ns'', 20), (''price_ticks'', 28),
       (''qty_at_level'', 36), (''symbol_id'', 44), (''side'', 46)],
     of_tuple = BookChanged_of_tuple \<rparr>"

definition BookChanged_new :: "int \<Rightarrow> int \<Rightarrow> int \<Rightarrow> int \<Rightarrow> int \<Rightarrow> wire" where
  "BookChanged_new ts price_ticks' qty_at_level' symbol_id' side' =
     BookChanged (new_header 14 ts) price_ticks' qty_at_level' symbol_id' side'"

fun AccountCreated_of_tuple :: "int list \<Rightarrow> wire option" where
  "AccountCreated_of_tuple [sv, rt, ms, ord, ts, x0, x1, x2] =
     Some (AccountCreated (mk_header sv rt ms ord ts) x0 x1 x2)"
| "AccountCreated_of_tuple _ = None"

definition AccountCreated_cls :: record_class where
  "AccountCreated_cls = \<lparr>
     FORMAT = [FH, FH, FQ, FQ, Fq, FQ, FQ, Fq],
     SIZE = 52, RECORD_TYPE = 15,
     OFFSETS = [(''schema_version'', 0), (''record_type'', 2), (''seq_ms'', 4),
       (''seq_ord'', 12), (''timestamp_ns'', 20), (''client_order_id'', 28), (''user_id'', 36),
       (''initial_cash_ticks'', 44)],
     of_tuple = AccountCreated_of_tuple \<rparr>"

definition AccountCreated_new :: "int \<Rightarrow> int \<Rightarrow> int \<Rightarrow> int \<Rightarrow> wire" where
  "AccountCreated_new ts client_order_id' user_id' initial_cash_ticks' =
     AccountCreated (new_header 15 ts) client_order_id' user_id' initial_cash_ticks'"

fun CashCredited_of_tuple :: "int list \<Rightarrow> wire option" where
  "CashCredited_of_tuple [sv, rt, ms, ord, ts, x0, x1, x2] =
     Some (CashCredited (mk_header sv rt ms ord ts) x0 x1 x2)"
| "CashCredited_of_tuple _ = None"

definition CashCredited_cls :: record_class where
  "CashCredited_cls = \<lparr>
     FORMAT = [FH, FH, FQ, FQ, Fq, FQ, FQ, Fq],
     SIZE = 52, RECORD_TYPE = 16,
     OFFSETS = [(''schema_version'', 0), (''record_type'', 2), (''seq_ms'', 4),
       (''seq_ord'', 12), (''timestamp_ns'', 20), (''client_order_id'', 28), (''user_id'', 36),
       (''amount_ticks'', 44)],
     of_tuple = CashCredited_of_tuple \<rparr>"

definition CashCredited_new :: "int \<Rightarrow> int \<Rightarrow> int \<Rightarrow> int \<Rightarrow> wire" where
  "CashCredited_new ts client_order_id' user_id' amount_ticks' =
     CashCredited (new_header 16 ts) client_order_id' user_id' amount_ticks'"

fun ReplayConfigured_of_tuple :: "int list \<Rightarrow> wire option" where
  "ReplayConfigured_of_tuple [sv, rt, ms, ord, ts, x0, x1, x2, x3] =
     Some (ReplayConfigured (mk_header sv rt ms ord ts) x0 x1 x2 x3)"
| "ReplayConfigured_of_tuple _ = None"

definition ReplayConfigured_cls :: record_class where
  "ReplayConfigured_cls = \<lparr>
     FORMAT = [FH, FH, FQ, FQ, Fq, FQ, Fq, FQ, FQ],
     SIZE = 60, RECORD_TYPE = 17,
     OFFSETS = [(''schema_version'', 0), (''record_type'', 2), (''seq_ms'', 4),
       (''seq_ord'', 12), (''timestamp_ns'', 20), (''client_order_id'', 28),
       (''real_seconds_per_simulated_minute'', 36), (''config_hash_hi'', 44),
       (''config_hash_lo'', 52)],
     of_tuple = ReplayConfigured_of_tuple \<rparr>"

definition ReplayConfigured_new :: "int \<Rightarrow> int \<Rightarrow> int \<Rightarrow> int \<Rightarrow> int \<Rightarrow> wire" where
  "ReplayConfigured_new ts client_order_id' real_seconds_per_simulated_minute' config_hash_hi' config_hash_lo' =
     ReplayConfigured (new_header 17 ts) client_order_id' real_seconds_per_simulated_minute' config_hash_hi' config_hash_lo'"

fun_cases SubmitOrder_of_tuple_elim: "SubmitOrder_of_tuple vs = Some r"
fun_cases CancelOrder_of_tuple_elim: "CancelOrder_of_tuple vs = Some r"
fun_cases CreateAccount_of_tuple_elim: "CreateAccount_of_tuple vs = Some r"
fun_cases CreditCash_of_tuple_elim: "CreditCash_of_tuple vs = Some r"
fun_cases ConfigureReplay_of_tuple_elim: "ConfigureReplay_of_tuple vs = Some r"
fun_cases OrderAccepted_of_tuple_elim: "OrderAccepted_of_tuple vs = Some r"
fun_cases OrderRejected_of_tuple_elim: "OrderRejected_of_tuple vs = Some r"
fun_cases Fill_of_tuple_elim: "Fill_of_tuple vs = Some r"
fun_cases OrderCancelled_of_tuple_elim: "OrderCancelled_of_tuple vs = Some r"
fun_cases BookChanged_of_tuple_elim: "BookChanged_of_tuple vs = Some r"
fun_cases AccountCreated_of_tuple_elim: "AccountCreated_of_tuple vs = Some r"
fun_cases CashCredited_of_tuple_elim: "CashCredited_of_tuple vs = Some r"
fun_cases ReplayConfigured_of_tuple_elim: "ReplayConfigured_of_tuple vs = Some r"

lemmas of_tuple_elims =
  SubmitOrder_of_tuple_elim CancelOrder_of_tuple_elim CreateAccount_of_tuple_elim
  CreditCash_of_tuple_elim ConfigureReplay_of_tuple_elim OrderAccepted_of_tuple_elim
  OrderRejected_of_tuple_elim Fill_of_tuple_elim OrderCancelled_of_tuple_elim
  BookChanged_of_tuple_elim AccountCreated_of_tuple_elim CashCredited_of_tuple_elim
  ReplayConfigured_of_tuple_elim

lemmas new_defs =
  SubmitOrder_new_def CancelOrder_new_def CreateAccount_new_def
  CreditCash_new_def ConfigureReplay_new_def OrderAccepted_new_def
  OrderRejected_new_def Fill_new_def OrderCancelled_new_def
  BookChanged_new_def AccountCreated_new_def CashCredited_new_def
  ReplayConfigured_new_def

lemmas cls_defs =
  SubmitOrder_cls_def CancelOrder_cls_def CreateAccount_cls_def
  CreditCash_cls_def ConfigureReplay_cls_def OrderAccepted_cls_def
  OrderRejected_cls_def Fill_cls_def OrderCancelled_cls_def
  BookChanged_cls_def AccountCreated_cls_def CashCredited_cls_def
  ReplayConfigured_cls_def

fun class_of :: "wire \<Rightarrow> record_class" where
  "class_of (SubmitOrder _ _ _ _ _ _ _ _) = SubmitOrder_cls"
| "class_of (CancelOrder _ _ _ _) = CancelOrder_cls"
| "class_of (CreateAccount _ _ _) = CreateAccount_cls"
| "class_of (CreditCash _ _ _ _) = CreditCash_cls"
| "class_of (ConfigureReplay _ _ _ _ _) = ConfigureReplay_cls"
| "class_of (OrderAccepted _ _ _ _ _ _ _ _ _) = OrderAccepted_cls"
| "class_of (OrderRejected _ _ _ _ _) = OrderRejected_cls"
| "class_of (Fill _ _ _ _ _ _ _ _ _) = Fill_cls"
| "class_of (OrderCancelled _ _ _ _ _ _ _) = OrderCancelled_cls"
| "class_of (BookChanged _ _ _ _ _) = BookChanged_cls"
| "class_of (AccountCreated _ _ _ _) = AccountCreated_cls"
| "class_of (CashCredited _ _ _ _) = CashCredited_cls"
| "class_of (ReplayConfigured _ _ _ _ _) = ReplayConfigured_cls"

definition RECORD_BY_TYPE :: "(int, record_class) dict" where
  "RECORD_BY_TYPE = [
     (1, SubmitOrder_cls),
     (2, CancelOrder_cls),
     (3, CreateAccount_cls),
     (4, CreditCash_cls),
     (5, ConfigureReplay_cls),
     (10, OrderAccepted_cls),
     (11, OrderRejected_cls),
     (12, Fill_cls),
     (13, OrderCancelled_cls),
     (14, BookChanged_cls),
     (15, AccountCreated_cls),
     (16, CashCredited_cls),
     (17, ReplayConfigured_cls)]"

definition ALL_RECORDS :: "record_class list" where
  "ALL_RECORDS = dvalues RECORD_BY_TYPE"

subsection \<open>Packing and unpacking\<close>

definition pack :: "wire \<Rightarrow> exn + bytes" where
  "pack r = struct_pack (FORMAT (class_of r)) (wire_values r)"

text \<open>\<open>cls(*_S.unpack(data))\<close>.\<close>

definition unpack :: "record_class \<Rightarrow> bytes \<Rightarrow> exn + wire" where
  "unpack c bs =
     (case struct_unpack (FORMAT c) bs of
        Inl e \<Rightarrow> Inl e
      | Inr vs \<Rightarrow> (case of_tuple c vs of None \<Rightarrow> Inl TypeError | Some r \<Rightarrow> Inr r))"

definition peek_schema_version :: "bytes \<Rightarrow> exn + int" where
  "peek_schema_version bs = unpack_from FH bs 0"

definition peek_record_type :: "bytes \<Rightarrow> exn + int" where
  "peek_record_type bs = unpack_from FH bs 2"

definition unpack_any :: "bytes \<Rightarrow> exn + wire" where
  "unpack_any bs =
     (case peek_schema_version bs of
        Inl e \<Rightarrow> Inl e
      | Inr sv \<Rightarrow>
          if sv \<noteq> SCHEMA_VERSION then Inl ValueError
          else (case peek_record_type bs of
                  Inl e \<Rightarrow> Inl e
                | Inr rt \<Rightarrow>
                    (case dget RECORD_BY_TYPE rt of
                       None \<Rightarrow> Inl ValueError
                     | Some c \<Rightarrow> unpack c bs)))"

definition parse_stream_id :: "string \<Rightarrow> exn + (int \<times> int)" where
  "parse_stream_id s =
     (let (ms, ordinal) = partition_at CHR ''-'' s
      in case parse_int ms of
           Inl e \<Rightarrow> Inl e
         | Inr a \<Rightarrow> (case parse_int ordinal of Inl e \<Rightarrow> Inl e | Inr b \<Rightarrow> Inr (a, b)))"

fun set_hdr :: "(header \<Rightarrow> header) \<Rightarrow> wire \<Rightarrow> wire" where
  "set_hdr f (SubmitOrder h x0 x1 x2 x3 x4 x5 x6) = SubmitOrder (f h) x0 x1 x2 x3 x4 x5 x6"
| "set_hdr f (CancelOrder h x0 x1 x2) = CancelOrder (f h) x0 x1 x2"
| "set_hdr f (CreateAccount h x0 x1) = CreateAccount (f h) x0 x1"
| "set_hdr f (CreditCash h x0 x1 x2) = CreditCash (f h) x0 x1 x2"
| "set_hdr f (ConfigureReplay h x0 x1 x2 x3) = ConfigureReplay (f h) x0 x1 x2 x3"
| "set_hdr f (OrderAccepted h x0 x1 x2 x3 x4 x5 x6 x7) = OrderAccepted (f h) x0 x1 x2 x3 x4 x5 x6 x7"
| "set_hdr f (OrderRejected h x0 x1 x2 x3) = OrderRejected (f h) x0 x1 x2 x3"
| "set_hdr f (Fill h x0 x1 x2 x3 x4 x5 x6 x7) = Fill (f h) x0 x1 x2 x3 x4 x5 x6 x7"
| "set_hdr f (OrderCancelled h x0 x1 x2 x3 x4 x5) = OrderCancelled (f h) x0 x1 x2 x3 x4 x5"
| "set_hdr f (BookChanged h x0 x1 x2 x3) = BookChanged (f h) x0 x1 x2 x3"
| "set_hdr f (AccountCreated h x0 x1 x2) = AccountCreated (f h) x0 x1 x2"
| "set_hdr f (CashCredited h x0 x1 x2) = CashCredited (f h) x0 x1 x2"
| "set_hdr f (ReplayConfigured h x0 x1 x2 x3) = ReplayConfigured (f h) x0 x1 x2 x3"

definition with_seq :: "wire \<Rightarrow> string \<Rightarrow> exn + wire" where
  "with_seq r s =
     (case parse_stream_id s of
        Inl e \<Rightarrow> Inl e
      | Inr (ms, ord) \<Rightarrow> Inr (set_hdr (\<lambda>h. h\<lparr>seq_ms := ms, seq_ord := ord\<rparr>) r))"

text \<open>The text of the id Redis assigns: \<open>ms-ord\<close>.\<close>

definition stream_id :: "int \<Rightarrow> int \<Rightarrow> string" where
  "stream_id ms ord = str_int ms @ CHR ''-'' # str_int ord"

subsection \<open>Layout: the constants of every class agree with its format\<close>

fun field_offsets :: "nat \<Rightarrow> fmt list \<Rightarrow> nat list" where
  "field_offsets n [] = []"
| "field_offsets n (f # fs) = n # field_offsets (n + fmt_size f) fs"

definition layout_ok :: "record_class \<Rightarrow> bool" where
  "layout_ok c \<longleftrightarrow>
     struct_size (FORMAT c) = SIZE c \<and>
     map snd (OFFSETS c) = field_offsets 0 (FORMAT c) \<and>
     take 2 (FORMAT c) = [FH, FH]"

lemma all_layouts: "list_all layout_ok ALL_RECORDS"
  by (simp add: ALL_RECORDS_def RECORD_BY_TYPE_def layout_ok_def cls_defs)

lemma wire_class_registered: "dget RECORD_BY_TYPE (RECORD_TYPE (class_of r)) = Some (class_of r)"
  by (cases r) (simp_all add: RECORD_BY_TYPE_def cls_defs)

lemma of_tuple_values: "of_tuple (class_of r) (wire_values r) = Some r"
  by (cases r) (simp_all add: cls_defs header_values_def mk_header_def)

lemma hdr_values: "\<exists>ws. wire_values r = schema_version (hdr r) # record_type (hdr r) # ws"
  by (cases r) (simp_all add: header_values_def)

lemma format_prefix: "\<exists>fs. FORMAT (class_of r) = FH # FH # fs"
  by (cases r) (simp_all add: cls_defs)

subsection \<open>Round trip\<close>

text \<open>
  A record is well formed when its header names its class and the current schema version and
  every value fits its field. Records built by \<open>new\<close> satisfy the first two by construction.
\<close>

definition fits_class :: "wire \<Rightarrow> bool" where
  "fits_class r \<longleftrightarrow> list_all2 fits (FORMAT (class_of r)) (wire_values r)"

definition wf_wire :: "wire \<Rightarrow> bool" where
  "wf_wire r \<longleftrightarrow>
     schema_version (hdr r) = SCHEMA_VERSION \<and>
     record_type (hdr r) = RECORD_TYPE (class_of r) \<and>
     fits_class r"

lemma unpack_pack: "pack r = Inr bs \<Longrightarrow> unpack (class_of r) bs = Inr r"
  by (simp add: pack_def unpack_def struct_unpack_pack of_tuple_values)

lemma peek_head:
  assumes "struct_pack (FH # FH # fs) (a # b # vs) = Inr bs"
  shows "peek_schema_version bs = Inr a" "peek_record_type bs = Inr b"
proof -
  obtain cs where fit: "fits FH a" "fits FH b"
    and bs: "bs = le_bytes (fmt_size FH) a @ le_bytes (fmt_size FH) b @ cs"
    using assms by (auto split: if_splits sum.splits)
  have da: "decode_field FH (le_bytes 2 a) = a"
    using decode_field_le_bytes [OF fit(1)] by simp
  have db: "decode_field FH (le_bytes 2 b) = b"
    using decode_field_le_bytes [OF fit(2)] by simp
  have b': "bs = le_bytes 2 a @ le_bytes 2 b @ cs"
    by (simp only: bs fmt_size.simps)
  have "take 2 bs = le_bytes 2 a" by (simp only: b') (simp del: le_bytes.simps add: take_append)
  with da show "peek_schema_version bs = Inr a"
    by (simp add: peek_schema_version_def unpack_from_def b' del: le_bytes.simps)
  have "take 2 (drop 2 bs) = le_bytes 2 b"
    by (simp only: b') (simp del: le_bytes.simps add: take_append drop_append)
  with db show "peek_record_type bs = Inr b"
    by (simp add: peek_record_type_def unpack_from_def b' del: le_bytes.simps)
qed

lemma unpack_any_pack:
  assumes "wf_wire r" "pack r = Inr bs"
  shows "unpack_any bs = Inr r"
proof -
  obtain fs where f: "FORMAT (class_of r) = FH # FH # fs" using format_prefix by blast
  obtain ws where w: "wire_values r = schema_version (hdr r) # record_type (hdr r) # ws"
    using hdr_values by blast
  have "struct_pack (FH # FH # fs) (schema_version (hdr r) # record_type (hdr r) # ws) = Inr bs"
    using assms(2) by (simp add: pack_def f w)
  note p = peek_head [OF this]
  have "dget RECORD_BY_TYPE (record_type (hdr r)) = Some (class_of r)"
    using assms(1) by (simp add: wf_wire_def wire_class_registered)
  moreover have "schema_version (hdr r) = SCHEMA_VERSION"
    using assms(1) by (simp add: wf_wire_def)
  ultimately show ?thesis
    by (simp add: unpack_any_def p unpack_pack [OF assms(2)])
qed

lemma pack_ok: "wf_wire r \<Longrightarrow> \<exists>bs. pack r = Inr bs"
  by (simp add: wf_wire_def fits_class_def pack_def struct_pack_ok)

interpretation wire: codec pack unpack_any wf_wire
  by unfold_locales (auto intro: unpack_any_pack pack_ok)

lemma parse_stream_id_stream_id:
  assumes "0 \<le> ms" "0 \<le> ord"
  shows "parse_stream_id (stream_id ms ord) = Inr (ms, ord)"
proof -
  have "CHR ''-'' \<notin> set (str_int ms)"
    using assms(1) str_nat_digits [of "CHR ''-''" "nat ms"] by (auto simp: str_int_def is_digit_def)
  with assms show ?thesis
    by (simp add: parse_stream_id_def stream_id_def partition_at_append parse_int_str_int)
qed

lemma with_seq_class [simp]: "class_of (set_hdr f r) = class_of r"
  by (cases r) simp_all

lemma hdr_set_hdr [simp]: "hdr (set_hdr f r) = f (hdr r)"
  by (cases r) simp_all


lemma registered_class: "dget RECORD_BY_TYPE rt = Some c \<Longrightarrow> c \<in> set ALL_RECORDS"
  by (force simp: ALL_RECORDS_def dest: map_of_SomeD)

lemma of_tuple_inverse:
  assumes "c \<in> set ALL_RECORDS" "of_tuple c vs = Some r"
  shows "class_of r = c \<and> wire_values r = vs"
  using assms
  by (auto simp: ALL_RECORDS_def RECORD_BY_TYPE_def cls_defs header_values_def mk_header_def
      elim!: of_tuple_elims)

lemma pack_unpack_any:
  assumes "unpack_any bs = Inr r"
  shows "pack r = Inr bs"
proof -
  obtain rt c vs where c: "dget RECORD_BY_TYPE rt = Some c" "struct_unpack (FORMAT c) bs = Inr vs"
    "of_tuple c vs = Some r"
    using assms by (auto simp: unpack_any_def unpack_def split: sum.splits option.splits if_splits)
  with of_tuple_inverse [OF registered_class] have "class_of r = c" "wire_values r = vs" by auto
  with struct_pack_unpack [OF c(2)] show ?thesis by (simp add: pack_def)
qed

lemma pack_length: "pack r = Inr bs \<Longrightarrow> length bs = SIZE (class_of r)"
proof -
  have "class_of r \<in> set ALL_RECORDS" using wire_class_registered by (rule registered_class)
  then have "struct_size (FORMAT (class_of r)) = SIZE (class_of r)"
    using all_layouts by (simp add: list_all_iff layout_ok_def)
  then show "pack r = Inr bs \<Longrightarrow> length bs = SIZE (class_of r)"
    by (simp add: pack_def struct_pack_length)
qed

subsection \<open>Properties\<close>

text \<open>C15. A well-formed record packs to exactly its class's \<open>SIZE\<close> bytes, and \<open>unpack_any\<close>
  gives back the same record of the same class, whatever of the thirteen classes it is.\<close>

theorem wire_roundtrip:
  assumes "wf_wire r"
  shows "\<exists>bs. pack r = Inr bs \<and> length bs = SIZE (class_of r) \<and> unpack_any bs = Inr r"
  using wire.transported [OF assms] pack_length by blast

definition sample_submit :: wire where
  "sample_submit = SubmitOrder_new 1700000000 42 7 10025 5 3 1 2"

theorem wire_roundtrip_witness:
  "\<exists>bs. pack sample_submit = Inr bs \<and> length bs = 64 \<and> unpack_any bs = Inr sample_submit"
proof -
  have "wf_wire sample_submit"
    by (simp add: sample_submit_def wf_wire_def fits_class_def fits_def fmt_lo_def fmt_hi_def
        new_defs cls_defs new_header_def mk_header_def header_values_def SCHEMA_VERSION_def SEQ_UNASSIGNED_def)
  from wire_roundtrip [OF this] show ?thesis
    by (simp add: sample_submit_def SubmitOrder_new_def SubmitOrder_cls_def)
qed

text \<open>Decoding loses nothing: bytes that \<open>unpack_any\<close> accepts are the packed form of the
  record it returns, so two different messages never read as the same record.\<close>

theorem unpack_any_injective:
  assumes "unpack_any bs = Inr r"
  shows "pack r = Inr bs"
  using assms by (rule pack_unpack_any)

definition sample_bytes :: bytes where
  "sample_bytes = [2, 0, 3, 0] @ replicate 24 0 @ [9, 0, 0, 0, 0, 0, 0, 0, 4, 0, 0, 0, 0, 0, 0, 0]"

definition sample_account :: wire where
  "sample_account = CreateAccount (mk_header 2 3 0 0 0) 9 4"

theorem unpack_any_injective_witness: "pack sample_account = Inr sample_bytes"
proof (rule unpack_any_injective)
  show "unpack_any sample_bytes = Inr sample_account" by code_simp
qed

text \<open>The layout constants of every class agree with each other: the byte size of
  \<open>FORMAT\<close> is \<open>SIZE\<close>, every entry of \<open>OFFSETS\<close> is where its field starts, and the schema
  version and record type lead every record, where \<open>unpack_any\<close> reads them.\<close>

theorem record_layouts_agree: "length ALL_RECORDS = 13 \<and> list_all layout_ok ALL_RECORDS"
  using all_layouts by (simp add: ALL_RECORDS_def RECORD_BY_TYPE_def)

text \<open>A record read back under the id Redis gave it carries that id's two halves as its
  sequence number and is otherwise the record that was appended; the id's text determines it.\<close>

theorem with_seq_stamps_id:
  assumes "0 \<le> ms" "0 \<le> ord"
  shows "\<exists>r'. with_seq r (stream_id ms ord) = Inr r' \<and>
    (seq_ms (hdr r'), seq_ord (hdr r')) = (ms, ord) \<and> class_of r' = class_of r \<and>
    drop 5 (wire_values r') = drop 5 (wire_values r) \<and> timestamp_ns (hdr r') = timestamp_ns (hdr r)"
proof -
  have "drop 5 (wire_values (set_hdr f r)) = drop 5 (wire_values r)" for f
    by (cases r) (simp_all add: header_values_def)
  then show ?thesis using assms by (simp add: with_seq_def parse_stream_id_stream_id)
qed

theorem with_seq_stamps_id_witness:
  "\<exists>r'. with_seq sample_account (stream_id 1700000000123 7) = Inr r' \<and>
    (seq_ms (hdr r'), seq_ord (hdr r')) = (1700000000123, 7) \<and> class_of r' = class_of sample_account \<and>
    drop 5 (wire_values r') = drop 5 (wire_values sample_account) \<and>
    timestamp_ns (hdr r') = timestamp_ns (hdr sample_account)"
  by (rule with_seq_stamps_id) simp_all

end
