(* ===== verification/Naive_Model.thy ===== *)
theory Naive_Model
  imports Prelude
begin

section \<open>The reference order book: engine/naive_model.py\<close>

text \<open>
  The executable specification of the matching engine. Python \<open>Order\<close> objects are shared: the
  price level, \<open>orders_by_id\<close> and the matcher's own records all hold the same object, and
  \<open>reduce\<close> mutates it. The model keeps the objects in a store, \<open>objs\<close>, and everything else
  holds references to it. A reference is the order's id: the code gives every order object of
  a book a fresh id. An object stays in the store after it leaves the book, as a Python
  object does while somebody still holds it.

  Operations return \<open>exn + result\<close> with the new book; a raise is \<open>Inl\<close>. A dangling reference
  (impossible in Python) reads as \<open>Inl RuntimeError\<close>; \<open>Matching_Spec\<close> proves that no operation
  on a well-formed book meets one.
\<close>

subsection \<open>Orders, fills, price levels\<close>

datatype mside = BUY | SELL

record order =
  o_order_id :: int
  o_user_id :: int
  o_symbol :: string
  o_side :: mside
  o_price :: int
  o_quantity :: int
  o_created_at :: int
  remaining_quantity :: int

definition new_order ::
  "int \<Rightarrow> int \<Rightarrow> string \<Rightarrow> mside \<Rightarrow> int \<Rightarrow> int \<Rightarrow> int \<Rightarrow> exn + order" where
  "new_order oid uid sy sd px q created =
     (if px \<le> 0 then Inl ValueError
      else if q \<le> 0 then Inl ValueError
      else Inr \<lparr> o_order_id = oid, o_user_id = uid, o_symbol = sy, o_side = sd, o_price = px,
                 o_quantity = q, o_created_at = created, remaining_quantity = q \<rparr>)"

definition is_open :: "order \<Rightarrow> bool" where
  "is_open ord \<longleftrightarrow> remaining_quantity ord > 0"

definition reduce :: "int \<Rightarrow> order \<Rightarrow> exn + order" where
  "reduce q ord =
     (if q \<le> 0 then Inl ValueError
      else if q > remaining_quantity ord then Inl ValueError
      else Inr (ord\<lparr>remaining_quantity := remaining_quantity ord - q\<rparr>))"

record model_fill =
  buy_order_id :: int
  sell_order_id :: int
  f_symbol :: string
  f_price :: int
  f_quantity :: int

definition new_fill :: "int \<Rightarrow> int \<Rightarrow> string \<Rightarrow> int \<Rightarrow> int \<Rightarrow> exn + model_fill" where
  "new_fill bid sid sy px q =
     (if q \<le> 0 then Inl ValueError
      else Inr \<lparr> buy_order_id = bid, sell_order_id = sid, f_symbol = sy, f_price = px,
                 f_quantity = q \<rparr>)"

type_synonym oref = int

record price_level =
  lprice :: int
  lorders :: "oref list"

definition new_level :: "int \<Rightarrow> exn + price_level" where
  "new_level px = (if px \<le> 0 then Inl ValueError else Inr \<lparr> lprice = px, lorders = [] \<rparr>)"

definition level_append :: "oref \<Rightarrow> price_level \<Rightarrow> price_level" where
  "level_append r l = l\<lparr>lorders := lorders l @ [r]\<rparr>"

definition level_remove :: "oref \<Rightarrow> price_level \<Rightarrow> exn + price_level" where
  "level_remove r l =
     (if r \<in> set (lorders l) then Inr (l\<lparr>lorders := remove1 r (lorders l)\<rparr>) else Inl ValueError)"

definition level_first :: "price_level \<Rightarrow> oref option" where
  "level_first l = (case lorders l of [] \<Rightarrow> None | r # _ \<Rightarrow> Some r)"

definition level_popleft :: "price_level \<Rightarrow> exn + (oref \<times> price_level)" where
  "level_popleft l =
     (case lorders l of [] \<Rightarrow> Inl IndexError | r # rs \<Rightarrow> Inr (r, l\<lparr>lorders := rs\<rparr>))"

definition level_empty :: "price_level \<Rightarrow> bool" where
  "level_empty l \<longleftrightarrow> lorders l = []"

subsection \<open>The book\<close>

record book =
  objs :: "(oref, order) dict"
  bids :: "(int, price_level) dict"
  asks :: "(int, price_level) dict"
  orders_by_id :: "(int, oref) dict"
  arrival_sequence :: "(int, int) dict"
  next_arrival_sequence :: int

definition empty_book :: book where
  "empty_book = \<lparr> objs = [], bids = [], asks = [], orders_by_id = [], arrival_sequence = [],
                  next_arrival_sequence = 0 \<rparr>"

fun side_map :: "mside \<Rightarrow> book \<Rightarrow> (int, price_level) dict" where
  "side_map BUY b = bids b"
| "side_map SELL b = asks b"

fun set_side_map :: "mside \<Rightarrow> (int, price_level) dict \<Rightarrow> book \<Rightarrow> book" where
  "set_side_map BUY m b = b\<lparr>bids := m\<rparr>"
| "set_side_map SELL m b = b\<lparr>asks := m\<rparr>"

definition deref :: "book \<Rightarrow> oref \<Rightarrow> order option" where
  "deref b r = dget (objs b) r"

definition put_order :: "oref \<Rightarrow> order \<Rightarrow> book \<Rightarrow> book" where
  "put_order r ord b = b\<lparr>objs := dset r ord (objs b)\<rparr>"

definition best_bid :: "book \<Rightarrow> int option" where
  "best_bid b = (if bids b = [] then None else Some (Max (set (dkeys (bids b)))))"

definition best_ask :: "book \<Rightarrow> int option" where
  "best_ask b = (if asks b = [] then None else Some (Min (set (dkeys (asks b)))))"

definition level_at :: "mside \<Rightarrow> int \<Rightarrow> book \<Rightarrow> price_level option" where
  "level_at s px b = dget (side_map s b) px"

definition best_bid_order :: "book \<Rightarrow> oref option" where
  "best_bid_order b =
     (case best_bid b of
        None \<Rightarrow> None
      | Some px \<Rightarrow> (case dget (bids b) px of None \<Rightarrow> None | Some l \<Rightarrow> level_first l))"

definition best_ask_order :: "book \<Rightarrow> oref option" where
  "best_ask_order b =
     (case best_ask b of
        None \<Rightarrow> None
      | Some px \<Rightarrow> (case dget (asks b) px of None \<Rightarrow> None | Some l \<Rightarrow> level_first l))"

definition has_orders :: "book \<Rightarrow> bool" where
  "has_orders b \<longleftrightarrow> orders_by_id b \<noteq> []"

definition iter_orders :: "mside \<Rightarrow> book \<Rightarrow> oref list" where
  "iter_orders s b = concat (map lorders (dvalues (side_map s b)))"

subsection \<open>Removing and matching\<close>

definition remove_order :: "int \<Rightarrow> book \<Rightarrow> exn + (book \<times> oref option)" where
  "remove_order oid b =
     (case dget (orders_by_id b) oid of
        None \<Rightarrow> Inr (b, None)
      | Some r \<Rightarrow>
          (case deref b r of
             None \<Rightarrow> Inl RuntimeError
           | Some ord \<Rightarrow>
               let b1 = b\<lparr>orders_by_id := dpop oid (orders_by_id b),
                          arrival_sequence := dpop oid (arrival_sequence b)\<rparr>;
                   target = side_map (o_side ord) b1
               in case dget target (o_price ord) of
                    None \<Rightarrow> Inr (b1, Some r)
                  | Some l \<Rightarrow>
                      (case level_remove r l of
                         Inl e \<Rightarrow> Inl e
                       | Inr l' \<Rightarrow>
                           Inr (set_side_map (o_side ord)
                                  (if level_empty l' then dpop (o_price ord) target
                                   else dset (o_price ord) l' target) b1, Some r))))"

definition reduce_in :: "oref \<Rightarrow> int \<Rightarrow> book \<Rightarrow> exn + book" where
  "reduce_in r q b =
     (case deref b r of
        None \<Rightarrow> Inl RuntimeError
      | Some ord \<Rightarrow>
          (case reduce q ord of Inl e \<Rightarrow> Inl e | Inr ord' \<Rightarrow> Inr (put_order r ord' b)))"

text \<open>\<open>if order.remaining_quantity == 0: self.remove_order(order.order_id)\<close>.\<close>

definition remove_if_done :: "oref \<Rightarrow> book \<Rightarrow> exn + book" where
  "remove_if_done r b =
     (case deref b r of
        None \<Rightarrow> Inl RuntimeError
      | Some ord \<Rightarrow>
          if remaining_quantity ord = 0
          then (case remove_order (o_order_id ord) b of Inl e \<Rightarrow> Inl e | Inr (b', _) \<Rightarrow> Inr b')
          else Inr b)"

text \<open>One turn of the \<open>while True\<close> loop of \<open>match\<close>, once both best orders are known.\<close>

definition match_step :: "oref \<Rightarrow> oref \<Rightarrow> book \<Rightarrow> exn + (book \<times> model_fill)" where
  "match_step br ar b =
     (case (deref b br, deref b ar) of
        (Some bo, Some ao) \<Rightarrow>
          let trade_qty = min (remaining_quantity bo) (remaining_quantity ao)
          in (case (dget (arrival_sequence b) (o_order_id bo),
                    dget (arrival_sequence b) (o_order_id ao)) of
                (Some ba, Some aa) \<Rightarrow>
                  let maker = (if ba < aa then bo else ao)
                  in (case new_fill (o_order_id bo) (o_order_id ao) (o_symbol ao) (o_price maker)
                             trade_qty of
                        Inl e \<Rightarrow> Inl e
                      | Inr f \<Rightarrow>
                          (case reduce_in br trade_qty b of
                             Inl e \<Rightarrow> Inl e
                           | Inr b1 \<Rightarrow>
                               (case reduce_in ar trade_qty b1 of
                                  Inl e \<Rightarrow> Inl e
                                | Inr b2 \<Rightarrow>
                                    (case remove_if_done br b2 of
                                       Inl e \<Rightarrow> Inl e
                                     | Inr b3 \<Rightarrow>
                                         (case remove_if_done ar b3 of
                                            Inl e \<Rightarrow> Inl e
                                          | Inr b4 \<Rightarrow> Inr (b4, f))))))
              | _ \<Rightarrow> Inl KeyError)
      | _ \<Rightarrow> Inl RuntimeError)"

text \<open>
  The loop terminates whatever the book looks like: a turn that does not raise takes a
  positive quantity off an order of the store, and no turn adds any.
\<close>

definition book_load :: "book \<Rightarrow> nat" where
  "book_load b = nat (dsum (\<lambda>ord. max 0 (remaining_quantity ord)) (objs b))"

lemma objs_set_side_map [simp]: "objs (set_side_map s m b) = objs b"
  by (cases s) simp_all

lemma objs_remove_order: "remove_order oid b = Inr (b', x) \<Longrightarrow> objs b' = objs b"
  by (auto simp: remove_order_def Let_def split: option.splits sum.splits)

lemma objs_remove_if_done: "remove_if_done r b = Inr b' \<Longrightarrow> objs b' = objs b"
  by (auto simp: remove_if_done_def split: option.splits sum.splits if_splits
           dest: objs_remove_order)

lemma reduce_in_load:
  assumes "reduce_in r q b = Inr b'"
  shows "book_load b' < book_load b"
proof -
  obtain ord where d: "dget (objs b) r = Some ord" and q: "0 < q" "q \<le> remaining_quantity ord"
    and b': "objs b' = dset r (ord\<lparr>remaining_quantity := remaining_quantity ord - q\<rparr>) (objs b)"
    using assms
    by (auto simp: reduce_in_def deref_def reduce_def put_order_def
             split: option.splits sum.splits if_splits)
  let ?f = "\<lambda>ord. max 0 (remaining_quantity ord)"
  have "dsum ?f (objs b') = dsum ?f (objs b) - q"
    using d q by (simp add: b' dsum_dset)
  moreover have "?f ord \<le> dsum ?f (objs b)"
    using dsum_ge_at [of "objs b" ?f r] d by simp
  ultimately show ?thesis using q by (simp add: book_load_def)
qed

lemma match_step_load:
  assumes "match_step br ar b = Inr (b', f)"
  shows "book_load b' < book_load b"
proof -
  obtain q b1 b2 b3 where r: "reduce_in br q b = Inr b1" "reduce_in ar q b1 = Inr b2"
    and d: "remove_if_done br b2 = Inr b3" "remove_if_done ar b3 = Inr b'"
    using assms by (auto simp: match_step_def Let_def split: option.splits sum.splits)
  have "objs b' = objs b2" using d by (simp add: objs_remove_if_done)
  then have "book_load b' = book_load b2" by (simp add: book_load_def)
  with r reduce_in_load show ?thesis by (metis less_trans)
qed

function match_book :: "book \<Rightarrow> exn + (book \<times> model_fill list)" where
  "match_book b =
     (case (best_bid b, best_ask b) of
        (Some bid_price, Some ask_price) \<Rightarrow>
          if bid_price < ask_price then Inr (b, [])
          else (case (best_bid_order b, best_ask_order b) of
                  (Some br, Some ar) \<Rightarrow>
                    (case match_step br ar b of
                       Inl e \<Rightarrow> Inl e
                     | Inr (b', f) \<Rightarrow>
                         (case match_book b' of
                            Inl e \<Rightarrow> Inl e
                          | Inr (b'', fs) \<Rightarrow> Inr (b'', f # fs)))
                | _ \<Rightarrow> Inr (b, []))
      | _ \<Rightarrow> Inr (b, []))"
  by pat_completeness auto
termination
  by (relation "measure book_load") (auto dest: match_step_load)

declare match_book.simps [simp del]

subsection \<open>Adding\<close>

definition add_order :: "order \<Rightarrow> bool \<Rightarrow> book \<Rightarrow> exn + (book \<times> model_fill list)" where
  "add_order ord match_immediately b =
     (if dget (orders_by_id b) (o_order_id ord) \<noteq> None then Inl ValueError
      else
        let b1 = (put_order (o_order_id ord) ord b)
                   \<lparr>orders_by_id := dset (o_order_id ord) (o_order_id ord) (orders_by_id b),
                    arrival_sequence :=
                      dset (o_order_id ord) (next_arrival_sequence b) (arrival_sequence b),
                    next_arrival_sequence := next_arrival_sequence b + 1\<rparr>;
            target = side_map (o_side ord) b1;
            level = (case dget target (o_price ord) of
                       None \<Rightarrow> new_level (o_price ord)
                     | Some l \<Rightarrow> Inr l)
        in case level of
             Inl e \<Rightarrow> Inl e
           | Inr l \<Rightarrow>
               let b2 = set_side_map (o_side ord)
                          (dset (o_price ord) (level_append (o_order_id ord) l) target) b1
               in if match_immediately then match_book b2 else Inr (b2, []))"

definition match_order :: "order \<Rightarrow> book \<Rightarrow> exn + (book \<times> model_fill list)" where
  "match_order ord b = add_order ord True b"

end
