(* ===== verification/Matching_Spec.thy ===== *)
theory Matching_Spec
  imports Naive_Model "HOL-Library.Sublist"
begin

section \<open>Price-time priority, and the reference book as an implementation of it\<close>

text \<open>
  The abstract book is two priority queues of \<open>(id, price, remaining)\<close>, best first.
  \<open>spec_fill\<close> walks the opposite queue while the incoming order crosses it, filling at the
  resting order's price; \<open>enqueue\<close> puts a remainder behind everything at its price or better.

  \<open>abs_side\<close> reads those queues off the concrete book, whose levels are dictionaries of
  FIFO queues of object references with an arrival counter beside them; \<open>wf_book\<close> is the
  invariant of the concrete representation. The refinement lemmas show that \<open>match_order\<close>,
  \<open>remove_order\<close> and \<open>add_order\<close> never raise on a well-formed book and do exactly what the
  queues say.
\<close>

subsection \<open>The abstract book\<close>

type_synonym aord = "int \<times> int \<times> int"

abbreviation a_id :: "aord \<Rightarrow> int" where "a_id \<equiv> fst"
abbreviation a_price :: "aord \<Rightarrow> int" where "a_price x \<equiv> fst (snd x)"
abbreviation a_qty :: "aord \<Rightarrow> int" where "a_qty x \<equiv> snd (snd x)"

fun opp :: "mside \<Rightarrow> mside" where
  "opp BUY = SELL"
| "opp SELL = BUY"

fun pkey :: "mside \<Rightarrow> int \<Rightarrow> int" where
  "pkey BUY px = - px"
| "pkey SELL px = px"

text \<open>An incoming order on side \<open>s\<close> limited at \<open>p\<close> trades with a resting order at \<open>px\<close>.\<close>

fun crosses :: "mside \<Rightarrow> int \<Rightarrow> int \<Rightarrow> bool" where
  "crosses BUY p px = (px \<le> p)"
| "crosses SELL p px = (p \<le> px)"

fun spec_fill :: "mside \<Rightarrow> int \<Rightarrow> int \<Rightarrow> aord list \<Rightarrow> aord list \<times> int \<times> aord list" where
  "spec_fill s p q [] = ([], q, [])"
| "spec_fill s p q ((i, px, m) # rest) =
     (if q \<le> 0 \<or> \<not> crosses s p px then ([], q, (i, px, m) # rest)
      else if m \<le> q then
        (let (fs, q', rest') = spec_fill s p (q - m) rest in ((i, px, m) # fs, q', rest'))
      else ([(i, px, q)], 0, (i, px, m - q) # rest))"

fun enqueue :: "mside \<Rightarrow> aord \<Rightarrow> aord list \<Rightarrow> aord list" where
  "enqueue s x [] = [x]"
| "enqueue s x (y # ys) =
     (if pkey s (a_price y) \<le> pkey s (a_price x) then y # enqueue s x ys else x # y # ys)"

definition uncrossed :: "mside \<Rightarrow> aord list \<Rightarrow> aord list \<Rightarrow> bool" where
  "uncrossed s own other \<longleftrightarrow> (\<forall>x \<in> set own. \<forall>y \<in> set other. \<not> crosses s (a_price x) (a_price y))"

definition positive :: "aord list \<Rightarrow> bool" where
  "positive q \<longleftrightarrow> (\<forall>x \<in> set q. 0 < a_qty x)"

definition by_price :: "mside \<Rightarrow> aord list \<Rightarrow> bool" where
  "by_price s q \<longleftrightarrow> sorted (map (\<lambda>x. pkey s (a_price x)) q)"

lemma opp_opp [simp]: "opp (opp s) = s"
  by (cases s) simp_all

lemma opp_neq [simp]: "opp s \<noteq> s" "s \<noteq> opp s"
  by (cases s; simp)+

lemma crosses_opp: "crosses (opp s) p px = crosses s px p"
  by (cases s) auto

lemma uncrossed_opp: "uncrossed (opp s) other own = uncrossed s own other"
  by (auto simp: uncrossed_def crosses_opp)

lemma crosses_trans:
  "crosses s p px \<Longrightarrow> \<not> crosses s p' px \<Longrightarrow> pkey s p < pkey s p'"
  by (cases s) auto

lemma crosses_pkey: "pkey (opp s) px \<le> pkey (opp s) px' \<Longrightarrow> crosses s p px' \<Longrightarrow> crosses s p px"
  by (cases s) auto

lemma set_enqueue [simp]: "set (enqueue s x q) = insert x (set q)"
  by (induction q) auto

lemma mset_enqueue [simp]: "mset (enqueue s x q) = add_mset x (mset q)"
  by (induction q) auto

lemma enqueue_best:
  "(\<And>y. y \<in> set q \<Longrightarrow> pkey s (a_price x) < pkey s (a_price y)) \<Longrightarrow> enqueue s x q = x # q"
  by (cases q) (auto simp: not_le [symmetric])

lemma by_price_enqueue: "by_price s q \<Longrightarrow> by_price s (enqueue s x q)"
  by (induction q) (auto simp: by_price_def)

lemma spec_fill_done: "q \<le> 0 \<Longrightarrow> spec_fill s p q os = ([], q, os)"
  by (cases os) auto

subsection \<open>Reading the queues off the concrete book\<close>

definition obj :: "book \<Rightarrow> oref \<Rightarrow> order" where
  "obj b r = the (deref b r)"

definition arr :: "book \<Rightarrow> oref \<Rightarrow> int" where
  "arr b r = the (dget (arrival_sequence b) r)"

definition okey :: "mside \<Rightarrow> book \<Rightarrow> oref \<Rightarrow> int \<times> int" where
  "okey s b r = (pkey s (o_price (obj b r)), arr b r)"

definition side_queue :: "mside \<Rightarrow> book \<Rightarrow> oref list" where
  "side_queue s b = sort_key (okey s b) (iter_orders s b)"

definition abs_ord :: "book \<Rightarrow> oref \<Rightarrow> aord" where
  "abs_ord b r = (r, o_price (obj b r), remaining_quantity (obj b r))"

definition abs_side :: "mside \<Rightarrow> book \<Rightarrow> aord list" where
  "abs_side s b = map (abs_ord b) (side_queue s b)"

text \<open>The representation invariant.\<close>

definition ref_ok :: "mside \<Rightarrow> book \<Rightarrow> int \<Rightarrow> oref \<Rightarrow> bool" where
  "ref_ok s b px r \<longleftrightarrow>
     (case deref b r of
        None \<Rightarrow> False
      | Some ord \<Rightarrow> o_order_id ord = r \<and> o_side ord = s \<and> o_price ord = px) \<and>
     (case dget (arrival_sequence b) r of
        None \<Rightarrow> False
      | Some a \<Rightarrow> a < next_arrival_sequence b)"

definition level_ok :: "mside \<Rightarrow> book \<Rightarrow> int \<Rightarrow> price_level \<Rightarrow> bool" where
  "level_ok s b px l \<longleftrightarrow>
     0 < px \<and> lorders l \<noteq> [] \<and> sorted_wrt (\<lambda>r r'. arr b r < arr b r') (lorders l) \<and>
     (\<forall>r \<in> set (lorders l). ref_ok s b px r)"

definition wf_side :: "mside \<Rightarrow> book \<Rightarrow> bool" where
  "wf_side s b \<longleftrightarrow>
     wf_dict (side_map s b) \<and> (\<forall>(px, l) \<in> set (side_map s b). level_ok s b px l)"

definition live_refs :: "book \<Rightarrow> oref set" where
  "live_refs b = set (iter_orders BUY b) \<union> set (iter_orders SELL b)"

definition wf_book :: "book \<Rightarrow> bool" where
  "wf_book b \<longleftrightarrow>
     wf_side BUY b \<and> wf_side SELL b \<and>
     wf_dict (orders_by_id b) \<and> set (orders_by_id b) = (\<lambda>r. (r, r)) ` live_refs b \<and>
     inj_on (arr b) (live_refs b)"

definition settled :: "book \<Rightarrow> bool" where
  "settled b \<longleftrightarrow>
     positive (abs_side BUY b) \<and> positive (abs_side SELL b) \<and>
     uncrossed BUY (abs_side BUY b) (abs_side SELL b)"

lemma wf_book_side: "wf_book b \<Longrightarrow> wf_side s b"
  by (cases s) (simp_all add: wf_book_def)

lemma live_refs_side: "live_refs b = set (iter_orders s b) \<union> set (iter_orders (opp s) b)"
  by (cases s) (auto simp: live_refs_def)

lemma settled_side:
  "settled b \<longleftrightarrow> positive (abs_side s b) \<and> positive (abs_side (opp s) b) \<and>
     uncrossed s (abs_side s b) (abs_side (opp s) b)"
  using uncrossed_opp [of BUY] by (cases s) (auto simp: settled_def)

lemma ref_okE:
  assumes "ref_ok s b px r"
  obtains ord a where "deref b r = Some ord" "o_order_id ord = r" "o_side ord = s"
    "o_price ord = px" "obj b r = ord" "dget (arrival_sequence b) r = Some a" "arr b r = a"
    "a < next_arrival_sequence b"
  using assms by (auto simp: ref_ok_def obj_def arr_def split: option.splits)

lemma in_iter_orders:
  "r \<in> set (iter_orders s b) \<longleftrightarrow> (\<exists>px l. (px, l) \<in> set (side_map s b) \<and> r \<in> set (lorders l))"
  by (force simp: iter_orders_def)

lemma iter_level:
  assumes "wf_side s b" "r \<in> set (iter_orders s b)"
  obtains l where "dget (side_map s b) (o_price (obj b r)) = Some l" "r \<in> set (lorders l)"
    "level_ok s b (o_price (obj b r)) l"
proof -
  obtain px l where l: "(px, l) \<in> set (side_map s b)" "r \<in> set (lorders l)"
    using assms(2) by (auto simp: in_iter_orders)
  then have ok: "level_ok s b px l" using assms(1) by (auto simp: wf_side_def)
  then have "px = o_price (obj b r)" using l(2) by (auto simp: level_ok_def elim!: ref_okE)
  moreover have "dget (side_map s b) px = Some l"
    using assms(1) l(1) by (simp add: wf_side_def dget_in_set)
  ultimately show ?thesis using that ok l by simp
qed

lemma iter_ref_ok:
  assumes "wf_side s b" "r \<in> set (iter_orders s b)"
  shows "ref_ok s b (o_price (obj b r)) r"
  using iter_level [OF assms] by (auto simp: level_ok_def)

lemma sides_disjoint:
  assumes "wf_book b"
  shows "set (iter_orders s b) \<inter> set (iter_orders (opp s) b) = {}"
proof -
  have False if "r \<in> set (iter_orders s b)" "r \<in> set (iter_orders (opp s) b)" for r
  proof -
    have "ref_ok s b (o_price (obj b r)) r" "ref_ok (opp s) b (o_price (obj b r)) r"
      using that assms by (simp_all add: iter_ref_ok wf_book_side)
    then show False by (auto elim!: ref_okE)
  qed
  then show ?thesis by blast
qed

lemma distinct_refs:
  assumes "wf_dict d" "\<And>px l. (px, l) \<in> set d \<Longrightarrow> distinct (lorders l) \<and> (\<forall>r \<in> set (lorders l). f r = px)"
  shows "distinct (concat (map lorders (dvalues d)))"
  using assms
proof (induction d)
  case Nil
  then show ?case by simp
next
  case (Cons p d)
  obtain px l where p: "p = (px, l)" by (cases p)
  have "distinct (concat (map lorders (dvalues d)))"
    using Cons by (intro Cons.IH) (auto simp: wf_dict_def)
  moreover have "r \<notin> set (concat (map lorders (dvalues d)))" if "r \<in> set (lorders l)" for r
  proof
    assume "r \<in> set (concat (map lorders (dvalues d)))"
    then obtain px' l' where l': "(px', l') \<in> set d" "r \<in> set (lorders l')" by auto
    have "f r = px" using Cons.prems(2) [of px l] that by (simp add: p)
    moreover have "f r = px'" using Cons.prems(2) [of px' l'] l' by simp
    moreover have "px \<noteq> px'" using Cons.prems(1) l'(1) by (force simp: wf_dict_def p)
    ultimately show False by simp
  qed
  ultimately show ?case using Cons.prems(2) [of px l] by (auto simp: p)
qed

lemma sorted_wrt_distinct:
  fixes g :: "'a \<Rightarrow> 'b :: order"
  shows "sorted_wrt (\<lambda>r r'. g r < g r') xs \<Longrightarrow> distinct xs"
  by (induction xs) auto

lemma distinct_iter: "wf_side s b \<Longrightarrow> distinct (iter_orders s b)"
  unfolding iter_orders_def
  by (rule distinct_refs [where f = "\<lambda>r. o_price (obj b r)"])
     (auto simp: wf_side_def level_ok_def elim!: ref_okE dest: sorted_wrt_distinct)

lemma set_side_queue [simp]: "set (side_queue s b) = set (iter_orders s b)"
  by (simp add: side_queue_def)

lemma inj_okey: "wf_book b \<Longrightarrow> inj_on (okey s b) (set (iter_orders s b))"
  by (cases s) (auto simp: wf_book_def live_refs_def inj_on_def okey_def)

lemma by_price_abs: "by_price s (abs_side s b)"
proof -
  have "sorted (map (okey s b) (side_queue s b))" by (simp add: side_queue_def)
  then have "sorted (map (\<lambda>r. fst (okey s b r)) (side_queue s b))"
    by (auto simp: sorted_map less_eq_prod_def elim!: sorted_wrt_mono_rel [rotated])
  then show ?thesis by (simp add: by_price_def abs_side_def abs_ord_def okey_def comp_def)
qed


subsection \<open>The best order is the head of the queue\<close>

lemma sort_key_head:
  fixes f :: "'a \<Rightarrow> 'b :: linorder"
  assumes "x \<in> set xs" "\<And>y. y \<in> set xs \<Longrightarrow> f x \<le> f y" "inj_on f (set xs)"
  shows "\<exists>ys. sort_key f xs = x # ys"
proof -
  obtain y ys where s: "sort_key f xs = y # ys"
    using assms(1) by (metis list.exhaust list.set(1) empty_iff set_sort)
  have m: "x \<in> set (y # ys)" "y \<in> set xs"
    using assms(1) set_sort [of f xs] by (simp_all add: s [symmetric]) (metis list.set_intros(1) s set_sort)
  have "sorted (map f (y # ys))" using sorted_sort_key [of f xs] by (simp only: s)
  then have "f y \<le> f x" using m(1) by auto
  with assms(2) [OF m(2)] have "f y = f x" by simp
  with assms(1,3) m(2) have "y = x" by (simp add: inj_on_eq_iff)
  with s show ?thesis by simp
qed

lemma queue_head:
  assumes wf: "wf_book b" and l: "dget (side_map s b) px = Some l"
    and best: "\<And>px'. px' \<in> set (dkeys (side_map s b)) \<Longrightarrow> pkey s px \<le> pkey s px'"
  shows "\<exists>r rs. level_first l = Some r \<and> side_queue s b = r # rs \<and> o_price (obj b r) = px"
proof -
  have ws: "wf_side s b" using wf by (rule wf_book_side)
  have "(px, l) \<in> set (side_map s b)" using l by (rule map_of_SomeD)
  with ws have ok: "level_ok s b px l" by (auto simp: wf_side_def)
  then obtain r rs where r: "lorders l = r # rs" by (cases "lorders l") (auto simp: level_ok_def)
  have price: "o_price (obj b x) = px" if "x \<in> set (lorders l)" for x
    using ok that by (auto simp: level_ok_def elim!: ref_okE)
  have mem: "r \<in> set (iter_orders s b)"
    using \<open>(px, l) \<in> set (side_map s b)\<close> r by (auto simp: in_iter_orders intro!: exI)
  have "okey s b r \<le> okey s b y" if y: "y \<in> set (iter_orders s b)" for y
  proof -
    obtain l' where l': "dget (side_map s b) (o_price (obj b y)) = Some l'" "y \<in> set (lorders l')"
      using iter_level [OF ws y] by blast
    have "pkey s px \<le> pkey s (o_price (obj b y))"
      using best dget_Some_key [OF l'(1)] by blast
    moreover have "arr b r \<le> arr b y" if "o_price (obj b y) = px"
    proof -
      have "y \<in> set (r # rs)" using l' l r that by simp
      with ok r show ?thesis by (auto simp: level_ok_def)
    qed
    moreover have "pkey s (o_price (obj b y)) = pkey s px \<Longrightarrow> o_price (obj b y) = px"
      by (cases s) auto
    ultimately show ?thesis
      using price [of r] r by (auto simp: okey_def less_eq_prod_def less_le)
  qed
  then obtain ys where "side_queue s b = r # ys"
    using sort_key_head [OF mem _ inj_okey [OF wf]] by (auto simp: side_queue_def)
  then show ?thesis using r price [of r] by (simp add: level_first_def)
qed

lemma side_queue_empty: "wf_side s b \<Longrightarrow> side_queue s b = [] \<longleftrightarrow> side_map s b = []"
proof
  assume w: "wf_side s b" and e: "side_queue s b = []"
  then have "set (iter_orders s b) = {}" by (metis set_side_queue list.set(1))
  with w show "side_map s b = []"
    by (cases "side_map s b") (auto simp: iter_orders_def wf_side_def level_ok_def)
qed (simp add: side_queue_def iter_orders_def)

lemma best_bid_queue:
  assumes "wf_book b"
  shows "best_bid b = (case side_queue BUY b of [] \<Rightarrow> None | r # _ \<Rightarrow> Some (o_price (obj b r)))"
    and "best_bid_order b = (case side_queue BUY b of [] \<Rightarrow> None | r # _ \<Rightarrow> Some r)"
proof -
  have ws: "wf_side BUY b" using assms by (rule wf_book_side)
  have "best_bid b = (case side_queue BUY b of [] \<Rightarrow> None | r # _ \<Rightarrow> Some (o_price (obj b r))) \<and>
        best_bid_order b = (case side_queue BUY b of [] \<Rightarrow> None | r # _ \<Rightarrow> Some r)"
  proof (cases "bids b = []")
    case True
    then show ?thesis using side_queue_empty [OF ws] by (simp add: best_bid_def best_bid_order_def)
  next
    case False
    let ?px = "Max (set (dkeys (bids b)))"
    have "?px \<in> set (dkeys (bids b))" using False by (intro Max_in) auto
    then obtain l where l: "dget (bids b) ?px = Some l" using dget_key_iff by metis
    have "\<exists>r rs. level_first l = Some r \<and> side_queue BUY b = r # rs \<and> o_price (obj b r) = ?px"
      by (rule queue_head [OF assms]) (use l in \<open>auto intro: Max_ge\<close>)
    then show ?thesis using False l by (auto simp: best_bid_def best_bid_order_def)
  qed
  then show "best_bid b = (case side_queue BUY b of [] \<Rightarrow> None | r # _ \<Rightarrow> Some (o_price (obj b r)))"
    and "best_bid_order b = (case side_queue BUY b of [] \<Rightarrow> None | r # _ \<Rightarrow> Some r)" by blast+
qed

lemma best_ask_queue:
  assumes "wf_book b"
  shows "best_ask b = (case side_queue SELL b of [] \<Rightarrow> None | r # _ \<Rightarrow> Some (o_price (obj b r)))"
    and "best_ask_order b = (case side_queue SELL b of [] \<Rightarrow> None | r # _ \<Rightarrow> Some r)"
proof -
  have ws: "wf_side SELL b" using assms by (rule wf_book_side)
  have "best_ask b = (case side_queue SELL b of [] \<Rightarrow> None | r # _ \<Rightarrow> Some (o_price (obj b r))) \<and>
        best_ask_order b = (case side_queue SELL b of [] \<Rightarrow> None | r # _ \<Rightarrow> Some r)"
  proof (cases "asks b = []")
    case True
    then show ?thesis using side_queue_empty [OF ws] by (simp add: best_ask_def best_ask_order_def)
  next
    case False
    let ?px = "Min (set (dkeys (asks b)))"
    have "?px \<in> set (dkeys (asks b))" using False by (intro Min_in) auto
    then obtain l where l: "dget (asks b) ?px = Some l" using dget_key_iff by metis
    have "\<exists>r rs. level_first l = Some r \<and> side_queue SELL b = r # rs \<and> o_price (obj b r) = ?px"
      by (rule queue_head [OF assms]) (use l in \<open>auto intro: Min_le\<close>)
    then show ?thesis using False l by (auto simp: best_ask_def best_ask_order_def)
  qed
  then show "best_ask b = (case side_queue SELL b of [] \<Rightarrow> None | r # _ \<Rightarrow> Some (o_price (obj b r)))"
    and "best_ask_order b = (case side_queue SELL b of [] \<Rightarrow> None | r # _ \<Rightarrow> Some r)" by blast+
qed

subsection \<open>Changing a remaining quantity\<close>

definition requantified :: "oref \<Rightarrow> int \<Rightarrow> book \<Rightarrow> book" where
  "requantified r v b = put_order r ((obj b r)\<lparr>remaining_quantity := v\<rparr>) b"

lemma requantified_sel [simp]:
  "side_map s (requantified r v b) = side_map s b"
  "iter_orders s (requantified r v b) = iter_orders s b"
  "live_refs (requantified r v b) = live_refs b"
  "orders_by_id (requantified r v b) = orders_by_id b"
  "arrival_sequence (requantified r v b) = arrival_sequence b"
  "next_arrival_sequence (requantified r v b) = next_arrival_sequence b"
  "arr (requantified r v b) x = arr b x"
  by (cases s; simp add: requantified_def put_order_def iter_orders_def live_refs_def arr_def)+

lemma deref_requantified:
  "deref (requantified r v b) x =
     (if x = r then Some ((obj b r)\<lparr>remaining_quantity := v\<rparr>) else deref b x)"
  by (simp add: requantified_def put_order_def deref_def)

lemma obj_requantified [simp]:
  "o_price (obj (requantified r v b) x) = o_price (obj b x)"
  "remaining_quantity (obj (requantified r v b) x) = (if x = r then v else remaining_quantity (obj b x))"
  by (simp_all add: obj_def deref_requantified)

lemma ref_ok_requantified:
  "deref b r \<noteq> None \<Longrightarrow> ref_ok s (requantified r v b) px x \<longleftrightarrow> ref_ok s b px x"
  by (auto simp: ref_ok_def deref_requantified obj_def split: option.splits)

lemma wf_requantified: "deref b r \<noteq> None \<Longrightarrow> wf_book b \<Longrightarrow> wf_book (requantified r v b)"
  by (auto simp: wf_book_def wf_side_def level_ok_def ref_ok_requantified inj_on_def)

lemma side_queue_requantified [simp]: "side_queue s (requantified r v b) = side_queue s b"
proof -
  have "okey s (requantified r v b) = okey s b" by (simp add: okey_def fun_eq_iff)
  then show ?thesis by (simp add: side_queue_def)
qed

lemma abs_ord_requantified:
  "abs_ord (requantified r v b) x = (if x = r then (r, o_price (obj b r), v) else abs_ord b x)"
  by (simp add: abs_ord_def)


subsection \<open>Removing an order\<close>

abbreviation refs_of :: "(int, price_level) dict \<Rightarrow> oref list" where
  "refs_of d \<equiv> concat (map lorders (dvalues d))"

lemma mset_cancel:
  assumes "A + L = I + (L - {#r#})" "r \<in># L"
  shows "A = I - {#r#}"
proof -
  obtain L' where "L = add_mset r L'" using assms(2) by (rule multi_member_split [THEN exE])
  with assms(1) have "add_mset r A = I" by simp
  then show ?thesis by auto
qed

lemma mset_refs_dset:
  "mset (refs_of (dset px l' d)) + (case dget d px of None \<Rightarrow> {#} | Some l \<Rightarrow> mset (lorders l)) =
     mset (refs_of d) + mset (lorders l')"
  by (induction d) (auto simp: ac_simps)

lemma mset_refs_dpop:
  "wf_dict d \<Longrightarrow> mset (refs_of (dpop px d)) + (case dget d px of None \<Rightarrow> {#} | Some l \<Rightarrow> mset (lorders l)) =
     mset (refs_of d)"
proof (induction d)
  case Nil
  then show ?case by simp
next
  case (Cons p d)
  obtain px' l where p: "p = (px', l)" by (cases p)
  have wf: "wf_dict d" and fresh: "px' \<notin> set (dkeys d)"
    using Cons.prems by (auto simp: wf_dict_def p)
  show ?case
  proof (cases "px' = px")
    case True
    with fresh have "dpop px d = d" by (simp add: dpop_notin)
    with True show ?thesis by (simp add: p ac_simps)
  next
    case False
    with Cons.IH [OF wf] show ?thesis by (simp add: p ac_simps)
  qed
qed

lemma iter_set_side_map [simp]:
  "iter_orders s (set_side_map s m b) = refs_of m"
  "iter_orders (opp s) (set_side_map s m b) = iter_orders (opp s) b"
  "side_map s (set_side_map s m b) = m"
  "side_map (opp s) (set_side_map s m b) = side_map (opp s) b"
  "arrival_sequence (set_side_map s m b) = arrival_sequence b"
  "next_arrival_sequence (set_side_map s m b) = next_arrival_sequence b"
  "orders_by_id (set_side_map s m b) = orders_by_id b"
  by (cases s; simp add: iter_orders_def)+

lemma ref_ok_cong:
  "deref b' r = deref b r \<Longrightarrow> dget (arrival_sequence b') r = dget (arrival_sequence b) r \<Longrightarrow>
    next_arrival_sequence b \<le> next_arrival_sequence b' \<Longrightarrow> ref_ok s b px r \<Longrightarrow> ref_ok s b' px r"
  by (auto simp: ref_ok_def split: option.splits)

lemma subseq_set: "subseq xs ys \<Longrightarrow> set xs \<subseteq> set ys"
  by (induction rule: list_emb.induct) auto

lemma subseq_sorted_wrt: "subseq xs ys \<Longrightarrow> sorted_wrt P ys \<Longrightarrow> sorted_wrt P xs"
  by (induction rule: list_emb.induct) (auto dest: subseq_set)

lemma level_ok_mono:
  assumes "level_ok s b px l" "subseq (lorders l') (lorders l)" "lorders l' \<noteq> []"
    and "\<And>r. r \<in> set (lorders l') \<Longrightarrow> deref b' r = deref b r"
    and "\<And>r. r \<in> set (lorders l') \<Longrightarrow> dget (arrival_sequence b') r = dget (arrival_sequence b) r"
    and "next_arrival_sequence b \<le> next_arrival_sequence b'"
  shows "level_ok s b' px l'"
proof -
  have sub: "set (lorders l') \<subseteq> set (lorders l)" using assms(2) by (rule subseq_set)
  have arr: "arr b' r = arr b r" if "r \<in> set (lorders l')" for r
    using assms(5) [OF that] by (simp add: arr_def)
  have "sorted_wrt (\<lambda>r r'. arr b r < arr b r') (lorders l')"
    using assms(1,2) by (auto simp: level_ok_def intro: subseq_sorted_wrt)
  then have "sorted_wrt (\<lambda>r r'. arr b' r < arr b' r') (lorders l')"
    by (rule sorted_wrt_mono_rel [rotated]) (simp add: arr)
  then show ?thesis
    using assms sub by (auto simp: level_ok_def intro!: ref_ok_cong [of b' _ b])
qed

lemma subseq_remove1: "subseq (remove1 x xs) xs"
  by (induction xs) auto

lemma side_queue_cong:
  assumes "iter_orders s b' = iter_orders s b"
    and "\<And>r. r \<in> set (iter_orders s b) \<Longrightarrow> deref b' r = deref b r"
    and "\<And>r. r \<in> set (iter_orders s b) \<Longrightarrow> dget (arrival_sequence b') r = dget (arrival_sequence b) r"
    and "wf_book b"
  shows "side_queue s b' = side_queue s b"
  unfolding side_queue_def
proof (rule sort_key_congr [symmetric])
  show "mset (iter_orders s b) = mset (iter_orders s b')" by (simp add: assms(1))
  show "inj_on (okey s b) (set (iter_orders s b))" using assms(4) by (rule inj_okey)
  show "okey s b r = okey s b' r" if "r \<in> set (iter_orders s b)" for r
    using assms(2,3) [OF that] by (simp add: okey_def obj_def arr_def)
qed

lemma wf_side_cong:
  assumes "wf_side s b" "side_map s b' = side_map s b"
    and "\<And>r. r \<in> set (iter_orders s b) \<Longrightarrow> deref b' r = deref b r"
    and "\<And>r. r \<in> set (iter_orders s b) \<Longrightarrow> dget (arrival_sequence b') r = dget (arrival_sequence b) r"
    and "next_arrival_sequence b \<le> next_arrival_sequence b'"
  shows "wf_side s b'"
proof -
  have "level_ok s b' px l" if m: "(px, l) \<in> set (side_map s b)" for px l
  proof (rule level_ok_mono [where l = l and b = b])
    show "level_ok s b px l" using assms(1) m by (auto simp: wf_side_def)
    then show "lorders l \<noteq> []" by (simp add: level_ok_def)
    show "deref b' r = deref b r" "dget (arrival_sequence b') r = dget (arrival_sequence b) r"
      if "r \<in> set (lorders l)" for r
      using assms(3,4) m that by (auto simp: in_iter_orders)
  qed (use assms(5) in auto)
  then show ?thesis using assms(1,2) by (auto simp: wf_side_def)
qed

lemma side_queue_removed:
  assumes wf: "wf_book b" and r: "r \<in> set (iter_orders s b)"
    and m: "mset (iter_orders s b') = mset (remove1 r (iter_orders s b))"
    and d: "\<And>x. x \<noteq> r \<Longrightarrow> deref b' x = deref b x"
    and a: "\<And>x. x \<noteq> r \<Longrightarrow> dget (arrival_sequence b') x = dget (arrival_sequence b) x"
  shows "side_queue s b' = remove1 r (side_queue s b)"
proof -
  have dist: "distinct (iter_orders s b)" using wf by (simp add: distinct_iter wf_book_side)
  have "side_queue s b' = sort_key (okey s b) (remove1 r (iter_orders s b))"
    unfolding side_queue_def
  proof (rule sort_key_congr [symmetric])
    show "mset (remove1 r (iter_orders s b)) = mset (iter_orders s b')" using m by simp
    show "inj_on (okey s b) (set (remove1 r (iter_orders s b)))"
      using inj_okey [OF wf] by (rule inj_on_subset) (rule set_remove1_subset)
    show "okey s b x = okey s b' x" if "x \<in> set (remove1 r (iter_orders s b))" for x
    proof -
      have "x \<noteq> r" using that dist by auto
      then show ?thesis using d a by (simp add: okey_def obj_def arr_def)
    qed
  qed
  also have "\<dots> = remove1 r (side_queue s b)"
    unfolding side_queue_def using r inj_okey [OF wf] dist by (rule remove1_sort_key)
  finally show ?thesis .
qed

lemma remove_order_live:
  assumes wf: "wf_book b" and r: "r \<in> set (iter_orders s b)"
  shows "\<exists>b'. remove_order r b = Inr (b', Some r) \<and> wf_book b' \<and>
    side_queue s b' = remove1 r (side_queue s b) \<and>
    side_queue (opp s) b' = side_queue (opp s) b \<and>
    objs b' = objs b \<and> next_arrival_sequence b' = next_arrival_sequence b \<and>
    arrival_sequence b' = dpop r (arrival_sequence b)"
proof -
  have ws: "wf_side s b" and wo: "wf_side (opp s) b" using wf by (simp_all add: wf_book_side)
  have dist: "distinct (iter_orders s b)" using ws by (rule distinct_iter)
  have notopp: "r \<notin> set (iter_orders (opp s) b)" using sides_disjoint [OF wf, of s] r by blast
  obtain l where l: "dget (side_map s b) (o_price (obj b r)) = Some l" "r \<in> set (lorders l)"
    and lok: "level_ok s b (o_price (obj b r)) l" using iter_level [OF ws r] by blast
  let ?px = "o_price (obj b r)"
  obtain ord where ord: "deref b r = Some ord" "o_side ord = s" "o_price ord = ?px"
    using iter_ref_ok [OF ws r] by (auto elim!: ref_okE)
  have wfo: "wf_dict (orders_by_id b)" and so: "set (orders_by_id b) = (\<lambda>r. (r, r)) ` live_refs b"
    using wf by (simp_all add: wf_book_def)
  have "r \<in> live_refs b" using r by (simp add: live_refs_side [of b s])
  then have byid: "dget (orders_by_id b) r = Some r" using wfo so by (simp add: dget_in_set)
  let ?l' = "l\<lparr>lorders := remove1 r (lorders l)\<rparr>"
  let ?m = "if lorders ?l' = [] then dpop ?px (side_map s b) else dset ?px ?l' (side_map s b)"
  let ?b1 = "b\<lparr>orders_by_id := dpop r (orders_by_id b), arrival_sequence := dpop r (arrival_sequence b)\<rparr>"
  let ?b' = "set_side_map s ?m ?b1"
  have sm: "side_map t ?b1 = side_map t b" for t by (cases t) simp_all
  have run: "remove_order r b = Inr (?b', Some r)"
    using byid ord l by (simp add: remove_order_def level_remove_def level_empty_def sm Let_def)
  have refs: "mset (refs_of ?m) = mset (remove1 r (iter_orders s b))"
  proof -
    have "mset (refs_of ?m) + mset (lorders l) = mset (iter_orders s b) + mset (remove1 r (lorders l))"
    proof (cases "lorders ?l' = []")
      case True
      then show ?thesis
        using mset_refs_dpop [of "side_map s b" ?px] ws l(1) by (simp add: wf_side_def iter_orders_def)
    next
      case False
      then show ?thesis
        using mset_refs_dset [of ?px ?l' "side_map s b"] l(1) by (simp add: iter_orders_def)
    qed
    then have "mset (refs_of ?m) + mset (lorders l) = mset (iter_orders s b) + (mset (lorders l) - {#r#})"
      by simp
    then have "mset (refs_of ?m) = mset (iter_orders s b) - {#r#}"
      by (rule mset_cancel) (use l(2) in simp)
    then show ?thesis by simp
  qed
  then have srefs: "set (refs_of ?m) = set (iter_orders s b) - {r}"
    using dist by (metis mset_eq_setD set_remove1_eq)
  have iopp: "iter_orders (opp s) ?b1 = iter_orders (opp s) b" by (simp add: iter_orders_def sm)
  have der: "deref (set_side_map s m ?b1) x = deref b x" for m x by (simp add: deref_def)
  have arrx: "dget (arrival_sequence ?b') x = dget (arrival_sequence b) x" if "x \<noteq> r" for x
    using that by simp
  have wopp: "wf_side (opp s) ?b'"
    by (rule wf_side_cong [OF wo]) (use notopp in \<open>auto simp: sm der\<close>)
  have ws': "wf_side s ?b'"
  proof -
    have "level_ok s ?b' px k" if k: "(px, k) \<in> set ?m" for px k
    proof -
      have sub: "set (lorders k) \<subseteq> set (refs_of ?m)" using k by force
      then have nr: "x \<noteq> r" if "x \<in> set (lorders k)" for x using srefs that by blast
      have "\<exists>k0. level_ok s b px k0 \<and> subseq (lorders k) (lorders k0) \<and> lorders k \<noteq> []"
      proof (cases "px = ?px")
        case True
        then have "k = ?l'" "lorders ?l' \<noteq> []"
          using k ws by (auto simp: set_dset set_dpop wf_side_def split: if_splits)
        with lok True show ?thesis by (auto intro!: exI [of _ l] subseq_remove1)
      next
        case False
        then have "(px, k) \<in> set (side_map s b)"
          using k ws by (auto simp: set_dset set_dpop wf_side_def split: if_splits)
        then have "level_ok s b px k" using ws by (auto simp: wf_side_def)
        then show ?thesis by (auto intro!: exI [of _ k] simp: level_ok_def)
      qed
      then obtain k0 where "level_ok s b px k0" "subseq (lorders k) (lorders k0)" "lorders k \<noteq> []"
        by blast
      then show ?thesis
        by (rule level_ok_mono) (use nr in \<open>simp_all add: der\<close>)
    qed
    moreover have "wf_dict ?m" using ws by (simp add: wf_side_def)
    ultimately show ?thesis unfolding wf_side_def by (auto simp only: iter_set_side_map)
  qed
  have live: "live_refs ?b' = live_refs b - {r}"
    unfolding live_refs_side [of _ s] iter_set_side_map iopp srefs using notopp by blast
  have wf': "wf_book ?b'"
  proof -
    have "wf_side BUY ?b'" "wf_side SELL ?b'" using ws' wopp by (cases s; simp)+
    moreover have "wf_dict (orders_by_id ?b')" using wfo by simp
    moreover have "set (orders_by_id ?b') = (\<lambda>r. (r, r)) ` live_refs ?b'"
      unfolding live using so by (auto simp: set_dpop)
    moreover have "inj_on (arr ?b') (live_refs ?b')"
      unfolding live using wf by (auto simp: wf_book_def inj_on_def arr_def)
    ultimately show ?thesis by (simp add: wf_book_def)
  qed
  have "side_queue s ?b' = remove1 r (side_queue s b)"
  proof (rule side_queue_removed [OF wf r])
    show "mset (iter_orders s ?b') = mset (remove1 r (iter_orders s b))"
      by (simp only: iter_set_side_map refs)
  qed (auto simp: der)
  moreover have "side_queue (opp s) ?b' = side_queue (opp s) b"
    by (rule side_queue_cong [OF _ _ _ wf]) (use notopp in \<open>auto simp: iopp der\<close>)
  ultimately show ?thesis using run wf' by (intro exI [of _ ?b']) simp
qed


lemma remove_order_absent:
  assumes "wf_book b" "r \<notin> live_refs b"
  shows "remove_order r b = Inr (b, None)"
proof -
  have "dget (orders_by_id b) r = None"
    using assms by (force simp: wf_book_def dget_None_iff)
  then show ?thesis by (simp add: remove_order_def)
qed

subsection \<open>One turn of the matching loop\<close>

text \<open>What matching never changes: the objects' own fields, arrivals, and who is live only shrinks.\<close>

definition evolves :: "book \<Rightarrow> book \<Rightarrow> bool" where
  "evolves b b' \<longleftrightarrow>
     next_arrival_sequence b' = next_arrival_sequence b \<and>
     live_refs b' \<subseteq> live_refs b \<and>
     (\<forall>x \<in> live_refs b'. arr b' x = arr b x) \<and>
     (\<forall>x. (deref b x = None \<longrightarrow> deref b' x = None) \<and>
        (\<forall>ord. deref b x = Some ord \<longrightarrow> (\<exists>v. deref b' x = Some (ord\<lparr>remaining_quantity := v\<rparr>))))"

lemma requantify_self [simp]: "\<exists>v. (ord :: order) = ord\<lparr>remaining_quantity := v\<rparr>"
  by (rule exI [of _ "remaining_quantity ord"]) simp

lemma evolves_refl [simp]: "evolves b b"
  by (simp add: evolves_def)

lemma evolves_trans:
  assumes "evolves a b" "evolves b c"
  shows "evolves a c"
proof -
  have "\<exists>v. deref c x = Some (ord\<lparr>remaining_quantity := v\<rparr>)" if ax: "deref a x = Some ord" for x ord
  proof -
    obtain u where "deref b x = Some (ord\<lparr>remaining_quantity := u\<rparr>)"
      using assms(1) ax unfolding evolves_def by blast
    then obtain v where "deref c x = Some (ord\<lparr>remaining_quantity := u, remaining_quantity := v\<rparr>)"
      using assms(2) unfolding evolves_def by blast
    then show ?thesis by auto
  qed
  then show ?thesis using assms by (auto simp: evolves_def)
qed

lemma evolves_deref:
  "evolves b b' \<Longrightarrow> deref b x = Some ord \<Longrightarrow> \<exists>v. deref b' x = Some (ord\<lparr>remaining_quantity := v\<rparr>)"
  unfolding evolves_def by blast

lemma evolves_obj:
  "evolves b b' \<Longrightarrow> deref b x \<noteq> None \<Longrightarrow> o_price (obj b' x) = o_price (obj b x)"
  by (force simp: evolves_def obj_def)

lemma evolves_requantified: "deref b r \<noteq> None \<Longrightarrow> evolves b (requantified r v b)"
  by (auto simp: evolves_def deref_requantified obj_def)

lemma live_deref: "wf_book b \<Longrightarrow> x \<in> live_refs b \<Longrightarrow> deref b x = Some (obj b x)"
  using iter_ref_ok [of BUY b x] iter_ref_ok [of SELL b x]
  by (auto simp: live_refs_def wf_book_def elim!: ref_okE)

lemma live_id: "wf_book b \<Longrightarrow> x \<in> live_refs b \<Longrightarrow> o_order_id (obj b x) = x"
  using iter_ref_ok [of BUY b x] iter_ref_ok [of SELL b x]
  by (auto simp: live_refs_def wf_book_def elim!: ref_okE)

lemma live_arrival:
  "wf_book b \<Longrightarrow> x \<in> live_refs b \<Longrightarrow> dget (arrival_sequence b) x = Some (arr b x)"
  using iter_ref_ok [of BUY b x] iter_ref_ok [of SELL b x]
  by (auto simp: live_refs_def wf_book_def elim!: ref_okE)

lemma live_queue: "live_refs b = set (side_queue s b) \<union> set (side_queue (opp s) b)"
  by (simp add: live_refs_side [of b s])

lemma distinct_queue: "wf_book b \<Longrightarrow> distinct (side_queue s b)"
  by (simp add: side_queue_def distinct_iter wf_book_side)

lemma reduce_in_run:
  assumes "deref b r \<noteq> None" "0 < q" "q \<le> remaining_quantity (obj b r)"
  shows "reduce_in r q b = Inr (requantified r (remaining_quantity (obj b r) - q) b)"
  using assms by (auto simp: reduce_in_def reduce_def requantified_def obj_def)

lemma remove_if_done_head:
  assumes wf: "wf_book b" and q: "side_queue s b = r # rs"
  shows "\<exists>b'. remove_if_done r b = Inr b' \<and> wf_book b' \<and> evolves b b' \<and> objs b' = objs b \<and>
    side_queue s b' = (if remaining_quantity (obj b r) = 0 then rs else r # rs) \<and>
    side_queue (opp s) b' = side_queue (opp s) b"
proof -
  have live: "r \<in> live_refs b" by (simp add: live_queue [of b s] q)
  note d = live_deref [OF wf live] live_id [OF wf live]
  show ?thesis
  proof (cases "remaining_quantity (obj b r) = 0")
    case False
    with d wf q show ?thesis by (auto simp: remove_if_done_def)
  next
    case True
    have "r \<in> set (iter_orders s b)" by (metis list.set_intros(1) q set_side_queue)
    then obtain b' where b': "remove_order r b = Inr (b', Some r)" "wf_book b'"
      "side_queue s b' = remove1 r (side_queue s b)" "side_queue (opp s) b' = side_queue (opp s) b"
      "objs b' = objs b" "next_arrival_sequence b' = next_arrival_sequence b"
      "arrival_sequence b' = dpop r (arrival_sequence b)"
      using remove_order_live [OF wf] by blast
    have "r \<notin> live_refs b'"
      using sides_disjoint [OF wf, of s] distinct_queue [OF wf, of s]
      by (auto simp: live_queue [of _ s] b'(3,4) q simp del: set_side_queue)
        (metis disjoint_iff list.set_intros(1) q set_side_queue)
    then have "evolves b b'"
      using evolves_refl [of b] b'(3,4,5,6,7)
      by (auto simp: evolves_def deref_def arr_def live_queue [of _ s] q simp del: set_side_queue)
    with True d b' q show ?thesis by (auto simp: remove_if_done_def)
  qed
qed

lemma match_step_run:
  assumes wf: "wf_book b" and qb: "side_queue BUY b = br # bs" and qa: "side_queue SELL b = ar # as"
    and pb: "0 < remaining_quantity (obj b br)" and pa: "0 < remaining_quantity (obj b ar)"
  defines "t \<equiv> min (remaining_quantity (obj b br)) (remaining_quantity (obj b ar))"
  shows "\<exists>b' f. match_step br ar b = Inr (b', f) \<and> wf_book b' \<and> evolves b b' \<and>
    side_queue BUY b' = (if remaining_quantity (obj b br) = t then bs else br # bs) \<and>
    side_queue SELL b' = (if remaining_quantity (obj b ar) = t then as else ar # as) \<and>
    remaining_quantity (obj b' br) = remaining_quantity (obj b br) - t \<and>
    remaining_quantity (obj b' ar) = remaining_quantity (obj b ar) - t \<and>
    (\<forall>x. x \<noteq> br \<longrightarrow> x \<noteq> ar \<longrightarrow> deref b' x = deref b x) \<and>
    buy_order_id f = br \<and> sell_order_id f = ar \<and> f_quantity f = t \<and>
    f_price f = o_price (obj b (if arr b br < arr b ar then br else ar))"
proof -
  have live: "br \<in> live_refs b" "ar \<in> live_refs b"
    by (simp_all add: live_queue [of b BUY] qb qa del: set_side_queue)
  note db = live_deref [OF wf live(1)] live_id [OF wf live(1)] live_arrival [OF wf live(1)]
  note da = live_deref [OF wf live(2)] live_id [OF wf live(2)] live_arrival [OF wf live(2)]
  have ne: "br \<noteq> ar"
    using sides_disjoint [OF wf, of BUY] qb qa by (metis disjoint_iff list.set_intros(1) opp.simps(1) set_side_queue)
  have t: "0 < t" "t \<le> remaining_quantity (obj b br)" "t \<le> remaining_quantity (obj b ar)"
    using pb pa by (simp_all add: t_def)
  let ?b1 = "requantified br (remaining_quantity (obj b br) - t) b"
  let ?b2 = "requantified ar (remaining_quantity (obj b ar) - t) ?b1"
  have r1: "reduce_in br t b = Inr ?b1" using db t by (intro reduce_in_run) auto
  have r2: "reduce_in ar t ?b1 = Inr ?b2"
    using reduce_in_run [of ?b1 ar t] da t ne by (simp add: deref_requantified)
  have wf2: "wf_book ?b2" using wf db da by (simp add: wf_requantified deref_requantified)
  have ev2: "evolves b ?b2"
    by (rule evolves_trans [of _ ?b1]; rule evolves_requantified) (use db da in \<open>auto simp: deref_requantified\<close>)
  obtain b3 where b3: "remove_if_done br ?b2 = Inr b3" "wf_book b3" "evolves ?b2 b3" "objs b3 = objs ?b2"
    "side_queue BUY b3 = (if remaining_quantity (obj ?b2 br) = 0 then bs else br # bs)"
    "side_queue SELL b3 = ar # as"
    using remove_if_done_head [OF wf2, of BUY br bs] qb qa by auto
  have o3: "obj b3 = obj ?b2" "deref b3 = deref ?b2" by (simp_all add: obj_def deref_def b3(4) fun_eq_iff)
  obtain b4 where b4: "remove_if_done ar b3 = Inr b4" "wf_book b4" "evolves b3 b4" "objs b4 = objs b3"
    "side_queue SELL b4 = (if remaining_quantity (obj b3 ar) = 0 then as else ar # as)"
    "side_queue BUY b4 = side_queue BUY b3"
    using remove_if_done_head [OF b3(2), of SELL ar as] b3(6) by auto
  have o4: "obj b4 = obj ?b2" "deref b4 = deref ?b2"
    using o3 by (simp_all add: obj_def deref_def b4(4) fun_eq_iff)
  let ?f = "\<lparr> buy_order_id = br, sell_order_id = ar, f_symbol = o_symbol (obj b ar),
     f_price = o_price (obj b (if arr b br < arr b ar then br else ar)), f_quantity = t \<rparr>"
  have "match_step br ar b = Inr (b4, ?f)"
    using db da t(1) r1 r2 b3(1) b4(1) by (simp add: match_step_def new_fill_def t_def [symmetric] Let_def)
  moreover have "evolves b b4" using ev2 b3(3) b4(3) by (blast intro: evolves_trans)
  ultimately show ?thesis
    using b4(2,5,6) b3(5) o3 o4 ne by (intro exI [of _ b4] exI [of _ ?f]) (auto simp: deref_requantified)
qed


subsection \<open>The matching loop\<close>

fun buyer :: "mside \<Rightarrow> oref \<Rightarrow> oref \<Rightarrow> oref" where
  "buyer BUY r i = r"
| "buyer SELL r i = i"

fun seller :: "mside \<Rightarrow> oref \<Rightarrow> oref \<Rightarrow> oref" where
  "seller BUY r i = i"
| "seller SELL r i = r"

text \<open>The model's fill says that order \<open>r\<close>, on side \<open>s\<close>, took \<open>m\<close> from \<open>i\<close> at \<open>px\<close>.\<close>

definition is_fill :: "mside \<Rightarrow> oref \<Rightarrow> aord \<Rightarrow> model_fill \<Rightarrow> bool" where
  "is_fill s r x f \<longleftrightarrow>
     buy_order_id f = buyer s r (a_id x) \<and> sell_order_id f = seller s r (a_id x) \<and>
     f_price f = a_price x \<and> f_quantity f = a_qty x"

lemma match_step_side:
  assumes "wf_book b" "side_queue s b = r # rs" "side_queue (opp s) b = i # os"
    and "0 < remaining_quantity (obj b r)" "0 < remaining_quantity (obj b i)" "arr b i < arr b r"
  defines "t \<equiv> min (remaining_quantity (obj b r)) (remaining_quantity (obj b i))"
  shows "\<exists>b' f. match_step (buyer s r i) (seller s r i) b = Inr (b', f) \<and> wf_book b' \<and> evolves b b' \<and>
    side_queue s b' = (if remaining_quantity (obj b r) = t then rs else r # rs) \<and>
    side_queue (opp s) b' = (if remaining_quantity (obj b i) = t then os else i # os) \<and>
    remaining_quantity (obj b' r) = remaining_quantity (obj b r) - t \<and>
    remaining_quantity (obj b' i) = remaining_quantity (obj b i) - t \<and>
    (\<forall>x. x \<noteq> r \<longrightarrow> x \<noteq> i \<longrightarrow> deref b' x = deref b x) \<and>
    is_fill s r (i, o_price (obj b i), t) f"
proof (cases s)
  case BUY
  then show ?thesis
    using match_step_run [of b r rs i os] assms by (auto simp: is_fill_def)
next
  case SELL
  then show ?thesis
    using match_step_run [of b i os r rs] assms by (auto simp: is_fill_def min.commute)
qed

lemma abs_side_Cons:
  assumes "abs_side s b = (r, p, q) # Q"
  obtains rs where "side_queue s b = r # rs" "o_price (obj b r) = p"
    "remaining_quantity (obj b r) = q" "Q = map (abs_ord b) rs"
  using assms by (auto simp: abs_side_def abs_ord_def map_eq_Cons_conv)

lemma match_book_stop:
  assumes wf: "wf_book b" and un: "uncrossed BUY (abs_side BUY b) (abs_side SELL b)"
  shows "match_book b = Inr (b, [])"
proof -
  note bq = best_bid_queue [OF wf] and aq = best_ask_queue [OF wf]
  show ?thesis
  proof (cases "side_queue BUY b = [] \<or> side_queue SELL b = []")
    case True
    then show ?thesis
      by (subst match_book.simps) (auto simp: bq aq split: list.splits)
  next
    case False
    then obtain r rs a as where q: "side_queue BUY b = r # rs" "side_queue SELL b = a # as"
      by (auto simp: neq_Nil_conv)
    have "o_price (obj b r) < o_price (obj b a)"
      using un by (auto simp: uncrossed_def abs_side_def abs_ord_def q simp del: set_side_queue)
    then show ?thesis by (subst match_book.simps) (simp add: bq aq q)
  qed
qed

lemma match_book_go:
  assumes wf: "wf_book b" and q: "side_queue s b = r # rs" "side_queue (opp s) b = i # os"
    and c: "crosses s (o_price (obj b r)) (o_price (obj b i))"
  shows "match_book b =
    (case match_step (buyer s r i) (seller s r i) b of
       Inl e \<Rightarrow> Inl e
     | Inr (b', f) \<Rightarrow> (case match_book b' of Inl e \<Rightarrow> Inl e | Inr (b'', fs) \<Rightarrow> Inr (b'', f # fs)))"
  using q c
  by (cases s; subst match_book.simps)
     (simp_all add: best_bid_queue [OF wf] best_ask_queue [OF wf] not_less)

lemma uncrossed_worse:
  assumes "uncrossed s own ((i, px, m) # os)" "crosses s p px"
  shows "enqueue s (r, p, q) own = (r, p, q) # own"
proof (rule enqueue_best)
  fix y assume "y \<in> set own"
  with assms(1) have "\<not> crosses s (a_price y) px" by (auto simp: uncrossed_def)
  with assms(2) show "pkey s (a_price (r, p, q)) < pkey s (a_price y)"
    by (simp add: crosses_trans)
qed

lemma by_price_not_crosses:
  assumes "by_price (opp s) ((i, px, m) # os)" "\<not> crosses s p px" "y \<in> set ((i, px, m) # os)"
  shows "\<not> crosses s p (a_price y)"
proof -
  have "pkey (opp s) px \<le> pkey (opp s) (a_price y)" using assms(1,3) by (auto simp: by_price_def)
  with assms(2) show ?thesis using crosses_pkey by blast
qed

lemma uncrossed_side:
  "uncrossed s (abs_side s b) (abs_side (opp s) b) \<Longrightarrow> uncrossed BUY (abs_side BUY b) (abs_side SELL b)"
  by (cases s) (auto simp: uncrossed_opp [of BUY, simplified])

lemma match_turn:
  assumes wf: "wf_book b" and own: "abs_side s b = (r, p, q) # own"
    and os: "abs_side (opp s) b = (i, px, m) # os"
    and q: "0 < q" and m: "0 < m" and late: "arr b i < arr b r" and c: "crosses s p px"
  shows "\<exists>b' f. wf_book b' \<and> evolves b b' \<and> is_fill s r (i, px, min q m) f \<and>
    match_book b = (case match_book b' of Inl e \<Rightarrow> Inl e | Inr (b'', fs) \<Rightarrow> Inr (b'', f # fs)) \<and>
    abs_side s b' = (if q \<le> m then own else (r, p, q - m) # own) \<and>
    abs_side (opp s) b' = (if m \<le> q then os else (i, px, m - q) # os) \<and>
    remaining_quantity (obj b' r) = q - min q m \<and>
    remaining_quantity (obj b' i) = m - min q m \<and>
    (\<forall>x. x \<noteq> r \<longrightarrow> x \<noteq> i \<longrightarrow> deref b' x = deref b x)"
proof -
  obtain rs where rs: "side_queue s b = r # rs" "o_price (obj b r) = p"
    "remaining_quantity (obj b r) = q" "own = map (abs_ord b) rs" using own by (rule abs_side_Cons)
  obtain is' where is': "side_queue (opp s) b = i # is'" "o_price (obj b i) = px"
    "remaining_quantity (obj b i) = m" "os = map (abs_ord b) is'" using os by (rule abs_side_Cons)
  obtain b' f where step: "match_step (buyer s r i) (seller s r i) b = Inr (b', f)" "wf_book b'"
    "evolves b b'" "side_queue s b' = (if q = min q m then rs else r # rs)"
    "side_queue (opp s) b' = (if m = min q m then is' else i # is')"
    "remaining_quantity (obj b' r) = q - min q m" "remaining_quantity (obj b' i) = m - min q m"
    "\<forall>x. x \<noteq> r \<longrightarrow> x \<noteq> i \<longrightarrow> deref b' x = deref b x" "is_fill s r (i, px, min q m) f"
    using match_step_side [OF wf rs(1) is'(1)] q m late rs is' by auto
  have d: "set (r # rs) \<inter> set (i # is') = {}" "distinct (r # rs)" "distinct (i # is')"
    using sides_disjoint [OF wf, of s] distinct_queue [OF wf, of s] distinct_queue [OF wf, of "opp s"]
    by (simp_all only: rs(1) is'(1) set_side_queue [symmetric])
  have live: "deref b r \<noteq> None" "deref b i \<noteq> None"
    using live_deref [OF wf, of r] live_deref [OF wf, of i]
    by (simp_all add: live_queue [of b s] rs(1) is'(1) del: set_side_queue)
  have keep: "abs_ord b' x = abs_ord b x" if "x \<in> set rs \<union> set is'" for x
    using step(8) d that by (auto simp: abs_ord_def obj_def)
  have "map (abs_ord b') rs = own" "map (abs_ord b') is' = os"
    using keep by (auto simp: rs(4) is'(4))
  moreover have "abs_ord b' r = (r, p, q - min q m)" "abs_ord b' i = (i, px, m - min q m)"
    using live step(6,7) by (simp_all add: abs_ord_def evolves_obj [OF step(3)] rs is')
  ultimately have "abs_side s b' = (if q \<le> m then own else (r, p, q - m) # own)"
    "abs_side (opp s) b' = (if m \<le> q then os else (i, px, m - q) # os)"
    using step(4,5) by (auto simp: abs_side_def min_def)
  moreover have "match_book b = (case match_book b' of Inl e \<Rightarrow> Inl e | Inr (b'', fs) \<Rightarrow> Inr (b'', f # fs))"
    using match_book_go [OF wf rs(1) is'(1)] c step(1) rs(2) is'(2) by simp
  ultimately show ?thesis using step by blast
qed


definition match_result ::
  "mside \<Rightarrow> oref \<Rightarrow> int \<Rightarrow> aord list \<Rightarrow> book \<Rightarrow> aord list \<times> int \<times> aord list \<Rightarrow> aord list \<Rightarrow>
   book \<Rightarrow> model_fill list \<Rightarrow> bool" where
  "match_result s r p own b spec os b' mf \<longleftrightarrow>
     (case spec of (fs, q', os') \<Rightarrow>
        wf_book b' \<and> evolves b b' \<and> list_all2 (is_fill s r) fs mf \<and>
        abs_side s b' = (if q' = 0 then own else enqueue s (r, p, q') own) \<and>
        abs_side (opp s) b' = os' \<and>
        remaining_quantity (obj b' r) = q' \<and>
        (\<forall>x. x \<noteq> r \<longrightarrow> x \<notin> a_id ` set os \<longrightarrow> deref b' x = deref b x) \<and>
        (\<forall>x \<in> a_id ` set os. x \<notin> a_id ` set os' \<longrightarrow> remaining_quantity (obj b' x) = 0))"

lemma uncrossed_enqueue:
  "uncrossed s (enqueue s (r, p, q) own) os \<longleftrightarrow>
     uncrossed s own os \<and> (\<forall>y \<in> set os. \<not> crosses s p (a_price y))"
  by (auto simp: uncrossed_def)

lemma match_result_stop:
  assumes "wf_book b" "abs_side (opp s) b = os" "abs_side s b = (if q = 0 then own else enqueue s (r, p, q) own)"
    and "remaining_quantity (obj b r) = q" "uncrossed s (abs_side s b) os"
  shows "\<exists>b' mf. match_book b = Inr (b', mf) \<and> match_result s r p own b ([], q, os) os b' mf"
  using match_book_stop [OF assms(1) uncrossed_side [of s]] assms by (simp add: match_result_def)

lemma match_book_fills:
  assumes "wf_book b" "abs_side (opp s) b = os" "abs_side s b = enqueue s (r, p, q) own"
    and "0 < q" "remaining_quantity (obj b r) = q" "positive os" "uncrossed s own os"
    and "\<And>x. x \<in> a_id ` set os \<Longrightarrow> arr b x < arr b r"
  shows "\<exists>b' mf. match_book b = Inr (b', mf) \<and>
    match_result s r p own b (spec_fill s p q os) os b' mf"
  using assms
proof (induction os arbitrary: b q)
  case Nil
  have "uncrossed s (abs_side s b) []" by (simp add: uncrossed_def)
  with Nil match_result_stop [of b s "[]" q own r p] show ?case by simp
next
  case (Cons x os)
  obtain i px m where x: "x = (i, px, m)" by (cases x)
  have bp: "by_price (opp s) ((i, px, m) # os)"
    using by_price_abs [of "opp s" b] Cons.prems(2) by (simp add: x)
  show ?case
  proof (cases "crosses s p px")
    case False
    have "uncrossed s (enqueue s (r, p, q) own) (x # os)"
      unfolding uncrossed_enqueue
      using Cons.prems(7) by_price_not_crosses [OF bp False] by (simp add: x del: split_paired_All)
    with False Cons.prems match_result_stop [of b s "x # os" q own r p] show ?thesis
      by (simp add: x)
  next
    case True
    have own: "abs_side s b = (r, p, q) # own"
      using Cons.prems(3) uncrossed_worse [of s own i px m os p r q] Cons.prems(7) True by (simp add: x)
    have m: "0 < m" using Cons.prems(6) by (simp add: positive_def x)
    obtain b1 f where b1: "wf_book b1" "evolves b b1" "is_fill s r (i, px, min q m) f"
      "match_book b = (case match_book b1 of Inl e \<Rightarrow> Inl e | Inr (b'', fs) \<Rightarrow> Inr (b'', f # fs))"
      "abs_side s b1 = (if q \<le> m then own else (r, p, q - m) # own)"
      "abs_side (opp s) b1 = (if m \<le> q then os else (i, px, m - q) # os)"
      "remaining_quantity (obj b1 r) = q - min q m"
      "remaining_quantity (obj b1 i) = m - min q m"
      "\<forall>x. x \<noteq> r \<longrightarrow> x \<noteq> i \<longrightarrow> deref b1 x = deref b x"
      using match_turn [OF Cons.prems(1) own _ Cons.prems(4) m _ True, of i os] Cons.prems(2,8)
      by (auto simp: x)
    have un1: "uncrossed s own (abs_side (opp s) b1)"
      using Cons.prems(7) by (auto simp: b1(6) x uncrossed_def)
    show ?thesis
    proof (cases "q \<le> m")
      case True
      have spec: "spec_fill s p q (x # os) = ([(i, px, q)], 0, if q = m then os else (i, px, m - q) # os)"
        using True \<open>crosses s p px\<close> Cons.prems(4) by (auto simp: x spec_fill_done)
      have stop: "match_book b1 = Inr (b1, [])"
        by (rule match_book_stop [OF b1(1) uncrossed_side [of s]]) (use un1 True in \<open>simp add: b1(5)\<close>)
      have "match_result s r p own b (spec_fill s p q (x # os)) (x # os) b1 [f]"
        unfolding spec match_result_def using b1 True by (auto simp: x min_def)
      with stop b1(4) show ?thesis by auto
    next
      case False
      have own1: "abs_side s b1 = enqueue s (r, p, q - m) own"
        using False uncrossed_worse [of s own i px m os p r "q - m"] Cons.prems(7) \<open>crosses s p px\<close>
        by (simp add: b1(5) x)
      have os1: "abs_side (opp s) b1 = os" using False by (simp add: b1(6))
      have live1: "set os \<subseteq> abs_ord b1 ` live_refs b1" "(r, p, q - m) \<in> abs_ord b1 ` live_refs b1"
        unfolding live_queue [of b1 s] os1 [symmetric] using own1
        by (auto simp: abs_side_def) (metis imageI image_Un image_set insertI1 list.set_map set_enqueue UnI1 set_side_queue)
      have arr1: "arr b1 x < arr b1 r" if "x \<in> a_id ` set os" for x
      proof -
        have "x \<in> live_refs b1" "r \<in> live_refs b1"
          using live1 that by (auto simp: abs_ord_def)
        then have "arr b1 x = arr b x" "arr b1 r = arr b r"
          using b1(2) by (auto simp: evolves_def)
        with Cons.prems(8) that show ?thesis by simp
      qed
      have rem1: "remaining_quantity (obj b1 r) = q - m" using False b1(7) by simp
      have pos1: "positive os" using Cons.prems(6) by (simp add: positive_def)
      obtain b' mf where ih: "match_book b1 = Inr (b', mf)"
        "match_result s r p own b1 (spec_fill s p (q - m) os) os b' mf"
        using Cons.IH [OF b1(1) os1 own1 _ rem1 pos1 _ arr1] False un1 os1 by auto
      obtain fs q' os' where sp: "spec_fill s p (q - m) os = (fs, q', os')" by (metis prod_cases3)
      have spec: "spec_fill s p q (x # os) = ((i, px, m) # fs, q', os')"
        using False \<open>crosses s p px\<close> Cons.prems(4) by (simp add: x sp)
      have ios: "i \<notin> a_id ` set os"
        using distinct_queue [OF Cons.prems(1), of "opp s"] Cons.prems(2)
        by (auto simp: x abs_side_def abs_ord_def map_eq_Cons_conv)
      have "arr b i < arr b r" using Cons.prems(8) by (simp add: x)
      then have ir: "i \<noteq> r" by blast
      have "match_result s r p own b (spec_fill s p q (x # os)) (x # os) b' (f # mf)"
        using ih(2) b1(2,3,8,9) False ios ir evolves_trans [of b b1 b']
        unfolding spec sp match_result_def by (auto simp: x min_def obj_def)
      with ih(1) b1(4) show ?thesis by auto
    qed
  qed
qed


subsection \<open>Adding an order\<close>

lemma insort_enqueue:
  assumes "\<And>x. x \<in> set xs \<Longrightarrow> arr b x < arr b r"
  shows "map (abs_ord b) (insort_key (okey s b) r xs) = enqueue s (abs_ord b r) (map (abs_ord b) xs)"
  using assms
proof (induction xs)
  case (Cons x xs)
  have "\<not> arr b r \<le> arr b x" using Cons.prems [of x] by simp
  with Cons show ?case by (auto simp: okey_def abs_ord_def less_eq_prod_def)
qed (simp add: abs_ord_def)

definition inserted :: "order \<Rightarrow> book \<Rightarrow> book \<Rightarrow> bool" where
  "inserted ord b b2 \<longleftrightarrow>
     wf_book b2 \<and>
     abs_side (o_side ord) b2 =
       enqueue (o_side ord) (o_order_id ord, o_price ord, remaining_quantity ord) (abs_side (o_side ord) b) \<and>
     abs_side (opp (o_side ord)) b2 = abs_side (opp (o_side ord)) b \<and>
     deref b2 = (deref b)(o_order_id ord \<mapsto> ord) \<and>
     next_arrival_sequence b2 = next_arrival_sequence b + 1 \<and>
     live_refs b2 = insert (o_order_id ord) (live_refs b) \<and>
     (\<forall>x \<in> live_refs b. arr b2 x < arr b2 (o_order_id ord))"

lemma add_order_inserts:
  assumes wf: "wf_book b" and fresh: "o_order_id ord \<notin> live_refs b" and px: "0 < o_price ord"
  shows "\<exists>b2. inserted ord b b2 \<and> add_order ord False b = Inr (b2, []) \<and>
    add_order ord True b = match_book b2"
proof -
  let ?s = "o_side ord" and ?r = "o_order_id ord" and ?p = "o_price ord"
  let ?b1 = "(put_order ?r ord b)
     \<lparr>orders_by_id := dset ?r ?r (orders_by_id b),
      arrival_sequence := dset ?r (next_arrival_sequence b) (arrival_sequence b),
      next_arrival_sequence := next_arrival_sequence b + 1\<rparr>"
  let ?l = "case dget (side_map ?s b) ?p of None \<Rightarrow> \<lparr> lprice = ?p, lorders = [] \<rparr> | Some l \<Rightarrow> l"
  let ?l' = "level_append ?r ?l"
  let ?m = "dset ?p ?l' (side_map ?s b)"
  let ?b2 = "set_side_map ?s ?m ?b1"
  have ws: "wf_side ?s b" and wo: "wf_side (opp ?s) b" using wf by (simp_all add: wf_book_side)
  have sm: "side_map t ?b1 = side_map t b" for t by (cases t) (simp_all add: put_order_def)
  have byid: "dget (orders_by_id b) ?r = None"
    using wf fresh by (force simp: wf_book_def dget_None_iff)
  have run: "add_order ord f b = (if f then match_book ?b2 else Inr (?b2, []))" for f
    using px by (auto simp: add_order_def byid sm Let_def new_level_def split: option.splits)
  have der: "deref ?b2 = (deref b)(?r \<mapsto> ord)" by (simp add: deref_def put_order_def fun_eq_iff)
  have arrx: "dget (arrival_sequence ?b2) = (dget (arrival_sequence b))(?r \<mapsto> next_arrival_sequence b)"
    by (rule ext) simp
  have nxt: "next_arrival_sequence ?b2 = next_arrival_sequence b + 1" by simp
  have refs: "mset (refs_of ?m) = mset (?r # iter_orders ?s b)"
    using mset_refs_dset [of ?p ?l' "side_map ?s b"]
    by (auto simp: iter_orders_def level_append_def split: option.splits)
  have ms: "mset (iter_orders ?s ?b2) = mset (?r # iter_orders ?s b)"
    by (simp only: iter_set_side_map refs)
  have srefs: "set (iter_orders ?s ?b2) = insert ?r (set (iter_orders ?s b))"
    using mset_eq_setD [OF ms] by simp
  have iopp: "iter_orders (opp ?s) ?b2 = iter_orders (opp ?s) b" by (simp add: iter_orders_def sm)
  have fr: "?r \<notin> set (iter_orders ?s b)" "?r \<notin> set (iter_orders (opp ?s) b)"
    using fresh by (auto simp: live_refs_side [of b ?s])
  have live: "live_refs ?b2 = insert ?r (live_refs b)"
    unfolding live_refs_side [of _ ?s] srefs iopp by simp
  have late: "arr b x < next_arrival_sequence b" if "x \<in> live_refs b" for x
    using that iter_ref_ok [OF ws, of x] iter_ref_ok [OF wo, of x]
    by (auto simp: live_refs_side [of b ?s] elim!: ref_okE)
  have arr2: "arr ?b2 x = arr b x" if "x \<in> live_refs b" for x
    using that fresh by (auto simp: arr_def)
  have arrr: "arr ?b2 ?r = next_arrival_sequence b" by (simp add: arr_def)
  have wopp: "wf_side (opp ?s) ?b2"
    by (rule wf_side_cong [OF wo]) (use fr in \<open>auto simp: sm der arrx\<close>)
  have ws2: "wf_side ?s ?b2"
  proof -
    have keep: "level_ok ?s ?b2 px l" if k: "(px, l) \<in> set (side_map ?s b)" for px l
    proof (rule level_ok_mono [where l = l and b = b])
      show "level_ok ?s b px l" using ws k by (auto simp: wf_side_def)
      then show "lorders l \<noteq> []" by (simp add: level_ok_def)
      show "deref ?b2 x = deref b x" "dget (arrival_sequence ?b2) x = dget (arrival_sequence b) x"
        if "x \<in> set (lorders l)" for x
        using fr k that by (auto simp: der arrx in_iter_orders)
    qed simp_all
    have "level_ok ?s ?b2 ?p ?l'"
    proof -
      have ref: "ref_ok ?s ?b2 ?p ?r" by (simp add: ref_ok_def der arrx)
      show ?thesis
      proof (cases "dget (side_map ?s b) ?p")
        case None
        then show ?thesis using px ref by (simp add: level_ok_def level_append_def)
      next
        case (Some l)
        then have k: "(?p, l) \<in> set (side_map ?s b)" by (rule map_of_SomeD)
        have "arr ?b2 x < arr ?b2 ?r" if "x \<in> set (lorders l)" for x
        proof -
          have "x \<in> live_refs b" using k that by (auto simp: live_refs_side [of b ?s] in_iter_orders)
          then show ?thesis by (simp only: arr2 arrr late)
        qed
        with keep [OF k] ref Some show ?thesis
          by (simp add: level_ok_def level_append_def sorted_wrt_append)
      qed
    qed
    with keep ws show ?thesis unfolding wf_side_def iter_set_side_map by (auto simp: set_dset)
  qed
  have wf2: "wf_book ?b2"
  proof -
    have "wf_side BUY ?b2" "wf_side SELL ?b2" using ws2 wopp by (cases ?s; simp)+
    moreover have "wf_dict (orders_by_id ?b2)" using wf by (simp add: wf_book_def)
    moreover have "set (orders_by_id ?b2) = (\<lambda>r. (r, r)) ` live_refs ?b2"
      unfolding live using wf fresh by (auto simp: wf_book_def set_dset)
    moreover have "inj_on (arr ?b2) (live_refs ?b2)"
    proof -
      have "inj_on (arr ?b2) (live_refs b)"
        using wf by (simp add: wf_book_def inj_on_def arr2)
      moreover have "arr ?b2 ?r \<notin> arr ?b2 ` live_refs b"
      proof
        assume "arr ?b2 ?r \<in> arr ?b2 ` live_refs b"
        then obtain x where "x \<in> live_refs b" "arr ?b2 ?r = arr ?b2 x" by blast
        then show False using late [of x] arr2 [of x] arrr by simp
      qed
      ultimately show ?thesis unfolding live by (auto simp: inj_on_insert)
    qed
    ultimately show ?thesis by (simp add: wf_book_def)
  qed
  have keep: "abs_ord ?b2 x = abs_ord b x" if "x \<in> live_refs b" for x
    using that fresh by (auto simp: abs_ord_def obj_def der)
  have same: "okey t ?b2 x = okey t b x" if "x \<in> live_refs b" for t x
    using that fresh by (simp only: okey_def arr2) (auto simp: obj_def der)
  have "side_queue ?s ?b2 = sort_key (okey ?s ?b2) (?r # iter_orders ?s b)"
    unfolding side_queue_def
    by (rule sort_key_congr [OF ms inj_okey [OF wf2]]) simp
  also have "\<dots> = insort_key (okey ?s ?b2) ?r (side_queue ?s b)"
    unfolding side_queue_def
    by (subst sort_key_congr [of "iter_orders ?s b" "iter_orders ?s b" "okey ?s b" "okey ?s ?b2"])
       (use inj_okey [OF wf] same in \<open>auto simp: live_refs_side [of b ?s] simp del: iter_set_side_map\<close>)
  finally have qs: "side_queue ?s ?b2 = insort_key (okey ?s ?b2) ?r (side_queue ?s b)" .
  have new: "abs_ord ?b2 ?r = (?r, ?p, remaining_quantity ord)" by (simp add: abs_ord_def obj_def der)
  have "abs_side ?s ?b2 = enqueue ?s (abs_ord ?b2 ?r) (map (abs_ord ?b2) (side_queue ?s b))"
    unfolding abs_side_def qs
    by (rule insort_enqueue) (use late arr2 arrr in \<open>auto simp: live_refs_side [of b ?s]\<close>)
  also have "map (abs_ord ?b2) (side_queue ?s b) = abs_side ?s b"
    unfolding abs_side_def by (rule map_cong) (use keep in \<open>auto simp: live_refs_side [of b ?s]\<close>)
  finally have as: "abs_side ?s ?b2 = enqueue ?s (?r, ?p, remaining_quantity ord) (abs_side ?s b)"
    by (simp only: new)
  have qo: "side_queue (opp ?s) ?b2 = side_queue (opp ?s) b"
    by (rule side_queue_cong [OF iopp _ _ wf]) (use fr in \<open>auto simp: der arrx\<close>)
  have ao: "abs_side (opp ?s) ?b2 = abs_side (opp ?s) b"
    unfolding abs_side_def qo by (rule map_cong) (use keep in \<open>auto simp: live_refs_side [of b ?s]\<close>)
  have "inserted ord b ?b2"
    unfolding inserted_def using wf2 as ao der nxt live late arr2 arrr by auto
  with run [of False] run [of True] show ?thesis by auto
qed


subsection \<open>What the specification promises\<close>

definition total_qty :: "aord list \<Rightarrow> int" where
  "total_qty q = sum_list (map a_qty q)"

lemma total_qty_simps [simp]:
  "total_qty [] = 0" "total_qty (x # q) = a_qty x + total_qty q"
  by (simp_all add: total_qty_def)

lemma spec_fill_conserves:
  "spec_fill s p q os = (fs, q', os') \<Longrightarrow>
     q = q' + total_qty fs \<and> total_qty os = total_qty os' + total_qty fs"
  by (induction s p q os arbitrary: fs q' os' rule: spec_fill.induct)
     (auto split: if_splits prod.splits)

lemma spec_fill_positive:
  "spec_fill s p q os = (fs, q', os') \<Longrightarrow> positive os \<Longrightarrow> 0 \<le> q \<Longrightarrow>
     positive os' \<and> positive fs \<and> 0 \<le> q'"
  by (induction s p q os arbitrary: fs q' os' rule: spec_fill.induct)
     (auto simp: positive_def split: if_splits prod.splits)

lemma spec_fill_crosses:
  "spec_fill s p q os = (fs, q', os') \<Longrightarrow> \<forall>x \<in> set fs. crosses s p (a_price x)"
  by (induction s p q os arbitrary: fs q' os' rule: spec_fill.induct)
     (auto split: if_splits prod.splits)

text \<open>Price-time priority: the fills go down the queue, in order, from its head.\<close>

lemma spec_fill_prefix:
  "spec_fill s p q os = (fs, q', os') \<Longrightarrow>
     map (\<lambda>x. (a_id x, a_price x)) fs = take (length fs) (map (\<lambda>x. (a_id x, a_price x)) os)"
  by (induction s p q os arbitrary: fs q' os' rule: spec_fill.induct)
     (auto split: if_splits prod.splits)

text \<open>A resting order gives no more than it has, and is passed over only when it is exhausted.\<close>

lemma spec_fill_bounded:
  "spec_fill s p q os = (fs, q', os') \<Longrightarrow> positive os \<Longrightarrow>
     list_all2 (\<lambda>x y. a_qty x \<le> a_qty y) fs (take (length fs) os)"
  by (induction s p q os arbitrary: fs q' os' rule: spec_fill.induct)
     (auto simp: positive_def split: if_splits prod.splits)

lemma spec_fill_rest:
  "spec_fill s p q os = (fs, q', os') \<Longrightarrow>
     map (\<lambda>x. (a_id x, a_price x)) os' =
       drop (length os - length os') (map (\<lambda>x. (a_id x, a_price x)) os) \<and> length os' \<le> length os"
  by (induction s p q os arbitrary: fs q' os' rule: spec_fill.induct)
     (auto split: if_splits prod.splits simp: Suc_diff_le)

lemma spec_fill_stops:
  "spec_fill s p q os = (fs, q', os') \<Longrightarrow> by_price (opp s) os \<Longrightarrow> 0 \<le> q \<Longrightarrow>
     q' = 0 \<or> (\<forall>y \<in> set os'. \<not> crosses s p (a_price y))"
proof (induction s p q os arbitrary: fs q' os' rule: spec_fill.induct)
  case (2 s p q i px m rest)
  show ?case
  proof (cases "q \<le> 0 \<or> \<not> crosses s p px")
    case True
    with 2 by_price_not_crosses [of s i px m rest p] show ?thesis by force
  next
    case False
    with 2 show ?thesis by (auto simp: by_price_def split: if_splits prod.splits)
  qed
qed auto

lemma spec_fill_prices:
  "spec_fill s p q os = (fs, q', os') \<Longrightarrow> a_price ` set os' \<subseteq> a_price ` set os"
  by (induction s p q os arbitrary: fs q' os' rule: spec_fill.induct)
     (auto split: if_splits prod.splits)

lemma spec_fill_uncrossed:
  assumes "spec_fill s p q os = (fs, q', os')" "uncrossed s own os" "by_price (opp s) os" "0 \<le> q"
  shows "uncrossed s (if q' = 0 then own else enqueue s (r, p, q') own) os'"
proof -
  have un: "uncrossed s own os'"
    unfolding uncrossed_def
  proof (intro ballI)
    fix x y assume x: "x \<in> set own" and y: "y \<in> set os'"
    obtain z where "z \<in> set os" "a_price y = a_price z"
      using spec_fill_prices [OF assms(1)] y by blast
    with assms(2) x show "\<not> crosses s (a_price x) (a_price y)" by (simp add: uncrossed_def)
  qed
  show ?thesis
  proof (cases "q' = 0")
    case False
    with spec_fill_stops [OF assms(1,3,4)] un show ?thesis by (simp add: uncrossed_enqueue)
  qed (use un in simp)
qed

subsection \<open>Submitting an order\<close>

definition submitted ::
  "order \<Rightarrow> book \<Rightarrow> book \<Rightarrow> model_fill list \<Rightarrow> aord list \<Rightarrow> int \<Rightarrow> bool" where
  "submitted ord b b' mf fs q' \<longleftrightarrow>
     (let s = o_side ord; r = o_order_id ord; p = o_price ord in
        \<exists>os'. spec_fill s p (remaining_quantity ord) (abs_side (opp s) b) = (fs, q', os') \<and>
          wf_book b' \<and> settled b' \<and> list_all2 (is_fill s r) fs mf \<and>
          abs_side s b' = (if q' = 0 then abs_side s b else enqueue s (r, p, q') (abs_side s b)) \<and>
          abs_side (opp s) b' = os' \<and>
          deref b' r = Some (ord\<lparr>remaining_quantity := q'\<rparr>) \<and>
          next_arrival_sequence b' = next_arrival_sequence b + 1 \<and>
          (\<forall>x. x \<noteq> r \<longrightarrow> x \<notin> a_id ` set (abs_side (opp s) b) \<longrightarrow> deref b' x = deref b x) \<and>
          (\<forall>x \<in> a_id ` set (abs_side (opp s) b).
             x \<notin> a_id ` set os' \<longrightarrow> remaining_quantity (obj b' x) = 0) \<and>
          (\<forall>x ord'. x \<noteq> r \<longrightarrow> deref b x = Some ord' \<longrightarrow>
             (\<exists>v. deref b' x = Some (ord'\<lparr>remaining_quantity := v\<rparr>))))"

lemma ids_abs_side: "a_id ` set (abs_side s b) = set (iter_orders s b)"
  by (force simp: abs_side_def abs_ord_def)

lemma match_order_submits:
  assumes wf: "wf_book b" and st: "settled b" and fresh: "o_order_id ord \<notin> live_refs b"
    and px: "0 < o_price ord" and q: "0 < remaining_quantity ord"
  shows "\<exists>b' mf fs q'. match_order ord b = Inr (b', mf) \<and> submitted ord b b' mf fs q'"
proof -
  let ?s = "o_side ord" and ?r = "o_order_id ord" and ?p = "o_price ord" and ?q = "remaining_quantity ord"
  let ?own = "abs_side ?s b" and ?os = "abs_side (opp ?s) b"
  obtain b2 where ins: "inserted ord b b2" and run: "add_order ord True b = match_book b2"
    using add_order_inserts [OF wf fresh px] by blast
  then have wf2: "wf_book b2" and o2: "abs_side (opp ?s) b2 = ?os"
    and s2: "abs_side ?s b2 = enqueue ?s (?r, ?p, ?q) ?own"
    and d2: "deref b2 = (deref b)(?r \<mapsto> ord)" and n2: "next_arrival_sequence b2 = next_arrival_sequence b + 1"
    and late: "\<And>x. x \<in> live_refs b \<Longrightarrow> arr b2 x < arr b2 ?r"
    by (auto simp: inserted_def)
  have pos: "positive ?os" "positive ?own" "uncrossed ?s ?own ?os"
    using st settled_side [of b ?s] by simp_all
  have "remaining_quantity (obj b2 ?r) = ?q" by (simp add: obj_def d2)
  moreover have "arr b2 x < arr b2 ?r" if "x \<in> a_id ` set ?os" for x
    using late that unfolding ids_abs_side by (simp add: live_refs_side [of b ?s])
  ultimately obtain b' mf where m: "match_book b2 = Inr (b', mf)"
    "match_result ?s ?r ?p ?own b2 (spec_fill ?s ?p ?q ?os) ?os b' mf"
    using match_book_fills [OF wf2 o2 s2 q _ pos(1,3)] by blast
  obtain fs q' os' where sp: "spec_fill ?s ?p ?q ?os = (fs, q', os')" by (metis prod_cases3)
  have r: "wf_book b'" "evolves b2 b'" "list_all2 (is_fill ?s ?r) fs mf"
    "abs_side ?s b' = (if q' = 0 then ?own else enqueue ?s (?r, ?p, q') ?own)"
    "abs_side (opp ?s) b' = os'" "remaining_quantity (obj b' ?r) = q'"
    "\<forall>x. x \<noteq> ?r \<longrightarrow> x \<notin> a_id ` set ?os \<longrightarrow> deref b' x = deref b2 x"
    "\<forall>x \<in> a_id ` set ?os. x \<notin> a_id ` set os' \<longrightarrow> remaining_quantity (obj b' x) = 0"
    using m(2) unfolding match_result_def sp prod.case by blast+
  have sp': "positive os'" "0 \<le> q'" using spec_fill_positive [OF sp pos(1)] q by simp_all
  have "settled b'"
    unfolding settled_side [of b' ?s] r(4,5)
    using sp' pos(2) spec_fill_uncrossed [OF sp pos(3) by_price_abs, of ?r] q
    by (auto simp: positive_def)
  moreover have "deref b' ?r = Some (ord\<lparr>remaining_quantity := q'\<rparr>)"
  proof -
    obtain v where "deref b' ?r = Some (ord\<lparr>remaining_quantity := v\<rparr>)"
      using evolves_deref [OF r(2), of ?r] d2 by auto
    with r(6) show ?thesis by (simp add: obj_def)
  qed
  moreover have "\<exists>v. deref b' x = Some (ord'\<lparr>remaining_quantity := v\<rparr>)"
    if "x \<noteq> ?r" "deref b x = Some ord'" for x ord'
    using evolves_deref [OF r(2), of x] d2 that by simp
  moreover have "next_arrival_sequence b' = next_arrival_sequence b + 1"
    using r(2) n2 by (simp add: evolves_def)
  ultimately have "submitted ord b b' mf fs q'"
    unfolding submitted_def Let_def using sp r d2 by (intro exI [of _ os']) simp
  with run m(1) show ?thesis by (auto simp: match_order_def)
qed


subsection \<open>Cancelling an order\<close>

lemma filter_abs_remove1:
  assumes "distinct rs"
  shows "map (abs_ord b) (remove1 r rs) = filter (\<lambda>x. a_id x \<noteq> r) (map (abs_ord b) rs)"
  using assms by (simp add: distinct_remove1_removeAll removeAll_filter_not_eq filter_map abs_ord_def comp_def eq_commute)

lemma filter_abs_other: "r \<notin> a_id ` set q \<Longrightarrow> filter (\<lambda>x. a_id x \<noteq> r) q = q"
  by (auto simp: filter_id_conv)

lemma filter_enqueue: "filter (\<lambda>x. a_id x \<noteq> r) (enqueue s (r, p, q) os) = filter (\<lambda>x. a_id x \<noteq> r) os"
  by (induction os) auto

lemma remove_order_abs:
  assumes wf: "wf_book b" and r: "r \<in> live_refs b"
  shows "\<exists>b'. remove_order r b = Inr (b', Some r) \<and> wf_book b' \<and>
    (\<forall>s. abs_side s b' = filter (\<lambda>x. a_id x \<noteq> r) (abs_side s b)) \<and> deref b' = deref b"
proof -
  obtain s where s: "r \<in> set (iter_orders s b)" using r by (auto simp: live_refs_def)
  then obtain b' where b': "remove_order r b = Inr (b', Some r)" "wf_book b'"
    "side_queue s b' = remove1 r (side_queue s b)" "side_queue (opp s) b' = side_queue (opp s) b"
    "objs b' = objs b" using remove_order_live [OF wf] by blast
  have d: "deref b' = deref b" "abs_ord b' = abs_ord b"
    by (simp_all add: deref_def fun_eq_iff abs_ord_def obj_def b'(5))
  have "r \<notin> a_id ` set (abs_side (opp s) b)"
    unfolding ids_abs_side using sides_disjoint [OF wf, of s] s by blast
  then have "filter (\<lambda>x. a_id x \<noteq> r) (abs_side (opp s) b) = abs_side (opp s) b"
    by (rule filter_abs_other)
  moreover have "abs_side (opp s) b' = abs_side (opp s) b" by (simp add: abs_side_def d b'(4))
  ultimately have "abs_side (opp s) b' = filter (\<lambda>x. a_id x \<noteq> r) (abs_side (opp s) b)" by simp
  moreover have "abs_side s b' = filter (\<lambda>x. a_id x \<noteq> r) (abs_side s b)"
    unfolding abs_side_def d b'(3) by (rule filter_abs_remove1 [OF distinct_queue [OF wf]])
  ultimately have "abs_side t b' = filter (\<lambda>x. a_id x \<noteq> r) (abs_side t b)" for t
    by (cases "t = s") (cases s; cases t; simp)+
  with b' d show ?thesis by blast
qed

lemma settled_filter:
  assumes "settled b" "\<And>s. set (abs_side s b') \<subseteq> set (abs_side s b)"
  shows "settled b'"
  using assms(1) assms(2) [of BUY] assms(2) [of SELL]
  unfolding settled_def positive_def uncrossed_def by blast

lemma distinct_ids: "wf_book b \<Longrightarrow> distinct (map a_id (abs_side s b))"
proof -
  have "map a_id (abs_side s b) = side_queue s b" by (simp add: abs_side_def abs_ord_def comp_def)
  then show "wf_book b \<Longrightarrow> distinct (map a_id (abs_side s b))" by (simp only: distinct_queue)
qed

lemma spec_fill_ids:
  assumes "spec_fill s p q os = (fs, q', os')"
  shows "map a_id fs = take (length fs) (map a_id os)" "a_id ` set fs \<subseteq> a_id ` set os"
    "a_id ` set os' \<subseteq> a_id ` set os"
proof -
  have "map fst (map (\<lambda>x. (a_id x, a_price x)) fs) = map fst (take (length fs) (map (\<lambda>x. (a_id x, a_price x)) os))"
    using spec_fill_prefix [OF assms] by (rule arg_cong)
  then show 1: "map a_id fs = take (length fs) (map a_id os)" by (simp add: comp_def take_map)
  have "a_id ` set fs = set (map a_id fs)" by simp
  then show "a_id ` set fs \<subseteq> a_id ` set os" unfolding 1 using set_take_subset by (simp add: 1) fastforce
  show "a_id ` set os' \<subseteq> a_id ` set os"
  proof -
    have "map fst (map (\<lambda>x. (a_id x, a_price x)) os') =
      map fst (drop (length os - length os') (map (\<lambda>x. (a_id x, a_price x)) os))"
      using spec_fill_rest [OF assms] by (intro arg_cong [where f = "map fst"]) blast
    then have "map a_id os' = drop (length os - length os') (map a_id os)" by (simp add: comp_def drop_map)
    then have "set (map a_id os') \<subseteq> set (map a_id os)" by (simp only: set_drop_subset)
    then show ?thesis by simp
  qed
qed

lemma spec_fill_partition:
  "spec_fill s p q os = (fs, q', os') \<Longrightarrow> a_id ` set os \<subseteq> a_id ` set fs \<union> a_id ` set os'"
proof (induction s p q os arbitrary: fs q' os' rule: spec_fill.induct)
  case (2 s p q i px m rest)
  show ?case
  proof (cases "q \<le> 0 \<or> \<not> crosses s p px \<or> q < m")
    case True
    with "2.prems" show ?thesis by (auto split: if_splits)
  next
    case False
    then obtain fs1 where "spec_fill s p (q - m) rest = (fs1, q', os')" "fs = (i, px, m) # fs1"
      using "2.prems" by (auto split: prod.splits)
    with "2.IH" False have "a_id ` set rest \<subseteq> a_id ` set fs1 \<union> a_id ` set os'" by auto
    with \<open>fs = _\<close> show ?thesis by (simp, blast)
  qed
qed auto


lemma fills_total:
  assumes "list_all2 (is_fill s r) fs mf"
  shows "sum_list (map f_quantity mf) = total_qty fs"
  using assms by (induction rule: list_all2_induct) (auto simp: is_fill_def)

lemma list_all2_right: "list_all2 P xs ys \<Longrightarrow> y \<in> set ys \<Longrightarrow> \<exists>x \<in> set xs. P x y"
  by (induction rule: list_all2_induct) auto

subsection \<open>Properties\<close>

text \<open>A book with two asks queued at 100 and a bid at 98, and an order that crosses it.\<close>

definition demo_order :: "int \<Rightarrow> mside \<Rightarrow> int \<Rightarrow> int \<Rightarrow> order" where
  "demo_order i s px q =
     \<lparr> o_order_id = i, o_user_id = 40 + i, o_symbol = ''1'', o_side = s, o_price = px,
       o_quantity = q, o_created_at = 0, remaining_quantity = q \<rparr>"

definition demo_book :: book where
  "demo_book =
     \<lparr> objs = [(1, demo_order 1 SELL 100 3), (2, demo_order 2 SELL 100 2), (3, demo_order 3 BUY 98 5)],
       bids = [(98, \<lparr> lprice = 98, lorders = [3] \<rparr>)],
       asks = [(100, \<lparr> lprice = 100, lorders = [1, 2] \<rparr>)],
       orders_by_id = [(1, 1), (2, 2), (3, 3)],
       arrival_sequence = [(1, 0), (2, 1), (3, 2)], next_arrival_sequence = 3 \<rparr>"

lemma demo_queues:
  "abs_side BUY demo_book = [(3, 98, 5)]" "abs_side SELL demo_book = [(1, 100, 3), (2, 100, 2)]"
  by (simp_all add: demo_book_def demo_order_def abs_side_def side_queue_def iter_orders_def abs_ord_def
      obj_def deref_def okey_def arr_def)

lemma demo_wf: "wf_book demo_book" "settled demo_book" "4 \<notin> live_refs demo_book"
proof -
  show "wf_book demo_book" "4 \<notin> live_refs demo_book"
    by (simp_all add: demo_book_def demo_order_def wf_book_def wf_side_def level_ok_def ref_ok_def
        live_refs_def iter_orders_def deref_def arr_def wf_dict_def inj_on_def insert_commute)
  show "settled demo_book" by (simp add: settled_def demo_queues positive_def uncrossed_def)
qed

text \<open>C1. Submitting an order never raises on a well-formed, uncrossed book, and does exactly
  what price-time priority says: the fills are those of walking the opposite queue from its
  head at the resting prices, the opposite queue is what that walk leaves, and a remainder
  joins its own side behind everything at its price or better. The book stays well formed
  and uncrossed.\<close>

theorem match_order_price_time:
  assumes "wf_book b" "settled b" "o_order_id ord \<notin> live_refs b"
    and "0 < o_price ord" "0 < remaining_quantity ord"
  shows "\<exists>b' mf. match_order ord b = Inr (b', mf) \<and> wf_book b' \<and> settled b' \<and>
    (case spec_fill (o_side ord) (o_price ord) (remaining_quantity ord) (abs_side (opp (o_side ord)) b) of
       (fs, q', os') \<Rightarrow>
         list_all2 (is_fill (o_side ord) (o_order_id ord)) fs mf \<and>
         abs_side (opp (o_side ord)) b' = os' \<and>
         abs_side (o_side ord) b' =
           (if q' = 0 then abs_side (o_side ord) b
            else enqueue (o_side ord) (o_order_id ord, o_price ord, q') (abs_side (o_side ord) b)))"
  using match_order_submits [OF assms] by (fastforce simp: submitted_def Let_def)

theorem match_order_price_time_witness:
  "\<exists>b' mf. match_order (demo_order 4 BUY 101 4) demo_book = Inr (b', mf) \<and>
    list_all2 (is_fill BUY 4) [(1, 100, 3), (2, 100, 1)] mf \<and>
    abs_side SELL b' = [(2, 100, 1)] \<and> abs_side BUY b' = [(3, 98, 5)]"
  using match_order_price_time [of demo_book "demo_order 4 BUY 101 4"] demo_wf
  by (auto simp: demo_order_def demo_queues)

text \<open>Quantity is conserved and nobody is overfilled: the fills of a submission add up to
  what the order lost, the opposite side loses exactly that, every fill is positive, and
  every fill price is one the order's limit accepts.\<close>

theorem match_order_conserves:
  assumes "wf_book b" "settled b" "o_order_id ord \<notin> live_refs b"
    and "0 < o_price ord" "0 < remaining_quantity ord"
    and "match_order ord b = Inr (b', mf)"
  shows "sum_list (map f_quantity mf) =
      remaining_quantity ord - remaining_quantity (obj b' (o_order_id ord)) \<and>
    total_qty (abs_side (opp (o_side ord)) b') =
      total_qty (abs_side (opp (o_side ord)) b) - sum_list (map f_quantity mf) \<and>
    0 \<le> remaining_quantity (obj b' (o_order_id ord)) \<and>
    (\<forall>f \<in> set mf. 0 < f_quantity f \<and> crosses (o_side ord) (o_price ord) (f_price f))"
proof -
  let ?s = "o_side ord" and ?os = "abs_side (opp (o_side ord)) b"
  obtain fs q' os' where sub: "submitted ord b b' mf fs q'"
    and sp: "spec_fill ?s (o_price ord) (remaining_quantity ord) ?os = (fs, q', os')"
    using match_order_submits [OF assms(1-5)] assms(6) by (auto simp: submitted_def Let_def)
  then have b': "list_all2 (is_fill ?s (o_order_id ord)) fs mf" "abs_side (opp ?s) b' = os'"
    "remaining_quantity (obj b' (o_order_id ord)) = q'"
    by (auto simp: submitted_def Let_def obj_def)
  have pos: "positive os' \<and> positive fs \<and> 0 \<le> q'"
    using spec_fill_positive [OF sp] assms(2,5) settled_side [of b ?s] by simp
  have "0 < f_quantity f \<and> crosses ?s (o_price ord) (f_price f)" if f: "f \<in> set mf" for f
  proof -
    obtain x where "x \<in> set fs" "is_fill ?s (o_order_id ord) x f"
      using list_all2_right [OF b'(1) f] by blast
    with pos spec_fill_crosses [OF sp] show ?thesis by (auto simp: is_fill_def positive_def)
  qed
  with spec_fill_conserves [OF sp] fills_total [OF b'(1)] pos show ?thesis by (simp add: b')
qed

theorem match_order_conserves_witness:
  "\<exists>b' mf. match_order (demo_order 4 BUY 101 4) demo_book = Inr (b', mf) \<and>
    sum_list (map f_quantity mf) = 4 - remaining_quantity (obj b' 4) \<and>
    total_qty (abs_side SELL b') = 5 - sum_list (map f_quantity mf)"
proof -
  let ?o = "demo_order 4 BUY 101 4"
  have o: "o_order_id ?o \<notin> live_refs demo_book" "0 < o_price ?o" "0 < remaining_quantity ?o"
    using demo_wf by (simp_all add: demo_order_def)
  obtain b' mf where r: "match_order ?o demo_book = Inr (b', mf)"
    using match_order_submits [OF demo_wf(1,2) o] by blast
  have sel: "o_side ?o = BUY" "o_order_id ?o = 4" "remaining_quantity ?o = 4"
    "total_qty (abs_side SELL demo_book) = 5"
    by (simp_all add: demo_order_def demo_queues)
  have "sum_list (map f_quantity mf) = 4 - remaining_quantity (obj b' 4) \<and>
    total_qty (abs_side SELL b') = 5 - sum_list (map f_quantity mf)"
    using match_order_conserves [OF demo_wf(1,2) o r] by (simp only: sel opp.simps)
  with r show ?thesis by blast
qed

text \<open>Removing an order takes exactly that order out of its queue and leaves every other
  order's place, price and quantity alone; an id that is not in the book changes nothing. It
  never raises on a well-formed book.\<close>

theorem remove_order_exact:
  assumes "wf_book b" "settled b"
  shows "\<exists>b'. remove_order r b = Inr (b', if r \<in> live_refs b then Some r else None) \<and>
    wf_book b' \<and> settled b' \<and> (\<forall>s. abs_side s b' = filter (\<lambda>x. a_id x \<noteq> r) (abs_side s b))"
proof (cases "r \<in> live_refs b")
  case True
  then obtain b' where b': "remove_order r b = Inr (b', Some r)" "wf_book b'"
    "\<And>s. abs_side s b' = filter (\<lambda>x. a_id x \<noteq> r) (abs_side s b)"
    using remove_order_abs [OF assms(1)] by blast
  moreover have "settled b'" by (rule settled_filter [OF assms(2)]) (simp add: b'(3))
  ultimately show ?thesis using True by auto
next
  case False
  have "filter (\<lambda>x. a_id x \<noteq> r) (abs_side s b) = abs_side s b" for s
  proof (rule filter_abs_other)
    show "r \<notin> a_id ` set (abs_side s b)"
      using False unfolding ids_abs_side live_refs_side [of b s] by blast
  qed
  with False assms remove_order_absent [OF assms(1) False] show ?thesis by simp
qed

theorem remove_order_exact_witness:
  "\<exists>b'. remove_order 1 demo_book = Inr (b', Some 1) \<and> abs_side SELL b' = [(2, 100, 2)]"
proof -
  have "1 \<in> live_refs demo_book" by (simp add: demo_book_def live_refs_def iter_orders_def)
  with remove_order_exact [OF demo_wf(1,2), of 1] show ?thesis
    by (auto simp: demo_queues dest: spec [where x = SELL])
qed

end
