(* ===== verification/Matcher.thy ===== *)
theory Matcher
  imports Contracts Matching_Spec
begin

section \<open>The matcher: services/matcher/adapter.py\<close>

text \<open>
  \<open>NaiveMatcher\<close> wraps one reference book per symbol and speaks wire records. Its state is the
  books, the next order id, the live orders by client key \<open>(user_id, client_order_id)\<close> and by
  order id. A \<open>_Live\<close> holds the model's \<open>Order\<close> object; here that is the object's reference in
  the symbol's book, so \<open>remaining_qty\<close> reads the store.

  Operations are \<open>exn + (matcher \<times> outbound records)\<close>. \<open>Matcher_Spec\<close> states what the matcher
  promises and proves that these definitions keep it.
\<close>

subsection \<open>State\<close>

record live =
  lv_order_id :: int
  lv_client_order_id :: int
  lv_user_id :: int
  lv_symbol_id :: int
  lv_side :: int
  lv_price_ticks :: int
  lv_qty :: int
  lv_model_order :: oref

record matcher =
  m_initial_cash_ticks :: int
  m_books :: "(int, book) dict"
  m_next_order_id :: int
  m_live :: "(int \<times> int, live) dict"
  m_by_order_id :: "(int, live) dict"

definition new_matcher :: "int \<Rightarrow> int \<Rightarrow> matcher" where
  "new_matcher first_order_id initial_cash =
     \<lparr> m_initial_cash_ticks = initial_cash, m_books = [], m_next_order_id = first_order_id,
       m_live = [], m_by_order_id = [] \<rparr>"

definition SIDE_TO_MODEL :: "(int, mside) dict" where
  "SIDE_TO_MODEL = [(Side_BUY, BUY), (Side_SELL, SELL)]"

definition get_book :: "int \<Rightarrow> matcher \<Rightarrow> book" where
  "get_book sy m = (case dget (m_books m) sy of None \<Rightarrow> empty_book | Some b \<Rightarrow> b)"

definition put_book :: "int \<Rightarrow> book \<Rightarrow> matcher \<Rightarrow> matcher" where
  "put_book sy b m = m\<lparr>m_books := dset sy b (m_books m)\<rparr>"

definition live_key :: "live \<Rightarrow> int \<times> int" where
  "live_key lv = (lv_user_id lv, lv_client_order_id lv)"

definition remaining_qty_of :: "matcher \<Rightarrow> live \<Rightarrow> exn + int" where
  "remaining_qty_of m lv =
     (case deref (get_book (lv_symbol_id lv) m) (lv_model_order lv) of
        None \<Rightarrow> Inl RuntimeError
      | Some ord \<Rightarrow> Inr (remaining_quantity ord))"

definition forget :: "live \<Rightarrow> matcher \<Rightarrow> matcher" where
  "forget lv m = m\<lparr>m_live := dpop (live_key lv) (m_live m),
                   m_by_order_id := dpop (lv_order_id lv) (m_by_order_id m)\<rparr>"

text \<open>\<open>resting()\<close>: every live order as \<open>(order_id, symbol, side, price, remaining)\<close>, sorted.\<close>

fun resting_rows :: "matcher \<Rightarrow> live list \<Rightarrow> exn + (int \<times> int \<times> int \<times> int \<times> int) list" where
  "resting_rows m [] = Inr []"
| "resting_rows m (lv # lvs) =
     (case remaining_qty_of m lv of
        Inl e \<Rightarrow> Inl e
      | Inr rem \<Rightarrow>
          (case resting_rows m lvs of
             Inl e \<Rightarrow> Inl e
           | Inr rows \<Rightarrow>
               Inr ((lv_order_id lv, lv_symbol_id lv, lv_side lv, lv_price_ticks lv, rem) # rows)))"

definition resting :: "matcher \<Rightarrow> exn + (int \<times> int \<times> int \<times> int \<times> int) list" where
  "resting m = (case resting_rows m (dvalues (m_by_order_id m)) of
                  Inl e \<Rightarrow> Inl e | Inr rows \<Rightarrow> Inr (sort rows))"

subsection \<open>Submit\<close>

text \<open>\<open>_reject_reason\<close>, on the fields it reads.\<close>

definition reject_reason :: "int \<Rightarrow> int \<Rightarrow> int \<Rightarrow> int \<Rightarrow> int option" where
  "reject_reason sd tf px q =
     (if dget SIDE_TO_MODEL sd = None then Some RejectReason_INVALID_SIDE
      else if tf \<notin> {Tif_GTC, Tif_IOC} then Some RejectReason_INVALID_TIF
      else if px \<le> 0 then Some RejectReason_INVALID_PRICE
      else if q \<le> 0 then Some RejectReason_INVALID_QUANTITY
      else None)"

text \<open>\<open>_to_contract_fill\<close> for one fill of the model, and the loop over all of them.\<close>

definition to_contract_fill ::
  "int \<Rightarrow> int \<Rightarrow> model_fill \<Rightarrow> int \<Rightarrow> matcher \<Rightarrow> exn + (matcher \<times> wire)" where
  "to_contract_fill ts sd f taker_id m =
     (let maker_id = (if buy_order_id f = taker_id then sell_order_id f else buy_order_id f)
      in case (dget (m_by_order_id m) maker_id, dget (m_by_order_id m) taker_id) of
           (Some maker, Some filled) \<Rightarrow>
             (case remaining_qty_of m maker of
                Inl e \<Rightarrow> Inl e
              | Inr rem \<Rightarrow>
                  Inr (if rem = 0 then forget maker m else m,
                       Fill_new ts maker_id taker_id (lv_user_id maker)
                         (lv_user_id filled) (f_price f) (f_quantity f) (lv_symbol_id maker) sd))
         | _ \<Rightarrow> Inl KeyError)"

fun to_contract_fills ::
  "int \<Rightarrow> int \<Rightarrow> int \<Rightarrow> model_fill list \<Rightarrow> matcher \<Rightarrow> exn + (matcher \<times> wire list)" where
  "to_contract_fills ts sd taker_id [] m = Inr (m, [])"
| "to_contract_fills ts sd taker_id (f # fs) m =
     (case to_contract_fill ts sd f taker_id m of
        Inl e \<Rightarrow> Inl e
      | Inr (m1, w) \<Rightarrow>
          (case to_contract_fills ts sd taker_id fs m1 of
             Inl e \<Rightarrow> Inl e
           | Inr (m2, ws) \<Rightarrow> Inr (m2, w # ws)))"

text \<open>The end of \<open>_submit\<close>: an IOC remainder never rests, a filled order is forgotten.\<close>

definition finish_submit ::
  "int \<Rightarrow> int \<Rightarrow> live \<Rightarrow> matcher \<Rightarrow> exn + (matcher \<times> wire list)" where
  "finish_submit ts tf lv m =
     (case remaining_qty_of m lv of
        Inl e \<Rightarrow> Inl e
      | Inr remaining \<Rightarrow>
          if tf = Tif_IOC \<and> remaining > 0 then
            (case remove_order (lv_order_id lv) (get_book (lv_symbol_id lv) m) of
               Inl e \<Rightarrow> Inl e
             | Inr (b, _) \<Rightarrow>
                 Inr (forget lv (put_book (lv_symbol_id lv) b m),
                      [OrderCancelled_new ts (lv_order_id lv) (lv_client_order_id lv) (lv_user_id lv)
                         remaining (lv_symbol_id lv) CancelReason_IOC_EXPIRED]))
          else if remaining = 0 then Inr (forget lv m, [])
          else Inr (m, []))"

definition submit ::
  "int \<Rightarrow> int \<Rightarrow> int \<Rightarrow> int \<Rightarrow> int \<Rightarrow> int \<Rightarrow> int \<Rightarrow> int \<Rightarrow> matcher \<Rightarrow>
   exn + (matcher \<times> wire list)" where
  "submit ts coid uid px q sy sd tf m =
     (case reject_reason sd tf px q of
        Some why \<Rightarrow> Inr (m, [OrderRejected_new ts coid uid sy why])
      | None \<Rightarrow>
          (case dget SIDE_TO_MODEL sd of
             None \<Rightarrow> Inl KeyError
           | Some s \<Rightarrow>
               let oid = m_next_order_id m in
               (case new_order oid uid (str_int sy) s px q ts of
                  Inl e \<Rightarrow> Inl e
                | Inr model_order \<Rightarrow>
                    let lv = \<lparr> lv_order_id = oid, lv_client_order_id = coid,
                               lv_user_id = uid, lv_symbol_id = sy, lv_side = sd,
                               lv_price_ticks = px, lv_qty = q, lv_model_order = oid \<rparr>;
                        m1 = m\<lparr>m_next_order_id := oid + 1,
                               m_live := dset (live_key lv) lv (m_live m),
                               m_by_order_id := dset oid lv (m_by_order_id m)\<rparr>
                    in (case match_order model_order (get_book sy m1) of
                          Inl e \<Rightarrow> Inl e
                        | Inr (b, model_fills) \<Rightarrow>
                            (case to_contract_fills ts sd oid model_fills (put_book sy b m1) of
                               Inl e \<Rightarrow> Inl e
                             | Inr (m2, fills) \<Rightarrow>
                                 (case finish_submit ts tf lv m2 of
                                    Inl e \<Rightarrow> Inl e
                                  | Inr (m3, cancelled) \<Rightarrow>
                                      Inr (m3, OrderAccepted_new ts oid coid uid px q sy sd tf
                                                 # fills @ cancelled)))))))"

subsection \<open>Cancel, forward, apply\<close>

definition cancel :: "int \<Rightarrow> int \<Rightarrow> int \<Rightarrow> int \<Rightarrow> matcher \<Rightarrow> exn + (matcher \<times> wire list)" where
  "cancel ts coid uid target m =
     (case dget (m_live m) (uid, target) of
        None \<Rightarrow> Inr (m, [OrderRejected_new ts coid uid 0 RejectReason_UNKNOWN_ORDER])
      | Some lv \<Rightarrow>
          (case remaining_qty_of m lv of
             Inl e \<Rightarrow> Inl e
           | Inr remaining \<Rightarrow>
               (case remove_order (lv_order_id lv) (get_book (lv_symbol_id lv) m) of
                  Inl e \<Rightarrow> Inl e
                | Inr (b, _) \<Rightarrow>
                    Inr (forget lv (put_book (lv_symbol_id lv) b m),
                         [OrderCancelled_new ts (lv_order_id lv) (lv_client_order_id lv) uid
                            remaining (lv_symbol_id lv) CancelReason_USER_REQUESTED]))))"

definition forward :: "wire \<Rightarrow> matcher \<Rightarrow> matcher \<times> wire list" where
  "forward r m =
     (if is_CreateAccount r
      then (m, [AccountCreated_new (timestamp_ns (hdr r)) (client_order_id r) (user_id r)
                  (m_initial_cash_ticks m)])
      else if is_CreditCash r
      then (m, [CashCredited_new (timestamp_ns (hdr r)) (client_order_id r) (user_id r)
                  (amount_ticks r)])
      else (m, [ReplayConfigured_new (timestamp_ns (hdr r)) (client_order_id r)
                  (real_seconds_per_simulated_minute r) (config_hash_hi r) (config_hash_lo r)]))"

definition apply_record :: "wire \<Rightarrow> matcher \<Rightarrow> exn + (matcher \<times> wire list)" where
  "apply_record r m =
     (if is_SubmitOrder r
      then submit (timestamp_ns (hdr r)) (client_order_id r) (user_id r) (price_ticks r) (qty r)
             (symbol_id r) (side r) (tif r) m
      else if is_CancelOrder r
      then cancel (timestamp_ns (hdr r)) (client_order_id r) (user_id r) (target_client_order_id r) m
      else if is_CreateAccount r \<or> is_CreditCash r \<or> is_ConfigureReplay r
      then Inr (forward r m)
      else Inr (m, []))"

text \<open>A run over an inbound log: the outbound records of every entry, in order.\<close>

fun apply_all :: "wire list \<Rightarrow> matcher \<Rightarrow> exn + (matcher \<times> wire list)" where
  "apply_all [] m = Inr (m, [])"
| "apply_all (r # rs) m =
     (case apply_record r m of
        Inl e \<Rightarrow> Inl e
      | Inr (m1, out) \<Rightarrow>
          (case apply_all rs m1 of Inl e \<Rightarrow> Inl e | Inr (m2, out') \<Rightarrow> Inr (m2, out @ out')))"

end
