(* ===== verification/Matcher_Spec.thy ===== *)
theory Matcher_Spec
  imports Matcher
begin

section \<open>What the matcher promises, and that it keeps it\<close>

text \<open>
  The abstract matcher holds, for each symbol and side, a priority queue; for each live order
  its owner; and for each client key the order it names. \<open>spec_apply\<close> says in terms of
  \<open>spec_fill\<close> and \<open>enqueue\<close> what an inbound record does to that state and exactly which records
  come out. \<open>wf_matcher\<close> is the invariant of the concrete state, and the refinement lemma
  shows that \<open>apply_record\<close> never raises on a well-formed matcher, keeps it well formed, emits
  the records of \<open>spec_apply\<close> and commutes with the abstraction.
\<close>

subsection \<open>The abstract matcher\<close>

record owner =
  ow_user :: int
  ow_client_order_id :: int
  ow_symbol :: int
  ow_side :: int

record amatcher =
  am_cash :: int
  am_next :: int
  am_queue :: "int \<Rightarrow> mside \<Rightarrow> aord list"
  am_info :: "int \<Rightarrow> owner option"
  am_live :: "int \<times> int \<Rightarrow> int option"

definition ow_key :: "owner \<Rightarrow> int \<times> int" where
  "ow_key w = (ow_user w, ow_client_order_id w)"

definition own_at :: "(int \<Rightarrow> owner option) \<Rightarrow> int \<Rightarrow> owner" where
  "own_at info i = the (info i)"

text \<open>Orders that are gone leave both maps; a client key goes with the order it belonged to.\<close>

definition spec_forget :: "int list \<Rightarrow> amatcher \<Rightarrow> amatcher" where
  "spec_forget gone am =
     am\<lparr>am_info := (\<lambda>i. if i \<in> set gone then None else am_info am i),
        am_live := (\<lambda>k. if k \<in> set (map (ow_key \<circ> own_at (am_info am)) gone) then None
                        else am_live am k)\<rparr>"

definition spec_submit ::
  "int \<Rightarrow> int \<Rightarrow> int \<Rightarrow> int \<Rightarrow> int \<Rightarrow> int \<Rightarrow> int \<Rightarrow> int \<Rightarrow> amatcher \<Rightarrow> amatcher \<times> wire list" where
  "spec_submit ts coid uid px q sy sd tf am =
     (case reject_reason sd tf px q of
        Some why \<Rightarrow> (am, [OrderRejected_new ts coid uid sy why])
      | None \<Rightarrow>
          let s = (if sd = Side_BUY then BUY else SELL);
              oid = am_next am;
              (fs, q', os') = spec_fill s px q (am_queue am sy (opp s));
              rests = (q' > 0 \<and> tf \<noteq> Tif_IOC);
              own = am_queue am sy s;
              own' = (if rests then enqueue s (oid, px, q') own else own);
              w = \<lparr> ow_user = uid, ow_client_order_id = coid, ow_symbol = sy, ow_side = sd \<rparr>;
              gone = filter (\<lambda>i. i \<notin> a_id ` set os') (map a_id fs) @ (if rests then [] else [oid]);
              am1 = am\<lparr>am_next := oid + 1,
                       am_queue := (am_queue am)(sy := (\<lambda>t. if t = s then own' else os')),
                       am_info := (am_info am)(oid \<mapsto> w),
                       am_live := (am_live am)((uid, coid) \<mapsto> oid)\<rparr>;
              fills = map (\<lambda>x. Fill_new ts (a_id x) oid (ow_user (own_at (am_info am1) (a_id x))) uid
                                 (a_price x) (a_qty x) sy sd) fs
          in (spec_forget gone am1,
              OrderAccepted_new ts oid coid uid px q sy sd tf # fills
                @ (if q' > 0 \<and> tf = Tif_IOC
                   then [OrderCancelled_new ts oid coid uid q' sy CancelReason_IOC_EXPIRED] else [])))"

definition spec_remaining :: "int \<Rightarrow> aord list \<Rightarrow> int" where
  "spec_remaining oid os = (case filter (\<lambda>x. a_id x = oid) os of [] \<Rightarrow> 0 | x # _ \<Rightarrow> a_qty x)"

definition spec_cancel :: "int \<Rightarrow> int \<Rightarrow> int \<Rightarrow> int \<Rightarrow> amatcher \<Rightarrow> amatcher \<times> wire list" where
  "spec_cancel ts coid uid target am =
     (case am_live am (uid, target) of
        None \<Rightarrow> (am, [OrderRejected_new ts coid uid 0 RejectReason_UNKNOWN_ORDER])
      | Some oid \<Rightarrow>
          let w = own_at (am_info am) oid;
              s = (if ow_side w = Side_BUY then BUY else SELL);
              os = am_queue am (ow_symbol w) s
          in (spec_forget [oid]
                (am\<lparr>am_queue := (am_queue am)(ow_symbol w :=
                   (\<lambda>t. filter (\<lambda>x. a_id x \<noteq> oid) (am_queue am (ow_symbol w) t)))\<rparr>),
              [OrderCancelled_new ts oid target uid (spec_remaining oid os) (ow_symbol w)
                 CancelReason_USER_REQUESTED]))"

definition spec_forward :: "wire \<Rightarrow> amatcher \<Rightarrow> amatcher \<times> wire list" where
  "spec_forward r am =
     (am, [if is_CreateAccount r
           then AccountCreated_new (timestamp_ns (hdr r)) (client_order_id r) (user_id r) (am_cash am)
           else if is_CreditCash r
           then CashCredited_new (timestamp_ns (hdr r)) (client_order_id r) (user_id r) (amount_ticks r)
           else ReplayConfigured_new (timestamp_ns (hdr r)) (client_order_id r)
                  (real_seconds_per_simulated_minute r) (config_hash_hi r) (config_hash_lo r)])"

definition spec_apply :: "wire \<Rightarrow> amatcher \<Rightarrow> amatcher \<times> wire list" where
  "spec_apply r am =
     (if is_SubmitOrder r
      then spec_submit (timestamp_ns (hdr r)) (client_order_id r) (user_id r) (price_ticks r) (qty r)
             (symbol_id r) (side r) (tif r) am
      else if is_CancelOrder r
      then spec_cancel (timestamp_ns (hdr r)) (client_order_id r) (user_id r)
             (target_client_order_id r) am
      else if is_CreateAccount r \<or> is_CreditCash r \<or> is_ConfigureReplay r then spec_forward r am
      else (am, []))"

subsection \<open>Invariant and abstraction\<close>

definition owner_of :: "live \<Rightarrow> owner" where
  "owner_of lv = \<lparr> ow_user = lv_user_id lv, ow_client_order_id = lv_client_order_id lv,
                   ow_symbol = lv_symbol_id lv, ow_side = lv_side lv \<rparr>"

definition live_ok :: "matcher \<Rightarrow> int \<Rightarrow> live \<Rightarrow> bool" where
  "live_ok m i lv \<longleftrightarrow>
     lv_order_id lv = i \<and> lv_model_order lv = i \<and> i < m_next_order_id m \<and>
     lv_side lv \<in> {Side_BUY, Side_SELL} \<and>
     i \<in> set (iter_orders (if lv_side lv = Side_BUY then BUY else SELL)
                (get_book (lv_symbol_id lv) m)) \<and>
     lv_price_ticks lv = o_price (obj (get_book (lv_symbol_id lv) m) i)"

definition wf_matcher :: "matcher \<Rightarrow> bool" where
  "wf_matcher m \<longleftrightarrow>
     wf_dict (m_books m) \<and> wf_dict (m_live m) \<and> sorted_wrt (<) (dkeys (m_by_order_id m)) \<and>
     (\<forall>(sy, b) \<in> set (m_books m). wf_book b \<and> settled b \<and>
        (\<forall>i \<in> live_refs b. \<exists>lv \<in> set (dvalues (m_by_order_id m)). lv_order_id lv = i \<and> lv_symbol_id lv = sy)) \<and>
     (\<forall>(i, lv) \<in> set (m_by_order_id m). live_ok m i lv) \<and>
     (\<forall>(k, lv) \<in> set (m_live m). k = live_key lv \<and> (lv_order_id lv, lv) \<in> set (m_by_order_id m))"

definition abs_matcher :: "matcher \<Rightarrow> amatcher" where
  "abs_matcher m =
     \<lparr> am_cash = m_initial_cash_ticks m, am_next = m_next_order_id m,
       am_queue = (\<lambda>sy s. abs_side s (get_book sy m)),
       am_info = (\<lambda>i. map_option owner_of (dget (m_by_order_id m) i)),
       am_live = (\<lambda>k. map_option lv_order_id (dget (m_live m) k)) \<rparr>"

lemma wf_empty_book: "wf_book empty_book" "settled empty_book"
  by (simp_all add: wf_book_def wf_side_def empty_book_def live_refs_def iter_orders_def
      settled_def abs_side_def side_queue_def positive_def uncrossed_def)

lemma wf_new_matcher: "wf_matcher (new_matcher n c)"
  by (simp add: wf_matcher_def new_matcher_def)

lemma wf_by_order_id: "wf_matcher m \<Longrightarrow> wf_dict (m_by_order_id m)"
  by (auto simp: wf_matcher_def wf_dict_def dest: sorted_wrt_distinct [where g = id, simplified])

lemma get_book_cases:
  obtains "get_book sy m = empty_book" "dget (m_books m) sy = None"
  | "(sy, get_book sy m) \<in> set (m_books m)" "dget (m_books m) sy = Some (get_book sy m)"
  by (cases "dget (m_books m) sy") (auto simp: get_book_def dest: map_of_SomeD)

lemma get_book_wf: "wf_matcher m \<Longrightarrow> wf_book (get_book sy m)"
  by (rule get_book_cases [of sy m]) (auto simp: wf_matcher_def wf_empty_book)

lemma get_book_settled: "wf_matcher m \<Longrightarrow> settled (get_book sy m)"
  by (rule get_book_cases [of sy m]) (auto simp: wf_matcher_def wf_empty_book)

lemma by_order_id_ok: "wf_matcher m \<Longrightarrow> dget (m_by_order_id m) i = Some lv \<Longrightarrow> live_ok m i lv"
  by (auto simp: wf_matcher_def dest!: map_of_SomeD)

lemma live_ok_live: "live_ok m i lv \<Longrightarrow> i \<in> live_refs (get_book (lv_symbol_id lv) m)"
  by (auto simp: live_ok_def live_refs_def split: if_splits)

lemma live_in_by_order_id:
  assumes wf: "wf_matcher m" and i: "i \<in> live_refs (get_book sy m)"
  shows "\<exists>lv. dget (m_by_order_id m) i = Some lv \<and> lv_symbol_id lv = sy"
proof (cases rule: get_book_cases [of sy m])
  case 1
  with i show ?thesis by (simp add: live_refs_def iter_orders_def empty_book_def)
next
  case 2
  with wf i obtain k lv where k: "(k, lv) \<in> set (m_by_order_id m)" "lv_order_id lv = i" "lv_symbol_id lv = sy"
    by (fastforce simp: wf_matcher_def)
  then have "live_ok m k lv" using wf by (auto simp: wf_matcher_def)
  with k(2) have "k = i" by (simp add: live_ok_def)
  with k wf show ?thesis by (auto simp: dget_in_set wf_by_order_id)
qed

lemma live_key_ok:
  assumes "wf_matcher m" "dget (m_live m) k = Some lv"
  shows "k = live_key lv" "dget (m_by_order_id m) (lv_order_id lv) = Some lv"
  using assms by (auto simp: wf_matcher_def dget_in_set wf_by_order_id dest!: map_of_SomeD)

lemma live_ok_remaining:
  assumes "wf_matcher m" "live_ok m i lv"
  shows "remaining_qty_of m lv = Inr (remaining_quantity (obj (get_book (lv_symbol_id lv) m) i))"
  using live_deref [OF get_book_wf [OF assms(1)] live_ok_live [OF assms(2)]] assms(2)
  by (simp add: remaining_qty_of_def live_ok_def)

lemma get_book_put_book [simp]:
  "get_book sy' (put_book sy b m) = (if sy' = sy then b else get_book sy' m)"
  by (simp add: get_book_def put_book_def)

lemma put_book_sel [simp]:
  "m_initial_cash_ticks (put_book sy b m) = m_initial_cash_ticks m"
  "m_next_order_id (put_book sy b m) = m_next_order_id m"
  "m_live (put_book sy b m) = m_live m"
  "m_by_order_id (put_book sy b m) = m_by_order_id m"
  "m_books (put_book sy b m) = dset sy b (m_books m)"
  by (simp_all add: put_book_def)

lemma forget_sel [simp]:
  "m_initial_cash_ticks (forget lv m) = m_initial_cash_ticks m"
  "m_next_order_id (forget lv m) = m_next_order_id m"
  "m_books (forget lv m) = m_books m"
  "get_book sy (forget lv m) = get_book sy m"
  "m_live (forget lv m) = dpop (live_key lv) (m_live m)"
  "m_by_order_id (forget lv m) = dpop (lv_order_id lv) (m_by_order_id m)"
  "remaining_qty_of (forget lv m) lv' = remaining_qty_of m lv'"
  by (simp_all add: forget_def get_book_def remaining_qty_of_def)

subsection \<open>Dictionaries that lose a list of keys\<close>

lemma dget_fold_dpop: "dget (fold dpop ks d) k = (if k \<in> set ks then None else dget d k)"
  by (induction ks arbitrary: d) auto

lemma wf_dict_fold_dpop: "wf_dict d \<Longrightarrow> wf_dict (fold dpop ks d)"
  by (induction ks arbitrary: d) auto

lemma dkeys_fold_dpop: "dkeys (fold dpop ks d) = filter (\<lambda>k. k \<notin> set ks) (dkeys d)"
proof (induction ks arbitrary: d)
  case (Cons k ks)
  then show ?case by (simp add: delete_keys removeAll_filter_not_eq) (rule filter_cong; auto)
qed simp

lemma set_fold_dpop: "set (fold dpop ks d) = {p \<in> set d. fst p \<notin> set ks}"
  by (induction ks arbitrary: d) (auto simp: set_dpop)


subsection \<open>The loop over the fills\<close>

definition exhausted :: "matcher \<Rightarrow> int \<Rightarrow> bool" where
  "exhausted m i \<longleftrightarrow> (case dget (m_by_order_id m) i of
                        None \<Rightarrow> False | Some lv \<Rightarrow> remaining_qty_of m lv = Inr 0)"

definition key_at :: "matcher \<Rightarrow> int \<Rightarrow> int \<times> int" where
  "key_at m i = live_key (the (dget (m_by_order_id m) i))"

definition forget_ids :: "int list \<Rightarrow> matcher \<Rightarrow> matcher" where
  "forget_ids ids m =
     m\<lparr>m_live := fold dpop (map (key_at m) ids) (m_live m),
       m_by_order_id := fold dpop ids (m_by_order_id m)\<rparr>"

definition fill_wire :: "int \<Rightarrow> int \<Rightarrow> int \<Rightarrow> int \<Rightarrow> int \<Rightarrow> matcher \<Rightarrow> aord \<Rightarrow> wire" where
  "fill_wire ts sy sd r uid m x =
     Fill_new ts (a_id x) r (lv_user_id (the (dget (m_by_order_id m) (a_id x)))) uid
       (a_price x) (a_qty x) sy sd"

lemma fills_run:
  assumes "list_all2 (is_fill s r) fs mf" "distinct (map a_id fs)" "r \<notin> a_id ` set fs"
    and "dget (m_by_order_id m) r = Some tk" "lv_user_id tk = uid"
    and "\<And>i. i \<in> a_id ` set fs \<Longrightarrow>
      \<exists>lv q. dget (m_by_order_id m) i = Some lv \<and> lv_order_id lv = i \<and> lv_symbol_id lv = sy \<and>
        remaining_qty_of m lv = Inr q"
  shows "to_contract_fills ts sd r mf m =
    Inr (forget_ids (filter (exhausted m) (map a_id fs)) m, map (fill_wire ts sy sd r uid m) fs)"
  using assms
proof (induction fs mf arbitrary: m rule: list_all2_induct)
  case Nil
  then show ?case by (simp add: forget_ids_def)
next
  case (Cons x fs f mf)
  let ?i = "a_id x"
  obtain lv q where lv: "dget (m_by_order_id m) ?i = Some lv" "lv_order_id lv = ?i"
    "lv_symbol_id lv = sy" "remaining_qty_of m lv = Inr q" using Cons.prems(5) [of ?i] by auto
  have ir: "?i \<noteq> r" "?i \<notin> a_id ` set fs" using Cons.prems(1,2) by auto
  let ?m1 = "if q = 0 then forget lv m else m"
  have step: "to_contract_fill ts sd f r m = Inr (?m1, fill_wire ts sy sd r uid m x)"
    using Cons.hyps(1) lv ir Cons.prems(3,4)
    by (cases s) (auto simp: to_contract_fill_def is_fill_def fill_wire_def Let_def)
  have ids1: "dget (m_by_order_id ?m1) j = dget (m_by_order_id m) j" if "j \<noteq> ?i" for j
    using that lv(2) by auto
  have rem1: "remaining_qty_of ?m1 = remaining_qty_of m" by (rule ext) simp
  have ih: "to_contract_fills ts sd r mf ?m1 =
    Inr (forget_ids (filter (exhausted ?m1) (map a_id fs)) ?m1, map (fill_wire ts sy sd r uid ?m1) fs)"
  proof (rule Cons.IH)
    show "distinct (map a_id fs)" "r \<notin> a_id ` set fs" "lv_user_id tk = uid"
      using Cons.prems by auto
    show "dget (m_by_order_id ?m1) r = Some tk" using ids1 ir(1) Cons.prems(3) by metis
    show "\<exists>lv q. dget (m_by_order_id ?m1) i = Some lv \<and> lv_order_id lv = i \<and> lv_symbol_id lv = sy \<and>
        remaining_qty_of ?m1 lv = Inr q" if "i \<in> a_id ` set fs" for i
    proof -
      have "i \<noteq> ?i" using that ir(2) by blast
      then have d: "dget (m_by_order_id ?m1) i = dget (m_by_order_id m) i" by (rule ids1)
      show ?thesis unfolding d rem1 using Cons.prems(5) [of i] that by auto
    qed
  qed
  have ex1: "exhausted ?m1 j = exhausted m j" and key1: "key_at ?m1 j = key_at m j"
    if "j \<noteq> ?i" for j
    by (simp_all only: exhausted_def key_at_def rem1 ids1 [OF that])
  have wire1: "fill_wire ts sy sd r uid ?m1 y = fill_wire ts sy sd r uid m y" if "a_id y \<noteq> ?i" for y
    by (simp only: fill_wire_def ids1 [OF that])
  have ne: "j \<noteq> ?i" if "j \<in> set (map a_id fs)" for j
    using that ir(2) unfolding set_map by blast
  have ex: "filter (exhausted ?m1) (map a_id fs) = filter (exhausted m) (map a_id fs)"
    by (rule filter_cong) (use ex1 ne in blast)+
  have wires: "map (fill_wire ts sy sd r uid ?m1) fs = map (fill_wire ts sy sd r uid m) fs"
    by (rule map_cong) (use wire1 ir(2) in \<open>metis image_eqI\<close>)+
  have "forget_ids (filter (exhausted m) (map a_id fs)) ?m1 =
    forget_ids (filter (exhausted m) (map a_id (x # fs))) m"
  proof -
    have keys: "map (key_at ?m1) (filter (exhausted m) (map a_id fs)) =
      map (key_at m) (filter (exhausted m) (map a_id fs))"
      by (rule map_cong) (use key1 ne in auto)
    have exh: "exhausted m ?i \<longleftrightarrow> q = 0" using lv by (simp add: exhausted_def)
    have keyi: "key_at m ?i = live_key lv" using lv by (simp add: key_at_def)
    let ?ids = "filter (exhausted m) (map a_id fs)"
    show ?thesis
    proof (cases "q = 0")
      case True
      have "map (key_at (forget lv m)) ?ids = map (key_at m) ?ids" using keys by (simp only: True if_True simp_thms)
      then have "forget_ids ?ids (forget lv m) = forget_ids (?i # ?ids) m"
        by (simp only: forget_ids_def) (simp add: forget_def keyi lv(2))
      with True exh show ?thesis by simp
    next
      case False
      with exh show ?thesis by simp
    qed
  qed
  with step ih ex wires show ?case by simp
qed


subsection \<open>Where a submission leaves the state\<close>

definition side_of :: "int \<Rightarrow> mside" where
  "side_of sd = (if sd = Side_BUY then BUY else SELL)"

definition new_live :: "int \<Rightarrow> int \<Rightarrow> int \<Rightarrow> int \<Rightarrow> int \<Rightarrow> int \<Rightarrow> int \<Rightarrow> live" where
  "new_live oid coid uid px q sy sd =
     \<lparr> lv_order_id = oid, lv_client_order_id = coid, lv_user_id = uid, lv_symbol_id = sy,
       lv_side = sd, lv_price_ticks = px, lv_qty = q, lv_model_order = oid \<rparr>"

definition opened :: "live \<Rightarrow> matcher \<Rightarrow> matcher" where
  "opened lv m =
     m\<lparr>m_next_order_id := lv_order_id lv + 1,
       m_live := dset (live_key lv) lv (m_live m),
       m_by_order_id := dset (lv_order_id lv) lv (m_by_order_id m)\<rparr>"

definition placed :: "live \<Rightarrow> int list \<Rightarrow> book \<Rightarrow> matcher \<Rightarrow> matcher \<Rightarrow> bool" where
  "placed lv gone b3 m m3 \<longleftrightarrow>
     m_initial_cash_ticks m3 = m_initial_cash_ticks m \<and>
     m_next_order_id m3 = m_next_order_id m + 1 \<and>
     wf_dict (m_books m3) \<and> dget (m_books m3) = (dget (m_books m))(lv_symbol_id lv \<mapsto> b3) \<and>
     m_live m3 = m_live (forget_ids gone (opened lv m)) \<and>
     m_by_order_id m3 = m_by_order_id (forget_ids gone (opened lv m))"

lemma opened_sel [simp]:
  "m_initial_cash_ticks (opened lv m) = m_initial_cash_ticks m"
  "m_next_order_id (opened lv m) = lv_order_id lv + 1"
  "m_books (opened lv m) = m_books m"
  "get_book sy (opened lv m) = get_book sy m"
  "m_live (opened lv m) = dset (live_key lv) lv (m_live m)"
  "m_by_order_id (opened lv m) = dset (lv_order_id lv) lv (m_by_order_id m)"
  by (simp_all add: opened_def get_book_def)

lemma forget_ids_sel [simp]:
  "m_books (forget_ids g m) = m_books m"
  "get_book sy (forget_ids g m) = get_book sy m"
  "m_next_order_id (forget_ids g m) = m_next_order_id m"
  "m_initial_cash_ticks (forget_ids g m) = m_initial_cash_ticks m"
  "m_live (forget_ids g m) = fold dpop (map (key_at m) g) (m_live m)"
  "m_by_order_id (forget_ids g m) = fold dpop g (m_by_order_id m)"
  by (simp_all add: forget_ids_def get_book_def)

lemma new_id_fresh:
  assumes "wf_matcher m"
  shows "dget (m_by_order_id m) (m_next_order_id m) = None"
    and "m_next_order_id m \<notin> live_refs (get_book sy m)"
proof -
  show n: "dget (m_by_order_id m) (m_next_order_id m) = None"
    using by_order_id_ok [OF assms, of "m_next_order_id m"]
    by (cases "dget (m_by_order_id m) (m_next_order_id m)") (auto simp: live_ok_def)
  show "m_next_order_id m \<notin> live_refs (get_book sy m)"
    using live_in_by_order_id [OF assms, of "m_next_order_id m" sy] n by auto
qed

lemma placed_by_order_id:
  assumes "wf_matcher m" "placed lv gone b3 m m3" "lv_order_id lv = m_next_order_id m"
  shows "sorted_wrt (<) (dkeys (m_by_order_id m3))"
    and "dget (m_by_order_id m3) i =
      (if i \<in> set gone then None
       else if i = m_next_order_id m then Some lv else dget (m_by_order_id m) i)"
proof -
  have fresh: "m_next_order_id m \<notin> set (dkeys (m_by_order_id m))"
    using new_id_fresh(1) [OF assms(1)] by (simp add: dget_None_iff)
  have "i < m_next_order_id m" if "i \<in> set (dkeys (m_by_order_id m))" for i
    using assms(1) that by (auto simp: wf_matcher_def live_ok_def)
  then have "sorted_wrt (<) (dkeys (m_by_order_id m) @ [m_next_order_id m])"
    using assms(1) by (simp add: wf_matcher_def sorted_wrt_append)
  moreover have "dkeys (m_by_order_id m3) =
      filter (\<lambda>k. k \<notin> set gone) (dkeys (m_by_order_id m) @ [m_next_order_id m])"
    using assms(2) by (simp add: placed_def assms(3) dkeys_fold_dpop dset_fresh [OF fresh])
  ultimately show "sorted_wrt (<) (dkeys (m_by_order_id m3))"
    by (simp only: sorted_wrt_filter)
  show "dget (m_by_order_id m3) i =
      (if i \<in> set gone then None
       else if i = m_next_order_id m then Some lv else dget (m_by_order_id m) i)"
    using assms(2) by (simp add: placed_def dget_fold_dpop assms(3))
qed

lemma placed_live:
  assumes "placed lv gone b3 m m3"
  shows "dget (m_live m3) k =
    (if k \<in> set (map (key_at (opened lv m)) gone) then None
     else if k = live_key lv then Some lv else dget (m_live m) k)"
  using assms by (simp add: placed_def dget_fold_dpop)

text \<open>
  The facts about the book that make the state after a submission well formed: which orders
  of the symbol are left, and that no price moved.
\<close>

definition book_after ::
  "live \<Rightarrow> mside \<Rightarrow> int list \<Rightarrow> aord list \<Rightarrow> aord list \<Rightarrow> book \<Rightarrow> book \<Rightarrow> bool" where
  "book_after lv s gone own' os' b b3 \<longleftrightarrow>
     wf_book b3 \<and> settled b3 \<and> abs_side s b3 = own' \<and> abs_side (opp s) b3 = os' \<and>
     (\<forall>t. a_id ` set (abs_side t b3) =
        a_id ` set (abs_side t b) \<union> (if t = s then {lv_order_id lv} else {}) - set gone) \<and>
     set gone \<subseteq> insert (lv_order_id lv) (live_refs b) \<and>
     o_price (obj b3 (lv_order_id lv)) = lv_price_ticks lv \<and>
     (\<forall>i \<in> live_refs b. o_price (obj b3 i) = o_price (obj b i))"

lemma placed_wf:
  assumes wf: "wf_matcher m" and pl: "placed lv gone b3 m m3"
    and ba: "book_after lv (side_of (lv_side lv)) gone own' os' (get_book (lv_symbol_id lv) m) b3"
    and lv: "lv_order_id lv = m_next_order_id m" "lv_model_order lv = m_next_order_id m"
    "lv_side lv \<in> {Side_BUY, Side_SELL}"
  shows "wf_matcher m3"
proof -
  let ?sy = "lv_symbol_id lv" and ?n = "m_next_order_id m"
  let ?b = "get_book ?sy m"
  note ids3 = placed_by_order_id [OF wf pl lv(1)]
  have wfid3: "wf_dict (m_by_order_id m3)"
    using ids3(1) by (auto simp: wf_dict_def dest: sorted_wrt_distinct [where g = id, simplified])
  have next3: "m_next_order_id m3 = ?n + 1" using pl by (simp add: placed_def)
  have book3: "get_book sy m3 = (if sy = ?sy then b3 else get_book sy m)" for sy
    using pl by (simp add: placed_def get_book_def)
  have b3: "wf_book b3" "settled b3" "set gone \<subseteq> insert ?n (live_refs ?b)"
    using ba lv by (simp_all add: book_after_def)
  have iter3: "set (iter_orders t b3) =
      set (iter_orders t ?b) \<union> (if t = side_of (lv_side lv) then {?n} else {}) - set gone" for t
    using ba unfolding book_after_def ids_abs_side lv(1) by (elim conjE) (erule spec)
  then have live3: "live_refs b3 = insert ?n (live_refs ?b) - set gone"
    by (cases "side_of (lv_side lv)") (auto simp: live_refs_def)
  have other: "i \<notin> set gone" "i \<noteq> ?n" if "dget (m_by_order_id m) i = Some l" "lv_symbol_id l \<noteq> ?sy" for i l
    using that b3(3) live_in_by_order_id [OF wf, of i ?sy] new_id_fresh(1) [OF wf] by auto
  have books: "wf_book b \<and> settled b \<and> (\<forall>i \<in> live_refs b. \<exists>l \<in> set (dvalues (m_by_order_id m3)).
      lv_order_id l = i \<and> lv_symbol_id l = sy)" if "dget (m_books m3) sy = Some b" for sy b
  proof -
    have b: "b = get_book sy m3" using that by (simp add: get_book_def)
    have "\<exists>l. dget (m_by_order_id m3) i = Some l \<and> lv_order_id l = i \<and> lv_symbol_id l = sy"
      if i: "i \<in> live_refs b" for i
    proof (cases "sy = ?sy")
      case True
      then have "i \<in> insert ?n (live_refs ?b)" "i \<notin> set gone" using i live3 by (auto simp: b book3)
      then show ?thesis
        using live_in_by_order_id [OF wf, of i ?sy] by_order_id_ok [OF wf, of i] True lv(1)
        by (auto simp: ids3(2) live_ok_def)
    next
      case False
      then obtain l where l: "dget (m_by_order_id m) i = Some l" "lv_symbol_id l = sy"
        using live_in_by_order_id [OF wf, of i sy] i by (auto simp: b book3)
      with False other [of i l] by_order_id_ok [OF wf, of i l] show ?thesis
        by (auto simp: ids3(2) live_ok_def)
    qed
    then have "\<forall>i \<in> live_refs b. \<exists>l \<in> set (dvalues (m_by_order_id m3)).
        lv_order_id l = i \<and> lv_symbol_id l = sy"
      by (force dest!: map_of_SomeD)
    then show ?thesis using b3 get_book_wf [OF wf] get_book_settled [OF wf] by (simp add: b book3)
  qed
  have lives: "live_ok m3 i l" if "dget (m_by_order_id m3) i = Some l" for i l
  proof -
    have ng: "i \<notin> set gone" using that by (auto simp: ids3(2) split: if_splits)
    show ?thesis
    proof (cases "i = ?n")
      case True
      then have "l = lv" using that ng by (simp add: ids3(2))
      moreover have "?n \<in> set (iter_orders (side_of (lv_side lv)) b3)"
        using iter3 [of "side_of (lv_side lv)"] ng True by simp
      ultimately show ?thesis
        using True lv ba by (simp add: live_ok_def next3 book3 side_of_def book_after_def)
    next
      case False
      then have l: "dget (m_by_order_id m) i = Some l" using that ng by (simp add: ids3(2))
      then have ok: "live_ok m i l" by (rule by_order_id_ok [OF wf])
      show ?thesis
      proof (cases "lv_symbol_id l = ?sy")
        case True
        have "i \<in> live_refs ?b" using live_ok_live [OF ok] True by simp
        then have "o_price (obj b3 i) = o_price (obj ?b i)" using ba by (simp add: book_after_def)
        with ok True iter3 ng show ?thesis by (simp add: live_ok_def next3 book3)
      next
        case False
        with ok show ?thesis by (simp add: live_ok_def next3 book3)
      qed
    qed
  qed
  have keys: "k = live_key l \<and> dget (m_by_order_id m3) (lv_order_id l) = Some l"
    if "dget (m_live m3) k = Some l" for k l
  proof -
    have nk: "k \<notin> key_at (opened lv m) ` set gone"
      and kl: "k = live_key lv \<and> l = lv \<or> k \<noteq> live_key lv \<and> dget (m_live m) k = Some l"
      using that by (auto simp: placed_live [OF pl] split: if_splits)
    from kl show ?thesis
    proof
      assume a: "k = live_key lv \<and> l = lv"
      then have "key_at (opened lv m) ?n = k" by (simp add: key_at_def lv)
      with nk have "?n \<notin> set gone" by force
      with a lv show ?thesis by (simp add: ids3(2))
    next
      assume a: "k \<noteq> live_key lv \<and> dget (m_live m) k = Some l"
      then have o: "k = live_key l" "dget (m_by_order_id m) (lv_order_id l) = Some l"
        using live_key_ok [OF wf, of k l] by auto
      then have ne: "lv_order_id l \<noteq> ?n" using new_id_fresh(1) [OF wf] by auto
      then have "key_at (opened lv m) (lv_order_id l) = k" using o by (simp add: key_at_def lv)
      with nk have "lv_order_id l \<notin> set gone" by force
      with o ne show ?thesis by (simp add: ids3(2))
    qed
  qed
  have wfd: "wf_dict (m_books m3)" "wf_dict (m_live m3)"
    using pl wf by (simp_all add: placed_def wf_matcher_def wf_dict_fold_dpop)
  show ?thesis
    unfolding wf_matcher_def
    using wfd ids3(1) books lives keys
    by (auto simp: dget_in_set [OF wfd(1), symmetric] dget_in_set [OF wfd(2), symmetric]
        dget_in_set [OF wfid3, symmetric])
qed


lemma abs_key_at:
  assumes "i = lv_order_id lv \<or> dget (m_by_order_id m) i \<noteq> None"
  shows "(ow_key \<circ> own_at ((am_info (abs_matcher m))(lv_order_id lv \<mapsto> owner_of lv))) i =
    key_at (opened lv m) i"
  using assms by (auto simp: abs_matcher_def own_at_def ow_key_def owner_of_def key_at_def live_key_def)

lemma placed_abs:
  assumes wf: "wf_matcher m" and pl: "placed lv gone b3 m m3"
    and ba: "book_after lv s gone own' os' (get_book (lv_symbol_id lv) m) b3"
    and lv: "lv_order_id lv = m_next_order_id m"
  shows "abs_matcher m3 = spec_forget gone
    ((abs_matcher m)\<lparr>am_next := m_next_order_id m + 1,
       am_queue := (am_queue (abs_matcher m))(lv_symbol_id lv := (\<lambda>t. if t = s then own' else os')),
       am_info := (am_info (abs_matcher m))(m_next_order_id m \<mapsto> owner_of lv),
       am_live := (am_live (abs_matcher m))(live_key lv \<mapsto> m_next_order_id m)\<rparr>)"
    (is "_ = spec_forget gone ?am1")
proof -
  let ?sy = "lv_symbol_id lv" and ?n = "m_next_order_id m"
  have gone: "i = ?n \<or> dget (m_by_order_id m) i \<noteq> None" if "i \<in> set gone" for i
  proof -
    have "i \<in> insert ?n (live_refs (get_book ?sy m))"
      using ba that unfolding book_after_def lv by blast
    then show ?thesis using live_in_by_order_id [OF wf, of i ?sy] by auto
  qed
  have keys: "map (ow_key \<circ> own_at (am_info ?am1)) gone = map (key_at (opened lv m)) gone"
  proof (rule map_cong)
    show "(ow_key \<circ> own_at (am_info ?am1)) i = key_at (opened lv m) i" if "i \<in> set gone" for i
      using abs_key_at [of i lv m] gone [OF that] by (simp add: lv)
  qed simp
  have q: "am_queue (abs_matcher m3) = am_queue ?am1"
  proof (intro ext)
    fix sy t
    have "t = s \<or> t = opp s" by (cases s; cases t) simp_all
    then show "am_queue (abs_matcher m3) sy t = am_queue ?am1 sy t"
      using pl ba by (auto simp: abs_matcher_def placed_def get_book_def book_after_def)
  qed
  have i: "am_info (abs_matcher m3) = (\<lambda>i. if i \<in> set gone then None else am_info ?am1 i)"
    by (rule ext) (simp add: abs_matcher_def placed_by_order_id(2) [OF wf pl lv])
  have l: "am_live (abs_matcher m3) =
      (\<lambda>k. if k \<in> set (map (ow_key \<circ> own_at (am_info ?am1)) gone) then None else am_live ?am1 k)"
    unfolding keys by (rule ext) (simp add: abs_matcher_def placed_live [OF pl] lv)
  have c: "am_cash (abs_matcher m3) = am_cash ?am1" "am_next (abs_matcher m3) = am_next ?am1"
    using pl by (simp_all add: abs_matcher_def placed_def)
  have "am = \<lparr> am_cash = am_cash am, am_next = am_next am, am_queue = am_queue am,
      am_info = am_info am, am_live = am_live am \<rparr>" for am :: amatcher by simp
  from this [of "abs_matcher m3"] show ?thesis
    unfolding q i l c spec_forget_def by simp
qed

subsection \<open>Submitting refines the specification\<close>

lemma new_order_run:
  "0 < px \<Longrightarrow> 0 < q \<Longrightarrow> new_order oid uid sy s px q ts =
    Inr \<lparr> o_order_id = oid, o_user_id = uid, o_symbol = sy, o_side = s, o_price = px,
          o_quantity = q, o_created_at = ts, remaining_quantity = q \<rparr>"
  by (simp add: new_order_def)

lemma reject_reason_None:
  "reject_reason sd tf px q = None \<longleftrightarrow>
     sd \<in> {Side_BUY, Side_SELL} \<and> tf \<in> {Tif_GTC, Tif_IOC} \<and> 0 < px \<and> 0 < q"
  by (auto simp: reject_reason_def SIDE_TO_MODEL_def enum_defs)

lemma side_to_model: "sd \<in> {Side_BUY, Side_SELL} \<Longrightarrow> dget SIDE_TO_MODEL sd = Some (side_of sd)"
  by (auto simp: SIDE_TO_MODEL_def side_of_def enum_defs)

text \<open>The fills leave exactly the exhausted makers out of both indexes.\<close>

lemma submitted_ids:
  assumes sub: "submitted ord b b' mf fs q'" and wf: "wf_book b"
    and sp: "spec_fill (o_side ord) (o_price ord) (remaining_quantity ord) (abs_side (opp (o_side ord)) b)
      = (fs, q', os')"
  shows "distinct (map a_id fs)" "a_id ` set fs \<subseteq> live_refs b"
    "i \<in> a_id ` set fs \<Longrightarrow> remaining_quantity (obj b' i) = 0 \<longleftrightarrow> i \<notin> a_id ` set os'"
proof -
  let ?os = "abs_side (opp (o_side ord)) b"
  have "map a_id fs = take (length fs) (map a_id ?os)" by (rule spec_fill_ids(1) [OF sp])
  then show "distinct (map a_id fs)" by (simp only: distinct_take distinct_ids [OF wf])
  show "a_id ` set fs \<subseteq> live_refs b"
    using spec_fill_ids(2) [OF sp] unfolding ids_abs_side live_refs_side [of b "o_side ord"] by blast
  have os': "abs_side (opp (o_side ord)) b' = os'" "settled b'"
    and zero: "\<And>x. x \<in> a_id ` set ?os \<Longrightarrow> x \<notin> a_id ` set os' \<Longrightarrow> remaining_quantity (obj b' x) = 0"
    using sub sp by (auto simp: submitted_def Let_def)
  have pos: "0 < remaining_quantity (obj b' i)" if i: "i \<in> a_id ` set os'" for i
  proof -
    obtain x where x: "x \<in> set (abs_side (opp (o_side ord)) b')" "a_id x = i"
      using i os'(1) by blast
    then have "a_qty x = remaining_quantity (obj b' i)" by (auto simp: abs_side_def abs_ord_def)
    moreover have "0 < a_qty x"
      using os'(2) x(1) unfolding settled_side [of b' "o_side ord"] positive_def by blast
    ultimately show ?thesis by simp
  qed
  show "remaining_quantity (obj b' i) = 0 \<longleftrightarrow> i \<notin> a_id ` set os'" if "i \<in> a_id ` set fs"
  proof -
    have "i \<in> a_id ` set ?os" using spec_fill_ids(2) [OF sp] that by (rule subsetD)
    then show ?thesis using zero [of i] pos [of i] by linarith
  qed
qed


definition gone_ids :: "aord list \<Rightarrow> aord list \<Rightarrow> bool \<Rightarrow> int \<Rightarrow> int list" where
  "gone_ids fs os' rests oid = filter (\<lambda>i. i \<notin> a_id ` set os') (map a_id fs) @ (if rests then [] else [oid])"

lemma gone_own:
  assumes "F \<subseteq> A" "n \<notin> A" "n \<notin> B" "A \<inter> B = {}"
  shows "(if c then insert n B else B) = B \<union> {n} - ((F - O') \<union> (if c then {} else {n}))"
  using assms by (cases c) auto

lemma book_after_ids:
  assumes wf: "wf_book b" and sp: "spec_fill s p q (abs_side (opp s) b) = (fs, q', os')"
    and n: "n \<notin> live_refs b"
  shows "a_id ` set os' = a_id ` set (abs_side (opp s) b) - set (gone_ids fs os' rests n)"
    and "a_id ` set (if rests then enqueue s (n, p, q') (abs_side s b) else abs_side s b) =
      a_id ` set (abs_side s b) \<union> {n} - set (gone_ids fs os' rests n)"
    and "set (gone_ids fs os' rests n) \<subseteq> insert n (live_refs b)"
proof -
  let ?A = "a_id ` set (abs_side (opp s) b)" and ?B = "a_id ` set (abs_side s b)"
  let ?F = "a_id ` set fs" and ?O = "a_id ` set os'"
  have g: "set (gone_ids fs os' rests n) = (?F - ?O) \<union> (if rests then {} else {n})"
    by (auto simp: gone_ids_def)
  have ids: "?F \<subseteq> ?A" "?O \<subseteq> ?A" "?A \<subseteq> ?F \<union> ?O"
    by (rule spec_fill_ids(2) [OF sp] spec_fill_ids(3) [OF sp] spec_fill_partition [OF sp])+
  have nn: "n \<notin> ?A" "n \<notin> ?B" "?A \<inter> ?B = {}"
    using n sides_disjoint [OF wf, of s] unfolding ids_abs_side live_refs_side [of b s] by blast+
  show "?O = ?A - set (gone_ids fs os' rests n)" unfolding g using ids nn by auto
  have "a_id ` set (if rests then enqueue s (n, p, q') (abs_side s b) else abs_side s b) =
      (if rests then insert n ?B else ?B)" by simp
  also have "\<dots> = ?B \<union> {n} - set (gone_ids fs os' rests n)"
    unfolding g by (rule gone_own [OF ids(1) nn])
  finally show "a_id ` set (if rests then enqueue s (n, p, q') (abs_side s b) else abs_side s b) =
      ?B \<union> {n} - set (gone_ids fs os' rests n)" .
  have "?A \<subseteq> live_refs b" unfolding ids_abs_side live_refs_side [of b s] by blast
  with ids(1) show "set (gone_ids fs os' rests n) \<subseteq> insert n (live_refs b)" unfolding g by auto
qed

definition submit_order_of :: "live \<Rightarrow> int \<Rightarrow> order" where
  "submit_order_of lv ts =
     \<lparr> o_order_id = lv_order_id lv, o_user_id = lv_user_id lv, o_symbol = str_int (lv_symbol_id lv),
       o_side = side_of (lv_side lv), o_price = lv_price_ticks lv, o_quantity = lv_qty lv,
       o_created_at = ts, remaining_quantity = lv_qty lv \<rparr>"

lemma finish_submit_run:
  assumes wf: "wf_book b'" and st: "settled b'" and st0: "settled b"
    and own': "abs_side s b' = (if q' = 0 then abs_side s b else enqueue s (n, p, q') (abs_side s b))"
    and opp': "n \<notin> a_id ` set (abs_side (opp s) b')" and own: "n \<notin> a_id ` set (abs_side s b)"
    and q': "0 \<le> q'"
    and d: "deref b' n = Some (ord\<lparr>remaining_quantity := q'\<rparr>)" "lv_order_id lv = n" "lv_model_order lv = n"
    and m2: "get_book (lv_symbol_id lv) m2 = b'"
    and rests: "rests \<longleftrightarrow> 0 < q' \<and> tf \<noteq> Tif_IOC"
  shows "\<exists>m3 b3. finish_submit ts tf lv m2 = Inr (m3,
        if 0 < q' \<and> tf = Tif_IOC
        then [OrderCancelled_new ts n (lv_client_order_id lv) (lv_user_id lv) q' (lv_symbol_id lv)
                CancelReason_IOC_EXPIRED] else []) \<and>
    m_live m3 = (if rests then m_live m2 else dpop (live_key lv) (m_live m2)) \<and>
    m_by_order_id m3 = (if rests then m_by_order_id m2 else dpop n (m_by_order_id m2)) \<and>
    m_initial_cash_ticks m3 = m_initial_cash_ticks m2 \<and> m_next_order_id m3 = m_next_order_id m2 \<and>
    (wf_dict (m_books m2) \<longrightarrow> wf_dict (m_books m3)) \<and>
    (dget (m_books m2) (lv_symbol_id lv) = Some b' \<longrightarrow>
       dget (m_books m3) = (dget (m_books m2))(lv_symbol_id lv \<mapsto> b3)) \<and>
    wf_book b3 \<and> settled b3 \<and> deref b3 = deref b' \<and> abs_side (opp s) b3 = abs_side (opp s) b' \<and>
    abs_side s b3 = (if rests then enqueue s (n, p, q') (abs_side s b) else abs_side s b)"
proof -
  have rem: "remaining_qty_of m2 lv = Inr q'" by (simp add: remaining_qty_of_def m2 d)
  show ?thesis
  proof (cases "0 < q' \<and> tf = Tif_IOC")
    case True
    have "n \<in> a_id ` set (abs_side s b')" using True by (auto simp: own')
    then have live: "n \<in> live_refs b'" unfolding ids_abs_side live_refs_side [of b' s] by blast
    obtain b3 where b3: "remove_order n b' = Inr (b3, Some n)" "wf_book b3"
      "\<And>t. abs_side t b3 = filter (\<lambda>x. a_id x \<noteq> n) (abs_side t b')" "deref b3 = deref b'"
      using remove_order_abs [OF wf live] by blast
    have "settled b3" by (rule settled_filter [OF st]) (simp add: b3(3))
    moreover have "abs_side s b3 = abs_side s b"
      using True by (simp add: b3(3) own' filter_enqueue filter_abs_other [OF own])
    moreover have "abs_side (opp s) b3 = abs_side (opp s) b'" by (simp add: b3(3) filter_abs_other [OF opp'])
    moreover have "finish_submit ts tf lv m2 = Inr (forget lv (put_book (lv_symbol_id lv) b3 m2),
        [OrderCancelled_new ts n (lv_client_order_id lv) (lv_user_id lv) q' (lv_symbol_id lv)
           CancelReason_IOC_EXPIRED])"
      using True b3(1) by (simp add: finish_submit_def rem d(2) m2)
    ultimately show ?thesis
      using b3(2,4) True d(2)
      by (intro exI [of _ "forget lv (put_book (lv_symbol_id lv) b3 m2)"] exI [of _ b3])
         (auto simp: rests)
  next
    case False
    let ?m3 = "if q' = 0 then forget lv m2 else m2"
    have "finish_submit ts tf lv m2 = Inr (?m3, [])"
      using False q' by (auto simp: finish_submit_def rem)
    with False q' wf st own' d(2) show ?thesis
      by (intro exI [of _ ?m3] exI [of _ b']) (auto simp: rests fun_upd_idem)
  qed
qed


lemma submit_run:
  fixes m :: matcher and ts coid uid px q sy sd tf :: int
  assumes wf: "wf_matcher m" and ok: "reject_reason sd tf px q = None"
  defines "n \<equiv> m_next_order_id m" and "s \<equiv> side_of sd" and "b \<equiv> get_book sy m"
  defines "lv \<equiv> new_live n coid uid px q sy sd"
  assumes sp: "spec_fill s px q (abs_side (opp s) b) = (fs, q', os')"
    and rests: "rests \<longleftrightarrow> 0 < q' \<and> tf \<noteq> Tif_IOC"
  shows "\<exists>m3 b3. submit ts coid uid px q sy sd tf m = Inr (m3,
        OrderAccepted_new ts n coid uid px q sy sd tf
          # map (fill_wire ts sy sd n uid (opened lv m)) fs
          @ (if 0 < q' \<and> tf = Tif_IOC
             then [OrderCancelled_new ts n coid uid q' sy CancelReason_IOC_EXPIRED] else [])) \<and>
    placed lv (gone_ids fs os' rests n) b3 m m3 \<and>
    book_after lv s (gone_ids fs os' rests n)
      (if rests then enqueue s (n, px, q') (abs_side s b) else abs_side s b) os' b b3"
proof -
  let ?ord = "submit_order_of lv ts" and ?m1 = "opened lv m"
  have v: "sd \<in> {Side_BUY, Side_SELL}" "0 < px" "0 < q" using ok by (simp_all add: reject_reason_None)
  have lv: "lv_order_id lv = n" "lv_model_order lv = n" "lv_client_order_id lv = coid"
    "lv_user_id lv = uid" "lv_symbol_id lv = sy" "lv_side lv = sd" "lv_price_ticks lv = px" "lv_qty lv = q"
    by (simp_all add: lv_def new_live_def)
  have ord: "o_side ?ord = s" "o_order_id ?ord = n" "o_price ?ord = px" "remaining_quantity ?ord = q"
    by (simp_all add: submit_order_of_def lv s_def)
  have wfb: "wf_book b" "settled b" using wf by (simp_all add: b_def get_book_wf get_book_settled)
  have fresh: "n \<notin> live_refs b" using new_id_fresh(2) [OF wf] by (simp add: n_def b_def)
  obtain b' mf fs0 q0 where mo: "match_order ?ord b = Inr (b', mf)" and sub0: "submitted ?ord b b' mf fs0 q0"
    using match_order_submits [OF wfb, of ?ord] fresh v by (auto simp: ord)
  then have eq: "fs0 = fs" "q0 = q'" using sp by (auto simp: submitted_def ord)
  have sub: "submitted ?ord b b' mf fs q'" using sub0 by (simp only: eq)
  have b': "wf_book b'" "settled b'" "list_all2 (is_fill s n) fs mf"
    "abs_side s b' = (if q' = 0 then abs_side s b else enqueue s (n, px, q') (abs_side s b))"
    "abs_side (opp s) b' = os'" "deref b' n = Some (?ord\<lparr>remaining_quantity := q'\<rparr>)"
    and keep: "\<And>x ord'. x \<noteq> n \<Longrightarrow> deref b x = Some ord' \<Longrightarrow>
      \<exists>v. deref b' x = Some (ord'\<lparr>remaining_quantity := v\<rparr>)"
    using sub sp unfolding submitted_def Let_def ord by auto
  have sp': "0 \<le> q'"
    using spec_fill_positive [OF sp] wfb(2) v(3) unfolding settled_side [of b s] by simp
  note fsx = submitted_ids [OF sub wfb(1), unfolded ord, OF sp]
  have makers: "\<exists>l v. dget (m_by_order_id m) i = Some l \<and> lv_order_id l = i \<and> lv_symbol_id l = sy \<and> i \<noteq> n \<and>
      deref b' (lv_model_order l) = Some v \<and> v = obj b' i \<and> o_price v = o_price (obj b i)"
    if i: "i \<in> live_refs b" for i
  proof -
    obtain l where l: "dget (m_by_order_id m) i = Some l" "lv_symbol_id l = sy"
      using live_in_by_order_id [OF wf, of i sy] i by (auto simp: b_def)
    have "i \<noteq> n" using i fresh by blast
    moreover obtain v where "deref b' i = Some ((obj b i)\<lparr>remaining_quantity := v\<rparr>)"
      using keep [OF calculation live_deref [OF wfb(1) i]] by blast
    ultimately show ?thesis using l by_order_id_ok [OF wf l(1)] by (simp add: live_ok_def obj_def)
  qed
  let ?m1' = "put_book sy b' ?m1"
  have rem1: "remaining_qty_of ?m1' l = Inr (remaining_quantity (obj b' i))"
    if "i \<in> live_refs b" "dget (m_by_order_id m) i = Some l" for i l
    using makers [OF that(1)] that(2) by (auto simp: remaining_qty_of_def)
  have id1: "dget (m_by_order_id ?m1') i = dget (m_by_order_id m) i" if "i \<in> live_refs b" for i
    using that fresh by (auto simp: lv)
  have fills: "to_contract_fills ts sd n mf ?m1' =
    Inr (forget_ids (filter (exhausted ?m1') (map a_id fs)) ?m1', map (fill_wire ts sy sd n uid ?m1') fs)"
  proof (rule fills_run [OF b'(3) fsx(1)])
    show "n \<notin> a_id ` set fs" using fsx(2) fresh by blast
    show "dget (m_by_order_id ?m1') n = Some lv" "lv_user_id lv = uid" by (simp_all add: lv)
    show "\<exists>l v. dget (m_by_order_id ?m1') i = Some l \<and> lv_order_id l = i \<and> lv_symbol_id l = sy \<and>
        remaining_qty_of ?m1' l = Inr v" if "i \<in> a_id ` set fs" for i
    proof -
      have i: "i \<in> live_refs b" using that fsx(2) by blast
      obtain l where "dget (m_by_order_id m) i = Some l" "lv_order_id l = i" "lv_symbol_id l = sy"
        using makers [OF i] by blast
      with rem1 [OF i] id1 [OF i] show ?thesis by auto
    qed
  qed
  let ?g = "filter (\<lambda>i. i \<notin> a_id ` set os') (map a_id fs)"
  have g: "filter (exhausted ?m1') (map a_id fs) = ?g"
  proof (rule filter_cong)
    fix i assume "i \<in> set (map a_id fs)"
    then have i: "i \<in> a_id ` set fs" "i \<in> live_refs b" using fsx(2) by (simp, auto simp: subset_iff)
    obtain l where l: "dget (m_by_order_id m) i = Some l" using makers [OF i(2)] by blast
    show "exhausted ?m1' i \<longleftrightarrow> i \<notin> a_id ` set os'"
      unfolding exhausted_def id1 [OF i(2)] l option.case rem1 [OF i(2) l] using fsx(3) [OF i(1)] by simp
  qed simp
  have wires: "fill_wire ts sy sd n uid ?m1' = fill_wire ts sy sd n uid ?m1"
    by (simp add: fill_wire_def fun_eq_iff)
  let ?m2 = "forget_ids ?g ?m1'"
  have n': "n \<notin> a_id ` set (abs_side (opp s) b')" "n \<notin> a_id ` set (abs_side s b)"
  proof -
    have "n \<notin> a_id ` set (abs_side t b)" for t
      using fresh unfolding ids_abs_side live_refs_side [of b t] by blast
    then show "n \<notin> a_id ` set (abs_side (opp s) b')" "n \<notin> a_id ` set (abs_side s b)"
      unfolding b'(5) using spec_fill_ids(3) [OF sp] by blast+
  qed
  have b2: "get_book (lv_symbol_id lv) ?m2 = b'" by (simp add: lv)
  obtain m3 b3 where fin: "finish_submit ts tf lv ?m2 = Inr (m3,
        if 0 < q' \<and> tf = Tif_IOC
        then [OrderCancelled_new ts n (lv_client_order_id lv) (lv_user_id lv) q' (lv_symbol_id lv)
                CancelReason_IOC_EXPIRED] else [])"
    "m_live m3 = (if rests then m_live ?m2 else dpop (live_key lv) (m_live ?m2))"
    "m_by_order_id m3 = (if rests then m_by_order_id ?m2 else dpop n (m_by_order_id ?m2))"
    "m_initial_cash_ticks m3 = m_initial_cash_ticks ?m2" "m_next_order_id m3 = m_next_order_id ?m2"
    "wf_dict (m_books ?m2) \<longrightarrow> wf_dict (m_books m3)"
    "dget (m_books ?m2) (lv_symbol_id lv) = Some b' \<longrightarrow>
       dget (m_books m3) = (dget (m_books ?m2))(lv_symbol_id lv \<mapsto> b3)"
    "wf_book b3" "settled b3" "deref b3 = deref b'" "abs_side (opp s) b3 = abs_side (opp s) b'"
    "abs_side s b3 = (if rests then enqueue s (n, px, q') (abs_side s b) else abs_side s b)"
    using finish_submit_run [OF b'(1,2) wfb(2) b'(4) n' sp' b'(6) lv(1,2) b2 rests] by blast
  have run: "submit ts coid uid px q sy sd tf m = Inr (m3,
        OrderAccepted_new ts n coid uid px q sy sd tf # map (fill_wire ts sy sd n uid ?m1) fs
          @ (if 0 < q' \<and> tf = Tif_IOC
             then [OrderCancelled_new ts n coid uid q' sy CancelReason_IOC_EXPIRED] else []))"
  proof -
    have m1: "m\<lparr>m_next_order_id := n + 1, m_live := dset (live_key lv) lv (m_live m),
        m_by_order_id := dset n lv (m_by_order_id m)\<rparr> = ?m1" by (simp add: opened_def lv(1))
    have l0: "\<lparr> lv_order_id = n, lv_client_order_id = coid, lv_user_id = uid, lv_symbol_id = sy,
        lv_side = sd, lv_price_ticks = px, lv_qty = q, lv_model_order = n \<rparr> = lv"
      by (simp add: lv_def new_live_def)
    have o0: "new_order n uid (str_int sy) s px q ts = Inr ?ord"
      using v by (simp add: new_order_run submit_order_of_def lv s_def)
    have gb: "get_book sy ?m1 = b" by (simp add: b_def)
    show ?thesis
      unfolding submit_def ok side_to_model [OF v(1)] option.case Let_def n_def [symmetric]
        s_def [symmetric] o0 sum.case l0 m1 gb mo prod.case fills g wires fin(1)
      by (simp add: lv)
  qed
  have keys: "key_at ?m1' = key_at ?m1" by (simp add: key_at_def fun_eq_iff)
  have keyn: "key_at ?m1 n = live_key lv" by (simp add: key_at_def lv(1))
  have pl: "placed lv (gone_ids fs os' rests n) b3 m m3"
    unfolding placed_def
  proof (intro conjI)
    show "wf_dict (m_books m3)" using fin(6) wf by (simp add: wf_matcher_def)
    show "dget (m_books m3) = (dget (m_books m))(lv_symbol_id lv \<mapsto> b3)"
      using fin(7) by (simp add: lv(5) fun_eq_iff)
    show "m_live m3 = m_live (forget_ids (gone_ids fs os' rests n) ?m1)"
      using fin(2) keyn by (simp add: gone_ids_def keys)
    show "m_by_order_id m3 = m_by_order_id (forget_ids (gone_ids fs os' rests n) ?m1)"
      using fin(3) by (simp add: gone_ids_def)
  qed (use fin(4,5) in \<open>simp_all add: lv(1) n_def\<close>)
  note bai = book_after_ids [OF wfb(1) sp fresh, of rests]
  have ba: "book_after lv s (gone_ids fs os' rests n)
      (if rests then enqueue s (n, px, q') (abs_side s b) else abs_side s b) os' b b3"
    unfolding book_after_def
  proof (intro conjI allI ballI)
    show "wf_book b3" "settled b3" "abs_side (opp s) b3 = os'"
      "abs_side s b3 = (if rests then enqueue s (n, px, q') (abs_side s b) else abs_side s b)"
      using fin(8,9,11,12) b'(5) by simp_all
    show "a_id ` set (abs_side t b3) =
        a_id ` set (abs_side t b) \<union> (if t = s then {lv_order_id lv} else {}) -
        set (gone_ids fs os' rests n)" for t
    proof (cases "t = s")
      case True
      then show ?thesis unfolding True fin(12) bai(2) by (simp add: lv(1))
    next
      case False
      then have t: "t = opp s" by (cases t; cases s) simp_all
      show ?thesis unfolding t fin(11) b'(5) bai(1) by simp
    qed
    show "set (gone_ids fs os' rests n) \<subseteq> insert (lv_order_id lv) (live_refs b)"
      using bai(3) by (simp add: lv(1))
    show "o_price (obj b3 (lv_order_id lv)) = lv_price_ticks lv"
      by (simp add: obj_def fin(10) lv b'(6)) (simp add: submit_order_of_def lv)
    show "o_price (obj b3 i) = o_price (obj b i)" if "i \<in> live_refs b" for i
    proof -
      have "obj b3 i = obj b' i" by (simp add: obj_def fin(10))
      then show ?thesis using makers [OF that] by auto
    qed
  qed
  show ?thesis using run pl ba by blast
qed


lemma submit_refines:
  assumes wf: "wf_matcher m"
  shows "\<exists>m3. submit ts coid uid px q sy sd tf m =
      Inr (m3, snd (spec_submit ts coid uid px q sy sd tf (abs_matcher m))) \<and>
    wf_matcher m3 \<and> abs_matcher m3 = fst (spec_submit ts coid uid px q sy sd tf (abs_matcher m))"
proof (cases "reject_reason sd tf px q")
  case (Some why)
  with wf show ?thesis by (simp add: submit_def spec_submit_def)
next
  case None
  let ?n = "m_next_order_id m" and ?s = "side_of sd" and ?b = "get_book sy m"
  let ?lv = "new_live ?n coid uid px q sy sd"
  obtain fs q' os' where sp: "spec_fill ?s px q (abs_side (opp ?s) ?b) = (fs, q', os')" by (metis prod_cases3)
  let ?rests = "0 < q' \<and> tf \<noteq> Tif_IOC"
  let ?own' = "if ?rests then enqueue ?s (?n, px, q') (abs_side ?s ?b) else abs_side ?s ?b"
  obtain m3 b3 where r: "submit ts coid uid px q sy sd tf m = Inr (m3,
        OrderAccepted_new ts ?n coid uid px q sy sd tf
          # map (fill_wire ts sy sd ?n uid (opened ?lv m)) fs
          @ (if 0 < q' \<and> tf = Tif_IOC
             then [OrderCancelled_new ts ?n coid uid q' sy CancelReason_IOC_EXPIRED] else []))"
    and pl: "placed ?lv (gone_ids fs os' ?rests ?n) b3 m m3"
    and ba: "book_after ?lv ?s (gone_ids fs os' ?rests ?n) ?own' os' ?b b3"
    using submit_run [OF wf None sp, of "?rests"] by blast
  have lv: "lv_order_id ?lv = ?n" "lv_model_order ?lv = ?n" "lv_symbol_id ?lv = sy" "lv_side ?lv = sd"
    "live_key ?lv = (uid, coid)"
    "owner_of ?lv = \<lparr> ow_user = uid, ow_client_order_id = coid, ow_symbol = sy, ow_side = sd \<rparr>"
    by (simp_all add: new_live_def live_key_def owner_of_def)
  have sd: "sd \<in> {Side_BUY, Side_SELL}" using None by (simp add: reject_reason_None)
  have wf3: "wf_matcher m3" by (rule placed_wf [OF wf pl]) (use ba lv sd in simp_all)
  note ab = placed_abs [OF wf pl, unfolded lv, OF ba refl]
  have live: "a_id ` set fs \<subseteq> live_refs ?b"
    using spec_fill_ids(2) [OF sp] unfolding ids_abs_side live_refs_side [of ?b ?s] by blast
  have wires: "map (fill_wire ts sy sd ?n uid (opened ?lv m)) fs =
    map (\<lambda>x. Fill_new ts (a_id x) ?n
      (ow_user (own_at ((am_info (abs_matcher m))(?n \<mapsto> owner_of ?lv)) (a_id x))) uid (a_price x) (a_qty x) sy sd) fs"
  proof (rule map_cong)
    fix x assume "x \<in> set fs"
    then have x: "a_id x \<in> live_refs ?b" using live by blast
    then obtain l where "dget (m_by_order_id m) (a_id x) = Some l" using live_in_by_order_id [OF wf] by blast
    moreover have "a_id x \<noteq> ?n" using x new_id_fresh(2) [OF wf] by auto
    ultimately show "fill_wire ts sy sd ?n uid (opened ?lv m) x =
      Fill_new ts (a_id x) ?n (ow_user (own_at ((am_info (abs_matcher m))(?n \<mapsto> owner_of ?lv)) (a_id x)))
        uid (a_price x) (a_qty x) sy sd"
      by (simp add: fill_wire_def lv(1) own_at_def abs_matcher_def owner_of_def)
  qed simp
  have sel: "am_next (abs_matcher m) = ?n" "am_queue (abs_matcher m) sy t = abs_side t ?b" for t
    by (simp_all add: abs_matcher_def)
  show ?thesis
    unfolding r using wf3 sp
    by (simp add: spec_submit_def None side_of_def [symmetric] sel Let_def ab wires lv gone_ids_def cong: if_cong)
qed

subsection \<open>Cancelling refines the specification\<close>

lemma forget_ids_single: "dget (m_by_order_id m) (lv_order_id lv) = Some lv \<Longrightarrow> forget_ids [lv_order_id lv] m = forget lv m"
  by (simp add: forget_ids_def forget_def key_at_def)

lemma removed_wf:
  assumes wf: "wf_matcher m" and lv: "dget (m_by_order_id m) n = Some lv"
    and b3: "wf_book b3" "settled b3" "deref b3 = deref (get_book (lv_symbol_id lv) m)"
    and f: "\<And>t. abs_side t b3 = filter (\<lambda>x. a_id x \<noteq> n) (abs_side t (get_book (lv_symbol_id lv) m))"
  shows "wf_matcher (forget lv (put_book (lv_symbol_id lv) b3 m))" (is "wf_matcher ?m3")
proof -
  let ?sy = "lv_symbol_id lv" and ?b = "get_book (lv_symbol_id lv) m"
  have n: "lv_order_id lv = n" using by_order_id_ok [OF wf lv] by (simp add: live_ok_def)
  have iter: "set (iter_orders t b3) = set (iter_orders t ?b) - {n}" for t
  proof -
    have "set (map a_id (abs_side t b3)) = set (filter (\<lambda>i. i \<noteq> n) (map a_id (abs_side t ?b)))"
      unfolding f by (simp add: filter_map comp_def)
    then show ?thesis by (simp add: ids_abs_side) auto
  qed
  then have live: "live_refs b3 = live_refs ?b - {n}" by (auto simp: live_refs_def)
  have id3: "dget (m_by_order_id ?m3) i = (if i = n then None else dget (m_by_order_id m) i)" for i
    by (simp add: n)
  have wfid: "wf_dict (m_by_order_id ?m3)" using wf_by_order_id [OF wf] by simp
  have wfd: "wf_dict (m_books ?m3)" "wf_dict (m_live ?m3)" using wf by (simp_all add: wf_matcher_def)
  have sorted: "sorted_wrt (<) (dkeys (m_by_order_id ?m3))"
    using wf by (simp add: wf_matcher_def delete_keys removeAll_filter_not_eq sorted_wrt_filter)
  have books: "wf_book b \<and> settled b \<and> (\<forall>i \<in> live_refs b. \<exists>l \<in> set (dvalues (m_by_order_id ?m3)).
      lv_order_id l = i \<and> lv_symbol_id l = sy)" if d: "dget (m_books ?m3) sy = Some b" for sy b
  proof -
    have b: "b = get_book sy ?m3" using d by (simp add: get_book_def)
    have "\<exists>l. dget (m_by_order_id ?m3) i = Some l \<and> lv_order_id l = i \<and> lv_symbol_id l = sy"
      if i: "i \<in> live_refs b" for i
    proof -
      have i': "i \<in> live_refs (get_book sy m)" using i live by (auto simp: b split: if_splits)
      obtain l where l: "dget (m_by_order_id m) i = Some l" "lv_symbol_id l = sy"
        using live_in_by_order_id [OF wf i'] by blast
      have "i \<noteq> n"
      proof
        assume "i = n"
        then have "lv = l" using l(1) lv by simp
        then show False using i live \<open>i = n\<close> l(2) by (simp add: b)
      qed
      with l by_order_id_ok [OF wf l(1)] show ?thesis by (simp add: id3 live_ok_def del: forget_sel)
    qed
    then have "\<forall>i \<in> live_refs b. \<exists>l \<in> set (dvalues (m_by_order_id ?m3)). lv_order_id l = i \<and> lv_symbol_id l = sy"
      by (force dest!: map_of_SomeD simp del: forget_sel)
    then show ?thesis using b3 get_book_wf [OF wf] get_book_settled [OF wf] by (simp add: b)
  qed
  have lives: "live_ok ?m3 i l" if "dget (m_by_order_id ?m3) i = Some l" for i l
  proof -
    have l: "dget (m_by_order_id m) i = Some l" "i \<noteq> n" using that by (auto simp: id3 simp del: forget_sel split: if_splits)
    have "obj b3 = obj ?b" by (simp add: obj_def b3(3) fun_eq_iff)
    with by_order_id_ok [OF wf l(1)] l(2) iter show ?thesis
      by (cases "lv_symbol_id l = ?sy") (auto simp: live_ok_def)
  qed
  have keys: "k = live_key l \<and> dget (m_by_order_id ?m3) (lv_order_id l) = Some l"
    if d: "dget (m_live ?m3) k = Some l" for k l
  proof -
    have k: "k \<noteq> live_key lv" "dget (m_live m) k = Some l" using d by (simp_all split: if_splits)
    note o = live_key_ok [OF wf k(2)]
    have "lv_order_id l \<noteq> n"
    proof
      assume "lv_order_id l = n"
      then have "l = lv" using o(2) lv by simp
      with o(1) k(1) show False by simp
    qed
    with o show ?thesis by (simp add: id3 del: forget_sel)
  qed
  show ?thesis
    unfolding wf_matcher_def using wfd sorted books lives keys
    by (auto simp: dget_in_set [OF wfd(1), symmetric] dget_in_set [OF wfd(2), symmetric]
        dget_in_set [OF wfid, symmetric] simp del: forget_sel put_book_sel)
qed


lemma spec_remaining_abs:
  assumes "i \<in> set (iter_orders s b)"
  shows "spec_remaining i (abs_side s b) = remaining_quantity (obj b i)"
proof -
  have "i \<in> a_id ` set (abs_side s b)" using assms unfolding ids_abs_side .
  then obtain x xs where x: "filter (\<lambda>x. a_id x = i) (abs_side s b) = x # xs"
    by (cases "filter (\<lambda>x. a_id x = i) (abs_side s b)") (auto simp: filter_empty_conv)
  then have "x \<in> set (filter (\<lambda>x. a_id x = i) (abs_side s b))" by simp
  then have "x = abs_ord b i" by (auto simp: abs_side_def abs_ord_def)
  with x show ?thesis by (simp add: spec_remaining_def abs_ord_def)
qed

lemma cancel_refines:
  assumes wf: "wf_matcher m"
  shows "\<exists>m3. cancel ts coid uid target m =
      Inr (m3, snd (spec_cancel ts coid uid target (abs_matcher m))) \<and>
    wf_matcher m3 \<and> abs_matcher m3 = fst (spec_cancel ts coid uid target (abs_matcher m))"
proof (cases "dget (m_live m) (uid, target)")
  case None
  with wf show ?thesis by (simp add: cancel_def spec_cancel_def abs_matcher_def)
next
  case (Some lv)
  let ?n = "lv_order_id lv" and ?sy = "lv_symbol_id lv"
  let ?b = "get_book ?sy m"
  have key: "live_key lv = (uid, target)" and id: "dget (m_by_order_id m) ?n = Some lv"
    using live_key_ok [OF wf Some] by simp_all
  have co: "lv_user_id lv = uid" "lv_client_order_id lv = target" using key by (simp_all add: live_key_def)
  note ok = by_order_id_ok [OF wf id]
  note wfb = get_book_wf [OF wf, of ?sy] and stb = get_book_settled [OF wf, of ?sy]
  obtain b3 where b3: "remove_order ?n ?b = Inr (b3, Some ?n)" "wf_book b3"
    "\<And>t. abs_side t b3 = filter (\<lambda>x. a_id x \<noteq> ?n) (abs_side t ?b)" "deref b3 = deref ?b"
    using remove_order_abs [OF wfb live_ok_live [OF ok]] by blast
  have st3: "settled b3" by (rule settled_filter [OF stb]) (simp add: b3(3))
  let ?m3 = "forget lv (put_book ?sy b3 m)"
  let ?rem = "remaining_quantity (obj ?b ?n)"
  have run: "cancel ts coid uid target m = Inr (?m3,
      [OrderCancelled_new ts ?n target uid ?rem ?sy CancelReason_USER_REQUESTED])"
    using Some b3(1) live_ok_remaining [OF wf ok] by (simp add: cancel_def co)
  have wf3: "wf_matcher ?m3" by (rule removed_wf [OF wf id b3(2) st3 b3(4,3)])
  let ?w = "owner_of lv"
  have w: "ow_symbol ?w = ?sy" "ow_side ?w = lv_side lv" "ow_key ?w = (uid, target)"
    by (simp_all add: owner_of_def ow_key_def co)
  have am: "am_live (abs_matcher m) (uid, target) = Some ?n" "own_at (am_info (abs_matcher m)) ?n = ?w"
    "am_queue (abs_matcher m) sy t = abs_side t (get_book sy m)" for sy t
    using Some id by (simp_all add: abs_matcher_def own_at_def)
  have rem: "spec_remaining ?n (abs_side (if lv_side lv = Side_BUY then BUY else SELL) ?b) = ?rem"
    by (rule spec_remaining_abs) (use ok in \<open>simp add: live_ok_def\<close>)
  have "snd (spec_cancel ts coid uid target (abs_matcher m)) =
      [OrderCancelled_new ts ?n target uid ?rem ?sy CancelReason_USER_REQUESTED]"
    using rem by (simp add: spec_cancel_def am w Let_def)
  moreover have "fst (spec_cancel ts coid uid target (abs_matcher m)) = abs_matcher ?m3"
  proof -
    have sel: "am_cash (abs_matcher m) = m_initial_cash_ticks m" "am_next (abs_matcher m) = m_next_order_id m"
      "am_info (abs_matcher m) = (\<lambda>i. map_option owner_of (dget (m_by_order_id m) i))"
      "am_live (abs_matcher m) = (\<lambda>k. map_option lv_order_id (dget (m_live m) k))"
      "am_queue (abs_matcher m) = (\<lambda>sy s. abs_side s (get_book sy m))"
      by (simp_all add: abs_matcher_def)
    have q: "(am_queue (abs_matcher m))(?sy := \<lambda>t. filter (\<lambda>x. a_id x \<noteq> ?n) (am_queue (abs_matcher m) ?sy t)) =
      am_queue (abs_matcher ?m3)"
      by (intro ext) (simp add: abs_matcher_def b3(3))
    have i: "(\<lambda>i. if i \<in> set [?n] then None else am_info (abs_matcher m) i) = am_info (abs_matcher ?m3)"
      by (rule ext) (simp add: abs_matcher_def)
    have l: "(\<lambda>k. if k \<in> set (map (ow_key \<circ> own_at (am_info (abs_matcher m))) [?n]) then None
        else am_live (abs_matcher m) k) = am_live (abs_matcher ?m3)"
      by (rule ext) (simp add: am(2) w(3), simp add: abs_matcher_def key)
    have "am_cash (abs_matcher m) = am_cash (abs_matcher ?m3)" "am_next (abs_matcher m) = am_next (abs_matcher ?m3)"
      by (simp_all add: abs_matcher_def)
    with q i l show ?thesis
      by (intro amatcher.equality)
         (simp_all add: spec_cancel_def am(1,2) w(1,2) Let_def spec_forget_def cong: if_cong)
  qed
  ultimately show ?thesis using run wf3 by simp
qed

subsection \<open>Every inbound record\<close>

lemma apply_refines:
  assumes "wf_matcher m"
  shows "\<exists>m3. apply_record r m = Inr (m3, snd (spec_apply r (abs_matcher m))) \<and>
    wf_matcher m3 \<and> abs_matcher m3 = fst (spec_apply r (abs_matcher m))"
  using assms submit_refines cancel_refines
  by (cases r) (simp_all add: apply_record_def spec_apply_def forward_def spec_forward_def abs_matcher_def)

fun spec_apply_all :: "wire list \<Rightarrow> amatcher \<Rightarrow> amatcher \<times> wire list" where
  "spec_apply_all [] am = (am, [])"
| "spec_apply_all (r # rs) am =
     (let (am1, out) = spec_apply r am; (am2, out') = spec_apply_all rs am1 in (am2, out @ out'))"

lemma apply_all_refines:
  "wf_matcher m \<Longrightarrow> \<exists>m3. apply_all rs m = Inr (m3, snd (spec_apply_all rs (abs_matcher m))) \<and>
    wf_matcher m3 \<and> abs_matcher m3 = fst (spec_apply_all rs (abs_matcher m))"
proof (induction rs arbitrary: m)
  case Nil
  then show ?case by simp
next
  case (Cons r rs)
  obtain m1 where m1: "apply_record r m = Inr (m1, snd (spec_apply r (abs_matcher m)))" "wf_matcher m1"
    "abs_matcher m1 = fst (spec_apply r (abs_matcher m))" using apply_refines [OF Cons.prems] by blast
  obtain m3 where m3: "apply_all rs m1 = Inr (m3, snd (spec_apply_all rs (abs_matcher m1)))" "wf_matcher m3"
    "abs_matcher m3 = fst (spec_apply_all rs (abs_matcher m1))" using Cons.IH [OF m1(2)] by blast
  then show ?case using m1 by (simp add: Let_def split_beta)
qed

text \<open>Two matchers that look the same from outside answer every log the same way.\<close>

lemma same_abs_same_outputs:
  assumes "wf_matcher m" "wf_matcher m'" "abs_matcher m = abs_matcher m'"
  shows "map_sum id snd (apply_all rs m) = map_sum id snd (apply_all rs m')"
  using apply_all_refines [OF assms(1), of rs] apply_all_refines [OF assms(2), of rs] assms(3) by auto


subsection \<open>What resting shows\<close>

lemma resting_rows_run:
  assumes "\<And>lv. lv \<in> set lvs \<Longrightarrow> \<exists>q. remaining_qty_of m lv = Inr q"
  shows "resting_rows m lvs = Inr (map (\<lambda>lv. (lv_order_id lv, lv_symbol_id lv, lv_side lv,
    lv_price_ticks lv, projr (remaining_qty_of m lv))) lvs)"
  using assms by (induction lvs) fastforce+

lemma by_order_id_row:
  assumes "wf_matcher m" "dget (m_by_order_id m) i = Some lv"
  shows "(lv_order_id lv, lv_price_ticks lv, projr (remaining_qty_of m lv)) =
    abs_ord (get_book (lv_symbol_id lv) m) i"
  using live_ok_remaining [OF assms(1) by_order_id_ok [OF assms]] by_order_id_ok [OF assms]
  by (simp add: abs_ord_def live_ok_def)

lemma abs_side_iff:
  assumes wf: "wf_matcher m"
  shows "(i, px, q) \<in> set (abs_side s (get_book sy m)) \<longleftrightarrow>
    (\<exists>lv. dget (m_by_order_id m) i = Some lv \<and> lv_symbol_id lv = sy \<and> side_of (lv_side lv) = s \<and>
      lv_price_ticks lv = px \<and> projr (remaining_qty_of m lv) = q)"
proof
  assume x: "(i, px, q) \<in> set (abs_side s (get_book sy m))"
  then have e: "abs_ord (get_book sy m) i = (i, px, q)" and "i \<in> set (iter_orders s (get_book sy m))"
    by (auto simp: abs_side_def abs_ord_def)
  then have i: "i \<in> live_refs (get_book sy m)" "i \<in> set (iter_orders s (get_book sy m))"
    by (simp_all add: live_refs_side [of _ s])
  obtain lv where lv: "dget (m_by_order_id m) i = Some lv" "lv_symbol_id lv = sy"
    using live_in_by_order_id [OF wf i(1)] by blast
  have "i \<in> set (iter_orders (side_of (lv_side lv)) (get_book sy m))"
    using by_order_id_ok [OF wf lv(1)] lv(2) by (simp add: live_ok_def side_of_def)
  with i(2) sides_disjoint [OF get_book_wf [OF wf, of sy], of s] have "side_of (lv_side lv) = s"
    by (cases "side_of (lv_side lv)"; cases s) auto
  with by_order_id_row [OF wf lv(1)] lv e show "\<exists>lv. dget (m_by_order_id m) i = Some lv \<and> lv_symbol_id lv = sy \<and>
      side_of (lv_side lv) = s \<and> lv_price_ticks lv = px \<and> projr (remaining_qty_of m lv) = q"
    by auto
next
  assume "\<exists>lv. dget (m_by_order_id m) i = Some lv \<and> lv_symbol_id lv = sy \<and> side_of (lv_side lv) = s \<and>
      lv_price_ticks lv = px \<and> projr (remaining_qty_of m lv) = q"
  then obtain lv where lv: "dget (m_by_order_id m) i = Some lv" "lv_symbol_id lv = sy"
    "side_of (lv_side lv) = s" "lv_price_ticks lv = px" "projr (remaining_qty_of m lv) = q" by blast
  have ok: "live_ok m i lv" by (rule by_order_id_ok [OF wf lv(1)])
  have "i \<in> set (iter_orders s (get_book sy m))" using ok lv by (auto simp: live_ok_def side_of_def)
  moreover have "abs_ord (get_book sy m) i = (i, px, q)"
    using by_order_id_row [OF wf lv(1)] lv ok by (simp add: live_ok_def)
  ultimately show "(i, px, q) \<in> set (abs_side s (get_book sy m))"
    by (auto simp: abs_side_def image_iff intro: bexI [of _ i])
qed

lemma resting_exact:
  assumes "wf_matcher m"
  shows "\<exists>rows. resting m = Inr rows \<and> sorted_wrt (<) (map fst rows) \<and>
    (\<forall>i sy sd px q. (i, sy, sd, px, q) \<in> set rows \<longleftrightarrow>
       sd \<in> {Side_BUY, Side_SELL} \<and> (i, px, q) \<in> set (abs_side (side_of sd) (get_book sy m)))"
proof -
  let ?row = "\<lambda>lv. (lv_order_id lv, lv_symbol_id lv, lv_side lv, lv_price_ticks lv, projr (remaining_qty_of m lv))"
  let ?rows = "map ?row (dvalues (m_by_order_id m))"
  have wfd: "wf_dict (m_by_order_id m)" using assms by (rule wf_by_order_id)
  have "\<exists>q. remaining_qty_of m lv = Inr q" if "lv \<in> set (dvalues (m_by_order_id m))" for lv
    using that live_ok_remaining [OF assms by_order_id_ok [OF assms]] wfd by (force simp: dget_in_set [symmetric])
  then have run: "resting_rows m (dvalues (m_by_order_id m)) = Inr ?rows" by (rule resting_rows_run)
  have "map fst ?rows = dkeys (m_by_order_id m)"
    using by_order_id_ok [OF assms] wfd by (auto simp: live_ok_def dget_in_set)
  then have sorted: "sorted_wrt (<) (map fst ?rows)" using assms by (simp only: wf_matcher_def)
  then have "sorted ?rows"
    by (auto simp: sorted_wrt_map sorted_wrt_iff_nth_less less_eq_prod_def elim!: sorted_wrt_mono_rel [rotated])
  then have "resting m = Inr ?rows" by (simp add: resting_def run sorted_sort_id)
  moreover have "(i, sy, sd, px, q) \<in> set ?rows \<longleftrightarrow>
       sd \<in> {Side_BUY, Side_SELL} \<and> (i, px, q) \<in> set (abs_side (side_of sd) (get_book sy m))" for i sy sd px q
  proof -
    have "(i, sy, sd, px, q) \<in> set ?rows \<longleftrightarrow> (\<exists>lv. dget (m_by_order_id m) i = Some lv \<and>
        lv_symbol_id lv = sy \<and> lv_side lv = sd \<and> lv_price_ticks lv = px \<and> projr (remaining_qty_of m lv) = q)"
      using by_order_id_ok [OF assms] by (force simp: dget_in_set [OF wfd] live_ok_def)
    moreover have "lv_side lv = sd \<longleftrightarrow> sd \<in> {Side_BUY, Side_SELL} \<and> side_of (lv_side lv) = side_of sd"
      if "dget (m_by_order_id m) i = Some lv" for lv
      using by_order_id_ok [OF assms that] by (auto simp: live_ok_def side_of_def enum_defs)
    ultimately show ?thesis unfolding abs_side_iff [OF assms] by blast
  qed
  ultimately show ?thesis using sorted by blast
qed

subsection \<open>Properties\<close>

definition demo_matcher :: matcher where
  "demo_matcher =
     \<lparr> m_initial_cash_ticks = 1000, m_books = [(1, demo_book)], m_next_order_id = 4,
       m_live = [((41, 11), new_live 1 11 41 100 3 1 2), ((42, 12), new_live 2 12 42 100 2 1 2),
                 ((43, 13), new_live 3 13 43 98 5 1 1)],
       m_by_order_id = [(1, new_live 1 11 41 100 3 1 2), (2, new_live 2 12 42 100 2 1 2),
                        (3, new_live 3 13 43 98 5 1 1)] \<rparr>"

lemma demo_matcher_wf: "wf_matcher demo_matcher"
proof -
  have b: "get_book 1 demo_matcher = demo_book" by (simp add: demo_matcher_def get_book_def)
  have "live_refs demo_book = {1, 2, 3}" by (auto simp: demo_book_def live_refs_def iter_orders_def)
  moreover have "set (iter_orders BUY demo_book) = {3}" "set (iter_orders SELL demo_book) = {1, 2}"
    by (simp_all add: demo_book_def iter_orders_def)
  moreover have "o_price (obj demo_book 1) = 100" "o_price (obj demo_book 2) = 100" "o_price (obj demo_book 3) = 98"
    by (simp_all add: demo_book_def obj_def deref_def demo_order_def)
  moreover have "live_ok demo_matcher 1 (new_live 1 11 41 100 3 1 2)"
    "live_ok demo_matcher 2 (new_live 2 12 42 100 2 1 2)" "live_ok demo_matcher 3 (new_live 3 13 43 98 5 1 1)"
    using calculation
    by (simp_all add: live_ok_def new_live_def b enum_defs demo_matcher_def [THEN arg_cong [where f = m_next_order_id]])
  ultimately show ?thesis
    using demo_wf by (simp add: wf_matcher_def demo_matcher_def wf_dict_def live_key_def new_live_def)
qed

text \<open>C2. One inbound record: the matcher never raises on a well-formed state, stays well
  formed, appends exactly the records the specification names, in its order, and its state
  changes as the specification's does.\<close>

theorem apply_record_refines_spec:
  assumes "wf_matcher m"
  shows "\<exists>m'. apply_record r m = Inr (m', snd (spec_apply r (abs_matcher m))) \<and>
    wf_matcher m' \<and> abs_matcher m' = fst (spec_apply r (abs_matcher m))"
  using assms by (rule apply_refines)

theorem apply_record_refines_spec_witness:
  "\<exists>m'. apply_record (CancelOrder_new 9 77 42 12) demo_matcher =
      Inr (m', [OrderCancelled_new 9 2 12 42 2 1 CancelReason_USER_REQUESTED]) \<and>
    abs_side SELL (get_book 1 m') = [(1, 100, 3)]"
proof -
  have d: "am_live (abs_matcher demo_matcher) (42, 12) = Some 2"
    "own_at (am_info (abs_matcher demo_matcher)) 2 =
      \<lparr> ow_user = 42, ow_client_order_id = 12, ow_symbol = 1, ow_side = 2 \<rparr>"
    "am_queue (abs_matcher demo_matcher) 1 = (\<lambda>t. abs_side t demo_book)"
    by (simp_all add: abs_matcher_def demo_matcher_def new_live_def own_at_def owner_of_def get_book_def fun_eq_iff)
  obtain m' where m': "apply_record (CancelOrder_new 9 77 42 12) demo_matcher =
      Inr (m', snd (spec_apply (CancelOrder_new 9 77 42 12) (abs_matcher demo_matcher)))"
    "abs_matcher m' = fst (spec_apply (CancelOrder_new 9 77 42 12) (abs_matcher demo_matcher))"
    using apply_record_refines_spec [OF demo_matcher_wf] by blast
  have s: "spec_apply (CancelOrder_new 9 77 42 12) (abs_matcher demo_matcher) =
      spec_cancel 9 77 42 12 (abs_matcher demo_matcher)"
    by (simp add: spec_apply_def CancelOrder_new_def new_header_def mk_header_def)
  have "am_queue (abs_matcher m') 1 SELL = [(1, 100, 3)]"
    unfolding m'(2) s by (simp add: spec_cancel_def d spec_forget_def Let_def enum_defs demo_queues)
  then have "abs_side SELL (get_book 1 m') = [(1, 100, 3)]" by (simp add: abs_matcher_def)
  with m'(1) show ?thesis
    unfolding s by (auto simp: spec_cancel_def d Let_def enum_defs demo_queues spec_remaining_def)
qed

text \<open>A whole inbound log, from a matcher just started: it is processed to its end
  without an exception, whatever records it holds, and the outbound log is the one the
  specification gives.\<close>

theorem matcher_replays_any_log:
  "\<exists>m'. apply_all log (new_matcher first cash) =
      Inr (m', snd (spec_apply_all log (abs_matcher (new_matcher first cash)))) \<and>
    wf_matcher m' \<and> abs_matcher m' = fst (spec_apply_all log (abs_matcher (new_matcher first cash)))"
  by (rule apply_all_refines [OF wf_new_matcher])

text \<open>\<open>resting()\<close> lists every order of every queue, each once, in ascending order id,
  with the symbol, side, price and remaining quantity it has in the book, and nothing else.\<close>

theorem resting_lists_the_book:
  assumes "wf_matcher m"
  shows "\<exists>rows. resting m = Inr rows \<and> sorted_wrt (<) (map fst rows) \<and>
    (\<forall>i sy sd px q. (i, sy, sd, px, q) \<in> set rows \<longleftrightarrow>
       sd \<in> {Side_BUY, Side_SELL} \<and> (i, px, q) \<in> set (abs_side (side_of sd) (get_book sy m)))"
  by (rule resting_exact [OF assms])

theorem resting_lists_the_book_witness:
  "\<exists>rows. resting demo_matcher = Inr rows \<and> sorted_wrt (<) (map fst rows) \<and>
    (2, 1, 2, 100, 2) \<in> set rows \<and> (3, 1, 2, 98, 5) \<notin> set rows"
proof -
  have b: "abs_side s (get_book 1 demo_matcher) = abs_side s demo_book" for s
    by (simp add: demo_matcher_def get_book_def)
  obtain rows where r: "resting demo_matcher = Inr rows" "sorted_wrt (<) (map fst rows)"
    "\<And>i sd px q. (i, 1, sd, px, q) \<in> set rows \<longleftrightarrow>
       sd \<in> {Side_BUY, Side_SELL} \<and> (i, px, q) \<in> set (abs_side (side_of sd) demo_book)"
    using resting_lists_the_book [OF demo_matcher_wf] b by metis
  then have "(2, 1, 2, 100, 2) \<in> set rows" "(3, 1, 2, 98, 5) \<notin> set rows"
    by (simp_all add: r(3) side_of_def enum_defs demo_queues)
  with r show ?thesis by blast
qed

text \<open>A cancel reaches only the canceller's own orders: whatever client order id it
  names, every live order of another user keeps its entry and its remaining quantity.\<close>

theorem cancel_only_own:
  assumes "wf_matcher m" "dget (m_by_order_id m) i = Some lv" "lv_user_id lv \<noteq> uid"
  shows "\<exists>m' out. cancel ts coid uid target m = Inr (m', out) \<and>
    dget (m_by_order_id m') i = Some lv \<and> remaining_qty_of m' lv = remaining_qty_of m lv"
proof (cases "dget (m_live m) (uid, target)")
  case None
  with assms show ?thesis by (simp add: cancel_def)
next
  case (Some l)
  have key: "live_key l = (uid, target)" and id: "dget (m_by_order_id m) (lv_order_id l) = Some l"
    using live_key_ok [OF assms(1) Some] by simp_all
  have ne: "lv_order_id l \<noteq> i" using key id assms(2,3) by (auto simp: live_key_def)
  note ok = by_order_id_ok [OF assms(1) id]
  obtain b3 where b3: "remove_order (lv_order_id l) (get_book (lv_symbol_id l) m) = Inr (b3, Some (lv_order_id l))"
    "deref b3 = deref (get_book (lv_symbol_id l) m)"
    using remove_order_abs [OF get_book_wf [OF assms(1)] live_ok_live [OF ok]] by blast
  have "remaining_qty_of (put_book (lv_symbol_id l) b3 m) lv = remaining_qty_of m lv"
    by (simp add: remaining_qty_of_def b3(2))
  with Some b3(1) live_ok_remaining [OF assms(1) ok] ne assms(2) show ?thesis
    by (simp add: cancel_def)
qed

theorem cancel_only_own_witness:
  "\<exists>m' out. cancel 9 77 42 11 demo_matcher = Inr (m', out) \<and>
    dget (m_by_order_id m') 1 = Some (new_live 1 11 41 100 3 1 2) \<and>
    remaining_qty_of m' (new_live 1 11 41 100 3 1 2) = remaining_qty_of demo_matcher (new_live 1 11 41 100 3 1 2)"
  by (rule cancel_only_own [OF demo_matcher_wf]) (simp_all add: demo_matcher_def new_live_def)

end
