(* ===== verification/Snapshot.thy ===== *)
theory Snapshot
  imports Matcher_Spec
begin

section \<open>The engine snapshot: services/matcher/snapshot.py, NaiveMatcher.snapshot and restore\<close>

text \<open>
  The byte format (magic, next order id, count, then one 52-byte row per live order in
  ascending order id), its packer and its checking unpacker; the matcher's \<open>snapshot\<close>, which
  writes its state in it, and \<open>restore\<close>, which re-adds the orders one by one without matching.

  The first group of lemmas gives the format's round trip. The second shows that restoring a
  snapshot gives a well-formed matcher with the same abstract state, so that it answers every
  later log exactly as the one that was snapshotted. That rests on an invariant of its own,
  \<open>id_sorted\<close>: inside every queue, time priority is order-id order.
\<close>

subsection \<open>The format\<close>

definition MAGIC :: bytes where
  "MAGIC = [81, 65, 83, 49]"

definition HEAD_FMT :: "fmt list" where "HEAD_FMT = [FQ, FI]"
definition ORDER_FMT :: "fmt list" where "ORDER_FMT = [FQ, FQ, FQ, Fh, FB, FB, Fq, Fq, Fq]"

text \<open>\<open>_HEAD.size\<close> counts the four magic bytes too.\<close>

definition HEAD_SIZE :: nat where "HEAD_SIZE = 4 + struct_size HEAD_FMT"
definition ORDER_SIZE :: nat where "ORDER_SIZE = struct_size ORDER_FMT"

record snapshot_order =
  so_order_id :: int
  so_client_order_id :: int
  so_user_id :: int
  so_symbol_id :: int
  so_side :: int
  so_indexed :: bool
  so_price_ticks :: int
  so_remaining_qty :: int
  so_created_at_ns :: int

record engine_snapshot =
  es_next_order_id :: int
  es_orders :: "snapshot_order list"

definition so_values :: "snapshot_order \<Rightarrow> int list" where
  "so_values r =
     [so_order_id r, so_client_order_id r, so_user_id r, so_symbol_id r, so_side r,
      if so_indexed r then 1 else 0, so_price_ticks r, so_remaining_qty r, so_created_at_ns r]"

fun so_of_values :: "int list \<Rightarrow> exn + snapshot_order" where
  "so_of_values [a, b, c, d, e, f, g, h, i] =
     Inr \<lparr> so_order_id = a, so_client_order_id = b, so_user_id = c, so_symbol_id = d, so_side = e,
           so_indexed = (f \<noteq> 0), so_price_ticks = g, so_remaining_qty = h, so_created_at_ns = i \<rparr>"
| "so_of_values _ = Inl TypeError"

fun pack_orders :: "snapshot_order list \<Rightarrow> exn + bytes" where
  "pack_orders [] = Inr []"
| "pack_orders (r # rs) =
     (case struct_pack ORDER_FMT (so_values r) of
        Inl e \<Rightarrow> Inl e
      | Inr bs \<Rightarrow> (case pack_orders rs of Inl e \<Rightarrow> Inl e | Inr bs' \<Rightarrow> Inr (bs @ bs')))"

definition snapshot_pack :: "engine_snapshot \<Rightarrow> exn + bytes" where
  "snapshot_pack s =
     (let ordered = sort_key so_order_id (es_orders s)
      in case struct_pack HEAD_FMT [es_next_order_id s, int (length ordered)] of
           Inl e \<Rightarrow> Inl e
         | Inr head \<Rightarrow>
             (case pack_orders ordered of
                Inl e \<Rightarrow> Inl e
              | Inr body \<Rightarrow> Inr (MAGIC @ head @ body)))"

text \<open>The reading loop: \<open>n\<close> rows still to read, the next of them at offset \<open>off\<close>.\<close>

fun unpack_orders :: "bytes \<Rightarrow> int \<Rightarrow> nat \<Rightarrow> nat \<Rightarrow> int \<Rightarrow> exn + snapshot_order list" where
  "unpack_orders bs next_id 0 off previous = Inr []"
| "unpack_orders bs next_id (Suc n) off previous =
     (case struct_unpack ORDER_FMT (take ORDER_SIZE (drop off bs)) of
        Inl e \<Rightarrow> Inl e
      | Inr vs \<Rightarrow>
          (case so_of_values vs of
             Inl e \<Rightarrow> Inl e
           | Inr r \<Rightarrow>
               if so_order_id r \<le> previous \<or> next_id \<le> so_order_id r then Inl ValueError
               else (case unpack_orders bs next_id n (off + ORDER_SIZE) (so_order_id r) of
                       Inl e \<Rightarrow> Inl e
                     | Inr rs \<Rightarrow> Inr (r # rs))))"

definition snapshot_unpack :: "bytes \<Rightarrow> exn + engine_snapshot" where
  "snapshot_unpack bs =
     (if length bs < HEAD_SIZE then Inl ValueError
      else
        (case struct_unpack HEAD_FMT (take (struct_size HEAD_FMT) (drop 4 bs)) of
           Inr [next_id, n_orders] \<Rightarrow>
             if take 4 bs \<noteq> MAGIC then Inl ValueError
             else if length bs \<noteq> HEAD_SIZE + nat n_orders * ORDER_SIZE then Inl ValueError
             else (case unpack_orders bs next_id (nat n_orders) HEAD_SIZE 0 of
                     Inl e \<Rightarrow> Inl e
                   | Inr rs \<Rightarrow> Inr \<lparr> es_next_order_id = next_id, es_orders = rs \<rparr>)
         | Inr _ \<Rightarrow> Inl StructError
         | Inl e \<Rightarrow> Inl e))"

text \<open>A snapshot the format can hold: ascending positive ids below the next one, and fields in range.\<close>

definition wf_snapshot :: "engine_snapshot \<Rightarrow> bool" where
  "wf_snapshot s \<longleftrightarrow>
     sorted_wrt (<) (map so_order_id (es_orders s)) \<and>
     (\<forall>r \<in> set (es_orders s). 0 < so_order_id r \<and> so_order_id r < es_next_order_id s \<and>
        list_all2 fits ORDER_FMT (so_values r)) \<and>
     fits FQ (es_next_order_id s) \<and> fits FI (int (length (es_orders s)))"

lemma sizes [simp]: "HEAD_SIZE = 16" "ORDER_SIZE = 52" "length MAGIC = 4"
  "struct_size HEAD_FMT = 12" "struct_size ORDER_FMT = 52"
  by (simp_all add: HEAD_SIZE_def ORDER_SIZE_def MAGIC_def HEAD_FMT_def ORDER_FMT_def)

lemma so_of_values_values: "so_of_values (so_values r) = Inr r"
  by (simp add: so_values_def)

lemma pack_orders_ok:
  "(\<And>r. r \<in> set rs \<Longrightarrow> list_all2 fits ORDER_FMT (so_values r)) \<Longrightarrow> \<exists>bs. pack_orders rs = Inr bs"
proof (induction rs)
  case (Cons r rs)
  obtain bs bs' where "struct_pack ORDER_FMT (so_values r) = Inr bs" "pack_orders rs = Inr bs'"
    using Cons struct_pack_ok [of ORDER_FMT "so_values r"] by auto
  then show ?case by simp
qed simp

lemma pack_orders_length: "pack_orders rs = Inr bs \<Longrightarrow> length bs = 52 * length rs"
proof (induction rs arbitrary: bs)
  case (Cons r rs)
  then show ?case by (auto split: sum.splits dest!: struct_pack_length)
qed simp

lemma unpack_orders_pack:
  assumes "pack_orders rs = Inr body" "sorted_wrt (<) (previous # map so_order_id rs)"
    and "\<And>r. r \<in> set rs \<Longrightarrow> so_order_id r < next_id" "drop off bs = body"
  shows "unpack_orders bs next_id (length rs) off previous = Inr rs"
  using assms
proof (induction rs arbitrary: body off previous)
  case (Cons r rs)
  obtain b1 b2 where b: "struct_pack ORDER_FMT (so_values r) = Inr b1" "pack_orders rs = Inr b2" "body = b1 @ b2"
    using Cons.prems(1) by (auto split: sum.splits)
  have len: "length b1 = 52" using struct_pack_length [OF b(1)] by simp
  have "drop (off + 52) bs = b2"
    using Cons.prems(4) b(3) len by (metis append_eq_conv_conj drop_drop add.commute)
  then have "unpack_orders bs next_id (length rs) (off + 52) (so_order_id r) = Inr rs"
    using Cons.IH [OF b(2), of "so_order_id r" "off + 52"] Cons.prems(2,3) by simp
  moreover have "struct_unpack ORDER_FMT (take 52 (drop off bs)) = Inr (so_values r)"
    using struct_unpack_pack [OF b(1)] by (simp add: Cons.prems(4) b(3) len)
  ultimately show ?case using Cons.prems(2) Cons.prems(3) [of r] by (simp add: so_of_values_values)
qed simp

lemma sort_key_strict: "sorted_wrt (<) (map f xs) \<Longrightarrow> sort_key f xs = (xs :: 'a list)" for f :: "'a \<Rightarrow> int"
  by (rule sort_key_id_if_sorted) (auto simp: sorted_map sorted_wrt_map elim!: sorted_wrt_mono_rel [rotated])

lemma snapshot_unpack_pack:
  assumes wf: "wf_snapshot s" and p: "snapshot_pack s = Inr bs"
  shows "snapshot_unpack bs = Inr s"
proof -
  have srt: "sort_key so_order_id (es_orders s) = es_orders s"
    using wf by (intro sort_key_strict) (simp add: wf_snapshot_def)
  obtain head body where h: "struct_pack HEAD_FMT [es_next_order_id s, int (length (es_orders s))] = Inr head"
    and b: "pack_orders (es_orders s) = Inr body" and bs: "bs = MAGIC @ head @ body"
    using p by (auto simp: snapshot_pack_def srt Let_def split: sum.splits)
  have lh: "length head = 12" using struct_pack_length [OF h] by simp
  have "unpack_orders bs (es_next_order_id s) (length (es_orders s)) 16 0 = Inr (es_orders s)"
    by (rule unpack_orders_pack [OF b]) (use wf lh in \<open>auto simp: wf_snapshot_def bs\<close>)
  moreover have "take 12 (drop 4 bs) = head" by (simp add: bs lh)
  moreover have "take 4 bs = MAGIC" by (simp add: bs)
  moreover have "length bs = 16 + length (es_orders s) * 52"
    using pack_orders_length [OF b] by (simp add: bs lh)
  ultimately show ?thesis using struct_unpack_pack [OF h] by (simp add: snapshot_unpack_def)
qed

lemma snapshot_pack_ok: "wf_snapshot s \<Longrightarrow> \<exists>bs. snapshot_pack s = Inr bs"
proof -
  assume wf: "wf_snapshot s"
  obtain body where "pack_orders (sort_key so_order_id (es_orders s)) = Inr body"
    using pack_orders_ok [of "sort_key so_order_id (es_orders s)"] wf by (auto simp: wf_snapshot_def)
  moreover obtain head where
    "struct_pack HEAD_FMT [es_next_order_id s, int (length (sort_key so_order_id (es_orders s)))] = Inr head"
    using struct_pack_ok [of HEAD_FMT] wf by (auto simp: HEAD_FMT_def wf_snapshot_def)
  ultimately show ?thesis by (simp add: snapshot_pack_def Let_def)
qed

interpretation engine_snapshot: codec snapshot_pack snapshot_unpack wf_snapshot
  by unfold_locales (auto intro: snapshot_unpack_pack snapshot_pack_ok)

subsection \<open>Writing the matcher's state\<close>

definition snapshot_row :: "matcher \<Rightarrow> live \<Rightarrow> exn + snapshot_order" where
  "snapshot_row m lv =
     (case deref (get_book (lv_symbol_id lv) m) (lv_model_order lv) of
        None \<Rightarrow> Inl RuntimeError
      | Some ord \<Rightarrow>
          Inr \<lparr> so_order_id = lv_order_id lv, so_client_order_id = lv_client_order_id lv,
                so_user_id = lv_user_id lv, so_symbol_id = lv_symbol_id lv, so_side = lv_side lv,
                so_indexed = (case dget (m_live m) (live_key lv) of
                                None \<Rightarrow> False | Some lv' \<Rightarrow> lv_order_id lv' = lv_order_id lv),
                so_price_ticks = lv_price_ticks lv, so_remaining_qty = remaining_quantity ord,
                so_created_at_ns = o_created_at ord \<rparr>)"

fun snapshot_rows :: "matcher \<Rightarrow> live list \<Rightarrow> exn + snapshot_order list" where
  "snapshot_rows m [] = Inr []"
| "snapshot_rows m (lv # lvs) =
     (case snapshot_row m lv of
        Inl e \<Rightarrow> Inl e
      | Inr r \<Rightarrow> (case snapshot_rows m lvs of Inl e \<Rightarrow> Inl e | Inr rs \<Rightarrow> Inr (r # rs)))"

definition snapshot :: "matcher \<Rightarrow> exn + bytes" where
  "snapshot m =
     (case snapshot_rows m (dvalues (m_by_order_id m)) of
        Inl e \<Rightarrow> Inl e
      | Inr rs \<Rightarrow> snapshot_pack \<lparr> es_next_order_id = m_next_order_id m, es_orders = rs \<rparr>)"

subsection \<open>Restoring\<close>

definition restore_order :: "snapshot_order \<Rightarrow> matcher \<Rightarrow> exn + matcher" where
  "restore_order r m =
     (case dget SIDE_TO_MODEL (so_side r) of
        None \<Rightarrow> Inl KeyError
      | Some s \<Rightarrow>
          (case new_order (so_order_id r) (so_user_id r) (str_int (so_symbol_id r)) s
                  (so_price_ticks r) (so_remaining_qty r) (so_created_at_ns r) of
             Inl e \<Rightarrow> Inl e
           | Inr model_order \<Rightarrow>
               let lv = \<lparr> lv_order_id = so_order_id r, lv_client_order_id = so_client_order_id r,
                          lv_user_id = so_user_id r, lv_symbol_id = so_symbol_id r,
                          lv_side = so_side r, lv_price_ticks = so_price_ticks r,
                          lv_qty = so_remaining_qty r, lv_model_order = so_order_id r \<rparr>
               in (case add_order model_order False (get_book (so_symbol_id r) m) of
                     Inl e \<Rightarrow> Inl e
                   | Inr (b, _) \<Rightarrow>
                       let m1 = put_book (so_symbol_id r) b m;
                           m2 = m1\<lparr>m_by_order_id := dset (so_order_id r) lv (m_by_order_id m1)\<rparr>
                       in Inr (if so_indexed r
                               then m2\<lparr>m_live := dset (so_user_id r, so_client_order_id r) lv (m_live m2)\<rparr>
                               else m2))))"

fun restore_orders :: "snapshot_order list \<Rightarrow> matcher \<Rightarrow> exn + matcher" where
  "restore_orders [] m = Inr m"
| "restore_orders (r # rs) m =
     (case restore_order r m of Inl e \<Rightarrow> Inl e | Inr m' \<Rightarrow> restore_orders rs m')"

definition restore :: "bytes \<Rightarrow> int \<Rightarrow> exn + matcher" where
  "restore bs initial_cash =
     (case snapshot_unpack bs of
        Inl e \<Rightarrow> Inl e
      | Inr s \<Rightarrow> restore_orders (es_orders s) (new_matcher (es_next_order_id s) initial_cash))"


subsection \<open>Time priority is order-id order\<close>

definition qkey :: "mside \<Rightarrow> aord \<Rightarrow> int \<times> int" where
  "qkey s x = (pkey s (a_price x), a_id x)"

definition id_sorted :: "mside \<Rightarrow> aord list \<Rightarrow> bool" where
  "id_sorted s q \<longleftrightarrow> sorted_wrt (<) (map (qkey s) q)"

definition time_sorted :: "amatcher \<Rightarrow> bool" where
  "time_sorted am \<longleftrightarrow> 0 < am_next am \<and>
     (\<forall>sy s. id_sorted s (am_queue am sy s) \<and>
        (\<forall>x \<in> set (am_queue am sy s). 0 < a_id x \<and> a_id x < am_next am))"

lemma id_sorted_Nil [simp]: "id_sorted s []"
  by (simp add: id_sorted_def)

lemma id_sorted_filter: "id_sorted s q \<Longrightarrow> id_sorted s (filter P q)"
  by (induction q) (auto simp: id_sorted_def)

lemma id_sorted_enqueue:
  "id_sorted s q \<Longrightarrow> (\<And>y. y \<in> set q \<Longrightarrow> a_id y < a_id x) \<Longrightarrow> id_sorted s (enqueue s x q)"
proof (induction q)
  case (Cons y q)
  have yq: "\<And>z. z \<in> set q \<Longrightarrow> qkey s y < qkey s z" and srt: "id_sorted s q"
    using Cons.prems(1) by (simp_all add: id_sorted_def)
  have ih: "id_sorted s (enqueue s x q)" using Cons.IH [OF srt] Cons.prems(2) by simp
  have yx: "a_id y < a_id x" using Cons.prems(2) by simp
  show ?case
  proof (cases "pkey s (a_price y) \<le> pkey s (a_price x)")
    case True
    then have "qkey s y < qkey s x" using yx by (simp add: qkey_def)
    with ih yq True show ?thesis by (simp add: id_sorted_def)
  next
    case False
    then have xy: "qkey s x < qkey s y" by (simp add: qkey_def)
    then have "qkey s x < qkey s z" if "z \<in> set q" for z using yq [OF that] by (rule less_trans)
    with xy Cons.prems(1) False show ?thesis by (simp add: id_sorted_def)
  qed
qed (simp add: id_sorted_def)

lemma id_sorted_spec_fill:
  assumes "id_sorted t os" "spec_fill s p q os = (fs, q', os')"
  shows "id_sorted t os'"
proof -
  have k: "map (qkey t) l = map (\<lambda>y. (pkey t (snd y), fst y)) (map (\<lambda>x. (a_id x, a_price x)) l)" for l
    by (simp add: qkey_def)
  have "map (qkey t) os' = drop (length os - length os') (map (qkey t) os)"
    using spec_fill_rest [OF assms(2)] by (simp only: k drop_map)
  with assms(1) show ?thesis unfolding id_sorted_def by (simp only: sorted_wrt_drop)
qed

lemma id_sorted_unique:
  assumes "id_sorted s q1" "id_sorted s q2" "set q1 = set q2" "inj_on a_id (set q1)"
  shows "q1 = q2"
proof -
  have "map (qkey s) q1 = map (qkey s) q2"
    using assms(1,2,3) unfolding id_sorted_def by (intro strict_sorted_equal) auto
  moreover have "inj_on (qkey s) (set q1 \<union> set q2)"
    using assms(3,4) by (auto simp: inj_on_def qkey_def)
  ultimately show ?thesis by (rule map_inj_on)
qed

lemma enqueue_filter:
  assumes srt: "id_sorted s q" and x: "x \<in> set q" and inj: "inj_on a_id (set q)"
    and P: "a_id x \<notin> P" "\<And>y. y \<in> set q \<Longrightarrow> a_id y \<in> P \<Longrightarrow> a_id y < a_id x"
  shows "filter (\<lambda>y. a_id y \<in> insert (a_id x) P) q = enqueue s x (filter (\<lambda>y. a_id y \<in> P) q)"
proof (rule id_sorted_unique)
  show "id_sorted s (filter (\<lambda>y. a_id y \<in> insert (a_id x) P) q)" by (rule id_sorted_filter [OF srt])
  show "id_sorted s (enqueue s x (filter (\<lambda>y. a_id y \<in> P) q))"
    by (rule id_sorted_enqueue [OF id_sorted_filter [OF srt]]) (use P(2) in auto)
  have "y = x" if "y \<in> set q" "a_id y = a_id x" for y using inj x that by (simp add: inj_on_eq_iff)
  then show "set (filter (\<lambda>y. a_id y \<in> insert (a_id x) P) q) = set (enqueue s x (filter (\<lambda>y. a_id y \<in> P) q))"
    using x by auto
  show "inj_on a_id (set (filter (\<lambda>y. a_id y \<in> insert (a_id x) P) q))"
    by (rule inj_on_subset [OF inj]) auto
qed

lemma spec_forget_sel [simp]:
  "am_queue (spec_forget g am) = am_queue am" "am_next (spec_forget g am) = am_next am"
  by (simp_all add: spec_forget_def)

lemma time_sorted_submit:
  assumes "time_sorted am"
  shows "time_sorted (fst (spec_submit ts coid uid px q sy sd tf am))"
proof (cases "reject_reason sd tf px q")
  case (Some why)
  with assms show ?thesis by (simp add: spec_submit_def)
next
  case None
  let ?s = "side_of sd"
  obtain fs q' os' where sp: "spec_fill ?s px q (am_queue am sy (opp ?s)) = (fs, q', os')" by (metis prod_cases3)
  let ?own = "if 0 < q' \<and> tf \<noteq> Tif_IOC then enqueue ?s (am_next am, px, q') (am_queue am sy ?s)
              else am_queue am sy ?s"
  have q: "am_queue (fst (spec_submit ts coid uid px q sy sd tf am)) =
      (am_queue am)(sy := \<lambda>t. if t = ?s then ?own else os')"
    "am_next (fst (spec_submit ts coid uid px q sy sd tf am)) = am_next am + 1"
    using sp by (simp_all add: spec_submit_def None side_of_def [symmetric] Let_def)
  have old: "id_sorted t (am_queue am y t)" "0 < am_next am"
    "x \<in> set (am_queue am y t) \<Longrightarrow> 0 < a_id x \<and> a_id x < am_next am" for t y x
    using assms by (auto simp: time_sorted_def)
  have own: "id_sorted ?s ?own" by (auto intro!: id_sorted_enqueue old dest: old(3))
  have os: "id_sorted (opp ?s) os'" by (rule id_sorted_spec_fill [OF old(1) sp])
  have "0 < i \<and> i < am_next am" if "i \<in> a_id ` set os'" for i
  proof -
    have "i \<in> a_id ` set (am_queue am sy (opp ?s))" using spec_fill_ids(3) [OF sp] that by (rule subsetD)
    then show ?thesis using old(3) by blast
  qed
  then have osb: "0 < a_id x \<and> a_id x < am_next am + 1" if "x \<in> set os'" for x
    using imageI [OF that, of a_id] by (meson less_add_one less_trans)
  have ownb: "0 < a_id x \<and> a_id x < am_next am + 1" if "x \<in> set ?own" for x
    using that old(2) old(3) [of x sy ?s] by (auto split: if_splits)
  have "id_sorted t (am_queue (fst (spec_submit ts coid uid px q sy sd tf am)) y t) \<and>
      (\<forall>x \<in> set (am_queue (fst (spec_submit ts coid uid px q sy sd tf am)) y t).
         0 < a_id x \<and> a_id x < am_next am + 1)" for y t
  proof (cases "y = sy")
    case True
    show ?thesis
    proof (cases "t = ?s")
      case t: True
      with True own ownb show ?thesis unfolding q by simp
    next
      case False
      then have "t = opp ?s" by (cases t; cases ?s) simp_all
      with True os osb show ?thesis unfolding q by simp
    qed
  next
    case False
    have "a_id x < am_next am + 1" if "x \<in> set (am_queue am y t)" for x
      using old(3) [OF that] by simp
    with False old(1,3) show ?thesis unfolding q by simp
  qed
  with old(2) show ?thesis unfolding time_sorted_def q(2) by simp
qed

lemma time_sorted_apply: "time_sorted am \<Longrightarrow> time_sorted (fst (spec_apply r am))"
proof -
  assume t: "time_sorted am"
  have "time_sorted (fst (spec_cancel ts coid uid target am))" for ts coid uid target
  proof (cases "am_live am (uid, target)")
    case None
    with t show ?thesis by (simp add: spec_cancel_def)
  next
    case (Some oid)
    let ?sy = "ow_symbol (own_at (am_info am) oid)" and ?am = "fst (spec_cancel ts coid uid target am)"
    have q: "am_queue ?am = (am_queue am)(?sy := \<lambda>t. filter (\<lambda>x. a_id x \<noteq> oid) (am_queue am ?sy t))"
      "am_next ?am = am_next am"
      by (simp_all add: spec_cancel_def Some Let_def)
    have "id_sorted u (am_queue ?am y u)" "set (am_queue ?am y u) \<subseteq> set (am_queue am y u)" for y u
      using t by (auto simp: q time_sorted_def intro: id_sorted_filter)
    with t show ?thesis unfolding time_sorted_def q(2) by blast
  qed
  with t time_sorted_submit [OF t] show ?thesis by (auto simp: spec_apply_def spec_forward_def)
qed

lemma abs_side_empty [simp]: "abs_side s empty_book = []"
  by (simp add: abs_side_def side_queue_def iter_orders_def empty_book_def) (cases s; simp)

lemma abs_new_matcher:
  "abs_matcher (new_matcher n c) =
     \<lparr> am_cash = c, am_next = n, am_queue = (\<lambda>sy s. []), am_info = (\<lambda>i. None), am_live = (\<lambda>k. None) \<rparr>"
  by (simp add: abs_matcher_def new_matcher_def get_book_def)

lemma time_sorted_new: "0 < n \<Longrightarrow> time_sorted (abs_matcher (new_matcher n c))"
  by (simp add: time_sorted_def abs_new_matcher)


subsection \<open>Re-adding one order\<close>

text \<open>The matcher with one more order in it, at the back of its queue.\<close>

definition readd :: "live \<Rightarrow> bool \<Rightarrow> book \<Rightarrow> matcher \<Rightarrow> matcher" where
  "readd lv indexed b m =
     (let m1 = put_book (lv_symbol_id lv) b m;
          m2 = m1\<lparr>m_by_order_id := dset (lv_order_id lv) lv (m_by_order_id m1)\<rparr>
      in if indexed then m2\<lparr>m_live := dset (live_key lv) lv (m_live m2)\<rparr> else m2)"

lemma readd_sel [simp]:
  "m_initial_cash_ticks (readd lv ix b m) = m_initial_cash_ticks m"
  "m_next_order_id (readd lv ix b m) = m_next_order_id m"
  "m_books (readd lv ix b m) = dset (lv_symbol_id lv) b (m_books m)"
  "get_book sy (readd lv ix b m) = (if sy = lv_symbol_id lv then b else get_book sy m)"
  "m_by_order_id (readd lv ix b m) = dset (lv_order_id lv) lv (m_by_order_id m)"
  "m_live (readd lv ix b m) = (if ix then dset (live_key lv) lv (m_live m) else m_live m)"
  by (simp_all add: readd_def put_book_def get_book_def Let_def)

lemma readd_wf:
  assumes wf: "wf_matcher m" and lv: "lv_model_order lv = lv_order_id lv" "lv_order_id lv < m_next_order_id m"
    and sd: "lv_side lv \<in> {Side_BUY, Side_SELL}"
    and late: "\<And>i. i \<in> set (dkeys (m_by_order_id m)) \<Longrightarrow> i < lv_order_id lv"
    and b: "wf_book b" "settled b"
    and live: "live_refs b = insert (lv_order_id lv) (live_refs (get_book (lv_symbol_id lv) m))"
    and own: "lv_order_id lv \<in> set (iter_orders (side_of (lv_side lv)) b)"
      "o_price (obj b (lv_order_id lv)) = lv_price_ticks lv"
    and old: "\<And>t. set (iter_orders t (get_book (lv_symbol_id lv) m)) \<subseteq> set (iter_orders t b)"
      "\<And>i. i \<in> live_refs (get_book (lv_symbol_id lv) m) \<Longrightarrow>
         o_price (obj b i) = o_price (obj (get_book (lv_symbol_id lv) m) i)"
  shows "wf_matcher (readd lv ix b m)" (is "wf_matcher ?m2")
proof -
  let ?sy = "lv_symbol_id lv" and ?n = "lv_order_id lv"
  have fresh: "?n \<notin> set (dkeys (m_by_order_id m))" using late by auto
  have id2: "dget (m_by_order_id ?m2) i = (if i = ?n then Some lv else dget (m_by_order_id m) i)" for i
    by simp
  have srt: "sorted_wrt (<) (dkeys (m_by_order_id ?m2))"
    using wf late by (simp add: dset_fresh [OF fresh] sorted_wrt_append wf_matcher_def)
  then have wfid: "wf_dict (m_by_order_id ?m2)"
    by (auto simp: wf_dict_def dest: sorted_wrt_distinct [where g = id, simplified])
  have wfd: "wf_dict (m_books ?m2)" "wf_dict (m_live ?m2)" using wf by (simp_all add: wf_matcher_def)
  have notn: "i \<noteq> ?n" if "dget (m_by_order_id m) i = Some l" for i l
    using fresh dget_Some_key [OF that] by blast
  have books: "wf_book c \<and> settled c \<and> (\<forall>i \<in> live_refs c. \<exists>l \<in> set (dvalues (m_by_order_id ?m2)).
      lv_order_id l = i \<and> lv_symbol_id l = sy)" if d: "dget (m_books ?m2) sy = Some c" for sy c
  proof -
    have c: "c = get_book sy ?m2" using d by (simp add: get_book_def)
    have "\<exists>l. dget (m_by_order_id ?m2) i = Some l \<and> lv_order_id l = i \<and> lv_symbol_id l = sy"
      if i: "i \<in> live_refs c" for i
    proof (cases "i = ?n \<and> sy = ?sy")
      case True
      then show ?thesis by (simp add: id2)
    next
      case False
      then have "i \<in> live_refs (get_book sy m)" using i live by (auto simp: c split: if_splits)
      then obtain l where l: "dget (m_by_order_id m) i = Some l" "lv_symbol_id l = sy"
        using live_in_by_order_id [OF wf] by blast
      with notn [OF l(1)] by_order_id_ok [OF wf l(1)] show ?thesis by (simp add: live_ok_def)
    qed
    then have "\<forall>i \<in> live_refs c. \<exists>l \<in> set (dvalues (m_by_order_id ?m2)). lv_order_id l = i \<and> lv_symbol_id l = sy"
      by (force dest!: map_of_SomeD simp del: readd_sel)
    then show ?thesis using b get_book_wf [OF wf] get_book_settled [OF wf] by (simp add: c)
  qed
  have lives: "live_ok ?m2 i l" if "dget (m_by_order_id ?m2) i = Some l" for i l
  proof (cases "i = ?n")
    case True
    then have "l = lv" using that by simp
    with True lv sd own show ?thesis by (simp add: live_ok_def side_of_def)
  next
    case False
    then have l: "dget (m_by_order_id m) i = Some l" using that by simp
    note ok = by_order_id_ok [OF wf l]
    show ?thesis
    proof (cases "lv_symbol_id l = ?sy")
      case True
      have "o_price (obj b i) = o_price (obj (get_book ?sy m) i)"
        using old(2) live_ok_live [OF ok] True by simp
      moreover have "i \<in> set (iter_orders t b)" if "i \<in> set (iter_orders t (get_book ?sy m))" for t
        using old(1) that by blast
      ultimately show ?thesis using ok True by (simp add: live_ok_def)
    next
      case False
      with ok show ?thesis by (simp add: live_ok_def)
    qed
  qed
  have keys: "k = live_key l \<and> dget (m_by_order_id ?m2) (lv_order_id l) = Some l"
    if d: "dget (m_live ?m2) k = Some l" for k l
  proof (cases "ix \<and> k = live_key lv")
    case True
    then show ?thesis using d by simp
  next
    case False
    then have k: "dget (m_live m) k = Some l" using d by (auto split: if_splits)
    note o = live_key_ok [OF wf k]
    from o notn [OF o(2)] show ?thesis by simp
  qed
  show ?thesis
    unfolding wf_matcher_def using wfd srt books lives keys
    by (auto simp: dget_in_set [OF wfd(1), symmetric] dget_in_set [OF wfd(2), symmetric]
        dget_in_set [OF wfid, symmetric] simp del: readd_sel)
qed

definition restored_live :: "snapshot_order \<Rightarrow> live" where
  "restored_live r =
     new_live (so_order_id r) (so_client_order_id r) (so_user_id r) (so_price_ticks r)
       (so_remaining_qty r) (so_symbol_id r) (so_side r)"

lemma restore_order_run:
  assumes wf: "wf_matcher m" and v: "so_side r \<in> {Side_BUY, Side_SELL}" "0 < so_price_ticks r"
    "0 < so_remaining_qty r" "so_order_id r < m_next_order_id m"
    and late: "\<And>i. i \<in> set (dkeys (m_by_order_id m)) \<Longrightarrow> i < so_order_id r"
  defines "s \<equiv> side_of (so_side r)"
  assumes st: "\<And>b. \<lbrakk>abs_side s b = enqueue s (so_order_id r, so_price_ticks r, so_remaining_qty r)
        (abs_side s (get_book (so_symbol_id r) m));
      abs_side (opp s) b = abs_side (opp s) (get_book (so_symbol_id r) m)\<rbrakk> \<Longrightarrow> settled b"
  shows "\<exists>b. restore_order r m = Inr (readd (restored_live r) (so_indexed r) b m) \<and>
    wf_matcher (readd (restored_live r) (so_indexed r) b m) \<and>
    abs_side s b = enqueue s (so_order_id r, so_price_ticks r, so_remaining_qty r)
        (abs_side s (get_book (so_symbol_id r) m)) \<and>
    abs_side (opp s) b = abs_side (opp s) (get_book (so_symbol_id r) m)"
proof -
  let ?lv = "restored_live r" and ?b0 = "get_book (so_symbol_id r) m"
  let ?ord = "submit_order_of ?lv (so_created_at_ns r)"
  have lv: "lv_order_id ?lv = so_order_id r" "lv_model_order ?lv = so_order_id r"
    "lv_client_order_id ?lv = so_client_order_id r" "lv_user_id ?lv = so_user_id r"
    "lv_symbol_id ?lv = so_symbol_id r" "lv_side ?lv = so_side r" "lv_price_ticks ?lv = so_price_ticks r"
    "lv_qty ?lv = so_remaining_qty r"
    by (simp_all add: restored_live_def new_live_def)
  have ord: "o_order_id ?ord = so_order_id r" "o_side ?ord = s" "o_price ?ord = so_price_ticks r"
    "remaining_quantity ?ord = so_remaining_qty r"
    by (simp_all add: submit_order_of_def lv s_def)
  have fresh: "so_order_id r \<notin> live_refs ?b0"
  proof
    assume "so_order_id r \<in> live_refs ?b0"
    then obtain l where "dget (m_by_order_id m) (so_order_id r) = Some l"
      using live_in_by_order_id [OF wf] by blast
    from late [OF dget_Some_key [OF this]] show False by simp
  qed
  obtain b where ins: "inserted ?ord ?b0 b" and add: "add_order ?ord False ?b0 = Inr (b, [])"
    using add_order_inserts [OF get_book_wf [OF wf], of ?ord "so_symbol_id r"] fresh v(2) by (auto simp: ord)
  then have b: "wf_book b" "abs_side s b = enqueue s (so_order_id r, so_price_ticks r, so_remaining_qty r) (abs_side s ?b0)"
    "abs_side (opp s) b = abs_side (opp s) ?b0" "deref b = (deref ?b0)(so_order_id r \<mapsto> ?ord)"
    "live_refs b = insert (so_order_id r) (live_refs ?b0)"
    by (simp_all add: inserted_def ord)
  have obj: "obj b i = (if i = so_order_id r then ?ord else obj ?b0 i)" for i
    by (simp add: obj_def b(4))
  have iter: "set (iter_orders t b) = (if t = s then {so_order_id r} else {}) \<union> set (iter_orders t ?b0)" for t
  proof (cases "t = s")
    case True
    then show ?thesis unfolding ids_abs_side [symmetric] True b(2) by simp
  next
    case False
    then have "t = opp s" by (cases t; cases s) simp_all
    then show ?thesis unfolding ids_abs_side [symmetric] b(3) by (simp add: b(3))
  qed
  have wf2: "wf_matcher (readd ?lv (so_indexed r) b m)"
  proof (rule readd_wf [OF wf])
    show "settled b" by (rule st [OF b(2,3)])
    show "i < lv_order_id ?lv" if "i \<in> set (dkeys (m_by_order_id m))" for i
      using late [OF that] by (simp add: lv)
    show "o_price (obj b (lv_order_id ?lv)) = lv_price_ticks ?lv" by (simp add: obj lv ord)
    show "o_price (obj b i) = o_price (obj (get_book (lv_symbol_id ?lv) m) i)"
      if "i \<in> live_refs (get_book (lv_symbol_id ?lv) m)" for i
      using that fresh by (auto simp: obj lv)
  qed (use v b iter in \<open>auto simp: lv s_def\<close>)
  have run: "restore_order r m = Inr (readd ?lv (so_indexed r) b m)"
  proof -
    have n: "new_order (so_order_id r) (so_user_id r) (str_int (so_symbol_id r)) s (so_price_ticks r)
        (so_remaining_qty r) (so_created_at_ns r) = Inr ?ord"
      using v by (simp add: new_order_run submit_order_of_def lv s_def)
    have l: "\<lparr> lv_order_id = so_order_id r, lv_client_order_id = so_client_order_id r,
        lv_user_id = so_user_id r, lv_symbol_id = so_symbol_id r, lv_side = so_side r,
        lv_price_ticks = so_price_ticks r, lv_qty = so_remaining_qty r, lv_model_order = so_order_id r \<rparr> = ?lv"
      by (simp add: restored_live_def new_live_def)
    show ?thesis
      unfolding restore_order_def side_to_model [OF v(1)] option.case s_def [symmetric] n sum.case l add
        Let_def prod.case readd_def lv live_key_def by simp
  qed
  show ?thesis using run wf2 b(2,3) by blast
qed


subsection \<open>The whole loop\<close>

text \<open>The matcher rebuilt so far: the orders of \<open>P\<close> are in it, as they are in \<open>m\<close>.\<close>

definition rebuilt :: "int set \<Rightarrow> matcher \<Rightarrow> matcher \<Rightarrow> bool" where
  "rebuilt P m m' \<longleftrightarrow>
     wf_matcher m' \<and> m_initial_cash_ticks m' = m_initial_cash_ticks m \<and>
     m_next_order_id m' = m_next_order_id m \<and>
     (\<forall>sy s. abs_side s (get_book sy m') = filter (\<lambda>x. a_id x \<in> P) (abs_side s (get_book sy m))) \<and>
     (\<forall>i. map_option owner_of (dget (m_by_order_id m') i) =
        (if i \<in> P then map_option owner_of (dget (m_by_order_id m) i) else None)) \<and>
     (\<forall>k. map_option lv_order_id (dget (m_live m') k) =
        (case dget (m_live m) k of
           None \<Rightarrow> None | Some l \<Rightarrow> if lv_order_id l \<in> P then Some (lv_order_id l) else None))"

definition row_of :: "matcher \<Rightarrow> live \<Rightarrow> snapshot_order" where
  "row_of m lv = projr (snapshot_row m lv)"

lemma snapshot_row_run:
  assumes wf: "wf_matcher m" and lv: "dget (m_by_order_id m) i = Some lv"
  shows "snapshot_row m lv = Inr (row_of m lv)" "restored_live (row_of m lv) = lv\<lparr>lv_qty := so_remaining_qty (row_of m lv)\<rparr>"
    "(so_order_id (row_of m lv), so_price_ticks (row_of m lv), so_remaining_qty (row_of m lv)) =
       abs_ord (get_book (lv_symbol_id lv) m) i"
    "so_symbol_id (row_of m lv) = lv_symbol_id lv" "so_side (row_of m lv) = lv_side lv"
    "so_order_id (row_of m lv) = i"
    "so_indexed (row_of m lv) \<longleftrightarrow> (\<exists>l. dget (m_live m) (live_key lv) = Some l \<and> lv_order_id l = i)"
proof -
  note ok = by_order_id_ok [OF wf lv]
  let ?b = "get_book (lv_symbol_id lv) m"
  have d: "deref ?b (lv_model_order lv) = Some (obj ?b i)" "lv_order_id lv = i" "lv_model_order lv = i"
    "lv_price_ticks lv = o_price (obj ?b i)"
    using live_deref [OF get_book_wf [OF wf] live_ok_live [OF ok]] ok by (simp_all add: live_ok_def)
  then show r: "snapshot_row m lv = Inr (row_of m lv)" by (simp add: row_of_def snapshot_row_def)
  show "restored_live (row_of m lv) = lv\<lparr>lv_qty := so_remaining_qty (row_of m lv)\<rparr>"
    using d by (simp add: row_of_def snapshot_row_def restored_live_def new_live_def)
  show "(so_order_id (row_of m lv), so_price_ticks (row_of m lv), so_remaining_qty (row_of m lv)) = abs_ord ?b i"
    "so_symbol_id (row_of m lv) = lv_symbol_id lv" "so_side (row_of m lv) = lv_side lv"
    "so_order_id (row_of m lv) = i"
    using d by (simp_all add: row_of_def snapshot_row_def abs_ord_def)
  show "so_indexed (row_of m lv) \<longleftrightarrow> (\<exists>l. dget (m_live m) (live_key lv) = Some l \<and> lv_order_id l = i)"
    using d by (simp add: row_of_def snapshot_row_def split: option.splits)
qed

lemma snapshot_rows_run:
  assumes wf: "wf_matcher m" and lvs: "set lvs \<subseteq> set (dvalues (m_by_order_id m))"
  shows "snapshot_rows m lvs = Inr (map (row_of m) lvs)"
  using lvs
proof (induction lvs)
  case (Cons lv lvs)
  then obtain i where "dget (m_by_order_id m) i = Some lv"
    using wf_by_order_id [OF wf] by (force simp: dget_in_set)
  with Cons snapshot_row_run(1) [OF wf] show ?case by simp
qed simp

lemma ids_of_symbol:
  assumes wf: "wf_matcher m" and lv: "dget (m_by_order_id m) i = Some lv"
    and i: "i \<in> a_id ` set (abs_side t (get_book sy m))"
  shows "sy = lv_symbol_id lv" "t = side_of (lv_side lv)"
proof -
  obtain x where "x \<in> set (abs_side t (get_book sy m))" "a_id x = i" using i by blast
  then obtain px q where "(i, px, q) \<in> set (abs_side t (get_book sy m))" by (metis prod.collapse)
  with abs_side_iff [OF wf] lv show "sy = lv_symbol_id lv" "t = side_of (lv_side lv)" by auto
qed

lemma rebuilt_step:
  assumes wf: "wf_matcher m" and ts: "time_sorted (abs_matcher m)"
    and reb: "rebuilt P m m'" and lv: "dget (m_by_order_id m) i = Some lv"
    and late: "\<And>j. j \<in> P \<Longrightarrow> j < i"
  shows "\<exists>m''. restore_order (row_of m lv) m' = Inr m'' \<and> rebuilt (insert i P) m m''"
proof -
  let ?r = "row_of m lv" and ?sy = "lv_symbol_id lv" and ?s = "side_of (lv_side lv)"
  let ?b = "get_book ?sy m"
  note row = snapshot_row_run [OF wf lv] and ok = by_order_id_ok [OF wf lv]
  have wf': "wf_matcher m'" and nxt: "m_next_order_id m' = m_next_order_id m"
    and q: "\<And>sy s. abs_side s (get_book sy m') = filter (\<lambda>x. a_id x \<in> P) (abs_side s (get_book sy m))"
    and info: "\<And>j. map_option owner_of (dget (m_by_order_id m') j) =
        (if j \<in> P then map_option owner_of (dget (m_by_order_id m) j) else None)"
    and lives: "\<And>k. map_option lv_order_id (dget (m_live m') k) =
        (case dget (m_live m) k of
           None \<Rightarrow> None | Some l \<Rightarrow> if lv_order_id l \<in> P then Some (lv_order_id l) else None)"
    using reb unfolding rebuilt_def by blast+
  let ?x = "abs_ord ?b i"
  have ox: "(i, so_price_ticks ?r, so_remaining_qty ?r) = ?x" using row(3,6) by simp
  have iin: "i \<in> set (iter_orders ?s ?b)" using ok by (simp add: live_ok_def side_of_def)
  then have x: "?x \<in> set (abs_side ?s ?b)" by (auto simp: abs_side_def)
  have inj: "inj_on a_id (set (abs_side t (get_book sy m)))" for sy t
    using distinct_ids [OF get_book_wf [OF wf]] by (simp add: distinct_map)
  have isrt: "id_sorted t (abs_side t (get_book sy m))" for sy t
    using ts by (simp add: time_sorted_def abs_matcher_def)
  have enq: "enqueue ?s ?x (filter (\<lambda>y. a_id y \<in> P) (abs_side ?s ?b)) =
      filter (\<lambda>y. a_id y \<in> insert i P) (abs_side ?s ?b)"
  proof -
    have "i \<notin> P" using late by blast
    with enqueue_filter [OF isrt x inj, of P] late show ?thesis by (simp add: ox [symmetric])
  qed
  have skip: "filter (\<lambda>y. a_id y \<in> insert i P) (abs_side t (get_book sy m)) =
      filter (\<lambda>y. a_id y \<in> P) (abs_side t (get_book sy m))" if "sy \<noteq> ?sy \<or> t \<noteq> ?s" for sy t
  proof (rule filter_cong)
    have n: "i \<notin> a_id ` set (abs_side t (get_book sy m))" using ids_of_symbol [OF wf lv] that by blast
    show "(a_id y \<in> insert i P) = (a_id y \<in> P)" if "y \<in> set (abs_side t (get_book sy m))" for y
    proof -
      have "a_id y \<noteq> i" using n imageI [OF that, of a_id] by metis
      then show ?thesis by simp
    qed
  qed simp
  have pos: "0 < so_remaining_qty ?r"
  proof -
    have "positive (abs_side ?s ?b)" using get_book_settled [OF wf, of ?sy] by (simp add: settled_side [of _ ?s])
    with x show ?thesis by (auto simp: positive_def ox [symmetric])
  qed
  have price: "0 < so_price_ticks ?r"
  proof -
    obtain l where "level_ok ?s ?b (o_price (obj ?b i)) l"
      using iter_level [OF wf_book_side [OF get_book_wf [OF wf]] iin] by blast
    then have "0 < o_price (obj ?b i)" by (simp add: level_ok_def)
    moreover have "so_price_ticks ?r = o_price (obj ?b i)" using ox by (simp add: abs_ord_def)
    ultimately show ?thesis by simp
  qed
  have late': "j < i" if "j \<in> set (dkeys (m_by_order_id m'))" for j
  proof -
    from that obtain l where "dget (m_by_order_id m') j = Some l" unfolding dget_key_iff by blast
    with info [of j] late show ?thesis by (simp split: if_splits)
  qed
  have "\<exists>b. restore_order ?r m' = Inr (readd (restored_live ?r) (so_indexed ?r) b m') \<and>
    wf_matcher (readd (restored_live ?r) (so_indexed ?r) b m') \<and>
    abs_side (side_of (so_side ?r)) b = enqueue (side_of (so_side ?r)) (so_order_id ?r, so_price_ticks ?r, so_remaining_qty ?r)
        (abs_side (side_of (so_side ?r)) (get_book (so_symbol_id ?r) m')) \<and>
    abs_side (opp (side_of (so_side ?r))) b = abs_side (opp (side_of (so_side ?r))) (get_book (so_symbol_id ?r) m')"
  proof (rule restore_order_run [OF wf' _ price pos])
    show "so_side ?r \<in> {Side_BUY, Side_SELL}" "so_order_id ?r < m_next_order_id m'"
      using ok row(5,6) nxt by (simp_all add: live_ok_def)
    show "j < so_order_id ?r" if "j \<in> set (dkeys (m_by_order_id m'))" for j
      using late' [OF that] row(6) by simp
    show "settled b" if a: "abs_side (side_of (so_side ?r)) b = enqueue (side_of (so_side ?r))
          (so_order_id ?r, so_price_ticks ?r, so_remaining_qty ?r)
          (abs_side (side_of (so_side ?r)) (get_book (so_symbol_id ?r) m'))"
        "abs_side (opp (side_of (so_side ?r))) b = abs_side (opp (side_of (so_side ?r))) (get_book (so_symbol_id ?r) m')" for b
    proof (rule settled_filter [OF get_book_settled [OF wf, of ?sy]])
      fix t
      have "t = ?s \<or> t = opp ?s" by (cases t; cases ?s) simp_all
      then show "set (abs_side t b) \<subseteq> set (abs_side t ?b)"
        using a x by (auto simp: row(4,5,6) q ox)
    qed
  qed
  then obtain b where run: "restore_order ?r m' = Inr (readd (restored_live ?r) (so_indexed ?r) b m')"
    and wf2: "wf_matcher (readd (restored_live ?r) (so_indexed ?r) b m')"
    and own: "abs_side ?s b = filter (\<lambda>y. a_id y \<in> insert i P) (abs_side ?s ?b)"
    and oth: "abs_side (opp ?s) b = filter (\<lambda>y. a_id y \<in> P) (abs_side (opp ?s) ?b)"
    unfolding row(4,5,6) ox q enq by blast
  have lv': "lv_symbol_id (restored_live ?r) = ?sy" "lv_order_id (restored_live ?r) = i"
    "owner_of (restored_live ?r) = owner_of lv" "live_key (restored_live ?r) = live_key lv"
    using ok by (simp_all add: row(2) owner_of_def live_key_def live_ok_def)
  let ?m2 = "readd (restored_live ?r) (so_indexed ?r) b m'"
  have "abs_side t (get_book sy ?m2) = filter (\<lambda>x. a_id x \<in> insert i P) (abs_side t (get_book sy m))" for sy t
  proof (cases "sy = ?sy")
    case True
    have "t = ?s \<or> t = opp ?s" by (cases t; cases ?s) simp_all
    with True own oth skip [of ?sy "opp ?s"] show ?thesis by (auto simp: lv' simp del: insert_iff)
  next
    case False
    with skip [of sy t] q show ?thesis by (simp add: lv' del: insert_iff)
  qed
  moreover have "map_option owner_of (dget (m_by_order_id ?m2) j) =
      (if j \<in> insert i P then map_option owner_of (dget (m_by_order_id m) j) else None)" for j
    using info [of j] lv by (simp add: lv')
  moreover have "map_option lv_order_id (dget (m_live ?m2) k) =
      (case dget (m_live m) k of
         None \<Rightarrow> None | Some l \<Rightarrow> if lv_order_id l \<in> insert i P then Some (lv_order_id l) else None)" for k
  proof (cases "k = live_key lv \<and> so_indexed ?r")
    case True
    then obtain l where "dget (m_live m) k = Some l" "lv_order_id l = i" using row(7) by blast
    with True show ?thesis by (simp add: lv')
  next
    case False
    have "lv_order_id l \<noteq> i" if "dget (m_live m) k = Some l" for l
      using live_key_ok [OF wf that] lv that False row(7) by auto
    with lives [of k] False show ?thesis by (auto simp: lv' split: option.splits)
  qed
  ultimately have "rebuilt (insert i P) m ?m2"
    using wf2 reb unfolding rebuilt_def by simp
  with run show ?thesis by blast
qed


lemma rebuilt_none: "rebuilt {} m (new_matcher (m_next_order_id m) (m_initial_cash_ticks m))"
  by (auto simp: rebuilt_def wf_new_matcher) (simp_all add: new_matcher_def get_book_def split: option.split)

lemma restore_orders_run:
  assumes wf: "wf_matcher m" and ts: "time_sorted (abs_matcher m)"
  shows "m_by_order_id m = pre @ suf \<Longrightarrow> rebuilt (set (dkeys pre)) m m' \<Longrightarrow>
    \<exists>m''. restore_orders (map (row_of m) (dvalues suf)) m' = Inr m'' \<and>
      rebuilt (set (dkeys (m_by_order_id m))) m m''"
proof (induction suf arbitrary: pre m')
  case Nil
  then show ?case by simp
next
  case (Cons p suf)
  obtain i lv where p: "p = (i, lv)" by (cases p)
  have lv: "dget (m_by_order_id m) i = Some lv"
    by (subst dget_in_set [OF wf_by_order_id [OF wf]]) (simp add: Cons.prems(1) p)
  have "sorted_wrt (<) (dkeys pre @ i # dkeys suf)" using wf Cons.prems(1) by (simp add: wf_matcher_def p)
  then have late: "j < i" if "j \<in> set (dkeys pre)" for j
    using that by (auto simp: sorted_wrt_append)
  obtain m1 where m1: "restore_order (row_of m lv) m' = Inr m1" "rebuilt (insert i (set (dkeys pre))) m m1"
    using rebuilt_step [OF wf ts Cons.prems(2) lv late] by blast
  have "rebuilt (set (dkeys (pre @ [p]))) m m1" using m1(2) by (simp add: p)
  then obtain m'' where "restore_orders (map (row_of m) (dvalues suf)) m1 = Inr m''"
    "rebuilt (set (dkeys (m_by_order_id m))) m m''"
    using Cons.IH [of "pre @ [p]" m1] Cons.prems(1) by auto
  with m1(1) show ?case by (simp add: p)
qed

lemma rebuilt_all:
  assumes wf: "wf_matcher m" and reb: "rebuilt (set (dkeys (m_by_order_id m))) m m'"
  shows "abs_matcher m' = abs_matcher m"
proof (rule amatcher.equality)
  let ?P = "set (dkeys (m_by_order_id m))"
  have k: "lv_order_id l \<in> ?P" if "dget (m_live m) k = Some l" for k l
    using live_key_ok(2) [OF wf that] by (rule dget_Some_key)
  have q: "abs_side s (get_book sy m') = filter (\<lambda>x. a_id x \<in> ?P) (abs_side s (get_book sy m))"
    and info: "map_option owner_of (dget (m_by_order_id m') i) =
        (if i \<in> ?P then map_option owner_of (dget (m_by_order_id m) i) else None)"
    and lives: "map_option lv_order_id (dget (m_live m') kk) =
        (case dget (m_live m) kk of
           None \<Rightarrow> None | Some l \<Rightarrow> if lv_order_id l \<in> ?P then Some (lv_order_id l) else None)"
    and c: "m_initial_cash_ticks m' = m_initial_cash_ticks m" "m_next_order_id m' = m_next_order_id m"
    for sy s i kk
    using reb unfolding rebuilt_def by blast+
  have "filter (\<lambda>x. a_id x \<in> ?P) (abs_side s (get_book sy m)) = abs_side s (get_book sy m)" for s sy
  proof (rule filter_True, rule ballI)
    fix x assume "x \<in> set (abs_side s (get_book sy m))"
    then have "a_id x \<in> live_refs (get_book sy m)"
      unfolding live_refs_side [of _ s] ids_abs_side [symmetric] by blast
    then obtain l where "dget (m_by_order_id m) (a_id x) = Some l" using live_in_by_order_id [OF wf] by blast
    then show "a_id x \<in> ?P" by (rule dget_Some_key)
  qed
  then show "am_queue (abs_matcher m') = am_queue (abs_matcher m)" by (simp add: abs_matcher_def q fun_eq_iff)
  have "map_option owner_of (dget (m_by_order_id m') i) = map_option owner_of (dget (m_by_order_id m) i)" for i
    unfolding info using dget_None_iff [of "m_by_order_id m" i] by (cases "i \<in> ?P") simp_all
  then show "am_info (abs_matcher m') = am_info (abs_matcher m)" by (simp add: abs_matcher_def fun_eq_iff)
  have "map_option lv_order_id (dget (m_live m') kk) = map_option lv_order_id (dget (m_live m) kk)" for kk
    unfolding lives using k [of kk] by (simp split: option.split)
  then show "am_live (abs_matcher m') = am_live (abs_matcher m)" by (simp add: abs_matcher_def fun_eq_iff)
qed (use reb in \<open>simp_all add: abs_matcher_def rebuilt_def\<close>)

text \<open>What the format can hold: every id, count and quantity in the range of its field.\<close>

definition storable :: "matcher \<Rightarrow> bool" where
  "storable m \<longleftrightarrow>
     fits FQ (m_next_order_id m) \<and> fits FI (int (length (m_by_order_id m))) \<and>
     (\<forall>lv \<in> set (dvalues (m_by_order_id m)). list_all2 fits ORDER_FMT (so_values (row_of m lv)))"

lemma restore_snapshot:
  assumes wf: "wf_matcher m" and ts: "time_sorted (abs_matcher m)" and st: "storable m"
  shows "\<exists>bs m'. snapshot m = Inr bs \<and> restore bs (m_initial_cash_ticks m) = Inr m' \<and>
    wf_matcher m' \<and> abs_matcher m' = abs_matcher m"
proof -
  let ?lvs = "dvalues (m_by_order_id m)"
  let ?s = "\<lparr> es_next_order_id = m_next_order_id m, es_orders = map (row_of m) ?lvs \<rparr>"
  have get: "dget (m_by_order_id m) i = Some lv" if "(i, lv) \<in> set (m_by_order_id m)" for i lv
    using that wf_by_order_id [OF wf] by (simp add: dget_in_set)
  have ids: "map so_order_id (map (row_of m) ?lvs) = dkeys (m_by_order_id m)"
    using snapshot_row_run(6) [OF wf get] by (auto simp: comp_def)
  have pos: "0 < i \<and> i < m_next_order_id m" if i: "(i, lv) \<in> set (m_by_order_id m)" for i lv
  proof -
    have "i \<in> live_refs (get_book (lv_symbol_id lv) m)"
      by (rule live_ok_live [OF by_order_id_ok [OF wf get [OF i]]])
    then obtain s where "i \<in> a_id ` set (abs_side s (get_book (lv_symbol_id lv) m))"
      unfolding live_refs_def ids_abs_side [symmetric] by blast
    with ts show ?thesis by (auto simp: time_sorted_def abs_matcher_def)
  qed
  have rows: "0 < so_order_id r \<and> so_order_id r < m_next_order_id m" if r: "r \<in> set (map (row_of m) ?lvs)" for r
  proof -
    have "so_order_id r \<in> set (dkeys (m_by_order_id m))" using imageI [OF r, of so_order_id] by (simp only: ids [symmetric] set_map)
    then obtain lv where "(so_order_id r, lv) \<in> set (m_by_order_id m)" by auto
    then show ?thesis by (rule pos)
  qed
  have "sorted_wrt (<) (map so_order_id (map (row_of m) ?lvs))"
    unfolding ids using wf by (simp add: wf_matcher_def)
  then have wfs: "wf_snapshot ?s"
    using rows st unfolding wf_snapshot_def storable_def by (simp del: set_map map_map) (simp add: set_map)
  obtain bs where bs: "snapshot_pack ?s = Inr bs" "snapshot_unpack bs = Inr ?s"
    using engine_snapshot.transported [OF wfs] by blast
  obtain m' where m': "restore_orders (map (row_of m) ?lvs) (new_matcher (m_next_order_id m) (m_initial_cash_ticks m)) = Inr m'"
    "rebuilt (set (dkeys (m_by_order_id m))) m m'"
    using restore_orders_run [OF wf ts, of "[]"] rebuilt_none [of m] by auto
  have "snapshot m = Inr bs" using snapshot_rows_run [OF wf] bs(1) by (simp add: snapshot_def)
  moreover have "restore bs (m_initial_cash_ticks m) = Inr m'" using bs(2) m'(1) by (simp add: restore_def)
  ultimately show ?thesis using rebuilt_all [OF wf m'(2)] m'(2) by (auto simp: rebuilt_def)
qed

lemma spec_apply_all_sorted: "time_sorted am \<Longrightarrow> time_sorted (fst (spec_apply_all rs am))"
  by (induction rs arbitrary: am) (auto simp: Let_def split_beta intro: time_sorted_apply)

lemma reached_matcher:
  assumes "0 < first" "apply_all rs (new_matcher first cash) = Inr (m, out)"
  shows "wf_matcher m \<and> time_sorted (abs_matcher m)"
  using apply_all_refines [OF wf_new_matcher, of rs first cash] assms
    spec_apply_all_sorted [OF time_sorted_new [OF assms(1)], of rs cash] by auto

subsection \<open>Properties\<close>

text \<open>The snapshot format loses nothing and its checks accept every valid snapshot: what
  is packed unpacks to the same next order id and the same orders.\<close>

theorem snapshot_format_roundtrip:
  assumes "wf_snapshot s"
  shows "\<exists>bs. snapshot_pack s = Inr bs \<and> length bs = 16 + 52 * length (es_orders s) \<and>
    snapshot_unpack bs = Inr s"
proof -
  obtain bs where bs: "snapshot_pack s = Inr bs" "snapshot_unpack bs = Inr s"
    using engine_snapshot.transported [OF assms] by blast
  then obtain head body where "struct_pack HEAD_FMT [es_next_order_id s, int (length (es_orders s))] = Inr head"
    "pack_orders (sort_key so_order_id (es_orders s)) = Inr body" "bs = MAGIC @ head @ body"
    by (auto simp: snapshot_pack_def Let_def split: sum.splits)
  then have "length bs = 16 + 52 * length (es_orders s)"
    using struct_pack_length pack_orders_length by fastforce
  with bs show ?thesis by blast
qed

definition demo_snapshot :: engine_snapshot where
  "demo_snapshot =
     \<lparr> es_next_order_id = 9,
       es_orders = [\<lparr> so_order_id = 3, so_client_order_id = 11, so_user_id = 41, so_symbol_id = 1,
                      so_side = 2, so_indexed = True, so_price_ticks = 100, so_remaining_qty = 3,
                      so_created_at_ns = 77 \<rparr>] \<rparr>"

theorem snapshot_format_roundtrip_witness:
  "\<exists>bs. snapshot_pack demo_snapshot = Inr bs \<and> length bs = 68 \<and> snapshot_unpack bs = Inr demo_snapshot"
proof -
  have "wf_snapshot demo_snapshot"
    by (simp add: demo_snapshot_def wf_snapshot_def so_values_def ORDER_FMT_def fits_def fmt_lo_def fmt_hi_def)
  from snapshot_format_roundtrip [OF this] show ?thesis by (simp add: demo_snapshot_def)
qed

text \<open>C31. A matcher restored from a snapshot continues exactly where the other stopped:
  whatever log brought the matcher to its state, the snapshot of that state restores without
  an exception, to a matcher that answers every further log with the same records.\<close>

theorem restore_continues:
  assumes "0 < first" "apply_all history (new_matcher first cash) = Inr (m, out)" "storable m"
  shows "\<exists>bs m'. snapshot m = Inr bs \<and> restore bs (m_initial_cash_ticks m) = Inr m' \<and>
    abs_matcher m' = abs_matcher m \<and>
    map_sum id snd (apply_all log m') = map_sum id snd (apply_all log m)"
proof -
  have m: "wf_matcher m" "time_sorted (abs_matcher m)" using reached_matcher [OF assms(1,2)] by blast+
  obtain bs m' where "snapshot m = Inr bs" "restore bs (m_initial_cash_ticks m) = Inr m'"
    "wf_matcher m'" "abs_matcher m' = abs_matcher m"
    using restore_snapshot [OF m assms(3)] by blast
  with same_abs_same_outputs [OF _ m(1)] show ?thesis by blast
qed

theorem restore_continues_witness:
  "\<exists>m out. apply_all [SubmitOrder_new 5 11 41 100 3 1 2 1, SubmitOrder_new 6 12 42 99 4 1 1 1]
      (new_matcher 1 1000) = Inr (m, out) \<and>
    (\<exists>bs m'. snapshot m = Inr bs \<and> restore bs (m_initial_cash_ticks m) = Inr m' \<and>
      abs_matcher m' = abs_matcher m \<and>
      map_sum id snd (apply_all [CancelOrder_new 9 77 41 11] m') =
      map_sum id snd (apply_all [CancelOrder_new 9 77 41 11] m))"
proof -
  define hist where "hist = [SubmitOrder_new 5 11 41 100 3 1 2 1, SubmitOrder_new 6 12 42 99 4 1 1 1]"
  define m :: matcher where "m =
    \<lparr> m_initial_cash_ticks = 1000,
      m_books = [(1, \<lparr> objs = [(1, demo_order 1 SELL 100 3\<lparr>o_user_id := 41, o_created_at := 5\<rparr>),
                              (2, demo_order 2 BUY 99 4\<lparr>o_user_id := 42, o_created_at := 6\<rparr>)],
                      bids = [(99, \<lparr> lprice = 99, lorders = [2] \<rparr>)],
                      asks = [(100, \<lparr> lprice = 100, lorders = [1] \<rparr>)],
                      orders_by_id = [(1, 1), (2, 2)], arrival_sequence = [(1, 0), (2, 1)],
                      next_arrival_sequence = 2 \<rparr>)],
      m_next_order_id = 3,
      m_live = [((41, 11), new_live 1 11 41 100 3 1 2), ((42, 12), new_live 2 12 42 99 4 1 1)],
      m_by_order_id = [(1, new_live 1 11 41 100 3 1 2), (2, new_live 2 12 42 99 4 1 1)] \<rparr>"
  have "map_sum id fst (apply_all hist (new_matcher 1 1000)) = Inr m"
    unfolding hist_def m_def by code_simp
  then have run: "\<exists>out. apply_all hist (new_matcher 1 1000) = Inr (m, out)"
    by (cases "apply_all hist (new_matcher 1 1000)") auto
  have "storable m"
    by (simp add: m_def storable_def row_of_def snapshot_row_def new_live_def get_book_def deref_def live_key_def
        demo_order_def so_values_def ORDER_FMT_def fits_def fmt_lo_def fmt_hi_def)
  with run restore_continues [of 1 hist 1000 m _ "[CancelOrder_new 9 77 41 11]"] show ?thesis
    unfolding hist_def by fastforce
qed

end
