(* ===== verification/Recovery.thy ===== *)
theory Recovery
  imports Snapshot
begin

section \<open>Crash recovery: services/checkpoint.py, services/matcher/checkpointing.py and runner.py\<close>

text \<open>
  The matcher process reads the inbound stream, appends its outputs to the outbound stream and
  now and then saves a checkpoint; after a crash it restores the checkpoint, counts the
  anchors after the checkpoint's outbound position and silently replays that many inbound
  records.

  Redis is not part of the repository. What the code calls is an argument of the definitions:
  a read function from a position to the next entries, the reply of \<open>XINFO STREAM\<close>, the fields
  of a hash, the decoders of \<open>json\<close> and \<open>zlib\<close>. \<open>faithful_read\<close> and \<open>only_prefix_removed\<close> name what
  the code relies on, both documented: \<open>XREAD\<close> returns the entries after the given id in order,
  at least one if there is one; \<open>XTRIM MINID\<close> removes entries with strictly lower ids only. A
  stream id is the pair of its two halves; \<open>parse_id\<close> is the code's parser of its text.
\<close>

type_synonym sid = "int \<times> int"
type_synonym entry = "sid \<times> wire"

subsection \<open>Ids and the resume guard\<close>

definition parse_id :: "string \<Rightarrow> exn + sid" where
  "parse_id s =
     (let (ms, sq) = partition_at CHR ''-'' s
      in case parse_int ms of
           Inl e \<Rightarrow> Inl e
         | Inr a \<Rightarrow>
             (case (if sq = [] then Inr 0 else parse_int sq) of Inl e \<Rightarrow> Inl e | Inr b \<Rightarrow> Inr (a, b)))"

text \<open>The fields of the \<open>XINFO STREAM\<close> reply the code reads; \<open>None\<close> when the key does not exist.\<close>

record stream_info =
  entries_added :: int
  si_length :: int
  max_deleted_entry_id :: "string option"
  first_entry :: "string option"
  last_generated_id :: string

definition stream_bounds :: "stream_info option \<Rightarrow> bool \<times> string option \<times> string" where
  "stream_bounds info =
     (case info of
        None \<Rightarrow> (False, None, ''0-0'')
      | Some i \<Rightarrow>
          (entries_added i > si_length i \<or>
             (case max_deleted_entry_id i of None \<Rightarrow> ''0-0'' | Some s \<Rightarrow> s) \<noteq> ''0-0'',
           first_entry i, last_generated_id i))"

definition ensure_resumable :: "stream_info option \<Rightarrow> string \<Rightarrow> exn + unit" where
  "ensure_resumable info after_id =
     (let (removed, first_id, last_id) = stream_bounds info
      in if \<not> removed then Inr ()
         else let floor = (case first_id of None \<Rightarrow> last_id | Some s \<Rightarrow> s)
              in (case parse_id after_id of
                    Inl e \<Rightarrow> Inl e
                  | Inr p \<Rightarrow>
                      (case parse_id floor of
                         Inl e \<Rightarrow> Inl e
                       | Inr f \<Rightarrow> if p < f then Inl CheckpointRefused else Inr ())))"

subsection \<open>Loading a checkpoint\<close>

record checkpoint =
  cp_positions :: "(string, string) dict"
  cp_state :: bytes
  cp_config_hash :: string
  cp_written_at_ns :: int

text \<open>
  \<open>load\<close>: the hash's fields, then \<open>json.loads\<close> and \<open>zlib.decompress\<close> as arguments. Any missing
  field or failing decoder makes the checkpoint unusable, never an exception.
\<close>

definition load_checkpoint ::
  "(string \<Rightarrow> exn + (string, string) dict) \<Rightarrow> (string \<Rightarrow> exn + bytes) \<Rightarrow>
   (string, string) dict \<Rightarrow> string \<Rightarrow> checkpoint option" where
  "load_checkpoint json_loads decompress raw config_hash =
     (if raw = [] then None
      else
        (case dget raw ''config_hash'' of
           None \<Rightarrow> None
         | Some written_under \<Rightarrow>
             if written_under \<noteq> config_hash then None
             else
               (case (dget raw ''positions'', dget raw ''state'', dget raw ''written_at_ns'') of
                  (Some ps, Some st, Some written) \<Rightarrow>
                    (case (json_loads ps, decompress st, parse_int written) of
                       (Inr p, Inr s, Inr t) \<Rightarrow>
                         Some \<lparr> cp_positions = p, cp_state = s, cp_config_hash = written_under,
                                cp_written_at_ns = t \<rparr>
                     | _ \<Rightarrow> None)
                | _ \<Rightarrow> None)))"

fun guard_all ::
  "(string \<Rightarrow> stream_info option) \<Rightarrow> checkpoint option \<Rightarrow> string list \<Rightarrow> exn + unit" where
  "guard_all xinfo cp [] = Inr ()"
| "guard_all xinfo cp (stream # streams) =
     (let position = (case cp of
                        None \<Rightarrow> ''0-0''
                      | Some c \<Rightarrow> (case dget (cp_positions c) stream of None \<Rightarrow> ''0-0'' | Some p \<Rightarrow> p))
      in case ensure_resumable (xinfo stream) position of
           Inl e \<Rightarrow> Inl e
         | Inr _ \<Rightarrow> guard_all xinfo cp streams)"

definition resume_positions ::
  "(string \<Rightarrow> stream_info option) \<Rightarrow> checkpoint option \<Rightarrow> string list \<Rightarrow> exn + checkpoint option" where
  "resume_positions xinfo cp streams =
     (case guard_all xinfo cp streams of Inl e \<Rightarrow> Inl e | Inr _ \<Rightarrow> Inr cp)"

subsection \<open>Trimming\<close>

text \<open>
  The loop over the readers: \<open>hmget\<close> gives a reader's two fields. \<open>Inr None\<close> is the early
  \<open>return None\<close>, \<open>Inr (Some x)\<close> the oldest position seen.
\<close>

fun oldest_position ::
  "(string \<Rightarrow> exn + (string, string) dict) \<Rightarrow> (string \<Rightarrow> string option \<times> string option) \<Rightarrow>
   string \<Rightarrow> string \<Rightarrow> sid option \<Rightarrow> string list \<Rightarrow> exn + sid option option" where
  "oldest_position json_loads hmget stream config_hash oldest [] = Inr (Some oldest)"
| "oldest_position json_loads hmget stream config_hash oldest (reader # readers) =
     (case hmget reader of
        (Some raw, Some written_under) \<Rightarrow>
          if written_under \<noteq> config_hash then Inr None
          else
            (case json_loads raw of
               Inl e \<Rightarrow> Inl e
             | Inr positions \<Rightarrow>
                 (case dget positions stream of
                    None \<Rightarrow> Inr None
                  | Some position \<Rightarrow>
                      (case parse_id position of
                         Inl e \<Rightarrow> Inl e
                       | Inr parsed \<Rightarrow>
                           oldest_position json_loads hmget stream config_hash
                             (Some (case oldest of None \<Rightarrow> parsed | Some x \<Rightarrow> min x parsed)) readers)))
      | _ \<Rightarrow> Inr None)"

text \<open>\<open>trim\<close> returns the MINID it passes to \<open>XTRIM\<close>.\<close>

definition trim ::
  "(string \<Rightarrow> exn + (string, string) dict) \<Rightarrow> (string \<Rightarrow> string option \<times> string option) \<Rightarrow>
   string \<Rightarrow> string list \<Rightarrow> string \<Rightarrow> exn + sid option" where
  "trim json_loads hmget stream readers config_hash =
     (case oldest_position json_loads hmget stream config_hash None readers of
        Inl e \<Rightarrow> Inl e
      | Inr None \<Rightarrow> Inr None
      | Inr (Some None) \<Rightarrow> Inr None
      | Inr (Some (Some oldest)) \<Rightarrow> if oldest = (0, 0) then Inr None else Inr (Some oldest))"

subsection \<open>Anchors, counting and replay\<close>

definition is_anchor :: "wire \<Rightarrow> bool" where
  "is_anchor r \<longleftrightarrow>
     (if is_OrderAccepted r \<or> is_OrderRejected r \<or> is_AccountCreated r \<or> is_CashCredited r \<or>
         is_ReplayConfigured r then True
      else if is_OrderCancelled r then reason r = CancelReason_USER_REQUESTED
      else False)"

fun count_batch :: "entry list \<Rightarrow> int \<Rightarrow> sid \<Rightarrow> int \<times> sid" where
  "count_batch [] anchors last_id = (anchors, last_id)"
| "count_batch ((i, r) # batch) anchors last_id =
     count_batch batch (anchors + (if is_anchor r then 1 else 0)) i"

text \<open>\<open>while True\<close>: whether it returns depends on the reader, so the result is an option.\<close>

partial_function (option) count_anchors ::
  "(sid \<Rightarrow> entry list) \<Rightarrow> int \<Rightarrow> sid \<Rightarrow> (int \<times> sid) option" where
  "count_anchors read anchors last_id =
     (let batch = read last_id
      in if batch = [] then Some (anchors, last_id)
         else (let (anchors', last_id') = count_batch batch anchors last_id
               in count_anchors read anchors' last_id'))"

definition count_anchors_after :: "(sid \<Rightarrow> entry list) \<Rightarrow> sid \<Rightarrow> (int \<times> sid) option" where
  "count_anchors_after read after_id = count_anchors read 0 after_id"

text \<open>The inner \<open>for item in batch\<close> of \<open>recover\<close>, with its \<open>break\<close>.\<close>

fun replay_batch ::
  "int \<Rightarrow> entry list \<Rightarrow> matcher \<Rightarrow> sid \<Rightarrow> int \<Rightarrow> exn + (matcher \<times> sid \<times> int)" where
  "replay_batch answered [] m last_id replayed = Inr (m, last_id, replayed)"
| "replay_batch answered ((i, r) # batch) m last_id replayed =
     (if replayed \<ge> answered then Inr (m, last_id, replayed)
      else (case apply_record r m of
              Inl e \<Rightarrow> Inl e
            | Inr (m', _) \<Rightarrow> replay_batch answered batch m' i (replayed + 1)))"

lemma replay_batch_progress:
  "replay_batch answered batch m p n = Inr (m', p', n') \<Longrightarrow> n \<le> n' \<and> (batch \<noteq> [] \<longrightarrow> n < answered \<longrightarrow> n < n')"
proof (induction answered batch m p n arbitrary: m' rule: replay_batch.induct)
  case (2 answered i r batch m p n)
  then show ?case by (force split: if_splits sum.splits prod.splits)
qed simp

function replay_answered ::
  "(sid \<Rightarrow> entry list) \<Rightarrow> int \<Rightarrow> matcher \<Rightarrow> sid \<Rightarrow> int \<Rightarrow> exn + (matcher \<times> sid \<times> int)" where
  "replay_answered read answered m last_id replayed =
     (if replayed < answered
      then let batch = read last_id
           in if batch = [] then Inl RuntimeError
              else (case replay_batch answered batch m last_id replayed of
                      Inl e \<Rightarrow> Inl e
                    | Inr (m', last_id', replayed') \<Rightarrow>
                        replay_answered read answered m' last_id' replayed')
      else Inr (m, last_id, replayed))"
  by pat_completeness auto
termination
  by (relation "measure (\<lambda>(_, answered, _, _, replayed). nat (answered - replayed))")
     (auto dest: replay_batch_progress)

declare replay_answered.simps [simp del]

record runner =
  rn_matcher :: matcher
  rn_last_inbound :: sid
  rn_last_outbound :: sid
  rn_answered :: int

text \<open>
  \<open>recover\<close> once \<open>resume_positions\<close> has answered: the saved state and its two positions, or
  none. \<open>None\<close> as the result: the anchor count never returned.
\<close>

definition recover ::
  "(sid \<Rightarrow> entry list) \<Rightarrow> (sid \<Rightarrow> entry list) \<Rightarrow> int \<Rightarrow> (bytes \<times> sid \<times> sid) option \<Rightarrow>
   (exn + runner) option" where
  "recover read_in read_out initial_cash saved =
     (let start = (case saved of
                     None \<Rightarrow> Inr (new_matcher 1 initial_cash, (0, 0), (0, 0))
                   | Some (state, inbound, outbound) \<Rightarrow>
                       (case restore state initial_cash of
                          Inl e \<Rightarrow> Inl e | Inr m \<Rightarrow> Inr (m, inbound, outbound)))
      in case start of
           Inl e \<Rightarrow> Some (Inl e)
         | Inr (m, inbound_from, outbound_from) \<Rightarrow>
             (case count_anchors_after read_out outbound_from of
                None \<Rightarrow> None
              | Some (already_answered, last_outbound) \<Rightarrow>
                  Some (case replay_answered read_in already_answered m inbound_from 0 of
                          Inl e \<Rightarrow> Inl e
                        | Inr (m', last_id, replayed) \<Rightarrow>
                            Inr \<lparr> rn_matcher = m', rn_last_inbound = last_id,
                                  rn_last_outbound = last_outbound, rn_answered = replayed \<rparr>)))"

text \<open>\<open>step\<close>: one read-match-append cycle. \<open>xadd\<close> is the atomic \<open>XADD\<close> of the whole batch.\<close>

definition runner_step ::
  "(sid \<Rightarrow> entry list) \<Rightarrow> (wire list \<Rightarrow> exn + sid list) \<Rightarrow> runner \<Rightarrow> exn + (runner \<times> wire list)" where
  "runner_step read xadd w =
     (let batch = read (rn_last_inbound w)
      in if batch = [] then Inr (w, [])
         else (case apply_all (map snd batch) (rn_matcher w) of
                 Inl e \<Rightarrow> Inl e
               | Inr (m, outputs) \<Rightarrow>
                   (case xadd outputs of
                      Inl e \<Rightarrow> Inl e
                    | Inr ids \<Rightarrow>
                        Inr (w\<lparr>rn_matcher := m,
                               rn_last_outbound := (if ids = [] then rn_last_outbound w else last ids),
                               rn_last_inbound := fst (last batch),
                               rn_answered := rn_answered w + int (length batch)\<rparr>, outputs))))"

definition write_checkpoint :: "runner \<Rightarrow> exn + (bytes \<times> sid \<times> sid)" where
  "write_checkpoint w =
     (case snapshot (rn_matcher w) of
        Inl e \<Rightarrow> Inl e
      | Inr bs \<Rightarrow> Inr (bs, rn_last_inbound w, rn_last_outbound w))"


subsection \<open>Reading a log\<close>

definition after :: "sid \<Rightarrow> entry list \<Rightarrow> entry list" where
  "after p log = filter (\<lambda>e. p < fst e) log"

text \<open>What \<open>XADD\<close> guarantees of a stream: ids ascend, from above \<open>0-0\<close>.\<close>

definition log_ok :: "entry list \<Rightarrow> bool" where
  "log_ok log \<longleftrightarrow> sorted_wrt (<) ((0, 0) # map fst log)"

text \<open>What \<open>XREAD COUNT n\<close> guarantees of a read.\<close>

definition faithful_read :: "(sid \<Rightarrow> entry list) \<Rightarrow> entry list \<Rightarrow> bool" where
  "faithful_read rd log \<longleftrightarrow>
     (\<forall>p. \<exists>n. rd p = take n (after p log) \<and> (after p log = [] \<or> 0 < n))"

lemma faithful_after: "faithful_read (\<lambda>p. after p log) log"
  unfolding faithful_read_def
proof
  show "\<exists>n. after p log = take n (after p log) \<and> (after p log = [] \<or> 0 < n)" for p
    by (rule exI [of _ "length (after p log)"]) auto
qed

lemma sorted_after: "log_ok log \<Longrightarrow> sorted_wrt (<) (map fst (after p log))"
  by (auto simp: log_ok_def after_def sorted_wrt_map sorted_wrt_filter)

lemma after_genesis: "log_ok log \<Longrightarrow> after (0, 0) log = log"
  by (auto simp: log_ok_def after_def filter_id_conv)

lemma last_greatest:
  fixes xs :: "('i :: order \<times> 'b) list"
  assumes "sorted_wrt (<) (map fst xs)" "e \<in> set xs"
  shows "\<not> fst (last xs) < fst e"
proof -
  have xs: "xs = butlast xs @ [last xs]" using assms(2) by (cases xs rule: rev_cases) auto
  have "sorted_wrt (<) (map fst (butlast xs @ [last xs]))" using assms(1) xs by simp
  moreover have "e \<in> set (butlast xs @ [last xs])" using assms(2) xs by simp
  ultimately show ?thesis by (auto simp: sorted_wrt_append)
qed

lemma after_split:
  assumes ok: "log_ok log" and xy: "after p log = xs @ ys" and ne: "xs \<noteq> []"
  shows "after (fst (last xs)) log = ys"
proof -
  let ?q = "fst (last xs)"
  have srt: "sorted_wrt (<) (map fst (xs @ ys))" using sorted_after [OF ok, of p] by (simp only: xy)
  have lst: "last xs \<in> set xs" using ne by simp
  have pq: "p < ?q"
  proof -
    have "last xs \<in> set (after p log)" using lst by (simp add: xy)
    then show ?thesis by (simp add: after_def)
  qed
  have "after ?q log = filter (\<lambda>e. ?q < fst e) (after p log)"
    unfolding after_def filter_filter by (rule filter_cong) (use pq in auto)
  also have "\<dots> = filter (\<lambda>e. ?q < fst e) xs @ filter (\<lambda>e. ?q < fst e) ys" by (simp add: xy)
  also have "filter (\<lambda>e. ?q < fst e) xs = []"
  proof -
    have "sorted_wrt (<) (map fst xs)" using srt by (simp add: sorted_wrt_append)
    then show ?thesis using last_greatest [of xs] by (simp add: filter_empty_conv)
  qed
  also have "filter (\<lambda>e. ?q < fst e) ys = ys"
    using srt lst by (auto simp: sorted_wrt_append filter_id_conv)
  finally show ?thesis by simp
qed

text \<open>One faithful read: nothing is left, or a non-empty front of what is left.\<close>

lemma faithful_cases:
  assumes ok: "log_ok log" and rd: "faithful_read rd log"
  obtains "rd p = []" "after p log = []"
  | ys where "rd p \<noteq> []" "after p log = rd p @ ys" "after (fst (last (rd p))) log = ys"
proof (cases "after p log = []")
  case True
  then show ?thesis using rd that(1) by (metis faithful_read_def take_Nil)
next
  case False
  obtain n where n: "rd p = take n (after p log)" "0 < n"
    using rd False unfolding faithful_read_def by blast
  then have "after p log = rd p @ drop n (after p log)" "rd p \<noteq> []" using False by simp_all
  then show ?thesis using that(2) after_split [OF ok] by blast
qed

lemma count_batch_run:
  "count_batch b a l =
     (a + int (length (filter is_anchor (map snd b))), if b = [] then l else fst (last b))"
  by (induction b a l rule: count_batch.induct) (auto simp: of_nat_add)

lemma count_anchors_run:
  assumes ok: "log_ok log" and rd: "faithful_read rd log"
  shows "count_anchors rd a p =
    Some (a + int (length (filter is_anchor (map snd (after p log)))),
          if after p log = [] then p else fst (last (after p log)))"
proof (induction "length (after p log)" arbitrary: a p rule: less_induct)
  case less
  show ?case
  proof (rule faithful_cases [OF ok rd, of p])
    assume "rd p = []" "after p log = []"
    then show ?thesis by (subst count_anchors.simps) simp
  next
    fix ys assume ys: "rd p \<noteq> []" "after p log = rd p @ ys" "after (fst (last (rd p))) log = ys"
    then have "length ys < length (after p log)" by simp
    note ih = less [of "fst (last (rd p))", unfolded ys(3), OF this]
    show ?thesis
      by (subst count_anchors.simps) (simp add: count_batch_run ih ys(1,2) Let_def)
  qed
qed

subsection \<open>Replaying the answered records\<close>

lemma apply_all_append:
  "apply_all (xs @ ys) m =
     (case apply_all xs m of
        Inl e \<Rightarrow> Inl e
      | Inr (m1, out) \<Rightarrow> (case apply_all ys m1 of Inl e \<Rightarrow> Inl e | Inr (m2, out') \<Rightarrow> Inr (m2, out @ out')))"
  by (induction xs arbitrary: m) (auto split: sum.splits prod.splits)

lemma spec_apply_all_append:
  "spec_apply_all (xs @ ys) am =
     (let (am1, out) = spec_apply_all xs am; (am2, out') = spec_apply_all ys am1 in (am2, out @ out'))"
  by (induction xs arbitrary: am) (auto simp: Let_def split_beta)

lemma replay_batch_run:
  fixes batch :: "entry list" and answered n :: int
  assumes "wf_matcher m" "n \<le> answered"
  defines "k \<equiv> min (length batch) (nat (answered - n))"
  shows "\<exists>m'. replay_batch answered batch m p n =
      Inr (m', if k = 0 then p else fst (last (take k batch)), n + int k) \<and> wf_matcher m' \<and>
    abs_matcher m' = fst (spec_apply_all (map snd (take k batch)) (abs_matcher m))"
  using assms(1,2) unfolding k_def
proof (induction batch arbitrary: m p n)
  case Nil
  then show ?case by simp
next
  case (Cons e batch)
  obtain i r where e: "e = (i, r)" by (cases e)
  show ?case
  proof (cases "answered \<le> n")
    case True
    with Cons.prems show ?thesis by (simp add: e)
  next
    case False
    obtain m1 where m1: "apply_record r m = Inr (m1, snd (spec_apply r (abs_matcher m)))" "wf_matcher m1"
      "abs_matcher m1 = fst (spec_apply r (abs_matcher m))" using apply_refines [OF Cons.prems(1)] by blast
    define k where "k = min (length batch) (nat (answered - (n + 1)))"
    have k: "min (length (e # batch)) (nat (answered - n)) = Suc k" using False by (auto simp: k_def)
    obtain m' where m': "replay_batch answered batch m1 i (n + 1) =
        Inr (m', if k = 0 then i else fst (last (take k batch)), n + 1 + int k)" "wf_matcher m'"
      "abs_matcher m' = fst (spec_apply_all (map snd (take k batch)) (abs_matcher m1))"
      using Cons.IH [OF m1(2), of "n + 1" i] False unfolding k_def by auto
    have "k \<le> length batch" by (simp add: k_def)
    then have "fst (last (take (Suc k) (e # batch))) = (if k = 0 then i else fst (last (take k batch)))"
      by (cases batch) (auto simp: e)
    then show ?thesis
      unfolding k using False m1 m' by (simp add: e split_beta Let_def)
  qed
qed

lemma take_after_read: "after p log = b @ ys \<Longrightarrow> k \<le> length b \<Longrightarrow> take k (after p log) = take k b"
  by simp

lemma replay_answered_run:
  assumes ok: "log_ok log" and rd: "faithful_read rd log"
  shows "wf_matcher m \<Longrightarrow> n \<le> answered \<Longrightarrow> nat (answered - n) \<le> length (after p log) \<Longrightarrow>
    \<exists>m'. replay_answered rd answered m p n =
        Inr (m', if answered = n then p else fst (last (take (nat (answered - n)) (after p log))), answered) \<and>
      wf_matcher m' \<and>
      abs_matcher m' = fst (spec_apply_all (map snd (take (nat (answered - n)) (after p log))) (abs_matcher m))"
proof (induction "nat (answered - n)" arbitrary: m p n rule: less_induct)
  case less
  show ?case
  proof (cases "answered = n")
    case True
    with less.prems show ?thesis by (subst replay_answered.simps) simp
  next
    case False
    then have lt: "n < answered" using less.prems(2) by simp
    let ?d = "nat (answered - n)"
    show ?thesis
    proof (rule faithful_cases [OF ok rd, of p])
      assume "after p log = []"
      then show ?thesis using less.prems(3) lt by simp
    next
      fix ys assume ys: "rd p \<noteq> []" "after p log = rd p @ ys" "after (fst (last (rd p))) log = ys"
      define d where "d = nat (answered - n)"
      define k where "k = min (length (rd p)) d"
      have k: "0 < k" "k \<le> d" "k \<le> length (rd p)" "answered = n + int d" "d \<le> length (after p log)"
        using ys(1) lt less.prems(3) by (auto simp: k_def d_def)
      define p1 where "p1 = fst (last (take k (rd p)))"
      obtain m1 where m1: "replay_batch answered (rd p) m p n = Inr (m1, p1, n + int k)"
        "wf_matcher m1" "abs_matcher m1 = fst (spec_apply_all (map snd (take k (rd p))) (abs_matcher m))"
        using replay_batch_run [OF less.prems(1,2), of "rd p" p] k(1) unfolding k_def d_def p1_def by auto
      have run: "replay_answered rd answered m p n = replay_answered rd answered m1 p1 (n + int k)"
        by (subst replay_answered.simps) (simp add: lt ys(1) m1(1) Let_def)
      have split: "after p log = take k (rd p) @ drop k (after p log)" using ys(2) k(3) by simp
      have p1: "after p1 log = drop k (after p log)"
        unfolding p1_def by (rule after_split [OF ok split]) (use k(1) ys(1) in auto)
      have d1: "nat (answered - (n + int k)) = d - k" by (simp add: k(4))
      obtain m' where m': "replay_answered rd answered m1 p1 (n + int k) =
          Inr (m', if answered = n + int k then p1 else fst (last (take (d - k) (after p1 log))), answered)"
        "wf_matcher m'"
        "abs_matcher m' = fst (spec_apply_all (map snd (take (d - k) (after p1 log))) (abs_matcher m1))"
      proof -
        have "d - k < nat (answered - n)" "n + int k \<le> answered" "d - k \<le> length (drop k (after p log))"
          using k(1,2,5) by (simp_all add: k(4))
        from less.hyps [of "n + int k" m1 p1, unfolded d1 p1, OF this(1) m1(2) this(2,3)]
        show ?thesis using that unfolding p1 by blast
      qed
      have tk: "take d (after p log) = take k (rd p) @ take (d - k) (after p1 log)"
      proof -
        have "take d (after p log) = take d (take k (rd p) @ drop k (after p log))" by (simp only: split [symmetric])
        also have "\<dots> = take k (rd p) @ take (d - k) (drop k (after p log))"
          using k(2,3) by (simp add: take_append min_def)
        finally show ?thesis by (simp only: p1)
      qed
      have abs: "abs_matcher m' = fst (spec_apply_all (map snd (take d (after p log))) (abs_matcher m))"
        unfolding tk m'(3) m1(3) by (simp add: spec_apply_all_append Let_def split_beta)
      have pos: "(if answered = n + int k then p1 else fst (last (take (d - k) (after p1 log)))) =
          fst (last (take d (after p log)))"
      proof (cases "answered = n + int k")
        case True
        then show ?thesis unfolding tk using k(4) by (simp add: p1_def)
      next
        case False
        then have "0 < d - k" "d - k \<le> length (after p1 log)" using k by (auto simp: p1)
        then have "take (d - k) (after p1 log) \<noteq> []" by auto
        with False show ?thesis unfolding tk by simp
      qed
      show ?thesis
        unfolding d_def [symmetric] using run m'(1,2) abs False by (simp only: pos) simp
    qed
  qed
qed


subsection \<open>One anchor per inbound record\<close>

definition is_command :: "wire \<Rightarrow> bool" where
  "is_command r \<longleftrightarrow> is_SubmitOrder r \<or> is_CancelOrder r \<or> is_CreateAccount r \<or> is_CreditCash r \<or>
     is_ConfigureReplay r"

abbreviation anchors :: "wire list \<Rightarrow> nat" where
  "anchors ws \<equiv> length (filter is_anchor ws)"

lemma anchors_submit: "anchors (snd (spec_submit ts coid uid px q sy sd tf am)) = 1"
proof (cases "reject_reason sd tf px q")
  case (Some why)
  then show ?thesis by (simp add: spec_submit_def OrderRejected_new_def is_anchor_def)
next
  case None
  obtain fs q' os' where sp: "spec_fill (side_of sd) px q (am_queue am sy (opp (side_of sd))) = (fs, q', os')"
    by (metis prod_cases3)
  then show ?thesis
    by (simp add: spec_submit_def None side_of_def [symmetric] Let_def OrderAccepted_new_def is_anchor_def
        Fill_new_def OrderCancelled_new_def CancelReason_USER_REQUESTED_def CancelReason_IOC_EXPIRED_def
        filter_map comp_def)
qed

lemma anchors_spec: "is_command r \<Longrightarrow> anchors (snd (spec_apply r am)) = 1"
  using anchors_submit
  by (auto simp: is_command_def spec_apply_def spec_cancel_def spec_forward_def Let_def new_defs enum_defs
      is_anchor_def split: option.split)

lemma anchors_spec_all: "\<forall>r \<in> set rs. is_command r \<Longrightarrow> anchors (snd (spec_apply_all rs am)) = length rs"
  by (induction rs arbitrary: am) (simp_all add: Let_def split_beta anchors_spec)

subsection \<open>Recovering\<close>

lemma spec_apply_cash: "am_cash (fst (spec_apply r am)) = am_cash am"
  by (simp add: spec_apply_def spec_submit_def spec_cancel_def spec_forward_def spec_forget_def Let_def split_beta
      split: option.split)

lemma spec_apply_all_cash: "am_cash (fst (spec_apply_all rs am)) = am_cash am"
  by (induction rs arbitrary: am) (simp_all add: Let_def split_beta spec_apply_cash)

lemma recover_from:
  assumes ins: "log_ok ins" "faithful_read rin ins" and outs: "log_ok outs" "faithful_read rout outs"
    and m: "wf_matcher m" and n: "n \<le> length (after i0 ins)"
    and cmds: "\<forall>r \<in> set (map snd (after i0 ins)). is_command r"
    and tail: "map snd (after o0 outs) = snd (spec_apply_all (map snd (take n (after i0 ins))) (abs_matcher m))"
    and start: "(case saved of None \<Rightarrow> m = new_matcher 1 cash \<and> i0 = (0, 0) \<and> o0 = (0, 0)
      | Some (bs, i, o') \<Rightarrow> restore bs cash = Inr m \<and> i = i0 \<and> o' = o0)"
  shows "\<exists>w. recover rin rout cash saved = Some (Inr w) \<and> wf_matcher (rn_matcher w) \<and>
    abs_matcher (rn_matcher w) = fst (spec_apply_all (map snd (take n (after i0 ins))) (abs_matcher m)) \<and>
    after (rn_last_inbound w) ins = drop n (after i0 ins) \<and> after (rn_last_outbound w) outs = [] \<and>
    rn_answered w = int n \<and>
    (rn_last_inbound w = i0 \<or> rn_last_inbound w \<in> fst ` set ins) \<and>
    (rn_last_outbound w = o0 \<or> rn_last_outbound w \<in> fst ` set outs)"
proof -
  let ?k = "anchors (map snd (after o0 outs))"
  have "\<forall>r \<in> set (map snd (take n (after i0 ins))). is_command r"
    using cmds by (auto dest: in_set_takeD)
  then have k: "?k = n" using anchors_spec_all n by (simp add: tail)
  let ?lo = "if after o0 outs = [] then o0 else fst (last (after o0 outs))"
  have count: "count_anchors_after rout o0 = Some (int n, ?lo)"
    unfolding count_anchors_after_def count_anchors_run [OF outs] k by simp
  have lo: "after ?lo outs = []"
    using after_split [OF outs(1), of o0 "after o0 outs" "[]"] by auto
  obtain m' where m': "replay_answered rin (int n) m i0 0 =
      Inr (m', if n = 0 then i0 else fst (last (take n (after i0 ins))), int n)" "wf_matcher m'"
    "abs_matcher m' = fst (spec_apply_all (map snd (take n (after i0 ins))) (abs_matcher m))"
    using replay_answered_run [OF ins m, of 0 "int n" i0] n by auto
  have li: "after (if n = 0 then i0 else fst (last (take n (after i0 ins)))) ins = drop n (after i0 ins)"
  proof (cases "n = 0")
    case False
    then have "take n (after i0 ins) \<noteq> []" using n by auto
    from after_split [OF ins(1) append_take_drop_id [symmetric] this] False show ?thesis by simp
  qed simp
  let ?w = "\<lparr> rn_matcher = m', rn_last_inbound = if n = 0 then i0 else fst (last (take n (after i0 ins))),
      rn_last_outbound = ?lo, rn_answered = int n \<rparr>"
  have "recover rin rout cash saved = Some (Inr ?w)"
    using start count m'(1) by (auto simp: recover_def Let_def split: option.splits prod.splits)
  moreover have "fst (last xs) \<in> fst ` set log" if "xs \<noteq> []" "set xs \<subseteq> set (after p log)" for xs p log
  proof -
    have "last xs \<in> set (after p log)" using last_in_set [OF that(1)] that(2) by blast
    then show ?thesis by (simp add: after_def)
  qed
  note mem = this
  have "?lo = o0 \<or> ?lo \<in> fst ` set outs"
    using mem [of "after o0 outs" o0 outs] by simp
  moreover have "rn_last_inbound ?w = i0 \<or> rn_last_inbound ?w \<in> fst ` set ins"
  proof (cases "n = 0")
    case False
    then have "take n (after i0 ins) \<noteq> []" using n by auto
    then show ?thesis using mem [of "take n (after i0 ins)" i0 ins] set_take_subset [of n "after i0 ins"] False by simp
  qed simp
  ultimately show ?thesis using m'(2,3) li lo by (intro exI [of _ ?w]) simp
qed

subsection \<open>The whole life of the process\<close>

text \<open>
  The world: both streams as they stand in Redis, the saved checkpoint, and the process. A
  command arrives; the process takes a step whose append succeeds, all of the batch or none;
  it saves a checkpoint; it crashes, at any moment, and recovers. Redis's reads are any
  functions that \<open>faithful_read\<close> allows, and its new ids any that ascend.
\<close>

record world =
  w_in :: "entry list"
  w_out :: "entry list"
  w_saved :: "(bytes \<times> sid \<times> sid) option"
  w_run :: runner

inductive world_step :: "int \<Rightarrow> world \<Rightarrow> world \<Rightarrow> bool" for cash :: int where
  arrive: "is_command r \<Longrightarrow> log_ok (w_in w @ [(i, r)]) \<Longrightarrow>
    world_step cash w (w\<lparr>w_in := w_in w @ [(i, r)]\<rparr>)"
| process: "faithful_read rd (w_in w) \<Longrightarrow>
    runner_step rd (\<lambda>_. Inr ids) (w_run w) = Inr (run', outputs) \<Longrightarrow>
    length ids = length outputs \<Longrightarrow> log_ok (w_out w @ zip ids outputs) \<Longrightarrow>
    world_step cash w (w\<lparr>w_out := w_out w @ zip ids outputs, w_run := run'\<rparr>)"
| save: "write_checkpoint (w_run w) = Inr cp \<Longrightarrow> world_step cash w (w\<lparr>w_saved := Some cp\<rparr>)"
| crash: "faithful_read rin (w_in w) \<Longrightarrow> faithful_read rout (w_out w) \<Longrightarrow>
    recover rin rout cash (w_saved w) = Some (Inr run') \<Longrightarrow> world_step cash w (w\<lparr>w_run := run'\<rparr>)"

inductive reachable :: "int \<Rightarrow> world \<Rightarrow> bool" for cash :: int where
  boot: "reachable cash \<lparr> w_in = [], w_out = [], w_saved = None,
    w_run = \<lparr> rn_matcher = new_matcher 1 cash, rn_last_inbound = (0, 0), rn_last_outbound = (0, 0),
             rn_answered = 0 \<rparr> \<rparr>"
| step: "reachable cash w \<Longrightarrow> world_step cash w w' \<Longrightarrow> reachable cash w'"

definition boot_spec :: "int \<Rightarrow> amatcher" where
  "boot_spec cash = abs_matcher (new_matcher 1 cash)"

text \<open>
  The matcher, at a pair of positions, is where the first \<open>n\<close> inbound records bring it, and
  the outbound log up to its position is their outputs.
\<close>

definition stands_at :: "int \<Rightarrow> entry list \<Rightarrow> entry list \<Rightarrow> nat \<Rightarrow> matcher \<Rightarrow> sid \<Rightarrow> sid \<Rightarrow> bool" where
  "stands_at cash ins outs n m i0 o0 \<longleftrightarrow>
     n \<le> length ins \<and> after i0 ins = drop n ins \<and> wf_matcher m \<and>
     (i0 = (0, 0) \<or> i0 \<in> fst ` set ins) \<and> (o0 = (0, 0) \<or> o0 \<in> fst ` set outs) \<and>
     abs_matcher m = fst (spec_apply_all (map snd (take n ins)) (boot_spec cash)) \<and>
     (\<exists>l. l \<le> length outs \<and> after o0 outs = drop l outs \<and>
        map snd (take l outs) = snd (spec_apply_all (map snd (take n ins)) (boot_spec cash)))"

definition saved_ok ::
  "int \<Rightarrow> entry list \<Rightarrow> entry list \<Rightarrow> nat \<Rightarrow> (bytes \<times> sid \<times> sid) option \<Rightarrow> bool" where
  "saved_ok cash ins outs n saved \<longleftrightarrow>
     (case saved of
        None \<Rightarrow> True
      | Some (bs, i0, o0) \<Rightarrow>
          \<exists>n' m. n' \<le> n \<and> restore bs cash = Inr m \<and> stands_at cash ins outs n' m i0 o0)"

definition world_inv :: "int \<Rightarrow> world \<Rightarrow> bool" where
  "world_inv cash w \<longleftrightarrow>
     log_ok (w_in w) \<and> log_ok (w_out w) \<and> (\<forall>r \<in> set (map snd (w_in w)). is_command r) \<and>
     (\<exists>n. stands_at cash (w_in w) (w_out w) n (rn_matcher (w_run w)) (rn_last_inbound (w_run w))
            (rn_last_outbound (w_run w)) \<and> after (rn_last_outbound (w_run w)) (w_out w) = [] \<and>
        saved_ok cash (w_in w) (w_out w) n (w_saved w))"

lemma after_append: "after p (xs @ ys) = after p xs @ after p ys"
  by (simp add: after_def)

lemma after_new:
  assumes "log_ok (xs @ ys)" "p = (0, 0) \<or> p \<in> fst ` set xs"
  shows "after p ys = ys"
  using assms by (auto simp: log_ok_def after_def sorted_wrt_append filter_id_conv)

lemma log_ok_prefix: "log_ok (xs @ ys) \<Longrightarrow> log_ok xs"
  by (simp add: log_ok_def sorted_wrt_append)


lemma stands_arrive:
  assumes "stands_at cash ins outs n m i0 o0" "log_ok (ins @ [e])"
  shows "stands_at cash (ins @ [e]) outs n m i0 o0"
  using assms after_new [OF assms(2), of i0] by (auto simp: stands_at_def after_append)

lemma stands_out:
  assumes "stands_at cash ins outs n m i0 o0" "log_ok (outs @ new)"
  shows "stands_at cash ins (outs @ new) n m i0 o0"
proof -
  obtain l where l: "l \<le> length outs" "after o0 outs = drop l outs"
    "map snd (take l outs) = snd (spec_apply_all (map snd (take n ins)) (boot_spec cash))"
    using assms(1) by (auto simp: stands_at_def)
  have "after o0 new = new"
    by (rule after_new [OF assms(2)]) (use assms(1) in \<open>auto simp: stands_at_def\<close>)
  with l have "after o0 (outs @ new) = drop l (outs @ new)" "take l (outs @ new) = take l outs"
    by (simp_all add: after_append)
  with l assms(1) show ?thesis by (auto simp: stands_at_def intro!: exI [of _ l])
qed

text \<open>From a position the process stood at, \<open>recover\<close> brings it to where the outbound log ends.\<close>

lemma recover_stands:
  assumes ins: "log_ok ins" "faithful_read rin ins" and outs: "log_ok outs" "faithful_read rout outs"
    and cmds: "\<forall>r \<in> set (map snd ins). is_command r"
    and at: "stands_at cash ins outs n' m i0 o0" and le: "n' \<le> n" "n \<le> length ins"
    and all: "map snd outs = snd (spec_apply_all (map snd (take n ins)) (boot_spec cash))"
    and start: "(case saved of None \<Rightarrow> m = new_matcher 1 cash \<and> i0 = (0, 0) \<and> o0 = (0, 0)
      | Some (bs, i, o') \<Rightarrow> restore bs cash = Inr m \<and> i = i0 \<and> o' = o0)"
  shows "\<exists>w. recover rin rout cash saved = Some (Inr w) \<and>
    stands_at cash ins outs n (rn_matcher w) (rn_last_inbound w) (rn_last_outbound w) \<and>
    after (rn_last_outbound w) outs = []"
proof -
  obtain l where l: "l \<le> length outs" "after o0 outs = drop l outs"
    "map snd (take l outs) = snd (spec_apply_all (map snd (take n' ins)) (boot_spec cash))"
    and a: "after i0 ins = drop n' ins" "wf_matcher m" "n' \<le> length ins"
    "abs_matcher m = fst (spec_apply_all (map snd (take n' ins)) (boot_spec cash))"
    using at by (auto simp: stands_at_def)
  have tk: "take n ins = take n' ins @ take (n - n') (drop n' ins)"
    using le(1) by (metis add_diff_inverse_nat not_less take_add)
  have "snd (spec_apply_all (map snd (take n ins)) (boot_spec cash)) =
      map snd (take l outs) @ snd (spec_apply_all (map snd (take (n - n') (drop n' ins))) (abs_matcher m))"
    unfolding tk a(4) l(3) by (simp add: spec_apply_all_append Let_def split_beta)
  then have "map snd (take l outs) @ map snd (drop l outs) =
      map snd (take l outs) @ snd (spec_apply_all (map snd (take (n - n') (drop n' ins))) (abs_matcher m))"
    using all by (metis append_take_drop_id map_append)
  then have tail: "map snd (after o0 outs) =
      snd (spec_apply_all (map snd (take (n - n') (after i0 ins))) (abs_matcher m))"
    by (simp add: l(2) a(1))
  have "\<forall>r \<in> set (map snd (after i0 ins)). is_command r" using cmds by (auto simp: after_def)
  moreover have "n - n' \<le> length (after i0 ins)" using le by (simp add: a(1))
  ultimately obtain w where w: "recover rin rout cash saved = Some (Inr w)" "wf_matcher (rn_matcher w)"
    "abs_matcher (rn_matcher w) = fst (spec_apply_all (map snd (take (n - n') (after i0 ins))) (abs_matcher m))"
    "after (rn_last_inbound w) ins = drop (n - n') (after i0 ins)" "after (rn_last_outbound w) outs = []"
    "rn_last_inbound w = i0 \<or> rn_last_inbound w \<in> fst ` set ins"
    "rn_last_outbound w = o0 \<or> rn_last_outbound w \<in> fst ` set outs"
    using recover_from [OF ins outs a(2) _ _ tail start] by blast
  have "abs_matcher (rn_matcher w) = fst (spec_apply_all (map snd (take n ins)) (boot_spec cash))"
    unfolding w(3) tk a(4) by (simp add: a(1) spec_apply_all_append Let_def split_beta)
  moreover have "after (rn_last_inbound w) ins = drop n ins" using w(4) le by (simp add: a(1))
  moreover have "(rn_last_inbound w = (0, 0) \<or> rn_last_inbound w \<in> fst ` set ins) \<and>
      (rn_last_outbound w = (0, 0) \<or> rn_last_outbound w \<in> fst ` set outs)"
    using w(6,7) at by (auto simp: stands_at_def)
  ultimately have "stands_at cash ins outs n (rn_matcher w) (rn_last_inbound w) (rn_last_outbound w)"
    using le(2) w(2,5) all by (auto simp: stands_at_def intro!: exI [of _ "length outs"])
  with w(1,5) show ?thesis by blast
qed

lemma stands_boot: "log_ok ins \<Longrightarrow> log_ok outs \<Longrightarrow> stands_at cash ins outs 0 (new_matcher 1 cash) (0, 0) (0, 0)"
  by (auto simp: stands_at_def after_genesis wf_new_matcher boot_spec_def intro!: exI [of _ 0])

lemma storable_snapshot:
  assumes wf: "wf_matcher m" and bs: "snapshot m = Inr bs"
  shows "storable m"
proof -
  let ?rows = "map (row_of m) (dvalues (m_by_order_id m))"
  obtain head body where h: "struct_pack HEAD_FMT [m_next_order_id m, int (length ?rows)] = Inr head"
    and b: "pack_orders (sort_key so_order_id ?rows) = Inr body"
    using bs by (auto simp: snapshot_def snapshot_rows_run [OF wf] snapshot_pack_def Let_def split: sum.splits)
  have "list_all2 fits ORDER_FMT (so_values r)" if "pack_orders rs = Inr x" "r \<in> set rs" for rs r x
    using that by (induction rs arbitrary: x) (auto split: sum.splits dest: struct_pack_fits)
  from this [OF b] struct_pack_fits [OF h] show ?thesis by (auto simp: storable_def HEAD_FMT_def)
qed

lemma saved_ok_mono: "saved_ok cash ins outs n saved \<Longrightarrow> n \<le> k \<Longrightarrow> saved_ok cash ins outs k saved"
  unfolding saved_ok_def by (cases saved) (auto intro: order.trans)

lemma saved_ok_arrive:
  "saved_ok cash ins outs n saved \<Longrightarrow> log_ok (ins @ [e]) \<Longrightarrow> saved_ok cash (ins @ [e]) outs n saved"
  unfolding saved_ok_def by (cases saved) (auto, blast intro: stands_arrive)

lemma saved_ok_out:
  "saved_ok cash ins outs n saved \<Longrightarrow> log_ok (outs @ new) \<Longrightarrow> saved_ok cash ins (outs @ new) n saved"
  unfolding saved_ok_def by (cases saved) (auto, blast intro: stands_out)

lemma stands_restores:
  assumes "stands_at cash ins outs n m i0 o0" "snapshot m = Inr bs"
  shows "\<exists>m'. restore bs cash = Inr m' \<and> stands_at cash ins outs n m' i0 o0"
proof -
  have m: "wf_matcher m" "abs_matcher m = fst (spec_apply_all (map snd (take n ins)) (boot_spec cash))"
    using assms(1) by (auto simp: stands_at_def)
  have "time_sorted (abs_matcher m)"
    unfolding m(2) boot_spec_def by (intro spec_apply_all_sorted time_sorted_new) simp
  moreover have "m_initial_cash_ticks m = cash"
  proof -
    have "am_cash (abs_matcher m) = cash" unfolding m(2) spec_apply_all_cash
      by (simp add: boot_spec_def abs_new_matcher)
    then show ?thesis by (simp add: abs_matcher_def)
  qed
  ultimately obtain m' where "restore bs cash = Inr m'" "wf_matcher m'" "abs_matcher m' = abs_matcher m"
    using restore_snapshot [OF m(1) _ storable_snapshot [OF m(1) assms(2)]] assms(2) by auto
  with assms(1) show ?thesis by (auto simp: stands_at_def)
qed

lemma saved_start:
  assumes inv: "world_inv cash w"
  obtains n n' m i0 o0 where
    "stands_at cash (w_in w) (w_out w) n (rn_matcher (w_run w)) (rn_last_inbound (w_run w)) (rn_last_outbound (w_run w))"
    "after (rn_last_outbound (w_run w)) (w_out w) = []" "n' \<le> n"
    "stands_at cash (w_in w) (w_out w) n' m i0 o0"
    "case w_saved w of None \<Rightarrow> m = new_matcher 1 cash \<and> i0 = (0, 0) \<and> o0 = (0, 0)
      | Some (bs, i, o') \<Rightarrow> restore bs cash = Inr m \<and> i = i0 \<and> o' = o0"
proof (cases "w_saved w")
  case None
  with inv that [of _ 0 "new_matcher 1 cash" "(0, 0)" "(0, 0)"] show ?thesis
    by (auto simp: world_inv_def stands_boot)
next
  case (Some cp)
  obtain bs i0 o0 where "cp = (bs, i0, o0)" by (cases cp)
  with Some inv show ?thesis by (auto simp: world_inv_def saved_ok_def intro: that)
qed

text \<open>When the process has caught up with its own outputs, the outbound log is all of them.\<close>

lemma stands_all:
  assumes "stands_at cash ins outs n m i0 o0" "after o0 outs = []"
  shows "map snd outs = snd (spec_apply_all (map snd (take n ins)) (boot_spec cash))" "n \<le> length ins"
  using assms by (auto simp: stands_at_def)

lemma world_recovers:
  assumes inv: "world_inv cash w" and rd: "faithful_read rin (w_in w)" "faithful_read rout (w_out w)"
  shows "\<exists>run'. recover rin rout cash (w_saved w) = Some (Inr run') \<and> world_inv cash (w\<lparr>w_run := run'\<rparr>)"
proof -
  obtain n n' m i0 o0 where s: "stands_at cash (w_in w) (w_out w) n (rn_matcher (w_run w))
      (rn_last_inbound (w_run w)) (rn_last_outbound (w_run w))"
    "after (rn_last_outbound (w_run w)) (w_out w) = []" "n' \<le> n"
    "stands_at cash (w_in w) (w_out w) n' m i0 o0"
    "case w_saved w of None \<Rightarrow> m = new_matcher 1 cash \<and> i0 = (0, 0) \<and> o0 = (0, 0)
      | Some (bs, i, o') \<Rightarrow> restore bs cash = Inr m \<and> i = i0 \<and> o' = o0"
    using saved_start [OF inv] by blast
  have ok: "log_ok (w_in w)" "log_ok (w_out w)" "\<forall>r \<in> set (map snd (w_in w)). is_command r"
    using inv by (auto simp: world_inv_def)
  obtain run' where run': "recover rin rout cash (w_saved w) = Some (Inr run')"
    "stands_at cash (w_in w) (w_out w) n (rn_matcher run') (rn_last_inbound run') (rn_last_outbound run')"
    "after (rn_last_outbound run') (w_out w) = []"
    using recover_stands [OF ok(1) rd(1) ok(2) rd(2) ok(3) s(4,3) stands_all(2,1) [OF s(1,2)] s(5)] by blast
  have "saved_ok cash (w_in w) (w_out w) n (w_saved w)"
    unfolding saved_ok_def using s(3,4,5) by (cases "w_saved w") auto
  with ok run'(2,3) have "world_inv cash (w\<lparr>w_run := run'\<rparr>)" by (auto simp: world_inv_def)
  with run'(1) show ?thesis by blast
qed


lemma world_arrives:
  assumes inv: "world_inv cash w" and c: "is_command r" and ok: "log_ok (w_in w @ [(i, r)])"
  shows "world_inv cash (w\<lparr>w_in := w_in w @ [(i, r)]\<rparr>)"
proof -
  obtain n where "stands_at cash (w_in w) (w_out w) n (rn_matcher (w_run w)) (rn_last_inbound (w_run w))
      (rn_last_outbound (w_run w))" "after (rn_last_outbound (w_run w)) (w_out w) = []"
    "saved_ok cash (w_in w) (w_out w) n (w_saved w)"
    using inv by (auto simp: world_inv_def)
  then have "stands_at cash (w_in w @ [(i, r)]) (w_out w) n (rn_matcher (w_run w)) (rn_last_inbound (w_run w))
      (rn_last_outbound (w_run w))" "after (rn_last_outbound (w_run w)) (w_out w) = []"
    "saved_ok cash (w_in w @ [(i, r)]) (w_out w) n (w_saved w)"
    using stands_arrive [OF _ ok] saved_ok_arrive [OF _ ok] by blast+
  with inv c ok show ?thesis unfolding world_inv_def by (auto intro!: exI [of _ n])
qed

lemma world_saves:
  assumes inv: "world_inv cash w" and cp: "write_checkpoint (w_run w) = Inr cp"
  shows "world_inv cash (w\<lparr>w_saved := Some cp\<rparr>)"
proof -
  obtain bs where bs: "snapshot (rn_matcher (w_run w)) = Inr bs"
    "cp = (bs, rn_last_inbound (w_run w), rn_last_outbound (w_run w))"
    using cp by (auto simp: write_checkpoint_def split: sum.splits)
  obtain n where n: "stands_at cash (w_in w) (w_out w) n (rn_matcher (w_run w)) (rn_last_inbound (w_run w))
      (rn_last_outbound (w_run w))" "after (rn_last_outbound (w_run w)) (w_out w) = []"
    using inv by (auto simp: world_inv_def)
  with stands_restores [OF n(1) bs(1)] inv show ?thesis
    by (auto simp: world_inv_def bs(2) saved_ok_def)
qed

lemma world_processes:
  assumes inv: "world_inv cash w" and rd: "faithful_read rd (w_in w)"
    and st: "runner_step rd (\<lambda>_. Inr ids) (w_run w) = Inr (run', outputs)"
    and len: "length ids = length outputs" and ok: "log_ok (w_out w @ zip ids outputs)"
  shows "world_inv cash (w\<lparr>w_out := w_out w @ zip ids outputs, w_run := run'\<rparr>)"
proof -
  let ?ins = "w_in w" and ?outs = "w_out w" and ?m = "rn_matcher (w_run w)"
  let ?i0 = "rn_last_inbound (w_run w)" and ?o0 = "rn_last_outbound (w_run w)"
  let ?new = "zip ids outputs"
  obtain n where n: "stands_at cash ?ins ?outs n ?m ?i0 ?o0" "after ?o0 ?outs = []"
    and saved: "saved_ok cash ?ins ?outs n (w_saved w)"
    using inv by (auto simp: world_inv_def)
  have wi: "log_ok ?ins" "\<forall>r \<in> set (map snd ?ins). is_command r" using inv by (auto simp: world_inv_def)
  have snd_new: "map snd ?new = outputs" using len by simp
  have "\<exists>k. n \<le> k \<and> stands_at cash ?ins (?outs @ ?new) k (rn_matcher run') (rn_last_inbound run') (rn_last_outbound run') \<and>
      after (rn_last_outbound run') (?outs @ ?new) = []"
  proof (cases "rd ?i0 = []")
    case True
    then have "run' = w_run w" "outputs = []" using st by (simp_all add: runner_step_def)
    with n len show ?thesis by auto
  next
    case False
    let ?b = "rd ?i0"
    obtain ys where ys: "after ?i0 ?ins = ?b @ ys" "after (fst (last ?b)) ?ins = ys"
      using faithful_cases [OF wi(1) rd, of ?i0] False by metis
    have at: "after ?i0 ?ins = drop n ?ins" "n \<le> length ?ins" "wf_matcher ?m"
      "abs_matcher ?m = fst (spec_apply_all (map snd (take n ?ins)) (boot_spec cash))"
      using n(1) by (auto simp: stands_at_def)
    define k where "k = n + length ?b"
    have tk: "take k ?ins = take n ?ins @ ?b" and dk: "drop k ?ins = ys" and kl: "k \<le> length ?ins"
    proof -
      have d: "drop n ?ins = ?b @ ys" using ys(1) at(1) by simp
      show "take k ?ins = take n ?ins @ ?b" unfolding k_def take_add d by simp
      show "drop k ?ins = ys" unfolding k_def by (metis add.commute append_eq_conv_conj d drop_drop)
      have "length ?ins - n = length ?b + length ys" using arg_cong [OF d, of length] by simp
      then show "k \<le> length ?ins" using at(2) by (simp add: k_def)
    qed
    obtain m' where m': "apply_all (map snd ?b) ?m = Inr (m', snd (spec_apply_all (map snd ?b) (abs_matcher ?m)))"
      "wf_matcher m'" "abs_matcher m' = fst (spec_apply_all (map snd ?b) (abs_matcher ?m))"
      using apply_all_refines [OF at(3)] by blast
    have run': "rn_matcher run' = m'" "rn_last_inbound run' = fst (last ?b)"
      "rn_last_outbound run' = (if ids = [] then ?o0 else last ids)"
      "outputs = snd (spec_apply_all (map snd ?b) (abs_matcher ?m))"
      using st False m'(1) by (auto simp: runner_step_def Let_def)
    have abs: "abs_matcher m' = fst (spec_apply_all (map snd (take k ?ins)) (boot_spec cash))"
      unfolding tk m'(3) at(4) by (simp add: spec_apply_all_append Let_def split_beta)
    have out: "map snd (?outs @ ?new) = snd (spec_apply_all (map snd (take k ?ins)) (boot_spec cash))"
    proof -
      have "map snd (?outs @ ?new) = map snd ?outs @ outputs" by (simp only: map_append snd_new)
      also have "\<dots> = snd (spec_apply_all (map snd (take k ?ins)) (boot_spec cash))"
        unfolding tk stands_all(1) [OF n] run'(4) at(4)
        by (simp add: spec_apply_all_append Let_def split_beta)
      finally show ?thesis .
    qed
    have last_out: "after (rn_last_outbound run') (?outs @ ?new) = [] \<and>
        (rn_last_outbound run' = (0, 0) \<or> rn_last_outbound run' \<in> fst ` set (?outs @ ?new))"
    proof (cases "ids = []")
      case True
      with n len show ?thesis by (auto simp: run'(3) stands_at_def)
    next
      case False
      then have ne: "?new \<noteq> []" using len by (cases ids; cases outputs) auto
      have lst: "fst (last ?new) = last ids"
        using ne len by (metis last_map map_fst_zip)
      have srt: "sorted_wrt (<) (map fst (?outs @ ?new))" using ok by (simp add: log_ok_def)
      have "last (?outs @ ?new) = last ?new" using ne by simp
      then have "after (last ids) (?outs @ ?new) = []"
        using last_greatest [OF srt] lst by (auto simp: after_def filter_empty_conv)
      moreover have "last ids \<in> fst ` set (?outs @ ?new)"
        using ne last_in_set [OF ne] lst by (metis UnCI image_eqI set_append)
      ultimately show ?thesis using False by (simp add: run'(3))
    qed
    have "fst (last ?b) \<in> fst ` set ?ins"
    proof -
      have "last ?b \<in> set (after ?i0 ?ins)" using False by (simp add: ys(1))
      then show ?thesis by (simp add: after_def)
    qed
    then have "stands_at cash ?ins (?outs @ ?new) k (rn_matcher run') (rn_last_inbound run') (rn_last_outbound run')"
      unfolding stands_at_def using kl ys(2) dk m'(2) abs out last_out
      by (auto simp: run'(1,2) intro!: exI [of _ "length (?outs @ ?new)"])
    with last_out show ?thesis by (intro exI [of _ k]) (simp add: k_def)
  qed
  then obtain k where "n \<le> k" "stands_at cash ?ins (?outs @ ?new) k (rn_matcher run') (rn_last_inbound run')
      (rn_last_outbound run')" "after (rn_last_outbound run') (?outs @ ?new) = []" by blast
  with saved_ok_out [OF saved_ok_mono [OF saved, of k] ok] wi ok show ?thesis
    by (auto simp: world_inv_def)
qed

lemma world_inv_reachable: "reachable cash w \<Longrightarrow> world_inv cash w"
proof (induction rule: reachable.induct)
  case boot
  have "log_ok []" by (simp add: log_ok_def)
  with stands_boot [of "[]" "[]" cash] show ?case
    by (auto simp: world_inv_def after_def saved_ok_def intro!: exI [of _ 0])
next
  case (step w w')
  from step.hyps(2) show ?case
  proof cases
    case arrive
    with step.IH show ?thesis by (simp add: world_arrives)
  next
    case process
    with step.IH show ?thesis by (simp add: world_processes)
  next
    case save
    with step.IH show ?thesis by (simp add: world_saves)
  next
    case crash
    with step.IH world_recovers show ?thesis by fastforce
  qed
qed


subsection \<open>The guard and trimming\<close>

text \<open>
  What \<open>XINFO STREAM\<close> reports of a stream that has had the entries \<open>full\<close>, in order, of which the
  first \<open>k\<close> have been removed; removing a front of the stream is all that \<open>XTRIM\<close> does.
\<close>

definition sid_text :: "sid \<Rightarrow> string" where
  "sid_text p = stream_id (fst p) (snd p)"

definition describes :: "stream_info \<Rightarrow> sid list \<Rightarrow> nat \<Rightarrow> bool" where
  "describes info full k \<longleftrightarrow>
     sorted_wrt (<) full \<and> (\<forall>p \<in> set full. 0 \<le> fst p \<and> 0 \<le> snd p) \<and> k \<le> length full \<and> full \<noteq> [] \<and>
     entries_added info = int (length full) \<and> si_length info = int (length full - k) \<and>
     first_entry info = (if drop k full = [] then None else Some (sid_text (hd (drop k full)))) \<and>
     last_generated_id info = sid_text (last full)"

lemma parse_id_text: "0 \<le> fst p \<Longrightarrow> 0 \<le> snd p \<Longrightarrow> parse_id (sid_text p) = Inr p"
proof -
  assume p: "0 \<le> fst p" "0 \<le> snd p"
  have "CHR ''-'' \<notin> set (str_int (fst p))"
    using p(1) str_nat_digits [of "CHR ''-''" "nat (fst p)"] by (auto simp: str_int_def is_digit_def)
  moreover have "str_int (snd p) \<noteq> []" using p(2) str_nat_nonempty by (simp add: str_int_def)
  ultimately show ?thesis
    using p by (simp add: parse_id_def sid_text_def stream_id_def partition_at_append parse_int_str_int)
qed

lemma describes_floor:
  assumes d: "describes info full k"
  defines "floor \<equiv> (case first_entry info of None \<Rightarrow> last_generated_id info | Some s \<Rightarrow> s)"
  shows "parse_id floor = Inr (if drop k full = [] then last full else hd (drop k full))"
proof -
  have m: "(if drop k full = [] then last full else hd (drop k full)) \<in> set full"
  proof (cases "drop k full = []")
    case True
    then show ?thesis using d by (simp add: describes_def)
  next
    case False
    from in_set_dropD [OF hd_in_set [OF False]] False show ?thesis by simp
  qed
  then show ?thesis
    using d parse_id_text unfolding floor_def describes_def by (auto split: if_splits)
qed

lemma ensure_described:
  assumes d: "describes info full k" and p: "parse_id pos = Inr p"
  shows "ensure_resumable (Some info) pos =
    (if k = 0 \<and> fst (stream_bounds (Some info)) = False then Inr ()
     else if fst (stream_bounds (Some info)) = False then Inr ()
     else if p < (if drop k full = [] then last full else hd (drop k full)) then Inl CheckpointRefused
     else Inr ())"
  using describes_floor [OF d] p
  by (simp add: ensure_resumable_def stream_bounds_def)

lemma describes_removed: "describes info full k \<Longrightarrow> 0 < k \<Longrightarrow> fst (stream_bounds (Some info))"
  by (auto simp: describes_def stream_bounds_def)

lemma oldest_position_min:
  "oldest_position json_loads hmget stream ch oldest readers = Inr (Some (Some m)) \<Longrightarrow>
     (\<forall>x. oldest = Some x \<longrightarrow> m \<le> x) \<and>
     (\<forall>r \<in> set readers. \<exists>raw ps pos p. hmget r = (Some raw, Some ch) \<and> json_loads raw = Inr ps \<and>
        dget ps stream = Some pos \<and> parse_id pos = Inr p \<and> m \<le> p)"
proof (induction readers arbitrary: oldest)
  case Nil
  then show ?case by simp
next
  case (Cons r readers)
  obtain raw ps pos p where r: "hmget r = (Some raw, Some ch)" "json_loads raw = Inr ps"
    "dget ps stream = Some pos" "parse_id pos = Inr p"
    and rest: "oldest_position json_loads hmget stream ch
      (Some (case oldest of None \<Rightarrow> p | Some x \<Rightarrow> min x p)) readers = Inr (Some (Some m))"
    using Cons.prems by (auto split: prod.splits option.splits sum.splits if_splits)
  have m: "m \<le> p" "\<forall>x. oldest = Some x \<longrightarrow> m \<le> x"
    using conjunct1 [OF Cons.IH [OF rest]] by (auto split: option.splits simp del: split_paired_All)
  have "\<exists>raw ps pos p. hmget r = (Some raw, Some ch) \<and> json_loads raw = Inr ps \<and>
      dget ps stream = Some pos \<and> parse_id pos = Inr p \<and> m \<le> p"
    using r m(1) by blast
  then show ?case using m(2) conjunct2 [OF Cons.IH [OF rest]] by (simp del: split_paired_Ex split_paired_All)
qed

subsection \<open>Properties\<close>

text \<open>The matcher answers every command with exactly one anchor record, whatever else it
  emits: this is what makes the number of anchors on the outbound stream the number of
  commands answered.\<close>

theorem one_anchor_per_command:
  assumes "wf_matcher m" "is_command r"
  shows "\<exists>m' out. apply_record r m = Inr (m', out) \<and> length (filter is_anchor out) = 1"
  using apply_refines [OF assms(1), of r] anchors_spec [OF assms(2)] by fastforce

theorem one_anchor_per_command_witness:
  "\<exists>m' out. apply_record (SubmitOrder_new 9 77 50 100 4 1 1 2) demo_matcher = Inr (m', out) \<and>
    length (filter is_anchor out) = 1"
  by (rule one_anchor_per_command [OF demo_matcher_wf]) (simp add: is_command_def SubmitOrder_new_def)

text \<open>C3. Exactly-once over the whole life of the process: however arrivals, batches,
  checkpoints and crashes interleave, the outbound stream is the outputs of some number of
  the first inbound commands, each answered once, in order, with no gap and no repeat.\<close>

theorem outputs_exactly_once:
  assumes "reachable cash w"
  shows "\<exists>n \<le> length (w_in w). map snd (w_out w) =
    snd (spec_apply_all (map snd (take n (w_in w))) (abs_matcher (new_matcher 1 cash)))"
proof -
  obtain n where "stands_at cash (w_in w) (w_out w) n (rn_matcher (w_run w)) (rn_last_inbound (w_run w))
      (rn_last_outbound (w_run w))" "after (rn_last_outbound (w_run w)) (w_out w) = []"
    using world_inv_reachable [OF assms] by (auto simp: world_inv_def)
  from stands_all [OF this] show ?thesis unfolding boot_spec_def by blast
qed

text \<open>C19. Recovery never fails on what the process itself left behind: in every reachable
  world, from its checkpoint or from genesis, \<open>recover\<close> returns, without an exception, and the
  process stands where its own outbound stream says, ready for the next unanswered command.\<close>

theorem recovery_resumes:
  assumes "reachable cash w" "faithful_read rin (w_in w)" "faithful_read rout (w_out w)"
  shows "\<exists>run' n. recover rin rout cash (w_saved w) = Some (Inr run') \<and> n \<le> length (w_in w) \<and>
    after (rn_last_inbound run') (w_in w) = drop n (w_in w) \<and>
    abs_matcher (rn_matcher run') =
      fst (spec_apply_all (map snd (take n (w_in w))) (abs_matcher (new_matcher 1 cash))) \<and>
    map snd (w_out w) =
      snd (spec_apply_all (map snd (take n (w_in w))) (abs_matcher (new_matcher 1 cash)))"
proof -
  obtain run' where r: "recover rin rout cash (w_saved w) = Some (Inr run')" "world_inv cash (w\<lparr>w_run := run'\<rparr>)"
    using world_recovers [OF world_inv_reachable [OF assms(1)] assms(2,3)] by blast
  then obtain n where n: "stands_at cash (w_in w) (w_out w) n (rn_matcher run') (rn_last_inbound run')
      (rn_last_outbound run')" "after (rn_last_outbound run') (w_out w) = []"
    by (auto simp: world_inv_def)
  with r(1) stands_all [OF n] show ?thesis
    unfolding boot_spec_def [symmetric] by (auto simp: stands_at_def intro!: exI [of _ n])
qed

definition demo_log :: "entry list" where
  "demo_log = [((5, 0), CreateAccount_new 9 1 41), ((5, 1), CreditCash_new 9 2 41 50)]"

definition demo_world :: world where
  "demo_world = \<lparr> w_in = demo_log, w_out = [], w_saved = None,
     w_run = \<lparr> rn_matcher = new_matcher 1 0, rn_last_inbound = (0, 0), rn_last_outbound = (0, 0),
              rn_answered = 0 \<rparr> \<rparr>"

definition demo_world' :: world where
  "demo_world' = demo_world\<lparr>
     w_out := [((7, 0), AccountCreated_new 9 1 41 0), ((7, 1), CashCredited_new 9 2 41 50)],
     w_run := \<lparr> rn_matcher = new_matcher 1 0, rn_last_inbound = (5, 1), rn_last_outbound = (7, 1),
               rn_answered = 2 \<rparr>\<rparr>"

lemma demo_reachable: "reachable 0 demo_world'"
proof -
  let ?boot = "\<lparr> w_in = [], w_out = [], w_saved = None,
    w_run = \<lparr> rn_matcher = new_matcher 1 0, rn_last_inbound = (0, 0), rn_last_outbound = (0, 0),
             rn_answered = 0 \<rparr> \<rparr> :: world"
  have c: "is_command (CreateAccount_new 9 1 41)" "is_command (CreditCash_new 9 2 41 50)"
    by (simp_all add: is_command_def new_defs)
  have "world_step 0 ?boot (?boot\<lparr>w_in := w_in ?boot @ [((5, 0), CreateAccount_new 9 1 41)]\<rparr>)"
    by (rule arrive [OF c(1)]) (simp add: log_ok_def)
  with boot have 1: "reachable 0 (?boot\<lparr>w_in := [((5, 0), CreateAccount_new 9 1 41)]\<rparr>)"
    by (auto intro: step)
  have "world_step 0 (?boot\<lparr>w_in := [((5, 0), CreateAccount_new 9 1 41)]\<rparr>) demo_world"
    using arrive [OF c(2), of "?boot\<lparr>w_in := [((5, 0), CreateAccount_new 9 1 41)]\<rparr>" "(5, 1)" 0]
    by (simp add: log_ok_def demo_world_def demo_log_def)
  with 1 have 2: "reachable 0 demo_world" by (rule step)
  note rd = faithful_after [of "w_in demo_world"]
  have st: "runner_step (\<lambda>p. after p (w_in demo_world)) (\<lambda>_. Inr [(7, 0), (7, 1)]) (w_run demo_world) =
    Inr (w_run demo_world', [AccountCreated_new 9 1 41 0, CashCredited_new 9 2 41 50])"
    by (simp add: demo_world_def demo_world'_def runner_step_def after_def demo_log_def new_defs apply_record_def
        forward_def new_header_def mk_header_def new_matcher_def)
  have "world_step 0 demo_world demo_world'"
    using process [OF rd st, of 0] by (simp add: log_ok_def demo_world'_def) (simp add: demo_world_def)
  with 2 show ?thesis by (rule step)
qed

theorem outputs_exactly_once_witness:
  "\<exists>n \<le> length (w_in demo_world'). map snd (w_out demo_world') =
    snd (spec_apply_all (map snd (take n (w_in demo_world'))) (abs_matcher (new_matcher 1 0)))"
  by (rule outputs_exactly_once [OF demo_reachable])

theorem recovery_resumes_witness:
  "\<exists>run' n. recover (\<lambda>p. after p (w_in demo_world')) (\<lambda>p. after p (w_out demo_world')) 0 (w_saved demo_world')
      = Some (Inr run') \<and> n \<le> length (w_in demo_world') \<and>
    after (rn_last_inbound run') (w_in demo_world') = drop n (w_in demo_world')"
  using recovery_resumes [OF demo_reachable faithful_after faithful_after] by blast

text \<open>The resume guard is sound: when it lets a process start after position \<open>pos\<close>, every
  record ever appended after \<open>pos\<close> is still on the stream, however much was trimmed.\<close>

theorem guard_sound:
  assumes "describes info full k" "parse_id pos = Inr p"
    and "ensure_resumable (Some info) pos = Inr ()"
  shows "filter (\<lambda>i. p < i) full = filter (\<lambda>i. p < i) (drop k full)"
proof (cases "k = 0")
  case False
  let ?f = "if drop k full = [] then last full else hd (drop k full)"
  have f: "\<not> p < ?f"
    using assms(3) describes_removed [OF assms(1)] False unfolding ensure_described [OF assms(1,2)]
    by (auto split: if_splits)
  have srt: "sorted_wrt (<) (take k full @ drop k full)" using assms(1) by (simp add: describes_def)
  have "\<not> p < i" if i: "i \<in> set (take k full)" for i
  proof -
    have "i \<le> ?f"
    proof (cases "drop k full = []")
      case True
      have "sorted_wrt (<) (map fst (map (\<lambda>x. (x, ())) full))" using assms(1) by (simp add: describes_def comp_def)
      from last_greatest [OF this, of "(i, ())"] i True show ?thesis
        using assms(1) by (auto simp: describes_def last_map dest: in_set_takeD)
    next
      case False
      from srt i hd_in_set [OF False] have "i < hd (drop k full)"
        unfolding sorted_wrt_append by blast
      with False show ?thesis by simp
    qed
    with f show ?thesis by auto
  qed
  then have "filter (\<lambda>i. p < i) (take k full) = []" by (simp add: filter_empty_conv)
  then show ?thesis by (metis append_Nil append_take_drop_id filter_append)
qed simp

definition demo_info :: stream_info where
  "demo_info = \<lparr> entries_added = 3, si_length = 2, max_deleted_entry_id = None,
     first_entry = Some ''6-0'', last_generated_id = ''7-0'' \<rparr>"

theorem guard_sound_witness:
  "filter (\<lambda>i. (6, 0) < i) [(5, 0), (6, 0), (7, 0)] = filter (\<lambda>i. (6, 0) < i) (drop 1 [(5, 0), (6, 0), (7, 0 :: int) :: sid])"
proof (rule guard_sound)
  show "describes demo_info [(5, 0), (6, 0), (7, 0)] 1"
    by (simp add: describes_def demo_info_def sid_text_def stream_id_def) code_simp
  show "parse_id ''6-0'' = Inr (6, 0)" by code_simp
  show "ensure_resumable (Some demo_info) ''6-0'' = Inr ()" by code_simp
qed

text \<open>Trimming never strands a reader: after an \<open>XTRIM\<close> at the MINID that \<open>trim\<close> computes,
  every reader's own resume point still passes the guard.\<close>

theorem trim_keeps_readers:
  assumes "trim json_loads hmget stream readers ch = Inr (Some minid)" "r \<in> set readers"
    and "describes info full k" "\<And>i. i \<in> set (take k full) \<Longrightarrow> i < minid"
    and "\<And>raw ps pos p. hmget r = (Some raw, Some ch) \<Longrightarrow> json_loads raw = Inr ps \<Longrightarrow>
      dget ps stream = Some pos \<Longrightarrow> parse_id pos = Inr p \<Longrightarrow> p \<in> set full"
  shows "\<exists>raw ps pos. hmget r = (Some raw, Some ch) \<and> json_loads raw = Inr ps \<and>
    dget ps stream = Some pos \<and> ensure_resumable (Some info) pos = Inr ()"
proof -
  have "oldest_position json_loads hmget stream ch None readers = Inr (Some (Some minid))"
    using assms(1) by (auto simp: trim_def split: sum.splits option.splits if_splits)
  from oldest_position_min [OF this] assms(2) obtain raw ps pos p where
    r: "hmget r = (Some raw, Some ch)" "json_loads raw = Inr ps" "dget ps stream = Some pos"
      "parse_id pos = Inr p" "minid \<le> p" by blast
  have "p \<in> set (take k full) \<or> p \<in> set (drop k full)"
    using assms(5) [OF r(1-4)] by (metis UnE append_take_drop_id set_append)
  then have p: "p \<in> set (drop k full)" using assms(4) [of p] r(5) by auto
  then obtain x xs where d: "drop k full = x # xs" by (cases "drop k full") auto
  have "sorted_wrt (<) (drop k full)" using assms(3) by (simp add: describes_def sorted_wrt_drop)
  with p have "\<not> p < hd (drop k full)" by (auto simp: d)
  then have "ensure_resumable (Some info) pos = Inr ()"
    unfolding ensure_described [OF assms(3) r(4)] by (simp add: d)
  with r show ?thesis by blast
qed

definition demo_positions :: "string \<Rightarrow> exn + (string, string) dict" where
  "demo_positions raw = (if raw = ''L'' then Inr [(''in'', ''6-0'')] else Inr [(''in'', ''7-0'')])"

definition demo_hmget :: "string \<Rightarrow> string option \<times> string option" where
  "demo_hmget reader = (Some (if reader = ''ledger'' then ''L'' else ''M''), Some ''cfg'')"

theorem trim_keeps_readers_witness:
  "trim demo_positions demo_hmget ''in'' [''ledger'', ''matcher''] ''cfg'' = Inr (Some (6, 0)) \<and>
    (\<exists>raw ps pos. demo_hmget ''matcher'' = (Some raw, Some ''cfg'') \<and> demo_positions raw = Inr ps \<and>
      dget ps ''in'' = Some pos \<and> ensure_resumable (Some demo_info) pos = Inr ())"
proof -
  have t: "trim demo_positions demo_hmget ''in'' [''ledger'', ''matcher''] ''cfg'' = Inr (Some (6, 0))"
    by code_simp
  have d: "describes demo_info [(5, 0), (6, 0), (7, 0)] 1"
    by (simp add: describes_def demo_info_def sid_text_def stream_id_def) code_simp
  have "parse_id ''7-0'' = Inr (7, 0)" by code_simp
  then have "\<exists>raw ps pos. demo_hmget ''matcher'' = (Some raw, Some ''cfg'') \<and> demo_positions raw = Inr ps \<and>
      dget ps ''in'' = Some pos \<and> ensure_resumable (Some demo_info) pos = Inr ()"
    by (intro trim_keeps_readers [OF t _ d]) (auto simp: demo_hmget_def demo_positions_def)
  with t show ?thesis by blast
qed

end
