(* ===== verification/Json.thy ===== *)
theory Json
  imports Prelude "HOL-Library.List_Lexorder"
begin

section \<open>The part of the standard library's json the checkpoints use\<close>

text \<open>
  Three services save their state as \<open>json.dumps(\<dots>, separators=(",", ":"))\<close> and read it back with
  \<open>json.loads\<close>. Both are functions of Python's standard library, written out here for the values
  the services store: null, booleans, integers, strings, arrays, objects. A number with a
  fraction or an exponent (a float) and characters above code 255 are outside the model;
  \<open>json_loads\<close> answers \<open>ValueError\<close> on them.

  The result is \<open>json_loads_dumps\<close>: what was dumped is what is loaded, for every value whose
  objects have distinct keys.
\<close>

datatype json =
    JNull
  | JBool bool
  | JInt int
  | JStr string
  | JList "json list"
  | JObj "(string \<times> json) list"

subsection \<open>Printing\<close>

definition hex_char :: "nat \<Rightarrow> char" where
  "hex_char n = (if n < 10 then char_of (48 + n) else char_of (87 + n))"

definition quote :: char where "quote = CHR 0x22"
definition backslash :: char where "backslash = CHR 0x5C"

text \<open>One character of a string literal under \<open>ensure_ascii\<close>.\<close>

definition escape_char :: "char \<Rightarrow> string" where
  "escape_char c =
     (let n = of_char c :: nat
      in if c = quote \<or> c = backslash then [backslash, c]
         else if n = 10 then [backslash, CHR ''n'']
         else if n = 13 then [backslash, CHR ''r'']
         else if n = 9 then [backslash, CHR ''t'']
         else if n = 12 then [backslash, CHR ''f'']
         else if n = 8 then [backslash, CHR ''b'']
         else if 32 \<le> n \<and> n \<le> 126 then [c]
         else [backslash, CHR ''u'', CHR ''0'', CHR ''0'', hex_char (n div 16), hex_char (n mod 16)])"

definition dump_str :: "string \<Rightarrow> string" where
  "dump_str s = quote # concat (map escape_char s) @ [quote]"

fun join :: "char \<Rightarrow> string list \<Rightarrow> string" where
  "join c [] = []"
| "join c [s] = s"
| "join c (s # t # ss) = s @ c # join c (t # ss)"

fun json_dumps :: "json \<Rightarrow> string" where
  "json_dumps JNull = ''null''"
| "json_dumps (JBool b) = (if b then ''true'' else ''false'')"
| "json_dumps (JInt n) = str_int n"
| "json_dumps (JStr s) = dump_str s"
| "json_dumps (JList vs) = CHR ''['' # join CHR '','' (map json_dumps vs) @ '']''"
| "json_dumps (JObj kvs) =
     CHR ''{'' # join CHR '','' (map (\<lambda>(k, v). dump_str k @ CHR '':'' # json_dumps v) kvs) @ ''}''"

subsection \<open>Parsing\<close>

definition ws :: "string \<Rightarrow> string" where
  "ws s = dropWhile (\<lambda>c. (of_char c :: nat) \<in> {32, 9, 10, 13}) s"

definition hex_value :: "char \<Rightarrow> nat option" where
  "hex_value c =
     (let n = of_char c :: nat
      in if 48 \<le> n \<and> n \<le> 57 then Some (n - 48)
         else if 97 \<le> n \<and> n \<le> 102 then Some (n - 87)
         else if 65 \<le> n \<and> n \<le> 70 then Some (n - 55)
         else None)"

definition unescape :: "char \<Rightarrow> char option" where
  "unescape c =
     (if c = quote \<or> c = backslash \<or> c = CHR ''/'' then Some c
      else if c = CHR ''n'' then Some (char_of (10 :: nat))
      else if c = CHR ''r'' then Some (char_of (13 :: nat))
      else if c = CHR ''t'' then Some (char_of (9 :: nat))
      else if c = CHR ''f'' then Some (char_of (12 :: nat))
      else if c = CHR ''b'' then Some (char_of (8 :: nat))
      else None)"

definition hex4 :: "char \<Rightarrow> char \<Rightarrow> char \<Rightarrow> char \<Rightarrow> char option" where
  "hex4 a b c d =
     (case (hex_value a, hex_value b, hex_value c, hex_value d) of
        (Some p, Some q, Some r, Some s) \<Rightarrow>
          if p = 0 \<and> q = 0 then Some (char_of (16 * r + s)) else None
      | _ \<Rightarrow> None)"

text \<open>The characters after an opening quote, up to the closing one.\<close>

fun parse_str :: "string \<Rightarrow> (string \<times> string) option" where
  "parse_str [] = None"
| "parse_str (c # s) =
     (if c = quote then Some ([], s)
      else if c = backslash then
        (case s of
           [] \<Rightarrow> None
         | e # s' \<Rightarrow>
             (case unescape e of
                Some d \<Rightarrow> map_option (\<lambda>(t, r). (d # t, r)) (parse_str s')
              | None \<Rightarrow>
                  if e = CHR ''u'' then
                    (case s' of
                       h1 # h2 # h3 # h4 # s'' \<Rightarrow>
                         (case hex4 h1 h2 h3 h4 of
                            None \<Rightarrow> None
                          | Some d \<Rightarrow> map_option (\<lambda>(t, r). (d # t, r)) (parse_str s''))
                     | _ \<Rightarrow> None)
                  else None))
      else if (of_char c :: nat) < 32 then None
      else map_option (\<lambda>(t, r). (c # t, r)) (parse_str s))"

text \<open>An integer literal: no leading zero, and no fraction or exponent behind it.\<close>

definition parse_nat :: "string \<Rightarrow> (int \<times> string) option" where
  "parse_nat t =
     (let ds = takeWhile is_digit t;
          ds' = (if ds \<noteq> [] \<and> hd ds = CHR ''0'' then [CHR ''0''] else ds);
          rest = drop (length ds') t
      in if ds' = [] \<or> (rest \<noteq> [] \<and> hd rest \<in> {CHR ''.'', CHR ''e'', CHR ''E''}) then None
         else map_option (\<lambda>n. (n, rest)) (digits_value 0 ds'))"

definition parse_num :: "string \<Rightarrow> (int \<times> string) option" where
  "parse_num s =
     (if s \<noteq> [] \<and> hd s = CHR ''-'' then map_option (\<lambda>(n, rest). (- n, rest)) (parse_nat (tl s))
      else parse_nat s)"

fun parse_val :: "nat \<Rightarrow> string \<Rightarrow> (json \<times> string) option"
and parse_elems :: "nat \<Rightarrow> string \<Rightarrow> (json list \<times> string) option"
and parse_members :: "nat \<Rightarrow> string \<Rightarrow> ((string \<times> json) list \<times> string) option" where
  "parse_val 0 s = None"
| "parse_val (Suc n) s =
     (case s of
        [] \<Rightarrow> None
      | c # r \<Rightarrow>
          if c = quote then map_option (\<lambda>(t, r'). (JStr t, r')) (parse_str r)
          else if c = CHR ''['' then
            (case ws r of
               [] \<Rightarrow> None
             | d # r' \<Rightarrow> if d = CHR '']'' then Some (JList [], r')
                         else map_option (\<lambda>(vs, r''). (JList vs, r'')) (parse_elems n (d # r')))
          else if c = CHR ''{'' then
            (case ws r of
               [] \<Rightarrow> None
             | d # r' \<Rightarrow> if d = CHR ''}'' then Some (JObj [], r')
                         else map_option (\<lambda>(kvs, r''). (JObj (dict_of kvs), r'')) (parse_members n (d # r')))
          else if take 4 s = ''null'' then Some (JNull, drop 4 s)
          else if take 4 s = ''true'' then Some (JBool True, drop 4 s)
          else if take 5 s = ''false'' then Some (JBool False, drop 5 s)
          else map_option (\<lambda>(i, r'). (JInt i, r')) (parse_num s))"
| "parse_elems 0 s = None"
| "parse_elems (Suc n) s =
     (case parse_val n s of
        None \<Rightarrow> None
      | Some (v, r) \<Rightarrow>
          (case ws r of
             [] \<Rightarrow> None
           | c # r' \<Rightarrow>
               if c = CHR '','' then map_option (\<lambda>(vs, r''). (v # vs, r'')) (parse_elems n (ws r'))
               else if c = CHR '']'' then Some ([v], r')
               else None))"
| "parse_members 0 s = None"
| "parse_members (Suc n) s =
     (case s of
        [] \<Rightarrow> None
      | q # s' \<Rightarrow>
          if q \<noteq> quote then None
          else
            (case parse_str s' of
               None \<Rightarrow> None
             | Some (k, r) \<Rightarrow>
                 (case ws r of
                    [] \<Rightarrow> None
                  | c # r' \<Rightarrow>
                      if c \<noteq> CHR '':'' then None
                      else
                        (case parse_val n (ws r') of
                           None \<Rightarrow> None
                         | Some (v, t) \<Rightarrow>
                             (case ws t of
                                [] \<Rightarrow> None
                              | d # t' \<Rightarrow>
                                  if d = CHR '','' then
                                    map_option (\<lambda>(kvs, t''). ((k, v) # kvs, t'')) (parse_members n (ws t'))
                                  else if d = CHR ''}'' then Some ([(k, v)], t')
                                  else None)))))"

text \<open>Each call consumes at least a character between two nestings, so the length is fuel enough.\<close>

definition json_loads :: "string \<Rightarrow> exn + json" where
  "json_loads s =
     (case parse_val (Suc (length s)) (ws s) of
        None \<Rightarrow> Inl ValueError
      | Some (v, r) \<Rightarrow> if ws r = [] then Inr v else Inl ValueError)"

declare parse_val.simps [simp del] parse_elems.simps [simp del] parse_members.simps [simp del]
  parse_str.simps [simp del]

subsection \<open>Strings survive\<close>

lemma hex_value_char: "n < 16 \<Longrightarrow> hex_value (hex_char n) = Some n"
  by (simp add: hex_value_def hex_char_def)

lemma hex4_escape: "hex4 CHR ''0'' CHR ''0'' (hex_char (of_char c div 16)) (hex_char (of_char c mod 16)) = Some c"
proof -
  have n: "(of_char c :: nat) < 256" using nat_of_char_less_256 [of c] by simp
  have "hex_value CHR ''0'' = Some 0" by (simp add: hex_value_def)
  moreover have "hex_value (hex_char (of_char c div 16)) = Some (of_char c div 16)"
    by (rule hex_value_char) (use n in \<open>simp add: less_mult_imp_div_less\<close>)
  moreover have "hex_value (hex_char (of_char c mod 16)) = Some (of_char c mod 16)"
    by (rule hex_value_char) simp
  ultimately show ?thesis by (simp add: hex4_def)
qed

lemma char_code_inj: "(of_char c :: nat) = n \<Longrightarrow> c = char_of n"
  by (metis char_of_char)

lemma parse_str_escape: "parse_str (escape_char c @ s) = map_option (\<lambda>(t, r). (c # t, r)) (parse_str s)"
proof -
  define n :: nat where "n = of_char c"
  have c: "c = char_of n" by (simp add: n_def)
  consider "c = quote \<or> c = backslash" | "c \<noteq> quote" "c \<noteq> backslash" "n \<in> {10, 13, 9, 12, 8}"
    | "c \<noteq> quote" "c \<noteq> backslash" "n \<notin> {10, 13, 9, 12, 8}" "32 \<le> n" "n \<le> 126"
    | "c \<noteq> quote" "c \<noteq> backslash" "n \<notin> {10, 13, 9, 12, 8}" "\<not> (32 \<le> n \<and> n \<le> 126)" by blast
  then show ?thesis
  proof cases
    case 1
    then show ?thesis
      by (auto simp: escape_char_def parse_str.simps unescape_def quote_def backslash_def)
  next
    case 2
    then show ?thesis
      by (auto simp: escape_char_def parse_str.simps unescape_def quote_def backslash_def c Let_def)
  next
    case 3
    then show ?thesis
      by (simp add: escape_char_def n_def [symmetric] parse_str.simps)
  next
    case 4
    have "unescape CHR ''u'' = None" by (simp add: unescape_def quote_def backslash_def)
    moreover have "backslash \<noteq> quote" by (simp add: quote_def backslash_def)
    ultimately show ?thesis using 4 hex4_escape [of c]
      by (auto simp: escape_char_def n_def [symmetric] parse_str.simps(2) [of backslash])
  qed
qed

lemma parse_str_escapes: "parse_str (concat (map escape_char t) @ quote # s) = Some (t, s)"
  by (induction t) (simp_all add: parse_str_escape parse_str.simps)

lemma dump_str_head: "dump_str t @ s = quote # concat (map escape_char t) @ quote # s"
  by (simp add: dump_str_def)

subsection \<open>Numbers survive\<close>

definition stops :: "string \<Rightarrow> bool" where
  "stops r \<longleftrightarrow> r = [] \<or> (\<not> is_digit (hd r) \<and> hd r \<notin> {CHR ''.'', CHR ''e'', CHR ''E''})"

lemma stops_simps [simp]: "stops []" "stops (CHR '','' # r)" "stops (CHR '']'' # r)" "stops (CHR ''}'' # r)"
  by (simp_all add: stops_def is_digit_def)

lemma hd_str_nat: "hd (str_nat n) = CHR ''0'' \<Longrightarrow> n = 0"
proof (induction n rule: str_nat.induct)
  case (1 n)
  show ?case
  proof (cases "n < 10")
    case True
    then have "hd (str_nat n) = char_of (48 + n)" by (simp add: str_nat.simps [of n] digit_char_def)
    with "1.prems" have "(of_char (char_of (48 + n) :: char) :: nat) = of_char CHR ''0''" by simp
    with True show ?thesis by (simp add: of_char_of)
  next
    case False
    then have "hd (str_nat n) = hd (str_nat (n div 10))"
      using str_nat_nonempty by (simp add: str_nat.simps [of n] hd_append)
    with "1.IH" [OF False] "1.prems" False show ?thesis by simp
  qed
qed

lemma takeWhile_digits: "stops r \<Longrightarrow> takeWhile is_digit (str_nat n @ r) = str_nat n"
  using str_nat_digits [of _ n] by (cases r) (auto simp: stops_def takeWhile_append2)

lemma parse_nat_str_nat:
  assumes "stops r"
  shows "parse_nat (str_nat k @ r) = Some (int k, r)"
proof -
  have "(if str_nat k \<noteq> [] \<and> hd (str_nat k) = CHR ''0'' then [CHR ''0''] else str_nat k) = str_nat k"
    using hd_str_nat [of k] by (auto simp: str_nat.simps [of 0] digit_char_def)
  moreover have "\<not> (r \<noteq> [] \<and> hd r \<in> {CHR ''.'', CHR ''e'', CHR ''E''})"
    using assms by (auto simp: stops_def)
  ultimately show ?thesis
    using str_nat_nonempty [of k]
    by (simp only: parse_nat_def takeWhile_digits [OF assms] Let_def) (simp add: digits_value_str_nat)
qed

lemma parse_num_str_int:
  assumes "stops r"
  shows "parse_num (str_int n @ r) = Some (n, r)"
proof -
  have "hd (str_nat k @ r) \<noteq> CHR ''-''" for k
    using str_nat_digits [of "hd (str_nat k)" k] str_nat_nonempty [of k] by (auto simp: is_digit_def hd_append)
  then show ?thesis
    using str_nat_nonempty
    by (simp add: parse_num_def str_int_def parse_nat_str_nat [OF assms])
qed

lemma str_int_head: "\<exists>c t. str_int n = c # t \<and> (is_digit c \<or> c = CHR ''-'')"
  using str_nat_digits [of _ "nat n"] str_nat_nonempty [of "nat n"]
  by (cases "str_nat (nat n)") (auto simp: str_int_def)

subsection \<open>Values survive\<close>

fun wf_json :: "json \<Rightarrow> bool" where
  "wf_json (JList vs) = (\<forall>v \<in> set vs. wf_json v)"
| "wf_json (JObj kvs) = (distinct (map fst kvs) \<and> (\<forall>p \<in> set kvs. wf_json (snd p)))"
| "wf_json v = True"

lemma dumps_head: "\<exists>c t. json_dumps v = c # t \<and> c \<notin> {CHR '' '', CHR '']'', CHR ''}''} \<and> ws (c # t @ r) = c # t @ r"
proof (cases v)
  case (JInt n)
  with str_int_head [of n] show ?thesis by (fastforce simp: ws_def is_digit_def)
qed (auto simp: ws_def dump_str_def quote_def)

lemma ws_dumps [simp]: "ws (json_dumps v @ r) = json_dumps v @ r"
  using dumps_head [of v r] by auto

lemma ws_simps [simp]: "ws (CHR '','' # r) = CHR '','' # r" "ws (CHR '']'' # r) = CHR '']'' # r"
  "ws (CHR ''}'' # r) = CHR ''}'' # r" "ws (CHR '':'' # r) = CHR '':'' # r" "ws [] = []"
  "ws (quote # r) = quote # r"
  by (simp_all add: ws_def quote_def)

lemma join_Cons: "vs \<noteq> [] \<Longrightarrow> join c (s # vs) = s @ c # join c vs"
  by (cases vs) auto

definition dump_member :: "string \<times> json \<Rightarrow> string" where
  "dump_member p = dump_str (fst p) @ CHR '':'' # json_dumps (snd p)"

lemma json_dumps_obj: "json_dumps (JObj kvs) = CHR ''{'' # join CHR '','' (map dump_member kvs) @ ''}''"
  by (auto simp: dump_member_def intro!: arg_cong [where f = "join CHR '',''"])

lemma length_dump_str: "2 \<le> length (dump_str t)"
  by (simp add: dump_str_def)

lemma parse_atom:
  assumes "stops r"
  shows "parse_val (Suc n) (str_int i @ r) = Some (JInt i, r)"
proof -
  obtain c t where c: "str_int i = c # t" "is_digit c \<or> c = CHR ''-''" using str_int_head by blast
  then have "c \<notin> {quote, CHR ''['', CHR ''{'', CHR ''n'', CHR ''t'', CHR ''f''}"
    by (auto simp: is_digit_def quote_def)
  then show ?thesis using parse_num_str_int [OF assms, of i] c(1) by (auto simp: parse_val.simps)
qed

lemma parse_dumps:
  shows "wf_json v \<Longrightarrow> stops r \<Longrightarrow> length (json_dumps v) < n \<Longrightarrow> parse_val n (json_dumps v @ r) = Some (v, r)"
    and "vs \<noteq> [] \<Longrightarrow> (\<And>v. v \<in> set vs \<Longrightarrow> wf_json v) \<Longrightarrow> length (join CHR '','' (map json_dumps vs)) + 1 < n \<Longrightarrow>
      parse_elems n (join CHR '','' (map json_dumps vs) @ CHR '']'' # r) = Some (vs, r)"
    and "kvs \<noteq> [] \<Longrightarrow> (\<And>p. p \<in> set kvs \<Longrightarrow> wf_json (snd p)) \<Longrightarrow>
      length (join CHR '','' (map dump_member kvs)) + 1 < n \<Longrightarrow>
      parse_members n (join CHR '','' (map dump_member kvs) @ CHR ''}'' # r) = Some (kvs, r)"
proof (induction n arbitrary: v vs kvs r)
  case 0
  { case 1 then show ?case by simp next case 2 then show ?case by simp next case 3 then show ?case by simp }
next
  case (Suc n)
  { case 1
    show ?case
    proof (cases v)
      case (JInt i)
      with 1 show ?thesis by (simp add: parse_atom)
    next
      case (JStr t)
      then show ?thesis by (simp add: parse_val.simps dump_str_head parse_str_escapes)
    next
      case (JList vs)
      show ?thesis
      proof (cases "vs = []")
        case False
        then obtain x xs where vs: "vs = x # xs" by (cases vs) auto
        obtain c t where c: "join CHR '','' (map json_dumps vs) = c # t" "c \<noteq> CHR '']''" "ws (c # t @ CHR '']'' # r) = c # t @ CHR '']'' # r"
          using dumps_head [of x] by (cases xs) (fastforce simp: vs)+
        have "parse_elems n (join CHR '','' (map json_dumps vs) @ CHR '']'' # r) = Some (vs, r)"
          by (rule Suc(2)) (use 1 JList False in auto)
        with c JList show ?thesis by (simp add: parse_val.simps quote_def)
      qed (simp add: JList parse_val.simps quote_def)
    next
      case (JObj kvs)
      show ?thesis
      proof (cases "kvs = []")
        case False
        then obtain t where c: "join CHR '','' (map dump_member kvs) = quote # t"
          by (cases kvs; cases "tl kvs") (auto simp: dump_member_def dump_str_def)
        have "parse_members n (join CHR '','' (map dump_member kvs) @ CHR ''}'' # r) = Some (kvs, r)"
          by (rule Suc(3)) (use 1 JObj False json_dumps_obj [of kvs] in auto)
        moreover have "dict_of kvs = kvs" using 1 JObj by (simp add: dict_of_distinct)
        ultimately show ?thesis unfolding JObj json_dumps_obj c
          by (simp add: parse_val.simps) (simp add: quote_def)
      qed (simp add: JObj parse_val.simps quote_def)
    qed (simp_all add: parse_val.simps quote_def)
  next
    case 2
    then obtain x xs where vs: "vs = x # xs" by (cases vs) auto
    show ?case
    proof (cases "xs = []")
      case True
      have "parse_val n (json_dumps x @ CHR '']'' # r) = Some (x, CHR '']'' # r)"
        by (rule Suc(1)) (use 2 vs True in auto)
      with vs True show ?thesis by (simp add: parse_elems.simps)
    next
      case False
      let ?rest = "join CHR '','' (map json_dumps xs) @ CHR '']'' # r"
      have j: "join CHR '','' (map json_dumps vs) = json_dumps x @ CHR '','' # join CHR '','' (map json_dumps xs)"
        using False by (simp add: vs join_Cons)
      have x: "parse_val n (json_dumps x @ CHR '','' # ?rest) = Some (x, CHR '','' # ?rest)"
        by (rule Suc(1)) (use 2 vs j in auto)
      have xs: "parse_elems n ?rest = Some (xs, r)" by (rule Suc(2)) (use 2 vs j False in auto)
      obtain y ys where "xs = y # ys" using False by (cases xs) auto
      then have "ws ?rest = ?rest" by (cases ys) (simp_all add: join_Cons)
      with x xs vs show ?thesis unfolding j by (simp add: parse_elems.simps)
    qed
  next
    case 3
    then obtain p xs where vs: "kvs = p # xs" by (cases kvs) auto
    have head: "parse_members (Suc n) (dump_member p @ c # t) =
      (if c = CHR '','' then map_option (\<lambda>(kvs, t''). (p # kvs, t'')) (parse_members n (ws t)) else Some ([p], t))"
      if c: "c \<in> {CHR '','', CHR ''}''}" and l: "length (dump_member p) < n" for c t
    proof -
      have "parse_val n (json_dumps (snd p) @ c # t) = Some (snd p, c # t)"
        by (rule Suc(1)) (use 3 vs c l in \<open>auto simp: dump_member_def\<close>)
      with c show ?thesis
        by (auto simp: parse_members.simps dump_member_def dump_str_head parse_str_escapes)
    qed
    show ?case
    proof (cases "xs = []")
      case True
      with head [of "CHR ''}''" r] 3 vs show ?thesis by simp
    next
      case False
      let ?rest = "join CHR '','' (map dump_member xs) @ CHR ''}'' # r"
      have j: "join CHR '','' (map dump_member kvs) = dump_member p @ CHR '','' # join CHR '','' (map dump_member xs)"
        using False by (simp add: vs join_Cons)
      have xs: "parse_members n ?rest = Some (xs, r)" by (rule Suc(3)) (use 3 vs j False in auto)
      obtain y ys where "xs = y # ys" using False by (cases xs) auto
      then have "ws ?rest = ?rest" by (cases ys) (simp_all add: join_Cons dump_member_def dump_str_head)
      with xs head [of "CHR '',''" ?rest] 3 vs show ?thesis unfolding j by simp
    qed
  }
qed

theorem json_loads_dumps: "wf_json v \<Longrightarrow> json_loads (json_dumps v) = Inr v"
  using parse_dumps(1) [of v "[]" "Suc (length (json_dumps v))"] ws_dumps [of v "[]"]
  by (simp add: json_loads_def)

subsection \<open>Reading a loaded value\<close>

text \<open>
  \<open>raw["k"]\<close>, iteration over a list, \<open>int(x)\<close>, and a field the code stores as it is and later
  uses as an integer or a string. Storing something else there, or iterating over a string or
  an object, is outside the model and raises \<open>TypeError\<close> here.
\<close>

definition jget :: "string \<Rightarrow> json \<Rightarrow> exn + json" where
  "jget k j = (case j of
                 JObj kvs \<Rightarrow> (case dget kvs k of None \<Rightarrow> Inl KeyError | Some v \<Rightarrow> Inr v)
               | _ \<Rightarrow> Inl TypeError)"

definition jlist :: "json \<Rightarrow> exn + json list" where
  "jlist j = (case j of JList vs \<Rightarrow> Inr vs | _ \<Rightarrow> Inl TypeError)"

definition int_of_json :: "json \<Rightarrow> exn + int" where
  "int_of_json j = (case j of
                      JInt n \<Rightarrow> Inr n
                    | JBool b \<Rightarrow> Inr (if b then 1 else 0)
                    | JStr s \<Rightarrow> parse_int s
                    | _ \<Rightarrow> Inl TypeError)"

definition jint :: "json \<Rightarrow> exn + int" where
  "jint j = (case j of JInt n \<Rightarrow> Inr n | _ \<Rightarrow> Inl TypeError)"

definition jstr :: "json \<Rightarrow> exn + string" where
  "jstr j = (case j of JStr s \<Rightarrow> Inr s | _ \<Rightarrow> Inl TypeError)"

text \<open>\<open>for a, b in rows\<close> and \<open>for a, b, c in rows\<close>: unpacking a row of another length raises.\<close>

definition pair_of :: "json \<Rightarrow> exn + (int \<times> int)" where
  "pair_of j = sbind (jlist j) (\<lambda>vs. case vs of
     [a, b] \<Rightarrow> sbind (int_of_json a) (\<lambda>x. sbind (int_of_json b) (\<lambda>y. Inr (x, y)))
   | _ \<Rightarrow> Inl ValueError)"

definition keyed_of :: "json \<Rightarrow> exn + ((int \<times> int) \<times> int)" where
  "keyed_of j = sbind (jlist j) (\<lambda>vs. case vs of
     [a, b, c] \<Rightarrow> sbind (int_of_json a) (\<lambda>x. sbind (int_of_json b) (\<lambda>y.
        sbind (int_of_json c) (\<lambda>z. Inr ((x, y), z))))
   | _ \<Rightarrow> Inl ValueError)"

lemma jget_obj [simp]: "jget k (JObj kvs) = (case dget kvs k of None \<Rightarrow> Inl KeyError | Some v \<Rightarrow> Inr v)"
  by (simp add: jget_def)

text \<open>A sorted list of integer tuples, as JSON.\<close>

definition jrow :: "int list \<Rightarrow> json" where
  "jrow r = JList (map JInt r)"

definition jrows :: "int list list \<Rightarrow> json" where
  "jrows rows = JList (map jrow (sort rows))"

lemma wf_jrow [simp]: "wf_json (jrow r)"
  by (auto simp: jrow_def)

lemma wf_jrows [simp]: "wf_json (jrows rows)"
  by (auto simp: jrows_def)

lemma jrow_simps [simp]:
  "jlist (jrow r) = Inr (map JInt r)" "jlist (jrows rows) = Inr (map jrow (sort rows))"
  "jlist (JList vs) = Inr vs" "int_of_json (JInt n) = Inr n" "jint (JInt n) = Inr n" "jstr (JStr s) = Inr s"
  by (simp_all add: jrow_def jrows_def jlist_def int_of_json_def jint_def jstr_def)

lemma pair_of_jrow [simp]: "pair_of (jrow [a, b]) = Inr (a, b)"
  by (simp add: pair_of_def)

lemma keyed_of_jrow [simp]: "keyed_of (jrow [a, b, c]) = Inr ((a, b), c)"
  by (simp add: keyed_of_def)

text \<open>A dictionary that goes out as sorted rows and comes back is the dictionary, reordered.\<close>

lemma each_jrows:
  assumes "\<And>p. p \<in> set d \<Longrightarrow> g (jrow (f p)) = Inr p"
  shows "\<exists>d'. each g (map jrow (sort (map f d))) = Inr d' \<and> mset d' = mset d"
proof -
  define undo where "undo r = (case g (jrow r) of Inr p \<Rightarrow> p)" for r
  have b: "undo (f p) = p" if "p \<in> set d" for p using assms [OF that] by (simp add: undo_def)
  have "each g (map jrow (sort (map f d))) = Inr (map undo (sort (map f d)))"
    by (rule each_map) (use assms in \<open>auto simp: undo_def\<close>)
  moreover have "mset (map undo (sort (map f d))) = mset (map (undo \<circ> f) d)"
    by (metis map_map mset_map mset_sort)
  moreover have "map (undo \<circ> f) d = d" using b by (simp add: map_idI)
  ultimately show ?thesis by metis
qed

lemma dict_of_jrows:
  assumes "wf_dict d" "\<And>p. p \<in> set d \<Longrightarrow> g (jrow (f p)) = Inr p"
  shows "\<exists>d'. each g (map jrow (sort (map f d))) = Inr d' \<and> wf_dict (dict_of d') \<and> dget (dict_of d') = dget d"
proof -
  obtain d' where d': "each g (map jrow (sort (map f d))) = Inr d'" "mset d' = mset d"
    using each_jrows [of d g f] assms(2) by blast
  have "wf_dict d'" "dget d' = dget d" using dget_eq_mset [OF assms(1) d'(2)] by auto
  moreover from this(1) have "dict_of d' = d'" by (simp add: dict_of_distinct wf_dict_def)
  ultimately show ?thesis using d'(1) by auto
qed

lemma pair_rows:
  "wf_dict d \<Longrightarrow> \<exists>d'. each pair_of (map jrow (sort (map (\<lambda>(k, v). [k, v]) d))) = Inr d' \<and>
    wf_dict (dict_of d') \<and> dget (dict_of d') = dget d"
  by (rule dict_of_jrows) auto

lemma keyed_rows:
  "wf_dict d \<Longrightarrow> \<exists>d'. each keyed_of (map jrow (sort (map (\<lambda>((a, b), v). [a, b, v]) d))) = Inr d' \<and>
    wf_dict (dict_of d') \<and> dget (dict_of d') = dget d"
  by (rule dict_of_jrows) auto

lemma jrows_cong: "wf_dict d \<Longrightarrow> wf_dict e \<Longrightarrow> dget d = dget e \<Longrightarrow> jrows (map f d) = jrows (map f e)"
proof -
  assume "wf_dict d" "wf_dict e" "dget d = dget e"
  then have "mset (map f d) = mset (map f e)" using mset_dict_eq [of d e] by simp
  then have "sort (map f d) = sort (map f e)" by (intro properties_for_sort) simp_all
  then show ?thesis by (simp add: jrows_def)
qed

end
