(* ===== verification/Ledger.thy ===== *)
theory Ledger
  imports Contracts Json
begin

section \<open>The ledger: services/ledger/ledger.py\<close>

text \<open>
  \<open>Ledger\<close> folds the outbound stream into cash balances, positions, open orders and the house
  fee account. The state is the record \<open>ledger\<close>, one field per attribute of the object; the
  dirty sets are sets; \<open>apply\<close> is \<open>ledger_apply\<close> with one definition per kind of record that
  has more than a line. The order objects of \<open>open_orders\<close> are mutated in place but reachable
  through that dictionary only, so they are values of it.
\<close>

subsection \<open>Fees\<close>

definition MAKER_FEE_BPS :: int where "MAKER_FEE_BPS = 2"
definition TAKER_FEE_BPS :: int where "TAKER_FEE_BPS = 10"
definition BPS_DENOMINATOR :: int where "BPS_DENOMINATOR = 10000"

lemmas fee_consts = MAKER_FEE_BPS_def TAKER_FEE_BPS_def BPS_DENOMINATOR_def

record fee_breakdown =
  fb_notional :: int
  fb_maker_fee_ticks :: int
  fb_taker_fee_ticks :: int
  fb_total_fee_ticks :: int

definition calculate_fees :: "int \<Rightarrow> int \<Rightarrow> fee_breakdown" where
  "calculate_fees price q =
     (let notional = price * q;
          maker_fee = notional * MAKER_FEE_BPS div BPS_DENOMINATOR;
          taker_fee = notional * TAKER_FEE_BPS div BPS_DENOMINATOR
      in \<lparr> fb_notional = notional, fb_maker_fee_ticks = maker_fee, fb_taker_fee_ticks = taker_fee,
           fb_total_fee_ticks = maker_fee + taker_fee \<rparr>)"

subsection \<open>State\<close>

record open_order =
  oo_order_id :: int
  oo_client_order_id :: int
  oo_user_id :: int
  oo_symbol_id :: int
  oo_side :: int
  oo_price_ticks :: int
  oo_qty :: int
  oo_remaining_qty :: int
  oo_tif :: int
  oo_created_at_ns :: int

record ledger =
  cash_balances :: "(int, int) dict"
  lg_positions :: "(int \<times> int, int) dict"
  open_orders :: "(int, open_order) dict"
  house_fee_ticks :: int
  total_deposits_ticks :: int
  last_seq :: string
  events_processed :: int
  dirty_accounts :: "int set"
  dirty_positions :: "(int \<times> int) set"
  dirty_orders :: "int set"

definition new_ledger :: ledger where
  "new_ledger =
     \<lparr> cash_balances = [], lg_positions = [], open_orders = [], house_fee_ticks = 0,
       total_deposits_ticks = 0, last_seq = ''0-0'', events_processed = 0,
       dirty_accounts = {}, dirty_positions = {}, dirty_orders = {} \<rparr>"

text \<open>\<open>take_dirty\<close>: the ledger with its sets cleared, and the sets.\<close>

definition take_dirty :: "ledger \<Rightarrow> ledger \<times> int set \<times> (int \<times> int) set \<times> int set" where
  "take_dirty l =
     (l\<lparr>dirty_accounts := {}, dirty_positions := {}, dirty_orders := {}\<rparr>,
      dirty_accounts l, dirty_positions l, dirty_orders l)"

definition ledger_reset :: "ledger \<Rightarrow> ledger" where
  "ledger_reset l =
     fst (take_dirty (l\<lparr>cash_balances := [], lg_positions := [], open_orders := [],
                        house_fee_ticks := 0, total_deposits_ticks := 0, last_seq := ''0-0'',
                        events_processed := 0\<rparr>))"

subsection \<open>Applying a record\<close>

text \<open>\<open>d[k] = d.get(k, 0) + x\<close>, and the three-line reduction of an open order.\<close>

definition add_to :: "'k \<Rightarrow> int \<Rightarrow> ('k, int) dict \<Rightarrow> ('k, int) dict" where
  "add_to k x d = dset k (dget0 d k + x) d"

definition reduce_open :: "int \<Rightarrow> int \<Rightarrow> (int, open_order) dict \<Rightarrow> (int, open_order) dict" where
  "reduce_open oid q d =
     (case dget d oid of
        None \<Rightarrow> d
      | Some ord \<Rightarrow>
          let rem = oo_remaining_qty ord - q
          in if rem \<le> 0 then dpop oid d else dset oid (ord\<lparr>oo_remaining_qty := rem\<rparr>) d)"

definition accepted_order :: "wire \<Rightarrow> open_order" where
  "accepted_order r =
     \<lparr> oo_order_id = order_id r, oo_client_order_id = client_order_id r, oo_user_id = user_id r,
       oo_symbol_id = symbol_id r, oo_side = side r, oo_price_ticks = price_ticks r,
       oo_qty = qty r, oo_remaining_qty = qty r, oo_tif = tif r,
       oo_created_at_ns = timestamp_ns (hdr r) \<rparr>"

text \<open>Buyer, seller and their cash deltas: which side aggressed decides who pays the taker fee.\<close>

definition fill_parties :: "wire \<Rightarrow> int \<times> int \<times> int \<times> int" where
  "fill_parties r =
     (let fees = calculate_fees (price_ticks r) (qty r)
      in if aggressor_side r = Side_BUY \<or> aggressor_side r = 1
         then (taker_user_id r, maker_user_id r,
               - (fb_notional fees + fb_taker_fee_ticks fees), fb_notional fees - fb_maker_fee_ticks fees)
         else (maker_user_id r, taker_user_id r,
               - (fb_notional fees + fb_maker_fee_ticks fees), fb_notional fees - fb_taker_fee_ticks fees))"

definition ledger_fill :: "wire \<Rightarrow> ledger \<Rightarrow> ledger" where
  "ledger_fill r l =
     (let fees = calculate_fees (price_ticks r) (qty r);
          (buyer_id, seller_id, buyer_cash_delta, seller_cash_delta) = fill_parties r;
          buyer_key = (buyer_id, symbol_id r);
          seller_key = (seller_id, symbol_id r)
      in l\<lparr>house_fee_ticks := house_fee_ticks l + fb_total_fee_ticks fees,
           cash_balances := add_to seller_id seller_cash_delta
                              (add_to buyer_id buyer_cash_delta (cash_balances l)),
           dirty_accounts := dirty_accounts l \<union> {buyer_id, seller_id},
           dirty_orders := dirty_orders l \<union> {maker_order_id r, taker_order_id r},
           lg_positions := add_to seller_key (- qty r) (add_to buyer_key (qty r) (lg_positions l)),
           dirty_positions := dirty_positions l \<union> {buyer_key, seller_key},
           open_orders := reduce_open (taker_order_id r) (qty r)
                            (reduce_open (maker_order_id r) (qty r) (open_orders l))\<rparr>)"

definition ledger_apply :: "wire \<Rightarrow> string option \<Rightarrow> ledger \<Rightarrow> ledger" where
  "ledger_apply r sid l0 =
     (let l1 = (case sid of None \<Rightarrow> l0 | Some s \<Rightarrow> l0\<lparr>last_seq := s\<rparr>);
          l = l1\<lparr>events_processed := events_processed l1 + 1\<rparr>
      in if is_AccountCreated r
         then l\<lparr>cash_balances := dset (user_id r) (initial_cash_ticks r) (cash_balances l),
                dirty_accounts := insert (user_id r) (dirty_accounts l),
                total_deposits_ticks := total_deposits_ticks l + initial_cash_ticks r\<rparr>
         else if is_CashCredited r
         then l\<lparr>cash_balances := add_to (user_id r) (amount_ticks r) (cash_balances l),
                dirty_accounts := insert (user_id r) (dirty_accounts l),
                total_deposits_ticks := total_deposits_ticks l + amount_ticks r\<rparr>
         else if is_OrderAccepted r
         then l\<lparr>dirty_orders := insert (order_id r) (dirty_orders l),
                open_orders := dset (order_id r) (accepted_order r) (open_orders l)\<rparr>
         else if is_OrderCancelled r
         then l\<lparr>dirty_orders := insert (order_id r) (dirty_orders l),
                open_orders := reduce_open (order_id r) (remaining_qty r) (open_orders l)\<rparr>
         else if is_Fill r then ledger_fill r l
         else l)"

text \<open>A run: records with the id of the stream entry they came from.\<close>

definition ledger_step :: "string \<times> wire \<Rightarrow> ledger \<Rightarrow> ledger" where
  "ledger_step e = ledger_apply (snd e) (Some (fst e))"

definition ledger_run :: "(string \<times> wire) list \<Rightarrow> ledger \<Rightarrow> ledger" where
  "ledger_run = fold ledger_step"

text \<open>\<open>LedgerConsumer._replay_after\<close>: batches until the stream has no more. \<open>None\<close> is a loop that never ends.\<close>

partial_function (option) ledger_replay_after ::
  "(string \<Rightarrow> (string \<times> wire) list) \<Rightarrow> string \<Rightarrow> int \<Rightarrow> ledger \<Rightarrow> (ledger \<times> int) option" where
  "ledger_replay_after read last_id replayed l =
     (let batch = read last_id
      in if batch = [] then Some (l, replayed)
         else ledger_replay_after read (fst (last batch)) (replayed + int (length batch)) (ledger_run batch l))"

subsection \<open>Reads\<close>

definition get_balance :: "ledger \<Rightarrow> int \<Rightarrow> int" where
  "get_balance l uid = dget0 (cash_balances l) uid"

definition get_position :: "ledger \<Rightarrow> int \<Rightarrow> int \<Rightarrow> int" where
  "get_position l uid sy = dget0 (lg_positions l) (uid, sy)"

definition get_user_positions :: "ledger \<Rightarrow> int \<Rightarrow> (int, int) dict" where
  "get_user_positions l uid =
     dict_of (map (\<lambda>((u, sy), q). (sy, q)) (filter (\<lambda>((u, sy), q). u = uid \<and> q \<noteq> 0) (lg_positions l)))"

definition get_open_orders :: "ledger \<Rightarrow> int \<Rightarrow> open_order list" where
  "get_open_orders l uid = filter (\<lambda>ord. oo_user_id ord = uid) (dvalues (open_orders l))"

definition total_user_cash :: "ledger \<Rightarrow> int" where
  "total_user_cash l = sum_list (dvalues (cash_balances l))"

definition total_system_cash :: "ledger \<Rightarrow> int" where
  "total_system_cash l = total_user_cash l + house_fee_ticks l"

subsection \<open>Checkpoint\<close>

text \<open>\<open>astuple\<close> of an order, and the constructor applied to a row.\<close>

definition oo_values :: "open_order \<Rightarrow> int list" where
  "oo_values ord =
     [oo_order_id ord, oo_client_order_id ord, oo_user_id ord, oo_symbol_id ord, oo_side ord,
      oo_price_ticks ord, oo_qty ord, oo_remaining_qty ord, oo_tif ord, oo_created_at_ns ord]"

definition oo_of_values :: "int list \<Rightarrow> exn + open_order" where
  "oo_of_values vs = (case vs of
     [a, b, c, d, e, f, g, h, i, j] \<Rightarrow>
       Inr \<lparr> oo_order_id = a, oo_client_order_id = b, oo_user_id = c, oo_symbol_id = d, oo_side = e,
             oo_price_ticks = f, oo_qty = g, oo_remaining_qty = h, oo_tif = i, oo_created_at_ns = j \<rparr>
   | _ \<Rightarrow> Inl TypeError)"

definition keyed_order_of :: "json \<Rightarrow> exn + (int \<times> open_order)" where
  "keyed_order_of j = sbind (jlist j) (\<lambda>fields. case fields of
     [] \<Rightarrow> Inl IndexError
   | k # _ \<Rightarrow> sbind (int_of_json k) (\<lambda>oid. sbind (each jint fields) (\<lambda>vs.
        sbind (oo_of_values vs) (\<lambda>ord. Inr (oid, ord)))))"

definition ledger_json :: "ledger \<Rightarrow> json" where
  "ledger_json l = JObj
     [(''cash'', jrows (map (\<lambda>(u, c). [u, c]) (cash_balances l))),
      (''positions'', jrows (map (\<lambda>((u, sy), q). [u, sy, q]) (lg_positions l))),
      (''open_orders'', jrows (map (\<lambda>(i, ord). oo_values ord) (open_orders l))),
      (''house_fee_ticks'', JInt (house_fee_ticks l)),
      (''total_deposits_ticks'', JInt (total_deposits_ticks l)),
      (''last_seq'', JStr (last_seq l)),
      (''events_processed'', JInt (events_processed l))]"

definition ledger_dump :: "ledger \<Rightarrow> string" where
  "ledger_dump l = json_dumps (ledger_json l)"

definition ledger_load :: "string \<Rightarrow> exn + ledger" where
  "ledger_load s =
     sbind (json_loads s) (\<lambda>raw.
     sbind (sbind (jget ''cash'' raw) jlist) (\<lambda>cash.
     sbind (each pair_of cash) (\<lambda>cs.
     sbind (sbind (jget ''positions'' raw) jlist) (\<lambda>pos.
     sbind (each keyed_of pos) (\<lambda>ps.
     sbind (sbind (jget ''open_orders'' raw) jlist) (\<lambda>ords.
     sbind (each keyed_order_of ords) (\<lambda>os.
     sbind (sbind (jget ''house_fee_ticks'' raw) jint) (\<lambda>fee.
     sbind (sbind (jget ''total_deposits_ticks'' raw) jint) (\<lambda>deposits.
     sbind (sbind (jget ''last_seq'' raw) jstr) (\<lambda>sq.
     sbind (sbind (jget ''events_processed'' raw) jint) (\<lambda>n.
       Inr (new_ledger\<lparr>cash_balances := dict_of cs, lg_positions := dict_of ps, open_orders := dict_of os,
                       house_fee_ticks := fee, total_deposits_ticks := deposits, last_seq := sq,
                       events_processed := n\<rparr>))))))))))))"

end
