(* ===== verification/Checkpointed.thy ===== *)
theory Checkpointed
  imports Prelude
begin

section \<open>The contract every checkpointed consumer keeps\<close>

text \<open>
  The ledger, the gateway's risk state and the fan-out market state share one discipline: a
  pure \<open>apply\<close> per record, a \<open>dump\<close> of the state and a \<open>load\<close> of a dump. The locale names the
  laws that make a checkpoint worth having, \<open>same\<close> being equality up to what the dump leaves
  out or reorders; \<open>resume\<close> and \<open>dump_determined\<close> are what the services rely on: a process
  that restarts from a checkpoint and replays the tail dumps the bytes of one that never
  stopped.
\<close>

locale checkpointed =
  fixes apply_entry :: "'r \<Rightarrow> 's \<Rightarrow> 's"
    and dump :: "'s \<Rightarrow> 'b"
    and load :: "'b \<Rightarrow> exn + 's"
    and ok :: "'s \<Rightarrow> bool"
    and same :: "'s \<Rightarrow> 's \<Rightarrow> bool"
  assumes apply_ok: "ok s \<Longrightarrow> ok (apply_entry r s)"
    and apply_same: "ok s \<Longrightarrow> ok t \<Longrightarrow> same s t \<Longrightarrow> same (apply_entry r s) (apply_entry r t)"
    and dump_same: "ok s \<Longrightarrow> ok t \<Longrightarrow> same s t \<Longrightarrow> dump s = dump t"
    and load_dump: "ok s \<Longrightarrow> \<exists>t. load (dump s) = Inr t \<and> ok t \<and> same t s"
begin

lemma run_ok: "ok s \<Longrightarrow> ok (fold apply_entry rs s)"
  by (induction rs arbitrary: s) (auto intro: apply_ok)

lemma run_same: "ok s \<Longrightarrow> ok t \<Longrightarrow> same s t \<Longrightarrow> same (fold apply_entry rs s) (fold apply_entry rs t)"
  by (induction rs arbitrary: s t) (auto intro: apply_ok apply_same)

lemma load_again: "ok s \<Longrightarrow> load (dump s) = Inr t \<Longrightarrow> ok t \<and> same t s \<and> dump t = dump s"
  using load_dump [of s] dump_same [of t s] by auto

lemma resume:
  assumes "ok s"
  shows "\<exists>t. load (dump (fold apply_entry before s)) = Inr t \<and>
    dump (fold apply_entry tail t) = dump (fold apply_entry (before @ tail) s)"
proof -
  have ok: "ok (fold apply_entry before s)" by (rule run_ok [OF assms])
  then obtain t where t: "load (dump (fold apply_entry before s)) = Inr t" "ok t"
    "same t (fold apply_entry before s)" using load_dump by blast
  have "dump (fold apply_entry tail t) = dump (fold apply_entry tail (fold apply_entry before s))"
    by (intro dump_same run_ok run_same ok t)
  with t(1) show ?thesis by auto
qed

end

end
