(* ===== verification/Order_Projection.thy ===== *)
theory Order_Projection
  imports Matcher_Spec
begin

section \<open>Consumers that keep the book: one contract for four projections\<close>

text \<open>
  The ledger's open orders, the gateway's open orders and the fan-out's books are each rebuilt
  from the same three outbound records. The locale \<open>order_projection\<close> states what such a
  consumer does to its rows, one law per record; \<open>follows_matcher\<close> proves once that any
  consumer with these laws holds exactly the matcher's resting orders after any run of the
  matcher. A row is \<open>(symbol, side, price, remaining)\<close> under its order id; \<open>covers\<close> says which
  symbols a consumer keeps.
\<close>

subsection \<open>What a record does to the rows\<close>

type_synonym row = "int \<times> int \<times> int \<times> int"
type_synonym rowmap = "int \<Rightarrow> row option"

definition take_from :: "int \<Rightarrow> int \<Rightarrow> rowmap \<Rightarrow> rowmap" where
  "take_from i q m =
     (case m i of
        None \<Rightarrow> m
      | Some (sy, sd, px, rem) \<Rightarrow> if rem - q \<le> 0 then m(i := None) else m(i \<mapsto> (sy, sd, px, rem - q)))"

definition moves_orders :: "(int \<Rightarrow> bool) \<Rightarrow> wire \<Rightarrow> bool" where
  "moves_orders covers r \<longleftrightarrow> (is_OrderAccepted r \<or> is_Fill r \<or> is_OrderCancelled r) \<and> covers (symbol_id r)"

definition track :: "(int \<Rightarrow> bool) \<Rightarrow> wire \<Rightarrow> rowmap \<Rightarrow> rowmap" where
  "track covers r m =
     (if \<not> moves_orders covers r then m
      else if is_OrderAccepted r then m(order_id r \<mapsto> (symbol_id r, side r, price_ticks r, qty r))
      else if is_Fill r then take_from (taker_order_id r) (qty r) (take_from (maker_order_id r) (qty r) m)
      else m(order_id r := None))"

text \<open>A cancel names what is left of the order: the consumers differ on any other.\<close>

definition exact_cancel :: "wire \<Rightarrow> rowmap \<Rightarrow> bool" where
  "exact_cancel r m \<longleftrightarrow>
     \<not> is_OrderCancelled r \<or> (case m (order_id r) of None \<Rightarrow> True | Some (_, _, _, q) \<Rightarrow> q = remaining_qty r)"

fun exact_run :: "(int \<Rightarrow> bool) \<Rightarrow> wire list \<Rightarrow> rowmap \<Rightarrow> bool" where
  "exact_run covers [] m = True"
| "exact_run covers (r # rs) m = (exact_cancel r m \<and> exact_run covers rs (track covers r m))"

lemma exact_run_append:
  "exact_run covers (rs @ ss) m \<longleftrightarrow> exact_run covers rs m \<and> exact_run covers ss (fold (track covers) rs m)"
  by (induction rs arbitrary: m) auto

lemma exact_no_cancel: "(\<And>r. r \<in> set rs \<Longrightarrow> \<not> is_OrderCancelled r) \<Longrightarrow> exact_run covers rs m"
  by (induction rs arbitrary: m) (auto simp: exact_cancel_def)

lemma take_from_other [simp]: "j \<noteq> i \<Longrightarrow> take_from i q m j = m j"
  by (auto simp: take_from_def split: option.splits)

subsection \<open>The rows the matcher stands for\<close>

definition rows_of :: "(int \<Rightarrow> bool) \<Rightarrow> amatcher \<Rightarrow> rowmap \<Rightarrow> bool" where
  "rows_of covers am m \<longleftrightarrow>
     (\<forall>i sy sd px q. m i = Some (sy, sd, px, q) \<longleftrightarrow>
        covers sy \<and> sd \<in> {Side_BUY, Side_SELL} \<and> (i, px, q) \<in> set (am_queue am sy (side_of sd)))"

text \<open>What the queues of a reachable matcher satisfy.\<close>

definition am_ok :: "amatcher \<Rightarrow> bool" where
  "am_ok am \<longleftrightarrow>
     (\<forall>sy s. distinct (map a_id (am_queue am sy s))) \<and>
     (\<forall>sy s i px q. (i, px, q) \<in> set (am_queue am sy s) \<longrightarrow> 0 < q \<and> i < am_next am \<and>
        (\<exists>w. am_info am i = Some w \<and> ow_symbol w = sy \<and> side_of (ow_side w) = s)) \<and>
     (\<forall>k i. am_live am k = Some i \<longrightarrow> (\<exists>w px q. am_info am i = Some w \<and> ow_side w \<in> {Side_BUY, Side_SELL} \<and>
        (i, px, q) \<in> set (am_queue am (ow_symbol w) (side_of (ow_side w)))))"

lemma am_ok_abs:
  assumes wf: "wf_matcher m"
  shows "am_ok (abs_matcher m)"
proof -
  have "distinct (map a_id (abs_side s (get_book sy m)))" for sy s
    using distinct_queue [OF get_book_wf [OF wf, of sy], of s]
    by (simp add: abs_side_def comp_def abs_ord_def)
  moreover have "0 < q \<and> i < m_next_order_id m \<and> (\<exists>w. map_option owner_of (dget (m_by_order_id m) i) = Some w \<and>
      ow_symbol w = sy \<and> side_of (ow_side w) = s)" if x: "(i, px, q) \<in> set (abs_side s (get_book sy m))" for sy s i px q
  proof -
    have "0 < q" using get_book_settled [OF wf, of sy] x by (auto simp: settled_side [of _ s] positive_def)
    moreover obtain lv where lv: "dget (m_by_order_id m) i = Some lv" "lv_symbol_id lv = sy" "side_of (lv_side lv) = s"
      using x unfolding abs_side_iff [OF wf] by blast
    moreover have "i < m_next_order_id m" using by_order_id_ok [OF wf lv(1)] by (simp add: live_ok_def)
    ultimately show ?thesis by (simp add: owner_of_def)
  qed
  moreover have "\<exists>w px q. map_option owner_of (dget (m_by_order_id m) i) = Some w \<and> ow_side w \<in> {Side_BUY, Side_SELL} \<and>
      (i, px, q) \<in> set (abs_side (side_of (ow_side w)) (get_book (ow_symbol w) m))"
    if k: "map_option lv_order_id (dget (m_live m) k) = Some i" for k i
  proof -
    obtain lv where "dget (m_live m) k = Some lv" "lv_order_id lv = i" using k by auto
    then have lv: "dget (m_by_order_id m) i = Some lv" using live_key_ok(2) [OF wf] by blast
    moreover have "lv_side lv \<in> {Side_BUY, Side_SELL}" using by_order_id_ok [OF wf lv] by (simp add: live_ok_def)
    moreover have "(i, lv_price_ticks lv, projr (remaining_qty_of m lv)) \<in>
        set (abs_side (side_of (lv_side lv)) (get_book (lv_symbol_id lv) m))"
      unfolding abs_side_iff [OF wf] using lv by blast
    ultimately show ?thesis by (auto simp: owner_of_def)
  qed
  ultimately show ?thesis unfolding am_ok_def abs_matcher_def by simp
qed

subsection \<open>The specification moves the rows as the records say\<close>

text \<open>The fills of one submission, folded over the rows of the opposite queue and the taker.\<close>

lemma track_fill:
  assumes "covers sy"
  shows "track covers (Fill_new ts i oid u v px q sy sd) m = take_from oid q (take_from i q m)"
  using assms by (simp add: track_def moves_orders_def Fill_new_def)

text \<open>The opposite queue's rows once the queue has become \<open>os'\<close>; unchanged if it has not.\<close>

definition requeued :: "aord list \<Rightarrow> rowmap \<Rightarrow> rowmap" where
  "requeued os' m i =
     (case map_of os' i of
        None \<Rightarrow> None
      | Some (px, r) \<Rightarrow> map_option (\<lambda>(sy, sd, _, _). (sy, sd, px, r)) (m i))"

definition in_rows :: "int \<Rightarrow> aord list \<Rightarrow> rowmap \<Rightarrow> bool" where
  "in_rows sy os m \<longleftrightarrow> (\<forall>x \<in> set os. \<exists>sd. m (a_id x) = Some (sy, sd, a_price x, a_qty x))"

lemma requeued_same:
  assumes "in_rows sy os m" "j \<in> a_id ` set os"
  shows "requeued os m j = m j"
proof -
  obtain y where y: "map_of os j = Some y" using assms(2) by (metis map_of_eq_None_iff not_None_eq)
  then have "(j, y) \<in> set os" by (rule map_of_SomeD)
  with assms(1) y show ?thesis by (cases y) (force simp: in_rows_def requeued_def)
qed

lemma requeued_cong: "m j = m' j \<Longrightarrow> requeued os m j = requeued os m' j"
  by (simp add: requeued_def split: option.split)

lemma fold_fills:
  assumes "spec_fill s p q os = (fs, q', os')" "positive os" "0 < q" "distinct (map a_id os)"
    "oid \<notin> a_id ` set os" "covers sy" "m oid = Some (sy, sd0, px0, q)" "in_rows sy os m"
  shows "fold (track covers) (map (\<lambda>x. Fill_new ts (a_id x) oid (u x) v (a_price x) (a_qty x) sy sd) fs) m =
    (\<lambda>i. if i = oid then (if q' = 0 then None else Some (sy, sd0, px0, q'))
         else if i \<in> a_id ` set os then requeued os' m i else m i)"
  using assms
proof (induction s p q os arbitrary: fs q' os' m rule: spec_fill.induct)
  case (1 s p q)
  then show ?case by (auto simp: fun_eq_iff)
next
  case (2 s p q i px mq rest)
  obtain sd1 where i: "m i = Some (sy, sd1, px, mq)" using "2.prems"(8) by (auto simp: in_rows_def)
  have ne: "i \<noteq> oid" "mq > 0" using "2.prems"(2,5) by (auto simp: positive_def)
  have rest: "positive rest" "distinct (map a_id rest)" "oid \<notin> a_id ` set rest" "i \<notin> a_id ` set rest"
    "in_rows sy rest m"
    using "2.prems"(2,4,5,8) by (auto simp: positive_def in_rows_def)
  show ?case
  proof (cases "crosses s p px")
    case False
    with "2.prems"(1,3) have r: "fs = []" "q' = q" "os' = (i, px, mq) # rest" by auto
    show ?thesis
      using "2.prems"(3,7) requeued_same [OF "2.prems"(8)] unfolding r by (intro ext) auto
  next
    case crosses: True
    show ?thesis
    proof (cases "mq \<le> q")
      case False
      with "2.prems"(1,3) crosses have r: "fs = [(i, px, q)]" "q' = 0" "os' = (i, px, mq - q) # rest" by auto
      have "fold (track covers) (map (\<lambda>x. Fill_new ts (a_id x) oid (u x) v (a_price x) (a_qty x) sy sd) fs) m =
          m(i \<mapsto> (sy, sd1, px, mq - q), oid := None)"
        using False ne "2.prems"(7) i by (simp add: r track_fill [where covers = covers and sy = sy, OF "2.prems"(6)] take_from_def)
      moreover have "requeued os' m j = (if j = i then Some (sy, sd1, px, mq - q) else requeued rest m j)" for j
        by (simp add: requeued_def r i)
      ultimately show ?thesis
        using ne requeued_same [OF rest(5)] by (intro ext) (auto simp: r(2))
    next
      case True
      obtain fs1 where sp: "spec_fill s p (q - mq) rest = (fs1, q', os')" "fs = (i, px, mq) # fs1"
        using "2.prems"(1,3) crosses True by (auto split: prod.splits)
      define m1 where "m1 = m(i := None, oid := (if q = mq then None else Some (sy, sd0, px0, q - mq)))"
      have head: "track covers (Fill_new ts i oid (u (i, px, mq)) v px mq sy sd) m = m1"
        using True ne "2.prems"(7) i
        by (auto simp: m1_def track_fill [where covers = covers and sy = sy, OF "2.prems"(6)] take_from_def)
      have m1: "m1 i = None" "m1 oid = (if q = mq then None else Some (sy, sd0, px0, q - mq))"
        "\<And>j. j \<noteq> i \<Longrightarrow> j \<noteq> oid \<Longrightarrow> m1 j = m j" using ne by (simp_all add: m1_def)
      have gone: "requeued os' m i = None"
        using spec_fill_ids(3) [OF sp(1)] rest(4) by (force simp: requeued_def dest!: map_of_SomeD split: option.split)
      show ?thesis
      proof (cases "q = mq")
        case True
        with sp spec_fill_done have r: "fs1 = []" "q' = 0" "os' = rest" by auto
        have "m1 j = m j" if "(j, y) \<in> set rest" for j y
          using that rest(3,4) m1(3) [of j] by force
        then show ?thesis
          using gone ne requeued_same [OF rest(5)] rest(4) m1 True
          by (intro ext) (auto simp: sp(2) r head)
      next
        case False
        have "in_rows sy rest m1" using rest(3-5) m1(3) by (force simp: in_rows_def)
        then have "fold (track covers) (map (\<lambda>x. Fill_new ts (a_id x) oid (u x) v (a_price x) (a_qty x) sy sd) fs1) m1 =
            (\<lambda>j. if j = oid then (if q' = 0 then None else Some (sy, sd0, px0, q'))
                 else if j \<in> a_id ` set rest then requeued os' m1 j else m1 j)"
          by (intro "2.IH" [OF _ _ _ rest(1) _ rest(2,3) "2.prems"(6)])
            (use crosses True False "2.prems"(3) m1(2) sp(1) in auto)
        moreover have "requeued os' m1 i = None" by (simp add: requeued_def m1(1) split: option.split)
        then have "requeued os' m1 j = requeued os' m j" if "j \<noteq> oid" for j
          using gone requeued_cong [of m1 j m os'] m1(3) [OF _ that] by (cases "j = i") auto
        ultimately show ?thesis
          using gone rest(3,4) ne m1(1,3) by (intro ext) (auto simp: sp(2) head)
      qed
    qed
  qed
qed

subsection \<open>One inbound record\<close>

lemma am_okD:
  assumes "am_ok am"
  shows "distinct (map a_id (am_queue am sy s))"
    "(i, px, q) \<in> set (am_queue am sy s) \<Longrightarrow> 0 < q \<and> i < am_next am \<and>
      (\<exists>w. am_info am i = Some w \<and> ow_symbol w = sy \<and> side_of (ow_side w) = s)"
    "am_live am k = Some i \<Longrightarrow> \<exists>w px q. am_info am i = Some w \<and> ow_side w \<in> {Side_BUY, Side_SELL} \<and>
      (i, px, q) \<in> set (am_queue am (ow_symbol w) (side_of (ow_side w)))"
  using assms unfolding am_ok_def by blast+

lemma queue_in_rows:
  assumes "rows_of covers am m" "covers sy"
  shows "in_rows sy (am_queue am sy s) m"
  unfolding in_rows_def
proof
  fix x assume x: "x \<in> set (am_queue am sy s)"
  obtain i px q where e: "x = (i, px, q)" by (cases x)
  have "s = side_of (if s = BUY then Side_BUY else Side_SELL)" by (cases s) (simp_all add: side_of_def enum_defs)
  with assms x e have "m i = Some (sy, if s = BUY then Side_BUY else Side_SELL, px, q)"
    unfolding rows_of_def by auto
  with e show "\<exists>sd. m (a_id x) = Some (sy, sd, a_price x, a_qty x)" by simp
qed

lemma rows_of_fresh: "am_ok am \<Longrightarrow> rows_of covers am m \<Longrightarrow> m (am_next am) = None"
  unfolding rows_of_def using am_okD(2) [of am] by (cases "m (am_next am)") fastforce+

text \<open>Where a row of the opposite side comes from.\<close>

lemma requeued_iff:
  assumes "distinct (map a_id os')" "\<And>i px q. (i, px, q) \<in> set os' \<Longrightarrow> \<exists>px' q'. m i = Some (sy, sd, px', q')"
  shows "requeued os' m i = Some (sy', sd', px, q) \<longleftrightarrow> sy' = sy \<and> sd' = sd \<and> (i, px, q) \<in> set os'"
proof (cases "map_of os' i")
  case None
  then have "i \<notin> a_id ` set os'" by (simp add: map_of_eq_None_iff)
  with None show ?thesis by (force simp: requeued_def)
next
  case (Some y)
  then have y: "(i, y) \<in> set os'" by (rule map_of_SomeD)
  then obtain px' q' where "m i = Some (sy, sd, px', q')" using assms(2) [of i "fst y" "snd y"] by auto
  moreover have "(i, px, q) \<in> set os' \<longleftrightarrow> y = (px, q)"
    using assms(1) Some by (metis map_of_eq_Some_iff option.inject)
  ultimately show ?thesis using Some by (cases y) (auto simp: requeued_def)
qed

lemma spec_fill_distinct:
  assumes "spec_fill s p q os = (fs, q', os')" "distinct (map a_id os)"
  shows "distinct (map a_id os')"
proof -
  have "map fst (map (\<lambda>x. (a_id x, a_price x)) os') =
      map fst (drop (length os - length os') (map (\<lambda>x. (a_id x, a_price x)) os))"
    using spec_fill_rest [OF assms(1)] by simp
  then have "map a_id os' = drop (length os - length os') (map a_id os)" by (simp add: comp_def drop_map)
  with assms(2) show ?thesis by simp
qed

lemma rows_of_submit:
  assumes ok: "am_ok am" and m: "rows_of covers am m" and sy: "covers sy" and sd: "sd \<in> {Side_BUY, Side_SELL}"
    and sp: "spec_fill (side_of sd) px q (am_queue am sy (opp (side_of sd))) = (fs, q', os')"
    and q: "queue' = (am_queue am)(sy := (\<lambda>t. if t = side_of sd then own' else os'))"
    and own: "set own' = (if rests then insert (am_next am, px, q') (set (am_queue am sy (side_of sd)))
                           else set (am_queue am sy (side_of sd)))"
    and M: "\<And>i. M i = (if i = am_next am then (if rests then Some (sy, sd, px, q') else None)
         else if i \<in> a_id ` set (am_queue am sy (opp (side_of sd))) then requeued os' m i else m i)"
    and am': "am_queue am' = queue'"
  shows "rows_of covers am' M"
  unfolding rows_of_def
proof (intro allI)
  let ?s = "side_of sd" let ?os = "am_queue am sy (opp ?s)" let ?oid = "am_next am"
  fix i sy' sd' px1 q1
  have side: "side_of x = side_of y \<longleftrightarrow> x = y" if "x \<in> {Side_BUY, Side_SELL}" "y \<in> {Side_BUY, Side_SELL}" for x y
    using that by (auto simp: side_of_def enum_defs)
  have ids: "a_id ` set os' \<subseteq> a_id ` set ?os" by (rule spec_fill_ids(3) [OF sp])
  have fresh: "(?oid, y) \<notin> set (am_queue am x t)" for x t y
    using am_okD(2) [OF ok, of ?oid "fst y" "snd y" x t] by auto
  have fresh': "(?oid, y) \<notin> set os'" for y using ids fresh by force
  have only: "x = sy \<and> t = opp ?s" if i: "i \<in> a_id ` set ?os" and x: "(i, px1, q1) \<in> set (am_queue am x t)" for x t px1 q1
  proof -
    obtain y where "(i, y) \<in> set ?os" using i by auto
    with x am_okD(2) [OF ok, of i "fst y" "snd y" sy "opp ?s"] am_okD(2) [OF ok, of i px1 q1 x t]
    show ?thesis by auto
  qed
  show "M i = Some (sy', sd', px1, q1) \<longleftrightarrow>
    covers sy' \<and> sd' \<in> {Side_BUY, Side_SELL} \<and> (i, px1, q1) \<in> set (am_queue am' sy' (side_of sd'))"
  proof (cases "i = ?oid")
    case True
    have "(i, px1, q1) \<in> set (am_queue am' sy' (side_of sd')) \<longleftrightarrow>
        rests \<and> sy' = sy \<and> side_of sd' = ?s \<and> px1 = px \<and> q1 = q'"
      using fresh fresh' unfolding am' q True by (auto simp: own)
    moreover have "M i = Some (sy', sd', px1, q1) \<longleftrightarrow> rests \<and> sy' = sy \<and> sd' = sd \<and> px1 = px \<and> q1 = q'"
      by (auto simp: M True)
    ultimately show ?thesis using sy sd side [OF _ sd, of sd'] by blast
  next
    case i: False
    show ?thesis
    proof (cases "i \<in> a_id ` set ?os")
      case True
      define sd2 where "sd2 = (if sd = Side_BUY then Side_SELL else Side_BUY)"
      have sd2: "sd2 \<in> {Side_BUY, Side_SELL}" "side_of sd2 = opp ?s"
        using sd by (auto simp: sd2_def side_of_def enum_defs)
      have "\<exists>px' q'. m j = Some (sy, sd2, px', q')" if "(j, y) \<in> set os'" for j y
      proof -
        have "j \<in> a_id ` set ?os" using that ids by force
        then obtain px' q' where "(j, px', q') \<in> set (am_queue am sy (side_of sd2))" unfolding sd2(2) by auto
        with m sy sd2(1) show ?thesis unfolding rows_of_def by blast
      qed
      then have "requeued os' m i = Some (sy', sd', px1, q1) \<longleftrightarrow> sy' = sy \<and> sd' = sd2 \<and> (i, px1, q1) \<in> set os'"
        by (intro requeued_iff) (use spec_fill_distinct [OF sp am_okD(1) [OF ok]] in auto)
      moreover have "(i, px1, q1) \<in> set (am_queue am' sy' (side_of sd')) \<longleftrightarrow>
          sy' = sy \<and> side_of sd' = opp ?s \<and> (i, px1, q1) \<in> set os'"
        using only [OF True] i unfolding am' q by (cases "side_of sd' = ?s"; cases ?s; cases "side_of sd'") (auto simp: own split: if_splits)
      moreover have "M i = requeued os' m i" using True i by (simp add: M)
      ultimately show ?thesis using sy sd2 side [OF _ sd2(1), of sd'] by auto
    next
      case False
      have "(i, px1, q1) \<in> set (am_queue am' sy' (side_of sd')) \<longleftrightarrow> (i, px1, q1) \<in> set (am_queue am sy' (side_of sd'))"
      proof (cases "sy' = sy \<and> side_of sd' \<noteq> ?s")
        case True
        then have "side_of sd' = opp ?s" by (cases ?s; cases "side_of sd'") auto
        with True False ids show ?thesis unfolding am' q by force
      qed (use i in \<open>auto simp: am' q own\<close>)
      with False i m show ?thesis by (simp add: M rows_of_def)
    qed
  qed
qed

lemma submit_tracks:
  assumes ok: "am_ok am" and m: "rows_of covers am m" and r: "reject_reason sd tf px q = None"
    and sub: "spec_submit ts coid uid px q sy sd tf am = (am', out)"
  shows "exact_run covers out m \<and> rows_of covers am' (fold (track covers) out m)"
proof -
  let ?s = "side_of sd" let ?oid = "am_next am" let ?os = "am_queue am sy (opp ?s)"
  obtain fs q' os' where sp: "spec_fill ?s px q ?os = (fs, q', os')" by (metis prod_cases3)
  define rests where "rests \<longleftrightarrow> q' > 0 \<and> tf \<noteq> Tif_IOC"
  define own' where "own' = (if rests then enqueue ?s (?oid, px, q') (am_queue am sy ?s) else am_queue am sy ?s)"
  define u where "u x = ow_user (own_at ((am_info am)(?oid \<mapsto> \<lparr> ow_user = uid, ow_client_order_id = coid,
    ow_symbol = sy, ow_side = sd \<rparr>)) (a_id x))" for x :: aord
  define fills where "fills = map (\<lambda>x. Fill_new ts (a_id x) ?oid (u x) uid (a_price x) (a_qty x) sy sd) fs"
  define fin where "fin = (if q' > 0 \<and> tf = Tif_IOC
    then [OrderCancelled_new ts ?oid coid uid q' sy CancelReason_IOC_EXPIRED] else [])"
  have q: "am_queue am' = (am_queue am)(sy := (\<lambda>t. if t = ?s then own' else os'))"
    and out: "out = (OrderAccepted_new ts ?oid coid uid px q sy sd tf # fills) @ fin"
    using sub unfolding spec_submit_def r option.case side_of_def [symmetric] Let_def sp prod.case
    by (auto simp: spec_forget_def own'_def rests_def fills_def u_def fin_def cong: if_cong)
  have sd: "sd \<in> {Side_BUY, Side_SELL}" "0 < q" using r by (simp_all add: reject_reason_None)
  have fresh: "m ?oid = None" by (rule rows_of_fresh [OF ok m])
  have sym: "moves_orders covers x = covers sy" if "x \<in> set out" for x
    using that by (auto simp: out fills_def fin_def moves_orders_def OrderAccepted_new_def Fill_new_def
        OrderCancelled_new_def split: if_splits)
  have nocancel: "\<not> is_OrderCancelled x" if "x \<in> set (OrderAccepted_new ts ?oid coid uid px q sy sd tf # fills)" for x
    using that by (auto simp: fills_def OrderAccepted_new_def Fill_new_def)
  show ?thesis
  proof (cases "covers sy")
    case False
    have unmoved: "fold (track covers) xs m = m" if "set xs \<subseteq> set out" for xs
      using that sym False by (induction xs) (auto simp: track_def)
    have "fold (track covers) out m = m" by (rule unmoved) simp
    moreover have "fold (track covers) (OrderAccepted_new ts ?oid coid uid px q sy sd tf # fills) m = m"
      by (rule unmoved) (auto simp: out)
    moreover have "exact_run covers out m"
      using exact_no_cancel [of "OrderAccepted_new ts ?oid coid uid px q sy sd tf # fills", OF nocancel] calculation(2) fresh
      unfolding out exact_run_append
      by (simp add: fin_def exact_cancel_def OrderCancelled_new_def)
    moreover have "rows_of covers am' m" using m False by (auto simp: rows_of_def q)
    ultimately show ?thesis by simp
  next
    case sy: True
    let ?m1 = "m(?oid \<mapsto> (sy, sd, px, q))"
    have pos: "positive ?os" using am_okD(2) [OF ok] by (auto simp: positive_def)
    have ids: "?oid \<notin> a_id ` set ?os" using am_okD(2) [OF ok] by fastforce
    have rows: "in_rows sy ?os ?m1" using queue_in_rows [OF m sy, of "opp ?s"] ids by (force simp: in_rows_def)
    have fills: "fold (track covers) fills ?m1 = (\<lambda>i. if i = ?oid then (if q' = 0 then None else Some (sy, sd, px, q'))
        else if i \<in> a_id ` set ?os then requeued os' ?m1 i else ?m1 i)"
      unfolding fills_def
      by (rule fold_fills [where covers = covers and sy = sy, OF sp pos sd(2) am_okD(1) [OF ok] ids sy]) (simp_all add: rows)
    have acc: "track covers (OrderAccepted_new ts ?oid coid uid px q sy sd tf) m = ?m1"
      using sy by (simp add: track_def moves_orders_def OrderAccepted_new_def)
    have cancel: "track covers (OrderCancelled_new ts ?oid coid uid q' sy CancelReason_IOC_EXPIRED) x = x(?oid := None)" for x
      using sy by (simp add: track_def moves_orders_def OrderCancelled_new_def)
    have q': "0 \<le> q'" using spec_fill_positive [OF sp pos] sd(2) by simp
    have base: "fold (track covers) out m = fold (track covers) fin (fold (track covers) fills ?m1)"
      by (simp add: out acc)
    have M: "fold (track covers) out m i = (if i = ?oid then (if rests then Some (sy, sd, px, q') else None)
         else if i \<in> a_id ` set ?os then requeued os' m i else m i)" for i
      using q' ids requeued_cong [of ?m1 i m os']
      unfolding base fills by (cases "q' > 0 \<and> tf = Tif_IOC") (auto simp: fin_def cancel rests_def)
    have "exact_run covers fin (fold (track covers) fills ?m1)"
      using q' by (simp add: fin_def fills exact_cancel_def OrderCancelled_new_def)
    moreover have "exact_run covers (OrderAccepted_new ts ?oid coid uid px q sy sd tf # fills) m"
      by (rule exact_no_cancel) (rule nocancel)
    ultimately have "exact_run covers out m"
      unfolding out exact_run_append by (simp add: acc)
    moreover have "rows_of covers am' (fold (track covers) out m)"
      by (rule rows_of_submit [OF ok m sy sd(1) sp q _ M refl]) (simp add: own'_def)
    ultimately show ?thesis ..
  qed
qed

lemma filter_a_id: "distinct (map a_id os) \<Longrightarrow> (i, y) \<in> set os \<Longrightarrow> filter (\<lambda>x. a_id x = i) os = [(i, y)]"
  by (induction os) (auto simp: filter_empty_conv image_iff)

lemma cancel_tracks:
  assumes ok: "am_ok am" and m: "rows_of covers am m"
    and can: "spec_cancel ts coid uid target am = (am', out)"
  shows "exact_run covers out m \<and> rows_of covers am' (fold (track covers) out m)"
proof (cases "am_live am (uid, target)")
  case None
  with can m show ?thesis
    by (auto simp: spec_cancel_def exact_cancel_def track_def moves_orders_def OrderRejected_new_def)
next
  case (Some oid)
  obtain w px q where w: "am_info am oid = Some w" "ow_side w \<in> {Side_BUY, Side_SELL}"
    "(oid, px, q) \<in> set (am_queue am (ow_symbol w) (side_of (ow_side w)))"
    using am_okD(3) [OF ok Some] by blast
  let ?q = "am_queue am (ow_symbol w) (side_of (ow_side w))"
  have "filter (\<lambda>x. a_id x = oid) ?q = [(oid, px, q)]"
    using am_okD(1) [OF ok] w(3) by (rule filter_a_id)
  then have rem: "spec_remaining oid ?q = q" by (simp add: spec_remaining_def)
  have out: "out = [OrderCancelled_new ts oid target uid q (ow_symbol w) CancelReason_USER_REQUESTED]"
    and q': "am_queue am' = (am_queue am)(ow_symbol w := (\<lambda>t. filter (\<lambda>x. a_id x \<noteq> oid) (am_queue am (ow_symbol w) t)))"
    using can Some w(1) rem
    by (auto simp: spec_cancel_def Let_def own_at_def spec_forget_def side_of_def [symmetric] cong: if_cong)
  have only: "x = ow_symbol w" if "(oid, y) \<in> set (am_queue am x t)" for x t y
    using that w(1) am_okD(2) [OF ok, of oid "fst y" "snd y" x t] by auto
  have moves: "moves_orders covers (hd out) = covers (ow_symbol w)"
    by (simp add: out moves_orders_def OrderCancelled_new_def)
  have row: "m i = Some (sy, sd, px, q) \<longleftrightarrow>
      covers sy \<and> sd \<in> {Side_BUY, Side_SELL} \<and> (i, px, q) \<in> set (am_queue am sy (side_of sd))" for i sy sd px q
    using m unfolding rows_of_def by blast
  have "case m oid of None \<Rightarrow> True | Some (_, _, _, q') \<Rightarrow> q' = q"
  proof (cases "m oid")
    case (Some y)
    then obtain sy sd px' q' where y: "m oid = Some (sy, sd, px', q')" by (cases y) auto
    then have "covers (ow_symbol w)" using row only by blast
    then have "m oid = Some (ow_symbol w, ow_side w, px, q)" using row w(2,3) by blast
    then show ?thesis by simp
  qed simp
  then have "exact_run covers out m"
    by (simp add: out exact_cancel_def OrderCancelled_new_def cong: option.case_cong)
  moreover have "rows_of covers am' (fold (track covers) out m)"
  proof (cases "covers (ow_symbol w)")
    case True
    then have "fold (track covers) out m = m(oid := None)"
      using moves by (simp add: out track_def OrderCancelled_new_def)
    then show ?thesis unfolding rows_of_def q' by (simp add: row) (use only in blast)
  next
    case False
    then have "fold (track covers) out m = m" using moves by (simp add: out track_def)
    then show ?thesis using False unfolding rows_of_def q' by (auto simp: row)
  qed
  ultimately show ?thesis ..
qed

lemma apply_tracks:
  assumes ok: "am_ok am" and m: "rows_of covers am m" and ap: "spec_apply r am = (am', out)"
  shows "exact_run covers out m \<and> rows_of covers am' (fold (track covers) out m)"
proof -
  consider "is_SubmitOrder r" "reject_reason (side r) (tif r) (price_ticks r) (qty r) = None"
    | "is_CancelOrder r" | "am' = am" "\<And>x. x \<in> set out \<Longrightarrow> \<not> moves_orders covers x \<and> \<not> is_OrderCancelled x"
    using ap by (cases r) (auto simp: spec_apply_def spec_submit_def spec_forward_def moves_orders_def new_defs
        split: option.splits)
  then show ?thesis
  proof cases
    case 1
    with ap submit_tracks [OF ok m] show ?thesis by (simp add: spec_apply_def)
  next
    case 2
    then have "\<not> is_SubmitOrder r" by (cases r) auto
    with 2 ap cancel_tracks [OF ok m] show ?thesis by (simp add: spec_apply_def)
  next
    case 3
    have "fold (track covers) out m = m" using 3(2) by (induction out) (auto simp: track_def)
    with 3 m exact_no_cancel [of out] show ?thesis by auto
  qed
qed

lemma abs_side_none: "abs_side s empty_book = []"
  by (cases s) (simp_all add: abs_side_def side_queue_def iter_orders_def empty_book_def)

subsection \<open>The contract\<close>

locale order_projection =
  fixes step :: "'i \<Rightarrow> wire \<Rightarrow> 's \<Rightarrow> 's"
    and rows :: "'s \<Rightarrow> rowmap"
    and covers :: "int \<Rightarrow> bool"
    and ok :: "'s \<Rightarrow> bool"
  assumes step_ok: "ok s \<Longrightarrow> ok (step i r s)"
    and accept_rows: "ok s \<Longrightarrow> is_OrderAccepted r \<Longrightarrow> covers (symbol_id r) \<Longrightarrow>
      rows (step i r s) = (rows s)(order_id r \<mapsto> (symbol_id r, side r, price_ticks r, qty r))"
    and fill_rows: "ok s \<Longrightarrow> is_Fill r \<Longrightarrow> covers (symbol_id r) \<Longrightarrow>
      rows (step i r s) = take_from (taker_order_id r) (qty r) (take_from (maker_order_id r) (qty r) (rows s))"
    and cancel_rows: "ok s \<Longrightarrow> is_OrderCancelled r \<Longrightarrow> covers (symbol_id r) \<Longrightarrow> exact_cancel r (rows s) \<Longrightarrow>
      rows (step i r s) = (rows s)(order_id r := None)"
    and other_rows: "ok s \<Longrightarrow> \<not> moves_orders covers r \<Longrightarrow> rows (step i r s) = rows s"
begin

definition run :: "('i \<times> wire) list \<Rightarrow> 's \<Rightarrow> 's" where
  "run es = fold (\<lambda>(i, r). step i r) es"

lemma step_rows: "ok s \<Longrightarrow> exact_cancel r (rows s) \<Longrightarrow> rows (step i r s) = track covers r (rows s)"
  using accept_rows [of s r i] fill_rows [of s r i] cancel_rows [of s r i] other_rows [of s r i]
  by (auto simp: track_def moves_orders_def)

lemma run_rows:
  "ok s \<Longrightarrow> exact_run covers (map snd es) (rows s) \<Longrightarrow>
    ok (run es s) \<and> rows (run es s) = fold (track covers) (map snd es) (rows s)"
  by (induction es arbitrary: s) (auto simp: run_def step_ok step_rows)

lemma run_append: "run (es @ fs) s = run fs (run es s)"
  by (simp add: run_def)

text \<open>A consumer that holds the matcher's resting orders still does after any run of the matcher.\<close>

lemma follows_matcher:
  assumes "wf_matcher m" "apply_all log m = Inr (m', map snd es)" "ok s" "rows_of covers (abs_matcher m) (rows s)"
  shows "ok (run es s) \<and> rows_of covers (abs_matcher m') (rows (run es s))"
  using assms
proof (induction log arbitrary: m es s)
  case Nil
  then show ?case by (simp add: run_def)
next
  case (Cons r log)
  obtain m1 where m1: "apply_record r m = Inr (m1, snd (spec_apply r (abs_matcher m)))" "wf_matcher m1"
    "abs_matcher m1 = fst (spec_apply r (abs_matcher m))" using apply_refines [OF Cons.prems(1)] by blast
  let ?out = "snd (spec_apply r (abs_matcher m))"
  obtain out2 where out2: "apply_all log m1 = Inr (m', out2)" "map snd es = ?out @ out2"
    using Cons.prems(2) m1(1) by (auto split: sum.splits prod.splits)
  then obtain es1 es2 where es: "es = es1 @ es2" "map snd es1 = ?out" "map snd es2 = out2"
    by (metis map_eq_append_conv)
  have "exact_run covers ?out (rows s) \<and> rows_of covers (abs_matcher m1) (fold (track covers) ?out (rows s))"
    unfolding m1(3) by (rule apply_tracks [OF am_ok_abs [OF Cons.prems(1)] Cons.prems(4)]) simp
  then have "ok (run es1 s) \<and> rows_of covers (abs_matcher m1) (rows (run es1 s))"
    using run_rows [OF Cons.prems(3), of es1] es(2) by simp
  with Cons.IH [OF m1(2), of es2 "run es1 s"] out2(1) es show ?case by (simp add: run_append)
qed

lemma follows_new_matcher:
  assumes "apply_all log (new_matcher first cash) = Inr (m', map snd es)" "ok s" "rows s = (\<lambda>_. None)"
  shows "ok (run es s) \<and> rows_of covers (abs_matcher m') (rows (run es s))"
proof (rule follows_matcher [OF wf_new_matcher assms(1,2)])
  show "rows_of covers (abs_matcher (new_matcher first cash)) (rows s)"
    by (simp add: rows_of_def assms(3) abs_matcher_def new_matcher_def get_book_def abs_side_none)
qed

end

text \<open>The rows a matcher lists in \<open>resting()\<close> are the rows of any such consumer that covers all
  symbols.\<close>

lemma rows_of_resting:
  assumes "wf_matcher m" "rows_of (\<lambda>_. True) (abs_matcher m) f"
  shows "\<exists>rows. resting m = Inr rows \<and> sorted_wrt (<) (map fst rows) \<and>
    (\<forall>i y. (i, y) \<in> set rows \<longleftrightarrow> f i = Some y)"
  using resting_exact [OF assms(1)] assms(2) by (fastforce simp: rows_of_def abs_matcher_def)

text \<open>The best prices of the engine's book, read off the rows of a consumer that tracks it.\<close>

definition row_prices :: "int \<Rightarrow> int \<Rightarrow> rowmap \<Rightarrow> int set" where
  "row_prices sy sd f = {px. \<exists>i q. f i = Some (sy, sd, px, q)}"

lemma row_prices_queue:
  assumes "rows_of covers (abs_matcher m) f" "covers sy" "sd \<in> {Side_BUY, Side_SELL}"
  shows "row_prices sy sd f = a_price ` set (abs_side (side_of sd) (get_book sy m))"
  using assms by (force simp: row_prices_def rows_of_def abs_matcher_def image_iff)

lemma hd_by_price:
  assumes "by_price s (x # xs)"
  shows "Min (pkey s ` a_price ` set (x # xs)) = pkey s (a_price x)"
proof (rule Min_eqI)
  show "pkey s (a_price x) \<le> y" if "y \<in> pkey s ` a_price ` set (x # xs)" for y
    using that assms by (auto simp: by_price_def)
qed simp_all

lemma best_of_queue:
  assumes "wf_book b"
  shows "best_ask b = (if abs_side SELL b = [] then None else Some (Min (a_price ` set (abs_side SELL b))))"
    "best_bid b = (if abs_side BUY b = [] then None else Some (Max (a_price ` set (abs_side BUY b))))"
proof -
  show "best_ask b = (if abs_side SELL b = [] then None else Some (Min (a_price ` set (abs_side SELL b))))"
  proof (cases "side_queue SELL b")
    case (Cons r rs)
    then have q: "abs_side SELL b = abs_ord b r # map (abs_ord b) rs" by (simp add: abs_side_def)
    have "by_price SELL (abs_ord b r # map (abs_ord b) rs)" using by_price_abs [of SELL b] by (simp only: q)
    from hd_by_price [OF this] show ?thesis
      by (simp add: best_ask_queue [OF assms] Cons q image_image abs_ord_def)
  qed (simp add: best_ask_queue [OF assms] abs_side_def)
  show "best_bid b = (if abs_side BUY b = [] then None else Some (Max (a_price ` set (abs_side BUY b))))"
  proof (cases "side_queue BUY b")
    case (Cons r rs)
    then have q: "abs_side BUY b = abs_ord b r # map (abs_ord b) rs" by (simp add: abs_side_def)
    have "by_price BUY (abs_ord b r # map (abs_ord b) rs)" using by_price_abs [of BUY b] by (simp only: q)
    then have "Max (a_price ` set (abs_side BUY b)) = o_price (obj b r)"
      by (intro Max_eqI) (auto simp: q by_price_def abs_ord_def)
    with Cons show ?thesis by (simp add: best_bid_queue [OF assms] q)
  qed (simp add: best_bid_queue [OF assms] abs_side_def)
qed

lemma best_of_rows:
  assumes "wf_matcher m" "rows_of covers (abs_matcher m) f" "covers sy"
  shows "best_ask (get_book sy m) =
      (if row_prices sy Side_SELL f = {} then None else Some (Min (row_prices sy Side_SELL f)))"
    "best_bid (get_book sy m) =
      (if row_prices sy Side_BUY f = {} then None else Some (Max (row_prices sy Side_BUY f)))"
  using best_of_queue [OF get_book_wf [OF assms(1)], of sy]
    row_prices_queue [OF assms(2,3), of Side_SELL] row_prices_queue [OF assms(2,3), of Side_BUY]
  by (simp_all add: side_of_def enum_defs)

end
