(* ===== verification/Stream_Replay.thy ===== *)
theory Stream_Replay
  imports Prelude
begin

section \<open>Reading a stream to its end\<close>

text \<open>
  The ledger consumer, the gateway and fan-out rebuild with one loop: read a batch after the last
  id, stop when it is empty, apply it, go on from its last id. Whether that ends depends on the
  reader. \<open>reads_on\<close> is what \<open>XREAD\<close> promises on a stream nothing is appended to: after the id
  of the \<open>k\<close>-th entry comes a front of the rest, empty only when nothing is left. The locale
  proves once that such a loop ends, having applied exactly the entries after the start.
\<close>

definition id_at :: "string \<Rightarrow> (string \<times> 'e) list \<Rightarrow> nat \<Rightarrow> string" where
  "id_at start log k = (if k = 0 then start else fst (log ! (k - 1)))"

definition reads_on :: "(string \<Rightarrow> (string \<times> 'e) list) \<Rightarrow> string \<Rightarrow> (string \<times> 'e) list \<Rightarrow> bool" where
  "reads_on read start log \<longleftrightarrow>
     (\<forall>k \<le> length log. \<exists>j. read (id_at start log k) = take j (drop k log) \<and> (j = 0 \<longrightarrow> k = length log))"

locale replay_loop =
  fixes loop :: "(string \<Rightarrow> (string \<times> 'e) list) \<Rightarrow> string \<Rightarrow> int \<Rightarrow> 's \<Rightarrow> 'r option"
    and run :: "(string \<times> 'e) list \<Rightarrow> 's \<Rightarrow> 's"
    and result :: "string \<Rightarrow> int \<Rightarrow> 's \<Rightarrow> 'r"
    and ok :: "'s \<Rightarrow> bool"
  assumes unfold: "ok s \<Longrightarrow> loop read p n s =
      (if read p = [] then Some (result p n s)
       else loop read (fst (last (read p))) (n + int (length (read p))) (run (read p) s))"
    and run_ok: "ok s \<Longrightarrow> ok (run es s)"
    and run_append: "ok s \<Longrightarrow> run (es @ fs) s = run fs (run es s)"
    and run_Nil: "run [] s = s"
begin

lemma loop_ends:
  assumes "reads_on read start log" "k \<le> length log" "ok s"
  shows "loop read (id_at start log k) n s =
    Some (result (id_at start log (length log)) (n + int (length log - k)) (run (drop k log) s))"
  using assms(2,3)
proof (induction "length log - k" arbitrary: k n s rule: less_induct)
  case less
  obtain j where j: "read (id_at start log k) = take j (drop k log)" "j = 0 \<Longrightarrow> k = length log"
    using assms(1) less.prems(1) unfolding reads_on_def by blast
  show ?case
  proof (cases "k = length log")
    case True
    then show ?thesis using unfold [OF less.prems(2)] j(1) by (simp add: run_Nil)
  next
    case False
    then have k: "k < length log" using less.prems(1) by simp
    define b where "b = take j (drop k log)"
    define i where "i = min j (length log - k)"
    have i: "0 < i" "k + i \<le> length log" using j(2) k by (auto simp: i_def)
    have b: "b \<noteq> []" "length b = i" using i k by (auto simp: b_def i_def)
    have "last b = log ! (k + i - 1)"
      using b i k by (simp add: last_conv_nth) (simp add: b_def i_def nth_append)
    then have last: "fst (last b) = id_at start log (k + i)" using i by (simp add: id_at_def)
    have "drop (k + i) log = drop j (drop k log)" by (cases "j \<le> length log - k") (simp_all add: i_def add.commute)
    then have split: "b @ drop (k + i) log = drop k log" by (simp only: b_def append_take_drop_id)
    have "loop read (id_at start log k) n s = loop read (id_at start log (k + i)) (n + int i) (run b s)"
      using unfold [OF less.prems(2), of read "id_at start log k" n] b last by (simp add: j(1) b_def [symmetric])
    also have "\<dots> = Some (result (id_at start log (length log)) (n + int i + int (length log - (k + i)))
        (run (drop (k + i) log) (run b s)))"
      using i k by (intro less.hyps run_ok less.prems(2)) simp_all
    also have "run (drop (k + i) log) (run b s) = run (drop k log) s"
      by (simp add: run_append [OF less.prems(2), symmetric] split)
    also have "n + int i + int (length log - (k + i)) = n + int (length log - k)" using i k by simp
    finally show ?thesis .
  qed
qed

lemma loop_from_start:
  assumes "reads_on read start log" "ok s"
  shows "loop read start n s = Some (result (id_at start log (length log)) (n + int (length log)) (run log s))"
  using loop_ends [OF assms(1) _ assms(2), of 0 n] by (simp add: id_at_def)

end

text \<open>A reader that always returns up to \<open>c\<close> entries keeps the promise, whatever \<open>c\<close> is.\<close>

definition entries_after :: "string \<Rightarrow> nat \<Rightarrow> (string \<times> 'e) list \<Rightarrow> string \<Rightarrow> (string \<times> 'e) list" where
  "entries_after start c log p =
     take c (if p = start then log else drop 1 (dropWhile (\<lambda>e. fst e \<noteq> p) log))"

lemma entries_after_reads_on:
  assumes "distinct (start # map fst log)" "0 < c"
  shows "reads_on (entries_after start c log) start log"
  unfolding reads_on_def
proof (intro allI impI)
  fix k assume k: "k \<le> length log"
  have "entries_after start c log (id_at start log k) = take c (drop k log)"
  proof (cases k)
    case (Suc i)
    then have i: "i < length log" using k by simp
    have ne: "fst (log ! i) \<noteq> start" using assms(1) i by (metis distinct.simps(2) length_map nth_map nth_mem)
    have "fst e \<noteq> fst (log ! i)" if "e \<in> set (take i log)" for e
    proof -
      from that obtain l where l: "l < i" "e = log ! l" by (auto simp: in_set_conv_nth)
      then have "map fst log ! l \<noteq> map fst log ! i"
        using assms(1) i nth_eq_iff_index_eq [of "map fst log" l i] by simp
      then show ?thesis using l i by simp
    qed
    then have "dropWhile (\<lambda>e. fst e \<noteq> fst (log ! i)) (take i log @ log ! i # drop (Suc i) log) =
        log ! i # drop (Suc i) log"
      by (subst dropWhile_append2) simp_all
    then have "dropWhile (\<lambda>e. fst e \<noteq> fst (log ! i)) log = log ! i # drop (Suc i) log"
      by (simp only: id_take_nth_drop [OF i, symmetric])
    then have "drop 1 (dropWhile (\<lambda>e. fst e \<noteq> fst (log ! i)) log) = drop k log" by (simp add: Suc)
    with ne Suc show ?thesis by (simp add: entries_after_def id_at_def)
  qed (simp add: entries_after_def id_at_def)
  then show "\<exists>j. entries_after start c log (id_at start log k) = take j (drop k log) \<and> (j = 0 \<longrightarrow> k = length log)"
    using assms(2) by (metis less_irrefl)
qed

end
