(* ===== verification/Ledger_Spec.thy ===== *)
theory Ledger_Spec
  imports Ledger Checkpointed Order_Projection Stream_Replay
begin

section \<open>What the ledger promises, and that it keeps it\<close>

text \<open>
  Fees: bounds of \<open>calculate_fees\<close>. Money: what one record does to the system's cash, hence
  invariant I10 over any log in which an account is created before anything else reaches it;
  positions always net to zero. Checkpoint: the ledger is an instance of \<open>checkpointed\<close>.
\<close>

subsection \<open>Fees\<close>

lemma fees_bounds:
  assumes "0 \<le> px" "0 \<le> q"
  defines "f \<equiv> calculate_fees px q"
  shows "fb_notional f = px * q" "0 \<le> fb_maker_fee_ticks f" "fb_maker_fee_ticks f \<le> fb_taker_fee_ticks f"
    "1000 * fb_taker_fee_ticks f \<le> px * q" "px * q < 1000 * fb_taker_fee_ticks f + 1000"
    "5000 * fb_maker_fee_ticks f \<le> px * q" "px * q < 5000 * fb_maker_fee_ticks f + 5000"
    "fb_total_fee_ticks f = fb_maker_fee_ticks f + fb_taker_fee_ticks f"
proof -
  have n: "0 \<le> px * q" using assms by simp
  show "fb_notional f = px * q" "0 \<le> fb_maker_fee_ticks f"
    "1000 * fb_taker_fee_ticks f \<le> px * q" "px * q < 1000 * fb_taker_fee_ticks f + 1000"
    "5000 * fb_maker_fee_ticks f \<le> px * q" "px * q < 5000 * fb_maker_fee_ticks f + 5000"
    "fb_total_fee_ticks f = fb_maker_fee_ticks f + fb_taker_fee_ticks f"
    using n by (simp_all add: f_def calculate_fees_def fee_consts Let_def)
  show "fb_maker_fee_ticks f \<le> fb_taker_fee_ticks f"
    using n by (simp add: f_def calculate_fees_def fee_consts Let_def)
qed

subsection \<open>One record\<close>

lemma dget0_add_to [simp]: "dget0 (add_to k x d) k' = (if k' = k then dget0 d k + x else dget0 d k')"
  by (simp add: add_to_def)

lemma wf_add_to [simp, intro]: "wf_dict d \<Longrightarrow> wf_dict (add_to k x d)"
  by (simp add: add_to_def)

lemma sum_add_to: "dsum id (add_to k x d) = dsum id d + x"
  by (auto simp: add_to_def dsum_dset dget0_def split: option.splits)

lemma ksum_add_to:
  assumes "\<And>v. f k v = c * v"
  shows "ksum f (add_to k x d) = ksum f d + c * x"
  by (auto simp: add_to_def ksum_dset dget0_def assms algebra_simps split: option.splits)

lemma dget_add_to: "dget d = dget e \<Longrightarrow> dget (add_to k x d) = dget (add_to k x e)"
  by (simp add: add_to_def dget0_def)

lemma dget_reduce_open: "dget d = dget e \<Longrightarrow> dget (reduce_open i q d) = dget (reduce_open i q e)"
  by (auto simp: reduce_open_def Let_def split: option.splits)

lemma wf_reduce_open [simp, intro]: "wf_dict d \<Longrightarrow> wf_dict (reduce_open i q d)"
  by (auto simp: reduce_open_def Let_def split: option.splits)

definition keyed_by_id :: "(int, open_order) dict \<Rightarrow> bool" where
  "keyed_by_id d \<longleftrightarrow> (\<forall>i ord. dget d i = Some ord \<longrightarrow> oo_order_id ord = i)"

lemma keyed_reduce_open: "keyed_by_id d \<Longrightarrow> keyed_by_id (reduce_open i q d)"
  by (auto simp: keyed_by_id_def reduce_open_def Let_def split: option.splits if_splits)

definition wf_ledger :: "ledger \<Rightarrow> bool" where
  "wf_ledger l \<longleftrightarrow> wf_dict (cash_balances l) \<and> wf_dict (lg_positions l) \<and> wf_dict (open_orders l) \<and>
     keyed_by_id (open_orders l)"

text \<open>Equality of ledgers up to the order of their dictionaries and the dirty sets.\<close>

definition same_ledger :: "ledger \<Rightarrow> ledger \<Rightarrow> bool" where
  "same_ledger l t \<longleftrightarrow>
     dget (cash_balances l) = dget (cash_balances t) \<and> dget (lg_positions l) = dget (lg_positions t) \<and>
     dget (open_orders l) = dget (open_orders t) \<and> house_fee_ticks l = house_fee_ticks t \<and>
     total_deposits_ticks l = total_deposits_ticks t \<and> last_seq l = last_seq t \<and>
     events_processed l = events_processed t"

text \<open>What a record does to each part of the state, on its own.\<close>

definition cash_after :: "wire \<Rightarrow> (int, int) dict \<Rightarrow> (int, int) dict" where
  "cash_after r d =
     (if is_AccountCreated r then dset (user_id r) (initial_cash_ticks r) d
      else if is_CashCredited r then add_to (user_id r) (amount_ticks r) d
      else if is_Fill r
      then (case fill_parties r of (b, s, db, ds) \<Rightarrow> add_to s ds (add_to b db d))
      else d)"

definition positions_after :: "wire \<Rightarrow> (int \<times> int, int) dict \<Rightarrow> (int \<times> int, int) dict" where
  "positions_after r d =
     (if is_Fill r
      then (case fill_parties r of (b, s, _, _) \<Rightarrow>
              add_to (s, symbol_id r) (- qty r) (add_to (b, symbol_id r) (qty r) d))
      else d)"

definition orders_after :: "wire \<Rightarrow> (int, open_order) dict \<Rightarrow> (int, open_order) dict" where
  "orders_after r d =
     (if is_OrderAccepted r then dset (order_id r) (accepted_order r) d
      else if is_OrderCancelled r then reduce_open (order_id r) (remaining_qty r) d
      else if is_Fill r then reduce_open (taker_order_id r) (qty r) (reduce_open (maker_order_id r) (qty r) d)
      else d)"

definition deposit_of :: "wire \<Rightarrow> int" where
  "deposit_of r = (if is_AccountCreated r then initial_cash_ticks r
                   else if is_CashCredited r then amount_ticks r else 0)"

definition fee_of :: "wire \<Rightarrow> int" where
  "fee_of r = (if is_Fill r then fb_total_fee_ticks (calculate_fees (price_ticks r) (qty r)) else 0)"

lemma ledger_apply_sel:
  "cash_balances (ledger_apply r sid l) = cash_after r (cash_balances l)"
  "lg_positions (ledger_apply r sid l) = positions_after r (lg_positions l)"
  "open_orders (ledger_apply r sid l) = orders_after r (open_orders l)"
  "house_fee_ticks (ledger_apply r sid l) = house_fee_ticks l + fee_of r"
  "total_deposits_ticks (ledger_apply r sid l) = total_deposits_ticks l + deposit_of r"
  "last_seq (ledger_apply r sid l) = (case sid of None \<Rightarrow> last_seq l | Some s \<Rightarrow> s)"
  "events_processed (ledger_apply r sid l) = events_processed l + 1"
  by (cases r; cases sid;
      simp add: ledger_apply_def cash_after_def positions_after_def orders_after_def fee_of_def
        deposit_of_def ledger_fill_def Let_def split: prod.splits)+

lemma wf_new_ledger: "wf_ledger new_ledger"
  by (simp add: wf_ledger_def new_ledger_def keyed_by_id_def)

lemma wf_ledger_apply: "wf_ledger l \<Longrightarrow> wf_ledger (ledger_apply r sid l)"
  by (auto simp: wf_ledger_def ledger_apply_sel cash_after_def positions_after_def orders_after_def
      keyed_reduce_open split: prod.splits)
     (auto simp: keyed_by_id_def accepted_order_def)

lemma dget_after:
  "dget d = dget e \<Longrightarrow> dget (cash_after r d) = dget (cash_after r e)"
  "dget p = dget p' \<Longrightarrow> dget (positions_after r p) = dget (positions_after r p')"
  "dget os = dget os' \<Longrightarrow> dget (orders_after r os) = dget (orders_after r os')"
  unfolding cash_after_def positions_after_def orders_after_def
  by (auto split: prod.split intro!: dget_add_to dget_reduce_open)

lemma same_ledger_apply: "same_ledger l t \<Longrightarrow> same_ledger (ledger_apply r sid l) (ledger_apply r sid t)"
  unfolding same_ledger_def ledger_apply_sel by (intro conjI dget_after) (auto split: option.split)

subsection \<open>Cash and positions\<close>

lemma fill_parties_sum:
  "fill_parties r = (b, s, db, ds) \<Longrightarrow> db + ds + fb_total_fee_ticks (calculate_fees (price_ticks r) (qty r)) = 0"
  by (auto simp: fill_parties_def calculate_fees_def Let_def split: if_splits)

text \<open>The balance an \<open>AccountCreated\<close> overwrites.\<close>

definition overwritten :: "wire \<Rightarrow> ledger \<Rightarrow> int" where
  "overwritten r l = (if is_AccountCreated r then get_balance l (user_id r) else 0)"

lemma total_user_cash_dsum: "total_user_cash l = dsum id (cash_balances l)"
  by (simp add: total_user_cash_def dsum_def)

lemma cash_step:
  "total_system_cash (ledger_apply r sid l) - total_deposits_ticks (ledger_apply r sid l) =
     total_system_cash l - total_deposits_ticks l - overwritten r l"
  using fill_parties_sum [of r]
  by (cases "fill_parties r")
     (auto simp: total_system_cash_def total_user_cash_dsum ledger_apply_sel cash_after_def fee_of_def
       deposit_of_def overwritten_def get_balance_def sum_add_to dsum_dset dget0_def split: option.splits)

text \<open>
  The log creates every account before anything else reaches it: \<open>seen\<close> are the users an
  earlier record created, credited or filled.
\<close>

definition users_of :: "wire \<Rightarrow> int set" where
  "users_of r = (if is_AccountCreated r \<or> is_CashCredited r then {user_id r}
                 else if is_Fill r then {maker_user_id r, taker_user_id r} else {})"

fun created_first :: "int set \<Rightarrow> wire list \<Rightarrow> bool" where
  "created_first seen [] = True"
| "created_first seen (r # rs) =
     ((is_AccountCreated r \<longrightarrow> user_id r \<notin> seen) \<and> created_first (seen \<union> users_of r) rs)"

lemma cash_after_untouched: "u \<notin> users_of r \<Longrightarrow> dget0 (cash_after r d) u = dget0 d u"
  by (auto simp: cash_after_def users_of_def fill_parties_def Let_def split: if_splits)

lemma run_conserves:
  assumes "created_first seen (map snd es)" "\<And>u. u \<notin> seen \<Longrightarrow> get_balance l u = 0"
  shows "total_system_cash (ledger_run es l) - total_deposits_ticks (ledger_run es l) =
    total_system_cash l - total_deposits_ticks l"
  using assms
proof (induction es arbitrary: seen l)
  case (Cons e es)
  obtain i r where e: "e = (i, r)" by (cases e)
  let ?l = "ledger_apply r (Some i) l"
  have "get_balance ?l u = 0" if "u \<notin> seen \<union> users_of r" for u
    using that Cons.prems(2) [of u] by (simp add: get_balance_def ledger_apply_sel cash_after_untouched)
  from Cons.IH [OF _ this, of "seen \<union> users_of r"] Cons.prems(1) e
  have "total_system_cash (ledger_run es ?l) - total_deposits_ticks (ledger_run es ?l) =
      total_system_cash ?l - total_deposits_ticks ?l" by simp
  moreover have "overwritten r l = 0" using Cons.prems e by (auto simp: overwritten_def)
  ultimately show ?case using cash_step [of r "Some i" l] e by (simp add: ledger_run_def ledger_step_def)
qed (simp add: ledger_run_def)

lemma run_sel:
  "house_fee_ticks (ledger_run es l) = house_fee_ticks l + sum_list (map (fee_of \<circ> snd) es)"
  "total_deposits_ticks (ledger_run es l) = total_deposits_ticks l + sum_list (map (deposit_of \<circ> snd) es)"
  "events_processed (ledger_run es l) = events_processed l + int (length es)"
  by (induction es arbitrary: l) (simp_all add: ledger_run_def ledger_step_def ledger_apply_sel)

definition net_position :: "int \<Rightarrow> ledger \<Rightarrow> int" where
  "net_position sy l = ksum (\<lambda>(u, s) q. if s = sy then q else 0) (lg_positions l)"

lemma net_position_apply: "net_position sy (ledger_apply r sid l) = net_position sy l"
proof -
  have k: "ksum (\<lambda>(u, s) q. if s = sy then q else 0) (add_to (u, s) x d) =
      ksum (\<lambda>(u, s) q. if s = sy then q else 0) d + (if s = sy then 1 else 0) * x" for u s x d
    by (rule ksum_add_to) simp
  show ?thesis
    by (simp add: net_position_def ledger_apply_sel positions_after_def k split: prod.split)
qed

subsection \<open>The checkpoint\<close>

lemma oo_of_values [simp]: "oo_of_values (oo_values ord) = Inr ord"
  by (simp add: oo_of_values_def oo_values_def)

lemma keyed_order_of_jrow: "oo_order_id ord = i \<Longrightarrow> keyed_order_of (jrow (oo_values ord)) = Inr (i, ord)"
  by (simp add: keyed_order_of_def oo_values_def oo_of_values_def)

lemma wf_ledger_json: "wf_json (ledger_json l)"
  by (simp add: ledger_json_def)

lemma ledger_load_dump:
  assumes "wf_ledger l"
  shows "\<exists>t. ledger_load (ledger_dump l) = Inr t \<and> wf_ledger t \<and> same_ledger t l"
proof -
  have wf: "wf_dict (cash_balances l)" "wf_dict (lg_positions l)" "wf_dict (open_orders l)"
    and key: "keyed_by_id (open_orders l)"
    using assms by (simp_all add: wf_ledger_def)
  obtain cs where cs: "each pair_of (map jrow (sort (map (\<lambda>(u, c). [u, c]) (cash_balances l)))) = Inr cs"
    "wf_dict (dict_of cs)" "dget (dict_of cs) = dget (cash_balances l)"
    using pair_rows [OF wf(1)] by blast
  obtain ps where ps: "each keyed_of (map jrow (sort (map (\<lambda>((u, sy), q). [u, sy, q]) (lg_positions l)))) = Inr ps"
    "wf_dict (dict_of ps)" "dget (dict_of ps) = dget (lg_positions l)"
    using keyed_rows [OF wf(2)] by blast
  have "keyed_order_of (jrow ((\<lambda>(i, ord). oo_values ord) p)) = Inr p" if p: "p \<in> set (open_orders l)" for p
  proof -
    have "oo_order_id (snd p) = fst p"
      using p key by (simp add: keyed_by_id_def dget_in_set [OF wf(3)])
    then show ?thesis using keyed_order_of_jrow [of "snd p" "fst p"] by (simp add: case_prod_unfold)
  qed
  then obtain os where os: "each keyed_order_of (map jrow (sort (map (\<lambda>(i, ord). oo_values ord) (open_orders l)))) = Inr os"
    "wf_dict (dict_of os)" "dget (dict_of os) = dget (open_orders l)"
    using dict_of_jrows [OF wf(3), of keyed_order_of "\<lambda>(i, ord). oo_values ord"] by blast
  define t where "t = new_ledger\<lparr>cash_balances := dict_of cs, lg_positions := dict_of ps, open_orders := dict_of os,
    house_fee_ticks := house_fee_ticks l, total_deposits_ticks := total_deposits_ticks l, last_seq := last_seq l,
    events_processed := events_processed l\<rparr>"
  have "ledger_load (ledger_dump l) = Inr t"
    unfolding ledger_load_def ledger_dump_def json_loads_dumps [OF wf_ledger_json]
    by (simp add: ledger_json_def cs(1) ps(1) os(1) t_def)
  moreover have "wf_ledger t" using cs ps os key by (simp add: t_def wf_ledger_def keyed_by_id_def)
  moreover have "same_ledger t l" using cs ps os by (simp add: t_def same_ledger_def)
  ultimately show ?thesis by blast
qed

lemma ledger_dump_same:
  assumes "wf_ledger l" "wf_ledger t" "same_ledger l t"
  shows "ledger_dump l = ledger_dump t"
proof -
  have "jrows (map (\<lambda>(u, c). [u, c]) (cash_balances l)) = jrows (map (\<lambda>(u, c). [u, c]) (cash_balances t))"
    "jrows (map (\<lambda>((u, sy), q). [u, sy, q]) (lg_positions l)) = jrows (map (\<lambda>((u, sy), q). [u, sy, q]) (lg_positions t))"
    "jrows (map (\<lambda>(i, ord). oo_values ord) (open_orders l)) = jrows (map (\<lambda>(i, ord). oo_values ord) (open_orders t))"
    using assms by (auto simp: wf_ledger_def same_ledger_def intro!: jrows_cong)
  then show ?thesis
    using assms(3) unfolding ledger_dump_def ledger_json_def by (simp add: same_ledger_def)
qed

interpretation lg: checkpointed ledger_step ledger_dump ledger_load wf_ledger same_ledger
proof
  show "wf_ledger s \<Longrightarrow> wf_ledger (ledger_step e s)" for s e
    by (simp add: ledger_step_def wf_ledger_apply)
  show "same_ledger s t \<Longrightarrow> same_ledger (ledger_step e s) (ledger_step e t)" for s t e
    by (simp add: ledger_step_def same_ledger_apply)
qed (rule ledger_dump_same ledger_load_dump; assumption)+

interpretation lgr: replay_loop ledger_replay_after ledger_run "\<lambda>p n l. (l, n)" "\<lambda>_. True"
proof
  show "ledger_replay_after read p n l = (if read p = [] then Some (l, n)
      else ledger_replay_after read (fst (last (read p))) (n + int (length (read p))) (ledger_run (read p) l))" for read p n l
    by (subst ledger_replay_after.simps) (simp add: Let_def)
qed (simp_all add: ledger_run_def)

subsection \<open>Open orders\<close>

definition open_row :: "open_order \<Rightarrow> row" where
  "open_row ord = (oo_symbol_id ord, oo_side ord, oo_price_ticks ord, oo_remaining_qty ord)"

definition open_rows :: "ledger \<Rightarrow> rowmap" where
  "open_rows l i = map_option open_row (dget (open_orders l) i)"

lemma rows_reduce_open:
  "map_option open_row (dget (reduce_open i q d) j) = take_from i q (\<lambda>j. map_option open_row (dget d j)) j"
  by (auto simp: reduce_open_def take_from_def open_row_def Let_def split: option.splits)

lemma rows_reduce_open': "(\<lambda>j. map_option open_row (dget (reduce_open i q d) j)) =
    take_from i q (\<lambda>j. map_option open_row (dget d j))"
  by (rule ext) (rule rows_reduce_open)

interpretation lgb: order_projection "\<lambda>i r. ledger_apply r (Some i)" open_rows "\<lambda>_. True" "\<lambda>_. True"
proof
  fix s :: ledger and r :: wire and i
  show "open_rows (ledger_apply r (Some i) s) = (open_rows s)(order_id r \<mapsto> (symbol_id r, side r, price_ticks r, qty r))"
    if "is_OrderAccepted r"
    using that by (auto simp: fun_eq_iff open_rows_def ledger_apply_sel orders_after_def open_row_def accepted_order_def)
  show "open_rows (ledger_apply r (Some i) s) =
      take_from (taker_order_id r) (qty r) (take_from (maker_order_id r) (qty r) (open_rows s))" if "is_Fill r"
  proof -
    have "\<not> is_OrderAccepted r" "\<not> is_OrderCancelled r" using that by (cases r; simp)+
    with that show ?thesis
      unfolding open_rows_def [abs_def] by (simp add: ledger_apply_sel orders_after_def rows_reduce_open')
  qed
  show "open_rows (ledger_apply r (Some i) s) = (open_rows s)(order_id r := None)"
    if r: "is_OrderCancelled r" and x: "exact_cancel r (open_rows s)"
  proof -
    have "\<not> is_OrderAccepted r" using r by (cases r) auto
    with r have "open_rows (ledger_apply r (Some i) s) = take_from (order_id r) (remaining_qty r) (open_rows s)"
      unfolding open_rows_def [abs_def] by (simp add: ledger_apply_sel orders_after_def rows_reduce_open')
    with r x show ?thesis
      by (auto simp: take_from_def exact_cancel_def fun_eq_iff split: option.splits)
  qed
  show "open_rows (ledger_apply r (Some i) s) = open_rows s" if "\<not> moves_orders (\<lambda>_. True) r"
    using that by (auto simp: open_rows_def [abs_def] ledger_apply_sel orders_after_def moves_orders_def)
qed simp

lemma lgb_run: "lgb.run es l = ledger_run es l"
  unfolding lgb.run_def ledger_run_def
  by (rule arg_cong [where f = "\<lambda>f. fold f es l"]) (simp add: fun_eq_iff ledger_step_def split: prod.split)

subsection \<open>Properties\<close>

text \<open>C5. Invariant I10, cash conservation: after any log in which each account is created
  before anything else reaches it, user cash plus house fees is exactly the sum of the grants
  and credits of the log, and the house holds exactly the fees of its fills.\<close>

theorem ledger_conserves_cash:
  assumes "created_first {} (map snd es)"
  shows "total_system_cash (ledger_run es new_ledger) = sum_list (map (deposit_of \<circ> snd) es) \<and>
    house_fee_ticks (ledger_run es new_ledger) = sum_list (map (fee_of \<circ> snd) es)"
proof -
  have "get_balance new_ledger u = 0" for u by (simp add: get_balance_def new_ledger_def)
  from run_conserves [OF assms this] run_sel [of es new_ledger] show ?thesis
    by (simp add: total_system_cash_def total_user_cash_def new_ledger_def)
qed

definition demo_outbound :: "(string \<times> wire) list" where
  "demo_outbound =
     [(''1-0'', AccountCreated_new 9 1 41 5000000), (''1-1'', AccountCreated_new 9 2 42 0),
      (''2-0'', OrderAccepted_new 9 1 11 42 50000 3 1 2 1), (''3-0'', OrderAccepted_new 9 2 12 41 50000 2 1 1 1),
      (''3-1'', Fill_new 9 1 2 42 41 50000 2 1 1), (''4-0'', CashCredited_new 9 3 42 7)]"

lemmas record_sel = AccountCreated_new_def CashCredited_new_def OrderAccepted_new_def Fill_new_def
  OrderCancelled_new_def

theorem ledger_conserves_cash_witness:
  "total_system_cash (ledger_run demo_outbound new_ledger) = 5000007 \<and>
    house_fee_ticks (ledger_run demo_outbound new_ledger) = 120"
proof -
  have "created_first {} (map snd demo_outbound)"
    by (simp add: demo_outbound_def record_sel users_of_def)
  from ledger_conserves_cash [OF this] show ?thesis
    by (simp add: demo_outbound_def record_sel deposit_of_def fee_of_def calculate_fees_def fee_consts)
qed

text \<open>Positions always net to zero: for every symbol, whatever the log, every unit one
  account holds another account is short of.\<close>

theorem positions_net_to_zero: "net_position sy (ledger_run es new_ledger) = 0"
proof -
  have "net_position sy (ledger_run es l) = net_position sy l" for l
    by (induction es arbitrary: l) (simp_all add: ledger_run_def ledger_step_def net_position_apply)
  then show ?thesis by (simp add: net_position_def new_ledger_def)
qed

text \<open>The fees of a fill are the rates, rounded down by less than a tick: the taker pays
  10 bps and the maker 2 bps of the notional, the maker never pays more than the taker, and
  the house gets what the two pay.\<close>

theorem fees_within_a_tick:
  assumes "0 \<le> px" "0 \<le> q"
  shows "fb_notional (calculate_fees px q) = px * q \<and>
    0 \<le> fb_maker_fee_ticks (calculate_fees px q) \<and>
    fb_maker_fee_ticks (calculate_fees px q) \<le> fb_taker_fee_ticks (calculate_fees px q) \<and>
    1000 * fb_taker_fee_ticks (calculate_fees px q) \<le> px * q \<and>
    px * q < 1000 * fb_taker_fee_ticks (calculate_fees px q) + 1000 \<and>
    5000 * fb_maker_fee_ticks (calculate_fees px q) \<le> px * q \<and>
    px * q < 5000 * fb_maker_fee_ticks (calculate_fees px q) + 5000 \<and>
    fb_total_fee_ticks (calculate_fees px q) =
      fb_maker_fee_ticks (calculate_fees px q) + fb_taker_fee_ticks (calculate_fees px q)"
  using fees_bounds [OF assms] by blast

theorem fees_within_a_tick_witness:
  "fb_notional (calculate_fees 50001 3) = 150003 \<and>
    1000 * fb_taker_fee_ticks (calculate_fees 50001 3) \<le> 150003 \<and>
    150003 < 1000 * fb_taker_fee_ticks (calculate_fees 50001 3) + 1000"
  using fees_within_a_tick [of 50001 3] by simp

text \<open>A ledger checkpoint holds everything: from the bytes of a ledger's dump a ledger is
  loaded that agrees with it on every balance, position and open order and dumps the same
  bytes.\<close>

theorem ledger_checkpoint_roundtrip:
  assumes "l = ledger_run es new_ledger"
  shows "\<exists>t. ledger_load (ledger_dump l) = Inr t \<and> ledger_dump t = ledger_dump l \<and>
    (\<forall>u sy. get_balance t u = get_balance l u \<and> get_position t u sy = get_position l u sy) \<and>
    (\<forall>i. dget (open_orders t) i = dget (open_orders l) i) \<and>
    house_fee_ticks t = house_fee_ticks l \<and> last_seq t = last_seq l"
proof -
  have l: "wf_ledger l" unfolding assms ledger_run_def by (rule lg.run_ok [OF wf_new_ledger])
  obtain t where t: "ledger_load (ledger_dump l) = Inr t" using lg.load_dump [OF l] by blast
  then have "same_ledger t l" "ledger_dump t = ledger_dump l" using lg.load_again [OF l] by blast+
  with t show ?thesis
    by (auto simp: same_ledger_def get_balance_def get_position_def dget0_def intro!: exI [of _ t])
qed

theorem ledger_checkpoint_roundtrip_witness:
  "\<exists>t. ledger_load (ledger_dump (ledger_run demo_outbound new_ledger)) = Inr t \<and>
    ledger_dump t = ledger_dump (ledger_run demo_outbound new_ledger)"
  using ledger_checkpoint_roundtrip [OF refl, of demo_outbound] by auto

text \<open>Restarting the ledger changes nothing: loading the checkpoint taken after any part of
  the stream and replaying the rest dumps the same bytes as never having stopped.\<close>

theorem ledger_resumes:
  "\<exists>t. ledger_load (ledger_dump (ledger_run before new_ledger)) = Inr t \<and>
    ledger_dump (ledger_run rest t) = ledger_dump (ledger_run (before @ rest) new_ledger)"
  unfolding ledger_run_def by (rule lg.resume [OF wf_new_ledger])

text \<open>The ledger's open orders are the matcher's book: after any log of commands, folding
  the matcher's outbound records into a new ledger leaves exactly the orders the matcher lists
  as resting, each with its symbol, side, price and remaining quantity.\<close>

theorem ledger_holds_the_book:
  assumes "apply_all log (new_matcher first cash) = Inr (m, map snd es)"
  shows "\<exists>rows. resting m = Inr rows \<and> sorted_wrt (<) (map fst rows) \<and>
    (\<forall>i y. (i, y) \<in> set rows \<longleftrightarrow> open_rows (ledger_run es new_ledger) i = Some y)"
proof (rule rows_of_resting)
  show "wf_matcher m" using apply_all_refines [OF wf_new_matcher, of log first cash] assms by auto
  have "open_rows new_ledger = (\<lambda>_. None)" by (simp add: open_rows_def [abs_def] new_ledger_def)
  from lgb.follows_new_matcher [OF assms _ this]
  show "rows_of (\<lambda>_. True) (abs_matcher m) (open_rows (ledger_run es new_ledger))" by (simp add: lgb_run)
qed

definition demo_commands :: "wire list" where
  "demo_commands = [CreateAccount_new 9 1 41, SubmitOrder_new 9 11 42 50000 3 1 2 1,
     SubmitOrder_new 9 12 41 50001 2 1 1 2, SubmitOrder_new 9 13 41 49999 5 1 1 1]"

theorem ledger_holds_the_book_witness:
  "\<exists>m es rows. apply_all demo_commands (new_matcher 1 1000) = Inr (m, map snd es) \<and> resting m = Inr rows \<and>
    (\<forall>i y. (i, y) \<in> set rows \<longleftrightarrow> open_rows (ledger_run es new_ledger) i = Some y)"
proof -
  obtain m out where run: "apply_all demo_commands (new_matcher 1 1000) = Inr (m, out)"
    using apply_all_refines [OF wf_new_matcher, of demo_commands 1 1000] by auto
  have "out = map snd (map (\<lambda>r. (''1-0'', r)) out)" by (simp add: comp_def)
  with run have "apply_all demo_commands (new_matcher 1 1000) = Inr (m, map snd (map (\<lambda>r. (''1-0'', r)) out))" by simp
  from this ledger_holds_the_book [OF this] show ?thesis by blast
qed

end
