(* ===== verification/Read_Model.thy ===== *)
theory Read_Model
  imports Ledger_Spec
begin

section \<open>The read model: services/ledger/consumer.py\<close>

text \<open>
  \<open>LedgerConsumer\<close> keeps PostgreSQL in step with the ledger by writing the rows the last batch
  touched. The tables are those of services/gateway/models.py: accounts by user, positions
  without a unique key, open orders by id, the house fee row. A statement is the function on
  the tables its text describes; whether the transaction commits is an argument, because the
  database may fail at any point, and a failed transaction changes nothing.

  The result: however batches and failures interleave, either the consumer knows that it must
  rewrite everything, or the tables are the ledger.
\<close>

subsection \<open>Tables and statements\<close>

type_synonym position_row = "int \<times> int \<times> int \<times> int"

record read_model =
  tb_accounts :: "(int, int \<times> int) dict"
  tb_positions :: "position_row list"
  tb_open_orders :: "(int, open_order) dict"
  tb_house_fees :: "(int, int \<times> int) dict"

text \<open>\<open>INSERT \<dots> ON CONFLICT (user_id) DO UPDATE SET cash_ticks\<close>, over a list of parameters.\<close>

definition upsert_account :: "int \<Rightarrow> int \<times> int \<Rightarrow> (int, int \<times> int) dict \<Rightarrow> (int, int \<times> int) dict" where
  "upsert_account now p tb =
     dset (fst p) (case dget tb (fst p) of None \<Rightarrow> (snd p, now) | Some (_, created) \<Rightarrow> (snd p, created)) tb"

definition pos_key :: "position_row \<Rightarrow> int \<times> int" where
  "pos_key row = (fst row, fst (snd row))"

definition delete_position :: "int \<times> int \<Rightarrow> position_row list \<Rightarrow> position_row list" where
  "delete_position k tb = filter (\<lambda>row. pos_key row \<noteq> k) tb"

text \<open>\<open>INSERT \<dots> ON CONFLICT (order_id) DO UPDATE SET remaining_qty\<close>.\<close>

definition upsert_order :: "open_order \<Rightarrow> (int, open_order) dict \<Rightarrow> (int, open_order) dict" where
  "upsert_order ord tb =
     dset (oo_order_id ord)
       (case dget tb (oo_order_id ord) of
          None \<Rightarrow> ord | Some row \<Rightarrow> row\<lparr>oo_remaining_qty := oo_remaining_qty ord\<rparr>) tb"

subsection \<open>flush_to_db\<close>

text \<open>The parameter rows of the accounts statement: a dirty account the ledger lacks raises.\<close>

definition account_rows :: "int set \<Rightarrow> ledger \<Rightarrow> exn + (int \<times> int) list" where
  "account_rows dirty l =
     each (\<lambda>u. case dget (cash_balances l) u of None \<Rightarrow> Inl KeyError | Some c \<Rightarrow> Inr (u, c))
       (sorted_list_of_set dirty)"

definition position_rows :: "int \<Rightarrow> (int \<times> int) set \<Rightarrow> ledger \<Rightarrow> position_row list" where
  "position_rows now dirty l =
     map (\<lambda>(u, sy). (u, sy, dget0 (lg_positions l) (u, sy), now))
       (filter (\<lambda>k. dget0 (lg_positions l) k \<noteq> 0) (sorted_list_of_set dirty))"

definition order_rows :: "int set \<Rightarrow> ledger \<Rightarrow> open_order list" where
  "order_rows dirty l = List.map_filter (dget (open_orders l)) (sorted_list_of_set dirty)"

definition flush_tables ::
  "bool \<Rightarrow> int \<Rightarrow> int set \<Rightarrow> (int \<times> int) set \<Rightarrow> int set \<Rightarrow> ledger \<Rightarrow> read_model \<Rightarrow> exn + read_model" where
  "flush_tables full now da dp dor l db =
     (case account_rows da l of
        Inl e \<Rightarrow> Inl e
      | Inr accounts \<Rightarrow>
          Inr \<lparr> tb_accounts = fold (upsert_account now) accounts (tb_accounts db),
                tb_positions =
                  (if full then [] else fold delete_position (sorted_list_of_set dp) (tb_positions db))
                    @ position_rows now dp l,
                tb_open_orders =
                  fold upsert_order (order_rows dor l)
                    (if full then []
                     else fold dpop (filter (\<lambda>i. dget (open_orders l) i = None) (sorted_list_of_set dor))
                            (tb_open_orders db)),
                tb_house_fees =
                  dset 1 (house_fee_ticks l, now) (tb_house_fees db) \<rparr>)"

text \<open>The dirty sets are taken before the transaction, so a failure loses them.\<close>

definition flush_to_db :: "bool \<Rightarrow> int \<Rightarrow> ledger \<Rightarrow> read_model \<Rightarrow> ledger \<times> (exn + read_model)" where
  "flush_to_db full now l0 db =
     (let (l, da, dp, dor) = take_dirty l0
      in (l, if full
             then flush_tables True now (set (dkeys (cash_balances l))) (set (dkeys (lg_positions l)))
                    (set (dkeys (open_orders l))) l db
             else flush_tables False now da dp dor l db))"

subsection \<open>The consumer\<close>

record consumer =
  cs_ledger :: ledger
  cs_db :: read_model
  cs_needs_full_flush :: bool

text \<open>The loop body of \<open>run\<close> for one batch; \<open>commits\<close>: what the database does.\<close>

definition consume_batch :: "(string \<times> wire) list \<Rightarrow> bool \<Rightarrow> int \<Rightarrow> consumer \<Rightarrow> consumer" where
  "consume_batch batch commits now c =
     (if batch = [] then c
      else (let (l, r) = flush_to_db (cs_needs_full_flush c) now (ledger_run batch (cs_ledger c)) (cs_db c)
            in case r of
                 Inr db \<Rightarrow> if commits then \<lparr> cs_ledger = l, cs_db = db, cs_needs_full_flush = False \<rparr>
                           else \<lparr> cs_ledger = l, cs_db = cs_db c, cs_needs_full_flush = True \<rparr>
               | Inl _ \<Rightarrow> \<lparr> cs_ledger = l, cs_db = cs_db c, cs_needs_full_flush = True \<rparr>))"

text \<open>\<open>recover\<close>: the checkpoint's ledger or a new one, the tail of the stream, a full flush.\<close>

definition consumer_recover ::
  "(string \<times> string) option \<Rightarrow> (string \<Rightarrow> (string \<times> wire) list) \<Rightarrow> int \<Rightarrow> ledger \<Rightarrow> read_model \<Rightarrow>
   exn + (ledger \<times> read_model)" where
  "consumer_recover saved tail now l db =
     sbind (case saved of
              None \<Rightarrow> Inr (ledger_reset l, ''0-0'')
            | Some (state, pos) \<Rightarrow> sbind (ledger_load state) (\<lambda>l. Inr (l\<lparr>last_seq := pos\<rparr>, pos)))
       (\<lambda>(l1, pos).
         let (l2, r) = flush_to_db True now (ledger_run (tail pos) l1) db
         in sbind r (\<lambda>db'. Inr (l2, db')))"

subsection \<open>Folding keyed updates\<close>

lemma dget_fold_keyed:
  assumes "distinct (map k xs)"
  shows "dget (fold (\<lambda>x d. dset (k x) (g x (dget d (k x))) d) xs d) i =
    (case find (\<lambda>x. k x = i) xs of None \<Rightarrow> dget d i | Some x \<Rightarrow> Some (g x (dget d i)))"
  using assms
proof (induction xs arbitrary: d)
  case (Cons x xs)
  have "find (\<lambda>y. k y = k x) xs = None" using Cons.prems by (auto simp: find_None_iff image_iff)
  with Cons show ?case by (auto split: option.split)
qed simp

lemma find_map_filter:
  assumes "\<And>i ord. f i = Some ord \<Longrightarrow> k ord = i" "distinct ks"
  shows "find (\<lambda>x. k x = i) (List.map_filter f ks) = (if i \<in> set ks then f i else None)"
  using assms(2)
proof (induction ks)
  case (Cons j ks)
  then show ?case using assms(1) [of j] by (auto simp: map_filter_simps split: option.split)
qed (simp add: map_filter_simps)

lemma fold_delete_position:
  "fold delete_position ks tb = filter (\<lambda>row. pos_key row \<notin> set ks) tb"
  by (induction ks arbitrary: tb) (auto simp: delete_position_def intro!: filter_cong)

subsection \<open>What the tables hold after a flush\<close>

definition held :: "int \<times> int \<Rightarrow> position_row list \<Rightarrow> int list" where
  "held k tb = map (\<lambda>row. fst (snd (snd row))) (filter (\<lambda>row. pos_key row = k) tb)"

definition nonzero :: "int \<Rightarrow> int list" where
  "nonzero q = (if q \<noteq> 0 then [q] else [])"

definition mirrors :: "read_model \<Rightarrow> ledger \<Rightarrow> bool" where
  "mirrors db l \<longleftrightarrow>
     (\<forall>u c. dget (cash_balances l) u = Some c \<longrightarrow> map_option fst (dget (tb_accounts db) u) = Some c) \<and>
     (\<forall>k. held k (tb_positions db) = nonzero (dget0 (lg_positions l) k)) \<and>
     dget (tb_open_orders db) = dget (open_orders l) \<and>
     map_option fst (dget (tb_house_fees db) 1) = Some (house_fee_ticks l)"

text \<open>The same, but for the keys that are still dirty; two versions of a dirty order agree but
  for what is left of it.\<close>

definition same_terms :: "open_order \<Rightarrow> open_order \<Rightarrow> bool" where
  "same_terms a b \<longleftrightarrow> a\<lparr>oo_remaining_qty := 0\<rparr> = b\<lparr>oo_remaining_qty := 0\<rparr>"

definition nearly_mirrors :: "read_model \<Rightarrow> ledger \<Rightarrow> bool" where
  "nearly_mirrors db l \<longleftrightarrow>
     (\<forall>u c. u \<notin> dirty_accounts l \<longrightarrow> dget (cash_balances l) u = Some c \<longrightarrow>
        map_option fst (dget (tb_accounts db) u) = Some c) \<and>
     (\<forall>k. k \<notin> dirty_positions l \<longrightarrow> held k (tb_positions db) = nonzero (dget0 (lg_positions l) k)) \<and>
     (\<forall>i. i \<notin> dirty_orders l \<longrightarrow> dget (tb_open_orders db) i = dget (open_orders l) i) \<and>
     (\<forall>i a b. dget (tb_open_orders db) i = Some a \<longrightarrow> dget (open_orders l) i = Some b \<longrightarrow> same_terms a b)"

definition dirty_ok :: "ledger \<Rightarrow> bool" where
  "dirty_ok l \<longleftrightarrow> finite (dirty_accounts l) \<and> finite (dirty_positions l) \<and> finite (dirty_orders l) \<and>
     dirty_accounts l \<subseteq> set (dkeys (cash_balances l))"

lemma same_terms_refl [simp]: "same_terms a a"
  by (simp add: same_terms_def)

lemma same_terms_update: "same_terms a b \<Longrightarrow> a\<lparr>oo_remaining_qty := oo_remaining_qty b\<rparr> = b"
  unfolding same_terms_def
  by (metis (full_types) open_order.surjective open_order.update_convs(8) open_order.fold_congs(8))

lemma account_rows_ok:
  assumes "finite da" "da \<subseteq> set (dkeys (cash_balances l))"
  shows "account_rows da l = Inr (map (\<lambda>u. (u, the (dget (cash_balances l) u))) (sorted_list_of_set da))"
proof -
  have "each (\<lambda>u. case dget (cash_balances l) u of None \<Rightarrow> Inl KeyError | Some c \<Rightarrow> Inr (u, c)) (map id (sorted_list_of_set da)) =
      Inr (map (\<lambda>u. (u, the (dget (cash_balances l) u))) (sorted_list_of_set da))"
    by (rule each_map) (use assms dget_key_iff in \<open>fastforce split: option.split\<close>)
  then show ?thesis by (simp add: account_rows_def)
qed

lemma accounts_after:
  assumes "finite da"
  shows "map_option fst (dget (fold (upsert_account now) (map (\<lambda>u. (u, f u)) (sorted_list_of_set da)) tb) u) =
    (if u \<in> da then Some (f u) else map_option fst (dget tb u))"
proof -
  define g where "g p old = (case old of None \<Rightarrow> (snd p, now) | Some (_, created) \<Rightarrow> (snd p, created))"
    for p :: "int \<times> int" and old :: "(int \<times> int) option"
  let ?xs = "map (\<lambda>u. (u, f u)) (sorted_list_of_set da)"
  have up: "upsert_account now = (\<lambda>x d. dset (fst x) (g x (dget d (fst x))) d)"
    by (simp add: fun_eq_iff upsert_account_def g_def)
  have dist: "distinct (map fst ?xs)" by (simp add: comp_def)
  have "find (\<lambda>x. fst x = u) ?xs = (if u \<in> da then Some (u, f u) else None)"
  proof -
    have "find (\<lambda>x. fst x = u) (map (\<lambda>u. (u, f u)) ks) = (if u \<in> set ks then Some (u, f u) else None)" for ks
      by (induction ks) auto
    then show ?thesis using assms by simp
  qed
  then show ?thesis unfolding up dget_fold_keyed [OF dist] by (simp add: g_def split: option.split)
qed

lemma orders_after_flush:
  assumes "finite dor" "keyed_by_id (open_orders l)"
    "\<And>a b. dget tb i = Some a \<Longrightarrow> dget (open_orders l) i = Some b \<Longrightarrow> same_terms a b"
  shows "dget (fold upsert_order (order_rows dor l) tb) i =
    (if i \<in> dor \<and> dget (open_orders l) i \<noteq> None then dget (open_orders l) i else dget tb i)"
proof -
  define g where "g ord old = (case old of None \<Rightarrow> ord | Some row \<Rightarrow> row\<lparr>oo_remaining_qty := oo_remaining_qty ord\<rparr>)"
    for ord :: open_order and old
  have up: "upsert_order = (\<lambda>x d. dset (oo_order_id x) (g x (dget d (oo_order_id x))) d)"
    by (simp add: fun_eq_iff upsert_order_def g_def)
  have key: "oo_order_id ord = i" if "dget (open_orders l) i = Some ord" for i ord
    using that assms(2) by (simp add: keyed_by_id_def)
  have dist: "distinct (map oo_order_id (List.map_filter (dget (open_orders l)) ks))" if "distinct ks" for ks
    using that
  proof (induction ks)
    case (Cons j ks)
    have "oo_order_id x \<in> set ks" if "x \<in> set (List.map_filter (dget (open_orders l)) ks)" for x
      using that key by (auto simp: List.map_filter_def)
    with Cons show ?case using key [of j] by (auto simp: map_filter_simps split: option.split)
  qed (simp add: map_filter_simps)
  have dist': "distinct (map oo_order_id (order_rows dor l))" unfolding order_rows_def by (rule dist) simp
  have "find (\<lambda>x. oo_order_id x = i) (order_rows dor l) = (if i \<in> dor then dget (open_orders l) i else None)"
    unfolding order_rows_def using find_map_filter [of "dget (open_orders l)" oo_order_id] key assms(1) by simp
  then show ?thesis
    unfolding up dget_fold_keyed [OF dist'] using assms(3)
    by (auto simp: g_def same_terms_update split: option.splits)
qed

lemma held_append: "held k (xs @ ys) = held k xs @ held k ys"
  by (simp add: held_def)

lemma held_rows:
  assumes "finite dp"
  shows "held k (position_rows now dp l) = (if k \<in> dp then nonzero (dget0 (lg_positions l) k) else [])"
proof -
  define ks where "ks = filter (\<lambda>k. dget0 (lg_positions l) k \<noteq> 0) (sorted_list_of_set dp)"
  have "held k (map (\<lambda>(u, sy). (u, sy, dget0 (lg_positions l) (u, sy), now)) js) =
      (if k \<in> set js then [dget0 (lg_positions l) k] else [])" if "distinct js" for js
    using that by (induction js) (auto simp: held_def pos_key_def)
  from this [of ks] show ?thesis
    using assms by (auto simp: position_rows_def ks_def nonzero_def)
qed

lemma held_deleted: "held k (filter (\<lambda>row. pos_key row \<notin> K) tb) = (if k \<in> K then [] else held k tb)"
  by (induction tb) (auto simp: held_def)

lemma flush_full:
  assumes "wf_ledger l"
  shows "\<exists>db'. flush_tables True now (set (dkeys (cash_balances l))) (set (dkeys (lg_positions l)))
      (set (dkeys (open_orders l))) l db = Inr db' \<and> mirrors db' l"
proof -
  have "dget (fold upsert_order (order_rows (set (dkeys (open_orders l))) l) []) i = dget (open_orders l) i" for i
    using orders_after_flush [of "set (dkeys (open_orders l))" l "[]" i] assms dget_None_iff [of "open_orders l" i]
    by (auto simp: wf_ledger_def)
  moreover have "held k (position_rows now (set (dkeys (lg_positions l))) l) = nonzero (dget0 (lg_positions l) k)" for k
    using held_rows [of "set (dkeys (lg_positions l))" k now l] dget_None_iff [of "lg_positions l" k]
    by (auto simp: dget0_def nonzero_def)
  moreover have "u \<in> set (dkeys (cash_balances l))" if "dget (cash_balances l) u = Some c" for u c
    using that by (rule dget_Some_key)
  moreover have "map_option fst (dget (fold (upsert_account now) (map (\<lambda>u. (u, the (dget (cash_balances l) u)))
      (sorted_list_of_set (set (dkeys (cash_balances l))))) (tb_accounts db)) u) = Some c"
    if "dget (cash_balances l) u = Some c" for u c
    using that dget_Some_key [OF that] by (simp add: accounts_after)
  moreover have "account_rows (set (dkeys (cash_balances l))) l =
      Inr (map (\<lambda>u. (u, the (dget (cash_balances l) u))) (sorted_list_of_set (set (dkeys (cash_balances l)))))"
    by (rule account_rows_ok) auto
  ultimately show ?thesis by (simp add: flush_tables_def mirrors_def fun_eq_iff del: set_map)
qed

lemma flush_partial:
  assumes "wf_ledger l" "dirty_ok l" "nearly_mirrors db l"
  shows "\<exists>db'. flush_tables False now (dirty_accounts l) (dirty_positions l) (dirty_orders l) l db = Inr db' \<and>
    mirrors db' l"
proof -
  have fin: "finite (dirty_accounts l)" "finite (dirty_positions l)" "finite (dirty_orders l)"
    and acc: "dirty_accounts l \<subseteq> set (dkeys (cash_balances l))" using assms(2) by (simp_all add: dirty_ok_def)
  let ?gone = "filter (\<lambda>i. dget (open_orders l) i = None) (sorted_list_of_set (dirty_orders l))"
  have "dget (fold upsert_order (order_rows (dirty_orders l) l) (fold dpop ?gone (tb_open_orders db))) i =
      dget (open_orders l) i" for i
    using orders_after_flush [OF fin(3), of l "fold dpop ?gone (tb_open_orders db)" i] assms(1,3) fin(3)
    by (auto simp: wf_ledger_def nearly_mirrors_def dget_fold_dpop)
  moreover have "held k (fold delete_position (sorted_list_of_set (dirty_positions l)) (tb_positions db) @
      position_rows now (dirty_positions l) l) = nonzero (dget0 (lg_positions l) k)" for k
  proof -
    have "k \<notin> dirty_positions l \<Longrightarrow> held k (tb_positions db) = nonzero (dget0 (lg_positions l) k)"
      using assms(3) unfolding nearly_mirrors_def by blast
    then show ?thesis using fin(2) by (simp add: held_append fold_delete_position held_deleted held_rows)
  qed
  moreover have "map_option fst (dget (fold (upsert_account now) (map (\<lambda>u. (u, the (dget (cash_balances l) u)))
      (sorted_list_of_set (dirty_accounts l))) (tb_accounts db)) u) = Some c" if "dget (cash_balances l) u = Some c" for u c
    using assms(3) that unfolding accounts_after [OF fin(1)] by (auto simp: nearly_mirrors_def)
  ultimately show ?thesis
    by (simp add: flush_tables_def account_rows_ok [OF fin(1) acc] mirrors_def fun_eq_iff)
qed

subsection \<open>What a batch dirties\<close>

lemma ledger_apply_dirty:
  "dirty_accounts (ledger_apply r sid l) = dirty_accounts l \<union>
     (if is_AccountCreated r \<or> is_CashCredited r then {user_id r}
      else if is_Fill r then {maker_user_id r, taker_user_id r} else {})"
  "dirty_positions (ledger_apply r sid l) = dirty_positions l \<union>
     (if is_Fill r then {(maker_user_id r, symbol_id r), (taker_user_id r, symbol_id r)} else {})"
  "dirty_orders (ledger_apply r sid l) = dirty_orders l \<union>
     (if is_OrderAccepted r \<or> is_OrderCancelled r then {order_id r}
      else if is_Fill r then {maker_order_id r, taker_order_id r} else {})"
  by (cases r; cases sid; auto simp: ledger_apply_def ledger_fill_def fill_parties_def Let_def)+

lemma fill_parties_users: "fill_parties r = (b, s, x, y) \<Longrightarrow> {b, s} = {maker_user_id r, taker_user_id r}"
  by (auto simp: fill_parties_def Let_def split: if_splits)

lemma dget_add_to_other: "k \<noteq> k' \<Longrightarrow> dget (add_to k x d) k' = dget d k'"
  by (simp add: add_to_def)

lemma keys_add_to [simp]: "set (dkeys (add_to k x d)) = insert k (set (dkeys d))"
  unfolding add_to_def by (rule set_dkeys_dset)

lemma cash_after_other: "u \<notin> users_of r \<Longrightarrow> dget (cash_after r d) u = dget d u"
proof (cases "fill_parties r")
  case (fields b s x y)
  assume u: "u \<notin> users_of r"
  then have "is_Fill r \<Longrightarrow> u \<noteq> b \<and> u \<noteq> s"
    using fill_parties_users [OF fields] by (cases r) (auto simp: users_of_def)
  with u show ?thesis
    by (auto simp: cash_after_def users_of_def fields dget_add_to_other split: if_splits)
qed

lemma cash_after_keys: "set (dkeys (cash_after r d)) = set (dkeys d) \<union> users_of r"
proof (cases "fill_parties r")
  case (fields b s x y)
  have "set (dkeys (add_to s y (add_to b x d))) = set (dkeys d) \<union> {maker_user_id r, taker_user_id r}"
    using fill_parties_users [OF fields] unfolding keys_add_to by blast
  moreover have "set (dkeys (dset u c d)) = set (dkeys d) \<union> {u}" "set (dkeys (add_to u c d)) = set (dkeys d) \<union> {u}" for u c
    unfolding set_dkeys_dset keys_add_to by blast+
  moreover have "is_Fill r \<Longrightarrow> \<not> is_AccountCreated r \<and> \<not> is_CashCredited r" by (cases r) auto
  ultimately show ?thesis by (simp add: cash_after_def users_of_def fields del: set_map)
qed

lemma positions_after_other:
  "\<not> is_Fill r \<or> k \<notin> {(maker_user_id r, symbol_id r), (taker_user_id r, symbol_id r)} \<Longrightarrow>
    dget0 (positions_after r d) k = dget0 d k"
  by (auto simp: positions_after_def fill_parties_def Let_def split: if_splits)

lemma reduce_open_terms:
  "dget (reduce_open j q d) i = Some b \<Longrightarrow> \<exists>b'. dget d i = Some b' \<and> same_terms b' b"
  by (auto simp: reduce_open_def Let_def same_terms_def split: option.splits if_splits)

lemma reduce_open_other: "i \<noteq> j \<Longrightarrow> dget (reduce_open j q d) i = dget d i"
  by (auto simp: reduce_open_def Let_def split: option.splits)

lemma same_terms_trans: "same_terms a b \<Longrightarrow> same_terms b c \<Longrightarrow> same_terms a c"
  by (simp add: same_terms_def)

lemma orders_after_terms:
  assumes "dget (orders_after r d) i = Some b" "\<not> is_OrderAccepted r \<or> order_id r \<noteq> i"
  shows "\<exists>b'. dget d i = Some b' \<and> same_terms b' b"
  using assms
  by (auto simp: orders_after_def split: if_splits dest!: reduce_open_terms intro: same_terms_trans)

lemma orders_after_other:
  assumes "i \<notin> (if is_OrderAccepted r \<or> is_OrderCancelled r then {order_id r}
      else if is_Fill r then {maker_order_id r, taker_order_id r} else {})"
  shows "dget (orders_after r d) i = dget d i"
  using assms by (auto simp: orders_after_def reduce_open_other split: if_splits)

lemma nearly_mirrors_apply:
  assumes "nearly_mirrors db l" "is_OrderAccepted r \<Longrightarrow> order_id r \<notin> set (dkeys (tb_open_orders db))"
  shows "nearly_mirrors db (ledger_apply r sid l)"
  unfolding nearly_mirrors_def
proof (intro conjI allI impI)
  fix u c
  assume "u \<notin> dirty_accounts (ledger_apply r sid l)" "dget (cash_balances (ledger_apply r sid l)) u = Some c"
  then show "map_option fst (dget (tb_accounts db) u) = Some c"
    using assms(1) cash_after_other [of u r "cash_balances l"]
    by (auto simp: nearly_mirrors_def ledger_apply_dirty ledger_apply_sel users_of_def)
next
  fix k
  assume "k \<notin> dirty_positions (ledger_apply r sid l)"
  then have "k \<notin> dirty_positions l" "\<not> is_Fill r \<or> k \<notin> {(maker_user_id r, symbol_id r), (taker_user_id r, symbol_id r)}"
    by (auto simp: ledger_apply_dirty split: if_splits)
  with assms(1) show "held k (tb_positions db) = nonzero (dget0 (lg_positions (ledger_apply r sid l)) k)"
    unfolding ledger_apply_sel by (metis nearly_mirrors_def positions_after_other)
next
  fix i
  assume "i \<notin> dirty_orders (ledger_apply r sid l)"
  then show "dget (tb_open_orders db) i = dget (open_orders (ledger_apply r sid l)) i"
    using assms(1) orders_after_other [of i r "open_orders l"]
    by (simp add: ledger_apply_dirty ledger_apply_sel nearly_mirrors_def)
next
  fix i a b
  assume a: "dget (tb_open_orders db) i = Some a" and b: "dget (open_orders (ledger_apply r sid l)) i = Some b"
  have "\<not> is_OrderAccepted r \<or> order_id r \<noteq> i" using assms(2) dget_Some_key [OF a] by auto
  then obtain b' where "dget (open_orders l) i = Some b'" "same_terms b' b"
    using orders_after_terms b unfolding ledger_apply_sel by blast
  with a assms(1) show "same_terms a b" unfolding nearly_mirrors_def by (metis same_terms_trans)
qed

lemma users_dirty: "dirty_accounts (ledger_apply r sid l) = dirty_accounts l \<union> users_of r"
  by (simp add: ledger_apply_dirty users_of_def)

lemma dirty_ok_apply: "dirty_ok l \<Longrightarrow> dirty_ok (ledger_apply r sid l)"
  unfolding dirty_ok_def users_dirty ledger_apply_sel cash_after_keys
  by (auto simp: ledger_apply_dirty users_of_def simp del: set_map)

lemma reduce_open_keys: "set (dkeys (reduce_open i q d)) \<subseteq> set (dkeys d)"
  by (auto simp: reduce_open_def Let_def simp del: set_map split: option.split dest: dget_Some_key)

lemma orders_after_keys:
  "set (dkeys (orders_after r d)) \<subseteq> set (dkeys d) \<union> (if is_OrderAccepted r then {order_id r} else {})"
  by (auto simp: orders_after_def simp del: set_map dest!: subsetD [OF reduce_open_keys])

subsection \<open>The consumer's invariant\<close>

text \<open>The engine never gives an id twice: \<open>seen\<close> are the ids accepted so far.\<close>

fun accepts_fresh :: "int set \<Rightarrow> wire list \<Rightarrow> bool" where
  "accepts_fresh seen [] = True"
| "accepts_fresh seen (r # rs) =
     (if is_OrderAccepted r then order_id r \<notin> seen \<and> accepts_fresh (insert (order_id r) seen) rs
      else accepts_fresh seen rs)"

definition accepted_ids :: "wire list \<Rightarrow> int set" where
  "accepted_ids rs = order_id ` {r \<in> set rs. is_OrderAccepted r}"

lemma accepts_fresh_append:
  "accepts_fresh seen (rs @ ss) \<longleftrightarrow> accepts_fresh seen rs \<and> accepts_fresh (seen \<union> accepted_ids rs) ss"
proof (induction rs arbitrary: seen)
  case (Cons r rs)
  have "accepted_ids (r # rs) = (if is_OrderAccepted r then insert (order_id r) (accepted_ids rs) else accepted_ids rs)"
    by (auto simp: accepted_ids_def)
  with Cons show ?case by (simp add: Un_commute)
qed (simp add: accepted_ids_def)

lemma accepted_ids_append: "accepted_ids (rs @ ss) = accepted_ids rs \<union> accepted_ids ss"
  by (auto simp: accepted_ids_def)

lemma run_open_keys: "set (dkeys (open_orders (ledger_run es l))) \<subseteq> set (dkeys (open_orders l)) \<union> accepted_ids (map snd es)"
proof (induction es arbitrary: l)
  case (Cons e es)
  have "set (dkeys (open_orders (ledger_step e l))) \<subseteq>
      set (dkeys (open_orders l)) \<union> (if is_OrderAccepted (snd e) then {order_id (snd e)} else {})"
    unfolding ledger_step_def ledger_apply_sel by (rule orders_after_keys)
  with Cons [of "ledger_step e l"] show ?case
    by (force simp: ledger_run_def accepted_ids_def simp del: set_map split: if_splits)
qed (simp add: ledger_run_def)

lemma run_dirty_ok: "dirty_ok l \<Longrightarrow> dirty_ok (ledger_run es l)"
  by (induction es arbitrary: l) (simp_all add: ledger_run_def ledger_step_def dirty_ok_apply)

lemma run_wf: "wf_ledger l \<Longrightarrow> wf_ledger (ledger_run es l)"
  unfolding ledger_run_def by (rule lg.run_ok)

lemma run_nearly_mirrors:
  "nearly_mirrors db l \<Longrightarrow> set (dkeys (tb_open_orders db)) \<subseteq> seen \<Longrightarrow> accepts_fresh seen (map snd es) \<Longrightarrow>
    nearly_mirrors db (ledger_run es l)"
proof (induction es arbitrary: l seen)
  case (Cons e es)
  let ?seen = "if is_OrderAccepted (snd e) then insert (order_id (snd e)) seen else seen"
  have "nearly_mirrors db (ledger_step e l)"
    unfolding ledger_step_def by (rule nearly_mirrors_apply [OF Cons.prems(1)]) (use Cons.prems(2,3) in auto)
  moreover have "set (dkeys (tb_open_orders db)) \<subseteq> ?seen" using Cons.prems(2) by (auto simp del: set_map)
  moreover have "accepts_fresh ?seen (map snd es)" using Cons.prems(3) by (auto split: if_splits)
  ultimately show ?case using Cons.IH [of "ledger_step e l" ?seen] by (simp add: ledger_run_def)
qed (simp add: ledger_run_def)

definition clean :: "ledger \<Rightarrow> bool" where
  "clean l \<longleftrightarrow> dirty_accounts l = {} \<and> dirty_positions l = {} \<and> dirty_orders l = {}"

lemma mirrors_clean: "mirrors db l \<Longrightarrow> nearly_mirrors db l"
  by (simp add: mirrors_def nearly_mirrors_def)

lemma clean_ok: "clean l \<Longrightarrow> dirty_ok l"
  by (simp add: clean_def dirty_ok_def)

lemma take_dirty_sel:
  "clean (fst (take_dirty l))" "mirrors db (fst (take_dirty l)) = mirrors db l" "wf_ledger (fst (take_dirty l)) = wf_ledger l"
  "open_orders (fst (take_dirty l)) = open_orders l"
  by (simp_all add: take_dirty_def clean_def mirrors_def wf_ledger_def)

lemma flush_tables_clean:
  "flush_tables full now da dp dor (fst (take_dirty l)) db = flush_tables full now da dp dor l db"
proof -
  have "account_rows da (fst (take_dirty l)) = account_rows da l"
    "position_rows now dp (fst (take_dirty l)) = position_rows now dp l"
    "order_rows dor (fst (take_dirty l)) = order_rows dor l"
    "house_fee_ticks (fst (take_dirty l)) = house_fee_ticks l"
    by (simp_all add: account_rows_def position_rows_def order_rows_def take_dirty_def)
  then show ?thesis unfolding flush_tables_def take_dirty_sel(4) by (simp only:)
qed

lemma flush_to_db_ok:
  assumes "wf_ledger l" "full \<or> dirty_ok l \<and> nearly_mirrors db l"
  shows "\<exists>db'. flush_to_db full now l db = (fst (take_dirty l), Inr db') \<and> mirrors db' (fst (take_dirty l))"
proof -
  let ?l = "fst (take_dirty l)"
  have l: "take_dirty l = (?l, dirty_accounts l, dirty_positions l, dirty_orders l)" by (simp add: take_dirty_def)
  show ?thesis
  proof (cases full)
    case True
    have "wf_ledger ?l" using assms(1) by (simp add: take_dirty_sel)
    from flush_full [OF this] True show ?thesis
      by (subst flush_to_db_def, subst l) simp
  next
    case False
    with assms(2) flush_partial [OF assms(1)]
    obtain db' where "flush_tables False now (dirty_accounts l) (dirty_positions l) (dirty_orders l) l db = Inr db'"
      "mirrors db' l" by blast
    with False show ?thesis
      by (subst flush_to_db_def, subst l) (simp add: flush_tables_clean take_dirty_sel)
  qed
qed

definition consumer_inv :: "int set \<Rightarrow> consumer \<Rightarrow> bool" where
  "consumer_inv seen c \<longleftrightarrow>
     wf_ledger (cs_ledger c) \<and> clean (cs_ledger c) \<and> set (dkeys (open_orders (cs_ledger c))) \<subseteq> seen \<and>
     (cs_needs_full_flush c \<or> mirrors (cs_db c) (cs_ledger c))"

lemma dkeys_cong: "dget d = dget e \<Longrightarrow> set (dkeys d) = set (dkeys e)"
  by (rule set_eqI) (simp only: dget_key_iff)

lemma consume_batch_inv:
  assumes "consumer_inv seen c" "accepts_fresh seen (map snd es)"
  shows "consumer_inv (seen \<union> accepted_ids (map snd es)) (consume_batch es commits now c)"
    and "es \<noteq> [] \<Longrightarrow> commits \<Longrightarrow> mirrors (cs_db (consume_batch es commits now c)) (cs_ledger (consume_batch es commits now c))"
proof -
  let ?l = "ledger_run es (cs_ledger c)" let ?full = "cs_needs_full_flush c"
  have inv: "wf_ledger (cs_ledger c)" "clean (cs_ledger c)" "set (dkeys (open_orders (cs_ledger c))) \<subseteq> seen"
    "\<not> ?full \<Longrightarrow> mirrors (cs_db c) (cs_ledger c)" using assms(1) by (auto simp: consumer_inv_def)
  have "nearly_mirrors (cs_db c) ?l" if "\<not> ?full"
  proof (rule run_nearly_mirrors [OF mirrors_clean [OF inv(4) [OF that]] _ assms(2)])
    have "dget (tb_open_orders (cs_db c)) = dget (open_orders (cs_ledger c))" using inv(4) [OF that] by (simp add: mirrors_def)
    then have "set (dkeys (tb_open_orders (cs_db c))) = set (dkeys (open_orders (cs_ledger c)))" by (rule dkeys_cong)
    then show "set (dkeys (tb_open_orders (cs_db c))) \<subseteq> seen" using inv(3) by simp
  qed
  with run_dirty_ok [OF clean_ok [OF inv(2)]]
  have pre: "?full \<or> dirty_ok ?l \<and> nearly_mirrors (cs_db c) ?l" by blast
  obtain db' where fl: "flush_to_db ?full now ?l (cs_db c) = (fst (take_dirty ?l), Inr db')"
    "mirrors db' (fst (take_dirty ?l))" using flush_to_db_ok [OF run_wf [OF inv(1)] pre] by blast
  have keys: "set (dkeys (open_orders ?l)) \<subseteq> seen \<union> accepted_ids (map snd es)"
    using run_open_keys [of es "cs_ledger c"] inv(3) by blast
  show "consumer_inv (seen \<union> accepted_ids (map snd es)) (consume_batch es commits now c)"
  proof (cases "es = []")
    case True
    then show ?thesis using assms(1) by (simp add: consume_batch_def accepted_ids_def)
  next
    case False
    then have "consume_batch es commits now c = \<lparr> cs_ledger = fst (take_dirty ?l),
        cs_db = (if commits then db' else cs_db c), cs_needs_full_flush = (\<not> commits) \<rparr>"
      by (simp add: consume_batch_def fl(1))
    then show ?thesis
      using keys fl(2) run_wf [OF inv(1), of es] by (simp add: consumer_inv_def take_dirty_sel del: set_map)
  qed
  show "mirrors (cs_db (consume_batch es commits now c)) (cs_ledger (consume_batch es commits now c))"
    if "es \<noteq> []" "commits" using that fl by (simp add: consume_batch_def)
qed

definition consume_all :: "((string \<times> wire) list \<times> bool \<times> int) list \<Rightarrow> consumer \<Rightarrow> consumer" where
  "consume_all = fold (\<lambda>(es, commits, now). consume_batch es commits now)"

lemma consume_all_inv:
  "consumer_inv seen c \<Longrightarrow> accepts_fresh seen (map snd (concat (map fst bs))) \<Longrightarrow>
    consumer_inv (seen \<union> accepted_ids (map snd (concat (map fst bs)))) (consume_all bs c)"
proof (induction bs arbitrary: seen c)
  case (Cons b bs)
  obtain es commits now where b: "b = (es, commits, now)" by (cases b)
  have "accepts_fresh seen (map snd es)" "accepts_fresh (seen \<union> accepted_ids (map snd es)) (map snd (concat (map fst bs)))"
    using Cons.prems(2) by (simp_all add: b accepts_fresh_append)
  from Cons.IH [OF consume_batch_inv(1) [OF Cons.prems(1) this(1)] this(2), of commits now]
  show ?case by (simp add: consume_all_def b accepted_ids_append Un_assoc)
qed (simp add: consume_all_def accepted_ids_def)

lemma reset_new: "ledger_reset l = new_ledger"
  by (simp add: ledger_reset_def take_dirty_def new_ledger_def)

lemma consumer_recovers:
  assumes "wf_ledger l1"
  shows "\<exists>db1. flush_to_db True now l1 db = (fst (take_dirty l1), Inr db1) \<and> mirrors db1 (fst (take_dirty l1)) \<and>
    wf_ledger (fst (take_dirty l1)) \<and> clean (fst (take_dirty l1))"
  using flush_to_db_ok [OF assms, of True] assms by (auto simp: take_dirty_sel)

lemma dump_take_dirty: "ledger_dump (fst (take_dirty l)) = ledger_dump l"
  by (simp add: ledger_dump_def ledger_json_def take_dirty_def)

lemma recover_genesis:
  "\<exists>db1. consumer_recover None tail now l db = Inr (fst (take_dirty (ledger_run (tail ''0-0'') new_ledger)), db1) \<and>
    mirrors db1 (fst (take_dirty (ledger_run (tail ''0-0'') new_ledger))) \<and>
    consumer_inv (accepted_ids (map snd (tail ''0-0''))) \<lparr> cs_ledger = fst (take_dirty (ledger_run (tail ''0-0'') new_ledger)),
      cs_db = db1, cs_needs_full_flush = False \<rparr>"
proof -
  obtain db1 where "flush_to_db True now (ledger_run (tail ''0-0'') new_ledger) db =
      (fst (take_dirty (ledger_run (tail ''0-0'') new_ledger)), Inr db1)"
    "mirrors db1 (fst (take_dirty (ledger_run (tail ''0-0'') new_ledger)))"
    "wf_ledger (fst (take_dirty (ledger_run (tail ''0-0'') new_ledger)))"
    "clean (fst (take_dirty (ledger_run (tail ''0-0'') new_ledger)))"
    using consumer_recovers [OF run_wf [OF wf_new_ledger]] by blast
  moreover have "set (dkeys (open_orders (fst (take_dirty (ledger_run (tail ''0-0'') new_ledger))))) \<subseteq>
      accepted_ids (map snd (tail ''0-0''))"
    unfolding take_dirty_sel using run_open_keys [of "tail ''0-0''" new_ledger] by (simp add: new_ledger_def)
  ultimately show ?thesis by (simp add: consumer_recover_def reset_new consumer_inv_def)
qed

subsection \<open>Properties\<close>

text \<open>Recovery rebuilds the ledger and rewrites the read model: whatever PostgreSQL holds,
  after a restart from a checkpoint or from genesis the ledger dumps the same bytes as one
  that never stopped, and every table is that ledger.\<close>

theorem recovery_rewrites_read_model:
  "(\<exists>l1 db1. consumer_recover None tail now l db = Inr (l1, db1) \<and> mirrors db1 l1 \<and>
      ledger_dump l1 = ledger_dump (ledger_run (tail ''0-0'') new_ledger)) \<and>
   (\<exists>l1 db1. consumer_recover
        (Some (ledger_dump (ledger_run before new_ledger), last_seq (ledger_run before new_ledger))) tail now l db =
        Inr (l1, db1) \<and> mirrors db1 l1 \<and>
      ledger_dump l1 = ledger_dump (ledger_run (before @ tail (last_seq (ledger_run before new_ledger))) new_ledger))"
proof
  show "\<exists>l1 db1. consumer_recover None tail now l db = Inr (l1, db1) \<and> mirrors db1 l1 \<and>
      ledger_dump l1 = ledger_dump (ledger_run (tail ''0-0'') new_ledger)"
    using recover_genesis [of tail now l db] dump_take_dirty by blast
next
  let ?b = "ledger_run before new_ledger" let ?tail = "tail (last_seq ?b)"
  obtain t where t: "ledger_load (ledger_dump ?b) = Inr t" "wf_ledger t" "same_ledger t ?b"
    using lg.load_dump [OF run_wf [OF wf_new_ledger]] by blast
  then have "t\<lparr>last_seq := last_seq ?b\<rparr> = t" by (simp add: same_ledger_def)
  moreover have "ledger_dump (ledger_run ?tail t) = ledger_dump (ledger_run (before @ ?tail) new_ledger)"
    using ledger_dump_same [OF run_wf [OF t(2)] run_wf [OF run_wf [OF wf_new_ledger]] ] lg.run_same [OF t(2) run_wf [OF wf_new_ledger] t(3)]
    by (simp add: ledger_run_def)
  ultimately show "\<exists>l1 db1. consumer_recover (Some (ledger_dump ?b, last_seq ?b)) tail now l db = Inr (l1, db1) \<and>
      mirrors db1 l1 \<and> ledger_dump l1 = ledger_dump (ledger_run (before @ ?tail) new_ledger)"
    using consumer_recovers [OF run_wf [OF t(2)], of now ?tail db] dump_take_dirty
    by (auto simp: consumer_recover_def t(1))
qed

text \<open>C33. The read model is never silently stale: after recovery and any sequence of batches,
  some of which the database failed to commit, either the consumer still knows that it must
  rewrite everything, or every table is the ledger.\<close>

theorem read_model_never_stale:
  assumes "consumer_recover None (\<lambda>_. history) now l db = Inr (l1, db1)"
    and "accepts_fresh {} (map snd (history @ concat (map fst batches)))"
    and "c = consume_all batches \<lparr> cs_ledger = l1, cs_db = db1, cs_needs_full_flush = False \<rparr>"
  shows "cs_needs_full_flush c \<or> mirrors (cs_db c) (cs_ledger c)"
proof -
  have "consumer_inv (accepted_ids (map snd history)) \<lparr> cs_ledger = l1, cs_db = db1, cs_needs_full_flush = False \<rparr>"
    using recover_genesis [of "\<lambda>_. history" now l db] assms(1) by auto
  moreover have "accepts_fresh (accepted_ids (map snd history)) (map snd (concat (map fst batches)))"
    using assms(2) by (simp add: accepts_fresh_append)
  ultimately have "consumer_inv (accepted_ids (map snd history) \<union> accepted_ids (map snd (concat (map fst batches)))) c"
    unfolding assms(3) by (rule consume_all_inv)
  then show ?thesis unfolding consumer_inv_def by blast
qed

definition demo_batches :: "((string \<times> wire) list \<times> bool \<times> int) list" where
  "demo_batches =
     [([(''5-0'', Fill_new 9 1 3 42 41 50000 1 1 1)], False, 100), ([], True, 101),
      ([(''6-0'', OrderAccepted_new 9 4 14 42 51000 1 1 2 1)], True, 102)]"

lemma demo_fresh: "accepts_fresh {} (map snd (demo_outbound @ concat (map fst demo_batches)))"
  by (simp add: demo_outbound_def demo_batches_def record_sel)

theorem read_model_never_stale_witness:
  "\<exists>l1 db1 c. consumer_recover None (\<lambda>_. demo_outbound) 5 new_ledger \<lparr> tb_accounts = [], tb_positions = [],
        tb_open_orders = [], tb_house_fees = [] \<rparr> = Inr (l1, db1) \<and>
    c = consume_all demo_batches \<lparr> cs_ledger = l1, cs_db = db1, cs_needs_full_flush = False \<rparr> \<and>
    (cs_needs_full_flush c \<or> mirrors (cs_db c) (cs_ledger c))"
proof -
  obtain l1 db1 where r: "consumer_recover None (\<lambda>_. demo_outbound) 5 new_ledger \<lparr> tb_accounts = [], tb_positions = [],
        tb_open_orders = [], tb_house_fees = [] \<rparr> = Inr (l1, db1)"
    using recover_genesis [of "\<lambda>_. demo_outbound"] by blast
  show ?thesis using r read_model_never_stale [OF r demo_fresh refl] by blast
qed

text \<open>One committed batch heals the read model: whatever failed before, after a batch with
  a record in it whose flush commits, no table is stale.\<close>

theorem read_model_heals:
  assumes "consumer_recover None (\<lambda>_. history) now l db = Inr (l1, db1)"
    and "accepts_fresh {} (map snd (history @ concat (map fst batches) @ es))" "es \<noteq> []"
    and "c = consume_batch es True t (consume_all batches \<lparr> cs_ledger = l1, cs_db = db1, cs_needs_full_flush = False \<rparr>)"
  shows "mirrors (cs_db c) (cs_ledger c)"
proof -
  have "consumer_inv (accepted_ids (map snd history)) \<lparr> cs_ledger = l1, cs_db = db1, cs_needs_full_flush = False \<rparr>"
    using recover_genesis [of "\<lambda>_. history" now l db] assms(1) by auto
  moreover have "accepts_fresh (accepted_ids (map snd history)) (map snd (concat (map fst batches)))"
    using assms(2) by (simp add: accepts_fresh_append)
  ultimately have inv: "consumer_inv (accepted_ids (map snd history) \<union> accepted_ids (map snd (concat (map fst batches))))
      (consume_all batches \<lparr> cs_ledger = l1, cs_db = db1, cs_needs_full_flush = False \<rparr>)"
    by (rule consume_all_inv)
  have "accepts_fresh (accepted_ids (map snd history) \<union> accepted_ids (map snd (concat (map fst batches)))) (map snd es)"
    using assms(2) by (simp add: accepts_fresh_append)
  from consume_batch_inv(2) [OF inv this assms(3)] show ?thesis unfolding assms(4) by simp
qed

theorem read_model_heals_witness:
  "\<exists>l1 db1 c. consumer_recover None (\<lambda>_. demo_outbound) 5 new_ledger \<lparr> tb_accounts = [], tb_positions = [],
        tb_open_orders = [], tb_house_fees = [] \<rparr> = Inr (l1, db1) \<and>
    c = consume_batch [(''7-0'', CashCredited_new 9 5 41 8)] True 103
      (consume_all demo_batches \<lparr> cs_ledger = l1, cs_db = db1, cs_needs_full_flush = False \<rparr>) \<and>
    mirrors (cs_db c) (cs_ledger c)"
proof -
  obtain l1 db1 where r: "consumer_recover None (\<lambda>_. demo_outbound) 5 new_ledger \<lparr> tb_accounts = [], tb_positions = [],
        tb_open_orders = [], tb_house_fees = [] \<rparr> = Inr (l1, db1)"
    using recover_genesis [of "\<lambda>_. demo_outbound"] by blast
  have "accepts_fresh {} (map snd (demo_outbound @ concat (map fst demo_batches) @ [(''7-0'', CashCredited_new 9 5 41 8)]))"
    by (simp add: demo_outbound_def demo_batches_def record_sel)
  from read_model_heals [OF r this _ refl] r show ?thesis by blast
qed

end
