(* ===== verification/Read_Routes.thy ===== *)
theory Read_Routes
  imports Read_Model
begin

section \<open>Reading back: the two read-only endpoints of services/gateway/routes_orders.py\<close>

text \<open>
  \<open>GET /orders/open\<close> and \<open>GET /portfolio\<close>, which a client that lost part of its stream starts again
  from. Each is a query on the tables the ledger consumer keeps (\<open>Read_Model\<close>); a row that comes
  without an order is taken in the table's. \<open>reads_show_the_ledger\<close> composes them with the consumer.
\<close>

definition get_orders_open :: "int \<Rightarrow> read_model \<Rightarrow> open_order list" where
  "get_orders_open uid db =
     sort_key oo_order_id (filter (\<lambda>ord. oo_user_id ord = uid) (dvalues (tb_open_orders db)))"

record portfolio_response =
  po_user_id :: int
  po_cash_ticks :: int
  po_positions :: "(int \<times> int) list"

definition get_portfolio :: "int \<Rightarrow> read_model \<Rightarrow> portfolio_response" where
  "get_portfolio uid db =
     \<lparr> po_user_id = uid,
       po_cash_ticks = (case dget (tb_accounts db) uid of None \<Rightarrow> 0 | Some (cash, created) \<Rightarrow> cash),
       po_positions = map (\<lambda>(u, sy, q, t). (sy, q)) (filter (\<lambda>(u, sy, q, t). u = uid \<and> q \<noteq> 0) (tb_positions db)) \<rparr>"

lemma portfolio_items:
  "map snd (filter (\<lambda>p. fst p = sy) (po_positions (get_portfolio uid db))) = filter (\<lambda>q. q \<noteq> 0) (Read_Model.held (uid, sy) (tb_positions db))"
proof -
  have "map snd (filter (\<lambda>p. fst p = sy) (map (\<lambda>(u, sy, q, t). (sy, q)) (filter (\<lambda>(u, sy, q, t). u = uid \<and> q \<noteq> 0) rows))) =
      filter (\<lambda>q. q \<noteq> 0) (Read_Model.held (uid, sy) rows)" for rows
    by (induction rows) (auto simp: Read_Model.held_def pos_key_def)
  then show ?thesis by (simp add: get_portfolio_def)
qed

lemma open_order_set:
  assumes "wf_dict (tb_open_orders db)"
  shows "ord \<in> set (get_orders_open uid db) \<longleftrightarrow> oo_user_id ord = uid \<and> (\<exists>i. dget (tb_open_orders db) i = Some ord)"
  using dget_in_set [OF assms] by (force simp: get_orders_open_def)

lemma open_order_ids:
  assumes "wf_dict d" "keyed_by_id d"
  shows "map oo_order_id (dvalues d) = dkeys d"
  using assms dget_in_set [OF assms(1)] by (auto simp: keyed_by_id_def)

subsection \<open>The tables keep their keys\<close>

lemma wf_upserts: "wf_dict tb \<Longrightarrow> wf_dict (fold upsert_order rows tb)"
  by (induction rows arbitrary: tb) (auto simp: upsert_order_def)

lemma wf_flush:
  assumes "flush_to_db full now l db = (l', Inr db')" "full \<or> wf_dict (tb_open_orders db)"
  shows "wf_dict (tb_open_orders db')"
proof -
  have "wf_dict (tb_open_orders db')" if "flush_tables f t a b c l db = Inr db'" "f \<or> wf_dict (tb_open_orders db)" for f t a b c l
    using that by (auto simp: flush_tables_def intro!: wf_upserts wf_dict_fold_dpop split: sum.splits)
  then show ?thesis using assms by (auto simp: flush_to_db_def split: prod.splits if_splits)
qed

lemma wf_consume:
  assumes "wf_dict (tb_open_orders (cs_db c))"
  shows "wf_dict (tb_open_orders (cs_db (consume_batch es commits now c)))"
  using assms wf_flush [where db = "cs_db c"]
  by (auto simp: consume_batch_def Let_def split: prod.split sum.split)

lemma wf_consume_all: "wf_dict (tb_open_orders (cs_db c)) \<Longrightarrow> wf_dict (tb_open_orders (cs_db (consume_all bs c)))"
  unfolding consume_all_def by (induction bs arbitrary: c) (auto intro: wf_consume)

subsection \<open>The ledger of a consumer, up to what is dirty\<close>

definition books :: "ledger \<Rightarrow> (int, int) dict \<times> (int \<times> int, int) dict \<times> (int, open_order) dict" where
  "books l = (cash_balances l, lg_positions l, open_orders l)"

lemma books_run: "books l = books l' \<Longrightarrow> books (ledger_run es l) = books (ledger_run es l')"
  by (induction es arbitrary: l l') (simp_all add: ledger_run_def ledger_step_def books_def ledger_apply_sel)

lemma books_dirty [simp]: "books (fst (take_dirty l)) = books l"
  by (simp add: books_def take_dirty_def)

lemma books_consume: "books (cs_ledger (consume_batch es commits now c)) = books (ledger_run es (cs_ledger c))"
proof (cases "es = []")
  case False
  have "books (fst (flush_to_db full t l db)) = books l" for full t l db
    by (simp add: flush_to_db_def split: prod.split) (metis books_dirty fst_conv)
  then show ?thesis using False
    by (auto simp: consume_batch_def Let_def split: prod.split sum.split) (metis fst_conv)+
qed (simp add: consume_batch_def ledger_run_def)

lemma books_consume_all: "books (cs_ledger (consume_all bs c)) = books (ledger_run (concat (map fst bs)) (cs_ledger c))"
proof (induction bs arbitrary: c)
  case (Cons b bs)
  obtain es commits now where b: "b = (es, commits, now)" by (cases b)
  show ?case
    using Cons [of "consume_batch es commits now c"] books_run [OF books_consume, of "concat (map fst bs)" es commits now c]
    by (simp add: consume_all_def b ledger_run_def)
qed (simp add: consume_all_def ledger_run_def)

subsection \<open>The engine never accepts twice under one id\<close>

definition grows :: "amatcher \<Rightarrow> amatcher \<times> wire list \<Rightarrow> bool" where
  "grows am r \<longleftrightarrow>
     (\<forall>seen. (\<forall>i \<in> seen. i < am_next am) \<longrightarrow>
        accepts_fresh seen (snd r) \<and> (\<forall>i \<in> seen \<union> accepted_ids (snd r). i < am_next (fst r)))"

lemma fresh_quiet: "\<forall>r \<in> set rs. \<not> is_OrderAccepted r \<Longrightarrow> accepts_fresh seen rs \<and> accepted_ids rs = {}"
  by (induction rs arbitrary: seen) (auto simp: accepted_ids_def)

lemma grows_quiet: "am_next am' = am_next am \<Longrightarrow> \<forall>r \<in> set out. \<not> is_OrderAccepted r \<Longrightarrow> grows am (am', out)"
  using fresh_quiet [of out] by (simp add: grows_def)

lemma grows_accepted:
  assumes "am_next am' = am_next am + 1" "\<forall>r \<in> set out. \<not> is_OrderAccepted r"
  shows "grows am (am', OrderAccepted_new ts (am_next am) coid uid px q sy sd tf # out)"
proof -
  have "accepted_ids (OrderAccepted_new ts (am_next am) coid uid px q sy sd tf # out) = {am_next am}"
  proof -
    have "{r \<in> set (OrderAccepted_new ts (am_next am) coid uid px q sy sd tf # out). is_OrderAccepted r} =
        {OrderAccepted_new ts (am_next am) coid uid px q sy sd tf}"
      using assms(2) by (auto simp: record_sel)
    then show ?thesis by (simp add: accepted_ids_def record_sel)
  qed
  then show ?thesis using assms fresh_quiet [OF assms(2)] by (fastforce simp: grows_def record_sel)
qed

lemma spec_forget_next [simp]: "am_next (spec_forget ids am) = am_next am"
  by (simp add: spec_forget_def)

lemma quiet_new [simp]:
  "\<not> is_OrderAccepted (Fill_new a b c d e f g h i)" "\<not> is_OrderAccepted (OrderCancelled_new a b c d e f g)"
  "\<not> is_OrderAccepted (OrderRejected_new a b c d e)" "\<not> is_OrderAccepted (AccountCreated_new a b c d)"
  "\<not> is_OrderAccepted (CashCredited_new a b c d)" "\<not> is_OrderAccepted (ReplayConfigured_new a b c d e)"
  by (simp_all add: Fill_new_def OrderCancelled_new_def OrderRejected_new_def AccountCreated_new_def CashCredited_new_def
      ReplayConfigured_new_def)

lemma spec_submit_grows: "grows am (spec_submit ts coid uid px q sy sd tf am)"
proof (cases "reject_reason sd tf px q")
  case None
  obtain fs q' os' where f: "spec_fill (if sd = Side_BUY then BUY else SELL) px q (am_queue am sy (opp (if sd = Side_BUY then BUY else SELL))) = (fs, q', os')"
    by (metis prod_cases3)
  show ?thesis unfolding spec_submit_def None option.case Let_def f prod.case
    by (rule grows_accepted) auto
next
  case (Some why)
  then show ?thesis by (simp add: spec_submit_def grows_quiet)
qed

lemma spec_apply_grows: "grows am (spec_apply r am)"
proof -
  have "grows am (spec_cancel ts coid uid target am)" for ts coid uid target
    by (simp add: spec_cancel_def Let_def grows_quiet split: option.split)
  moreover have "grows am (spec_forward r am)" by (simp add: spec_forward_def grows_quiet)
  moreover have "grows am (am, [])" by (rule grows_quiet) simp_all
  ultimately show ?thesis by (simp add: spec_apply_def spec_submit_grows)
qed

lemma spec_apply_all_grows: "grows am (spec_apply_all rs am)"
proof (induction rs arbitrary: am)
  case Nil
  show ?case by (simp add: grows_def accepted_ids_def)
next
  case (Cons r rs)
  obtain am1 out where 1: "spec_apply r am = (am1, out)" by fastforce
  obtain am2 out' where 2: "spec_apply_all rs am1 = (am2, out')" by fastforce
  have "grows am (am1, out)" "grows am1 (am2, out')" using spec_apply_grows [of am r] Cons [of am1] 1 2 by simp_all
  then show ?case by (simp add: 1 2 grows_def accepts_fresh_append accepted_ids_append) (metis UnCI UnE)
qed

lemma engine_accepts_fresh:
  assumes "apply_all commands (new_matcher first cash) = Inr (m, out)"
  shows "accepts_fresh {} out"
  using spec_apply_all_grows [of "abs_matcher (new_matcher first cash)" commands]
    apply_all_refines [OF wf_new_matcher, of commands first cash] assms
  by (auto simp: grows_def)

subsection \<open>What a trader reads\<close>

lemma open_rows_books: "books l = books l' \<Longrightarrow> open_rows l = open_rows l'"
  by (simp add: books_def open_rows_def fun_eq_iff)

definition row_of_order :: "open_order \<Rightarrow> row" where
  "row_of_order ord = (oo_symbol_id ord, oo_side ord, oo_price_ticks ord, oo_remaining_qty ord)"

lemma mirrored_orders:
  assumes m: "mirrors db l" and wf: "wf_dict (tb_open_orders db)" and key: "keyed_by_id (open_orders l)"
  shows "sorted_wrt (<) (map oo_order_id (get_orders_open uid db))"
    "set (get_orders_open uid db) = {ord. dget (open_orders l) (oo_order_id ord) = Some ord \<and> oo_user_id ord = uid}"
proof -
  have same: "dget (tb_open_orders db) = dget (open_orders l)" using m by (simp add: mirrors_def)
  have keyed: "keyed_by_id (tb_open_orders db)" using key same by (simp add: keyed_by_id_def)
  have "distinct (map oo_order_id (dvalues (tb_open_orders db)))"
    using wf by (simp only: open_order_ids [OF wf keyed] wf_dict_def)
  from distinct_map_filter [OF this, of "\<lambda>ord. oo_user_id ord = uid"]
  have "distinct (map oo_order_id (get_orders_open uid db))"
    unfolding get_orders_open_def by (simp add: distinct_map del: set_filter)
  then show "sorted_wrt (<) (map oo_order_id (get_orders_open uid db))"
    by (simp add: strict_sorted_iff get_orders_open_def)
  show "set (get_orders_open uid db) = {ord. dget (open_orders l) (oo_order_id ord) = Some ord \<and> oo_user_id ord = uid}"
    using open_order_set [OF wf, of _ uid] key by (auto simp: same keyed_by_id_def)
qed

text \<open>A consumer whose last batch was committed: its tables mirror its ledger, which has the books of the
  whole stream.\<close>

lemma consumer_shows:
  assumes "accepts_fresh {} (map snd (history @ concat (map fst batches) @ es))" "es \<noteq> []"
    and "consumer_recover None (\<lambda>_. history) now l db = Inr (l1, db1)"
    and "c = consume_batch es True t (consume_all batches \<lparr> cs_ledger = l1, cs_db = db1, cs_needs_full_flush = False \<rparr>)"
  shows "mirrors (cs_db c) (cs_ledger c)" "wf_dict (tb_open_orders (cs_db c))" "keyed_by_id (open_orders (cs_ledger c))"
    "books (cs_ledger c) = books (ledger_run (history @ concat (map fst batches) @ es) new_ledger)"
proof -
  define c0 where "c0 = \<lparr> cs_ledger = l1, cs_db = db1, cs_needs_full_flush = False \<rparr>"
  define seen where "seen = accepted_ids (map snd history)"
  define batched where "batched = concat (map fst batches)"
  have fresh: "accepts_fresh {} (map snd (history @ batched @ es))" using assms(1) by (simp add: batched_def)
  have l1: "l1 = fst (take_dirty (ledger_run history new_ledger))" "consumer_inv seen c0"
    using recover_genesis [of "\<lambda>_. history" now l db] assms(3) by (auto simp: seen_def c0_def)
  have i1: "consumer_inv (seen \<union> accepted_ids (map snd batched)) (consume_all batches c0)"
    unfolding batched_def by (rule consume_all_inv [OF l1(2)])
      (use fresh in \<open>simp add: accepts_fresh_append seen_def batched_def\<close>)
  have "accepts_fresh (seen \<union> accepted_ids (map snd batched)) (map snd es)"
    using fresh by (simp add: accepts_fresh_append seen_def)
  note i2 = consume_batch_inv [OF i1 this, where commits = True and now = t, folded assms(4) [folded c0_def]]
  show "mirrors (cs_db c) (cs_ledger c)" using i2(2) assms(2) by simp
  show "keyed_by_id (open_orders (cs_ledger c))" using i2(1) by (simp add: consumer_inv_def wf_ledger_def)
  obtain l2 r where f: "flush_to_db True now (ledger_run history (ledger_reset l)) db = (l2, r)" by fastforce
  then have "r = Inr db1" using assms(3) by (cases r) (simp_all add: consumer_recover_def)
  then have "wf_dict (tb_open_orders db1)" using wf_flush [of True now "ledger_run history (ledger_reset l)" db l2 db1] f by simp
  then show "wf_dict (tb_open_orders (cs_db c))" unfolding assms(4) by (intro wf_consume wf_consume_all) simp
  have "books (cs_ledger c) = books (ledger_run es (cs_ledger (consume_all batches c0)))"
    unfolding assms(4) c0_def by (rule books_consume)
  also have "\<dots> = books (ledger_run es (ledger_run batched (cs_ledger c0)))"
    unfolding batched_def by (rule books_run [OF books_consume_all])
  also have "\<dots> = books (ledger_run es (ledger_run batched (ledger_run history new_ledger)))"
    by (intro books_run) (simp add: c0_def l1(1))
  finally show "books (cs_ledger c) = books (ledger_run (history @ concat (map fst batches) @ es) new_ledger)"
    by (simp add: batched_def ledger_run_def)
qed

text \<open>The engine's book, in the ledger of everything it answered.\<close>

lemma engine_rows:
  assumes "apply_all commands (new_matcher first cash) = Inr (m, map snd es)"
  shows "\<exists>rows. resting m = Inr rows \<and> (\<forall>i y. (i, y) \<in> set rows \<longleftrightarrow> open_rows (ledger_run es new_ledger) i = Some y)"
proof -
  have "open_rows new_ledger = (\<lambda>_. None)" by (simp add: open_rows_def [abs_def] new_ledger_def)
  from lgb.follows_new_matcher [OF assms _ this]
  have "rows_of (\<lambda>_. True) (abs_matcher m) (open_rows (ledger_run es new_ledger))" by (simp add: lgb_run)
  moreover have "wf_matcher m" using apply_all_refines [OF wf_new_matcher, of commands first cash] assms by auto
  ultimately show ?thesis using rows_of_resting by blast
qed

text \<open>C13. What a trader reads is the exchange. Let the engine have answered any log of commands, and the ledger
  consumer have rebuilt itself from the first part of that stream and followed the rest, whatever
  flushes failed on the way, up to one that committed. Then the open orders a user reads are in the
  order of their ids, all theirs, and, taken over all users, exactly the orders resting in the
  engine with what is left of them; and the portfolio is the ledger's cash and the ledger's
  non-zero holdings.\<close>

theorem reads_show_the_exchange:
  assumes "apply_all commands (new_matcher first cash) = Inr (m, map snd (history @ concat (map fst batches) @ es))" "es \<noteq> []"
    and "consumer_recover None (\<lambda>_. history) now l db = Inr (l1, db1)"
    and "c = consume_batch es True t (consume_all batches \<lparr> cs_ledger = l1, cs_db = db1, cs_needs_full_flush = False \<rparr>)"
    and "final = ledger_run (history @ concat (map fst batches) @ es) new_ledger"
  shows "(\<exists>rows. resting m = Inr rows \<and>
      (\<forall>i y. (i, y) \<in> set rows \<longleftrightarrow> (\<exists>u. \<exists>ord \<in> set (get_orders_open u (cs_db c)). oo_order_id ord = i \<and> row_of_order ord = y))) \<and>
    (\<forall>u. sorted_wrt (<) (map oo_order_id (get_orders_open u (cs_db c))) \<and>
       (\<forall>ord \<in> set (get_orders_open u (cs_db c)). oo_user_id ord = u) \<and>
       (\<forall>cash. dget (cash_balances final) u = Some cash \<longrightarrow> po_cash_ticks (get_portfolio u (cs_db c)) = cash) \<and>
       (\<forall>sy. map snd (filter (\<lambda>p. fst p = sy) (po_positions (get_portfolio u (cs_db c)))) = nonzero (dget0 (lg_positions final) (u, sy))))"
proof -
  note shows_ = consumer_shows [OF engine_accepts_fresh [OF assms(1)] assms(2-4)]
  note m = shows_(1) and wf = shows_(2) and key = shows_(3) and books = shows_(4) [folded assms(5)]
  obtain rows where rows: "resting m = Inr rows" "\<forall>i y. (i, y) \<in> set rows \<longleftrightarrow> open_rows final i = Some y"
    using engine_rows [OF assms(1)] assms(5) by blast
  have "(i, y) \<in> set rows \<longleftrightarrow> (\<exists>u. \<exists>ord \<in> set (get_orders_open u (cs_db c)). oo_order_id ord = i \<and> row_of_order ord = y)" for i y
  proof -
    have "open_rows final i = Some y \<longleftrightarrow> (\<exists>ord. dget (open_orders (cs_ledger c)) i = Some ord \<and> row_of_order ord = y)"
      unfolding open_rows_books [OF books, symmetric] by (auto simp: open_rows_def open_row_def row_of_order_def)
    also have "\<dots> \<longleftrightarrow> (\<exists>u. \<exists>ord \<in> set (get_orders_open u (cs_db c)). oo_order_id ord = i \<and> row_of_order ord = y)"
      using key unfolding mirrored_orders(2) [OF m wf key] keyed_by_id_def by auto
    finally show ?thesis using rows(2) by blast
  qed
  moreover have "po_cash_ticks (get_portfolio u (cs_db c)) = cash" if "dget (cash_balances final) u = Some cash" for u cash
  proof -
    have "map_option fst (dget (tb_accounts (cs_db c)) u) = Some cash" using that m books by (simp add: mirrors_def books_def)
    then show ?thesis by (auto simp: get_portfolio_def)
  qed
  moreover have "map snd (filter (\<lambda>p. fst p = sy) (po_positions (get_portfolio u (cs_db c)))) = nonzero (dget0 (lg_positions final) (u, sy))" for u sy
    using m books unfolding portfolio_items by (simp add: mirrors_def books_def nonzero_def)
  ultimately show ?thesis using rows(1) mirrored_orders [OF m wf key] by auto
qed

text \<open>The first flush fails, the second one shows everything.\<close>

theorem reads_show_the_exchange_witness:
  "\<exists>m es1 es2 l1 db1 c rows. apply_all demo_commands (new_matcher 1 1000) = Inr (m, map snd (es1 @ es2)) \<and>
    consumer_recover None (\<lambda>_. []) 5 new_ledger \<lparr> tb_accounts = [], tb_positions = [], tb_open_orders = [], tb_house_fees = [] \<rparr> =
      Inr (l1, db1) \<and>
    c = consume_batch es2 True 7 (consume_all [(es1, False, 6)] \<lparr> cs_ledger = l1, cs_db = db1, cs_needs_full_flush = False \<rparr>) \<and>
    resting m = Inr rows \<and>
    (\<forall>i y. (i, y) \<in> set rows \<longleftrightarrow> (\<exists>u. \<exists>ord \<in> set (get_orders_open u (cs_db c)). oo_order_id ord = i \<and> row_of_order ord = y))"
proof -
  obtain m out where run: "apply_all demo_commands (new_matcher 1 1000) = Inr (m, out)"
    "out = snd (spec_apply_all demo_commands (abs_matcher (new_matcher 1 1000)))"
    using apply_all_refines [OF wf_new_matcher, of demo_commands 1 1000] by auto
  have submits: "snd (spec_submit ts coid uid px q sy sd tf am) \<noteq> []" for ts coid uid px q sy sd tf am
    by (auto simp: spec_submit_def Let_def split: option.split prod.split)
  have "\<exists>r rest. out = r # rest \<and> rest \<noteq> []"
    unfolding run(2) using submits
    by (auto simp: demo_commands_def Let_def split_beta spec_apply_def spec_forward_def CreateAccount_new_def SubmitOrder_new_def)
  then obtain r rest where out: "out = r # rest" "rest \<noteq> []" by blast
  define es2 where "es2 = map (\<lambda>r. (''1-0'', r)) rest"
  have es: "apply_all demo_commands (new_matcher 1 1000) =
      Inr (m, map snd ([] @ concat (map fst [([(''1-0'', r)], False, 6)]) @ es2))" "es2 \<noteq> []"
    using run(1) out by (simp_all add: es2_def comp_def)
  obtain l1 db1 where rec: "consumer_recover None (\<lambda>_. []) 5 new_ledger \<lparr> tb_accounts = [], tb_positions = [],
      tb_open_orders = [], tb_house_fees = [] \<rparr> = Inr (l1, db1)"
    using recover_genesis [of "\<lambda>_. []"] by blast
  define c where "c = consume_batch es2 True 7 (consume_all [([(''1-0'', r)], False, 6)]
    \<lparr> cs_ledger = l1, cs_db = db1, cs_needs_full_flush = False \<rparr>)"
  obtain rows where "resting m = Inr rows"
    "\<forall>i y. (i, y) \<in> set rows \<longleftrightarrow> (\<exists>u. \<exists>ord \<in> set (get_orders_open u (cs_db c)). oo_order_id ord = i \<and> row_of_order ord = y)"
    using conjunct1 [OF reads_show_the_exchange [OF es(1,2) rec c_def refl]] by blast
  moreover have "apply_all demo_commands (new_matcher 1 1000) = Inr (m, map snd ([(''1-0'', r)] @ es2))" using es(1) by simp
  ultimately show ?thesis using rec c_def by blast
qed

end
