(* ===== verification/Risk.thy ===== *)
theory Risk
  imports Ledger
begin

section \<open>Risk checks and reservations: services/gateway/risk.py\<close>

text \<open>
  \<open>RiskState\<close> is the gateway's own view of every account: settled cash and inventory, what open
  orders have reserved of each, the orders still waiting for their \<open>OrderAccepted\<close> and the
  orders on the book. A \<open>Reservation\<close> object is in \<open>pending_by_client\<close> or in \<open>open_orders\<close>, never
  in both, and moves from the first to the second, so it is a value; the request that made it
  keeps a reference to compare with, which the order-flow theory models.
\<close>

subsection \<open>Costs and state\<close>

definition buy_cost :: "int \<Rightarrow> int \<Rightarrow> int" where
  "buy_cost price q =
     (let fee_per_unit = - (- price * TAKER_FEE_BPS div BPS_DENOMINATOR) in q * (price + fee_per_unit))"

record reservation =
  rs_user_id :: int
  rs_order_id :: "int option"
  rs_client_order_id :: int
  rs_symbol_id :: int
  rs_side :: int
  rs_price_ticks :: int
  rs_qty :: int

record risk =
  settled_cash :: "(int, int) dict"
  reserved :: "(int, int) dict"
  rk_positions :: "(int \<times> int, int) dict"
  reserved_qty :: "(int \<times> int, int) dict"
  pending_by_client :: "(int \<times> int, reservation) dict"
  rk_open_orders :: "(int, reservation) dict"
  market_makers :: "int set"
  rk_last_seq :: string

definition new_risk :: risk where
  "new_risk =
     \<lparr> settled_cash = [], reserved = [], rk_positions = [], reserved_qty = [], pending_by_client = [],
       rk_open_orders = [], market_makers = {}, rk_last_seq = ''0-0'' \<rparr>"

text \<open>\<open>from_db\<close>: the account rows and the ids of the designated market makers, as queried.\<close>

definition risk_from_db :: "(int \<times> int) list \<Rightarrow> int set \<Rightarrow> risk" where
  "risk_from_db accounts makers = new_risk\<lparr>settled_cash := dict_of accounts, market_makers := makers\<rparr>"

subsection \<open>Reads\<close>

definition side_prices :: "int \<Rightarrow> int \<Rightarrow> risk \<Rightarrow> int list" where
  "side_prices sy sd rk =
     map rs_price_ticks (filter (\<lambda>r. rs_symbol_id r = sy \<and> rs_side r = sd \<and> rs_qty r > 0)
       (dvalues (rk_open_orders rk)))"

definition rk_best_ask :: "risk \<Rightarrow> int \<Rightarrow> int option" where
  "rk_best_ask rk sy =
     (let prices = side_prices sy Side_SELL rk in if prices \<noteq> [] then Some (Min (set prices)) else None)"

definition rk_best_bid :: "risk \<Rightarrow> int \<Rightarrow> int option" where
  "rk_best_bid rk sy =
     (let prices = side_prices sy Side_BUY rk in if prices \<noteq> [] then Some (Max (set prices)) else None)"

definition banded_market_price :: "risk \<Rightarrow> int \<Rightarrow> int \<Rightarrow> int \<Rightarrow> int option" where
  "banded_market_price rk sy sd band_bps =
     (if sd = Side_BUY
      then (case rk_best_ask rk sy of
              None \<Rightarrow> None
            | Some reference \<Rightarrow> Some ((reference * (10000 + band_bps) + 9999) div 10000))
      else (case rk_best_bid rk sy of
              None \<Rightarrow> None
            | Some reference \<Rightarrow> Some (max 1 (reference * (10000 - band_bps) div 10000))))"

definition available_cash :: "risk \<Rightarrow> int \<Rightarrow> int" where
  "available_cash rk uid = dget0 (settled_cash rk) uid - dget0 (reserved rk) uid"

definition rk_position :: "risk \<Rightarrow> int \<Rightarrow> int \<Rightarrow> int" where
  "rk_position rk uid sy = dget0 (rk_positions rk) (uid, sy)"

definition available_position :: "risk \<Rightarrow> int \<Rightarrow> int \<Rightarrow> int" where
  "available_position rk uid sy = dget0 (rk_positions rk) (uid, sy) - dget0 (reserved_qty rk) (uid, sy)"

definition is_market_maker :: "risk \<Rightarrow> int \<Rightarrow> bool" where
  "is_market_maker rk uid = (uid \<in> market_makers rk)"

definition reject_reason_for :: "risk \<Rightarrow> int \<Rightarrow> int \<Rightarrow> int \<Rightarrow> int \<Rightarrow> int \<Rightarrow> int option" where
  "reject_reason_for rk uid sy sd price q =
     (if sd = Side_BUY
      then (if available_cash rk uid < buy_cost price q then Some RejectReason_INSUFFICIENT_CASH else None)
      else if is_market_maker rk uid then None
      else if available_position rk uid sy < q then Some RejectReason_INSUFFICIENT_POSITION
      else None)"

subsection \<open>Reserve and release\<close>

text \<open>Take what \<open>q\<close> of an order commits, at the order's limit.\<close>

definition commit :: "int \<Rightarrow> int \<Rightarrow> int \<Rightarrow> int \<Rightarrow> int \<Rightarrow> risk \<Rightarrow> risk" where
  "commit uid sy sd price q rk =
     (if sd = Side_BUY then rk\<lparr>reserved := add_to uid (buy_cost price q) (reserved rk)\<rparr>
      else rk\<lparr>reserved_qty := add_to (uid, sy) q (reserved_qty rk)\<rparr>)"

definition reserve :: "int \<Rightarrow> int \<Rightarrow> int \<Rightarrow> int \<Rightarrow> int \<Rightarrow> int \<Rightarrow> risk \<Rightarrow> exn + (risk \<times> reservation)" where
  "reserve uid coid sy sd price q rk =
     (case reject_reason_for rk uid sy sd price q of
        Some _ \<Rightarrow> Inl ValueError
      | None \<Rightarrow>
          let r = \<lparr> rs_user_id = uid, rs_order_id = None, rs_client_order_id = coid, rs_symbol_id = sy,
                    rs_side = sd, rs_price_ticks = price, rs_qty = q \<rparr>;
              rk1 = commit uid sy sd price q rk
          in Inr (rk1\<lparr>pending_by_client := dset (uid, coid) r (pending_by_client rk1)\<rparr>, r))"

definition rk_release :: "reservation \<Rightarrow> int \<Rightarrow> risk \<Rightarrow> risk" where
  "rk_release r q rk =
     (if rs_side r = Side_BUY
      then rk\<lparr>reserved := dset (rs_user_id r)
                 (max 0 (dget0 (reserved rk) (rs_user_id r) - buy_cost (rs_price_ticks r) q)) (reserved rk)\<rparr>
      else (let k = (rs_user_id r, rs_symbol_id r)
            in rk\<lparr>reserved_qty := dset k (max 0 (dget0 (reserved_qty rk) k - q)) (reserved_qty rk)\<rparr>))"

definition release_remaining :: "int \<Rightarrow> risk \<Rightarrow> risk" where
  "release_remaining oid rk =
     (case dget (rk_open_orders rk) oid of
        None \<Rightarrow> rk
      | Some r \<Rightarrow> rk_release r (rs_qty r) (rk\<lparr>rk_open_orders := dpop oid (rk_open_orders rk)\<rparr>))"

definition release_fill :: "int \<Rightarrow> int \<Rightarrow> risk \<Rightarrow> risk" where
  "release_fill oid q rk =
     (case dget (rk_open_orders rk) oid of
        None \<Rightarrow> rk
      | Some r \<Rightarrow>
          let rk1 = rk_release r q rk; rem = max 0 (rs_qty r - q)
          in if rem = 0 then rk1\<lparr>rk_open_orders := dpop oid (rk_open_orders rk1)\<rparr>
             else rk1\<lparr>rk_open_orders := dset oid (r\<lparr>rs_qty := rem\<rparr>) (rk_open_orders rk1)\<rparr>)"

text \<open>
  \<open>_abandon\<close> of the order route: give back the commitment of an order that was not appended.
  \<open>own\<close> is the outcome of \<open>pending_by_client.get(key) is reservation\<close>: whether the entry
  under the key is the very object this request made.
\<close>

definition abandon :: "bool \<Rightarrow> reservation \<Rightarrow> risk \<Rightarrow> risk" where
  "abandon own r rk =
     (let k = (rs_user_id r, rs_client_order_id r);
          rk1 = (if own then rk\<lparr>pending_by_client := dpop k (pending_by_client rk)\<rparr> else rk)
      in rk_release r (rs_qty r) rk1)"

subsection \<open>Applying a record\<close>

definition risk_accepted :: "wire \<Rightarrow> risk \<Rightarrow> risk" where
  "risk_accepted rec rk =
     (let k = (user_id rec, client_order_id rec);
          rk0 = rk\<lparr>pending_by_client := dpop k (pending_by_client rk)\<rparr>
      in case dget (pending_by_client rk) k of
           None \<Rightarrow>
             let r = \<lparr> rs_user_id = user_id rec, rs_order_id = Some (order_id rec),
                       rs_client_order_id = client_order_id rec, rs_symbol_id = symbol_id rec,
                       rs_side = side rec, rs_price_ticks = price_ticks rec, rs_qty = qty rec \<rparr>;
                 rk1 = commit (user_id rec) (symbol_id rec) (side rec) (price_ticks rec) (qty rec) rk0
             in rk1\<lparr>rk_open_orders := dset (order_id rec) r (rk_open_orders rk1)\<rparr>
         | Some pending \<Rightarrow>
             rk0\<lparr>rk_open_orders :=
                   dset (order_id rec) (pending\<lparr>rs_order_id := Some (order_id rec)\<rparr>) (rk_open_orders rk0)\<rparr>)"

definition risk_fill :: "wire \<Rightarrow> risk \<Rightarrow> risk" where
  "risk_fill rec rk =
     (let fees = calculate_fees (price_ticks rec) (qty rec);
          (buyer_id, seller_id, buyer_delta, seller_delta) =
            (if aggressor_side rec = Side_BUY
             then (taker_user_id rec, maker_user_id rec,
                   - (fb_notional fees + fb_taker_fee_ticks fees), fb_notional fees - fb_maker_fee_ticks fees)
             else (maker_user_id rec, taker_user_id rec,
                   - (fb_notional fees + fb_maker_fee_ticks fees), fb_notional fees - fb_taker_fee_ticks fees));
          buyer_key = (buyer_id, symbol_id rec);
          seller_key = (seller_id, symbol_id rec);
          rk1 = rk\<lparr>settled_cash := add_to seller_id seller_delta
                                     (add_to buyer_id buyer_delta (settled_cash rk)),
                   rk_positions := add_to seller_key (- qty rec)
                                     (add_to buyer_key (qty rec) (rk_positions rk))\<rparr>
      in release_fill (taker_order_id rec) (qty rec) (release_fill (maker_order_id rec) (qty rec) rk1))"

definition risk_apply :: "wire \<Rightarrow> string option \<Rightarrow> risk \<Rightarrow> risk" where
  "risk_apply rec sid rk0 =
     (let rk = (case sid of None \<Rightarrow> rk0 | Some s \<Rightarrow> rk0\<lparr>rk_last_seq := s\<rparr>)
      in if is_AccountCreated rec
         then rk\<lparr>settled_cash := dset (user_id rec) (initial_cash_ticks rec) (settled_cash rk)\<rparr>
         else if is_CashCredited rec
         then rk\<lparr>settled_cash := add_to (user_id rec) (amount_ticks rec) (settled_cash rk)\<rparr>
         else if is_OrderAccepted rec then risk_accepted rec rk
         else if is_Fill rec then risk_fill rec rk
         else if is_OrderCancelled rec then release_remaining (order_id rec) rk
         else rk)"

definition risk_run :: "(string \<times> wire) list \<Rightarrow> risk \<Rightarrow> risk" where
  "risk_run = fold (\<lambda>(sid, rec). risk_apply rec (Some sid))"

text \<open>\<open>replay_from_stream\<close>: batches until the stream has no more; whether it ends depends on the reader.\<close>

partial_function (option) risk_replay ::
  "(string \<Rightarrow> (string \<times> wire) list) \<Rightarrow> string \<Rightarrow> int \<Rightarrow> risk \<Rightarrow> (risk \<times> int) option" where
  "risk_replay read last_id replayed rk =
     (let batch = read last_id
      in if batch = [] then Some (rk\<lparr>rk_last_seq := last_id\<rparr>, replayed)
         else risk_replay read (fst (last batch)) (replayed + int (length batch)) (risk_run batch rk))"

subsection \<open>Checkpoint\<close>

text \<open>
  What the pending orders have reserved, taken back out for the dump. An open order always has
  its id (every branch that stores one sets it); a row without one is outside the model.
\<close>

definition without_pending :: "reservation \<Rightarrow> (int, int) dict \<times> (int \<times> int, int) dict \<Rightarrow>
    (int, int) dict \<times> (int \<times> int, int) dict" where
  "without_pending p rq =
     (if rs_side p = Side_BUY
      then (add_to (rs_user_id p) (- buy_cost (rs_price_ticks p) (rs_qty p)) (fst rq), snd rq)
      else (fst rq, add_to (rs_user_id p, rs_symbol_id p) (- rs_qty p) (snd rq)))"

definition risk_json :: "risk \<Rightarrow> exn + json" where
  "risk_json rk =
     (let (res, resq) = fold without_pending (dvalues (pending_by_client rk)) (reserved rk, reserved_qty rk)
      in sbind (each (\<lambda>r. case rs_order_id r of
                       None \<Rightarrow> Inl TypeError
                     | Some oid \<Rightarrow> Inr [rs_user_id r, oid, rs_client_order_id r, rs_symbol_id r, rs_side r,
                                       rs_price_ticks r, rs_qty r]) (dvalues (rk_open_orders rk)))
           (\<lambda>rows. Inr (JObj
             [(''last_seq'', JStr (rk_last_seq rk)),
              (''settled_cash'', jrows (map (\<lambda>(u, c). [u, c]) (settled_cash rk))),
              (''reserved'', jrows (map (\<lambda>(u, v). [u, v]) (filter (\<lambda>(u, v). v \<noteq> 0) res))),
              (''positions'', jrows (map (\<lambda>((u, sy), q). [u, sy, q]) (rk_positions rk))),
              (''reserved_qty'', jrows (map (\<lambda>((u, sy), q). [u, sy, q]) (filter (\<lambda>(k, q). q \<noteq> 0) resq))),
              (''open_orders'', jrows rows)])))"

definition risk_dump :: "risk \<Rightarrow> exn + string" where
  "risk_dump rk = sbind (risk_json rk) (\<lambda>j. Inr (json_dumps j))"

definition reservation_of_values :: "int list \<Rightarrow> exn + reservation" where
  "reservation_of_values vs = (case vs of
     [a, b, c, d, e, f, g] \<Rightarrow>
       Inr \<lparr> rs_user_id = a, rs_order_id = Some b, rs_client_order_id = c, rs_symbol_id = d, rs_side = e,
             rs_price_ticks = f, rs_qty = g \<rparr>
   | _ \<Rightarrow> Inl TypeError)"

definition keyed_reservation_of :: "json \<Rightarrow> exn + (int \<times> reservation)" where
  "keyed_reservation_of j = sbind (jlist j) (\<lambda>fields.
     if length fields < 2 then Inl IndexError
     else sbind (int_of_json (fields ! 1)) (\<lambda>oid. sbind (each jint fields) (\<lambda>vs.
        sbind (reservation_of_values vs) (\<lambda>r. Inr (oid, r)))))"

definition recount_reserved :: "reservation list \<Rightarrow> (int, int) dict" where
  "recount_reserved rs =
     fold (\<lambda>r d. if rs_side r = Side_BUY then add_to (rs_user_id r) (buy_cost (rs_price_ticks r) (rs_qty r)) d else d) rs []"

definition risk_load :: "string \<Rightarrow> risk \<Rightarrow> exn + risk" where
  "risk_load s rk =
     sbind (json_loads s) (\<lambda>raw.
     sbind (sbind (jget ''last_seq'' raw) jstr) (\<lambda>sq.
     sbind (sbind (jget ''settled_cash'' raw) jlist) (\<lambda>cash.
     sbind (each pair_of cash) (\<lambda>cs.
     sbind (sbind (jget ''positions'' raw) jlist) (\<lambda>pos.
     sbind (each keyed_of pos) (\<lambda>ps.
     sbind (sbind (jget ''reserved_qty'' raw) jlist) (\<lambda>rq.
     sbind (each keyed_of rq) (\<lambda>rqs.
     sbind (sbind (jget ''open_orders'' raw) jlist) (\<lambda>ords.
     sbind (each keyed_reservation_of ords) (\<lambda>os.
       Inr \<lparr> settled_cash = dict_of cs, reserved = recount_reserved (dvalues (dict_of os)),
             rk_positions = dict_of ps, reserved_qty = dict_of rqs, pending_by_client = [],
             rk_open_orders = dict_of os, market_makers = market_makers rk, rk_last_seq = sq \<rparr>))))))))))"

end
