(* ===== verification/Risk_Spec.thy ===== *)
theory Risk_Spec
  imports Risk Ledger_Spec
begin

section \<open>What the risk state promises\<close>

text \<open>
  \<open>exact\<close>: what is reserved is, for every account and resource, the sum of what its pending and
  open orders commit. \<open>solvent\<close> adds that nobody has committed more than it has. The step
  relation \<open>risk_step\<close> is what happens to a gateway that is neither restarted nor loses a
  reply; every reachable state is exact and solvent, so the checks of \<open>reject_reason_for\<close> rest
  on true figures and no retail account ever goes short.
\<close>

subsection \<open>What an order commits\<close>

definition unit_fee :: "int \<Rightarrow> int" where
  "unit_fee px = - (- px * TAKER_FEE_BPS div BPS_DENOMINATOR)"

lemma buy_cost_eq: "buy_cost px q = q * (px + unit_fee px)"
  by (simp only: buy_cost_def unit_fee_def Let_def)

lemma buy_cost_linear: "buy_cost px (a - b) = buy_cost px a - buy_cost px b"
  by (simp add: buy_cost_eq left_diff_distrib)

lemma buy_cost_0 [simp]: "buy_cost px 0 = 0"
  by (simp add: buy_cost_eq)

lemma ceiling_bounds:
  fixes a d :: int
  assumes "0 < d"
  shows "a \<le> - (- a div d) * d" "0 < a \<Longrightarrow> 0 < - (- a div d)"
proof -
  have e: "(- a div d) * d + - a mod d = - a" by (rule div_mult_mod_eq)
  moreover have m: "0 \<le> - a mod d" "- a mod d < d" using assms by simp_all
  ultimately show le: "a \<le> - (- a div d) * d" by linarith
  show "0 < - (- a div d)" if "0 < a"
  proof (rule ccontr)
    assume "\<not> 0 < - (- a div d)"
    then have "- (- a div d) * d \<le> 0" using assms by (intro mult_nonpos_nonneg) auto
    with le that show False by linarith
  qed
qed

lemma unit_fee_bounds: "px * 10 \<le> unit_fee px * 10000" "0 < px \<Longrightarrow> 0 < unit_fee px"
  using ceiling_bounds [of 10000 "px * 10"] by (simp_all only: fee_consts unit_fee_def mult_minus_left)

lemma buy_cost_pos: "0 < px \<Longrightarrow> 0 < q \<Longrightarrow> 0 < buy_cost px q"
  using unit_fee_bounds(2) [of px] by (simp add: buy_cost_eq)

lemma buy_cost_covers:
  assumes "0 < px" "px \<le> limit" "0 < q"
  shows "px * q + fb_taker_fee_ticks (calculate_fees px q) \<le> buy_cost limit q"
proof -
  have n: "px * q \<le> limit * q" using assms by simp
  have "1000 * fb_taker_fee_ticks (calculate_fees px q) \<le> px * q" using fees_bounds(4) [of px q] assms by simp
  also have "\<dots> \<le> limit * q" by (rule n)
  also have "\<dots> \<le> 1000 * unit_fee limit * q"
    using unit_fee_bounds(1) [of limit] assms by (intro mult_right_mono) auto
  finally have "fb_taker_fee_ticks (calculate_fees px q) \<le> unit_fee limit * q" by simp
  with n show ?thesis by (simp add: buy_cost_eq algebra_simps)
qed

definition buy_of :: "int \<Rightarrow> reservation \<Rightarrow> int" where
  "buy_of u r = (if rs_side r = Side_BUY \<and> rs_user_id r = u then buy_cost (rs_price_ticks r) (rs_qty r) else 0)"

definition sell_of :: "int \<times> int \<Rightarrow> reservation \<Rightarrow> int" where
  "sell_of k r = (if rs_side r \<noteq> Side_BUY \<and> (rs_user_id r, rs_symbol_id r) = k then rs_qty r else 0)"

definition cash_committed :: "risk \<Rightarrow> int \<Rightarrow> int" where
  "cash_committed rk u = dsum (buy_of u) (rk_open_orders rk) + dsum (buy_of u) (pending_by_client rk)"

definition units_committed :: "risk \<Rightarrow> int \<times> int \<Rightarrow> int" where
  "units_committed rk k = dsum (sell_of k) (rk_open_orders rk) + dsum (sell_of k) (pending_by_client rk)"

definition good_order :: "reservation \<Rightarrow> bool" where
  "good_order r \<longleftrightarrow> 0 < rs_price_ticks r \<and> 0 < rs_qty r"

definition exact :: "risk \<Rightarrow> bool" where
  "exact rk \<longleftrightarrow>
     wf_dict (pending_by_client rk) \<and> wf_dict (rk_open_orders rk) \<and>
     (\<forall>k r. dget (pending_by_client rk) k = Some r \<longrightarrow> good_order r) \<and>
     (\<forall>i r. dget (rk_open_orders rk) i = Some r \<longrightarrow> good_order r) \<and>
     (\<forall>u. dget0 (reserved rk) u = cash_committed rk u) \<and>
     (\<forall>k. dget0 (reserved_qty rk) k = units_committed rk k)"

lemma commits_nonneg: "good_order r \<Longrightarrow> 0 \<le> buy_of u r" "good_order r \<Longrightarrow> 0 \<le> sell_of k r"
  using buy_cost_pos by (auto simp: good_order_def buy_of_def sell_of_def intro: less_imp_le)

lemma dict_commits_nonneg:
  assumes "wf_dict d" "\<And>k r. dget d k = Some r \<Longrightarrow> good_order r"
  shows "0 \<le> dsum (buy_of u) d" "0 \<le> dsum (sell_of k) d"
    "dget d i = Some r \<Longrightarrow> buy_of u r \<le> dsum (buy_of u) d"
    "dget d i = Some r \<Longrightarrow> sell_of k r \<le> dsum (sell_of k) d"
proof -
  have g: "good_order v" if "(k, v) \<in> set d" for k v using that assms by (simp flip: dget_in_set)
  show "0 \<le> dsum (buy_of u) d" "0 \<le> dsum (sell_of k) d"
    by (rule dsum_nonneg, simp add: g commits_nonneg)+
  show "buy_of u r \<le> dsum (buy_of u) d" "sell_of k r \<le> dsum (sell_of k) d" if "dget d i = Some r"
    using that dsum_ge_at [of d "buy_of u" i] dsum_ge_at [of d "sell_of k" i] g by (auto simp: commits_nonneg)
qed


subsection \<open>Reserving and releasing\<close>

lemma rk_release_sel [simp]:
  "settled_cash (rk_release r q rk) = settled_cash rk" "rk_positions (rk_release r q rk) = rk_positions rk"
  "pending_by_client (rk_release r q rk) = pending_by_client rk"
  "rk_open_orders (rk_release r q rk) = rk_open_orders rk" "market_makers (rk_release r q rk) = market_makers rk"
  by (simp_all add: rk_release_def Let_def)

lemma commit_sel [simp]:
  "settled_cash (commit u sy sd px q rk) = settled_cash rk" "rk_positions (commit u sy sd px q rk) = rk_positions rk"
  "pending_by_client (commit u sy sd px q rk) = pending_by_client rk"
  "rk_open_orders (commit u sy sd px q rk) = rk_open_orders rk"
  "market_makers (commit u sy sd px q rk) = market_makers rk"
  by (simp_all add: commit_def)

lemma commit_reserved:
  assumes "rs_user_id r = u" "rs_symbol_id r = sy" "rs_side r = sd" "rs_price_ticks r = px" "rs_qty r = q"
  shows "dget0 (reserved (commit u sy sd px q rk)) v = dget0 (reserved rk) v + buy_of v r"
    "dget0 (reserved_qty (commit u sy sd px q rk)) k = dget0 (reserved_qty rk) k + sell_of k r"
  using assms by (auto simp: commit_def buy_of_def sell_of_def)

text \<open>A release of what is really reserved never meets its floor of zero.\<close>

lemma release_reserved:
  assumes "\<And>v. buy_of v (r\<lparr>rs_qty := q\<rparr>) \<le> dget0 (reserved rk) v"
    "\<And>k. sell_of k (r\<lparr>rs_qty := q\<rparr>) \<le> dget0 (reserved_qty rk) k"
  shows "dget0 (reserved (rk_release r q rk)) v = dget0 (reserved rk) v - buy_of v (r\<lparr>rs_qty := q\<rparr>)"
    "dget0 (reserved_qty (rk_release r q rk)) k = dget0 (reserved_qty rk) k - sell_of k (r\<lparr>rs_qty := q\<rparr>)"
  using assms(1) [of "rs_user_id r"] assms(2) [of "(rs_user_id r, rs_symbol_id r)"]
  by (auto simp: rk_release_def Let_def buy_of_def sell_of_def max_def)

lemma part_of:
  assumes "good_order r" "0 \<le> q" "q \<le> rs_qty r"
  shows "buy_of v (r\<lparr>rs_qty := rs_qty r - q\<rparr>) = buy_of v r - buy_of v (r\<lparr>rs_qty := q\<rparr>)"
    "sell_of k (r\<lparr>rs_qty := rs_qty r - q\<rparr>) = sell_of k r - sell_of k (r\<lparr>rs_qty := q\<rparr>)"
    "buy_of v (r\<lparr>rs_qty := q\<rparr>) \<le> buy_of v r" "sell_of k (r\<lparr>rs_qty := q\<rparr>) \<le> sell_of k r"
    "0 \<le> buy_of v (r\<lparr>rs_qty := q\<rparr>)" "0 \<le> sell_of k (r\<lparr>rs_qty := q\<rparr>)"
proof -
  have u: "0 \<le> rs_price_ticks r + unit_fee (rs_price_ticks r)"
    using assms unit_fee_bounds(2) [of "rs_price_ticks r"] by (simp add: good_order_def)
  show "buy_of v (r\<lparr>rs_qty := q\<rparr>) \<le> buy_of v r" "0 \<le> buy_of v (r\<lparr>rs_qty := q\<rparr>)"
    using assms u by (auto simp: buy_of_def buy_cost_eq intro: mult_right_mono)
qed (use assms in \<open>auto simp: buy_of_def sell_of_def buy_cost_linear\<close>)

lemma exactD:
  assumes "exact rk"
  shows "wf_dict (pending_by_client rk)" "wf_dict (rk_open_orders rk)"
    "dget (pending_by_client rk) k = Some r \<Longrightarrow> good_order r" "dget (rk_open_orders rk) i = Some r \<Longrightarrow> good_order r"
    "dget0 (reserved rk) u = cash_committed rk u" "dget0 (reserved_qty rk) k' = units_committed rk k'"
  using assms unfolding exact_def by blast+

lemma exactI:
  assumes "wf_dict (pending_by_client rk)" "wf_dict (rk_open_orders rk)"
    "\<And>k r. dget (pending_by_client rk) k = Some r \<Longrightarrow> good_order r"
    "\<And>i r. dget (rk_open_orders rk) i = Some r \<Longrightarrow> good_order r"
    "\<And>u. dget0 (reserved rk) u = cash_committed rk u" "\<And>k. dget0 (reserved_qty rk) k = units_committed rk k"
  shows "exact rk"
  using assms by (simp add: exact_def)

lemma exact_nonneg:
  assumes ex: "exact rk"
  shows "0 \<le> dsum (buy_of v) (rk_open_orders rk)" "0 \<le> dsum (sell_of k) (rk_open_orders rk)"
    "0 \<le> dsum (buy_of v) (pending_by_client rk)" "0 \<le> dsum (sell_of k) (pending_by_client rk)"
  by (rule dict_commits_nonneg; use exactD [OF ex] in blast)+

lemma exact_covers_open:
  assumes ex: "exact rk" and r: "dget (rk_open_orders rk) i = Some r"
  shows "buy_of v r \<le> dget0 (reserved rk) v" "sell_of k r \<le> dget0 (reserved_qty rk) k"
proof -
  have "buy_of v r \<le> dsum (buy_of v) (rk_open_orders rk)" "sell_of k r \<le> dsum (sell_of k) (rk_open_orders rk)"
    by (rule dict_commits_nonneg(3,4) [OF _ _ r]; use exactD [OF ex] in blast)+
  with exact_nonneg(1,3) [OF ex, of v] exact_nonneg(2,4) [OF ex, of k]
  show "buy_of v r \<le> dget0 (reserved rk) v" "sell_of k r \<le> dget0 (reserved_qty rk) k"
    by (simp_all add: exactD [OF ex] cash_committed_def units_committed_def)
qed

lemma exact_covers_pending:
  assumes ex: "exact rk" and r: "dget (pending_by_client rk) i = Some r"
  shows "buy_of v r \<le> dget0 (reserved rk) v" "sell_of k r \<le> dget0 (reserved_qty rk) k"
proof -
  have "buy_of v r \<le> dsum (buy_of v) (pending_by_client rk)" "sell_of k r \<le> dsum (sell_of k) (pending_by_client rk)"
    by (rule dict_commits_nonneg(3,4) [OF _ _ r]; use exactD [OF ex] in blast)+
  with exact_nonneg(1,3) [OF ex, of v] exact_nonneg(2,4) [OF ex, of k]
  show "buy_of v r \<le> dget0 (reserved rk) v" "sell_of k r \<le> dget0 (reserved_qty rk) k"
    by (simp_all add: exactD [OF ex] cash_committed_def units_committed_def)
qed

subsection \<open>Every operation keeps the reservations exact\<close>

lemma reserve_ok:
  assumes "reserve u c sy sd px q rk = Inr (rk', r)"
  shows "reject_reason_for rk u sy sd px q = None"
    "r = \<lparr> rs_user_id = u, rs_order_id = None, rs_client_order_id = c, rs_symbol_id = sy, rs_side = sd,
           rs_price_ticks = px, rs_qty = q \<rparr>"
    "rk' = (commit u sy sd px q rk)\<lparr>pending_by_client := dset (u, c) r (pending_by_client rk)\<rparr>"
  using assms by (auto simp: reserve_def Let_def split: option.splits)

lemma exact_reserve:
  assumes ex: "exact rk" and ok: "reserve u c sy sd px q rk = Inr (rk', r)"
    and fresh: "dget (pending_by_client rk) (u, c) = None" and pos: "0 < px" "0 < q"
  shows "exact rk'"
proof (rule exactI)
  note R = reserve_ok [OF ok]
  note ex = exactD [OF ex]
  have r: "rs_user_id r = u" "rs_symbol_id r = sy" "rs_side r = sd" "rs_price_ticks r = px" "rs_qty r = q"
    by (simp_all add: R(2))
  show "wf_dict (pending_by_client rk')" "wf_dict (rk_open_orders rk')" by (simp_all add: R(3) ex)
  show "good_order x" if "dget (pending_by_client rk') k = Some x" for k x
  proof (cases "k = (u, c)")
    case True
    with that have "x = r" by (simp add: R(3))
    then show ?thesis using pos by (simp add: good_order_def r)
  next
    case False
    with that ex(3) show ?thesis by (simp add: R(3))
  qed
  show "good_order x" if "dget (rk_open_orders rk') i = Some x" for i x
    using that ex(4) by (simp add: R(3))
  show "dget0 (reserved rk') v = cash_committed rk' v" for v
    by (simp add: R(3) commit_reserved [OF r] ex cash_committed_def dsum_dset fresh)
  show "dget0 (reserved_qty rk') k = units_committed rk' k" for k
    by (simp add: R(3) commit_reserved [OF r] ex units_committed_def dsum_dset fresh)
qed

lemma release_whole: "r\<lparr>rs_qty := rs_qty r\<rparr> = r"
  by simp

lemma exact_abandon:
  assumes ex: "exact rk" and own: "dget (pending_by_client rk) (rs_user_id r, rs_client_order_id r) = Some r"
  shows "exact (abandon True r rk)"
    "dget0 (reserved (abandon True r rk)) v = dget0 (reserved rk) v - buy_of v r"
    "dget0 (reserved_qty (abandon True r rk)) k = dget0 (reserved_qty rk) k - sell_of k r"
proof -
  define k0 where "k0 = (rs_user_id r, rs_client_order_id r)"
  define rk1 where "rk1 = rk\<lparr>pending_by_client := dpop k0 (pending_by_client rk)\<rparr>"
  have a: "abandon True r rk = rk_release r (rs_qty r) rk1" by (simp add: abandon_def rk1_def k0_def)
  note cov = exact_covers_pending [OF ex own]
  note rel = release_reserved [where r = r and q = "rs_qty r" and rk = rk1, unfolded release_whole]
  have res: "dget0 (reserved (abandon True r rk)) v = dget0 (reserved rk) v - buy_of v r" for v
    unfolding a using rel(1) cov by (simp add: rk1_def)
  have resq: "dget0 (reserved_qty (abandon True r rk)) k = dget0 (reserved_qty rk) k - sell_of k r" for k
    unfolding a using rel(2) cov by (simp add: rk1_def)
  note ex = exactD [OF ex]
  note own = own [folded k0_def]
  show "exact (abandon True r rk)"
  proof (rule exactI)
    show "wf_dict (pending_by_client (abandon True r rk))" "wf_dict (rk_open_orders (abandon True r rk))"
      by (simp_all add: a rk1_def ex)
    show "good_order x" if "dget (pending_by_client (abandon True r rk)) k = Some x" for k x
      using that ex(3) by (auto simp: a rk1_def split: if_splits)
    show "good_order x" if "dget (rk_open_orders (abandon True r rk)) i = Some x" for i x
      using that ex(4) by (simp add: a rk1_def)
    show "dget0 (reserved (abandon True r rk)) v = cash_committed (abandon True r rk) v" for v
      unfolding res by (simp add: a rk1_def ex cash_committed_def dsum_dpop own)
    show "dget0 (reserved_qty (abandon True r rk)) k = units_committed (abandon True r rk) k" for k
      unfolding resq by (simp add: a rk1_def ex units_committed_def dsum_dpop own)
  qed
  show "dget0 (reserved (abandon True r rk)) v = dget0 (reserved rk) v - buy_of v r"
    "dget0 (reserved_qty (abandon True r rk)) k = dget0 (reserved_qty rk) k - sell_of k r"
    by (rule res, rule resq)
qed

lemma exact_release_remaining:
  assumes ex: "exact rk"
  shows "exact (release_remaining i rk)"
    "dget0 (reserved (release_remaining i rk)) v = dget0 (reserved rk) v - at (buy_of v) (dget (rk_open_orders rk) i)"
    "dget0 (reserved_qty (release_remaining i rk)) k =
      dget0 (reserved_qty rk) k - at (sell_of k) (dget (rk_open_orders rk) i)"
proof -
  consider "dget (rk_open_orders rk) i = None" | r where "dget (rk_open_orders rk) i = Some r" by fastforce
  then have "exact (release_remaining i rk) \<and>
    (\<forall>v. dget0 (reserved (release_remaining i rk)) v =
       dget0 (reserved rk) v - at (buy_of v) (dget (rk_open_orders rk) i)) \<and>
    (\<forall>k. dget0 (reserved_qty (release_remaining i rk)) k =
       dget0 (reserved_qty rk) k - at (sell_of k) (dget (rk_open_orders rk) i))"
  proof cases
    case 1
    then show ?thesis using ex by (simp add: release_remaining_def)
  next
    case (2 r)
    define rk1 where "rk1 = rk\<lparr>rk_open_orders := dpop i (rk_open_orders rk)\<rparr>"
    define rk2 where "rk2 = release_remaining i rk"
    have a: "rk2 = rk_release r (rs_qty r) rk1" by (simp add: rk2_def release_remaining_def 2 rk1_def)
    note cov = exact_covers_open [OF ex 2]
    note rel = release_reserved [where r = r and q = "rs_qty r" and rk = rk1, unfolded release_whole]
    have res: "dget0 (reserved rk2) v = dget0 (reserved rk) v - buy_of v r" for v
      unfolding a using rel(1) cov by (simp add: rk1_def)
    have resq: "dget0 (reserved_qty rk2) k = dget0 (reserved_qty rk) k - sell_of k r" for k
      unfolding a using rel(2) cov by (simp add: rk1_def)
    note ex = exactD [OF ex]
    have "exact rk2"
    proof (rule exactI)
      show "wf_dict (pending_by_client rk2)" "wf_dict (rk_open_orders rk2)" by (simp_all add: a rk1_def ex)
      show "good_order x" if "dget (pending_by_client rk2) k = Some x" for k x
        using that ex(3) by (simp add: a rk1_def)
      show "good_order x" if "dget (rk_open_orders rk2) j = Some x" for j x
        using that ex(4) by (auto simp: a rk1_def split: if_splits)
      show "dget0 (reserved rk2) v = cash_committed rk2 v" for v
        unfolding res by (simp add: a rk1_def ex cash_committed_def dsum_dpop 2)
      show "dget0 (reserved_qty rk2) k = units_committed rk2 k" for k
        unfolding resq by (simp add: a rk1_def ex units_committed_def dsum_dpop 2)
    qed
    with res resq show ?thesis by (simp add: 2 rk2_def)
  qed
  then show "exact (release_remaining i rk)"
    "dget0 (reserved (release_remaining i rk)) v = dget0 (reserved rk) v - at (buy_of v) (dget (rk_open_orders rk) i)"
    "dget0 (reserved_qty (release_remaining i rk)) k =
      dget0 (reserved_qty rk) k - at (sell_of k) (dget (rk_open_orders rk) i)"
    by blast+
qed

lemma exact_release_fill:
  assumes ex: "exact rk" and r: "dget (rk_open_orders rk) i = Some r" and q: "0 < q" "q \<le> rs_qty r"
  shows "exact (release_fill i q rk)"
    "dget0 (reserved (release_fill i q rk)) v = dget0 (reserved rk) v - buy_of v (r\<lparr>rs_qty := q\<rparr>)"
    "dget0 (reserved_qty (release_fill i q rk)) k = dget0 (reserved_qty rk) k - sell_of k (r\<lparr>rs_qty := q\<rparr>)"
    "j \<noteq> i \<Longrightarrow> dget (rk_open_orders (release_fill i q rk)) j = dget (rk_open_orders rk) j"
    "settled_cash (release_fill i q rk) = settled_cash rk" "rk_positions (release_fill i q rk) = rk_positions rk"
    "market_makers (release_fill i q rk) = market_makers rk"
proof -
  define rk2 where "rk2 = release_fill i q rk"
  define rk1 where "rk1 = rk_release r q rk"
  note g = exactD(4) [OF ex r]
  have q0: "0 \<le> q" using q by simp
  note part = part_of [OF g q0 q(2)]
  note cov = exact_covers_open [OF ex r]
  note rel = release_reserved [where r = r and q = q and rk = rk, OF order_trans [OF part(3) cov(1)] order_trans [OF part(4) cov(2)]]
  have a: "rk2 = (if rs_qty r = q then rk1\<lparr>rk_open_orders := dpop i (rk_open_orders rk)\<rparr>
      else rk1\<lparr>rk_open_orders := dset i (r\<lparr>rs_qty := rs_qty r - q\<rparr>) (rk_open_orders rk)\<rparr>)"
    using q by (auto simp: rk2_def release_fill_def r Let_def rk1_def max_def)
  have res: "dget0 (reserved rk2) v = dget0 (reserved rk) v - buy_of v (r\<lparr>rs_qty := q\<rparr>)" for v
    using rel(1) by (simp add: a rk1_def)
  have resq: "dget0 (reserved_qty rk2) k = dget0 (reserved_qty rk) k - sell_of k (r\<lparr>rs_qty := q\<rparr>)" for k
    using rel(2) by (simp add: a rk1_def)
  note ex = exactD [OF ex]
  have pend: "pending_by_client rk2 = pending_by_client rk" by (simp add: a rk1_def)
  have sum: "dsum f (rk_open_orders rk2) = dsum f (rk_open_orders rk) - f (r\<lparr>rs_qty := q\<rparr>)"
    if "f (r\<lparr>rs_qty := rs_qty r - q\<rparr>) = f r - f (r\<lparr>rs_qty := q\<rparr>)" for f
    using that ex(2) by (auto simp: a dsum_dset dsum_dpop r)
  show "exact (release_fill i q rk)" unfolding rk2_def [symmetric]
  proof (rule exactI)
    show "wf_dict (pending_by_client rk2)" "wf_dict (rk_open_orders rk2)" by (simp_all add: a rk1_def ex)
    show "good_order x" if "dget (pending_by_client rk2) k = Some x" for k x
      using that ex(3) by (simp add: pend)
    show "good_order x" if "dget (rk_open_orders rk2) j = Some x" for j x
      using that ex(4) g q by (auto simp: a good_order_def split: if_splits)
    show "dget0 (reserved rk2) v = cash_committed rk2 v" for v
      unfolding res cash_committed_def pend by (simp add: sum [OF part(1)] ex cash_committed_def)
    show "dget0 (reserved_qty rk2) k = units_committed rk2 k" for k
      unfolding resq units_committed_def pend by (simp add: sum [OF part(2)] ex units_committed_def)
  qed
  show "dget0 (reserved (release_fill i q rk)) v = dget0 (reserved rk) v - buy_of v (r\<lparr>rs_qty := q\<rparr>)"
    "dget0 (reserved_qty (release_fill i q rk)) k = dget0 (reserved_qty rk) k - sell_of k (r\<lparr>rs_qty := q\<rparr>)"
    unfolding rk2_def [symmetric] by (rule res, rule resq)
  show "j \<noteq> i \<Longrightarrow> dget (rk_open_orders (release_fill i q rk)) j = dget (rk_open_orders rk) j"
    "settled_cash (release_fill i q rk) = settled_cash rk" "rk_positions (release_fill i q rk) = rk_positions rk"
    "market_makers (release_fill i q rk) = market_makers rk"
    unfolding rk2_def [symmetric] by (simp_all add: a rk1_def)
qed


lemma exact_money:
  assumes "exact rk"
  shows "exact (rk\<lparr>settled_cash := c, rk_positions := p\<rparr>)" "exact (rk\<lparr>settled_cash := c\<rparr>)"
    "exact (rk\<lparr>rk_last_seq := s\<rparr>)"
  using assms by (simp_all add: exact_def cash_committed_def units_committed_def)

text \<open>An acceptance of a pending order moves it to the book and changes no total.\<close>

lemma exact_accepted:
  assumes ex: "exact rk" and p: "dget (pending_by_client rk) (user_id rec, client_order_id rec) = Some r"
    and fresh: "dget (rk_open_orders rk) (order_id rec) = None"
  shows "exact (risk_accepted rec rk)"
    "reserved (risk_accepted rec rk) = reserved rk" "reserved_qty (risk_accepted rec rk) = reserved_qty rk"
    "settled_cash (risk_accepted rec rk) = settled_cash rk" "rk_positions (risk_accepted rec rk) = rk_positions rk"
    "market_makers (risk_accepted rec rk) = market_makers rk"
proof -
  define k0 where "k0 = (user_id rec, client_order_id rec)"
  define rk2 where "rk2 = risk_accepted rec rk"
  define r' where "r' = r\<lparr>rs_order_id := Some (order_id rec)\<rparr>"
  have a: "rk2 = rk\<lparr>pending_by_client := dpop k0 (pending_by_client rk),
      rk_open_orders := dset (order_id rec) r' (rk_open_orders rk)\<rparr>"
    using p by (simp add: rk2_def risk_accepted_def Let_def k0_def r'_def)
  have same: "buy_of v r' = buy_of v r" "sell_of k r' = sell_of k r" "good_order r' = good_order r" for v k
    by (simp_all add: r'_def buy_of_def sell_of_def good_order_def)
  note p = p [folded k0_def] note D = exactD [OF ex]
  show "exact (risk_accepted rec rk)" unfolding rk2_def [symmetric]
  proof (rule exactI)
    show "wf_dict (pending_by_client rk2)" "wf_dict (rk_open_orders rk2)" by (simp_all add: a D)
    show "good_order x" if "dget (pending_by_client rk2) k = Some x" for k x
      using that D(3) by (auto simp: a split: if_splits)
    show "good_order x" if "dget (rk_open_orders rk2) j = Some x" for j x
      using that D(4) D(3) [OF p] same(3) by (auto simp: a split: if_splits)
    show "dget0 (reserved rk2) v = cash_committed rk2 v" for v
      by (simp add: a D cash_committed_def dsum_dpop dsum_dset p fresh same)
    show "dget0 (reserved_qty rk2) k = units_committed rk2 k" for k
      by (simp add: a D units_committed_def dsum_dpop dsum_dset p fresh same)
  qed
  show "reserved (risk_accepted rec rk) = reserved rk" "reserved_qty (risk_accepted rec rk) = reserved_qty rk"
    "settled_cash (risk_accepted rec rk) = settled_cash rk" "rk_positions (risk_accepted rec rk) = rk_positions rk"
    "market_makers (risk_accepted rec rk) = market_makers rk"
    unfolding rk2_def [symmetric] by (simp_all add: a)
qed

subsection \<open>The life of a gateway\<close>

text \<open>Which of a fill's two orders buys, and that the fill is within what each asked for.\<close>

definition fill_buyer :: "wire \<Rightarrow> int" where
  "fill_buyer f = (if aggressor_side f = Side_BUY then taker_order_id f else maker_order_id f)"

definition fill_seller :: "wire \<Rightarrow> int" where
  "fill_seller f = (if aggressor_side f = Side_BUY then maker_order_id f else taker_order_id f)"

definition fill_fits :: "wire \<Rightarrow> reservation \<Rightarrow> reservation \<Rightarrow> bool" where
  "fill_fits f b s \<longleftrightarrow>
     rs_side b = Side_BUY \<and> rs_side s \<noteq> Side_BUY \<and> maker_order_id f \<noteq> taker_order_id f \<and>
     rs_user_id b = (if aggressor_side f = Side_BUY then taker_user_id f else maker_user_id f) \<and>
     rs_user_id s = (if aggressor_side f = Side_BUY then maker_user_id f else taker_user_id f) \<and>
     rs_symbol_id b = symbol_id f \<and> rs_symbol_id s = symbol_id f \<and>
     0 < price_ticks f \<and> price_ticks f \<le> rs_price_ticks b \<and>
     0 < qty f \<and> qty f \<le> rs_qty b \<and> qty f \<le> rs_qty s"

text \<open>
  One step of a gateway that starts from its accounts, is not restarted and loses no reply: a
  submission, a submission given up because nothing was appended, or one outbound record. The
  acceptance of an order finds its pending entry, a fill stays within both orders, an order id is
  new when it is accepted, an account is created once and credits are not negative: what the
  matcher and the account records promise.
\<close>

inductive risk_step :: "risk \<Rightarrow> risk \<Rightarrow> bool" where
  submitted: "reserve u c sy sd px q rk = Inr (rk', r) \<Longrightarrow> dget (pending_by_client rk) (u, c) = None \<Longrightarrow>
    0 < px \<Longrightarrow> 0 < q \<Longrightarrow> risk_step rk rk'"
| abandoned: "dget (pending_by_client rk) (rs_user_id r, rs_client_order_id r) = Some r \<Longrightarrow>
    risk_step rk (abandon True r rk)"
| accepted: "is_OrderAccepted rec \<Longrightarrow>
    dget (pending_by_client rk) (user_id rec, client_order_id rec) = Some r \<Longrightarrow>
    dget (rk_open_orders rk) (order_id rec) = None \<Longrightarrow> risk_step rk (risk_apply rec sid rk)"
| filled: "is_Fill rec \<Longrightarrow> dget (rk_open_orders rk) (fill_buyer rec) = Some b \<Longrightarrow>
    dget (rk_open_orders rk) (fill_seller rec) = Some s \<Longrightarrow> fill_fits rec b s \<Longrightarrow>
    risk_step rk (risk_apply rec sid rk)"
| cancelled: "is_OrderCancelled rec \<Longrightarrow> risk_step rk (risk_apply rec sid rk)"
| created: "is_AccountCreated rec \<Longrightarrow> dget (settled_cash rk) (user_id rec) = None \<Longrightarrow>
    0 \<le> initial_cash_ticks rec \<Longrightarrow> risk_step rk (risk_apply rec sid rk)"
| credited: "is_CashCredited rec \<Longrightarrow> 0 \<le> amount_ticks rec \<Longrightarrow> risk_step rk (risk_apply rec sid rk)"
| other: "\<not> is_AccountCreated rec \<Longrightarrow> \<not> is_CashCredited rec \<Longrightarrow> \<not> is_OrderAccepted rec \<Longrightarrow> \<not> is_Fill rec \<Longrightarrow>
    \<not> is_OrderCancelled rec \<Longrightarrow> risk_step rk (risk_apply rec sid rk)"

definition solvent :: "risk \<Rightarrow> bool" where
  "solvent rk \<longleftrightarrow> (\<forall>u. 0 \<le> available_cash rk u) \<and>
     (\<forall>u sy. \<not> is_market_maker rk u \<longrightarrow> 0 \<le> available_position rk u sy)"

definition seen_at :: "string option \<Rightarrow> risk \<Rightarrow> risk" where
  "seen_at sid rk = (case sid of None \<Rightarrow> rk | Some s \<Rightarrow> rk\<lparr>rk_last_seq := s\<rparr>)"

lemma seen_at_sel [simp]:
  "settled_cash (seen_at sid rk) = settled_cash rk" "reserved (seen_at sid rk) = reserved rk"
  "rk_positions (seen_at sid rk) = rk_positions rk" "reserved_qty (seen_at sid rk) = reserved_qty rk"
  "pending_by_client (seen_at sid rk) = pending_by_client rk" "rk_open_orders (seen_at sid rk) = rk_open_orders rk"
  "market_makers (seen_at sid rk) = market_makers rk"
  by (simp_all add: seen_at_def split: option.split)

lemma exact_seen: "exact rk \<Longrightarrow> exact (seen_at sid rk)"
  by (simp add: seen_at_def exact_money split: option.split)

lemma solvent_seen: "solvent (seen_at sid rk) = solvent rk"
  by (simp add: solvent_def available_cash_def available_position_def is_market_maker_def)

lemma solventI:
  assumes "\<And>u. dget0 (reserved rk) u \<le> dget0 (settled_cash rk) u"
    "\<And>u sy. u \<notin> market_makers rk \<Longrightarrow> dget0 (reserved_qty rk) (u, sy) \<le> dget0 (rk_positions rk) (u, sy)"
  shows "solvent rk"
  using assms by (simp add: solvent_def available_cash_def available_position_def is_market_maker_def)

lemma solventD:
  assumes "solvent rk"
  shows "dget0 (reserved rk) u \<le> dget0 (settled_cash rk) u"
    "u \<notin> market_makers rk \<Longrightarrow> dget0 (reserved_qty rk) (u, sy) \<le> dget0 (rk_positions rk) (u, sy)"
  using assms by (simp_all add: solvent_def available_cash_def available_position_def is_market_maker_def)


lemma two_fills:
  assumes ex: "exact rk" and i: "dget (rk_open_orders rk) i = Some x" and j: "dget (rk_open_orders rk) j = Some y"
    and ne: "i \<noteq> j" and q: "0 < q" "q \<le> rs_qty x" "q \<le> rs_qty y"
  defines "rk' \<equiv> release_fill j q (release_fill i q rk)"
  shows "exact rk'" "settled_cash rk' = settled_cash rk" "rk_positions rk' = rk_positions rk"
    "market_makers rk' = market_makers rk"
    "dget0 (reserved rk') v = dget0 (reserved rk) v - (buy_of v (x\<lparr>rs_qty := q\<rparr>) + buy_of v (y\<lparr>rs_qty := q\<rparr>))"
    "dget0 (reserved_qty rk') k =
      dget0 (reserved_qty rk) k - (sell_of k (x\<lparr>rs_qty := q\<rparr>) + sell_of k (y\<lparr>rs_qty := q\<rparr>))"
proof -
  note A = exact_release_fill [OF ex i q(1,2)]
  have j': "dget (rk_open_orders (release_fill i q rk)) j = Some y" using A(4) [of j] ne j by simp
  note B = exact_release_fill [OF A(1) j' q(1,3)]
  show "exact rk'" "settled_cash rk' = settled_cash rk" "rk_positions rk' = rk_positions rk"
    "market_makers rk' = market_makers rk"
    "dget0 (reserved rk') v = dget0 (reserved rk) v - (buy_of v (x\<lparr>rs_qty := q\<rparr>) + buy_of v (y\<lparr>rs_qty := q\<rparr>))"
    "dget0 (reserved_qty rk') k =
      dget0 (reserved_qty rk) k - (sell_of k (x\<lparr>rs_qty := q\<rparr>) + sell_of k (y\<lparr>rs_qty := q\<rparr>))"
    unfolding rk'_def using A B by simp_all
qed

lemma risk_fill_parts:
  assumes fit: "fill_fits rec b s"
  obtains bfee sfee rk1 where
    "risk_fill rec rk = release_fill (taker_order_id rec) (qty rec) (release_fill (maker_order_id rec) (qty rec) rk1)"
    "bfee \<le> fb_taker_fee_ticks (calculate_fees (price_ticks rec) (qty rec))"
    "0 \<le> price_ticks rec * qty rec - sfee"
    "rk1 = rk\<lparr>settled_cash := add_to (rs_user_id s) (price_ticks rec * qty rec - sfee)
                 (add_to (rs_user_id b) (- (price_ticks rec * qty rec + bfee)) (settled_cash rk)),
              rk_positions := add_to (rs_user_id s, symbol_id rec) (- qty rec)
                 (add_to (rs_user_id b, symbol_id rec) (qty rec) (rk_positions rk))\<rparr>"
proof -
  have p: "0 \<le> price_ticks rec" "0 \<le> qty rec" using fit by (simp_all add: fill_fits_def)
  note F = fees_bounds [OF p]
  define n where "n = price_ticks rec * qty rec"
  have n: "0 \<le> n" using p by (simp add: n_def)
  define bfee where "bfee = (if aggressor_side rec = Side_BUY then fb_taker_fee_ticks (calculate_fees (price_ticks rec) (qty rec))
      else fb_maker_fee_ticks (calculate_fees (price_ticks rec) (qty rec)))"
  define sfee where "sfee = (if aggressor_side rec = Side_BUY then fb_maker_fee_ticks (calculate_fees (price_ticks rec) (qty rec))
      else fb_taker_fee_ticks (calculate_fees (price_ticks rec) (qty rec)))"
  show ?thesis
  proof (rule that)
    show "bfee \<le> fb_taker_fee_ticks (calculate_fees (price_ticks rec) (qty rec))" using F by (simp add: bfee_def)
    show "0 \<le> price_ticks rec * qty rec - sfee"
      using F n unfolding sfee_def n_def [symmetric] by (auto simp: algebra_simps)
    show "risk_fill rec rk = release_fill (taker_order_id rec) (qty rec) (release_fill (maker_order_id rec) (qty rec)
      (rk\<lparr>settled_cash := add_to (rs_user_id s) (price_ticks rec * qty rec - sfee)
                 (add_to (rs_user_id b) (- (price_ticks rec * qty rec + bfee)) (settled_cash rk)),
              rk_positions := add_to (rs_user_id s, symbol_id rec) (- qty rec)
                 (add_to (rs_user_id b, symbol_id rec) (qty rec) (rk_positions rk))\<rparr>))"
      using fit by (simp add: risk_fill_def Let_def bfee_def sfee_def F(1) fill_fits_def)
  qed (rule refl)
qed

lemma fill_step:
  assumes ex: "exact rk" and sol: "solvent rk"
    and b: "dget (rk_open_orders rk) (fill_buyer rec) = Some b"
    and s: "dget (rk_open_orders rk) (fill_seller rec) = Some s" and fit: "fill_fits rec b s"
  shows "exact (risk_fill rec rk) \<and> solvent (risk_fill rec rk)"
proof -
  define px q where "px = price_ticks rec" and "q = qty rec"
  note fit' = fit [unfolded fill_fits_def]
  obtain bfee sfee rk1 where
    f: "risk_fill rec rk = release_fill (taker_order_id rec) q (release_fill (maker_order_id rec) q rk1)"
    and bfee: "bfee \<le> fb_taker_fee_ticks (calculate_fees px q)" and sfee: "0 \<le> px * q - sfee"
    and rk1: "rk1 = rk\<lparr>settled_cash := add_to (rs_user_id s) (px * q - sfee)
                 (add_to (rs_user_id b) (- (px * q + bfee)) (settled_cash rk)),
              rk_positions := add_to (rs_user_id s, symbol_id rec) (- q)
                 (add_to (rs_user_id b, symbol_id rec) q (rk_positions rk))\<rparr>"
    using risk_fill_parts [OF fit, of rk] unfolding px_def q_def by metis
  have ex1: "exact rk1" unfolding rk1 by (rule exact_money(1) [OF ex])
  define rk2 where "rk2 = risk_fill rec rk"
  have T: "exact rk2" "settled_cash rk2 = settled_cash rk1" "rk_positions rk2 = rk_positions rk1"
    "market_makers rk2 = market_makers rk1"
    "\<And>v. dget0 (reserved rk2) v = dget0 (reserved rk1) v - (buy_of v (b\<lparr>rs_qty := q\<rparr>) + buy_of v (s\<lparr>rs_qty := q\<rparr>))"
    "\<And>k. dget0 (reserved_qty rk2) k =
      dget0 (reserved_qty rk1) k - (sell_of k (b\<lparr>rs_qty := q\<rparr>) + sell_of k (s\<lparr>rs_qty := q\<rparr>))"
  proof -
    have q: "0 < q" "q \<le> rs_qty b" "q \<le> rs_qty s" using fit' by (simp_all add: q_def)
    have o1: "dget (rk_open_orders rk1) (fill_buyer rec) = Some b" "dget (rk_open_orders rk1) (fill_seller rec) = Some s"
      by (simp_all add: rk1 b s)
    show "exact rk2" "settled_cash rk2 = settled_cash rk1" "rk_positions rk2 = rk_positions rk1"
      "market_makers rk2 = market_makers rk1"
      "\<And>v. dget0 (reserved rk2) v = dget0 (reserved rk1) v - (buy_of v (b\<lparr>rs_qty := q\<rparr>) + buy_of v (s\<lparr>rs_qty := q\<rparr>))"
      "\<And>k. dget0 (reserved_qty rk2) k =
        dget0 (reserved_qty rk1) k - (sell_of k (b\<lparr>rs_qty := q\<rparr>) + sell_of k (s\<lparr>rs_qty := q\<rparr>))"
      using two_fills [OF ex1 o1(1) o1(2), of q] two_fills [OF ex1 o1(2) o1(1), of q] q fit'
      unfolding rk2_def f by (auto simp: fill_buyer_def fill_seller_def split: if_splits)
  qed
  have sell0: "buy_of v (s\<lparr>rs_qty := q\<rparr>) = 0" "sell_of k (b\<lparr>rs_qty := q\<rparr>) = 0" for v k
    using fit' by (simp_all add: buy_of_def sell_of_def)
  have cost: "px * q + bfee \<le> buy_cost (rs_price_ticks b) q"
    using buy_cost_covers [of px "rs_price_ticks b" q] bfee fit' by (simp add: px_def q_def)
  have "solvent rk2"
  proof (rule solventI)
    show "dget0 (reserved rk2) u \<le> dget0 (settled_cash rk2) u" for u
      using solventD(1) [OF sol, of u] cost sfee fit'
      by (auto simp: T sell0 rk1 buy_of_def)
    show "dget0 (reserved_qty rk2) (u, sy) \<le> dget0 (rk_positions rk2) (u, sy)" if "u \<notin> market_makers rk2" for u sy
      using solventD(2) [OF sol, of u sy] that fit'
      by (auto simp: T sell0 rk1 sell_of_def q_def)
  qed
  with T(1) show ?thesis by (simp add: rk2_def)
qed


subsection \<open>What holds at every moment\<close>

text \<open>The dictionaries have one entry per key and an open order carries the id it is kept under.\<close>

definition tidy :: "risk \<Rightarrow> bool" where
  "tidy rk \<longleftrightarrow> wf_dict (settled_cash rk) \<and> wf_dict (rk_positions rk) \<and> wf_dict (reserved rk) \<and>
     wf_dict (reserved_qty rk) \<and> (\<forall>i r. dget (rk_open_orders rk) i = Some r \<longrightarrow> rs_order_id r = Some i)"

lemma tidy_release [simp]: "tidy rk \<Longrightarrow> tidy (rk_release r q rk)"
  by (auto simp: tidy_def rk_release_def Let_def)

lemma tidy_commit [simp]: "tidy rk \<Longrightarrow> tidy (commit u sy sd px q rk)"
  by (auto simp: tidy_def commit_def)

lemma tidy_pending [simp]: "tidy (rk\<lparr>pending_by_client := p\<rparr>) = tidy rk"
  by (simp add: tidy_def)

lemma tidy_open:
  "tidy rk \<Longrightarrow> rs_order_id r = Some i \<Longrightarrow> tidy (rk\<lparr>rk_open_orders := dset i r (rk_open_orders rk)\<rparr>)"
  "tidy rk \<Longrightarrow> tidy (rk\<lparr>rk_open_orders := dpop i (rk_open_orders rk)\<rparr>)"
  by (auto simp: tidy_def)

lemma tidy_release_fill: "tidy rk \<Longrightarrow> tidy (release_fill i q rk)"
  by (auto simp: tidy_def release_fill_def rk_release_def Let_def split: option.split)

lemma tidy_money:
  "tidy rk \<Longrightarrow> wf_dict c \<Longrightarrow> wf_dict p \<Longrightarrow> tidy (rk\<lparr>settled_cash := c, rk_positions := p\<rparr>)"
  by (simp add: tidy_def)

lemma tidy_risk_fill: "tidy rk \<Longrightarrow> tidy (risk_fill rec rk)"
  unfolding risk_fill_def Let_def
  by (auto intro!: tidy_release_fill tidy_money) (simp_all add: tidy_def)

lemma tidy_accepted: "tidy rk \<Longrightarrow> tidy (risk_accepted rec rk)"
  by (auto simp: tidy_def commit_def risk_accepted_def Let_def split: option.split)

lemma tidy_release_remaining: "tidy rk \<Longrightarrow> tidy (release_remaining i rk)"
  by (auto simp: release_remaining_def intro!: tidy_release tidy_open split: option.split)

lemma risk_apply_seen:
  "risk_apply rec sid rk =
     (let rk = seen_at sid rk in
      if is_AccountCreated rec
      then rk\<lparr>settled_cash := dset (user_id rec) (initial_cash_ticks rec) (settled_cash rk)\<rparr>
      else if is_CashCredited rec
      then rk\<lparr>settled_cash := add_to (user_id rec) (amount_ticks rec) (settled_cash rk)\<rparr>
      else if is_OrderAccepted rec then risk_accepted rec rk
      else if is_Fill rec then risk_fill rec rk
      else if is_OrderCancelled rec then release_remaining (order_id rec) rk
      else rk)"
  by (simp only: risk_apply_def seen_at_def)

lemma tidy_apply: "tidy rk \<Longrightarrow> tidy (risk_apply rec sid rk)"
proof -
  assume "tidy rk"
  then have t: "tidy (seen_at sid rk)" by (simp add: tidy_def)
  have c: "tidy (seen_at sid rk\<lparr>settled_cash := dset u x (settled_cash (seen_at sid rk))\<rparr>)"
    "tidy (seen_at sid rk\<lparr>settled_cash := add_to u x (settled_cash (seen_at sid rk))\<rparr>)" for u x
    using t by (simp_all add: tidy_def)
  from t c tidy_release_remaining [OF t] tidy_accepted [OF t] tidy_risk_fill [OF t]
  show ?thesis by (simp add: risk_apply_seen Let_def)
qed

definition risk_inv :: "risk \<Rightarrow> bool" where
  "risk_inv rk \<longleftrightarrow> exact rk \<and> solvent rk \<and> tidy rk"

lemma rejects_nothing:
  assumes "reject_reason_for rk u sy sd px q = None"
  shows "sd = Side_BUY \<Longrightarrow> buy_cost px q \<le> available_cash rk u"
    "sd \<noteq> Side_BUY \<Longrightarrow> \<not> is_market_maker rk u \<Longrightarrow> q \<le> available_position rk u sy"
  using assms by (auto simp: reject_reason_for_def split: if_splits)

lemma reserve_solvent:
  assumes ok: "reserve u c sy sd px q rk = Inr (rk', r)" and sol: "solvent rk"
  shows "solvent rk'"
proof (rule solventI)
  note R = reserve_ok [OF ok] and rej = rejects_nothing [OF reserve_ok(1) [OF ok]]
  show "dget0 (reserved rk') v \<le> dget0 (settled_cash rk') v" for v
    using solventD(1) [OF sol, of v] rej(1) by (auto simp: R(3) commit_def available_cash_def)
  show "dget0 (reserved_qty rk') (v, y) \<le> dget0 (rk_positions rk') (v, y)" if "v \<notin> market_makers rk'" for v y
  proof -
    have "v \<notin> market_makers rk" using that by (simp add: R(3))
    then show ?thesis using solventD(2) [OF sol, of v y] rej(2)
      by (auto simp: R(3) commit_def available_position_def is_market_maker_def)
  qed
qed

lemma fewer_reserved_solvent:
  assumes "solvent rk" "settled_cash rk' = settled_cash rk" "rk_positions rk' = rk_positions rk"
    "market_makers rk' = market_makers rk" "\<And>u. dget0 (reserved rk') u \<le> dget0 (reserved rk) u"
    "\<And>k. dget0 (reserved_qty rk') k \<le> dget0 (reserved_qty rk) k"
  shows "solvent rk'"
proof (rule solventI)
  show "dget0 (reserved rk') u \<le> dget0 (settled_cash rk') u" for u
    using assms(5) [of u] solventD(1) [OF assms(1), of u] assms(2) by simp
  show "dget0 (reserved_qty rk') (u, sy) \<le> dget0 (rk_positions rk') (u, sy)" if "u \<notin> market_makers rk'" for u sy
    using assms(6) [of "(u, sy)"] solventD(2) [OF assms(1), of u sy] assms(3,4) that by simp
qed

lemma risk_step_inv: "risk_step rk rk' \<Longrightarrow> risk_inv rk \<Longrightarrow> risk_inv rk'"
proof (induction rule: risk_step.induct)
  case (submitted u c sy sd px q rk rk' r)
  then have "exact rk'" "solvent rk'" using exact_reserve reserve_solvent by (auto simp: risk_inv_def)
  moreover have "tidy rk'" using submitted reserve_ok(3) [OF submitted(1)] by (simp add: risk_inv_def)
  ultimately show ?case by (simp add: risk_inv_def)
next
  case (abandoned rk r)
  then have i: "exact rk" "solvent rk" "tidy rk" by (simp_all add: risk_inv_def)
  note A = exact_abandon [OF i(1) abandoned(1)]
  note g = exactD(3) [OF i(1) abandoned(1)]
  have "solvent (abandon True r rk)"
    by (rule fewer_reserved_solvent [OF i(2)])
       (simp_all add: A commits_nonneg [OF g], simp_all add: abandon_def)
  moreover have "tidy (abandon True r rk)" using i(3) by (simp add: abandon_def)
  ultimately show ?case using A(1) by (simp add: risk_inv_def)
next
  case (accepted rec rk r sid)
  let ?rk = "seen_at sid rk"
  have i: "exact ?rk" "solvent ?rk" "tidy rk" using accepted by (simp_all add: risk_inv_def exact_seen solvent_seen)
  have "\<not> is_AccountCreated rec" "\<not> is_CashCredited rec" using accepted(1) by (cases rec; simp)+
  then have a: "risk_apply rec sid rk = risk_accepted rec ?rk" using accepted(1) by (simp add: risk_apply_seen)
  have d: "dget (pending_by_client ?rk) (user_id rec, client_order_id rec) = Some r"
    "dget (rk_open_orders ?rk) (order_id rec) = None" using accepted by simp_all
  note A = exact_accepted [OF i(1) d]
  have "solvent (risk_accepted rec ?rk)"
    by (rule fewer_reserved_solvent [OF i(2)]) (simp_all add: A)
  then show ?case using A(1) tidy_apply [OF i(3), of rec sid] by (simp add: risk_inv_def a)
next
  case (filled rec rk b s sid)
  let ?rk = "seen_at sid rk"
  have i: "exact ?rk" "solvent ?rk" "tidy rk" using filled by (simp_all add: risk_inv_def exact_seen solvent_seen)
  have "\<not> is_AccountCreated rec" "\<not> is_CashCredited rec" "\<not> is_OrderAccepted rec" using filled(1) by (cases rec; simp)+
  then have a: "risk_apply rec sid rk = risk_fill rec ?rk" using filled(1) by (simp add: risk_apply_seen)
  have "exact (risk_fill rec ?rk) \<and> solvent (risk_fill rec ?rk)"
    by (rule fill_step [OF i(1,2) _ _ filled(4)]) (use filled in simp_all)
  then show ?case using tidy_apply [OF i(3), of rec sid] by (simp add: risk_inv_def a)
next
  case (cancelled rec rk sid)
  let ?rk = "seen_at sid rk"
  have i: "exact ?rk" "solvent ?rk" "tidy rk" using cancelled by (simp_all add: risk_inv_def exact_seen solvent_seen)
  have "\<not> is_AccountCreated rec" "\<not> is_CashCredited rec" "\<not> is_OrderAccepted rec" "\<not> is_Fill rec"
    using cancelled(1) by (cases rec; simp)+
  then have a: "risk_apply rec sid rk = release_remaining (order_id rec) ?rk" using cancelled(1) by (simp add: risk_apply_seen)
  note R = exact_release_remaining [OF i(1), of "order_id rec"]
  have g: "0 \<le> at (buy_of u) (dget (rk_open_orders ?rk) (order_id rec))"
    "0 \<le> at (sell_of k) (dget (rk_open_orders ?rk) (order_id rec))" for u k
    using exactD(4) [OF i(1)] commits_nonneg
    by (cases "dget (rk_open_orders ?rk) (order_id rec)"; simp add: commits_nonneg)+
  have "solvent (release_remaining (order_id rec) ?rk)"
    by (rule fewer_reserved_solvent [OF i(2)])
       (use g in \<open>simp_all add: R\<close>, simp_all add: release_remaining_def split: option.split)
  then show ?case using R(1) tidy_apply [OF i(3), of rec sid] by (simp add: risk_inv_def a)
next
  case (created rec rk sid)
  let ?rk = "seen_at sid rk"
  have i: "exact ?rk" "solvent ?rk" "tidy rk" using created by (simp_all add: risk_inv_def exact_seen solvent_seen)
  have a: "risk_apply rec sid rk = ?rk\<lparr>settled_cash := dset (user_id rec) (initial_cash_ticks rec) (settled_cash ?rk)\<rparr>"
    using created(1) by (simp add: risk_apply_seen Let_def)
  have z: "dget0 (settled_cash rk) (user_id rec) = 0" using created(2) by (simp add: dget0_def)
  have "solvent (risk_apply rec sid rk)"
    unfolding a using solventD [OF i(2)] created(3) z by (intro solventI) (auto intro: order_trans dest: meta_spec [of _ "user_id rec"])
  then show ?case using exact_money(2) [OF i(1)] tidy_apply [OF i(3), of rec sid] by (simp add: risk_inv_def a)
next
  case (credited rec rk sid)
  let ?rk = "seen_at sid rk"
  have i: "exact ?rk" "solvent ?rk" "tidy rk" using credited by (simp_all add: risk_inv_def exact_seen solvent_seen)
  have "\<not> is_AccountCreated rec" using credited(1) by (cases rec; simp)
  then have a: "risk_apply rec sid rk = ?rk\<lparr>settled_cash := add_to (user_id rec) (amount_ticks rec) (settled_cash ?rk)\<rparr>"
    using credited(1) by (simp add: risk_apply_seen Let_def)
  have "solvent (risk_apply rec sid rk)"
    unfolding a using solventD [OF i(2)] credited(2) by (intro solventI) (auto intro: add_increasing2)
  then show ?case using exact_money(2) [OF i(1)] tidy_apply [OF i(3), of rec sid] by (simp add: risk_inv_def a)
next
  case (other rec rk sid)
  then have "risk_apply rec sid rk = seen_at sid rk" by (simp add: risk_apply_seen Let_def)
  then show ?case using other by (simp add: risk_inv_def exact_seen solvent_seen tidy_def)
qed

lemma risk_steps_inv: "risk_step\<^sup>*\<^sup>* rk rk' \<Longrightarrow> risk_inv rk \<Longrightarrow> risk_inv rk'"
  by (induction rule: rtranclp_induct) (auto intro: risk_step_inv)

lemma dict_of_sub: "dget (dict_of kvs) k = Some v \<Longrightarrow> (k, v) \<in> set kvs"
  by (induction kvs rule: rev_induct) (auto simp: dict_of_def split: if_splits)

lemma risk_from_db_inv:
  assumes "list_all (\<lambda>a. 0 \<le> snd a) accounts"
  shows "risk_inv (risk_from_db accounts makers)"
proof -
  have "wf_dict (dict_of accounts)"
    unfolding dict_of_def by (induction accounts rule: rev_induct) auto
  moreover have "0 \<le> dget0 (dict_of accounts) u" for u using assms
    by (auto simp: dget0_def list_all_iff split: option.split dest!: dict_of_sub)
  ultimately show ?thesis
    by (auto simp: risk_inv_def risk_from_db_def new_risk_def exact_def tidy_def cash_committed_def
        units_committed_def intro!: solventI)
qed


subsection \<open>The book behind the checks\<close>

definition risk_row :: "reservation \<Rightarrow> row" where
  "risk_row r = (rs_symbol_id r, rs_side r, rs_price_ticks r, rs_qty r)"

definition risk_rows :: "risk \<Rightarrow> rowmap" where
  "risk_rows rk i = map_option risk_row (dget (rk_open_orders rk) i)"

text \<open>A gateway that is catching up has nothing in flight.\<close>

definition catching_up :: "risk \<Rightarrow> bool" where
  "catching_up rk \<longleftrightarrow> pending_by_client rk = [] \<and> wf_dict (rk_open_orders rk)"

lemma rows_release_fill: "risk_rows (release_fill i q rk) = take_from i q (risk_rows rk)"
  by (auto simp: fun_eq_iff risk_rows_def release_fill_def take_from_def risk_row_def Let_def max_def
      split: option.splits if_splits)

lemma rows_release_remaining: "risk_rows (release_remaining i rk) = (risk_rows rk)(i := None)"
  by (auto simp: fun_eq_iff risk_rows_def release_remaining_def split: option.splits)

lemma rows_money: "risk_rows (rk\<lparr>settled_cash := c, rk_positions := p\<rparr>) = risk_rows rk"
  "risk_rows (rk\<lparr>settled_cash := c\<rparr>) = risk_rows rk" "risk_rows (seen_at sid rk) = risk_rows rk"
  by (simp_all add: risk_rows_def [abs_def])

lemma rows_risk_fill:
  "risk_rows (risk_fill r rk) = take_from (taker_order_id r) (qty r) (take_from (maker_order_id r) (qty r) (risk_rows rk))"
  by (simp add: risk_fill_def Let_def rows_release_fill rows_money)

lemma rows_risk_accepted:
  "catching_up rk \<Longrightarrow> risk_rows (risk_accepted r rk) =
     (risk_rows rk)(order_id r \<mapsto> (symbol_id r, side r, price_ticks r, qty r))"
  by (auto simp: fun_eq_iff risk_rows_def risk_accepted_def catching_up_def risk_row_def Let_def)

lemma catching_up_release_fill: "catching_up rk \<Longrightarrow> catching_up (release_fill i q rk)"
  by (auto simp: catching_up_def release_fill_def Let_def split: option.split)

lemma catching_up_apply: "catching_up rk \<Longrightarrow> catching_up (risk_apply r sid rk)"
proof -
  assume "catching_up rk"
  then have c: "catching_up (seen_at sid rk)" by (simp add: catching_up_def)
  have "catching_up (risk_accepted r (seen_at sid rk))"
    using c by (auto simp: catching_up_def risk_accepted_def Let_def)
  moreover have "catching_up (risk_fill r (seen_at sid rk))"
    using c by (auto simp: risk_fill_def Let_def intro!: catching_up_release_fill) (auto simp: catching_up_def)
  moreover have "catching_up (release_remaining i (seen_at sid rk))" for i
    using c by (auto simp: catching_up_def release_remaining_def split: option.split)
  ultimately show ?thesis using c by (simp add: risk_apply_seen Let_def) (simp add: catching_up_def)
qed

interpretation rkb: order_projection "\<lambda>i r. risk_apply r (Some i)" risk_rows "\<lambda>_. True" catching_up
proof
  fix s :: risk and r :: wire and i
  assume ok: "catching_up s"
  then have seen: "catching_up (seen_at (Some i) s)" by (simp add: catching_up_def)
  show "catching_up (risk_apply r (Some i) s)" by (rule catching_up_apply [OF ok])
  show "risk_rows (risk_apply r (Some i) s) = (risk_rows s)(order_id r \<mapsto> (symbol_id r, side r, price_ticks r, qty r))"
    if "is_OrderAccepted r"
    using that rows_risk_accepted [OF seen] by (cases r) (simp_all add: risk_apply_seen Let_def rows_money)
  show "risk_rows (risk_apply r (Some i) s) =
      take_from (taker_order_id r) (qty r) (take_from (maker_order_id r) (qty r) (risk_rows s))" if "is_Fill r"
    using that by (cases r) (simp_all add: risk_apply_seen Let_def rows_risk_fill rows_money)
  show "risk_rows (risk_apply r (Some i) s) = (risk_rows s)(order_id r := None)"
    if "is_OrderCancelled r"
    using that by (cases r) (simp_all add: risk_apply_seen Let_def rows_release_remaining rows_money)
  show "risk_rows (risk_apply r (Some i) s) = risk_rows s" if "\<not> moves_orders (\<lambda>_. True) r"
    using that by (auto simp: risk_apply_seen Let_def rows_money moves_orders_def)
qed

lemma rkb_run: "rkb.run es rk = risk_run es rk"
  by (simp add: rkb.run_def risk_run_def)

interpretation rkl: replay_loop risk_replay risk_run "\<lambda>p n rk. (rk\<lparr>rk_last_seq := p\<rparr>, n)" "\<lambda>_. True"
proof
  show "risk_replay read p n rk = (if read p = [] then Some (rk\<lparr>rk_last_seq := p\<rparr>, n)
      else risk_replay read (fst (last (read p))) (n + int (length (read p))) (risk_run (read p) rk))" for read p n rk
    by (subst risk_replay.simps) (simp add: Let_def)
qed (simp_all add: risk_run_def)

lemma set_side_prices:
  assumes "catching_up rk" "\<And>i r. dget (rk_open_orders rk) i = Some r \<Longrightarrow> 0 < rs_qty r"
  shows "set (side_prices sy sd rk) = row_prices sy sd (risk_rows rk)"
proof -
  have w: "wf_dict (rk_open_orders rk)" using assms(1) by (simp add: catching_up_def)
  have "r \<in> set (dvalues (rk_open_orders rk)) \<longleftrightarrow> (\<exists>i. dget (rk_open_orders rk) i = Some r)" for r
    by (force simp: dget_in_set [OF w])
  then show ?thesis
    using assms(2) by (force simp: side_prices_def row_prices_def risk_rows_def risk_row_def)
qed

lemma best_of_risk:
  assumes "wf_matcher m" "rows_of (\<lambda>_. True) (abs_matcher m) (risk_rows rk)" "catching_up rk"
  shows "rk_best_ask rk sy = best_ask (get_book sy m) \<and> rk_best_bid rk sy = best_bid (get_book sy m)"
proof -
  have "0 < rs_qty r" if "dget (rk_open_orders rk) i = Some r" for i r
  proof -
    have "risk_rows rk i = Some (rs_symbol_id r, rs_side r, rs_price_ticks r, rs_qty r)"
      using that by (simp add: risk_rows_def risk_row_def)
    then have "(i, rs_price_ticks r, rs_qty r) \<in> set (am_queue (abs_matcher m) (rs_symbol_id r) (side_of (rs_side r)))"
      using assms(2) by (simp add: rows_of_def)
    then show ?thesis using am_okD(2) [OF am_ok_abs [OF assms(1)]] by blast
  qed
  note P = set_side_prices [OF assms(3) this]
  show ?thesis
    by (simp add: rk_best_ask_def rk_best_bid_def Let_def best_of_rows [OF assms(1,2) TrueI] P [symmetric])
qed


subsection \<open>The checkpoint\<close>

lemma fold_without_pending:
  assumes "fold without_pending rs (res, resq) = (res', resq')"
  shows "dget0 res' u = dget0 res u - sum_list (map (buy_of u) rs)"
    "dget0 resq' k = dget0 resq k - sum_list (map (sell_of k) rs)"
    "wf_dict res \<Longrightarrow> wf_dict res'" "wf_dict resq \<Longrightarrow> wf_dict resq'"
  using assms
  by (induction rs arbitrary: res resq; auto simp: without_pending_def buy_of_def sell_of_def split: if_splits)+

lemma dget0_filter:
  assumes "wf_dict d"
  shows "dget0 (filter (\<lambda>(k, v). v \<noteq> 0) d) k = dget0 d k" "wf_dict (filter (\<lambda>(k, v). v \<noteq> 0) d)"
proof -
  show w: "wf_dict (filter (\<lambda>(k, v). v \<noteq> 0) d)"
    using assms unfolding wf_dict_def by (rule distinct_map_filter)
  show "dget0 (filter (\<lambda>(k, v). v \<noteq> 0) d) k = dget0 d k"
  proof (cases "dget d k")
    case None
    then have "dget (filter (\<lambda>(k, v). v \<noteq> 0) d) k = None" by (auto simp: map_of_eq_None_iff)
    with None show ?thesis by (simp add: dget0_def)
  next
    case (Some v)
    show ?thesis
    proof (cases "v = 0")
      case True
      have "dget (filter (\<lambda>(k, v). v \<noteq> 0) d) k = None"
      proof (rule ccontr)
        assume "dget (filter (\<lambda>(k, v). v \<noteq> 0) d) k \<noteq> None"
        then obtain w where "dget (filter (\<lambda>(k, v). v \<noteq> 0) d) k = Some w" by blast
        then have "(k, w) \<in> set d" "w \<noteq> 0" by (auto dest: map_of_SomeD)
        with Some True assms show False by (simp flip: dget_in_set)
      qed
      with Some True show ?thesis by (simp add: dget0_def)
    next
      case False
      with map_of_SomeD [OF Some] have "dget (filter (\<lambda>(k, v). v \<noteq> 0) d) k = Some v"
        by (simp add: dget_in_set [OF w])
      with Some show ?thesis by (simp add: dget0_def)
    qed
  qed
qed

lemma dget0_recount: "dget0 (recount_reserved rs) u = sum_list (map (buy_of u) rs)"
proof -
  have "dget0 (fold (\<lambda>r d. if rs_side r = Side_BUY
      then add_to (rs_user_id r) (buy_cost (rs_price_ticks r) (rs_qty r)) d else d) rs d) u =
      dget0 d u + sum_list (map (buy_of u) rs)" for d
    by (induction rs arbitrary: d) (auto simp: buy_of_def)
  then show ?thesis by (simp add: recount_reserved_def)
qed

definition reservation_values :: "int \<Rightarrow> reservation \<Rightarrow> int list" where
  "reservation_values i r =
     [rs_user_id r, i, rs_client_order_id r, rs_symbol_id r, rs_side r, rs_price_ticks r, rs_qty r]"

lemma each_jint [simp]: "each jint (map JInt xs) = Inr xs"
  using each_map [of xs jint JInt "\<lambda>x. x"] by (simp add: jint_def)

lemma keyed_reservation_of_jrow:
  "rs_order_id r = Some i \<Longrightarrow> keyed_reservation_of (jrow (reservation_values i r)) = Inr (i, r)"
  by (simp add: keyed_reservation_of_def jrow_def reservation_values_def reservation_of_values_def
      del: each.simps flip: list.map)

lemma dsum_cong_dget: "wf_dict d \<Longrightarrow> wf_dict e \<Longrightarrow> dget d = dget e \<Longrightarrow> dsum f d = dsum f e"
  using ksum_cong_dget [of d e "\<lambda>_. f"] by (simp add: ksum_def dsum_def case_prod_unfold comp_def)

lemma risk_load_dump:
  assumes ex: "exact rk" and tidy: "tidy rk"
  shows "\<exists>s t. risk_dump rk = Inr s \<and> risk_load s rk0 = Inr t \<and> exact t \<and> tidy t \<and> pending_by_client t = [] \<and>
    dget (rk_open_orders t) = dget (rk_open_orders rk) \<and> dget (settled_cash t) = dget (settled_cash rk) \<and>
    dget (rk_positions t) = dget (rk_positions rk) \<and> market_makers t = market_makers rk0 \<and>
    rk_last_seq t = rk_last_seq rk"
proof -
  note D = exactD [OF ex] and T = tidy [unfolded tidy_def]
  obtain res resq where f: "fold without_pending (dvalues (pending_by_client rk)) (reserved rk, reserved_qty rk) = (res, resq)"
    by fastforce
  note F = fold_without_pending [OF f]
  have wq: "wf_dict resq" using F(4) T by blast
  let ?rows = "map (\<lambda>(i, r). reservation_values i r) (rk_open_orders rk)"
  have row: "rs_order_id (snd p) = Some (fst p)" if "p \<in> set (rk_open_orders rk)" for p
    using that T D(2) by (simp add: dget_in_set [OF D(2)])
  have "each (\<lambda>r. case rs_order_id r of None \<Rightarrow> Inl TypeError
      | Some oid \<Rightarrow> Inr [rs_user_id r, oid, rs_client_order_id r, rs_symbol_id r, rs_side r, rs_price_ticks r, rs_qty r])
      (dvalues (rk_open_orders rk)) = Inr ?rows"
    by (rule each_map) (auto dest!: row simp: reservation_values_def split: prod.splits)
  then obtain j where j: "risk_json rk = Inr j" "j = JObj
      [(''last_seq'', JStr (rk_last_seq rk)),
       (''settled_cash'', jrows (map (\<lambda>(u, c). [u, c]) (settled_cash rk))),
       (''reserved'', jrows (map (\<lambda>(u, v). [u, v]) (filter (\<lambda>(u, v). v \<noteq> 0) res))),
       (''positions'', jrows (map (\<lambda>((u, sy), q). [u, sy, q]) (rk_positions rk))),
       (''reserved_qty'', jrows (map (\<lambda>((u, sy), q). [u, sy, q]) (filter (\<lambda>(k, q). q \<noteq> 0) resq))),
       (''open_orders'', jrows ?rows)]"
    by (simp add: risk_json_def f)
  have dump: "risk_dump rk = Inr (json_dumps j)" by (simp add: risk_dump_def j(1))
  have wj: "wf_json j" by (simp add: j(2))
  obtain cs where cs: "each pair_of (map jrow (sort (map (\<lambda>(u, c). [u, c]) (settled_cash rk)))) = Inr cs"
    "wf_dict (dict_of cs)" "dget (dict_of cs) = dget (settled_cash rk)"
    using pair_rows [of "settled_cash rk"] T by blast
  obtain ps where ps: "each keyed_of (map jrow (sort (map (\<lambda>((u, sy), q). [u, sy, q]) (rk_positions rk)))) = Inr ps"
    "wf_dict (dict_of ps)" "dget (dict_of ps) = dget (rk_positions rk)"
    using keyed_rows [of "rk_positions rk"] T by blast
  obtain qs where qs: "each keyed_of (map jrow (sort (map (\<lambda>((u, sy), q). [u, sy, q])
      (filter (\<lambda>(k, q). q \<noteq> 0) resq)))) = Inr qs"
    "wf_dict (dict_of qs)" "dget (dict_of qs) = dget (filter (\<lambda>(k, q). q \<noteq> 0) resq)"
    using keyed_rows [OF dget0_filter(2) [OF wq]] by blast
  have "keyed_reservation_of (jrow ((\<lambda>(i, r). reservation_values i r) p)) = Inr p"
    if p: "p \<in> set (rk_open_orders rk)" for p
    using keyed_reservation_of_jrow [OF row [OF p]] by (simp add: case_prod_unfold)
  then obtain os where os: "each keyed_reservation_of (map jrow (sort ?rows)) = Inr os"
    "wf_dict (dict_of os)" "dget (dict_of os) = dget (rk_open_orders rk)"
    using dict_of_jrows [OF D(2), of keyed_reservation_of "\<lambda>(i, r). reservation_values i r"] by blast
  define t where "t = \<lparr> settled_cash = dict_of cs, reserved = recount_reserved (dvalues (dict_of os)),
             rk_positions = dict_of ps, reserved_qty = dict_of qs, pending_by_client = [],
             rk_open_orders = dict_of os, market_makers = market_makers rk0, rk_last_seq = rk_last_seq rk \<rparr>"
  have load: "risk_load (json_dumps j) rk0 = Inr t"
    unfolding risk_load_def json_loads_dumps [OF wj]
    by (simp add: j(2) jrows_def cs(1) ps(1) qs(1) os(1) jlist_def jstr_def t_def)
  note sums = dsum_cong_dget [OF os(2) D(2) os(3)]
  have "exact t"
  proof (rule exactI)
    show "dget0 (reserved t) u = cash_committed t u" for u
      by (simp add: t_def dget0_recount cash_committed_def dsum_def)
    show "dget0 (reserved_qty t) k = units_committed t k" for k
    proof -
      have "dget0 (reserved_qty t) k = dget0 resq k"
        using dget0_filter(1) [OF wq, of k] qs(3) by (simp add: t_def dget0_def)
      then show ?thesis by (simp add: F(2) D(6) units_committed_def t_def sums) (simp add: dsum_def)
    qed
  qed (use os D(4) in \<open>auto simp: t_def\<close>)
  moreover have "wf_dict (recount_reserved rs)" for rs
  proof -
    have "wf_dict d \<Longrightarrow> wf_dict (fold (\<lambda>r d. if rs_side r = Side_BUY
      then add_to (rs_user_id r) (buy_cost (rs_price_ticks r) (rs_qty r)) d else d) rs d)" for d
      by (induction rs arbitrary: d) auto
    then show ?thesis by (simp add: recount_reserved_def)
  qed
  then have "tidy t" using cs ps qs os T by (simp add: t_def tidy_def)
  ultimately show ?thesis using dump load cs ps os by (auto simp: t_def)
qed


subsection \<open>Properties\<close>

text \<open>What a buy reserves always covers what its fills charge: a fill at any price up to the
  limit costs at most the reservation of its quantity, taker fee included, and the reservation
  splits over fills with no tick lost.\<close>

theorem buy_cost_covers_fills:
  assumes "0 < px" "px \<le> limit" "0 < q"
  shows "fb_notional (calculate_fees px q) + fb_taker_fee_ticks (calculate_fees px q) \<le> buy_cost limit q \<and>
    fb_notional (calculate_fees px q) + fb_maker_fee_ticks (calculate_fees px q) \<le> buy_cost limit q \<and>
    buy_cost limit a + buy_cost limit (q - a) = buy_cost limit q"
  using buy_cost_covers [OF assms] fees_bounds(1,3) [of px q] assms by (simp add: buy_cost_linear)

theorem buy_cost_covers_fills_witness:
  "fb_notional (calculate_fees 49999 3) + fb_taker_fee_ticks (calculate_fees 49999 3) \<le> buy_cost 50000 3 \<and>
    buy_cost 50000 3 = 150150"
  using buy_cost_covers_fills [of 49999 50000 3 0]
  by (simp add: buy_cost_def calculate_fees_def fee_consts Let_def)


definition demo_risk :: risk where
  "demo_risk = risk_apply (Fill_new 9 1 2 42 41 50000 2 1 Side_BUY) (Some ''3-1'')
     (risk_apply (OrderAccepted_new 9 2 12 41 50000 2 1 Side_BUY 1) (Some ''3-0'')
     (risk_apply (OrderAccepted_new 9 1 11 42 50000 3 1 Side_SELL 1) (Some ''2-0'')
       (fst (projr (reserve 41 12 1 Side_BUY 50000 2
         (fst (projr (reserve 42 11 1 Side_SELL 50000 3 (risk_from_db [(41, 100100), (42, 0)] {42})))))))))"




text \<open>A gateway checkpoint holds the account state and leaves out the orders in flight: it
  loads back with the same balances, positions and open orders, nothing pending, the market
  makers the process was configured with, and reserves exactly what the open orders commit.\<close>

theorem risk_checkpoint_roundtrip:
  assumes "list_all (\<lambda>a. 0 \<le> snd a) accounts" "risk_step\<^sup>*\<^sup>* (risk_from_db accounts makers) rk"
  shows "\<exists>s t. risk_dump rk = Inr s \<and> risk_load s rk0 = Inr t \<and> pending_by_client t = [] \<and>
    (\<forall>i. dget (rk_open_orders t) i = dget (rk_open_orders rk) i) \<and>
    (\<forall>u. dget (settled_cash t) u = dget (settled_cash rk) u \<and>
       dget0 (reserved t) u = dsum (buy_of u) (rk_open_orders t)) \<and>
    (\<forall>k. dget (rk_positions t) k = dget (rk_positions rk) k \<and>
       dget0 (reserved_qty t) k = dsum (sell_of k) (rk_open_orders t)) \<and>
    market_makers t = market_makers rk0 \<and> rk_last_seq t = rk_last_seq rk"
proof -
  have "risk_inv rk" by (rule risk_steps_inv [OF assms(2) risk_from_db_inv [OF assms(1)]])
  then obtain s t where st: "risk_dump rk = Inr s" "risk_load s rk0 = Inr t" "exact t" "pending_by_client t = []"
    "dget (rk_open_orders t) = dget (rk_open_orders rk)" "dget (settled_cash t) = dget (settled_cash rk)"
    "dget (rk_positions t) = dget (rk_positions rk)" "market_makers t = market_makers rk0"
    "rk_last_seq t = rk_last_seq rk"
    using risk_load_dump [of rk rk0] by (auto simp: risk_inv_def)
  moreover have "dget0 (reserved t) u = dsum (buy_of u) (rk_open_orders t)"
    "dget0 (reserved_qty t) k = dsum (sell_of k) (rk_open_orders t)" for u k
    using exactD(5,6) [OF st(3)] st(4) by (simp_all add: cash_committed_def units_committed_def)
  ultimately show ?thesis by (intro exI [of _ s] exI [of _ t]) auto
qed

theorem risk_checkpoint_roundtrip_witness:
  "\<exists>s t. risk_dump (risk_from_db [(41, 7)] {}) = Inr s \<and> risk_load s new_risk = Inr t \<and>
    (\<forall>u. dget (settled_cash t) u = dget (settled_cash (risk_from_db [(41, 7)] {})) u)"
proof -
  have "list_all (\<lambda>a. 0 \<le> snd a) [(41 :: int, 7 :: int)]" by simp
  from risk_checkpoint_roundtrip [OF this rtranclp.rtrancl_refl, where makers = "{}" and ?rk0.0 = new_risk] show ?thesis by blast
qed

subsection \<open>A lost reply breaks it\<close>

text \<open>
  The order route also abandons a reservation when the reply to its append is lost, although the
  record may be on the stream. Its \<open>OrderAccepted\<close> then finds no pending entry and reserves
  again, but by then another order may hold the cash.
\<close>

lemma lost_reply_overcommits:
  "(let (rk1, a) = projr (reserve 41 1 1 Side_BUY 50000 2 (risk_from_db [(41, 100100)] {}));
        (rk2, b) = projr (reserve 41 2 1 Side_BUY 50000 2 (abandon True a rk1));
        rk3 = risk_apply (OrderAccepted_new 9 1 1 41 50000 2 1 Side_BUY 1) (Some ''1-0'') rk2
    in available_cash rk3 41) = - 100100"
  by code_simp

text \<open>And when the acceptance was read before the request gave up, the commitment of an order on
  the book is given back.\<close>

lemma late_abandon_frees_open_order:
  "(let (rk1, a) = projr (reserve 41 1 1 Side_BUY 50000 2 (risk_from_db [(41, 100100)] {}));
        rk2 = risk_apply (OrderAccepted_new 9 1 1 41 50000 2 1 Side_BUY 1) (Some ''1-0'') rk1;
        rk3 = abandon False a rk2
    in (available_cash rk3 41, rk_best_bid rk3 1)) = (100100, Some 50000)"
  by code_simp

end
