(* ===== verification/Market.thy ===== *)
theory Market
  imports Ledger_Spec
begin

section \<open>Market data: services/fanout/book.py, bars.py and state.py\<close>

text \<open>
  \<open>MarketState\<close> rebuilds every symbol's book from the outbound stream, keeps the prints since
  the last drain and cuts bars. A \<open>Book\<close> is an \<open>mbook\<close>, a \<open>BarBuilder\<close> a \<open>builder\<close>, a \<open>BarSet\<close>
  a \<open>bar_set\<close>, a \<open>Tape\<close> a \<open>tape\<close>. The only operation that can raise is building a bar set
  for a width below one second.
\<close>

subsection \<open>Books\<close>

record resting_order =
  ro_order_id :: int
  ro_side :: int
  ro_price_ticks :: int
  ro_remaining_qty :: int

record mbook =
  bk_symbol_id :: int
  bk_orders :: "(int, resting_order) dict"

definition bk_accept :: "int \<Rightarrow> int \<Rightarrow> int \<Rightarrow> int \<Rightarrow> mbook \<Rightarrow> mbook" where
  "bk_accept oid sd px q b =
     b\<lparr>bk_orders := dset oid \<lparr> ro_order_id = oid, ro_side = sd, ro_price_ticks = px, ro_remaining_qty = q \<rparr> (bk_orders b)\<rparr>"

definition bk_fill :: "int \<Rightarrow> int \<Rightarrow> mbook \<Rightarrow> mbook" where
  "bk_fill oid q b =
     (case dget (bk_orders b) oid of
        None \<Rightarrow> b
      | Some ord \<Rightarrow>
          let ord' = ord\<lparr>ro_remaining_qty := ro_remaining_qty ord - q\<rparr>
          in if ro_remaining_qty ord' \<le> 0 then b\<lparr>bk_orders := dpop oid (bk_orders b)\<rparr>
             else b\<lparr>bk_orders := dset oid ord' (bk_orders b)\<rparr>)"

definition bk_cancel :: "int \<Rightarrow> mbook \<Rightarrow> mbook" where
  "bk_cancel oid b = b\<lparr>bk_orders := dpop oid (bk_orders b)\<rparr>"

text \<open>A slice \<open>xs[:n]\<close>.\<close>

definition slice_to :: "int \<Rightarrow> 'a list \<Rightarrow> 'a list" where
  "slice_to n xs = (if 0 \<le> n then take (nat n) xs else take (length xs - nat (- n)) xs)"

definition level_totals :: "int \<Rightarrow> resting_order list \<Rightarrow> (int, int) dict" where
  "level_totals sd ords =
     fold (\<lambda>ord totals.
        if ro_side ord = sd \<and> ro_remaining_qty ord > 0
        then add_to (ro_price_ticks ord) (ro_remaining_qty ord) totals else totals) ords []"

definition bk_levels :: "int \<Rightarrow> int \<Rightarrow> mbook \<Rightarrow> int list list" where
  "bk_levels sd depth b =
     (let totals = level_totals sd (dvalues (bk_orders b));
          ordered = (if sd = Side_BUY then rev (sort totals) else sort totals)
      in map (\<lambda>(price, q). [price, q]) (slice_to depth ordered))"

definition bk_best :: "int \<Rightarrow> mbook \<Rightarrow> int list option" where
  "bk_best sd b = (case bk_levels sd 1 b of [] \<Rightarrow> None | lv # _ \<Rightarrow> Some lv)"

definition is_two_sided :: "mbook \<Rightarrow> bool" where
  "is_two_sided b \<longleftrightarrow> bk_orders b \<noteq> [] \<and> bk_best Side_BUY b \<noteq> None \<and> bk_best Side_SELL b \<noteq> None"

definition bk_resting :: "mbook \<Rightarrow> (int \<times> int \<times> int \<times> int) list" where
  "bk_resting b =
     sort (map (\<lambda>ord. (ro_order_id ord, ro_side ord, ro_price_ticks ord, ro_remaining_qty ord)) (dvalues (bk_orders b)))"

subsection \<open>The tape and bars\<close>

definition NS_PER_SECOND :: int where
  "NS_PER_SECOND = 1000000000"

record trade =
  tr_symbol_id :: int
  tr_price_ticks :: int
  tr_qty :: int
  tr_aggressor_side :: int
  tr_timestamp_ns :: int
  tr_seq :: string

record bar =
  bar_symbol_id :: int
  bar_bucket_seconds :: int
  bar_open_ns :: int
  open_ticks :: int
  high_ticks :: int
  low_ticks :: int
  close_ticks :: int
  volume :: int

definition bar_extend :: "int \<Rightarrow> int \<Rightarrow> bar \<Rightarrow> bar" where
  "bar_extend px q b =
     b\<lparr>high_ticks := max (high_ticks b) px, low_ticks := min (low_ticks b) px, close_ticks := px,
       volume := volume b + q\<rparr>"

record tape =
  tape_pending :: "(int, trade list) dict"
  tape_total :: int

definition tape_waiting :: "int \<Rightarrow> tape \<Rightarrow> trade list" where
  "tape_waiting sy t = (case dget (tape_pending t) sy of None \<Rightarrow> [] | Some ts \<Rightarrow> ts)"

definition tape_record :: "trade \<Rightarrow> tape \<Rightarrow> tape" where
  "tape_record tr t =
     t\<lparr>tape_pending := dset (tr_symbol_id tr) (tape_waiting (tr_symbol_id tr) t @ [tr]) (tape_pending t),
       tape_total := tape_total t + 1\<rparr>"

definition tape_drain :: "int \<Rightarrow> tape \<Rightarrow> tape \<times> trade list" where
  "tape_drain sy t = (t\<lparr>tape_pending := dpop sy (tape_pending t)\<rparr>, tape_waiting sy t)"

record builder =
  bb_symbol_id :: int
  bb_bucket_seconds :: int
  bb_width_ns :: int
  bb_current :: "bar option"
  bb_closed :: "bar list"

definition new_builder :: "int \<Rightarrow> int \<Rightarrow> exn + builder" where
  "new_builder sy secs =
     (if secs < 1 then Inl ValueError
      else Inr \<lparr> bb_symbol_id = sy, bb_bucket_seconds = secs, bb_width_ns = secs * NS_PER_SECOND,
                 bb_current = None, bb_closed = [] \<rparr>)"

definition bucket_start :: "int \<Rightarrow> builder \<Rightarrow> int" where
  "bucket_start ts bb = ts div bb_width_ns bb * bb_width_ns bb"

definition opening_bar :: "int \<Rightarrow> int \<Rightarrow> int \<Rightarrow> builder \<Rightarrow> bar" where
  "opening_bar px q start bb =
     \<lparr> bar_symbol_id = bb_symbol_id bb, bar_bucket_seconds = bb_bucket_seconds bb, bar_open_ns = start,
       open_ticks = px, high_ticks = px, low_ticks = px, close_ticks = px, volume = q \<rparr>"

definition bb_add :: "int \<Rightarrow> int \<Rightarrow> int \<Rightarrow> builder \<Rightarrow> builder \<times> bar option" where
  "bb_add px q ts bb =
     (let start = bucket_start ts bb in
      case bb_current bb of
        None \<Rightarrow> (bb\<lparr>bb_current := Some (opening_bar px q start bb)\<rparr>, None)
      | Some cur \<Rightarrow>
          if start = bar_open_ns cur then (bb\<lparr>bb_current := Some (bar_extend px q cur)\<rparr>, None)
          else (bb\<lparr>bb_closed := bb_closed bb @ [cur], bb_current := Some (opening_bar px q start bb)\<rparr>, Some cur))"

definition bb_flush :: "builder \<Rightarrow> builder \<times> bar option" where
  "bb_flush bb =
     (case bb_current bb of
        None \<Rightarrow> (bb, None)
      | Some cur \<Rightarrow> (bb\<lparr>bb_current := None, bb_closed := bb_closed bb @ [cur]\<rparr>, Some cur))"

record bar_set =
  bs_symbol_id :: int
  bs_widths :: "int list"
  bs_builders :: "(int, builder) dict"

definition new_bar_set :: "int \<Rightarrow> int list \<Rightarrow> exn + bar_set" where
  "new_bar_set sy widths =
     sbind (each (\<lambda>w. sbind (new_builder sy w) (\<lambda>bb. Inr (w, bb))) widths)
       (\<lambda>bbs. Inr \<lparr> bs_symbol_id = sy, bs_widths = widths, bs_builders = dict_of bbs \<rparr>)"

definition bs_add :: "int \<Rightarrow> int \<Rightarrow> int \<Rightarrow> bar_set \<Rightarrow> bar_set \<times> bar list" where
  "bs_add px q ts bs =
     (bs\<lparr>bs_builders := map (\<lambda>(w, bb). (w, fst (bb_add px q ts bb))) (bs_builders bs)\<rparr>,
      List.map_filter (\<lambda>bb. snd (bb_add px q ts bb)) (dvalues (bs_builders bs)))"

subsection \<open>The market state\<close>

record market =
  mk_bar_widths :: "int list"
  mk_books :: "(int, mbook) dict"
  mk_bars :: "(int, bar_set) dict"
  mk_tape :: tape
  mk_last_seq :: string
  records_applied :: int
  mk_dirty :: "int set"
  mk_closed_bars :: "bar list"

definition new_market :: "int list \<Rightarrow> market" where
  "new_market widths =
     \<lparr> mk_bar_widths = widths, mk_books = [], mk_bars = [], mk_tape = \<lparr> tape_pending = [], tape_total = 0 \<rparr>,
       mk_last_seq = ''0-0'', records_applied = 0, mk_dirty = {}, mk_closed_bars = [] \<rparr>"

text \<open>\<open>book\<close> creates on first sight, so an operation on a book stores the book it ends with.\<close>

definition mk_book :: "int \<Rightarrow> market \<Rightarrow> mbook" where
  "mk_book sy m =
     (case dget (mk_books m) sy of None \<Rightarrow> \<lparr> bk_symbol_id = sy, bk_orders = [] \<rparr> | Some b \<Rightarrow> b)"

definition with_book :: "int \<Rightarrow> (mbook \<Rightarrow> mbook) \<Rightarrow> market \<Rightarrow> market" where
  "with_book sy f m = m\<lparr>mk_dirty := insert sy (mk_dirty m), mk_books := dset sy (f (mk_book sy m)) (mk_books m)\<rparr>"

definition mk_bar_set :: "int \<Rightarrow> market \<Rightarrow> exn + bar_set" where
  "mk_bar_set sy m =
     (case dget (mk_bars m) sy of None \<Rightarrow> new_bar_set sy (mk_bar_widths m) | Some bs \<Rightarrow> Inr bs)"

definition market_symbols :: "market \<Rightarrow> int list" where
  "market_symbols m = sort (dkeys (mk_books m))"

definition trade_of :: "wire \<Rightarrow> string option \<Rightarrow> market \<Rightarrow> trade" where
  "trade_of rec sid m =
     \<lparr> tr_symbol_id = symbol_id rec, tr_price_ticks = price_ticks rec, tr_qty = qty rec,
       tr_aggressor_side = aggressor_side rec, tr_timestamp_ns = timestamp_ns (hdr rec),
       tr_seq = (case sid of None \<Rightarrow> mk_last_seq m | Some s \<Rightarrow> if s = [] then mk_last_seq m else s) \<rparr>"

definition market_fill :: "wire \<Rightarrow> string option \<Rightarrow> market \<Rightarrow> exn + market" where
  "market_fill rec sid m0 =
     (let sy = symbol_id rec;
          m1 = with_book sy (bk_fill (taker_order_id rec) (qty rec) \<circ> bk_fill (maker_order_id rec) (qty rec)) m0;
          m2 = m1\<lparr>mk_tape := tape_record (trade_of rec sid m1) (mk_tape m1)\<rparr>
      in sbind (mk_bar_set sy m2) (\<lambda>bs.
           let (bs', closed) = bs_add (price_ticks rec) (qty rec) (timestamp_ns (hdr rec)) bs
           in Inr (m2\<lparr>mk_bars := dset sy bs' (mk_bars m2), mk_closed_bars := mk_closed_bars m2 @ closed\<rparr>)))"

definition market_apply :: "wire \<Rightarrow> string option \<Rightarrow> market \<Rightarrow> exn + market" where
  "market_apply rec sid m0 =
     (let m = (case sid of None \<Rightarrow> m0 | Some s \<Rightarrow> m0\<lparr>mk_last_seq := s\<rparr>);
          m = m\<lparr>records_applied := records_applied m + 1\<rparr>
      in if is_OrderAccepted rec
         then Inr (with_book (symbol_id rec) (bk_accept (order_id rec) (side rec) (price_ticks rec) (qty rec)) m)
         else if is_Fill rec then market_fill rec sid m
         else if is_OrderCancelled rec then Inr (with_book (symbol_id rec) (bk_cancel (order_id rec)) m)
         else Inr m)"

text \<open>The inner loop of \<open>FanOut.recover\<close> and \<open>step\<close>: a batch of records, one by one.\<close>

fun market_run :: "(string \<times> wire) list \<Rightarrow> market \<Rightarrow> exn + market" where
  "market_run [] m = Inr m"
| "market_run ((sid, rec) # es) m = sbind (market_apply rec (Some sid) m) (market_run es)"

definition drain_dirty :: "market \<Rightarrow> market \<times> int set" where
  "drain_dirty m = (m\<lparr>mk_dirty := {}\<rparr>, mk_dirty m)"

definition drain_closed_bars :: "market \<Rightarrow> market \<times> bar list" where
  "drain_closed_bars m = (m\<lparr>mk_closed_bars := []\<rparr>, mk_closed_bars m)"

definition flush_bars :: "market \<Rightarrow> market" where
  "flush_bars m =
     m\<lparr>mk_bars := map (\<lambda>(sy, bs). (sy, bs\<lparr>bs_builders := map (\<lambda>(w, bb). (w, fst (bb_flush bb))) (bs_builders bs)\<rparr>)) (mk_bars m)\<rparr>"

subsection \<open>Checkpoint\<close>

definition bar_values :: "bar \<Rightarrow> int list" where
  "bar_values b = [bar_open_ns b, open_ticks b, high_ticks b, low_ticks b, close_ticks b, volume b]"

definition open_bar_rows :: "market \<Rightarrow> (int \<times> int \<times> int list) list" where
  "open_bar_rows m =
     concat (map (\<lambda>(sy, bs). List.map_filter
       (\<lambda>(w, bb). map_option (\<lambda>b. (sy, w, bar_values b)) (bb_current bb)) (bs_builders bs)) (mk_bars m))"

definition market_json :: "market \<Rightarrow> json" where
  "market_json m = JObj
     [(''last_seq'', JStr (mk_last_seq m)),
      (''records_applied'', JInt (records_applied m)),
      (''trades'', JInt (tape_total (mk_tape m))),
      (''books'', JList (map (\<lambda>(sy, rows). JList [JInt sy, JList (map (\<lambda>(i, sd, px, q). jrow [i, sd, px, q]) rows)])
         (sort (map (\<lambda>(sy, b). (sy, bk_resting b)) (mk_books m))))),
      (''bars'', JList (map (\<lambda>(sy, w, vs). JList [JInt sy, JInt w, jrow vs]) (sort (open_bar_rows m))))]"

definition market_dump :: "market \<Rightarrow> string" where
  "market_dump m = json_dumps (market_json m)"

definition resting_of :: "json \<Rightarrow> exn + resting_order" where
  "resting_of j = sbind (jlist j) (\<lambda>fields. sbind (each jint fields) (\<lambda>vs. case vs of
       [i, sd, px, q] \<Rightarrow> Inr \<lparr> ro_order_id = i, ro_side = sd, ro_price_ticks = px, ro_remaining_qty = q \<rparr>
     | _ \<Rightarrow> Inl ValueError))"

definition book_row_of :: "json \<Rightarrow> exn + (int \<times> resting_order list)" where
  "book_row_of j = sbind (jlist j) (\<lambda>vs. case vs of
       [a, b] \<Rightarrow> sbind (jint a) (\<lambda>sy. sbind (jlist b) (\<lambda>rows. sbind (each resting_of rows) (\<lambda>os. Inr (sy, os))))
     | _ \<Rightarrow> Inl ValueError)"

definition bar_row_of :: "json \<Rightarrow> exn + (int \<times> int \<times> int list)" where
  "bar_row_of j = sbind (jlist j) (\<lambda>vs. case vs of
       [a, b, c] \<Rightarrow> sbind (jint a) (\<lambda>sy. sbind (jint b) (\<lambda>w. sbind (jlist c) (\<lambda>fields.
          sbind (each jint fields) (\<lambda>xs. Inr (sy, w, xs)))))
     | _ \<Rightarrow> Inl ValueError)"

definition load_book :: "int \<times> resting_order list \<Rightarrow> (int, mbook) dict \<Rightarrow> (int, mbook) dict" where
  "load_book = (\<lambda>(sy, os) books.
     let b = (case dget books sy of None \<Rightarrow> \<lparr> bk_symbol_id = sy, bk_orders = [] \<rparr> | Some b \<Rightarrow> b)
     in dset sy (b\<lparr>bk_orders := fold (\<lambda>ord. dset (ro_order_id ord) ord) os (bk_orders b)\<rparr>) books)"

definition load_bar :: "int \<times> int \<times> int list \<Rightarrow> market \<Rightarrow> exn + market" where
  "load_bar = (\<lambda>(sy, w, fields) m.
     sbind (mk_bar_set sy m) (\<lambda>bs.
       case dget (bs_builders bs) w of
         None \<Rightarrow> Inr (m\<lparr>mk_bars := dset sy bs (mk_bars m)\<rparr>)
       | Some bb \<Rightarrow>
           (case fields of
              [open_ns, open_t, high_t, low_t, close_t, vol] \<Rightarrow>
                let b = \<lparr> bar_symbol_id = sy, bar_bucket_seconds = w, bar_open_ns = open_ns, open_ticks = open_t,
                          high_ticks = high_t, low_ticks = low_t, close_ticks = close_t, volume = vol \<rparr>;
                    bs' = bs\<lparr>bs_builders := dset w (bb\<lparr>bb_current := Some b\<rparr>) (bs_builders bs)\<rparr>
                in Inr (m\<lparr>mk_bars := dset sy bs' (mk_bars m)\<rparr>)
            | _ \<Rightarrow> Inl ValueError)))"

fun load_bars :: "(int \<times> int \<times> int list) list \<Rightarrow> market \<Rightarrow> exn + market" where
  "load_bars [] m = Inr m"
| "load_bars (r # rs) m = sbind (load_bar r m) (load_bars rs)"

definition market_load :: "string \<Rightarrow> market \<Rightarrow> exn + market" where
  "market_load s m0 =
     sbind (json_loads s) (\<lambda>raw.
     sbind (sbind (jget ''last_seq'' raw) jstr) (\<lambda>sq.
     sbind (sbind (jget ''records_applied'' raw) jint) (\<lambda>n.
     sbind (sbind (jget ''trades'' raw) jint) (\<lambda>total.
     sbind (sbind (jget ''books'' raw) jlist) (\<lambda>bks.
     sbind (each book_row_of bks) (\<lambda>rows.
     sbind (sbind (jget ''bars'' raw) jlist) (\<lambda>brs.
     sbind (each bar_row_of brs) (\<lambda>bars.
     sbind (load_bars bars (m0\<lparr>mk_last_seq := sq, records_applied := n,
              mk_tape := (mk_tape m0)\<lparr>tape_total := total\<rparr>, mk_books := fold load_book rows [], mk_bars := []\<rparr>)) (\<lambda>m.
       Inr (m\<lparr>mk_dirty := set (dkeys (mk_books m))\<rparr>))))))))))"


subsection \<open>Recovery: FanOut.recover in runner.py\<close>

text \<open>
  The loop over the batches; \<open>None\<close> is a loop that never ends. \<open>saved\<close> is what \<open>resume_positions\<close>
  returned: the checkpoint's state and its position on the outbound stream.
\<close>

partial_function (option) fanout_replay ::
  "(string \<Rightarrow> (string \<times> wire) list) \<Rightarrow> string \<Rightarrow> int \<Rightarrow> market \<Rightarrow> (exn + market \<times> int) option" where
  "fanout_replay read last_id replayed m =
     (let batch = read last_id
      in if batch = [] then Some (Inr (m, replayed))
         else (case market_run batch m of
                 Inl e \<Rightarrow> Some (Inl e)
               | Inr m' \<Rightarrow> fanout_replay read (fst (last batch)) (replayed + int (length batch)) m'))"

definition fanout_recover ::
  "(string \<times> string) option \<Rightarrow> (string \<Rightarrow> (string \<times> wire) list) \<Rightarrow> market \<Rightarrow> (exn + market \<times> int) option" where
  "fanout_recover saved read m =
     (case (case saved of
              None \<Rightarrow> Inr m
            | Some (state, pos) \<Rightarrow> sbind (market_load state m) (\<lambda>m'. Inr (m'\<lparr>mk_last_seq := pos\<rparr>))) of
        Inl e \<Rightarrow> Some (Inl e)
      | Inr m1 \<Rightarrow> fanout_replay read (mk_last_seq m1) 0 m1)"

end
