(* ===== verification/Market_Spec.thy ===== *)
theory Market_Spec
  imports Market
begin

section \<open>What the market state promises\<close>

text \<open>
  Every book follows the engine's (through the \<open>order_projection\<close> contract, one symbol at a
  time), its levels are the exact sums of its orders, bars are the buckets of the trades that
  made them, and the checkpoint loses nothing (through the \<open>checkpointed\<close> contract).
\<close>

subsection \<open>Well-formed market states\<close>

definition builder_ok :: "int \<Rightarrow> int \<Rightarrow> builder \<Rightarrow> bool" where
  "builder_ok sy w bb \<longleftrightarrow> bb_symbol_id bb = sy \<and> bb_bucket_seconds bb = w \<and> bb_width_ns bb = w * NS_PER_SECOND \<and>
     (\<forall>b. bb_current bb = Some b \<longrightarrow> bar_symbol_id b = sy \<and> bar_bucket_seconds b = w)"

definition bar_set_ok :: "int \<Rightarrow> int list \<Rightarrow> bar_set \<Rightarrow> bool" where
  "bar_set_ok sy widths bs \<longleftrightarrow> wf_dict (bs_builders bs) \<and> set (dkeys (bs_builders bs)) = set widths \<and>
     (\<forall>w bb. dget (bs_builders bs) w = Some bb \<longrightarrow> builder_ok sy w bb)"

definition book_ok :: "mbook \<Rightarrow> bool" where
  "book_ok b \<longleftrightarrow> wf_dict (bk_orders b) \<and> (\<forall>i ord. dget (bk_orders b) i = Some ord \<longrightarrow> ro_order_id ord = i)"

definition market_ok :: "market \<Rightarrow> bool" where
  "market_ok m \<longleftrightarrow> list_all (\<lambda>w. 1 \<le> w) (mk_bar_widths m) \<and> wf_dict (mk_books m) \<and> wf_dict (mk_bars m) \<and>
     (\<forall>sy b. dget (mk_books m) sy = Some b \<longrightarrow> book_ok b) \<and>
     (\<forall>sy bs. dget (mk_bars m) sy = Some bs \<longrightarrow> bar_set_ok sy (mk_bar_widths m) bs)"

lemma wf_dict_of: "wf_dict (dict_of kvs)"
  unfolding dict_of_def by (induction kvs rule: rev_induct) auto

lemma dkeys_dict_of: "set (dkeys (dict_of kvs)) = fst ` set kvs"
proof -
  have "set (dkeys (fold (\<lambda>(k, v). dset k v) kvs d)) = set (dkeys d) \<union> fst ` set kvs" for d :: "('a, 'b) dict"
  proof (induction kvs arbitrary: d)
    case (Cons p kvs)
    have "set (dkeys (fold (\<lambda>(k, v). dset k v) (p # kvs) d)) = set (dkeys (dset (fst p) (snd p) d)) \<union> fst ` set kvs"
      using Cons by (simp add: case_prod_unfold del: set_map)
    then show ?case by (simp only: set_dkeys_dset list.set image_insert) blast
  qed simp
  from this [of "[]"] show ?thesis by (simp add: dict_of_def)
qed

lemma dict_of_mem: "dget (dict_of kvs) k = Some v \<Longrightarrow> (k, v) \<in> set kvs"
  unfolding dict_of_def by (induction kvs rule: rev_induct) (auto split: if_splits)

definition fresh_builder :: "int \<Rightarrow> int \<Rightarrow> builder" where
  "fresh_builder sy w = \<lparr> bb_symbol_id = sy, bb_bucket_seconds = w, bb_width_ns = w * NS_PER_SECOND,
                          bb_current = None, bb_closed = [] \<rparr>"

definition fresh_bar_set :: "int \<Rightarrow> int list \<Rightarrow> bar_set" where
  "fresh_bar_set sy widths =
     \<lparr> bs_symbol_id = sy, bs_widths = widths, bs_builders = dict_of (map (\<lambda>w. (w, fresh_builder sy w)) widths) \<rparr>"

lemma new_bar_set_ok:
  assumes "list_all (\<lambda>w. 1 \<le> w) widths"
  shows "new_bar_set sy widths = Inr (fresh_bar_set sy widths)"
proof -
  have "each (\<lambda>w. sbind (new_builder sy w) (\<lambda>bb. Inr (w, bb))) (map (\<lambda>w. w) widths) =
      Inr (map (\<lambda>w. (w, fresh_builder sy w)) widths)"
    by (rule each_map) (use assms in \<open>auto simp: list_all_iff new_builder_def fresh_builder_def\<close>)
  then show ?thesis by (simp add: new_bar_set_def fresh_bar_set_def)
qed

lemma dkeys_fresh: "set (dkeys (bs_builders (fresh_bar_set sy widths))) = set widths"
proof -
  have "set (dkeys (bs_builders (fresh_bar_set sy widths))) = fst ` set (map (\<lambda>w. (w, fresh_builder sy w)) widths)"
    unfolding fresh_bar_set_def bar_set.select_convs by (rule dkeys_dict_of)
  also have "\<dots> = set widths" by (simp add: image_image)
  finally show ?thesis .
qed

lemma dget_fresh: "dget (bs_builders (fresh_bar_set sy widths)) w = (if w \<in> set widths then Some (fresh_builder sy w) else None)"
proof (cases "w \<in> set widths")
  case True
  then have "w \<in> set (dkeys (bs_builders (fresh_bar_set sy widths)))"
    unfolding dkeys_fresh .
  then obtain v where v: "dget (bs_builders (fresh_bar_set sy widths)) w = Some v" using dget_key_iff by metis
  then have "v = fresh_builder sy w" by (auto simp: fresh_bar_set_def dest: dict_of_mem)
  with v True show ?thesis by simp
next
  case False
  then have "w \<notin> set (dkeys (bs_builders (fresh_bar_set sy widths)))"
    unfolding dkeys_fresh .
  with False show ?thesis by (simp add: dget_None_iff del: set_map)
qed

lemma fresh_bar_set_ok: "bar_set_ok sy widths (fresh_bar_set sy widths)"
proof -
  have "builder_ok sy w (fresh_builder sy w)" for w by (simp add: builder_ok_def fresh_builder_def)
  moreover have "wf_dict (bs_builders (fresh_bar_set sy widths))" by (simp add: fresh_bar_set_def wf_dict_of)
  ultimately show ?thesis unfolding bar_set_ok_def dkeys_fresh dget_fresh by (auto split: if_splits)
qed

lemma mk_bar_set_ok:
  assumes "market_ok m"
  shows "\<exists>bs. mk_bar_set sy m = Inr bs \<and> bar_set_ok sy (mk_bar_widths m) bs"
  using assms fresh_bar_set_ok new_bar_set_ok
  by (cases "dget (mk_bars m) sy") (auto simp: mk_bar_set_def market_ok_def)

lemma dget_map_values: "dget (map (\<lambda>(k, v). (k, f v)) d) k = map_option f (dget d k)"
  by (induction d) auto

lemma dkeys_map_values: "dkeys (map (\<lambda>(k, v). (k, f v)) d) = dkeys d"
  by (induction d) auto

lemma wf_map_values [simp]: "wf_dict (map (\<lambda>(k, v). (k, f v)) d) = wf_dict d"
  by (simp only: wf_dict_def dkeys_map_values)

lemma builder_ok_add: "builder_ok sy w bb \<Longrightarrow> builder_ok sy w (fst (bb_add px q ts bb))"
  by (cases "bb_current bb") (auto simp: builder_ok_def bb_add_def Let_def opening_bar_def bar_extend_def)

lemma bs_builders_add:
  "bs_builders (fst (bs_add px q ts bs)) = map (\<lambda>(w, bb). (w, fst (bb_add px q ts bb))) (bs_builders bs)"
  by (simp add: bs_add_def)

lemma bar_set_ok_add: "bar_set_ok sy widths bs \<Longrightarrow> bar_set_ok sy widths (fst (bs_add px q ts bs))"
  unfolding bar_set_ok_def bs_builders_add dkeys_map_values wf_map_values dget_map_values
  by (auto intro: builder_ok_add simp del: set_map)

lemma book_ok_ops:
  "book_ok b \<Longrightarrow> book_ok (bk_accept i sd px q b)" "book_ok b \<Longrightarrow> book_ok (bk_fill i q b)"
  "book_ok b \<Longrightarrow> book_ok (bk_cancel i b)"
  by (auto simp: book_ok_def bk_accept_def bk_fill_def bk_cancel_def Let_def split: option.splits if_splits)

lemma mk_book_ok: "market_ok m \<Longrightarrow> book_ok (mk_book sy m)"
  by (auto simp: market_ok_def mk_book_def book_ok_def split: option.split)

lemma market_ok_with_book:
  "market_ok m \<Longrightarrow> (\<And>b. book_ok b \<Longrightarrow> book_ok (f b)) \<Longrightarrow> market_ok (with_book sy f m)"
  using mk_book_ok [of m sy] by (auto simp: market_ok_def with_book_def)

lemma with_book_sel [simp]:
  "mk_bar_widths (with_book sy f m) = mk_bar_widths m" "mk_bars (with_book sy f m) = mk_bars m"
  "mk_tape (with_book sy f m) = mk_tape m" "mk_last_seq (with_book sy f m) = mk_last_seq m"
  "records_applied (with_book sy f m) = records_applied m" "mk_closed_bars (with_book sy f m) = mk_closed_bars m"
  "mk_dirty (with_book sy f m) = insert sy (mk_dirty m)"
  "mk_book sy' (with_book sy f m) = (if sy' = sy then f (mk_book sy m) else mk_book sy' m)"
  by (simp_all add: with_book_def mk_book_def)

subsection \<open>One record\<close>

definition fill_book :: "wire \<Rightarrow> mbook \<Rightarrow> mbook" where
  "fill_book rec = bk_fill (taker_order_id rec) (qty rec) \<circ> bk_fill (maker_order_id rec) (qty rec)"

text \<open>What a record does to its symbol's book, if it does anything.\<close>

definition book_moved :: "wire \<Rightarrow> mbook \<Rightarrow> mbook" where
  "book_moved rec =
     (if is_OrderAccepted rec then bk_accept (order_id rec) (side rec) (price_ticks rec) (qty rec)
      else if is_Fill rec then fill_book rec
      else if is_OrderCancelled rec then bk_cancel (order_id rec) else id)"

definition moves_book :: "wire \<Rightarrow> bool" where
  "moves_book rec \<longleftrightarrow> is_OrderAccepted rec \<or> is_Fill rec \<or> is_OrderCancelled rec"

definition the_bar_set :: "int \<Rightarrow> market \<Rightarrow> bar_set" where
  "the_bar_set sy m =
     (case dget (mk_bars m) sy of None \<Rightarrow> fresh_bar_set sy (mk_bar_widths m) | Some bs \<Rightarrow> bs)"

lemma mk_bar_set_is: "market_ok m \<Longrightarrow> mk_bar_set sy m = Inr (the_bar_set sy m)"
  using new_bar_set_ok by (auto simp: mk_bar_set_def market_ok_def the_bar_set_def split: option.split)

lemma the_bar_set_ok: "market_ok m \<Longrightarrow> bar_set_ok sy (mk_bar_widths m) (the_bar_set sy m)"
  using mk_bar_set_is [of m sy] mk_bar_set_ok [of m sy] by auto

lemma book_moved_ok: "book_ok b \<Longrightarrow> book_ok (book_moved rec b)"
  by (simp add: book_moved_def fill_book_def book_ok_ops)

text \<open>The effect of a record on a well-formed state, part by part.\<close>

lemma market_apply_sel:
  assumes ok: "market_ok m"
  obtains m' where "market_apply rec sid m = Inr m'" "market_ok m'" "mk_bar_widths m' = mk_bar_widths m"
    "mk_last_seq m' = (case sid of None \<Rightarrow> mk_last_seq m | Some s \<Rightarrow> s)" "records_applied m' = records_applied m + 1"
    "mk_books m' = (if moves_book rec then dset (symbol_id rec) (book_moved rec (mk_book (symbol_id rec) m)) (mk_books m)
                    else mk_books m)"
    "mk_bars m' = (if is_Fill rec
       then dset (symbol_id rec) (fst (bs_add (price_ticks rec) (qty rec) (timestamp_ns (hdr rec)) (the_bar_set (symbol_id rec) m)))
              (mk_bars m)
       else mk_bars m)"
    "tape_total (mk_tape m') = tape_total (mk_tape m) + (if is_Fill rec then 1 else 0)"
    "mk_dirty m' = (if moves_book rec then insert (symbol_id rec) (mk_dirty m) else mk_dirty m)"
proof -
  define m1 where "m1 = (case sid of None \<Rightarrow> m | Some s \<Rightarrow> m\<lparr>mk_last_seq := s\<rparr>)"
  define m2 where "m2 = m1\<lparr>records_applied := records_applied m1 + 1\<rparr>"
  have s: "mk_bar_widths m2 = mk_bar_widths m" "mk_books m2 = mk_books m" "mk_bars m2 = mk_bars m"
    "mk_tape m2 = mk_tape m" "mk_dirty m2 = mk_dirty m" "mk_last_seq m2 = (case sid of None \<Rightarrow> mk_last_seq m | Some s \<Rightarrow> s)"
    "records_applied m2 = records_applied m + 1"
    by (simp_all add: m2_def m1_def split: option.split)
  have ok2: "market_ok m2" using ok by (simp add: market_ok_def s)
  have book2: "mk_book sy m2 = mk_book sy m" for sy by (simp add: mk_book_def s)
  show ?thesis
  proof (cases "is_Fill rec")
    case True
    then have nb: "\<not> is_OrderAccepted rec" "\<not> is_OrderCancelled rec" by (cases rec; simp)+
    let ?sy = "symbol_id rec"
    define m3 where "m3 = with_book ?sy (fill_book rec) m2"
    define m4 where "m4 = m3\<lparr>mk_tape := tape_record (trade_of rec sid m3) (mk_tape m3)\<rparr>"
    have ok3: "market_ok m3" unfolding m3_def by (rule market_ok_with_book [OF ok2]) (simp add: fill_book_def book_ok_ops)
    have ok4: "market_ok m4" using ok3 by (simp add: m4_def market_ok_def)
    have bs: "mk_bar_set ?sy m4 = Inr (the_bar_set ?sy m)"
      using mk_bar_set_is [OF ok4, of ?sy] by (simp add: the_bar_set_def m4_def m3_def s cong: option.case_cong)
    define add where "add = bs_add (price_ticks rec) (qty rec) (timestamp_ns (hdr rec)) (the_bar_set ?sy m)"
    define m5 where "m5 = m4\<lparr>mk_bars := dset ?sy (fst add) (mk_bars m4), mk_closed_bars := mk_closed_bars m4 @ snd add\<rparr>"
    have app: "market_apply rec sid m = Inr m5"
      using True nb bs unfolding market_apply_def Let_def m1_def [symmetric] m2_def [symmetric]
      by (simp add: market_fill_def Let_def m5_def m4_def m3_def fill_book_def add_def case_prod_unfold)
    have "bar_set_ok ?sy (mk_bar_widths m) (fst add)"
      unfolding add_def by (rule bar_set_ok_add [OF the_bar_set_ok [OF ok]])
    then have "market_ok m5" using ok4 by (auto simp: market_ok_def m5_def m4_def m3_def s)
    then show ?thesis
      by (rule that [OF app])
         (use True nb in \<open>simp_all add: m5_def m4_def m3_def s book2 add_def tape_record_def moves_book_def
            book_moved_def with_book_def\<close>)
  next
    case False
    define m3 where "m3 = (if moves_book rec then with_book (symbol_id rec) (book_moved rec) m2 else m2)"
    have app: "market_apply rec sid m = Inr m3"
      using False unfolding market_apply_def Let_def m1_def [symmetric] m2_def [symmetric]
      by (simp add: m3_def moves_book_def book_moved_def)
    have "market_ok m3" using ok2 market_ok_with_book [OF ok2 book_moved_ok] by (simp add: m3_def)
    then show ?thesis
      by (rule that [OF app]) (use False in \<open>simp_all add: m3_def s book2 with_book_def\<close>)
  qed
qed

definition market_next :: "string \<Rightarrow> wire \<Rightarrow> market \<Rightarrow> market" where
  "market_next sid rec m = (case market_apply rec (Some sid) m of Inl _ \<Rightarrow> m | Inr m' \<Rightarrow> m')"

lemma market_ok_new: "list_all (\<lambda>w. 1 \<le> w) widths \<Longrightarrow> market_ok (new_market widths)"
  by (simp add: market_ok_def new_market_def)

lemma market_ok_next: "market_ok m \<Longrightarrow> market_ok (market_next sid rec m)"
  by (rule market_apply_sel [of m rec "Some sid"]) (simp_all add: market_next_def)

lemma market_apply_next: "market_ok m \<Longrightarrow> market_apply rec (Some sid) m = Inr (market_next sid rec m)"
  by (rule market_apply_sel [of m rec "Some sid"]) (simp_all add: market_next_def)


subsection \<open>Every book follows the engine's\<close>

lemma mk_book_next:
  assumes "market_ok m"
  shows "mk_book sy (market_next sid rec m) =
    (if moves_book rec \<and> symbol_id rec = sy then book_moved rec (mk_book sy m) else mk_book sy m)"
  by (rule market_apply_sel [OF assms, of rec "Some sid"]) (auto simp: market_next_def mk_book_def)

definition book_row :: "int \<Rightarrow> resting_order \<Rightarrow> row" where
  "book_row sy ord = (sy, ro_side ord, ro_price_ticks ord, ro_remaining_qty ord)"

definition book_rows :: "int \<Rightarrow> market \<Rightarrow> rowmap" where
  "book_rows sy m i = map_option (book_row sy) (dget (bk_orders (mk_book sy m)) i)"

lemma rows_bk_fill:
  "map_option (book_row sy) (dget (bk_orders (bk_fill i q b)) j) =
     take_from i q (\<lambda>j. map_option (book_row sy) (dget (bk_orders b) j)) j"
  by (auto simp: bk_fill_def take_from_def book_row_def Let_def split: option.splits)

lemma rows_bk_fill': "(\<lambda>j. map_option (book_row sy) (dget (bk_orders (bk_fill i q b)) j)) =
    take_from i q (\<lambda>j. map_option (book_row sy) (dget (bk_orders b) j))"
  by (rule ext) (rule rows_bk_fill)

interpretation mkb: order_projection market_next "book_rows sy" "\<lambda>s. s = sy" market_ok for sy
proof
  fix m :: market and r :: wire and i :: string
  assume ok: "market_ok m"
  show "market_ok (market_next i r m)" by (rule market_ok_next [OF ok])
  show "book_rows sy (market_next i r m) = (book_rows sy m)(order_id r \<mapsto> (symbol_id r, side r, price_ticks r, qty r))"
    if "is_OrderAccepted r" "symbol_id r = sy"
    using that by (auto simp: fun_eq_iff book_rows_def mk_book_next [OF ok] moves_book_def book_moved_def bk_accept_def book_row_def)
  show "book_rows sy (market_next i r m) =
      take_from (taker_order_id r) (qty r) (take_from (maker_order_id r) (qty r) (book_rows sy m))"
    if "is_Fill r" "symbol_id r = sy"
  proof -
    have "\<not> is_OrderAccepted r" using that by (cases r) simp_all
    with that show ?thesis
      by (simp add: book_rows_def [abs_def] mk_book_next [OF ok] moves_book_def book_moved_def fill_book_def rows_bk_fill')
  qed
  show "book_rows sy (market_next i r m) = (book_rows sy m)(order_id r := None)"
    if "is_OrderCancelled r" "symbol_id r = sy"
  proof -
    have "\<not> is_OrderAccepted r" "\<not> is_Fill r" using that by (cases r; simp)+
    with that show ?thesis
      by (auto simp: fun_eq_iff book_rows_def mk_book_next [OF ok] moves_book_def book_moved_def bk_cancel_def)
  qed
  show "book_rows sy (market_next i r m) = book_rows sy m" if "\<not> moves_orders (\<lambda>s. s = sy) r"
    using that by (auto simp: book_rows_def [abs_def] mk_book_next [OF ok] moves_book_def moves_orders_def)
qed

subsection \<open>Levels\<close>

definition shows_at :: "int \<Rightarrow> int \<Rightarrow> resting_order \<Rightarrow> int" where
  "shows_at sd px ord =
     (if ro_side ord = sd \<and> ro_price_ticks ord = px \<and> ro_remaining_qty ord > 0 then ro_remaining_qty ord else 0)"

definition live_on :: "int \<Rightarrow> resting_order \<Rightarrow> bool" where
  "live_on sd ord \<longleftrightarrow> ro_side ord = sd \<and> ro_remaining_qty ord > 0"

text \<open>The prices with something resting, most aggressive first, and the quantity at each.\<close>

definition level_prices :: "int \<Rightarrow> mbook \<Rightarrow> int list" where
  "level_prices sd b =
     (let ps = sorted_list_of_set (ro_price_ticks ` set (filter (live_on sd) (dvalues (bk_orders b))))
      in if sd = Side_BUY then rev ps else ps)"

definition qty_at :: "int \<Rightarrow> int \<Rightarrow> mbook \<Rightarrow> int" where
  "qty_at sd px b = dsum (shows_at sd px) (bk_orders b)"

lemma level_totals_props:
  "wf_dict (level_totals sd ords)"
  "set (dkeys (level_totals sd ords)) = ro_price_ticks ` set (filter (live_on sd) ords)"
  "dget0 (level_totals sd ords) px = sum_list (map (shows_at sd px) ords)"
proof -
  define g where "g = (\<lambda>ord :: resting_order. if ro_side ord = sd \<and> ro_remaining_qty ord > 0
        then add_to (ro_price_ticks ord) (ro_remaining_qty ord) else (\<lambda>d. d))"
  have f: "level_totals sd ords = fold g ords []" for ords
    unfolding level_totals_def g_def by (rule fold_cong) (auto simp: fun_eq_iff)
  have gen: "(wf_dict d \<longrightarrow> wf_dict (fold g ords d)) \<and>
    set (dkeys (fold g ords d)) = set (dkeys d) \<union> ro_price_ticks ` set (filter (live_on sd) ords) \<and>
    dget0 (fold g ords d) px = dget0 d px + sum_list (map (shows_at sd px) ords)" for d
  proof (induction ords arbitrary: d)
    case (Cons ord ords)
    have k: "set (dkeys (g ord d)) = (if live_on sd ord then insert (ro_price_ticks ord) (set (dkeys d)) else set (dkeys d))"
      unfolding g_def live_on_def add_to_def by (simp del: set_map)
    have w: "wf_dict d \<longrightarrow> wf_dict (g ord d)" by (simp add: g_def)
    have v: "dget0 (g ord d) px = dget0 d px + shows_at sd px ord" by (auto simp: g_def shows_at_def)
    show ?case using Cons [of "g ord d"] w v by (auto simp: k simp del: set_map)
  qed simp
  show "wf_dict (level_totals sd ords)" using gen [of "[]"] by (simp add: f)
  show "dget0 (level_totals sd ords) px = sum_list (map (shows_at sd px) ords)" using gen [of "[]"] by (simp add: f)
  show "set (dkeys (level_totals sd ords)) = ro_price_ticks ` set (filter (live_on sd) ords)"
    unfolding f using gen [of "[]"] by (simp del: set_map) 
qed

lemma sort_dict:
  fixes d :: "(int, int) dict"
  assumes "wf_dict d"
  shows "sort d = map (\<lambda>p. (p, dget0 d p)) (sorted_list_of_set (set (dkeys d)))"
proof -
  have d: "distinct d" using assms by (simp add: wf_dict_def distinct_map)
  have "sorted (map fst (sort d))"
    unfolding sorted_map
  proof (rule sorted_wrt_mono_rel [OF _ sorted_sort [of d]])
    show "fst x \<le> fst y" if "x \<le> y" for x y :: "int \<times> int"
      using that by (cases x; cases y) (auto simp: less_eq_prod_def)
  qed
  moreover have "distinct (map fst (sort d))"
  proof -
    have "mset (map fst (sort d)) = mset (dkeys d)" by simp
    then show ?thesis using assms unfolding wf_dict_def by (metis mset_eq_imp_distinct_iff)
  qed
  ultimately have k: "map fst (sort d) = sorted_list_of_set (set (dkeys d))"
    by (metis set_map set_sort sorted_list_of_set.idem_if_sorted_distinct)
  have "map (\<lambda>p. (p, dget0 d p)) (map fst (sort d)) = map (\<lambda>x. x) (sort d)"
    unfolding map_map
  proof (rule map_cong [OF refl])
    fix x assume "x \<in> set (sort d)"
    then have "dget d (fst x) = Some (snd x)" by (simp add: dget_in_set [OF assms])
    then show "((\<lambda>p. (p, dget0 d p)) \<circ> fst) x = x" by (simp add: dget0_def)
  qed
  then show ?thesis using k by simp
qed

lemma slice_to_map: "slice_to n (map f xs) = map f (slice_to n xs)"
  by (simp add: slice_to_def take_map)

lemma bk_levels_eq: "bk_levels sd depth b = map (\<lambda>p. [p, qty_at sd p b]) (slice_to depth (level_prices sd b))"
proof -
  note T = level_totals_props [of sd "dvalues (bk_orders b)"]
  have s: "sort (level_totals sd (dvalues (bk_orders b))) =
      map (\<lambda>p. (p, qty_at sd p b)) (sorted_list_of_set (ro_price_ticks ` set (filter (live_on sd) (dvalues (bk_orders b)))))"
    unfolding sort_dict [OF T(1)] T(2) T(3) by (simp add: qty_at_def dsum_def)
  show ?thesis
    unfolding bk_levels_def Let_def s level_prices_def
    by (simp add: rev_map slice_to_map case_prod_unfold comp_def)
qed

lemma bk_best_eq: "bk_best sd b =
    (case level_prices sd b of [] \<Rightarrow> None | p # _ \<Rightarrow> Some [p, qty_at sd p b])"
  by (cases "level_prices sd b") (simp_all add: bk_best_def bk_levels_eq slice_to_def)

lemma level_prices_sorted: "sorted_wrt (if sd = Side_BUY then (>) else (<)) (level_prices sd b)"
  by (simp add: level_prices_def Let_def sorted_wrt_rev)

lemma set_level_prices:
  "set (level_prices sd b) = {ro_price_ticks ord | ord. ord \<in> set (dvalues (bk_orders b)) \<and> live_on sd ord}"
  by (auto simp: level_prices_def Let_def)


lemma market_run_next: "market_ok m \<Longrightarrow> market_run es m = Inr (fold (\<lambda>(i, r). market_next i r) es m)"
  by (induction es arbitrary: m) (auto simp: market_apply_next market_ok_next)

lemma resting_of_rows:
  assumes ok: "book_ok b" and m: "wf_matcher m"
    and rows: "rows_of (\<lambda>s. s = sy) (abs_matcher m) (\<lambda>i. map_option (book_row sy) (dget (bk_orders b) i))"
    and res: "sorted_wrt (<) (map fst rs)"
      "\<And>i s sd px q. (i, s, sd, px, q) \<in> set rs \<longleftrightarrow>
         sd \<in> {Side_BUY, Side_SELL} \<and> (i, px, q) \<in> set (abs_side (side_of sd) (get_book s m))"
  shows "bk_resting b = map (\<lambda>(i, _, sd, px, q). (i, sd, px, q)) (filter (\<lambda>(_, s, _). s = sy) rs)"
proof (rule sorted_distinct_set_unique)
  let ?row = "\<lambda>ord. (ro_order_id ord, ro_side ord, ro_price_ticks ord, ro_remaining_qty ord)"
  let ?R = "map (\<lambda>(i, _, sd, px, q). (i, sd, px, q)) (filter (\<lambda>(_, s, _). s = sy) rs)"
  have wf: "wf_dict (bk_orders b)" using ok by (simp add: book_ok_def)
  have key: "ro_order_id ord = i" if "(i, ord) \<in> set (bk_orders b)" for i ord
    using that ok by (auto simp: book_ok_def simp flip: dget_in_set)
  show "sorted (bk_resting b)" by (simp add: bk_resting_def)
  have "map fst (map ?row (dvalues (bk_orders b))) = dkeys (bk_orders b)"
    using key by (auto simp: comp_def intro!: map_cong)
  then have "distinct (map fst (map ?row (dvalues (bk_orders b))))" using wf by (simp only: wf_dict_def)
  then have "distinct (map ?row (dvalues (bk_orders b)))" by (rule distinct_map [THEN iffD1, THEN conjunct1])
  then show "distinct (bk_resting b)" by (simp add: bk_resting_def)
  have fst_eq: "map fst ?R = map fst (filter (\<lambda>(_, s, _). s = sy) rs)" by (auto simp: comp_def case_prod_unfold)
  have "sorted_wrt (<) (map fst (filter (\<lambda>(_, s, _). s = sy) rs))"
    using res(1) by (auto simp: sorted_wrt_map sorted_wrt_filter)
  then have s: "sorted_wrt (<) (map fst ?R)" by (simp only: fst_eq)
  then have "sorted_wrt (<) ?R" unfolding sorted_wrt_map by (rule sorted_wrt_mono_rel [rotated]) (auto simp: less_prod_def)
  then show "sorted ?R" "distinct ?R" using strict_sorted_iff by blast+
  show "set (bk_resting b) = set ?R"
  proof (rule set_eqI)
    fix x :: "int \<times> int \<times> int \<times> int"
    obtain i sd px q where x: "x = (i, sd, px, q)" by (cases x)
    have "x \<in> set (bk_resting b) \<longleftrightarrow> (\<exists>ord. (i, ord) \<in> set (bk_orders b) \<and> book_row sy ord = (sy, sd, px, q))"
      using key by (force simp: bk_resting_def x book_row_def)
    also have "\<dots> \<longleftrightarrow> map_option (book_row sy) (dget (bk_orders b) i) = Some (sy, sd, px, q)"
      by (simp add: dget_in_set [OF wf])
    also have "\<dots> \<longleftrightarrow> (i, sy, sd, px, q) \<in> set rs"
      using rows by (simp add: rows_of_def res(2) abs_matcher_def)
    also have "\<dots> \<longleftrightarrow> x \<in> set ?R" by (force simp: x)
    finally show "x \<in> set (bk_resting b) \<longleftrightarrow> x \<in> set ?R" .
  qed
qed

lemma row_prices_levels:
  assumes ok: "book_ok b" and pos: "\<And>i ord. dget (bk_orders b) i = Some ord \<Longrightarrow> 0 < ro_remaining_qty ord"
  shows "row_prices sy sd (\<lambda>i. map_option (book_row sy) (dget (bk_orders b) i)) = set (level_prices sd b)"
proof -
  have wf: "wf_dict (bk_orders b)" using ok by (simp add: book_ok_def)
  have "ord \<in> set (dvalues (bk_orders b)) \<longleftrightarrow> (\<exists>i. dget (bk_orders b) i = Some ord)" for ord
    by (force simp: dget_in_set [OF wf])
  then show ?thesis using pos by (auto simp: row_prices_def set_level_prices live_on_def book_row_def)
qed

lemma hd_sorted: "sorted_wrt (<) (x # xs) \<Longrightarrow> Min (set (x # xs)) = x" "sorted_wrt (>) (x # xs) \<Longrightarrow> Max (set (x # xs)) = x"
  for x :: int
  by (auto intro!: Min_eqI Max_eqI dest: less_imp_le)

lemma best_of_levels:
  assumes "S = set (level_prices sd b)"
  shows "sd \<noteq> Side_BUY \<Longrightarrow> map_option hd (bk_best sd b) = (if S = {} then None else Some (Min S))"
    "sd = Side_BUY \<Longrightarrow> map_option hd (bk_best sd b) = (if S = {} then None else Some (Max S))"
  using level_prices_sorted [of sd b] hd_sorted
  by (cases "level_prices sd b"; simp add: assms bk_best_eq del: Min_insert Max_insert; fail)+

text \<open>C14. Fan-out's books are the engine's: after any log, whatever bar widths are configured, the
  replay of the outbound records succeeds, every symbol's book lists exactly the orders the
  engine lists as resting for it, and its best bid and offer are the engine's.\<close>

theorem books_follow_the_engine:
  assumes "apply_all log (new_matcher first cash) = Inr (m, map snd es)" "list_all (\<lambda>w. 1 \<le> w) widths"
  shows "\<exists>mk rows. market_run es (new_market widths) = Inr mk \<and> resting m = Inr rows \<and>
    bk_resting (mk_book sy mk) = map (\<lambda>(i, _, sd, px, q). (i, sd, px, q)) (filter (\<lambda>(_, s, _). s = sy) rows) \<and>
    map_option hd (bk_best Side_SELL (mk_book sy mk)) = best_ask (get_book sy m) \<and>
    map_option hd (bk_best Side_BUY (mk_book sy mk)) = best_bid (get_book sy m)"
proof -
  note ok = market_ok_new [OF assms(2)]
  define mk where "mk = fold (\<lambda>(i, r). market_next i r) es (new_market widths)"
  have wf: "wf_matcher m" using apply_all_refines [OF wf_new_matcher, of log first cash] assms by auto
  have empty: "book_rows sy (new_market widths) = (\<lambda>_. None)"
    by (simp add: book_rows_def [abs_def] mk_book_def new_market_def)
  have F: "market_ok mk" "rows_of (\<lambda>s. s = sy) (abs_matcher m) (book_rows sy mk)"
    using mkb.follows_new_matcher [OF assms(1) ok empty] by (simp_all add: mkb.run_def mk_def)
  note rows = F(2) [unfolded book_rows_def [abs_def]]
  let ?b = "mk_book sy mk"
  have okb: "book_ok ?b" by (rule mk_book_ok [OF F(1)])
  have pos: "0 < ro_remaining_qty ord" if d: "dget (bk_orders ?b) i = Some ord" for i ord
  proof -
    have "map_option (book_row sy) (dget (bk_orders ?b) i) =
        Some (sy, ro_side ord, ro_price_ticks ord, ro_remaining_qty ord)" by (simp add: d book_row_def)
    then have "(i, ro_price_ticks ord, ro_remaining_qty ord) \<in> set (am_queue (abs_matcher m) sy (side_of (ro_side ord)))"
      using rows unfolding rows_of_def by blast
    then show ?thesis using am_okD(2) [OF am_ok_abs [OF wf]] by blast
  qed
  obtain rs where rs: "resting m = Inr rs" "sorted_wrt (<) (map fst rs)"
    "\<And>i s sd px q. (i, s, sd, px, q) \<in> set rs \<longleftrightarrow>
         sd \<in> {Side_BUY, Side_SELL} \<and> (i, px, q) \<in> set (abs_side (side_of sd) (get_book s m))"
    using resting_exact [OF wf] by blast
  note B = best_of_rows [OF wf rows refl]
  have P: "row_prices sy sd (\<lambda>i. map_option (book_row sy) (dget (bk_orders ?b) i)) = set (level_prices sd ?b)" for sd
    by (rule row_prices_levels [OF okb]) (rule pos)
  have "map_option hd (bk_best Side_SELL ?b) = best_ask (get_book sy m)"
    unfolding B(1) by (rule best_of_levels(1) [OF P]) (simp add: Side_SELL_def Side_BUY_def)
  moreover have "map_option hd (bk_best Side_BUY ?b) = best_bid (get_book sy m)"
    unfolding B(2) by (rule best_of_levels(2) [OF P refl])
  moreover have "bk_resting ?b = map (\<lambda>(i, _, sd, px, q). (i, sd, px, q)) (filter (\<lambda>(_, s, _). s = sy) rs)"
    by (rule resting_of_rows [OF okb wf rows rs(2,3)])
  ultimately show ?thesis using rs(1) market_run_next [OF ok, of es] by (auto simp: mk_def)
qed

theorem books_follow_the_engine_witness:
  "\<exists>m es mk. apply_all demo_commands (new_matcher 1 1000) = Inr (m, map snd es) \<and>
    market_run es (new_market [1, 60]) = Inr mk \<and>
    map_option hd (bk_best Side_BUY (mk_book 1 mk)) = best_bid (get_book 1 m)"
proof -
  obtain m out where run: "apply_all demo_commands (new_matcher 1 1000) = Inr (m, out)"
    using apply_all_refines [OF wf_new_matcher, of demo_commands 1 1000] by auto
  have "out = map snd (map (\<lambda>r. (''1-0'', r)) out)" by (simp add: comp_def)
  with run have "apply_all demo_commands (new_matcher 1 1000) = Inr (m, map snd (map (\<lambda>r. (''1-0'', r)) out))" by simp
  from this books_follow_the_engine [OF this, of "[1, 60]" 1] show ?thesis
    by (simp del: map_map) blast
qed

text \<open>A book snapshot is exact: the levels of a side are the first \<open>depth\<close> of its prices with
  anything resting, strictly most aggressive first, each with the sum of what rests there.\<close>

theorem levels_are_sums:
  "bk_levels sd depth b = map (\<lambda>p. [p, qty_at sd p b]) (slice_to depth (level_prices sd b)) \<and>
    sorted_wrt (if sd = Side_BUY then (>) else (<)) (level_prices sd b) \<and>
    set (level_prices sd b) = {ro_price_ticks ord | ord. ord \<in> set (dvalues (bk_orders b)) \<and> live_on sd ord}"
  using bk_levels_eq level_prices_sorted set_level_prices by blast


subsection \<open>Bars are the buckets of their trades\<close>

text \<open>A print as \<open>(price, quantity, timestamp)\<close>; a run of prints in one bucket and its candle.\<close>

type_synonym print = "int \<times> int \<times> int"

function groups :: "('a \<Rightarrow> 'b) \<Rightarrow> 'a list \<Rightarrow> 'a list list" where
  "groups f [] = []"
| "groups f (x # xs) = (x # takeWhile (\<lambda>y. f y = f x) xs) # groups f (dropWhile (\<lambda>y. f y = f x) xs)"
  by pat_completeness auto

termination groups
  by (relation "measure (length \<circ> snd)") (auto simp: less_Suc_eq_le length_dropWhile_le)

definition print_bucket :: "int \<Rightarrow> print \<Rightarrow> int" where
  "print_bucket width x = snd (snd x) div width * width"

definition candle :: "int \<Rightarrow> int \<Rightarrow> print list \<Rightarrow> bar" where
  "candle sy secs g =
     \<lparr> bar_symbol_id = sy, bar_bucket_seconds = secs, bar_open_ns = print_bucket (secs * NS_PER_SECOND) (hd g),
       open_ticks = fst (hd g), high_ticks = Max (fst ` set g), low_ticks = Min (fst ` set g),
       close_ticks = fst (last g), volume = sum_list (map (fst \<circ> snd) g) \<rparr>"

definition add_print :: "print \<Rightarrow> builder \<Rightarrow> builder" where
  "add_print x bb = fst (bb_add (fst x) (fst (snd x)) (snd (snd x)) bb)"

definition all_bars :: "builder \<Rightarrow> bar list" where
  "all_bars bb = bb_closed (fst (bb_flush bb))"

lemma candle_single: "candle sy secs [x] = opening_bar (fst x) (fst (snd x)) (print_bucket (secs * NS_PER_SECOND) x)
    (bb\<lparr>bb_symbol_id := sy, bb_bucket_seconds := secs\<rparr>)"
  by (simp add: candle_def opening_bar_def)

lemma candle_extend:
  assumes "g \<noteq> []"
  shows "bar_extend (fst x) (fst (snd x)) (candle sy secs g) = candle sy secs (g @ [x])"
  using assms by (simp add: candle_def bar_extend_def max.commute min.commute)

lemma fold_add_print:
  assumes "builder_ok sy secs bb" "bb_current bb = Some (candle sy secs g)" "g \<noteq> []"
    "\<And>x. x \<in> set g \<Longrightarrow> print_bucket (secs * NS_PER_SECOND) x = s"
  shows "all_bars (fold add_print xs bb) =
    bb_closed bb @ map (candle sy secs)
      ((g @ takeWhile (\<lambda>y. print_bucket (secs * NS_PER_SECOND) y = s) xs) #
        groups (print_bucket (secs * NS_PER_SECOND)) (dropWhile (\<lambda>y. print_bucket (secs * NS_PER_SECOND) y = s) xs))"
  using assms
proof (induction xs arbitrary: bb g s)
  case Nil
  then show ?case by (simp add: all_bars_def bb_flush_def)
next
  case (Cons x xs)
  let ?f = "print_bucket (secs * NS_PER_SECOND)"
  have w: "bb_width_ns bb = secs * NS_PER_SECOND" "bb_symbol_id bb = sy" "bb_bucket_seconds bb = secs"
    using Cons.prems(1) by (simp_all add: builder_ok_def)
  have start: "bucket_start (snd (snd x)) bb = ?f x" by (simp add: bucket_start_def print_bucket_def w)
  have open_ns: "bar_open_ns (candle sy secs g) = s" using Cons.prems(3,4) by (simp add: candle_def)
  have ok: "builder_ok sy secs (add_print x bb)" unfolding add_print_def by (rule builder_ok_add [OF Cons.prems(1)])
  show ?case
  proof (cases "?f x = s")
    case True
    have cur: "bb_current (add_print x bb) = Some (candle sy secs (g @ [x]))" "bb_closed (add_print x bb) = bb_closed bb"
      using True Cons.prems(2,3) by (simp_all add: add_print_def bb_add_def Let_def start open_ns candle_extend)
    show ?thesis
      using Cons.IH [OF ok cur(1), of s] Cons.prems(4) True by (auto simp: cur(2))
  next
    case False
    have cur: "bb_current (add_print x bb) = Some (candle sy secs [x])"
      "bb_closed (add_print x bb) = bb_closed bb @ [candle sy secs g]"
      using False Cons.prems(2)
      by (simp_all add: add_print_def bb_add_def Let_def start open_ns)
         (simp add: candle_def opening_bar_def w)
    show ?thesis
      using Cons.IH [OF ok cur(1), of "?f x"] False by (simp add: cur(2))
  qed
qed

lemma groups_heads:
  "sorted (map f xs) \<Longrightarrow> sorted_wrt (<) (map (\<lambda>g. f (hd g)) (groups f xs)) \<and>
     (\<forall>g \<in> set (groups f xs). g \<noteq> [] \<and> set g \<subseteq> set xs)"
proof (induction f xs rule: groups.induct)
  case (2 f x xs)
  let ?rest = "dropWhile (\<lambda>y. f y = f x) xs"
  have sub: "set ?rest \<subseteq> set xs" by (auto dest: set_dropWhileD)
  have "sorted (map f (takeWhile (\<lambda>y. f y = f x) xs @ ?rest))" using 2(2) by simp
  then have rest: "sorted (map f ?rest)" unfolding map_append sorted_append by blast
  note IH = 2(1) [OF rest]
  have "f x < f (hd g)" if g: "g \<in> set (groups f ?rest)" for g
  proof -
    have h: "hd g \<in> set ?rest" using IH g by (metis hd_in_set subsetD)
    then obtain y ys where r: "?rest = y # ys" by (cases ?rest) auto
    then have ne: "f y \<noteq> f x" using hd_dropWhile [of "\<lambda>y. f y = f x" xs] by simp
    have "f x \<le> f y" using 2(2) r sub by auto
    moreover have "f y \<le> f (hd g)" using rest h r by auto
    ultimately show ?thesis using ne by simp
  qed
  moreover have "set (takeWhile (\<lambda>y. f y = f x) xs) \<subseteq> set xs" by (auto dest: set_takeWhileD)
  moreover have "set g \<subseteq> set xs" if "g \<in> set (groups f ?rest)" for g using IH sub that by blast
  ultimately show ?case using IH by auto
qed simp

text \<open>C23. Bars are a pure function of the prints: however many prints are folded in, the closed bars
  and the open one are the candles of the maximal runs of prints in one bucket - open the first
  price, close the last, high and low the extremes, volume the sum - and when time does not go
  backwards there is exactly one bar per bucket, in order.\<close>

theorem bars_are_buckets:
  assumes "new_builder sy secs = Inr bb" "sorted (map (snd \<circ> snd) prints)"
  shows "all_bars (fold add_print prints bb) =
      map (candle sy secs) (groups (print_bucket (secs * NS_PER_SECOND)) prints) \<and>
    sorted_wrt (<) (map bar_open_ns (all_bars (fold add_print prints bb)))"
proof -
  let ?f = "print_bucket (secs * NS_PER_SECOND)"
  have secs: "1 \<le> secs" and bb: "bb = fresh_builder sy secs"
    using assms(1) by (auto simp: new_builder_def fresh_builder_def split: if_splits)
  have eq: "all_bars (fold add_print prints bb) = map (candle sy secs) (groups ?f prints)"
  proof (cases prints)
    case Nil
    then show ?thesis by (simp add: all_bars_def bb_flush_def bb fresh_builder_def)
  next
    case (Cons x xs)
    have "builder_ok sy secs bb" by (simp add: bb builder_ok_def fresh_builder_def)
    then have ok: "builder_ok sy secs (add_print x bb)" unfolding add_print_def by (rule builder_ok_add)
    have cur: "bb_current (add_print x bb) = Some (candle sy secs [x])" "bb_closed (add_print x bb) = []"
      by (simp_all add: add_print_def bb_add_def Let_def bb fresh_builder_def bucket_start_def opening_bar_def
          candle_def print_bucket_def)
    show ?thesis using fold_add_print [OF ok cur(1), of "?f x" xs] by (simp add: Cons cur(2))
  qed
  have pos: "0 \<le> secs * NS_PER_SECOND" and width: "0 < secs * NS_PER_SECOND" using secs by (simp_all add: NS_PER_SECOND_def)
  have "sorted (map ?f prints)"
    using assms(2) unfolding sorted_map
  proof (rule sorted_wrt_mono_rel [rotated])
    show "?f x \<le> ?f y" if "(snd \<circ> snd) x \<le> (snd \<circ> snd) y" for x y
      using that pos width unfolding print_bucket_def by (intro mult_right_mono zdiv_mono1) simp_all
  qed
  then have "sorted_wrt (<) (map (\<lambda>g. ?f (hd g)) (groups ?f prints))" using groups_heads by blast
  moreover have "bar_open_ns \<circ> candle sy secs = (\<lambda>g. ?f (hd g))" by (simp add: fun_eq_iff candle_def)
  ultimately show ?thesis by (simp add: eq)
qed

theorem bars_are_buckets_witness:
  "all_bars (fold add_print [(50, 2, 100), (53, 1, 999999999), (49, 4, 1000000000)] (fresh_builder 7 1)) =
    [candle 7 1 [(50, 2, 100), (53, 1, 999999999)], candle 7 1 [(49, 4, 1000000000)]]"
proof -
  have "new_builder 7 1 = Inr (fresh_builder 7 1)" by (simp add: new_builder_def fresh_builder_def)
  from bars_are_buckets [OF this, of "[(50, 2, 100), (53, 1, 999999999), (49, 4, 1000000000)]"] show ?thesis
    by (simp add: print_bucket_def NS_PER_SECOND_def)
qed

end
