(* ===== verification/Market_Checkpoint.thy ===== *)
theory Market_Checkpoint
  imports Market_Spec Stream_Replay
begin

section \<open>The fan-out checkpoint\<close>

text \<open>
  \<open>dump_state\<close> keeps the books and the open bars and leaves out undelivered output. The theory
  discharges the \<open>checkpointed\<close> contract for it: what is kept determines what is dumped, and a
  restart from a checkpoint dumps the bytes of a process that never stopped.
\<close>

definition current_bar :: "market \<Rightarrow> int \<Rightarrow> int \<Rightarrow> bar option" where
  "current_bar m sy w =
     (case dget (mk_bars m) sy of
        None \<Rightarrow> None
      | Some bs \<Rightarrow> (case dget (bs_builders bs) w of None \<Rightarrow> None | Some bb \<Rightarrow> bb_current bb))"

definition book_map :: "market \<Rightarrow> int \<Rightarrow> (int \<Rightarrow> resting_order option) option" where
  "book_map m sy = map_option (\<lambda>b. dget (bk_orders b)) (dget (mk_books m) sy)"

definition same_market :: "market \<Rightarrow> market \<Rightarrow> bool" where
  "same_market m t \<longleftrightarrow> mk_last_seq m = mk_last_seq t \<and> records_applied m = records_applied t \<and>
     tape_total (mk_tape m) = tape_total (mk_tape t) \<and> book_map m = book_map t \<and> current_bar m = current_bar t"

definition fanout_ok :: "int list \<Rightarrow> market \<Rightarrow> bool" where
  "fanout_ok widths m \<longleftrightarrow> market_ok m \<and> mk_bar_widths m = widths"

definition market_step :: "string \<times> wire \<Rightarrow> market \<Rightarrow> market" where
  "market_step e = market_next (fst e) (snd e)"

subsection \<open>What a record does to what is kept\<close>

definition bar_step :: "int \<Rightarrow> int \<Rightarrow> int \<Rightarrow> int \<Rightarrow> int \<Rightarrow> bar option \<Rightarrow> bar" where
  "bar_step sy w px q ts cur =
     (case cur of
        None \<Rightarrow> opening_bar px q (bucket_start ts (fresh_builder sy w)) (fresh_builder sy w)
      | Some b \<Rightarrow> if bucket_start ts (fresh_builder sy w) = bar_open_ns b then bar_extend px q b
                  else opening_bar px q (bucket_start ts (fresh_builder sy w)) (fresh_builder sy w))"

lemma bb_current_add:
  assumes "builder_ok sy w bb"
  shows "bb_current (fst (bb_add px q ts bb)) = Some (bar_step sy w px q ts (bb_current bb))"
proof -
  have "bucket_start ts bb = bucket_start ts (fresh_builder sy w)"
    "opening_bar px q s bb = opening_bar px q s (fresh_builder sy w)" for s
    using assms by (simp_all add: builder_ok_def bucket_start_def opening_bar_def fresh_builder_def)
  then show ?thesis by (cases "bb_current bb") (simp_all add: bb_add_def bar_step_def Let_def)
qed

lemma builder_current:
  assumes "market_ok m" "w \<in> set (mk_bar_widths m)"
  shows "\<exists>bb. dget (bs_builders (the_bar_set sy m)) w = Some bb \<and> builder_ok sy w bb \<and> bb_current bb = current_bar m sy w"
proof -
  have ok: "bar_set_ok sy (mk_bar_widths m) (the_bar_set sy m)" by (rule the_bar_set_ok [OF assms(1)])
  then have "w \<in> set (dkeys (bs_builders (the_bar_set sy m)))" using assms(2) unfolding bar_set_ok_def by blast
  then obtain bb where bb: "dget (bs_builders (the_bar_set sy m)) w = Some bb" using dget_key_iff by metis
  have "bb_current bb = current_bar m sy w"
  proof (cases "dget (mk_bars m) sy")
    case None
    then have "bb = fresh_builder sy w" using bb assms(2) by (simp add: the_bar_set_def dget_fresh)
    with None show ?thesis by (simp add: current_bar_def fresh_builder_def)
  next
    case (Some bs)
    then show ?thesis using bb by (simp add: the_bar_set_def current_bar_def)
  qed
  with bb ok show ?thesis by (auto simp: bar_set_ok_def)
qed

lemma current_bar_next:
  assumes ok: "market_ok m"
  shows "current_bar (market_next sid rec m) sy w =
    (if is_Fill rec \<and> symbol_id rec = sy \<and> w \<in> set (mk_bar_widths m)
     then Some (bar_step sy w (price_ticks rec) (qty rec) (timestamp_ns (hdr rec)) (current_bar m sy w))
     else current_bar m sy w)"
proof -
  obtain m' where m': "market_next sid rec m = m'" and bars: "mk_bars m' = (if is_Fill rec
       then dset (symbol_id rec) (fst (bs_add (price_ticks rec) (qty rec) (timestamp_ns (hdr rec)) (the_bar_set (symbol_id rec) m)))
              (mk_bars m)
       else mk_bars m)"
    by (rule market_apply_sel [OF ok, of rec "Some sid"]) (simp add: market_next_def)
  show ?thesis
  proof (cases "is_Fill rec \<and> symbol_id rec = sy")
    case True
    let ?bs = "the_bar_set sy m"
    have "dget (bs_builders (fst (bs_add px q ts ?bs))) w = map_option (\<lambda>bb. fst (bb_add px q ts bb)) (dget (bs_builders ?bs) w)" for px q ts
      by (simp add: bs_builders_add dget_map_values)
    then have e: "current_bar m' sy w = (case dget (bs_builders ?bs) w of None \<Rightarrow> None
        | Some bb \<Rightarrow> bb_current (fst (bb_add (price_ticks rec) (qty rec) (timestamp_ns (hdr rec)) bb)))"
      using True by (simp add: current_bar_def bars split: option.split)
    show ?thesis
    proof (cases "w \<in> set (mk_bar_widths m)")
      case w: True
      show ?thesis using builder_current [OF ok w, of sy] True w by (auto simp: m' e bb_current_add)
    next
      case False
      have keys: "set (dkeys (bs_builders bs)) = set (mk_bar_widths m)" if "bar_set_ok sy (mk_bar_widths m) bs" for bs
        using that unfolding bar_set_ok_def by blast
      have none: "dget (bs_builders ?bs) w = None"
        using keys [OF the_bar_set_ok [OF ok]] False by (simp add: dget_None_iff del: set_map)
      have "current_bar m sy w = None"
      proof (cases "dget (mk_bars m) sy")
        case (Some bs)
        then have "bs = ?bs" by (simp add: the_bar_set_def)
        with Some none show ?thesis by (simp add: current_bar_def)
      qed (simp add: current_bar_def)
      with False none show ?thesis by (simp add: m' e)
    qed
  next
    case False
    then show ?thesis by (auto simp: m' current_bar_def bars)
  qed
qed

lemma book_map_next:
  assumes ok: "market_ok m"
  shows "book_map (market_next sid rec m) sy =
    (if moves_book rec \<and> symbol_id rec = sy then Some (dget (bk_orders (book_moved rec (mk_book sy m)))) else book_map m sy)"
  by (rule market_apply_sel [OF ok, of rec "Some sid"]) (auto simp: book_map_def market_next_def)

lemma dget_book_moved:
  "dget (bk_orders b) = dget (bk_orders c) \<Longrightarrow> dget (bk_orders (book_moved rec b)) = dget (bk_orders (book_moved rec c))"
proof -
  have f: "dget (bk_orders (bk_fill i q b)) = dget (bk_orders (bk_fill i q c))"
    if "dget (bk_orders b) = dget (bk_orders c)" for i q b c
    using that by (auto simp: bk_fill_def Let_def split: option.split)
  show "dget (bk_orders b) = dget (bk_orders c) \<Longrightarrow> dget (bk_orders (book_moved rec b)) = dget (bk_orders (book_moved rec c))"
    by (auto simp: book_moved_def fill_book_def bk_accept_def bk_cancel_def intro!: f)
qed

lemma mk_book_map: "dget (bk_orders (mk_book sy m)) = (case book_map m sy of None \<Rightarrow> (\<lambda>_. None) | Some f \<Rightarrow> f)"
  by (auto simp: mk_book_def book_map_def split: option.split)

lemma market_next_sel:
  assumes "market_ok m"
  shows "mk_last_seq (market_next sid rec m) = sid" "records_applied (market_next sid rec m) = records_applied m + 1"
    "tape_total (mk_tape (market_next sid rec m)) = tape_total (mk_tape m) + (if is_Fill rec then 1 else 0)"
    "mk_bar_widths (market_next sid rec m) = mk_bar_widths m"
  by (rule market_apply_sel [OF assms, of rec "Some sid"], simp add: market_next_def)+

lemma same_market_step:
  assumes "fanout_ok widths m" "fanout_ok widths t" "same_market m t"
  shows "same_market (market_step e m) (market_step e t)"
proof -
  have ok: "market_ok m" "market_ok t" and w: "mk_bar_widths m = mk_bar_widths t"
    using assms by (simp_all add: fanout_ok_def)
  have "dget (bk_orders (mk_book sy m)) = dget (bk_orders (mk_book sy t))" for sy
    using assms(3) by (simp add: mk_book_map same_market_def)
  from dget_book_moved [OF this, where rec = "snd e"]
  have "book_map (market_step e m) = book_map (market_step e t)"
    using assms(3) by (simp add: fun_eq_iff market_step_def book_map_next [OF ok(1)] book_map_next [OF ok(2)] same_market_def)
  moreover have "current_bar (market_step e m) = current_bar (market_step e t)"
    using assms(3) w by (auto simp: fun_eq_iff market_step_def current_bar_next [OF ok(1)] current_bar_next [OF ok(2)] same_market_def)
  ultimately show ?thesis
    using assms(3) by (simp add: same_market_def market_step_def market_next_sel [OF ok(1)] market_next_sel [OF ok(2)])
qed

subsection \<open>The rows of the open bars\<close>

lemma map_filter_keys: "map fst (List.map_filter (\<lambda>(w, v). map_option (\<lambda>b. (w, g b)) (h v)) d) = map fst (filter (\<lambda>(w, v). h v \<noteq> None) d)"
  by (induction d) (auto simp: List.map_filter_simps split: option.split)

lemma set_open_bar_rows:
  assumes ok: "market_ok m"
  shows "(sy, w, vs) \<in> set (open_bar_rows m) \<longleftrightarrow> (\<exists>b. current_bar m sy w = Some b \<and> vs = bar_values b)"
proof -
  have wf: "wf_dict (mk_bars m)" using ok by (simp add: market_ok_def)
  have wfb: "wf_dict (bs_builders bs)" if "dget (mk_bars m) s = Some bs" for s bs
    using ok that by (auto simp: market_ok_def bar_set_ok_def)
  have "(sy, w, vs) \<in> set (open_bar_rows m) \<longleftrightarrow>
      (\<exists>bs bb b. (sy, bs) \<in> set (mk_bars m) \<and> (w, bb) \<in> set (bs_builders bs) \<and> bb_current bb = Some b \<and> vs = bar_values b)"
    by (force simp: open_bar_rows_def set_map_filter)
  also have "\<dots> \<longleftrightarrow> (\<exists>bs bb b. dget (mk_bars m) sy = Some bs \<and> dget (bs_builders bs) w = Some bb \<and>
      bb_current bb = Some b \<and> vs = bar_values b)"
    using dget_in_set [OF wfb] dget_in_set [OF wf] by metis
  also have "\<dots> \<longleftrightarrow> (\<exists>b. current_bar m sy w = Some b \<and> vs = bar_values b)"
    by (auto simp: current_bar_def split: option.split)
  finally show ?thesis .
qed

abbreviation row_key :: "int \<times> int \<times> int list \<Rightarrow> int \<times> int" where
  "row_key r \<equiv> (fst r, fst (snd r))"

lemma distinct_open_bar_rows:
  assumes ok: "market_ok m"
  shows "distinct (map row_key (open_bar_rows m))"
proof -
  let ?in = "\<lambda>sy bs. List.map_filter (\<lambda>(w, bb). map_option (\<lambda>b. (sy, w, bar_values b)) (bb_current bb)) (bs_builders bs)"
  have inner: "map row_key (?in sy bs) = map (Pair sy) (map fst (filter (\<lambda>(w, bb). bb_current bb \<noteq> None) (bs_builders bs)))" for sy bs
    by (induction "bs_builders bs" arbitrary: bs rule: list.induct)
       (auto simp: List.map_filter_def comp_def case_prod_unfold)
  have "distinct (map row_key (concat (map (\<lambda>(sy, bs). ?in sy bs) d))) \<and>
      fst ` set (concat (map (\<lambda>(sy, bs). ?in sy bs) d)) \<subseteq> fst ` set d"
    if "distinct (map fst d)" "\<And>sy bs. (sy, bs) \<in> set d \<Longrightarrow> wf_dict (bs_builders bs)" for d
    using that
  proof (induction d)
    case (Cons p d)
    obtain sy bs where p: "p = (sy, bs)" by (cases p)
    have dd: "distinct (map fst d)" and wd: "\<And>sy bs. (sy, bs) \<in> set d \<Longrightarrow> wf_dict (bs_builders bs)"
      using Cons.prems(1) Cons.prems(2) by (simp, meson list.set_intros(2))
    have IH: "distinct (map row_key (concat (map (\<lambda>(sy, bs). ?in sy bs) d)))"
      "fst ` set (concat (map (\<lambda>(sy, bs). ?in sy bs) d)) \<subseteq> fst ` set d"
      using Cons.IH [OF dd] wd by blast+
    have "distinct (map fst (filter (\<lambda>(w, bb). bb_current bb \<noteq> None) (bs_builders bs)))"
      using Cons.prems(2) [of sy bs] p unfolding wf_dict_def by (intro distinct_map_filter) simp
    then have d1: "distinct (map row_key (?in sy bs))"
      unfolding inner by (subst distinct_map) (blast intro: inj_onI)
    have f1: "fst ` set (?in sy bs) \<subseteq> {sy}" by (auto simp: set_map_filter)
    have new: "sy \<notin> fst ` set d" using Cons.prems(1) p by simp
    define L where "L = concat (map (\<lambda>(sy, bs). ?in sy bs) d)"
    have "set (map row_key (?in sy bs)) \<inter> set (map row_key L) = {}"
    proof -
      have "fst k = sy" if "k \<in> set (map row_key (?in sy bs))" for k using that f1 by auto
      moreover have "fst k \<in> fst ` set d" if "k \<in> set (map row_key L)" for k
      proof -
        from that have "fst k \<in> fst ` set L" by force
        then show ?thesis using IH(2) [folded L_def] by blast
      qed
      ultimately show ?thesis using new by blast
    qed
    moreover have "fst ` set (?in sy bs @ L) \<subseteq> insert sy (fst ` set d)" using f1 IH(2) [folded L_def] by auto
    ultimately show ?case using d1 IH(1) by (simp add: p L_def [symmetric])
  qed simp
  moreover have wf: "wf_dict (mk_bars m)" using ok by (simp add: market_ok_def)
  moreover have "wf_dict (bs_builders bs)" if "(sy, bs) \<in> set (mk_bars m)" for sy bs
    using ok that unfolding dget_in_set [OF wf, symmetric] by (auto simp: market_ok_def bar_set_ok_def)
  ultimately have "distinct (map row_key (concat (map (\<lambda>(sy, bs). ?in sy bs) (mk_bars m))))"
    unfolding wf_dict_def by blast
  then show ?thesis unfolding open_bar_rows_def .
qed


subsection \<open>Dump\<close>

lemma sort_eqI: "mset xs = mset ys \<Longrightarrow> sort xs = sort ys"
  by (rule properties_for_sort) simp_all

lemma bk_resting_cong:
  assumes "book_ok b" "book_ok c" "dget (bk_orders b) = dget (bk_orders c)"
  shows "bk_resting b = bk_resting c"
proof -
  have "mset (bk_orders b) = mset (bk_orders c)" using assms by (intro mset_dict_eq) (auto simp: book_ok_def)
  then have "mset (map f (dvalues (bk_orders b))) = mset (map f (dvalues (bk_orders c)))" for f
    by (metis mset_map)
  then show ?thesis unfolding bk_resting_def by (intro sort_eqI)
qed

lemma market_dump_same:
  assumes "fanout_ok widths m" "fanout_ok widths t" "same_market m t"
  shows "market_dump m = market_dump t"
proof -
  have ok: "market_ok m" "market_ok t" using assms by (simp_all add: fanout_ok_def)
  have wf: "wf_dict (mk_books m)" "wf_dict (mk_books t)" using ok by (simp_all add: market_ok_def)
  have bok: "book_ok b" if "dget (mk_books m) sy = Some b \<or> dget (mk_books t) sy = Some b" for sy b
    using ok that by (auto simp: market_ok_def)
  have "dget (map (\<lambda>(sy, b). (sy, bk_resting b)) (mk_books m)) = dget (map (\<lambda>(sy, b). (sy, bk_resting b)) (mk_books t))"
  proof (rule ext)
    fix sy
    have "book_map m sy = book_map t sy" using assms(3) by (simp add: same_market_def)
    then show "dget (map (\<lambda>(sy, b). (sy, bk_resting b)) (mk_books m)) sy = dget (map (\<lambda>(sy, b). (sy, bk_resting b)) (mk_books t)) sy"
      unfolding dget_map_values book_map_def using bok
      by (cases "dget (mk_books m) sy"; cases "dget (mk_books t) sy") (auto intro!: bk_resting_cong)
  qed
  then have "mset (map (\<lambda>(sy, b). (sy, bk_resting b)) (mk_books m)) = mset (map (\<lambda>(sy, b). (sy, bk_resting b)) (mk_books t))"
    by (intro mset_dict_eq) (simp_all add: wf)
  from sort_eqI [OF this]
  have books: "sort (map (\<lambda>(sy, b). (sy, bk_resting b)) (mk_books m)) = sort (map (\<lambda>(sy, b). (sy, bk_resting b)) (mk_books t))" .
  have d: "distinct (open_bar_rows m)" "distinct (open_bar_rows t)"
    using distinct_open_bar_rows [OF ok(1)] distinct_open_bar_rows [OF ok(2)] by (auto dest: distinct_map [THEN iffD1])
  have "set (open_bar_rows m) = set (open_bar_rows t)"
    using assms(3) by (auto simp: set_open_bar_rows [OF ok(1)] set_open_bar_rows [OF ok(2)] same_market_def)
  then have "sort (open_bar_rows m) = sort (open_bar_rows t)"
    using d by (intro sort_eqI) (metis set_eq_iff_mset_eq_distinct)
  then show ?thesis
    using assms(3) unfolding market_dump_def market_json_def books by (simp add: same_market_def)
qed

subsection \<open>Load\<close>

definition order_of :: "int \<times> int \<times> int \<times> int \<Rightarrow> resting_order" where
  "order_of = (\<lambda>(i, sd, px, q). \<lparr> ro_order_id = i, ro_side = sd, ro_price_ticks = px, ro_remaining_qty = q \<rparr>)"

lemma order_of_row: "order_of (ro_order_id ord, ro_side ord, ro_price_ticks ord, ro_remaining_qty ord) = ord"
  by (simp add: order_of_def)

lemma resting_of_jrow: "resting_of ((\<lambda>(i, sd, px, q). jrow [i, sd, px, q]) r) = Inr (order_of r)"
  by (cases r) (simp add: resting_of_def jrow_def jlist_def jint_def order_of_def)

definition book_json :: "int \<times> (int \<times> int \<times> int \<times> int) list \<Rightarrow> json" where
  "book_json = (\<lambda>(sy, rows). JList [JInt sy, JList (map (\<lambda>(i, sd, px, q). jrow [i, sd, px, q]) rows)])"

lemma book_row_of_json: "book_row_of (book_json p) = Inr (fst p, map order_of (snd p))"
  using each_map [of "snd p" resting_of "\<lambda>(i, sd, px, q). jrow [i, sd, px, q]" order_of] resting_of_jrow
  by (cases p) (simp add: book_row_of_def book_json_def jlist_def jint_def)

lemma bar_row_of_json: "bar_row_of ((\<lambda>(sy, w, vs). JList [JInt sy, JInt w, jrow vs]) r) = Inr r"
  using each_map [of "snd (snd r)" jint JInt "\<lambda>x. x"]
  by (cases r) (simp add: bar_row_of_def jlist_def jrow_def jint_def)

lemma load_book_orders:
  assumes "book_ok b"
  defines "os \<equiv> map order_of (bk_resting b)"
  defines "d \<equiv> fold (\<lambda>ord. dset (ro_order_id ord) ord) os []"
  shows "book_ok \<lparr> bk_symbol_id = sy, bk_orders = d \<rparr>" "dget d = dget (bk_orders b)"
proof -
  have wf: "wf_dict (bk_orders b)" using assms(1) by (simp add: book_ok_def)
  have key: "ro_order_id (snd p) = fst p" if "p \<in> set (bk_orders b)" for p
    using assms(1) that dget_in_set [OF wf, of "fst p" "snd p"] by (simp add: book_ok_def)
  let ?kv = "map (\<lambda>ord. (ro_order_id ord, ord)) os"
  have "mset os = mset (dvalues (bk_orders b))"
    unfolding os_def bk_resting_def mset_map mset_sort by (simp add: multiset.map_comp comp_def order_of_row)
  then have "mset ?kv = mset (map (\<lambda>ord. (ro_order_id ord, ord)) (dvalues (bk_orders b)))" by (metis mset_map)
  also have "map (\<lambda>ord. (ro_order_id ord, ord)) (dvalues (bk_orders b)) = bk_orders b"
  proof -
    have "map (\<lambda>p. (ro_order_id (snd p), snd p)) (bk_orders b) = map (\<lambda>p. p) (bk_orders b)"
      by (rule map_cong [OF refl]) (simp add: key)
    then show ?thesis by (simp add: comp_def)
  qed
  finally have eq: "mset ?kv = mset (bk_orders b)" .
  note kv = dget_eq_mset [OF wf eq]
  have "d = dict_of ?kv" by (simp add: d_def dict_of_def fold_map comp_def)
  then have d: "d = ?kv" using dict_of_distinct [of ?kv] kv(1) unfolding wf_dict_def by (simp only:)
  show e: "dget d = dget (bk_orders b)" using kv(2) d by simp
  show "book_ok \<lparr> bk_symbol_id = sy, bk_orders = d \<rparr>"
    using kv(1) assms(1) e by (simp add: book_ok_def d [symmetric])
qed

lemma fold_load_book:
  "distinct (map fst d @ map fst kvs) \<Longrightarrow> fold load_book kvs d = d @ map (\<lambda>(sy, os).
     (sy, \<lparr> bk_symbol_id = sy, bk_orders = fold (\<lambda>ord. dset (ro_order_id ord) ord) os [] \<rparr>)) kvs"
proof (induction kvs arbitrary: d)
  case (Cons p kvs)
  obtain sy os where p: "p = (sy, os)" by (cases p)
  have new: "sy \<notin> set (dkeys d)" using Cons.prems by (simp add: p)
  let ?b = "\<lparr> bk_symbol_id = sy, bk_orders = fold (\<lambda>ord. dset (ro_order_id ord) ord) os [] \<rparr>"
  have "load_book p d = d @ [(sy, ?b)]"
    using new dset_fresh [OF new] by (simp add: load_book_def p dget_None_iff [THEN iffD2] del: set_map)
  then show ?case using Cons.IH [of "d @ [(sy, ?b)]"] Cons.prems by (simp add: p)
qed simp

definition bar_of_values :: "int \<Rightarrow> int \<Rightarrow> int list \<Rightarrow> bar" where
  "bar_of_values sy w vs =
     \<lparr> bar_symbol_id = sy, bar_bucket_seconds = w, bar_open_ns = vs ! 0, open_ticks = vs ! 1, high_ticks = vs ! 2,
       low_ticks = vs ! 3, close_ticks = vs ! 4, volume = vs ! 5 \<rparr>"

lemma six: "length vs = 6 \<Longrightarrow> \<exists>a b c d e f. vs = [a, b, c, d, e, f]"
  by (auto simp: numeral_eq_Suc length_Suc_conv)

lemma load_bar_ok:
  assumes ok: "market_ok m" and w: "w \<in> set (mk_bar_widths m)" and vs: "length vs = 6"
  shows "\<exists>m'. load_bar (sy, w, vs) m = Inr m' \<and> market_ok m' \<and>
    (\<forall>s v. current_bar m' s v = (if s = sy \<and> v = w then Some (bar_of_values sy w vs) else current_bar m s v)) \<and>
    m'\<lparr>mk_bars := []\<rparr> = m\<lparr>mk_bars := []\<rparr>"
proof -
  let ?bs = "the_bar_set sy m"
  obtain bb where bb: "dget (bs_builders ?bs) w = Some bb" "builder_ok sy w bb" using builder_current [OF ok w] by blast
  obtain a b c d e f where v: "vs = [a, b, c, d, e, f]" using six [OF vs] by blast
  define bs' where "bs' = ?bs\<lparr>bs_builders := dset w (bb\<lparr>bb_current := Some (bar_of_values sy w vs)\<rparr>) (bs_builders ?bs)\<rparr>"
  define m' where "m' = m\<lparr>mk_bars := dset sy bs' (mk_bars m)\<rparr>"
  have load: "load_bar (sy, w, vs) m = Inr m'"
    using bb(1) by (simp add: load_bar_def mk_bar_set_is [OF ok] v m'_def bs'_def bar_of_values_def)
  have bok: "bar_set_ok sy (mk_bar_widths m) ?bs" by (rule the_bar_set_ok [OF ok])
  have keys: "set (dkeys (bs_builders bs')) = set (mk_bar_widths m)"
    using bok w unfolding bs'_def bar_set_ok_def by (simp del: set_map) (simp add: insert_absorb)
  have "bar_set_ok sy (mk_bar_widths m) bs'"
    unfolding bar_set_ok_def keys using bok bb(2)
    by (auto simp: bs'_def bar_set_ok_def builder_ok_def bar_of_values_def)
  then have "market_ok m'" using ok by (auto simp: m'_def market_ok_def)
  moreover have "current_bar m' s v = (if s = sy \<and> v = w then Some (bar_of_values sy w vs) else current_bar m s v)" for s v
  proof (cases "s = sy \<and> v \<noteq> w")
    case True
    then have "current_bar m' s v = (case dget (bs_builders ?bs) v of None \<Rightarrow> None | Some bb \<Rightarrow> bb_current bb)"
      by (simp add: current_bar_def m'_def bs'_def)
    also have "\<dots> = current_bar m s v"
      using True by (auto simp: current_bar_def the_bar_set_def dget_fresh fresh_builder_def split: option.split)
    finally show ?thesis using True by simp
  next
    case False
    then show ?thesis by (auto simp: current_bar_def m'_def bs'_def)
  qed
  ultimately show ?thesis using load by (intro exI [of _ m']) (simp add: m'_def)
qed


lemma load_bars_ok:
  assumes "market_ok m" "distinct (map row_key rs)"
    "\<And>sy w vs. (sy, w, vs) \<in> set rs \<Longrightarrow> w \<in> set (mk_bar_widths m) \<and> length vs = 6"
  shows "\<exists>m'. load_bars rs m = Inr m' \<and> market_ok m' \<and>
    (\<forall>s v. current_bar m' s v = (case map_of (map (\<lambda>r. (row_key r, snd (snd r))) rs) (s, v) of
       None \<Rightarrow> current_bar m s v | Some vs \<Rightarrow> Some (bar_of_values s v vs))) \<and>
    m'\<lparr>mk_bars := []\<rparr> = m\<lparr>mk_bars := []\<rparr>"
  using assms
proof (induction rs arbitrary: m)
  case (Cons r rs)
  obtain sy w vs where r: "r = (sy, w, vs)" by (cases r)
  have wv: "w \<in> set (mk_bar_widths m)" "length vs = 6" using Cons.prems(3) [of sy w vs] r by simp_all
  obtain m1 where m1: "load_bar (sy, w, vs) m = Inr m1" "market_ok m1"
    "\<And>s v. current_bar m1 s v = (if s = sy \<and> v = w then Some (bar_of_values sy w vs) else current_bar m s v)"
    "m1\<lparr>mk_bars := []\<rparr> = m\<lparr>mk_bars := []\<rparr>"
    using load_bar_ok [OF Cons.prems(1) wv] by blast
  have "mk_bar_widths m1 = mk_bar_widths (m1\<lparr>mk_bars := []\<rparr>)" by simp
  then have widths: "mk_bar_widths m1 = mk_bar_widths m" unfolding m1(4) by simp
  have d: "distinct (map row_key rs)" "(sy, w) \<notin> set (map row_key rs)" using Cons.prems(2) r by simp_all
  have ok: "w' \<in> set (mk_bar_widths m1) \<and> length vs' = 6" if "(sy', w', vs') \<in> set rs" for sy' w' vs'
    using Cons.prems(3) [of sy' w' vs'] that widths by simp
  obtain m' where m': "load_bars rs m1 = Inr m'" "market_ok m'"
    "\<And>s v. current_bar m' s v = (case map_of (map (\<lambda>r. (row_key r, snd (snd r))) rs) (s, v) of
       None \<Rightarrow> current_bar m1 s v | Some vs \<Rightarrow> Some (bar_of_values s v vs))"
    "m'\<lparr>mk_bars := []\<rparr> = m1\<lparr>mk_bars := []\<rparr>"
    using Cons.IH [OF m1(2) d(1)] ok by blast
  have "map_of (map (\<lambda>r. (row_key r, snd (snd r))) rs) (sy, w) = None"
    using d(2) by (simp add: map_of_eq_None_iff image_image)
  then have "current_bar m' s v = (case map_of (map (\<lambda>r. (row_key r, snd (snd r))) (r # rs)) (s, v) of
       None \<Rightarrow> current_bar m s v | Some vs \<Rightarrow> Some (bar_of_values s v vs))" for s v
    by (auto simp: m'(3) m1(3) r split: option.split)
  then show ?case using m1 m' by (auto simp: r)
qed (simp add: current_bar_def)

lemma bar_of_bar_values:
  assumes "market_ok m" "current_bar m sy w = Some b"
  shows "bar_of_values sy w (bar_values b) = b" "w \<in> set (mk_bar_widths m)"
proof -
  obtain bs bb where d: "dget (mk_bars m) sy = Some bs" "dget (bs_builders bs) w = Some bb" "bb_current bb = Some b"
    using assms(2) by (auto simp: current_bar_def split: option.splits)
  then have bok: "bar_set_ok sy (mk_bar_widths m) bs" using assms(1) by (simp add: market_ok_def)
  then have "builder_ok sy w bb" using d(2) by (auto simp: bar_set_ok_def)
  then show "bar_of_values sy w (bar_values b) = b" using d(3)
    by (auto simp: builder_ok_def bar_of_values_def bar_values_def numeral_eq_Suc)
  show "w \<in> set (mk_bar_widths m)" using bok dget_Some_key [OF d(2)] unfolding bar_set_ok_def by blast
qed

lemma wf_json_map: "(\<And>x. x \<in> set xs \<Longrightarrow> wf_json (f x)) \<Longrightarrow> wf_json (JList (map f xs))"
  by auto

lemma wf_market_json: "wf_json (market_json m)"
  unfolding market_json_def by (auto split: prod.splits)

lemma market_load_dump:
  assumes "fanout_ok widths m" "market_ok m0" "mk_bar_widths m0 = widths"
  shows "\<exists>t. market_load (market_dump m) m0 = Inr t \<and> fanout_ok widths t \<and> same_market t m"
proof -
  have ok: "market_ok m" and w: "mk_bar_widths m = widths" using assms by (simp_all add: fanout_ok_def)
  have wf: "wf_dict (mk_books m)" using ok by (simp add: market_ok_def)
  define rows where "rows = sort (map (\<lambda>(sy, b). (sy, bk_resting b)) (mk_books m))"
  define bars where "bars = sort (open_bar_rows m)"
  have rows_map: "wf_dict rows" "dget rows = dget (map (\<lambda>(sy, b). (sy, bk_resting b)) (mk_books m))"
    using dget_eq_mset [of "map (\<lambda>(sy, b). (sy, bk_resting b)) (mk_books m)" rows] wf by (simp_all add: rows_def)
  define kvs where "kvs = map (\<lambda>p. (fst p, map order_of (snd p))) rows"
  have e_rows: "each book_row_of (map book_json rows) = Inr kvs"
    unfolding kvs_def by (rule each_map) (rule book_row_of_json)
  have e_bars: "each bar_row_of (map (\<lambda>(sy, w, vs). JList [JInt sy, JInt w, jrow vs]) bars) = Inr bars"
    using each_map [of bars bar_row_of _ "\<lambda>x. x"] bar_row_of_json by simp
  define books where "books = fold load_book kvs []"
  define mkb where "mkb = (\<lambda>sy os. \<lparr> bk_symbol_id = sy, bk_orders = fold (\<lambda>ord. dset (ro_order_id ord) ord) os [] \<rparr>)"
  have "distinct (map fst kvs)" using rows_map(1) by (simp add: kvs_def wf_dict_def comp_def)
  then have books: "books = map (\<lambda>(sy, os). (sy, mkb sy os)) kvs"
    unfolding books_def mkb_def using fold_load_book [of "[]" kvs] by simp
  then have books2: "books = map (\<lambda>(sy, r). (sy, mkb sy (map order_of r))) rows"
    by (simp add: kvs_def case_prod_unfold)
  have dmap: "dget (map (\<lambda>(k, v). (k, f k v)) d) k = map_option (f k) (dget d k)" for f k and d :: "(int \<times> 'c) list"
    by (induction d) auto
  have bget: "dget books sy = map_option (\<lambda>b. mkb sy (map order_of (bk_resting b))) (dget (mk_books m) sy)" for sy
    unfolding books2 dmap rows_map(2) dget_map_values by (simp add: option.map_comp comp_def)
  have bwf: "wf_dict books" using rows_map(1) unfolding books2 wf_dict_def by (simp add: comp_def case_prod_unfold)
  have bok: "book_ok b" if "dget (mk_books m) sy = Some b" for sy b using ok that by (auto simp: market_ok_def)
  define m1 where "m1 = m0\<lparr>mk_last_seq := mk_last_seq m, records_applied := records_applied m,
      mk_tape := (mk_tape m0)\<lparr>tape_total := tape_total (mk_tape m)\<rparr>, mk_books := books, mk_bars := []\<rparr>"
  have ok1: "market_ok m1"
    using assms(2) bwf load_book_orders(1) bok by (auto simp: market_ok_def m1_def bget mkb_def)
  have row6: "w' \<in> set (mk_bar_widths m1) \<and> length vs' = 6" if r: "(sy', w', vs') \<in> set bars" for sy' w' vs'
  proof -
    obtain b where "current_bar m sy' w' = Some b" "vs' = bar_values b"
      using r by (auto simp: bars_def set_open_bar_rows [OF ok])
    then show ?thesis using bar_of_bar_values(2) [OF ok] w assms(3) by (auto simp: m1_def bar_values_def)
  qed
  have dk: "distinct (map row_key bars)"
  proof -
    have "mset (map row_key bars) = mset (map row_key (open_bar_rows m))" by (simp add: bars_def)
    from mset_eq_imp_distinct_iff [OF this] show ?thesis using distinct_open_bar_rows [OF ok] by blast
  qed
  obtain t0 where t0: "load_bars bars m1 = Inr t0" "market_ok t0"
    "\<And>s v. current_bar t0 s v = (case map_of (map (\<lambda>r. (row_key r, snd (snd r))) bars) (s, v) of
       None \<Rightarrow> current_bar m1 s v | Some vs \<Rightarrow> Some (bar_of_values s v vs))"
    "t0\<lparr>mk_bars := []\<rparr> = m1\<lparr>mk_bars := []\<rparr>"
    using load_bars_ok [OF ok1 dk] row6 by blast
  define t where "t = t0\<lparr>mk_dirty := set (dkeys (mk_books t0))\<rparr>"
  have load: "market_load (market_dump m) m0 = Inr t"
  proof -
    have j: "market_json m = JObj
     [(''last_seq'', JStr (mk_last_seq m)), (''records_applied'', JInt (records_applied m)),
      (''trades'', JInt (tape_total (mk_tape m))), (''books'', JList (map book_json rows)),
      (''bars'', JList (map (\<lambda>(sy, w, vs). JList [JInt sy, JInt w, jrow vs]) bars))]"
      by (simp add: market_json_def rows_def bars_def book_json_def [abs_def])
    show ?thesis
      unfolding market_load_def market_dump_def json_loads_dumps [OF wf_market_json]
      by (simp add: j jlist_def jstr_def jint_def e_rows e_bars books_def [symmetric] m1_def [symmetric] t0(1) t_def)
  qed
  have sel: "f (t0\<lparr>mk_bars := []\<rparr>) = f (m1\<lparr>mk_bars := []\<rparr>)" for f :: "market \<Rightarrow> 'c" by (simp add: t0(4))
  have s: "mk_bar_widths t0 = widths" "mk_last_seq t0 = mk_last_seq m" "records_applied t0 = records_applied m"
    "mk_tape t0 = mk_tape m1" "mk_books t0 = books"
    using sel [of mk_bar_widths] sel [of mk_last_seq] sel [of records_applied] sel [of mk_tape] sel [of mk_books]
    by (simp_all add: m1_def assms(3))
  have "current_bar t0 sy v = current_bar m sy v" for sy v
  proof (cases "current_bar m sy v")
    case None
    then have "map_of (map (\<lambda>r. (row_key r, snd (snd r))) bars) (sy, v) = None"
      by (force simp: map_of_eq_None_iff bars_def set_open_bar_rows [OF ok])
    then show ?thesis using None by (simp add: t0(3)) (simp add: current_bar_def m1_def)
  next
    case (Some b)
    then have "(sy, v, bar_values b) \<in> set bars" by (simp add: bars_def set_open_bar_rows [OF ok])
    moreover have "distinct (map fst (map (\<lambda>r. (row_key r, snd (snd r))) bars))" using dk by (simp add: comp_def)
    ultimately have "map_of (map (\<lambda>r. (row_key r, snd (snd r))) bars) (sy, v) = Some (bar_values b)"
      by (intro map_of_is_SomeI) force+
    then show ?thesis using Some bar_of_bar_values(1) [OF ok Some] by (simp add: t0(3))
  qed
  then have cur: "current_bar t = current_bar m" by (simp add: t_def fun_eq_iff) (simp add: current_bar_def)
  have "book_map t = book_map m"
  proof (rule ext)
    show "book_map t sy = book_map m sy" for sy
      using load_book_orders(2) [OF bok, of sy]
      by (cases "dget (mk_books m) sy") (simp_all add: book_map_def t_def s bget mkb_def)
  qed
  moreover have "market_ok t" using t0(2) by (simp add: t_def market_ok_def)
  ultimately show ?thesis using load cur
    by (intro exI [of _ t]) (simp add: fanout_ok_def same_market_def t_def s, simp add: m1_def)
qed


interpretation fo: checkpointed market_step market_dump "\<lambda>s. market_load s (new_market widths)" "fanout_ok widths" same_market
  for widths
proof
  show "fanout_ok widths (market_step e m)" if "fanout_ok widths m" for m e
    using that by (simp add: fanout_ok_def market_step_def market_ok_next market_next_sel)
  show "\<exists>t. market_load (market_dump m) (new_market widths) = Inr t \<and> fanout_ok widths t \<and> same_market t m"
    if ok: "fanout_ok widths m" for m
  proof (rule market_load_dump [OF ok])
    have "list_all (\<lambda>w. 1 \<le> w) widths" using ok unfolding fanout_ok_def market_ok_def by blast
    then show "market_ok (new_market widths)" by (rule market_ok_new)
  qed (simp add: new_market_def)
qed (rule same_market_step market_dump_same; assumption)+

interpretation fl: replay_loop fanout_replay "fold market_step" "\<lambda>p n m. Inr (m, n)" market_ok
proof
  have step: "market_step = (\<lambda>(i, r). market_next i r)" by (simp add: fun_eq_iff market_step_def)
  show "fanout_replay read p n m = (if read p = [] then Some (Inr (m, n))
      else fanout_replay read (fst (last (read p))) (n + int (length (read p))) (fold market_step (read p) m))"
    if "market_ok m" for read p n m
    by (subst fanout_replay.simps) (simp add: Let_def market_run_next [OF that] step)
  show "market_ok (fold market_step es m)" if "market_ok m" for es m
    using that by (induction es arbitrary: m) (simp_all add: market_step_def market_ok_next)
qed simp_all

lemma market_seen: "market_ok m \<Longrightarrow> mk_last_seq (fold market_step es m) = (if es = [] then mk_last_seq m else fst (last es))"
  by (induction es arbitrary: m) (simp_all add: market_step_def market_next_sel market_ok_next)

subsection \<open>Properties\<close>

text \<open>C34. A restarted fan-out is the one that never stopped: recovery from the checkpoint taken after
  any part of the stream loads it, ends, and having read the rest dumps the bytes a process
  would dump that had read everything.\<close>

theorem fanout_resumes:
  assumes "list_all (\<lambda>w. 1 \<le> w) widths" "m = fold market_step before (new_market widths)"
    "reads_on read (mk_last_seq m) tail"
  shows "\<exists>t. fanout_recover (Some (market_dump m, mk_last_seq m)) read (new_market widths) = Some (Inr (t, int (length tail))) \<and>
    market_dump t = market_dump (fold market_step (before @ tail) (new_market widths))"
proof -
  have ok0: "fanout_ok widths (new_market widths)" using market_ok_new [OF assms(1)] by (simp add: fanout_ok_def new_market_def)
  have ok: "fanout_ok widths m" unfolding assms(2) by (rule fo.run_ok [OF ok0])
  obtain t0 where t0: "market_load (market_dump m) (new_market widths) = Inr t0" using fo.load_dump [OF ok] by blast
  then have t0': "fanout_ok widths t0" "same_market t0 m" using fo.load_again [OF ok t0] by blast+
  have pos: "t0\<lparr>mk_last_seq := mk_last_seq m\<rparr> = t0" using t0'(2) by (simp add: same_market_def)
  have mok: "market_ok t0" using t0'(1) by (simp add: fanout_ok_def)
  have "mk_last_seq t0 = mk_last_seq m" using t0'(2) by (simp add: same_market_def)
  then have "fanout_replay read (mk_last_seq t0) 0 t0 = Some (Inr (fold market_step tail t0, int (length tail)))"
    using fl.loop_from_start [OF _ mok, of read "mk_last_seq t0" tail 0] assms(3) by simp
  then have "fanout_recover (Some (market_dump m, mk_last_seq m)) read (new_market widths) =
      Some (Inr (fold market_step tail t0, int (length tail)))"
    by (simp add: fanout_recover_def t0 pos)
  moreover have "market_dump (fold market_step tail t0) = market_dump (fold market_step tail m)"
    by (rule fo.dump_same [where widths = widths]) (rule fo.run_ok fo.run_same; fact t0' ok)+
  ultimately show ?thesis by (simp add: assms(2))
qed

theorem fanout_resumes_witness:
  "\<exists>t. fanout_recover (Some (market_dump (new_market [1, 60]), ''0-0''))
       (entries_after ''0-0'' 1 [(''1-0'', OrderAccepted_new 9 1 11 42 50000 3 1 2 1), (''2-0'', OrderCancelled_new 9 1 11 42 3 1 1)])
       (new_market [1, 60]) = Some (Inr (t, 2)) \<and>
    market_dump t = market_dump (fold market_step
      [(''1-0'', OrderAccepted_new 9 1 11 42 50000 3 1 2 1), (''2-0'', OrderCancelled_new 9 1 11 42 3 1 1)] (new_market [1, 60]))"
proof -
  let ?log = "[(''1-0'', OrderAccepted_new 9 1 11 42 50000 3 1 2 1), (''2-0'', OrderCancelled_new 9 1 11 42 3 1 1)]"
  have r: "reads_on (entries_after ''0-0'' 1 ?log) (mk_last_seq (new_market [1, 60])) ?log"
    using entries_after_reads_on [of "''0-0''" ?log 1] by (simp add: new_market_def)
  from fanout_resumes [of "[1, 60]" "new_market [1, 60]" "[]", OF _ _ r]
  show ?thesis by (simp add: new_market_def)
qed

end
