(* ===== verification/Settings.thy ===== *)
theory Settings
  imports Json
begin

section \<open>The listed symbols: config/settings.py\<close>

text \<open>
  The configuration file is TOML; its parsed tables are \<open>json\<close> values here (no field of the
  parts modelled is a float). \<open>_require\<close> and \<open>_symbols\<close> are modelled; a symbol whose fields are
  of another type than the class declares is outside the model and raises \<open>TypeError\<close>.
\<close>

record symbol =
  sm_symbol_id :: int
  sm_name :: string
  sm_tick_size_ticks :: int
  sm_lot_size :: int

definition require :: "json \<Rightarrow> string \<Rightarrow> string \<Rightarrow> exn + json" where
  "require table sect key =
     (case sbind (jget sect table) (jget key) of Inl KeyError \<Rightarrow> Inl ConfigError | r \<Rightarrow> r)"

definition symbol_of :: "json \<Rightarrow> exn + symbol" where
  "symbol_of entry =
     (case entry of
        JObj kvs \<Rightarrow>
          (case (dget kvs ''symbol_id'', dget kvs ''name'', dget kvs ''tick_size_ticks'', dget kvs ''lot_size'') of
             (Some a, Some b, Some c, Some d) \<Rightarrow>
               sbind (jint a) (\<lambda>a. sbind (jstr b) (\<lambda>b. sbind (jint c) (\<lambda>c. sbind (jint d) (\<lambda>d.
                 Inr \<lparr> sm_symbol_id = a, sm_name = b, sm_tick_size_ticks = c, sm_lot_size = d \<rparr>))))
           | _ \<Rightarrow> Inl ConfigError)
      | _ \<Rightarrow> Inl ConfigError)"

text \<open>The loop, with the ids and names seen so far.\<close>

fun parse_symbols :: "json list \<Rightarrow> int list \<Rightarrow> string list \<Rightarrow> exn + symbol list" where
  "parse_symbols [] ids names = Inr []"
| "parse_symbols (entry # rest) ids names =
     sbind (symbol_of entry) (\<lambda>s.
       if sm_symbol_id s \<in> set ids then Inl ConfigError
       else if sm_name s \<in> set names then Inl ConfigError
       else if \<not> (0 \<le> sm_symbol_id s \<and> sm_symbol_id s \<le> 2 ^ 15 - 1) then Inl ConfigError
       else sbind (parse_symbols rest (sm_symbol_id s # ids) (sm_name s # names)) (\<lambda>ss. Inr (s # ss)))"

definition symbols_of :: "json \<Rightarrow> exn + symbol list" where
  "symbols_of raw = (case raw of JList entries \<Rightarrow> parse_symbols entries [] [] | _ \<Rightarrow> Inl ConfigError)"

definition listed_symbols :: "json \<Rightarrow> exn + symbol list" where
  "listed_symbols table = sbind (require table ''symbols'' ''listed'') symbols_of"

subsection \<open>What is accepted\<close>

definition symbols_ok :: "symbol list \<Rightarrow> bool" where
  "symbols_ok ss \<longleftrightarrow> distinct (map sm_symbol_id ss) \<and> distinct (map sm_name ss) \<and>
     list_all (\<lambda>s. 0 \<le> sm_symbol_id s \<and> sm_symbol_id s \<le> 32767) ss"

lemma sbind_Inr_iff: "sbind r f = Inr y \<longleftrightarrow> (\<exists>x. r = Inr x \<and> f x = Inr y)"
  by (cases r) auto

lemma if_Inl_Inr: "((if b then Inl e else r) = Inr y) = (\<not> b \<and> r = Inr y)"
  by simp

lemma parse_symbols_iff:
  "parse_symbols entries ids names = Inr ss \<longleftrightarrow>
     map symbol_of entries = map Inr ss \<and> symbols_ok ss \<and>
     list_all (\<lambda>s. sm_symbol_id s \<notin> set ids \<and> sm_name s \<notin> set names) ss"
proof (induction entries arbitrary: ids names ss)
  case Nil
  then show ?case by (auto simp: symbols_ok_def)
next
  case (Cons entry rest)
  show ?case
  proof (cases ss)
    case Nil
    then show ?thesis by (auto simp: sbind_Inr_iff if_Inl_Inr)
  next
    case (Cons s ss')
    have step: "parse_symbols (entry # rest) ids names = Inr ss \<longleftrightarrow>
        symbol_of entry = Inr s \<and> sm_symbol_id s \<notin> set ids \<and> sm_name s \<notin> set names \<and>
        0 \<le> sm_symbol_id s \<and> sm_symbol_id s \<le> 32767 \<and>
        parse_symbols rest (sm_symbol_id s # ids) (sm_name s # names) = Inr ss'"
      by (auto simp: Cons sbind_Inr_iff if_Inl_Inr)
    have fresh: "list_all (\<lambda>t. sm_symbol_id t \<notin> set (sm_symbol_id s # ids) \<and> sm_name t \<notin> set (sm_name s # names)) ss' \<longleftrightarrow>
        sm_symbol_id s \<notin> set (map sm_symbol_id ss') \<and> sm_name s \<notin> set (map sm_name ss') \<and>
        list_all (\<lambda>t. sm_symbol_id t \<notin> set ids \<and> sm_name t \<notin> set names) ss'"
      by (induction ss') auto
    show ?thesis
      unfolding step Cons.IH fresh by (simp add: Cons symbols_ok_def) blast
  qed
qed

lemma symbols_of_iff:
  "symbols_of raw = Inr ss \<longleftrightarrow> (\<exists>entries. raw = JList entries \<and> map symbol_of entries = map Inr ss \<and> symbols_ok ss)"
  by (cases raw) (simp_all add: symbols_of_def parse_symbols_iff list_all_iff)


end
