(* ===== verification/Messages.thy ===== *)
theory Messages
  imports Market Settings Halt
begin

section \<open>What a browser is sent: services/fanout/messages.py\<close>

text \<open>
  The builders of the browser's frames, as JSON objects with their keys in the order written, and
  the channel names. \<open>bar_labels_differ\<close> says that bars of different widths go out on different
  channels when the widths are whole simulated minutes.
\<close>

definition SIMULATED_MINUTES_SUFFIX :: "(int, string) dict" where
  "SIMULATED_MINUTES_SUFFIX =
     [(1, ''1m''), (5, ''5m''), (15, ''15m''), (60, ''1h''), (240, ''4h''), (1440, ''1d'')]"

definition width_label :: "int \<Rightarrow> int \<Rightarrow> string" where
  "width_label bucket_seconds real_seconds =
     (let ratio = max 1 real_seconds; minutes = bucket_seconds div ratio
      in if minutes < 1 then str_int bucket_seconds @ ''s''
         else case dget SIMULATED_MINUTES_SUFFIX minutes of
                Some sfx \<Rightarrow> sfx
              | None \<Rightarrow> str_int minutes @ ''m'')"

definition book_channel :: "symbol \<Rightarrow> string \<Rightarrow> string" where
  "book_channel s sfx = ''book:'' @ sm_name s @ '':'' @ sfx"

definition tape_channel :: "symbol \<Rightarrow> string" where
  "tape_channel s = ''tape:'' @ sm_name s"

definition bars_channel :: "symbol \<Rightarrow> int \<Rightarrow> int \<Rightarrow> string" where
  "bars_channel s width ratio = ''bars:'' @ sm_name s @ '':'' @ width_label width ratio"

definition known_channels :: "symbol list \<Rightarrow> int list \<Rightarrow> int \<Rightarrow> string set" where
  "known_channels symbols widths ratio =
     set (concat (map (\<lambda>s. [book_channel s ''l1'', book_channel s ''l2'', tape_channel s] @
            map (\<lambda>w. bars_channel s w ratio) widths) symbols))"

definition or_text :: "json \<Rightarrow> json \<Rightarrow> json" where
  "or_text a b = (if truthy a then a else b)"

definition halted_message :: "json \<Rightarrow> json \<Rightarrow> json" where
  "halted_message why detail = JObj
     [(''ch'', JStr ''error''), (''code'', JStr ''halted''),
      (''detail'', or_text detail (or_text why (JStr ''exchange halted'')))]"

definition resumed_message :: json where
  "resumed_message = JObj
     [(''ch'', JStr ''error''), (''code'', JStr ''resumed''), (''detail'', JStr ''exchange accepting orders'')]"

definition book_l2 :: "symbol \<Rightarrow> mbook \<Rightarrow> int \<Rightarrow> string \<Rightarrow> int \<Rightarrow> json" where
  "book_l2 s b depth sq ts = JObj
     [(''ch'', JStr (book_channel s ''l2'')), (''seq'', JStr sq), (''ts_ns'', JInt ts),
      (''bids'', JList (map jrow (bk_levels Side_BUY depth b))),
      (''asks'', JList (map jrow (bk_levels Side_SELL depth b)))]"

definition best_as_list :: "int list option \<Rightarrow> json" where
  "best_as_list best = (case best of None \<Rightarrow> JList [] | Some lv \<Rightarrow> if lv \<noteq> [] then JList [jrow lv] else JList [])"

definition book_l1 :: "symbol \<Rightarrow> mbook \<Rightarrow> string \<Rightarrow> int \<Rightarrow> json" where
  "book_l1 s b sq ts = JObj
     [(''ch'', JStr (book_channel s ''l1'')), (''seq'', JStr sq), (''ts_ns'', JInt ts),
      (''bids'', best_as_list (bk_best Side_BUY b)), (''asks'', best_as_list (bk_best Side_SELL b))]"

definition tape_print :: "symbol \<Rightarrow> trade \<Rightarrow> json" where
  "tape_print s t = JObj
     [(''ch'', JStr (tape_channel s)), (''seq'', JStr (tr_seq t)), (''ts_ns'', JInt (tr_timestamp_ns t)),
      (''price_ticks'', JInt (tr_price_ticks t)), (''qty'', JInt (tr_qty t)),
      (''aggressor_side'', JInt (tr_aggressor_side t))]"

definition bar_close :: "symbol \<Rightarrow> bar \<Rightarrow> string \<Rightarrow> int \<Rightarrow> json" where
  "bar_close s b sq ratio = JObj
     [(''ch'', JStr (bars_channel s (bar_bucket_seconds b) ratio)), (''seq'', JStr sq),
      (''open_ticks'', JInt (open_ticks b)), (''high_ticks'', JInt (high_ticks b)), (''low_ticks'', JInt (low_ticks b)),
      (''close_ticks'', JInt (close_ticks b)), (''volume'', JInt (volume b)), (''bar_open_ns'', JInt (bar_open_ns b))]"

definition error_message :: "string \<Rightarrow> string \<Rightarrow> json" where
  "error_message code detail = JObj [(''ch'', JStr ''error''), (''code'', JStr code), (''detail'', JStr detail)]"

subsection \<open>A channel for each width\<close>

lemma suffixes: "dget SIMULATED_MINUTES_SUFFIX n = Some s \<Longrightarrow>
    (n = 1 \<and> s = ''1m'') \<or> (n = 5 \<and> s = ''5m'') \<or> (n = 15 \<and> s = ''15m'') \<or> (n = 60 \<and> s = ''1h'') \<or>
    (n = 240 \<and> s = ''4h'') \<or> (n = 1440 \<and> s = ''1d'')"
  by (auto simp: SIMULATED_MINUTES_SUFFIX_def split: if_splits)

definition minutes_label :: "int \<Rightarrow> string" where
  "minutes_label n = (case dget SIMULATED_MINUTES_SUFFIX n of Some sfx \<Rightarrow> sfx | None \<Rightarrow> str_int n @ ''m'')"

lemma str_int_examples: "str_int 1 = ''1''" "str_int 5 = ''5''" "str_int 15 = ''15''"
  by code_simp+

lemma minutes_label_cases:
  "minutes_label n = str_int n @ ''m'' \<or> (n = 60 \<and> minutes_label n = ''1h'') \<or> (n = 240 \<and> minutes_label n = ''4h'') \<or>
    (n = 1440 \<and> minutes_label n = ''1d'')"
  by (cases "dget SIMULATED_MINUTES_SUFFIX n") (auto simp: minutes_label_def str_int_examples dest!: suffixes)

lemma not_minutes [simp]: "str_int n @ ''m'' \<noteq> ''1h''" "str_int n @ ''m'' \<noteq> ''4h''" "str_int n @ ''m'' \<noteq> ''1d''"
  by (rule notI, drule arg_cong [where f = last], simp)+

lemmas not_minutes_sym [simp] = not_minutes [symmetric]

lemma minutes_label_inj: "0 \<le> m \<Longrightarrow> 0 \<le> n \<Longrightarrow> minutes_label m = minutes_label n \<Longrightarrow> m = n"
  using minutes_label_cases [of m] minutes_label_cases [of n] str_int_inj [of m n] by fastforce

lemma minutes_label_last: "last (minutes_label n) \<in> {CHR ''m'', CHR ''h'', CHR ''d''}"
  using minutes_label_cases [of n] by auto

text \<open>Two bar widths of one symbol that are each below one simulated minute or a whole number of them
  never share a channel, whatever the replay ratio.\<close>

theorem bar_labels_differ:
  assumes "1 \<le> v" "1 \<le> w" "v < max 1 ratio \<or> v mod max 1 ratio = 0" "w < max 1 ratio \<or> w mod max 1 ratio = 0"
  shows "(bars_channel s v ratio = bars_channel s w ratio) = (v = w)"
proof -
  define r where "r = max 1 ratio"
  have r: "1 \<le> r" by (simp add: r_def)
  have label: "width_label x ratio = (if x div r < 1 then str_int x @ ''s'' else minutes_label (x div r))" for x
    by (simp add: width_label_def r_def minutes_label_def Let_def)
  have small: "x div r < 1 \<longleftrightarrow> x < r" if "1 \<le> x" for x
    using r pos_imp_zdiv_pos_iff [of r x] by linarith
  have eq: "v = w" if l: "width_label v ratio = width_label w ratio"
  proof (cases "v < r"; cases "w < r")
    assume "v < r" "w < r"
    then have "str_int v = str_int w" using l small assms(1,2) by (simp add: label)
    then show ?thesis using str_int_inj assms(1,2) by simp
  next
    assume "v < r" "\<not> w < r"
    then have "str_int v @ ''s'' = minutes_label (w div r)" using l small assms(1,2) by (simp add: label)
    then have "last (minutes_label (w div r)) = CHR ''s''" by (metis last_snoc)
    then show ?thesis using minutes_label_last [of "w div r"] by simp
  next
    assume "\<not> v < r" "w < r"
    then have "str_int w @ ''s'' = minutes_label (v div r)" using l small assms(1,2) by (simp add: label)
    then have "last (minutes_label (v div r)) = CHR ''s''" by (metis last_snoc)
    then show ?thesis using minutes_label_last [of "v div r"] by simp
  next
    assume big: "\<not> v < r" "\<not> w < r"
    then have "minutes_label (v div r) = minutes_label (w div r)" using l small assms(1,2) by (simp add: label)
    moreover have "0 \<le> v div r" "0 \<le> w div r" using assms(1,2) r by (simp_all add: pos_imp_zdiv_nonneg_iff)
    ultimately have "v div r = w div r" by (intro minutes_label_inj)
    moreover have "v mod r = 0" "w mod r = 0" using assms(3,4) big by (simp_all add: r_def)
    ultimately show ?thesis by (metis mult_div_mod_eq add.right_neutral)
  qed
  then show ?thesis by (auto simp: bars_channel_def)
qed

theorem bar_labels_differ_witness:
  "(bars_channel \<lparr> sm_symbol_id = 1, sm_name = ''QAA'', sm_tick_size_ticks = 100, sm_lot_size = 1 \<rparr> 1 1 =
    bars_channel \<lparr> sm_symbol_id = 1, sm_name = ''QAA'', sm_tick_size_ticks = 100, sm_lot_size = 1 \<rparr> 60 1) = (1 = (60::int))"
  by (rule bar_labels_differ) simp_all

text \<open>Without that the labels collide: at two real seconds to a minute, widths 2 and 3 are both \<open>1m\<close>.\<close>

lemma bar_labels_collide: "width_label 2 2 = width_label 3 2"
  by code_simp

end
