(* ===== verification/Subscribers.thy ===== *)
theory Subscribers
  imports Json
begin

section \<open>Connections: services/fanout/subscribers.py\<close>

text \<open>
  A \<open>Subscriber\<close> is a record; its writer task is a small machine over it, stepping at each
  \<open>await\<close>, so that every interleaving of offers, flushes and socket writes is a list of events.
  \<open>Hub\<close> keeps its subscribers in a store by identity and in the two indexes the loops read.
  Sets are duplicate-free lists, as Python leaves their order open.
\<close>

subsection \<open>One connection\<close>

definition PRIVATE_BUFFER_MAX :: int where
  "PRIVATE_BUFFER_MAX = 1000"

record subscriber =
  sb_user_id :: int
  sb_channels :: "string set"
  sb_fresh :: "string set"
  sb_private_max :: int
  sb_market :: "string list"
  sb_private :: "string list"
  sb_wake :: bool
  sb_busy :: bool
  sb_closed :: bool
  sb_overflowed :: bool
  sb_sent :: int
  sb_skipped :: int
  sb_private_sent :: int

definition new_subscriber :: "int \<Rightarrow> int \<Rightarrow> subscriber" where
  "new_subscriber uid private_max =
     \<lparr> sb_user_id = uid, sb_channels = {}, sb_fresh = {}, sb_private_max = private_max, sb_market = [], sb_private = [],
       sb_wake = False, sb_busy = False, sb_closed = False, sb_overflowed = False, sb_sent = 0, sb_skipped = 0,
       sb_private_sent = 0 \<rparr>"

definition hand_over :: "subscriber \<Rightarrow> subscriber" where
  "hand_over s = s\<lparr>sb_busy := True, sb_wake := True\<rparr>"

definition offer_market :: "string \<Rightarrow> subscriber \<Rightarrow> subscriber \<times> bool" where
  "offer_market frame s =
     (if sb_closed s then (s, False)
      else if sb_busy s then (s\<lparr>sb_skipped := sb_skipped s + 1\<rparr>, False)
      else (s\<lparr>sb_market := sb_market s @ [frame]\<rparr>, True))"

definition offer_private :: "string \<Rightarrow> subscriber \<Rightarrow> subscriber \<times> bool" where
  "offer_private frame s =
     (if sb_closed s then (s, False)
      else if sb_private_max s \<le> int (length (sb_private s)) then (s\<lparr>sb_overflowed := True\<rparr>, False)
      else (hand_over (s\<lparr>sb_private := sb_private s @ [frame]\<rparr>), True))"

definition sb_subscribe :: "string set \<Rightarrow> subscriber \<Rightarrow> subscriber" where
  "sb_subscribe chs s =
     s\<lparr>sb_channels := sb_channels s \<union> chs, sb_fresh := sb_fresh s \<union> (chs - sb_channels s)\<rparr>"

definition sb_unsubscribe :: "string set \<Rightarrow> subscriber \<Rightarrow> subscriber" where
  "sb_unsubscribe chs s = s\<lparr>sb_channels := sb_channels s - chs, sb_fresh := sb_fresh s - chs\<rparr>"

definition take_fresh :: "subscriber \<Rightarrow> subscriber \<times> string set" where
  "take_fresh s = (s\<lparr>sb_fresh := {}\<rparr>, sb_fresh s)"

definition sb_flush :: "subscriber \<Rightarrow> subscriber" where
  "sb_flush s = (if sb_closed s \<or> (sb_market s = [] \<and> sb_private s = []) then s else hand_over s)"

subsection \<open>Its writer task\<close>

text \<open>
  Where \<open>_run\<close> stands: waiting for the event, writing a batch, or over. \<open>Writing rest k n p\<close> has
  the frames of \<open>rest\<close> to send, the first \<open>k\<close> of them private, out of a batch of \<open>n\<close> with \<open>p\<close>
  private ones.
\<close>

datatype writer = Waiting | Writing "string list" nat nat nat | Stopped

definition writer_take :: "subscriber \<Rightarrow> subscriber \<times> writer" where
  "writer_take s =
     (let batch = sb_private s @ sb_market s; private_count = length (sb_private s)
      in (s\<lparr>sb_wake := False, sb_private := [], sb_market := []\<rparr>,
          Writing batch private_count (length batch) private_count))"

definition writer_finish :: "nat \<Rightarrow> nat \<Rightarrow> subscriber \<Rightarrow> subscriber \<times> writer" where
  "writer_finish n p s =
     (let s' = s\<lparr>sb_sent := sb_sent s + int n, sb_private_sent := sb_private_sent s + int p, sb_busy := False\<rparr>
      in (s', if sb_closed s' then Stopped else Waiting))"

definition writer_fails :: "subscriber \<Rightarrow> subscriber \<times> writer" where
  "writer_fails s = (s\<lparr>sb_closed := True, sb_busy := False\<rparr>, Stopped)"

definition sb_stop :: "subscriber \<Rightarrow> subscriber \<times> writer" where
  "sb_stop s = (s\<lparr>sb_closed := True, sb_wake := True\<rparr>, Stopped)"

text \<open>A connection over time, with the frames the socket has taken and two histories kept for the
  statements only: the private frames accepted, and those among them written.\<close>

record conn =
  cn_sub :: subscriber
  cn_writer :: writer
  cn_wire :: "string list"
  cn_accepted :: "string list"
  cn_written :: "string list"

datatype cevent = Offer_Market string | Offer_Private string | Flush | Write | Send_Fails | Stop

definition new_conn :: "int \<Rightarrow> int \<Rightarrow> conn" where
  "new_conn uid private_max =
     \<lparr> cn_sub = new_subscriber uid private_max, cn_writer = Waiting, cn_wire = [], cn_accepted = [], cn_written = [] \<rparr>"

definition write_step :: "conn \<Rightarrow> conn" where
  "write_step c =
     (case cn_writer c of
        Waiting \<Rightarrow>
          if sb_wake (cn_sub c)
          then (let (s, w) = writer_take (cn_sub c) in c\<lparr>cn_sub := s, cn_writer := w\<rparr>)
          else c
      | Writing [] k n p \<Rightarrow>
          (let (s, w) = writer_finish n p (cn_sub c) in c\<lparr>cn_sub := s, cn_writer := w\<rparr>)
      | Writing (f # rest) k n p \<Rightarrow>
          c\<lparr>cn_writer := Writing rest (k - 1) n p, cn_wire := cn_wire c @ [f],
            cn_written := (if k = 0 then cn_written c else cn_written c @ [f])\<rparr>
      | Stopped \<Rightarrow> c)"

fun conn_event :: "cevent \<Rightarrow> conn \<Rightarrow> conn" where
  "conn_event (Offer_Market f) c = c\<lparr>cn_sub := fst (offer_market f (cn_sub c))\<rparr>"
| "conn_event (Offer_Private f) c =
     (let (s, taken) = offer_private f (cn_sub c)
      in c\<lparr>cn_sub := s, cn_accepted := (if taken then cn_accepted c @ [f] else cn_accepted c)\<rparr>)"
| "conn_event Flush c = c\<lparr>cn_sub := sb_flush (cn_sub c)\<rparr>"
| "conn_event Write c = write_step c"
| "conn_event Send_Fails c =
     (case cn_writer c of
        Writing (f # rest) k n p \<Rightarrow> (let (s, w) = writer_fails (cn_sub c) in c\<lparr>cn_sub := s, cn_writer := w\<rparr>)
      | _ \<Rightarrow> c)"
| "conn_event Stop c = (let (s, w) = sb_stop (cn_sub c) in c\<lparr>cn_sub := s, cn_writer := w\<rparr>)"

subsection \<open>All connections\<close>

record hub =
  hb_store :: "(nat, subscriber) dict"
  hb_subscribers :: "nat list"
  hb_by_channel :: "(string, nat list) dict"
  hb_by_user :: "(int, nat list) dict"
  serialisations :: int

definition new_hub :: hub where
  "new_hub = \<lparr> hb_store = [], hb_subscribers = [], hb_by_channel = [], hb_by_user = [], serialisations = 0 \<rparr>"

definition hub_encode :: "json \<Rightarrow> hub \<Rightarrow> hub \<times> string" where
  "hub_encode payload h = (h\<lparr>serialisations := serialisations h + 1\<rparr>, json_dumps payload)"

text \<open>\<open>d.setdefault(k, set()).add(i)\<close>, and \<open>discard\<close> from an index that drops empty entries.\<close>

definition held :: "('k, nat list) dict \<Rightarrow> 'k \<Rightarrow> nat list" where
  "held d k = (case dget d k of None \<Rightarrow> [] | Some is \<Rightarrow> is)"

definition index_add :: "'k \<Rightarrow> nat \<Rightarrow> ('k, nat list) dict \<Rightarrow> ('k, nat list) dict" where
  "index_add k i d = dset k (List.insert i (held d k)) d"

definition index_drop :: "'k \<Rightarrow> nat \<Rightarrow> ('k, nat list) dict \<Rightarrow> ('k, nat list) dict" where
  "index_drop k i d =
     (case dget d k of
        None \<Rightarrow> d
      | Some holders \<Rightarrow>
          let rest = removeAll i holders in if rest = [] then dpop k d else dset k rest d)"

definition subscriber_at :: "nat \<Rightarrow> hub \<Rightarrow> subscriber" where
  "subscriber_at i h = (case dget (hb_store h) i of None \<Rightarrow> new_subscriber 0 0 | Some s \<Rightarrow> s)"

definition hub_add :: "nat \<Rightarrow> hub \<Rightarrow> hub" where
  "hub_add i h =
     h\<lparr>hb_subscribers := List.insert i (hb_subscribers h),
       hb_by_user := index_add (sb_user_id (subscriber_at i h)) i (hb_by_user h)\<rparr>"

text \<open>The channels of a set are walked as the list \<open>chs\<close>, in whatever order Python gives them.\<close>

definition hub_remove :: "nat \<Rightarrow> string list \<Rightarrow> hub \<Rightarrow> hub" where
  "hub_remove i chs h =
     h\<lparr>hb_subscribers := removeAll i (hb_subscribers h),
       hb_by_channel := fold (\<lambda>ch. index_drop ch i) chs (hb_by_channel h),
       hb_by_user := index_drop (sb_user_id (subscriber_at i h)) i (hb_by_user h)\<rparr>"

definition hub_subscribe :: "nat \<Rightarrow> string list \<Rightarrow> hub \<Rightarrow> hub" where
  "hub_subscribe i chs h =
     h\<lparr>hb_store := dset i (sb_subscribe (set chs) (subscriber_at i h)) (hb_store h),
       hb_by_channel := fold (\<lambda>ch. index_add ch i) chs (hb_by_channel h)\<rparr>"

definition hub_unsubscribe :: "nat \<Rightarrow> string list \<Rightarrow> hub \<Rightarrow> hub" where
  "hub_unsubscribe i chs h =
     h\<lparr>hb_store := dset i (sb_unsubscribe (set chs) (subscriber_at i h)) (hb_store h),
       hb_by_channel := fold (\<lambda>ch. index_drop ch i) chs (hb_by_channel h)\<rparr>"

definition listeners :: "string \<Rightarrow> hub \<Rightarrow> nat list" where
  "listeners ch h = held (hb_by_channel h) ch"

text \<open>\<open>sum(1 for s in ids if s.offer(frame))\<close>: every one is offered, the takers are counted.\<close>

fun offer_all :: "(subscriber \<Rightarrow> subscriber \<times> bool) \<Rightarrow> nat list \<Rightarrow> hub \<Rightarrow> hub \<times> int" where
  "offer_all offer [] h = (h, 0)"
| "offer_all offer (i # is) h =
     (let (s, taken) = offer (subscriber_at i h);
          (h', n) = offer_all offer is (h\<lparr>hb_store := dset i s (hb_store h)\<rparr>)
      in (h', (if taken then 1 else 0) + n))"

definition broadcast :: "string \<Rightarrow> string \<Rightarrow> hub \<Rightarrow> hub \<times> int" where
  "broadcast ch frame h = offer_all (offer_market frame) (listeners ch h) h"

definition broadcast_all :: "string \<Rightarrow> hub \<Rightarrow> hub \<times> int" where
  "broadcast_all frame h = offer_all (offer_market frame) (hb_subscribers h) h"

definition to_user :: "int \<Rightarrow> string \<Rightarrow> hub \<Rightarrow> hub \<times> int" where
  "to_user uid frame h = offer_all (offer_private frame) (held (hb_by_user h) uid) h"

definition has_user :: "int \<Rightarrow> hub \<Rightarrow> bool" where
  "has_user uid h \<longleftrightarrow> held (hb_by_user h) uid \<noteq> []"

definition hub_flush :: "hub \<Rightarrow> hub" where
  "hub_flush h = fst (offer_all (\<lambda>s. (sb_flush s, False)) (hb_subscribers h) h)"

subsection \<open>Private frames arrive in order\<close>

definition in_flight :: "conn \<Rightarrow> string list" where
  "in_flight c = (case cn_writer c of Writing rest k n p \<Rightarrow> take k rest | _ \<Rightarrow> [])"

text \<open>Once the connection is over nothing more is promised, so the batch in flight is lost with it.\<close>

definition conn_inv :: "int \<Rightarrow> conn \<Rightarrow> bool" where
  "conn_inv n c \<longleftrightarrow>
     sb_private_max (cn_sub c) = n \<and> int (length (sb_private (cn_sub c))) \<le> max 0 n \<and>
     (case cn_writer c of Writing rest k _ _ \<Rightarrow> k \<le> length rest | _ \<Rightarrow> True) \<and>
     (sb_closed (cn_sub c) = (cn_writer c = Stopped)) \<and>
     (\<exists>lost. cn_accepted c = cn_written c @ in_flight c @ lost @ sb_private (cn_sub c) \<and>
        (\<not> sb_closed (cn_sub c) \<longrightarrow> lost = [] \<and> (sb_private (cn_sub c) \<noteq> [] \<longrightarrow> sb_wake (cn_sub c))))"

lemma conn_inv_write: "conn_inv n c \<Longrightarrow> conn_inv n (write_step c)"
proof (cases "cn_writer c")
  case Waiting
  then show "conn_inv n c \<Longrightarrow> ?thesis"
    by (auto simp: conn_inv_def write_step_def writer_take_def in_flight_def Let_def)
next
  case (Writing rest k m p)
  show "conn_inv n c \<Longrightarrow> ?thesis"
  proof (cases rest)
    case Nil
    then show "conn_inv n c \<Longrightarrow> ?thesis" using Writing
      by (auto simp: conn_inv_def write_step_def writer_finish_def in_flight_def Let_def)
  next
    case (Cons f fs)
    then show "conn_inv n c \<Longrightarrow> ?thesis" using Writing
      by (cases k) (auto simp: conn_inv_def write_step_def in_flight_def)
  qed
next
  case Stopped
  then show "conn_inv n c \<Longrightarrow> ?thesis" by (simp add: write_step_def)
qed

lemma conn_inv_event: "conn_inv n c \<Longrightarrow> conn_inv n (conn_event e c)"
proof (cases e)
  case (Offer_Market f)
  then show "conn_inv n c \<Longrightarrow> ?thesis" by (auto simp: conn_inv_def in_flight_def offer_market_def)
next
  case (Offer_Private f)
  then show "conn_inv n c \<Longrightarrow> ?thesis"
    by (auto simp: conn_inv_def in_flight_def offer_private_def hand_over_def Let_def)
next
  case Flush
  then show "conn_inv n c \<Longrightarrow> ?thesis" by (auto simp: conn_inv_def in_flight_def sb_flush_def hand_over_def)
next
  case Write
  then show "conn_inv n c \<Longrightarrow> ?thesis" using conn_inv_write by simp
next
  case Send_Fails
  show "conn_inv n c \<Longrightarrow> ?thesis"
    by (cases "cn_writer c")
       (auto simp: Send_Fails conn_inv_def in_flight_def writer_fails_def Let_def split: list.split)
next
  case Stop
  then show "conn_inv n c \<Longrightarrow> ?thesis"
    by (auto simp: conn_inv_def in_flight_def sb_stop_def Let_def)
qed


lemma conn_inv_run: "conn_inv n (fold conn_event es (new_conn uid n))"
proof -
  have "conn_inv n (new_conn uid n)"
    by (simp add: conn_inv_def new_conn_def new_subscriber_def in_flight_def)
  then show ?thesis by (induction es rule: rev_induct) (auto intro: conn_inv_event)
qed

lemma writing_ends:
  assumes "cn_writer c = Writing rest k m p" "\<not> sb_closed (cn_sub c)"
  shows "\<exists>c'. (write_step ^^ Suc (length rest)) c = c' \<and> cn_writer c' = Waiting \<and> \<not> sb_closed (cn_sub c') \<and>
    sb_private (cn_sub c') = sb_private (cn_sub c) \<and> sb_wake (cn_sub c') = sb_wake (cn_sub c) \<and>
    cn_accepted c' = cn_accepted c \<and> cn_written c' = cn_written c @ take k rest"
  using assms
proof (induction rest arbitrary: c k)
  case Nil
  then show ?case by (simp add: write_step_def writer_finish_def)
next
  case (Cons f rest)
  define c1 where "c1 = write_step c"
  have c1: "cn_writer c1 = Writing rest (k - 1) m p" "cn_sub c1 = cn_sub c" "cn_accepted c1 = cn_accepted c"
    "cn_written c1 @ take (k - 1) rest = cn_written c @ take k (f # rest)"
    using Cons.prems(1) by (cases k; simp add: c1_def write_step_def)+
  have "(write_step ^^ Suc (length (f # rest))) c = (write_step ^^ Suc (length rest)) c1"
    by (simp add: c1_def funpow_swap1)
  then show ?case using Cons.IH [OF c1(1)] Cons.prems(2) c1 by simp
qed

lemma writer_drains:
  assumes inv: "conn_inv n c" and open_: "\<not> sb_closed (cn_sub c)"
  shows "\<exists>k. cn_written ((write_step ^^ k) c) = cn_accepted c"
proof -
  have waiting: "\<exists>k. cn_written ((write_step ^^ k) d) = cn_accepted d"
    if inv: "conn_inv n d" and w: "cn_writer d = Waiting" for d
  proof (cases "sb_private (cn_sub d) = []")
    case True
    then have "cn_written ((write_step ^^ 0) d) = cn_accepted d"
      using inv w by (auto simp: conn_inv_def in_flight_def)
    then show ?thesis by blast
  next
    case False
    have acc: "cn_accepted d = cn_written d @ sb_private (cn_sub d)" and wake: "sb_wake (cn_sub d)" and o: "\<not> sb_closed (cn_sub d)"
      using inv w False by (auto simp: conn_inv_def in_flight_def)
    define e where "e = write_step d"
    define batch where "batch = sb_private (cn_sub d) @ sb_market (cn_sub d)"
    have e: "cn_writer e = Writing batch (length (sb_private (cn_sub d))) (length batch) (length (sb_private (cn_sub d)))"
      "\<not> sb_closed (cn_sub e)" "cn_written e = cn_written d"
      using w wake o by (simp_all add: e_def write_step_def writer_take_def batch_def Let_def)
    have "cn_written ((write_step ^^ Suc (length batch)) e) = cn_accepted d"
      using writing_ends [OF e(1,2)] e(3) acc by (auto simp: batch_def)
    then have "cn_written ((write_step ^^ Suc (Suc (length batch))) d) = cn_accepted d"
      by (simp only: e_def funpow_Suc_right comp_apply)
    then show ?thesis by blast
  qed
  show ?thesis
  proof (cases "cn_writer c")
    case Waiting
    then show ?thesis using waiting inv by blast
  next
    case (Writing rest k m p)
    obtain d where d: "(write_step ^^ Suc (length rest)) c = d" "cn_writer d = Waiting" "cn_accepted d = cn_accepted c"
      using writing_ends [OF Writing open_] by blast
    have step: "conn_inv n ((write_step ^^ i) c)" for i using inv by (induction i) (auto intro: conn_inv_write)
    obtain k where "cn_written ((write_step ^^ k) d) = cn_accepted d" using waiting [OF step [of "Suc (length rest)", unfolded d(1)] d(2)] by blast
    then have "cn_written ((write_step ^^ (k + Suc (length rest))) c) = cn_accepted c"
      by (simp only: funpow_add comp_apply d(1,3))
    then show ?thesis by blast
  next
    case Stopped
    then show ?thesis using inv open_ by (simp add: conn_inv_def)
  qed
qed

lemma fold_writes: "fold conn_event (replicate k Write) c = (write_step ^^ k) c"
proof (induction k arbitrary: c)
  case (Suc k)
  have "fold conn_event (replicate (Suc k) Write) c = (write_step ^^ k) (write_step c)"
    using Suc [of "write_step c"] by simp
  then show ?case by (simp only: funpow_Suc_right comp_apply)
qed simp

text \<open>Private messages are never lost, reordered or left waiting: whatever is offered, flushed and
  written and in whatever order, the frames accepted for a connection that is still open are
  those already written, then those in the batch being written, then those buffered; the
  buffer stays within its limit; and if anything waits the writer has been woken.\<close>

theorem private_frames_in_order:
  assumes "c = fold conn_event es (new_conn uid n)" "cn_writer c \<noteq> Stopped"
  shows "cn_accepted c = cn_written c @ in_flight c @ sb_private (cn_sub c) \<and>
    int (length (sb_private (cn_sub c))) \<le> max 0 n \<and>
    (sb_private (cn_sub c) = [] \<or> sb_wake (cn_sub c))"
  using conn_inv_run [of n es uid] assms by (auto simp: conn_inv_def)

definition demo_events :: "cevent list" where
  "demo_events = [Offer_Private ''a'', Write, Offer_Market ''m'', Offer_Private ''b'', Write, Offer_Private ''c'', Offer_Private ''d'']"

theorem private_frames_in_order_witness:
  "cn_accepted (fold conn_event demo_events (new_conn 7 2)) =
    cn_written (fold conn_event demo_events (new_conn 7 2)) @ in_flight (fold conn_event demo_events (new_conn 7 2)) @
      sb_private (cn_sub (fold conn_event demo_events (new_conn 7 2))) \<and>
    cn_accepted (fold conn_event demo_events (new_conn 7 2)) = [''a'', ''b'', ''c''] \<and>
    sb_overflowed (cn_sub (fold conn_event demo_events (new_conn 7 2)))"
proof -
  let ?c = "fold conn_event demo_events (new_conn 7 2)"
  have "cn_writer ?c \<noteq> Stopped" "cn_accepted ?c = [''a'', ''b'', ''c'']" "sb_overflowed (cn_sub ?c)" by code_simp+
  with private_frames_in_order [OF refl, of demo_events 7 2] show ?thesis by blast
qed

text \<open>And they arrive: from every state an open connection can reach, the writer alone gets every
  accepted private frame onto the socket.\<close>

theorem private_frames_arrive:
  assumes "c = fold conn_event es (new_conn uid n)" "cn_writer c \<noteq> Stopped"
  shows "\<exists>k. cn_written (fold conn_event (replicate k Write) c) = cn_accepted c"
proof -
  have inv: "conn_inv n c" unfolding assms(1) by (rule conn_inv_run)
  then have "\<not> sb_closed (cn_sub c)" using assms(2) by (simp add: conn_inv_def)
  from writer_drains [OF inv this] show ?thesis by (simp only: fold_writes)
qed

theorem private_frames_arrive_witness:
  "\<exists>k. cn_written (fold conn_event (replicate k Write) (fold conn_event demo_events (new_conn 7 2))) = [''a'', ''b'', ''c'']"
proof -
  let ?c = "fold conn_event demo_events (new_conn 7 2)"
  have "cn_writer ?c \<noteq> Stopped" "cn_accepted ?c = [''a'', ''b'', ''c'']" by code_simp+
  with private_frames_arrive [OF refl, of demo_events 7 2] show ?thesis by simp
qed

text \<open>
  \<open>busy\<close> is documented as true until a batch has been written. A private frame offered during a
  write leaves a second batch behind, which the writer takes with \<open>busy\<close> already false: a
  market frame offered during that write is queued and not skipped.
\<close>

lemma busy_cleared_during_second_batch:
  "(let c = fold conn_event [Offer_Private ''a'', Write, Offer_Private ''b'', Write, Write, Write] (new_conn 7 2)
    in (in_flight c, sb_busy (cn_sub c), snd (offer_market ''m'' (cn_sub c)))) = ([''b''], False, True)"
  by code_simp

subsection \<open>The indexes\<close>

text \<open>
  What happens to the hub: connections come, ask for channels, and go with what they hold;
  frames are encoded; and a subscriber is offered frames, flushed and written (\<open>Work\<close>), which leaves
  its user and its channels alone.
\<close>

datatype hub_op =
    Connect nat int
  | Subscribe nat "string list"
  | Unsubscribe nat "string list"
  | Disconnect nat "string list"
  | Encode json
  | Work nat subscriber

definition hub_connect :: "nat \<Rightarrow> int \<Rightarrow> hub \<Rightarrow> hub" where
  "hub_connect i uid h = hub_add i (h\<lparr>hb_store := dset i (new_subscriber uid PRIVATE_BUFFER_MAX) (hb_store h)\<rparr>)"

inductive hub_step :: "hub_op \<Rightarrow> hub \<Rightarrow> hub \<Rightarrow> bool" where
  connect: "dget (hb_store h) i = None \<Longrightarrow> hub_step (Connect i uid) h (hub_connect i uid h)"
| subscribe: "i \<in> set (hb_subscribers h) \<Longrightarrow> hub_step (Subscribe i chs) h (hub_subscribe i chs h)"
| unsubscribe: "i \<in> set (hb_subscribers h) \<Longrightarrow> hub_step (Unsubscribe i chs) h (hub_unsubscribe i chs h)"
| disconnect: "i \<in> set (hb_subscribers h) \<Longrightarrow> set chs = sb_channels (subscriber_at i h) \<Longrightarrow>
    hub_step (Disconnect i chs) h (hub_remove i chs h)"
| encode: "hub_step (Encode payload) h (fst (hub_encode payload h))"
| work: "dget (hb_store h) i \<noteq> None \<Longrightarrow> sb_user_id s = sb_user_id (subscriber_at i h) \<Longrightarrow>
    sb_channels s = sb_channels (subscriber_at i h) \<Longrightarrow> hub_step (Work i s) h (h\<lparr>hb_store := dset i s (hb_store h)\<rparr>)"

inductive hub_reachable :: "hub \<Rightarrow> bool" where
  start: "hub_reachable new_hub"
| step: "hub_reachable h \<Longrightarrow> hub_step x h h' \<Longrightarrow> hub_reachable h'"

definition hub_inv :: "hub \<Rightarrow> bool" where
  "hub_inv h \<longleftrightarrow>
     (\<forall>i \<in> set (hb_subscribers h). dget (hb_store h) i \<noteq> None) \<and>
     (\<forall>ch i. i \<in> set (held (hb_by_channel h) ch) \<longleftrightarrow>
        i \<in> set (hb_subscribers h) \<and> ch \<in> sb_channels (subscriber_at i h)) \<and>
     (\<forall>u i. i \<in> set (held (hb_by_user h) u) \<longleftrightarrow> i \<in> set (hb_subscribers h) \<and> sb_user_id (subscriber_at i h) = u) \<and>
     distinct (hb_subscribers h) \<and> (\<forall>ch. distinct (held (hb_by_channel h) ch)) \<and> (\<forall>u. distinct (held (hb_by_user h) u))"

lemma distinct_held_add [simp]: "distinct (held d k') \<Longrightarrow> distinct (held d k) \<Longrightarrow> distinct (held (index_add k i d) k')"
  by (simp add: index_add_def held_def)

lemma distinct_held_drop [simp]: "distinct (held d k') \<Longrightarrow> distinct (held (index_drop k i d) k')"
  by (cases "dget d k") (auto simp: index_drop_def held_def Let_def distinct_removeAll)

lemma distinct_held_fold_add:
  "(\<And>k. distinct (held d k)) \<Longrightarrow> distinct (held (fold (\<lambda>ch. index_add ch i) chs d) k)"
  by (induction chs arbitrary: d) simp_all

lemma distinct_held_fold_drop:
  "distinct (held d k) \<Longrightarrow> distinct (held (fold (\<lambda>ch. index_drop ch i) chs d) k)"
  by (induction chs arbitrary: d) simp_all

lemma set_held_add [simp]: "set (held (index_add k i d) k') = (if k' = k then insert i (set (held d k)) else set (held d k'))"
  by (cases "dget d k") (auto simp: index_add_def held_def)

lemma set_held_drop [simp]: "set (held (index_drop k i d) k') = (if k' = k then set (held d k) - {i} else set (held d k'))"
proof (cases "dget d k")
  case (Some holders)
  have "set (removeAll i holders) = set holders - {i}" by simp
  then have "removeAll i holders = [] \<Longrightarrow> set holders - {i} = {}" by (metis list.set(1))
  with Some show ?thesis by (auto simp: index_drop_def held_def Let_def)
qed (simp add: index_drop_def held_def)

lemma set_held_fold_add:
  "set (held (fold (\<lambda>ch. index_add ch i) chs d) k) = (if k \<in> set chs then insert i (set (held d k)) else set (held d k))"
  by (induction chs arbitrary: d) auto

lemma set_held_fold_drop:
  "set (held (fold (\<lambda>ch. index_drop ch i) chs d) k) = (if k \<in> set chs then set (held d k) - {i} else set (held d k))"
  by (induction chs arbitrary: d) auto

lemma subscriber_at_set [simp]:
  "subscriber_at j (h\<lparr>hb_store := dset i s (hb_store h)\<rparr>) = (if j = i then s else subscriber_at j h)"
  by (simp add: subscriber_at_def)

lemma subscriber_at_other [simp]:
  "subscriber_at j (h\<lparr>hb_subscribers := a\<rparr>) = subscriber_at j h" "subscriber_at j (h\<lparr>hb_by_channel := b\<rparr>) = subscriber_at j h"
  "subscriber_at j (h\<lparr>hb_by_user := c\<rparr>) = subscriber_at j h" "subscriber_at j (h\<lparr>serialisations := n\<rparr>) = subscriber_at j h"
  by (simp_all add: subscriber_at_def)

lemma hub_invI:
  assumes "\<And>i. i \<in> set (hb_subscribers h) \<Longrightarrow> dget (hb_store h) i \<noteq> None"
    "\<And>ch i. i \<in> set (held (hb_by_channel h) ch) \<longleftrightarrow> i \<in> set (hb_subscribers h) \<and> ch \<in> sb_channels (subscriber_at i h)"
    "\<And>u i. i \<in> set (held (hb_by_user h) u) \<longleftrightarrow> i \<in> set (hb_subscribers h) \<and> sb_user_id (subscriber_at i h) = u"
    "distinct (hb_subscribers h)" "\<And>ch. distinct (held (hb_by_channel h) ch)" "\<And>u. distinct (held (hb_by_user h) u)"
  shows "hub_inv h"
  using assms by (simp add: hub_inv_def)

lemma hub_step_inv: "hub_step x h h' \<Longrightarrow> hub_inv h \<Longrightarrow> hub_inv h'"
proof (induction rule: hub_step.induct)
  case (connect h i uid)
  then have "i \<notin> set (hb_subscribers h)" by (auto simp: hub_inv_def)
  then show ?case using connect
    by (intro hub_invI) (auto simp: hub_inv_def hub_connect_def hub_add_def new_subscriber_def)
next
  case (subscribe i h chs)
  then show ?case
    by (intro hub_invI) (auto simp: hub_inv_def hub_subscribe_def sb_subscribe_def set_held_fold_add distinct_held_fold_add)
next
  case (unsubscribe i h chs)
  then show ?case
    by (intro hub_invI) (auto simp: hub_inv_def hub_unsubscribe_def sb_unsubscribe_def set_held_fold_drop distinct_held_fold_drop)
next
  case (disconnect i h chs)
  then show ?case
    by (intro hub_invI) (auto simp: hub_inv_def hub_remove_def set_held_fold_drop distinct_held_fold_drop distinct_removeAll)
next
  case (encode payload h)
  then show ?case by (intro hub_invI) (auto simp: hub_inv_def hub_encode_def)
next
  case (work h i s)
  then show ?case by (intro hub_invI) (auto simp: hub_inv_def)
qed

lemma hub_reachable_inv: "hub_reachable h \<Longrightarrow> hub_inv h"
proof (induction rule: hub_reachable.induct)
  case start
  show ?case by (simp add: hub_inv_def new_hub_def held_def)
qed (rule hub_step_inv)

text \<open>C27. The hub's two indexes are always exact: a channel's listeners are the connected subscribers
  that asked for it, and a user is present exactly when one of its connections is.\<close>

theorem hub_indexes_exact:
  assumes "hub_reachable h"
  shows "(i \<in> set (listeners ch h)) = (i \<in> set (hb_subscribers h) \<and> ch \<in> sb_channels (subscriber_at i h)) \<and>
    has_user u h = (\<exists>j. j \<in> set (hb_subscribers h) \<and> sb_user_id (subscriber_at j h) = u)"
proof -
  have "hub_inv h" using assms by (rule hub_reachable_inv)
  moreover from this have "(\<exists>j. j \<in> set (held (hb_by_user h) u)) = has_user u h"
    by (cases "held (hb_by_user h) u") (auto simp: has_user_def)
  ultimately show ?thesis unfolding hub_inv_def listeners_def by blast
qed

theorem hub_indexes_exact_witness:
  "hub_reachable (hub_subscribe 3 [''tape:QAA''] (hub_connect 3 41 new_hub)) \<and>
    has_user 41 (hub_subscribe 3 [''tape:QAA''] (hub_connect 3 41 new_hub)) \<and>
    3 \<in> set (listeners ''tape:QAA'' (hub_subscribe 3 [''tape:QAA''] (hub_connect 3 41 new_hub)))"
proof -
  have "hub_step (Connect 3 41) new_hub (hub_connect 3 41 new_hub)" by (rule connect) (simp add: new_hub_def)
  moreover have "hub_step (Subscribe 3 [''tape:QAA'']) (hub_connect 3 41 new_hub)
      (hub_subscribe 3 [''tape:QAA''] (hub_connect 3 41 new_hub))"
    by (rule subscribe) code_simp
  ultimately have r: "hub_reachable (hub_subscribe 3 [''tape:QAA''] (hub_connect 3 41 new_hub))"
    by (meson hub_reachable.intros)
  have "3 \<in> set (hb_subscribers (hub_subscribe 3 [''tape:QAA''] (hub_connect 3 41 new_hub)))"
    "''tape:QAA'' \<in> sb_channels (subscriber_at 3 (hub_subscribe 3 [''tape:QAA''] (hub_connect 3 41 new_hub)))"
    "sb_user_id (subscriber_at 3 (hub_subscribe 3 [''tape:QAA''] (hub_connect 3 41 new_hub))) = 41"
    by code_simp+
  with hub_indexes_exact [OF r, of 3 "''tape:QAA''" 41] r show ?thesis by blast
qed

subsection \<open>Offering a frame to several connections\<close>

lemma subscriber_at_offer:
  assumes "distinct is"
  shows "subscriber_at j (fst (offer_all f is h)) = (if j \<in> set is then fst (f (subscriber_at j h)) else subscriber_at j h)"
  using assms
proof (induction "is" arbitrary: h)
  case (Cons i "is")
  show ?case
    using Cons.IH [of "h\<lparr>hb_store := dset i (fst (f (subscriber_at i h))) (hb_store h)\<rparr>"] Cons.prems
    by (auto simp: Let_def split_beta)
qed simp

lemma offer_all_rest [simp]:
  "hb_subscribers (fst (offer_all f is h)) = hb_subscribers h" "hb_by_channel (fst (offer_all f is h)) = hb_by_channel h"
  "hb_by_user (fst (offer_all f is h)) = hb_by_user h" "serialisations (fst (offer_all f is h)) = serialisations h"
  by (induction "is" arbitrary: h) (simp_all add: Let_def split_beta)

text \<open>An offer leaves the user and the channels of a subscriber alone.\<close>

definition keeps_identity :: "(subscriber \<Rightarrow> subscriber \<times> bool) \<Rightarrow> bool" where
  "keeps_identity f \<longleftrightarrow> (\<forall>s. sb_user_id (fst (f s)) = sb_user_id s \<and> sb_channels (fst (f s)) = sb_channels s)"

lemma keeps_offers [simp]: "keeps_identity (offer_market fr)" "keeps_identity (offer_private fr)"
    "keeps_identity (\<lambda>s. (sb_flush s, False))" "keeps_identity (\<lambda>s. (fst (take_fresh s), False))"
  by (auto simp: keeps_identity_def offer_market_def offer_private_def sb_flush_def take_fresh_def hand_over_def)

lemma offer_all_reachable:
  assumes "hub_reachable h" "keeps_identity f" "list_all (\<lambda>i. dget (hb_store h) i \<noteq> None) is"
  shows "hub_reachable (fst (offer_all f is h))"
  using assms
proof (induction "is" arbitrary: h)
  case (Cons i "is")
  let ?s = "fst (f (subscriber_at i h))"
  have "hub_step (Work i ?s) h (h\<lparr>hb_store := dset i ?s (hb_store h)\<rparr>)"
    using Cons.prems(2,3) by (intro work) (auto simp: keeps_identity_def)
  with Cons.prems(1) have "hub_reachable (h\<lparr>hb_store := dset i ?s (hb_store h)\<rparr>)" by (rule hub_reachable.step)
  moreover have "list_all (\<lambda>j. dget (hb_store (h\<lparr>hb_store := dset i ?s (hb_store h)\<rparr>)) j \<noteq> None) is"
    using Cons.prems(3) by (auto simp: list_all_iff)
  ultimately show ?case using Cons.IH Cons.prems(2) by (simp add: Let_def split_beta)
qed simp

lemma stored:
  assumes "hub_inv h"
  shows "list_all (\<lambda>i. dget (hb_store h) i \<noteq> None) (held (hb_by_user h) u)"
    "list_all (\<lambda>i. dget (hb_store h) i \<noteq> None) (listeners ch h)"
    "list_all (\<lambda>i. dget (hb_store h) i \<noteq> None) (hb_subscribers h)"
  using assms by (auto simp: hub_inv_def list_all_iff listeners_def)

lemma encode_reachable: "hub_reachable h \<Longrightarrow> hub_reachable (fst (hub_encode j h))"
  using hub_reachable.step hub_step.encode by blast

lemma to_user_reachable: "hub_reachable h \<Longrightarrow> hub_reachable (fst (to_user u fr h))"
  unfolding to_user_def by (rule offer_all_reachable) (simp_all only: keeps_offers stored(1) hub_reachable_inv)

lemma to_user_at:
  "hub_reachable h \<Longrightarrow> i \<in> set (hb_subscribers h) \<Longrightarrow>
    subscriber_at i (fst (to_user u fr h)) =
      (if sb_user_id (subscriber_at i h) = u then fst (offer_private fr (subscriber_at i h)) else subscriber_at i h)"
  using hub_reachable_inv [of h]
  by (auto simp: to_user_def subscriber_at_offer hub_inv_def)

lemma encode_at [simp]:
  "subscriber_at i (fst (hub_encode j h)) = subscriber_at i h" "hb_subscribers (fst (hub_encode j h)) = hb_subscribers h"
  by (simp_all add: hub_encode_def)

lemma to_user_subscribers [simp]: "hb_subscribers (fst (to_user u fr h)) = hb_subscribers h"
  by (simp add: to_user_def)

end
