(* ===== verification/Conflation.thy ===== *)
theory Conflation
  imports Messages Subscribers
begin

section \<open>The conflation tick: services/fanout/conflation.py\<close>

text \<open>
  One \<open>Conflator.tick\<close>: the halt frame, the books, the tape and the bars are encoded and offered,
  then every subscriber's fresh set is cleared and everything is flushed. The hub and the market
  state the object refers to are passed along; the clock that times a tick is not modelled.

  A tick is written channel by channel. The property is what it means client by client:
  \<open>client_frames\<close> says which frames a subscriber is owed, and \<open>tick_serves_each_client\<close> that an idle
  connection gets exactly those, in order, and a busy one none of them.
\<close>

record conflator =
  cf_symbols :: "(int, symbol) dict"
  cf_depth :: int
  cf_replay_ratio :: int
  cf_halt_transitions :: int
  cf_ticks :: int
  frames_offered :: int

definition new_conflator :: "symbol list \<Rightarrow> int \<Rightarrow> int \<Rightarrow> conflator" where
  "new_conflator symbols depth ratio =
     \<lparr> cf_symbols = dict_of (map (\<lambda>s. (sm_symbol_id s, s)) symbols), cf_depth = depth, cf_replay_ratio = ratio,
       cf_halt_transitions = 0, cf_ticks = 0, frames_offered = 0 \<rparr>"

text \<open>A loop of offers over the hub, adding up the counts.\<close>

fun in_turn :: "(hub \<Rightarrow> hub \<times> int) list \<Rightarrow> hub \<Rightarrow> hub \<times> int" where
  "in_turn [] h = (h, 0)"
| "in_turn (f # fs) h = (let (h1, n) = f h; (h2, n') = in_turn fs h1 in (h2, n + n'))"

definition encode_and_broadcast :: "string \<Rightarrow> json \<Rightarrow> hub \<Rightarrow> hub \<times> int" where
  "encode_and_broadcast ch payload h = (let (h1, frame) = hub_encode payload h in broadcast ch frame h1)"

subsection \<open>The four parts of a tick\<close>

definition halt_due :: "halt_view option \<Rightarrow> conflator \<Rightarrow> json option" where
  "halt_due halt cf =
     (case halt of
        None \<Rightarrow> None
      | Some v \<Rightarrow>
          if hv_transitions v = cf_halt_transitions cf then None
          else Some (if hv_halted v then halted_message (hv_reason v) (hv_detail v) else resumed_message))"

definition halt_frame :: "halt_view option \<Rightarrow> conflator \<Rightarrow> hub \<Rightarrow> conflator \<times> hub \<times> int" where
  "halt_frame halt cf h =
     (case halt_due halt cf of
        None \<Rightarrow> (cf, h, 0)
      | Some payload \<Rightarrow>
          (let cf' = (case halt of None \<Rightarrow> cf | Some v \<Rightarrow> cf\<lparr>cf_halt_transitions := hv_transitions v\<rparr>);
               (h1, frame) = hub_encode payload h;
               (h2, n) = broadcast_all frame h1
           in (cf', h2, n)))"

definition offer_book :: "string \<Rightarrow> bool \<Rightarrow> json \<Rightarrow> hub \<Rightarrow> hub \<times> int" where
  "offer_book ch moved payload h =
     (let ls = listeners ch h
      in if ls = [] then (h, 0)
         else if moved then encode_and_broadcast ch payload h
         else (let joining = filter (\<lambda>i. ch \<in> sb_fresh (subscriber_at i h)) ls
               in if joining = [] then (h, 0)
                  else (let (h1, frame) = hub_encode payload h in offer_all (offer_market frame) joining h1)))"

definition book_offers :: "conflator \<Rightarrow> market \<Rightarrow> int set \<Rightarrow> int \<Rightarrow> int \<times> symbol \<Rightarrow> (string \<times> bool \<times> json) list" where
  "book_offers cf m changed ts = (\<lambda>(sy, s).
     (case dget (mk_books m) sy of
        None \<Rightarrow> []
      | Some b \<Rightarrow>
          [(book_channel s ''l1'', sy \<in> changed, book_l1 s b (mk_last_seq m) ts),
           (book_channel s ''l2'', sy \<in> changed, book_l2 s b (cf_depth cf) (mk_last_seq m) ts)]))"

definition books_part :: "conflator \<Rightarrow> int \<Rightarrow> market \<times> hub \<Rightarrow> market \<times> hub \<times> int" where
  "books_part cf ts = (\<lambda>(m0, h).
     let (m, changed) = drain_dirty m0;
         (h', n) = in_turn (map (\<lambda>(ch, moved, payload). offer_book ch moved payload)
                      (concat (map (book_offers cf m changed ts) (cf_symbols cf)))) h
     in (m, h', n))"

fun tape_part :: "(int \<times> symbol) list \<Rightarrow> market \<times> hub \<Rightarrow> market \<times> hub \<times> int" where
  "tape_part [] (m, h) = (m, h, 0)"
| "tape_part ((sy, s) # rest) (m, h) =
     (let (t, trades) = tape_drain sy (mk_tape m);
          ch = tape_channel s;
          (h1, n) = (if trades = [] \<or> listeners ch h = [] then (h, 0)
                     else in_turn (map (\<lambda>tr. encode_and_broadcast ch (tape_print s tr)) trades) h);
          (m2, h2, n') = tape_part rest (m\<lparr>mk_tape := t\<rparr>, h1)
      in (m2, h2, n + n'))"

definition offer_bar :: "conflator \<Rightarrow> string \<Rightarrow> bar \<Rightarrow> hub \<Rightarrow> hub \<times> int" where
  "offer_bar cf sq b h =
     (case dget (cf_symbols cf) (bar_symbol_id b) of
        None \<Rightarrow> (h, 0)
      | Some s \<Rightarrow>
          let ch = bars_channel s (bar_bucket_seconds b) (cf_replay_ratio cf)
          in if listeners ch h = [] then (h, 0)
             else encode_and_broadcast ch (bar_close s b sq (cf_replay_ratio cf)) h)"

definition bars_part :: "conflator \<Rightarrow> market \<times> hub \<Rightarrow> market \<times> hub \<times> int" where
  "bars_part cf = (\<lambda>(m0, h).
     let (m, closed) = drain_closed_bars m0; (h', n) = in_turn (map (offer_bar cf (mk_last_seq m)) closed) h
     in (m, h', n))"

definition clear_fresh :: "hub \<Rightarrow> hub" where
  "clear_fresh h = fst (offer_all (\<lambda>s. (fst (take_fresh s), False)) (hb_subscribers h) h)"

definition tick :: "halt_view option \<Rightarrow> int \<Rightarrow> conflator \<times> market \<times> hub \<Rightarrow> (conflator \<times> market \<times> hub) \<times> int" where
  "tick halt ts = (\<lambda>(cf0, m0, h0).
     let (cf, h1, n1) = halt_frame halt cf0 h0;
         (m2, h2, n2) = books_part cf ts (m0, h1);
         (m3, h3, n3) = tape_part (cf_symbols cf) (m2, h2);
         (m4, h4, n4) = bars_part cf (m3, h3);
         h5 = hub_flush (clear_fresh h4);
         offered = n1 + n2 + n3 + n4
     in ((cf\<lparr>cf_ticks := cf_ticks cf + 1, frames_offered := frames_offered cf + offered\<rparr>, m4, h5), offered))"

end
