(* ===== verification/Conflation_Spec.thy ===== *)
theory Conflation_Spec
  imports Conflation
begin

section \<open>What a tick delivers\<close>

text \<open>
  \<open>serves i F r\<close>: the hub operation \<open>r\<close> offers connection \<open>i\<close> the frames \<open>F\<close> names, given its
  channels and its fresh channels, and leaves who is connected and subscribed alone. Each part
  of the tick is shown to serve what \<open>client_frames\<close> lists for it. \<open>encodes n r\<close> counts
  serialisations in the same way.
\<close>

subsection \<open>The frames a client is owed\<close>

definition book_frames :: "string set \<Rightarrow> string set \<Rightarrow> (string \<times> bool \<times> json) list \<Rightarrow> string list" where
  "book_frames chs fresh offers =
     concat (map (\<lambda>(ch, moved, payload). if ch \<in> chs \<and> (moved \<or> ch \<in> fresh) then [json_dumps payload] else []) offers)"

definition tape_frames :: "string set \<Rightarrow> market \<Rightarrow> (int \<times> symbol) list \<Rightarrow> string list" where
  "tape_frames chs m symbols =
     concat (map (\<lambda>(sy, s). if tape_channel s \<in> chs then map (json_dumps \<circ> tape_print s) (tape_waiting sy (mk_tape m)) else []) symbols)"

definition bar_frames :: "string set \<Rightarrow> conflator \<Rightarrow> string \<Rightarrow> bar list \<Rightarrow> string list" where
  "bar_frames chs cf sq bars =
     concat (map (\<lambda>b. case dget (cf_symbols cf) (bar_symbol_id b) of
                        None \<Rightarrow> []
                      | Some s \<Rightarrow> if bars_channel s (bar_bucket_seconds b) (cf_replay_ratio cf) \<in> chs
                                  then [json_dumps (bar_close s b sq (cf_replay_ratio cf))] else []) bars)"

definition client_frames :: "halt_view option \<Rightarrow> int \<Rightarrow> conflator \<Rightarrow> market \<Rightarrow> string set \<Rightarrow> string set \<Rightarrow> string list" where
  "client_frames halt ts cf m chs fresh =
     (case halt_due halt cf of None \<Rightarrow> [] | Some payload \<Rightarrow> [json_dumps payload]) @
     book_frames chs fresh (concat (map (book_offers cf m (mk_dirty m) ts) (cf_symbols cf))) @
     tape_frames chs m (cf_symbols cf) @
     bar_frames chs cf (mk_last_seq m) (mk_closed_bars m)"

subsection \<open>One client's view of a hub operation\<close>

definition offer_frames :: "string list \<Rightarrow> subscriber \<Rightarrow> subscriber" where
  "offer_frames = fold (\<lambda>fr s. fst (offer_market fr s))"

lemma offer_frames_simps [simp]:
  "offer_frames [] s = s" "offer_frames [fr] s = fst (offer_market fr s)"
  "offer_frames (xs @ ys) s = offer_frames ys (offer_frames xs s)"
  by (simp_all add: offer_frames_def)

lemma offer_market_keeps [simp]:
  "sb_channels (fst (offer_market fr s)) = sb_channels s" "sb_fresh (fst (offer_market fr s)) = sb_fresh s"
  "sb_busy (fst (offer_market fr s)) = sb_busy s" "sb_closed (fst (offer_market fr s)) = sb_closed s"
  by (simp_all add: offer_market_def)

lemma offer_frames_keeps [simp]:
  "sb_channels (offer_frames fs s) = sb_channels s" "sb_fresh (offer_frames fs s) = sb_fresh s"
  "sb_busy (offer_frames fs s) = sb_busy s" "sb_closed (offer_frames fs s) = sb_closed s"
  unfolding offer_frames_def by (induction fs arbitrary: s) simp_all

lemma offer_frames_eq:
  "sb_market (offer_frames fs s) = sb_market s @ (if sb_busy s \<or> sb_closed s then [] else fs)"
  "sb_skipped (offer_frames fs s) = sb_skipped s + (if sb_busy s \<and> \<not> sb_closed s then int (length fs) else 0)"
  unfolding offer_frames_def by (induction fs arbitrary: s) (simp_all add: offer_market_def)

definition serves :: "nat \<Rightarrow> (string set \<Rightarrow> string set \<Rightarrow> string list) \<Rightarrow> (hub \<Rightarrow> hub) \<Rightarrow> bool" where
  "serves i F r \<longleftrightarrow>
     (\<forall>h. hub_reachable h \<and> i \<in> set (hb_subscribers h) \<longrightarrow>
        hub_reachable (r h) \<and> hb_subscribers (r h) = hb_subscribers h \<and>
        subscriber_at i (r h) =
          offer_frames (F (sb_channels (subscriber_at i h)) (sb_fresh (subscriber_at i h))) (subscriber_at i h))"

lemma servesD:
  assumes "serves i F r" "hub_reachable h" "i \<in> set (hb_subscribers h)"
  shows "hub_reachable (r h)" "hb_subscribers (r h) = hb_subscribers h"
    "subscriber_at i (r h) = offer_frames (F (sb_channels (subscriber_at i h)) (sb_fresh (subscriber_at i h))) (subscriber_at i h)"
  using assms by (simp_all add: serves_def)

lemma servesI:
  assumes "\<And>h. hub_reachable h \<Longrightarrow> i \<in> set (hb_subscribers h) \<Longrightarrow>
    hub_reachable (r h) \<and> hb_subscribers (r h) = hb_subscribers h \<and>
    subscriber_at i (r h) = offer_frames (F (sb_channels (subscriber_at i h)) (sb_fresh (subscriber_at i h))) (subscriber_at i h)"
  shows "serves i F r"
  using assms by (simp add: serves_def)

lemma serves_nothing: "serves i (\<lambda>_ _. []) (\<lambda>h. h)"
  by (simp add: serves_def)

lemma serves_then:
  assumes "serves i F r" "serves i G q"
  shows "serves i (\<lambda>c f. F c f @ G c f) (\<lambda>h. q (r h))"
proof (rule servesI)
  fix h assume h: "hub_reachable h" "i \<in> set (hb_subscribers h)"
  note r = servesD [OF assms(1) h]
  note q = servesD [OF assms(2) r(1) h(2) [folded r(2)]]
  show "hub_reachable (q (r h)) \<and> hb_subscribers (q (r h)) = hb_subscribers h \<and>
      subscriber_at i (q (r h)) = offer_frames
        (F (sb_channels (subscriber_at i h)) (sb_fresh (subscriber_at i h)) @ G (sb_channels (subscriber_at i h)) (sb_fresh (subscriber_at i h)))
        (subscriber_at i h)"
    using q r by simp
qed

lemma in_turn_Cons: "fst (in_turn (f # fs) h) = fst (in_turn fs (fst (f h)))"
  by (simp add: Let_def split_beta)

lemma serves_in_turn:
  "(\<And>x. x \<in> set xs \<Longrightarrow> serves i (F x) (\<lambda>h. fst (R x h))) \<Longrightarrow>
    serves i (\<lambda>c f. concat (map (\<lambda>x. F x c f) xs)) (\<lambda>h. fst (in_turn (map R xs) h))"
proof (induction xs)
  case Nil
  then show ?case by (simp add: serves_nothing)
next
  case (Cons x xs)
  have "serves i (\<lambda>c f. F x c f @ concat (map (\<lambda>x. F x c f) xs)) (\<lambda>h. fst (in_turn (map R xs) (fst (R x h))))"
    by (rule serves_then) (simp_all add: Cons)
  then show ?case by (simp only: list.map concat.simps in_turn_Cons)
qed

text \<open>A subset of the connections is offered a frame.\<close>

lemma serves_offer:
  assumes "\<And>h. hub_reachable h \<Longrightarrow> i \<in> set (hb_subscribers h) \<Longrightarrow>
      distinct (ids h) \<and> list_all (\<lambda>j. dget (hb_store h) j \<noteq> None) (ids h) \<and>
      (i \<in> set (ids h) \<longleftrightarrow> P (sb_channels (subscriber_at i h)) (sb_fresh (subscriber_at i h)))"
  shows "serves i (\<lambda>c f. if P c f then [json_dumps p] else [])
    (\<lambda>h. fst (offer_all (offer_market (json_dumps p)) (ids h) (fst (hub_encode p h))))"
proof (rule servesI)
  fix h assume h: "hub_reachable h" "i \<in> set (hb_subscribers h)"
  have store: "hb_store (fst (hub_encode p h)) = hb_store h" by (simp add: hub_encode_def)
  show "hub_reachable (fst (offer_all (offer_market (json_dumps p)) (ids h) (fst (hub_encode p h)))) \<and>
      hb_subscribers (fst (offer_all (offer_market (json_dumps p)) (ids h) (fst (hub_encode p h)))) = hb_subscribers h \<and>
      subscriber_at i (fst (offer_all (offer_market (json_dumps p)) (ids h) (fst (hub_encode p h)))) =
      offer_frames (if P (sb_channels (subscriber_at i h)) (sb_fresh (subscriber_at i h)) then [json_dumps p] else []) (subscriber_at i h)"
    using assms [OF h] h
    by (auto simp: subscriber_at_offer store intro!: offer_all_reachable encode_reachable)
qed

lemma listeners_iff:
  assumes "hub_reachable h" "i \<in> set (hb_subscribers h)"
  shows "i \<in> set (listeners ch h) \<longleftrightarrow> ch \<in> sb_channels (subscriber_at i h)"
  using hub_reachable_inv [OF assms(1)] assms(2) by (simp add: hub_inv_def listeners_def)

lemma distinct_listeners: "hub_reachable h \<Longrightarrow> distinct (listeners ch h)"
  using hub_reachable_inv [of h] by (simp add: hub_inv_def listeners_def)

lemma no_listeners:
  "hub_reachable h \<Longrightarrow> i \<in> set (hb_subscribers h) \<Longrightarrow> listeners ch h = [] \<Longrightarrow> ch \<notin> sb_channels (subscriber_at i h)"
  using listeners_iff [of h i ch] by simp

lemma serves_broadcast:
  "serves i (\<lambda>c f. if ch \<in> c then [json_dumps p] else []) (\<lambda>h. fst (encode_and_broadcast ch p h))"
proof -
  have eq: "fst (encode_and_broadcast ch p h) =
      fst (offer_all (offer_market (json_dumps p)) (listeners ch h) (fst (hub_encode p h)))" for h
    by (simp add: encode_and_broadcast_def broadcast_def hub_encode_def listeners_def)
  show ?thesis unfolding eq
    by (rule serves_offer)
       (simp_all only: listeners_iff distinct_listeners stored(2) hub_reachable_inv simp_thms)
qed

lemma serves_broadcast_all:
  "serves i (\<lambda>c f. [json_dumps p]) (\<lambda>h. fst (broadcast_all (json_dumps p) (fst (hub_encode p h))))"
proof -
  have eq: "fst (broadcast_all (json_dumps p) (fst (hub_encode p h))) =
      fst (offer_all (offer_market (json_dumps p)) (hb_subscribers h) (fst (hub_encode p h)))" for h
    by (simp add: broadcast_all_def)
  have "distinct (hb_subscribers h)" if "hub_reachable h" for h using hub_reachable_inv [OF that] by (simp add: hub_inv_def)
  then have "serves i (\<lambda>c f. if True then [json_dumps p] else [])
      (\<lambda>h. fst (offer_all (offer_market (json_dumps p)) (hb_subscribers h) (fst (hub_encode p h))))"
    by (intro serves_offer) (simp_all only: stored(3) hub_reachable_inv simp_thms)
  then show ?thesis unfolding eq by simp
qed

lemma serves_offer_book:
  "serves i (\<lambda>c f. if ch \<in> c \<and> (moved \<or> ch \<in> f) then [json_dumps p] else []) (\<lambda>h. fst (offer_book ch moved p h))"
proof (cases moved)
  case True
  have "fst (offer_book ch moved p h) = (if listeners ch h = [] then h else fst (encode_and_broadcast ch p h))" for h
    by (simp add: offer_book_def True Let_def)
  with serves_broadcast [of i ch p] show ?thesis
    by (auto simp: serves_def True dest: no_listeners)
next
  case False
  define joining where "joining h = filter (\<lambda>i. ch \<in> sb_fresh (subscriber_at i h)) (listeners ch h)" for h
  have eq: "fst (offer_book ch moved p h) =
      (if joining h = [] then h else fst (offer_all (offer_market (json_dumps p)) (joining h) (fst (hub_encode p h))))" for h
    by (simp add: offer_book_def False Let_def joining_def hub_encode_def)
  have joins: "distinct (joining h) \<and> list_all (\<lambda>j. dget (hb_store h) j \<noteq> None) (joining h) \<and>
      (i \<in> set (joining h) \<longleftrightarrow> ch \<in> sb_channels (subscriber_at i h) \<and> ch \<in> sb_fresh (subscriber_at i h))"
    if h: "hub_reachable h" "i \<in> set (hb_subscribers h)" for h
    using stored(2) [OF hub_reachable_inv [OF h(1)], of ch] listeners_iff [OF h, of ch] distinct_listeners [OF h(1), of ch]
    by (auto simp: joining_def list_all_iff)
  have "serves i (\<lambda>c f. if ch \<in> c \<and> ch \<in> f then [json_dumps p] else [])
      (\<lambda>h. fst (offer_all (offer_market (json_dumps p)) (joining h) (fst (hub_encode p h))))"
    using joins by (rule serves_offer)
  moreover have "\<not> (ch \<in> sb_channels (subscriber_at i h) \<and> ch \<in> sb_fresh (subscriber_at i h))"
    if "hub_reachable h" "i \<in> set (hb_subscribers h)" "joining h = []" for h
    using joins [OF that(1,2)] that(3) by simp
  ultimately show ?thesis
    unfolding eq by (auto simp: serves_def False)
qed

subsection \<open>The parts of a tick\<close>

lemma serves_books:
  "serves i (\<lambda>c f. book_frames c f offers) (\<lambda>h. fst (in_turn (map (\<lambda>(ch, moved, payload). offer_book ch moved payload) offers) h))"
proof -
  define F where "F x c f = (if fst x \<in> c \<and> (fst (snd x) \<or> fst x \<in> f) then [json_dumps (snd (snd x))] else [])"
    for x :: "string \<times> bool \<times> json" and c f :: "string set"
  have "serves i (F x) (\<lambda>h. fst ((case x of (ch, moved, payload) \<Rightarrow> offer_book ch moved payload) h))" for x
    by (cases x) (simp add: serves_offer_book F_def [abs_def] cong: if_cong)
  then have "serves i (\<lambda>c f. concat (map (\<lambda>x. F x c f) offers))
      (\<lambda>h. fst (in_turn (map (\<lambda>(ch, moved, payload). offer_book ch moved payload) offers) h))"
    by (rule serves_in_turn)
  moreover have "book_frames c f offers = concat (map (\<lambda>x. F x c f) offers)" for c f
    unfolding book_frames_def by (intro arg_cong [where f = concat] map_cong) (auto simp: F_def)
  ultimately show ?thesis by simp
qed

lemma serves_halt:
  "serves i (\<lambda>c f. case halt_due halt cf of None \<Rightarrow> [] | Some payload \<Rightarrow> [json_dumps payload]) (\<lambda>h. fst (snd (halt_frame halt cf h)))"
proof (cases "halt_due halt cf")
  case None
  then show ?thesis by (simp add: halt_frame_def serves_nothing)
next
  case (Some payload)
  have "fst (snd (halt_frame halt cf h)) = fst (broadcast_all (json_dumps payload) (fst (hub_encode payload h)))" for h
    by (simp add: halt_frame_def Some Let_def split_beta hub_encode_def)
  with serves_broadcast_all [of i payload] Some show ?thesis by simp
qed

lemma serves_prints:
  "serves i (\<lambda>c f. if ch \<in> c then map (json_dumps \<circ> tape_print s) trades else [])
    (\<lambda>h. fst (in_turn (map (\<lambda>tr. encode_and_broadcast ch (tape_print s tr)) trades) h))"
proof -
  have "serves i (\<lambda>c f. concat (map (\<lambda>tr. if ch \<in> c then [json_dumps (tape_print s tr)] else []) trades))
      (\<lambda>h. fst (in_turn (map (\<lambda>tr. encode_and_broadcast ch (tape_print s tr)) trades) h))"
    by (rule serves_in_turn) (rule serves_broadcast)
  moreover have "concat (map (\<lambda>tr. if b then [json_dumps (tape_print s tr)] else []) trades) =
      (if b then map (json_dumps \<circ> tape_print s) trades else [])" for b
    by (induction trades) auto
  ultimately show ?thesis by simp
qed

lemma tape_drain_eq: "tape_drain sy t = (t\<lparr>tape_pending := dpop sy (tape_pending t)\<rparr>, tape_waiting sy t)"
  by (simp add: tape_drain_def)

text \<open>The market after the tape part, which does not depend on who listens.\<close>

definition drained :: "(int \<times> symbol) list \<Rightarrow> market \<Rightarrow> market" where
  "drained symbols m = m\<lparr>mk_tape := fold (\<lambda>(sy, s) t. fst (tape_drain sy t)) symbols (mk_tape m)\<rparr>"

lemma tape_part_market: "fst (tape_part symbols (m, h)) = drained symbols m"
proof (induction symbols arbitrary: m h)
  case (Cons p rest)
  obtain sy s where p: "p = (sy, s)" by (cases p)
  show ?case
    by (simp add: p tape_drain_eq Let_def split_beta Cons.IH drained_def)
qed (simp add: drained_def)

text \<open>Draining symbol by symbol leaves the prints of the others where they are.\<close>

lemma waiting_drained:
  "tape_waiting sy (fst (tape_drain sy' t)) = (if sy = sy' then [] else tape_waiting sy t)"
  by (simp add: tape_drain_def tape_waiting_def)

lemma tape_frames_drained:
  "sy \<notin> fst ` set symbols \<Longrightarrow>
    tape_frames chs (m\<lparr>mk_tape := fst (tape_drain sy (mk_tape m))\<rparr>) symbols = tape_frames chs m symbols"
  unfolding tape_frames_def by (intro arg_cong [where f = concat] map_cong) (force simp: waiting_drained)+

lemma waiting_after:
  "tape_waiting sy (mk_tape (drained symbols m)) = (if sy \<in> fst ` set symbols then [] else tape_waiting sy (mk_tape m))"
proof -
  have "tape_waiting sy (fold (\<lambda>(sy, s) t. fst (tape_drain sy t)) symbols t) =
      (if sy \<in> fst ` set symbols then [] else tape_waiting sy t)" for t
    by (induction symbols arbitrary: t) (auto simp: waiting_drained)
  then show ?thesis by (simp add: drained_def)
qed

lemma serves_tape:
  assumes "distinct (map fst symbols)"
  shows "serves i (\<lambda>c f. tape_frames c m symbols) (\<lambda>h. fst (snd (tape_part symbols (m, h))))"
  using assms
proof (induction symbols arbitrary: m)
  case Nil
  then show ?case by (simp add: tape_frames_def serves_nothing)
next
  case (Cons p rest)
  obtain sy s where p: "p = (sy, s)" by (cases p)
  define ch where "ch = tape_channel s"
  define trades where "trades = tape_waiting sy (mk_tape m)"
  define m1 where "m1 = m\<lparr>mk_tape := fst (tape_drain sy (mk_tape m))\<rparr>"
  define first where "first h = (if trades = [] \<or> listeners ch h = [] then h
     else fst (in_turn (map (\<lambda>tr. encode_and_broadcast ch (tape_print s tr)) trades) h))" for h
  have "serves i (\<lambda>c f. if ch \<in> c then map (json_dumps \<circ> tape_print s) trades else []) first"
    using serves_prints [of i ch s trades] unfolding first_def
    by (cases "trades = []") (auto simp: serves_def dest: no_listeners)
  moreover have "serves i (\<lambda>c f. tape_frames c m1 rest) (\<lambda>h. fst (snd (tape_part rest (m1, h))))"
    using Cons by simp
  ultimately have both: "serves i (\<lambda>c f. (if ch \<in> c then map (json_dumps \<circ> tape_print s) trades else []) @ tape_frames c m1 rest)
      (\<lambda>h. fst (snd (tape_part rest (m1, first h))))"
    by (rule serves_then)
  have frames: "(if ch \<in> c then map (json_dumps \<circ> tape_print s) trades else []) @ tape_frames c m1 rest =
      tape_frames c m (p # rest)" for c
    using Cons.prems tape_frames_drained [of sy rest c m]
    by (simp add: m1_def p tape_frames_def ch_def trades_def)
  have "fst (snd (tape_part (p # rest) (m, h))) = fst (snd (tape_part rest (m1, first h)))" for h
    by (simp add: p tape_drain_def Let_def split_beta first_def m1_def trades_def ch_def)
  with both frames show ?case by simp
qed

lemma serves_bars:
  "serves i (\<lambda>c f. bar_frames c cf sq bars) (\<lambda>h. fst (in_turn (map (offer_bar cf sq) bars) h))"
proof -
  have one: "serves i (\<lambda>c f. case dget (cf_symbols cf) (bar_symbol_id b) of
                        None \<Rightarrow> []
                      | Some s \<Rightarrow> if bars_channel s (bar_bucket_seconds b) (cf_replay_ratio cf) \<in> c
                                  then [json_dumps (bar_close s b sq (cf_replay_ratio cf))] else [])
      (\<lambda>h. fst (offer_bar cf sq b h))" for b
  proof (cases "dget (cf_symbols cf) (bar_symbol_id b)")
    case None
    then show ?thesis by (simp add: offer_bar_def serves_nothing)
  next
    case (Some s)
    define ch where "ch = bars_channel s (bar_bucket_seconds b) (cf_replay_ratio cf)"
    have "fst (offer_bar cf sq b h) =
        (if listeners ch h = [] then h else fst (encode_and_broadcast ch (bar_close s b sq (cf_replay_ratio cf)) h))" for h
      by (simp add: offer_bar_def Some ch_def Let_def)
    with serves_broadcast [of i ch "bar_close s b sq (cf_replay_ratio cf)"] show ?thesis
      by (auto simp: serves_def Some ch_def [symmetric] dest: no_listeners)
  qed
  show ?thesis unfolding bar_frames_def by (rule serves_in_turn) (rule one)
qed

subsection \<open>The whole tick\<close>

definition tick_hub :: "halt_view option \<Rightarrow> int \<Rightarrow> conflator \<Rightarrow> market \<Rightarrow> hub \<Rightarrow> hub" where
  "tick_hub halt ts cf m h = fst (in_turn (map (offer_bar cf (mk_last_seq m)) (mk_closed_bars m))
     (fst (snd (tape_part (cf_symbols cf) (m\<lparr>mk_dirty := {}\<rparr>,
        fst (in_turn (map (\<lambda>(ch, moved, payload). offer_book ch moved payload)
               (concat (map (book_offers cf m (mk_dirty m) ts) (cf_symbols cf)))) (fst (snd (halt_frame halt cf h)))))))))"

lemma tick_eq:
  "fst (snd (fst (tick halt ts (cf, m, h)))) = (drained (cf_symbols cf) (m\<lparr>mk_dirty := {}\<rparr>))\<lparr>mk_closed_bars := []\<rparr>"
  "snd (snd (fst (tick halt ts (cf, m, h)))) = hub_flush (clear_fresh (tick_hub halt ts cf m h))"
proof -
  have cf: "cf_symbols (fst (halt_frame halt cf h)) = cf_symbols cf" "cf_depth (fst (halt_frame halt cf h)) = cf_depth cf"
    "cf_replay_ratio (fst (halt_frame halt cf h)) = cf_replay_ratio cf" for h
    by (simp_all add: halt_frame_def Let_def split_beta split: option.split)
  have offers: "book_offers (fst (halt_frame halt cf h)) (m\<lparr>mk_dirty := d\<rparr>) c ts = book_offers cf m c ts" for h c d
    by (simp add: book_offers_def cf fun_eq_iff split: option.split)
  have bar: "offer_bar (fst (halt_frame halt cf h)) sq = offer_bar cf sq" for h sq
    unfolding offer_bar_def cf ..
  show "fst (snd (fst (tick halt ts (cf, m, h)))) = (drained (cf_symbols cf) (m\<lparr>mk_dirty := {}\<rparr>))\<lparr>mk_closed_bars := []\<rparr>"
    by (simp add: tick_def Let_def split_beta books_part_def bars_part_def drain_dirty_def drain_closed_bars_def
        tape_part_market cf)
  show "snd (snd (fst (tick halt ts (cf, m, h)))) = hub_flush (clear_fresh (tick_hub halt ts cf m h))"
    by (simp add: tick_def Let_def split_beta books_part_def bars_part_def drain_dirty_def drain_closed_bars_def
        tape_part_market cf offers bar tick_hub_def) (simp add: drained_def)
qed

text \<open>C9. Delivery by channel is delivery by client: one tick hands a connection that is open and not being
  written exactly the frames it is owed -- the halt frame if the halt state moved, the book of every
  symbol that moved or was just subscribed, every print, every closed bar, of its channels only --
  in order; a busy one is skipped, and what was due is drained, whoever listens.\<close>

theorem tick_serves_each_client:
  assumes "tick halt ts (cf, m, h) = ((cf', m', h'), n)" "hub_reachable h" "i \<in> set (hb_subscribers h)"
    "wf_dict (cf_symbols cf)" "s = subscriber_at i h"
    "frames = client_frames halt ts cf m (sb_channels s) (sb_fresh s)"
  shows "sb_market (subscriber_at i h') = sb_market s @ (if sb_busy s \<or> sb_closed s then [] else frames) \<and>
    sb_skipped (subscriber_at i h') = sb_skipped s + (if sb_busy s \<and> \<not> sb_closed s then int (length frames) else 0) \<and>
    sb_fresh (subscriber_at i h') = {} \<and>
    (sb_closed s \<or> sb_market (subscriber_at i h') = [] \<or> sb_wake (subscriber_at i h')) \<and>
    mk_dirty m' = {} \<and> mk_closed_bars m' = [] \<and>
    concat (map (\<lambda>sy. tape_waiting sy (mk_tape m')) (dkeys (cf_symbols cf))) = []"
proof -
  define m2 where "m2 = m\<lparr>mk_dirty := {}\<rparr>"
  define r where "r = tick_hub halt ts cf m"
  have tape: "mk_tape m2 = mk_tape m" by (simp add: m2_def)
  have "tape_frames c m2 (cf_symbols cf) = tape_frames c m (cf_symbols cf)" for c
    unfolding tape_frames_def tape by simp
  then have "client_frames halt ts cf m = (\<lambda>c f. (((case halt_due halt cf of None \<Rightarrow> [] | Some payload \<Rightarrow> [json_dumps payload]) @
      book_frames c f (concat (map (book_offers cf m (mk_dirty m) ts) (cf_symbols cf)))) @ tape_frames c m2 (cf_symbols cf)) @
      bar_frames c cf (mk_last_seq m) (mk_closed_bars m))"
    by (simp add: client_frames_def fun_eq_iff)
  moreover have "serves i \<dots> r"
    unfolding r_def tick_hub_def [abs_def] m2_def
    by (intro serves_then serves_halt serves_books serves_tape serves_bars) (use assms(4) in \<open>simp add: wf_dict_def\<close>)
  ultimately have "serves i (client_frames halt ts cf m) r" by simp
  note r = servesD [OF this assms(2,3), folded assms(5), folded assms(6)]
  have out: "m' = (drained (cf_symbols cf) m2)\<lparr>mk_closed_bars := []\<rparr>" "h' = hub_flush (clear_fresh (r h))"
    using tick_eq [of halt ts cf m h] assms(1) by (simp_all add: m2_def r_def)
  have d: "distinct (hb_subscribers (r h))" "i \<in> set (hb_subscribers (r h))"
    using hub_reachable_inv [OF r(1)] assms(3) by (simp_all add: hub_inv_def r(2))
  have at: "subscriber_at i h' = sb_flush (fst (take_fresh (offer_frames frames s)))"
    using d by (simp add: out(2) hub_flush_def clear_fresh_def subscriber_at_offer r(3))
  have waiting: "concat (map (\<lambda>sy. tape_waiting sy (mk_tape m')) (dkeys (cf_symbols cf))) = []"
    by (auto simp: out(1) waiting_after)
  have "mk_dirty m' = {}" "mk_closed_bars m' = []" by (simp_all add: out(1) drained_def m2_def)
  moreover have "sb_market (subscriber_at i h') = sb_market (offer_frames frames s)"
    "sb_skipped (subscriber_at i h') = sb_skipped (offer_frames frames s)" "sb_fresh (subscriber_at i h') = {}"
    "sb_closed s \<or> sb_market (subscriber_at i h') = [] \<or> sb_wake (subscriber_at i h')"
    by (auto simp: at sb_flush_def hand_over_def take_fresh_def)
  ultimately show ?thesis using waiting by (simp add: offer_frames_eq)
qed

definition demo_symbols :: "symbol list" where
  "demo_symbols = [\<lparr> sm_symbol_id = 3, sm_name = ''QAA'', sm_tick_size_ticks = 100, sm_lot_size = 1 \<rparr>]"

definition demo_clients :: hub where
  "demo_clients = hub_subscribe 0 [''book:QAA:l1'', ''tape:QAA''] (hub_connect 0 41 new_hub)"

definition demo_market :: market where
  "demo_market = (new_market [1])
     \<lparr>mk_books := [(3, \<lparr> bk_symbol_id = 3, bk_orders = [(7, \<lparr> ro_order_id = 7, ro_side = 0, ro_price_ticks = 100, ro_remaining_qty = 5 \<rparr>)] \<rparr>)],
      mk_tape := \<lparr> tape_pending = [(3, [\<lparr> tr_symbol_id = 3, tr_price_ticks = 100, tr_qty = 2, tr_aggressor_side = 1,
                                       tr_timestamp_ns = 9, tr_seq = ''1-0'' \<rparr>])], tape_total = 1 \<rparr>\<rparr>"

lemma demo_clients_reachable: "hub_reachable demo_clients"
proof -
  have "hub_step (Connect 0 41) new_hub (hub_connect 0 41 new_hub)" by (rule connect) (simp add: new_hub_def)
  then have "hub_reachable (hub_connect 0 41 new_hub)" using hub_reachable.intros by blast
  moreover have "hub_step (Subscribe 0 [''book:QAA:l1'', ''tape:QAA'']) (hub_connect 0 41 new_hub) demo_clients"
    unfolding demo_clients_def by (rule subscribe) code_simp
  ultimately show ?thesis by (rule hub_reachable.step)
qed

theorem tick_serves_each_client_witness:
  "sb_market (subscriber_at 0 (snd (snd (fst (tick None 5 (new_conflator demo_symbols 10 1, demo_market, demo_clients)))))) =
    [json_dumps (book_l1 (hd demo_symbols) (mk_book 3 demo_market) ''0-0'' 5),
     json_dumps (tape_print (hd demo_symbols) (hd (tape_waiting 3 (mk_tape demo_market))))]"
proof -
  obtain cf' m' h' n where t: "tick None 5 (new_conflator demo_symbols 10 1, demo_market, demo_clients) = ((cf', m', h'), n)"
    by (metis prod_cases3 surj_pair)
  have i: "0 \<in> set (hb_subscribers demo_clients)" by code_simp
  have wf: "wf_dict (cf_symbols (new_conflator demo_symbols 10 1))" by code_simp
  have s: "sb_market (subscriber_at 0 demo_clients) = []" "\<not> sb_busy (subscriber_at 0 demo_clients)"
    "\<not> sb_closed (subscriber_at 0 demo_clients)" by code_simp+
  have f: "client_frames None 5 (new_conflator demo_symbols 10 1) demo_market (sb_channels (subscriber_at 0 demo_clients))
      (sb_fresh (subscriber_at 0 demo_clients)) =
    [json_dumps (book_l1 (hd demo_symbols) (mk_book 3 demo_market) ''0-0'' 5),
     json_dumps (tape_print (hd demo_symbols) (hd (tape_waiting 3 (mk_tape demo_market))))]"
    by code_simp
  from tick_serves_each_client [OF t demo_clients_reachable i wf refl refl] show ?thesis
    unfolding f using s by (simp add: t)
qed

subsection \<open>Serialisations\<close>

definition encodes :: "int \<Rightarrow> (hub \<Rightarrow> hub) \<Rightarrow> bool" where
  "encodes n r \<longleftrightarrow> (\<forall>h. serialisations (r h) \<le> serialisations h + n)"

lemma encodes_then: "encodes k r \<Longrightarrow> encodes n q \<Longrightarrow> encodes (k + n) (\<lambda>h. q (r h))"
  unfolding encodes_def by (metis add.commute add_left_mono group_cancel.add1 order_trans)

lemma encodes_mono: "encodes k r \<Longrightarrow> k \<le> n \<Longrightarrow> encodes n r"
  by (simp add: encodes_def) (meson add_left_mono order_trans)

lemma encodes_in_turn:
  "(\<And>x. x \<in> set xs \<Longrightarrow> encodes 1 (\<lambda>h. fst (R x h))) \<Longrightarrow> encodes (int (length xs)) (\<lambda>h. fst (in_turn (map R xs) h))"
proof (induction xs)
  case (Cons x xs)
  have "encodes (1 + int (length xs)) (\<lambda>h. fst (in_turn (map R xs) (fst (R x h))))"
    by (rule encodes_then) (simp_all add: Cons)
  then show ?case by (simp only: list.map in_turn_Cons length_Cons of_nat_Suc add.commute)
qed (simp add: encodes_def)

lemma encodes_broadcast: "encodes 1 (\<lambda>h. fst (encode_and_broadcast ch p h))"
  by (simp add: encodes_def encode_and_broadcast_def broadcast_def hub_encode_def Let_def)

lemma encodes_halt:
  "encodes (if halt_due halt cf = None then 0 else 1) (\<lambda>h. fst (snd (halt_frame halt cf h)))"
  by (simp add: encodes_def halt_frame_def Let_def split_beta broadcast_all_def hub_encode_def split: option.split)

lemma encodes_books:
  "encodes (2 * int (length symbols)) (\<lambda>h. fst (in_turn (map (\<lambda>(ch, moved, payload). offer_book ch moved payload)
     (concat (map (book_offers cf m d ts) symbols))) h))"
proof -
  have "encodes 1 (\<lambda>h. fst ((case x of (ch, moved, payload) \<Rightarrow> offer_book ch moved payload) h))" for x
    using encodes_broadcast
    by (cases x) (auto simp: encodes_def offer_book_def Let_def hub_encode_def)
  from encodes_in_turn [OF this, of "concat (map (book_offers cf m d ts) symbols)"]
  have *: "encodes (int (length (concat (map (book_offers cf m d ts) symbols)))) (\<lambda>h. fst (in_turn (map (\<lambda>(ch, moved, payload). offer_book ch moved payload)
     (concat (map (book_offers cf m d ts) symbols))) h))" .
  have two: "length (book_offers cf m d ts x) \<le> 2" for x
    by (cases x) (simp add: book_offers_def split: option.split)
  have "length (concat (map (book_offers cf m d ts) symbols)) \<le> 2 * length symbols"
  proof (induction symbols)
    case (Cons x symbols)
    then show ?case using two [of x] by simp
  qed simp
  then have "int (length (concat (map (book_offers cf m d ts) symbols))) \<le> 2 * int (length symbols)" by linarith
  with * show ?thesis by (rule encodes_mono)
qed

definition print_count :: "(int \<times> symbol) list \<Rightarrow> tape \<Rightarrow> int" where
  "print_count symbols t = (\<Sum>sy \<leftarrow> map fst symbols. int (length (tape_waiting sy t)))"

lemma encodes_tape:
  assumes "distinct (map fst symbols)"
  shows "encodes (print_count symbols (mk_tape m)) (\<lambda>h. fst (snd (tape_part symbols (m, h))))"
  using assms
proof (induction symbols arbitrary: m)
  case Nil
  then show ?case by (simp add: encodes_def print_count_def)
next
  case (Cons p rest)
  obtain sy s where p: "p = (sy, s)" by (cases p)
  define trades where "trades = tape_waiting sy (mk_tape m)"
  define m1 where "m1 = m\<lparr>mk_tape := fst (tape_drain sy (mk_tape m))\<rparr>"
  define first where "first h = (if trades = [] \<or> listeners (tape_channel s) h = [] then h
     else fst (in_turn (map (\<lambda>tr. encode_and_broadcast (tape_channel s) (tape_print s tr)) trades) h))" for h
  have "encodes (int (length trades)) first"
    using encodes_in_turn [where R = "\<lambda>tr. encode_and_broadcast (tape_channel s) (tape_print s tr)", OF encodes_broadcast, of trades]
    by (auto simp: encodes_def first_def)
  moreover have "encodes (print_count rest (mk_tape m1)) (\<lambda>h. fst (snd (tape_part rest (m1, h))))"
    using Cons by simp
  ultimately have both: "encodes (int (length trades) + print_count rest (mk_tape m1)) (\<lambda>h. fst (snd (tape_part rest (m1, first h))))"
    by (rule encodes_then)
  have same: "map (\<lambda>sy. int (length (tape_waiting sy (mk_tape m1)))) (map fst rest) =
      map (\<lambda>sy. int (length (tape_waiting sy (mk_tape m)))) (map fst rest)"
    using Cons.prems by (intro map_cong) (auto simp: m1_def waiting_drained p)
  have "int (length trades) + print_count rest (mk_tape m1) = print_count (p # rest) (mk_tape m)"
    unfolding print_count_def same by (simp add: trades_def p)
  moreover have "fst (snd (tape_part (p # rest) (m, h))) = fst (snd (tape_part rest (m1, first h)))" for h
    by (simp add: p tape_drain_def Let_def split_beta first_def m1_def trades_def)
  ultimately show ?case using both by simp
qed

lemma encodes_bars: "encodes (int (length bars)) (\<lambda>h. fst (in_turn (map (offer_bar cf sq) bars) h))"
proof (rule encodes_in_turn)
  fix b
  show "encodes 1 (\<lambda>h. fst (offer_bar cf sq b h))"
    using encodes_broadcast by (auto simp: encodes_def offer_bar_def Let_def split: option.split)
qed

text \<open>Serialisation happens once per symbol and channel, not per client: one tick encodes at most a halt
  frame, two books for every listed symbol, each waiting print and each closed bar once, however
  many connections there are.\<close>

theorem tick_encodes_once:
  assumes "tick halt ts (cf, m, h) = ((cf', m', h'), n)" "wf_dict (cf_symbols cf)"
  shows "serialisations h' \<le> serialisations h + (if halt_due halt cf = None then 0 else 1) +
    2 * int (length (cf_symbols cf)) + print_count (cf_symbols cf) (mk_tape m) + int (length (mk_closed_bars m))"
proof -
  have h': "serialisations h' = serialisations (tick_hub halt ts cf m h)"
    using tick_eq(2) [of halt ts cf m h] assms(1) by (simp add: hub_flush_def clear_fresh_def)
  have "distinct (map fst (cf_symbols cf))" using assms(2) by (simp add: wf_dict_def)
  note parts = encodes_then [OF encodes_then [OF encodes_then [OF encodes_halt encodes_books] encodes_tape [OF this]] encodes_bars]
  have "encodes ((if halt_due halt cf = None then 0 else 1) + 2 * int (length (cf_symbols cf)) +
      print_count (cf_symbols cf) (mk_tape (m\<lparr>mk_dirty := {}\<rparr>)) + int (length (mk_closed_bars m))) (tick_hub halt ts cf m)"
    unfolding tick_hub_def [abs_def] by (rule parts)
  then show ?thesis by (simp add: encodes_def h' algebra_simps)
qed

theorem tick_encodes_once_witness:
  "serialisations (snd (snd (fst (tick None 5 (new_conflator demo_symbols 10 1, demo_market, demo_clients))))) \<le> 3"
proof -
  obtain cf' m' h' n where t: "tick None 5 (new_conflator demo_symbols 10 1, demo_market, demo_clients) = ((cf', m', h'), n)"
    by (metis prod_cases3 surj_pair)
  have "wf_dict (cf_symbols (new_conflator demo_symbols 10 1))" by code_simp
  from tick_encodes_once [OF t this]
  have "serialisations h' \<le> serialisations demo_clients + (if halt_due None (new_conflator demo_symbols 10 1) = None then 0 else 1) +
    2 * int (length (cf_symbols (new_conflator demo_symbols 10 1))) + print_count (cf_symbols (new_conflator demo_symbols 10 1)) (mk_tape demo_market) +
    int (length (mk_closed_bars demo_market))" .
  also have "\<dots> = 3" by code_simp
  finally show ?thesis by (simp add: t)
qed

end
