(* ===== verification/Private_Router.thy ===== *)
theory Private_Router
  imports Messages Subscribers
begin

section \<open>The private stream: services/fanout/private.py\<close>

text \<open>
  \<open>PrivateRouter\<close> turns one outbound record into the messages it owes the users it names and
  numbers them per user. Its \<open>hub\<close> is passed along. The property is what the browser's gap
  detection rests on: what a connection receives is numbered without a gap or a repetition.
\<close>

record router =
  symbol_names :: "(int, string) dict"
  pr_seq :: "(int, int) dict"
  pr_delivered :: int

definition new_router :: "symbol list \<Rightarrow> router" where
  "new_router symbols =
     \<lparr> symbol_names = dict_of (map (\<lambda>s. (sm_symbol_id s, sm_name s)) symbols), pr_seq = [], pr_delivered = 0 \<rparr>"

definition symbol_name :: "int \<Rightarrow> router \<Rightarrow> json" where
  "symbol_name sy pr = jopt JStr (dget (symbol_names pr) sy)"

definition next_seq :: "int \<Rightarrow> router \<Rightarrow> router \<times> int" where
  "next_seq uid pr = (let nxt = dget0 (pr_seq pr) uid + 1 in (pr\<lparr>pr_seq := dset uid nxt (pr_seq pr)\<rparr>, nxt))"

type_synonym fields = "(string \<times> json) list"

definition messages_for :: "router \<Rightarrow> wire \<Rightarrow> (int \<times> fields) list" where
  "messages_for pr rec =
     (if is_OrderAccepted rec then
        [(user_id rec,
          [(''order_id'', JInt (order_id rec)), (''client_order_id'', JInt (client_order_id rec)),
           (''symbol'', symbol_name (symbol_id rec) pr), (''price_ticks'', JInt (price_ticks rec)),
           (''qty'', JInt (qty rec)), (''side'', JInt (side rec)), (''tif'', JInt (tif rec))])]
      else if is_OrderRejected rec then
        [(user_id rec,
          [(''order_id'', JNull), (''client_order_id'', JInt (client_order_id rec)),
           (''symbol'', symbol_name (symbol_id rec) pr), (''reason'', JInt (reason rec))])]
      else if is_Fill rec then
        (let common = [(''symbol'', symbol_name (symbol_id rec) pr), (''price_ticks'', JInt (price_ticks rec)),
                       (''qty'', JInt (qty rec)), (''aggressor_side'', JInt (aggressor_side rec))]
         in [(maker_user_id rec,
              [(''order_id'', JInt (maker_order_id rec)), (''client_order_id'', JNull)] @ common @ [(''role'', JStr ''maker'')]),
             (taker_user_id rec,
              [(''order_id'', JInt (taker_order_id rec)), (''client_order_id'', JNull)] @ common @ [(''role'', JStr ''taker'')])])
      else if is_OrderCancelled rec then
        [(user_id rec,
          [(''order_id'', JInt (order_id rec)), (''client_order_id'', JInt (client_order_id rec)),
           (''symbol'', symbol_name (symbol_id rec) pr), (''remaining_qty'', JInt (remaining_qty rec)),
           (''reason'', JInt (reason rec))])]
      else if is_AccountCreated rec then [(user_id rec, [(''initial_cash_ticks'', JInt (initial_cash_ticks rec))])]
      else if is_CashCredited rec then [(user_id rec, [(''amount_ticks'', JInt (amount_ticks rec))])]
      else [])"

text \<open>\<open>type(record).__name__\<close>, for the classes that have messages.\<close>

definition type_name :: "wire \<Rightarrow> string" where
  "type_name rec =
     (if is_OrderAccepted rec then ''OrderAccepted'' else if is_OrderRejected rec then ''OrderRejected''
      else if is_Fill rec then ''Fill'' else if is_OrderCancelled rec then ''OrderCancelled''
      else if is_AccountCreated rec then ''AccountCreated'' else if is_CashCredited rec then ''CashCredited'' else [])"

definition private_frame :: "wire \<Rightarrow> int \<Rightarrow> fields \<Rightarrow> json" where
  "private_frame rec n body = JObj
     ([(''ch'', JStr ''private''), (''type'', JStr (type_name rec)), (''seq'', JStr (str_int n)),
       (''ts_ns'', JInt (timestamp_ns (hdr rec)))] @ body)"

text \<open>One turn of the loop over the messages, and the loop.\<close>

definition route_one :: "wire \<Rightarrow> int \<times> fields \<Rightarrow> router \<times> hub \<times> int \<Rightarrow> router \<times> hub \<times> int" where
  "route_one rec = (\<lambda>(uid, body) (pr, h, delivered).
     if \<not> has_user uid h then (pr, h, delivered)
     else (let (pr', n) = next_seq uid pr;
               (h', frame) = hub_encode (private_frame rec n body) h;
               (h'', d) = to_user uid frame h'
           in (pr', h'', delivered + d)))"

definition route :: "wire \<Rightarrow> router \<times> hub \<Rightarrow> (router \<times> hub) \<times> int" where
  "route rec = (\<lambda>(pr, h).
     let (pr', h', delivered) = fold (route_one rec) (messages_for pr rec) (pr, h, 0)
     in ((pr'\<lparr>pr_delivered := pr_delivered pr' + delivered\<rparr>, h'), delivered))"

definition route_run :: "wire list \<Rightarrow> router \<times> hub \<Rightarrow> router \<times> hub" where
  "route_run = fold (\<lambda>rec rh. fst (route rec rh))"

subsection \<open>The numbers are dense\<close>

text \<open>What a user is owed for a list of records, and the frames numbered on from \<open>k\<close>.\<close>

definition addressed :: "router \<Rightarrow> int \<Rightarrow> wire \<Rightarrow> (wire \<times> fields) list" where
  "addressed pr u rec = map (\<lambda>m. (rec, snd m)) (filter (\<lambda>m. fst m = u) (messages_for pr rec))"

definition owed :: "router \<Rightarrow> int \<Rightarrow> wire list \<Rightarrow> (wire \<times> fields) list" where
  "owed pr u recs = concat (map (addressed pr u) recs)"

fun numbered :: "int \<Rightarrow> (wire \<times> fields) list \<Rightarrow> string list" where
  "numbered k [] = []"
| "numbered k ((rec, body) # ms) = json_dumps (private_frame rec (k + 1) body) # numbered (k + 1) ms"

lemma numbered_append: "numbered k (xs @ ys) = numbered k xs @ numbered (k + int (length xs)) ys"
  by (induction k xs rule: numbered.induct) (simp_all add: algebra_simps)

text \<open>Connection \<open>i\<close> of user \<open>u\<close> is open, holds \<open>q\<close> with room for \<open>m\<close>, and \<open>k\<close> numbers are used up.\<close>

definition at_number :: "int \<Rightarrow> nat \<Rightarrow> int \<Rightarrow> string list \<Rightarrow> int \<Rightarrow> router \<Rightarrow> hub \<Rightarrow> bool" where
  "at_number u i k q m pr h \<longleftrightarrow>
     hub_reachable h \<and> i \<in> set (hb_subscribers h) \<and> sb_user_id (subscriber_at i h) = u \<and>
     \<not> sb_closed (subscriber_at i h) \<and> sb_private_max (subscriber_at i h) = m \<and>
     sb_private (subscriber_at i h) = q \<and> dget0 (pr_seq pr) u = k"

lemma has_own_user:
  assumes "hub_reachable h" "i \<in> set (hb_subscribers h)"
  shows "has_user (sb_user_id (subscriber_at i h)) h"
proof -
  have "i \<in> set (held (hb_by_user h) (sb_user_id (subscriber_at i h)))"
    using hub_reachable_inv [OF assms(1)] assms(2) by (simp add: hub_inv_def)
  then show ?thesis by (auto simp: has_user_def)
qed

lemma route_one_eq:
  "route_one rec (v, body) (pr, h, d) =
     (if \<not> has_user v h then (pr, h, d)
      else (let n = dget0 (pr_seq pr) v + 1;
                h1 = fst (hub_encode (private_frame rec n body) h);
                r = to_user v (json_dumps (private_frame rec n body)) h1
            in (pr\<lparr>pr_seq := dset v n (pr_seq pr)\<rparr>, fst r, d + snd r)))"
  by (simp add: route_one_def next_seq_def hub_encode_def Let_def split_beta)

lemma offer_private_at:
  "\<not> sb_closed s \<Longrightarrow> int (length (sb_private s)) < sb_private_max s \<Longrightarrow>
    sb_private (fst (offer_private fr s)) = sb_private s @ [fr] \<and> sb_private_max (fst (offer_private fr s)) = sb_private_max s \<and>
    \<not> sb_closed (fst (offer_private fr s)) \<and> sb_user_id (fst (offer_private fr s)) = sb_user_id s"
  by (simp add: offer_private_def hand_over_def)

lemma route_one_own:
  assumes a: "at_number u i k q m pr h" and room: "int (length q) < m"
    and eq: "route_one rec (u, body) (pr, h, d) = (pr', h', d')"
  shows "at_number u i (k + 1) (q @ [json_dumps (private_frame rec (k + 1) body)]) m pr' h' \<and> symbol_names pr' = symbol_names pr"
proof -
  have h: "hub_reachable h" "i \<in> set (hb_subscribers h)" "sb_user_id (subscriber_at i h) = u"
    using a by (simp_all add: at_number_def)
  have "has_user u h" using has_own_user [OF h(1,2)] h(3) by simp
  then have out: "pr' = pr\<lparr>pr_seq := dset u (k + 1) (pr_seq pr)\<rparr>"
    "h' = fst (to_user u (json_dumps (private_frame rec (k + 1) body)) (fst (hub_encode (private_frame rec (k + 1) body) h)))"
    using eq a by (simp_all add: route_one_eq Let_def at_number_def)
  show ?thesis
    using offer_private_at [of "subscriber_at i h"] a room h
    by (auto simp: at_number_def out to_user_at encode_reachable to_user_reachable)
qed

lemma route_one_other:
  assumes a: "at_number u i k q m pr h" and "v \<noteq> u" and eq: "route_one rec (v, body) (pr, h, d) = (pr', h', d')"
  shows "at_number u i k q m pr' h' \<and> symbol_names pr' = symbol_names pr"
  using assms
  by (auto simp: route_one_eq Let_def at_number_def to_user_at encode_reachable to_user_reachable split: if_splits)

lemma route_fold:
  assumes "at_number u i k q m pr h" "int (length q + length (filter (\<lambda>x. fst x = u) ms)) \<le> m"
    "fold (route_one rec) ms (pr, h, d) = (pr', h', d')"
  shows "at_number u i (k + int (length (filter (\<lambda>x. fst x = u) ms)))
      (q @ numbered k (map (\<lambda>x. (rec, snd x)) (filter (\<lambda>x. fst x = u) ms))) m pr' h' \<and> symbol_names pr' = symbol_names pr"
  using assms
proof (induction ms arbitrary: k q pr h d)
  case (Cons x ms)
  obtain v body where x: "x = (v, body)" by (cases x)
  obtain pr1 h1 d1 where one: "route_one rec (v, body) (pr, h, d) = (pr1, h1, d1)" by (metis prod_cases3)
  have rest: "fold (route_one rec) ms (pr1, h1, d1) = (pr', h', d')" using Cons.prems(3) by (simp add: x one)
  show ?case
  proof (cases "v = u")
    case True
    have "at_number u i (k + 1) (q @ [json_dumps (private_frame rec (k + 1) body)]) m pr1 h1 \<and> symbol_names pr1 = symbol_names pr"
      by (rule route_one_own [OF Cons.prems(1)]) (use Cons.prems(2) one True in \<open>auto simp: x\<close>)
    then show ?thesis
      using Cons.IH [OF _ _ rest, of "k + 1" "q @ [json_dumps (private_frame rec (k + 1) body)]"] Cons.prems(2)
      by (simp add: x True algebra_simps)
  next
    case False
    then show ?thesis
      using Cons.IH [OF _ _ rest, of k q] route_one_other [OF Cons.prems(1) False one] Cons.prems(2) by (simp add: x)
  qed
qed simp

lemma messages_for_names: "symbol_names pr = symbol_names pr' \<Longrightarrow> messages_for pr rec = messages_for pr' rec"
  by (simp add: messages_for_def symbol_name_def)

lemma owed_names:
  assumes "symbol_names pr = symbol_names pr'"
  shows "owed pr u recs = owed pr' u recs"
proof -
  have "addressed pr u = addressed pr' u"
    by (rule ext) (simp only: addressed_def messages_for_names [OF assms])
  then show ?thesis by (simp add: owed_def)
qed

lemma route_run_at:
  assumes "at_number u i k q m pr h" "int (length q + length (owed pr u recs)) \<le> m"
  shows "at_number u i (k + int (length (owed pr u recs))) (q @ numbered k (owed pr u recs)) m
      (fst (route_run recs (pr, h))) (snd (route_run recs (pr, h)))"
  using assms
proof (induction recs arbitrary: k q pr h)
  case Nil
  then show ?case by (simp add: owed_def route_run_def)
next
  case (Cons rec recs)
  obtain pr1 h1 d1 where f: "fold (route_one rec) (messages_for pr rec) (pr, h, 0) = (pr1, h1, d1)" by (metis prod_cases3)
  define pr2 where "pr2 = pr1\<lparr>pr_delivered := pr_delivered pr1 + d1\<rparr>"
  have run: "route_run (rec # recs) (pr, h) = route_run recs (pr2, h1)"
    by (simp add: route_run_def route_def f pr2_def)
  have n: "length (filter (\<lambda>x. fst x = u) (messages_for pr rec)) = length (addressed pr u rec)" by (simp add: addressed_def)
  have split: "owed pr u (rec # recs) = addressed pr u rec @ owed pr u recs" by (simp add: owed_def)
  have room: "int (length q + length (filter (\<lambda>x. fst x = u) (messages_for pr rec))) \<le> m"
    using Cons.prems(2) unfolding n split by simp
  have "at_number u i (k + int (length (addressed pr u rec))) (q @ numbered k (addressed pr u rec)) m pr1 h1 \<and>
      symbol_names pr1 = symbol_names pr"
    using route_fold [OF Cons.prems(1) room f] by (simp only: n addressed_def [symmetric])
  then have a: "at_number u i (k + int (length (addressed pr u rec))) (q @ numbered k (addressed pr u rec)) m pr2 h1"
    and names: "symbol_names pr2 = symbol_names pr" by (simp_all add: at_number_def pr2_def)
  have len: "length (numbered k xs) = length xs" for k xs by (induction k xs rule: numbered.induct) simp_all
  show ?case
    using Cons.IH [OF a] Cons.prems(2)
    by (simp add: run owed_names [OF names] split numbered_append len algebra_simps)
qed

text \<open>C20. A user's private messages are numbered without a gap: whatever records are routed, an open
  connection of the user with room in its buffer is handed exactly the messages the records owe
  the user, in order, numbered one after another on from the user's last number.\<close>

theorem private_numbers_dense:
  assumes "hub_reachable h" "i \<in> set (hb_subscribers h)" "\<not> sb_closed (subscriber_at i h)"
    "u = sb_user_id (subscriber_at i h)"
    "int (length (sb_private (subscriber_at i h)) + length (owed pr u recs)) \<le> sb_private_max (subscriber_at i h)"
  shows "sb_private (subscriber_at i (snd (route_run recs (pr, h)))) =
      sb_private (subscriber_at i h) @ numbered (dget0 (pr_seq pr) u) (owed pr u recs) \<and>
    dget0 (pr_seq (fst (route_run recs (pr, h)))) u = dget0 (pr_seq pr) u + int (length (owed pr u recs))"
  using route_run_at [of u i "dget0 (pr_seq pr) u" "sb_private (subscriber_at i h)" "sb_private_max (subscriber_at i h)" pr h recs] assms
  by (simp add: at_number_def)

definition demo_hub :: hub where
  "demo_hub = hub_connect 3 41 new_hub"

definition demo_records :: "wire list" where
  "demo_records =
     [OrderAccepted (mk_header 2 10 1 0 99) 7 5 41 100 3 1 0 0,
      OrderAccepted (mk_header 2 10 1 1 99) 8 6 42 100 3 1 1 0,
      Fill (mk_header 2 12 1 2 99) 7 8 41 42 100 3 1 1]"

theorem private_numbers_dense_witness:
  "length (owed (new_router []) 41 demo_records) = 2 \<and>
    sb_private (subscriber_at 3 (snd (route_run demo_records (new_router [], demo_hub)))) =
      numbered 0 (owed (new_router []) 41 demo_records)"
proof -
  have "hub_step (Connect 3 41) new_hub demo_hub" unfolding demo_hub_def by (rule connect) (simp add: new_hub_def)
  then have r: "hub_reachable demo_hub" using hub_reachable.intros by blast
  have h: "3 \<in> set (hb_subscribers demo_hub)" "\<not> sb_closed (subscriber_at 3 demo_hub)" "41 = sb_user_id (subscriber_at 3 demo_hub)"
    "sb_private (subscriber_at 3 demo_hub) = []" "dget0 (pr_seq (new_router [])) 41 = 0"
    "int (length (sb_private (subscriber_at 3 demo_hub)) + length (owed (new_router []) 41 demo_records)) \<le> sb_private_max (subscriber_at 3 demo_hub)"
    "length (owed (new_router []) 41 demo_records) = 2"
    by code_simp+
  from private_numbers_dense [OF r h(1,2,3,6)] h(4,5,7) show ?thesis by simp
qed

end
