(* ===== verification/Idempotency.thy ===== *)
theory Idempotency
  imports Contracts Json
begin

section \<open>Outcomes by client order id: services/gateway/idempotency.py\<close>

text \<open>
  The outcome of a submission is stored under a key made of the user and the client order id:
  an acceptance by the script that appends the record, a rejection by \<open>record_rejected\<close>. What was
  stored is what a retry parses, and keys of different submissions differ.
\<close>

record idem_outcome =
  io_status :: json
  io_order_id :: json
  io_seq :: json
  io_reason :: json

definition IDEMPOTENCY_PREFIX :: string where
  "IDEMPOTENCY_PREFIX = ''qa.idempotent:''"

definition idem_key :: "int \<Rightarrow> int \<Rightarrow> string" where
  "idem_key uid coid = IDEMPOTENCY_PREFIX @ str_int uid @ CHR '':'' # str_int coid"

definition in_progress_outcome :: idem_outcome where
  "in_progress_outcome = \<lparr> io_status = JStr ''in_progress'', io_order_id = JNull, io_seq = JNull, io_reason = JNull \<rparr>"

definition rejected_outcome :: "string \<Rightarrow> idem_outcome" where
  "rejected_outcome why = \<lparr> io_status = JStr ''rejected'', io_order_id = JNull, io_seq = JNull, io_reason = JStr why \<rparr>"

definition to_dict :: "idem_outcome \<Rightarrow> (string \<times> json) list" where
  "to_dict out = filter (\<lambda>(k, v). v \<noteq> JNull)
     [(''status'', io_status out), (''order_id'', io_order_id out), (''seq'', io_seq out), (''reason'', io_reason out)]"

text \<open>\<open>cls(**d)\<close>: only the fields, and the status must be there.\<close>

definition field_or_null :: "string \<Rightarrow> (string \<times> json) list \<Rightarrow> json" where
  "field_or_null k kvs = (case dget kvs k of None \<Rightarrow> JNull | Some v \<Rightarrow> v)"

definition from_dict :: "json \<Rightarrow> exn + idem_outcome" where
  "from_dict d =
     (case d of
        JObj kvs \<Rightarrow>
          if dget kvs ''status'' \<noteq> None \<and> list_all (\<lambda>k. k \<in> {''status'', ''order_id'', ''seq'', ''reason''}) (dkeys kvs)
          then Inr \<lparr> io_status = field_or_null ''status'' kvs, io_order_id = field_or_null ''order_id'' kvs,
                     io_seq = field_or_null ''seq'' kvs, io_reason = field_or_null ''reason'' kvs \<rparr>
          else Inl TypeError
      | _ \<Rightarrow> Inl TypeError)"

definition parse_outcome :: "string \<Rightarrow> idem_outcome" where
  "parse_outcome raw =
     (case sbind (json_loads raw) from_dict of Inl e \<Rightarrow> in_progress_outcome | Inr out \<Rightarrow> out)"

text \<open>\<open>json.dumps\<close> with its default separators, for an object whose values are not containers.\<close>

fun commas :: "string list \<Rightarrow> string" where
  "commas [] = []"
| "commas [s] = s"
| "commas (s # t # ss) = s @ '', '' @ commas (t # ss)"

definition flat_dumps :: "(string \<times> json) list \<Rightarrow> string" where
  "flat_dumps kvs = CHR ''{'' # commas (map (\<lambda>(k, v). dump_str k @ '': '' @ json_dumps v) kvs) @ ''}''"

definition rejected_text :: "string \<Rightarrow> string" where
  "rejected_text why = flat_dumps (to_dict (rejected_outcome why))"

text \<open>What the script stores: the id between two pieces of text.\<close>

definition accepted_text :: "string \<Rightarrow> string" where
  "accepted_text sid =
     CHR ''{'' # quote # ''status'' @ quote # CHR '':'' # quote # ''accepted'' @ quote # CHR '','' # quote # ''seq'' @
       quote # CHR '':'' # quote # sid @ quote # ''}''"

subsection \<open>What was stored is what is parsed\<close>

lemma escape_plain: "list_all (\<lambda>c. is_digit c \<or> c = CHR ''-'') s \<Longrightarrow> concat (map escape_char s) = s"
proof (induction s)
  case (Cons c s)
  have "escape_char c = [c]" using Cons.prems
    by (auto simp: escape_char_def is_digit_def quote_def backslash_def Let_def)
  with Cons show ?case by simp
qed simp

lemma str_int_plain: "list_all (\<lambda>c. is_digit c \<or> c = CHR ''-'') (str_int n)"
  by (auto simp: str_int_def list_all_iff dest: str_nat_digits)

lemma stream_id_plain: "list_all (\<lambda>c. is_digit c \<or> c = CHR ''-'') (stream_id ms ord)"
  using str_int_plain [of ms] str_int_plain [of ord] by (simp add: stream_id_def)

lemma accepted_text_dumps:
  "accepted_text (stream_id ms ord) = json_dumps (JObj [(''status'', JStr ''accepted''), (''seq'', JStr (stream_id ms ord))])"
proof -
  have "dump_str ''status'' = quote # ''status'' @ [quote]" "dump_str ''accepted'' = quote # ''accepted'' @ [quote]"
    "dump_str ''seq'' = quote # ''seq'' @ [quote]" by code_simp+
  moreover have "dump_str (stream_id ms ord) = quote # stream_id ms ord @ [quote]"
    by (simp add: dump_str_def escape_plain stream_id_plain)
  ultimately show ?thesis by (simp add: accepted_text_def)
qed

lemma parse_accepted:
  "parse_outcome (accepted_text (stream_id ms ord)) =
    \<lparr> io_status = JStr ''accepted'', io_order_id = JNull, io_seq = JStr (stream_id ms ord), io_reason = JNull \<rparr>"
proof -
  have "json_loads (accepted_text (stream_id ms ord)) = Inr (JObj [(''status'', JStr ''accepted''), (''seq'', JStr (stream_id ms ord))])"
    unfolding accepted_text_dumps by (rule json_loads_dumps) simp
  then show ?thesis by (simp add: parse_outcome_def from_dict_def field_or_null_def)
qed

lemma ws_plain [simp]: "ws (CHR '' '' # s) = ws s"
  by (simp add: ws_def)

lemma parse_rejected: "parse_outcome (rejected_text why) = rejected_outcome why"
proof -
  define body where "body = concat (map escape_char why)"
  have d: "dump_str ''status'' = quote # ''status'' @ [quote]" "dump_str ''reason'' = quote # ''reason'' @ [quote]"
    "dump_str ''rejected'' = quote # ''rejected'' @ [quote]" by code_simp+
  have shape: "rejected_text why =
      CHR ''{'' # quote # ''status'' @ quote # CHR '':'' # CHR '' '' # quote # ''rejected'' @ quote # CHR '','' # CHR '' '' #
      quote # ''reason'' @ quote # CHR '':'' # CHR '' '' # quote # body @ quote # ''}''"
    by (simp add: rejected_text_def flat_dumps_def to_dict_def rejected_outcome_def d dump_str_def [of why] body_def)
  have keys: "parse_str (''status'' @ quote # r) = Some (''status'', r)" "parse_str (''rejected'' @ quote # r) = Some (''rejected'', r)"
    "parse_str (''reason'' @ quote # r) = Some (''reason'', r)" "parse_str (body @ quote # r) = Some (why, r)" for r
    using parse_str_escapes [of "''status''" r] parse_str_escapes [of "''rejected''" r] parse_str_escapes [of "''reason''" r]
      parse_str_escapes [of why r]
    by (simp_all add: body_def escape_char_def quote_def backslash_def)
  have q: "quote \<noteq> CHR ''{''" "quote \<noteq> CHR ''['' " "quote \<noteq> CHR ''}''" "quote \<noteq> CHR '' ''" by (simp_all add: quote_def)
  have wsq: "ws (quote # r) = quote # r" for r by (simp add: ws_def quote_def)
  have val: "parse_val (Suc n) (quote # r) = map_option (\<lambda>(t, r'). (JStr t, r')) (parse_str r)" for n r
    by (simp add: parse_val.simps)
  have member: "parse_members (Suc (Suc n)) (quote # k @ quote # CHR '':'' # CHR '' '' # quote # v @ quote # rest) =
      (case ws rest of
         [] \<Rightarrow> None
       | d # t' \<Rightarrow> if d = CHR '','' then map_option (\<lambda>(kvs, t''). ((k', JStr v') # kvs, t'')) (parse_members (Suc n) (ws t'))
                   else if d = CHR ''}'' then Some ([(k', JStr v')], t') else None)"
    if "\<And>r. parse_str (k @ quote # r) = Some (k', r)" "\<And>r. parse_str (v @ quote # r) = Some (v', r)" for n k v k' v' rest
    using that by (simp add: parse_members.simps(2) [of "Suc n"] val wsq)
  have "parse_members (Suc (Suc (Suc (Suc n)))) (quote # ''status'' @ quote # CHR '':'' # CHR '' '' # quote # ''rejected'' @ quote # CHR '','' # CHR '' '' #
      quote # ''reason'' @ quote # CHR '':'' # CHR '' '' # quote # body @ quote # ''}'') =
      Some ([(''status'', JStr ''rejected''), (''reason'', JStr why)], [])" for n
    using member [OF keys(1,2), of "Suc (Suc n)"] member [OF keys(3,4), of "Suc n" "''}''"]
    by (simp add: wsq)
  moreover have "\<exists>n. length (rejected_text why) = Suc (Suc (Suc (Suc n)))" by (simp add: shape)
  ultimately have "json_loads (rejected_text why) = Inr (JObj (dict_of [(''status'', JStr ''rejected''), (''reason'', JStr why)]))"
    unfolding json_loads_def shape by (auto simp: parse_val.simps q q [symmetric] wsq ws_def [of "CHR ''{'' # _"] split: option.splits)
  then show ?thesis
    by (simp add: parse_outcome_def from_dict_def field_or_null_def rejected_outcome_def dict_of_def)
qed

lemma stored_texts:
  "accepted_text (stream_id a b) = accepted_text (stream_id c d) \<longleftrightarrow> stream_id a b = stream_id c d"
  "accepted_text (stream_id a b) \<noteq> rejected_text why"
  "rejected_text why = rejected_text why' \<longleftrightarrow> why = why'"
proof -
  show "accepted_text (stream_id a b) = accepted_text (stream_id c d) \<longleftrightarrow> stream_id a b = stream_id c d"
    by (auto simp: accepted_text_def)
  show "accepted_text (stream_id a b) \<noteq> rejected_text why"
  proof
    assume "accepted_text (stream_id a b) = rejected_text why"
    then have "io_status (parse_outcome (accepted_text (stream_id a b))) = io_status (rejected_outcome why)"
      by (simp only: parse_rejected)
    then show False by (simp add: parse_accepted rejected_outcome_def)
  qed
  show "rejected_text why = rejected_text why' \<longleftrightarrow> why = why'"
  proof
    assume "rejected_text why = rejected_text why'"
    then have "rejected_outcome why = rejected_outcome why'" by (metis parse_rejected)
    then show "why = why'" by (simp add: rejected_outcome_def)
  qed simp
qed

lemma idem_key_inj:
  assumes "0 \<le> u" "0 \<le> c" "0 \<le> u'" "0 \<le> c'"
  shows "idem_key u c = idem_key u' c' \<longleftrightarrow> u = u' \<and> c = c'"
proof
  have plain: "CHR '':'' \<notin> set (str_int n)" for n
    using str_int_plain [of n] by (auto simp: list_all_iff is_digit_def)
  have both: "parse_int (fst (partition_at CHR '':'' (str_int u @ CHR '':'' # str_int c))) = Inr u"
    "parse_int (snd (partition_at CHR '':'' (str_int u @ CHR '':'' # str_int c))) = Inr c" if "0 \<le> u" "0 \<le> c" for u c
    using that by (simp_all add: partition_at_append plain parse_int_str_int)
  assume "idem_key u c = idem_key u' c'"
  then have "str_int u @ CHR '':'' # str_int c = str_int u' @ CHR '':'' # str_int c'" by (simp add: idem_key_def)
  with both [OF assms(1,2)] both [OF assms(3,4)] show "u = u' \<and> c = c'" by simp
qed simp

end
