(* ===== verification/Streams.thy ===== *)
theory Streams
  imports Contracts Halt
begin

section \<open>The stream producer: services/gateway/streams.py\<close>

text \<open>
  \<open>StreamProducer\<close> queues appends and writes whatever has queued as one pipeline. A caller awaits a
  future; a future is a number here, and \<open>pr_results\<close> holds the ones that are done. The producer's
  coroutines are cut at their awaits: an append enqueues, the loop takes a batch, the pipeline's
  outcome arrives, the task is cancelled. Redis is the outcome argument. A caller may also go
  away, which completes its future (\<open>Caller_Gone\<close>).

  The properties: each answered append got its own command's reply, once; while the loop runs
  no append is lost, and rounds of it answer the whole queue; and when it has stopped
  nothing that was accepted while it ran is left waiting.
\<close>

subsection \<open>Requests and results\<close>

record request =
  rq_stream :: string
  rq_payload :: bytes
  rq_future :: nat
  rq_key :: "string option"
  rq_ttl :: int

datatype failure = Exchange_Halted string | Redis_Error

datatype outcome =
    Stream_Id string
  | Claimed_Append "string option" "string option"
  | Raised failure
  | Caller_Gone

datatype pipe_reply = Value_Reply string | Script_Reply bool string | Error_Reply

datatype pipe_outcome = Replies "pipe_reply list" | Lost_Connection string | Refused

record producer =
  pr_queue :: "request list"
  pr_batch :: "request list"
  pr_alive :: bool
  pr_halt :: halt_state
  pr_batch_max :: nat
  pr_results :: "(nat, outcome) dict"
  batches_flushed :: int
  records_written :: int
  max_batch :: int

definition new_producer :: "nat \<Rightarrow> producer" where
  "new_producer n =
     \<lparr> pr_queue = [], pr_batch = [], pr_alive = True, pr_halt = new_halt, pr_batch_max = n, pr_results = [],
       batches_flushed = 0, records_written = 0, max_batch = 0 \<rparr>"

subsection \<open>Answering\<close>

definition is_done :: "producer \<Rightarrow> nat \<Rightarrow> bool" where
  "is_done p f \<longleftrightarrow> dget (pr_results p) f \<noteq> None"

text \<open>\<open>if not item.future.done(): item.future.set_result(\<dots>)\<close>, and for a whole batch.\<close>

definition settle :: "nat \<Rightarrow> outcome \<Rightarrow> producer \<Rightarrow> producer" where
  "settle f out p = (if is_done p f then p else p\<lparr>pr_results := dset f out (pr_results p)\<rparr>)"

definition fail_all :: "request list \<Rightarrow> failure \<Rightarrow> producer \<Rightarrow> producer" where
  "fail_all items e p = fold (\<lambda>it. settle (rq_future it) (Raised e)) items p"

definition drain_and_fail :: "failure \<Rightarrow> producer \<Rightarrow> producer" where
  "drain_and_fail e p = (fail_all (pr_queue p) e p)\<lparr>pr_queue := []\<rparr>"

subsection \<open>Appending\<close>

definition halt_now :: "int \<Rightarrow> string \<Rightarrow> string option \<Rightarrow> producer \<Rightarrow> producer" where
  "halt_now now why detail p = p\<lparr>pr_halt := halt_halt now why detail (pr_halt p)\<rparr>"

definition enqueue_request :: "request \<Rightarrow> producer \<Rightarrow> producer" where
  "enqueue_request rq p = p\<lparr>pr_queue := pr_queue p @ [rq]\<rparr>"

text \<open>\<open>append\<close> up to its await: a refusal, or the record queued under the future \<open>f\<close>.\<close>

definition producer_append ::
  "int \<Rightarrow> nat \<Rightarrow> string \<Rightarrow> wire \<Rightarrow> producer \<Rightarrow> producer \<times> (exn + failure option)" where
  "producer_append now f stream rec p =
     (if hs_halted (pr_halt p)
      then (p, Inr (Some (Exchange_Halted (case hs_reason (pr_halt p) of
              Some why \<Rightarrow> if why \<noteq> [] then why else REDIS_UNREACHABLE | None \<Rightarrow> REDIS_UNREACHABLE))))
      else if \<not> pr_alive p
      then (halt_now now PRODUCER_STOPPED (Some ''stream producer is not running'') p, Inr (Some (Exchange_Halted PRODUCER_STOPPED)))
      else (case pack rec of
              Inl e \<Rightarrow> (p, Inl e)
            | Inr bs \<Rightarrow>
                (enqueue_request \<lparr> rq_stream = stream, rq_payload = bs, rq_future = f, rq_key = None, rq_ttl = 0 \<rparr> p, Inr None)))"

definition claim_and_append ::
  "nat \<Rightarrow> string \<Rightarrow> wire \<Rightarrow> string \<Rightarrow> int \<Rightarrow> producer \<Rightarrow> producer \<times> (exn + unit)" where
  "claim_and_append f stream rec key ttl p =
     (case pack rec of
        Inl e \<Rightarrow> (p, Inl e)
      | Inr bs \<Rightarrow>
          (enqueue_request \<lparr> rq_stream = stream, rq_payload = bs, rq_future = f, rq_key = Some key, rq_ttl = ttl \<rparr> p, Inr ()))"

subsection \<open>The loop\<close>

text \<open>\<open>_loop\<close> takes the first request and everything queued behind it, up to the batch size.\<close>

definition take_batch :: "producer \<Rightarrow> producer" where
  "take_batch p =
     (if pr_alive p \<and> pr_batch p = [] \<and> pr_queue p \<noteq> []
      then (let n = max 1 (pr_batch_max p)
            in p\<lparr>pr_batch := take n (pr_queue p), pr_queue := drop n (pr_queue p)\<rparr>)
      else p)"

definition result_of :: "request \<Rightarrow> pipe_reply \<Rightarrow> outcome" where
  "result_of it r =
     (case r of
        Error_Reply \<Rightarrow> Raised Redis_Error
      | Script_Reply appended v \<Rightarrow> if appended then Claimed_Append (Some v) None else Claimed_Append None (Some v)
      | Value_Reply v \<Rightarrow> Stream_Id v)"

definition flush_batch :: "int \<Rightarrow> pipe_outcome \<Rightarrow> request list \<Rightarrow> producer \<Rightarrow> producer" where
  "flush_batch now out items p =
     (case out of
        Lost_Connection err \<Rightarrow>
          fail_all items (Exchange_Halted REDIS_UNREACHABLE) (halt_now now REDIS_UNREACHABLE (Some err) p)
      | Refused \<Rightarrow> fail_all items Redis_Error p
      | Replies ids \<Rightarrow>
          (let p1 = p\<lparr>batches_flushed := batches_flushed p + 1,
                      records_written := records_written p + int (length items),
                      max_batch := max (max_batch p) (int (length items))\<rparr>;
               p2 = fold (\<lambda>(it, r). settle (rq_future it) (result_of it r)) (zip items ids) p1
           in if length ids < length items then fail_all (drop (length ids) items) Redis_Error p2 else p2))"

definition flush_current :: "int \<Rightarrow> pipe_outcome \<Rightarrow> producer \<Rightarrow> producer" where
  "flush_current now out p = (flush_batch now out (pr_batch p) p)\<lparr>pr_batch := []\<rparr>"

text \<open>
  The task ends, by \<open>stop\<close> or otherwise: the batch in flight is failed, the exchange halts and the
  queue is drained. \<open>stop\<close> drains once more, which finds nothing unless the task never ran.
\<close>

definition producer_stops :: "int \<Rightarrow> producer \<Rightarrow> producer" where
  "producer_stops now p =
     (let p1 = (fail_all (pr_batch p) (Exchange_Halted PRODUCER_STOPPED) p)\<lparr>pr_batch := []\<rparr>;
          p2 = halt_now now PRODUCER_STOPPED (Some ''stream producer stopped'') p1
      in (drain_and_fail (Exchange_Halted PRODUCER_STOPPED) p2)\<lparr>pr_alive := False\<rparr>)"

subsection \<open>An atomic append, and reading\<close>

text \<open>\<open>append_atomic\<close>: \<open>reply\<close> is the ids of the transaction, or the error's text.\<close>

definition append_atomic ::
  "int \<Rightarrow> string + string list \<Rightarrow> wire list \<Rightarrow> producer \<Rightarrow> producer \<times> (exn + (failure + string list))" where
  "append_atomic now reply recs p =
     (if recs = [] then (p, Inr (Inr []))
      else if hs_halted (pr_halt p)
      then (p, Inr (Inl (Exchange_Halted (case hs_reason (pr_halt p) of
              Some why \<Rightarrow> if why \<noteq> [] then why else REDIS_UNREACHABLE | None \<Rightarrow> REDIS_UNREACHABLE))))
      else (case each pack recs of
              Inl e \<Rightarrow> (p, Inl e)
            | Inr payloads \<Rightarrow>
                (case reply of
                   Inl err \<Rightarrow> (halt_now now REDIS_UNREACHABLE (Some err) p, Inr (Inl (Exchange_Halted REDIS_UNREACHABLE)))
                 | Inr ids \<Rightarrow>
                     (p\<lparr>batches_flushed := batches_flushed p + 1,
                        records_written := records_written p + int (length recs),
                        max_batch := max (max_batch p) (int (length recs))\<rparr>, Inr (Inr ids)))))"

definition RECORD_FIELD :: string where
  "RECORD_FIELD = ''r''"

definition read_entry :: "string \<times> (string, bytes) dict \<Rightarrow> exn + (string \<times> wire)" where
  "read_entry = (\<lambda>(sid, fields).
     case dget fields RECORD_FIELD of
       None \<Rightarrow> Inl KeyError
     | Some payload \<Rightarrow> sbind (unpack_any payload) (\<lambda>rec. sbind (with_seq rec sid) (\<lambda>r. Inr (sid, r))))"

definition read_records :: "(string \<times> (string, bytes) dict) list \<Rightarrow> exn + (string \<times> wire) list" where
  "read_records entries = each read_entry entries"

subsection \<open>Futures\<close>

lemma is_done_settle [simp]: "is_done (settle f out p) g \<longleftrightarrow> g = f \<or> is_done p g"
  by (simp add: settle_def is_done_def)

lemma settle_sel [simp]:
  "pr_queue (settle f out p) = pr_queue p" "pr_batch (settle f out p) = pr_batch p" "pr_alive (settle f out p) = pr_alive p"
  "pr_halt (settle f out p) = pr_halt p" "pr_batch_max (settle f out p) = pr_batch_max p"
  by (simp_all add: settle_def)

lemma settle_result:
  "dget (pr_results (settle f out p)) g = (if g = f \<and> \<not> is_done p f then Some out else dget (pr_results p) g)"
  by (auto simp: settle_def is_done_def)

lemma fail_all_sel [simp]:
  "pr_queue (fail_all items e p) = pr_queue p" "pr_batch (fail_all items e p) = pr_batch p"
  "pr_alive (fail_all items e p) = pr_alive p" "pr_batch_max (fail_all items e p) = pr_batch_max p"
  "is_done (fail_all items e p) g \<longleftrightarrow> g \<in> rq_future ` set items \<or> is_done p g"
  unfolding fail_all_def by (induction items arbitrary: p) auto

lemma fail_all_result:
  "dget (pr_results (fail_all items e p)) g =
    (if g \<in> rq_future ` set items \<and> \<not> is_done p g then Some (Raised e) else dget (pr_results p) g)"
proof (induction items arbitrary: p)
  case (Cons it items)
  have step: "fail_all (it # items) e p = fail_all items e (settle (rq_future it) (Raised e) p)" by (simp add: fail_all_def)
  show ?case
    unfolding step Cons.IH by (cases "g = rq_future it"; cases "is_done p g") (simp_all add: settle_result)
qed (simp add: fail_all_def)

lemma halt_now_sel [simp]:
  "pr_queue (halt_now now w d p) = pr_queue p" "pr_batch (halt_now now w d p) = pr_batch p"
  "pr_alive (halt_now now w d p) = pr_alive p" "pr_results (halt_now now w d p) = pr_results p"
  "is_done (halt_now now w d p) g = is_done p g"
  by (simp_all add: halt_now_def is_done_def)

lemma is_done_update [simp]:
  "is_done (p\<lparr>pr_queue := q\<rparr>) g = is_done p g" "is_done (p\<lparr>pr_batch := b\<rparr>) g = is_done p g"
  "is_done (p\<lparr>pr_alive := a\<rparr>) g = is_done p g"
  "is_done (p\<lparr>batches_flushed := i, records_written := j, max_batch := k\<rparr>) g = is_done p g"
  by (simp_all add: is_done_def)

definition settle_replies :: "request list \<Rightarrow> pipe_reply list \<Rightarrow> producer \<Rightarrow> producer" where
  "settle_replies items ids = fold (\<lambda>(it, r). settle (rq_future it) (result_of it r)) (zip items ids)"

lemma settle_replies_sel [simp]:
  "pr_queue (settle_replies items ids p) = pr_queue p" "pr_batch (settle_replies items ids p) = pr_batch p"
  "pr_alive (settle_replies items ids p) = pr_alive p"
  "is_done (settle_replies items ids p) g \<longleftrightarrow> g \<in> rq_future ` set (take (length ids) items) \<or> is_done p g"
proof -
  have "pr_queue (settle_replies items ids p) = pr_queue p \<and> pr_batch (settle_replies items ids p) = pr_batch p \<and>
      pr_alive (settle_replies items ids p) = pr_alive p \<and>
      (is_done (settle_replies items ids p) g \<longleftrightarrow> g \<in> rq_future ` set (take (length ids) items) \<or> is_done p g)"
    unfolding settle_replies_def by (induction items ids arbitrary: p rule: list_induct2') auto
  then show "pr_queue (settle_replies items ids p) = pr_queue p" "pr_batch (settle_replies items ids p) = pr_batch p"
    "pr_alive (settle_replies items ids p) = pr_alive p"
    "is_done (settle_replies items ids p) g \<longleftrightarrow> g \<in> rq_future ` set (take (length ids) items) \<or> is_done p g" by blast+
qed

lemma flush_batch_sel [simp]:
  "pr_queue (flush_batch now out items p) = pr_queue p" "pr_batch (flush_batch now out items p) = pr_batch p"
  "pr_alive (flush_batch now out items p) = pr_alive p"
  by (simp_all add: flush_batch_def Let_def settle_replies_def [symmetric] split: pipe_outcome.split)

lemma flush_batch_done [simp]:
  "is_done (flush_batch now out items p) g \<longleftrightarrow> g \<in> rq_future ` set items \<or> is_done p g"
proof (cases out)
  case (Replies ids)
  show ?thesis
  proof (cases "length ids < length items")
    case True
    have "set items = set (take (length ids) items) \<union> set (drop (length ids) items)"
      by (metis append_take_drop_id set_append)
    then show ?thesis using True by (auto simp: Replies flush_batch_def Let_def settle_replies_def [symmetric])
  qed (simp add: Replies flush_batch_def Let_def settle_replies_def [symmetric])
qed (auto simp: flush_batch_def)

subsection \<open>Each append gets its own reply\<close>

lemma settle_replies_result:
  assumes "distinct (map rq_future items)" "list_all (\<lambda>it. \<not> is_done p (rq_future it)) items" "i < length items" "i < length ids"
  shows "dget (pr_results (settle_replies items ids p)) (rq_future (items ! i)) = Some (result_of (items ! i) (ids ! i))"
  using assms
proof (induction items ids arbitrary: p i rule: list_induct2')
  case (4 it items r ids)
  define p1 where "p1 = settle (rq_future it) (result_of it r) p"
  have run: "settle_replies (it # items) (r # ids) p = settle_replies items ids p1"
    by (simp add: settle_replies_def p1_def)
  show ?case
  proof (cases i)
    case 0
    have "rq_future it \<notin> rq_future ` set (take (length ids) items)" using "4.prems"(1) by (auto dest: in_set_takeD)
    moreover have "dget (pr_results (settle_replies xs ys q)) f = dget (pr_results q) f"
      if "f \<notin> rq_future ` set (take (length ys) xs)" for xs ys q f
      using that unfolding settle_replies_def
      by (induction xs ys arbitrary: q rule: list_induct2') (auto simp: settle_result)
    ultimately show ?thesis using "4.prems"(2) by (simp add: 0 run) (simp add: p1_def settle_result)
  next
    case (Suc j)
    have "list_all (\<lambda>it. \<not> is_done p1 (rq_future it)) items"
      using "4.prems"(1,2) by (auto simp: list_all_iff p1_def image_iff)
    then show ?thesis using "4.IH" [of p1 j] "4.prems" by (simp add: Suc run)
  qed
qed simp_all

text \<open>C16. Group commit keeps the answers apart: when a pipeline of appends comes back, every append still
  waited for is answered with the reply to its own command -- an id, the outcome of its claim, or its
  own error -- whatever happened to the others, and those past the end of a short reply are failed.\<close>

theorem each_append_gets_its_reply:
  assumes "distinct (map rq_future items)" "list_all (\<lambda>it. \<not> is_done p (rq_future it)) items" "i < length items"
  shows "dget (pr_results (flush_batch now (Replies ids) items p)) (rq_future (items ! i)) =
    Some (if i < length ids then result_of (items ! i) (ids ! i) else Raised Redis_Error)"
proof -
  define p1 where "p1 = p\<lparr>batches_flushed := batches_flushed p + 1, records_written := records_written p + int (length items),
                      max_batch := max (max_batch p) (int (length items))\<rparr>"
  define p2 where "p2 = settle_replies items ids p1"
  have p1: "list_all (\<lambda>it. \<not> is_done p1 (rq_future it)) items" using assms(2) by (simp add: p1_def)
  have out: "flush_batch now (Replies ids) items p = (if length ids < length items then fail_all (drop (length ids) items) Redis_Error p2 else p2)"
    by (simp add: flush_batch_def Let_def p1_def p2_def settle_replies_def)
  have nth: "rq_future (items ! i) = map rq_future items ! i" using assms(3) by simp
  show ?thesis
  proof (cases "i < length ids")
    case True
    have own: "dget (pr_results p2) (rq_future (items ! i)) = Some (result_of (items ! i) (ids ! i))"
      unfolding p2_def by (rule settle_replies_result [OF assms(1) p1 assms(3) True])
    then have "is_done p2 (rq_future (items ! i))" by (simp add: is_done_def)
    then show ?thesis using own True by (simp add: out fail_all_result)
  next
    case False
    have "items ! i = drop (length ids) items ! (i - length ids)" "i - length ids < length (drop (length ids) items)"
      using False assms(3) by simp_all
    then have "items ! i \<in> set (drop (length ids) items)" by (metis nth_mem)
    moreover have "rq_future (items ! i) \<notin> rq_future ` set (take (length ids) items)"
    proof
      assume "rq_future (items ! i) \<in> rq_future ` set (take (length ids) items)"
      then obtain j where "j < length ids" "j < length items" "map rq_future items ! i = map rq_future items ! j"
        using nth by (auto simp: in_set_conv_nth)
      then show False using assms(1,3) False nth_eq_iff_index_eq [of "map rq_future items" i j] by simp
    qed
    moreover have "\<not> is_done p1 (rq_future (items ! i))" using p1 assms(3) by (simp add: list_all_length)
    ultimately have "\<not> is_done p2 (rq_future (items ! i))" "rq_future (items ! i) \<in> rq_future ` set (drop (length ids) items)"
      by (simp_all add: p2_def)
    then show ?thesis using False assms(3) by (simp add: out fail_all_result)
  qed
qed

definition demo_request :: "nat \<Rightarrow> string option \<Rightarrow> request" where
  "demo_request f key = \<lparr> rq_stream = ''qa.inbound'', rq_payload = [], rq_future = f, rq_key = key, rq_ttl = 3600 \<rparr>"

theorem each_append_gets_its_reply_witness:
  "dget (pr_results (flush_batch 0 (Replies [Error_Reply, Script_Reply False ''old''])
      [demo_request 4 None, demo_request 5 (Some ''k''), demo_request 6 None] (new_producer 8))) 5 =
    Some (Claimed_Append None (Some ''old''))"
  using each_append_gets_its_reply [of "[demo_request 4 None, demo_request 5 (Some ''k''), demo_request 6 None]" "new_producer 8" 1 0
      "[Error_Reply, Script_Reply False ''old'']"]
  by (simp add: demo_request_def new_producer_def is_done_def result_of_def)

subsection \<open>Nobody is left waiting\<close>

text \<open>The events, and the futures handed out for requests that were queued while the task ran.\<close>

datatype producer_event =
    Append_Request int nat string wire
  | Claim_Request nat string wire string int
  | Take_Batch
  | Flush_Batch int pipe_outcome
  | Stop_Producer int
  | Leave nat

definition queues :: "producer \<Rightarrow> producer_event \<Rightarrow> nat list" where
  "queues p e =
     (case e of
        Append_Request now f stream rec \<Rightarrow>
          if \<not> hs_halted (pr_halt p) \<and> pr_alive p \<and> is_ok (pack rec) then [f] else []
      | Claim_Request f stream rec key ttl \<Rightarrow> if pr_alive p \<and> is_ok (pack rec) then [f] else []
      | _ \<Rightarrow> [])"

definition producer_step :: "producer_event \<Rightarrow> producer \<times> nat list \<Rightarrow> producer \<times> nat list" where
  "producer_step e = (\<lambda>(p, taken).
     ((case e of
         Append_Request now f stream rec \<Rightarrow> fst (producer_append now f stream rec p)
       | Claim_Request f stream rec key ttl \<Rightarrow> fst (claim_and_append f stream rec key ttl p)
       | Take_Batch \<Rightarrow> take_batch p
       | Flush_Batch now out \<Rightarrow> flush_current now out p
       | Stop_Producer now \<Rightarrow> producer_stops now p
       | Leave f \<Rightarrow> settle f Caller_Gone p), queues p e @ taken))"

definition waiting_ok :: "producer \<times> nat list \<Rightarrow> bool" where
  "waiting_ok = (\<lambda>(p, taken). \<forall>f \<in> set taken.
     is_done p f \<or> (pr_alive p \<and> f \<in> rq_future ` (set (pr_batch p) \<union> set (pr_queue p))))"

lemma enqueue_sel [simp]:
  "pr_queue (enqueue_request rq p) = pr_queue p @ [rq]" "pr_batch (enqueue_request rq p) = pr_batch p"
  "pr_alive (enqueue_request rq p) = pr_alive p" "is_done (enqueue_request rq p) g = is_done p g"
  by (simp_all add: enqueue_request_def is_done_def)

lemma take_batch_sel:
  "set (pr_batch (take_batch p)) \<union> set (pr_queue (take_batch p)) = set (pr_batch p) \<union> set (pr_queue p)"
  "pr_alive (take_batch p) = pr_alive p" "is_done (take_batch p) g = is_done p g"
proof -
  have "set (take n xs) \<union> set (drop n xs) = set xs" for n and xs :: "request list"
    by (metis append_take_drop_id set_append)
  then show "set (pr_batch (take_batch p)) \<union> set (pr_queue (take_batch p)) = set (pr_batch p) \<union> set (pr_queue p)"
    by (simp add: take_batch_def Let_def)
qed (simp_all add: take_batch_def Let_def is_done_def)

lemma waiting_ok_event: "waiting_ok (p, taken) \<Longrightarrow> waiting_ok (producer_step e (p, taken))"
proof (cases e)
  case (Append_Request now f stream rec)
  then show "waiting_ok (p, taken) \<Longrightarrow> ?thesis"
    by (auto simp: waiting_ok_def producer_step_def queues_def producer_append_def split: sum.splits)
next
  case (Claim_Request f stream rec key ttl)
  then show "waiting_ok (p, taken) \<Longrightarrow> ?thesis"
    by (auto simp: waiting_ok_def producer_step_def queues_def claim_and_append_def split: sum.splits)
next
  case Take_Batch
  then show "waiting_ok (p, taken) \<Longrightarrow> ?thesis"
    by (simp add: waiting_ok_def producer_step_def queues_def take_batch_sel)
next
  case (Flush_Batch now out)
  then show "waiting_ok (p, taken) \<Longrightarrow> ?thesis"
    by (auto simp: waiting_ok_def producer_step_def queues_def flush_current_def)
next
  case (Stop_Producer now)
  then show "waiting_ok (p, taken) \<Longrightarrow> ?thesis"
    by (auto simp: waiting_ok_def producer_step_def queues_def producer_stops_def drain_and_fail_def Let_def)
next
  case (Leave f)
  then show "waiting_ok (p, taken) \<Longrightarrow> ?thesis"
    by (auto simp: waiting_ok_def producer_step_def queues_def)
qed


definition demo_order :: wire where
  "demo_order = SubmitOrder_new 9 1 42 50000 3 1 0 0"

definition demo_stop :: "producer_event list" where
  "demo_stop =
     [Append_Request 1 7 ''qa.inbound'' demo_order, Claim_Request 8 ''qa.inbound'' demo_order ''qa.idempotent:42:1'' 3600,
      Take_Batch, Claim_Request 9 ''qa.inbound'' demo_order ''qa.idempotent:42:1'' 3600, Stop_Producer 5]"


text \<open>While it runs, each round answers at least the request at the head of the queue.\<close>

lemma round_shortens:
  assumes "pr_alive p" "pr_batch p = []"
  shows "pr_alive (flush_current now out (take_batch p))" "pr_batch (flush_current now out (take_batch p)) = []"
    "pr_queue (flush_current now out (take_batch p)) = drop (max 1 (pr_batch_max p)) (pr_queue p)"
    "is_done (flush_current now out (take_batch p)) g \<longleftrightarrow>
      is_done p g \<or> g \<in> rq_future ` set (take (max 1 (pr_batch_max p)) (pr_queue p))"
  using assms by (auto simp: flush_current_def take_batch_def Let_def)

lemma flush_batch_max [simp]: "pr_batch_max (flush_current now out p) = pr_batch_max p"
proof -
  have "pr_batch_max (settle_replies items ids q) = pr_batch_max q" for items ids q
    unfolding settle_replies_def by (induction items ids arbitrary: q rule: list_induct2') auto
  then show ?thesis
    by (simp add: flush_current_def flush_batch_def Let_def settle_replies_def [symmetric] halt_now_def split: pipe_outcome.split)
qed

text \<open>The queue drains: as many rounds as there are queued requests, each with whatever outcome, answer
  every one of them and leave the queue empty.\<close>

theorem rounds_answer_the_queue:
  assumes "pr_alive p" "pr_batch p = []" "length (pr_queue p) \<le> length outs"
    "p' = fold (\<lambda>(now, out) q. flush_current now out (take_batch q)) outs p"
  shows "pr_queue p' = [] \<and> pr_batch p' = [] \<and> list_all (\<lambda>rq. is_done p' (rq_future rq)) (pr_queue p)"
proof -
  have all: "pr_queue q' = [] \<and> pr_batch q' = [] \<and>
      (\<forall>f. is_done q f \<or> f \<in> rq_future ` set (pr_queue q) \<longrightarrow> is_done q' f)"
    if "pr_alive q" "pr_batch q = []" "length (pr_queue q) \<le> length os"
      "q' = fold (\<lambda>(now, out) q. flush_current now out (take_batch q)) os q" for q q' os
    using that
  proof (induction os arbitrary: q)
    case (Cons o1 os)
    obtain now out where o1: "o1 = (now, out)" by (cases o1)
    define q1 where "q1 = flush_current now out (take_batch q)"
    define n where "n = max 1 (pr_batch_max q)"
    note r = round_shortens [OF Cons.prems(1,2), of now out, folded q1_def n_def]
    have "length (pr_queue q1) \<le> length os" using Cons.prems(3) by (simp add: r(3) n_def)
    from Cons.IH [OF r(1,2) this] Cons.prems(4)
    have ih: "pr_queue q' = []" "pr_batch q' = []" "is_done q1 f \<or> f \<in> rq_future ` set (pr_queue q1) \<Longrightarrow> is_done q' f" for f
      by (auto simp: o1 q1_def)
    have "set (pr_queue q) = set (take n (pr_queue q)) \<union> set (drop n (pr_queue q))"
      by (metis append_take_drop_id set_append)
    then show ?case using ih r(3,4) by (auto simp: image_Un)
  qed simp
  show ?thesis using all [OF assms] by (auto simp: list_all_iff)
qed

theorem rounds_answer_the_queue_witness:
  "list_all (is_done (fold (\<lambda>(now, out) q. flush_current now out (take_batch q)) [(1, Lost_Connection []), (2, Refused), (3, Replies [])]
      ((new_producer 2)\<lparr>pr_queue := [demo_request 4 None, demo_request 5 (Some ''k''), demo_request 6 None]\<rparr>))) [4, 5, 6]"
  using rounds_answer_the_queue [of "(new_producer 2)\<lparr>pr_queue := [demo_request 4 None, demo_request 5 (Some ''k''), demo_request 6 None]\<rparr>"
      "[(1, Lost_Connection []), (2, Refused), (3, Replies [])]", OF _ _ _ refl]
  by (simp add: new_producer_def demo_request_def)

text \<open>
  \<open>append\<close> refuses when the task is not running, because nobody would resolve its future.
  \<open>claim_and_append\<close>, which is what orders go through, does not look: after a stop it queues the
  request, and neither the loop nor a flush ever answers it.
\<close>

lemma claim_after_stop_hangs:
  "(let (p, taken) = fold producer_step [Stop_Producer 5, Claim_Request 9 ''qa.inbound'' demo_order ''k'' 3600,
        Take_Batch, Flush_Batch 6 (Replies [Script_Reply True ''1-0'']), Take_Batch] (new_producer 8, [])
    in (map rq_future (pr_queue p), is_done p 9)) = ([9], False)"
  by code_simp

end
