(* ===== verification/Order_Flow.thy ===== *)
theory Order_Flow
  imports Idempotency Streams Risk Settings
begin

section \<open>Submitting and cancelling: services/gateway/routes_orders.py\<close>

text \<open>
  The two handlers, cut at their awaits, and the gateway they run in: its risk state, the part of
  Redis they use, and where every request stands. Between two awaits a handler runs alone, so
  each cut is one step; the steps of different requests, retries included, interleave freely, and
  any reply from Redis may be lost with the handler failed.

  \<open>is reservation\<close> compares objects, so \<open>gw_owner\<close> records which request's object is under a key
  of \<open>pending_by_client\<close>. Stored outcomes do not expire here: the statements are about a
  client order id within its outcome's lifetime. Records stand for their packed bytes, which
  \<open>wire_roundtrip\<close> justifies.
\<close>

subsection \<open>Requests and answers\<close>

record order_body =
  bd_client_order_id :: int
  bd_symbol_id :: int
  bd_side :: int
  bd_tif :: int
  bd_price_ticks :: "int option"
  bd_qty :: int
  bd_market :: bool

text \<open>What pydantic lets through: the fields' ranges, and a price exactly for a limit order.\<close>

definition U64_MAX :: int where "U64_MAX = 2 ^ 64 - 1"
definition I64_MAX :: int where "I64_MAX = 2 ^ 63 - 1"
definition I16_MAX :: int where "I16_MAX = 2 ^ 15 - 1"

definition valid_body :: "order_body \<Rightarrow> bool" where
  "valid_body b \<longleftrightarrow>
     0 \<le> bd_client_order_id b \<and> bd_client_order_id b \<le> U64_MAX \<and> 0 \<le> bd_symbol_id b \<and> bd_symbol_id b \<le> I16_MAX \<and>
     bd_side b \<in> {Side_BUY, Side_SELL} \<and> bd_tif b \<in> {Tif_GTC, Tif_IOC} \<and>
     (case bd_price_ticks b of None \<Rightarrow> bd_market b | Some p \<Rightarrow> \<not> bd_market b \<and> 0 < p \<and> p \<le> I64_MAX) \<and>
     0 < bd_qty b \<and> bd_qty b \<le> I64_MAX"

datatype http =
    Accepted json string
  | In_Progress
  | Rejected json
  | Halted string
  | Rate_Limited
  | Bad_Request
  | Server_Error

text \<open>A stored outcome that does not fit the response model is a server error.\<close>

definition answer :: "idem_outcome \<Rightarrow> http" where
  "answer out =
     (if io_status out = JStr ''accepted''
      then (case (io_order_id out, io_seq out) of
              (JNull, JStr sid) \<Rightarrow> Accepted JNull sid
            | (JInt n, JStr sid) \<Rightarrow> Accepted (JInt n) sid
            | _ \<Rightarrow> Server_Error)
      else if io_status out = JStr ''rejected'' then Rejected (io_reason out)
      else In_Progress)"

subsection \<open>The handler's own steps\<close>

definition reason_name :: "int \<Rightarrow> string" where
  "reason_name why =
     (if why = RejectReason_INSUFFICIENT_CASH then ''INSUFFICIENT_CASH''
      else if why = RejectReason_INSUFFICIENT_POSITION then ''INSUFFICIENT_POSITION'' else [])"

datatype decision = Answer_With http | Reject_With string | Claim_With wire reservation

text \<open>From the lookup that found nothing to the next await: steps 2 to 5 of \<open>submit_order\<close>.\<close>

definition submit_decides ::
  "symbol list \<Rightarrow> int \<Rightarrow> int \<Rightarrow> int \<Rightarrow> order_body \<Rightarrow> risk \<Rightarrow> exn + (risk \<times> decision)" where
  "submit_decides symbols band now uid b rk =
     (let coid = bd_client_order_id b; sy = bd_symbol_id b; sd = bd_side b
      in if dget (pending_by_client rk) (uid, coid) \<noteq> None then Inr (rk, Answer_With In_Progress)
         else if sy \<notin> set (map sm_symbol_id symbols) then Inr (rk, Reject_With ''UNKNOWN_SYMBOL'')
         else (let price = (if bd_market b then banded_market_price rk sy sd band else bd_price_ticks b);
                   tif = (if bd_market b then Tif_IOC else bd_tif b)
               in case price of
                    None \<Rightarrow> if bd_market b then Inr (rk, Reject_With ''INVALID_PRICE'') else Inl TypeError
                  | Some px \<Rightarrow>
                      (case reject_reason_for rk uid sy sd px (bd_qty b) of
                         Some why \<Rightarrow> Inr (rk, Reject_With (reason_name why))
                       | None \<Rightarrow>
                           sbind (reserve uid coid sy sd px (bd_qty b) rk) (\<lambda>(rk', r).
                             Inr (rk', Claim_With (SubmitOrder_new now coid uid px (bd_qty b) sy sd tif) r)))))"

subsection \<open>Redis: the append script and the rejection\<close>

record redis =
  rd_stream :: "(string \<times> wire) list"
  rd_keys :: "(string, string) dict"

text \<open>\<open>CLAIM_AND_APPEND_SCRIPT\<close>, given the id \<open>XADD\<close> assigns.\<close>

definition claim_script :: "string \<Rightarrow> wire \<Rightarrow> string \<Rightarrow> redis \<Rightarrow> redis \<times> bool \<times> string" where
  "claim_script key rec sid rd =
     (case dget (rd_keys rd) key of
        Some existing \<Rightarrow> (rd, False, existing)
      | None \<Rightarrow>
          (rd\<lparr>rd_stream := rd_stream rd @ [(sid, rec)], rd_keys := dset key (accepted_text sid) (rd_keys rd)\<rparr>, True, sid))"

text \<open>\<open>SET key v NX\<close>, and whether it wrote.\<close>

definition set_nx :: "string \<Rightarrow> string \<Rightarrow> redis \<Rightarrow> redis \<times> bool" where
  "set_nx key v rd =
     (if dget (rd_keys rd) key \<noteq> None then (rd, False) else (rd\<lparr>rd_keys := dset key v (rd_keys rd)\<rparr>, True))"

definition lookup_outcome :: "string \<Rightarrow> redis \<Rightarrow> idem_outcome option" where
  "lookup_outcome key rd = map_option parse_outcome (dget (rd_keys rd) key)"

subsection \<open>The gateway\<close>

text \<open>
  Where a request stands: awaiting the lookup, the rejection's write, the lookup after a write
  that lost, the append script, or the script's reply; or answered.
\<close>

datatype phase =
    Looking_Up int order_body
  | Rejecting int int string
  | Looking_Again int int string
  | Cancel_Looking_Up int int int
  | Claiming int int wire "reservation option"
  | Unread int int "reservation option" bool string
  | Answered int int http

record gateway =
  gw_risk :: risk
  gw_owner :: "(int \<times> int, nat) dict"
  gw_redis :: redis
  gw_requests :: "(nat, phase) dict"

definition new_gateway :: "risk \<Rightarrow> gateway" where
  "new_gateway rk =
     \<lparr> gw_risk = rk, gw_owner = [], gw_redis = \<lparr> rd_stream = [], rd_keys = [] \<rparr>, gw_requests = [] \<rparr>"

definition move_to :: "nat \<Rightarrow> phase \<Rightarrow> gateway \<Rightarrow> gateway" where
  "move_to n ph g = g\<lparr>gw_requests := dset n ph (gw_requests g)\<rparr>"

text \<open>\<open>_abandon\<close> for the request's own reservation, when it has one.\<close>

definition abandon_own :: "nat \<Rightarrow> int \<Rightarrow> int \<Rightarrow> reservation option \<Rightarrow> gateway \<Rightarrow> gateway" where
  "abandon_own n uid coid res g =
     (case res of
        None \<Rightarrow> g
      | Some r \<Rightarrow>
          (let own = (dget (gw_owner g) (uid, coid) = Some n)
           in g\<lparr>gw_risk := abandon own r (gw_risk g),
                gw_owner := (if own then dpop (uid, coid) (gw_owner g) else gw_owner g)\<rparr>))"

datatype gateway_event =
    Submit nat int order_body bool
  | Cancel nat int int int bool
  | Looked nat int
  | Rejection_Set nat bool
  | Looked_Again nat
  | Script_Runs nat int int
  | Reply_Arrives nat
  | Redis_Fails nat
  | Claim_Halted nat string
  | Outbound string wire

text \<open>After the lookup of an order, and of a cancel.\<close>

definition after_lookup :: "symbol list \<Rightarrow> int \<Rightarrow> nat \<Rightarrow> int \<Rightarrow> int \<Rightarrow> order_body \<Rightarrow> gateway \<Rightarrow> gateway" where
  "after_lookup symbols band n now uid b g =
     (let coid = bd_client_order_id b
      in case lookup_outcome (idem_key uid coid) (gw_redis g) of
           Some out \<Rightarrow> move_to n (Answered uid coid (answer out)) g
         | None \<Rightarrow>
             (case submit_decides symbols band now uid b (gw_risk g) of
                Inl e \<Rightarrow> move_to n (Answered uid coid Server_Error) g
              | Inr (rk, Answer_With a) \<Rightarrow> move_to n (Answered uid coid a) g
              | Inr (rk, Reject_With why) \<Rightarrow> move_to n (Rejecting uid coid why) g
              | Inr (rk, Claim_With rec r) \<Rightarrow>
                  move_to n (Claiming uid coid rec (Some r))
                    (g\<lparr>gw_risk := rk, gw_owner := dset (uid, coid) n (gw_owner g)\<rparr>)))"

definition after_cancel_lookup :: "nat \<Rightarrow> int \<Rightarrow> int \<Rightarrow> int \<Rightarrow> int \<Rightarrow> gateway \<Rightarrow> gateway" where
  "after_cancel_lookup n now uid coid target g =
     (case lookup_outcome (idem_key uid coid) (gw_redis g) of
        Some out \<Rightarrow> move_to n (Answered uid coid (answer out)) g
      | None \<Rightarrow> move_to n (Claiming uid coid (CancelOrder_new now coid uid target) None) g)"

definition fresh_sid :: "int \<Rightarrow> int \<Rightarrow> redis \<Rightarrow> bool" where
  "fresh_sid ms ord rd \<longleftrightarrow> stream_id ms ord \<notin> set (map fst (rd_stream rd))"

fun gateway_step :: "symbol list \<Rightarrow> int \<Rightarrow> gateway_event \<Rightarrow> gateway \<Rightarrow> gateway" where
  "gateway_step symbols band (Submit n uid b allowed) g =
     (if dget (gw_requests g) n \<noteq> None \<or> uid < 0 \<or> \<not> valid_body b then g
      else move_to n (if allowed then Looking_Up uid b else Answered uid (bd_client_order_id b) Rate_Limited) g)"
| "gateway_step symbols band (Cancel n uid coid target allowed) g =
     (if dget (gw_requests g) n \<noteq> None \<or> uid < 0 \<or> \<not> (0 \<le> coid \<and> coid \<le> U64_MAX) then g
      else move_to n (if \<not> allowed then Answered uid coid Rate_Limited
                      else if \<not> (0 \<le> target \<and> target \<le> U64_MAX) then Answered uid coid Bad_Request
                      else Cancel_Looking_Up uid coid target) g)"
| "gateway_step symbols band (Looked n now) g =
     (case dget (gw_requests g) n of
        Some (Looking_Up uid b) \<Rightarrow> after_lookup symbols band n now uid b g
      | Some (Cancel_Looking_Up uid coid target) \<Rightarrow> after_cancel_lookup n now uid coid target g
      | _ \<Rightarrow> g)"
| "gateway_step symbols band (Rejection_Set n read) g =
     (case dget (gw_requests g) n of
        Some (Rejecting uid coid why) \<Rightarrow>
          (let (rd, wrote) = set_nx (idem_key uid coid) (rejected_text why) (gw_redis g)
           in move_to n (if \<not> read then Answered uid coid Server_Error
                         else if wrote then Answered uid coid (answer (rejected_outcome why))
                         else Looking_Again uid coid why) (g\<lparr>gw_redis := rd\<rparr>))
      | _ \<Rightarrow> g)"
| "gateway_step symbols band (Looked_Again n) g =
     (case dget (gw_requests g) n of
        Some (Looking_Again uid coid why) \<Rightarrow>
          move_to n (Answered uid coid (answer (case lookup_outcome (idem_key uid coid) (gw_redis g) of
                       Some out \<Rightarrow> out | None \<Rightarrow> rejected_outcome why))) g
      | _ \<Rightarrow> g)"
| "gateway_step symbols band (Script_Runs n ms ord) g =
     (case dget (gw_requests g) n of
        Some (Claiming uid coid rec res) \<Rightarrow>
          if fresh_sid ms ord (gw_redis g)
          then (let (rd, appended, v) = claim_script (idem_key uid coid) rec (stream_id ms ord) (gw_redis g)
                in move_to n (Unread uid coid res appended v) (g\<lparr>gw_redis := rd\<rparr>))
          else g
      | _ \<Rightarrow> g)"
| "gateway_step symbols band (Reply_Arrives n) g =
     (case dget (gw_requests g) n of
        Some (Unread uid coid res appended v) \<Rightarrow>
          if appended then move_to n (Answered uid coid (Accepted JNull v)) g
          else move_to n (Answered uid coid (answer (parse_outcome v))) (abandon_own n uid coid res g)
      | _ \<Rightarrow> g)"
| "gateway_step symbols band (Redis_Fails n) g =
     (case dget (gw_requests g) n of
        Some (Looking_Up uid b) \<Rightarrow> move_to n (Answered uid (bd_client_order_id b) Server_Error) g
      | Some (Cancel_Looking_Up uid coid target) \<Rightarrow> move_to n (Answered uid coid Server_Error) g
      | Some (Rejecting uid coid why) \<Rightarrow> move_to n (Answered uid coid Server_Error) g
      | Some (Looking_Again uid coid why) \<Rightarrow> move_to n (Answered uid coid Server_Error) g
      | Some (Claiming uid coid rec res) \<Rightarrow> move_to n (Answered uid coid Server_Error) (abandon_own n uid coid res g)
      | Some (Unread uid coid res appended v) \<Rightarrow> move_to n (Answered uid coid Server_Error) (abandon_own n uid coid res g)
      | _ \<Rightarrow> g)"
| "gateway_step symbols band (Claim_Halted n why) g =
     (case dget (gw_requests g) n of
        Some (Claiming uid coid rec res) \<Rightarrow> move_to n (Answered uid coid (Halted why)) (abandon_own n uid coid res g)
      | Some (Unread uid coid res appended v) \<Rightarrow> move_to n (Answered uid coid (Halted why)) (abandon_own n uid coid res g)
      | _ \<Rightarrow> g)"
| "gateway_step symbols band (Outbound sid rec) g =
     g\<lparr>gw_risk := risk_apply rec (Some sid) (gw_risk g),
       gw_owner := (if is_OrderAccepted rec then dpop (user_id rec, client_order_id rec) (gw_owner g) else gw_owner g)\<rparr>"

end
