(* ===== verification/Order_Flow_Spec.thy ===== *)
theory Order_Flow_Spec
  imports Order_Flow
begin

section \<open>One client order id, one order, one answer\<close>

text \<open>
  The invariant: what is stored under a key is an acceptance whose record is on the stream, or a
  rejection; every record on the stream is the accepted one of its key; and each request in
  flight agrees with what is stored. Stored outcomes are never changed (\<open>keeps\<close>), so an
  answer stays true.
\<close>

definition is_sid :: "string \<Rightarrow> bool" where
  "is_sid s \<longleftrightarrow> (\<exists>ms ord. s = stream_id ms ord)"

definition stored_ok :: "redis \<Rightarrow> string \<Rightarrow> string \<Rightarrow> bool" where
  "stored_ok rd key v \<longleftrightarrow>
     (\<exists>sid rec. v = accepted_text sid \<and> is_sid sid \<and> (sid, rec) \<in> set (rd_stream rd) \<and>
        key = idem_key (user_id rec) (client_order_id rec)) \<or>
     (\<exists>why. v = rejected_text why)"

definition store_ok :: "redis \<Rightarrow> bool" where
  "store_ok rd \<longleftrightarrow>
     distinct (map fst (rd_stream rd)) \<and>
     (\<forall>(sid, rec) \<in> set (rd_stream rd). is_sid sid \<and> 0 \<le> user_id rec \<and> 0 \<le> client_order_id rec \<and>
        dget (rd_keys rd) (idem_key (user_id rec) (client_order_id rec)) = Some (accepted_text sid)) \<and>
     (\<forall>key v. dget (rd_keys rd) key = Some v \<longrightarrow> stored_ok rd key v)"

definition keyed :: "int \<Rightarrow> int \<Rightarrow> redis \<Rightarrow> (string \<times> wire) list" where
  "keyed u c rd = filter (\<lambda>(sid, rec). user_id rec = u \<and> client_order_id rec = c) (rd_stream rd)"

definition answer_ok :: "redis \<Rightarrow> int \<Rightarrow> int \<Rightarrow> http \<Rightarrow> bool" where
  "answer_ok rd u c a \<longleftrightarrow>
     (case a of
        Accepted oid sid \<Rightarrow> oid = JNull \<and> is_sid sid \<and> dget (rd_keys rd) (idem_key u c) = Some (accepted_text sid)
      | Rejected w \<Rightarrow> (\<exists>why. w = JStr why \<and> dget (rd_keys rd) (idem_key u c) = Some (rejected_text why))
      | _ \<Rightarrow> True)"

fun phase_ok :: "redis \<Rightarrow> phase \<Rightarrow> bool" where
  "phase_ok rd (Looking_Up u b) = (0 \<le> u \<and> 0 \<le> bd_client_order_id b)"
| "phase_ok rd (Rejecting u c why) = (0 \<le> u \<and> 0 \<le> c)"
| "phase_ok rd (Looking_Again u c why) = (0 \<le> u \<and> 0 \<le> c \<and> dget (rd_keys rd) (idem_key u c) \<noteq> None)"
| "phase_ok rd (Cancel_Looking_Up u c target) = (0 \<le> u \<and> 0 \<le> c)"
| "phase_ok rd (Claiming u c rec res) = (0 \<le> u \<and> 0 \<le> c \<and> user_id rec = u \<and> client_order_id rec = c)"
| "phase_ok rd (Unread u c res appended v) =
     (0 \<le> u \<and> 0 \<le> c \<and> (if appended then is_sid v \<and> dget (rd_keys rd) (idem_key u c) = Some (accepted_text v)
                       else dget (rd_keys rd) (idem_key u c) = Some v))"
| "phase_ok rd (Answered u c a) = (0 \<le> u \<and> 0 \<le> c \<and> answer_ok rd u c a)"

definition gateway_ok :: "gateway \<Rightarrow> bool" where
  "gateway_ok g \<longleftrightarrow> store_ok (gw_redis g) \<and> (\<forall>n ph. dget (gw_requests g) n = Some ph \<longrightarrow> phase_ok (gw_redis g) ph)"

definition keeps :: "redis \<Rightarrow> redis \<Rightarrow> bool" where
  "keeps rd rd' \<longleftrightarrow> (\<forall>key v. dget (rd_keys rd) key = Some v \<longrightarrow> dget (rd_keys rd') key = Some v)"

lemma phase_ok_keeps: "phase_ok rd ph \<Longrightarrow> keeps rd rd' \<Longrightarrow> phase_ok rd' ph"
  by (cases ph) (auto simp: keeps_def answer_ok_def split: http.splits if_splits)

subsection \<open>Answers from what is stored\<close>

lemma answer_accepted: "is_sid sid \<Longrightarrow> answer (parse_outcome (accepted_text sid)) = Accepted JNull sid"
  by (auto simp: is_sid_def parse_accepted answer_def)

lemma answer_rejected: "answer (parse_outcome (rejected_text why)) = Rejected (JStr why)"
  "answer (rejected_outcome why) = Rejected (JStr why)"
  by (simp_all add: parse_rejected answer_def rejected_outcome_def)

lemma answer_stored:
  assumes "store_ok rd" "dget (rd_keys rd) (idem_key u c) = Some v"
  shows "answer_ok rd u c (answer (parse_outcome v))"
proof -
  have "stored_ok rd (idem_key u c) v" using assms by (simp add: store_ok_def)
  then show ?thesis using assms(2)
    by (auto simp: stored_ok_def answer_accepted answer_rejected answer_ok_def)
qed

subsection \<open>The steps keep the invariant\<close>

lemma gateway_ok_move: "gateway_ok g \<Longrightarrow> phase_ok (gw_redis g) ph \<Longrightarrow> gateway_ok (move_to n ph g)"
  by (auto simp: gateway_ok_def move_to_def)

lemma gateway_ok_risk [simp]:
  "gateway_ok (g\<lparr>gw_risk := rk\<rparr>) = gateway_ok g" "gateway_ok (g\<lparr>gw_risk := rk, gw_owner := ow\<rparr>) = gateway_ok g"
  by (simp_all add: gateway_ok_def)

lemma abandon_own_sel [simp]:
  "gw_redis (abandon_own n u c res g) = gw_redis g" "gw_requests (abandon_own n u c res g) = gw_requests g"
  by (simp_all add: abandon_own_def Let_def split: option.split)

lemma gateway_ok_abandon [simp]: "gateway_ok (abandon_own n u c res g) = gateway_ok g"
  by (simp add: gateway_ok_def)

lemma gateway_ok_redis:
  "gateway_ok g \<Longrightarrow> keeps (gw_redis g) rd \<Longrightarrow> store_ok rd \<Longrightarrow> gateway_ok (g\<lparr>gw_redis := rd\<rparr>)"
  by (auto simp: gateway_ok_def intro: phase_ok_keeps)

lemma claim_script_ok:
  assumes "store_ok rd" "fresh_sid ms ord rd" "0 \<le> user_id rec" "0 \<le> client_order_id rec"
    "claim_script (idem_key (user_id rec) (client_order_id rec)) rec (stream_id ms ord) rd = (rd', appended, v)"
  shows "store_ok rd' \<and> keeps rd rd' \<and>
    (if appended then is_sid v \<and> dget (rd_keys rd') (idem_key (user_id rec) (client_order_id rec)) = Some (accepted_text v)
     else dget (rd_keys rd') (idem_key (user_id rec) (client_order_id rec)) = Some v)"
proof (cases "dget (rd_keys rd) (idem_key (user_id rec) (client_order_id rec))")
  case (Some existing)
  then show ?thesis using assms by (auto simp: claim_script_def keeps_def)
next
  case None
  define key where "key = idem_key (user_id rec) (client_order_id rec)"
  define sid where "sid = stream_id ms ord"
  have out: "rd' = rd\<lparr>rd_stream := rd_stream rd @ [(sid, rec)], rd_keys := dset key (accepted_text sid) (rd_keys rd)\<rparr>"
    "appended" "v = sid"
    using assms(5) None by (auto simp: claim_script_def key_def sid_def)
  have sid: "is_sid sid" "sid \<notin> set (map fst (rd_stream rd))"
    using assms(2) by (auto simp: is_sid_def sid_def fresh_sid_def)
  have absent: "dget (rd_keys rd) key = None" using None by (simp add: key_def)
  have "store_ok rd'"
    unfolding store_ok_def
  proof (intro conjI allI impI)
    show "distinct (map fst (rd_stream rd'))" using assms(1) sid(2) by (auto simp: out store_ok_def)
    show "\<forall>(s, r) \<in> set (rd_stream rd'). is_sid s \<and> 0 \<le> user_id r \<and> 0 \<le> client_order_id r \<and>
        dget (rd_keys rd') (idem_key (user_id r) (client_order_id r)) = Some (accepted_text s)"
      using assms(1,3,4) sid(1) absent by (auto simp: out store_ok_def key_def)
    fix k w assume "dget (rd_keys rd') k = Some w"
    then show "stored_ok rd' k w"
      using assms(1) sid(1) by (auto simp: out store_ok_def stored_ok_def key_def split: if_splits) blast+
  qed
  moreover have "keeps rd rd'" using absent by (auto simp: keeps_def out)
  ultimately show ?thesis using sid(1) by (simp add: out key_def)
qed

lemma set_nx_ok:
  assumes "store_ok rd" "set_nx key (rejected_text why) rd = (rd', wrote)"
  shows "store_ok rd' \<and> keeps rd rd' \<and> (wrote \<longrightarrow> dget (rd_keys rd') key = Some (rejected_text why)) \<and> dget (rd_keys rd') key \<noteq> None"
proof (cases "dget (rd_keys rd) key")
  case (Some v)
  then show ?thesis using assms by (auto simp: set_nx_def keeps_def)
next
  case None
  have out: "rd' = rd\<lparr>rd_keys := dset key (rejected_text why) (rd_keys rd)\<rparr>" "wrote"
    using assms(2) None by (auto simp: set_nx_def)
  have "idem_key (user_id rec) (client_order_id rec) \<noteq> key" if "(sid, rec) \<in> set (rd_stream rd)" for sid rec
    using assms(1) that None by (auto simp: store_ok_def)
  then have "store_ok rd'"
    using assms(1) by (fastforce simp: out store_ok_def stored_ok_def)
  then show ?thesis using None by (auto simp: out keeps_def)
qed

lemma submit_decides_out:
  assumes "submit_decides symbols band now uid b rk = Inr (rk', d)"
  shows "case d of Answer_With a \<Rightarrow> a = In_Progress | Reject_With why \<Rightarrow> True
    | Claim_With rec r \<Rightarrow> user_id rec = uid \<and> client_order_id rec = bd_client_order_id b"
  using assms
  by (auto simp: submit_decides_def Let_def sbind_Inr_iff SubmitOrder_new_def split: if_splits option.splits)

lemma after_lookup_ok:
  assumes "gateway_ok g" "0 \<le> uid" "0 \<le> bd_client_order_id b"
  shows "gateway_ok (after_lookup symbols band n now uid b g)"
proof (cases "dget (rd_keys (gw_redis g)) (idem_key uid (bd_client_order_id b))")
  case (Some v)
  then have "answer_ok (gw_redis g) uid (bd_client_order_id b) (answer (parse_outcome v))"
    using assms(1) by (intro answer_stored) (simp_all add: gateway_ok_def)
  then show ?thesis using assms Some
    by (simp add: after_lookup_def lookup_outcome_def gateway_ok_move Let_def)
next
  case None
  show ?thesis
  proof (cases "submit_decides symbols band now uid b (gw_risk g)")
    case (Inl e)
    then show ?thesis using assms None
      by (simp add: after_lookup_def lookup_outcome_def Let_def gateway_ok_move answer_ok_def)
  next
    case (Inr out)
    then obtain rk d where d: "submit_decides symbols band now uid b (gw_risk g) = Inr (rk, d)" by (cases out) simp
    show ?thesis
      using assms None submit_decides_out [OF d]
      by (cases d) (simp_all add: after_lookup_def lookup_outcome_def Let_def d gateway_ok_move answer_ok_def)
  qed
qed

lemma after_cancel_lookup_ok:
  assumes "gateway_ok g" "0 \<le> uid" "0 \<le> coid"
  shows "gateway_ok (after_cancel_lookup n now uid coid target g)"
proof (cases "dget (rd_keys (gw_redis g)) (idem_key uid coid)")
  case (Some v)
  then have "answer_ok (gw_redis g) uid coid (answer (parse_outcome v))"
    using assms(1) by (intro answer_stored) (simp_all add: gateway_ok_def)
  then show ?thesis using assms Some
    by (simp add: after_cancel_lookup_def lookup_outcome_def gateway_ok_move)
next
  case None
  then show ?thesis using assms
    by (simp add: after_cancel_lookup_def lookup_outcome_def gateway_ok_move CancelOrder_new_def)
qed

lemma quiet_answers [simp]:
  "answer_ok rd u c Rate_Limited" "answer_ok rd u c Bad_Request" "answer_ok rd u c Server_Error" "answer_ok rd u c (Halted why)"
  by (simp_all add: answer_ok_def)

lemma in_flight: "gateway_ok g \<Longrightarrow> dget (gw_requests g) n = Some ph \<Longrightarrow> phase_ok (gw_redis g) ph"
  by (simp add: gateway_ok_def)

lemma rejection_set_ok:
  assumes "gateway_ok g" "dget (gw_requests g) n = Some (Rejecting uid coid why)"
  shows "gateway_ok (gateway_step symbols band (Rejection_Set n got) g)"
proof -
  obtain rd wrote where rd: "set_nx (idem_key uid coid) (rejected_text why) (gw_redis g) = (rd, wrote)" by (cases "set_nx (idem_key uid coid) (rejected_text why) (gw_redis g)")
  have s: "store_ok rd" "keeps (gw_redis g) rd" "wrote \<Longrightarrow> dget (rd_keys rd) (idem_key uid coid) = Some (rejected_text why)"
    "dget (rd_keys rd) (idem_key uid coid) \<noteq> None"
    using set_nx_ok [OF _ rd] assms(1) by (auto simp: gateway_ok_def)
  have "gateway_ok (g\<lparr>gw_redis := rd\<rparr>)" using assms(1) s(1,2) by (intro gateway_ok_redis)
  moreover have "0 \<le> uid" "0 \<le> coid" using in_flight [OF assms] by simp_all
  ultimately show ?thesis
    using s(3,4) by (auto simp: assms(2) rd intro!: gateway_ok_move simp: answer_rejected answer_ok_def)
qed

lemma script_runs_ok:
  assumes "gateway_ok g" "dget (gw_requests g) n = Some (Claiming uid coid rec res)"
  shows "gateway_ok (gateway_step symbols band (Script_Runs n ms ord) g)"
proof (cases "fresh_sid ms ord (gw_redis g)")
  case True
  obtain rd appended v where rd: "claim_script (idem_key uid coid) rec (stream_id ms ord) (gw_redis g) = (rd, appended, v)"
    by (metis prod_cases3)
  have ph: "0 \<le> uid" "0 \<le> coid" "user_id rec = uid" "client_order_id rec = coid" using in_flight [OF assms] by simp_all
  have s: "store_ok rd \<and> keeps (gw_redis g) rd \<and>
      (if appended then is_sid v \<and> dget (rd_keys rd) (idem_key uid coid) = Some (accepted_text v)
       else dget (rd_keys rd) (idem_key uid coid) = Some v)"
    using claim_script_ok [of "gw_redis g" ms ord rec rd appended v] assms(1) True rd ph by (auto simp: gateway_ok_def)
  then have "gateway_ok (g\<lparr>gw_redis := rd\<rparr>)" using assms(1) by (intro gateway_ok_redis) simp_all
  then show ?thesis using s ph by (simp add: assms(2) rd True gateway_ok_move)
qed (use assms in simp)

lemma gateway_step_ok: "gateway_ok g \<Longrightarrow> gateway_ok (gateway_step symbols band e g)"
proof (induction symbols band e g rule: gateway_step.induct)
  case (1 symbols band n uid b allowed g)
  then show ?case by (auto simp: valid_body_def intro!: gateway_ok_move)
next
  case (2 symbols band n uid coid target allowed g)
  then show ?case by (auto intro!: gateway_ok_move)
next
  case (3 symbols band n now g)
  then show ?case
    by (auto split: option.split phase.split dest: in_flight intro!: after_lookup_ok after_cancel_lookup_ok)
next
  case (4 symbols band n got g)
  show ?case
  proof (cases "\<exists>u c why. dget (gw_requests g) n = Some (Rejecting u c why)")
    case True
    then show ?thesis using rejection_set_ok [OF "4"] by blast
  next
    case False
    then show ?thesis using "4" by (auto split: option.split phase.split)
  qed
next
  case (5 symbols band n g)
  have "phase_ok (gw_redis g) (Answered u c (answer (case lookup_outcome (idem_key u c) (gw_redis g) of
      Some out \<Rightarrow> out | None \<Rightarrow> rejected_outcome why)))" if l: "dget (gw_requests g) n = Some (Looking_Again u c why)" for u c why
  proof -
    have ph: "0 \<le> u" "0 \<le> c" using in_flight [OF "5" l] by simp_all
    obtain v where v: "dget (rd_keys (gw_redis g)) (idem_key u c) = Some v" using in_flight [OF "5" l] by auto
    have "store_ok (gw_redis g)" using "5" by (simp add: gateway_ok_def)
    from answer_stored [OF this v] ph v show ?thesis by (simp add: lookup_outcome_def)
  qed
  then show ?case using "5" by (auto split: option.split phase.split intro!: gateway_ok_move simp del: phase_ok.simps)
next
  case (6 symbols band n ms ord g)
  show ?case
  proof (cases "\<exists>u c rec res. dget (gw_requests g) n = Some (Claiming u c rec res)")
    case True
    then show ?thesis using script_runs_ok [OF "6"] by blast
  next
    case False
    then show ?thesis using "6" by (auto split: option.split phase.split)
  qed
next
  case (7 symbols band n g)
  have store: "store_ok (gw_redis g)" using "7" by (simp add: gateway_ok_def)
  show ?case
    using "7" answer_stored [OF store]
    by (auto split: option.split phase.split dest!: in_flight [OF "7"] intro!: gateway_ok_move simp: answer_ok_def [of _ _ _ "Accepted _ _"])
next
  case (8 symbols band n g)
  then show ?case by (auto split: option.split phase.split dest!: in_flight [OF "8"] intro!: gateway_ok_move)
next
  case (9 symbols band n why g)
  then show ?case by (auto split: option.split phase.split dest!: in_flight [OF "9"] intro!: gateway_ok_move)
next
  case (10 symbols band sid rec g)
  then show ?case by simp
qed

lemma gateway_run_ok: "gateway_ok (fold (gateway_step symbols band) es (new_gateway rk))"
proof -
  have "gateway_ok (fold (gateway_step symbols band) es g)" if "gateway_ok g" for g
    using that by (induction es arbitrary: g) (simp_all add: gateway_step_ok)
  moreover have "gateway_ok (new_gateway rk)" by (simp add: gateway_ok_def new_gateway_def store_ok_def)
  ultimately show ?thesis by blast
qed

subsection \<open>The properties\<close>

lemma keyed_member: "(sid, rec) \<in> set (keyed u c rd) \<longleftrightarrow> (sid, rec) \<in> set (rd_stream rd) \<and> user_id rec = u \<and> client_order_id rec = c"
  by (auto simp: keyed_def)

lemma keyed_at_most_one:
  assumes "store_ok rd"
  shows "length (keyed u c rd) \<le> 1"
proof (rule ccontr)
  assume "\<not> length (keyed u c rd) \<le> 1"
  then obtain e1 e2 es where k: "keyed u c rd = e1 # e2 # es"
    by (metis One_nat_def Suc_le_mono le0 length_Cons list.size(3) neq_Nil_conv zero_le_one)
  have "distinct (map fst (keyed u c rd))"
    using assms by (simp add: keyed_def store_ok_def distinct_map_filter)
  then have ne: "fst e1 \<noteq> fst e2" by (simp add: k)
  have stored: "is_sid (fst e) \<and> dget (rd_keys rd) (idem_key u c) = Some (accepted_text (fst e))" if "e \<in> set (keyed u c rd)" for e
    using assms that by (cases e) (auto simp: keyed_member store_ok_def)
  have "is_sid (fst e1)" "is_sid (fst e2)" "accepted_text (fst e1) = accepted_text (fst e2)"
    using stored [of e1] stored [of e2] by (simp_all add: k)
  then show False using ne by (auto simp: is_sid_def stored_texts(1))
qed

text \<open>C6. A client order id is spent once: however submissions, cancels, retries, lost replies, halts and
  the engine's output interleave, at most one record per user and client order id ever reaches the
  inbound stream.\<close>

theorem one_order_per_key:
  "length (keyed u c (gw_redis (fold (gateway_step symbols band) es (new_gateway rk)))) \<le> 1"
  using gateway_run_ok by (intro keyed_at_most_one) (simp add: gateway_ok_def)

fun final_answer :: "http \<Rightarrow> bool" where
  "final_answer (Accepted oid sid) = True"
| "final_answer (Rejected why) = True"
| "final_answer _ = False"

lemma final_matches:
  assumes "store_ok rd" "answer_ok rd u c a" "final_answer a" "0 \<le> u" "0 \<le> c"
  shows "(case a of Accepted oid sid \<Rightarrow> map fst (keyed u c rd) = [sid] | _ \<Rightarrow> keyed u c rd = [])"
proof (cases a)
  case (Accepted oid sid)
  then have sid: "is_sid sid" "dget (rd_keys rd) (idem_key u c) = Some (accepted_text sid)"
    using assms(2) by (simp_all add: answer_ok_def)
  then have "stored_ok rd (idem_key u c) (accepted_text sid)" using assms(1) by (simp add: store_ok_def)
  then obtain sid' rec where r: "accepted_text sid = accepted_text sid'" "is_sid sid'" "(sid', rec) \<in> set (rd_stream rd)"
      "idem_key u c = idem_key (user_id rec) (client_order_id rec)"
    using sid(1) stored_texts(2) by (auto simp: stored_ok_def is_sid_def)
  have "sid' = sid" using r(1,2) sid(1) by (auto simp: is_sid_def stored_texts(1))
  moreover have "0 \<le> user_id rec \<and> 0 \<le> client_order_id rec" using assms(1) r(3) by (auto simp: store_ok_def)
  then have "user_id rec = u \<and> client_order_id rec = c" using r(4) assms(4,5) by (simp add: idem_key_inj)
  ultimately have m: "(sid, rec) \<in> set (keyed u c rd)" using r(3) by (simp add: keyed_member)
  from keyed_at_most_one [OF assms(1), of u c] m have "keyed u c rd = [(sid, rec)]"
    by (cases "keyed u c rd") auto
  then show ?thesis by (simp add: Accepted)
next
  case (Rejected w)
  then obtain why where w: "dget (rd_keys rd) (idem_key u c) = Some (rejected_text why)"
    using assms(2) by (auto simp: answer_ok_def)
  have False if "(sid, rec) \<in> set (keyed u c rd)" for sid rec
  proof -
    have "is_sid sid" "dget (rd_keys rd) (idem_key u c) = Some (accepted_text sid)"
      using assms(1) that by (auto simp: keyed_member store_ok_def)
    then show False using w by (auto simp: is_sid_def stored_texts(2) stored_texts(2) [symmetric])
  qed
  then have "keyed u c rd = []" by (cases "keyed u c rd") auto
  then show ?thesis by (simp add: Rejected)
qed (use assms(3) in auto)

text \<open>C7. A retry gets the original's answer: all final answers ever given for one user and client order id
  are the same, an acceptance names the one record on the stream, and after a rejection there
  is none.\<close>

theorem retries_get_one_answer:
  assumes "g = fold (gateway_step symbols band) es (new_gateway rk)"
    "dget (gw_requests g) n = Some (Answered u c a)" "final_answer a"
    "dget (gw_requests g) n' = Some (Answered u c a')" "final_answer a'"
  shows "a = a' \<and> (case a of Accepted oid sid \<Rightarrow> map fst (keyed u c (gw_redis g)) = [sid] | _ \<Rightarrow> keyed u c (gw_redis g) = [])"
proof -
  have ok: "gateway_ok g" unfolding assms(1) by (rule gateway_run_ok)
  then have store: "store_ok (gw_redis g)" by (simp add: gateway_ok_def)
  have p: "0 \<le> u" "0 \<le> c" "answer_ok (gw_redis g) u c a" "answer_ok (gw_redis g) u c a'"
    using in_flight [OF ok assms(2)] in_flight [OF ok assms(4)] by simp_all
  note m = final_matches [OF store p(3) assms(3) p(1,2)] and m' = final_matches [OF store p(4) assms(5) p(1,2)]
  have "a = a'"
  proof (cases a)
    case (Accepted oid sid)
    then obtain oid' where "a' = Accepted oid' sid" using m m' assms(5) by (cases a') auto
    then show ?thesis using p(3,4) Accepted by (simp add: answer_ok_def)
  next
    case (Rejected w)
    then obtain w' where "a' = Rejected w'" using m m' assms(5) by (cases a') auto
    then show ?thesis using p(3,4) Rejected by (auto simp: answer_ok_def stored_texts(3))
  qed (use assms(3) in auto)
  then show ?thesis using m by simp
qed

definition demo_body :: order_body where
  "demo_body = \<lparr> bd_client_order_id = 7, bd_symbol_id = 3, bd_side = 1, bd_tif = 1, bd_price_ticks = Some 100, bd_qty = 2, bd_market = False \<rparr>"

definition demo_listed :: "symbol list" where
  "demo_listed = [\<lparr> sm_symbol_id = 3, sm_name = ''QAA'', sm_tick_size_ticks = 100, sm_lot_size = 1 \<rparr>]"

text \<open>An order whose reply is lost after the script ran, and its retry.\<close>

definition demo_retry :: "gateway_event list" where
  "demo_retry = [Submit 1 42 demo_body True, Looked 1 9, Script_Runs 1 5 0, Submit 2 42 demo_body True, Redis_Fails 1, Looked 2 10,
     Submit 3 42 demo_body True, Looked 3 11]"

theorem retries_get_one_answer_witness:
  "dget (gw_requests (fold (gateway_step demo_listed 500) demo_retry (new_gateway (risk_from_db [(42, 1000)] {})))) 2 =
     Some (Answered 42 7 (Accepted JNull ''5-0'')) \<and>
    map fst (keyed 42 7 (gw_redis (fold (gateway_step demo_listed 500) demo_retry (new_gateway (risk_from_db [(42, 1000)] {}))))) = [''5-0'']"
proof -
  define g where "g = fold (gateway_step demo_listed 500) demo_retry (new_gateway (risk_from_db [(42, 1000)] {}))"
  have r: "dget (gw_requests g) 2 = Some (Answered 42 7 (Accepted JNull ''5-0''))"
    "dget (gw_requests g) 3 = Some (Answered 42 7 (Accepted JNull ''5-0''))"
    unfolding g_def by code_simp+
  from retries_get_one_answer [OF g_def r(1) _ r(2)] r(1) show ?thesis by (simp add: g_def)
qed

end
