(* ===== verification/Archive.thy ===== *)
theory Archive
  imports Market_Spec Recovery
begin

section \<open>The archive's rows: services/archiver/state.py\<close>

text \<open>
  \<open>ArchiveState\<close> folds the outbound stream into flush units, each the rows of one stretch of
  stream time. It composes a \<open>MarketState\<close>; this is the record \<open>archive\<close>, and a \<open>Unit\<close> is a
  \<open>flush_unit\<close>. A dataset's columns grow together, one cell each, so a dataset is the list of
  its rows. Every record class carries \<open>timestamp_ns\<close>, so the branch of \<open>apply\<close> for a record
  without one has no counterpart.
\<close>

subsection \<open>Stream ids\<close>

definition parse_stream_id :: "string \<Rightarrow> exn + (int \<times> int)" where
  "parse_stream_id s =
     (let (ms, sq) = partition_at CHR ''-'' s
      in sbind (parse_int ms) (\<lambda>a. sbind (if sq = [] then Inr 0 else parse_int sq) (\<lambda>b. Inr (a, b))))"

text \<open>\<open>min(ids, key=parse_stream_id)\<close>: the first of the least.\<close>

definition min_stream_id :: "string list \<Rightarrow> exn + string" where
  "min_stream_id ids =
     sbind (each (\<lambda>s. sbind (parse_stream_id s) (\<lambda>k. Inr (k, s))) ids) (\<lambda>ks.
       case ks of [] \<Rightarrow> Inl ValueError
       | k # rest \<Rightarrow> Inr (snd (fold (\<lambda>x best. if fst x < fst best then x else best) rest k)))"

subsection \<open>Units\<close>

record snap_row =
  sn_symbol_id :: int
  sn_second_ns :: int
  sn_side :: int
  sn_level :: int
  sn_price_ticks :: int
  sn_qty :: int

record flush_unit =
  un_start_ns :: int
  un_first_stream_id :: string
  un_resume_after :: string
  un_trades :: "trade list"
  un_bars :: "bar list"
  un_snapshots :: "snap_row list"
  un_sampled :: "int set"

definition new_unit :: "int \<Rightarrow> string \<Rightarrow> string \<Rightarrow> flush_unit" where
  "new_unit start sid resume =
     \<lparr> un_start_ns = start, un_first_stream_id = sid, un_resume_after = resume,
       un_trades = [], un_bars = [], un_snapshots = [], un_sampled = {} \<rparr>"

definition unit_empty :: "flush_unit \<Rightarrow> bool" where
  "unit_empty u \<longleftrightarrow> un_trades u = [] \<and> un_bars u = [] \<and> un_snapshots u = []"

subsection \<open>The state\<close>

record archive =
  ar_market :: market
  ar_book_depth :: int
  ar_flush_seconds :: int
  ar_flush_ns :: int
  ar_open :: "(int, flush_unit) dict"
  ar_ready :: "flush_unit list"
  ar_sealed_through :: "int option"
  ar_last_stream_id :: string
  ar_records_applied :: int
  ar_late_rows :: int

definition DEFAULT_FLUSH_SECONDS :: int where "DEFAULT_FLUSH_SECONDS = 60"

definition new_archive :: "int list \<Rightarrow> int \<Rightarrow> int \<Rightarrow> exn + archive" where
  "new_archive widths depth secs =
     (if secs < 1 then Inl ValueError
      else if 0 \<in> set widths then Inl ZeroDivisionError
      else if [w \<leftarrow> widths. secs mod w \<noteq> 0] \<noteq> [] then Inl ValueError
      else Inr \<lparr> ar_market = new_market widths, ar_book_depth = depth, ar_flush_seconds = secs,
                 ar_flush_ns = secs * NS_PER_SECOND, ar_open = [], ar_ready = [], ar_sealed_through = None,
                 ar_last_stream_id = ''0-0'', ar_records_applied = 0, ar_late_rows = 0 \<rparr>)"

definition unit_start :: "archive \<Rightarrow> int \<Rightarrow> int" where
  "unit_start a ts = ts div ar_flush_ns a * ar_flush_ns a"

definition second_start :: "int \<Rightarrow> int" where
  "second_start ts = ts div NS_PER_SECOND * NS_PER_SECOND"

subsection \<open>Filing rows\<close>

definition ensure_unit :: "int \<Rightarrow> string \<Rightarrow> string \<Rightarrow> archive \<Rightarrow> archive" where
  "ensure_unit start sid resume a =
     (if (case ar_sealed_through a of None \<Rightarrow> False | Some s \<Rightarrow> start \<le> s) then a
      else (case dget (ar_open a) start of
              Some u \<Rightarrow> a
            | None \<Rightarrow> a\<lparr>ar_open := dset start (new_unit start sid resume) (ar_open a)\<rparr>))"

definition unit_for :: "int \<Rightarrow> archive \<Rightarrow> flush_unit option" where
  "unit_for ts a = dget (ar_open a) (unit_start a ts)"

text \<open>A row goes into the unit of its time; where that is gone the row is counted as late.\<close>

definition file_row :: "int \<Rightarrow> (flush_unit \<Rightarrow> flush_unit) \<Rightarrow> archive \<Rightarrow> archive" where
  "file_row ts put a =
     (case unit_for ts a of
        None \<Rightarrow> a\<lparr>ar_late_rows := ar_late_rows a + 1\<rparr>
      | Some u \<Rightarrow> a\<lparr>ar_open := dset (unit_start a ts) (put u) (ar_open a)\<rparr>)"

definition file_trade :: "trade \<Rightarrow> archive \<Rightarrow> archive" where
  "file_trade tr = file_row (tr_timestamp_ns tr) (\<lambda>u. u\<lparr>un_trades := un_trades u @ [tr]\<rparr>)"

definition file_bar :: "bar \<Rightarrow> archive \<Rightarrow> archive" where
  "file_bar b = file_row (bar_open_ns b) (\<lambda>u. u\<lparr>un_bars := un_bars u @ [b]\<rparr>)"

definition collect_trades :: "int \<Rightarrow> archive \<Rightarrow> archive" where
  "collect_trades sy a =
     (let (t, trs) = tape_drain sy (mk_tape (ar_market a))
      in fold file_trade trs (a\<lparr>ar_market := (ar_market a)\<lparr>mk_tape := t\<rparr>\<rparr>))"

definition collect_bars :: "bar list \<Rightarrow> archive \<Rightarrow> archive" where
  "collect_bars = fold file_bar"

subsection \<open>Sampling\<close>

definition snap_rows :: "market \<Rightarrow> int \<Rightarrow> int \<Rightarrow> snap_row list" where
  "snap_rows m depth second =
     concat (map (\<lambda>sy. concat (map (\<lambda>sd.
         map (\<lambda>(level, row). \<lparr> sn_symbol_id = sy, sn_second_ns = second, sn_side = sd, sn_level = int level,
                               sn_price_ticks = row ! 0, sn_qty = row ! 1 \<rparr>)
           (enumerate 0 (bk_levels sd depth (mk_book sy m))))
       [Side_BUY, Side_SELL])) (market_symbols m))"

text \<open>\<open>range(start, start + flush_ns, NS_PER_SECOND)\<close>, left at the first second not before the cutoff.\<close>

definition seconds_of :: "int \<Rightarrow> int \<Rightarrow> int list" where
  "seconds_of start secs = map (\<lambda>k. start + int k * NS_PER_SECOND) [0..<nat secs]"

definition sample_second :: "market \<Rightarrow> int \<Rightarrow> int \<Rightarrow> flush_unit \<Rightarrow> flush_unit" where
  "sample_second m depth second u =
     (if second \<in> un_sampled u then u
      else u\<lparr>un_sampled := insert second (un_sampled u), un_snapshots := un_snapshots u @ snap_rows m depth second\<rparr>)"

definition sample_unit :: "archive \<Rightarrow> int \<Rightarrow> flush_unit \<Rightarrow> flush_unit" where
  "sample_unit a cutoff u =
     fold (sample_second (ar_market a) (ar_book_depth a))
       (takeWhile (\<lambda>s. s < cutoff) (seconds_of (un_start_ns u) (ar_flush_seconds a))) u"

text \<open>The open units are sampled each on its own, so the order of the loop does not matter.\<close>

definition sample_until :: "int \<Rightarrow> archive \<Rightarrow> archive" where
  "sample_until cutoff a = a\<lparr>ar_open := map (\<lambda>(start, u). (start, sample_unit a cutoff u)) (ar_open a)\<rparr>"

subsection \<open>Sealing\<close>

definition close_ended :: "int \<Rightarrow> int \<Rightarrow> builder \<Rightarrow> builder \<times> bar option" where
  "close_ended cutoff w bb =
     (case bb_current bb of
        None \<Rightarrow> (bb, None)
      | Some cur \<Rightarrow> if bar_open_ns cur + w * NS_PER_SECOND \<le> cutoff then bb_flush bb else (bb, None))"

definition force_close_bars :: "int \<Rightarrow> archive \<Rightarrow> archive" where
  "force_close_bars cutoff a =
     (let m = ar_market a;
          closed = concat (map (\<lambda>(sy, bs). List.map_filter (\<lambda>(w, bb). snd (close_ended cutoff w bb)) (bs_builders bs)) (mk_bars m));
          bars = map (\<lambda>(sy, bs). (sy, bs\<lparr>bs_builders := map (\<lambda>(w, bb). (w, fst (close_ended cutoff w bb))) (bs_builders bs)\<rparr>)) (mk_bars m)
      in collect_bars closed (a\<lparr>ar_market := m\<lparr>mk_bars := bars\<rparr>\<rparr>))"

definition seal_unit :: "int \<Rightarrow> archive \<Rightarrow> archive" where
  "seal_unit start a =
     (case dget (ar_open a) start of
        None \<Rightarrow> a
      | Some u \<Rightarrow>
          a\<lparr>ar_open := dpop start (ar_open a),
            ar_sealed_through := Some (case ar_sealed_through a of None \<Rightarrow> start | Some s \<Rightarrow> max s start),
            ar_ready := (if unit_empty u then ar_ready a else ar_ready a @ [u])\<rparr>)"

definition seal_before :: "int \<Rightarrow> archive \<Rightarrow> archive" where
  "seal_before cutoff a =
     (let stale = [start \<leftarrow> dkeys (ar_open a). start < cutoff]
      in if stale = [] then a else fold seal_unit (sort stale) (force_close_bars cutoff a))"

definition finish :: "archive \<Rightarrow> archive" where
  "finish a =
     (if ar_open a = [] then a
      else let end = Max (set (dkeys (ar_open a))) + ar_flush_ns a;
               a = force_close_bars end (sample_until end a)
           in fold seal_unit (sort (dkeys (ar_open a))) a)"

subsection \<open>One record\<close>

definition archive_apply :: "wire \<Rightarrow> string \<Rightarrow> archive \<Rightarrow> exn + archive" where
  "archive_apply rec sid a0 =
     (let ts = timestamp_ns (hdr rec);
          a1 = sample_until (second_start ts) (a0\<lparr>ar_last_stream_id := sid, ar_records_applied := ar_records_applied a0 + 1\<rparr>);
          a2 = ensure_unit (unit_start a1 ts) sid (ar_last_stream_id a0) a1
      in sbind (market_apply rec (Some sid) (ar_market a2)) (\<lambda>m.
           let a3 = a2\<lparr>ar_market := m\<rparr>;
               a4 = (if is_Fill rec then collect_trades (symbol_id rec) a3 else a3);
               (m', closed) = drain_closed_bars (ar_market a4)
           in Inr (seal_before (unit_start a4 ts) (collect_bars closed (a4\<lparr>ar_market := m'\<rparr>)))))"

subsection \<open>What the writer takes\<close>

definition drain_ready :: "archive \<Rightarrow> archive \<times> flush_unit list" where
  "drain_ready a = (a\<lparr>ar_ready := []\<rparr>, sort_key un_start_ns (ar_ready a))"

definition archive_checkpoint :: "archive \<Rightarrow> exn + string" where
  "archive_checkpoint a =
     (if ar_open a \<noteq> []
      then (case dget (ar_open a) (Min (set (dkeys (ar_open a)))) of None \<Rightarrow> Inl KeyError | Some u \<Rightarrow> Inr (un_resume_after u))
      else if ar_ready a \<noteq> [] then min_stream_id (map un_resume_after (ar_ready a))
      else Inr (ar_last_stream_id a))"

end
