(* ===== verification/Archiver.thy ===== *)
theory Archiver
  imports Archive Settings Stream_Replay
begin

section \<open>The archive on disk: services/archiver/writer.py and runner.py\<close>

text \<open>
  The writer turns a sealed unit into one file per dataset and symbol and keeps the checkpoint
  file; the runner reads, applies and writes. A file is a table under its path below the
  archive's root, written whole or not at all (\<open>os.replace\<close>); what Parquet does to a table is not
  modelled. \<open>landed\<close> says how many of a step's writes happen before the process dies.
\<close>

subsection \<open>Paths\<close>

text \<open>The UTC date of a day counted from 1970-01-01, and \<open>strftime\<close>'s two-digit fields.\<close>

definition leap_year :: "int \<Rightarrow> bool" where
  "leap_year y \<longleftrightarrow> y mod 4 = 0 \<and> (y mod 100 \<noteq> 0 \<or> y mod 400 = 0)"

definition days_in_year :: "int \<Rightarrow> int" where
  "days_in_year y = (if leap_year y then 366 else 365)"

definition days_in_month :: "int \<Rightarrow> int \<Rightarrow> int" where
  "days_in_month y m =
     (if m = 2 then (if leap_year y then 29 else 28) else if m \<in> {4, 6, 9, 11} then 30 else 31)"

function year_and_day :: "int \<Rightarrow> int \<Rightarrow> int \<times> int" where
  "year_and_day y d = (if d < days_in_year y then (y, d) else year_and_day (y + 1) (d - days_in_year y))"
  by pat_completeness auto

termination year_and_day
  by (relation "measure (nat \<circ> snd)") (auto simp: days_in_year_def split: if_splits)

function month_and_day :: "int \<Rightarrow> int \<Rightarrow> int \<Rightarrow> int \<times> int" where
  "month_and_day y m d = (if d < days_in_month y m then (m, d) else month_and_day y (m + 1) (d - days_in_month y m))"
  by pat_completeness auto

termination month_and_day
  by (relation "measure (nat \<circ> snd \<circ> snd)") (auto simp: days_in_month_def split: if_splits)

declare year_and_day.simps [simp del] month_and_day.simps [simp del]

definition pad2 :: "int \<Rightarrow> string" where
  "pad2 n = (if n < 10 then CHR ''0'' # str_int n else str_int n)"

definition date_label :: "int \<Rightarrow> string" where
  "date_label day =
     (let (y, yd) = year_and_day 1970 day; (m, md) = month_and_day y 1 yd
      in str_int y @ ''-'' @ pad2 m @ ''-'' @ pad2 (md + 1))"

definition time_label :: "int \<Rightarrow> string" where
  "time_label s = pad2 (s div 3600) @ pad2 (s div 60 mod 60) @ pad2 (s mod 60)"

definition unit_label :: "int \<Rightarrow> string \<times> string" where
  "unit_label start =
     (let secs = start div NS_PER_SECOND in (date_label (secs div 86400), time_label (secs mod 86400)))"

text \<open>\<open>self._names\<close>: a later symbol with the same id would replace an earlier one.\<close>

definition writer_names :: "symbol list \<Rightarrow> (int, string) dict" where
  "writer_names ss = dict_of (map (\<lambda>s. (sm_symbol_id s, sm_name s)) ss)"

definition symbol_name :: "(int, string) dict \<Rightarrow> int \<Rightarrow> string" where
  "symbol_name names sy =
     (case dget names sy of Some n \<Rightarrow> if n \<noteq> [] then n else ''id='' @ str_int sy | None \<Rightarrow> ''id='' @ str_int sy)"

text \<open>The parts of the path below the root; a configured name holds no slash.\<close>

type_synonym path = "string list"

definition path_for :: "(int, string) dict \<Rightarrow> string \<Rightarrow> int \<Rightarrow> int \<Rightarrow> path" where
  "path_for names dataset sy start =
     (let (date, leaf) = unit_label start
      in [dataset, ''symbol='' @ symbol_name names sy, ''date='' @ date, leaf @ ''.parquet''])"

subsection \<open>Writing a unit\<close>

datatype table = Trades "trade list" | Bars "bar list" | Snapshots "snap_row list"

text \<open>One dataset: for each of its symbols, ascending, the rows of that symbol.\<close>

definition split_by_symbol :: "('r \<Rightarrow> int) \<Rightarrow> 'r list \<Rightarrow> (int \<times> 'r list) list" where
  "split_by_symbol f rows =
     map (\<lambda>sy. (sy, [r \<leftarrow> rows. f r = sy])) (sorted_list_of_set (set (map f rows)))"

definition unit_files :: "(int, string) dict \<Rightarrow> flush_unit \<Rightarrow> (path \<times> table) list" where
  "unit_files names u =
     map (\<lambda>(sy, rows). (path_for names ''trades'' sy (un_start_ns u), Trades rows)) (split_by_symbol tr_symbol_id (un_trades u)) @
     map (\<lambda>(sy, rows). (path_for names ''bars'' sy (un_start_ns u), Bars rows)) (split_by_symbol bar_symbol_id (un_bars u)) @
     map (\<lambda>(sy, rows). (path_for names ''snapshots'' sy (un_start_ns u), Snapshots rows)) (split_by_symbol sn_symbol_id (un_snapshots u))"

record disk =
  dk_files :: "(path, table) dict"
  dk_checkpoint :: "string option"

definition write_table :: "path \<times> table \<Rightarrow> disk \<Rightarrow> disk" where
  "write_table = (\<lambda>(p, t) d. d\<lparr>dk_files := dset p t (dk_files d)\<rparr>)"

subsection \<open>The checkpoint file\<close>

definition checkpoint_text :: "string \<Rightarrow> string \<Rightarrow> int \<Rightarrow> string" where
  "checkpoint_text sid last_id applied =
     json_dumps (JObj [(''last_stream_id'', JStr last_id), (''records_applied'', JInt applied), (''stream_id'', JStr sid)])
       @ [CHR 0x0A]"

text \<open>\<open>str(value)\<close> of a number or a constant; of an array or an object it is not modelled.\<close>

definition text_of :: "json \<Rightarrow> string option" where
  "text_of v =
     (case v of
        JStr s \<Rightarrow> Some s
      | JInt n \<Rightarrow> Some (str_int n)
      | JBool b \<Rightarrow> Some (if b then ''True'' else ''False'')
      | JNull \<Rightarrow> Some ''None''
      | _ \<Rightarrow> None)"

definition read_checkpoint :: "disk \<Rightarrow> string option" where
  "read_checkpoint d =
     (case dk_checkpoint d of
        None \<Rightarrow> None
      | Some raw \<Rightarrow> (case sbind (json_loads raw) (jget ''stream_id'') of Inl e \<Rightarrow> None | Inr v \<Rightarrow> text_of v))"

subsection \<open>The runner\<close>

record archiver =
  av_names :: "(int, string) dict"
  av_state :: archive
  av_position :: string

definition resume :: "archive \<Rightarrow> (int, string) dict \<Rightarrow> disk \<Rightarrow> archiver" where
  "resume fresh names d =
     \<lparr> av_names = names, av_state = fresh,
       av_position = (case read_checkpoint d of None \<Rightarrow> ''0-0'' | Some s \<Rightarrow> if s = [] then ''0-0'' else s) \<rparr>"

fun apply_batch :: "(string \<times> wire) list \<Rightarrow> archiver \<Rightarrow> exn + archiver" where
  "apply_batch [] v = Inr v"
| "apply_batch ((sid, rec) # es) v =
     sbind (archive_apply rec sid (av_state v)) (\<lambda>a. apply_batch es (v\<lparr>av_state := a, av_position := sid\<rparr>))"

text \<open>\<open>_write_ready\<close>: the writes in order, the checkpoint last; none without a sealed unit.\<close>

datatype disk_write = Write_Table path table | Write_Checkpoint string

definition ready_writes :: "archiver \<Rightarrow> exn + (archiver \<times> disk_write list)" where
  "ready_writes v =
     (let (a, units) = drain_ready (av_state v); v' = v\<lparr>av_state := a\<rparr>
      in if units = [] then Inr (v', [])
         else sbind (archive_checkpoint a) (\<lambda>sid.
           Inr (v', map (\<lambda>(p, t). Write_Table p t) (concat (map (unit_files (av_names v)) units)) @
                    [Write_Checkpoint (checkpoint_text sid (ar_last_stream_id a) (ar_records_applied a))])))"

fun do_write :: "disk_write \<Rightarrow> disk \<Rightarrow> disk" where
  "do_write (Write_Table p t) d = write_table (p, t) d"
| "do_write (Write_Checkpoint s) d = d\<lparr>dk_checkpoint := Some s\<rparr>"

definition archiver_step :: "(string \<times> wire) list \<Rightarrow> archiver \<Rightarrow> exn + (archiver \<times> disk_write list)" where
  "archiver_step batch v = sbind (apply_batch batch v) ready_writes"

definition archiver_finish :: "archiver \<Rightarrow> exn + (archiver \<times> disk_write list)" where
  "archiver_finish v = ready_writes (v\<lparr>av_state := finish (av_state v)\<rparr>)"

subsection \<open>The process and its crashes\<close>

text \<open>
  A step reads at most \<open>n\<close> entries; with \<open>Some k\<close> the process dies after \<open>k\<close> of the step's
  writes and starts again from the disk. A step that raises leaves the process as it was, to
  read again. \<open>Stop\<close> is the clean shutdown, then the next start.
\<close>

datatype archiver_event = Step nat "nat option" | Stop

definition archiver_event_step ::
  "archive \<Rightarrow> (int, string) dict \<Rightarrow> (string \<times> wire) list \<Rightarrow> archiver_event \<Rightarrow> archiver \<times> disk \<Rightarrow> archiver \<times> disk" where
  "archiver_event_step fresh names log e = (\<lambda>(v, d).
     case e of
       Step n crash \<Rightarrow>
         (case archiver_step (entries_after ''0-0'' n log (av_position v)) v of
            Inl _ \<Rightarrow> (v, d)
          | Inr (v', writes) \<Rightarrow>
              (case crash of
                 None \<Rightarrow> (v', fold do_write writes d)
               | Some k \<Rightarrow> (let d' = fold do_write (take k writes) d in (resume fresh names d', d'))))
     | Stop \<Rightarrow>
         (case archiver_finish v of
            Inl _ \<Rightarrow> (v, d)
          | Inr (v', writes) \<Rightarrow> (let d' = fold do_write writes d in (resume fresh names d', d'))))"

end
