(* ===== verification/Archive_Spec.thy ===== *)
theory Archive_Spec
  imports Archiver
begin

section \<open>What the archive promises\<close>

text \<open>
  On a stream whose time does not go backwards, every unit that is sealed holds exactly the
  prints of its stretch of time and exactly the candles cut from them; nothing is late; and the
  checkpoint is the id before the first record that is not on disk. The last part follows the
  process through crashes.
\<close>

subsection \<open>The rows a stream should give\<close>

type_synonym entries = "(string \<times> wire) list"

definition print_row :: "string \<times> wire \<Rightarrow> trade" where
  "print_row = (\<lambda>(sid, rec).
     \<lparr> tr_symbol_id = symbol_id rec, tr_price_ticks = price_ticks rec, tr_qty = qty rec,
       tr_aggressor_side = aggressor_side rec, tr_timestamp_ns = timestamp_ns (hdr rec), tr_seq = sid \<rparr>)"

definition prints :: "entries \<Rightarrow> trade list" where
  "prints es = map print_row (filter (is_Fill \<circ> snd) es)"

definition stamp :: "string \<times> wire \<Rightarrow> int" where
  "stamp e = timestamp_ns (hdr (snd e))"

definition unit_of :: "int \<Rightarrow> int \<Rightarrow> int" where
  "unit_of F ts = ts div F * F"

definition unit_prints :: "int \<Rightarrow> int \<Rightarrow> entries \<Rightarrow> trade list" where
  "unit_prints F U es = [t \<leftarrow> prints es. unit_of F (tr_timestamp_ns t) = U]"

definition symbol_prints :: "int \<Rightarrow> int \<Rightarrow> int \<Rightarrow> entries \<Rightarrow> print list" where
  "symbol_prints F sy U es =
     map (\<lambda>t. (tr_price_ticks t, tr_qty t, tr_timestamp_ns t)) [t \<leftarrow> unit_prints F U es. tr_symbol_id t = sy]"

definition unit_candles :: "int \<Rightarrow> int \<Rightarrow> int \<Rightarrow> int \<Rightarrow> entries \<Rightarrow> bar list" where
  "unit_candles F sy w U es =
     map (candle sy w) (groups (print_bucket (w * NS_PER_SECOND)) (symbol_prints F sy U es))"

lemma prints_append: "prints (es @ fs) = prints es @ prints fs"
  by (simp add: prints_def)

lemma prints_Nil [simp]: "prints [] = []"
  by (simp add: prints_def)

lemma prints_one: "prints [e] = (if is_Fill (snd e) then [print_row e] else [])"
  by (simp add: prints_def)

lemma print_row_sel [simp]:
  "tr_symbol_id (print_row e) = symbol_id (snd e)" "tr_timestamp_ns (print_row e) = stamp e"
  "tr_price_ticks (print_row e) = price_ticks (snd e)" "tr_qty (print_row e) = qty (snd e)"
  by (simp_all add: print_row_def stamp_def case_prod_unfold)

lemma unit_prints_snoc:
  "unit_prints F U (es @ [e]) = unit_prints F U es @ (if is_Fill (snd e) \<and> unit_of F (stamp e) = U then [print_row e] else [])"
  by (simp add: unit_prints_def prints_append prints_one)

lemma symbol_prints_snoc:
  "symbol_prints F sy U (es @ [e]) = symbol_prints F sy U es @
     (if is_Fill (snd e) \<and> unit_of F (stamp e) = U \<and> symbol_id (snd e) = sy
      then [(price_ticks (snd e), qty (snd e), stamp e)] else [])"
  by (simp add: symbol_prints_def unit_prints_snoc)

text \<open>Units of the entries seen so far are never later than the last one.\<close>

lemma unit_of_mono: "0 < F \<Longrightarrow> x \<le> y \<Longrightarrow> unit_of F x \<le> unit_of F y"
  by (simp add: unit_of_def zdiv_mono1)

lemma no_prints_later:
  "(\<And>e. e \<in> set es \<Longrightarrow> unit_of F (stamp e) < U) \<Longrightarrow> unit_prints F U es = []"
  by (fastforce simp: unit_prints_def prints_def filter_empty_conv)

lemma bucket_in_unit:
  assumes "0 < w" "w dvd s" "0 < s"
  shows "unit_of (s * NS_PER_SECOND) (ts div (w * NS_PER_SECOND) * (w * NS_PER_SECOND)) = unit_of (s * NS_PER_SECOND) ts"
proof -
  obtain k where k: "s = w * k" using assms(2) by blast
  then have pos: "0 < k" using assms(1,3) zero_less_mult_pos by blast
  define W where "W = w * NS_PER_SECOND"
  have W: "0 < W" "s * NS_PER_SECOND = W * k" using assms(1) by (simp_all add: W_def k NS_PER_SECOND_def)
  have "ts div W * W div (W * k) = ts div (W * k)"
    using W pos by (simp add: zdiv_zmult2_eq)
  then show ?thesis by (simp add: unit_of_def W_def [symmetric] W(2))
qed

text \<open>One more element joins the last run or starts its own.\<close>

lemma groups_snoc:
  "groups f (xs @ [x]) =
     (if xs \<noteq> [] \<and> f (last xs) = f x then butlast (groups f xs) @ [last (groups f xs) @ [x]] else groups f xs @ [[x]])"
proof (induction f xs rule: groups.induct)
  case (2 f y ys)
  let ?d = "dropWhile (\<lambda>z. f z = f y) ys"
  show ?case
  proof (cases "?d = []")
    case True
    then have all: "\<And>z. z \<in> set ys \<Longrightarrow> f z = f y" by (simp add: dropWhile_eq_Nil_conv)
    have tw: "takeWhile (\<lambda>z. f z = f y) ys = ys" unfolding takeWhile_eq_all_conv using all by blast
    have l: "f (last (y # ys)) = f y" using all by (cases ys rule: rev_cases) auto
    have g: "groups f (y # ys) = [y # ys]" by (simp only: groups.simps True tw)
    have "takeWhile (\<lambda>z. f z = f y) (ys @ [x]) = ys @ takeWhile (\<lambda>z. f z = f y) [x]"
      "dropWhile (\<lambda>z. f z = f y) (ys @ [x]) = dropWhile (\<lambda>z. f z = f y) [x]"
      using all by (simp_all add: takeWhile_append2 dropWhile_append2)
    then have "groups f ((y # ys) @ [x]) = (if f x = f y then [(y # ys) @ [x]] else [y # ys, [x]])"
      by (simp only: append_Cons groups.simps) simp
    then show ?thesis using l by (simp only: g) simp
  next
    case False
    then have t: "takeWhile (\<lambda>z. f z = f y) (ys @ [x]) = takeWhile (\<lambda>z. f z = f y) ys"
      "dropWhile (\<lambda>z. f z = f y) (ys @ [x]) = ?d @ [x]"
      by (auto simp: dropWhile_eq_Nil_conv takeWhile_append dropWhile_append)
    have "last (takeWhile (\<lambda>z. f z = f y) ys @ ?d) = last ?d" using False by (rule last_appendR)
    then have "last ys = last ?d" unfolding takeWhile_dropWhile_id .
    then have l: "last (y # ys) = last ?d" using False by auto
    have n: "groups f ?d \<noteq> []" using False by (cases ?d) simp_all
    show ?thesis using 2 False t l n by simp
  qed
qed simp

lemma groups_last:
  "xs \<noteq> [] \<Longrightarrow> groups f xs \<noteq> [] \<and> last (groups f xs) \<noteq> [] \<and> last (last (groups f xs)) = last xs \<and>
     (\<forall>y \<in> set (last (groups f xs)). f y = f (last xs))"
  by (induction xs rule: rev_induct) (auto simp: groups_snoc)

lemma groups_Nil_iff [simp]: "groups f xs = [] \<longleftrightarrow> xs = []"
  using groups_last by fastforce

subsection \<open>What each step does to the open units\<close>

lemma dset_as_map: "wf_dict d \<Longrightarrow> dget d k = Some u \<Longrightarrow> dset k (f u) d = map (\<lambda>(s, x). (s, if s = k then f x else x)) d"
proof (induction d)
  case (Cons p d)
  have "map (\<lambda>(s, x). (s, if s = k then f x else x)) d = d" if "k \<notin> set (map fst d)"
    using that by (induction d) auto
  then show ?case using Cons by (cases p) (auto simp: wf_dict_def)
qed simp

definition add_bars :: "bar list \<Rightarrow> flush_unit \<Rightarrow> flush_unit" where
  "add_bars bs u = u\<lparr>un_bars := un_bars u @ bs\<rparr>"

definition add_trades :: "trade list \<Rightarrow> flush_unit \<Rightarrow> flush_unit" where
  "add_trades ts u = u\<lparr>un_trades := un_trades u @ ts\<rparr>"

lemma add_sel [simp]:
  "un_trades (add_bars bs u) = un_trades u" "un_bars (add_bars bs u) = un_bars u @ bs" "un_start_ns (add_bars bs u) = un_start_ns u"
  "un_resume_after (add_bars bs u) = un_resume_after u"
  "un_trades (add_trades ts u) = un_trades u @ ts" "un_bars (add_trades ts u) = un_bars u" "un_start_ns (add_trades ts u) = un_start_ns u"
  "un_resume_after (add_trades ts u) = un_resume_after u"
  by (simp_all add: add_bars_def add_trades_def)

lemma unit_start_is [simp]: "unit_start a ts = unit_of (ar_flush_ns a) ts"
  by (simp add: unit_start_def unit_of_def)

lemma unit_start_open [simp]:
  "unit_start (a\<lparr>ar_open := x\<rparr>) = unit_start a" "unit_start (a\<lparr>ar_market := m\<rparr>) = unit_start a"
  by (simp_all add: fun_eq_iff unit_start_def)

lemma fold_file_row:
  fixes ts_of :: "'r \<Rightarrow> int" and add :: "'r list \<Rightarrow> flush_unit \<Rightarrow> flush_unit"
  assumes add: "\<And>u. add [] u = u" "\<And>r rs u. add rs (add [r] u) = add (r # rs) u"
    and "wf_dict (ar_open a)" "\<forall>r \<in> set rs. unit_of (ar_flush_ns a) (ts_of r) \<in> set (dkeys (ar_open a))"
  shows "fold (\<lambda>r. file_row (ts_of r) (add [r])) rs a =
    a\<lparr>ar_open := map (\<lambda>(s, u). (s, add [r \<leftarrow> rs. unit_of (ar_flush_ns a) (ts_of r) = s] u)) (ar_open a)\<rparr>"
  using assms(3,4)
proof (induction rs arbitrary: a)
  case Nil
  have "map (\<lambda>(s, u). (s, add [] u)) d = d" for d :: "(int, flush_unit) dict" by (induction d) (auto simp: add)
  then show ?case by simp
next
  case (Cons r rs)
  let ?k = "unit_of (ar_flush_ns a) (ts_of r)"
  have "?k \<in> set (dkeys (ar_open a))" using Cons.prems(2) by simp
  then obtain u where u: "dget (ar_open a) ?k = Some u" unfolding dget_key_iff by blast
  define a' where "a' = a\<lparr>ar_open := map (\<lambda>(s, x). (s, if s = ?k then add [r] x else x)) (ar_open a)\<rparr>"
  have step: "file_row (ts_of r) (add [r]) a = a'"
    using dset_as_map [OF Cons.prems(1) u, of "add [r]"] by (simp add: file_row_def unit_for_def u a'_def)
  have keys: "dkeys (ar_open a') = dkeys (ar_open a)" by (simp add: a'_def case_prod_unfold)
  have wf: "wf_dict (ar_open a')" using Cons.prems(1) keys by (simp add: wf_dict_def)
  have F: "ar_flush_ns a' = ar_flush_ns a" by (simp add: a'_def)
  have "fold (\<lambda>r. file_row (ts_of r) (add [r])) (r # rs) a = fold (\<lambda>r. file_row (ts_of r) (add [r])) rs a'" by (simp add: step)
  also have "\<dots> = a'\<lparr>ar_open := map (\<lambda>(s, u). (s, add [r \<leftarrow> rs. unit_of (ar_flush_ns a') (ts_of r) = s] u)) (ar_open a')\<rparr>"
    using Cons.prems(2) unfolding keys [symmetric] F [symmetric] by (intro Cons.IH [OF wf]) simp
  finally show ?case by (auto simp: a'_def add case_prod_unfold o_def)
qed

lemma collect_bars_eq:
  assumes "wf_dict (ar_open a)" "\<forall>b \<in> set bs. unit_of (ar_flush_ns a) (bar_open_ns b) \<in> set (dkeys (ar_open a))"
  shows "collect_bars bs a = a\<lparr>ar_open := map (\<lambda>(s, u). (s, add_bars [b \<leftarrow> bs. unit_of (ar_flush_ns a) (bar_open_ns b) = s] u)) (ar_open a)\<rparr>"
proof -
  have eq: "file_bar = (\<lambda>b. file_row (bar_open_ns b) (add_bars [b]))" by (simp add: fun_eq_iff file_bar_def add_bars_def [abs_def])
  show ?thesis
    unfolding collect_bars_def eq by (rule fold_file_row; use assms in \<open>simp add: add_bars_def\<close>)
qed

lemma file_trades_eq:
  assumes "wf_dict (ar_open a)" "\<forall>t \<in> set ts. unit_of (ar_flush_ns a) (tr_timestamp_ns t) \<in> set (dkeys (ar_open a))"
  shows "fold file_trade ts a = a\<lparr>ar_open := map (\<lambda>(s, u). (s, add_trades [t \<leftarrow> ts. unit_of (ar_flush_ns a) (tr_timestamp_ns t) = s] u)) (ar_open a)\<rparr>"
proof -
  have eq: "file_trade = (\<lambda>t. file_row (tr_timestamp_ns t) (add_trades [t]))" by (simp add: fun_eq_iff file_trade_def add_trades_def [abs_def])
  show ?thesis unfolding eq by (rule fold_file_row; use assms in \<open>simp add: add_trades_def\<close>)
qed

lemma sample_unit_sel [simp]:
  "un_trades (sample_unit a c u) = un_trades u" "un_bars (sample_unit a c u) = un_bars u"
  "un_start_ns (sample_unit a c u) = un_start_ns u" "un_resume_after (sample_unit a c u) = un_resume_after u"
proof -
  have "un_trades (fold (sample_second m d) ss u) = un_trades u \<and> un_bars (fold (sample_second m d) ss u) = un_bars u \<and>
      un_start_ns (fold (sample_second m d) ss u) = un_start_ns u \<and> un_resume_after (fold (sample_second m d) ss u) = un_resume_after u"
    for m d ss by (induction ss arbitrary: u) (simp_all add: sample_second_def)
  then show "un_trades (sample_unit a c u) = un_trades u" "un_bars (sample_unit a c u) = un_bars u"
    "un_start_ns (sample_unit a c u) = un_start_ns u" "un_resume_after (sample_unit a c u) = un_resume_after u"
    by (simp_all add: sample_unit_def)
qed

subsection \<open>The open bars\<close>

definition cur_bar :: "market \<Rightarrow> int \<Rightarrow> int \<Rightarrow> bar option" where
  "cur_bar m sy w =
     (case dget (mk_bars m) sy of None \<Rightarrow> None
      | Some bs \<Rightarrow> (case dget (bs_builders bs) w of None \<Rightarrow> None | Some bb \<Rightarrow> bb_current bb))"

definition option_list :: "'a option \<Rightarrow> 'a list" where
  "option_list x = (case x of None \<Rightarrow> [] | Some y \<Rightarrow> [y])"

lemma option_list_simps [simp]: "option_list None = []" "option_list (Some y) = [y]"
  by (simp_all add: option_list_def)

lemma map_filter_values: "List.map_filter f (dvalues d) = List.map_filter (\<lambda>(w, bb). f bb) d"
  by (induction d) (auto simp: List.map_filter_simps split: option.split)

lemma map_filter_same: "(\<And>x. x \<in> set xs \<Longrightarrow> f x = g x) \<Longrightarrow> List.map_filter f xs = List.map_filter g xs"
  by (induction xs) (auto simp: List.map_filter_simps split: option.split)

lemma filter_map_filter:
  assumes "wf_dict d" "\<And>k v b. (k, v) \<in> set d \<Longrightarrow> f k v = Some b \<Longrightarrow> g b = k"
  shows "[b \<leftarrow> List.map_filter (\<lambda>(k, v). f k v) d. g b = k] = option_list (Option.bind (dget d k) (f k))"
  using assms
proof (induction d)
  case (Cons p d)
  obtain k' v where p: "p = (k', v)" by (cases p)
  have none: "dget d k' = None" and wf: "wf_dict d" using Cons.prems(1) by (simp_all add: p wf_dict_def map_of_eq_None_iff)
  have IH: "[b \<leftarrow> List.map_filter (\<lambda>(k, v). f k v) d. g b = k] = option_list (Option.bind (dget d k) (f k))"
    by (rule Cons.IH [OF wf]) (use Cons.prems(2) in auto)
  show ?case
  proof (cases "f k' v")
    case None
    then show ?thesis using IH none by (cases "k' = k") (auto simp: p List.map_filter_simps)
  next
    case (Some b)
    have "g b = k'" by (rule Cons.prems(2) [of k' v]) (simp_all add: p Some)
    then show ?thesis using IH none Some by (cases "k' = k") (auto simp: p List.map_filter_simps)
  qed
qed (simp add: List.map_filter_simps)

lemma builders_of:
  assumes "bar_set_ok sy widths bs" "w \<in> set widths"
  obtains bb where "dget (bs_builders bs) w = Some bb" "builder_ok sy w bb"
proof -
  have "w \<in> set (dkeys (bs_builders bs))" using assms by (simp add: bar_set_ok_def)
  then obtain bb where "dget (bs_builders bs) w = Some bb" unfolding dget_key_iff by blast
  then show ?thesis using assms(1) that by (simp add: bar_set_ok_def)
qed

lemma cur_bar_fresh:
  assumes "market_ok m" "w \<in> set (mk_bar_widths m)"
  shows "cur_bar m sy w = (case dget (bs_builders (the_bar_set sy m)) w of None \<Rightarrow> None | Some bb \<Rightarrow> bb_current bb)"
  using assms by (auto simp: cur_bar_def the_bar_set_def dget_fresh fresh_builder_def split: option.split)

lemma cur_bar_keys:
  assumes "market_ok m" "cur_bar m sy w = Some b"
  shows "w \<in> set (mk_bar_widths m)" "bar_symbol_id b = sy" "bar_bucket_seconds b = w"
proof -
  obtain bs bb where d: "dget (mk_bars m) sy = Some bs" "dget (bs_builders bs) w = Some bb" "bb_current bb = Some b"
    using assms(2) by (auto simp: cur_bar_def split: option.splits)
  have ok: "bar_set_ok sy (mk_bar_widths m) bs" using assms(1) d(1) by (simp add: market_ok_def)
  then have "builder_ok sy w bb" using d(2) by (simp add: bar_set_ok_def)
  then show "bar_symbol_id b = sy" "bar_bucket_seconds b = w" using d(3) by (simp_all add: builder_ok_def)
  have "w \<in> set (dkeys (bs_builders bs))" using d(2) by (simp only: dget_key_iff) simp
  then show "w \<in> set (mk_bar_widths m)" using ok by (simp add: bar_set_ok_def)
qed

text \<open>A print of symbol \<open>sy\<close>: what is the open bar at each width afterwards, and what was closed.\<close>

definition bar_after :: "int \<Rightarrow> int \<Rightarrow> print \<Rightarrow> bar option \<Rightarrow> bar" where
  "bar_after sy w x cur =
     (case cur of
        Some b \<Rightarrow> if print_bucket (w * NS_PER_SECOND) x = bar_open_ns b then bar_extend (fst x) (fst (snd x)) b else candle sy w [x]
      | None \<Rightarrow> candle sy w [x])"

definition bar_closed :: "int \<Rightarrow> print \<Rightarrow> bar option \<Rightarrow> bar option" where
  "bar_closed w x cur =
     (case cur of
        Some b \<Rightarrow> if print_bucket (w * NS_PER_SECOND) x = bar_open_ns b then None else Some b
      | None \<Rightarrow> None)"

lemma bb_add_is:
  assumes "builder_ok sy w bb"
  shows "bb_current (fst (bb_add px q ts bb)) = Some (bar_after sy w (px, q, ts) (bb_current bb))"
    "snd (bb_add px q ts bb) = bar_closed w (px, q, ts) (bb_current bb)"
  using assms
  by (simp_all add: bb_add_def Let_def bar_after_def bar_closed_def builder_ok_def bucket_start_def print_bucket_def
      opening_bar_def candle_def split: option.split)

lemma mk_bar_set_cong: "mk_bars m' = mk_bars m \<Longrightarrow> mk_bar_widths m' = mk_bar_widths m \<Longrightarrow> mk_bar_set sy m' = mk_bar_set sy m"
  by (simp add: mk_bar_set_def cong: option.case_cong)

lemma market_apply_out:
  assumes "market_ok m" "market_apply rec (Some sid) m = Inr m'"
  shows "mk_closed_bars m' = mk_closed_bars m @
      (if is_Fill rec then snd (bs_add (price_ticks rec) (qty rec) (timestamp_ns (hdr rec)) (the_bar_set (symbol_id rec) m)) else [])"
    "mk_tape m' = (if is_Fill rec then tape_record (print_row (sid, rec)) (mk_tape m) else mk_tape m)"
proof -
  have f: "\<not> is_OrderAccepted rec \<and> \<not> is_OrderCancelled rec" if "is_Fill rec" using that by (cases rec) simp_all
  define m1 where "m1 = m\<lparr>mk_last_seq := sid, records_applied := records_applied m + 1\<rparr>"
  have m1: "mk_bars m1 = mk_bars m" "mk_bar_widths m1 = mk_bar_widths m" "mk_tape m1 = mk_tape m"
    "mk_closed_bars m1 = mk_closed_bars m" "mk_last_seq m1 = sid" by (simp_all add: m1_def)
  have app: "market_apply rec (Some sid) m =
      (if is_OrderAccepted rec
       then Inr (with_book (symbol_id rec) (bk_accept (order_id rec) (side rec) (price_ticks rec) (qty rec)) m1)
       else if is_Fill rec then market_fill rec (Some sid) m1
       else if is_OrderCancelled rec then Inr (with_book (symbol_id rec) (bk_cancel (order_id rec)) m1)
       else Inr m1)"
    by (simp add: market_apply_def m1_def)
  let ?m = "with_book (symbol_id rec) (bk_fill (taker_order_id rec) (qty rec) \<circ> bk_fill (maker_order_id rec) (qty rec)) m1"
  have tr: "trade_of rec (Some sid) ?m = print_row (sid, rec)"
    by (simp add: trade_of_def print_row_def m1)
  have bs: "mk_bar_set (symbol_id rec) (?m\<lparr>mk_tape := t\<rparr>) = Inr (the_bar_set (symbol_id rec) m)" for t
    using mk_bar_set_is [OF assms(1), of "symbol_id rec"] mk_bar_set_cong [of "?m\<lparr>mk_tape := t\<rparr>" m] by (simp add: m1)
  have fill: "market_fill rec (Some sid) m1 = Inr m' \<Longrightarrow>
      mk_closed_bars m' = mk_closed_bars m @ snd (bs_add (price_ticks rec) (qty rec) (timestamp_ns (hdr rec)) (the_bar_set (symbol_id rec) m)) \<and>
      mk_tape m' = tape_record (print_row (sid, rec)) (mk_tape m)"
    by (auto simp: market_fill_def Let_def tr bs m1 case_prod_unfold)
  show "mk_closed_bars m' = mk_closed_bars m @
      (if is_Fill rec then snd (bs_add (price_ticks rec) (qty rec) (timestamp_ns (hdr rec)) (the_bar_set (symbol_id rec) m)) else [])"
    "mk_tape m' = (if is_Fill rec then tape_record (print_row (sid, rec)) (mk_tape m) else mk_tape m)"
    using assms(2) fill f m1 by (auto simp: app split: if_splits)
qed

lemma market_bars_after:
  assumes ok: "market_ok m" and app: "market_apply rec (Some sid) m = Inr m'" and none: "mk_closed_bars m = []"
  defines "x \<equiv> (price_ticks rec, qty rec, timestamp_ns (hdr rec))"
  shows "market_ok m'" "mk_bar_widths m' = mk_bar_widths m"
    "cur_bar m' sy w = (if is_Fill rec \<and> sy = symbol_id rec \<and> w \<in> set (mk_bar_widths m)
                        then Some (bar_after sy w x (cur_bar m sy w)) else cur_bar m sy w)"
    "[b \<leftarrow> mk_closed_bars m'. bar_symbol_id b = sy \<and> bar_bucket_seconds b = w] =
      (if is_Fill rec \<and> sy = symbol_id rec \<and> w \<in> set (mk_bar_widths m)
       then option_list (bar_closed w x (cur_bar m sy w)) else [])"
    "b \<in> set (mk_closed_bars m') \<Longrightarrow> \<exists>sy w. cur_bar m sy w = Some b"
proof -
  let ?sy = "symbol_id rec"
  define bs where "bs = the_bar_set ?sy m"
  define out where "out = bs_add (price_ticks rec) (qty rec) (timestamp_ns (hdr rec)) bs"
  have bs_ok: "bar_set_ok ?sy (mk_bar_widths m) bs" unfolding bs_def by (rule the_bar_set_ok [OF ok])
  obtain m2 where m2: "market_apply rec (Some sid) m = Inr m2" "market_ok m2" "mk_bar_widths m2 = mk_bar_widths m"
      "mk_bars m2 = (if is_Fill rec then dset ?sy (fst out) (mk_bars m) else mk_bars m)"
    by (rule market_apply_sel [OF ok, of rec "Some sid"]) (simp add: out_def bs_def)
  then have eq: "m2 = m'" using app by simp
  show "market_ok m'" "mk_bar_widths m' = mk_bar_widths m" using m2 by (simp_all add: eq)
  have cur: "cur_bar m ?sy w = (case dget (bs_builders bs) w of None \<Rightarrow> None | Some bb \<Rightarrow> bb_current bb)" if "w \<in> set (mk_bar_widths m)" for w
    using cur_bar_fresh [OF ok that] by (simp add: bs_def)
  have built: "dget (bs_builders (fst out)) w = map_option (\<lambda>bb. fst (bb_add (price_ticks rec) (qty rec) (timestamp_ns (hdr rec)) bb)) (dget (bs_builders bs) w)" for w
    by (simp add: out_def bs_add_def dget_map_values)
  have absent: "dget (bs_builders bs) w = None" if "w \<notin> set (mk_bar_widths m)" for w
    using bs_ok that by (simp add: bar_set_ok_def dget_None_iff)
  have bb_ok: "builder_ok ?sy w bb" if "dget (bs_builders bs) w = Some bb" for w bb
    using bs_ok that by (simp add: bar_set_ok_def)
  have absent': "cur_bar m ?sy w = None" if "w \<notin> set (mk_bar_widths m)" for w
    using cur_bar_keys(1) [OF ok, of ?sy w] that by (cases "cur_bar m ?sy w") auto
  show "cur_bar m' sy w = (if is_Fill rec \<and> sy = ?sy \<and> w \<in> set (mk_bar_widths m)
                        then Some (bar_after sy w x (cur_bar m sy w)) else cur_bar m sy w)"
  proof (cases "is_Fill rec \<and> sy = ?sy")
    case False
    then show ?thesis using m2(4) by (auto simp: cur_bar_def eq)
  next
    case True
    then have c: "cur_bar m' sy w = (case dget (bs_builders (fst out)) w of None \<Rightarrow> None | Some bb \<Rightarrow> bb_current bb)"
      using m2(4) by (simp add: cur_bar_def eq)
    show ?thesis
    proof (cases "w \<in> set (mk_bar_widths m)")
      case w: True
      obtain bb where bb: "dget (bs_builders bs) w = Some bb" "builder_ok ?sy w bb" by (rule builders_of [OF bs_ok w])
      have "cur_bar m' sy w = Some (bar_after ?sy w x (bb_current bb))"
        unfolding c built by (simp add: bb bb_add_is(1) [OF bb(2)] x_def)
      moreover have "cur_bar m ?sy w = bb_current bb" using cur [OF w] bb by simp
      ultimately show ?thesis using True w by simp
    next
      case False
      then have "cur_bar m' sy w = None" unfolding c built by (simp add: absent)
      then show ?thesis using True False by (simp add: absent')
    qed
  qed
  have closed: "mk_closed_bars m' = (if is_Fill rec then snd out else [])"
    using market_apply_out(1) [OF ok app] none by (simp add: out_def bs_def)
  have out: "snd out = List.map_filter (\<lambda>(w, bb). bar_closed w x (bb_current bb)) (bs_builders bs)"
  proof -
    have "List.map_filter (\<lambda>(w, bb). snd (bb_add (price_ticks rec) (qty rec) (timestamp_ns (hdr rec)) bb)) (bs_builders bs) =
        List.map_filter (\<lambda>(w, bb). bar_closed w x (bb_current bb)) (bs_builders bs)"
      using bs_ok bb_ok by (intro map_filter_same) (force simp: bar_set_ok_def dget_in_set x_def dest: bb_add_is(2))
    then show ?thesis by (simp add: out_def bs_add_def map_filter_values)
  qed
  have member: "cur_bar m ?sy w = Some b"
    if "(w, bb) \<in> set (bs_builders bs)" "bar_closed w x (bb_current bb) = Some b" for w bb b
  proof -
    have d: "dget (bs_builders bs) w = Some bb" using that(1) bs_ok by (simp add: bar_set_ok_def dget_in_set)
    then have "w \<in> set (mk_bar_widths m)" using absent [of w] by (cases "w \<in> set (mk_bar_widths m)") simp_all
    then have "cur_bar m ?sy w = bb_current bb" using d cur by simp
    then show ?thesis using that(2) by (auto simp: bar_closed_def split: option.splits if_splits)
  qed
  show "\<exists>sy w. cur_bar m sy w = Some b" if "b \<in> set (mk_closed_bars m')"
    using that member by (fastforce simp: closed out set_map_filter split: if_splits)
  have keyed: "bar_symbol_id b = ?sy \<and> bar_bucket_seconds b = w"
    if "(w, bb) \<in> set (bs_builders bs)" "bar_closed w x (bb_current bb) = Some b" for w bb b
  proof -
    have "builder_ok ?sy w bb" using that(1) bs_ok by (auto simp: bar_set_ok_def dget_in_set)
    moreover have "bb_current bb = Some b" using that(2) by (auto simp: bar_closed_def split: option.splits if_splits)
    ultimately show ?thesis by (simp add: builder_ok_def)
  qed
  show "[b \<leftarrow> mk_closed_bars m'. bar_symbol_id b = sy \<and> bar_bucket_seconds b = w] =
      (if is_Fill rec \<and> sy = ?sy \<and> w \<in> set (mk_bar_widths m) then option_list (bar_closed w x (cur_bar m sy w)) else [])"
  proof (cases "is_Fill rec \<and> sy = ?sy")
    case False
    then show ?thesis using keyed by (auto simp: closed out filter_empty_conv set_map_filter)
  next
    case True
    have "[b \<leftarrow> snd out. bar_symbol_id b = sy \<and> bar_bucket_seconds b = w] = [b \<leftarrow> snd out. bar_bucket_seconds b = w]"
      using True keyed by (intro filter_cong refl) (auto simp: out set_map_filter)
    also have "\<dots> = option_list (Option.bind (dget (bs_builders bs) w) (\<lambda>bb. bar_closed w x (bb_current bb)))"
      unfolding out by (rule filter_map_filter) (use bs_ok keyed in \<open>auto simp: bar_set_ok_def\<close>)
    also have "\<dots> = (if w \<in> set (mk_bar_widths m) then option_list (bar_closed w x (cur_bar m sy w)) else [])"
      using True cur absent builders_of [OF bs_ok, of w] by (cases "dget (bs_builders bs) w") (auto simp: bar_closed_def)
    finally show ?thesis using True by (simp add: closed)
  qed
qed

text \<open>Closing the bars that have ended by a cutoff.\<close>

definition ended :: "int \<Rightarrow> int \<Rightarrow> bar option \<Rightarrow> bar option" where
  "ended cutoff w cur =
     (case cur of None \<Rightarrow> None | Some b \<Rightarrow> if bar_open_ns b + w * NS_PER_SECOND \<le> cutoff then Some b else None)"

definition not_ended :: "int \<Rightarrow> int \<Rightarrow> bar option \<Rightarrow> bar option" where
  "not_ended cutoff w cur =
     (case cur of None \<Rightarrow> None | Some b \<Rightarrow> if bar_open_ns b + w * NS_PER_SECOND \<le> cutoff then None else Some b)"

definition ended_bars :: "int \<Rightarrow> market \<Rightarrow> bar list" where
  "ended_bars cutoff m =
     concat (map (\<lambda>(sy, bs). List.map_filter (\<lambda>(w, bb). snd (close_ended cutoff w bb)) (bs_builders bs)) (mk_bars m))"

definition without_ended :: "int \<Rightarrow> market \<Rightarrow> market" where
  "without_ended cutoff m =
     m\<lparr>mk_bars := map (\<lambda>(sy, bs). (sy, bs\<lparr>bs_builders := map (\<lambda>(w, bb). (w, fst (close_ended cutoff w bb))) (bs_builders bs)\<rparr>)) (mk_bars m)\<rparr>"

lemma force_close_bars_is:
  "force_close_bars cutoff a = collect_bars (ended_bars cutoff (ar_market a)) (a\<lparr>ar_market := without_ended cutoff (ar_market a)\<rparr>)"
  by (simp add: force_close_bars_def ended_bars_def without_ended_def Let_def)

lemma close_ended_is:
  "snd (close_ended cutoff w bb) = ended cutoff w (bb_current bb)"
  "bb_current (fst (close_ended cutoff w bb)) = not_ended cutoff w (bb_current bb)"
  "builder_ok sy w' bb \<Longrightarrow> builder_ok sy w' (fst (close_ended cutoff w bb))"
  by (auto simp: close_ended_def ended_def not_ended_def bb_flush_def builder_ok_def split: option.split)

lemma filter_concat_dict:
  assumes "wf_dict d" "\<And>k v b. (k, v) \<in> set d \<Longrightarrow> b \<in> set (f v) \<Longrightarrow> g b = k"
  shows "[b \<leftarrow> concat (map (\<lambda>(k, v). f v) d). g b = k] = (case dget d k of None \<Rightarrow> [] | Some v \<Rightarrow> f v)"
  using assms
proof (induction d)
  case (Cons p d)
  obtain k' v where p: "p = (k', v)" by (cases p)
  have none: "dget d k' = None" and wf: "wf_dict d" using Cons.prems(1) by (simp_all add: p wf_dict_def map_of_eq_None_iff)
  have IH: "[b \<leftarrow> concat (map (\<lambda>(k, v). f v) d). g b = k] = (case dget d k of None \<Rightarrow> [] | Some v \<Rightarrow> f v)"
    by (rule Cons.IH [OF wf]) (use Cons.prems(2) in auto)
  have g: "g b = k'" if "b \<in> set (f v)" for b by (rule Cons.prems(2) [of k' v]) (simp_all add: p that)
  have "[b \<leftarrow> f v. g b = k] = (if k = k' then f v else [])" using g by (auto intro: filter_True filter_False)
  then show ?case using IH none by (simp add: p)
qed simp

lemma dget_map_keyed: "dget (map (\<lambda>(k, v). (k, f k v)) d) k = map_option (f k) (dget d k)"
  by (induction d) auto

lemma dkeys_map_keyed: "dkeys (map (\<lambda>(k, v). (k, f k v)) d) = dkeys d"
  by (induction d) auto

lemma wf_map_keyed: "wf_dict (map (\<lambda>(k, v). (k, f k v)) d) = wf_dict d"
  unfolding wf_dict_def by (simp only: dkeys_map_keyed)

lemma without_ended_bars:
  assumes ok: "market_ok m"
  shows "market_ok (without_ended cutoff m)" "mk_bar_widths (without_ended cutoff m) = mk_bar_widths m"
    "mk_tape (without_ended cutoff m) = mk_tape m" "mk_closed_bars (without_ended cutoff m) = mk_closed_bars m"
    "cur_bar (without_ended cutoff m) sy w = not_ended cutoff w (cur_bar m sy w)"
    "[b \<leftarrow> ended_bars cutoff m. bar_symbol_id b = sy \<and> bar_bucket_seconds b = w] = option_list (ended cutoff w (cur_bar m sy w))"
    "b \<in> set (ended_bars cutoff m) \<Longrightarrow> \<exists>sy w. cur_bar m sy w = Some b"
proof -
  have set_ok: "bar_set_ok sy (mk_bar_widths m) bs" if "(sy, bs) \<in> set (mk_bars m)" for sy bs
    using ok that by (auto simp: market_ok_def dget_in_set)
  have bb: "dget (bs_builders bs) w = Some bb \<and> builder_ok sy w bb" if "(sy, bs) \<in> set (mk_bars m)" "(w, bb) \<in> set (bs_builders bs)" for sy bs w bb
    using set_ok [OF that(1)] that(2) by (simp add: bar_set_ok_def dget_in_set)
  let ?f = "\<lambda>bs. bs\<lparr>bs_builders := map (\<lambda>(w, bb). (w, fst (close_ended cutoff w bb))) (bs_builders bs)\<rparr>"
  have f_ok: "bar_set_ok sy wds (?f bs)" if "bar_set_ok sy wds bs" for sy wds bs
  proof -
    have b: "bs_builders (?f bs) = map (\<lambda>(w, bb). (w, fst (close_ended cutoff w bb))) (bs_builders bs)" by simp
    show ?thesis
      using that unfolding bar_set_ok_def b dkeys_map_keyed wf_map_keyed dget_map_keyed by (auto simp: close_ended_is(3))
  qed
  have bars: "dget (mk_bars (without_ended cutoff m)) sy = map_option ?f (dget (mk_bars m) sy)" for sy
    by (simp add: without_ended_def dget_map_values)
  show "mk_bar_widths (without_ended cutoff m) = mk_bar_widths m" "mk_tape (without_ended cutoff m) = mk_tape m"
    "mk_closed_bars (without_ended cutoff m) = mk_closed_bars m" by (simp_all add: without_ended_def)
  have "mk_books (without_ended cutoff m) = mk_books m" "wf_dict (mk_bars (without_ended cutoff m)) = wf_dict (mk_bars m)"
    "mk_bar_widths (without_ended cutoff m) = mk_bar_widths m"
    by (simp_all add: without_ended_def)
  then show "market_ok (without_ended cutoff m)"
    using ok f_ok by (auto simp: market_ok_def bars)
  show "cur_bar (without_ended cutoff m) sy w = not_ended cutoff w (cur_bar m sy w)"
    by (auto simp: cur_bar_def bars dget_map_keyed close_ended_is not_ended_def split: option.split)
  have keyed: "bar_symbol_id b = sy \<and> bar_bucket_seconds b = w \<and> bb_current bb = Some b"
    if "(sy, bs) \<in> set (mk_bars m)" "(w, bb) \<in> set (bs_builders bs)" "ended cutoff w (bb_current bb) = Some b" for sy bs w bb b
  proof -
    have "bb_current bb = Some b" using that(3) by (auto simp: ended_def split: option.splits if_splits)
    then show ?thesis using bb [OF that(1,2)] by (simp add: builder_ok_def)
  qed
  have K: "ended_bars cutoff m = concat (map (\<lambda>(sy, bs). List.map_filter (\<lambda>(w, bb). ended cutoff w (bb_current bb)) (bs_builders bs)) (mk_bars m))"
    by (simp add: ended_bars_def close_ended_is)
  show "\<exists>sy w. cur_bar m sy w = Some b" if b: "b \<in> set (ended_bars cutoff m)"
  proof -
    obtain sy bs w bb where m: "(sy, bs) \<in> set (mk_bars m)" "(w, bb) \<in> set (bs_builders bs)" "ended cutoff w (bb_current bb) = Some b"
      using b by (auto simp: K set_map_filter)
    have "dget (mk_bars m) sy = Some bs" using ok m(1) by (simp add: market_ok_def dget_in_set)
    then have "cur_bar m sy w = Some b" using bb [OF m(1,2)] keyed [OF m] by (simp add: cur_bar_def)
    then show ?thesis by blast
  qed
  have "[b \<leftarrow> ended_bars cutoff m. bar_symbol_id b = sy \<and> bar_bucket_seconds b = w] =
      [b \<leftarrow> [b \<leftarrow> ended_bars cutoff m. bar_symbol_id b = sy]. bar_bucket_seconds b = w]" by simp
  also have "[b \<leftarrow> ended_bars cutoff m. bar_symbol_id b = sy] =
      (case dget (mk_bars m) sy of None \<Rightarrow> [] | Some bs \<Rightarrow> List.map_filter (\<lambda>(w, bb). ended cutoff w (bb_current bb)) (bs_builders bs))"
    unfolding K by (rule filter_concat_dict) (use ok keyed in \<open>auto simp: market_ok_def set_map_filter\<close>)
  also have "[b \<leftarrow> (case dget (mk_bars m) sy of None \<Rightarrow> [] | Some bs \<Rightarrow> List.map_filter (\<lambda>(w, bb). ended cutoff w (bb_current bb)) (bs_builders bs)).
      bar_bucket_seconds b = w] = option_list (ended cutoff w (cur_bar m sy w))"
  proof (cases "dget (mk_bars m) sy")
    case None
    then show ?thesis by (simp add: cur_bar_def ended_def)
  next
    case (Some bs)
    then have m: "(sy, bs) \<in> set (mk_bars m)" by (rule map_of_SomeD)
    have "[b \<leftarrow> List.map_filter (\<lambda>(w, bb). ended cutoff w (bb_current bb)) (bs_builders bs). bar_bucket_seconds b = w] =
        option_list (Option.bind (dget (bs_builders bs) w) (\<lambda>bb. ended cutoff w (bb_current bb)))"
      by (rule filter_map_filter) (use set_ok [OF m] keyed [OF m] in \<open>auto simp: bar_set_ok_def\<close>)
    then show ?thesis using Some by (simp add: cur_bar_def ended_def split: option.split)
  qed
  finally show "[b \<leftarrow> ended_bars cutoff m. bar_symbol_id b = sy \<and> bar_bucket_seconds b = w] = option_list (ended cutoff w (cur_bar m sy w))" .
qed

subsection \<open>Open units hold what the stream gave them\<close>

definition open_in :: "int \<Rightarrow> bar option \<Rightarrow> int \<Rightarrow> bar list" where
  "open_in F cur U = [b \<leftarrow> option_list cur. unit_of F (bar_open_ns b) = U]"

lemma open_in_simps [simp]:
  "open_in F None U = []" "open_in F (Some b) U = (if unit_of F (bar_open_ns b) = U then [b] else [])"
  by (simp_all add: open_in_def)

definition bars_at :: "int \<Rightarrow> int \<Rightarrow> bar list \<Rightarrow> bar list" where
  "bars_at sy w bs = [b \<leftarrow> bs. bar_symbol_id b = sy \<and> bar_bucket_seconds b = w]"

lemma bars_at_append [simp]: "bars_at sy w (xs @ ys) = bars_at sy w xs @ bars_at sy w ys"
  by (simp add: bars_at_def)

text \<open>One print at one width: the rows, then what it closes, then the new open bar.\<close>

lemma bars_step:
  fixes w F U V sy :: int and xs :: "print list"
  defines "f \<equiv> print_bucket (w * NS_PER_SECOND)"
  assumes eq: "rows @ open_in F cur V = map (candle sy w) (groups f xs)"
    and live: "V = U \<Longrightarrow> xs \<noteq> [] \<Longrightarrow> open_in F cur V \<noteq> []"
    and x: "unit_of F (f x) = U"
  shows "rows @ open_in F (bar_closed w x cur) V @ open_in F (Some (bar_after sy w x cur)) V =
    map (candle sy w) (groups f (if V = U then xs @ [x] else xs))"
proof -
  have new: "bar_open_ns (candle sy w [x]) = f x" by (simp add: candle_def f_def)
  have last: "\<exists>gs g. groups f xs = gs @ [g] \<and> g \<noteq> [] \<and> b = candle sy w g \<and> rows = map (candle sy w) gs \<and>
      f (last xs) = bar_open_ns b \<and> xs \<noteq> []"
    if "cur = Some b" "unit_of F (bar_open_ns b) = V" for b
  proof -
    have e: "rows @ [b] = map (candle sy w) (groups f xs)" using eq that by simp
    then have ne: "xs \<noteq> []" by auto
    note g = groups_last [OF ne, of f]
    obtain gs g' where gs: "groups f xs = gs @ [g']" using g by (metis append_butlast_last_id)
    then have b: "b = candle sy w g'" "rows = map (candle sy w) gs" using e by simp_all
    have "g' \<noteq> []" "f (hd g') = f (last xs)" using g gs by simp_all
    then show ?thesis using b gs ne by (auto simp: candle_def f_def)
  qed
  show ?thesis
  proof (cases cur)
    case None
    then have "V = U \<Longrightarrow> xs = []" using live by auto
    then show ?thesis using None eq x by (auto simp: bar_closed_def bar_after_def new)
  next
    case (Some b)
    show ?thesis
    proof (cases "f x = bar_open_ns b")
      case True
      then have out: "bar_closed w x (Some b) = None" "bar_after sy w x (Some b) = bar_extend (fst x) (fst (snd x)) b"
        by (simp_all add: bar_closed_def bar_after_def f_def)
      have o: "bar_open_ns (bar_extend (fst x) (fst (snd x)) b) = bar_open_ns b" by (simp add: bar_extend_def)
      show ?thesis
      proof (cases "V = U")
        case v: True
        then have "unit_of F (bar_open_ns b) = V" using True x by simp
        from last [OF Some this] obtain gs g where "groups f xs = gs @ [g]" "g \<noteq> []" "b = candle sy w g"
            "rows = map (candle sy w) gs" "f (last xs) = bar_open_ns b" "xs \<noteq> []" by blast
        then show ?thesis using True v x o out candle_extend [of g x sy w] by (simp add: Some groups_snoc)
      next
        case False
        then show ?thesis using eq True x o by (simp add: Some out)
      qed
    next
      case False
      then have out: "bar_closed w x (Some b) = Some b" "bar_after sy w x (Some b) = candle sy w [x]"
        by (simp_all add: bar_closed_def bar_after_def f_def)
      show ?thesis
      proof (cases "V = U")
        case v: True
        show ?thesis
        proof (cases "unit_of F (bar_open_ns b) = V")
          case t: True
          from last [OF Some t] obtain gs g where "groups f xs = gs @ [g]" "g \<noteq> []" "b = candle sy w g"
              "rows = map (candle sy w) gs" "f (last xs) = bar_open_ns b" "xs \<noteq> []" by blast
          then show ?thesis using t v x new False out by (auto simp: Some groups_snoc)
        next
          case f: False
          then have "xs = []" using live v Some by auto
          then show ?thesis using eq x v f by (simp add: Some out new)
        qed
      next
        case v: False
        then show ?thesis using eq x by (simp add: Some out new)
      qed
    qed
  qed
qed

lemma bar_after_open:
  "bar_open_ns (bar_after sy w x cur) = print_bucket (w * NS_PER_SECOND) x"
  by (simp add: bar_after_def bar_extend_def candle_def split: option.split)

definition geometry_ok :: "archive \<Rightarrow> bool" where
  "geometry_ok a \<longleftrightarrow> 0 < ar_flush_seconds a \<and> ar_flush_ns a = ar_flush_seconds a * NS_PER_SECOND \<and>
     (\<forall>w \<in> set (mk_bar_widths (ar_market a)). 0 < w \<and> w dvd ar_flush_seconds a)"

definition unit_filed :: "archive \<Rightarrow> entries \<Rightarrow> int \<Rightarrow> flush_unit \<Rightarrow> bool" where
  "unit_filed a es U u \<longleftrightarrow>
     un_start_ns u = U \<and> un_trades u = unit_prints (ar_flush_ns a) U es \<and>
     (\<forall>b \<in> set (un_bars u). bar_bucket_seconds b \<in> set (mk_bar_widths (ar_market a))) \<and>
     (\<forall>sy. \<forall>w \<in> set (mk_bar_widths (ar_market a)).
        bars_at sy w (un_bars u) @ open_in (ar_flush_ns a) (cur_bar (ar_market a) sy w) U = unit_candles (ar_flush_ns a) sy w U es)"

definition filed :: "archive \<Rightarrow> entries \<Rightarrow> bool" where
  "filed a es \<longleftrightarrow>
     geometry_ok a \<and> market_ok (ar_market a) \<and> wf_dict (ar_open a) \<and> ar_late_rows a = 0 \<and>
     mk_closed_bars (ar_market a) = [] \<and> (\<forall>sy. tape_waiting sy (mk_tape (ar_market a)) = []) \<and>
     (\<forall>sy w b. cur_bar (ar_market a) sy w = Some b \<longrightarrow>
        unit_of (ar_flush_ns a) (bar_open_ns b) \<in> set (dkeys (ar_open a)) \<and> w * NS_PER_SECOND dvd bar_open_ns b) \<and>
     (\<forall>U u. dget (ar_open a) U = Some u \<longrightarrow> unit_filed a es U u)"

text \<open>In the unit being filled a bar is open wherever a print fell.\<close>

definition live :: "archive \<Rightarrow> entries \<Rightarrow> int \<Rightarrow> bool" where
  "live a es U \<longleftrightarrow> (\<forall>sy. \<forall>w \<in> set (mk_bar_widths (ar_market a)). symbol_prints (ar_flush_ns a) sy U es \<noteq> [] \<longrightarrow>
     open_in (ar_flush_ns a) (cur_bar (ar_market a) sy w) U \<noteq> [])"

lemma filed_sample:
  assumes "filed a es"
  shows "filed (sample_until c a) es"
proof -
  have s: "ar_market (sample_until c a) = ar_market a" "ar_flush_ns (sample_until c a) = ar_flush_ns a"
    "ar_flush_seconds (sample_until c a) = ar_flush_seconds a" "ar_late_rows (sample_until c a) = ar_late_rows a"
    by (simp_all add: sample_until_def)
  have o: "ar_open (sample_until c a) = map (\<lambda>(start, u). (start, sample_unit a c u)) (ar_open a)" by (simp add: sample_until_def)
  show ?thesis
    using assms unfolding filed_def geometry_ok_def unit_filed_def s o dkeys_map_values wf_map_values dget_map_values by auto
qed

lemma live_sample [simp]: "live (sample_until c a) es U = live a es U"
  by (simp add: live_def sample_until_def)

lemma filed_fields:
  "filed (a\<lparr>ar_last_stream_id := s, ar_records_applied := n\<rparr>) es = filed a es"
  "live (a\<lparr>ar_last_stream_id := s, ar_records_applied := n\<rparr>) es U = live a es U"
  by (simp_all add: filed_def geometry_ok_def unit_filed_def live_def)

lemma only_open [simp]:
  "unit_filed (a\<lparr>ar_open := x\<rparr>) = unit_filed a" "geometry_ok (a\<lparr>ar_open := x\<rparr>) = geometry_ok a"
  by (simp_all add: fun_eq_iff unit_filed_def geometry_ok_def)

lemma filed_open_unit:
  assumes "filed a es" "dget (ar_open a) U = None" "\<And>e. e \<in> set es \<Longrightarrow> unit_of (ar_flush_ns a) (stamp e) < U"
  shows "filed (a\<lparr>ar_open := dset U (new_unit U sid r) (ar_open a)\<rparr>) es" "live (a\<lparr>ar_open := dset U (new_unit U sid r) (ar_open a)\<rparr>) es U"
proof -
  have no: "unit_prints (ar_flush_ns a) U es = []" by (rule no_prints_later [OF assms(3)])
  have sp: "symbol_prints (ar_flush_ns a) sy U es = []" for sy by (simp add: symbol_prints_def no)
  have notU: "U \<notin> set (dkeys (ar_open a))" using assms(2) by (simp only: dget_None_iff not_False_eq_True)
  have "open_in (ar_flush_ns a) (cur_bar (ar_market a) sy w) U = []" for sy w
    using assms(1) notU by (cases "cur_bar (ar_market a) sy w") (auto simp: filed_def)
  then have "unit_filed a es U (new_unit U sid r)"
    by (simp add: unit_filed_def new_unit_def no sp bars_at_def unit_candles_def)
  then show "filed (a\<lparr>ar_open := dset U (new_unit U sid r) (ar_open a)\<rparr>) es"
    using assms(1) unfolding filed_def by (auto simp del: set_map)
  show "live (a\<lparr>ar_open := dset U (new_unit U sid r) (ar_open a)\<rparr>) es U" by (simp add: live_def sp)
qed

lemma open_in_ended: "open_in F (ended c w cur) U @ open_in F (not_ended c w cur) U = open_in F cur U"
  by (cases cur) (simp_all add: ended_def not_ended_def)

lemma bars_at_in: "bars_at sy w [b \<leftarrow> bs. unit_of F (bar_open_ns b) = U] = [b \<leftarrow> [b \<leftarrow> bs. bar_symbol_id b = sy \<and> bar_bucket_seconds b = w]. unit_of F (bar_open_ns b) = U]"
  by (simp add: bars_at_def conj_commute conj_left_commute)

lemma filed_force_close:
  assumes f: "filed a es"
  shows "filed (force_close_bars c a) es" "dkeys (ar_open (force_close_bars c a)) = dkeys (ar_open a)"
    "ar_market (force_close_bars c a) = without_ended c (ar_market a)"
    "ar_flush_ns (force_close_bars c a) = ar_flush_ns a" "ar_ready (force_close_bars c a) = ar_ready a"
    "ar_sealed_through (force_close_bars c a) = ar_sealed_through a"
    "map_option un_resume_after (dget (ar_open (force_close_bars c a)) U) = map_option un_resume_after (dget (ar_open a) U)"
proof -
  define m where "m = ar_market a"
  have mok: "market_ok m" using f by (simp add: filed_def m_def)
  note w = without_ended_bars [OF mok, where cutoff = c]
  let ?F = "ar_flush_ns a"
  let ?K = "ended_bars c m"
  define a1 where "a1 = a\<lparr>ar_market := without_ended c m\<rparr>"
  have K: "\<forall>b \<in> set ?K. unit_of (ar_flush_ns a1) (bar_open_ns b) \<in> set (dkeys (ar_open a1))"
  proof
    fix b assume "b \<in> set ?K"
    then obtain sy w where "cur_bar m sy w = Some b" using w(7) by blast
    then show "unit_of (ar_flush_ns a1) (bar_open_ns b) \<in> set (dkeys (ar_open a1))" using f by (simp add: filed_def m_def a1_def)
  qed
  have wf: "wf_dict (ar_open a1)" using f by (simp add: filed_def a1_def)
  have eq: "force_close_bars c a = a1\<lparr>ar_open := map (\<lambda>(s, u). (s, add_bars [b \<leftarrow> ?K. unit_of ?F (bar_open_ns b) = s] u)) (ar_open a)\<rparr>"
    using collect_bars_eq [OF wf K] by (simp add: force_close_bars_is m_def a1_def)
  show "dkeys (ar_open (force_close_bars c a)) = dkeys (ar_open a)" unfolding eq by auto
  show "ar_market (force_close_bars c a) = without_ended c (ar_market a)"
    "ar_flush_ns (force_close_bars c a) = ar_flush_ns a" "ar_ready (force_close_bars c a) = ar_ready a"
    "ar_sealed_through (force_close_bars c a) = ar_sealed_through a" by (simp_all add: eq a1_def m_def)
  show "map_option un_resume_after (dget (ar_open (force_close_bars c a)) U) = map_option un_resume_after (dget (ar_open a) U)"
    by (simp add: eq dget_map_keyed option.map_comp o_def)
  have unit: "unit_filed (force_close_bars c a) es U (add_bars [b \<leftarrow> ?K. unit_of ?F (bar_open_ns b) = U] u)"
    if u: "unit_filed a es U u" for U u
  proof -
    have "bars_at sy w (un_bars u @ [b \<leftarrow> ?K. unit_of ?F (bar_open_ns b) = U]) @
        open_in ?F (not_ended c w (cur_bar m sy w)) U = bars_at sy w (un_bars u) @ open_in ?F (cur_bar m sy w) U" for sy w
      using open_in_ended [of ?F c w "cur_bar m sy w" U] by (simp add: bars_at_in w(6) open_in_def)
    moreover have "bar_bucket_seconds b \<in> set (mk_bar_widths m)" if l: "b \<in> set ?K" for b
    proof -
      obtain sy w' where "cur_bar m sy w' = Some b" using w(7) [OF l] by blast
      then show ?thesis using cur_bar_keys [OF mok] by metis
    qed
    ultimately show ?thesis using u by (auto simp: unit_filed_def eq a1_def w(2) [unfolded m_def] w(5) [unfolded m_def] m_def)
  qed
  have keys: "dkeys (ar_open (force_close_bars c a)) = dkeys (ar_open a)" unfolding eq by auto
  have cur: "cur_bar (ar_market a) sy w = Some b" if "cur_bar (ar_market (force_close_bars c a)) sy w = Some b" for sy w b
    using that by (auto simp: eq a1_def w(5) [unfolded m_def] m_def not_ended_def split: option.splits if_splits)
  have units: "\<forall>U u. dget (ar_open (force_close_bars c a)) U = Some u \<longrightarrow> unit_filed (force_close_bars c a) es U u"
    using f unit by (auto simp: eq dget_map_keyed filed_def)
  have bars: "\<forall>sy w b. cur_bar (ar_market (force_close_bars c a)) sy w = Some b \<longrightarrow>
      unit_of (ar_flush_ns (force_close_bars c a)) (bar_open_ns b) \<in> set (dkeys (ar_open (force_close_bars c a))) \<and> w * NS_PER_SECOND dvd bar_open_ns b"
  proof (intro allI impI)
    fix sy w b assume "cur_bar (ar_market (force_close_bars c a)) sy w = Some b"
    then have "cur_bar (ar_market a) sy w = Some b" by (rule cur)
    then have "unit_of ?F (bar_open_ns b) \<in> set (dkeys (ar_open a)) \<and> w * NS_PER_SECOND dvd bar_open_ns b" using f unfolding filed_def by blast
    then show "unit_of (ar_flush_ns (force_close_bars c a)) (bar_open_ns b) \<in> set (dkeys (ar_open (force_close_bars c a))) \<and> w * NS_PER_SECOND dvd bar_open_ns b"
      unfolding keys by (simp add: eq a1_def)
  qed
  have rest: "geometry_ok (force_close_bars c a) \<and> market_ok (ar_market (force_close_bars c a)) \<and> ar_late_rows (force_close_bars c a) = 0 \<and>
      mk_closed_bars (ar_market (force_close_bars c a)) = [] \<and> (\<forall>sy. tape_waiting sy (mk_tape (ar_market (force_close_bars c a))) = [])"
    using f w(1-4) by (simp add: filed_def geometry_ok_def eq a1_def m_def)
  have "wf_dict (ar_open (force_close_bars c a))" using f keys by (simp add: filed_def wf_dict_def del: set_map)
  then show "filed (force_close_bars c a) es" using rest bars units unfolding filed_def by blast
qed

text \<open>One record, between opening its unit and sealing: the collecting part of \<open>apply\<close>.\<close>

definition collected :: "wire \<Rightarrow> archive \<Rightarrow> archive" where
  "collected rec a =
     (let a4 = (if is_Fill rec then collect_trades (symbol_id rec) a else a);
          (m', closed) = drain_closed_bars (ar_market a4)
      in collect_bars closed (a4\<lparr>ar_market := m'\<rparr>))"

definition fill_unit :: "int \<Rightarrow> string \<times> wire \<Rightarrow> bar list \<Rightarrow> int \<Rightarrow> flush_unit \<Rightarrow> flush_unit" where
  "fill_unit F e closed s u =
     add_bars [b \<leftarrow> closed. unit_of F (bar_open_ns b) = s]
       (add_trades (if is_Fill (snd e) \<and> unit_of F (stamp e) = s then [print_row e] else []) u)"

definition settled :: "wire \<Rightarrow> market \<Rightarrow> market" where
  "settled rec m =
     m\<lparr>mk_tape := (if is_Fill rec then fst (tape_drain (symbol_id rec) (mk_tape m)) else mk_tape m), mk_closed_bars := []\<rparr>"

lemma add_trades_Nil: "add_trades [] u = u"
  by (simp add: add_trades_def)

lemma collected_eq:
  assumes f: "filed a es" and app: "market_apply rec (Some sid) (ar_market a) = Inr m'"
    and U: "unit_of (ar_flush_ns a) (stamp (sid, rec)) \<in> set (dkeys (ar_open a))"
  shows "collected rec (a\<lparr>ar_market := m'\<rparr>) =
    a\<lparr>ar_open := map (\<lambda>(s, u). (s, fill_unit (ar_flush_ns a) (sid, rec) (mk_closed_bars m') s u)) (ar_open a), ar_market := settled rec m'\<rparr>"
proof -
  let ?m = "ar_market a"
  let ?F = "ar_flush_ns a"
  have mok: "market_ok ?m" and wf: "wf_dict (ar_open a)" and none: "mk_closed_bars ?m = []" using f by (simp_all add: filed_def)
  have wait: "tape_waiting sy (mk_tape ?m) = []" for sy using f by (simp add: filed_def)
  define a4 where "a4 = (if is_Fill rec then collect_trades (symbol_id rec) (a\<lparr>ar_market := m'\<rparr>) else a\<lparr>ar_market := m'\<rparr>)"
  define o4 where "o4 = map (\<lambda>(s, u). (s, add_trades (if is_Fill rec \<and> unit_of ?F (stamp (sid, rec)) = s then [print_row (sid, rec)] else []) u)) (ar_open a)"
  define m4 where "m4 = m'\<lparr>mk_tape := (if is_Fill rec then fst (tape_drain (symbol_id rec) (mk_tape m')) else mk_tape m')\<rparr>"
  have a4: "a4 = a\<lparr>ar_market := m4, ar_open := o4\<rparr>"
  proof (cases "is_Fill rec")
    case True
    have "tape_waiting (symbol_id rec) (mk_tape m') = [print_row (sid, rec)]"
      using market_apply_out(2) [OF mok app] True wait by (simp add: tape_record_def tape_waiting_def)
    then have d: "snd (tape_drain (symbol_id rec) (mk_tape m')) = [print_row (sid, rec)]"
      by (simp add: tape_drain_def)
    have "a4 = fold file_trade [print_row (sid, rec)] (a\<lparr>ar_market := m4\<rparr>)"
      using True d by (simp add: a4_def collect_trades_def m4_def case_prod_unfold Let_def)
    also have "\<dots> = a\<lparr>ar_market := m4, ar_open := o4\<rparr>"
      using file_trades_eq [of "a\<lparr>ar_market := m4\<rparr>" "[print_row (sid, rec)]"] wf U True
      by (simp add: o4_def cong: if_cong del: set_map)
    finally show ?thesis .
  next
    case False
    then have "o4 = ar_open a" by (simp add: o4_def add_trades_Nil)
    then show ?thesis using False by (simp add: a4_def m4_def)
  qed
  have keys: "dkeys o4 = dkeys (ar_open a)" by (auto simp: o4_def)
  let ?K = "mk_closed_bars m'"
  have K: "\<forall>b \<in> set ?K. unit_of ?F (bar_open_ns b) \<in> set (dkeys o4)"
  proof
    fix b assume "b \<in> set ?K"
    then obtain sy w where "cur_bar ?m sy w = Some b" using market_bars_after(5) [OF mok app none] by blast
    then show "unit_of ?F (bar_open_ns b) \<in> set (dkeys o4)" using f unfolding keys filed_def by blast
  qed
  have wf4: "wf_dict o4" using wf keys by (simp add: wf_dict_def del: set_map)
  have "collected rec (a\<lparr>ar_market := m'\<rparr>) = collect_bars ?K (a\<lparr>ar_open := o4, ar_market := settled rec m'\<rparr>)"
    unfolding collected_def a4_def [symmetric] by (simp add: a4 drain_closed_bars_def m4_def settled_def Let_def)
  also have "\<dots> = a\<lparr>ar_open := map (\<lambda>(s, u). (s, add_bars [b \<leftarrow> ?K. unit_of ?F (bar_open_ns b) = s] u)) o4,
      ar_market := settled rec m'\<rparr>"
    using collect_bars_eq [of "a\<lparr>ar_open := o4, ar_market := settled rec m'\<rparr>" ?K] wf4 K by simp
  also have "map (\<lambda>(s, u). (s, add_bars [b \<leftarrow> ?K. unit_of ?F (bar_open_ns b) = s] u)) o4 =
      map (\<lambda>(s, u). (s, fill_unit ?F (sid, rec) ?K s u)) (ar_open a)"
    by (simp add: o4_def fill_unit_def case_prod_unfold)
  finally show ?thesis .
qed

lemma settled_sel [simp]:
  "mk_closed_bars (settled rec m) = []" "mk_bar_widths (settled rec m) = mk_bar_widths m" "market_ok (settled rec m) = market_ok m"
  "cur_bar (settled rec m) = cur_bar m"
  by (simp_all add: settled_def market_ok_def cur_bar_def fun_eq_iff)

lemma settled_tape:
  assumes "\<And>sy. tape_waiting sy t = []" "mk_tape m = (if is_Fill rec then tape_record (print_row (sid, rec)) t else t)"
  shows "tape_waiting sy (mk_tape (settled rec m)) = []"
  using assms by (auto simp: settled_def tape_drain_def tape_waiting_def tape_record_def split: option.splits)

lemma filed_collected:
  assumes f: "filed a es" and live: "live a es (unit_of (ar_flush_ns a) (stamp (sid, rec)))"
    and app: "market_apply rec (Some sid) (ar_market a) = Inr m'"
    and U: "unit_of (ar_flush_ns a) (stamp (sid, rec)) \<in> set (dkeys (ar_open a))"
  defines "a' \<equiv> collected rec (a\<lparr>ar_market := m'\<rparr>)"
  shows "filed a' (es @ [(sid, rec)])" "live a' (es @ [(sid, rec)]) (unit_of (ar_flush_ns a) (stamp (sid, rec)))"
    "dkeys (ar_open a') = dkeys (ar_open a)" "ar_flush_ns a' = ar_flush_ns a" "ar_flush_seconds a' = ar_flush_seconds a"
    "ar_ready a' = ar_ready a" "ar_sealed_through a' = ar_sealed_through a" "mk_bar_widths (ar_market a') = mk_bar_widths (ar_market a)"
    "ar_last_stream_id a' = ar_last_stream_id a"
    "map_option un_resume_after (dget (ar_open a') V) = map_option un_resume_after (dget (ar_open a) V)"
proof -
  let ?m = "ar_market a" and ?F = "ar_flush_ns a" and ?e = "(sid, rec)"
  let ?U = "unit_of ?F (stamp ?e)" and ?x = "(price_ticks rec, qty rec, timestamp_ns (hdr rec))"
  have mok: "market_ok ?m" and none: "mk_closed_bars ?m = []" and geo: "geometry_ok a"
    and wait: "\<And>sy. tape_waiting sy (mk_tape ?m) = []" using f by (simp_all add: filed_def)
  note after = market_bars_after [OF mok app none]
  have eq: "a' = a\<lparr>ar_open := map (\<lambda>(s, u). (s, fill_unit ?F ?e (mk_closed_bars m') s u)) (ar_open a), ar_market := settled rec m'\<rparr>"
    unfolding a'_def by (rule collected_eq [OF f app U])
  show keys: "dkeys (ar_open a') = dkeys (ar_open a)" by (auto simp: eq)
  show "ar_flush_ns a' = ?F" "ar_flush_seconds a' = ar_flush_seconds a" "ar_ready a' = ar_ready a" "ar_sealed_through a' = ar_sealed_through a"
    "ar_last_stream_id a' = ar_last_stream_id a" "mk_bar_widths (ar_market a') = mk_bar_widths ?m"
    by (simp_all add: eq after(2))
  show "map_option un_resume_after (dget (ar_open a') V) = map_option un_resume_after (dget (ar_open a) V)"
    by (simp add: eq dget_map_keyed option.map_comp o_def fill_unit_def)
  have width: "0 < w \<and> w dvd ar_flush_seconds a" if "w \<in> set (mk_bar_widths ?m)" for w using geo that by (simp add: geometry_ok_def)
  have bucket: "unit_of ?F (print_bucket (w * NS_PER_SECOND) ?x) = ?U" if "w \<in> set (mk_bar_widths ?m)" for w
    using bucket_in_unit [of w "ar_flush_seconds a"] width [OF that] geo by (simp add: geometry_ok_def print_bucket_def stamp_def)
  have step: "bars_at sy w (un_bars (fill_unit ?F ?e (mk_closed_bars m') V u)) @ open_in ?F (cur_bar m' sy w) V =
      unit_candles ?F sy w V (es @ [?e])"
    if u: "unit_filed a es V u" and w: "w \<in> set (mk_bar_widths ?m)" for V u sy w
  proof (cases "is_Fill rec \<and> sy = symbol_id rec")
    case True
    have cl: "bars_at sy w [b \<leftarrow> mk_closed_bars m'. unit_of ?F (bar_open_ns b) = V] = open_in ?F (bar_closed w ?x (cur_bar ?m sy w)) V"
      using True w by (simp add: bars_at_in after(4) open_in_def)
    have rows: "bars_at sy w (un_bars u) @ open_in ?F (cur_bar ?m sy w) V =
        map (candle sy w) (groups (print_bucket (w * NS_PER_SECOND)) (symbol_prints ?F sy V es))"
      using u w by (simp add: unit_filed_def unit_candles_def)
    have l: "V = ?U \<Longrightarrow> symbol_prints ?F sy V es \<noteq> [] \<Longrightarrow> open_in ?F (cur_bar ?m sy w) V \<noteq> []"
      using live w by (simp add: live_def)
    have r: "bars_at sy w (un_bars (fill_unit ?F ?e (mk_closed_bars m') V u)) =
        bars_at sy w (un_bars u) @ open_in ?F (bar_closed w ?x (cur_bar ?m sy w)) V"
      by (simp add: fill_unit_def cl)
    have c: "cur_bar m' sy w = Some (bar_after sy w ?x (cur_bar ?m sy w))" using True w by (simp add: after(3))
    have p: "symbol_prints ?F sy V (es @ [?e]) = (if V = ?U then symbol_prints ?F sy V es @ [?x] else symbol_prints ?F sy V es)"
      using True by (auto simp: symbol_prints_snoc stamp_def)
    show ?thesis unfolding r c p unit_candles_def append_assoc by (rule bars_step [OF rows l bucket [OF w]])
  next
    case False
    then have "bars_at sy w [b \<leftarrow> mk_closed_bars m'. unit_of ?F (bar_open_ns b) = V] = []"
      by (auto simp: bars_at_in after(4))
    moreover have "cur_bar m' sy w = cur_bar ?m sy w" using False by (auto simp: after(3))
    moreover have "symbol_prints ?F sy V (es @ [?e]) = symbol_prints ?F sy V es" using False by (auto simp: symbol_prints_snoc)
    ultimately show ?thesis using u w by (simp add: fill_unit_def unit_filed_def unit_candles_def)
  qed
  have secs: "bar_bucket_seconds b \<in> set (mk_bar_widths ?m)" if l: "b \<in> set (mk_closed_bars m')" for b
  proof -
    obtain sy w where "cur_bar ?m sy w = Some b" using after(5) [OF l] by blast
    then show ?thesis using cur_bar_keys [OF mok] by metis
  qed
  have unit: "unit_filed a' (es @ [?e]) V (fill_unit ?F ?e (mk_closed_bars m') V u)" if u: "unit_filed a es V u" for V u
    using u step [OF u] secs by (auto simp: unit_filed_def eq after(2) unit_prints_snoc fill_unit_def)
  have bars: "unit_of ?F (bar_open_ns b) \<in> set (dkeys (ar_open a)) \<and> w * NS_PER_SECOND dvd bar_open_ns b"
    if b: "cur_bar m' sy w = Some b" for sy w b
  proof (cases "is_Fill rec \<and> sy = symbol_id rec \<and> w \<in> set (mk_bar_widths ?m)")
    case True
    then have "bar_open_ns b = print_bucket (w * NS_PER_SECOND) ?x" using b by (auto simp: after(3) bar_after_open)
    moreover have "w * NS_PER_SECOND dvd print_bucket (w * NS_PER_SECOND) ?x" by (simp add: print_bucket_def)
    ultimately show ?thesis using U bucket [of w] True by (simp del: set_map)
  next
    case False
    then have "cur_bar ?m sy w = Some b" using b after(3) [of sy w] by auto
    then show ?thesis using f unfolding filed_def by blast
  qed
  have wf: "wf_dict (ar_open a')" using f keys by (simp add: filed_def wf_dict_def del: set_map)
  have tapes: "tape_waiting sy (mk_tape (ar_market a')) = []" for sy
    using settled_tape [OF wait market_apply_out(2) [OF mok app]] by (simp add: eq)
  have geo': "geometry_ok a'" using geo by (simp add: geometry_ok_def eq after(2))
  have units: "\<forall>V u. dget (ar_open a') V = Some u \<longrightarrow> unit_filed a' (es @ [?e]) V u"
    using f unit by (auto simp: eq dget_map_keyed filed_def)
  have "ar_flush_ns a' = ?F" "cur_bar (ar_market a') = cur_bar m'" by (simp_all add: eq)
  then have bars': "\<forall>sy w b. cur_bar (ar_market a') sy w = Some b \<longrightarrow>
      unit_of (ar_flush_ns a') (bar_open_ns b) \<in> set (dkeys (ar_open a')) \<and> w * NS_PER_SECOND dvd bar_open_ns b"
    using bars unfolding keys by simp
  have "market_ok (ar_market a')" "ar_late_rows a' = 0" "mk_closed_bars (ar_market a') = []"
    using f after(1) by (simp_all add: eq filed_def)
  then show "filed a' (es @ [?e])" using geo' wf tapes units bars' unfolding filed_def by blast
  show "live a' (es @ [?e]) ?U"
    unfolding live_def
  proof (intro allI ballI impI)
    fix sy w assume w: "w \<in> set (mk_bar_widths (ar_market a'))" and ne: "symbol_prints (ar_flush_ns a') sy ?U (es @ [?e]) \<noteq> []"
    have w': "w \<in> set (mk_bar_widths ?m)" using w by (simp add: eq after(2))
    show "open_in (ar_flush_ns a') (cur_bar (ar_market a') sy w) ?U \<noteq> []"
    proof (cases "is_Fill rec \<and> sy = symbol_id rec")
      case True
      then show ?thesis using w' bucket [OF w'] by (simp add: eq after(3) bar_after_open)
    next
      case False
      then have "symbol_prints ?F sy ?U es \<noteq> []" using ne by (auto simp: eq symbol_prints_snoc split: if_splits)
      then show ?thesis using live w' False by (auto simp: eq after(3) live_def)
    qed
  qed
qed

subsection \<open>Sealed units are exact\<close>

definition unit_exact :: "int \<Rightarrow> int list \<Rightarrow> entries \<Rightarrow> flush_unit \<Rightarrow> bool" where
  "unit_exact F widths es u \<longleftrightarrow>
     un_trades u = unit_prints F (un_start_ns u) es \<and> (\<forall>b \<in> set (un_bars u). bar_bucket_seconds b \<in> set widths) \<and>
     (\<forall>sy. \<forall>w \<in> set widths. bars_at sy w (un_bars u) = unit_candles F sy w (un_start_ns u) es)"

lemma unit_exact_later:
  assumes "unit_exact F widths es u" "un_start_ns u < unit_of F (stamp e)"
  shows "unit_exact F widths (es @ [e]) u"
  using assms by (simp add: unit_exact_def unit_prints_snoc unit_candles_def symbol_prints_snoc)

lemma unit_of_unit: "0 < F \<Longrightarrow> unit_of F (unit_of F x) = unit_of F x"
  by (simp add: unit_of_def)

lemma ended_by_next_unit:
  assumes geo: "geometry_ok a" and w: "w \<in> set (mk_bar_widths (ar_market a))" and d: "w * NS_PER_SECOND dvd x"
    and lt: "unit_of (ar_flush_ns a) x < unit_of (ar_flush_ns a) y"
  shows "x + w * NS_PER_SECOND \<le> unit_of (ar_flush_ns a) y"
proof -
  let ?F = "ar_flush_ns a" and ?W = "w * NS_PER_SECOND"
  have F: "?F = ar_flush_seconds a * NS_PER_SECOND" "0 < ?F" "?W dvd ?F" "0 < ?W"
    using geo w by (auto simp: geometry_ok_def NS_PER_SECOND_def)
  have "x < unit_of ?F y"
  proof (rule ccontr)
    assume "\<not> x < unit_of ?F y"
    then have "unit_of ?F (unit_of ?F y) \<le> unit_of ?F x" using F(2) by (intro unit_of_mono) simp_all
    then show False using lt F(2) by (simp add: unit_of_unit)
  qed
  moreover have "?W dvd unit_of ?F y" using F(3) by (simp add: unit_of_def)
  then have "?W dvd unit_of ?F y - x" using d by simp
  ultimately show ?thesis using zdvd_imp_le [of ?W "unit_of ?F y - x"] by simp
qed

lemma filed_seal:
  assumes "filed a es" "\<And>sy w b. cur_bar (ar_market a) sy w = Some b \<Longrightarrow> unit_of (ar_flush_ns a) (bar_open_ns b) \<noteq> s"
  shows "filed (seal_unit s a) es"
proof (cases "dget (ar_open a) s")
  case (Some u)
  define a' where "a' = a\<lparr>ar_open := dpop s (ar_open a)\<rparr>"
  have "filed a' es" using assms unfolding filed_def a'_def by (auto simp del: set_map)
  moreover have "filed (seal_unit s a) es = filed a' es"
    by (simp add: seal_unit_def Some a'_def filed_def geometry_ok_def unit_filed_def)
  ultimately show ?thesis by simp
qed (use assms in \<open>simp add: seal_unit_def\<close>)

lemma sealed_exact:
  assumes f: "filed a es" and u: "dget (ar_open a) s = Some u"
    and none: "\<And>sy w b. cur_bar (ar_market a) sy w = Some b \<Longrightarrow> unit_of (ar_flush_ns a) (bar_open_ns b) \<noteq> s"
  shows "unit_exact (ar_flush_ns a) (mk_bar_widths (ar_market a)) es u" "un_start_ns u = s"
proof -
  have uf: "unit_filed a es s u" using f u by (simp add: filed_def)
  have "open_in (ar_flush_ns a) (cur_bar (ar_market a) sy w) s = []" for sy w
    using none by (cases "cur_bar (ar_market a) sy w") auto
  then show "unit_exact (ar_flush_ns a) (mk_bar_widths (ar_market a)) es u" "un_start_ns u = s"
    using uf by (simp_all add: unit_exact_def unit_filed_def)
qed

lemma archive_apply_collected:
  "archive_apply rec sid a0 =
     (let a1 = sample_until (second_start (timestamp_ns (hdr rec))) (a0\<lparr>ar_last_stream_id := sid, ar_records_applied := ar_records_applied a0 + 1\<rparr>);
          a2 = ensure_unit (unit_of (ar_flush_ns a0) (stamp (sid, rec))) sid (ar_last_stream_id a0) a1
      in sbind (market_apply rec (Some sid) (ar_market a2)) (\<lambda>m.
           let a5 = collected rec (a2\<lparr>ar_market := m\<rparr>)
           in Inr (seal_before (unit_of (ar_flush_ns a0) (stamp (sid, rec))) a5)))"
proof -
  have "ar_flush_ns (file_row ts put a) = ar_flush_ns a" for ts put a by (simp add: file_row_def split: option.split)
  then have trs: "ar_flush_ns (fold file_trade ts a) = ar_flush_ns a" for ts a
    by (induction ts arbitrary: a) (simp_all add: file_trade_def)
  have col: "ar_flush_ns (collect_trades sy a) = ar_flush_ns a" for sy a by (simp add: collect_trades_def Let_def trs case_prod_unfold)
  have "ar_flush_ns (sample_until c a) = ar_flush_ns a" "ar_flush_ns (ensure_unit U sid r a) = ar_flush_ns a" for c U sid r a
    by (simp_all add: sample_until_def ensure_unit_def split: option.split)
  moreover have "ar_flush_ns (if is_Fill rec then collect_trades sy a else a) = ar_flush_ns a" for sy a by (simp add: col)
  ultimately show ?thesis
    unfolding archive_apply_def collected_def Let_def by (simp add: stamp_def case_prod_unfold cong: if_cong)
qed

subsection \<open>The state during a session\<close>

text \<open>\<open>D\<close> is the set of units whose files were handed to the writer earlier.\<close>

definition entry_unit :: "archive \<Rightarrow> string \<times> wire \<Rightarrow> int" where
  "entry_unit a e = unit_of (ar_flush_ns a) (stamp e)"

definition earlier :: "archive \<Rightarrow> int \<Rightarrow> entries \<Rightarrow> entries" where
  "earlier a U es = filter (\<lambda>e. entry_unit a e < U) es"

definition session_ok :: "int set \<Rightarrow> archive \<Rightarrow> entries \<Rightarrow> bool" where
  "session_ok D a es \<longleftrightarrow>
     filed a es \<and> ar_last_stream_id a = (if es = [] then ''0-0'' else fst (last es)) \<and>
     (if es = [] then ar_open a = [] \<and> ar_ready a = [] \<and> ar_sealed_through a = None
      else \<exists>u. ar_open a = [(entry_unit a (last es), u)] \<and> live a es (entry_unit a (last es)) \<and>
             (\<forall>s. ar_sealed_through a = Some s \<longrightarrow> s < entry_unit a (last es) \<and>
                earlier a (entry_unit a (last es)) es \<noteq> [] \<and>
                un_resume_after u = fst (last (earlier a (entry_unit a (last es)) es))) \<and>
             (ar_ready a \<noteq> [] \<longrightarrow> ar_sealed_through a \<noteq> None)) \<and>
     (\<forall>u \<in> set (ar_ready a). unit_exact (ar_flush_ns a) (mk_bar_widths (ar_market a)) es u \<and> un_start_ns u < entry_unit a (last es) \<and>
        un_start_ns u \<in> entry_unit a ` set es) \<and>
     (\<forall>e \<in> set es. is_Fill (snd e) \<longrightarrow> entry_unit a e < entry_unit a (last es) \<longrightarrow> entry_unit a e \<in> D \<union> un_start_ns ` set (ar_ready a))"

text \<open>Sealing at the unit being filled changes nothing; at a later one it closes the only older unit.\<close>

lemma seal_before_same: "ar_open a = [(U, u)] \<Longrightarrow> seal_before U a = a"
  by (simp add: seal_before_def)

lemma seal_before_older:
  assumes f: "filed a es" and live: "live a es U" and o: "ar_open a = [(s, u), (U, v)]" and lt: "s < U"
    and U: "U = unit_of (ar_flush_ns a) y" and keys: "s = unit_of (ar_flush_ns a) z"
  obtains u' v' where "ar_open (seal_before U a) = [(U, v')]" "un_resume_after v' = un_resume_after v"
    "filed (seal_before U a) es" "live (seal_before U a) es U"
    "ar_sealed_through (seal_before U a) = Some (case ar_sealed_through a of None \<Rightarrow> s | Some t \<Rightarrow> max t s)"
    "ar_ready (seal_before U a) = ar_ready a @ (if unit_empty u' then [] else [u'])"
    "unit_exact (ar_flush_ns a) (mk_bar_widths (ar_market a)) es u'" "un_start_ns u' = s"
    "ar_flush_ns (seal_before U a) = ar_flush_ns a" "mk_bar_widths (ar_market (seal_before U a)) = mk_bar_widths (ar_market a)"
    "ar_last_stream_id (seal_before U a) = ar_last_stream_id a"
proof -
  define c where "c = force_close_bars U a"
  note fc = filed_force_close [OF f, of U, folded c_def]
  have mok: "market_ok (ar_market a)" and geo: "geometry_ok a" using f by (simp_all add: filed_def)
  have F: "0 < ar_flush_ns a" using geo by (simp add: geometry_ok_def NS_PER_SECOND_def)
  have "dkeys (ar_open c) = [s, U]" using fc(2) o by simp
  then obtain u' v' where oc: "ar_open c = [(s, u'), (U, v')]" by (auto simp: map_eq_Cons_conv)
  have cur: "cur_bar (ar_market c) sy w = not_ended U w (cur_bar (ar_market a) sy w)" for sy w
    using without_ended_bars(5) [OF mok, where cutoff = U] by (simp add: fc(3))
  have none: "unit_of (ar_flush_ns c) (bar_open_ns b) \<noteq> s" if b: "cur_bar (ar_market c) sy w = Some b" for sy w b
  proof
    assume eq: "unit_of (ar_flush_ns c) (bar_open_ns b) = s"
    have b': "cur_bar (ar_market a) sy w = Some b" "\<not> bar_open_ns b + w * NS_PER_SECOND \<le> U"
      using b by (auto simp: cur not_ended_def split: option.splits if_splits)
    have "w * NS_PER_SECOND dvd bar_open_ns b" using f b'(1) unfolding filed_def by blast
    then show False
      using ended_by_next_unit [OF geo cur_bar_keys(1) [OF mok b'(1)], of "bar_open_ns b" y] b'(2) eq lt
      by (simp add: U fc(4))
  qed
  have su: "dget (ar_open c) s = Some u'" using lt by (simp add: oc)
  have sb: "seal_before U a = seal_unit s c" using lt by (simp add: seal_before_def o c_def)
  have seal: "seal_unit s c = c\<lparr>ar_open := [(U, v')], ar_sealed_through := Some (case ar_sealed_through a of None \<Rightarrow> s | Some t \<Rightarrow> max t s),
      ar_ready := (if unit_empty u' then ar_ready a else ar_ready a @ [u'])\<rparr>"
    using lt by (simp add: seal_unit_def su fc(5,6) oc)
  have "un_resume_after v' = un_resume_after v" using fc(7) [of U] lt by (simp add: o oc)
  moreover have "filed (seal_unit s c) es" by (rule filed_seal [OF fc(1) none])
  moreover have "unit_exact (ar_flush_ns c) (mk_bar_widths (ar_market c)) es u'" "un_start_ns u' = s"
    by (rule sealed_exact [OF fc(1) su none], assumption)+
  moreover have "live (seal_unit s c) es U"
    unfolding live_def
  proof (intro allI ballI impI)
    fix sy w assume w: "w \<in> set (mk_bar_widths (ar_market (seal_unit s c)))" and ne: "symbol_prints (ar_flush_ns (seal_unit s c)) sy U es \<noteq> []"
    have w': "w \<in> set (mk_bar_widths (ar_market a))" using w without_ended_bars(2) [OF mok] by (simp add: seal fc(3))
    have "open_in (ar_flush_ns a) (cur_bar (ar_market a) sy w) U \<noteq> []" using live ne w' by (simp add: live_def seal fc(4))
    then obtain b where b: "cur_bar (ar_market a) sy w = Some b" "unit_of (ar_flush_ns a) (bar_open_ns b) = U"
      by (cases "cur_bar (ar_market a) sy w") (auto split: if_splits)
    have "unit_of (ar_flush_ns a) (bar_open_ns b) \<le> bar_open_ns b" using F by (simp add: unit_of_def minus_mod_eq_div_mult [symmetric])
    moreover have "0 < w * NS_PER_SECOND" using geo w' by (simp add: geometry_ok_def NS_PER_SECOND_def)
    ultimately have "not_ended U w (Some b) = Some b" using b(2) by (simp add: not_ended_def)
    then show "open_in (ar_flush_ns (seal_unit s c)) (cur_bar (ar_market (seal_unit s c)) sy w) U \<noteq> []"
      using b by (simp add: seal cur fc(4))
  qed
  moreover have "ar_last_stream_id c = ar_last_stream_id a"
  proof -
    have "ar_last_stream_id (file_row ts put x) = ar_last_stream_id x" for ts put x by (simp add: file_row_def split: option.split)
    then have "ar_last_stream_id (collect_bars bs x) = ar_last_stream_id x" for bs x
      unfolding collect_bars_def by (induction bs arbitrary: x) (simp_all add: file_bar_def)
    then show ?thesis by (simp add: c_def force_close_bars_is)
  qed
  ultimately show ?thesis
    using that [of v' u'] without_ended_bars(2) [OF mok] unfolding sb by (simp add: seal fc(3,4))
qed

lemma earlier_cong: "ar_flush_ns a' = ar_flush_ns a \<Longrightarrow> entry_unit a' = entry_unit a \<and> earlier a' = earlier a"
  by (simp add: entry_unit_def earlier_def fun_eq_iff)

lemma earlier_all: "(\<And>e. e \<in> set es \<Longrightarrow> entry_unit a e < U) \<Longrightarrow> earlier a U (es @ [e]) = es @ (if entry_unit a e < U then [e] else [])"
  by (simp add: earlier_def)

lemma session_apply:
  assumes s: "session_ok D a es" and mono: "\<And>e'. e' \<in> set es \<Longrightarrow> stamp e' \<le> stamp (sid, rec)"
    and sorted: "sorted (map stamp es)"
  obtains a' where "archive_apply rec sid a = Inr a'" "session_ok D a' (es @ [(sid, rec)])"
    "ar_flush_ns a' = ar_flush_ns a" "mk_bar_widths (ar_market a') = mk_bar_widths (ar_market a)"
proof -
  let ?e = "(sid, rec)" and ?F = "ar_flush_ns a" and ?cur = "entry_unit a (last es)"
  define U where "U = entry_unit a ?e"
  have f: "filed a es" using s by (simp add: session_ok_def)
  have F: "0 < ?F" using f by (simp add: filed_def geometry_ok_def NS_PER_SECOND_def)
  define a1 where "a1 = sample_until (second_start (timestamp_ns (hdr rec))) (a\<lparr>ar_last_stream_id := sid, ar_records_applied := ar_records_applied a + 1\<rparr>)"
  define a2 where "a2 = ensure_unit U sid (ar_last_stream_id a) a1"
  have f1: "filed a1 es" unfolding a1_def by (rule filed_sample) (simp add: filed_fields f)
  have s1: "ar_market a1 = ar_market a" "ar_flush_ns a1 = ?F" "ar_ready a1 = ar_ready a" "ar_sealed_through a1 = ar_sealed_through a"
    "ar_last_stream_id a1 = sid" by (simp_all add: a1_def sample_until_def)
  have live1: "live a1 es V = live a es V" for V by (simp add: live_def s1)
  have units: "entry_unit a e' \<le> U" if "e' \<in> set es" for e'
    using mono [OF that] F by (simp add: U_def entry_unit_def unit_of_mono)
  have lasts: "entry_unit a e' \<le> ?cur" if "e' \<in> set es" for e'
  proof -
    have "stamp e' \<le> stamp (last es)" using sorted that by (cases es rule: rev_cases) (auto simp: sorted_append)
    then show ?thesis using F by (simp add: entry_unit_def unit_of_mono)
  qed
  obtain v where a2: "filed a2 es" "live a2 es U" "ar_open a2 = (if es = [] \<or> U = ?cur then [(U, v)] else [(?cur, fst (hd (map prod.swap (ar_open a1)))), (U, v)])"
      "ar_market a2 = ar_market a" "ar_flush_ns a2 = ?F" "ar_ready a2 = ar_ready a" "ar_sealed_through a2 = ar_sealed_through a"
      "ar_last_stream_id a2 = sid"
      "es \<noteq> [] \<Longrightarrow> U = ?cur \<Longrightarrow> un_resume_after v = un_resume_after (snd (hd (ar_open a)))"
      "es \<noteq> [] \<Longrightarrow> U \<noteq> ?cur \<Longrightarrow> un_resume_after v = fst (last es)"
  proof (cases "es \<noteq> [] \<and> U = ?cur")
    case True
    then obtain u where u: "ar_open a = [(U, u)]" "live a es U" "\<And>s. ar_sealed_through a = Some s \<Longrightarrow> s < U"
      using s by (auto simp: session_ok_def)
    then obtain u1 where o1: "ar_open a1 = [(U, u1)]" "un_resume_after u1 = un_resume_after u" by (simp add: a1_def sample_until_def)
    have "a2 = a1" using o1 u(3) by (auto simp: a2_def ensure_unit_def s1 split: option.split)
    then show ?thesis using that [of u1] True f1 u o1 s1 live1 by simp
  next
    case False
    have later: "entry_unit a e' < U" if e': "e' \<in> set es" for e'
      using lasts [OF e'] units [of "last es"] e' False by (cases "es = []") (auto simp: order.strict_iff_order)
    have sealed: "\<not> (case ar_sealed_through a of None \<Rightarrow> False | Some s \<Rightarrow> U \<le> s)"
    proof (cases "es = []")
      case e: False
      then have "?cur < U" using later by simp
      then show ?thesis using s e by (auto simp: session_ok_def split: option.split)
    qed (use s in \<open>simp add: session_ok_def\<close>)
    have keys: "dkeys (ar_open a1) = (if es = [] then [] else [?cur])"
      using s by (auto simp: session_ok_def a1_def sample_until_def)
    have notU: "dget (ar_open a1) U = None" using keys later [of "last es"] by (simp add: dget_None_iff del: set_map split: if_splits)
    define n where "n = new_unit U sid (ar_last_stream_id a)"
    have eq: "a2 = a1\<lparr>ar_open := dset U n (ar_open a1)\<rparr>"
      using sealed by (simp add: a2_def ensure_unit_def s1 notU n_def)
    have un: "unit_of (ar_flush_ns a1) (stamp e') < U" if "e' \<in> set es" for e' using later [OF that] by (simp add: entry_unit_def s1)
    have "filed a2 es" "live a2 es U" unfolding eq n_def by (rule filed_open_unit [OF f1 notU un], assumption)+
    moreover have "dset U n (ar_open a1) = ar_open a1 @ [(U, n)]" by (rule dset_fresh) (use notU in \<open>simp add: dget_None_iff del: set_map\<close>)
    moreover have "ar_open a1 = (if es = [] then [] else [(?cur, fst (hd (map prod.swap (ar_open a1))))])"
      using keys by (cases "ar_open a1") (auto split: if_splits)
    ultimately show ?thesis
      using False s s1 by (intro that [of n]) (auto simp: eq n_def new_unit_def session_ok_def split: if_splits)
  qed
  have UF: "unit_of (ar_flush_ns a2) (stamp ?e) = U" by (simp add: U_def entry_unit_def a2(5))
  have mok: "market_ok (ar_market a2)" using a2(1) by (simp add: filed_def)
  obtain m' where m': "market_apply rec (Some sid) (ar_market a2) = Inr m'" by (rule market_apply_sel [OF mok, of rec "Some sid"])
  define a5 where "a5 = collected rec (a2\<lparr>ar_market := m'\<rparr>)"
  have inU: "unit_of (ar_flush_ns a2) (stamp ?e) \<in> set (dkeys (ar_open a2))" unfolding UF by (simp add: a2(3))
  note fc = filed_collected [OF a2(1) a2(2) [folded UF] m' inU, folded a5_def, unfolded UF]
  have a5: "ar_flush_ns a5 = ?F" "mk_bar_widths (ar_market a5) = mk_bar_widths (ar_market a)" "ar_ready a5 = ar_ready a"
    "ar_sealed_through a5 = ar_sealed_through a" "ar_last_stream_id a5 = sid" using fc(4,6-9) by (simp_all add: a2)
  have app: "archive_apply rec sid a = Inr (seal_before U a5)"
    unfolding archive_apply_collected Let_def
    by (simp add: U_def [unfolded entry_unit_def, symmetric] a1_def [symmetric] a2_def [symmetric] m' a5_def)
  have complete: "entry_unit a e' \<in> D \<union> un_start_ns ` set (ar_ready a)"
    if "e' \<in> set es" "is_Fill (snd e')" "entry_unit a e' < ?cur" for e'
    using s that by (auto simp: session_ok_def)
  have ready: "unit_exact ?F (mk_bar_widths (ar_market a)) (es @ [?e]) u \<and> un_start_ns u < U \<and> un_start_ns u \<in> entry_unit a ` set es" if u: "u \<in> set (ar_ready a)" for u
  proof -
    have x: "unit_exact ?F (mk_bar_widths (ar_market a)) es u" "un_start_ns u < ?cur" "es \<noteq> []" "un_start_ns u \<in> entry_unit a ` set es"
      using s u by (auto simp: session_ok_def split: if_splits)
    then have "un_start_ns u < U" using units [of "last es"] by simp
    then show ?thesis using unit_exact_later [OF x(1), of ?e] x(4) by (simp add: U_def entry_unit_def)
  qed
  show ?thesis
  proof (cases "es = [] \<or> U = ?cur")
    case True
    then have "dkeys (ar_open a5) = [U]" using fc(3) a2(3) by simp
    then obtain v5 where o5: "ar_open a5 = [(U, v5)]" by (auto simp: map_eq_Cons_conv)
    have same: "seal_before U a5 = a5" by (rule seal_before_same [OF o5])
    have resume: "un_resume_after v5 = un_resume_after v" using fc(10) [of U] a2(3) True by (simp add: o5)
    note eu = earlier_cong [OF a5(1)]
    have sealed: "t < U \<and> earlier a U (es @ [?e]) \<noteq> [] \<and> un_resume_after v5 = fst (last (earlier a U (es @ [?e])))"
      if t: "ar_sealed_through a = Some t" for t
    proof -
      have ne: "es \<noteq> []" using s t by (auto simp: session_ok_def)
      then have "U = ?cur" using True by simp
      then show ?thesis using s ne t a2(9) by (auto simp: session_ok_def resume earlier_def U_def [symmetric])
    qed
    have nr: "ar_ready a \<noteq> [] \<Longrightarrow> ar_sealed_through a \<noteq> None" using s by (auto simp: session_ok_def split: if_splits)
    have "entry_unit a e' \<in> D \<union> un_start_ns ` set (ar_ready a)" if "e' \<in> set es" "is_Fill (snd e')" "entry_unit a e' < U" for e'
      using complete that True by (cases "es = []") auto
    then have "session_ok D a5 (es @ [?e])"
      unfolding session_ok_def using fc(1,2) sealed nr ready
      by (auto simp: a5 eu o5 U_def [symmetric])
    then show ?thesis using that [of a5] app a5 by (simp add: same)
  next
    case False
    then have ne: "es \<noteq> []" and lt: "?cur < U" using units [of "last es"] by (auto simp: order.strict_iff_order)
    have "dkeys (ar_open a5) = [?cur, U]" using fc(3) a2(3) False by simp
    then obtain u5 v5 where o5: "ar_open a5 = [(?cur, u5), (U, v5)]" by (auto simp: map_eq_Cons_conv)
    have resume: "un_resume_after v5 = fst (last es)" using fc(10) [of U] a2(3,10) False lt by (simp add: o5)
    obtain u' v' where so: "ar_open (seal_before U a5) = [(U, v')]" "un_resume_after v' = un_resume_after v5"
      "filed (seal_before U a5) (es @ [?e])" "live (seal_before U a5) (es @ [?e]) U"
      "ar_sealed_through (seal_before U a5) = Some (case ar_sealed_through a5 of None \<Rightarrow> ?cur | Some t \<Rightarrow> max t ?cur)"
      "ar_ready (seal_before U a5) = ar_ready a5 @ (if unit_empty u' then [] else [u'])"
      "unit_exact (ar_flush_ns a5) (mk_bar_widths (ar_market a5)) (es @ [?e]) u'" "un_start_ns u' = ?cur"
      "ar_flush_ns (seal_before U a5) = ar_flush_ns a5" "mk_bar_widths (ar_market (seal_before U a5)) = mk_bar_widths (ar_market a5)"
      "ar_last_stream_id (seal_before U a5) = ar_last_stream_id a5"
      by (rule seal_before_older [OF fc(1,2) o5 lt, of "stamp ?e" "stamp (last es)"]) (simp_all add: U_def entry_unit_def a5)
    define a' where "a' = seal_before U a5"
    have F': "ar_flush_ns a' = ?F" using so(9) a5 by (simp add: a'_def)
    note eu = earlier_cong [OF F']
    have below: "entry_unit a e' < U" if "e' \<in> set es" for e' using lasts [OF that] lt by simp
    have sealed: "earlier a U (es @ [?e]) = es" using below by (auto simp: earlier_def U_def [symmetric] intro: filter_True)
    have top: "(case ar_sealed_through a of None \<Rightarrow> ?cur | Some t \<Rightarrow> max t ?cur) = ?cur"
      using s ne by (auto simp: session_ok_def split: option.split)
    have handed: "entry_unit a e' \<in> D \<union> un_start_ns ` set (ar_ready a')" if e': "e' \<in> set es" "is_Fill (snd e')" for e'
    proof (cases "entry_unit a e' < ?cur")
      case True
      have "entry_unit a e' \<in> D \<union> un_start_ns ` set (ar_ready a)" by (rule complete [OF e' True])
      then show ?thesis by (auto simp: a'_def so(6) a5)
    next
      case c: False
      then have c: "entry_unit a e' = ?cur" using lasts [OF e'(1)] by simp
      have "print_row e' \<in> set (un_trades u')"
        using so(7,8) e' c by (auto simp: unit_exact_def unit_prints_def prints_def a5 entry_unit_def)
      then have "\<not> unit_empty u'" by (auto simp: unit_empty_def)
      then show ?thesis using c so(8) by (simp add: a'_def so(6))
    qed
    have "session_ok D a' (es @ [?e])"
      unfolding session_ok_def
      using so ready sealed handed ne lt resume
      by (auto simp: a'_def [symmetric] eu F' a5 top U_def [symmetric])
    then show ?thesis using that [of a'] app F' so(10) a5 by (simp add: a'_def)
  qed
qed

end
