(* ===== verification/Archive_Process.thy ===== *)
theory Archive_Process
  imports Archive_Spec
begin

section \<open>The archive through crashes\<close>

text \<open>
  File paths are distinct for distinct units, symbols and datasets; so a unit written again
  after a crash lands on its own files. With that, every trades and bars file on disk is exact
  and the checkpoint never claims a print that is not in a file, whatever the crashes. A clean
  stop inside a unit breaks this: the last lemma shows the file that a restart overwrites.
\<close>

subsection \<open>Labels and paths are injective\<close>

lemma days_in_year_pos: "0 < days_in_year y"
  by (simp add: days_in_year_def)

lemma days_in_month_pos: "0 < days_in_month y m"
  by (simp add: days_in_month_def)

text \<open>What was taken off is the length of the years, or months, passed.\<close>

lemma year_and_day_sum:
  "0 \<le> d \<Longrightarrow> year_and_day y d = (y', r) \<Longrightarrow>
     y \<le> y' \<and> 0 \<le> r \<and> r < days_in_year y' \<and> d = (\<Sum>k \<in> {y..<y'}. days_in_year k) + r"
proof (induction y d rule: year_and_day.induct)
  case (1 y d)
  show ?case
  proof (cases "d < days_in_year y")
    case True
    then show ?thesis using "1.prems" by (simp add: year_and_day.simps [of y d])
  next
    case False
    then have "y + 1 \<le> y' \<and> 0 \<le> r \<and> r < days_in_year y' \<and> d - days_in_year y = (\<Sum>k \<in> {y + 1..<y'}. days_in_year k) + r"
      using "1.prems" by (intro "1.IH") (simp_all add: year_and_day.simps [of y d])
    moreover have "{y..<y'} = insert y {y + 1..<y'}" if "y + 1 \<le> y'" using that by auto
    ultimately show ?thesis by simp
  qed
qed

lemma month_and_day_sum:
  "0 \<le> d \<Longrightarrow> month_and_day y m d = (m', r) \<Longrightarrow>
     m \<le> m' \<and> 0 \<le> r \<and> r < days_in_month y m' \<and> d = (\<Sum>k \<in> {m..<m'}. days_in_month y k) + r"
proof (induction y m d rule: month_and_day.induct)
  case (1 y m d)
  show ?case
  proof (cases "d < days_in_month y m")
    case True
    then show ?thesis using "1.prems" by (simp add: month_and_day.simps [of y m d])
  next
    case False
    then have "m + 1 \<le> m' \<and> 0 \<le> r \<and> r < days_in_month y m' \<and> d - days_in_month y m = (\<Sum>k \<in> {m + 1..<m'}. days_in_month y k) + r"
      using "1.prems" by (intro "1.IH") (simp_all add: month_and_day.simps [of y m d])
    moreover have "{m..<m'} = insert m {m + 1..<m'}" if "m + 1 \<le> m'" using that by auto
    ultimately show ?thesis by simp
  qed
qed

lemma str_int_no_dash: "0 \<le> n \<Longrightarrow> CHR ''-'' \<notin> set (str_int n)"
  using str_nat_digits [of "CHR ''-''" "nat n"] by (auto simp: str_int_def is_digit_def)

lemma pad2_value: "0 \<le> n \<Longrightarrow> digits_value 0 (pad2 n) = Some n"
  using digits_value_str_nat [of "nat n"] by (auto simp: pad2_def str_int_def is_digit_def digit_value_def)

lemma pad2_inj: "0 \<le> a \<Longrightarrow> 0 \<le> b \<Longrightarrow> pad2 a = pad2 b \<longleftrightarrow> a = b"
  using pad2_value by (metis option.inject)

lemma pad2_no_dash: "0 \<le> n \<Longrightarrow> CHR ''-'' \<notin> set (pad2 n)"
  using str_int_no_dash by (simp add: pad2_def)

lemma pad2_two: "0 \<le> n \<Longrightarrow> n < 100 \<Longrightarrow> length (pad2 n) = 2"
  by (auto simp: pad2_def str_int_def str_nat.simps [of "nat n"] str_nat.simps [of "nat n div 10"])

lemma date_label_inj:
  assumes "0 \<le> a" "0 \<le> b" "date_label a = date_label b"
  shows "a = b"
proof -
  obtain y yd where y: "year_and_day 1970 a = (y, yd)" by (cases "year_and_day 1970 a")
  obtain z zd where z: "year_and_day 1970 b = (z, zd)" by (cases "year_and_day 1970 b")
  obtain m md where m: "month_and_day y 1 yd = (m, md)" by (cases "month_and_day y 1 yd")
  obtain n nd where n: "month_and_day z 1 zd = (n, nd)" by (cases "month_and_day z 1 zd")
  note sy = year_and_day_sum [OF assms(1) y] and sz = year_and_day_sum [OF assms(2) z]
  have sm: "1 \<le> m \<and> 0 \<le> md \<and> yd = (\<Sum>k \<in> {1..<m}. days_in_month y k) + md" using month_and_day_sum [OF _ m] sy by blast
  have sn: "1 \<le> n \<and> 0 \<le> nd \<and> zd = (\<Sum>k \<in> {1..<n}. days_in_month z k) + nd" using month_and_day_sum [OF _ n] sz by blast
  have l: "str_int y @ CHR ''-'' # (pad2 m @ CHR ''-'' # pad2 (md + 1)) = str_int z @ CHR ''-'' # (pad2 n @ CHR ''-'' # pad2 (nd + 1))"
    using assms(3) by (simp add: date_label_def y z m n)
  have nd: "CHR ''-'' \<notin> set (str_int y)" "CHR ''-'' \<notin> set (str_int z)" "CHR ''-'' \<notin> set (pad2 m)" "CHR ''-'' \<notin> set (pad2 n)"
    using sy sz sm sn by (simp_all add: str_int_no_dash pad2_no_dash)
  have "(str_int y, pad2 m @ CHR ''-'' # pad2 (md + 1)) = (str_int z, pad2 n @ CHR ''-'' # pad2 (nd + 1))"
    using partition_at_append [OF nd(1)] partition_at_append [OF nd(2)] l by metis
  then have yz: "y = z" and r: "pad2 m @ CHR ''-'' # pad2 (md + 1) = pad2 n @ CHR ''-'' # pad2 (nd + 1)"
    using sy sz by (simp_all add: str_int_inj)
  have "(pad2 m, pad2 (md + 1)) = (pad2 n, pad2 (nd + 1))"
    using partition_at_append [OF nd(3)] partition_at_append [OF nd(4)] r by metis
  then have "m = n" "md = nd" using sm sn by (simp_all add: pad2_inj)
  then show ?thesis using yz sy sz sm sn by simp
qed

lemma time_label_inj:
  assumes "0 \<le> a" "a < 86400" "0 \<le> b" "b < 86400" "time_label a = time_label b"
  shows "a = b"
proof -
  have h: "0 \<le> x div 3600 \<and> x div 3600 < 100 \<and> 0 \<le> x div 60 mod 60 \<and> x div 60 mod 60 < 100 \<and> 0 \<le> x mod 60 \<and> x mod 60 < 100"
    if "0 \<le> x" "x < 86400" for x :: int
  proof -
    have "x div 3600 \<le> 86399 div 3600" using that(2) by (intro zdiv_mono1) simp_all
    then have "x div 3600 < 100" by simp
    moreover have "x div 60 mod 60 < 100" "x mod 60 < 100" by (rule order.strict_trans [OF pos_mod_bound]; simp)+
    ultimately show ?thesis using that(1) by (simp add: pos_imp_zdiv_nonneg_iff)
  qed
  have len: "length (pad2 (x div 3600)) = 2 \<and> length (pad2 (x div 60 mod 60)) = 2" if "0 \<le> x" "x < 86400" for x
    using h [OF that] by (simp add: pad2_two)
  have "a div 3600 = b div 3600 \<and> a div 60 mod 60 = b div 60 mod 60 \<and> a mod 60 = b mod 60"
    using assms(5) len [OF assms(1,2)] len [OF assms(3,4)] h [OF assms(1,2)] h [OF assms(3,4)]
    by (simp add: time_label_def pad2_inj)
  moreover have "x = x div 3600 * 3600 + x div 60 mod 60 * 60 + x mod 60" for x :: int
  proof -
    have "x div 3600 = x div 60 div 60" using zdiv_zmult2_eq [of 60 x 60] by simp
    then show ?thesis using div_mult_mod_eq [of x 60] div_mult_mod_eq [of "x div 60" 60] by linarith
  qed
  ultimately show ?thesis by metis
qed

lemma unit_label_inj:
  assumes "0 \<le> a" "0 \<le> b" "NS_PER_SECOND dvd a" "NS_PER_SECOND dvd b" "unit_label a = unit_label b"
  shows "a = b"
proof -
  define x where "x = a div NS_PER_SECOND"
  define y where "y = b div NS_PER_SECOND"
  have pos: "0 \<le> x" "0 \<le> y" using assms(1,2) by (simp_all add: x_def y_def NS_PER_SECOND_def pos_imp_zdiv_nonneg_iff)
  have "x div 86400 = y div 86400"
    using assms(5) pos by (intro date_label_inj) (simp_all add: unit_label_def x_def y_def Let_def pos_imp_zdiv_nonneg_iff)
  moreover have "x mod 86400 = y mod 86400"
    using assms(5) by (intro time_label_inj) (simp_all add: unit_label_def x_def y_def Let_def)
  ultimately have "x = y" by (metis div_mult_mod_eq)
  then show ?thesis using assms(3,4) by (auto simp: x_def y_def NS_PER_SECOND_def)
qed

lemma path_for_inj:
  assumes "inj_on (symbol_name names) S" "sy \<in> S" "sy' \<in> S" "0 \<le> a" "0 \<le> b" "NS_PER_SECOND dvd a" "NS_PER_SECOND dvd b"
  shows "path_for names ds sy a = path_for names ds' sy' b \<longleftrightarrow> ds = ds' \<and> sy = sy' \<and> a = b"
  using unit_label_inj [OF assms(4-7)] inj_onD [OF assms(1) _ assms(2,3)]
  by (auto simp: path_for_def case_prod_unfold prod_eq_iff Let_def)

text \<open>Names the settings accept name one symbol each, as long as none is empty or looks like a number's.\<close>

lemma symbol_name_inj:
  assumes "symbols_ok ss" "\<And>s. s \<in> set ss \<Longrightarrow> sm_name s \<noteq> [] \<and> take 3 (sm_name s) \<noteq> ''id=''"
  shows "inj_on (symbol_name (writer_names ss)) {0..}"
proof (rule inj_onI, unfold atLeast_iff)
  fix a b
  assume eq: "symbol_name (writer_names ss) a = symbol_name (writer_names ss) b" and pos: "0 \<le> a" "0 \<le> b"
  have listed: "\<exists>s \<in> set ss. sm_symbol_id s = i \<and> sm_name s = n" if "dget (writer_names ss) i = Some n" for i n
    using dict_of_mem [of "map (\<lambda>s. (sm_symbol_id s, sm_name s)) ss" i n] that by (auto simp: writer_names_def)
  have shape: "n \<noteq> [] \<and> take 3 n \<noteq> ''id=''" if d: "dget (writer_names ss) i = Some n" for i n
  proof -
    obtain s where "s \<in> set ss" "sm_name s = n" using listed [OF d] by blast
    then show ?thesis using assms(2) [of s] by simp
  qed
  have named: "symbol_name (writer_names ss) i = n" if "dget (writer_names ss) i = Some n" for i n
    using shape [OF that] that by (simp add: symbol_name_def)
  have other: "symbol_name (writer_names ss) i = ''id='' @ str_int i" if "dget (writer_names ss) i = None" for i
    using that by (simp add: symbol_name_def)
  show "a = b"
  proof (cases "dget (writer_names ss) a"; cases "dget (writer_names ss) b")
    assume "dget (writer_names ss) a = None" "dget (writer_names ss) b = None"
    then show ?thesis using eq pos by (simp add: other str_int_inj)
  next
    fix n assume "dget (writer_names ss) a = None" "dget (writer_names ss) b = Some n"
    then show ?thesis using eq shape [of b n] by (auto simp: other named)
  next
    fix n assume "dget (writer_names ss) a = Some n" "dget (writer_names ss) b = None"
    then show ?thesis using eq shape [of a n] by (auto simp: other named)
  next
    fix n k assume d: "dget (writer_names ss) a = Some n" "dget (writer_names ss) b = Some k"
    then have "n = k" using eq by (simp add: named)
    moreover have "distinct (map sm_name ss)" using assms(1) by (simp add: symbols_ok_def)
    ultimately show ?thesis using listed [OF d(1)] listed [OF d(2)] by (metis distinct_map inj_onD)
  qed
qed

subsection \<open>What is on disk\<close>

definition symbol_rows :: "int \<Rightarrow> int \<Rightarrow> int \<Rightarrow> entries \<Rightarrow> trade list" where
  "symbol_rows F sy U es = [t \<leftarrow> unit_prints F U es. tr_symbol_id t = sy]"

text \<open>The trades file and the bars file a print belongs in.\<close>

definition trades_path :: "int \<Rightarrow> (int, string) dict \<Rightarrow> string \<times> wire \<Rightarrow> path" where
  "trades_path F names e = path_for names ''trades'' (symbol_id (snd e)) (unit_of F (stamp e))"

definition bars_path :: "int \<Rightarrow> (int, string) dict \<Rightarrow> string \<times> wire \<Rightarrow> path" where
  "bars_path F names e = path_for names ''bars'' (symbol_id (snd e)) (unit_of F (stamp e))"

definition exact_bars :: "int \<Rightarrow> int list \<Rightarrow> entries \<Rightarrow> string \<times> wire \<Rightarrow> bar list \<Rightarrow> bool" where
  "exact_bars F widths log e bs \<longleftrightarrow>
     (\<forall>b \<in> set bs. bar_bucket_seconds b \<in> set widths) \<and>
     (\<forall>w \<in> set widths. [b \<leftarrow> bs. bar_bucket_seconds b = w] = unit_candles F (symbol_id (snd e)) w (unit_of F (stamp e)) log)"

definition fills :: "entries \<Rightarrow> (string \<times> wire) set" where
  "fills es = {e \<in> set es. is_Fill (snd e)}"

text \<open>Wherever there is a file of a print's symbol and unit, it holds all of that unit and nothing else.\<close>

definition files_exact :: "int \<Rightarrow> int list \<Rightarrow> (int, string) dict \<Rightarrow> entries \<Rightarrow> disk \<Rightarrow> bool" where
  "files_exact F widths names log d \<longleftrightarrow>
     (\<forall>e \<in> fills log. \<forall>t.
        (dget (dk_files d) (trades_path F names e) = Some t \<longrightarrow> t = Trades (symbol_rows F (symbol_id (snd e)) (unit_of F (stamp e)) log)) \<and>
        (dget (dk_files d) (bars_path F names e) = Some t \<longrightarrow> (\<exists>bs. t = Bars bs \<and> exact_bars F widths log e bs)))"

definition archived :: "int \<Rightarrow> (int, string) dict \<Rightarrow> disk \<Rightarrow> string \<times> wire \<Rightarrow> bool" where
  "archived F names d e \<longleftrightarrow> dget (dk_files d) (trades_path F names e) \<noteq> None \<and> dget (dk_files d) (bars_path F names e) \<noteq> None"

text \<open>Nothing before position \<open>c\<close> shares a unit with anything after it.\<close>

definition unit_boundary :: "int \<Rightarrow> entries \<Rightarrow> nat \<Rightarrow> bool" where
  "unit_boundary F log c \<longleftrightarrow> (\<forall>e \<in> set (take c log). \<forall>e' \<in> set (drop c log). unit_of F (stamp e) < unit_of F (stamp e'))"

definition checkpoint_at :: "entries \<Rightarrow> disk \<Rightarrow> nat \<Rightarrow> bool" where
  "checkpoint_at log d c \<longleftrightarrow>
     (case read_checkpoint d of None \<Rightarrow> c = 0 | Some s \<Rightarrow> 0 < c \<and> c \<le> length log \<and> s = fst (log ! (c - 1)))"

definition checkpoint_sound :: "int \<Rightarrow> (int, string) dict \<Rightarrow> entries \<Rightarrow> disk \<Rightarrow> bool" where
  "checkpoint_sound F names log d \<longleftrightarrow>
     (\<exists>c. checkpoint_at log d c \<and> unit_boundary F log c \<and> (\<forall>e \<in> fills (take c log). archived F names d e))"

definition log_ok :: "(int, string) dict \<Rightarrow> entries \<Rightarrow> bool" where
  "log_ok names log \<longleftrightarrow>
     distinct (''0-0'' # map fst log) \<and> [] \<notin> set (map fst log) \<and> sorted (map stamp log) \<and> (\<forall>e \<in> set log. 0 \<le> stamp e) \<and>
     inj_on (symbol_name names) ((symbol_id \<circ> snd) ` fills log)"

subsection \<open>Writing an exact unit\<close>

lemma unit_of_nonneg: "0 < F \<Longrightarrow> 0 \<le> x \<Longrightarrow> 0 \<le> unit_of F x"
  by (simp add: unit_of_def pos_imp_zdiv_nonneg_iff)

lemma paths_differ:
  assumes "log_ok names log" "e \<in> fills log" "e' \<in> fills log" "0 < s"
  defines "F \<equiv> s * NS_PER_SECOND"
  shows "path_for names ds (symbol_id (snd e)) (unit_of F (stamp e)) = path_for names ds' (symbol_id (snd e')) (unit_of F (stamp e')) \<longleftrightarrow>
    ds = ds' \<and> symbol_id (snd e) = symbol_id (snd e') \<and> unit_of F (stamp e) = unit_of F (stamp e')"
proof (rule path_for_inj)
  have F: "0 < F" using assms(4) by (simp add: F_def NS_PER_SECOND_def)
  show "inj_on (symbol_name names) ((symbol_id \<circ> snd) ` fills log)" using assms(1) by (simp add: log_ok_def)
  show "symbol_id (snd e) \<in> (symbol_id \<circ> snd) ` fills log" "symbol_id (snd e') \<in> (symbol_id \<circ> snd) ` fills log" using assms(2,3) by auto
  have "0 \<le> stamp e" "0 \<le> stamp e'" using assms(1-3) by (auto simp: log_ok_def fills_def)
  then show "0 \<le> unit_of F (stamp e)" "0 \<le> unit_of F (stamp e')" using F by (simp_all add: unit_of_nonneg)
  show "NS_PER_SECOND dvd unit_of F (stamp e)" "NS_PER_SECOND dvd unit_of F (stamp e')" by (simp_all add: unit_of_def F_def)
qed

lemma read_checkpoint_text: "read_checkpoint (d\<lparr>dk_checkpoint := Some (checkpoint_text sid last_id n)\<rparr>) = Some sid"
proof -
  let ?v = "JObj [(''last_stream_id'', JStr last_id), (''records_applied'', JInt n), (''stream_id'', JStr sid)]"
  have wf: "wf_json ?v" by simp
  have st: "stops [CHR 0x0A]" by (simp add: stops_def is_digit_def)
  have "parse_val (Suc (length (json_dumps ?v @ [CHR 0x0A]))) (json_dumps ?v @ [CHR 0x0A]) = Some (?v, [CHR 0x0A])"
    by (rule parse_dumps(1) [OF wf st]) simp
  moreover have "Json.ws [CHR 0x0A] = []" by (simp add: Json.ws_def)
  ultimately have "json_loads (json_dumps ?v @ [CHR 0x0A]) = Inr ?v"
    unfolding json_loads_def ws_dumps by simp
  then show ?thesis by (simp add: read_checkpoint_def checkpoint_text_def text_of_def del: json_dumps.simps)
qed

text \<open>A write is good when the table is what its path should hold.\<close>

definition good_write :: "int \<Rightarrow> int list \<Rightarrow> (int, string) dict \<Rightarrow> entries \<Rightarrow> path \<Rightarrow> table \<Rightarrow> bool" where
  "good_write F widths names log p t \<longleftrightarrow>
     (\<forall>e \<in> fills log.
        (p = trades_path F names e \<longrightarrow> t = Trades (symbol_rows F (symbol_id (snd e)) (unit_of F (stamp e)) log)) \<and>
        (p = bars_path F names e \<longrightarrow> (\<exists>bs. t = Bars bs \<and> exact_bars F widths log e bs)))"

lemma files_exact_write:
  "files_exact F widths names log d \<Longrightarrow> good_write F widths names log p t \<Longrightarrow> files_exact F widths names log (do_write (Write_Table p t) d)"
  by (auto simp: files_exact_def good_write_def write_table_def split: if_splits)

lemma files_exact_checkpoint [simp]:
  "files_exact F widths names log (d\<lparr>dk_checkpoint := s\<rparr>) = files_exact F widths names log d"
  by (simp add: files_exact_def)

lemma archived_write: "archived F names d e \<Longrightarrow> archived F names (do_write w d) e"
  by (cases w) (auto simp: archived_def write_table_def)

lemma archived_writes: "archived F names d e \<Longrightarrow> archived F names (fold do_write writes d) e"
  by (induction writes arbitrary: d) (auto simp: archived_write)

lemma path_dataset: "path_for names ds sy a = path_for names ds' sy' b \<Longrightarrow> ds = ds'"
  by (simp add: path_for_def case_prod_unfold Let_def)

lemma set_split_by_symbol: "(sy, rs) \<in> set (split_by_symbol f rows) \<longleftrightarrow> sy \<in> f ` set rows \<and> rs = [r \<leftarrow> rows. f r = sy]"
  by (auto simp: split_by_symbol_def)

lemma in_unit_prints: "t \<in> set (unit_prints F U log) \<longleftrightarrow> (\<exists>e \<in> fills log. t = print_row e \<and> unit_of F (stamp e) = U)"
  by (fastforce simp: unit_prints_def prints_def fills_def)

lemma symbol_prints_fill:
  "symbol_prints F sy U log \<noteq> [] \<longleftrightarrow> (\<exists>e \<in> fills log. symbol_id (snd e) = sy \<and> unit_of F (stamp e) = U)"
proof -
  have "symbol_prints F sy U log \<noteq> [] \<longleftrightarrow> (\<exists>t \<in> set (unit_prints F U log). tr_symbol_id t = sy)"
    by (auto simp: symbol_prints_def filter_empty_conv)
  also have "\<dots> \<longleftrightarrow> (\<exists>e \<in> fills log. symbol_id (snd e) = sy \<and> unit_of F (stamp e) = U)"
    unfolding Bex_def in_unit_prints by (metis print_row_sel(1))
  finally show ?thesis .
qed

lemma unit_bar_fill:
  assumes "unit_exact F widths log u" "b \<in> set (un_bars u)"
  shows "\<exists>e \<in> fills log. symbol_id (snd e) = bar_symbol_id b \<and> unit_of F (stamp e) = un_start_ns u"
proof -
  have w: "bar_bucket_seconds b \<in> set widths" using assms by (simp add: unit_exact_def)
  have "b \<in> set (bars_at (bar_symbol_id b) (bar_bucket_seconds b) (un_bars u))" using assms(2) by (simp add: bars_at_def)
  then have "unit_candles F (bar_symbol_id b) (bar_bucket_seconds b) (un_start_ns u) log \<noteq> []"
    using assms(1) w by (auto simp: unit_exact_def)
  then show ?thesis by (simp add: unit_candles_def symbol_prints_fill)
qed

lemma unit_files_good:
  assumes log: "log_ok names log" and s: "0 < s" and u: "unit_exact (s * NS_PER_SECOND) widths log u"
    and w: "(p, t) \<in> set (unit_files names u)"
  shows "good_write (s * NS_PER_SECOND) widths names log p t"
proof -
  let ?F = "s * NS_PER_SECOND"
  have row: "[t \<leftarrow> un_trades u. tr_symbol_id t = sy] = symbol_rows ?F sy (un_start_ns u) log" for sy
    using u by (simp add: unit_exact_def symbol_rows_def)
  have bars: "exact_bars ?F widths log e [b \<leftarrow> un_bars u. bar_symbol_id b = symbol_id (snd e)]" if "unit_of ?F (stamp e) = un_start_ns u" for e
    using u that by (auto simp: exact_bars_def unit_exact_def bars_at_def)
  from w consider (trades) r where "r \<in> set (un_trades u)" "p = path_for names ''trades'' (tr_symbol_id r) (un_start_ns u)"
      "t = Trades [x \<leftarrow> un_trades u. tr_symbol_id x = tr_symbol_id r]"
    | (bars) r where "r \<in> set (un_bars u)" "p = path_for names ''bars'' (bar_symbol_id r) (un_start_ns u)"
      "t = Bars [x \<leftarrow> un_bars u. bar_symbol_id x = bar_symbol_id r]"
    | (snaps) sy where "p = path_for names ''snapshots'' sy (un_start_ns u)"
    unfolding unit_files_def by (auto simp: set_split_by_symbol)
  then show ?thesis
  proof cases
    case trades
    then obtain e' where e': "e' \<in> fills log" "r = print_row e'" "unit_of ?F (stamp e') = un_start_ns u"
      using u by (auto simp: unit_exact_def in_unit_prints)
    have p: "p = path_for names ''trades'' (symbol_id (snd e')) (unit_of ?F (stamp e'))" using trades(2) e' by simp
    show ?thesis
      using paths_differ [OF log e'(1) _ s] trades(3) e'(2,3) row
      by (auto simp: good_write_def p trades_path_def bars_path_def)
  next
    case bars
    then obtain e' where e': "e' \<in> fills log" "symbol_id (snd e') = bar_symbol_id r" "unit_of ?F (stamp e') = un_start_ns u"
      using unit_bar_fill [OF u] by blast
    have p: "p = path_for names ''bars'' (symbol_id (snd e')) (unit_of ?F (stamp e'))" using bars(2) e' by simp
    show ?thesis
      using paths_differ [OF log e'(1) _ s] bars(3) e'(2,3) \<open>\<And>e. unit_of ?F (stamp e) = un_start_ns u \<Longrightarrow> _\<close>
      by (auto simp: good_write_def p trades_path_def bars_path_def)
  next
    case snaps
    then show ?thesis by (auto simp: good_write_def trades_path_def bars_path_def dest: path_dataset)
  qed
qed

lemma unit_files_archive:
  assumes u: "unit_exact F widths log u" and w: "widths \<noteq> []" and e: "e \<in> fills log" "unit_of F (stamp e) = un_start_ns u"
  shows "trades_path F names e \<in> fst ` set (unit_files names u)" "bars_path F names e \<in> fst ` set (unit_files names u)"
proof -
  let ?sy = "symbol_id (snd e)"
  have "print_row e \<in> set (un_trades u)" using u e by (auto simp: unit_exact_def in_unit_prints)
  then have "(?sy, [t \<leftarrow> un_trades u. tr_symbol_id t = ?sy]) \<in> set (split_by_symbol tr_symbol_id (un_trades u))"
    by (force simp: set_split_by_symbol)
  then show "trades_path F names e \<in> fst ` set (unit_files names u)"
    using e(2) by (force simp: unit_files_def trades_path_def)
  obtain w0 where w0: "w0 \<in> set widths" using w by (cases widths) auto
  have "symbol_prints F ?sy (un_start_ns u) log \<noteq> []" using e by (auto simp: symbol_prints_fill)
  then have "bars_at ?sy w0 (un_bars u) \<noteq> []" using u w0 by (simp add: unit_exact_def unit_candles_def)
  then have "?sy \<in> bar_symbol_id ` set (un_bars u)" by (force simp: bars_at_def filter_empty_conv)
  then have "(?sy, [b \<leftarrow> un_bars u. bar_symbol_id b = ?sy]) \<in> set (split_by_symbol bar_symbol_id (un_bars u))"
    by (simp add: set_split_by_symbol)
  then show "bars_path F names e \<in> fst ` set (unit_files names u)"
    using e(2) by (force simp: unit_files_def bars_path_def)
qed

lemma archived_after:
  assumes "p \<in> fst ` set fs"
  shows "dget (dk_files (fold do_write (map (\<lambda>(p, t). Write_Table p t) fs) d)) p \<noteq> None"
  using assms
proof (induction fs arbitrary: d rule: rev_induct)
  case (snoc x fs)
  then show ?case by (cases x) (auto simp: write_table_def)
qed simp

subsection \<open>Sessions on a stretch of the log\<close>

lemma fresh_session:
  assumes "new_archive widths depth secs = Inr fresh" "list_all (\<lambda>w. 1 \<le> w) widths"
  shows "session_ok {} fresh []" "ar_flush_ns fresh = secs * NS_PER_SECOND" "mk_bar_widths (ar_market fresh) = widths"
    "ar_ready fresh = []" "0 < secs" "ar_flush_seconds fresh = secs"
proof -
  have div: "w dvd secs" if "w \<in> set widths" for w
    using assms(1) that by (auto simp: new_archive_def filter_empty_conv dvd_eq_mod_eq_0 split: if_splits)
  have n: "fresh = \<lparr> ar_market = new_market widths, ar_book_depth = depth, ar_flush_seconds = secs,
                 ar_flush_ns = secs * NS_PER_SECOND, ar_open = [], ar_ready = [], ar_sealed_through = None,
                 ar_last_stream_id = ''0-0'', ar_records_applied = 0, ar_late_rows = 0 \<rparr>" "0 < secs"
    using assms(1) by (auto simp: new_archive_def split: if_splits)
  have "geometry_ok fresh" using n div assms(2) by (fastforce simp: geometry_ok_def new_market_def list_all_iff)
  moreover have "market_ok (ar_market fresh)" using n market_ok_new [OF assms(2)] by simp
  ultimately show "session_ok {} fresh []"
    using n by (simp add: session_ok_def filed_def cur_bar_def new_market_def tape_waiting_def)
  show "ar_flush_ns fresh = secs * NS_PER_SECOND" "mk_bar_widths (ar_market fresh) = widths" "ar_ready fresh = []" "0 < secs"
    "ar_flush_seconds fresh = secs" using n by (simp_all add: new_market_def)
qed

lemma apply_batch_session:
  assumes "session_ok D (av_state v) es" "sorted (map stamp (es @ batch))"
  shows "\<exists>v'. apply_batch batch v = Inr v' \<and> session_ok D (av_state v') (es @ batch) \<and> av_names v' = av_names v \<and>
    ar_flush_ns (av_state v') = ar_flush_ns (av_state v) \<and>
    mk_bar_widths (ar_market (av_state v')) = mk_bar_widths (ar_market (av_state v)) \<and>
    av_position v' = (if batch = [] then av_position v else fst (last batch))"
  using assms
proof (induction batch arbitrary: v es)
  case (Cons e batch)
  obtain sid rec where e: "e = (sid, rec)" by (cases e)
  have srt: "sorted (map stamp es)" "\<And>e'. e' \<in> set es \<Longrightarrow> stamp e' \<le> stamp (sid, rec)"
    using Cons.prems(2) by (auto simp: sorted_append e)
  obtain a where a: "archive_apply rec sid (av_state v) = Inr a" "session_ok D a (es @ [(sid, rec)])"
      "ar_flush_ns a = ar_flush_ns (av_state v)" "mk_bar_widths (ar_market a) = mk_bar_widths (ar_market (av_state v))"
    by (rule session_apply [OF Cons.prems(1) srt(2,1)])
  let ?v = "v\<lparr>av_state := a, av_position := sid\<rparr>"
  have "session_ok D (av_state ?v) (es @ [e])" "sorted (map stamp ((es @ [e]) @ batch))" using a(2) Cons.prems(2) by (simp_all add: e)
  from Cons.IH [OF this] show ?case using a by (auto simp: e)
qed simp

lemma session_drain:
  assumes "session_ok D a es"
  shows "session_ok (D \<union> un_start_ns ` set (ar_ready a)) (a\<lparr>ar_ready := []\<rparr>) es"
proof -
  have "filed (a\<lparr>ar_ready := []\<rparr>) es = filed a es" "live (a\<lparr>ar_ready := []\<rparr>) es U = live a es U" for U
    by (simp_all add: filed_def geometry_ok_def unit_filed_def live_def)
  moreover have "entry_unit (a\<lparr>ar_ready := []\<rparr>) = entry_unit a" "earlier (a\<lparr>ar_ready := []\<rparr>) = earlier a"
    using earlier_cong [of "a\<lparr>ar_ready := []\<rparr>" a] by simp_all
  ultimately show ?thesis using assms by (auto simp: session_ok_def)
qed

lemma earlier_prefix:
  assumes "sorted (map stamp es)" "0 < ar_flush_ns a"
  obtains k where "k \<le> length es" "earlier a U es = take k es" "\<And>e. e \<in> set (drop k es) \<Longrightarrow> U \<le> entry_unit a e"
proof -
  have "\<exists>k \<le> length es. earlier a U es = take k es \<and> (\<forall>e \<in> set (drop k es). U \<le> entry_unit a e)"
    using assms(1)
  proof (induction es)
    case (Cons e es)
    show ?case
    proof (cases "entry_unit a e < U")
      case True
      have "sorted (map stamp es)" using Cons.prems by simp
      from Cons.IH [OF this] obtain k where "k \<le> length es" "earlier a U es = take k es" "\<forall>e \<in> set (drop k es). U \<le> entry_unit a e" by blast
      then show ?thesis using True by (intro exI [of _ "Suc k"]) (simp add: earlier_def)
    next
      case False
      have "U \<le> entry_unit a e'" if "e' \<in> set (e # es)" for e'
      proof -
        have "stamp e \<le> stamp e'" using Cons.prems that by auto
        then have "entry_unit a e \<le> entry_unit a e'" using assms(2) by (simp add: entry_unit_def unit_of_mono)
        then show ?thesis using False by simp
      qed
      then have all: "\<forall>e' \<in> set (e # es). \<not> entry_unit a e' < U" by (auto simp: not_less)
      then have "earlier a U (e # es) = []" unfolding earlier_def filter_empty_conv by blast
      then show ?thesis using all by (intro exI [of _ 0]) (simp add: not_less)
    qed
  qed (simp add: earlier_def)
  then show ?thesis using that by blast
qed

text \<open>An exact unit of a session is exact for the whole log, when the session started at a boundary.\<close>

lemma unit_exact_log:
  assumes log: "log = pre @ es @ post" "sorted (map stamp log)" and F: "0 < F"
    and b: "unit_boundary F log (length pre)"
    and u: "unit_exact F widths es u" "un_start_ns u < unit_of F (stamp (last es))" "un_start_ns u \<in> (\<lambda>e. unit_of F (stamp e)) ` set es"
  shows "unit_exact F widths log u"
proof -
  have ne: "es \<noteq> []" using u(3) by auto
  have "unit_prints F (un_start_ns u) pre = []"
  proof -
    have "unit_of F (stamp e) < un_start_ns u" if "e \<in> set pre" for e
      using b u(3) that by (auto simp: unit_boundary_def log(1))
    then show ?thesis by (rule no_prints_later)
  qed
  moreover have "unit_prints F (un_start_ns u) post = []"
  proof -
    have "un_start_ns u < unit_of F (stamp e)" if "e \<in> set post" for e
    proof -
      have "stamp (last es) \<le> stamp e" using log(2) that ne by (auto simp: log(1) sorted_append)
      then show ?thesis using unit_of_mono [OF F] u(2) by (meson less_le_trans)
    qed
    then show ?thesis by (fastforce simp: unit_prints_def prints_def filter_empty_conv)
  qed
  ultimately have p: "unit_prints F (un_start_ns u) log = unit_prints F (un_start_ns u) es"
    by (simp add: log(1) unit_prints_def prints_append)
  then have "symbol_prints F sy (un_start_ns u) log = symbol_prints F sy (un_start_ns u) es" for sy by (simp add: symbol_prints_def)
  then show ?thesis using u(1) p by (simp add: unit_exact_def unit_candles_def)
qed

subsection \<open>The process invariant\<close>

definition process_ok :: "archive \<Rightarrow> (int, string) dict \<Rightarrow> entries \<Rightarrow> archiver \<times> disk \<Rightarrow> bool" where
  "process_ok fresh names log = (\<lambda>(v, d).
     (let F = ar_flush_ns fresh; widths = mk_bar_widths (ar_market fresh)
      in files_exact F widths names log d \<and> checkpoint_sound F names log d \<and>
         (\<exists>i j D. i \<le> j \<and> j \<le> length log \<and> unit_boundary F log i \<and> av_names v = names \<and> av_position v = id_at ''0-0'' log j \<and>
            session_ok D (av_state v) (take (j - i) (drop i log)) \<and> ar_ready (av_state v) = [] \<and>
            ar_flush_ns (av_state v) = F \<and> mk_bar_widths (ar_market (av_state v)) = widths \<and>
            (\<forall>e \<in> fills (take i log). archived F names d e) \<and>
            (\<forall>e \<in> fills log. unit_of F (stamp e) \<in> D \<longrightarrow> archived F names d e))))"

lemma resume_ok:
  assumes log: "log_ok names log" and fresh: "session_ok {} fresh []" "ar_ready fresh = []"
    and d: "files_exact (ar_flush_ns fresh) (mk_bar_widths (ar_market fresh)) names log d" "checkpoint_sound (ar_flush_ns fresh) names log d"
  shows "process_ok fresh names log (resume fresh names d, d)"
proof -
  obtain c where c: "checkpoint_at log d c" "unit_boundary (ar_flush_ns fresh) log c"
      "\<forall>e \<in> fills (take c log). archived (ar_flush_ns fresh) names d e"
    using d(2) by (auto simp: checkpoint_sound_def)
  have "av_position (resume fresh names d) = id_at ''0-0'' log c \<and> c \<le> length log"
  proof (cases "read_checkpoint d")
    case None
    then show ?thesis using c(1) by (simp add: checkpoint_at_def resume_def id_at_def)
  next
    case (Some s)
    then have s: "0 < c" "c \<le> length log" "s = fst (log ! (c - 1))" using c(1) by (simp_all add: checkpoint_at_def)
    then have "s \<in> set (map fst log)" by auto
    moreover have "[] \<notin> set (map fst log)" using log unfolding log_ok_def by blast
    ultimately have "s \<noteq> []" by metis
    then show ?thesis using s Some by (simp add: resume_def id_at_def)
  qed
  then show ?thesis
    using d c fresh unfolding process_ok_def Let_def prod.case
    by (intro conjI exI [of _ c] exI [of _ "{}"]) (simp_all add: resume_def)
qed

lemma entries_after_at:
  assumes "log_ok names log" "j \<le> length log"
  shows "entries_after ''0-0'' n log (id_at ''0-0'' log j) = take n (drop j log)"
proof (cases j)
  case (Suc i)
  then have i: "i < length log" using assms(2) by simp
  have d: "distinct (map fst log)" "''0-0'' \<notin> set (map fst log)" using assms(1) by (simp_all add: log_ok_def)
  have "fst (log ! i) \<in> set (map fst log)" using i by simp
  then have ne: "fst (log ! i) \<noteq> ''0-0''" using d(2) by metis
  have before: "\<forall>e \<in> set (take i log). fst e \<noteq> fst (log ! i)"
  proof
    fix e assume "e \<in> set (take i log)"
    then obtain l where l: "l < i" "e = log ! l" by (auto simp: in_set_conv_nth)
    then have "map fst log ! l \<noteq> map fst log ! i" using d(1) i nth_eq_iff_index_eq [of "map fst log" l i] by simp
    then show "fst e \<noteq> fst (log ! i)" using l i by simp
  qed
  have split: "log = take i log @ log ! i # drop j log" using i Suc by (simp add: id_take_nth_drop)
  have "dropWhile (\<lambda>e. fst e \<noteq> fst (log ! i)) (take i log @ log ! i # drop j log) = log ! i # drop j log"
    using before by (subst dropWhile_append2) auto
  then have "dropWhile (\<lambda>e. fst e \<noteq> fst (log ! i)) log = log ! i # drop j log" by (simp only: split [symmetric])
  then show ?thesis using ne Suc by (simp add: entries_after_def id_at_def)
qed (simp add: entries_after_def id_at_def)

text \<open>Good tables keep the files exact, leave the checkpoint alone and lose nothing.\<close>

lemma write_tables_ok:
  assumes "files_exact F widths names log d" "\<forall>(p, t) \<in> set fs. good_write F widths names log p t"
  defines "d' \<equiv> fold do_write (map (\<lambda>(p, t). Write_Table p t) fs) d"
  shows "files_exact F widths names log d' \<and> dk_checkpoint d' = dk_checkpoint d"
  using assms(1,2) unfolding d'_def
proof (induction fs arbitrary: d)
  case (Cons x fs)
  obtain p t where x: "x = (p, t)" by (cases x)
  have "files_exact F widths names log (do_write (Write_Table p t) d)"
    using Cons.prems by (intro files_exact_write) (simp_all add: x)
  from Cons.IH [OF this] Cons.prems(2) show ?case by (simp add: x write_table_def)
qed simp

lemma checkpoint_sound_later:
  assumes "checkpoint_sound F names log d" "dk_checkpoint d' = dk_checkpoint d"
    "\<And>e. archived F names d e \<Longrightarrow> archived F names d' e"
  shows "checkpoint_sound F names log d'"
proof -
  have "checkpoint_at log d' = checkpoint_at log d" using assms(2) by (simp add: fun_eq_iff checkpoint_at_def read_checkpoint_def)
  then show ?thesis using assms(1,3) unfolding checkpoint_sound_def by (metis (no_types, lifting))
qed

text \<open>The checkpoint a session writes: the id before the first record of the unit still open.\<close>

lemma session_checkpoint:
  assumes log: "log = pre @ es @ post" "sorted (map stamp log)" and F: "0 < F" "F = ar_flush_ns a" and b: "unit_boundary F log (length pre)"
    and s: "session_ok D a es" and sealed: "ar_sealed_through a \<noteq> None"
  obtains c where "archive_checkpoint a = Inr (fst (log ! (c - 1)))" "0 < c" "c \<le> length log" "unit_boundary F log c"
    "length pre \<le> c" "\<And>e. e \<in> fills (take c log) \<Longrightarrow> e \<in> fills pre \<or> (e \<in> fills es \<and> entry_unit a e < entry_unit a (last es))"
proof -
  let ?U = "entry_unit a (last es)"
  have ne: "es \<noteq> []" using s sealed by (auto simp: session_ok_def)
  then obtain u where u: "ar_open a = [(?U, u)]" "earlier a ?U es \<noteq> []" "un_resume_after u = fst (last (earlier a ?U es))"
    using s sealed by (auto simp: session_ok_def)
  have srt: "sorted (map stamp es)" using log by (simp add: sorted_append)
  obtain k where k: "k \<le> length es" "earlier a ?U es = take k es" "\<And>e. e \<in> set (drop k es) \<Longrightarrow> ?U \<le> entry_unit a e"
    using F by (rule_tac earlier_prefix [OF srt, of a ?U]) auto
  have k0: "0 < k" using u(2) k(2) by (cases k) auto
  define c where "c = length pre + k"
  have "last (take k es) = es ! (k - 1)" using k(1) k0 ne by (simp add: last_conv_nth)
  moreover have c1: "c - 1 = length pre + (k - 1)" using k0 by (simp add: c_def)
  have "log ! (c - 1) = (es @ post) ! (k - 1)" unfolding c1 by (simp add: log(1) nth_append)
  moreover have "k - 1 < length es" using k(1) k0 by simp
  ultimately have nth: "last (take k es) = log ! (c - 1)" by (simp add: nth_append)
  have "archive_checkpoint a = Inr (fst (log ! (c - 1)))" using u k nth by (simp add: archive_checkpoint_def)
  moreover have "0 < c" "c \<le> length log" "length pre \<le> c" using k k0 by (simp_all add: c_def log(1))
  moreover have tk: "take c log = pre @ take k es" "drop c log = drop k es @ post" using k by (simp_all add: c_def log(1))
  have low: "entry_unit a e < ?U" if "e \<in> set (take k es)" for e using that unfolding k(2) [symmetric] by (simp add: earlier_def)
  have "unit_boundary F log c"
    unfolding unit_boundary_def tk
  proof (intro ballI)
    fix e e' assume e: "e \<in> set (pre @ take k es)" and e': "e' \<in> set (drop k es @ post)"
    show "unit_of F (stamp e) < unit_of F (stamp e')"
    proof (cases "e \<in> set pre")
      case True
      have "e' \<in> set (es @ post)" using e' by (auto dest: in_set_dropD)
      then show ?thesis using b True by (auto simp: unit_boundary_def log(1))
    next
      case False
      then have l: "unit_of F (stamp e) < unit_of F (stamp (last es))" using low e by (auto simp: entry_unit_def F(2))
      have "unit_of F (stamp (last es)) \<le> unit_of F (stamp e')"
      proof (cases "e' \<in> set (drop k es)")
        case True
        then show ?thesis using k(3) by (simp add: entry_unit_def F(2))
      next
        case False
        then have "e' \<in> set post" using e' by simp
        then have "stamp (last es) \<le> stamp e'" using log ne by (auto simp: sorted_append)
        then show ?thesis using F(1) by (rule_tac unit_of_mono)
      qed
      then show ?thesis using l by simp
    qed
  qed
  moreover have "e \<in> fills pre \<or> (e \<in> fills es \<and> entry_unit a e < ?U)" if "e \<in> fills (take c log)" for e
    using that low [of e] by (auto simp: fills_def tk dest: in_set_takeD)
  ultimately show ?thesis using that by blast
qed

subsection \<open>One step\<close>

lemma ready_writes_is:
  "ready_writes v =
     (let a = (av_state v)\<lparr>ar_ready := []\<rparr>; units = sort_key un_start_ns (ar_ready (av_state v)); v' = v\<lparr>av_state := a\<rparr>
      in if units = [] then Inr (v', [])
         else sbind (archive_checkpoint a) (\<lambda>sid.
           Inr (v', map (\<lambda>(p, t). Write_Table p t) (concat (map (unit_files (av_names v)) units)) @
                    [Write_Checkpoint (checkpoint_text sid (ar_last_stream_id a) (ar_records_applied a))])))"
  by (simp add: ready_writes_def drain_ready_def Let_def)

lemma batch_extends:
  assumes "i \<le> j" "j \<le> length log"
  shows "\<exists>j'. j \<le> j' \<and> j' \<le> length log \<and> take (j - i) (drop i log) @ take n (drop j log) = take (j' - i) (drop i log) \<and>
    id_at s log j' = (if take n (drop j log) = [] then id_at s log j else fst (last (take n (drop j log))))"
proof (intro exI conjI)
  let ?j = "min (j + n) (length log)"
  have "drop j log = drop (j - i) (drop i log)" using assms(1) by simp
  then have "take (j - i) (drop i log) @ take n (drop j log) = take (j - i + n) (drop i log)" by (simp only: take_add)
  also have "\<dots> = take (?j - i) (drop i log)" using assms by (cases "j + n \<le> length log") simp_all
  finally show "take (j - i) (drop i log) @ take n (drop j log) = take (?j - i) (drop i log)" .
  show "id_at s log ?j = (if take n (drop j log) = [] then id_at s log j else fst (last (take n (drop j log))))"
  proof (cases "take n (drop j log) = []")
    case True
    then have "?j = j" using assms by auto
    then show ?thesis using True by simp
  next
    case False
    then have n: "0 < n" "j < length log" by auto
    have "last (take n (drop j log)) = take n (drop j log) ! (min n (length log - j) - 1)"
      using False by (simp add: last_conv_nth min.commute)
    also have "\<dots> = log ! (j + (min n (length log - j) - 1))" using n by simp
    also have "j + (min n (length log - j) - 1) = ?j - 1" using n by simp
    finally have "last (take n (drop j log)) = log ! (?j - 1)" .
    moreover have "?j \<noteq> 0" using n by auto
    ultimately show ?thesis using False by (simp only: id_at_def if_False)
  qed
qed (use assms in auto)

lemma step_ok:
  assumes log: "log_ok names log" and fresh: "new_archive widths depth secs = Inr fresh" "list_all (\<lambda>w. 1 \<le> w) widths" "widths \<noteq> []"
    and ok: "process_ok fresh names log (v, d)"
  shows "process_ok fresh names log (archiver_event_step fresh names log (Step n crash) (v, d)) \<and>
    (crash = None \<longrightarrow> length log \<le> n \<longrightarrow>
       av_position (fst (archiver_event_step fresh names log (Step n crash) (v, d))) = id_at ''0-0'' log (length log))"
proof -
  note fs = fresh_session [OF fresh(1,2)]
  let ?F = "ar_flush_ns fresh"
  have F: "0 < ?F" "?F = secs * NS_PER_SECOND" using fs(2,5) by (simp_all add: NS_PER_SECOND_def)
  have srt: "sorted (map stamp log)" using log by (simp add: log_ok_def)
  obtain i j D where w: "i \<le> j" "j \<le> length log" "unit_boundary ?F log i" "av_names v = names" "av_position v = id_at ''0-0'' log j"
      "session_ok D (av_state v) (take (j - i) (drop i log))" "ar_ready (av_state v) = []" "ar_flush_ns (av_state v) = ?F"
      "mk_bar_widths (ar_market (av_state v)) = widths" "\<forall>e \<in> fills (take i log). archived ?F names d e"
      "\<forall>e \<in> fills log. unit_of ?F (stamp e) \<in> D \<longrightarrow> archived ?F names d e"
      and d: "files_exact ?F widths names log d" "checkpoint_sound ?F names log d"
    using ok by (auto simp: process_ok_def Let_def fs(3))
  note resume = resume_ok [OF log fs(1,4), unfolded fs(3)]
  define batch where "batch = take n (drop j log)"
  obtain j' where j': "j \<le> j'" "j' \<le> length log" "take (j - i) (drop i log) @ batch = take (j' - i) (drop i log)"
      "id_at ''0-0'' log j' = (if batch = [] then id_at ''0-0'' log j else fst (last batch))"
    using batch_extends [OF w(1,2), where n = n and s = "''0-0''"] unfolding batch_def by blast
  define es where "es = take (j' - i) (drop i log)"
  have ij': "i \<le> j'" using w(1) j'(1) by simp
  have split: "log = take i log @ es @ drop j' log"
  proof -
    have "drop j' log = drop (j' - i) (drop i log)" using ij' by simp
    then show ?thesis by (simp only: es_def append_take_drop_id)
  qed
  have pre: "length (take i log) = i" using w(1,2) by simp
  have ses: "sorted (map stamp es)" using srt split by (metis map_append sorted_append)
  obtain v1 where v1: "apply_batch batch v = Inr v1" "session_ok D (av_state v1) es" "av_names v1 = names"
      "ar_flush_ns (av_state v1) = ?F" "mk_bar_widths (ar_market (av_state v1)) = widths" "av_position v1 = id_at ''0-0'' log j'"
    using apply_batch_session [OF w(6), of batch] ses w(4,5,8,9) j'(3,4) by (auto simp: es_def)
  let ?a = "(av_state v1)\<lparr>ar_ready := []\<rparr>"
  let ?v = "v1\<lparr>av_state := ?a\<rparr>"
  define R where "R = ar_ready (av_state v1)"
  define D' where "D' = D \<union> un_start_ns ` set R"
  have s': "session_ok D' ?a es" unfolding D'_def R_def by (rule session_drain [OF v1(2)])
  have next_ok: "process_ok fresh names log (?v, d')"
    if "files_exact ?F widths names log d'" "checkpoint_sound ?F names log d'" "\<And>e. archived ?F names d e \<Longrightarrow> archived ?F names d' e"
      "\<And>e. e \<in> fills log \<Longrightarrow> unit_of ?F (stamp e) \<in> un_start_ns ` set R \<Longrightarrow> archived ?F names d' e" for d'
    using that w(3,10,11) v1 s' ij' j'(2)
    unfolding process_ok_def Let_def prod.case fs(3)
    by (intro conjI exI [of _ i] exI [of _ j'] exI [of _ D']) (auto simp: es_def D'_def)
  have at_end: "av_position ?v = id_at ''0-0'' log (length log)" if "length log \<le> n"
  proof (cases "j = length log")
    case True
    then show ?thesis using v1(6) j'(4) by (simp add: batch_def)
  next
    case False
    then have "batch = drop j log" "batch \<noteq> []" using that w(2) by (simp_all add: batch_def)
    then have "av_position v1 = fst (last log)" using v1(6) j'(4) by (simp add: last_drop)
    then show ?thesis using False w(2) by (cases log rule: rev_cases) (simp_all add: id_at_def nth_append)
  qed
  have step: "archiver_step (entries_after ''0-0'' n log (av_position v)) v = ready_writes v1"
    using entries_after_at [OF log w(2), of n] v1(1) by (simp add: archiver_step_def w(5) batch_def)
  show ?thesis
  proof (cases "R = []")
    case True
    then have "ready_writes v1 = Inr (?v, [])" by (simp add: ready_writes_is R_def)
    then show ?thesis
      using next_ok [OF d] resume [OF d] True at_end by (cases crash) (auto simp: archiver_event_step_def step)
  next
    case False
    have sealed: "ar_sealed_through (av_state v1) \<noteq> None" using v1(2) False by (auto simp: session_ok_def R_def split: if_splits)
    have b: "unit_boundary ?F log (length (take i log))" using w(3) pre by simp
    have Fa: "?F = ar_flush_ns ?a" using v1(4) by simp
    obtain c where c: "archive_checkpoint ?a = Inr (fst (log ! (c - 1)))" "0 < c" "c \<le> length log" "unit_boundary ?F log c"
        "\<And>e. e \<in> fills (take c log) \<Longrightarrow> e \<in> fills (take i log) \<or> (e \<in> fills es \<and> entry_unit ?a e < entry_unit ?a (last es))"
    proof (rule session_checkpoint [OF split srt F(1) Fa b s'])
      show "ar_sealed_through ?a \<noteq> None" using sealed by simp
    qed (rule that)
    define units where "units = sort_key un_start_ns R"
    define tabs where "tabs = concat (map (unit_files names) units)"
    define ck where "ck = checkpoint_text (fst (log ! (c - 1))) (ar_last_stream_id ?a) (ar_records_applied ?a)"
    have units: "set units = set R" "units \<noteq> []" using False by (simp_all add: units_def) (metis set_empty set_sort)
    have writes: "ready_writes v1 = Inr (?v, map (\<lambda>(p, t). Write_Table p t) tabs @ [Write_Checkpoint ck])"
      using units(2) c(1) v1(3) unfolding ready_writes_is Let_def R_def [symmetric] units_def [symmetric]
      by (simp add: tabs_def ck_def)
    have exact: "unit_exact ?F widths log u" if "u \<in> set R" for u
    proof (rule unit_exact_log [OF split srt F(1) b])
      show "unit_exact ?F widths es u" "un_start_ns u < unit_of ?F (stamp (last es))" "un_start_ns u \<in> (\<lambda>e. unit_of ?F (stamp e)) ` set es"
        using v1(2,4,5) that by (auto simp: session_ok_def R_def entry_unit_def)
    qed
    have good: "\<forall>(p, t) \<in> set fs. good_write ?F widths names log p t" if "set fs \<subseteq> set tabs" for fs
      using that exact units(1) unit_files_good [OF log fs(5)] by (fastforce simp: tabs_def F(2))
    define full where "full = fold do_write (map (\<lambda>(p, t). Write_Table p t) tabs @ [Write_Checkpoint ck]) d"
    have arch: "archived ?F names full e" if e: "e \<in> fills log" "unit_of ?F (stamp e) \<in> un_start_ns ` set R" for e
    proof -
      obtain u where u: "u \<in> set R" "unit_of ?F (stamp e) = un_start_ns u" using e(2) by auto
      have "trades_path ?F names e \<in> fst ` set tabs" "bars_path ?F names e \<in> fst ` set tabs"
        using unit_files_archive [OF exact [OF u(1)] fresh(3) e(1) u(2), of names] u(1) units(1) by (auto simp: tabs_def)
      then show ?thesis using archived_after [of _ tabs d] by (simp add: full_def archived_def)
    qed
    have mono: "archived ?F names full e" if "archived ?F names d e" for e unfolding full_def by (rule archived_writes [OF that])
    have full_exact: "files_exact ?F widths names log full"
      using write_tables_ok [OF d(1) good, of tabs] by (simp add: full_def)
    have "archived ?F names full e" if e: "e \<in> fills (take c log)" for e
    proof -
      have el: "e \<in> fills log" using e by (auto simp: fills_def dest: in_set_takeD)
      consider "e \<in> fills (take i log)" | "e \<in> fills es" "entry_unit ?a e < entry_unit ?a (last es)" using c(5) [OF e] by blast
      then show ?thesis
      proof cases
        case 1
        then show ?thesis using w(10) mono by blast
      next
        case 2
        then have "entry_unit ?a e \<in> D'" using s' by (auto simp: session_ok_def fills_def)
        then have "unit_of ?F (stamp e) \<in> D \<or> unit_of ?F (stamp e) \<in> un_start_ns ` set R" using v1(4) by (simp add: D'_def entry_unit_def)
        then show ?thesis using w(11) el mono [of e] arch [OF el] by blast
      qed
    qed
    then have "checkpoint_sound ?F names log full"
      using c(2-4) by (auto simp: checkpoint_sound_def checkpoint_at_def full_def ck_def read_checkpoint_text intro!: exI [of _ c])
    note full = full_exact this
    show ?thesis
    proof (cases crash)
      case None
      then show ?thesis using next_ok [OF full mono arch] at_end by (simp add: archiver_event_step_def step writes full_def)
    next
      case (Some k)
      define d' where "d' = fold do_write (take k (map (\<lambda>(p, t). Write_Table p t) tabs @ [Write_Checkpoint ck])) d"
      have "files_exact ?F widths names log d' \<and> checkpoint_sound ?F names log d'"
      proof (cases "k \<le> length tabs")
        case True
        then have eq: "d' = fold do_write (map (\<lambda>(p, t). Write_Table p t) (take k tabs)) d" by (simp add: d'_def take_map)
        have t: "files_exact ?F widths names log d'" "dk_checkpoint d' = dk_checkpoint d"
          using write_tables_ok [OF d(1) good [of "take k tabs"]] by (auto simp: eq dest: in_set_takeD)
        then show ?thesis using checkpoint_sound_later [OF d(2) t(2)] archived_writes by (simp add: eq)
      next
        case False
        then have "d' = full" by (simp add: d'_def full_def)
        then show ?thesis using full by simp
      qed
      moreover have "archiver_event_step fresh names log (Step n crash) (v, d) = (resume fresh names d', d')"
        by (simp add: archiver_event_step_def step writes Some d'_def Let_def)
      ultimately show ?thesis using resume [of d'] Some by simp
    qed
  qed
qed

subsection \<open>The properties\<close>

definition empty_disk :: disk where
  "empty_disk = \<lparr> dk_files = [], dk_checkpoint = None \<rparr>"

lemma process_run_ok:
  assumes "log_ok names log" "new_archive widths depth secs = Inr fresh" "list_all (\<lambda>w. 1 \<le> w) widths" "widths \<noteq> []"
    and "Stop \<notin> set es" "process_ok fresh names log w"
  shows "process_ok fresh names log (fold (archiver_event_step fresh names log) es w)"
  using assms(5,6)
proof (induction es arbitrary: w)
  case (Cons e es)
  obtain n crash where e: "e = Step n crash" using Cons.prems(1) by (cases e) auto
  obtain v d where w: "w = (v, d)" by (cases w)
  have "process_ok fresh names log (archiver_event_step fresh names log e w)"
    using step_ok [OF assms(1-4), of v d n crash] Cons.prems(2) by (simp add: e w)
  then show ?case using Cons by simp
qed simp

lemma start_ok:
  assumes "log_ok names log" "new_archive widths depth secs = Inr fresh" "list_all (\<lambda>w. 1 \<le> w) widths"
  shows "process_ok fresh names log (resume fresh names empty_disk, empty_disk)"
proof (rule resume_ok [OF assms(1)])
  note fs = fresh_session [OF assms(2,3)]
  show "session_ok {} fresh []" "ar_ready fresh = []" by (rule fs)+
  show "files_exact (ar_flush_ns fresh) (mk_bar_widths (ar_market fresh)) names log empty_disk"
    by (simp add: files_exact_def empty_disk_def)
  have "checkpoint_at log empty_disk 0" by (simp add: checkpoint_at_def read_checkpoint_def empty_disk_def)
  then show "checkpoint_sound (ar_flush_ns fresh) names log empty_disk"
    by (auto simp: checkpoint_sound_def unit_boundary_def fills_def intro!: exI [of _ 0])
qed

text \<open>C8. The archive survives crashes: on a stream whose time does not go backwards, whatever batches are read
  and wherever among its writes the process dies and restarts, every trades file holds exactly
  its symbol's prints of its unit and every bars file exactly the candles cut from them, at each
  width; every print at or before the checkpoint is in its two files; and no row was ever late.\<close>

theorem archive_survives_crashes:
  assumes "log_ok names log" "new_archive widths depth secs = Inr fresh" "list_all (\<lambda>w. 1 \<le> w) widths" "widths \<noteq> []"
    and "Stop \<notin> set es" "(v, d) = fold (archiver_event_step fresh names log) es (resume fresh names empty_disk, empty_disk)"
  shows "files_exact (secs * NS_PER_SECOND) widths names log d \<and> checkpoint_sound (secs * NS_PER_SECOND) names log d \<and>
    ar_late_rows (av_state v) = 0"
proof -
  note fs = fresh_session [OF assms(2,3)]
  have "process_ok fresh names log (v, d)"
    unfolding assms(6) by (rule process_run_ok [OF assms(1-5) start_ok [OF assms(1-3)]])
  then show ?thesis by (auto simp: process_ok_def Let_def fs(2,3) session_ok_def filed_def)
qed

text \<open>C30. The archive catches up: after any such history one undisturbed read to the end puts every print of
  a unit the stream has left behind into its files.\<close>

theorem archive_catches_up:
  assumes "log_ok names log" "new_archive widths depth secs = Inr fresh" "list_all (\<lambda>w. 1 \<le> w) widths" "widths \<noteq> []"
    and "Stop \<notin> set es" "length log \<le> n" "e \<in> fills log"
    and "unit_of (secs * NS_PER_SECOND) (stamp e) < unit_of (secs * NS_PER_SECOND) (stamp (last log))"
  shows "archived (secs * NS_PER_SECOND) names
    (snd (fold (archiver_event_step fresh names log) (es @ [Step n None]) (resume fresh names empty_disk, empty_disk))) e"
proof -
  note fs = fresh_session [OF assms(2,3)]
  obtain v d where w: "fold (archiver_event_step fresh names log) es (resume fresh names empty_disk, empty_disk) = (v, d)"
    by (cases "fold (archiver_event_step fresh names log) es (resume fresh names empty_disk, empty_disk)")
  have "process_ok fresh names log (v, d)"
    using process_run_ok [OF assms(1-5) start_ok [OF assms(1-3)]] by (simp add: w)
  then have ok: "process_ok fresh names log (archiver_event_step fresh names log (Step n None) (v, d))"
    and pos: "av_position (fst (archiver_event_step fresh names log (Step n None) (v, d))) = id_at ''0-0'' log (length log)"
    using step_ok [OF assms(1-4), of v d n None] assms(6) by simp_all
  obtain v' d' where s: "archiver_event_step fresh names log (Step n None) (v, d) = (v', d')"
    by (cases "archiver_event_step fresh names log (Step n None) (v, d)")
  obtain i j D where p: "i \<le> j" "j \<le> length log" "av_position v' = id_at ''0-0'' log j"
      "session_ok D (av_state v') (take (j - i) (drop i log))" "ar_ready (av_state v') = []" "ar_flush_ns (av_state v') = ar_flush_ns fresh"
      "\<forall>e \<in> fills (take i log). archived (ar_flush_ns fresh) names d' e"
      "\<forall>e \<in> fills log. unit_of (ar_flush_ns fresh) (stamp e) \<in> D \<longrightarrow> archived (ar_flush_ns fresh) names d' e"
    using ok unfolding s process_ok_def Let_def by auto
  have ids: "distinct (''0-0'' # map fst log)" using assms(1) by (simp add: log_ok_def)
  have "(''0-0'' # map fst log) ! k = id_at ''0-0'' log k" if "k \<le> length log" for k
    using that by (cases k) (simp_all add: id_at_def)
  then have "(''0-0'' # map fst log) ! j = (''0-0'' # map fst log) ! length log" using p(2,3) pos by (simp add: s)
  then have j: "j = length log" using ids p(2) nth_eq_iff_index_eq [of "''0-0'' # map fst log" j "length log"] by simp
  have split: "log = take i log @ take (j - i) (drop i log)" by (simp add: j)
  have "archived (ar_flush_ns fresh) names d' e"
  proof (cases "e \<in> fills (take i log)")
    case True
    then show ?thesis using p(7) by blast
  next
    case False
    then have el: "e \<in> fills (take (j - i) (drop i log))" using assms(7) split by (metis (mono_tags, lifting) UnE fills_def mem_Collect_eq set_append)
    then have ne: "drop i log \<noteq> []" by (auto simp: fills_def)
    then have "last (take (j - i) (drop i log)) = last log" by (simp add: j last_drop)
    then have "entry_unit (av_state v') e \<in> D"
      using p(4,5) el assms(8) unfolding session_ok_def by (auto simp: fills_def entry_unit_def p(6) fs(2))
    then show ?thesis using p(6,8) assms(7) by (simp add: entry_unit_def)
  qed
  then show ?thesis by (simp add: w s fs(2))
qed

subsection \<open>At concrete inputs\<close>

definition demo_fill :: "int \<Rightarrow> int \<Rightarrow> wire" where
  "demo_fill ts q = Fill_new ts 1 2 3 4 100 q 7 1"

definition demo_names :: "(int, string) dict" where
  "demo_names = [(7, ''QAA'')]"

text \<open>Two prints in the first two seconds, one in the next two.\<close>

definition demo_stream :: entries where
  "demo_stream = [(''1-0'', demo_fill 500000000 1), (''2-0'', demo_fill 1500000000 2), (''3-0'', demo_fill 2500000000 3)]"

definition demo_archive :: archive where
  "demo_archive = (case new_archive [1, 2] 10 2 of Inr a \<Rightarrow> a)"

lemma demo_archive: "new_archive [1, 2] 10 2 = Inr demo_archive"
  by (simp add: demo_archive_def new_archive_def)

lemma demo_log_ok: "log_ok demo_names demo_stream"
  by (auto simp: log_ok_def demo_stream_def stamp_def demo_fill_def Fill_new_def new_header_def mk_header_def fills_def inj_on_def)

theorem archive_survives_crashes_witness:
  "files_exact (2 * NS_PER_SECOND) [1, 2] demo_names demo_stream
    (snd (fold (archiver_event_step demo_archive demo_names demo_stream) [Step 3 (Some 1), Step 2 None, Step 2 None]
      (resume demo_archive demo_names empty_disk, empty_disk)))"
proof -
  let ?w = "fold (archiver_event_step demo_archive demo_names demo_stream) [Step 3 (Some 1), Step 2 None, Step 2 None]
      (resume demo_archive demo_names empty_disk, empty_disk)"
  have "(fst ?w, snd ?w) = ?w" by simp
  from archive_survives_crashes [OF demo_log_ok demo_archive _ _ _ this] show ?thesis by simp
qed

theorem archive_catches_up_witness:
  "archived (2 * NS_PER_SECOND) demo_names
    (snd (fold (archiver_event_step demo_archive demo_names demo_stream) ([Step 3 (Some 1)] @ [Step 3 None])
      (resume demo_archive demo_names empty_disk, empty_disk))) (''1-0'', demo_fill 500000000 1)"
proof (rule archive_catches_up [OF demo_log_ok demo_archive])
  show "(''1-0'', demo_fill 500000000 1) \<in> fills demo_stream" by (simp add: fills_def demo_stream_def demo_fill_def Fill_new_def)
  show "unit_of (2 * NS_PER_SECOND) (stamp (''1-0'', demo_fill 500000000 1)) < unit_of (2 * NS_PER_SECOND) (stamp (last demo_stream))"
    by (simp add: demo_stream_def unit_of_def stamp_def demo_fill_def Fill_new_def new_header_def mk_header_def NS_PER_SECOND_def)
qed (simp_all add: demo_stream_def)

text \<open>
  A clean stop in the middle of a unit: \<open>finish\<close> writes the unit's first part and moves the
  checkpoint past it; what a restart then reads of that unit is written as the same unit, over the
  same files, and the first print is in no file though the checkpoint claims it.
\<close>

definition stopped_units :: "(string \<times> wire) list \<Rightarrow> (int \<times> trade list) list \<times> string" where
  "stopped_units es =
     (case apply_batch es \<lparr> av_names = demo_names, av_state = demo_archive, av_position = ''0-0'' \<rparr> of
        Inl e \<Rightarrow> ([], [])
      | Inr v \<Rightarrow>
          (let (a, us) = drain_ready (finish (av_state v))
           in (map (\<lambda>u. (un_start_ns u, un_trades u)) us, case archive_checkpoint a of Inl e \<Rightarrow> [] | Inr s \<Rightarrow> s)))"

lemma clean_stop_loses_prints:
  "stopped_units [(''1-0'', demo_fill 500000000 1)] = ([(0, [print_row (''1-0'', demo_fill 500000000 1)])], ''1-0'')"
  "stopped_units [(''2-0'', demo_fill 1500000000 2)] = ([(0, [print_row (''2-0'', demo_fill 1500000000 2)])], ''2-0'')"
  by code_simp+

end
