(* ===== verification/Float64.thy ===== *)
theory Float64
  imports Prelude Complex_Main
begin

section \<open>Python's floats, as the rationals they stand for\<close>

text \<open>
  The backtester keeps money in integers and reports ratios, which are IEEE doubles. A double
  is a rational, so a float of the code is a \<open>rat\<close> here and every operation is the exact one
  followed by \<open>fl\<close>, rounding to 53 significant bits, ties to even: \<open>a / b\<close> on two \<open>int\<close>s is
  \<open>fl (a / b)\<close> (CPython divides integers with one rounding), \<open>round(x, 6)\<close> rounds the exact
  decimal and then to the nearest double. The exponent range is left unbounded: neither
  overflow nor subnormals are modelled.

  The lemmas used elsewhere: \<open>fl\<close> is monotone, odd, exact on integers up to \<open>2 ^ 53\<close>, and
  off by at most one part in \<open>2 ^ 53\<close>.
\<close>

subsection \<open>Rounding to an integer\<close>

definition round_even :: "rat \<Rightarrow> int" where
  "round_even x =
     (let f = \<lfloor>x\<rfloor>; r = x - of_int f
      in if r < 1 / 2 then f else if 1 / 2 < r then f + 1 else if even f then f else f + 1)"

lemma round_even_int [simp]: "round_even (of_int n) = n"
  by (simp add: round_even_def)

lemma round_even_cases: "round_even x = \<lfloor>x\<rfloor> \<or> round_even x = \<lfloor>x\<rfloor> + 1"
  by (auto simp: round_even_def Let_def)

lemma round_even_mono:
  assumes "x \<le> y"
  shows "round_even x \<le> round_even y"
proof (cases "\<lfloor>x\<rfloor> = \<lfloor>y\<rfloor>")
  case True
  then show ?thesis using assms by (auto simp: round_even_def Let_def)
next
  case False
  then have "\<lfloor>x\<rfloor> + 1 \<le> \<lfloor>y\<rfloor>" using floor_mono [OF assms] by linarith
  then show ?thesis using round_even_cases [of x] round_even_cases [of y] by linarith
qed

lemma round_even_near: "\<bar>of_int (round_even x) - x\<bar> \<le> 1 / 2"
proof -
  have "of_int \<lfloor>x\<rfloor> \<le> x" "x < of_int \<lfloor>x\<rfloor> + 1" by linarith+
  then show ?thesis by (auto simp: round_even_def Let_def abs_le_iff)
qed

subsection \<open>The binade of a number\<close>

fun bits :: "int \<Rightarrow> nat" where
  "bits n = (if n \<le> 0 then 0 else Suc (bits (n div 2)))"

declare bits.simps [simp del]

lemma bits_bounds: "0 < n \<Longrightarrow> 2 ^ bits n \<le> 2 * n \<and> n < 2 ^ bits n"
proof (induction n rule: bits.induct)
  case (1 n)
  show ?case
  proof (cases "n div 2 = 0")
    case True
    then have "n = 1" using 1 by linarith
    then show ?thesis by (simp add: bits.simps)
  next
    case False
    then have "0 < n div 2" using 1 by linarith
    then have "2 ^ bits (n div 2) \<le> 2 * (n div 2)" "n div 2 < 2 ^ bits (n div 2)" using 1 by auto
    moreover have "bits n = Suc (bits (n div 2))" using 1 by (subst bits.simps) simp
    ultimately show ?thesis by simp linarith
  qed
qed

definition log2_floor :: "rat \<Rightarrow> int" where
  "log2_floor x =
     (let (n, d) = quotient_of x; k = int (bits n) - int (bits d)
      in if 2 powi k \<le> x then k else k - 1)"

lemma log2_floor_bounds:
  assumes "0 < x"
  shows "2 powi log2_floor x \<le> x" "x < 2 powi (log2_floor x + 1)"
proof -
  obtain n d where q: "quotient_of x = (n, d)" by fastforce
  have d: "0 < d" using q by (rule quotient_of_denom_pos)
  have x: "x = of_int n / of_int d" using q by (rule quotient_of_div)
  have n: "0 < n" using assms d by (simp add: x zero_less_divide_iff)
  define k where "k = int (bits n) - int (bits d)"
  have eq: "2 powi k = (2 ^ bits n / 2 ^ bits d :: rat)"
    by (simp add: k_def power_int_diff)
  have N: "of_int (2 ^ bits n) \<le> (of_int (2 * n) :: rat)" "(of_int n :: rat) < of_int (2 ^ bits n)"
    using bits_bounds [OF n] by (simp_all only: of_int_le_iff of_int_less_iff)
  have D: "of_int (2 ^ bits d) \<le> (of_int (2 * d) :: rat)" "(of_int d :: rat) < of_int (2 ^ bits d)"
    using bits_bounds [OF d] by (simp_all only: of_int_le_iff of_int_less_iff)
  have pos: "0 < (of_int d :: rat)" "0 < (of_int n :: rat)" using d n by simp_all
  have "2 powi k \<le> 2 * x"
  proof -
    have "2 ^ bits n * of_int d \<le> (2 * of_int n) * (2 ^ bits d :: rat)"
      using N(1) D(2) pos by (intro mult_mono) auto
    then show ?thesis using pos by (simp add: eq x divide_simps)
  qed
  moreover have "x < 2 * 2 powi k"
  proof -
    have "of_int n * 2 ^ bits d < (2 ^ bits n :: rat) * (2 * of_int d)"
      using N(2) D(1) pos by (intro mult_less_le_imp_less) auto
    then show ?thesis using pos by (simp add: eq x divide_simps mult_ac)
  qed
  moreover have "2 powi (k - 1) = (2 powi k / 2 :: rat)" "2 powi (k + 1) = (2 * 2 powi k :: rat)"
    by (simp_all add: power_int_diff power_int_add)
  moreover have "log2_floor x = (if 2 powi k \<le> x then k else k - 1)"
    by (simp add: log2_floor_def q k_def)
  ultimately show "2 powi log2_floor x \<le> x" "x < 2 powi (log2_floor x + 1)" by auto
qed

subsection \<open>Rounding to 53 significant bits\<close>

definition ulp :: "rat \<Rightarrow> rat" where
  "ulp x = 2 powi (log2_floor x - 52)"

definition fl_pos :: "rat \<Rightarrow> rat" where
  "fl_pos x = of_int (round_even (x / ulp x)) * ulp x"

definition fl :: "rat \<Rightarrow> rat" where
  "fl x = (if x = 0 then 0 else if x < 0 then - fl_pos (- x) else fl_pos x)"

lemma ulp_pos [simp]: "0 < ulp x"
  by (simp add: ulp_def)

lemma ulp_bounds:
  assumes "0 < x"
  shows "2 ^ 52 \<le> x / ulp x" "x / ulp x < 2 ^ 53"
proof -
  have 1: "ulp x * 2 ^ 52 = 2 powi log2_floor x"
    by (simp add: ulp_def power_int_diff)
  have 2: "ulp x * 2 ^ 53 = 2 powi (log2_floor x + 1)"
    by (simp add: ulp_def power_int_diff power_int_add)
  show "2 ^ 52 \<le> x / ulp x"
    using log2_floor_bounds(1) [OF assms] by (simp add: pos_le_divide_eq 1 [symmetric] mult.commute)
  show "x / ulp x < 2 ^ 53"
    using log2_floor_bounds(2) [OF assms] by (simp add: pos_divide_less_eq 2 [symmetric] mult.commute)
qed

lemma mantissa_bounds:
  assumes "0 < x"
  shows "2 ^ 52 \<le> round_even (x / ulp x)" "round_even (x / ulp x) \<le> 2 ^ 53"
proof -
  have "round_even (of_int (2 ^ 52)) \<le> round_even (x / ulp x)"
    using ulp_bounds(1) [OF assms] by (intro round_even_mono) simp
  then show "2 ^ 52 \<le> round_even (x / ulp x)" by (simp only: round_even_int)
  have "round_even (x / ulp x) \<le> round_even (of_int (2 ^ 53))"
    using ulp_bounds(2) [OF assms] by (intro round_even_mono) simp
  then show "round_even (x / ulp x) \<le> 2 ^ 53" by (simp only: round_even_int)
qed

lemma fl_pos_pos: "0 < x \<Longrightarrow> 0 < fl_pos x"
proof -
  assume "0 < x"
  then have "0 < round_even (x / ulp x)" using mantissa_bounds(1) [of x] by simp
  then show ?thesis by (simp add: fl_pos_def)
qed

lemma log2_floor_mono:
  assumes "0 < x" "x \<le> y"
  shows "log2_floor x \<le> log2_floor y"
proof (rule ccontr)
  assume "\<not> log2_floor x \<le> log2_floor y"
  then have "log2_floor y + 1 \<le> log2_floor x" by simp
  then have "(2 :: rat) powi (log2_floor y + 1) \<le> 2 powi log2_floor x"
    by (rule power_int_increasing) simp
  then show False
    using log2_floor_bounds(1) [of x] log2_floor_bounds(2) [of y] assms by linarith
qed

lemma fl_pos_mono:
  assumes "0 < x" "x \<le> y"
  shows "fl_pos x \<le> fl_pos y"
proof (cases "log2_floor x = log2_floor y")
  case True
  then have "ulp x = ulp y" by (simp add: ulp_def)
  then show ?thesis
    using assms(2) round_even_mono [of "x / ulp x" "y / ulp x"]
    by (simp add: fl_pos_def divide_right_mono less_imp_le [OF ulp_pos])
next
  case False
  then have le: "log2_floor x + 1 \<le> log2_floor y" using log2_floor_mono [OF assms] by simp
  have "fl_pos x \<le> 2 ^ 53 * ulp x"
  proof -
    have "of_int (round_even (x / ulp x)) \<le> (of_int (2 ^ 53) :: rat)"
      using mantissa_bounds(2) [OF assms(1)] by (simp only: of_int_le_iff)
    then show ?thesis by (simp add: fl_pos_def)
  qed
  also have "2 ^ 53 * ulp x = 2 powi (log2_floor x + 1)"
    by (simp add: ulp_def power_int_diff power_int_add)
  also have "\<dots> \<le> 2 powi log2_floor y" using le by (rule power_int_increasing) simp
  also have "\<dots> = 2 ^ 52 * ulp y" by (simp add: ulp_def power_int_diff)
  also have "\<dots> \<le> fl_pos y"
  proof -
    have "of_int (2 ^ 52) \<le> (of_int (round_even (y / ulp y)) :: rat)"
      using mantissa_bounds(1) [of y] assms by (simp only: of_int_le_iff)
    then show ?thesis by (simp add: fl_pos_def)
  qed
  finally show ?thesis .
qed

lemma fl_0 [simp]: "fl 0 = 0"
  by (simp add: fl_def)

lemma fl_minus: "fl (- x) = - fl x"
  by (auto simp: fl_def)

lemma fl_mono: "x \<le> y \<Longrightarrow> fl x \<le> fl y"
  using fl_pos_mono [of x y] fl_pos_mono [of "- y" "- x"] fl_pos_pos [of y] fl_pos_pos [of "- x"]
  by (auto simp: fl_def)

lemma fl_less_imp: "fl x < fl y \<Longrightarrow> x < y"
  using fl_mono [of y x] by fastforce

lemma fl_nonneg: "0 \<le> x \<Longrightarrow> 0 \<le> fl x"
  using fl_mono [of 0 x] by simp

lemma fl_near: "\<bar>fl x - x\<bar> \<le> \<bar>x\<bar> / 2 ^ 53"
proof -
  have pos: "\<bar>fl_pos y - y\<bar> \<le> y / 2 ^ 53" if y: "0 < y" for y
  proof -
    have "fl_pos y - y = (of_int (round_even (y / ulp y)) - y / ulp y) * ulp y"
      by (simp add: fl_pos_def left_diff_distrib less_imp_neq [OF ulp_pos, symmetric])
    then have "\<bar>fl_pos y - y\<bar> = \<bar>of_int (round_even (y / ulp y)) - y / ulp y\<bar> * ulp y"
      by (simp add: abs_mult less_imp_le [OF ulp_pos])
    also have "\<dots> \<le> 1 / 2 * ulp y" using round_even_near by (intro mult_right_mono) (simp_all add: less_imp_le)
    also have "\<dots> \<le> y / 2 ^ 53"
      using ulp_bounds(1) [OF y] by (simp add: pos_le_divide_eq)
    finally show ?thesis .
  qed
  show ?thesis
    using pos [of x] pos [of "- x"] by (cases "x = 0"; cases "x < 0") (auto simp: fl_def abs_minus_commute)
qed

text \<open>Two numbers further apart than both roundings can move them stay in order.\<close>

lemma fl_separated:
  assumes "0 \<le> x" "x < y" "x + y < (y - x) * 2 ^ 53"
  shows "fl x < fl y"
proof -
  have "fl x \<le> x + x / 2 ^ 53" "y - y / 2 ^ 53 \<le> fl y"
    using fl_near [of x] fl_near [of y] assms(1,2) by linarith+
  moreover have "x / 2 ^ 53 + y / 2 ^ 53 < y - x"
    using assms(3) by (simp add: add_divide_distrib [symmetric] pos_divide_less_eq)
  ultimately show ?thesis by linarith
qed

lemma fl_int:
  assumes "\<bar>n\<bar> < 2 ^ 53"
  shows "fl (of_int n) = of_int n"
proof -
  have pos: "fl_pos (of_int m) = of_int m" if m: "0 < m" "m < 2 ^ 53" for m
  proof -
    define L where "L = log2_floor (of_int m)"
    have m': "0 < (of_int m :: rat)" using m by simp
    have "(2 :: rat) powi L \<le> of_int m" using log2_floor_bounds(1) [OF m'] by (simp add: L_def)
    moreover have "of_int m < (2 :: rat) powi 53"
    proof -
      have "of_int m < (of_int (2 ^ 53) :: rat)" using m(2) by (simp only: of_int_less_iff)
      then show ?thesis by simp
    qed
    ultimately have "(2 :: rat) powi L < 2 powi 53" by linarith
    then have L: "L < 53" using power_int_increasing [of 53 L "2 :: rat"] by fastforce
    have eq: "of_int m / ulp (of_int m) = of_int (m * 2 ^ nat (52 - L))"
    proof -
      have "of_int m / ulp (of_int m) = of_int m * 2 powi (52 - L)"
        by (simp add: ulp_def L_def [symmetric] power_int_diff)
      also have "2 powi (52 - L) = (2 ^ nat (52 - L) :: rat)" using L by (simp add: power_int_def)
      finally show ?thesis by simp
    qed
    have "round_even (of_int m / ulp (of_int m)) = m * 2 ^ nat (52 - L)" unfolding eq by (rule round_even_int)
    then have "fl_pos (of_int m) = of_int m / ulp (of_int m) * ulp (of_int m)"
      unfolding fl_pos_def eq by simp
    then show ?thesis by (simp add: less_imp_neq [OF ulp_pos, symmetric])
  qed
  show ?thesis
    using pos [of n] pos [of "- n"] assms by (cases "n = 0"; cases "n < 0") (auto simp: fl_def)
qed

lemma fl_1 [simp]: "fl 1 = 1"
  using fl_int [of 1] by simp

lemma fl_100 [simp]: "fl 100 = 100"
  using fl_int [of 100] by simp

subsection \<open>Decimal rounding and the statistics module\<close>

text \<open>\<open>round(value, digits)\<close>, \<open>statistics.fmean\<close> (an exact sum rounded once, then a
  division) and \<open>statistics.pstdev\<close> (an exact variance, and the square root of a fraction the
  module computes on integers).\<close>

definition round_digits :: "rat \<Rightarrow> nat \<Rightarrow> rat" where
  "round_digits x n = fl (of_int (round_even (x * 10 ^ n)) / 10 ^ n)"

definition fmean :: "rat list \<Rightarrow> rat" where
  "fmean xs = fl (fl (sum_list xs) / of_nat (length xs))"

fun isqrt :: "int \<Rightarrow> int" where
  "isqrt n =
     (if n \<le> 0 then 0
      else let s = 2 * isqrt (n div 4) in if (s + 1) * (s + 1) \<le> n then s + 1 else s)"

declare isqrt.simps [simp del]

definition isqrt_odd :: "int \<Rightarrow> int \<Rightarrow> int" where
  "isqrt_odd n m = (let a = isqrt (n div m) in if a * a * m = n \<or> odd a then a else a + 1)"

definition sqrt_frac :: "rat \<Rightarrow> rat" where
  "sqrt_frac v =
     (let (n, m) = quotient_of v; q = (int (bits n) - int (bits m) - 109) div 2
      in if 0 \<le> q then fl (of_int (isqrt_odd n (m * 4 ^ nat q) * 2 ^ nat q))
         else fl (of_int (isqrt_odd (n * 4 ^ nat (- q)) m) / 2 ^ nat (- q)))"

definition variance :: "rat list \<Rightarrow> rat" where
  "variance xs =
     (let n = of_nat (length xs) in (sum_list (map (\<lambda>x. x * x) xs) - sum_list xs * sum_list xs / n) / n)"

definition pstdev :: "rat list \<Rightarrow> rat" where
  "pstdev xs = sqrt_frac (variance xs)"

lemma round_digits_mono: "x \<le> y \<Longrightarrow> round_digits x n \<le> round_digits y n"
  unfolding round_digits_def
  by (intro fl_mono divide_right_mono of_int_le_iff [THEN iffD2] round_even_mono mult_right_mono) simp_all

lemma round_digits_0 [simp]: "round_digits 0 n = 0"
  using round_even_int [of 0] by (simp add: round_digits_def)

lemma round_digits_int:
  assumes "\<bar>k\<bar> < 2 ^ 53"
  shows "round_digits (of_int k) n = of_int k"
proof -
  have "of_int k * 10 ^ n = (of_int (k * 10 ^ n) :: rat)" by simp
  then have "round_even (of_int k * 10 ^ n) = k * 10 ^ n" by (simp only: round_even_int)
  then show ?thesis by (simp add: round_digits_def fl_int [OF assms])
qed

lemma isqrt_bounds: "0 \<le> n \<Longrightarrow> 0 \<le> isqrt n \<and> isqrt n * isqrt n \<le> n \<and> n < (isqrt n + 1) * (isqrt n + 1)"
proof (induction n rule: isqrt.induct)
  case (1 n)
  show ?case
  proof (cases "n = 0")
    case True
    then show ?thesis by (simp add: isqrt.simps)
  next
    case False
    define a where "a = isqrt (n div 4)"
    have a: "0 \<le> a" "a * a \<le> n div 4" "n div 4 < (a + 1) * (a + 1)"
      using 1 False by (simp_all add: a_def)
    have "4 * (a * a) \<le> n" "n < 4 * ((a + 1) * (a + 1))" using a by linarith+
    moreover have "isqrt n = (if (2 * a + 1) * (2 * a + 1) \<le> n then 2 * a + 1 else 2 * a)"
      using False 1 by (subst isqrt.simps) (simp add: a_def)
    ultimately show ?thesis using a(1) by (auto simp: algebra_simps)
  qed
qed

lemma bits_0 [simp]: "bits 0 = 0"
  by (simp add: bits.simps)

lemma sqrt_frac_0 [simp]: "sqrt_frac 0 = 0"
proof -
  have "isqrt_odd 0 m = 0" for m by (simp add: isqrt_odd_def isqrt.simps)
  then show ?thesis by (simp add: sqrt_frac_def)
qed

lemma variance_const: "xs \<noteq> [] \<Longrightarrow> set xs \<subseteq> {c} \<Longrightarrow> variance xs = 0"
proof -
  assume "xs \<noteq> []" "set xs \<subseteq> {c}"
  then have "xs = replicate (length xs) c" by (intro replicate_eqI) auto
  then obtain k where "xs = replicate k c" "k \<noteq> 0" using \<open>xs \<noteq> []\<close> by (metis length_0_conv)
  then show ?thesis by (simp add: variance_def sum_list_replicate)
qed

end
