(* ===== verification/Fair_Value.thy ===== *)
theory Fair_Value
  imports Float64
begin

section \<open>Fair values: services/bots/fairvalue.py\<close>

text \<open>
  Where a market maker's price comes from: the pinned price history replayed against simulated
  time, or a seeded random walk when there is no history for the symbol.

  The Parquet file is read by a library: a data file is \<open>None\<close> when it is absent and otherwise
  \<open>Some (digest, rows)\<close>, its SHA-256 and the rows of the sorted table \<open>(symbol, close)\<close>. Clock
  readings and random draws are arguments, in the order the code takes them.
\<close>

type_synonym history = "(string, int list) dict"
type_synonym data_file = "(string \<times> (string \<times> int) list) option"

definition append_price :: "string \<times> int \<Rightarrow> history \<Rightarrow> history" where
  "append_price row series =
     (let (symbol, price) = row
      in dset symbol ((case dget series symbol of None \<Rightarrow> [] | Some xs \<Rightarrow> xs) @ [price]) series)"

definition load_price_history :: "(string \<times> int) list \<Rightarrow> history" where
  "load_price_history rows = fold append_price rows []"

definition verify_checksum :: "string \<Rightarrow> string \<Rightarrow> exn + unit" where
  "verify_checksum actual expected = (if expected \<noteq> actual then Inl ValueError else Inr ())"

subsection \<open>The seeded walk\<close>

record synthetic =
  sy_value :: int
  sy_volatility :: int

definition synthetic_init :: "int \<Rightarrow> int \<Rightarrow> exn + synthetic" where
  "synthetic_init start_ticks volatility_ticks =
     (if start_ticks \<le> 0 then Inl ValueError
      else Inr \<lparr> sy_value = start_ticks, sy_volatility = volatility_ticks \<rparr>)"

text \<open>\<open>draw\<close> is what \<open>gauss(0.0, volatility)\<close> returned.\<close>

definition synthetic_next :: "rat \<Rightarrow> synthetic \<Rightarrow> int \<times> synthetic" where
  "synthetic_next draw s =
     (let step = round_even draw; v = max 1 (sy_value s + step)
      in (v, s\<lparr>sy_value := v\<rparr>))"

subsection \<open>The replayed history\<close>

record replay_clock =
  ratio_ns :: int
  start_ns :: int

definition clock_init :: "int \<Rightarrow> int \<Rightarrow> exn + replay_clock" where
  "clock_init real_seconds now =
     (if real_seconds \<le> 0 then Inl ValueError
      else Inr \<lparr> ratio_ns = real_seconds * 1000000000, start_ns = now \<rparr>)"

definition simulated_minutes :: "replay_clock \<Rightarrow> int \<Rightarrow> int" where
  "simulated_minutes c now = max 0 ((now - start_ns c) div ratio_ns c)"

record replay =
  rp_prices :: "int list"
  rp_clock :: replay_clock
  rp_offset :: int

definition replay_init :: "int list \<Rightarrow> replay_clock \<Rightarrow> int \<Rightarrow> exn + replay" where
  "replay_init prices clock start_offset =
     (if prices = [] then Inl ValueError
      else if list_ex (\<lambda>p. p \<le> 0) prices then Inl ValueError
      else Inr \<lparr> rp_prices = prices, rp_clock = clock, rp_offset = start_offset mod int (length prices) \<rparr>)"

definition replay_value :: "replay \<Rightarrow> int \<Rightarrow> int" where
  "replay_value r now =
     (let index = (rp_offset r + simulated_minutes (rp_clock r) now) mod int (length (rp_prices r))
      in rp_prices r ! nat index)"

subsection \<open>Choosing between them\<close>

datatype fair_value = Replayed replay | Walk synthetic

text \<open>\<open>next_ticks\<close> reads the clock or the generator, so it is given both.\<close>

definition next_ticks :: "int \<Rightarrow> rat \<Rightarrow> fair_value \<Rightarrow> int \<times> fair_value" where
  "next_ticks now draw f =
     (case f of Replayed r \<Rightarrow> (replay_value r now, f)
      | Walk s \<Rightarrow> (let (v, s') = synthetic_next draw s in (v, Walk s')))"

record fair_value_settings =
  fs_real_seconds :: int
  fs_start_ticks :: int
  fs_volatility_ticks :: int

text \<open>The history is the argument, or the file's when none is given and the file is there.\<close>

definition history_for :: "history option \<Rightarrow> data_file option \<Rightarrow> string \<Rightarrow> exn + history option" where
  "history_for hist path expected =
     (case (hist, path) of
        (None, Some (Some (digest, rows))) \<Rightarrow>
          sbind (if expected \<noteq> [] then verify_checksum digest expected else Inr ())
            (\<lambda>_. Inr (Some (load_price_history rows)))
      | _ \<Rightarrow> Inr hist)"

definition prices_of :: "history option \<Rightarrow> string \<Rightarrow> int list" where
  "prices_of hist name =
     (case hist of None \<Rightarrow> [] | Some h \<Rightarrow> (case dget h name of None \<Rightarrow> [] | Some xs \<Rightarrow> xs))"

definition build_fair_value ::
  "fair_value_settings \<Rightarrow> string \<Rightarrow> data_file option \<Rightarrow> string \<Rightarrow> history option \<Rightarrow> replay_clock option
   \<Rightarrow> int \<Rightarrow> int \<Rightarrow> exn + fair_value" where
  "build_fair_value settings name path expected hist clock now offset =
     sbind (history_for hist path expected) (\<lambda>h.
       let prices = prices_of h name
       in if prices \<noteq> [] then
            sbind (case clock of Some c \<Rightarrow> Inr c | None \<Rightarrow> clock_init (fs_real_seconds settings) now) (\<lambda>c.
            sbind (replay_init prices c offset) (\<lambda>r. Inr (Replayed r)))
          else
            sbind (synthetic_init (fs_start_ticks settings) (fs_volatility_ticks settings)) (\<lambda>s. Inr (Walk s)))"

definition load_replay_history :: "data_file \<Rightarrow> string \<Rightarrow> exn + history option" where
  "load_replay_history file sha =
     (case file of None \<Rightarrow> Inr None
      | Some (digest, rows) \<Rightarrow>
          sbind (verify_checksum digest sha) (\<lambda>_. Inr (Some (load_price_history rows))))"

subsection \<open>What they promise\<close>

lemma dget_fold_append_price:
  "dget (fold append_price rows d) s =
     (let ps = map snd (filter (\<lambda>r. fst r = s) rows)
      in case dget d s of None \<Rightarrow> (if ps = [] then None else Some ps) | Some xs \<Rightarrow> Some (xs @ ps))"
proof (induction rows arbitrary: d)
  case (Cons r rows)
  obtain a b where r: "r = (a, b)" by fastforce
  show ?case
    using Cons [of "append_price r d"] by (cases "s = a") (auto simp: r append_price_def Let_def split: option.split)
qed (simp split: option.split)

text \<open>Each symbol's series is its column of the table, in the table's order.\<close>

lemma dget_load_price_history:
  "dget (load_price_history rows) s =
     (let ps = map snd (filter (\<lambda>r. fst r = s) rows) in if ps = [] then None else Some ps)"
  by (simp add: load_price_history_def dget_fold_append_price Let_def)

lemma prices_of_history:
  "prices_of (Some (load_price_history rows)) s = map snd (filter (\<lambda>r. fst r = s) rows)"
  by (simp add: prices_of_def dget_load_price_history Let_def)

definition clock_ok :: "replay_clock \<Rightarrow> bool" where
  "clock_ok c \<longleftrightarrow> 0 < ratio_ns c"

fun fair_ok :: "fair_value \<Rightarrow> bool" where
  "fair_ok (Replayed r) \<longleftrightarrow> clock_ok (rp_clock r) \<and> rp_prices r \<noteq> [] \<and> list_all (\<lambda>p. 0 < p) (rp_prices r)"
| "fair_ok (Walk s) \<longleftrightarrow> 0 < sy_value s"

lemma replay_value_in:
  assumes "rp_prices r \<noteq> []"
  shows "replay_value r now \<in> set (rp_prices r)"
proof -
  have "0 < int (length (rp_prices r))" using assms by simp
  then have "nat ((rp_offset r + simulated_minutes (rp_clock r) now) mod int (length (rp_prices r))) < length (rp_prices r)"
    by (simp add: nat_less_iff)
  then show ?thesis by (simp add: replay_value_def Let_def)
qed

lemma next_ticks_ok:
  assumes "fair_ok f" "next_ticks now draw f = (v, f')"
  shows "fair_ok f' \<and> 0 < v"
  using assms replay_value_in
  by (cases f) (auto simp: next_ticks_def synthetic_next_def Let_def list_all_iff)

fun ticks_run :: "(int \<times> rat) list \<Rightarrow> fair_value \<Rightarrow> int list" where
  "ticks_run [] f = []"
| "ticks_run ((now, draw) # xs) f = (let (v, f') = next_ticks now draw f in v # ticks_run xs f')"

lemma ticks_run_positive: "fair_ok f \<Longrightarrow> list_all (\<lambda>v. 0 < v) (ticks_run xs f)"
proof (induction xs f rule: ticks_run.induct)
  case (2 now draw xs f)
  obtain v f' where n: "next_ticks now draw f = (v, f')" by fastforce
  show ?case using 2 next_ticks_ok [OF 2(2) n] n by simp
qed simp

lemma build_fair_value_ok:
  assumes "build_fair_value st name path expected hist clock now offset = Inr f"
    and "\<And>c. clock = Some c \<Longrightarrow> clock_ok c"
  shows "fair_ok f"
  using assms
  by (auto simp: build_fair_value_def sbind_def Let_def replay_init_def synthetic_init_def clock_init_def
      clock_ok_def list_all_iff list_ex_iff not_le split: sum.splits if_splits option.splits)

end
