(* ===== verification/Backtest.thy ===== *)
theory Backtest
  imports Fair_Value Ledger Settings
begin

section \<open>The backtester: services/backtest\<close>

text \<open>
  Bars cut from the pinned minute closes (bars.py), the strategy interface and the one built-in
  strategy (strategy.py), the run loop with its portfolio (runner.py), the metrics (metrics.py),
  the run manifest (manifest.py) and the gateway's endpoint (routes_backtests.py).

  A strategy is a function \<open>on_bar\<close> of its own state, one bar and the portfolio view, giving its
  next state and the intents; that is the whole of what the \<open>Strategy\<close> protocol lets it see.
  Money is \<open>int\<close>, ratios are floats as \<open>Float64\<close> models them.
\<close>

subsection \<open>Bars\<close>

definition MINUTES_PER_SIMULATED_DAY :: int where "MINUTES_PER_SIMULATED_DAY = 1440"

definition day_range_to_minutes :: "int \<Rightarrow> int \<Rightarrow> exn + (int \<times> int)" where
  "day_range_to_minutes first_day last_day =
     (if first_day < 1 \<or> last_day < first_day then Inl ValueError
      else Inr ((first_day - 1) * MINUTES_PER_SIMULATED_DAY, last_day * MINUTES_PER_SIMULATED_DAY))"

record bt_bar =
  bt_index :: int
  bt_first_minute :: int
  bt_open_ticks :: int
  bt_high_ticks :: int
  bt_low_ticks :: int
  bt_close_ticks :: int

text \<open>\<open>range(0, stop, step)\<close> for a positive step, \<open>xs[i:j]\<close> for \<open>0 \<le> i \<le> j\<close>, and \<open>max\<close> and \<open>min\<close> of a
  nonempty sequence.\<close>

definition py_range :: "int \<Rightarrow> int \<Rightarrow> int list" where
  "py_range stop step =
     (if stop \<le> 0 then [] else map (\<lambda>i. int i * step) [0..<nat ((stop - 1) div step + 1)])"

definition py_slice :: "'a list \<Rightarrow> int \<Rightarrow> int \<Rightarrow> 'a list" where
  "py_slice xs i j = take (nat (j - i)) (drop (nat i) xs)"

definition py_max :: "int list \<Rightarrow> int" where "py_max xs = fold max (tl xs) (hd xs)"
definition py_min :: "int list \<Rightarrow> int" where "py_min xs = fold min (tl xs) (hd xs)"

definition bar_of :: "int \<Rightarrow> int \<Rightarrow> int list \<Rightarrow> bt_bar" where
  "bar_of index start bucket =
     \<lparr> bt_index = index, bt_first_minute = start, bt_open_ticks = hd bucket,
       bt_high_ticks = py_max bucket, bt_low_ticks = py_min bucket, bt_close_ticks = last bucket \<rparr>"

definition build_bars :: "int list \<Rightarrow> int \<Rightarrow> exn + bt_bar list" where
  "build_bars closes bar_minutes =
     (if bar_minutes < 1 then Inl ValueError
      else Inr (map (\<lambda>(index, start). bar_of (int index) start (py_slice closes start (start + bar_minutes)))
                 (enumerate 0 (py_range (int (length closes) - bar_minutes + 1) bar_minutes))))"

text \<open>The pinned file, read once and cached: \<open>(digest, rows)\<close> as in \<open>Fair_Value\<close>.\<close>

definition cached_history :: "string \<times> (string \<times> int) list \<Rightarrow> string \<Rightarrow> exn + history" where
  "cached_history file expected =
     sbind (if expected \<noteq> [] then verify_checksum (fst file) expected else Inr ())
       (\<lambda>_. Inr (load_price_history (snd file)))"

definition load_bars ::
  "string \<times> (string \<times> int) list \<Rightarrow> string \<Rightarrow> string \<Rightarrow> int \<Rightarrow> int \<Rightarrow> int option \<Rightarrow> exn + bt_bar list" where
  "load_bars file expected symbol bar_minutes first_minute last_minute =
     sbind (cached_history file expected) (\<lambda>hist.
       case dget hist symbol of None \<Rightarrow> Inl KeyError
       | Some closes \<Rightarrow>
           let end = (case last_minute of None \<Rightarrow> int (length closes) | Some m \<Rightarrow> min m (int (length closes)))
           in if first_minute < 0 \<or> end \<le> first_minute then Inl ValueError
              else build_bars (py_slice closes first_minute end) bar_minutes)"

subsection \<open>Strategies\<close>

record portfolio_view =
  pv_cash_ticks :: int
  pv_position :: int
  pv_bar_index :: int

record order_intent =
  oi_side :: int
  oi_qty :: int

type_synonym 's on_bar = "'s \<Rightarrow> bt_bar \<Rightarrow> portfolio_view \<Rightarrow> 's \<times> order_intent list"

record sma =
  sma_fast :: int
  sma_slow :: int
  sma_qty :: int
  sma_closes :: "int list"

definition sma_init :: "int \<Rightarrow> int \<Rightarrow> int \<Rightarrow> exn + sma" where
  "sma_init fast slow q =
     (if fast < 1 \<or> slow < 1 then Inl ValueError
      else if slow \<le> fast then Inl ValueError
      else if q < 1 then Inl ValueError
      else Inr \<lparr> sma_fast = fast, sma_slow = slow, sma_qty = q, sma_closes = [] \<rparr>)"

definition sma_parameters :: "sma \<Rightarrow> (string, int) dict" where
  "sma_parameters s = [(''fast'', sma_fast s), (''slow'', sma_slow s), (''qty'', sma_qty s)]"

text \<open>\<open>append\<close> on a \<open>deque(maxlen=n)\<close>, and \<open>xs[-n:]\<close> for a positive \<open>n\<close>.\<close>

definition push_bounded :: "int \<Rightarrow> 'a \<Rightarrow> 'a list \<Rightarrow> 'a list" where
  "push_bounded n x xs = (let ys = xs @ [x] in drop (length ys - nat n) ys)"

definition last_n :: "int \<Rightarrow> 'a list \<Rightarrow> 'a list" where
  "last_n n xs = drop (length xs - nat n) xs"

definition mean :: "int list \<Rightarrow> int \<Rightarrow> rat" where
  "mean xs n = fl (of_int (sum_list xs) / of_int n)"

definition sma_on_bar :: "sma on_bar" where
  "sma_on_bar s bar view =
     (let closes = push_bounded (sma_slow s) (bt_close_ticks bar) (sma_closes s);
          s' = s\<lparr>sma_closes := closes\<rparr>
      in if int (length closes) < sma_slow s then (s', [])
         else
           let fast_mean = mean (last_n (sma_fast s) closes) (sma_fast s);
               slow_mean = mean closes (sma_slow s);
               target = (if slow_mean < fast_mean then sma_qty s else 0);
               gap = target - pv_position view
           in if gap = 0 then (s', [])
              else if 0 < gap then (s', [\<lparr> oi_side = Side_BUY, oi_qty = gap \<rparr>])
              else (s', [\<lparr> oi_side = Side_SELL, oi_qty = min (- gap) (pv_position view) \<rparr>]))"

subsection \<open>The portfolio\<close>

record bt_trade =
  tr_bar_index :: int
  tr_side :: int
  tr_qty :: int
  tr_price_ticks :: int
  tr_fee_ticks :: int
  tr_realised_pnl_ticks :: int

record portfolio =
  pf_cash_ticks :: int
  pf_position :: int
  pf_cost_basis :: int

definition new_portfolio :: "int \<Rightarrow> portfolio" where
  "new_portfolio cash = \<lparr> pf_cash_ticks = cash, pf_position = 0, pf_cost_basis = 0 \<rparr>"

text \<open>A raise in the middle of \<open>buy\<close> ends the run, so the half-updated object is never seen.\<close>

definition pf_buy :: "int \<Rightarrow> int \<Rightarrow> portfolio \<Rightarrow> exn + (bt_trade option \<times> portfolio)" where
  "pf_buy px q p =
     (let fee = fb_taker_fee_ticks (calculate_fees px q);
          outlay = px * q + fee
      in if pf_cash_ticks p < outlay then Inr (None, p)
         else
           let total_cost = pf_cost_basis p * pf_position p + px * q;
               position = pf_position p + q
           in if position = 0 then Inl ZeroDivisionError
              else Inr (Some \<lparr> tr_bar_index = -1, tr_side = Side_BUY, tr_qty = q, tr_price_ticks = px,
                               tr_fee_ticks = fee, tr_realised_pnl_ticks = 0 \<rparr>,
                        \<lparr> pf_cash_ticks = pf_cash_ticks p - outlay, pf_position = position,
                          pf_cost_basis = total_cost div position \<rparr>))"

definition pf_sell :: "int \<Rightarrow> int \<Rightarrow> portfolio \<Rightarrow> bt_trade option \<times> portfolio" where
  "pf_sell px q p =
     (if pf_position p < q then (None, p)
      else
        let fee = fb_taker_fee_ticks (calculate_fees px q);
            realised = (px - pf_cost_basis p) * q - fee;
            position = pf_position p - q
        in (Some \<lparr> tr_bar_index = -1, tr_side = Side_SELL, tr_qty = q, tr_price_ticks = px,
                   tr_fee_ticks = fee, tr_realised_pnl_ticks = realised \<rparr>,
            \<lparr> pf_cash_ticks = pf_cash_ticks p + (px * q - fee), pf_position = position,
              pf_cost_basis = (if position = 0 then 0 else pf_cost_basis p) \<rparr>))"

definition pf_equity :: "int \<Rightarrow> portfolio \<Rightarrow> int" where
  "pf_equity mark p = pf_cash_ticks p + pf_position p * mark"

subsection \<open>The run loop\<close>

record bt_run =
  br_portfolio :: portfolio
  br_trades :: "bt_trade list"
  br_equity_curve :: "int list"
  br_pending :: "order_intent list"
  br_refused :: int
  br_first_trade_bar :: "int option"

definition new_run :: "int \<Rightarrow> bt_run" where
  "new_run cash =
     \<lparr> br_portfolio = new_portfolio cash, br_trades = [], br_equity_curve = [], br_pending = [],
       br_refused = 0, br_first_trade_bar = None \<rparr>"

definition fill_intent :: "bt_bar \<Rightarrow> order_intent \<Rightarrow> bt_run \<Rightarrow> exn + bt_run" where
  "fill_intent bar i r =
     sbind (if oi_side i = Side_BUY then pf_buy (bt_open_ticks bar) (oi_qty i) (br_portfolio r)
            else Inr (pf_sell (bt_open_ticks bar) (oi_qty i) (br_portfolio r))) (\<lambda>(filled, p).
       Inr (case filled of None \<Rightarrow> r\<lparr>br_refused := br_refused r + 1\<rparr>
         | Some t \<Rightarrow>
             r\<lparr>br_portfolio := p,
               br_trades := br_trades r @ [t\<lparr>tr_bar_index := bt_index bar\<rparr>],
               br_first_trade_bar :=
                 (case br_first_trade_bar r of None \<Rightarrow> Some (bt_index bar) | Some b \<Rightarrow> Some b)\<rparr>))"

fun fill_intents :: "bt_bar \<Rightarrow> order_intent list \<Rightarrow> bt_run \<Rightarrow> exn + bt_run" where
  "fill_intents bar [] r = Inr r"
| "fill_intents bar (i # is) r = sbind (fill_intent bar i r) (fill_intents bar is)"

definition view_of :: "bt_bar \<Rightarrow> bt_run \<Rightarrow> portfolio_view" where
  "view_of bar r =
     \<lparr> pv_cash_ticks = pf_cash_ticks (br_portfolio r), pv_position = pf_position (br_portfolio r),
       pv_bar_index = bt_index bar \<rparr>"

definition run_bar :: "'s on_bar \<Rightarrow> bt_bar \<Rightarrow> 's \<times> bt_run \<Rightarrow> exn + ('s \<times> bt_run)" where
  "run_bar on_bar bar = (\<lambda>(s, r).
     sbind (fill_intents bar (br_pending r) r) (\<lambda>r1.
       let (s', intents) = on_bar s bar (view_of bar r1)
       in Inr (s', r1\<lparr>br_pending := intents,
                      br_equity_curve := br_equity_curve r1 @ [pf_equity (bt_close_ticks bar) (br_portfolio r1)]\<rparr>)))"

fun run_bars :: "'s on_bar \<Rightarrow> bt_bar list \<Rightarrow> 's \<times> bt_run \<Rightarrow> exn + ('s \<times> bt_run)" where
  "run_bars on_bar [] x = Inr x"
| "run_bars on_bar (b # bs) x = sbind (run_bar on_bar b x) (run_bars on_bar bs)"

end
