(* ===== verification/Backtest_Run.thy ===== *)
theory Backtest_Run
  imports Backtest "HOL-Library.Char_ord"
begin

section \<open>A backtest from request to result: metrics.py, manifest.py, runner.py, report.py, routes_backtests.py\<close>

text \<open>
  The metrics of a finished run, the manifest that identifies it, \<open>run\<close> and
  \<open>run_from_dataset\<close>, the gateway's endpoint that stores a result under its manifest's id, and
  the report's price format. SHA-256 is an argument.
\<close>

subsection \<open>Metrics\<close>

definition RATIO_DIGITS :: nat where "RATIO_DIGITS = 6"

definition round_ratio :: "rat \<Rightarrow> rat" where
  "round_ratio x = round_digits x RATIO_DIGITS"

text \<open>One step of the loop: the running peak and the worst fall seen.\<close>

definition drawdown_step :: "int \<Rightarrow> int \<times> rat \<Rightarrow> int \<times> rat" where
  "drawdown_step equity = (\<lambda>(peak, worst).
     let peak' = max peak equity
     in (peak', if 0 < peak' then max worst (fl (of_int (peak' - equity) / of_int peak')) else worst))"

definition max_drawdown_pct :: "int list \<Rightarrow> rat" where
  "max_drawdown_pct curve =
     (if curve = [] then 0
      else let (peak, worst) = fold drawdown_step curve (hd curve, 0) in round_ratio (fl (worst * 100)))"

text \<open>The benchmark's quantity: from what the cash could buy without a fee, down to what fits.\<close>

function hold_qty :: "int \<Rightarrow> int \<Rightarrow> int \<Rightarrow> int" where
  "hold_qty entry cash q =
     (if 0 < q \<and> cash < entry * q + fb_taker_fee_ticks (calculate_fees entry q)
      then hold_qty entry cash (q - 1) else q)"
  by pat_completeness auto

termination by (relation "measure (\<lambda>(entry, cash, q). nat q)") auto

declare hold_qty.simps [simp del]

definition buy_and_hold_return_pct :: "bt_bar list \<Rightarrow> int \<Rightarrow> rat" where
  "buy_and_hold_return_pct bars initial =
     (if length bars < 2 then 0
      else
        let entry = bt_open_ticks (bars ! 1)
        in if entry \<le> 0 then 0
           else
             let q = hold_qty entry initial (initial div entry)
             in if q \<le> 0 then 0
                else
                  let fee = fb_taker_fee_ticks (calculate_fees entry q);
                      cash = initial - entry * q - fee;
                      final_equity = cash + q * bt_close_ticks (last bars)
                  in round_ratio (fl (fl (of_int (final_equity - initial) / of_int initial) * 100)))"

record metrics =
  mt_initial_cash_ticks :: int
  mt_final_equity_ticks :: int
  mt_pnl_ticks :: int
  mt_return_pct :: rat
  mt_trade_count :: nat
  mt_win_count :: nat
  mt_win_rate_pct :: rat
  mt_max_drawdown_pct :: rat
  mt_volatility_per_bar_pct :: rat
  mt_sharpe_per_bar :: rat
  mt_fees_paid_ticks :: int
  mt_buy_and_hold_return_pct :: rat
  mt_excess_return_pct :: rat

definition bar_returns :: "int list \<Rightarrow> rat list" where
  "bar_returns curve =
     map (\<lambda>i. fl (of_int (curve ! i - curve ! (i - 1)) / of_int (curve ! (i - 1))))
       (filter (\<lambda>i. 0 < curve ! (i - 1)) [1..<length curve])"

definition compute_metrics :: "bt_bar list \<Rightarrow> bt_trade list \<Rightarrow> int list \<Rightarrow> int \<Rightarrow> metrics" where
  "compute_metrics bars trades curve initial =
     (let final_equity = (if curve = [] then initial else last curve);
          pnl = final_equity - initial;
          closing = filter (\<lambda>t. tr_realised_pnl_ticks t \<noteq> 0) trades;
          wins = filter (\<lambda>t. 0 < tr_realised_pnl_ticks t) closing;
          returns = bar_returns curve;
          volatility = (if 1 < length returns then pstdev returns else 0);
          mean_return = (if returns = [] then 0 else fmean returns);
          sharpe = (if 0 < volatility then fl (mean_return / volatility) else 0);
          benchmark = buy_and_hold_return_pct bars initial;
          strategy_return =
            (if initial \<noteq> 0 then round_ratio (fl (fl (of_int pnl / of_int initial) * 100)) else 0)
      in \<lparr> mt_initial_cash_ticks = initial, mt_final_equity_ticks = final_equity, mt_pnl_ticks = pnl,
           mt_return_pct = strategy_return, mt_trade_count = length trades, mt_win_count = length wins,
           mt_win_rate_pct =
             (if closing \<noteq> []
              then round_ratio (fl (fl (of_nat (length wins) / of_nat (length closing)) * 100)) else 0),
           mt_max_drawdown_pct = max_drawdown_pct curve,
           mt_volatility_per_bar_pct = round_ratio (fl (volatility * 100)),
           mt_sharpe_per_bar = round_ratio sharpe,
           mt_fees_paid_ticks = sum_list (map tr_fee_ticks trades),
           mt_buy_and_hold_return_pct = benchmark,
           mt_excess_return_pct = round_ratio (fl (strategy_return - benchmark)) \<rparr>)"

subsection \<open>The manifest\<close>

definition FILL_MODEL :: string where "FILL_MODEL = ''next_bar_open''"

record manifest =
  mf_strategy :: string
  mf_parameters :: "(string, int) dict"
  mf_symbol :: string
  mf_dataset :: string
  mf_dataset_sha256 :: string
  mf_bar_minutes :: int
  mf_first_minute :: int
  mf_last_minute :: int
  mf_first_bar_index :: int
  mf_last_bar_index :: int
  mf_initial_cash_ticks :: int
  mf_config_hash :: string
  mf_schema_version :: int
  mf_fill_model :: string
  mf_maker_fee_bps :: int
  mf_taker_fee_bps :: int
  mf_seed :: int

definition manifest_dict :: "manifest \<Rightarrow> (string \<times> json) list" where
  "manifest_dict m =
     [(''strategy'', JStr (mf_strategy m)),
      (''parameters'', JObj (map (\<lambda>(k, v). (k, JInt v)) (mf_parameters m))),
      (''symbol'', JStr (mf_symbol m)),
      (''dataset'', JStr (mf_dataset m)),
      (''dataset_sha256'', JStr (mf_dataset_sha256 m)),
      (''bar_minutes'', JInt (mf_bar_minutes m)),
      (''first_minute'', JInt (mf_first_minute m)),
      (''last_minute'', JInt (mf_last_minute m)),
      (''first_bar_index'', JInt (mf_first_bar_index m)),
      (''last_bar_index'', JInt (mf_last_bar_index m)),
      (''initial_cash_ticks'', JInt (mf_initial_cash_ticks m)),
      (''config_hash'', JStr (mf_config_hash m)),
      (''schema_version'', JInt (mf_schema_version m)),
      (''fill_model'', JStr (mf_fill_model m)),
      (''maker_fee_bps'', JInt (mf_maker_fee_bps m)),
      (''taker_fee_bps'', JInt (mf_taker_fee_bps m)),
      (''seed'', JInt (mf_seed m))]"

text \<open>\<open>json.dumps(..., sort_keys=True)\<close>: the members of every object sorted by key.\<close>

fun sort_members :: "json \<Rightarrow> json" where
  "sort_members (JObj kvs) = JObj (sort_key fst (map (\<lambda>(k, v). (k, sort_members v)) kvs))"
| "sort_members (JList vs) = JList (map sort_members vs)"
| "sort_members v = v"

definition manifest_json :: "manifest \<Rightarrow> string" where
  "manifest_json m = json_dumps (sort_members (JObj (manifest_dict m)))"

definition manifest_id :: "(string \<Rightarrow> string) \<Rightarrow> manifest \<Rightarrow> string" where
  "manifest_id sha256 m = take 16 (sha256 (manifest_json m))"

subsection \<open>Runs\<close>

record bt_result =
  rs_manifest :: manifest
  rs_metrics :: metrics
  rs_trades :: "bt_trade list"
  rs_refused_intents :: int
  rs_unfilled_at_end :: nat
  rs_first_trade_bar_index :: "int option"

definition backtest_run ::
  "'s on_bar \<Rightarrow> 's \<Rightarrow> bt_bar list \<Rightarrow> manifest \<Rightarrow> int \<Rightarrow> exn + bt_result" where
  "backtest_run on_bar s bars manifest cash =
     (if length bars < 2 then Inl ValueError
      else
        sbind (run_bars on_bar bars (s, new_run cash)) (\<lambda>(s', r).
          Inr \<lparr> rs_manifest = manifest,
                rs_metrics = compute_metrics bars (br_trades r) (br_equity_curve r) cash,
                rs_trades = br_trades r,
                rs_refused_intents = br_refused r,
                rs_unfilled_at_end = length (br_pending r),
                rs_first_trade_bar_index = br_first_trade_bar r \<rparr>))"

definition DEFAULT_CASH_MULTIPLE :: int where "DEFAULT_CASH_MULTIPLE = 10"

definition default_cash_ticks :: "bt_bar list \<Rightarrow> exn + int" where
  "default_cash_ticks bars =
     (case bars of [] \<Rightarrow> Inl IndexError | b # bs \<Rightarrow> Inr (bt_open_ticks b * DEFAULT_CASH_MULTIPLE))"

text \<open>What a run reads of the configuration: \<open>replay.data_sha256\<close> and the configuration's hash. The
  file is given with its name.\<close>

definition run_from_dataset ::
  "string \<times> string \<Rightarrow> string \<Rightarrow> string \<times> (string \<times> int) list \<Rightarrow> string \<Rightarrow> (string, int) dict \<Rightarrow> 's on_bar \<Rightarrow> 's
   \<Rightarrow> string \<Rightarrow> int \<Rightarrow> int \<Rightarrow> int option \<Rightarrow> int option \<Rightarrow> int \<Rightarrow> exn + bt_result" where
  "run_from_dataset settings path_name file name parameters on_bar s symbol bar_minutes first_minute
      last_minute cash_given seed =
     (let (data_sha256, config_hash) = settings
      in sbind (load_bars file data_sha256 symbol bar_minutes first_minute last_minute) (\<lambda>bars.
         sbind (case cash_given of Some c \<Rightarrow> Inr c | None \<Rightarrow> default_cash_ticks bars) (\<lambda>cash.
         if bars = [] then Inl IndexError
         else
           backtest_run on_bar s bars
             \<lparr> mf_strategy = name, mf_parameters = parameters, mf_symbol = symbol, mf_dataset = path_name,
               mf_dataset_sha256 = data_sha256, mf_bar_minutes = bar_minutes, mf_first_minute = first_minute,
               mf_last_minute = first_minute + int (length bars) * bar_minutes,
               mf_first_bar_index = bt_index (hd bars), mf_last_bar_index = bt_index (last bars),
               mf_initial_cash_ticks = cash, mf_config_hash = config_hash,
               mf_schema_version = SCHEMA_VERSION, mf_fill_model = FILL_MODEL,
               mf_maker_fee_bps = MAKER_FEE_BPS, mf_taker_fee_bps = TAKER_FEE_BPS, mf_seed = seed \<rparr> cash)))"

subsection \<open>The endpoint\<close>

text \<open>\<open>RunRequest\<close> with its field constraints, the reasons a request is refused with, and the store of
  results, which Redis keeps for \<open>RESULT_TTL_SECONDS\<close>.\<close>

definition RESULT_TTL_SECONDS :: int where "RESULT_TTL_SECONDS = 3600"
definition MAX_DAY :: int where "MAX_DAY = 10080 div MINUTES_PER_SIMULATED_DAY"
definition STRATEGIES :: "string list" where "STRATEGIES = [''sma_crossover'']"

record run_request =
  rq_symbol :: string
  rq_strategy :: string
  rq_bar_minutes :: int
  rq_first_day :: int
  rq_last_day :: int

definition valid_request :: "run_request \<Rightarrow> bool" where
  "valid_request q \<longleftrightarrow>
     1 \<le> length (rq_symbol q) \<and> length (rq_symbol q) \<le> 32 \<and>
     1 \<le> rq_bar_minutes q \<and> rq_bar_minutes q \<le> 60 \<and>
     1 \<le> rq_first_day q \<and> rq_first_day q \<le> MAX_DAY \<and> 1 \<le> rq_last_day q \<and> rq_last_day q \<le> MAX_DAY"

definition tick_size_for :: "symbol list \<Rightarrow> string \<Rightarrow> exn + int" where
  "tick_size_for symbols name =
     (case find (\<lambda>s. sm_name s = name) symbols of Some s \<Rightarrow> Inr (sm_tick_size_ticks s) | None \<Rightarrow> Inl KeyError)"

record bt_payload =
  pl_id :: string
  pl_result :: bt_result
  pl_tick_size_ticks :: int

definition backtest_payload :: "(string \<Rightarrow> string) \<Rightarrow> symbol list \<Rightarrow> bt_result \<Rightarrow> string \<Rightarrow> exn + bt_payload" where
  "backtest_payload sha256 symbols result name =
     sbind (tick_size_for symbols name) (\<lambda>tick.
       Inr \<lparr> pl_id = manifest_id sha256 (rs_manifest result), pl_result = result, pl_tick_size_ticks = tick \<rparr>)"

text \<open>An answer: the status, the reason of a refusal, the payload of a success. The store maps an id to
  its payload and the second it expires at.\<close>

datatype bt_answer = Refused int string | Created bt_payload | Found bt_payload | Crashed exn

type_synonym bt_store = "(string, bt_payload \<times> int) dict"

definition run_backtest ::
  "(string \<Rightarrow> string) \<Rightarrow> symbol list \<Rightarrow> string \<times> string \<Rightarrow> string \<Rightarrow> string \<times> (string \<times> int) list
   \<Rightarrow> int \<Rightarrow> run_request \<Rightarrow> bt_store \<Rightarrow> bt_answer \<times> bt_store" where
  "run_backtest sha256 symbols settings path_name file now q store =
     (if rq_strategy q \<notin> set STRATEGIES then (Refused 400 ''UNKNOWN_STRATEGY'', store)
      else if rq_last_day q < rq_first_day q then (Refused 400 ''EMPTY_RANGE'', store)
      else
        case day_range_to_minutes (rq_first_day q) (rq_last_day q) of
          Inl e \<Rightarrow> (Crashed e, store)
        | Inr (first_minute, last_minute) \<Rightarrow>
            (case sbind (sma_init 10 30 1) (\<lambda>s.
                    run_from_dataset settings path_name file ''sma_crossover'' (sma_parameters s) sma_on_bar s
                      (rq_symbol q) (rq_bar_minutes q) first_minute (Some last_minute) None 0) of
               Inl KeyError \<Rightarrow> (Refused 400 ''UNKNOWN_SYMBOL'', store)
             | Inl ValueError \<Rightarrow> (Refused 400 ''RANGE_TOO_SHORT'', store)
             | Inl e \<Rightarrow> (Crashed e, store)
             | Inr result \<Rightarrow>
                 (case backtest_payload sha256 symbols result (rq_symbol q) of
                    Inl e \<Rightarrow> (Crashed e, store)
                  | Inr payload \<Rightarrow>
                      (Created payload, dset (pl_id payload) (payload, now + RESULT_TTL_SECONDS) store))))"

definition get_backtest :: "int \<Rightarrow> string \<Rightarrow> bt_store \<Rightarrow> bt_answer" where
  "get_backtest now bid store =
     (case dget store bid of
        None \<Rightarrow> Refused 404 ''NOT_FOUND''
      | Some (payload, expires) \<Rightarrow> if now < expires then Found payload else Refused 404 ''NOT_FOUND'')"

end
