(* ===== verification/Backtest_Spec.thy ===== *)
theory Backtest_Spec
  imports Backtest_Run Ledger_Spec
begin

section \<open>What a backtest promises\<close>

text \<open>
  Bars: each covers its own stretch of minutes, and adjacent ranges give adjacent bars. Runs:
  an interface for strategies (\<open>bt_strategy\<close>), solvency and the accounting identity for every
  strategy that meets it, the absence of lookahead for any strategy at all, and what the
  built-in crossover does. Metrics: the drawdown and the benchmark's quantity against their
  definitions. Manifests: one text for one set of inputs.
\<close>

subsection \<open>Bars\<close>

lemma py_max_Max: "xs \<noteq> [] \<Longrightarrow> py_max xs = Max (set xs)"
  by (cases xs) (simp_all add: py_max_def Max.set_eq_fold [symmetric])

lemma py_min_Min: "xs \<noteq> [] \<Longrightarrow> py_min xs = Min (set xs)"
  by (cases xs) (simp_all add: py_min_def Min.set_eq_fold [symmetric])

text \<open>Bucket \<open>k\<close> of width \<open>w\<close>, and the bar made of it.\<close>

definition bucket :: "nat \<Rightarrow> int list \<Rightarrow> nat \<Rightarrow> int list" where
  "bucket w closes k = take w (drop (k * w) closes)"

definition nth_bar :: "nat \<Rightarrow> int list \<Rightarrow> nat \<Rightarrow> bt_bar" where
  "nth_bar w closes k = bar_of (int k) (int (k * w)) (bucket w closes k)"

lemma py_range_starts:
  assumes "0 < w"
  shows "py_range (int n - int w + 1) (int w) = map (\<lambda>k. int (k * w)) [0..<n div w]"
proof (cases "n < w")
  case True
  then show ?thesis by (simp add: py_range_def)
next
  case False
  have "(int n - int w + 1 - 1) div int w + 1 = (int n - int w + int w) div int w"
    using assms by (simp only: div_add_self2) simp
  then have "(int n - int w + 1 - 1) div int w + 1 = int (n div w)" by (simp add: zdiv_int)
  moreover have "\<not> int n - int w + 1 \<le> 0" using False by simp
  ultimately show ?thesis using assms by (simp add: py_range_def)
qed

lemma enumerate_map: "enumerate 0 (map f [0..<n]) = map (\<lambda>k. (k, f k)) [0..<n]"
  by (rule nth_equalityI) (simp_all add: nth_enumerate_eq)

lemma build_bars_eq:
  assumes "0 < w"
  shows "build_bars closes (int w) = Inr (map (nth_bar w closes) [0..<length closes div w])"
proof -
  have s: "py_slice closes (int (k * w)) (int (k * w) + int w) = bucket w closes k" for k
    by (simp add: py_slice_def bucket_def del: of_nat_mult)
  show ?thesis
    using assms
    by (simp only: build_bars_def py_range_starts enumerate_map map_map o_def split_beta s fst_conv snd_conv)
      (simp add: nth_bar_def s)
qed

lemma bucket_range: "0 < w \<Longrightarrow> k < length closes div w \<Longrightarrow> k * w + w \<le> length closes"
  by (metis Suc_leI add.commute div_times_less_eq_dividend le_trans mult.commute mult_Suc_right mult_le_mono2)

lemma length_bucket [simp]: "0 < w \<Longrightarrow> k < length closes div w \<Longrightarrow> length (bucket w closes k) = w"
  using bucket_range [of w k closes] by (simp add: bucket_def)

lemma concat_buckets: "n * w \<le> length closes \<Longrightarrow> concat (map (bucket w closes) [0..<n]) = take (n * w) closes"
  by (induction n) (simp_all add: bucket_def take_add [symmetric] add.commute [of w])

text \<open>The four prices of a bar, without its place in the run.\<close>

definition bar_prices :: "bt_bar \<Rightarrow> int \<times> int \<times> int \<times> int" where
  "bar_prices b = (bt_open_ticks b, bt_high_ticks b, bt_low_ticks b, bt_close_ticks b)"

lemma nth_bar_prices: "bar_prices (nth_bar w closes k) = bar_prices (bar_of 0 0 (bucket w closes k))"
  by (simp add: nth_bar_def bar_of_def bar_prices_def)

lemma bar_prices_drop:
  "map bar_prices (map (nth_bar w (drop (j * w) closes)) [0..<n]) = map bar_prices (map (nth_bar w closes) [j..<j + n])"
proof -
  have "bucket w (drop (j * w) closes) k = bucket w closes (j + k)" for k
    by (simp add: bucket_def add_mult_distrib add.commute)
  then show ?thesis by (intro nth_equalityI) (simp_all add: nth_bar_prices)
qed

lemma bar_prices_take:
  assumes "n * w \<le> m"
  shows "map bar_prices (map (nth_bar w (take m closes)) [0..<n]) = map bar_prices (map (nth_bar w closes) [0..<n])"
proof -
  have "bucket w (take m closes) k = bucket w closes k" if k: "k < n" for k
  proof -
    have "Suc k * w \<le> n * w" using k by (intro mult_le_mono1) simp
    then have "w \<le> m - k * w" using assms by simp
    then show ?thesis by (simp add: bucket_def drop_take min_def)
  qed
  then show ?thesis by (simp add: nth_bar_prices)
qed

lemma build_bars_split:
  assumes w: "0 < w" and xs: "build_bars (take (j * w) closes) (int w) = Inr xs"
    and ys: "build_bars (drop (j * w) closes) (int w) = Inr ys" and j: "j * w \<le> length closes"
  obtains zs where "build_bars closes (int w) = Inr zs" "map bar_prices zs = map bar_prices (xs @ ys)"
proof -
  define n where "n = length closes div w"
  have jn: "j \<le> n" using j w by (simp add: n_def less_eq_div_iff_mult_less_eq)
  have rest: "(length closes - j * w) div w = n - j"
  proof -
    have "(length closes - j * w + j * w) div w = (length closes - j * w) div w + j" using w by simp
    then show ?thesis using j by (simp add: n_def)
  qed
  have "map bar_prices xs = map bar_prices (map (nth_bar w closes) [0..<j])"
    using xs w j bar_prices_take [of j w "j * w" closes] by (auto simp: build_bars_eq [OF w] min_def)
  moreover have "map bar_prices ys = map bar_prices (map (nth_bar w closes) [j..<n])"
    using ys jn bar_prices_drop [of w j closes "n - j"] by (auto simp: build_bars_eq [OF w] rest)
  moreover have "[0..<n] = [0..<j] @ [j..<n]" using jn by (metis le0 upt_add_eq_append le_add_diff_inverse)
  ultimately show ?thesis
    by (intro that [of "map (nth_bar w closes) [0..<n]"]) (simp_all add: build_bars_eq [OF w] n_def)
qed

text \<open>Bars tile time. A range of minutes cut in two at a multiple of the bar width gives, bar for bar,
  the prices of the whole range's bars: no bar straddles the cut, whichever side asks for it.\<close>

theorem adjacent_ranges_agree:
  assumes xs: "load_bars file sha name w a (Some b) = Inr xs" and ys: "load_bars file sha name w b (Some c) = Inr ys"
    and cut: "w dvd b - a"
  shows "\<exists>zs. load_bars file sha name w a (Some c) = Inr zs \<and> map bar_prices zs = map bar_prices (xs @ ys)"
proof -
  obtain h closes where h: "cached_history file sha = Inr h" "dget h name = Some closes"
    using xs by (auto simp: load_bars_def sbind_def split: sum.splits option.splits)
  define len e where "len = int (length closes)" and "e = min c len"
  have a: "0 \<le> a" "a < min b len" and X: "build_bars (py_slice closes a (min b len)) w = Inr xs"
    using xs by (auto simp: load_bars_def h len_def Let_def split: if_splits)
  have b: "b < e" and Y: "build_bars (py_slice closes b e) w = Inr ys"
    using ys by (auto simp: load_bars_def h len_def e_def Let_def split: if_splits)
  have w: "0 < w" using X by (auto simp: build_bars_def split: if_splits)
  obtain i where i: "b - a = w * i" using cut by (auto elim: dvdE)
  have "0 < w * i" using a by (simp flip: i)
  then have "0 < i" using w by (simp add: zero_less_mult_iff)
  then obtain j where j: "b - a = int j * w" using i by (metis mult.commute nonneg_int_cases less_imp_le)
  then have ja: "b = int j * w + a" by simp
  define ms where "ms = py_slice closes a e"
  have e: "e \<le> len" "min b len = b" using b by (auto simp: e_def)
  have tk: "py_slice closes a b = take (j * nat w) ms"
  proof -
    have "nat (b - a) = j * nat w" using j w by (simp add: nat_mult_distrib)
    moreover have "nat (b - a) \<le> nat (e - a)" using b by simp
    ultimately show ?thesis by (simp add: ms_def py_slice_def min_def)
  qed
  have dr: "py_slice closes b e = drop (j * nat w) ms"
  proof -
    have "nat b = j * nat w + nat a" unfolding ja using a w by (simp add: nat_add_distrib nat_mult_distrib)
    moreover have "nat (e - b) = nat (e - a) - j * nat w"
    proof -
      have "int j * w = int (j * nat w)" using w by simp
      then have eq: "e - b = e - a - int (j * nat w)" using ja by linarith
      show ?thesis using a b unfolding eq by (simp add: nat_diff_distrib' del: of_nat_mult)
    qed
    ultimately show ?thesis by (simp add: ms_def py_slice_def drop_take)
  qed
  have len: "j * nat w \<le> length ms"
  proof -
    have "int (j * nat w) = b - a" using j w by simp
    moreover have "int (length ms) = e - a" using a b e by (simp add: ms_def py_slice_def len_def)
    ultimately show ?thesis using b by linarith
  qed
  obtain zs where "build_bars ms (int (nat w)) = Inr zs" "map bar_prices zs = map bar_prices (xs @ ys)"
    using build_bars_split [of "nat w" j ms xs ys] X Y w tk dr len by (auto simp: e)
  then show ?thesis using a b w by (auto simp: load_bars_def h ms_def e_def len_def Let_def)
qed

definition demo_file :: "string \<times> (string \<times> int) list" where
  "demo_file = (''d'', map (\<lambda>p. (''A'', p)) [10, 12, 11, 14, 20, 15, 13, 17, 9])"

theorem adjacent_ranges_agree_witness:
  "\<exists>zs. load_bars demo_file [] ''A'' 2 0 (Some 9) = Inr zs \<and>
     map bar_prices zs = [(10, 12, 10, 12), (11, 14, 11, 14), (20, 20, 15, 15), (13, 17, 13, 17)]"
proof -
  have l: "map_sum id (map bar_prices) (load_bars demo_file [] ''A'' 2 0 (Some 4)) =
      Inr [(10, 12, 10, 12), (11, 14, 11, 14)]"
    by code_simp
  have r: "map_sum id (map bar_prices) (load_bars demo_file [] ''A'' 2 4 (Some 9)) =
      Inr [(20, 20, 15, 15), (13, 17, 13, 17)]"
    by code_simp
  show ?thesis using adjacent_ranges_agree [of demo_file "[]" "''A''" 2 0 4 _ 9] l r
    by (cases "load_bars demo_file [] ''A'' 2 0 (Some 4)"; cases "load_bars demo_file [] ''A'' 2 4 (Some 9)") fastforce+
qed

text \<open>A bar's \<open>first_minute\<close> counts from the start of the requested range, not of the dataset.\<close>

lemma first_minute_is_relative:
  "load_bars file sha name w a last_minute = Inr (b # bs) \<Longrightarrow> bt_first_minute b = 0"
proof -
  have "bt_first_minute b = 0" if "build_bars ms w = Inr (b # bs)" for ms
  proof -
    have "1 \<le> w" using that by (auto simp: build_bars_def split: if_splits)
    then have "build_bars ms (int (nat w)) = Inr (b # bs)" "0 < nat w" using that by simp_all
    then have "map (nth_bar (nat w) ms) [0..<length ms div nat w] = b # bs"
      unfolding build_bars_eq [OF \<open>0 < nat w\<close>] by simp
    then show ?thesis by (auto simp: map_eq_Cons_conv upt_eq_Cons_conv nth_bar_def bar_of_def)
  qed
  then show "load_bars file sha name w a last_minute = Inr (b # bs) \<Longrightarrow> bt_first_minute b = 0"
    by (auto simp: load_bars_def sbind_def Let_def split: sum.splits option.splits if_splits)
qed

text \<open>A range shorter than one bar has no first bar to size the cash from: the run ends in an
  \<open>IndexError\<close>, not in the message for a range of fewer than two bars.\<close>

lemma short_range_raises:
  "run_from_dataset (sha, ch) pn demo_file ''sma_crossover'' ps sma_on_bar s ''A'' 20 0 None None 0 = Inl IndexError"
  if "sha = []"
proof -
  have "load_bars demo_file [] ''A'' 20 0 None = Inr []" by code_simp
  then show ?thesis by (simp add: run_from_dataset_def that default_cash_ticks_def)
qed

subsection \<open>Runs: the accounting identity\<close>

definition cash_flow :: "bt_trade \<Rightarrow> int" where
  "cash_flow t = (if tr_side t = Side_BUY then - (tr_price_ticks t * tr_qty t) else tr_price_ticks t * tr_qty t) - tr_fee_ticks t"

definition unit_flow :: "bt_trade \<Rightarrow> int" where
  "unit_flow t = (if tr_side t = Side_BUY then tr_qty t else - tr_qty t)"

definition portfolio_of :: "int \<Rightarrow> bt_trade list \<Rightarrow> int \<times> int" where
  "portfolio_of cash ts = (cash + sum_list (map cash_flow ts), sum_list (map unit_flow ts))"

text \<open>What filling one intent does: nothing but a refusal, or one trade at the bar's open.\<close>

definition trade_at :: "bt_bar \<Rightarrow> bt_trade \<Rightarrow> bool" where
  "trade_at b t \<longleftrightarrow> tr_bar_index t = bt_index b \<and> tr_price_ticks t = bt_open_ticks b \<and>
     tr_fee_ticks t = fb_taker_fee_ticks (calculate_fees (bt_open_ticks b) (tr_qty t))"

lemma fill_intent_cases:
  assumes "fill_intent b i r = Inr r'"
  obtains (refused) "r' = r\<lparr>br_refused := br_refused r + 1\<rparr>"
  | (filled) t p f where "r' = r\<lparr>br_portfolio := p, br_trades := br_trades r @ [t], br_first_trade_bar := f\<rparr>"
      "trade_at b t" "tr_qty t = oi_qty i"
      "pf_cash_ticks p = pf_cash_ticks (br_portfolio r) + cash_flow t"
      "pf_position p = pf_position (br_portfolio r) + unit_flow t"
proof (cases "oi_side i = Side_BUY")
  case True
  then show ?thesis
    using assms refused
    by (auto simp: fill_intent_def sbind_def pf_buy_def Let_def split: if_splits sum.splits option.splits
        intro!: filled simp: trade_at_def cash_flow_def unit_flow_def)
next
  case False
  then show ?thesis
    using assms refused
    by (auto simp: fill_intent_def pf_sell_def Let_def Side_BUY_def Side_SELL_def split: if_splits option.splits
        intro!: filled simp: trade_at_def cash_flow_def unit_flow_def)
qed

definition balanced :: "int \<Rightarrow> bt_run \<Rightarrow> bool" where
  "balanced cash r \<longleftrightarrow> (pf_cash_ticks (br_portfolio r), pf_position (br_portfolio r)) = portfolio_of cash (br_trades r)"

text \<open>A run only adds: trades at the opens of the bars it is given, one equity figure per bar, and
  every intent that was pending is a trade or a refusal.\<close>

definition extends :: "bt_bar set \<Rightarrow> bt_run \<Rightarrow> bt_run \<Rightarrow> bool" where
  "extends bs r r' \<longleftrightarrow>
     (\<exists>ts. br_trades r' = br_trades r @ ts \<and> (\<forall>t \<in> set ts. \<exists>b \<in> bs. trade_at b t))"

lemma extends_refl [simp]: "extends bs r r"
  by (simp add: extends_def)

lemma extends_trans: "extends A r r' \<Longrightarrow> extends B r' r'' \<Longrightarrow> extends (A \<union> B) r r''"
  unfolding extends_def by (elim exE conjE, rule_tac x = "ts @ tsa" in exI) auto

lemma fill_intent_extends: "fill_intent b i r = Inr r' \<Longrightarrow> extends {b} r r'"
  by (erule fill_intent_cases) (auto simp: extends_def)

lemma fill_intent_keeps:
  assumes "fill_intent b i r = Inr r'"
  shows "balanced cash r \<Longrightarrow> balanced cash r'"
    and "br_equity_curve r' = br_equity_curve r" "br_pending r' = br_pending r"
    and "int (length (br_trades r')) + br_refused r' = int (length (br_trades r)) + br_refused r + 1"
  using assms by (rule fill_intent_cases; auto simp: balanced_def portfolio_of_def)+

lemma fill_intents_extends: "fill_intents b is r = Inr r' \<Longrightarrow> extends {b} r r'"
proof (induction "is" arbitrary: r)
  case (Cons i "is")
  then obtain r1 where "fill_intent b i r = Inr r1" "fill_intents b is r1 = Inr r'"
    by (auto simp: sbind_def split: sum.splits)
  then show ?case using Cons.IH fill_intent_extends extends_trans by fastforce
qed simp

lemma fill_intents_keeps:
  assumes "fill_intents b is r = Inr r'"
  shows "balanced cash r \<Longrightarrow> balanced cash r'"
    and "br_equity_curve r' = br_equity_curve r" "br_pending r' = br_pending r"
    and "int (length (br_trades r')) + br_refused r' = int (length (br_trades r)) + br_refused r + int (length is)"
  using assms
proof (induction "is" arbitrary: r)
  case (Cons i "is")
  {
    case 1 then show ?case using Cons(1) fill_intent_keeps(1) by (fastforce simp: sbind_def split: sum.splits)
  next
    case 2 then show ?case using Cons(2) fill_intent_keeps(2) by (fastforce simp: sbind_def split: sum.splits)
  next
    case 3 then show ?case using Cons(3) fill_intent_keeps(3) by (fastforce simp: sbind_def split: sum.splits)
  next
    case 4 then show ?case using Cons(4) fill_intent_keeps(4) by (fastforce simp: sbind_def split: sum.splits)
  }
qed simp_all

lemma run_bar_elim:
  assumes "run_bar on_bar b (s, r) = Inr (s', r')"
  obtains r1 "is" where "fill_intents b (br_pending r) r = Inr r1" "on_bar s b (view_of b r1) = (s', is)"
    "r' = r1\<lparr>br_pending := is, br_equity_curve := br_equity_curve r1 @ [pf_equity (bt_close_ticks b) (br_portfolio r1)]\<rparr>"
proof (cases "fill_intents b (br_pending r) r")
  case (Inr r1)
  obtain t "is" where "on_bar s b (view_of b r1) = (t, is)" by fastforce
  then show ?thesis using assms Inr by (intro that [of r1 "is"]) (auto simp: run_bar_def)
qed (use assms in \<open>simp add: run_bar_def\<close>)

lemma run_bar_facts:
  assumes "run_bar on_bar b (s, r) = Inr (s', r')"
  shows "extends {b} r r'" "balanced cash r \<Longrightarrow> balanced cash r'"
    and "br_equity_curve r' = br_equity_curve r @ [pf_equity (bt_close_ticks b) (br_portfolio r')]"
    and "int (length (br_trades r')) + br_refused r' = int (length (br_trades r)) + br_refused r + int (length (br_pending r))"
  using assms
  by (auto elim!: run_bar_elim simp: balanced_def extends_def fill_intents_keeps(2)
      dest: fill_intents_extends fill_intents_keeps(1) [of _ _ _ _ cash] fill_intents_keeps(4))

lemma run_bars_Cons:
  "run_bars on_bar (b # bs) (s, r) = Inr x \<longleftrightarrow>
     (\<exists>s1 r1. run_bar on_bar b (s, r) = Inr (s1, r1) \<and> run_bars on_bar bs (s1, r1) = Inr x)"
  by (auto simp: sbind_def split: sum.splits)

lemma run_bars_append:
  "run_bars on_bar (xs @ ys) x = sbind (run_bars on_bar xs x) (run_bars on_bar ys)"
  by (induction xs arbitrary: x) (auto simp: sbind_def split: sum.splits)

lemma run_bars_extends: "run_bars on_bar bs (s, r) = Inr (s', r') \<Longrightarrow> extends (set bs) r r'"
proof (induction bs arbitrary: s r)
  case (Cons b bs)
  then show ?case unfolding run_bars_Cons using run_bar_facts(1) extends_trans by fastforce
qed simp

lemma run_bars_balanced:
  "run_bars on_bar bs (s, r) = Inr (s', r') \<Longrightarrow> balanced cash r \<Longrightarrow> balanced cash r'"
  by (induction bs arbitrary: s r) (auto simp: run_bars_Cons simp del: run_bars.simps(2) dest: run_bar_facts(2))

lemma run_bars_curve:
  assumes "run_bars on_bar bs (s, r) = Inr (s', r')"
  shows "length (br_equity_curve r') = length (br_equity_curve r) + length bs"
    and "bs \<noteq> [] \<Longrightarrow> br_equity_curve r' \<noteq> [] \<and> last (br_equity_curve r') = pf_equity (bt_close_ticks (last bs)) (br_portfolio r')"
proof -
  show "length (br_equity_curve r') = length (br_equity_curve r) + length bs"
    using assms
    by (induction bs arbitrary: s r) (auto simp: run_bars_Cons simp del: run_bars.simps(2) dest: run_bar_facts(3))
  assume "bs \<noteq> []"
  then obtain cs b where bs: "bs = cs @ [b]" by (metis rev_exhaust)
  then obtain s1 r1 where "run_bar on_bar b (s1, r1) = Inr (s', r')"
    using assms by (auto simp: run_bars_append sbind_def split: sum.splits)
  then show "br_equity_curve r' \<noteq> [] \<and> last (br_equity_curve r') = pf_equity (bt_close_ticks (last bs)) (br_portfolio r')"
    by (simp add: bs run_bar_facts(3))
qed

lemma balanced_new_run [simp]: "balanced cash (new_run cash)"
  by (simp add: balanced_def new_run_def new_portfolio_def portfolio_of_def)

text \<open>C24. The result of a run is what its trades add up to: with the purchases, sales and taker fees of the
  listed trades the account ends at the reported equity, the reported profit, fee total and trade count
  are theirs, and every trade is at the open of a bar after the first, at that price's taker fee.\<close>

theorem result_is_its_trades:
  assumes "backtest_run on_bar s bars m cash = Inr res"
  shows "mt_final_equity_ticks (rs_metrics res) =
      fst (portfolio_of cash (rs_trades res)) + snd (portfolio_of cash (rs_trades res)) * bt_close_ticks (last bars) \<and>
    mt_pnl_ticks (rs_metrics res) = mt_final_equity_ticks (rs_metrics res) - cash \<and>
    mt_fees_paid_ticks (rs_metrics res) = sum_list (map tr_fee_ticks (rs_trades res)) \<and>
    mt_trade_count (rs_metrics res) = length (rs_trades res) \<and>
    (\<forall>t \<in> set (rs_trades res). \<exists>b \<in> set (tl bars). trade_at b t)"
proof -
  obtain s' r where run: "run_bars on_bar bars (s, new_run cash) = Inr (s', r)" and len: "2 \<le> length bars"
    and res: "rs_trades res = br_trades r" "rs_metrics res = compute_metrics bars (br_trades r) (br_equity_curve r) cash"
    using assms by (auto simp: backtest_run_def sbind_def split: if_splits sum.splits)
  obtain b bs where bars: "bars = b # bs" using len by (cases bars) auto
  have eq: "br_equity_curve r \<noteq> []" "last (br_equity_curve r) = pf_equity (bt_close_ticks (last bars)) (br_portfolio r)"
    using run_bars_curve(2) [OF run] bars by simp_all
  have "balanced cash r" using run_bars_balanced [OF run] by simp
  moreover obtain s1 r1 where r1: "run_bar on_bar b (s, new_run cash) = Inr (s1, r1)" "run_bars on_bar bs (s1, r1) = Inr (s', r)"
    using run unfolding bars run_bars_Cons by auto
  moreover have "br_trades r1 = []" using r1(1) by (auto elim!: run_bar_elim simp: new_run_def)
  ultimately show ?thesis
    using run_bars_extends [OF r1(2)] eq
    by (auto simp: res compute_metrics_def Let_def balanced_def pf_equity_def bars extends_def prod_eq_iff)
qed

subsection \<open>Runs: no lookahead\<close>

lemma fill_intent_open_only:
  "bt_open_ticks b = bt_open_ticks b' \<Longrightarrow> bt_index b = bt_index b' \<Longrightarrow> fill_intent b i r = fill_intent b' i r"
  unfolding fill_intent_def by (elim ssubst) (simp cong: option.case_cong)

lemma fill_intents_open_only:
  "bt_open_ticks b = bt_open_ticks b' \<Longrightarrow> bt_index b = bt_index b' \<Longrightarrow> fill_intents b is r = fill_intents b' is r"
  by (induction "is" arbitrary: r) (auto simp: sbind_def fill_intent_open_only [of b b'] split: sum.splits)

lemma filter_extends:
  assumes "extends bs r r'" "\<And>b. b \<in> bs \<Longrightarrow> k < bt_index b"
  shows "filter (\<lambda>t. tr_bar_index t \<le> k) (br_trades r') = filter (\<lambda>t. tr_bar_index t \<le> k) (br_trades r)"
  using assms by (fastforce simp: extends_def trade_at_def filter_empty_conv)

text \<open>The trades up to bar \<open>b\<close> are those there are once its open has been filled.\<close>

lemma trades_through_bar:
  assumes run: "run_bars on_bar (xs @ b # ys) x = Inr (s', r')" and sorted: "sorted_wrt (<) (map bt_index (xs @ b # ys))"
  obtains s1 r1 r2 where "run_bars on_bar xs x = Inr (s1, r1)" "fill_intents b (br_pending r1) r1 = Inr r2"
    "filter (\<lambda>t. tr_bar_index t \<le> bt_index b) (br_trades r') = filter (\<lambda>t. tr_bar_index t \<le> bt_index b) (br_trades r2)"
proof -
  obtain s1 r1 s2 r3 where 1: "run_bars on_bar xs x = Inr (s1, r1)" and 2: "run_bar on_bar b (s1, r1) = Inr (s2, r3)"
    and 3: "run_bars on_bar ys (s2, r3) = Inr (s', r')"
    using run by (auto simp: run_bars_append sbind_def split: sum.splits)
  obtain r2 where r2: "fill_intents b (br_pending r1) r1 = Inr r2" "br_trades r3 = br_trades r2"
    using 2 by (auto elim!: run_bar_elim)
  have "filter (\<lambda>t. tr_bar_index t \<le> bt_index b) (br_trades r') = filter (\<lambda>t. tr_bar_index t \<le> bt_index b) (br_trades r3)"
    using sorted by (intro filter_extends [OF run_bars_extends [OF 3]]) (auto simp: sorted_wrt_append)
  then show ?thesis using that 1 r2 by simp
qed

subsection \<open>Strategies that size their orders\<close>

text \<open>What a run relies on of a strategy: in every state it can reach, each intent is for at least one unit.\<close>

locale bt_strategy =
  fixes on_bar :: "'s on_bar" and good :: "'s \<Rightarrow> bool"
  assumes sized: "good s \<Longrightarrow> 0 \<le> pv_position v \<Longrightarrow> on_bar s b v = (s', is) \<Longrightarrow> good s' \<and> (\<forall>i \<in> set is. 0 < oi_qty i)"
begin

definition solvent :: "'s \<times> bt_run \<Rightarrow> bool" where
  "solvent = (\<lambda>(s, r). good s \<and> 0 \<le> pf_cash_ticks (br_portfolio r) \<and> 0 \<le> pf_position (br_portfolio r) \<and>
     (\<forall>i \<in> set (br_pending r). 0 < oi_qty i) \<and> (\<forall>e \<in> set (br_equity_curve r). 0 \<le> e))"

lemma fill_intent_solvent:
  assumes "0 \<le> pf_cash_ticks (br_portfolio r)" "0 \<le> pf_position (br_portfolio r)" "0 < oi_qty i" "0 \<le> bt_open_ticks b"
  shows "\<exists>r'. fill_intent b i r = Inr r' \<and> 0 \<le> pf_cash_ticks (br_portfolio r') \<and> 0 \<le> pf_position (br_portfolio r')"
proof -
  have "0 \<le> bt_open_ticks b * oi_qty i - fb_taker_fee_ticks (calculate_fees (bt_open_ticks b) (oi_qty i))"
  proof -
    have "0 \<le> bt_open_ticks b * oi_qty i" using assms by simp
    then show ?thesis by (simp add: calculate_fees_def fee_consts Let_def)
  qed
  then show ?thesis using assms by (auto simp: fill_intent_def sbind_def pf_buy_def pf_sell_def Let_def)
qed

lemma fill_intents_solvent:
  "0 \<le> pf_cash_ticks (br_portfolio r) \<Longrightarrow> 0 \<le> pf_position (br_portfolio r) \<Longrightarrow> \<forall>i \<in> set is. 0 < oi_qty i \<Longrightarrow>
   0 \<le> bt_open_ticks b \<Longrightarrow>
   \<exists>r'. fill_intents b is r = Inr r' \<and> 0 \<le> pf_cash_ticks (br_portfolio r') \<and> 0 \<le> pf_position (br_portfolio r')"
proof (induction "is" arbitrary: r)
  case (Cons i "is")
  then obtain r1 where "fill_intent b i r = Inr r1" "0 \<le> pf_cash_ticks (br_portfolio r1)" "0 \<le> pf_position (br_portfolio r1)"
    using fill_intent_solvent [of r i b] by auto
  then show ?case using Cons by simp
qed simp

lemma run_bar_solvent:
  assumes x: "solvent x" and b: "0 \<le> bt_open_ticks b" "0 \<le> bt_close_ticks b"
  shows "\<exists>x'. run_bar on_bar b x = Inr x' \<and> solvent x'"
proof -
  obtain s r where sr: "x = (s, r)" by fastforce
  obtain r1 where r1: "fill_intents b (br_pending r) r = Inr r1" "0 \<le> pf_cash_ticks (br_portfolio r1)" "0 \<le> pf_position (br_portfolio r1)"
    using fill_intents_solvent [of r "br_pending r" b] x b by (auto simp: solvent_def sr)
  obtain s' "is" where ob: "on_bar s b (view_of b r1) = (s', is)" by fastforce
  have "good s' \<and> (\<forall>i \<in> set is. 0 < oi_qty i)"
    using sized [OF _ _ ob] x r1 by (simp add: solvent_def sr view_of_def)
  then show ?thesis
    using x b r1 fill_intents_keeps(2) [OF r1(1)] by (auto simp: run_bar_def sr ob solvent_def pf_equity_def)
qed

lemma run_bars_solvent:
  "solvent x \<Longrightarrow> \<forall>b \<in> set bs. 0 \<le> bt_open_ticks b \<and> 0 \<le> bt_close_ticks b \<Longrightarrow>
   \<exists>x'. run_bars on_bar bs x = Inr x' \<and> solvent x'"
proof (induction bs arbitrary: x)
  case (Cons b bs)
  then obtain x1 where "run_bar on_bar b x = Inr x1" "solvent x1" using run_bar_solvent [of x b] by auto
  then show ?case using Cons by simp
qed simp

lemma never_overdrawn:
  assumes "good s" "0 \<le> cash" "2 \<le> length bars" "\<forall>b \<in> set bars. 0 \<le> bt_open_ticks b \<and> 0 \<le> bt_close_ticks b"
  obtains s' r where "run_bars on_bar bars (s, new_run cash) = Inr (s', r)" "solvent (s', r)"
    "backtest_run on_bar s bars m cash =
       Inr \<lparr> rs_manifest = m, rs_metrics = compute_metrics bars (br_trades r) (br_equity_curve r) cash,
             rs_trades = br_trades r, rs_refused_intents = br_refused r,
             rs_unfilled_at_end = length (br_pending r), rs_first_trade_bar_index = br_first_trade_bar r \<rparr>"
proof -
  have "solvent (s, new_run cash)" using assms by (simp add: solvent_def new_run_def new_portfolio_def)
  then obtain x where "run_bars on_bar bars (s, new_run cash) = Inr x" "solvent x"
    using run_bars_solvent assms(4) by blast
  then show ?thesis using assms(3) that by (cases x) (simp add: backtest_run_def)
qed

end

definition sma_good :: "sma \<Rightarrow> bool" where
  "sma_good s \<longleftrightarrow> 1 \<le> sma_fast s \<and> sma_fast s < sma_slow s \<and> 1 \<le> sma_qty s"

lemma sma_init_good: "sma_init fast slow q = Inr s \<Longrightarrow> sma_good s"
  by (auto simp: sma_init_def sma_good_def split: if_splits)

lemma sma_on_bar_cases:
  assumes "sma_on_bar s b v = (s', is)"
  obtains "is = []" | "pv_position v < sma_qty s" "is = [\<lparr> oi_side = Side_BUY, oi_qty = sma_qty s - pv_position v \<rparr>]"
  | "sma_qty s < pv_position v" "is = [\<lparr> oi_side = Side_SELL, oi_qty = min (pv_position v - sma_qty s) (pv_position v) \<rparr>]"
  | "pv_position v < 0" "is = [\<lparr> oi_side = Side_BUY, oi_qty = - pv_position v \<rparr>]"
  | "0 < pv_position v" "is = [\<lparr> oi_side = Side_SELL, oi_qty = pv_position v \<rparr>]"
  using assms by (auto simp: sma_on_bar_def Let_def min_def split: if_splits)

lemma sma_on_bar_keeps: "sma_on_bar s b v = (s', is) \<Longrightarrow>
  sma_fast s' = sma_fast s \<and> sma_slow s' = sma_slow s \<and> sma_qty s' = sma_qty s"
  by (auto simp: sma_on_bar_def Let_def split: if_splits)

interpretation sma: bt_strategy sma_on_bar sma_good
proof
  fix s :: sma and v :: portfolio_view and b s' "is"
  assume "sma_good s" "0 \<le> pv_position v" and ob: "sma_on_bar s b v = (s', is)"
  then show "sma_good s' \<and> (\<forall>i \<in> set is. 0 < oi_qty i)"
    using sma_on_bar_keeps [OF ob] by (cases rule: sma_on_bar_cases [OF ob]) (auto simp: sma_good_def)
qed

text \<open>C22. A run never overdraws. Whatever strategy it is given, as long as its intents are for at least
  one unit, the run ends in a result, with cash and position never negative after any bar and an
  account whose worth is never below zero.\<close>

theorem never_overdraws:
  assumes "bt_strategy on_bar good" "good s" "0 \<le> cash" "2 \<le> length bars"
    and "\<forall>b \<in> set bars. 0 \<le> bt_open_ticks b \<and> 0 \<le> bt_close_ticks b"
  shows "\<exists>res. backtest_run on_bar s bars m cash = Inr res \<and> 0 \<le> mt_final_equity_ticks (rs_metrics res) \<and>
    (\<forall>k \<le> length bars. \<exists>s' r. run_bars on_bar (take k bars) (s, new_run cash) = Inr (s', r) \<and>
       0 \<le> pf_cash_ticks (br_portfolio r) \<and> 0 \<le> pf_position (br_portfolio r))"
proof -
  have start: "bt_strategy.solvent good (s, new_run cash)"
    using assms by (simp add: bt_strategy.solvent_def [OF assms(1)] new_run_def new_portfolio_def)
  obtain s' r where run: "run_bars on_bar bars (s, new_run cash) = Inr (s', r)" "bt_strategy.solvent good (s', r)"
    and res: "backtest_run on_bar s bars m cash =
       Inr \<lparr> rs_manifest = m, rs_metrics = compute_metrics bars (br_trades r) (br_equity_curve r) cash,
             rs_trades = br_trades r, rs_refused_intents = br_refused r,
             rs_unfilled_at_end = length (br_pending r), rs_first_trade_bar_index = br_first_trade_bar r \<rparr>"
    using bt_strategy.never_overdrawn [OF assms(1) assms(2-5)] by blast
  have "br_equity_curve r \<noteq> []" using run_bars_curve(2) [OF run(1)] assms(4) by (cases bars) auto
  then have "0 \<le> last (br_equity_curve r)" using run(2) by (simp add: bt_strategy.solvent_def [OF assms(1)])
  moreover have "\<exists>s' r. run_bars on_bar (take k bars) (s, new_run cash) = Inr (s', r) \<and>
       0 \<le> pf_cash_ticks (br_portfolio r) \<and> 0 \<le> pf_position (br_portfolio r)" for k
  proof -
    have "\<forall>b \<in> set (take k bars). 0 \<le> bt_open_ticks b \<and> 0 \<le> bt_close_ticks b"
      using assms(5) by (meson in_set_takeD)
    then show ?thesis
      using bt_strategy.run_bars_solvent [OF assms(1) start] by (fastforce simp: bt_strategy.solvent_def [OF assms(1)])
  qed
  ultimately show ?thesis
    using \<open>br_equity_curve r \<noteq> []\<close> by (simp add: res compute_metrics_def Let_def)
qed

definition demo_bars :: "bt_bar list" where
  "demo_bars = map (\<lambda>(k, p). bar_of (int k) (int k) [p, p + 1]) (enumerate 0 [10, 12, 15, 11, 8, 9, 14, 16, 12])"

definition demo_manifest :: manifest where
  "demo_manifest = \<lparr> mf_strategy = ''sma_crossover'', mf_parameters = [(''fast'', 1)], mf_symbol = ''A'', mf_dataset = ''d'',
     mf_dataset_sha256 = [], mf_bar_minutes = 2, mf_first_minute = 0, mf_last_minute = 18, mf_first_bar_index = 0,
     mf_last_bar_index = 8, mf_initial_cash_ticks = 100, mf_config_hash = [], mf_schema_version = 1,
     mf_fill_model = FILL_MODEL, mf_maker_fee_bps = 2, mf_taker_fee_bps = 10, mf_seed = 0 \<rparr>"

definition demo_sma :: sma where
  "demo_sma = \<lparr> sma_fast = 1, sma_slow = 2, sma_qty = 3, sma_closes = [] \<rparr>"

lemma demo_facts:
  "sma_good demo_sma" "length demo_bars = 9" "map bt_index demo_bars = [0, 1, 2, 3, 4, 5, 6, 7, 8]"
  "\<forall>b \<in> set demo_bars. 0 \<le> bt_open_ticks b \<and> 0 \<le> bt_close_ticks b"
  by (simp_all add: sma_good_def demo_sma_def demo_bars_def bar_of_def py_max_def py_min_def)

theorem never_overdraws_witness:
  "\<exists>res. backtest_run sma_on_bar demo_sma demo_bars demo_manifest 100 = Inr res \<and> 0 \<le> mt_final_equity_ticks (rs_metrics res)"
  using never_overdraws [OF sma.bt_strategy_axioms, of demo_sma 100 demo_bars demo_manifest] demo_facts by auto

theorem result_is_its_trades_witness:
  "\<exists>res. backtest_run sma_on_bar demo_sma demo_bars demo_manifest 100 = Inr res \<and>
     mt_final_equity_ticks (rs_metrics res) =
       fst (portfolio_of 100 (rs_trades res)) + snd (portfolio_of 100 (rs_trades res)) * 13"
proof -
  obtain res where res: "backtest_run sma_on_bar demo_sma demo_bars demo_manifest 100 = Inr res"
    using sma.never_overdrawn [of demo_sma 100 demo_bars demo_manifest] demo_facts by auto
  moreover have "bt_close_ticks (last demo_bars) = 13" by (simp add: demo_bars_def bar_of_def)
  ultimately show ?thesis using result_is_its_trades [OF res] by auto
qed

text \<open>C12. No lookahead. Two series of bars that agree before some bar, and agree on that bar's open, give
  the same trades up to and including it, whatever the rest of that bar and every later bar hold: for any
  strategy at all, no trade depends on a price after the one it was filled at.\<close>

theorem no_lookahead:
  assumes one: "backtest_run on_bar s (xs @ b # ys) m cash = Inr res"
    and two: "backtest_run on_bar s (xs @ b' # ys') m' cash = Inr res'"
    and same: "bt_index b' = bt_index b" "bt_open_ticks b' = bt_open_ticks b"
    and sorted: "sorted_wrt (<) (map bt_index (xs @ b # ys))" "sorted_wrt (<) (map bt_index (xs @ b' # ys'))"
  shows "filter (\<lambda>t. tr_bar_index t \<le> bt_index b) (rs_trades res) = filter (\<lambda>t. tr_bar_index t \<le> bt_index b) (rs_trades res')"
proof -
  obtain s1 r1 where run: "run_bars on_bar (xs @ b # ys) (s, new_run cash) = Inr (s1, r1)" "rs_trades res = br_trades r1"
    using one by (auto simp: backtest_run_def sbind_def split: if_splits sum.splits)
  obtain s2 r2 where run': "run_bars on_bar (xs @ b' # ys') (s, new_run cash) = Inr (s2, r2)" "rs_trades res' = br_trades r2"
    using two by (auto simp: backtest_run_def sbind_def split: if_splits sum.splits)
  obtain sa ra rb where a: "run_bars on_bar xs (s, new_run cash) = Inr (sa, ra)" "fill_intents b (br_pending ra) ra = Inr rb"
    "filter (\<lambda>t. tr_bar_index t \<le> bt_index b) (br_trades r1) = filter (\<lambda>t. tr_bar_index t \<le> bt_index b) (br_trades rb)"
    by (rule trades_through_bar [OF run(1) sorted(1)])
  obtain sa' ra' rb' where a': "run_bars on_bar xs (s, new_run cash) = Inr (sa', ra')" "fill_intents b' (br_pending ra') ra' = Inr rb'"
    "filter (\<lambda>t. tr_bar_index t \<le> bt_index b') (br_trades r2) = filter (\<lambda>t. tr_bar_index t \<le> bt_index b') (br_trades rb')"
    by (rule trades_through_bar [OF run'(1) sorted(2)])
  show ?thesis
    using a a' run(2) run'(2) same fill_intents_open_only [of b' b "br_pending ra" ra] by simp
qed

theorem no_lookahead_witness:
  "\<exists>res res'. backtest_run sma_on_bar demo_sma demo_bars demo_manifest 100 = Inr res \<and>
     backtest_run sma_on_bar demo_sma (take 4 demo_bars @ [bar_of 4 4 [8, 90]]) demo_manifest 100 = Inr res' \<and>
     filter (\<lambda>t. tr_bar_index t \<le> 4) (rs_trades res) = filter (\<lambda>t. tr_bar_index t \<le> 4) (rs_trades res')"
proof -
  have split: "demo_bars = take 4 demo_bars @ demo_bars ! 4 # drop 5 demo_bars" using demo_facts(2) id_take_nth_drop [of 4 demo_bars] by simp
  have bars': "\<forall>b \<in> set (take 4 demo_bars @ [bar_of 4 4 [8, 90]]). 0 \<le> bt_open_ticks b \<and> 0 \<le> bt_close_ticks b"
    using demo_facts(4) by (auto simp: bar_of_def dest: in_set_takeD)
  obtain res where res: "backtest_run sma_on_bar demo_sma demo_bars demo_manifest 100 = Inr res"
    using sma.never_overdrawn [of demo_sma 100 demo_bars demo_manifest] demo_facts by auto
  obtain res' where res': "backtest_run sma_on_bar demo_sma (take 4 demo_bars @ [bar_of 4 4 [8, 90]]) demo_manifest 100 = Inr res'"
    using sma.never_overdrawn [OF demo_facts(1) _ _ bars', of 100] demo_facts(2) by auto
  have "bt_index (demo_bars ! 4) = 4" "bt_open_ticks (demo_bars ! 4) = 8" by (simp_all add: demo_bars_def bar_of_def)
  then show ?thesis
    using no_lookahead [of sma_on_bar demo_sma "take 4 demo_bars" "demo_bars ! 4" "drop 5 demo_bars" demo_manifest 100 res
        "bar_of 4 4 [8, 90]" "[]" demo_manifest res'] res res' demo_facts(3) split [symmetric]
    by (simp add: bar_of_def flip: take_map)
qed

subsection \<open>The crossover\<close>

definition round_trip :: "int \<Rightarrow> bt_trade list \<Rightarrow> nat \<Rightarrow> bool" where
  "round_trip q ts k \<longleftrightarrow>
     (let t = ts ! k
      in tr_qty t = q \<and>
         (if even k then tr_side t = Side_BUY \<and> tr_realised_pnl_ticks t = 0
          else tr_side t = Side_SELL \<and>
            tr_realised_pnl_ticks t = (tr_price_ticks t - tr_price_ticks (ts ! (k - 1))) * q - tr_fee_ticks t))"

definition round_trips :: "int \<Rightarrow> bt_trade list \<Rightarrow> bool" where
  "round_trips q ts \<longleftrightarrow> (\<forall>k < length ts. round_trip q ts k)"

lemma round_trips_snoc: "round_trips q (ts @ [t]) \<longleftrightarrow> round_trips q ts \<and> round_trip q (ts @ [t]) (length ts)"
proof -
  have "round_trip q (ts @ [t]) k = round_trip q ts k" if "k < length ts" for k
    using that by (simp add: round_trip_def nth_append less_imp_diff_less)
  then show ?thesis by (auto simp: round_trips_def less_Suc_eq)
qed

definition holds :: "int \<Rightarrow> bt_run \<Rightarrow> bool" where
  "holds q r \<longleftrightarrow> round_trips q (br_trades r) \<and>
     pf_position (br_portfolio r) = (if even (length (br_trades r)) then 0 else q) \<and>
     pf_cost_basis (br_portfolio r) = (if even (length (br_trades r)) then 0 else tr_price_ticks (last (br_trades r)))"

definition closes_gap :: "int \<Rightarrow> bt_run \<Rightarrow> order_intent list \<Rightarrow> bool" where
  "closes_gap q r is \<longleftrightarrow> is = [] \<or>
     is = [\<lparr> oi_side = (if even (length (br_trades r)) then Side_BUY else Side_SELL), oi_qty = q \<rparr>]"

lemma fill_intents_holds:
  assumes "holds q r" "closes_gap q r is" "0 < q" "fill_intents b is r = Inr r'"
  shows "holds q r'"
proof (cases "even (length (br_trades r))")
  case True
  then show ?thesis
    using assms
    by (auto simp: closes_gap_def holds_def fill_intent_def sbind_def pf_buy_def Let_def round_trips_snoc round_trip_def
        split: if_splits sum.splits)
next
  case False
  then have ne: "br_trades r \<noteq> []" by auto
  have "(br_trades r @ [t]) ! (length (br_trades r) - 1) = last (br_trades r)" for t
    using ne by (simp add: nth_append last_conv_nth)
  then show ?thesis
    using assms False
    by (auto simp: closes_gap_def holds_def fill_intent_def sbind_def pf_sell_def Let_def round_trips_snoc round_trip_def
        Side_BUY_def Side_SELL_def split: if_splits sum.splits)
qed

lemma run_bar_round_trips:
  assumes "sma_good s" "sma_qty s = q" "holds q r" "closes_gap q r (br_pending r)" "run_bar sma_on_bar b (s, r) = Inr (s', r')"
  shows "sma_good s' \<and> sma_qty s' = q \<and> holds q r' \<and> closes_gap q r' (br_pending r')"
proof -
  obtain r1 "is" where r1: "fill_intents b (br_pending r) r = Inr r1" and ob: "sma_on_bar s b (view_of b r1) = (s', is)"
    and r': "r' = r1\<lparr>br_pending := is, br_equity_curve := br_equity_curve r1 @ [pf_equity (bt_close_ticks b) (br_portfolio r1)]\<rparr>"
    using run_bar_elim [OF assms(5)] .
  have q: "0 < q" using assms by (simp add: sma_good_def)
  have h: "holds q r1" using fill_intents_holds [OF assms(3,4) q r1] .
  have pos: "pv_position (view_of b r1) = (if even (length (br_trades r1)) then 0 else q)"
    using h by (simp add: holds_def view_of_def)
  have "closes_gap q r1 is"
    using q pos assms(2) by (cases rule: sma_on_bar_cases [OF ob]) (auto simp: closes_gap_def split: if_splits)
  then show ?thesis using h assms(1,2) sma_on_bar_keeps [OF ob] by (simp add: r' holds_def closes_gap_def sma_good_def)
qed

lemma run_bars_round_trips:
  "sma_good s \<Longrightarrow> sma_qty s = q \<Longrightarrow> holds q r \<Longrightarrow> closes_gap q r (br_pending r) \<Longrightarrow>
   run_bars sma_on_bar bs (s, r) = Inr (s', r') \<Longrightarrow> holds q r' \<and> closes_gap q r' (br_pending r')"
proof (induction bs arbitrary: s r)
  case (Cons b bs)
  then show ?case unfolding run_bars_Cons using run_bar_round_trips by blast
qed simp

text \<open>The crossover trades in round trips. Its trades alternate, a purchase first, each of the
  configured quantity, and a sale realises exactly the rise since the purchase before it times the
  quantity, less its own fee: the average cost basis loses nothing to rounding. At most one intent is
  left unfilled at the end.\<close>

theorem crossover_round_trips:
  assumes "sma_init fast slow q = Inr s" and "backtest_run sma_on_bar s bars m cash = Inr res"
  shows "round_trips q (rs_trades res) \<and> rs_unfilled_at_end res \<le> 1"
proof -
  obtain s' r where run: "run_bars sma_on_bar bars (s, new_run cash) = Inr (s', r)"
    and res: "rs_trades res = br_trades r" "rs_unfilled_at_end res = length (br_pending r)"
    using assms(2) by (auto simp: backtest_run_def sbind_def split: if_splits sum.splits)
  have "sma_good s" "sma_qty s = q" using assms(1) sma_init_good by (auto simp: sma_init_def split: if_splits)
  moreover have "holds q (new_run cash)" "closes_gap q (new_run cash) (br_pending (new_run cash))"
    by (simp_all add: holds_def closes_gap_def new_run_def new_portfolio_def round_trips_def)
  ultimately have "holds q r \<and> closes_gap q r (br_pending r)" using run by (rule run_bars_round_trips)
  then show ?thesis by (auto simp: res holds_def closes_gap_def)
qed

theorem crossover_round_trips_witness:
  "\<exists>res. backtest_run sma_on_bar demo_sma demo_bars demo_manifest 100 = Inr res \<and> round_trips 3 (rs_trades res)"
proof -
  obtain res where res: "backtest_run sma_on_bar demo_sma demo_bars demo_manifest 100 = Inr res"
    using sma.never_overdrawn [of demo_sma 100 demo_bars demo_manifest] demo_facts by auto
  have "sma_init 1 2 3 = Inr demo_sma" by (simp add: sma_init_def demo_sma_def)
  then show ?thesis using crossover_round_trips [OF _ res] res by blast
qed

text \<open>The average basis of a portfolio that buys twice is rounded down, so its realised profit is not the
  first-in-first-out one: buying at 10 and 11 and selling both at 20 realises 20 where the lots make 19.\<close>

lemma average_basis_rounds:
  "\<exists>t1 t2 t3 p1 p2 p3. pf_buy 10 1 (new_portfolio 100) = Inr (Some t1, p1) \<and> pf_buy 11 1 p1 = Inr (Some t2, p2) \<and>
     pf_sell 20 2 p2 = (Some t3, p3) \<and> tr_realised_pnl_ticks t3 = 20 \<and> (20 - 10) + (20 - 11) - tr_fee_ticks t3 = (19 :: int)"
  by (simp add: pf_buy_def pf_sell_def new_portfolio_def calculate_fees_def fee_consts Let_def)

end
