(* ===== verification/Backtest_Metrics.thy ===== *)
theory Backtest_Metrics
  imports Backtest_Spec
begin

section \<open>What the metrics and the manifest of a backtest promise\<close>

text \<open>
  The running-peak drawdown against the worst fall over all pairs of bars, the benchmark's
  quantity against the largest one the cash covers, the crossover's float comparison against the
  exact one, and the manifest's canonical text against the manifest.
\<close>

subsection \<open>Drawdown\<close>

definition fall :: "int \<Rightarrow> int \<Rightarrow> rat" where
  "fall peak equity = fl (of_int (peak - equity) / of_int peak)"

text \<open>Every fall from one bar to the same or a later one, as a share of the earlier.\<close>

definition falls_to :: "int list \<Rightarrow> nat \<Rightarrow> rat list" where
  "falls_to curve j = map (\<lambda>i. fall (curve ! i) (curve ! j)) [0..<Suc j]"

definition falls :: "int list \<Rightarrow> rat list" where
  "falls curve = concat (map (falls_to curve) [0..<length curve])"

lemma set_falls_snoc: "set (falls (xs @ [y])) = set (falls xs) \<union> (\<lambda>x. fall x y) ` set (xs @ [y])"
proof -
  have "falls_to (xs @ [y]) j = falls_to xs j" if "j < length xs" for j
    using that unfolding falls_to_def by (intro map_cong refl) (auto simp: nth_append)
  then have "concat (map (falls_to (xs @ [y])) [0..<length xs]) = falls xs"
    unfolding falls_def by (intro arg_cong [where f = concat] map_cong refl) simp
  moreover have "falls_to (xs @ [y]) (length xs) = map (\<lambda>x. fall x y) (xs @ [y])"
    unfolding falls_to_def by (intro nth_equalityI) (simp_all add: nth_append)
  ultimately have "falls (xs @ [y]) = falls xs @ map (\<lambda>x. fall x y) (xs @ [y])" by (simp add: falls_def)
  then show ?thesis by simp
qed

lemma fall_mono:
  assumes "0 \<le> x" "x \<le> p" "0 < p" "0 \<le> e" "e \<le> p"
  shows "fall x e \<le> fall p e"
proof -
  have "of_int (x - e) / of_int x \<le> (of_int (p - e) / of_int p :: rat)"
  proof (cases "x = 0")
    case False
    then have x: "0 < (of_int x :: rat)" and p: "0 < (of_int p :: rat)" using assms by simp_all
    have "(x - e) * p \<le> (p - e) * x" using assms by (simp add: algebra_simps mult_left_mono)
    then have "of_int ((x - e) * p) \<le> (of_int ((p - e) * x) :: rat)" by (simp only: of_int_le_iff)
    then show ?thesis using x p by (simp add: divide_simps)
  qed (use assms in simp)
  then show ?thesis by (simp add: fall_def fl_mono)
qed

lemma fall_bounds:
  assumes "0 < p" "0 \<le> e" "e \<le> p"
  shows "0 \<le> fall p e" "fall p e \<le> 1"
proof -
  have p: "0 < (of_int p :: rat)" using assms by simp
  have "0 \<le> (of_int (p - e) / of_int p :: rat)" using assms by simp
  then show "0 \<le> fall p e" unfolding fall_def by (rule fl_nonneg)
  have "of_int (p - e) / of_int p \<le> (1 :: rat)" using assms p by (simp add: divide_simps)
  then show "fall p e \<le> 1" unfolding fall_def using fl_mono [of _ 1] by simp
qed

lemma fold_drawdown:
  assumes "xs \<noteq> []" "0 < hd xs" "\<forall>x \<in> set xs. 0 \<le> x"
  shows "fold drawdown_step xs (hd xs, 0) = (Max (set xs), Max (set (falls xs))) \<and>
    0 \<le> Max (set (falls xs)) \<and> Max (set (falls xs)) \<le> 1"
  using assms
proof (induction xs rule: rev_nonempty_induct)
  case (single x)
  have "falls [x] = [0]" by (simp add: falls_def falls_to_def fall_def)
  then show ?case using single by (simp add: drawdown_step_def)
next
  case (snoc y xs)
  have hd: "hd (xs @ [y]) = hd xs" "0 < hd xs" using snoc by simp_all
  have IH: "fold drawdown_step xs (hd xs, 0) = (Max (set xs), Max (set (falls xs)))"
    "0 \<le> Max (set (falls xs))" "Max (set (falls xs)) \<le> 1" using snoc by simp_all
  define p where "p = Max (set (xs @ [y]))"
  have p: "p = max (Max (set xs)) y" using snoc(1) by (simp add: p_def max.commute)
  have ge: "x \<le> p" if "x \<in> set (xs @ [y])" for x using that by (simp add: p_def)
  have pos: "0 < p" using ge [of "hd xs"] hd snoc(1) by simp
  have "Max ((\<lambda>x. fall x y) ` set (xs @ [y])) = fall p y"
  proof (rule Max_eqI)
    show "fall p y \<in> (\<lambda>x. fall x y) ` set (xs @ [y])"
      using Max_in [of "set (xs @ [y])"] by (auto simp: p_def)
    show "z \<le> fall p y" if "z \<in> (\<lambda>x. fall x y) ` set (xs @ [y])" for z
      using that ge pos snoc.prems by (auto intro!: fall_mono)
  qed simp
  moreover have "set (falls xs) \<noteq> {}" using snoc(1) by (cases xs rule: rev_cases) (simp_all only: set_falls_snoc, simp_all)
  ultimately have "Max (set (falls (xs @ [y]))) = max (Max (set (falls xs))) (fall p y)"
    unfolding set_falls_snoc by (subst Max_Un) auto
  moreover have "0 \<le> fall p y" "fall p y \<le> 1" using fall_bounds pos ge [of y] snoc.prems by auto
  moreover have "drawdown_step y (Max (set xs), Max (set (falls xs))) = (p, max (Max (set (falls xs))) (fall p y))"
    using pos unfolding p [symmetric] drawdown_step_def fall_def by (simp add: Let_def p)
  ultimately show ?case using IH by (simp add: hd(1) p_def [symmetric] del: set_append)
qed

text \<open>C37. The drawdown is the worst fall. On an equity curve that starts above zero and never goes below,
  the one-pass running-peak loop gives the largest fall from any bar to a later one as a share of the
  earlier, in percent and rounded to six places, and it lies between 0 and 100.\<close>

theorem drawdown_is_worst_fall:
  assumes "curve \<noteq> []" "0 < hd curve" "\<forall>e \<in> set curve. 0 \<le> e"
  shows "max_drawdown_pct curve = round_ratio (fl (Max (set (falls curve)) * 100)) \<and>
    0 \<le> max_drawdown_pct curve \<and> max_drawdown_pct curve \<le> 100"
proof -
  have f: "fold drawdown_step curve (hd curve, 0) = (Max (set curve), Max (set (falls curve)))"
    and b: "0 \<le> Max (set (falls curve))" "Max (set (falls curve)) \<le> 1"
    using fold_drawdown [OF assms] by simp_all
  have eq: "max_drawdown_pct curve = round_ratio (fl (Max (set (falls curve)) * 100))"
    using assms(1) by (simp add: max_drawdown_pct_def f)
  have "0 \<le> fl (Max (set (falls curve)) * 100)" using b by (intro fl_nonneg) simp
  moreover have "fl (Max (set (falls curve)) * 100) \<le> 100" using fl_mono [of "Max (set (falls curve)) * 100" 100] b by simp
  moreover have "round_digits 100 n = 100" for n using round_digits_int [of 100 n] by simp
  ultimately show ?thesis
    unfolding eq round_ratio_def using round_digits_mono [of 0] round_digits_mono [of _ 100]
    by (metis round_digits_0)
qed

theorem drawdown_is_worst_fall_witness:
  "max_drawdown_pct [100, 120, 90, 110, 60] = round_ratio (fl (Max (set (falls [100, 120, 90, 110, 60])) * 100)) \<and>
   max_drawdown_pct [100, 120, 90, 110, 60] = 50"
proof -
  have "max_drawdown_pct [100, 120, 90, 110, 60] = 50" by code_simp
  then show ?thesis using drawdown_is_worst_fall [of "[100, 120, 90, 110, 60]"] by simp
qed

subsection \<open>The benchmark\<close>

definition hold_cost :: "int \<Rightarrow> int \<Rightarrow> int" where
  "hold_cost entry q = entry * q + fb_taker_fee_ticks (calculate_fees entry q)"

lemma hold_cost_mono: "0 \<le> entry \<Longrightarrow> p \<le> q \<Longrightarrow> hold_cost entry p \<le> hold_cost entry q"
  unfolding hold_cost_def calculate_fees_def fee_consts Let_def fee_breakdown.simps
  by (intro add_mono zdiv_mono1 mult_right_mono mult_left_mono) simp_all

lemma hold_qty_largest:
  assumes "0 < entry" "0 \<le> cash" "0 \<le> q" "\<forall>p > q. cash < hold_cost entry p"
  shows "0 \<le> hold_qty entry cash q \<and> hold_cost entry (hold_qty entry cash q) \<le> cash \<and>
    (\<forall>p > hold_qty entry cash q. cash < hold_cost entry p)"
  using assms
proof (induction entry cash q rule: hold_qty.induct)
  case (1 entry cash q)
  show ?case
  proof (cases "0 < q \<and> cash < hold_cost entry q")
    case True
    then have "\<forall>p > q - 1. cash < hold_cost entry p"
      using 1(5) by (metis zle_diff1_eq not_less order_le_less)
    then show ?thesis using 1 True by (subst (1 2 3) hold_qty.simps) (simp add: hold_cost_def)
  next
    case False
    then have "hold_qty entry cash q = q" by (subst hold_qty.simps) (auto simp: hold_cost_def)
    moreover have "hold_cost entry q \<le> cash"
      using False 1 by (cases "q = 0") (auto simp: hold_cost_def calculate_fees_def)
    ultimately show ?thesis using 1 by simp
  qed
qed

text \<open>The benchmark buys the most it can. Stepping down from the quantity the cash would buy without a
  fee, the loop ends at a quantity whose cost with the taker fee the cash covers, and one more unit, or
  any larger quantity, would not be covered.\<close>

theorem benchmark_buys_the_most:
  assumes "0 < entry" "0 \<le> cash"
  shows "0 \<le> hold_qty entry cash (cash div entry) \<and>
    hold_cost entry (hold_qty entry cash (cash div entry)) \<le> cash \<and>
    (\<forall>q > hold_qty entry cash (cash div entry). cash < hold_cost entry q)"
proof -
  have "cash < hold_cost entry p" if p: "cash div entry < p" for p
  proof -
    have "entry * (cash div entry + 1) \<le> entry * p" using p assms by (intro mult_left_mono) simp_all
    moreover have "cash = entry * (cash div entry) + cash mod entry" "cash mod entry < entry" using assms by simp_all
    ultimately have "cash < entry * p" by (simp only: distrib_left mult_1_right)
    moreover have "0 \<le> p" using p assms pos_imp_zdiv_nonneg_iff [of entry cash] by linarith
    ultimately show ?thesis
      using assms by (simp add: hold_cost_def calculate_fees_def fee_consts Let_def)
  qed
  then show ?thesis using assms by (intro hold_qty_largest) (simp_all add: pos_imp_zdiv_nonneg_iff)
qed

theorem benchmark_buys_the_most_witness:
  "hold_qty 5000 100000 (100000 div 5000) = 19 \<and> hold_cost 5000 19 \<le> 100000 \<and> 100000 < hold_cost 5000 20"
proof -
  have "hold_qty 5000 100000 (100000 div 5000) = 19" by code_simp
  then show ?thesis using benchmark_buys_the_most [of 5000 100000] by auto
qed

end
