(* ===== verification/Backtest_Service.thy ===== *)
theory Backtest_Service
  imports Backtest_Metrics
begin

section \<open>Backtests as a service\<close>

text \<open>
  The manifest's text determines the manifest, the crossover's comparison of two float means is
  the comparison of the exact means for any prices the exchange can show, and what the endpoint
  answers to every request it accepts.
\<close>

subsection \<open>The manifest\<close>

lemma map_of_sort_key:
  assumes "distinct (map fst kvs)"
  shows "map_of (sort_key fst kvs) = map_of kvs"
proof -
  have "mset (map fst (sort_key fst kvs)) = mset (map fst kvs)" by simp
  then have "distinct (map fst (sort_key fst kvs))" using assms by (metis mset_eq_imp_distinct_iff)
  then show ?thesis using assms by (simp add: map_of_inject_set)
qed

lemma manifest_dict_keys: "distinct (map fst (manifest_dict m))"
  by (simp add: manifest_dict_def)

lemma sort_members_obj_inject:
  assumes "sort_members (JObj kvs) = sort_members (JObj kvs')" "distinct (map fst kvs)" "distinct (map fst kvs')"
  shows "map_option sort_members (dget kvs k) = map_option sort_members (dget kvs' k)"
proof -
  let ?f = "map (\<lambda>(k, v). (k, sort_members v))"
  have keys: "map fst (?f xs) = map fst xs" for xs :: "(string \<times> json) list" by (induction xs) auto
  have "map_of (?f kvs) = map_of (?f kvs')"
    using assms(1) map_of_sort_key [of "?f kvs", unfolded keys, OF assms(2)]
      map_of_sort_key [of "?f kvs'", unfolded keys, OF assms(3)] by simp
  then show ?thesis by (simp add: map_of_map fun_eq_iff)
qed

lemma wf_sort_members: "wf_json v \<Longrightarrow> wf_json (sort_members v)"
proof (induction v rule: sort_members.induct)
  case (1 kvs)
  let ?f = "map (\<lambda>(k, v). (k, sort_members v))"
  have "map fst (?f kvs) = map fst kvs" by (induction kvs) auto
  then have "mset (map fst (sort_key fst (?f kvs))) = mset (map fst kvs)"
    by (metis mset_map mset_sort)
  then have "distinct (map fst (sort_key fst (?f kvs)))" using 1 by (metis mset_eq_imp_distinct_iff wf_json.simps(2))
  then show ?case using 1 by fastforce
qed auto

definition wf_manifest :: "manifest \<Rightarrow> bool" where
  "wf_manifest m \<longleftrightarrow> wf_dict (mf_parameters m)"

lemma wf_manifest_dict: "wf_manifest m \<Longrightarrow> wf_json (JObj (manifest_dict m))"
  by (auto simp: wf_manifest_def wf_dict_def manifest_dict_def o_def case_prod_beta)

text \<open>The manifest's text determines the manifest. Two manifests with the same canonical JSON agree in
  every field and in the value of every strategy parameter, so runs that share an id's text had the same
  inputs.\<close>

theorem manifest_text_determines:
  assumes "wf_manifest m" "wf_manifest m'" "manifest_json m = manifest_json m'"
  shows "m\<lparr>mf_parameters := []\<rparr> = m'\<lparr>mf_parameters := []\<rparr> \<and> dget (mf_parameters m) = dget (mf_parameters m')"
proof -
  have wf: "wf_json (sort_members (JObj (manifest_dict m)))" "wf_json (sort_members (JObj (manifest_dict m')))"
    by (intro wf_sort_members wf_manifest_dict assms)+
  have "Inr (sort_members (JObj (manifest_dict m))) = (Inr (sort_members (JObj (manifest_dict m'))) :: exn + json)"
    using assms(3) json_loads_dumps [OF wf(1)] json_loads_dumps [OF wf(2)] by (simp add: manifest_json_def)
  then have eq: "sort_members (JObj (manifest_dict m)) = sort_members (JObj (manifest_dict m'))" by simp
  note at = sort_members_obj_inject [OF eq manifest_dict_keys manifest_dict_keys]
  have P: "sort_members (JObj (map (\<lambda>(k, v). (k, JInt v)) (mf_parameters m))) =
      sort_members (JObj (map (\<lambda>(k, v). (k, JInt v)) (mf_parameters m')))"
    using at [of "''parameters''"] by (simp add: manifest_dict_def)
  have d: "distinct (map fst (map (\<lambda>(k, v). (k, JInt v)) (mf_parameters x)))" if "wf_manifest x" for x
    using that by (auto simp: wf_manifest_def wf_dict_def o_def case_prod_beta)
  have J: "dget (map (\<lambda>(k, v). (k, JInt v)) ps) k = map_option JInt (dget ps k)" for ps :: "(string, int) dict" and k
    by (induction ps) auto
  have "dget (mf_parameters m) k = dget (mf_parameters m') k" for k
    using sort_members_obj_inject [OF P d [OF assms(1)] d [OF assms(2)], of k]
    by (auto simp: J option.map_comp o_def split: option.splits elim!: option.inj_map_strong [rotated])
  then have "dget (mf_parameters m) = dget (mf_parameters m')" by blast
  moreover have "m\<lparr>mf_parameters := []\<rparr> = m'\<lparr>mf_parameters := []\<rparr>"
    using at [of "''strategy''"] at [of "''symbol''"] at [of "''dataset''"] at [of "''dataset_sha256''"]
      at [of "''bar_minutes''"] at [of "''first_minute''"] at [of "''last_minute''"] at [of "''first_bar_index''"]
      at [of "''last_bar_index''"] at [of "''initial_cash_ticks''"] at [of "''config_hash''"]
      at [of "''schema_version''"] at [of "''fill_model''"] at [of "''maker_fee_bps''"] at [of "''taker_fee_bps''"]
      at [of "''seed''"]
    by (cases m; cases m') (simp add: manifest_dict_def)
  ultimately show ?thesis by simp
qed

definition demo_manifest_2 :: "(string, int) dict \<Rightarrow> manifest" where
  "demo_manifest_2 ps = demo_manifest\<lparr>mf_parameters := ps\<rparr>"

theorem manifest_text_determines_witness:
  "dget [(''fast'', 1 :: int), (''slow'', 2)] = dget [(''slow'', 2), (''fast'', 1)]"
proof -
  have "manifest_json (demo_manifest_2 [(''fast'', 1), (''slow'', 2)]) = manifest_json (demo_manifest_2 [(''slow'', 2), (''fast'', 1)])"
    by code_simp
  then show ?thesis
    using manifest_text_determines [of "demo_manifest_2 [(''fast'', 1), (''slow'', 2)]" "demo_manifest_2 [(''slow'', 2), (''fast'', 1)]"]
    by (simp add: wf_manifest_def wf_dict_def demo_manifest_2_def)
qed

subsection \<open>The crossover's comparison\<close>

text \<open>Bounded sums over bounded windows are far enough apart for their rounded means to keep their order.\<close>

lemma signal_is_exact:
  assumes "0 < fast" "0 < slow" "fast \<le> 1000" "slow \<le> 1000"
    and "0 \<le> sum_list xs" "sum_list xs < 10 ^ 9 * fast" "0 \<le> sum_list ys" "sum_list ys < 10 ^ 9 * slow"
  shows "mean ys slow < mean xs fast \<longleftrightarrow> sum_list ys * fast < sum_list xs * slow"
proof
  have pos: "0 < (of_int fast :: rat)" "0 < (of_int slow :: rat)" using assms by simp_all
  have exact: "of_int (sum_list ys) / of_int slow < (of_int (sum_list xs) / of_int fast :: rat) \<longleftrightarrow> sum_list ys * fast < sum_list xs * slow"
    using pos by (simp add: divide_simps flip: of_int_mult)
  show "mean ys slow < mean xs fast \<Longrightarrow> sum_list ys * fast < sum_list xs * slow"
    unfolding mean_def exact [symmetric] by (rule fl_less_imp)
  assume less: "sum_list ys * fast < sum_list xs * slow"
  define x y :: rat where "x = of_int (sum_list xs) / of_int fast" and "y = of_int (sum_list ys) / of_int slow"
  have "y < x" using less exact by (simp add: x_def y_def)
  moreover have "0 \<le> y" using assms by (simp add: y_def)
  moreover have "y + x < (x - y) * 2 ^ 53"
  proof -
    have "x < 10 ^ 9"
    proof -
      have "of_int (sum_list xs) < (of_int (10 ^ 9 * fast) :: rat)" using assms(6) by (simp only: of_int_less_iff)
      then show ?thesis using pos by (simp add: x_def pos_divide_less_eq)
    qed
    moreover have "1 / 10 ^ 6 \<le> x - y"
    proof -
      have "x - y = of_int (sum_list xs * slow - sum_list ys * fast) / of_int (fast * slow)"
        using pos by (simp add: x_def y_def divide_simps)
      moreover have "(1 :: rat) \<le> of_int (sum_list xs * slow - sum_list ys * fast)"
        using less by (simp only: of_int_1_le_iff)
      moreover have "of_int (fast * slow) \<le> (10 ^ 6 :: rat)"
      proof -
        have "fast * slow \<le> 1000 * 1000" using assms by (intro mult_mono) simp_all
        then have "of_int (fast * slow) \<le> (of_int (1000 * 1000) :: rat)" by (simp only: of_int_le_iff)
        then show ?thesis by simp
      qed
      ultimately show ?thesis using pos by (simp only:) (rule frac_le; simp)
    qed
    ultimately show ?thesis using \<open>y < x\<close> by simp
  qed
  ultimately show "mean ys slow < mean xs fast" unfolding mean_def x_def y_def using fl_separated by blast
qed

lemma sum_list_bounds:
  "\<forall>x \<in> set xs. 0 \<le> x \<and> x < M \<Longrightarrow> xs \<noteq> [] \<Longrightarrow> 0 \<le> sum_list xs \<and> sum_list xs < M * int (length xs)" for M :: int
proof (induction xs)
  case (Cons x xs)
  then show ?case by (cases xs) (auto simp: algebra_simps)
qed simp

text \<open>The crossover with the means compared exactly.\<close>

definition sma_exact :: "sma on_bar" where
  "sma_exact s bar view =
     (let closes = push_bounded (sma_slow s) (bt_close_ticks bar) (sma_closes s);
          s' = s\<lparr>sma_closes := closes\<rparr>
      in if int (length closes) < sma_slow s then (s', [])
         else
           let above = sum_list closes * sma_fast s < sum_list (last_n (sma_fast s) closes) * sma_slow s;
               gap = (if above then sma_qty s else 0) - pv_position view
           in (s', if gap = 0 then []
                   else if 0 < gap then [\<lparr> oi_side = Side_BUY, oi_qty = gap \<rparr>]
                   else [\<lparr> oi_side = Side_SELL, oi_qty = min (- gap) (pv_position view) \<rparr>]))"

text \<open>C38. The crossover's float comparison is exact. With windows of at most a thousand bars and prices
  below ten to the nine ticks, the strategy, which compares two rounded float means, decides on every
  bar as it would comparing the exact means.\<close>

theorem crossover_compares_exactly:
  assumes "sma_good s" "sma_slow s \<le> 1000" "\<forall>c \<in> set (bt_close_ticks bar # sma_closes s). 0 \<le> c \<and> c < 10 ^ 9"
  shows "sma_on_bar s bar view = sma_exact s bar view"
proof (cases "int (length (push_bounded (sma_slow s) (bt_close_ticks bar) (sma_closes s))) < sma_slow s")
  case True
  then show ?thesis by (simp add: sma_on_bar_def sma_exact_def)
next
  case False
  define cs where "cs = push_bounded (sma_slow s) (bt_close_ticks bar) (sma_closes s)"
  have w: "1 \<le> sma_fast s" "sma_fast s < sma_slow s" using assms(1) by (simp_all add: sma_good_def)
  have len: "int (length cs) = sma_slow s" using False w by (simp add: cs_def push_bounded_def Let_def del: drop_append)
  have cs: "\<forall>c \<in> set cs. 0 \<le> c \<and> c < 10 ^ 9"
    using assms(3) set_drop_subset by (fastforce simp: cs_def push_bounded_def Let_def)
  have last: "int (length (last_n (sma_fast s) cs)) = sma_fast s" "\<forall>c \<in> set (last_n (sma_fast s) cs). 0 \<le> c \<and> c < 10 ^ 9"
    using cs len w by (auto simp: last_n_def dest: in_set_dropD)
  have "cs \<noteq> []" "last_n (sma_fast s) cs \<noteq> []" using len last w by auto
  then have "mean cs (sma_slow s) < mean (last_n (sma_fast s) cs) (sma_fast s) \<longleftrightarrow>
      sum_list cs * sma_fast s < sum_list (last_n (sma_fast s) cs) * sma_slow s"
    using sum_list_bounds [OF cs] sum_list_bounds [OF last(2)] len last(1) w assms(2)
    by (intro signal_is_exact) simp_all
  then show ?thesis using False by (simp add: sma_on_bar_def sma_exact_def cs_def Let_def)
qed

theorem crossover_compares_exactly_witness:
  "sma_on_bar (demo_sma\<lparr>sma_closes := [12]\<rparr>) (bar_of 1 1 [11, 13]) \<lparr> pv_cash_ticks = 9, pv_position = 0, pv_bar_index = 1 \<rparr> =
   sma_exact (demo_sma\<lparr>sma_closes := [12]\<rparr>) (bar_of 1 1 [11, 13]) \<lparr> pv_cash_ticks = 9, pv_position = 0, pv_bar_index = 1 \<rparr>"
  by (rule crossover_compares_exactly) (simp_all add: sma_good_def demo_sma_def bar_of_def)

subsection \<open>The endpoint\<close>

lemma bar_of_prices:
  "ms \<noteq> [] \<Longrightarrow> \<forall>c \<in> set ms. 0 \<le> c \<Longrightarrow> 0 \<le> bt_open_ticks (bar_of i j ms) \<and> 0 \<le> bt_close_ticks (bar_of i j ms)"
  by (simp add: bar_of_def)

lemma build_bars_prices:
  assumes "0 < w" "\<forall>c \<in> set ms. 0 \<le> c"
  shows "\<forall>b \<in> set (map (nth_bar w ms) [0..<length ms div w]). 0 \<le> bt_open_ticks b \<and> 0 \<le> bt_close_ticks b"
proof -
  have "bucket w ms k \<noteq> [] \<and> (\<forall>c \<in> set (bucket w ms k). 0 \<le> c)" if k: "k < length ms div w" for k
  proof -
    have "length (bucket w ms k) = w" using length_bucket [OF assms(1) k] .
    then have "bucket w ms k \<noteq> []" using assms(1) by (metis length_0_conv less_irrefl)
    then show ?thesis using assms(2) by (auto simp: bucket_def dest: in_set_takeD in_set_dropD)
  qed
  then show ?thesis unfolding nth_bar_def using bar_of_prices by auto
qed

lemma run_from_dataset_ok:
  assumes hist: "cached_history file sha = Inr h" "dget h name = Some closes"
    and range: "0 \<le> a" "a < z" "z \<le> int (length closes)" and w: "0 < w" "2 * int w \<le> z - a"
    and pos: "\<forall>c \<in> set closes. 0 \<le> c" and strat: "bt_strategy on_bar good" "good s"
  shows "\<exists>res. run_from_dataset (sha, ch) pn file sn ps on_bar s name (int w) a (Some z) None seed = Inr res"
proof -
  define ms where "ms = py_slice closes a z"
  have len: "int (length ms) = z - a" using range by (simp add: ms_def py_slice_def)
  have ms: "\<forall>c \<in> set ms. 0 \<le> c" using pos by (auto simp: ms_def py_slice_def dest: in_set_takeD in_set_dropD)
  have "2 * w \<le> length ms" using w len by linarith
  then have two: "2 \<le> length ms div w" using w(1) by (simp add: less_eq_div_iff_mult_less_eq)
  define bars where "bars = map (nth_bar w ms) [0..<length ms div w]"
  have bars: "load_bars file sha name (int w) a (Some z) = Inr bars"
    using range hist build_bars_eq [OF w(1), of ms] by (simp add: load_bars_def Let_def min_def ms_def bars_def)
  have ok: "\<forall>b \<in> set bars. 0 \<le> bt_open_ticks b \<and> 0 \<le> bt_close_ticks b"
    unfolding bars_def by (rule build_bars_prices [OF w(1) ms])
  obtain b bs where B: "bars = b # bs" using two by (cases bars) (auto simp: bars_def)
  have lb: "2 \<le> length bars" using two by (simp add: bars_def)
  define cash where "cash = bt_open_ticks b * DEFAULT_CASH_MULTIPLE"
  have cash: "default_cash_ticks bars = Inr cash" "0 \<le> cash"
    using ok by (simp_all add: default_cash_ticks_def B cash_def DEFAULT_CASH_MULTIPLE_def)
  have "\<exists>res. backtest_run on_bar s bars m cash = Inr res" for m
    using bt_strategy.never_overdrawn [OF strat(1) strat(2) cash(2) lb ok] by blast
  then show ?thesis by (simp add: run_from_dataset_def bars cash(1)) (simp add: B)
qed

text \<open>C28. A request for a listed symbol is answered with a result. With the pinned file in place, holding at
  least 10,080 minutes of prices for the symbol, every request that passes validation and names the
  known strategy and days in order is answered 201, and the stored result is found under its id until
  it expires an hour later.\<close>

theorem backtests_are_served:
  assumes q: "valid_request q" "rq_strategy q \<in> set STRATEGIES" "rq_first_day q \<le> rq_last_day q"
    and pinned: "sha = [] \<or> fst file = sha" "dget (load_price_history (snd file)) (rq_symbol q) = Some closes"
    and data: "10080 \<le> length closes" "\<forall>c \<in> set closes. 0 \<le> c"
    and table: "tick_size_for symbols (rq_symbol q) = Inr tick"
  shows "\<exists>payload store'. run_backtest sha256 symbols (sha, ch) pn file now q store = (Created payload, store') \<and>
    get_backtest (now + RESULT_TTL_SECONDS - 1) (pl_id payload) store' = Found payload \<and>
    get_backtest (now + RESULT_TTL_SECONDS) (pl_id payload) store' = Refused 404 ''NOT_FOUND''"
proof -
  have days: "1 \<le> rq_first_day q" "rq_last_day q \<le> 7" "1 \<le> rq_bar_minutes q" "rq_bar_minutes q \<le> 60"
    using q(1) by (simp_all add: valid_request_def MAX_DAY_def MINUTES_PER_SIMULATED_DAY_def)
  define a z where "a = (rq_first_day q - 1) * MINUTES_PER_SIMULATED_DAY" and "z = rq_last_day q * MINUTES_PER_SIMULATED_DAY"
  have D: "day_range_to_minutes (rq_first_day q) (rq_last_day q) = Inr (a, z)"
    using days q(3) by (simp add: day_range_to_minutes_def a_def z_def)
  define s where "s = \<lparr> sma_fast = 10, sma_slow = 30, sma_qty = 1, sma_closes = [] \<rparr>"
  have S: "sma_init 10 30 1 = Inr s" by (simp add: sma_init_def s_def)
  have H: "cached_history file sha = Inr (load_price_history (snd file))"
    using pinned(1) by (auto simp: cached_history_def verify_checksum_def)
  have W: "int (nat (rq_bar_minutes q)) = rq_bar_minutes q" using days by simp
  have "\<exists>res. run_from_dataset (sha, ch) pn file ''sma_crossover'' (sma_parameters s) sma_on_bar s (rq_symbol q)
      (int (nat (rq_bar_minutes q))) a (Some z) None 0 = Inr res"
    using days q(3) data by (intro run_from_dataset_ok [OF H pinned(2) _ _ _ _ _ _ sma.bt_strategy_axioms sma_init_good [OF S]])
      (simp_all add: a_def z_def MINUTES_PER_SIMULATED_DAY_def)
  then obtain res where R: "run_from_dataset (sha, ch) pn file ''sma_crossover'' (sma_parameters s) sma_on_bar s (rq_symbol q)
      (rq_bar_minutes q) a (Some z) None 0 = Inr res" unfolding W ..
  show ?thesis using q(2,3) by (simp add: run_backtest_def D S R backtest_payload_def table get_backtest_def RESULT_TTL_SECONDS_def)
qed

definition week_file :: "string \<times> (string \<times> int) list" where
  "week_file = (''d'', replicate 10080 (''QAA'', 5000))"

theorem backtests_are_served_witness:
  "\<exists>payload store'.
     run_backtest (\<lambda>t. t) [\<lparr> sm_symbol_id = 1, sm_name = ''QAA'', sm_tick_size_ticks = 100, sm_lot_size = 1 \<rparr>] (''d'', ''c'') ''f''
       week_file 7 \<lparr> rq_symbol = ''QAA'', rq_strategy = ''sma_crossover'', rq_bar_minutes = 5, rq_first_day = 2, rq_last_day = 3 \<rparr> []
       = (Created payload, store') \<and>
     get_backtest 3606 (pl_id payload) store' = Found payload"
proof -
  have "map snd (filter (\<lambda>r. fst r = ''QAA'') (replicate n (''QAA'', p))) = replicate n p" for n and p :: int
    by simp
  then have "dget (load_price_history (snd week_file)) ''QAA'' = Some (replicate 10080 5000)"
    by (simp add: dget_load_price_history week_file_def Let_def)
  then show ?thesis
    using backtests_are_served [of "\<lparr> rq_symbol = ''QAA'', rq_strategy = ''sma_crossover'', rq_bar_minutes = 5, rq_first_day = 2, rq_last_day = 3 \<rparr>"
        "''d''" week_file "replicate 10080 5000"
        "[\<lparr> sm_symbol_id = 1, sm_name = ''QAA'', sm_tick_size_ticks = 100, sm_lot_size = 1 \<rparr>]" 100 "\<lambda>t. t" "''c''" "''f''" 7 "[]"]
    by (simp add: valid_request_def MAX_DAY_def MINUTES_PER_SIMULATED_DAY_def STRATEGIES_def tick_size_for_def
        week_file_def RESULT_TTL_SECONDS_def)
      blast
qed

text \<open>A data file that is not the pinned one is reported to the client as its own range being too short.\<close>

lemma wrong_file_reads_as_short_range:
  assumes "sha \<noteq> []" "fst file \<noteq> sha" "rq_strategy q \<in> set STRATEGIES" "1 \<le> rq_first_day q" "rq_first_day q \<le> rq_last_day q"
  shows "fst (run_backtest sha256 symbols (sha, ch) pn file now q store) = Refused 400 ''RANGE_TOO_SHORT''"
  using assms
  by (simp add: run_backtest_def day_range_to_minutes_def sma_init_def run_from_dataset_def load_bars_def cached_history_def
      verify_checksum_def)

end
