(* ===== verification/Bot_Client.thy ===== *)
theory Bot_Client
  imports Order_Flow
begin

section \<open>A bot's connection: services/bots/client.py\<close>

text \<open>
  \<open>BotClient\<close> against any server. The client's state holds its attributes and, in \<open>bc_sent\<close>,
  every request it has put on the wire; a server is a function \<open>serve\<close> of that whole history
  giving the answer to its last request, or the exception the HTTP library raised, so one
  function stands for every behaviour a gateway can have. An operation is a state transformer
  that keeps its changes when it raises.

  The session cookie is not modelled: what a server makes of it is part of \<open>serve\<close>. Neither
  are the sleeps between attempts. \<open>str_of\<close> is Python's \<open>str\<close> of a JSON value, used for the
  reason of a refusal that has no object to read one from.
\<close>

subsection \<open>Operations that may raise\<close>

type_synonym ('s, 'a) act = "'s \<Rightarrow> (exn + 'a) \<times> 's"

definition ret :: "'a \<Rightarrow> ('s, 'a) act" where "ret x = (\<lambda>s. (Inr x, s))"
definition lift :: "exn + 'a \<Rightarrow> ('s, 'a) act" where "lift r = (\<lambda>s. (r, s))"
definition modify :: "('s \<Rightarrow> 's) \<Rightarrow> ('s, unit) act" where "modify f = (\<lambda>s. (Inr (), f s))"
definition ask :: "('s \<Rightarrow> 'a) \<Rightarrow> ('s, 'a) act" where "ask f = (\<lambda>s. (Inr (f s), s))"

definition and_then :: "('s, 'a) act \<Rightarrow> ('a \<Rightarrow> ('s, 'b) act) \<Rightarrow> ('s, 'b) act" where
  "and_then m f = (\<lambda>s. case m s of (Inl e, s') \<Rightarrow> (Inl e, s') | (Inr x, s') \<Rightarrow> f x s')"

subsection \<open>Requests, responses and outcomes\<close>

datatype bot_request =
    Register
  | Log_In
  | Get_Portfolio
  | Get_Open_Orders
  | Post_Order order_body
  | Delete_Order int int

record response =
  rp_status :: int
  rp_json :: "json option"
  rp_text :: string

type_synonym server = "bot_request list \<Rightarrow> exn + response"

record order_outcome =
  oc_accepted :: bool
  oc_client_order_id :: int
  oc_seq :: json
  oc_reason :: json
  oc_rate_limited :: bool
  oc_halted :: bool

record bot_client =
  bc_next_id :: int
  bc_user_id :: json
  bc_cash_ticks :: int
  bc_positions :: "(int, int) dict"
  bc_sent :: "bot_request list"

text \<open>A new process counts from the milliseconds since the epoch; \<open>now_ns\<close> is the clock's reading.\<close>

definition new_client_order_id_base :: "int \<Rightarrow> int" where
  "new_client_order_id_base now_ns = now_ns div 1000000"

definition new_bot_client :: "int \<Rightarrow> bot_client" where
  "new_bot_client now_ns =
     \<lparr> bc_next_id = new_client_order_id_base now_ns, bc_user_id = JNull, bc_cash_ticks = 0, bc_positions = [],
       bc_sent = [] \<rparr>"

definition response_json :: "response \<Rightarrow> exn + json" where
  "response_json r = (case rp_json r of None \<Rightarrow> Inl ValueError | Some v \<Rightarrow> Inr v)"

text \<open>\<open>body.get(key, default)\<close> on a decoded body: an attribute error unless it is an object.\<close>

definition json_get :: "string \<Rightarrow> json \<Rightarrow> json \<Rightarrow> exn + json" where
  "json_get key dflt v =
     (case v of JObj kvs \<Rightarrow> Inr (case dget kvs key of None \<Rightarrow> dflt | Some x \<Rightarrow> x) | _ \<Rightarrow> Inl AttributeError)"

definition refusal_reason :: "(json \<Rightarrow> string) \<Rightarrow> response \<Rightarrow> exn + json" where
  "refusal_reason str_of r =
     (case response_json r of
        Inl e \<Rightarrow> Inr (JStr (rp_text r))
      | Inr body \<Rightarrow>
          sbind (json_get ''detail'' (JObj []) body) (\<lambda>detail.
            case detail of JObj kvs \<Rightarrow> json_get ''reason'' JNull detail | _ \<Rightarrow> Inr (JStr (str_of detail))))"

definition outcome_of :: "(json \<Rightarrow> string) \<Rightarrow> response \<Rightarrow> int \<Rightarrow> exn + order_outcome" where
  "outcome_of str_of r coid =
     (if rp_status r = 200 \<or> rp_status r = 202 then
        sbind (response_json r) (\<lambda>body.
        sbind (json_get ''seq'' JNull body) (\<lambda>seq.
          Inr \<lparr> oc_accepted = True, oc_client_order_id = coid, oc_seq = seq, oc_reason = JNull,
                oc_rate_limited = False, oc_halted = False \<rparr>))
      else
        sbind (refusal_reason str_of r) (\<lambda>reason.
          Inr \<lparr> oc_accepted = False, oc_client_order_id = coid, oc_seq = JNull, oc_reason = reason,
                oc_rate_limited = (rp_status r = 429), oc_halted = (rp_status r = 503) \<rparr>))"

subsection \<open>Requests on the wire\<close>

definition http_request :: "server \<Rightarrow> bot_request \<Rightarrow> (bot_client, response) act" where
  "http_request serve req = (\<lambda>c. let c' = c\<lparr>bc_sent := bc_sent c @ [req]\<rparr> in (serve (bc_sent c'), c'))"

definition take_client_order_id :: "(bot_client, int) act" where
  "take_client_order_id = (\<lambda>c. (Inr (bc_next_id c), c\<lparr>bc_next_id := bc_next_id c + 1\<rparr>))"

definition log_in :: "server \<Rightarrow> (bot_client, response) act" where
  "log_in serve =
     and_then (http_request serve Log_In) (\<lambda>r.
       if rp_status r = 200 then
         and_then (lift (sbind (response_json r) (jget ''user_id''))) (\<lambda>uid.
         and_then (modify (\<lambda>c. c\<lparr>bc_user_id := uid\<rparr>)) (\<lambda>_. ret r))
       else ret r)"

text \<open>\<open>_request\<close>: on a 401, log in and send the same request once more.\<close>

definition authed :: "server \<Rightarrow> bot_request \<Rightarrow> (bot_client, response) act" where
  "authed serve req =
     and_then (http_request serve req) (\<lambda>r.
       if rp_status r \<noteq> 401 then ret r
       else and_then (log_in serve) (\<lambda>l. if rp_status l \<noteq> 200 then ret r else http_request serve req))"

text \<open>\<open>attempts\<close> of \<open>sign_in\<close> and \<open>await_funding\<close>: at least one, as the code calls them.\<close>

fun sign_in :: "server \<Rightarrow> nat \<Rightarrow> (bot_client, unit) act" where
  "sign_in serve 0 = lift (Inl RuntimeError)"
| "sign_in serve (Suc n) =
     and_then (http_request serve Register) (\<lambda>registered.
       if rp_status registered = 201 \<or> rp_status registered = 409 then
         and_then (log_in serve) (\<lambda>l.
           if rp_status l = 200 then ret ()
           else if rp_status l = 401 then lift (Inl RuntimeError)
           else sign_in serve n)
       else sign_in serve n)"

definition position_pair :: "json \<Rightarrow> exn + (int \<times> int)" where
  "position_pair p = sbind (sbind (jget ''symbol_id'' p) jint) (\<lambda>sy. sbind (sbind (jget ''qty'' p) jint) (\<lambda>q. Inr (sy, q)))"

definition refresh :: "server \<Rightarrow> (bot_client, unit) act" where
  "refresh serve =
     and_then (authed serve Get_Portfolio) (\<lambda>r.
       if rp_status r \<noteq> 200 then ret ()
       else
         and_then (lift (response_json r)) (\<lambda>body.
         and_then (lift (sbind (jget ''cash_ticks'' body) jint)) (\<lambda>cash.
         and_then (modify (\<lambda>c. c\<lparr>bc_cash_ticks := cash\<rparr>)) (\<lambda>_.
         and_then (lift (sbind (sbind (jget ''positions'' body) jlist) (each position_pair))) (\<lambda>ps.
           modify (\<lambda>c. c\<lparr>bc_positions := dict_of ps\<rparr>))))))"

definition bc_position :: "int \<Rightarrow> bot_client \<Rightarrow> int" where
  "bc_position sy c = dget0 (bc_positions c) sy"

fun await_funding :: "server \<Rightarrow> nat \<Rightarrow> (bot_client, int) act" where
  "await_funding serve 0 = lift (Inl RuntimeError)"
| "await_funding serve (Suc n) =
     and_then (refresh serve) (\<lambda>_.
     and_then (ask bc_cash_ticks) (\<lambda>cash. if 0 < cash then ret cash else await_funding serve n))"

definition open_orders_of :: "server \<Rightarrow> (bot_client, json list) act" where
  "open_orders_of serve =
     and_then (authed serve Get_Open_Orders) (\<lambda>r.
       if rp_status r = 200 then lift (sbind (response_json r) jlist) else ret [])"

subsection \<open>Orders\<close>

definition submit_body :: "server \<Rightarrow> (json \<Rightarrow> string) \<Rightarrow> order_body \<Rightarrow> (bot_client, order_outcome) act" where
  "submit_body serve str_of body =
     and_then (authed serve (Post_Order body)) (\<lambda>r. lift (outcome_of str_of r (bd_client_order_id body)))"

definition limit_body :: "int \<Rightarrow> int \<Rightarrow> int \<Rightarrow> int \<Rightarrow> int \<Rightarrow> order_body" where
  "limit_body coid sy sd px q =
     \<lparr> bd_client_order_id = coid, bd_symbol_id = sy, bd_side = sd, bd_tif = Tif_GTC, bd_price_ticks = Some px,
       bd_qty = q, bd_market = False \<rparr>"

definition market_body :: "int \<Rightarrow> int \<Rightarrow> int \<Rightarrow> int \<Rightarrow> order_body" where
  "market_body coid sy sd q =
     \<lparr> bd_client_order_id = coid, bd_symbol_id = sy, bd_side = sd, bd_tif = Tif_IOC, bd_price_ticks = None,
       bd_qty = q, bd_market = True \<rparr>"

definition submit_limit ::
  "server \<Rightarrow> (json \<Rightarrow> string) \<Rightarrow> int \<Rightarrow> int \<Rightarrow> int \<Rightarrow> int \<Rightarrow> int option \<Rightarrow> (bot_client, order_outcome) act" where
  "submit_limit serve str_of sy sd px q coid =
     and_then (case coid of None \<Rightarrow> take_client_order_id | Some k \<Rightarrow> ret k) (\<lambda>k.
       submit_body serve str_of (limit_body k sy sd px q))"

definition submit_market :: "server \<Rightarrow> (json \<Rightarrow> string) \<Rightarrow> int \<Rightarrow> int \<Rightarrow> int \<Rightarrow> (bot_client, order_outcome) act" where
  "submit_market serve str_of sy sd q =
     and_then take_client_order_id (\<lambda>k. submit_body serve str_of (market_body k sy sd q))"

definition cancel_order :: "server \<Rightarrow> (json \<Rightarrow> string) \<Rightarrow> int \<Rightarrow> (bot_client, order_outcome) act" where
  "cancel_order serve str_of target =
     and_then take_client_order_id (\<lambda>k.
     and_then (authed serve (Delete_Order target k)) (\<lambda>r. lift (outcome_of str_of r k)))"

fun cancel_each :: "server \<Rightarrow> (json \<Rightarrow> string) \<Rightarrow> json list \<Rightarrow> nat \<Rightarrow> (bot_client, nat) act" where
  "cancel_each serve str_of [] n = ret n"
| "cancel_each serve str_of (o1 # os) n =
     and_then (lift (sbind (jget ''client_order_id'' o1) jint)) (\<lambda>target.
     and_then (cancel_order serve str_of target) (\<lambda>out.
       cancel_each serve str_of os (n + (if oc_accepted out then 1 else 0))))"

definition cancel_all_resting :: "server \<Rightarrow> (json \<Rightarrow> string) \<Rightarrow> (bot_client, nat) act" where
  "cancel_all_resting serve str_of =
     and_then (open_orders_of serve) (\<lambda>os. cancel_each serve str_of os 0)"

end
