(* ===== verification/Quoting.thy ===== *)
theory Quoting
  imports Fair_Value Contracts Json
begin

section \<open>Quotes and obligations: services/bots/quoting.py, obligations.py and noise.py\<close>

text \<open>
  The market maker's decision, the meter that counts how well it keeps its obligations, and the
  noise trader's decision. All pure; the noise trader's draws are arguments. Breaches are also
  logged by the code, which keeps no state.
\<close>

subsection \<open>The quote\<close>

definition BPS :: int where "BPS = 10000"

record quote =
  qu_side :: int
  qu_price_ticks :: int
  qu_qty :: int

record two_sided =
  tq_bid :: quote
  tq_ask :: quote

definition spread_ticks :: "two_sided \<Rightarrow> int" where
  "spread_ticks t = qu_price_ticks (tq_ask t) - qu_price_ticks (tq_bid t)"

definition mid_ticks :: "two_sided \<Rightarrow> int" where
  "mid_ticks t = (qu_price_ticks (tq_ask t) + qu_price_ticks (tq_bid t)) div 2"

definition desired_quote :: "int \<Rightarrow> int \<Rightarrow> int \<Rightarrow> int \<Rightarrow> int \<Rightarrow> two_sided" where
  "desired_quote fair inventory half_spread_bps skew_bps sz =
     (let half_spread = max 1 (fair * half_spread_bps div BPS);
          magnitude = fair * skew_bps * \<bar>inventory\<bar> div (max 1 sz * BPS);
          skew = (if inventory < 0 then - magnitude else magnitude);
          mid = fair - skew;
          bid_price = max 1 (mid - half_spread);
          ask_price = max (bid_price + 1) (mid + half_spread)
      in \<lparr> tq_bid = \<lparr> qu_side = Side_BUY, qu_price_ticks = bid_price, qu_qty = sz \<rparr>,
           tq_ask = \<lparr> qu_side = Side_SELL, qu_price_ticks = ask_price, qu_qty = sz \<rparr> \<rparr>)"

definition needs_requote :: "quote option \<Rightarrow> quote \<Rightarrow> bool" where
  "needs_requote resting desired =
     (case resting of None \<Rightarrow> True
      | Some r \<Rightarrow> qu_price_ticks r \<noteq> qu_price_ticks desired \<or> qu_qty r \<noteq> qu_qty desired)"

subsection \<open>The obligation meter\<close>

definition SPREAD_TOO_WIDE :: string where "SPREAD_TOO_WIDE = ''spread_too_wide''"
definition SIZE_TOO_SMALL :: string where "SIZE_TOO_SMALL = ''size_too_small''"
definition NOT_TWO_SIDED :: string where "NOT_TWO_SIDED = ''not_two_sided''"

record breach =
  br_kind :: string
  br_symbol_id :: int
  br_detail :: "(string \<times> json) list"

record limits =
  lm_max_spread_bps :: int
  lm_min_quote_size :: int
  lm_min_two_sided_uptime :: rat

record meter =
  om_symbol_id :: int
  om_limits :: limits
  om_samples :: int
  om_two_sided_samples :: int
  om_breaches :: "breach list"
  om_breach_counts :: "(string, int) dict"

definition new_meter :: "int \<Rightarrow> limits \<Rightarrow> meter" where
  "new_meter sy lims =
     \<lparr> om_symbol_id = sy, om_limits = lims, om_samples = 0, om_two_sided_samples = 0, om_breaches = [],
       om_breach_counts = [] \<rparr>"

definition size_breach :: "meter \<Rightarrow> string \<Rightarrow> quote \<Rightarrow> breach list" where
  "size_breach m side_name q =
     (if qu_qty q < lm_min_quote_size (om_limits m)
      then [\<lparr> br_kind = SIZE_TOO_SMALL, br_symbol_id = om_symbol_id m,
              br_detail = [(''side'', JStr side_name), (''qty'', JInt (qu_qty q)),
                           (''minimum'', JInt (lm_min_quote_size (om_limits m)))] \<rparr>]
      else [])"

definition breaches_of :: "meter \<Rightarrow> two_sided option \<Rightarrow> breach list" where
  "breaches_of m sample =
     (case sample of
        None \<Rightarrow> [\<lparr> br_kind = NOT_TWO_SIDED, br_symbol_id = om_symbol_id m,
                   br_detail = [(''reason'', JStr ''no two-sided quote'')] \<rparr>]
      | Some t \<Rightarrow>
          (let mid = mid_ticks t;
               spread_bps = spread_ticks t * BPS div mid
           in (if 0 < mid \<and> lm_max_spread_bps (om_limits m) < spread_bps
               then [\<lparr> br_kind = SPREAD_TOO_WIDE, br_symbol_id = om_symbol_id m,
                       br_detail = [(''spread_bps'', JInt spread_bps),
                                    (''limit_bps'', JInt (lm_max_spread_bps (om_limits m)))] \<rparr>]
               else []) @
              size_breach m ''bid'' (tq_bid t) @ size_breach m ''ask'' (tq_ask t)))"

definition record_breach :: "breach \<Rightarrow> meter \<Rightarrow> meter" where
  "record_breach b m =
     m\<lparr>om_breaches := om_breaches m @ [b],
       om_breach_counts := dset (br_kind b) (dget0 (om_breach_counts m) (br_kind b) + 1) (om_breach_counts m)\<rparr>"

definition observe :: "two_sided option \<Rightarrow> meter \<Rightarrow> meter \<times> breach list" where
  "observe sample m =
     (let found = breaches_of m sample;
          m1 = m\<lparr>om_samples := om_samples m + 1,
                 om_two_sided_samples := om_two_sided_samples m + (if sample = None then 0 else 1)\<rparr>
      in (fold record_breach found m1, found))"

definition two_sided_uptime :: "meter \<Rightarrow> rat" where
  "two_sided_uptime m =
     (if om_samples m = 0 then 1 else fl (of_int (om_two_sided_samples m) / of_int (om_samples m)))"

definition meets_uptime :: "meter \<Rightarrow> bool" where
  "meets_uptime m \<longleftrightarrow> lm_min_two_sided_uptime (om_limits m) \<le> two_sided_uptime m"

record meter_summary =
  ms_symbol_id :: int
  ms_samples :: int
  ms_two_sided_uptime :: rat
  ms_min_two_sided_uptime :: rat
  ms_meets_uptime :: bool
  ms_breaches :: "(string, int) dict"
  ms_total_breaches :: nat

definition meter_summary_of :: "meter \<Rightarrow> meter_summary" where
  "meter_summary_of m =
     \<lparr> ms_symbol_id = om_symbol_id m, ms_samples = om_samples m,
       ms_two_sided_uptime = round_digits (two_sided_uptime m) 4,
       ms_min_two_sided_uptime = lm_min_two_sided_uptime (om_limits m), ms_meets_uptime = meets_uptime m,
       ms_breaches = om_breach_counts m, ms_total_breaches = length (om_breaches m) \<rparr>"

subsection \<open>The noise trader\<close>

record noise_settings =
  ns_min_qty :: int
  ns_max_qty :: int

record noise_intent =
  ni_side :: int
  ni_qty :: int

definition noise_init :: "noise_settings \<Rightarrow> exn + noise_settings" where
  "noise_init s = (if ns_min_qty s < 1 \<or> ns_max_qty s < ns_min_qty s then Inl ValueError else Inr s)"

text \<open>\<open>drawn\<close> is what \<open>randint(min_qty, max_qty)\<close> returned, \<open>coin\<close> what \<open>random()\<close> did.\<close>

definition decide :: "int \<Rightarrow> rat \<Rightarrow> int \<Rightarrow> noise_intent" where
  "decide drawn coin position =
     (let sell_is_possible = 0 < position; wants_to_buy = coin < 1 / 2
      in if wants_to_buy \<or> \<not> sell_is_possible then \<lparr> ni_side = Side_BUY, ni_qty = drawn \<rparr>
         else \<lparr> ni_side = Side_SELL, ni_qty = min drawn position \<rparr>)"

subsection \<open>What they promise\<close>

lemma quote_sides [simp]:
  "qu_side (tq_bid (desired_quote f i h k s)) = Side_BUY" "qu_side (tq_ask (desired_quote f i h k s)) = Side_SELL"
  "qu_qty (tq_bid (desired_quote f i h k s)) = s" "qu_qty (tq_ask (desired_quote f i h k s)) = s"
  by (simp_all add: desired_quote_def Let_def)

definition skew_of :: "int \<Rightarrow> int \<Rightarrow> int \<Rightarrow> int \<Rightarrow> int" where
  "skew_of f k s i = (if i < 0 then - (f * k * \<bar>i\<bar> div (max 1 s * BPS)) else f * k * \<bar>i\<bar> div (max 1 s * BPS))"

lemma skew_mono:
  assumes "0 \<le> f" "0 \<le> k" "i \<le> j"
  shows "skew_of f k s i \<le> skew_of f k s j"
proof -
  have d: "0 < max 1 s * BPS" by (simp add: BPS_def)
  have c: "0 \<le> f * k" using assms by simp
  have m: "f * k * a div (max 1 s * BPS) \<le> f * k * b div (max 1 s * BPS)" if "a \<le> b" for a b
    using that c d by (intro zdiv_mono1 mult_left_mono) simp_all
  have p: "0 \<le> f * k * a div (max 1 s * BPS)" if "0 \<le> a" for a
    using that c d by (simp add: pos_imp_zdiv_nonneg_iff)
  show ?thesis using assms(3) m [of "\<bar>i\<bar>" "\<bar>j\<bar>"] m [of "\<bar>j\<bar>" "\<bar>i\<bar>"] p [of "\<bar>i\<bar>"] p [of "\<bar>j\<bar>"] by (auto simp: skew_of_def)
qed

lemma desired_prices:
  "qu_price_ticks (tq_bid (desired_quote f i h k s)) = max 1 (f - skew_of f k s i - max 1 (f * h div BPS))"
  "qu_price_ticks (tq_ask (desired_quote f i h k s)) =
     max (max 1 (f - skew_of f k s i - max 1 (f * h div BPS)) + 1) (f - skew_of f k s i + max 1 (f * h div BPS))"
  by (simp_all add: desired_quote_def skew_of_def Let_def)

lemma quote_valid:
  "1 \<le> qu_price_ticks (tq_bid (desired_quote f i h k s))"
  "qu_price_ticks (tq_bid (desired_quote f i h k s)) < qu_price_ticks (tq_ask (desired_quote f i h k s))"
  unfolding desired_prices less_max_iff_disj by simp_all

text \<open>The maker's quotes are valid and lean against its inventory. Whatever the fair value, inventory and
  settings, the bid is at least one tick and below the ask, both for the configured size; holding more
  never raises either price; and a long and a short position of the same size move the two sides by the
  same amount in opposite directions, as long as the floor of one tick is not reached.\<close>

theorem quotes_lean_against_inventory:
  assumes "0 \<le> fair" "0 \<le> skew_bps"
  shows "1 \<le> qu_price_ticks (tq_bid (desired_quote fair i h skew_bps s)) \<and>
    qu_price_ticks (tq_bid (desired_quote fair i h skew_bps s)) < qu_price_ticks (tq_ask (desired_quote fair i h skew_bps s)) \<and>
    (i \<le> j \<longrightarrow>
       qu_price_ticks (tq_bid (desired_quote fair j h skew_bps s)) \<le> qu_price_ticks (tq_bid (desired_quote fair i h skew_bps s)) \<and>
       qu_price_ticks (tq_ask (desired_quote fair j h skew_bps s)) \<le> qu_price_ticks (tq_ask (desired_quote fair i h skew_bps s))) \<and>
    (1 < qu_price_ticks (tq_bid (desired_quote fair i h skew_bps s)) \<and> 1 < qu_price_ticks (tq_bid (desired_quote fair (- i) h skew_bps s)) \<longrightarrow>
       fair - qu_price_ticks (tq_bid (desired_quote fair i h skew_bps s)) =
         qu_price_ticks (tq_ask (desired_quote fair (- i) h skew_bps s)) - fair)"
proof -
  have sym: "skew_of fair skew_bps s (- i) = - skew_of fair skew_bps s i" by (simp add: skew_of_def)
  have "i \<le> j \<Longrightarrow> skew_of fair skew_bps s i \<le> skew_of fair skew_bps s j" using skew_mono assms by blast
  then show ?thesis unfolding desired_prices sym by (auto simp: max_def)
qed

theorem quotes_lean_against_inventory_witness:
  "qu_price_ticks (tq_ask (desired_quote 100000 50 50 25 100)) \<le> qu_price_ticks (tq_ask (desired_quote 100000 0 50 25 100)) \<and>
   100000 - qu_price_ticks (tq_bid (desired_quote 100000 50 50 25 100)) = qu_price_ticks (tq_ask (desired_quote 100000 (- 50) 50 25 100)) - 100000"
  using quotes_lean_against_inventory [of 100000 25 50 50 100 50] quotes_lean_against_inventory [of 100000 25 0 50 100 50]
  by (simp add: desired_prices skew_of_def BPS_def)

text \<open>The figures of the documentation's table for one fill long are not what the function gives.\<close>

lemma documented_table_is_off:
  "qu_price_ticks (tq_bid (desired_quote 1000 100 50 25 100)) = 993 \<and>
   qu_price_ticks (tq_ask (desired_quote 1000 100 50 25 100)) = 1003"
  by (simp add: desired_prices skew_of_def BPS_def)

text \<open>A noise trader never asks to sell what it does not hold.\<close>

lemma decide_within_position:
  "1 \<le> drawn \<Longrightarrow> 1 \<le> ni_qty (decide drawn coin p) \<and> ni_qty (decide drawn coin p) \<le> drawn \<and>
     (ni_side (decide drawn coin p) = Side_BUY \<or> ni_side (decide drawn coin p) = Side_SELL \<and> ni_qty (decide drawn coin p) \<le> p)"
  by (simp add: decide_def Let_def)

subsection \<open>The meter counts exactly\<close>

fun observe_all :: "two_sided option list \<Rightarrow> meter \<Rightarrow> meter \<times> breach list" where
  "observe_all [] m = (m, [])"
| "observe_all (x # xs) m =
     (let (m1, f) = observe x m; (m2, g) = observe_all xs m1 in (m2, f @ g))"

lemma record_breaches:
  "om_breaches (fold record_breach bs m) = om_breaches m @ bs"
  "dget0 (om_breach_counts (fold record_breach bs m)) k = dget0 (om_breach_counts m) k + int (length (filter (\<lambda>b. br_kind b = k) bs))"
  "om_samples (fold record_breach bs m) = om_samples m" "om_two_sided_samples (fold record_breach bs m) = om_two_sided_samples m"
  "om_limits (fold record_breach bs m) = om_limits m" "om_symbol_id (fold record_breach bs m) = om_symbol_id m"
  by (induction bs arbitrary: m) (auto simp: record_breach_def)

lemma observe_all_counts:
  "observe_all xs m = (m', found) \<Longrightarrow>
     om_samples m' = om_samples m + int (length xs) \<and>
     om_two_sided_samples m' = om_two_sided_samples m + int (length (filter (\<lambda>x. x \<noteq> None) xs)) \<and>
     om_breaches m' = om_breaches m @ found \<and> om_limits m' = om_limits m \<and>
     (\<forall>k. dget0 (om_breach_counts m') k = dget0 (om_breach_counts m) k + int (length (filter (\<lambda>b. br_kind b = k) found)))"
proof (induction xs m arbitrary: m' found rule: observe_all.induct)
  case (2 x xs m)
  obtain m1 f where o: "observe x m = (m1, f)" by fastforce
  obtain m2 g where r: "observe_all xs m1 = (m2, g)" by fastforce
  have "m' = m2" "found = f @ g" using 2(2) o r by simp_all
  then show ?case
    using 2(1) [OF o [symmetric] refl r] o by (auto simp: observe_def Let_def record_breaches)
qed simp

text \<open>The obligation meter counts exactly. After any sequence of samples it has counted every sample,
  every two-sided one, and per kind every breach it reported; and a maker whose two-sided share is at
  least the required one, a float, is reported as meeting it.\<close>

theorem meter_counts_exactly:
  assumes "observe_all samples (new_meter sy lims) = (m, found)" and "fl (lm_min_two_sided_uptime lims) = lm_min_two_sided_uptime lims"
  shows "om_samples m = int (length samples) \<and>
    om_two_sided_samples m = int (length (filter (\<lambda>x. x \<noteq> None) samples)) \<and> om_breaches m = found \<and>
    (\<forall>k. dget0 (om_breach_counts m) k = int (length (filter (\<lambda>b. br_kind b = k) found))) \<and>
    (samples \<noteq> [] \<and> lm_min_two_sided_uptime lims * of_int (om_samples m) \<le> of_int (om_two_sided_samples m) \<longrightarrow> meets_uptime m)"
proof -
  note c = observe_all_counts [OF assms(1)]
  have "meets_uptime m" if "samples \<noteq> []" "lm_min_two_sided_uptime lims * of_int (om_samples m) \<le> of_int (om_two_sided_samples m)"
  proof -
    have n: "0 < om_samples m" using c that(1) by (simp add: new_meter_def)
    then have "lm_min_two_sided_uptime lims \<le> of_int (om_two_sided_samples m) / of_int (om_samples m)"
      using that(2) by (simp add: pos_le_divide_eq)
    then have "lm_min_two_sided_uptime lims \<le> fl (of_int (om_two_sided_samples m) / of_int (om_samples m))"
      using fl_mono assms(2) by metis
    then show ?thesis using n c by (simp add: meets_uptime_def two_sided_uptime_def new_meter_def)
  qed
  then show ?thesis using c by (auto simp: new_meter_def)
qed

theorem meter_counts_exactly_witness:
  "om_samples (fst (observe_all [None, Some (desired_quote 1000 0 50 25 100)]
     (new_meter 1 \<lparr> lm_max_spread_bps = 20, lm_min_quote_size = 10, lm_min_two_sided_uptime = 0 \<rparr>))) = 2"
  using meter_counts_exactly [of "[None, Some (desired_quote 1000 0 50 25 100)]" 1
      "\<lparr> lm_max_spread_bps = 20, lm_min_quote_size = 10, lm_min_two_sided_uptime = 0 \<rparr>", OF prod.collapse [symmetric]]
  by simp

end
