(* ===== verification/Market_Maker.thy ===== *)
theory Market_Maker
  imports Bot_Client Quoting
begin

section \<open>The market maker's loop: services/bots/market_maker.py, and the noise trader's\<close>

text \<open>
  The maker over its client: one tick reads fair value and inventory, replaces the quotes that
  moved, and samples its obligations. \<open>run\<close> swallows what a tick raises and goes on with the
  state the tick left, so a run is the fold of \<open>tick\<close> over the readings of clock and generator.
  A rejection's reason is counted under the JSON value it was given as; the gateway sends text.
\<close>

record maker_settings =
  mk_half_spread_bps :: int
  mk_skew_bps :: int
  mk_quote_size :: int

record maker =
  mk_client :: bot_client
  mk_symbol_id :: int
  mk_fair_value :: fair_value
  mk_settings :: maker_settings
  mk_meter :: meter
  mk_resting :: "(int, quote \<times> int) dict"
  mk_quotes_placed :: int
  mk_quotes_cancelled :: int
  mk_rejections :: "(json, int) dict"

definition new_maker :: "bot_client \<Rightarrow> int \<Rightarrow> fair_value \<Rightarrow> maker_settings \<Rightarrow> meter \<Rightarrow> maker" where
  "new_maker c sy fv st m =
     \<lparr> mk_client = c, mk_symbol_id = sy, mk_fair_value = fv, mk_settings = st, mk_meter = m, mk_resting = [],
       mk_quotes_placed = 0, mk_quotes_cancelled = 0, mk_rejections = [] \<rparr>"

definition with_client :: "(bot_client, 'a) act \<Rightarrow> (maker, 'a) act" where
  "with_client m = (\<lambda>k. let (r, c) = m (mk_client k) in (r, k\<lparr>mk_client := c\<rparr>))"

definition inventory :: "maker \<Rightarrow> int" where
  "inventory k = bc_position (mk_symbol_id k) (mk_client k)"

definition current_two_sided :: "maker \<Rightarrow> two_sided option" where
  "current_two_sided k =
     (case (dget (mk_resting k) Side_BUY, dget (mk_resting k) Side_SELL) of
        (Some (b, i), Some (a, j)) \<Rightarrow> Some \<lparr> tq_bid = b, tq_ask = a \<rparr>
      | _ \<Rightarrow> None)"

definition pull :: "server \<Rightarrow> (json \<Rightarrow> string) \<Rightarrow> int \<Rightarrow> int \<Rightarrow> (maker, unit) act" where
  "pull serve str_of sd target =
     and_then (with_client (cancel_order serve str_of target)) (\<lambda>out.
       modify (\<lambda>k. k\<lparr>mk_resting := dpop sd (mk_resting k),
                     mk_quotes_cancelled := mk_quotes_cancelled k + (if oc_accepted out then 1 else 0)\<rparr>))"

definition HALT_RETRIES :: nat where "HALT_RETRIES = 3"

text \<open>\<open>outcome.reason or ("rate_limited" if outcome.rate_limited else "unknown")\<close>: an empty reason is none.\<close>

definition json_truthy :: "json \<Rightarrow> bool" where
  "json_truthy v =
     (case v of JNull \<Rightarrow> False | JBool b \<Rightarrow> b | JInt n \<Rightarrow> n \<noteq> 0 | JStr s \<Rightarrow> s \<noteq> [] | JList l \<Rightarrow> l \<noteq> [] | JObj d \<Rightarrow> d \<noteq> [])"

definition rejection_key :: "order_outcome \<Rightarrow> json" where
  "rejection_key out =
     (if json_truthy (oc_reason out) then oc_reason out
      else JStr (if oc_rate_limited out then ''rate_limited'' else ''unknown''))"

definition count_rejection :: "json \<Rightarrow> (json, int) dict \<Rightarrow> (json, int) dict" where
  "count_rejection why d = dset why (dget0 d why + 1) d"

text \<open>The attempts left to place one quote under one key.\<close>

fun place_attempts :: "server \<Rightarrow> (json \<Rightarrow> string) \<Rightarrow> quote \<Rightarrow> int \<Rightarrow> nat \<Rightarrow> (maker, unit) act" where
  "place_attempts serve str_of q coid 0 = ret ()"
| "place_attempts serve str_of q coid (Suc n) =
     and_then (ask mk_symbol_id) (\<lambda>sy.
     and_then (with_client (submit_limit serve str_of sy (qu_side q) (qu_price_ticks q) (qu_qty q) (Some coid))) (\<lambda>out.
       if oc_accepted out then
         modify (\<lambda>k. k\<lparr>mk_resting := dset (qu_side q) (q, coid) (mk_resting k), mk_quotes_placed := mk_quotes_placed k + 1\<rparr>)
       else if oc_halted out \<and> 0 < n then place_attempts serve str_of q coid n
       else modify (\<lambda>k. k\<lparr>mk_rejections := count_rejection (rejection_key out) (mk_rejections k)\<rparr>)))"

definition place :: "server \<Rightarrow> (json \<Rightarrow> string) \<Rightarrow> quote \<Rightarrow> (maker, unit) act" where
  "place serve str_of q =
     and_then (with_client take_client_order_id) (\<lambda>coid. place_attempts serve str_of q coid HALT_RETRIES)"

text \<open>One side of a tick.\<close>

definition requote :: "server \<Rightarrow> (json \<Rightarrow> string) \<Rightarrow> quote \<Rightarrow> (maker, unit) act" where
  "requote serve str_of q =
     and_then (ask (\<lambda>k. dget (mk_resting k) (qu_side q))) (\<lambda>resting.
       if \<not> needs_requote (map_option fst resting) q then ret ()
       else and_then (case resting of None \<Rightarrow> ret () | Some (r, target) \<Rightarrow> pull serve str_of (qu_side q) target)
              (\<lambda>_. place serve str_of q))"

definition advance_fair_value :: "int \<Rightarrow> rat \<Rightarrow> (maker, int) act" where
  "advance_fair_value now draw =
     (\<lambda>k. let (v, f) = next_ticks now draw (mk_fair_value k) in (Inr v, k\<lparr>mk_fair_value := f\<rparr>))"

definition wanted_quote :: "int \<Rightarrow> maker \<Rightarrow> two_sided" where
  "wanted_quote fair k =
     desired_quote fair (inventory k) (mk_half_spread_bps (mk_settings k)) (mk_skew_bps (mk_settings k))
       (mk_quote_size (mk_settings k))"

definition maker_tick :: "server \<Rightarrow> (json \<Rightarrow> string) \<Rightarrow> int \<times> rat \<Rightarrow> (maker, unit) act" where
  "maker_tick serve str_of reading =
     and_then (advance_fair_value (fst reading) (snd reading)) (\<lambda>fair.
     and_then (with_client (refresh serve)) (\<lambda>_.
     and_then (ask (wanted_quote fair)) (\<lambda>wanted.
     and_then (requote serve str_of (tq_bid wanted)) (\<lambda>_.
     and_then (requote serve str_of (tq_ask wanted)) (\<lambda>_.
       modify (\<lambda>k. k\<lparr>mk_meter := fst (observe (current_two_sided k) (mk_meter k))\<rparr>))))))"

definition maker_run :: "server \<Rightarrow> (json \<Rightarrow> string) \<Rightarrow> (int \<times> rat) list \<Rightarrow> maker \<Rightarrow> maker" where
  "maker_run serve str_of readings k = fold (\<lambda>x k. snd (maker_tick serve str_of x k)) readings k"

record maker_summary =
  mks_symbol_id :: int
  mks_inventory :: int
  mks_cash_ticks :: int
  mks_quotes_placed :: int
  mks_quotes_cancelled :: int
  mks_rejections :: "(json, int) dict"
  mks_meter :: meter_summary

definition maker_summary_of :: "maker \<Rightarrow> maker_summary" where
  "maker_summary_of k =
     \<lparr> mks_symbol_id = mk_symbol_id k, mks_inventory = inventory k, mks_cash_ticks = bc_cash_ticks (mk_client k),
       mks_quotes_placed = mk_quotes_placed k, mks_quotes_cancelled = mk_quotes_cancelled k,
       mks_rejections = mk_rejections k, mks_meter = meter_summary_of (mk_meter k) \<rparr>"

subsection \<open>The noise trader's arrival\<close>

record noise_runner =
  nr_client :: bot_client
  nr_symbol_id :: int
  nr_settings :: noise_settings
  nr_orders_sent :: int
  nr_rejections :: "(json, int) dict"

definition with_noise_client :: "(bot_client, 'a) act \<Rightarrow> (noise_runner, 'a) act" where
  "with_noise_client m = (\<lambda>k. let (r, c) = m (nr_client k) in (r, k\<lparr>nr_client := c\<rparr>))"

text \<open>The body of \<open>run\<close> after the sleep; the draws are those of \<open>decide\<close>.\<close>

definition noise_arrival :: "server \<Rightarrow> (json \<Rightarrow> string) \<Rightarrow> int \<times> rat \<Rightarrow> (noise_runner, unit) act" where
  "noise_arrival serve str_of draws =
     and_then (with_noise_client (refresh serve)) (\<lambda>_.
     and_then (ask (\<lambda>k. decide (fst draws) (snd draws) (bc_position (nr_symbol_id k) (nr_client k)))) (\<lambda>intent.
     and_then (ask nr_symbol_id) (\<lambda>sy.
     and_then (with_noise_client (submit_market serve str_of sy (ni_side intent) (ni_qty intent))) (\<lambda>out.
       if oc_accepted out then modify (\<lambda>k. k\<lparr>nr_orders_sent := nr_orders_sent k + 1\<rparr>)
       else modify (\<lambda>k. k\<lparr>nr_rejections :=
              count_rejection (if json_truthy (oc_reason out) then oc_reason out else JStr ''unknown'') (nr_rejections k)\<rparr>)))))"

end
