(* ===== verification/Market_Maker_Spec.thy ===== *)
theory Market_Maker_Spec
  imports Market_Maker
begin

section \<open>What the market maker keeps, against any server\<close>

text \<open>
  Lemmas on operations as triples: a precondition, what holds after a value is returned, and what
  holds after a raise. With them, for every behaviour of the server: each client order id names
  one request, however often it is sent; a quote the maker believes to be resting was
  acknowledged; an acknowledged order is on its list or it has asked for its cancellation; and
  the orders it sends are ones the gateway's validation lets through.
\<close>

subsection \<open>Triples\<close>

definition triple :: "('s \<Rightarrow> bool) \<Rightarrow> ('s, 'a) act \<Rightarrow> ('a \<Rightarrow> 's \<Rightarrow> bool) \<Rightarrow> ('s \<Rightarrow> bool) \<Rightarrow> bool" where
  "triple P m Q E \<longleftrightarrow> (\<forall>s. P s \<longrightarrow> (case m s of (Inl e, s') \<Rightarrow> E s' | (Inr x, s') \<Rightarrow> Q x s'))"

named_theorems triples

lemma triple_ret [triples]: "(\<And>s. P s \<Longrightarrow> Q x s) \<Longrightarrow> triple P (ret x) Q E"
  by (simp add: triple_def ret_def)

lemma triple_modify [triples]: "(\<And>s. P s \<Longrightarrow> Q () (f s)) \<Longrightarrow> triple P (modify f) Q E"
  by (simp add: triple_def modify_def)

lemma triple_ask [triples]: "(\<And>s. P s \<Longrightarrow> Q (f s) s) \<Longrightarrow> triple P (ask f) Q E"
  by (simp add: triple_def ask_def)

lemma triple_lift [triples]:
  "(\<And>s e. r = Inl e \<Longrightarrow> P s \<Longrightarrow> E s) \<Longrightarrow> (\<And>s x. r = Inr x \<Longrightarrow> P s \<Longrightarrow> Q x s) \<Longrightarrow> triple P (lift r) Q E"
  by (simp add: triple_def lift_def split: sum.split)

lemma triple_and_then: "triple P m R E \<Longrightarrow> (\<And>x. triple (R x) (f x) Q E) \<Longrightarrow> triple P (and_then m f) Q E"
  by (fastforce simp: triple_def and_then_def split: sum.splits prod.splits)

lemma triple_weaken:
  "triple P m Q E \<Longrightarrow> (\<And>s. P' s \<Longrightarrow> P s) \<Longrightarrow> (\<And>x s. Q x s \<Longrightarrow> Q' x s) \<Longrightarrow> (\<And>s. E s \<Longrightarrow> E' s) \<Longrightarrow> triple P' m Q' E'"
  by (fastforce simp: triple_def split: sum.splits prod.splits)

lemma triple_snd: "triple P m (\<lambda>_. Q) Q \<Longrightarrow> P s \<Longrightarrow> Q (snd (m s))"
  unfolding triple_def by (drule spec [of _ s]) (simp split: sum.splits prod.splits)

subsection \<open>Keys\<close>

fun key_of :: "bot_request \<Rightarrow> int option" where
  "key_of (Post_Order b) = Some (bd_client_order_id b)"
| "key_of (Delete_Order t k) = Some k"
| "key_of _ = None"

definition one_request :: "bot_request list \<Rightarrow> bool" where
  "one_request sent \<longleftrightarrow> (\<forall>r \<in> set sent. \<forall>r' \<in> set sent. key_of r \<noteq> None \<and> key_of r = key_of r' \<longrightarrow> r = r')"

text \<open>The client's invariant: the ids it has sent lie between where it started and its counter, and each
  names one request.\<close>

definition client_ok :: "int \<Rightarrow> bot_client \<Rightarrow> bool" where
  "client_ok start c \<longleftrightarrow> start \<le> bc_next_id c \<and> one_request (bc_sent c) \<and>
     (\<forall>r \<in> set (bc_sent c). \<forall>k. key_of r = Some k \<longrightarrow> start \<le> k \<and> k < bc_next_id c)"

text \<open>What a request may be sent as: one without a key, or with a taken key nothing else was sent under.\<close>

definition may_send :: "int \<Rightarrow> bot_request \<Rightarrow> bot_client \<Rightarrow> bool" where
  "may_send start req c \<longleftrightarrow>
     (\<forall>k. key_of req = Some k \<longrightarrow> start \<le> k \<and> k < bc_next_id c \<and> (\<forall>r \<in> set (bc_sent c). key_of r = Some k \<longrightarrow> r = req))"

lemma client_ok_send:
  assumes "client_ok start c" "may_send start req c" "set w \<subseteq> {req, Log_In}"
    "bc_next_id c' = bc_next_id c" "bc_sent c' = bc_sent c @ w"
  shows "client_ok start c' \<and> may_send start req c'"
proof -
  have mem: "r \<in> set (bc_sent c) \<or> r = req \<or> r = Log_In" if "r \<in> set (bc_sent c')" for r
    using that assms(3,5) by auto
  have key: "start \<le> k \<and> k < bc_next_id c" if "r \<in> set (bc_sent c')" "key_of r = Some k" for r k
    using mem [OF that(1)] that(2) assms(1,2) by (auto simp: client_ok_def may_send_def)
  have only: "r = req" if "r \<in> set (bc_sent c')" "key_of r = key_of req" "key_of req \<noteq> None" for r
    using mem [OF that(1)] that(2,3) assms(2) by (auto simp: may_send_def)
  have "r = r'" if "r \<in> set (bc_sent c')" "r' \<in> set (bc_sent c')" "key_of r \<noteq> None" "key_of r = key_of r'" for r r'
  proof (cases "r = req \<or> r' = req")
    case True
    then show ?thesis using that only by metis
  next
    case False
    then have "r \<in> set (bc_sent c)" "r' \<in> set (bc_sent c)" using mem [OF that(1)] mem [OF that(2)] that(3,4) by auto
    then show ?thesis using assms(1) that(3,4) unfolding client_ok_def one_request_def by blast
  qed
  then have "one_request (bc_sent c')" unfolding one_request_def by blast
  moreover have "may_send start req c'" using only assms(2,4) by (auto simp: may_send_def)
  ultimately show ?thesis using key assms(1,4) by (auto simp: client_ok_def)
qed

subsection \<open>Acknowledgements\<close>

definition good_ack :: "(json \<Rightarrow> string) \<Rightarrow> exn + response \<Rightarrow> order_body \<Rightarrow> bool" where
  "good_ack str_of res b \<longleftrightarrow>
     (\<exists>r out. res = Inr r \<and> outcome_of str_of r (bd_client_order_id b) = Inr out \<and> oc_accepted out)"

text \<open>The client has seen order \<open>b\<close> acknowledged.\<close>

definition acked :: "server \<Rightarrow> (json \<Rightarrow> string) \<Rightarrow> bot_request list \<Rightarrow> order_body \<Rightarrow> bool" where
  "acked serve str_of sent b \<longleftrightarrow>
     (\<exists>n < length sent. sent ! n = Post_Order b \<and> good_ack str_of (serve (take (Suc n) sent)) b)"

lemma acked_append:
  "acked serve str_of (sent @ w) b \<longleftrightarrow> acked serve str_of sent b \<or>
     (\<exists>n < length w. w ! n = Post_Order b \<and> good_ack str_of (serve (sent @ take (Suc n) w)) b)"
proof -
  have "(\<exists>n < l + m. P n) \<longleftrightarrow> (\<exists>n < l. P n) \<or> (\<exists>n < m. P (l + n))" for P and l m :: nat
  proof -
    have "\<exists>k < m. P (l + k)" if "n < l + m" "P n" "\<not> n < l" for n
      using that by (intro exI [of _ "n - l"]) auto
    then show ?thesis by (meson add_less_cancel_left trans_less_add1)
  qed
  then show ?thesis by (simp add: acked_def nth_append cong: conj_cong)
qed

lemma good_ack_status: "good_ack str_of (Inr r) b \<Longrightarrow> rp_status r = 200 \<or> rp_status r = 202"
  by (auto simp: good_ack_def outcome_of_def sbind_def split: if_splits sum.splits)

lemma outcome_of_id: "outcome_of str_of r coid = Inr out \<Longrightarrow> oc_client_order_id out = coid"
  by (auto simp: outcome_of_def sbind_def split: if_splits sum.splits)

text \<open>What an authenticated request puts on the wire: itself, alone or with a login and itself again, and
  it returns the answer to its last copy, or a 401.\<close>

lemma log_in_sends:
  assumes "log_in serve c = (res, c')"
  shows "bc_sent c' = bc_sent c @ [Log_In] \<and> bc_next_id c' = bc_next_id c \<and> bc_cash_ticks c' = bc_cash_ticks c \<and>
    bc_positions c' = bc_positions c"
  using assms
  by (auto simp: log_in_def and_then_def http_request_def lift_def modify_def ret_def Let_def
      split: sum.splits prod.splits if_splits)

lemma authed_sends:
  assumes "authed serve req c = (res, c')"
  obtains w where "bc_sent c' = bc_sent c @ w" "bc_next_id c' = bc_next_id c" "set w \<subseteq> {req, Log_In}" "req \<in> set w"
    and "\<And>b. acked serve str_of (bc_sent c') b \<longleftrightarrow> acked serve str_of (bc_sent c) b \<or> (req = Post_Order b \<and> good_ack str_of res b)"
proof -
  define c1 where "c1 = c\<lparr>bc_sent := bc_sent c @ [req]\<rparr>"
  have one: "http_request serve req c = (serve (bc_sent c @ [req]), c1)" by (simp add: http_request_def c1_def Let_def)
  show ?thesis
  proof (cases "\<exists>r. serve (bc_sent c @ [req]) = Inr r \<and> rp_status r = 401")
    case False
    then have "c' = c1" "res = serve (bc_sent c @ [req])"
      using assms one by (auto simp: authed_def and_then_def ret_def split: sum.splits if_splits)
    then show ?thesis by (intro that [of "[req]"]) (auto simp: c1_def acked_append)
  next
    case True
    then obtain r where r: "serve (bc_sent c @ [req]) = Inr r" "rp_status r = 401" by blast
    have no: "\<not> good_ack str_of (Inr r) b" for b using good_ack_status [of str_of r b] r(2) by auto
    obtain lr c2 where l: "log_in serve c1 = (lr, c2)" by fastforce
    have c2: "bc_sent c2 = bc_sent c @ [req, Log_In]" "bc_next_id c2 = bc_next_id c" using log_in_sends [OF l] by (simp_all add: c1_def)
    show ?thesis
    proof (cases "\<exists>l. lr = Inr l \<and> rp_status l = 200")
      case True
      then have "res = serve (bc_sent c @ [req, Log_In, req])" "c' = c2\<lparr>bc_sent := bc_sent c @ [req, Log_In, req]\<rparr>"
        using assms one r l c2 by (auto simp: authed_def and_then_def http_request_def Let_def)
      then show ?thesis
        using c2 r no by (intro that [of "[req, Log_In, req]"]) (auto simp: acked_append less_Suc_eq numeral_3_eq_3 numeral_2_eq_2)
    next
      case False
      then have "c' = c2" "\<not> good_ack str_of res b" for b
        using assms one r l no by (auto simp: authed_def and_then_def ret_def good_ack_def split: sum.splits if_splits)
      then show ?thesis
        using c2 r no by (intro that [of "[req, Log_In]"]) (auto simp: acked_append less_Suc_eq numeral_2_eq_2)
    qed
  qed
qed

lemma submit_body_sends:
  assumes "submit_body serve str_of b c = (res, c')"
  obtains w where "bc_sent c' = bc_sent c @ w" "bc_next_id c' = bc_next_id c" "set w \<subseteq> {Post_Order b, Log_In}"
    and "\<And>b'. acked serve str_of (bc_sent c') b' \<longleftrightarrow>
      acked serve str_of (bc_sent c) b' \<or> (b' = b \<and> (\<exists>out. res = Inr out \<and> oc_accepted out))"
proof -
  obtain r where a: "authed serve (Post_Order b) c = (r, c')"
    and res: "res = sbind r (\<lambda>r. outcome_of str_of r (bd_client_order_id b))"
    using assms by (auto simp: submit_body_def and_then_def lift_def split: prod.splits sum.splits)
  have ack: "good_ack str_of r b \<longleftrightarrow> (\<exists>out. res = Inr out \<and> oc_accepted out)"
    unfolding res by (cases r) (auto simp: good_ack_def)
  show ?thesis
    by (rule authed_sends [OF a]) (rule that, assumption, assumption, assumption, auto simp: ack)
qed

text \<open>Operations that send no order: what they do to the history changes no acknowledgement.\<close>

definition quiet :: "int \<Rightarrow> server \<Rightarrow> (json \<Rightarrow> string) \<Rightarrow> bot_client \<Rightarrow> bot_client \<Rightarrow> bool" where
  "quiet start serve str_of c c' \<longleftrightarrow>
     (client_ok start c \<longrightarrow> client_ok start c') \<and> set (bc_sent c) \<subseteq> set (bc_sent c') \<and>
     (\<forall>b. Post_Order b \<in> set (bc_sent c') \<longrightarrow> Post_Order b \<in> set (bc_sent c)) \<and>
     (\<forall>b. acked serve str_of (bc_sent c') b \<longleftrightarrow> acked serve str_of (bc_sent c) b)"

lemma quiet_refl [simp]: "quiet start serve str_of c c"
  by (simp add: quiet_def)

lemma quiet_trans: "quiet start serve str_of c c1 \<Longrightarrow> quiet start serve str_of c1 c2 \<Longrightarrow> quiet start serve str_of c c2"
  by (auto simp: quiet_def)

lemma quiet_attributes:
  "bc_sent c' = bc_sent c \<Longrightarrow> bc_next_id c' = bc_next_id c \<Longrightarrow> quiet start serve str_of c c'"
  by (simp add: quiet_def client_ok_def)

lemma quiet_take: "quiet start serve str_of c (c\<lparr>bc_next_id := bc_next_id c + 1\<rparr>)"
  by (auto simp: quiet_def client_ok_def)

lemma quiet_send:
  assumes "bc_sent c' = bc_sent c @ w" "bc_next_id c' = bc_next_id c" "set w \<subseteq> {req, Log_In}" "\<And>b. req \<noteq> Post_Order b"
    and "client_ok start c \<Longrightarrow> may_send start req c"
  shows "quiet start serve str_of c c'"
proof -
  have "client_ok start c \<Longrightarrow> client_ok start c'" using client_ok_send [OF _ _ assms(3,2,1)] assms(5) by blast
  moreover have "w ! n \<noteq> Post_Order b" if "n < length w" for n b
    using nth_mem [OF that] assms(3) assms(4) [of b] by auto
  ultimately show ?thesis using assms(1,3,4) by (auto simp: quiet_def acked_append)
qed

lemma quiet_authed:
  assumes "authed serve req c = (res, c')" "\<And>b. req \<noteq> Post_Order b" "client_ok start c \<Longrightarrow> may_send start req c"
  shows "quiet start serve str_of c c' \<and> req \<in> set (bc_sent c') \<and> bc_next_id c' = bc_next_id c"
  by (rule authed_sends [OF assms(1), where str_of = str_of]) (use quiet_send assms(2,3) in auto)

definition quietly :: "int \<Rightarrow> server \<Rightarrow> (json \<Rightarrow> string) \<Rightarrow> (bot_client, 'a) act \<Rightarrow> bool" where
  "quietly start serve str_of m \<longleftrightarrow> (\<forall>c. quiet start serve str_of c (snd (m c)))"

lemma quietly_and_then:
  "quietly start serve str_of m \<Longrightarrow> (\<And>x. quietly start serve str_of (f x)) \<Longrightarrow> quietly start serve str_of (and_then m f)"
  by (fastforce simp: quietly_def and_then_def split: prod.split sum.split intro: quiet_trans)

lemma quietly_basic [simp]:
  "quietly start serve str_of (ret x)" "quietly start serve str_of (lift r)" "quietly start serve str_of (ask g)"
  by (simp_all add: quietly_def ret_def lift_def ask_def)

lemma quietly_modify:
  "(\<And>c. bc_sent (f c) = bc_sent c \<and> bc_next_id (f c) = bc_next_id c) \<Longrightarrow> quietly start serve str_of (modify f)"
  by (simp add: quietly_def modify_def quiet_attributes)

lemma quietly_authed:
  "(\<And>b. req \<noteq> Post_Order b) \<Longrightarrow> key_of req = None \<Longrightarrow> quietly start serve str_of (authed serve req)"
  unfolding quietly_def using quiet_authed by (metis may_send_def option.distinct(1) prod.collapse)

lemma quietly_http:
  "(\<And>b. req \<noteq> Post_Order b) \<Longrightarrow> key_of req = None \<Longrightarrow> quietly start serve str_of (http_request serve req)"
  unfolding quietly_def http_request_def
  by (intro allI quiet_send [where w = "[req]" and req = req]) (simp_all add: may_send_def Let_def)

lemma quietly_log_in: "quietly start serve str_of (log_in serve)"
  unfolding log_in_def by (intro quietly_and_then quietly_http) (auto intro!: quietly_and_then quietly_modify)

lemma quietly_refresh: "quietly start serve str_of (refresh serve)"
  unfolding refresh_def by (intro quietly_and_then quietly_authed) (auto intro!: quietly_and_then quietly_modify)

lemma quietly_sign_in: "quietly start serve str_of (sign_in serve n)"
  by (induction n) (auto intro!: quietly_and_then quietly_http quietly_log_in)

lemma quietly_await_funding: "quietly start serve str_of (await_funding serve n)"
  by (induction n) (auto intro!: quietly_and_then quietly_refresh)

lemma cancel_order_quiet:
  assumes "cancel_order serve str_of target c = (res, c')"
  shows "quiet start serve str_of c c' \<and> (\<exists>i. Delete_Order target i \<in> set (bc_sent c'))"
proof -
  define c1 where "c1 = c\<lparr>bc_next_id := bc_next_id c + 1\<rparr>"
  obtain r where a: "authed serve (Delete_Order target (bc_next_id c)) c1 = (r, c')"
    using assms by (auto simp: cancel_order_def and_then_def take_client_order_id_def lift_def c1_def split: prod.splits sum.splits)
  have ok: "client_ok start c1 \<and> may_send start (Delete_Order target (bc_next_id c)) c1" if "client_ok start c"
    using that by (fastforce simp: may_send_def client_ok_def c1_def)
  obtain w where w: "bc_sent c' = bc_sent c1 @ w" "bc_next_id c' = bc_next_id c1"
      "set w \<subseteq> {Delete_Order target (bc_next_id c), Log_In}" "Delete_Order target (bc_next_id c) \<in> set w"
      "\<And>b. acked serve str_of (bc_sent c') b \<longleftrightarrow> acked serve str_of (bc_sent c1) b"
    by (rule authed_sends [OF a, where str_of = str_of]) auto
  have "client_ok start c'" if "client_ok start c"
    using client_ok_send [OF _ _ w(3) w(2) w(1), of start] ok [OF that] by blast
  then show ?thesis using w by (auto simp: quiet_def c1_def)
qed

text \<open>Start-up: signing in, waiting for the grant, withdrawing what an earlier run left.\<close>

definition bot_start :: "server \<Rightarrow> (json \<Rightarrow> string) \<Rightarrow> nat \<Rightarrow> nat \<Rightarrow> (bot_client, nat) act" where
  "bot_start serve str_of n m =
     and_then (sign_in serve n) (\<lambda>_. and_then (await_funding serve m) (\<lambda>_. cancel_all_resting serve str_of))"

lemma quietly_cancel_order: "quietly start serve str_of (cancel_order serve str_of target)"
  unfolding quietly_def using cancel_order_quiet by (metis prod.collapse)

lemma quietly_cancel_each: "quietly start serve str_of (cancel_each serve str_of os n)"
  by (induction os arbitrary: n) (auto intro!: quietly_and_then quietly_cancel_order)

lemma quietly_start: "quietly start serve str_of (bot_start serve str_of n m)"
  unfolding bot_start_def cancel_all_resting_def open_orders_of_def
  by (intro quietly_and_then quietly_sign_in quietly_await_funding quietly_authed quietly_cancel_each) auto

subsection \<open>The maker\<close>

definition quote_body :: "maker \<Rightarrow> quote \<Rightarrow> int \<Rightarrow> order_body" where
  "quote_body k q coid = limit_body coid (mk_symbol_id k) (qu_side q) (qu_price_ticks q) (qu_qty q)"

definition quote_ok :: "maker \<Rightarrow> quote \<Rightarrow> bool" where
  "quote_ok k q \<longleftrightarrow> qu_side q \<in> {Side_BUY, Side_SELL} \<and> 1 \<le> qu_price_ticks q \<and> qu_qty q = mk_quote_size (mk_settings k)"

text \<open>The orders sent are limit quotes of this maker; a believed quote was acknowledged; an acknowledged
  order is believed to rest or was asked to be cancelled.\<close>

definition maker_ok :: "int \<Rightarrow> server \<Rightarrow> (json \<Rightarrow> string) \<Rightarrow> maker \<Rightarrow> bool" where
  "maker_ok start serve str_of k \<longleftrightarrow> client_ok start (mk_client k) \<and>
     (\<forall>b. Post_Order b \<in> set (bc_sent (mk_client k)) \<longrightarrow> (\<exists>q coid. quote_ok k q \<and> b = quote_body k q coid)) \<and>
     (\<forall>sd q coid. dget (mk_resting k) sd = Some (q, coid) \<longrightarrow>
        qu_side q = sd \<and> acked serve str_of (bc_sent (mk_client k)) (quote_body k q coid)) \<and>
     (\<forall>b. acked serve str_of (bc_sent (mk_client k)) b \<longrightarrow>
        (\<exists>q. dget (mk_resting k) (bd_side b) = Some (q, bd_client_order_id b)) \<or>
        (\<exists>i. Delete_Order (bd_client_order_id b) i \<in> set (bc_sent (mk_client k))))"

definition same_maker :: "maker \<Rightarrow> maker \<Rightarrow> bool" where
  "same_maker k k' \<longleftrightarrow> mk_symbol_id k' = mk_symbol_id k \<and> mk_settings k' = mk_settings k"

lemma same_maker_simps:
  "same_maker k k' \<Longrightarrow> quote_body k' = quote_body k" "same_maker k k' \<Longrightarrow> quote_ok k' = quote_ok k"
  by (simp_all add: same_maker_def quote_body_def quote_ok_def fun_eq_iff)

lemma maker_ok_quiet:
  assumes "maker_ok start serve str_of k" "quiet start serve str_of (mk_client k) (mk_client k')" "same_maker k k'"
    "mk_resting k' = mk_resting k"
  shows "maker_ok start serve str_of k'"
  using assms(1,2) unfolding maker_ok_def quiet_def same_maker_simps [OF assms(3)] assms(4) by blast

lemma maker_ok_attributes:
  "maker_ok start serve str_of k \<Longrightarrow> mk_client k' = mk_client k \<Longrightarrow> same_maker k k' \<Longrightarrow> mk_resting k' = mk_resting k \<Longrightarrow>
   maker_ok start serve str_of k'"
  by (rule maker_ok_quiet) simp_all

text \<open>Placing a quote on an empty side, under a key that is taken and used for nothing else.\<close>

definition placing :: "int \<Rightarrow> server \<Rightarrow> (json \<Rightarrow> string) \<Rightarrow> quote \<Rightarrow> int \<Rightarrow> maker \<Rightarrow> bool" where
  "placing start serve str_of q coid k \<longleftrightarrow> maker_ok start serve str_of k \<and> quote_ok k q \<and>
     dget (mk_resting k) (qu_side q) = None \<and> may_send start (Post_Order (quote_body k q coid)) (mk_client k)"

lemma place_attempts_ok:
  "placing start serve str_of q coid k \<Longrightarrow> place_attempts serve str_of q coid n k = (res, k') \<Longrightarrow>
   maker_ok start serve str_of k' \<and> same_maker k k'"
proof (induction n arbitrary: k res)
  case 0
  then show ?case by (simp add: placing_def ret_def same_maker_def)
next
  case (Suc n)
  define b where "b = quote_body k q coid"
  have P: "maker_ok start serve str_of k" "quote_ok k q" "dget (mk_resting k) (qu_side q) = None"
    "may_send start (Post_Order b) (mk_client k)"
    using Suc.prems(1) by (simp_all add: placing_def b_def)
  obtain r c where s: "submit_body serve str_of b (mk_client k) = (r, c)" by fastforce
  obtain w where w: "bc_sent c = bc_sent (mk_client k) @ w" "bc_next_id c = bc_next_id (mk_client k)" "set w \<subseteq> {Post_Order b, Log_In}"
    and ack: "\<And>b'. acked serve str_of (bc_sent c) b' \<longleftrightarrow>
      acked serve str_of (bc_sent (mk_client k)) b' \<or> (b' = b \<and> (\<exists>out. r = Inr out \<and> oc_accepted out))"
    by (rule submit_body_sends [OF s]) blast
  define k1 where "k1 = k\<lparr>mk_client := c\<rparr>"
  have bid: "bd_client_order_id b = coid" "bd_side b = qu_side q" by (simp_all add: b_def quote_body_def limit_body_def)
  have same: "same_maker k k1" by (simp add: same_maker_def k1_def)
  have C: "client_ok start c \<and> may_send start (Post_Order b) c"
    using client_ok_send [OF _ P(4) w(3) w(2) w(1)] P(1) by (simp add: maker_ok_def)
  have posts: "\<exists>q coid. quote_ok k q \<and> b' = quote_body k q coid" if "Post_Order b' \<in> set (bc_sent c)" for b'
    using that w(1,3) P(1,2) unfolding maker_ok_def b_def by auto
  have kept: "acked serve str_of (bc_sent c) b'" if "acked serve str_of (bc_sent (mk_client k)) b'" for b'
    using that ack by blast
  have still: "maker_ok start serve str_of k1" if "\<not> (\<exists>out. r = Inr out \<and> oc_accepted out)"
  proof -
    have old: "acked serve str_of (bc_sent (mk_client k)) b'" if "acked serve str_of (bc_sent c) b'" for b'
      using that ack \<open>\<not> (\<exists>out. r = Inr out \<and> oc_accepted out)\<close> by blast
    have sub: "set (bc_sent (mk_client k)) \<subseteq> set (bc_sent c)" by (simp add: w(1))
    have e: "mk_client k1 = c" "mk_resting k1 = mk_resting k" by (simp_all add: k1_def)
    have rest: "qu_side q' = sd \<and> acked serve str_of (bc_sent c) (quote_body k q' i)"
      if "dget (mk_resting k) sd = Some (q', i)" for sd q' i
      using that P(1) kept by (simp add: maker_ok_def)
    have orphan: "(\<exists>q'. dget (mk_resting k) (bd_side b') = Some (q', bd_client_order_id b')) \<or>
        (\<exists>i. Delete_Order (bd_client_order_id b') i \<in> set (bc_sent c))" if "acked serve str_of (bc_sent c) b'" for b'
      using old [OF that] P(1) sub unfolding maker_ok_def by (meson subsetD)
    show ?thesis unfolding maker_ok_def same_maker_simps [OF same] e by (intro conjI allI impI C [THEN conjunct1] posts rest orphan)
  qed
  have step: "place_attempts serve str_of q coid (Suc n) k =
      (case r of Inl e \<Rightarrow> (Inl e, k1)
       | Inr out \<Rightarrow>
           if oc_accepted out then
             (Inr (), k1\<lparr>mk_resting := dset (qu_side q) (q, coid) (mk_resting k1), mk_quotes_placed := mk_quotes_placed k1 + 1\<rparr>)
           else if oc_halted out \<and> 0 < n then place_attempts serve str_of q coid n k1
           else (Inr (), k1\<lparr>mk_rejections := count_rejection (rejection_key out) (mk_rejections k1)\<rparr>))"
    using s by (simp add: and_then_def ask_def with_client_def submit_limit_def ret_def k1_def modify_def b_def quote_body_def
        split: sum.split)
  show ?case
  proof (cases "\<exists>out. r = Inr out \<and> oc_accepted out")
    case True
    then have k': "k' = k1\<lparr>mk_resting := dset (qu_side q) (q, coid) (mk_resting k1), mk_quotes_placed := mk_quotes_placed k1 + 1\<rparr>"
      using Suc.prems(2) step by auto
    have same': "same_maker k k'" by (simp add: same_maker_def k' k1_def)
    have "acked serve str_of (bc_sent c) b" using ack True by blast
    moreover have "qu_side q' = sd \<and> acked serve str_of (bc_sent c) (quote_body k q' i)"
      if "dget (mk_resting k') sd = Some (q', i)" for sd q' i
      using that P(1) kept calculation by (auto simp: k' k1_def b_def maker_ok_def split: if_splits)
    moreover have "(\<exists>q'. dget (mk_resting k') (bd_side b') = Some (q', bd_client_order_id b')) \<or>
        (\<exists>i. Delete_Order (bd_client_order_id b') i \<in> set (bc_sent c))" if "acked serve str_of (bc_sent c) b'" for b'
    proof (cases "b' = b")
      case True
      then show ?thesis by (simp add: k' bid)
    next
      case False
      then have "acked serve str_of (bc_sent (mk_client k)) b'" using that ack by blast
      then have "(\<exists>q'. dget (mk_resting k) (bd_side b') = Some (q', bd_client_order_id b')) \<or>
          (\<exists>i. Delete_Order (bd_client_order_id b') i \<in> set (bc_sent (mk_client k)))"
        using P(1) unfolding maker_ok_def by blast
      then show ?thesis using P(3) w(1) by (auto simp: k' k1_def)
    qed
    moreover have "mk_client k' = c" by (simp add: k' k1_def)
    ultimately have "maker_ok start serve str_of k'"
      using C posts unfolding maker_ok_def same_maker_simps [OF same'] by simp
    then show ?thesis using same' by simp
  next
    case False
    show ?thesis
    proof (cases "\<exists>out. r = Inr out \<and> oc_halted out \<and> 0 < n")
      case True
      then have "place_attempts serve str_of q coid n k1 = (res, k')" using Suc.prems(2) step False by auto
      moreover have "placing start serve str_of q coid k1"
        using still [OF False] P C by (simp add: placing_def same_maker_simps [OF same] b_def) (simp add: k1_def)
      ultimately show ?thesis using Suc.IH [of k1 res] same by (auto simp: same_maker_def)
    next
      case nohalt: False
      have "k' = k1 \<or> (\<exists>d. k' = k1\<lparr>mk_rejections := d\<rparr>)"
        using Suc.prems(2) step False nohalt by (auto split: sum.splits if_splits)
      then show ?thesis
        using still [OF False] maker_ok_attributes [OF still [OF False], of k'] same by (auto simp: same_maker_def)
    qed
  qed
qed

lemma place_ok:
  assumes "maker_ok start serve str_of k" "quote_ok k q" "dget (mk_resting k) (qu_side q) = None" "place serve str_of q k = (res, k')"
  shows "maker_ok start serve str_of k' \<and> same_maker k k'"
proof -
  define coid where "coid = bc_next_id (mk_client k)"
  define k1 where "k1 = k\<lparr>mk_client := mk_client k\<lparr>bc_next_id := coid + 1\<rparr>\<rparr>"
  have run: "place_attempts serve str_of q coid HALT_RETRIES k1 = (res, k')"
    using assms(4) by (simp add: place_def and_then_def with_client_def take_client_order_id_def coid_def k1_def)
  have same: "same_maker k k1" by (simp add: same_maker_def k1_def)
  have "quiet start serve str_of (mk_client k) (mk_client k1)" using quiet_take by (simp add: k1_def coid_def)
  then have "maker_ok start serve str_of k1" by (rule maker_ok_quiet [OF assms(1) _ same]) (simp add: k1_def)
  moreover have "may_send start (Post_Order (quote_body k q coid)) (mk_client k1)"
    using assms(1) by (fastforce simp: maker_ok_def client_ok_def may_send_def k1_def coid_def quote_body_def limit_body_def)
  ultimately have "placing start serve str_of q coid k1"
    using assms(2,3) by (simp add: placing_def same_maker_simps [OF same]) (simp add: k1_def)
  then show ?thesis using place_attempts_ok [OF _ run] same by (auto simp: same_maker_def)
qed

lemma pull_ok:
  assumes "maker_ok start serve str_of k" "dget (mk_resting k) sd = Some (q, target)" "pull serve str_of sd target k = (res, k')"
  shows "maker_ok start serve str_of k' \<and> same_maker k k' \<and> (\<forall>x. res = Inr x \<longrightarrow> dget (mk_resting k') sd = None)"
proof -
  obtain r c where s: "cancel_order serve str_of target (mk_client k) = (r, c)" by fastforce
  have c: "quiet start serve str_of (mk_client k) c" "\<exists>i. Delete_Order target i \<in> set (bc_sent c)"
    using cancel_order_quiet [OF s] by auto
  define k1 where "k1 = k\<lparr>mk_client := c\<rparr>"
  have k1: "maker_ok start serve str_of k1"
    by (rule maker_ok_quiet [OF assms(1)]) (simp_all add: k1_def c same_maker_def)
  show ?thesis
  proof (cases r)
    case (Inl e)
    then show ?thesis using assms(3) s k1 by (auto simp: pull_def and_then_def with_client_def k1_def same_maker_def)
  next
    case (Inr out)
    have k': "k' = k1\<lparr>mk_resting := dpop sd (mk_resting k1), mk_quotes_cancelled := mk_quotes_cancelled k1 + (if oc_accepted out then 1 else 0)\<rparr>"
      using assms(3) s Inr by (simp add: pull_def and_then_def with_client_def modify_def k1_def)
    have same: "same_maker k1 k'" by (simp add: same_maker_def k')
    have orphan: "(\<exists>q'. dget (mk_resting k') (bd_side b) = Some (q', bd_client_order_id b)) \<or>
        (\<exists>i. Delete_Order (bd_client_order_id b) i \<in> set (bc_sent c))" if "acked serve str_of (bc_sent c) b" for b
    proof -
      have "(\<exists>q'. dget (mk_resting k1) (bd_side b) = Some (q', bd_client_order_id b)) \<or>
          (\<exists>i. Delete_Order (bd_client_order_id b) i \<in> set (bc_sent c))"
        using k1 that unfolding maker_ok_def by (simp add: k1_def)
      then show ?thesis using c(2) assms(2) by (cases "bd_side b = sd") (auto simp: k' k1_def)
    qed
    have "mk_client k' = c" by (simp add: k' k1_def)
    then have "maker_ok start serve str_of k'"
      using k1 orphan unfolding maker_ok_def same_maker_simps [OF same] by (simp add: k' k1_def)
    then show ?thesis using same by (simp add: k' k1_def same_maker_def)
  qed
qed

lemma requote_ok:
  assumes "maker_ok start serve str_of k" "quote_ok k q" "requote serve str_of q k = (res, k')"
  shows "maker_ok start serve str_of k' \<and> same_maker k k'"
proof (cases "needs_requote (map_option fst (dget (mk_resting k) (qu_side q))) q")
  case False
  then show ?thesis using assms by (simp add: requote_def and_then_def ask_def ret_def same_maker_def)
next
  case need: True
  show ?thesis
  proof (cases "dget (mk_resting k) (qu_side q)")
    case None
    then have "place serve str_of q k = (res, k')" using assms(3) need by (simp add: requote_def and_then_def ask_def ret_def)
    then show ?thesis using place_ok assms(1,2) None by blast
  next
    case (Some p)
    obtain r target where p: "p = (r, target)" by fastforce
    obtain e k1 where u: "pull serve str_of (qu_side q) target k = (e, k1)" by fastforce
    note k1 = pull_ok [OF assms(1) Some [unfolded p] u]
    show ?thesis
    proof (cases e)
      case (Inl x)
      then show ?thesis using assms(3) need Some p u k1 by (simp add: requote_def and_then_def ask_def)
    next
      case (Inr x)
      then have "place serve str_of q k1 = (res, k')" using assms(3) need Some p u by (simp add: requote_def and_then_def ask_def)
      then show ?thesis
        using place_ok [of start serve str_of k1 q res k'] k1 Inr assms(2) same_maker_simps(2) [of k k1] by (auto simp: same_maker_def)
    qed
  qed
qed

lemma wanted_ok: "quote_ok k (tq_bid (wanted_quote fair k)) \<and> quote_ok k (tq_ask (wanted_quote fair k))"
  using quote_valid [of fair "inventory k" "mk_half_spread_bps (mk_settings k)" "mk_skew_bps (mk_settings k)" "mk_quote_size (mk_settings k)"]
  by (simp add: quote_ok_def wanted_quote_def)

lemma tick_ok:
  assumes "maker_ok start serve str_of k"
  shows "maker_ok start serve str_of (snd (maker_tick serve str_of x k)) \<and> same_maker k (snd (maker_tick serve str_of x k))"
proof -
  define P where "P = (\<lambda>k'. maker_ok start serve str_of k' \<and> same_maker k k')"
  have advance: "triple P (advance_fair_value now draw) (\<lambda>_. P) P" for now draw
    by (auto simp: triple_def P_def advance_fair_value_def split_beta Let_def same_maker_def intro: maker_ok_attributes)
  have refreshes: "triple P (with_client (refresh serve)) (\<lambda>_. P) P"
  proof -
    have "P k1 \<Longrightarrow> P (k1\<lparr>mk_client := snd (refresh serve (mk_client k1))\<rparr>)" for k1
      using maker_ok_quiet [of start serve str_of k1 "k1\<lparr>mk_client := snd (refresh serve (mk_client k1))\<rparr>"]
        quietly_refresh [of start serve str_of] by (simp add: P_def quietly_def same_maker_def)
    then show ?thesis by (simp add: triple_def with_client_def split_beta Let_def split: sum.split)
  qed
  have quotes: "triple (\<lambda>k'. P k' \<and> quote_ok k' q) (requote serve str_of q) (\<lambda>_. P) P" for q
  proof -
    have "P k' \<and> same_maker k1 k'" if "P k1" "quote_ok k1 q" "requote serve str_of q k1 = (r, k')" for k1 k' r
      using requote_ok [OF _ that(2,3)] that(1) by (auto simp: P_def same_maker_def)
    then show ?thesis unfolding triple_def by (fastforce split: sum.split prod.split)
  qed
  have sizes: "quote_ok k' q = quote_ok k q" if "P k'" for k' q using that same_maker_simps(2) [of k k'] by (simp add: P_def)
  have tail: "triple (\<lambda>k'. P k' \<and> quote_ok k (tq_bid w) \<and> quote_ok k (tq_ask w))
      (and_then (requote serve str_of (tq_bid w)) (\<lambda>_. and_then (requote serve str_of (tq_ask w))
        (\<lambda>_. modify (\<lambda>k. k\<lparr>mk_meter := fst (observe (current_two_sided k) (mk_meter k))\<rparr>)))) (\<lambda>_. P) P" for w
  proof (cases "quote_ok k (tq_bid w) \<and> quote_ok k (tq_ask w)")
    case True
    have q: "triple P (requote serve str_of q) (\<lambda>_. P) P" if "quote_ok k q" for q
      by (rule triple_weaken [OF quotes]) (use that sizes in auto)
    have m: "triple P (modify (\<lambda>k. k\<lparr>mk_meter := fst (observe (current_two_sided k) (mk_meter k))\<rparr>)) (\<lambda>_. P) P"
      by (rule triple_modify) (auto simp: P_def same_maker_def intro: maker_ok_attributes)
    have "triple P (and_then (requote serve str_of (tq_bid w)) (\<lambda>_. and_then (requote serve str_of (tq_ask w))
        (\<lambda>_. modify (\<lambda>k. k\<lparr>mk_meter := fst (observe (current_two_sided k) (mk_meter k))\<rparr>)))) (\<lambda>_. P) P"
      using True by (intro triple_and_then [OF q] m) simp_all
    then show ?thesis by (rule triple_weaken) simp_all
  next
    case False
    then show ?thesis by (auto simp: triple_def)
  qed
  have "triple P (ask (wanted_quote fair)) (\<lambda>w k'. P k' \<and> quote_ok k (tq_bid w) \<and> quote_ok k (tq_ask w)) P" for fair
    by (rule triple_ask) (use wanted_ok sizes in blast)
  then have "triple P (maker_tick serve str_of x) (\<lambda>_. P) P"
    unfolding maker_tick_def by (intro triple_and_then [OF advance] triple_and_then [OF refreshes] triple_and_then [OF _ tail])
  moreover have "P k" using assms by (simp add: P_def same_maker_def)
  ultimately have "P (snd (maker_tick serve str_of x k))" by (rule triple_snd)
  then show ?thesis by (simp add: P_def)
qed

lemma maker_run_ok:
  "maker_ok start serve str_of k \<Longrightarrow>
     maker_ok start serve str_of (maker_run serve str_of xs k) \<and> same_maker k (maker_run serve str_of xs k)"
proof (induction xs arbitrary: k)
  case (Cons x xs)
  have 1: "maker_ok start serve str_of (snd (maker_tick serve str_of x k))" "same_maker k (snd (maker_tick serve str_of x k))"
    using tick_ok [OF Cons.prems] by simp_all
  have "maker_run serve str_of (x # xs) k = maker_run serve str_of xs (snd (maker_tick serve str_of x k))"
    by (simp add: maker_run_def)
  then show ?case using Cons.IH [OF 1(1)] 1(2) by (simp add: same_maker_def)
qed (simp add: maker_run_def same_maker_def)

lemma maker_ok_new:
  assumes "quiet start serve str_of (new_bot_client now_ns) c" "start = new_client_order_id_base now_ns"
  shows "maker_ok start serve str_of (new_maker c sy fv st m)"
proof -
  have "client_ok start (new_bot_client now_ns)" by (simp add: client_ok_def one_request_def new_bot_client_def assms(2))
  moreover have "\<not> acked serve str_of (bc_sent (new_bot_client now_ns)) b" for b by (simp add: acked_def new_bot_client_def)
  ultimately show ?thesis
    using assms(1) unfolding maker_ok_def quiet_def by (auto simp: new_maker_def new_bot_client_def)
qed

text \<open>A maker's whole life: a fresh client, start-up, and any number of ticks.\<close>

definition maker_life ::
  "server \<Rightarrow> (json \<Rightarrow> string) \<Rightarrow> int \<Rightarrow> nat \<Rightarrow> nat \<Rightarrow> int \<Rightarrow> fair_value \<Rightarrow> maker_settings \<Rightarrow> meter \<Rightarrow> (int \<times> rat) list \<Rightarrow> maker" where
  "maker_life serve str_of now_ns n m sy fv st mt readings =
     maker_run serve str_of readings
       (new_maker (snd (bot_start serve str_of n m (new_bot_client now_ns))) sy fv st mt)"

lemma maker_life_ok:
  "maker_ok (new_client_order_id_base now_ns) serve str_of (maker_life serve str_of now_ns n m sy fv st mt readings) \<and>
   mk_symbol_id (maker_life serve str_of now_ns n m sy fv st mt readings) = sy \<and>
   mk_settings (maker_life serve str_of now_ns n m sy fv st mt readings) = st"
proof -
  have "quiet (new_client_order_id_base now_ns) serve str_of (new_bot_client now_ns)
      (snd (bot_start serve str_of n m (new_bot_client now_ns)))"
    using quietly_start unfolding quietly_def by blast
  then have "maker_ok (new_client_order_id_base now_ns) serve str_of
      (new_maker (snd (bot_start serve str_of n m (new_bot_client now_ns))) sy fv st mt)"
    by (rule maker_ok_new) simp
  from maker_run_ok [OF this, of readings] show ?thesis by (simp add: maker_life_def same_maker_def new_maker_def)
qed

text \<open>C18. One key, one decision. Whatever the server answers, refuses or breaks off, over a bot's whole life
  two requests under one client order id are the same request, so a resend is a retry and never a second
  order; every id lies at or above the one the process started from; and every order is one the
  gateway's validation accepts, unless its id, price or quantity has outgrown the contract's integers.\<close>

theorem one_key_per_decision:
  assumes "k = maker_life serve str_of now_ns n m sy fv st mt readings" and "0 \<le> now_ns" "0 \<le> sy" "sy \<le> I16_MAX"
    "0 < mk_quote_size st" "mk_quote_size st \<le> I64_MAX"
  shows "(\<forall>r \<in> set (bc_sent (mk_client k)). \<forall>r' \<in> set (bc_sent (mk_client k)).
      key_of r \<noteq> None \<and> key_of r = key_of r' \<longrightarrow> r = r') \<and>
    (\<forall>r \<in> set (bc_sent (mk_client k)). \<forall>i. key_of r = Some i \<longrightarrow> new_client_order_id_base now_ns \<le> i) \<and>
    (\<forall>b p. Post_Order b \<in> set (bc_sent (mk_client k)) \<and> bd_client_order_id b \<le> U64_MAX \<and> bd_price_ticks b = Some p \<and> p \<le> I64_MAX
       \<longrightarrow> valid_body b)"
proof -
  have ok: "maker_ok (new_client_order_id_base now_ns) serve str_of k" "mk_symbol_id k = sy" "mk_settings k = st"
    using maker_life_ok assms(1) by blast+
  have base: "0 \<le> new_client_order_id_base now_ns" using assms(2) by (simp add: new_client_order_id_base_def)
  have "valid_body b" if b: "Post_Order b \<in> set (bc_sent (mk_client k))" "bd_client_order_id b \<le> U64_MAX"
      "bd_price_ticks b = Some p" "p \<le> I64_MAX" for b p
  proof -
    obtain q coid where q: "quote_ok k q" "b = quote_body k q coid" using ok(1) b(1) unfolding maker_ok_def by blast
    have "key_of (Post_Order b) = Some (bd_client_order_id b)" by simp
    then have "0 \<le> bd_client_order_id b" using ok(1) b(1) base unfolding maker_ok_def client_ok_def by (meson order_trans)
    then show ?thesis
      using q b assms(3-6) ok(2,3) by (auto simp: valid_body_def quote_body_def limit_body_def quote_ok_def Tif_GTC_def)
  qed
  then show ?thesis using ok(1) unfolding maker_ok_def client_ok_def one_request_def by blast
qed

text \<open>C17. The maker keeps track of its quotes. Whatever the server does, when the obligation meter is shown a
  two-sided market both of its quotes have been acknowledged to this bot, and every order whose
  acknowledgement it has read is either on its list of resting quotes or one it has asked to cancel.\<close>

theorem maker_keeps_track:
  assumes "k = maker_life serve str_of now_ns n m sy fv st mt readings"
  shows "(\<forall>t. current_two_sided k = Some t \<longrightarrow>
      (\<exists>i j. acked serve str_of (bc_sent (mk_client k)) (quote_body k (tq_bid t) i) \<and>
             acked serve str_of (bc_sent (mk_client k)) (quote_body k (tq_ask t) j))) \<and>
    (\<forall>b. acked serve str_of (bc_sent (mk_client k)) b \<longrightarrow>
      (\<exists>q. dget (mk_resting k) (bd_side b) = Some (q, bd_client_order_id b)) \<or>
      (\<exists>i. Delete_Order (bd_client_order_id b) i \<in> set (bc_sent (mk_client k))))"
proof -
  have ok: "maker_ok (new_client_order_id_base now_ns) serve str_of k" using maker_life_ok assms by blast
  have "\<exists>i j. acked serve str_of (bc_sent (mk_client k)) (quote_body k (tq_bid t) i) \<and>
      acked serve str_of (bc_sent (mk_client k)) (quote_body k (tq_ask t) j)" if "current_two_sided k = Some t" for t
    using that ok unfolding maker_ok_def current_two_sided_def by (fastforce split: option.splits)
  then show ?thesis using ok unfolding maker_ok_def by blast
qed

definition demo_server :: server where
  "demo_server h =
     (let say = (\<lambda>st v. Inr \<lparr> rp_status = st, rp_json = Some v, rp_text = [] \<rparr>)
      in case last h of
           Register \<Rightarrow> say 201 JNull
         | Log_In \<Rightarrow> say 200 (JObj [(''user_id'', JInt 7)])
         | Get_Portfolio \<Rightarrow> say 200 (JObj [(''cash_ticks'', JInt 1000), (''positions'', JList [])])
         | Get_Open_Orders \<Rightarrow> say 200 (JList [])
         | _ \<Rightarrow> say 202 (JObj [(''seq'', JStr ''1-0'')]))"

definition demo_maker :: maker where
  "demo_maker =
     maker_life demo_server (\<lambda>_. []) 5000000 1 1 1 (Walk \<lparr> sy_value = 1000, sy_volatility = 1 \<rparr>)
       \<lparr> mk_half_spread_bps = 50, mk_skew_bps = 25, mk_quote_size = 100 \<rparr>
       (new_meter 1 \<lparr> lm_max_spread_bps = 200, lm_min_quote_size = 10, lm_min_two_sided_uptime = 0 \<rparr>) [(0, 0), (1, 3)]"

lemma demo_maker_sent:
  "bc_sent (mk_client demo_maker) =
     [Register, Log_In, Get_Portfolio, Get_Open_Orders, Get_Portfolio, Post_Order (limit_body 5 1 1 995 100),
      Post_Order (limit_body 6 1 2 1005 100), Get_Portfolio, Delete_Order 5 7, Post_Order (limit_body 8 1 1 998 100),
      Delete_Order 6 9, Post_Order (limit_body 10 1 2 1008 100)]"
  by code_simp

theorem one_key_per_decision_witness:
  "Post_Order (limit_body 10 1 2 1008 100) \<in> set (bc_sent (mk_client demo_maker)) \<and> valid_body (limit_body 10 1 2 1008 100)"
proof -
  note life = one_key_per_decision [OF demo_maker_def]
  have "Post_Order (limit_body 10 1 2 1008 100) \<in> set (bc_sent (mk_client demo_maker))" by (simp add: demo_maker_sent)
  moreover from this have "valid_body (limit_body 10 1 2 1008 100)"
    using life by (simp add: I16_MAX_def I64_MAX_def U64_MAX_def) (simp add: limit_body_def)
  ultimately show ?thesis by simp
qed

theorem maker_keeps_track_witness:
  "\<exists>i j. acked demo_server (\<lambda>_. []) (bc_sent (mk_client demo_maker)) (quote_body demo_maker \<lparr> qu_side = 1, qu_price_ticks = 998, qu_qty = 100 \<rparr> i) \<and>
     acked demo_server (\<lambda>_. []) (bc_sent (mk_client demo_maker)) (quote_body demo_maker \<lparr> qu_side = 2, qu_price_ticks = 1008, qu_qty = 100 \<rparr> j)"
proof -
  have "current_two_sided demo_maker =
      Some \<lparr> tq_bid = \<lparr> qu_side = 1, qu_price_ticks = 998, qu_qty = 100 \<rparr>, tq_ask = \<lparr> qu_side = 2, qu_price_ticks = 1008, qu_qty = 100 \<rparr> \<rparr>"
    by code_simp
  then show ?thesis using maker_keeps_track [OF demo_maker_def] by fastforce
qed

text \<open>A cancellation that was refused, whatever the reason, empties the side: after a 503 or a 429, which
  leave the order on the book, the maker believes it has nothing there.\<close>

lemma refused_cancel_forgets:
  assumes "cancel_order serve str_of target (mk_client k) = (Inr out, c)" "\<not> oc_accepted out"
  shows "dget (mk_resting (snd (pull serve str_of sd target k))) sd = None"
  using assms by (simp add: pull_def and_then_def with_client_def modify_def)

text \<open>An exception while an order is sent ends the placement with the key forgotten: nothing is recorded
  under it, and the next placement takes another.\<close>

lemma lost_reply_drops_key:
  assumes "serve (bc_sent (mk_client k) @ [Post_Order (quote_body k q (bc_next_id (mk_client k)))]) = Inl e"
  shows "\<exists>k'. place serve str_of q k = (Inl e, k') \<and> mk_resting k' = mk_resting k \<and>
    bc_next_id (mk_client k') = bc_next_id (mk_client k) + 1"
  using assms
  by (simp add: place_def HALT_RETRIES_def numeral_3_eq_3 and_then_def with_client_def take_client_order_id_def ask_def
      submit_limit_def submit_body_def authed_def http_request_def ret_def lift_def Let_def quote_body_def)

end
