(* ===== verification/Rate_Limit.thy ===== *)
theory Rate_Limit
  imports Float64
begin

section \<open>The rate limiter: services/gateway/ratelimit.py\<close>

text \<open>
  A token bucket per user, refilled when it is read. The clock and the tokens are floats, so
  every operation on them is the exact one under \<open>fl\<close> (\<open>Float64\<close>); the readings of the clock are
  arguments. \<open>enforce_rate_limit\<close> is \<open>_enforce_rate_limit\<close> of routes_orders.py, the first thing
  both order handlers do.

  \<open>rate_limit_bounds\<close> bounds what a user gets through in a stretch of time, rounding included;
  \<open>silence_refills\<close> says that a second without orders buys the whole burst back.
\<close>

record token_bucket =
  bk_tokens :: rat
  bk_last_refill :: rat

record rate_limiter =
  rl_rate :: int
  rl_buckets :: "(int, token_bucket) dict"

definition new_limiter :: "int \<Rightarrow> rate_limiter" where
  "new_limiter rate = \<lparr> rl_rate = rate, rl_buckets = [] \<rparr>"

text \<open>The bucket as \<open>allow\<close> finds it, brought up to now.\<close>

definition refill :: "int \<Rightarrow> rat \<Rightarrow> token_bucket option \<Rightarrow> token_bucket" where
  "refill rate now b =
     (case b of
        None \<Rightarrow> \<lparr> bk_tokens = fl (of_int rate), bk_last_refill = now \<rparr>
      | Some b \<Rightarrow>
          (let elapsed = max 0 (fl (now - bk_last_refill b))
           in \<lparr> bk_tokens = min (fl (of_int rate)) (fl (bk_tokens b + fl (elapsed * fl (of_int rate)))),
                bk_last_refill = now \<rparr>))"

definition allow :: "rat \<Rightarrow> int \<Rightarrow> rate_limiter \<Rightarrow> rate_limiter \<times> bool" where
  "allow now uid rl =
     (let b = refill (rl_rate rl) now (dget (rl_buckets rl) uid);
          store = (\<lambda>b. rl\<lparr>rl_buckets := dset uid b (rl_buckets rl)\<rparr>)
      in if bk_tokens b < 1 then (store b, False)
         else (store (b\<lparr>bk_tokens := fl (bk_tokens b - 1)\<rparr>), True))"

definition retry_after_seconds :: "int \<Rightarrow> rate_limiter \<Rightarrow> exn + rat" where
  "retry_after_seconds uid rl =
     (case dget (rl_buckets rl) uid of
        None \<Rightarrow> Inr 0
      | Some b \<Rightarrow>
          if 1 \<le> bk_tokens b then Inr 0
          else if rl_rate rl = 0 then Inl ZeroDivisionError
          else Inr (fl (fl (1 - bk_tokens b) / fl (of_int (rl_rate rl)))))"

definition forget_bucket :: "int \<Rightarrow> rate_limiter \<Rightarrow> rate_limiter" where
  "forget_bucket uid rl = rl\<lparr>rl_buckets := dpop uid (rl_buckets rl)\<rparr>"

text \<open>\<open>None\<close> lets the request in; otherwise it is a 429 with this \<open>Retry-After\<close> header.\<close>

definition enforce_rate_limit :: "rat \<Rightarrow> int \<Rightarrow> rate_limiter \<Rightarrow> rate_limiter \<times> (exn + string option)" where
  "enforce_rate_limit now uid rl =
     (let (rl', ok) = allow now uid rl
      in (rl', if ok then Inr None
               else sbind (retry_after_seconds uid rl') (\<lambda>secs. Inr (Some (str_int (max 1 (round_even secs)))))))"

text \<open>A history of orders, each with its user and the clock: what it leaves of the limiter, and how many of
  one user's were let in.\<close>

definition after_calls :: "(int \<times> rat) list \<Rightarrow> rate_limiter \<Rightarrow> rate_limiter" where
  "after_calls calls rl = fold (\<lambda>(v, now) rl. fst (allow now v rl)) calls rl"

fun let_in :: "int \<Rightarrow> (int \<times> rat) list \<Rightarrow> rate_limiter \<Rightarrow> nat" where
  "let_in uid [] rl = 0"
| "let_in uid ((v, now) # calls) rl =
     (let (rl', ok) = allow now v rl in (if ok \<and> v = uid then 1 else 0) + let_in uid calls rl')"

subsection \<open>One refill\<close>

lemma fl_le: "0 \<le> x \<Longrightarrow> fl x \<le> x + x / 2 ^ 53"
  using fl_near [of x] by linarith

lemma fl_ge_int: "of_int n \<le> x \<Longrightarrow> \<bar>n\<bar> < 2 ^ 53 \<Longrightarrow> of_int n \<le> fl x"
  using fl_mono [of "of_int n" x] fl_int [of n] by simp

text \<open>What rounding can add to one refill: the tokens and the refilled part are both within the rate.\<close>

lemma refill_rounding:
  assumes "0 \<le> t" "t \<le> R" "0 \<le> d" "d \<le> 1"
  shows "fl (t + fl (fl d * R)) \<le> t + R * d + R * 5 / 2 ^ 53"
proof -
  define u :: rat where "u = 1 / 2 ^ 53"
  have u: "0 \<le> u" "u \<le> 1 / 100" by (simp_all add: u_def)
  have R: "0 \<le> R" using assms by linarith
  have le: "fl x \<le> x * (1 + u)" if "0 \<le> x" for x using fl_le [OF that] by (simp add: u_def algebra_simps)
  have step: "fl (fl d * R) \<le> d * R * ((1 + u) * (1 + u))"
  proof -
    have "fl (fl d * R) \<le> fl d * R * (1 + u)" using fl_nonneg [OF assms(3)] R by (intro le) simp
    also have "\<dots> \<le> d * (1 + u) * R * (1 + u)" using le [OF assms(3)] R u by (intro mult_right_mono) auto
    finally show ?thesis by (simp add: mult_ac)
  qed
  have nn: "0 \<le> fl (fl d * R)" using fl_nonneg [OF assms(3)] R by (intro fl_nonneg) simp
  have "fl (t + fl (fl d * R)) \<le> (t + fl (fl d * R)) * (1 + u)" using assms(1) nn by (intro le) simp
  also have "\<dots> \<le> (t + d * R * ((1 + u) * (1 + u))) * (1 + u)" using step u by (intro mult_right_mono) auto
  also have "\<dots> = t + d * R + (t * u + d * R * (u * (3 + 3 * u + u * u)))" by (simp add: algebra_simps)
  also have "\<dots> \<le> t + d * R + (R * u + R * (u * 4))"
  proof -
    have "t * u \<le> R * u" using assms(2) u(1) by (rule mult_right_mono)
    moreover have "d * R * (u * (3 + 3 * u + u * u)) \<le> R * (u * 4)"
    proof (rule mult_mono)
      show "d * R \<le> R" using assms(3,4) R by (simp add: mult_left_le_one_le)
      have "u * u \<le> u * (1 / 100)" using u by (intro mult_left_mono) auto
      then have "3 + 3 * u + u * u \<le> 4" using u by linarith
      then show "u * (3 + 3 * u + u * u) \<le> u * 4" using u(1) by (rule mult_left_mono)
      show "0 \<le> u * (3 + 3 * u + u * u)" using u(1) by simp
    qed (use R in simp)
    ultimately show ?thesis by linarith
  qed
  also have "\<dots> = t + R * d + R * 5 / 2 ^ 53" by (simp add: u_def algebra_simps)
  finally show ?thesis .
qed

definition bucket_ok :: "int \<Rightarrow> token_bucket \<Rightarrow> bool" where
  "bucket_ok rate b \<longleftrightarrow> 0 \<le> bk_tokens b \<and> bk_tokens b \<le> of_int rate"

lemma refill_ok:
  assumes rate: "0 < rate" "rate < 2 ^ 53" and ok: "\<And>b. old = Some b \<Longrightarrow> bucket_ok rate b"
  shows "bucket_ok rate (refill rate now old)" "bk_last_refill (refill rate now old) = now"
  using rate ok fl_int [of rate]
  by (auto simp: refill_def bucket_ok_def Let_def split: option.splits intro!: fl_nonneg add_nonneg_nonneg mult_nonneg_nonneg)

lemma refill_adds:
  assumes rate: "0 < rate" "rate < 2 ^ 53" and ok: "bucket_ok rate b" and now: "bk_last_refill b \<le> now"
  shows "bk_tokens (refill rate now (Some b)) \<le>
    bk_tokens b + of_int rate * (now - bk_last_refill b) + of_int rate * 5 / 2 ^ 53"
proof -
  define R :: rat where "R = of_int rate"
  define d where "d = now - bk_last_refill b"
  have R: "fl R = R" "0 < R" using fl_int [of rate] rate by (simp_all add: R_def)
  have d: "0 \<le> d" using now by (simp add: d_def)
  have t: "0 \<le> bk_tokens b" "bk_tokens b \<le> R" using ok by (simp_all add: bucket_ok_def R_def)
  have eq: "bk_tokens (refill rate now (Some b)) = min R (fl (bk_tokens b + fl (fl d * R)))"
    using fl_nonneg [OF d] R(1) by (simp add: refill_def Let_def max_def d_def R_def)
  show ?thesis
  proof (cases "d \<le> 1")
    case True
    then show ?thesis using refill_rounding [OF t d True] by (simp add: eq R_def d_def min_le_iff_disj)
  next
    case False
    then have "R * 1 \<le> R * d" using R(2) by (intro mult_left_mono) auto
    moreover have "0 \<le> R * 5 / 2 ^ 53" using R(2) by simp
    ultimately have "R \<le> bk_tokens b + R * d + R * 5 / 2 ^ 53" using t(1) by linarith
    then show ?thesis by (simp add: eq R_def d_def min_le_iff_disj)
  qed
qed

subsection \<open>A whole history\<close>

text \<open>What a user may still get through by time \<open>b\<close>: from a full bucket at \<open>a\<close> if they have none, or
  none that was touched since, for the cap lets no bucket be fuller than that.\<close>

definition allowance :: "int \<Rightarrow> rat \<Rightarrow> rat \<Rightarrow> token_bucket option \<Rightarrow> rat" where
  "allowance rate a b old =
     (let full = of_int rate * (1 + (b - a))
      in case old of
           None \<Rightarrow> full
         | Some bk \<Rightarrow> if bk_last_refill bk < a then full else bk_tokens bk + of_int rate * (b - bk_last_refill bk))"

lemma refill_allowance:
  assumes rate: "0 < rate" "rate < 2 ^ 53" and "a \<le> now"
    and ok: "\<And>bk. old = Some bk \<Longrightarrow> bucket_ok rate bk \<and> bk_last_refill bk \<le> now"
  shows "bk_tokens (refill rate now old) + of_int rate * (b - now) \<le> allowance rate a b old + of_int rate * 5 / 2 ^ 53"
proof -
  have full: "bk_tokens (refill rate now old) + of_int rate * (b - now) \<le> of_int rate * (1 + (b - a)) + of_int rate * 5 / 2 ^ 53"
  proof -
    have "of_int rate * (b - now) \<le> (of_int rate * (b - a) :: rat)" using assms by (intro mult_left_mono) auto
    moreover have "0 \<le> (of_int rate * 5 / 2 ^ 53 :: rat)" using rate by simp
    moreover have "bk_tokens (refill rate now old) \<le> of_int rate"
      using refill_ok(1) [OF rate, of old now] ok by (simp add: bucket_ok_def)
    moreover have "of_int rate * (1 + (b - a)) = (of_int rate + of_int rate * (b - a) :: rat)" by (simp add: algebra_simps)
    ultimately show ?thesis by linarith
  qed
  show ?thesis
  proof (cases old)
    case None
    then show ?thesis using full by (simp add: allowance_def)
  next
    case (Some bk)
    have "bk_tokens (refill rate now old) \<le> bk_tokens bk + of_int rate * (now - bk_last_refill bk) + of_int rate * 5 / 2 ^ 53"
      using refill_adds [OF rate, of bk now] ok Some by simp
    moreover have "of_int rate * (b - bk_last_refill bk) = (of_int rate * (now - bk_last_refill bk) + of_int rate * (b - now) :: rat)"
      by (simp add: algebra_simps)
    ultimately show ?thesis using full by (simp add: Some allowance_def)
  qed
qed

lemma allowance_full:
  assumes "0 < rate" "a \<le> b" "\<And>bk. old = Some bk \<Longrightarrow> bucket_ok rate bk \<and> bk_last_refill bk \<le> b"
  shows "0 \<le> allowance rate a b old \<and> allowance rate a b old \<le> of_int rate * (1 + (b - a))"
proof (cases "\<exists>bk. old = Some bk \<and> a \<le> bk_last_refill bk")
  case True
  then obtain bk where bk: "old = Some bk" "a \<le> bk_last_refill bk" by blast
  have "of_int rate * (b - bk_last_refill bk) \<le> (of_int rate * (b - a) :: rat)" using assms(1) bk(2) by (intro mult_left_mono) auto
  moreover have "0 \<le> (of_int rate * (b - bk_last_refill bk) :: rat)" using assms(1,3) bk(1) by simp
  ultimately show ?thesis
    using assms(3) [OF bk(1)] bk(2) by (simp add: bk(1) allowance_def bucket_ok_def distrib_left)
next
  case False
  then show ?thesis using assms(1,2) by (auto simp: allowance_def Let_def split: option.split)
qed

lemma allow_rate [simp]: "rl_rate (fst (allow now v rl)) = rl_rate rl"
  by (simp add: allow_def Let_def)

lemma allow_other: "v \<noteq> uid \<Longrightarrow> dget (rl_buckets (fst (allow now v rl))) uid = dget (rl_buckets rl) uid"
  by (simp add: allow_def Let_def)

lemma allow_own:
  assumes "rl_rate rl = rate" "0 < rate" "rate < 2 ^ 53" "\<And>bk. dget (rl_buckets rl) uid = Some bk \<Longrightarrow> bucket_ok rate bk"
  shows "\<exists>bk. dget (rl_buckets (fst (allow now uid rl))) uid = Some bk \<and> bucket_ok rate bk \<and> bk_last_refill bk = now \<and>
    bk_tokens bk + (if snd (allow now uid rl) then 1 else 0) \<le>
      bk_tokens (refill rate now (dget (rl_buckets rl) uid)) + of_int rate / 2 ^ 53"
proof -
  define b where "b = refill rate now (dget (rl_buckets rl) uid)"
  have b: "bucket_ok rate b" "bk_last_refill b = now" using refill_ok [of rate] assms by (simp_all add: b_def)
  have R: "0 \<le> (of_int rate / 2 ^ 53 :: rat)" using assms(2) by simp
  show ?thesis
  proof (cases "bk_tokens b < 1")
    case True
    then show ?thesis using b R assms(1) by (simp add: allow_def Let_def b_def)
  next
    case False
    then have t: "0 \<le> bk_tokens b - 1" by simp
    have "(bk_tokens b - 1) / 2 ^ 53 \<le> of_int rate / 2 ^ 53"
      using b(1) by (intro divide_right_mono) (auto simp: bucket_ok_def)
    then have "fl (bk_tokens b - 1) + 1 \<le> bk_tokens b + of_int rate / 2 ^ 53" using fl_le [OF t] by linarith
    moreover have "fl (bk_tokens b - 1) \<le> of_int rate"
      using fl_mono [of "bk_tokens b - 1" "of_int rate"] fl_int [of rate] assms b(1) by (simp add: bucket_ok_def)
    ultimately show ?thesis
      using False b assms(1) fl_nonneg [OF t] by (simp add: allow_def Let_def b_def bucket_ok_def)
  qed
qed

lemma let_in_bound:
  assumes "rl_rate rl = rate" "0 < rate" "rate < 2 ^ 53" "sorted (map snd calls)"
    "\<And>t. t \<in> snd ` set calls \<Longrightarrow> a \<le> t \<and> t \<le> b" "a \<le> b"
    "\<And>bk. dget (rl_buckets rl) uid = Some bk \<Longrightarrow> bucket_ok rate bk \<and> bk_last_refill bk \<le> b \<and>
       (\<forall>t \<in> snd ` set calls. bk_last_refill bk \<le> t)"
  shows "of_nat (let_in uid calls rl) \<le> allowance rate a b (dget (rl_buckets rl) uid) + of_nat (length calls) * of_int rate / 2 ^ 50"
  using assms
proof (induction calls arbitrary: rl)
  case Nil
  then show ?case using allowance_full [of rate a b "dget (rl_buckets rl) uid"] by simp
next
  case (Cons call calls)
  obtain v now where call: "call = (v, now)" by fastforce
  define rl' where "rl' = fst (allow now v rl)"
  define n where "n = let_in uid calls rl'"
  have now: "a \<le> now" "now \<le> b" "\<forall>t \<in> snd ` set calls. now \<le> t" using Cons.prems(4,5) call by auto
  have R: "0 \<le> (of_int rate :: rat)" using Cons.prems(2) by simp
  have rl': "rl_rate rl' = rate" "sorted (map snd calls)" using Cons.prems(1,4) by (simp_all add: rl'_def)
  have unfold: "let_in uid (call # calls) rl = (if snd (allow now v rl) \<and> v = uid then 1 else 0) + n"
    by (simp add: call n_def rl'_def case_prod_beta Let_def)
  have len: "of_nat (length (call # calls)) * of_int rate / 2 ^ 50 =
      (of_nat (length calls) * of_int rate / 2 ^ 50 + of_int rate * 8 / 2 ^ 53 :: rat)" by (simp add: algebra_simps add_divide_distrib)
  show ?case
  proof (cases "v = uid")
    case False
    then have same: "dget (rl_buckets rl') uid = dget (rl_buckets rl) uid" by (simp add: rl'_def allow_other)
    have "of_nat n \<le> allowance rate a b (dget (rl_buckets rl') uid) + of_nat (length calls) * of_int rate / 2 ^ 50"
      unfolding n_def using Cons.prems(2,3,5-7) rl' by (intro Cons.IH) (auto simp: same)
    moreover have "0 \<le> (of_int rate * 8 / 2 ^ 53 :: rat)" using R by simp
    ultimately show ?thesis using False unfolding unfold len same by simp
  next
    case True
    obtain bk where bk: "dget (rl_buckets rl') uid = Some bk" "bucket_ok rate bk" "bk_last_refill bk = now"
      and spent: "bk_tokens bk + (if snd (allow now uid rl) then 1 else 0) \<le>
        bk_tokens (refill rate now (dget (rl_buckets rl) uid)) + of_int rate / 2 ^ 53"
      using allow_own [of rl rate uid now] Cons.prems(1-3,7) unfolding rl'_def True by blast
    have "of_nat n \<le> allowance rate a b (dget (rl_buckets rl') uid) + of_nat (length calls) * of_int rate / 2 ^ 50"
      unfolding n_def using Cons.prems(2,3,5,6) rl' bk now by (intro Cons.IH) auto
    then have IH: "of_nat n \<le> bk_tokens bk + of_int rate * (b - now) + of_nat (length calls) * of_int rate / 2 ^ 50"
      using now(1) by (simp add: bk allowance_def)
    have "bk_tokens (refill rate now (dget (rl_buckets rl) uid)) + of_int rate * (b - now) \<le>
        allowance rate a b (dget (rl_buckets rl) uid) + of_int rate * 5 / 2 ^ 53"
      using Cons.prems(2,3,7) now(1) call by (intro refill_allowance) auto
    moreover have "of_int rate * 5 / 2 ^ 53 + of_int rate / 2 ^ 53 \<le> (of_int rate * 8 / 2 ^ 53 :: rat)" using R by simp
    ultimately show ?thesis using IH spent True unfolding unfold len by (auto split: if_splits)
  qed
qed

lemma after_calls_ok:
  assumes "0 < rate" "rate < 2 ^ 53"
  shows "rl_rate (after_calls calls (new_limiter rate)) = rate \<and>
    (\<forall>bk. dget (rl_buckets (after_calls calls (new_limiter rate))) uid = Some bk \<longrightarrow>
       bucket_ok rate bk \<and> bk_last_refill bk \<in> snd ` set calls)"
proof (induction calls rule: rev_induct)
  case Nil
  show ?case by (simp add: after_calls_def new_limiter_def)
next
  case (snoc call calls)
  obtain v now where call: "call = (v, now)" by fastforce
  define rl where "rl = after_calls calls (new_limiter rate)"
  have step: "after_calls (calls @ [call]) (new_limiter rate) = fst (allow now v rl)" by (simp add: after_calls_def call rl_def)
  show ?case
  proof (cases "v = uid")
    case True
    then show ?thesis using snoc allow_own [of rl rate uid now] assms unfolding step rl_def [symmetric] by (auto simp: call)
  next
    case False
    then show ?thesis using snoc unfolding step rl_def [symmetric] by (auto simp: allow_other call)
  qed
qed

text \<open>C39. The cap holds, floating point and all, over every stretch of time: whatever orders came before, between
  \<open>a\<close> and \<open>b\<close> a user gets through at most a burst of \<open>rate\<close> orders plus \<open>rate\<close> for every second,
  plus at most one part in \<open>2 ^ 50\<close> of the rate for every order anybody sent meanwhile; and nobody
  else's orders are counted against them. Having been silent saves nothing up beyond the one burst.\<close>

theorem rate_limit_bounds:
  assumes "0 < rate" "rate < 2 ^ 53" "sorted (map snd (before @ calls))" "\<forall>t \<in> snd ` set calls. a \<le> t \<and> t \<le> b" "a \<le> b"
  shows "of_nat (let_in uid calls (after_calls before (new_limiter rate))) \<le>
    of_int rate * (1 + (b - a)) + of_nat (length calls) * of_int rate / 2 ^ 50"
proof (cases "calls = []")
  case True
  then show ?thesis using assms(1,5) by simp
next
  case False
  define rl where "rl = after_calls before (new_limiter rate)"
  note rl = after_calls_ok [OF assms(1,2), of before uid, folded rl_def]
  have earlier: "\<forall>t \<in> snd ` set calls. s \<le> t" if "s \<in> snd ` set before" for s
    using that assms(3) by (auto simp: sorted_append)
  obtain t where t: "t \<in> snd ` set calls" using False by (cases calls) auto
  have bk: "bucket_ok rate bk \<and> bk_last_refill bk \<le> b \<and> (\<forall>t \<in> snd ` set calls. bk_last_refill bk \<le> t)"
    if "dget (rl_buckets rl) uid = Some bk" for bk
    using rl that earlier [of "bk_last_refill bk"] assms(4) t by fastforce
  have "of_nat (let_in uid calls rl) \<le> allowance rate a b (dget (rl_buckets rl) uid) + of_nat (length calls) * of_int rate / 2 ^ 50"
    using rl assms bk by (intro let_in_bound) (auto simp: sorted_append)
  moreover have "allowance rate a b (dget (rl_buckets rl) uid) \<le> of_int rate * (1 + (b - a))"
    using allowance_full [OF assms(1,5)] bk by blast
  ultimately show ?thesis by (simp add: rl_def)
qed

text \<open>Silent for three seconds, a user has one order to send at once, not four.\<close>

definition demo_calls :: "(int \<times> rat) list" where
  "demo_calls = [(7, 3), (7, 3), (9, 13 / 4), (7, 4)]"

theorem rate_limit_bounds_witness:
  "let_in 7 demo_calls (after_calls [(7, 0)] (new_limiter 1)) = 2 \<and>
    (of_nat (let_in 7 demo_calls (after_calls [(7, 0)] (new_limiter 1))) :: rat) \<le>
      1 * (1 + (4 - 3)) + of_nat (length demo_calls) * 1 / 2 ^ 50"
proof -
  have "let_in 7 demo_calls (after_calls [(7, 0)] (new_limiter 1)) = 2" by code_simp
  then show ?thesis using rate_limit_bounds [of 1 "[(7, 0)]" demo_calls 3 4 7] by (simp add: demo_calls_def)
qed

text \<open>A second of silence buys the whole burst back.\<close>

lemma silence_refills:
  assumes "0 < rate" "rate < 2 ^ 53" "bucket_ok rate b" "bk_last_refill b + 1 \<le> now"
  shows "bk_tokens (refill rate now (Some b)) = of_int rate"
proof -
  define R :: rat where "R = of_int rate"
  have R: "fl R = R" "0 < R" using fl_int [of rate] assms(1,2) by (simp_all add: R_def)
  have e: "1 \<le> fl (now - bk_last_refill b)" using fl_ge_int [of 1 "now - bk_last_refill b"] assms(4) by simp
  then have "1 * R \<le> fl (now - bk_last_refill b) * R" using R(2) by (intro mult_right_mono) auto
  then have "R \<le> fl (fl (now - bk_last_refill b) * R)"
    using fl_mono [of R "fl (now - bk_last_refill b) * R"] R(1) by simp
  then have "R \<le> bk_tokens b + fl (fl (now - bk_last_refill b) * R)" using assms(3) by (simp add: bucket_ok_def)
  then have "R \<le> fl (bk_tokens b + fl (fl (now - bk_last_refill b) * R))"
    using fl_mono [of R "bk_tokens b + fl (fl (now - bk_last_refill b) * R)"] R(1) by simp
  then show ?thesis using e R(1) by (simp add: refill_def Let_def max_def R_def)
qed

end
