(* ===== verification/Sessions.thy ===== *)
theory Sessions
  imports Prelude
begin

section \<open>Sessions: services/gateway/sessions.py\<close>

text \<open>
  A session is a Redis key that expires and holds a user id. The keys are a dictionary with a
  deadline each, in Redis's milliseconds; the clock and the random id are arguments.
  \<open>session_store\<close> is what the gateway and fan-out rely on: laws about one operation, from which
  \<open>who_is_in\<close> follows for any history of them. It is interpreted on \<open>SessionStore\<close>.
\<close>

subsection \<open>Redis keys that expire\<close>

type_synonym expiring = "(string, string \<times> int) dict"

definition redis_get :: "int \<Rightarrow> string \<Rightarrow> expiring \<Rightarrow> string option" where
  "redis_get now k keys =
     (case dget keys k of None \<Rightarrow> None | Some (v, deadline) \<Rightarrow> if now < deadline then Some v else None)"

text \<open>\<open>SET k v EX ttl\<close>.\<close>

definition redis_set_ex :: "int \<Rightarrow> int \<Rightarrow> string \<Rightarrow> string \<Rightarrow> expiring \<Rightarrow> expiring" where
  "redis_set_ex now ttl k v keys = dset k (v, now + 1000 * ttl) keys"

subsection \<open>SessionStore\<close>

definition session_key :: "string \<Rightarrow> string" where
  "session_key session_id = ''session:'' @ session_id"

text \<open>\<open>create\<close>, given the id that \<open>secrets.token_urlsafe\<close> returned.\<close>

definition session_create :: "int \<Rightarrow> int \<Rightarrow> string \<Rightarrow> int \<Rightarrow> expiring \<Rightarrow> expiring" where
  "session_create ttl now session_id uid keys = redis_set_ex now ttl (session_key session_id) (str_int uid) keys"

definition session_user :: "int \<Rightarrow> string \<Rightarrow> expiring \<Rightarrow> exn + int option" where
  "session_user now session_id keys =
     (if session_id = [] then Inr None
      else case redis_get now (session_key session_id) keys of
             None \<Rightarrow> Inr None
           | Some raw \<Rightarrow> sbind (parse_int raw) (\<lambda>uid. Inr (Some uid)))"

definition session_destroy :: "string \<Rightarrow> expiring \<Rightarrow> expiring" where
  "session_destroy session_id keys = (if session_id \<noteq> [] then dpop (session_key session_id) keys else keys)"

subsection \<open>What a store of sessions promises\<close>

datatype session_op = Issue int string int | Revoke string

locale session_store =
  fixes start :: 's
    and issue :: "int \<Rightarrow> string \<Rightarrow> int \<Rightarrow> 's \<Rightarrow> 's"
    and revoke :: "string \<Rightarrow> 's \<Rightarrow> 's"
    and lookup :: "int \<Rightarrow> string \<Rightarrow> 's \<Rightarrow> exn + int option"
    and lifetime :: int
  assumes lookup_start: "lookup now sid start = Inr None"
    and lookup_blank: "lookup now [] s = Inr None"
    and lookup_issue: "sid \<noteq> [] \<Longrightarrow> 0 \<le> uid \<Longrightarrow> lookup now sid' (issue t sid uid s) =
      (if sid' = sid then Inr (if now < t + lifetime then Some uid else None) else lookup now sid' s)"
    and lookup_revoke: "lookup now sid' (revoke sid s) = (if sid' = sid then Inr None else lookup now sid' s)"
begin

definition apply_op :: "session_op \<Rightarrow> 's \<Rightarrow> 's" where
  "apply_op x s = (case x of Issue t sid uid \<Rightarrow> issue t sid uid s | Revoke sid \<Rightarrow> revoke sid s)"

definition sane :: "session_op list \<Rightarrow> bool" where
  "sane ops \<longleftrightarrow> (\<forall>t sid uid. Issue t sid uid \<in> set ops \<longrightarrow> sid \<noteq> [] \<and> 0 \<le> uid)"

definition touches :: "string \<Rightarrow> session_op \<Rightarrow> bool" where
  "touches sid x = (case x of Issue t sid' uid \<Rightarrow> sid' = sid | Revoke sid' \<Rightarrow> sid' = sid)"

text \<open>A cookie stands for a user just when the last thing that happened to it was to be issued to
  them, not too long ago.\<close>

lemma who_is_in:
  assumes "sane ops"
  shows "lookup now sid (fold apply_op ops start) = Inr (Some u) \<longleftrightarrow>
    (\<exists>pre t post. ops = pre @ Issue t sid u # post \<and> now < t + lifetime \<and> (\<forall>x \<in> set post. \<not> touches sid x))"
  using assms
proof (induction ops rule: rev_induct)
  case Nil
  then show ?case by (simp add: lookup_start)
next
  case (snoc x ops)
  have sane: "sane ops" using snoc.prems by (auto simp: sane_def)
  show ?case
  proof (cases "touches sid x")
    case True
    have split: "(\<exists>pre t post. ops @ [x] = pre @ Issue t sid u # post \<and> now < t + lifetime \<and> (\<forall>y \<in> set post. \<not> touches sid y)) \<longleftrightarrow>
        (\<exists>t. x = Issue t sid u \<and> now < t + lifetime)" (is "?L \<longleftrightarrow> ?R")
    proof
      assume ?L
      then obtain pre t post where e: "ops @ [x] = pre @ Issue t sid u # post" "now < t + lifetime" "\<forall>y \<in> set post. \<not> touches sid y"
        by blast
      then show ?R using True by (cases post rule: rev_cases) auto
    next
      assume ?R
      then obtain t where "x = Issue t sid u" "now < t + lifetime" by blast
      then have "ops @ [x] = ops @ Issue t sid u # [] \<and> now < t + lifetime \<and> (\<forall>y \<in> set []. \<not> touches sid y)" by simp
      then show ?L by blast
    qed
    have "lookup now sid (fold apply_op (ops @ [x]) start) = Inr (Some u) \<longleftrightarrow> ?R"
      using True snoc.prems
      by (cases x) (auto simp: apply_op_def touches_def sane_def lookup_issue lookup_revoke)
    then show ?thesis unfolding split .
  next
    case False
    have "(\<exists>pre t post. ops @ [x] = pre @ Issue t sid u # post \<and> now < t + lifetime \<and> (\<forall>y \<in> set post. \<not> touches sid y)) \<longleftrightarrow>
        (\<exists>pre t post. ops = pre @ Issue t sid u # post \<and> now < t + lifetime \<and> (\<forall>y \<in> set post. \<not> touches sid y))" (is "?L \<longleftrightarrow> ?R")
    proof
      assume ?L
      then obtain pre t post where e: "ops @ [x] = pre @ Issue t sid u # post" "now < t + lifetime" "\<forall>y \<in> set post. \<not> touches sid y"
        by blast
      then show ?R using False by (cases post rule: rev_cases) (auto simp: touches_def)
    next
      assume ?R
      then obtain pre t post where "ops = pre @ Issue t sid u # post" "now < t + lifetime" "\<forall>y \<in> set post. \<not> touches sid y"
        by blast
      then have "ops @ [x] = pre @ Issue t sid u # (post @ [x]) \<and> now < t + lifetime \<and> (\<forall>y \<in> set (post @ [x]). \<not> touches sid y)"
        using False by simp
      then show ?L by blast
    qed
    moreover have "lookup now sid (fold apply_op (ops @ [x]) start) = lookup now sid (fold apply_op ops start)"
      using False snoc.prems by (cases x) (auto simp: apply_op_def touches_def sane_def lookup_issue lookup_revoke)
    ultimately show ?thesis using snoc.IH [OF sane] by simp
  qed
qed

text \<open>And reading never fails.\<close>

lemma reads: "sane ops \<Longrightarrow> \<exists>r. lookup now sid (fold apply_op ops start) = Inr r"
proof (induction ops rule: rev_induct)
  case (snoc x ops)
  then have "sane ops" by (auto simp: sane_def)
  then show ?case using snoc by (cases x) (auto simp: apply_op_def sane_def lookup_issue lookup_revoke)
qed (simp add: lookup_start)

end

lemma session_key_eq [simp]: "session_key a = session_key b \<longleftrightarrow> a = b"
  by (simp add: session_key_def)

interpretation ss: session_store "[]" "session_create ttl" session_destroy session_user "1000 * ttl" for ttl
  by unfold_locales
    (auto simp: session_user_def session_create_def session_destroy_def redis_get_def redis_set_ex_def parse_int_str_int)

end
