(* ===== verification/Access.thy ===== *)
theory Access
  imports Sessions Contracts
begin

section \<open>Who may trade: services/gateway/routes_auth.py, security.py, deps.py\<close>

text \<open>
  Registration, login, logout and the check every other route starts with, cut at their awaits
  as in \<open>Order_Flow\<close>: the requests in flight interleave freely, the database and Redis may fail
  at any await, before or after the statement took effect, and the gateway may restart.
  The password hasher is a parameter: \<open>hash salt password\<close>, and what \<open>verify\<close> did. The random
  bytes of a hash and of a session id, the clock and the stream ids are in the events.
  The records appended stand for their packed bytes.

  Requests are numbered by their events. \<open>ac_history\<close> is for the statements only: what happened to
  accounts and sessions, in order.
\<close>

subsection \<open>Passwords\<close>

datatype argon2 = Verified | VerifyMismatchError | VerificationError | InvalidHashError | Other_Error exn

definition verify_password :: "(string \<Rightarrow> string \<Rightarrow> argon2) \<Rightarrow> string \<Rightarrow> string \<Rightarrow> exn + bool" where
  "verify_password verify password_hash password =
     (case verify password_hash password of
        Verified \<Rightarrow> Inr True
      | Other_Error e \<Rightarrow> Inl e
      | _ \<Rightarrow> Inr False)"

subsection \<open>The table and the requests\<close>

record user_row =
  us_id :: int
  us_username :: string
  us_password_hash :: string
  us_created_at_ns :: int

record credentials =
  cr_username :: string
  cr_password :: string

text \<open>What pydantic lets through, for a registration and for a login.\<close>

definition name_char :: "char \<Rightarrow> bool" where
  "name_char c =
     (let n = of_char c :: nat
      in (65 \<le> n \<and> n \<le> 90) \<or> (97 \<le> n \<and> n \<le> 122) \<or> (48 \<le> n \<and> n \<le> 57) \<or> c \<in> {CHR ''_'', CHR ''.'', CHR ''-''})"

definition valid_registration :: "credentials \<Rightarrow> bool" where
  "valid_registration b \<longleftrightarrow>
     3 \<le> length (cr_username b) \<and> length (cr_username b) \<le> 64 \<and> list_all name_char (cr_username b) \<and>
     8 \<le> length (cr_password b) \<and> length (cr_password b) \<le> 256"

definition valid_login :: "credentials \<Rightarrow> bool" where
  "valid_login b \<longleftrightarrow>
     1 \<le> length (cr_username b) \<and> length (cr_username b) \<le> 64 \<and>
     1 \<le> length (cr_password b) \<and> length (cr_password b) \<le> 256"

text \<open>
  Answers: \<open>Let_In\<close> is \<open>CurrentUser\<close> resolved, from where a route of the exchange goes on; \<open>Logged_In\<close>
  sets the cookie; \<open>Not_Recorded\<close> is the 503 of a halted exchange.
\<close>

datatype response =
    Registered int string string
  | Name_Taken
  | Not_Recorded string
  | Logged_In int string string
  | Invalid_Credentials
  | Not_Authenticated
  | Let_In int
  | Logged_Out
  | Unprocessable
  | Internal_Error

datatype stage =
    Checking_Name credentials
  | Saving user_row string
  | Granting user_row wire
  | Grant_Unread user_row string
  | Withdrawing user_row string
  | Finding_User credentials
  | Storing_Session int string string string
  | Identifying string bool
  | Destroying string
  | Responded response

datatype history =
    Account_Made int string string
  | Signed_In int string int string string
  | Signed_Out string

record access =
  ac_users :: "user_row list"
  ac_next_id :: int
  ac_keys :: expiring
  ac_makers :: "int set"
  ac_inbound :: "(string \<times> wire) list"
  ac_requests :: "(nat, stage) dict"
  ac_history :: "history list"

definition new_access :: access where
  "new_access =
     \<lparr> ac_users = [], ac_next_id = 1, ac_keys = [], ac_makers = {}, ac_inbound = [], ac_requests = [],
       ac_history = [] \<rparr>"

definition to_stage :: "nat \<Rightarrow> stage \<Rightarrow> access \<Rightarrow> access" where
  "to_stage n st g = g\<lparr>ac_requests := dset n st (ac_requests g)\<rparr>"

definition user_named :: "string \<Rightarrow> user_row list \<Rightarrow> user_row option" where
  "user_named name rows = find (\<lambda>r. us_username r = name) rows"

definition ACCOUNT_CREATION_CLIENT_ORDER_ID :: int where
  "ACCOUNT_CREATION_CLIENT_ORDER_ID = 0"

subsection \<open>The handlers, await by await\<close>

text \<open>
  Each event names its request. \<open>lands\<close>: the statement took effect; \<open>read\<close>: its answer came back.
  \<open>Name_Checked\<close> has the clock and the salt; \<open>Saved\<close> covers the commit and the refresh after it;
  \<open>Grant_Fails\<close> has the reason when it is \<open>ExchangeHalted\<close>; \<open>Token\<close> is the session id drawn once
  the password was verified; \<open>Restarted\<close> drops the requests and reads the makers back from the table.
\<close>

datatype access_event =
    Register nat credentials
  | Name_Checked nat int string
  | Saved nat bool bool
  | Granted nat int int
  | Grant_Read nat
  | Grant_Fails nat "string option"
  | Withdrawn nat bool bool
  | Login nat credentials
  | User_Found nat string
  | Stored nat int bool bool
  | Enter nat string bool
  | Identified nat int
  | Destroyed nat bool bool
  | Failed nat
  | Restarted

definition after_name_check :: "(string \<Rightarrow> string \<Rightarrow> string) \<Rightarrow> nat \<Rightarrow> int \<Rightarrow> string \<Rightarrow> credentials \<Rightarrow> access \<Rightarrow> access" where
  "after_name_check hash n now salt b g =
     (case user_named (cr_username b) (ac_users g) of
        Some r \<Rightarrow> to_stage n (Responded Name_Taken) g
      | None \<Rightarrow>
          to_stage n (Saving \<lparr> us_id = 0, us_username = cr_username b,
                               us_password_hash = hash salt (cr_password b), us_created_at_ns = now \<rparr> (cr_password b)) g)"

text \<open>
  The commit: PostgreSQL draws the next id, used or not, and refuses a second row of the name.
  Then the maker's privilege and the grant's record, up to the append.
\<close>

definition after_save :: "string set \<Rightarrow> nat \<Rightarrow> bool \<Rightarrow> bool \<Rightarrow> user_row \<Rightarrow> string \<Rightarrow> access \<Rightarrow> access" where
  "after_save makers n lands read row password g =
     (let uid = ac_next_id g; r = row\<lparr>us_id := uid\<rparr>; g1 = g\<lparr>ac_next_id := uid + 1\<rparr>
      in if \<not> lands \<or> user_named (us_username row) (ac_users g) \<noteq> None then to_stage n (Responded Internal_Error) g1
         else (let g2 = g1\<lparr>ac_users := ac_users g1 @ [r],
                           ac_history := ac_history g1 @ [Account_Made uid (us_username r) password]\<rparr>
               in if \<not> read then to_stage n (Responded Internal_Error) g2
                  else to_stage n
                         (Granting r (CreateAccount_new (us_created_at_ns r) ACCOUNT_CREATION_CLIENT_ORDER_ID uid))
                         (if us_username r \<in> makers then g2\<lparr>ac_makers := insert uid (ac_makers g2)\<rparr> else g2)))"

definition after_login_lookup ::
  "(string \<Rightarrow> string \<Rightarrow> argon2) \<Rightarrow> nat \<Rightarrow> string \<Rightarrow> credentials \<Rightarrow> access \<Rightarrow> access" where
  "after_login_lookup verify n token b g =
     (case user_named (cr_username b) (ac_users g) of
        None \<Rightarrow> to_stage n (Responded Invalid_Credentials) g
      | Some r \<Rightarrow>
          (case verify_password verify (us_password_hash r) (cr_password b) of
             Inl e \<Rightarrow> to_stage n (Responded Internal_Error) g
           | Inr False \<Rightarrow> to_stage n (Responded Invalid_Credentials) g
           | Inr True \<Rightarrow>
               to_stage n (Storing_Session (us_id r) (us_username r) (cr_password b) token) g))"

definition current_user_id :: "int \<Rightarrow> string \<Rightarrow> access \<Rightarrow> response" where
  "current_user_id now cookie g =
     (case session_user now cookie (ac_keys g) of
        Inl e \<Rightarrow> Internal_Error
      | Inr None \<Rightarrow> Not_Authenticated
      | Inr (Some uid) \<Rightarrow> Let_In uid)"

fun access_step ::
  "(string \<Rightarrow> string \<Rightarrow> string) \<Rightarrow> (string \<Rightarrow> string \<Rightarrow> argon2) \<Rightarrow> string set \<Rightarrow> int \<Rightarrow> access_event \<Rightarrow> access \<Rightarrow> access"
where
  "access_step hash verify makers ttl (Register n b) g =
     (if dget (ac_requests g) n \<noteq> None then g
      else to_stage n (if valid_registration b then Checking_Name b else Responded Unprocessable) g)"
| "access_step hash verify makers ttl (Name_Checked n now salt) g =
     (case dget (ac_requests g) n of
        Some (Checking_Name b) \<Rightarrow> after_name_check hash n now salt b g
      | _ \<Rightarrow> g)"
| "access_step hash verify makers ttl (Saved n lands read) g =
     (case dget (ac_requests g) n of
        Some (Saving row password) \<Rightarrow> after_save makers n lands read row password g
      | _ \<Rightarrow> g)"
| "access_step hash verify makers ttl (Granted n ms ord) g =
     (case dget (ac_requests g) n of
        Some (Granting r rec) \<Rightarrow>
          to_stage n (Grant_Unread r (stream_id ms ord)) (g\<lparr>ac_inbound := ac_inbound g @ [(stream_id ms ord, rec)]\<rparr>)
      | _ \<Rightarrow> g)"
| "access_step hash verify makers ttl (Grant_Read n) g =
     (case dget (ac_requests g) n of
        Some (Grant_Unread r sid) \<Rightarrow> to_stage n (Responded (Registered (us_id r) (us_username r) sid)) g
      | _ \<Rightarrow> g)"
| "access_step hash verify makers ttl (Grant_Fails n halted) g =
     (case dget (ac_requests g) n of
        Some (Granting r rec) \<Rightarrow>
          to_stage n (case halted of Some why \<Rightarrow> Withdrawing r why | None \<Rightarrow> Responded Internal_Error) g
      | Some (Grant_Unread r sid) \<Rightarrow>
          to_stage n (case halted of Some why \<Rightarrow> Withdrawing r why | None \<Rightarrow> Responded Internal_Error) g
      | _ \<Rightarrow> g)"
| "access_step hash verify makers ttl (Withdrawn n lands read) g =
     (case dget (ac_requests g) n of
        Some (Withdrawing r why) \<Rightarrow>
          to_stage n (Responded (if lands \<and> read then Not_Recorded why else Internal_Error))
            (if lands then g\<lparr>ac_users := filter (\<lambda>row. us_id row \<noteq> us_id r) (ac_users g)\<rparr> else g)
      | _ \<Rightarrow> g)"
| "access_step hash verify makers ttl (Login n b) g =
     (if dget (ac_requests g) n \<noteq> None then g
      else to_stage n (if valid_login b then Finding_User b else Responded Unprocessable) g)"
| "access_step hash verify makers ttl (User_Found n token) g =
     (case dget (ac_requests g) n of
        Some (Finding_User b) \<Rightarrow>
          if token = [] then g else after_login_lookup verify n token b g
      | _ \<Rightarrow> g)"
| "access_step hash verify makers ttl (Stored n now lands read) g =
     (case dget (ac_requests g) n of
        Some (Storing_Session uid name password token) \<Rightarrow>
          to_stage n (Responded (if lands \<and> read then Logged_In uid name token else Internal_Error))
            (if lands then g\<lparr>ac_keys := session_create ttl now token uid (ac_keys g),
                             ac_history := ac_history g @ [Signed_In now token uid name password]\<rparr>
             else g)
      | _ \<Rightarrow> g)"
| "access_step hash verify makers ttl (Enter n cookie leaving) g =
     (if dget (ac_requests g) n \<noteq> None then g else to_stage n (Identifying cookie leaving) g)"
| "access_step hash verify makers ttl (Identified n now) g =
     (case dget (ac_requests g) n of
        Some (Identifying cookie leaving) \<Rightarrow>
          (case current_user_id now cookie g of
             Let_In uid \<Rightarrow> to_stage n (if leaving then Destroying cookie else Responded (Let_In uid)) g
           | r \<Rightarrow> to_stage n (Responded r) g)
      | _ \<Rightarrow> g)"
| "access_step hash verify makers ttl (Destroyed n lands read) g =
     (case dget (ac_requests g) n of
        Some (Destroying cookie) \<Rightarrow>
          to_stage n (Responded (if lands \<and> read then Logged_Out else Internal_Error))
            (if lands then g\<lparr>ac_keys := session_destroy cookie (ac_keys g), ac_history := ac_history g @ [Signed_Out cookie]\<rparr>
             else g)
      | _ \<Rightarrow> g)"
| "access_step hash verify makers ttl (Failed n) g =
     (case dget (ac_requests g) n of
        Some (Checking_Name b) \<Rightarrow> to_stage n (Responded Internal_Error) g
      | Some (Finding_User b) \<Rightarrow> to_stage n (Responded Internal_Error) g
      | Some (Identifying cookie leaving) \<Rightarrow> to_stage n (Responded Internal_Error) g
      | _ \<Rightarrow> g)"
| "access_step hash verify makers ttl Restarted g = 
     g\<lparr>ac_requests := [], ac_makers := us_id ` {r \<in> set (ac_users g). us_username r \<in> makers}\<rparr>"

subsection \<open>What a session rests on\<close>

fun session_ops :: "history list \<Rightarrow> session_op list" where
  "session_ops [] = []"
| "session_ops (Account_Made uid name pw # hs) = session_ops hs"
| "session_ops (Signed_In t sid uid name pw # hs) = Issue t sid uid # session_ops hs"
| "session_ops (Signed_Out sid # hs) = Revoke sid # session_ops hs"

lemma session_ops_append [simp]: "session_ops (hs @ hs') = session_ops hs @ session_ops hs'"
  by (induction hs rule: session_ops.induct) auto

text \<open>Every sign-in in a history is to an account made before it, with the password it was made with.\<close>

definition sign_ins_ok :: "history list \<Rightarrow> bool" where
  "sign_ins_ok hs \<longleftrightarrow>
     (\<forall>pre t sid u name pw post. hs = pre @ Signed_In t sid u name pw # post \<longrightarrow>
        sid \<noteq> [] \<and> 0 \<le> u \<and> Account_Made u name pw \<in> set pre)"

lemma sign_ins_ok_Nil [simp]: "sign_ins_ok []"
  by (simp add: sign_ins_ok_def)

lemma sign_ins_ok_snoc:
  assumes "sign_ins_ok hs" "\<And>t sid u name pw. x = Signed_In t sid u name pw \<Longrightarrow>
      sid \<noteq> [] \<and> 0 \<le> u \<and> Account_Made u name pw \<in> set hs"
  shows "sign_ins_ok (hs @ [x])"
  unfolding sign_ins_ok_def
proof (intro allI impI)
  fix pre t sid u name pw post
  assume e: "hs @ [x] = pre @ Signed_In t sid u name pw # post"
  show "sid \<noteq> [] \<and> 0 \<le> u \<and> Account_Made u name pw \<in> set pre"
  proof (cases post rule: rev_cases)
    case Nil
    then show ?thesis using e assms(2) by simp
  next
    case (snoc post' y)
    then have "hs = pre @ Signed_In t sid u name pw # post'" using e by simp
    then show ?thesis using assms(1) unfolding sign_ins_ok_def by blast
  qed
qed

definition stage_ok :: "(string \<Rightarrow> string \<Rightarrow> string) \<Rightarrow> history list \<Rightarrow> stage \<Rightarrow> bool" where
  "stage_ok hash hs st =
     (case st of
        Saving row pw \<Rightarrow> \<exists>salt. us_password_hash row = hash salt pw
      | Storing_Session uid name pw token \<Rightarrow> token \<noteq> [] \<and> 0 \<le> uid \<and> Account_Made uid name pw \<in> set hs
      | _ \<Rightarrow> True)"

definition row_ok :: "(string \<Rightarrow> string \<Rightarrow> string) \<Rightarrow> history list \<Rightarrow> user_row \<Rightarrow> bool" where
  "row_ok hash hs r \<longleftrightarrow>
     0 \<le> us_id r \<and>
     (\<exists>salt pw. us_password_hash r = hash salt pw \<and> Account_Made (us_id r) (us_username r) pw \<in> set hs)"

definition sessions_ok :: "(string \<Rightarrow> string \<Rightarrow> string) \<Rightarrow> int \<Rightarrow> access \<Rightarrow> bool" where
  "sessions_ok hash ttl g \<longleftrightarrow>
     ac_keys g = fold (ss.apply_op ttl) (session_ops (ac_history g)) [] \<and> sign_ins_ok (ac_history g) \<and> 0 \<le> ac_next_id g \<and>
     (\<forall>r \<in> set (ac_users g). row_ok hash (ac_history g) r) \<and>
     (\<forall>n st. dget (ac_requests g) n = Some st \<longrightarrow> stage_ok hash (ac_history g) st)"

lemma to_stage_sel [simp]:
  "ac_users (to_stage n st g) = ac_users g" "ac_next_id (to_stage n st g) = ac_next_id g"
  "ac_keys (to_stage n st g) = ac_keys g" "ac_makers (to_stage n st g) = ac_makers g"
  "ac_inbound (to_stage n st g) = ac_inbound g" "ac_history (to_stage n st g) = ac_history g"
  "dget (ac_requests (to_stage n st g)) m = (if m = n then Some st else dget (ac_requests g) m)"
  by (simp_all add: to_stage_def)

lemma sessions_ok_stage:
  "sessions_ok hash ttl g \<Longrightarrow> stage_ok hash (ac_history g) st \<Longrightarrow> sessions_ok hash ttl (to_stage n st g)"
  by (simp add: sessions_ok_def)

lemma stage_ok_mono: "stage_ok hash hs st \<Longrightarrow> stage_ok hash (hs @ hs') st"
  by (cases st) (auto simp: stage_ok_def)

lemma row_ok_mono: "row_ok hash hs r \<Longrightarrow> row_ok hash (hs @ hs') r"
  by (auto simp: row_ok_def)

text \<open>A fact added to the history, with what it did to the keys and the rows.\<close>

lemma sessions_ok_history:
  assumes "sessions_ok hash ttl g"
    "\<And>t sid u name pw. x = Signed_In t sid u name pw \<Longrightarrow> sid \<noteq> [] \<and> 0 \<le> u \<and> Account_Made u name pw \<in> set (ac_history g)"
    "ac_history g' = ac_history g @ [x]" "ac_keys g' = fold (ss.apply_op ttl) (session_ops [x]) (ac_keys g)"
    "\<And>r. r \<in> set (ac_users g') \<Longrightarrow> r \<in> set (ac_users g) \<or> row_ok hash (ac_history g') r"
    "0 \<le> ac_next_id g'" "ac_requests g' = ac_requests g"
  shows "sessions_ok hash ttl g'"
proof -
  have "row_ok hash (ac_history g') r" if "r \<in> set (ac_users g')" for r
    using assms(1,3) assms(5) [OF that] by (auto simp: sessions_ok_def intro: row_ok_mono)
  moreover have "stage_ok hash (ac_history g') st" if "dget (ac_requests g') n = Some st" for n st
    using that assms(1,3,7) by (auto simp: sessions_ok_def intro: stage_ok_mono)
  moreover have "sign_ins_ok (ac_history g')"
    unfolding assms(3) using assms(1,2) by (intro sign_ins_ok_snoc) (auto simp: sessions_ok_def)
  ultimately show ?thesis using assms(1,3,4,6) by (simp add: sessions_ok_def)
qed

lemma user_named_Some: "user_named name rows = Some r \<Longrightarrow> r \<in> set rows \<and> us_username r = name"
  by (auto simp: user_named_def find_Some_iff)

lemma sessions_ok_login:
  assumes inv: "sessions_ok hash ttl g" and hasher: "\<And>salt p q. verify (hash salt p) q = Verified \<Longrightarrow> p = q"
    and token: "token \<noteq> []"
  shows "sessions_ok hash ttl (after_login_lookup verify n token b g)"
proof (cases "user_named (cr_username b) (ac_users g)")
  case None
  then show ?thesis using inv by (simp add: after_login_lookup_def sessions_ok_stage stage_ok_def)
next
  case (Some r)
  then have "row_ok hash (ac_history g) r" using inv user_named_Some [OF Some] by (simp add: sessions_ok_def)
  then obtain salt pw where r: "0 \<le> us_id r" "us_password_hash r = hash salt pw"
    "Account_Made (us_id r) (us_username r) pw \<in> set (ac_history g)" by (auto simp: row_ok_def)
  have "stage_ok hash (ac_history g) (Storing_Session (us_id r) (us_username r) (cr_password b) token)"
    if "verify_password verify (us_password_hash r) (cr_password b) = Inr True"
  proof -
    have "pw = cr_password b"
      using that hasher [of salt pw "cr_password b"] r(2) by (auto simp: verify_password_def split: argon2.splits)
    then show ?thesis using r token by (simp add: stage_ok_def)
  qed
  then show ?thesis using inv
    by (auto simp: after_login_lookup_def Some intro!: sessions_ok_stage simp: stage_ok_def split: sum.split bool.split)
qed

lemma sessions_ok_save:
  assumes inv: "sessions_ok hash ttl g" and row: "stage_ok hash (ac_history g) (Saving row pw)"
  shows "sessions_ok hash ttl (after_save makers n lands read row pw g)"
proof -
  define uid where "uid = ac_next_id g"
  define r where "r = row\<lparr>us_id := uid\<rparr>"
  define g1 where "g1 = g\<lparr>ac_next_id := uid + 1\<rparr>"
  define g2 where "g2 = g1\<lparr>ac_users := ac_users g1 @ [r], ac_history := ac_history g1 @ [Account_Made uid (us_username r) pw]\<rparr>"
  have 1: "sessions_ok hash ttl g1" using inv by (simp add: sessions_ok_def g1_def uid_def)
  have "row_ok hash (ac_history g2) r"
    using row inv by (auto simp: row_ok_def stage_ok_def g2_def r_def uid_def sessions_ok_def)
  then have 2: "sessions_ok hash ttl g2"
    using inv by (intro sessions_ok_history [OF 1, where x = "Account_Made uid (us_username r) pw"])
      (auto simp: g2_def g1_def uid_def sessions_ok_def)
  then have "sessions_ok hash ttl (g2\<lparr>ac_makers := m\<rparr>)" for m by (simp add: sessions_ok_def)
  then show ?thesis using 1 2
    by (auto simp: after_save_def Let_def uid_def [symmetric] r_def [symmetric] g1_def [symmetric] g2_def [symmetric]
        stage_ok_def intro!: sessions_ok_stage)
qed

lemma sessions_ok_step:
  assumes inv: "sessions_ok hash ttl g" and hasher: "\<And>salt p q. verify (hash salt p) q = Verified \<Longrightarrow> p = q"
  shows "sessions_ok hash ttl (access_step hash verify makers ttl e g)"
proof -
  have at: "stage_ok hash (ac_history g) st" if "dget (ac_requests g) n = Some st" for n st
    using inv that by (simp add: sessions_ok_def)
  show ?thesis
  proof (cases e)
    case (Saved n lands read)
    then show ?thesis using inv at [of n] by (cases "dget (ac_requests g) n"; cases "the (dget (ac_requests g) n)"; simp add: sessions_ok_save)
  next
    case (User_Found n token)
    then show ?thesis using inv sessions_ok_login [OF inv hasher] by (cases "dget (ac_requests g) n"; cases "the (dget (ac_requests g) n)"; simp)
  next
    case (Stored n now lands read)
    have "sessions_ok hash ttl (g\<lparr>ac_keys := session_create ttl now token uid (ac_keys g),
        ac_history := ac_history g @ [Signed_In now token uid name pw]\<rparr>)"
      if "dget (ac_requests g) n = Some (Storing_Session uid name pw token)" for uid name pw token
      using at [OF that] inv
      by (intro sessions_ok_history [OF inv, where x = "Signed_In now token uid name pw"])
        (auto simp: stage_ok_def ss.apply_op_def sessions_ok_def)
    then show ?thesis using Stored inv by (cases "dget (ac_requests g) n"; cases "the (dget (ac_requests g) n)"; simp add: sessions_ok_stage stage_ok_def)
  next
    case (Destroyed n lands read)
    have "sessions_ok hash ttl (g\<lparr>ac_keys := session_destroy cookie (ac_keys g), ac_history := ac_history g @ [Signed_Out cookie]\<rparr>)"
      for cookie
      using inv by (intro sessions_ok_history [OF inv, where x = "Signed_Out cookie"]) (auto simp: ss.apply_op_def sessions_ok_def)
    then show ?thesis using Destroyed inv by (cases "dget (ac_requests g) n"; cases "the (dget (ac_requests g) n)"; simp add: sessions_ok_stage stage_ok_def)
  next
    case (Granted n ms ord)
    have "sessions_ok hash ttl (g\<lparr>ac_inbound := l\<rparr>)" for l using inv by (simp add: sessions_ok_def)
    then show ?thesis using Granted inv by (cases "dget (ac_requests g) n"; cases "the (dget (ac_requests g) n)"; simp add: sessions_ok_stage stage_ok_def)
  next
    case (Withdrawn n lands read)
    have "sessions_ok hash ttl (g\<lparr>ac_users := filter P (ac_users g)\<rparr>)" for P using inv by (simp add: sessions_ok_def)
    then show ?thesis using Withdrawn inv by (cases "dget (ac_requests g) n"; cases "the (dget (ac_requests g) n)"; simp add: sessions_ok_stage stage_ok_def)
  next
    case Restarted
    then show ?thesis using inv by (simp add: sessions_ok_def)
  next
    case (Name_Checked n now salt)
    have "sessions_ok hash ttl (after_name_check hash n now salt b g)" for b
      using inv by (auto simp: after_name_check_def stage_ok_def intro!: sessions_ok_stage split: option.split)
    then show ?thesis using Name_Checked inv by (cases "dget (ac_requests g) n"; cases "the (dget (ac_requests g) n)"; simp)
  next
    case (Identified n now)
    have "sessions_ok hash ttl (case current_user_id now cookie g of
        Let_In uid \<Rightarrow> to_stage n (if leaving then Destroying cookie else Responded (Let_In uid)) g
      | r \<Rightarrow> to_stage n (Responded r) g)" for cookie leaving
      using inv by (cases "current_user_id now cookie g") (simp_all add: sessions_ok_stage stage_ok_def)
    then show ?thesis using Identified inv by (cases "dget (ac_requests g) n"; cases "the (dget (ac_requests g) n)"; simp)
  next
    case (Grant_Read n)
    then show ?thesis using inv by (cases "dget (ac_requests g) n"; cases "the (dget (ac_requests g) n)"; simp add: sessions_ok_stage stage_ok_def)
  next
    case (Grant_Fails n halted)
    then show ?thesis using inv by (cases halted; (cases "dget (ac_requests g) n"; cases "the (dget (ac_requests g) n)"; simp add: sessions_ok_stage stage_ok_def))
  next
    case (Failed n)
    then show ?thesis using inv by (cases "dget (ac_requests g) n"; cases "the (dget (ac_requests g) n)"; simp add: sessions_ok_stage stage_ok_def)
  qed (use inv in \<open>simp_all add: sessions_ok_stage stage_ok_def\<close>)
qed

text \<open>Where a sign-in stands in the history, and in the store's operations.\<close>

lemma session_ops_split:
  "session_ops hs = pre' @ Issue t sid u # post' \<Longrightarrow>
    \<exists>pre name pw post. hs = pre @ Signed_In t sid u name pw # post \<and> session_ops pre = pre' \<and> session_ops post = post'"
proof (induction hs arbitrary: pre')
  case (Cons h hs)
  show ?case
  proof (cases "session_ops [h]")
    case Nil
    then have "session_ops hs = pre' @ Issue t sid u # post'" using Cons.prems by (cases h) auto
    then obtain pre name pw post where "hs = pre @ Signed_In t sid u name pw # post" "session_ops pre = pre'" "session_ops post = post'"
      using Cons.IH by blast
    then have "h # hs = (h # pre) @ Signed_In t sid u name pw # post \<and> session_ops (h # pre) = pre' \<and> session_ops post = post'"
      using Nil by (cases h) auto
    then show ?thesis by blast
  next
    case (Cons x xs)
    then have hx: "session_ops (h # hs') = x # session_ops hs'" for hs' by (cases h) auto
    show ?thesis
    proof (cases pre')
      case Nil
      then have "x = Issue t sid u" "session_ops hs = post'" using Cons.prems hx by auto
      moreover then obtain name pw where "h = Signed_In t sid u name pw" using hx [of "[]"] by (cases h) auto
      ultimately have "h # hs = [] @ Signed_In t sid u name pw # hs \<and> session_ops [] = pre' \<and> session_ops hs = post'"
        using Nil by simp
      then show ?thesis by blast
    next
      case (Cons y ys)
      then have "session_ops hs = ys @ Issue t sid u # post'" "y = x" using Cons.prems hx by auto
      then obtain pre name pw post where "hs = pre @ Signed_In t sid u name pw # post" "session_ops pre = ys" "session_ops post = post'"
        using Cons.IH by blast
      then have "h # hs = (h # pre) @ Signed_In t sid u name pw # post \<and> session_ops (h # pre) = pre' \<and> session_ops post = post'"
        using Cons hx \<open>y = x\<close> by simp
      then show ?thesis by blast
    qed
  qed
qed simp

text \<open>What decides a cookie's fate: to be issued, or to be signed out.\<close>

definition concerns :: "string \<Rightarrow> history \<Rightarrow> bool" where
  "concerns sid x = (case x of Signed_In t sid' u name pw \<Rightarrow> sid' = sid | Signed_Out sid' \<Rightarrow> sid' = sid | _ \<Rightarrow> False)"

lemma touches_concerns: "(\<forall>x \<in> set (session_ops hs). \<not> ss.touches sid x) \<longleftrightarrow> (\<forall>x \<in> set hs. \<not> concerns sid x)"
  by (induction hs rule: session_ops.induct) (auto simp: ss.touches_def concerns_def)

lemma sane_session_ops: "sign_ins_ok hs \<Longrightarrow> ss.sane (session_ops hs)"
  unfolding ss.sane_def
proof (intro allI impI)
  fix t sid uid
  assume ok: "sign_ins_ok hs" and "Issue t sid uid \<in> set (session_ops hs)"
  then obtain pre' post' where "session_ops hs = pre' @ Issue t sid uid # post'" by (meson split_list)
  then obtain pre name pw post where "hs = pre @ Signed_In t sid uid name pw # post" using session_ops_split by blast
  then show "sid \<noteq> [] \<and> 0 \<le> uid" using ok unfolding sign_ins_ok_def by blast
qed

lemma sessions_ok_run:
  assumes "\<forall>salt p q. verify (hash salt p) q = Verified \<longrightarrow> p = q"
  shows "sessions_ok hash ttl (fold (access_step hash verify makers ttl) events new_access)"
proof (induction events rule: rev_induct)
  case Nil
  then show ?case by (simp add: sessions_ok_def new_access_def)
next
  case (snoc e events)
  then show ?case using sessions_ok_step [of hash ttl _ verify makers e] assms by simp
qed

text \<open>C10. A session is earned, and kept. Whatever requests interleave, whatever fails and however often the
  gateway restarts, a cookie is let in as user \<open>u\<close> exactly when it was issued, less than the
  session's lifetime ago, to someone who gave the very password the account \<open>u\<close> was made with, and
  has been neither signed out nor issued again since. The hasher is relied on for one thing: that
  it verifies no other password against a hash.\<close>

theorem sessions_are_earned:
  assumes "\<forall>salt p q. verify (hash salt p) q = Verified \<longrightarrow> p = q"
    "g = fold (access_step hash verify makers ttl) events new_access"
  shows "current_user_id now cookie g = Let_In u \<longleftrightarrow>
    (\<exists>pre t name pw post. ac_history g = pre @ Signed_In t cookie u name pw # post \<and> Account_Made u name pw \<in> set pre \<and>
       now < t + 1000 * ttl \<and> (\<forall>x \<in> set post. \<not> concerns cookie x))"
proof -
  have ok: "sessions_ok hash ttl g" unfolding assms(2) by (rule sessions_ok_run [OF assms(1)])
  then have sign: "sign_ins_ok (ac_history g)" and keys: "ac_keys g = fold (ss.apply_op ttl) (session_ops (ac_history g)) []"
    by (simp_all add: sessions_ok_def)
  have "current_user_id now cookie g = Let_In u \<longleftrightarrow> session_user now cookie (ac_keys g) = Inr (Some u)"
    by (simp add: current_user_id_def split: sum.split option.split)
  also have "\<dots> \<longleftrightarrow> (\<exists>pre t post. session_ops (ac_history g) = pre @ Issue t cookie u # post \<and> now < t + 1000 * ttl \<and>
      (\<forall>x \<in> set post. \<not> ss.touches cookie x))"
    unfolding keys by (rule ss.who_is_in [OF sane_session_ops [OF sign]])
  also have "\<dots> \<longleftrightarrow> (\<exists>pre t name pw post. ac_history g = pre @ Signed_In t cookie u name pw # post \<and>
      Account_Made u name pw \<in> set pre \<and> now < t + 1000 * ttl \<and> (\<forall>x \<in> set post. \<not> concerns cookie x))" (is "?L \<longleftrightarrow> ?R")
  proof
    assume ?L
    then obtain pre' t post' where e: "session_ops (ac_history g) = pre' @ Issue t cookie u # post'" "now < t + 1000 * ttl"
      "\<forall>x \<in> set post'. \<not> ss.touches cookie x" by blast
    obtain pre name pw post where h: "ac_history g = pre @ Signed_In t cookie u name pw # post" "session_ops post = post'"
      using session_ops_split [OF e(1)] by blast
    moreover have "Account_Made u name pw \<in> set pre" using sign h(1) unfolding sign_ins_ok_def by blast
    moreover have "\<forall>x \<in> set post. \<not> concerns cookie x" using e(3) h(2) touches_concerns by blast
    ultimately show ?R using e(2) by blast
  next
    assume ?R
    then obtain pre t name pw post where h: "ac_history g = pre @ Signed_In t cookie u name pw # post" "now < t + 1000 * ttl"
      "\<forall>x \<in> set post. \<not> concerns cookie x" by blast
    then have "session_ops (ac_history g) = session_ops pre @ Issue t cookie u # session_ops post" by simp
    then show ?L using h(2,3) touches_concerns by blast
  qed
  finally show ?thesis .
qed

text \<open>Alice registers, signs in from two places and signs out of one.\<close>

definition demo_hash :: "string \<Rightarrow> string \<Rightarrow> string" where
  "demo_hash salt pw = CHR ''$'' # pw"

definition demo_verify :: "string \<Rightarrow> string \<Rightarrow> argon2" where
  "demo_verify h pw = (if h = CHR ''$'' # pw then Verified else VerifyMismatchError)"

definition alice :: credentials where
  "alice = \<lparr> cr_username = ''alice'', cr_password = ''correct-horse'' \<rparr>"

definition demo_access :: "access_event list" where
  "demo_access =
     [Register 0 alice, Name_Checked 0 5 ''salt'', Saved 0 True True, Granted 0 9 0, Grant_Read 0,
      Login 1 alice, User_Found 1 ''one'', Stored 1 1000 True True,
      Login 2 alice, User_Found 2 ''two'', Stored 2 2000 True True,
      Login 3 (alice\<lparr>cr_password := ''guess-guess''\<rparr>), User_Found 3 ''three'',
      Enter 4 ''one'' True, Identified 4 2500, Destroyed 4 True True, Restarted]"

theorem sessions_are_earned_witness:
  "(let g = fold (access_step demo_hash demo_verify {} 60) demo_access new_access
    in current_user_id 3000 ''one'' g = Not_Authenticated \<and> current_user_id 3000 ''two'' g = Let_In 1 \<and>
       current_user_id 62000 ''two'' g = Not_Authenticated \<and>
       (\<exists>pre t name pw post. ac_history g = pre @ Signed_In t ''two'' 1 name pw # post \<and> Account_Made 1 name pw \<in> set pre \<and>
          3000 < t + 1000 * 60 \<and> (\<forall>x \<in> set post. \<not> concerns ''two'' x)))"
proof -
  let ?g = "fold (access_step demo_hash demo_verify {} 60) demo_access new_access"
  have hasher: "\<forall>salt p q. demo_verify (demo_hash salt p) q = Verified \<longrightarrow> p = q" by (simp add: demo_verify_def demo_hash_def)
  have "current_user_id 3000 ''one'' ?g = Not_Authenticated" "current_user_id 3000 ''two'' ?g = Let_In 1"
    "current_user_id 62000 ''two'' ?g = Not_Authenticated" by code_simp+
  then show ?thesis using sessions_are_earned [OF hasher refl, of 3000 "''two''" "{}" 60 demo_access 1] by (simp only: Let_def)
qed

subsection \<open>What a registration makes\<close>

text \<open>The account a request has made, while it stands for it.\<close>

definition made_by :: "stage \<Rightarrow> int option" where
  "made_by st =
     (case st of
        Granting r rec \<Rightarrow> Some (us_id r)
      | Grant_Unread r sid \<Rightarrow> Some (us_id r)
      | Withdrawing r why \<Rightarrow> Some (us_id r)
      | Responded (Registered uid name sid) \<Rightarrow> Some uid
      | _ \<Rightarrow> None)"

definition grant_of :: "user_row \<Rightarrow> wire" where
  "grant_of r = CreateAccount_new (us_created_at_ns r) ACCOUNT_CREATION_CLIENT_ORDER_ID (us_id r)"

definition granted_ids :: "access \<Rightarrow> int list" where
  "granted_ids g = map (\<lambda>p. user_id (snd p)) (ac_inbound g)"

definition stands :: "access \<Rightarrow> stage \<Rightarrow> bool" where
  "stands g st =
     (case st of
        Granting r rec \<Rightarrow> r \<in> set (ac_users g) \<and> rec = grant_of r \<and> us_id r \<notin> set (granted_ids g)
      | Grant_Unread r sid \<Rightarrow> r \<in> set (ac_users g) \<and> (sid, grant_of r) \<in> set (ac_inbound g)
      | Responded (Registered uid name sid) \<Rightarrow>
          \<exists>r \<in> set (ac_users g). us_id r = uid \<and> us_username r = name \<and> (sid, grant_of r) \<in> set (ac_inbound g)
      | _ \<Rightarrow> True)"

definition tables_ok :: "access \<Rightarrow> bool" where
  "tables_ok g \<longleftrightarrow>
     distinct (map us_username (ac_users g)) \<and> distinct (map us_id (ac_users g)) \<and> distinct (granted_ids g) \<and>
     (\<forall>r \<in> set (ac_users g). us_id r < ac_next_id g) \<and> (\<forall>i \<in> set (granted_ids g). i < ac_next_id g)"

definition makers_ok :: "access \<Rightarrow> bool" where
  "makers_ok g \<longleftrightarrow>
     (\<forall>n st. dget (ac_requests g) n = Some st \<longrightarrow> stands g st \<and> (\<forall>i. made_by st = Some i \<longrightarrow> i < ac_next_id g)) \<and>
     (\<forall>n m st st' i. dget (ac_requests g) n = Some st \<longrightarrow> dget (ac_requests g) m = Some st' \<longrightarrow>
        made_by st = Some i \<longrightarrow> made_by st' = Some i \<longrightarrow> n = m)"

definition accounts_ok :: "access \<Rightarrow> bool" where
  "accounts_ok g \<longleftrightarrow> tables_ok g \<and> makers_ok g"

lemma makers_okI:
  assumes "\<And>n st. dget (ac_requests g) n = Some st \<Longrightarrow> stands g st"
    "\<And>n st i. dget (ac_requests g) n = Some st \<Longrightarrow> made_by st = Some i \<Longrightarrow> i < ac_next_id g"
    "\<And>n m st st' i. dget (ac_requests g) n = Some st \<Longrightarrow> dget (ac_requests g) m = Some st' \<Longrightarrow>
       made_by st = Some i \<Longrightarrow> made_by st' = Some i \<Longrightarrow> n = m"
  shows "makers_ok g"
  using assms unfolding makers_ok_def by blast

lemma makers_okD:
  assumes "makers_ok g" "dget (ac_requests g) n = Some st"
  shows "stands g st" "made_by st = Some i \<Longrightarrow> i < ac_next_id g"
    "dget (ac_requests g) m = Some st' \<Longrightarrow> made_by st = Some i \<Longrightarrow> made_by st' = Some i \<Longrightarrow> m = n"
  using assms unfolding makers_ok_def by blast+

lemma stands_stage [simp]: "stands (to_stage n st g) = stands g"
  by (auto simp: fun_eq_iff stands_def granted_ids_def split: stage.split response.split)

lemma tables_ok_stage [simp]: "tables_ok (to_stage n st g) = tables_ok g"
  by (simp add: tables_ok_def granted_ids_def)

text \<open>A request moves on, still standing for the account it stood for, or for none; or it takes a new one.\<close>

lemma makers_ok_move:
  assumes inv: "makers_ok g" and st: "stands g st" "\<And>i. made_by st = Some i \<Longrightarrow> i < ac_next_id g"
    and own: "\<And>m st' i. m \<noteq> n \<Longrightarrow> dget (ac_requests g) m = Some st' \<Longrightarrow> made_by st' = Some i \<Longrightarrow> made_by st \<noteq> Some i"
  shows "makers_ok (to_stage n st g)"
proof (rule makers_okI)
  fix m k st' st'' i
  assume "dget (ac_requests (to_stage n st g)) m = Some st'" "dget (ac_requests (to_stage n st g)) k = Some st''"
    "made_by st' = Some i" "made_by st'' = Some i"
  then show "m = k" using own [of m st' i] own [of k st'' i] makers_okD(3) [OF inv]
    by (auto split: if_splits)
qed (use makers_okD(1,2) [OF inv] st in \<open>auto split: if_splits\<close>)

lemma accounts_ok_move:
  assumes "accounts_ok g" "dget (ac_requests g) n = Some old" "made_by st = None \<or> made_by st = made_by old" "stands g st"
  shows "accounts_ok (to_stage n st g)"
proof -
  have inv: "makers_ok g" "tables_ok g" using assms(1) by (simp_all add: accounts_ok_def)
  have "makers_ok (to_stage n st g)"
  proof (rule makers_ok_move [OF inv(1) assms(4)])
    show "i < ac_next_id g" if "made_by st = Some i" for i using makers_okD(2) [OF inv(1) assms(2)] that assms(3) by auto
    show "made_by st \<noteq> Some i" if "m \<noteq> n" "dget (ac_requests g) m = Some st'" "made_by st' = Some i" for m st' i
      using makers_okD(3) [OF inv(1) assms(2) that(2) _ that(3)] assms(3) that(1) by auto
  qed
  then show ?thesis using inv(2) by (simp add: accounts_ok_def)
qed

lemma accounts_ok_answer:
  assumes "accounts_ok g" "made_by st = None" "stands g st"
  shows "accounts_ok (to_stage n st g)"
  using assms makers_ok_move [of g st n] by (simp add: accounts_ok_def)

text \<open>The general step: the tables change under the other requests, and one moves on.\<close>

lemma accounts_ok_change:
  assumes inv: "accounts_ok g" and old: "dget (ac_requests g) n = Some old" and same: "ac_requests g' = ac_requests g"
    and grows: "ac_next_id g \<le> ac_next_id g'" and tables: "tables_ok g'"
    and others: "\<And>m st'. m \<noteq> n \<Longrightarrow> dget (ac_requests g) m = Some st' \<Longrightarrow> stands g' st'"
    and st: "stands g' st" "\<And>i. made_by st = Some i \<Longrightarrow> made_by old = Some i \<or> (ac_next_id g \<le> i \<and> i < ac_next_id g')"
  shows "accounts_ok (to_stage n st g')"
proof -
  have mk: "makers_ok g" using inv by (simp add: accounts_ok_def)
  have below: "i < ac_next_id g" if "dget (ac_requests g) m = Some st'" "made_by st' = Some i" for m st' i
    using makers_okD(2) [OF mk] that by blast
  have own: "made_by st \<noteq> Some i" if "m \<noteq> n" "dget (ac_requests g) m = Some st'" "made_by st' = Some i" for m st' i
    using st(2) [of i] makers_okD(3) [OF mk old that(2) _ that(3)] below [OF that(2,3)] that(1) by auto
  have "makers_ok (to_stage n st g')"
  proof (rule makers_okI)
    fix m st' assume "dget (ac_requests (to_stage n st g')) m = Some st'"
    then show "stands (to_stage n st g') st'" using others st(1) same by (auto split: if_splits)
  next
    fix m st' i assume "dget (ac_requests (to_stage n st g')) m = Some st'" "made_by st' = Some i"
    then show "i < ac_next_id (to_stage n st g')"
      using below [of m st' i] below [OF old, of i] st(2) [of i] grows same by (auto split: if_splits)
  next
    fix m k st' st'' i
    assume "dget (ac_requests (to_stage n st g')) m = Some st'" "dget (ac_requests (to_stage n st g')) k = Some st''"
      "made_by st' = Some i" "made_by st'' = Some i"
    then show "m = k" using own [of m st' i] own [of k st'' i] makers_okD(3) [OF mk] same by (auto split: if_splits)
  qed
  then show ?thesis using tables by (simp add: accounts_ok_def)
qed

lemma accounts_ok_save:
  assumes inv: "accounts_ok g" and old: "dget (ac_requests g) n = Some (Saving row pw)"
  shows "accounts_ok (after_save makers n lands read row pw g)"
proof -
  define uid where "uid = ac_next_id g"
  define r where "r = row\<lparr>us_id := uid\<rparr>"
  define g1 where "g1 = g\<lparr>ac_next_id := uid + 1\<rparr>"
  define g2 where "g2 = g1\<lparr>ac_users := ac_users g1 @ [r], ac_history := ac_history g1 @ [Account_Made uid (us_username r) pw]\<rparr>"
  have t: "tables_ok g" and mk: "makers_ok g" using inv by (simp_all add: accounts_ok_def)
  have 1: "tables_ok g1" using t by (auto simp: tables_ok_def g1_def uid_def granted_ids_def)
  have s1: "stands g1 = stands g" by (auto simp: fun_eq_iff stands_def granted_ids_def g1_def split: stage.split response.split)
  have fail: "accounts_ok (to_stage n (Responded Internal_Error) g1)"
    using makers_okD(1) [OF mk] 1 by (intro accounts_ok_change [OF inv old]) (auto simp: s1, auto simp: g1_def uid_def stands_def made_by_def)
  show ?thesis
  proof (cases "\<not> lands \<or> user_named (us_username row) (ac_users g) \<noteq> None")
    case True
    then show ?thesis using fail by (simp add: after_save_def Let_def g1_def uid_def)
  next
    case False
    have new: "us_username r \<notin> us_username ` set (ac_users g)"
      using False by (auto simp: user_named_def find_None_iff r_def)
    have 2: "tables_ok (g2\<lparr>ac_makers := m\<rparr>)" for m
      using t new by (auto simp: tables_ok_def g2_def g1_def uid_def r_def granted_ids_def)
    have s2: "stands (g2\<lparr>ac_makers := m\<rparr>) st" if "stands g st" for st m
      using that by (cases st) (auto simp: stands_def granted_ids_def g2_def g1_def split: response.split)
    have err: "accounts_ok (to_stage n (Responded Internal_Error) (g2\<lparr>ac_makers := m\<rparr>))" for m
      using makers_okD(1) [OF mk] 2 s2
      by (intro accounts_ok_change [OF inv old]) (auto simp: g2_def g1_def uid_def made_by_def, auto simp: stands_def)
    have "accounts_ok (to_stage n (Granting r (grant_of r)) (g2\<lparr>ac_makers := m\<rparr>))" for m
    proof (rule accounts_ok_change [OF inv old])
      have "uid \<notin> set (granted_ids g)" using t by (auto simp: tables_ok_def uid_def)
      then show "stands (g2\<lparr>ac_makers := m\<rparr>) (Granting r (grant_of r))"
        by (simp add: stands_def g2_def g1_def granted_ids_def r_def)
    qed (use makers_okD(1) [OF mk] 2 s2 in \<open>auto simp: made_by_def r_def uid_def g2_def g1_def\<close>)
    then have grant: "accounts_ok (to_stage n (Granting r (CreateAccount_new (us_created_at_ns r) ACCOUNT_CREATION_CLIENT_ORDER_ID uid))
        (g2\<lparr>ac_makers := m\<rparr>))" for m
      by (simp add: grant_of_def r_def)
    show ?thesis
      using False err [of "ac_makers g2"] grant grant [of "ac_makers g2"]
      by (simp add: after_save_def Let_def uid_def [symmetric] r_def [symmetric] g1_def [symmetric] g2_def [symmetric])
  qed
qed

lemma accounts_ok_grant:
  assumes inv: "accounts_ok g" and old: "dget (ac_requests g) n = Some (Granting r rec)"
  shows "accounts_ok (to_stage n (Grant_Unread r sid) (g\<lparr>ac_inbound := ac_inbound g @ [(sid, rec)]\<rparr>))"
proof -
  have t: "tables_ok g" and mk: "makers_ok g" using inv by (simp_all add: accounts_ok_def)
  have r: "r \<in> set (ac_users g)" "rec = grant_of r" "us_id r \<notin> set (granted_ids g)"
    using makers_okD(1) [OF mk old] by (simp_all add: stands_def)
  have id: "granted_ids (g\<lparr>ac_inbound := ac_inbound g @ [(sid, rec)]\<rparr>) = granted_ids g @ [us_id r]"
    by (simp add: granted_ids_def r(2) grant_of_def CreateAccount_new_def)
  have lt: "us_id r < ac_next_id g" using makers_okD(2) [OF mk old] by (simp add: made_by_def)
  show ?thesis
  proof (rule accounts_ok_change [OF inv old])
    show "tables_ok (g\<lparr>ac_inbound := ac_inbound g @ [(sid, rec)]\<rparr>)"
      using t r(3) lt unfolding tables_ok_def id by auto
    show "stands (g\<lparr>ac_inbound := ac_inbound g @ [(sid, rec)]\<rparr>) st'" if "m \<noteq> n" "dget (ac_requests g) m = Some st'" for m st'
      using makers_okD(1) [OF mk that(2)] makers_okD(3) [OF mk old that(2), of "us_id r"] that(1)
      by (auto simp: stands_def id made_by_def split: stage.splits response.splits)
  qed (use r in \<open>simp_all add: stands_def made_by_def\<close>)
qed

lemma accounts_ok_withdraw:
  assumes inv: "accounts_ok g" and old: "dget (ac_requests g) n = Some (Withdrawing r why)"
    and ans: "\<And>uid name sid. a \<noteq> Registered uid name sid"
  shows "accounts_ok (to_stage n (Responded a) (g\<lparr>ac_users := filter (\<lambda>row. us_id row \<noteq> us_id r) (ac_users g)\<rparr>))"
proof (rule accounts_ok_change [OF inv old])
  have t: "tables_ok g" and mk: "makers_ok g" using inv by (simp_all add: accounts_ok_def)
  show "tables_ok (g\<lparr>ac_users := filter (\<lambda>row. us_id row \<noteq> us_id r) (ac_users g)\<rparr>)"
    using t by (auto simp: tables_ok_def granted_ids_def distinct_map_filter)
  show "stands (g\<lparr>ac_users := filter (\<lambda>row. us_id row \<noteq> us_id r) (ac_users g)\<rparr>) st'"
    if "m \<noteq> n" "dget (ac_requests g) m = Some st'" for m st'
    using makers_okD(1) [OF mk that(2)] makers_okD(3) [OF mk old that(2), of "us_id r"] that(1)
    by (auto simp: stands_def granted_ids_def made_by_def split: stage.splits response.splits)
qed (use ans in \<open>cases a; simp add: stands_def made_by_def\<close>)+

lemma accounts_ok_open:
  assumes "accounts_ok g" "made_by st = None" "\<And>g. stands g st"
  shows "accounts_ok (to_stage n st g)"
  using assms by (intro accounts_ok_answer) auto

lemma accounts_ok_step:
  assumes inv: "accounts_ok g"
  shows "accounts_ok (access_step hash verify makers ttl e g)"
proof -
  have t: "tables_ok g" and mk: "makers_ok g" using inv by (simp_all add: accounts_ok_def)
  have still: "accounts_ok (g\<lparr>ac_keys := ks, ac_history := hs\<rparr>)" for ks hs
  proof -
    have "stands (g\<lparr>ac_keys := ks, ac_history := hs\<rparr>) = stands g"
      by (auto simp: fun_eq_iff stands_def granted_ids_def split: stage.split response.split)
    then show ?thesis using inv by (simp add: accounts_ok_def tables_ok_def makers_ok_def granted_ids_def)
  qed
  note simps = accounts_ok_open made_by_def stands_def
  show ?thesis
  proof (cases e)
    case (Saved n lands read)
    then show ?thesis using inv accounts_ok_save [OF inv, of n]
      by (cases "dget (ac_requests g) n"; cases "the (dget (ac_requests g) n)"; simp)
  next
    case (Granted n ms ord)
    then show ?thesis using inv accounts_ok_grant [OF inv, of n]
      by (cases "dget (ac_requests g) n"; cases "the (dget (ac_requests g) n)"; simp)
  next
    case (Grant_Read n)
    have "accounts_ok (to_stage n (Responded (Registered (us_id r) (us_username r) sid)) g)"
      if "dget (ac_requests g) n = Some (Grant_Unread r sid)" for r sid
      using makers_okD(1) [OF mk that] by (intro accounts_ok_move [OF inv that]) (auto simp: made_by_def stands_def)
    then show ?thesis using inv Grant_Read by (cases "dget (ac_requests g) n"; cases "the (dget (ac_requests g) n)"; simp)
  next
    case (Grant_Fails n halted)
    have "accounts_ok (to_stage n (Withdrawing r why) g)"
      if "dget (ac_requests g) n = Some st" "made_by st = Some (us_id r)" for r why st
      using that by (intro accounts_ok_move [OF inv that(1)]) (auto simp: made_by_def stands_def)
    then show ?thesis using inv Grant_Fails
      by (cases halted; cases "dget (ac_requests g) n"; cases "the (dget (ac_requests g) n)"; simp add: simps)
  next
    case (Withdrawn n lands read)
    then show ?thesis using inv accounts_ok_withdraw [OF inv, of n]
      by (cases "dget (ac_requests g) n"; cases "the (dget (ac_requests g) n)"; simp add: simps)
  next
    case (Name_Checked n now salt)
    have "accounts_ok (after_name_check hash n now salt b g)" for b
      using inv by (simp add: after_name_check_def simps split: option.split)
    then show ?thesis using inv Name_Checked by (cases "dget (ac_requests g) n"; cases "the (dget (ac_requests g) n)"; simp)
  next
    case (User_Found n token)
    have "accounts_ok (after_login_lookup verify n token b g)" for b
      using inv by (simp add: after_login_lookup_def simps split: option.split sum.split bool.split)
    then show ?thesis using inv User_Found by (cases "dget (ac_requests g) n"; cases "the (dget (ac_requests g) n)"; simp)
  next
    case (Stored n now lands read)
    then show ?thesis using inv still by (cases "dget (ac_requests g) n"; cases "the (dget (ac_requests g) n)"; simp add: simps)
  next
    case (Destroyed n lands read)
    then show ?thesis using inv still by (cases "dget (ac_requests g) n"; cases "the (dget (ac_requests g) n)"; simp add: simps)
  next
    case (Identified n now)
    have "accounts_ok (case current_user_id now cookie g of
        Let_In uid \<Rightarrow> to_stage n (if leaving then Destroying cookie else Responded (Let_In uid)) g
      | r \<Rightarrow> to_stage n (Responded r) g)" for cookie leaving
      using inv by (auto simp: current_user_id_def simps split: sum.split option.split)
    then show ?thesis using inv Identified by (cases "dget (ac_requests g) n"; cases "the (dget (ac_requests g) n)"; simp)
  next
    case (Failed n)
    then show ?thesis using inv by (cases "dget (ac_requests g) n"; cases "the (dget (ac_requests g) n)"; simp add: simps)
  next
    case Restarted
    then show ?thesis using t by (simp add: accounts_ok_def makers_ok_def tables_ok_def granted_ids_def)
  qed (use inv in \<open>simp_all add: simps\<close>)
qed

lemma accounts_ok_run: "accounts_ok (fold (access_step hash verify makers ttl) events new_access)"
proof (induction events rule: rev_induct)
  case Nil
  then show ?case by (simp add: accounts_ok_def tables_ok_def makers_ok_def new_access_def granted_ids_def)
qed (simp add: accounts_ok_step)

lemma named_row: "distinct (map us_username rows) \<Longrightarrow> r \<in> set rows \<Longrightarrow> user_named (us_username r) rows = Some r"
  unfolding user_named_def by (induction rows) (auto simp: image_iff)

text \<open>C21. A registration that is answered has made exactly what it says. Whatever runs beside it and whatever
  fails, usernames and user ids stay unique and no account is granted its capital twice; and as long
  as the answer stands, its user is in the table as the one of that name, and its grant is on the
  stream at the position the answer gives.\<close>

theorem registrations_are_exact:
  assumes "g = fold (access_step hash verify makers ttl) events new_access"
  shows "distinct (map us_username (ac_users g)) \<and> distinct (map us_id (ac_users g)) \<and> distinct (granted_ids g) \<and>
    (\<forall>n uid name sid. dget (ac_requests g) n = Some (Responded (Registered uid name sid)) \<longrightarrow>
       (\<exists>r. user_named name (ac_users g) = Some r \<and> us_id r = uid \<and> (sid, grant_of r) \<in> set (ac_inbound g)))"
proof -
  have "tables_ok g" and mk: "makers_ok g" using accounts_ok_run assms by (simp_all add: accounts_ok_def)
  then have d: "distinct (map us_username (ac_users g))" "distinct (map us_id (ac_users g))" "distinct (granted_ids g)"
    by (simp_all add: tables_ok_def)
  moreover have "\<exists>r. user_named name (ac_users g) = Some r \<and> us_id r = uid \<and> (sid, grant_of r) \<in> set (ac_inbound g)"
    if "dget (ac_requests g) n = Some (Responded (Registered uid name sid))" for n uid name sid
    using makers_okD(1) [OF mk that] named_row [OF d(1)] by (auto simp: stands_def)
  ultimately show ?thesis by blast
qed

theorem registrations_are_exact_witness:
  "(let g = fold (access_step demo_hash demo_verify {} 60) (take 5 demo_access) new_access
    in dget (ac_requests g) 0 = Some (Responded (Registered 1 ''alice'' ''9-0'')) \<and> distinct (map us_username (ac_users g)) \<and>
       (\<exists>r. user_named ''alice'' (ac_users g) = Some r \<and> us_id r = 1 \<and> (''9-0'', grant_of r) \<in> set (ac_inbound g)))"
proof -
  let ?g = "fold (access_step demo_hash demo_verify {} 60) (take 5 demo_access) new_access"
  have "dget (ac_requests ?g) 0 = Some (Responded (Registered 1 ''alice'' ''9-0''))" by code_simp
  then show ?thesis using registrations_are_exact [of ?g demo_hash demo_verify "{}" 60 "take 5 demo_access"] by (simp add: Let_def)
qed

text \<open>
  What is not promised. The producer reports a lost connection as a halt, although the append may have
  been carried out; the handler then withdraws the user, and the grant stays behind for a user id
  that no row has. The ledger's \<open>accounts\<close> row for it refers to \<open>users\<close>, so every flush that
  contains it is refused.
\<close>

lemma refused_registration_leaves_a_grant:
  "(let g = fold (access_step demo_hash demo_verify {} 60)
       [Register 0 alice, Name_Checked 0 5 ''salt'', Saved 0 True True, Granted 0 9 0,
        Grant_Fails 0 (Some ''redis_unreachable''), Withdrawn 0 True True] new_access
    in (dget (ac_requests g) 0, ac_users g, granted_ids g) = (Some (Responded (Not_Recorded ''redis_unreachable'')), [], [1]))"
  by code_simp

text \<open>And an append that fails with anything but a halt leaves a user without an account behind, whose name is then taken.\<close>

lemma failed_append_leaves_a_user:
  "(let g = fold (access_step demo_hash demo_verify {} 60)
       [Register 0 alice, Name_Checked 0 5 ''salt'', Saved 0 True True, Grant_Fails 0 None,
        Register 1 alice, Name_Checked 1 6 ''salt''] new_access
    in (dget (ac_requests g) 0, dget (ac_requests g) 1, map us_id (ac_users g), granted_ids g) =
      (Some (Responded Internal_Error), Some (Responded Name_Taken), [1], []))"
  by code_simp

subsection \<open>Who makes markets\<close>

text \<open>The privilege of a market maker is held by accounts made under a configured name, and by no others.\<close>

definition privileged_ok :: "string set \<Rightarrow> access \<Rightarrow> bool" where
  "privileged_ok makers g \<longleftrightarrow>
     (\<forall>r \<in> set (ac_users g). \<exists>pw. Account_Made (us_id r) (us_username r) pw \<in> set (ac_history g)) \<and>
     (\<forall>uid \<in> ac_makers g. \<exists>name \<in> makers. \<exists>pw. Account_Made uid name pw \<in> set (ac_history g))"

lemma privileged_ok_stage [simp]: "privileged_ok makers (to_stage n st g) = privileged_ok makers g"
  by (simp add: privileged_ok_def)

lemma privileged_ok_save: "privileged_ok makers g \<Longrightarrow> privileged_ok makers (after_save makers n lands read row pw g)"
  by (auto simp: after_save_def Let_def privileged_ok_def; blast)

lemma privileged_ok_step: "privileged_ok makers g \<Longrightarrow> privileged_ok makers (access_step hash verify makers ttl e g)"
proof (cases e)
  case (Saved n lands read)
  then show "privileged_ok makers g \<Longrightarrow> ?thesis"
    by (cases "dget (ac_requests g) n"; cases "the (dget (ac_requests g) n)"; simp add: privileged_ok_save)
next
  case (Identified n now)
  then show "privileged_ok makers g \<Longrightarrow> ?thesis"
    by (auto split: option.split stage.split response.split)
next
  case Restarted
  then show "privileged_ok makers g \<Longrightarrow> ?thesis" by (fastforce simp: privileged_ok_def)
qed (auto simp: privileged_ok_def after_name_check_def after_login_lookup_def split: option.split stage.split sum.split bool.split)

lemma makers_are_configured:
  "uid \<in> ac_makers (fold (access_step hash verify makers ttl) events new_access) \<Longrightarrow>
    \<exists>name \<in> makers. \<exists>pw. Account_Made uid name pw \<in> set (ac_history (fold (access_step hash verify makers ttl) events new_access))"
proof -
  have "privileged_ok makers (fold (access_step hash verify makers ttl) events new_access)"
  proof (induction events rule: rev_induct)
    case Nil
    then show ?case by (simp add: privileged_ok_def new_access_def)
  qed (simp add: privileged_ok_step)
  then show "uid \<in> ac_makers (fold (access_step hash verify makers ttl) events new_access) \<Longrightarrow> ?thesis"
    by (simp add: privileged_ok_def)
qed

text \<open>
  But whoever registers under a configured name first gets the privilege with it: the handler
  looks at nothing but the name in the request.
\<close>

lemma chosen_name_is_privileged:
  "ac_makers (fold (access_step demo_hash demo_verify {''alice''} 60) (take 5 demo_access) new_access) = {1}"
  by code_simp

end
