(* ===== verification/Stream_Server.thy ===== *)
theory Stream_Server
  imports Messages Subscribers Sessions "HOL-Library.Char_ord"
begin

section \<open>The stream endpoint: services/fanout/server.py\<close>

text \<open>
  \<open>/stream\<close> for all browsers at once: the cookie is resolved through the gateway's session store,
  then \<open>_serve\<close> reads requests until the client goes or overflows. The handler of a connection is
  cut at its awaits, and its steps interleave with those of the others, with the gateway changing
  the session keys, and with the tick, the router and the writers (\<open>Fed\<close>), which change a
  subscriber but neither its user nor its channels. A frame of the client is text; what
  \<open>json_loads\<close> does not read (\<open>Json\<close>) is malformed here, so a request with a fractional number in a
  field nobody asks for is outside the model.

  \<open>streams_belong_to_sessions\<close> is the safety of the endpoint; \<open>requests_are_served\<close> is what one
  request does, from the text the browser sends to the frames it is answered.
\<close>

subsection \<open>Reading a request\<close>

fun str_of :: "json \<Rightarrow> string option" where
  "str_of (JStr s) = Some s"
| "str_of _ = None"

text \<open>\<open>_parse\<close>: the operation, and the set of channels as a list without duplicates.\<close>

definition parse_frame :: "string \<Rightarrow> (string \<times> string list) option" where
  "parse_frame raw =
     (case json_loads raw of
        Inr (JObj frame) \<Rightarrow>
          (case (dget frame ''op'', dget frame ''channels'') of
             (Some (JStr op), Some (JList channels)) \<Rightarrow>
               if list_all (\<lambda>c. str_of c \<noteq> None) channels then Some (op, remdups (List.map_filter str_of channels)) else None
           | _ \<Rightarrow> None)
      | _ \<Rightarrow> None)"

fun join_with :: "string \<Rightarrow> string list \<Rightarrow> string" where
  "join_with sep [] = []"
| "join_with sep [s] = s"
| "join_with sep (s # t # ss) = s @ sep @ join_with sep (t # ss)"

text \<open>\<open>reply\<close>: through the subscriber, like everything a served connection is sent.\<close>

definition reply_to :: "nat \<Rightarrow> json \<Rightarrow> hub \<Rightarrow> hub" where
  "reply_to i payload h =
     (let (h1, frame) = hub_encode payload h; (s, taken) = offer_private frame (subscriber_at i h1)
      in h1\<lparr>hb_store := dset i (sb_flush s) (hb_store h1)\<rparr>)"

definition serve_frame :: "string set \<Rightarrow> nat \<Rightarrow> string \<Rightarrow> hub \<Rightarrow> hub" where
  "serve_frame known i raw h =
     (case parse_frame raw of
        None \<Rightarrow> reply_to i (error_message ''unknown_channel'' ''malformed request'') h
      | Some (op, channels) \<Rightarrow>
          (let unknown = filter (\<lambda>c. c \<notin> known) channels;
               asked = filter (\<lambda>c. c \<in> known) channels;
               h1 = (if unknown = [] then h
                     else reply_to i (error_message ''unknown_channel'' (join_with '', '' (sort unknown))) h)
           in if asked = [] then h1
              else if op = ''subscribe'' then hub_subscribe i asked h1
              else if op = ''unsubscribe'' then hub_unsubscribe i asked h1
              else reply_to i (error_message ''unknown_channel'' (''unknown op: '' @ op)) h1))"

subsection \<open>Connections\<close>

text \<open>\<open>Resolving\<close> awaits the session store, \<open>Serving\<close> is in \<open>_serve\<close>. \<open>sv_direct\<close> has the frames
  sent past a subscriber: the refusals before there is one, and \<open>slow_consumer\<close>.\<close>

datatype link = Resolving string | Serving | Gone

record server =
  sv_hub :: hub
  sv_known :: "string set"
  sv_keys :: expiring
  sv_links :: "(nat, link) dict"
  sv_direct :: "(nat \<times> string) list"

definition new_server :: "string set \<Rightarrow> server" where
  "new_server known = \<lparr> sv_hub = new_hub, sv_known = known, sv_keys = [], sv_links = [], sv_direct = [] \<rparr>"

definition send_direct :: "nat \<Rightarrow> json \<Rightarrow> server \<Rightarrow> server" where
  "send_direct i payload g =
     (let (h, frame) = hub_encode payload (sv_hub g)
      in g\<lparr>sv_hub := h, sv_direct := sv_direct g @ [(i, frame)]\<rparr>)"

definition set_link :: "nat \<Rightarrow> link \<Rightarrow> server \<Rightarrow> server" where
  "set_link i l g = g\<lparr>sv_links := dset i l (sv_links g)\<rparr>"

text \<open>The handler's \<open>finally\<close>: out of the hub, then the writer is stopped.\<close>

definition hang_up :: "nat \<Rightarrow> server \<Rightarrow> server" where
  "hang_up i g =
     (let h = hub_remove i (sorted_list_of_set (sb_channels (subscriber_at i (sv_hub g)))) (sv_hub g)
      in set_link i Gone (g\<lparr>sv_hub := h\<lparr>hb_store := dset i (fst (sb_stop (subscriber_at i h))) (hb_store h)\<rparr>\<rparr>))"

definition admit :: "nat \<Rightarrow> exn + int option \<Rightarrow> server \<Rightarrow> server" where
  "admit i session g =
     (case session of
        Inl e \<Rightarrow>
          set_link i Gone (send_direct i (halted_message (JStr ''session_store_unreachable'') (JStr ''cannot read the session'')) g)
      | Inr None \<Rightarrow> set_link i Gone (send_direct i (error_message ''unauthenticated'' ''no valid session cookie'') g)
      | Inr (Some uid) \<Rightarrow> set_link i Serving (g\<lparr>sv_hub := hub_connect i uid (sv_hub g)\<rparr>))"

text \<open>
  \<open>Session_Read\<close> carries the store's clock, or nothing when it could not be read. \<open>Says\<close> is a text
  received, \<open>Overflowed\<close> the overflow signal winning the race, \<open>Leaves\<close> a disconnect or a broken socket.
\<close>

datatype server_event =
    Opens nat string
  | Session_Read nat "int option"
  | Says nat string
  | Overflowed nat
  | Leaves nat
  | Keys_Change expiring
  | Fed nat subscriber

fun server_step :: "server_event \<Rightarrow> server \<Rightarrow> server" where
  "server_step (Opens i cookie) g = (if dget (sv_links g) i = None then set_link i (Resolving cookie) g else g)"
| "server_step (Session_Read i clock) g =
     (case dget (sv_links g) i of
        Some (Resolving cookie) \<Rightarrow>
          admit i (case clock of None \<Rightarrow> Inl RuntimeError | Some now \<Rightarrow> session_user now cookie (sv_keys g)) g
      | _ \<Rightarrow> g)"
| "server_step (Says i raw) g =
     (if dget (sv_links g) i = Some Serving then g\<lparr>sv_hub := serve_frame (sv_known g) i raw (sv_hub g)\<rparr> else g)"
| "server_step (Overflowed i) g =
     (if dget (sv_links g) i = Some Serving \<and> sb_overflowed (subscriber_at i (sv_hub g))
      then hang_up i (send_direct i (error_message ''slow_consumer'' ''private buffer overflowed'') g) else g)"
| "server_step (Leaves i) g =
     (if dget (sv_links g) i = Some Serving then hang_up i g else g)"
| "server_step (Keys_Change keys) g = g\<lparr>sv_keys := keys\<rparr>"
| "server_step (Fed i s) g =
     (let s0 = subscriber_at i (sv_hub g)
      in if dget (hb_store (sv_hub g)) i \<noteq> None \<and> sb_user_id s = sb_user_id s0 \<and> sb_channels s = sb_channels s0
         then g\<lparr>sv_hub := (sv_hub g)\<lparr>hb_store := dset i s (hb_store (sv_hub g))\<rparr>\<rparr> else g)"

subsection \<open>The halt watcher\<close>

text \<open>\<open>watch_halt\<close>: one reading of the key after another; an exception that \<open>refresh\<close> lets through ends it.\<close>

fun watch_halt :: "reply list \<Rightarrow> halt_view \<Rightarrow> exn + halt_view" where
  "watch_halt [] v = Inr v"
| "watch_halt (r # rs) v = sbind (hv_refresh r v) (\<lambda>(v', changed). watch_halt rs v')"

subsection \<open>What a step leaves of the hub\<close>

definition kept :: "string set \<Rightarrow> hub \<Rightarrow> hub \<Rightarrow> bool" where
  "kept known h h' \<longleftrightarrow>
     hub_reachable h' \<and> hb_subscribers h' = hb_subscribers h \<and>
     (\<forall>j. (dget (hb_store h') j = None) = (dget (hb_store h) j = None)) \<and>
     (\<forall>j. sb_user_id (subscriber_at j h') = sb_user_id (subscriber_at j h)) \<and>
     (\<forall>j. sb_channels (subscriber_at j h') \<subseteq> sb_channels (subscriber_at j h) \<union> known)"

lemma keptD:
  assumes "kept known h h'"
  shows "hub_reachable h'" "hb_subscribers h' = hb_subscribers h" "dget (hb_store h') j \<noteq> None \<Longrightarrow> dget (hb_store h) j \<noteq> None"
    "sb_user_id (subscriber_at j h') = sb_user_id (subscriber_at j h)"
    "sb_channels (subscriber_at j h) \<subseteq> known \<Longrightarrow> sb_channels (subscriber_at j h') \<subseteq> known"
  using assms unfolding kept_def by simp_all blast

lemma kept_refl: "hub_reachable h \<Longrightarrow> kept known h h"
  by (simp add: kept_def)

lemma kept_trans: "kept known h h' \<Longrightarrow> kept known h' h'' \<Longrightarrow> kept known h h''"
  unfolding kept_def by (intro conjI allI; blast?; simp?)

lemma subscriber_at_store: "subscriber_at j (h\<lparr>hb_store := dset i s (hb_store h)\<rparr>) = (if j = i then s else subscriber_at j h)"
  by simp

lemma kept_work:
  assumes "hub_reachable h" "dget (hb_store h) i \<noteq> None" "sb_user_id s = sb_user_id (subscriber_at i h)"
    "sb_channels s = sb_channels (subscriber_at i h)"
  shows "kept known h (h\<lparr>hb_store := dset i s (hb_store h)\<rparr>)"
proof -
  have "hub_reachable (h\<lparr>hb_store := dset i s (hb_store h)\<rparr>)"
    using hub_reachable.step [OF assms(1) work [OF assms(2-4)]] .
  then show ?thesis using assms(2-4) by (auto simp: kept_def)
qed

lemma kept_encode: "hub_reachable h \<Longrightarrow> kept known h (fst (hub_encode payload h))"
  using encode_reachable [of h payload] by (simp add: kept_def) (simp add: hub_encode_def)

lemma reply_to_eq:
  "reply_to i payload h =
    (let h1 = fst (hub_encode payload h)
     in h1\<lparr>hb_store := dset i (sb_flush (fst (offer_private (json_dumps payload) (subscriber_at i h1)))) (hb_store h1)\<rparr>)"
  by (simp add: reply_to_def Let_def hub_encode_def split_beta)

lemma kept_reply:
  assumes "hub_reachable h" "i \<in> set (hb_subscribers h)"
  shows "kept known h (reply_to i payload h)"
proof -
  define h1 where "h1 = fst (hub_encode payload h)"
  have 1: "kept known h h1" unfolding h1_def by (rule kept_encode [OF assms(1)])
  have "dget (hb_store h1) i \<noteq> None" using 1 hub_reachable_inv [OF assms(1)] assms(2) by (simp add: kept_def hub_inv_def)
  moreover have "hub_reachable h1" using 1 by (simp add: kept_def)
  ultimately have "kept known h1 (reply_to i payload h)"
    unfolding reply_to_eq h1_def [symmetric] Let_def
    by (intro kept_work) (simp_all add: offer_private_def sb_flush_def hand_over_def)
  then show ?thesis using 1 kept_trans by blast
qed

lemma kept_subscribe:
  assumes "hub_reachable h" "i \<in> set (hb_subscribers h)" "set chs \<subseteq> known"
  shows "kept known h (hub_subscribe i chs h)"
proof -
  have "hub_reachable (hub_subscribe i chs h)" using hub_reachable.step [OF assms(1) subscribe [OF assms(2)]] .
  moreover have "dget (hb_store h) i \<noteq> None" using hub_reachable_inv [OF assms(1)] assms(2) by (simp add: hub_inv_def)
  ultimately show ?thesis using assms(3) by (auto simp: kept_def hub_subscribe_def sb_subscribe_def)
qed

lemma kept_unsubscribe:
  assumes "hub_reachable h" "i \<in> set (hb_subscribers h)"
  shows "kept known h (hub_unsubscribe i chs h)"
proof -
  have "hub_reachable (hub_unsubscribe i chs h)" using hub_reachable.step [OF assms(1) unsubscribe [OF assms(2)]] .
  moreover have "dget (hb_store h) i \<noteq> None" using hub_reachable_inv [OF assms(1)] assms(2) by (simp add: hub_inv_def)
  ultimately show ?thesis by (auto simp: kept_def hub_unsubscribe_def sb_unsubscribe_def)
qed

lemma kept_serve:
  assumes h: "hub_reachable h" "i \<in> set (hb_subscribers h)"
  shows "kept known h (serve_frame known i raw h)"
proof (cases "parse_frame raw")
  case None
  then show ?thesis using kept_reply [OF h] by (simp add: serve_frame_def)
next
  case (Some p)
  obtain op channels where p: "p = (op, channels)" by fastforce
  define unknown where "unknown = filter (\<lambda>c. c \<notin> known) channels"
  define asked where "asked = filter (\<lambda>c. c \<in> known) channels"
  define h1 where "h1 = (if unknown = [] then h
    else reply_to i (error_message ''unknown_channel'' (join_with '', '' (sort unknown))) h)"
  have 1: "kept known h h1" using kept_reply [OF h] kept_refl [OF h(1)] by (simp add: h1_def)
  then have h1: "hub_reachable h1" "i \<in> set (hb_subscribers h1)" using h(2) by (simp_all add: kept_def)
  have "serve_frame known i raw h = (if asked = [] then h1
      else if op = ''subscribe'' then hub_subscribe i asked h1
      else if op = ''unsubscribe'' then hub_unsubscribe i asked h1
      else reply_to i (error_message ''unknown_channel'' (''unknown op: '' @ op)) h1)"
    by (simp add: serve_frame_def Some p Let_def unknown_def asked_def h1_def)
  moreover have "set asked \<subseteq> known" by (auto simp: asked_def)
  ultimately have "kept known h1 (serve_frame known i raw h)"
    using kept_refl [OF h1(1)] kept_subscribe [OF h1] kept_unsubscribe [OF h1] kept_reply [OF h1] by simp
  then show ?thesis using 1 kept_trans by blast
qed

subsection \<open>Whose stream it is\<close>

text \<open>A connection earned its user: it opened with a cookie that stood for them when it was read.\<close>

definition earned :: "string set \<Rightarrow> server_event list \<Rightarrow> nat \<Rightarrow> int \<Rightarrow> bool" where
  "earned known events i u \<longleftrightarrow>
     (\<exists>pre cookie now post. events = pre @ Session_Read i (Some now) # post \<and> Opens i cookie \<in> set pre \<and>
        session_user now cookie (sv_keys (fold server_step pre (new_server known))) = Inr (Some u))"

lemma earned_later: "earned known events i u \<Longrightarrow> earned known (events @ [e]) i u"
  unfolding earned_def by (metis append_Cons append_assoc)

definition server_ok :: "string set \<Rightarrow> server_event list \<Rightarrow> server \<Rightarrow> bool" where
  "server_ok known events g \<longleftrightarrow>
     hub_reachable (sv_hub g) \<and> sv_known g = known \<and>
     (\<forall>i. i \<in> set (hb_subscribers (sv_hub g)) \<longleftrightarrow> dget (sv_links g) i = Some Serving) \<and>
     (\<forall>i. sb_channels (subscriber_at i (sv_hub g)) \<subseteq> known) \<and>
     (\<forall>i. dget (hb_store (sv_hub g)) i \<noteq> None \<longrightarrow> dget (sv_links g) i \<in> {Some Serving, Some Gone}) \<and>
     (\<forall>i cookie. dget (sv_links g) i = Some (Resolving cookie) \<longrightarrow> Opens i cookie \<in> set events) \<and>
     (\<forall>i. dget (sv_links g) i = Some Serving \<longrightarrow> earned known events i (sb_user_id (subscriber_at i (sv_hub g))))"

lemma server_okI:
  assumes "hub_reachable (sv_hub g)" "sv_known g = known"
    "\<And>i. i \<in> set (hb_subscribers (sv_hub g)) \<longleftrightarrow> dget (sv_links g) i = Some Serving"
    "\<And>i. sb_channels (subscriber_at i (sv_hub g)) \<subseteq> known"
    "\<And>i. dget (hb_store (sv_hub g)) i \<noteq> None \<Longrightarrow> dget (sv_links g) i \<in> {Some Serving, Some Gone}"
    "\<And>i cookie. dget (sv_links g) i = Some (Resolving cookie) \<Longrightarrow> Opens i cookie \<in> set events"
    "\<And>i. dget (sv_links g) i = Some Serving \<Longrightarrow> earned known events i (sb_user_id (subscriber_at i (sv_hub g)))"
  shows "server_ok known events g"
  using assms unfolding server_ok_def by blast

lemma server_okD:
  assumes "server_ok known events g"
  shows "hub_reachable (sv_hub g)" "sv_known g = known"
    "i \<in> set (hb_subscribers (sv_hub g)) \<longleftrightarrow> dget (sv_links g) i = Some Serving"
    "sb_channels (subscriber_at i (sv_hub g)) \<subseteq> known"
    "dget (hb_store (sv_hub g)) i \<noteq> None \<Longrightarrow> dget (sv_links g) i \<in> {Some Serving, Some Gone}"
    "dget (sv_links g) i = Some (Resolving cookie) \<Longrightarrow> Opens i cookie \<in> set events"
    "dget (sv_links g) i = Some Serving \<Longrightarrow> earned known events i (sb_user_id (subscriber_at i (sv_hub g)))"
  using assms unfolding server_ok_def by blast+

lemma server_ok_later: "server_ok known events g \<Longrightarrow> server_ok known (events @ [e]) g"
  by (auto simp: server_ok_def intro: earned_later)

lemma server_ok_kept:
  assumes ok: "server_ok known events g" and k: "kept known (sv_hub g) h"
  shows "server_ok known events (g\<lparr>sv_hub := h, sv_direct := d\<rparr>)"
proof (rule server_okI)
  show "dget (hb_store (sv_hub (g\<lparr>sv_hub := h, sv_direct := d\<rparr>))) i \<noteq> None \<Longrightarrow>
      dget (sv_links (g\<lparr>sv_hub := h, sv_direct := d\<rparr>)) i \<in> {Some Serving, Some Gone}" for i
    using keptD(3) [OF k] server_okD(5) [OF ok] by simp
qed (use keptD(1,2,4,5) [OF k] server_okD [OF ok] in simp_all)

lemma server_ok_direct: "server_ok known events g \<Longrightarrow> server_ok known events (send_direct i payload g)"
  using server_ok_kept [of known events g "fst (hub_encode payload (sv_hub g))"] kept_encode [of "sv_hub g"] server_okD(1)
  by (simp add: send_direct_def hub_encode_def)

lemma server_ok_gone:
  assumes ok: "server_ok known events g" and i: "dget (sv_links g) i \<noteq> Some Serving"
  shows "server_ok known events (set_link i Gone g)"
  by (rule server_okI) (use i server_okD [OF ok] in \<open>auto simp: set_link_def split: if_splits\<close>)

lemma server_ok_hang_up:
  assumes ok: "server_ok known events g" and fin: "finite known" and i: "dget (sv_links g) i = Some Serving"
  shows "server_ok known events (hang_up i g)"
proof -
  define h where "h = sv_hub g"
  define chs where "chs = sorted_list_of_set (sb_channels (subscriber_at i h))"
  define h1 where "h1 = hub_remove i chs h"
  define h2 where "h2 = h1\<lparr>hb_store := dset i (fst (sb_stop (subscriber_at i h1))) (hb_store h1)\<rparr>"
  have "finite (sb_channels (subscriber_at i h))" using server_okD(4) [OF ok, of i] fin finite_subset by (auto simp: h_def)
  then have chs: "set chs = sb_channels (subscriber_at i h)" by (simp add: chs_def)
  have in_h: "i \<in> set (hb_subscribers h)" using server_okD(3) [OF ok, of i] i by (simp add: h_def)
  have h: "hub_reachable h" using server_okD(1) [OF ok] by (simp add: h_def)
  have r1: "hub_reachable h1" unfolding h1_def using hub_reachable.step [OF h disconnect [OF in_h chs]] .
  have at1: "hb_store h1 = hb_store h" "hb_subscribers h1 = removeAll i (hb_subscribers h)" "subscriber_at j h1 = subscriber_at j h" for j
    by (simp_all add: h1_def hub_remove_def)
  have st: "dget (hb_store h1) i \<noteq> None" using hub_reachable_inv [OF h] in_h by (simp add: hub_inv_def at1)
  have k: "kept known h1 h2" unfolding h2_def by (rule kept_work [OF r1 st]) (simp_all add: sb_stop_def)
  have eq: "hang_up i g = set_link i Gone (g\<lparr>sv_hub := h2\<rparr>)"
    by (simp add: hang_up_def Let_def h_def [symmetric] chs_def [symmetric] h1_def [symmetric] h2_def [symmetric])
  show ?thesis
  proof (rule server_okI)
    show "sb_channels (subscriber_at j (sv_hub (hang_up i g))) \<subseteq> known" for j
      using keptD(5) [OF k, of j] server_okD(4) [OF ok, of j] at1(3) [of j] by (simp add: eq set_link_def h_def)
    show "dget (hb_store (sv_hub (hang_up i g))) j \<noteq> None \<Longrightarrow> dget (sv_links (hang_up i g)) j \<in> {Some Serving, Some Gone}" for j
      using keptD(3) [OF k, of j] server_okD(5) [OF ok, of j] by (auto simp: eq set_link_def h_def at1)
  qed (use keptD(1,2,4) [OF k] at1 server_okD [OF ok] in \<open>auto simp: eq set_link_def h_def split: if_splits\<close>)
qed

lemma server_ok_admit:
  assumes ok: "server_ok known events g" and link: "dget (sv_links g) i = Some (Resolving cookie)"
    and e: "\<And>u. session = Inr (Some u) \<Longrightarrow> earned known events i u"
  shows "server_ok known events (admit i session g)"
proof -
  have gone: "server_ok known events (set_link i Gone (send_direct i payload g))" for payload
    using link by (intro server_ok_gone server_ok_direct [OF ok]) (simp add: send_direct_def hub_encode_def)
  have "server_ok known events (set_link i Serving (g\<lparr>sv_hub := hub_connect i u (sv_hub g)\<rparr>))" if s: "session = Inr (Some u)" for u
  proof -
    define h where "h = hub_connect i u (sv_hub g)"
    have new: "dget (hb_store (sv_hub g)) i = None" using server_okD(5) [OF ok, of i] link by force
    have r: "hub_reachable h" unfolding h_def using hub_reachable.step [OF server_okD(1) [OF ok] connect [OF new]] .
    have at: "subscriber_at j h = (if j = i then new_subscriber u PRIVATE_BUFFER_MAX else subscriber_at j (sv_hub g))"
      "(dget (hb_store h) j \<noteq> None) = (j = i \<or> dget (hb_store (sv_hub g)) j \<noteq> None)"
      "set (hb_subscribers h) = insert i (set (hb_subscribers (sv_hub g)))" for j
      by (auto simp: h_def hub_connect_def hub_add_def)
    show ?thesis unfolding h_def [symmetric]
    proof (rule server_okI)
      show "dget (hb_store (sv_hub (set_link i Serving (g\<lparr>sv_hub := h\<rparr>)))) j \<noteq> None \<Longrightarrow>
          dget (sv_links (set_link i Serving (g\<lparr>sv_hub := h\<rparr>))) j \<in> {Some Serving, Some Gone}" for j
        using at(2) [of j] server_okD(5) [OF ok, of j] by (auto simp: set_link_def)
    qed (use r at(1,3) server_okD(2-4,6,7) [OF ok] e [OF s] in \<open>auto simp: set_link_def new_subscriber_def split: if_splits\<close>)
  qed
  then show ?thesis using gone by (simp add: admit_def split: sum.split option.split)
qed

lemma server_ok_step:
  assumes ok: "server_ok known events g" and fin: "finite known" and g: "g = fold server_step events (new_server known)"
  shows "server_ok known (events @ [e]) (server_step e g)"
proof -
  have ok': "server_ok known (events @ [e]) g" by (rule server_ok_later [OF ok])
  have kept: "server_ok known (events @ [e]) (g\<lparr>sv_hub := h\<rparr>)" if "kept known (sv_hub g) h" for h
    using server_ok_kept [OF ok' that, of "sv_direct g"] by simp
  have in_hub: "hub_reachable (sv_hub g) \<and> i \<in> set (hb_subscribers (sv_hub g))" if "dget (sv_links g) i = Some Serving" for i
    using server_okD(1,3) [OF ok] that by blast
  show ?thesis
  proof (cases e)
    case (Opens i cookie)
    have "server_ok known (events @ [e]) (set_link i (Resolving cookie) g)" if "dget (sv_links g) i = None"
    proof (rule server_okI)
      show "dget (hb_store (sv_hub (set_link i (Resolving cookie) g))) j \<noteq> None \<Longrightarrow>
          dget (sv_links (set_link i (Resolving cookie) g)) j \<in> {Some Serving, Some Gone}" for j
        using server_okD(5) [OF ok', of j] that by (auto simp: set_link_def)
      show "dget (sv_links (set_link i (Resolving cookie) g)) j = Some (Resolving c) \<Longrightarrow> Opens j c \<in> set (events @ [e])" for j c
        using server_okD(6) [OF ok', of j c] Opens by (auto simp: set_link_def split: if_splits)
    qed (use that server_okD(1-4,7) [OF ok'] in \<open>auto simp: set_link_def split: if_splits\<close>)
    then show ?thesis using Opens ok' by simp
  next
    case (Session_Read i clock)
    have "server_ok known (events @ [e]) (admit i (case clock of None \<Rightarrow> Inl RuntimeError | Some now \<Rightarrow> session_user now cookie (sv_keys g)) g)"
      if link: "dget (sv_links g) i = Some (Resolving cookie)" for cookie
    proof (rule server_ok_admit [OF ok' link])
      fix u assume "(case clock of None \<Rightarrow> Inl RuntimeError | Some now \<Rightarrow> session_user now cookie (sv_keys g)) = Inr (Some u)"
      then obtain now where "clock = Some now" "session_user now cookie (sv_keys g) = Inr (Some u)" by (cases clock) auto
      then have "events @ [e] = events @ Session_Read i (Some now) # [] \<and> Opens i cookie \<in> set events \<and>
          session_user now cookie (sv_keys (fold server_step events (new_server known))) = Inr (Some u)"
        using Session_Read server_okD(6) [OF ok link] g by simp
      then show "earned known (events @ [e]) i u" unfolding earned_def by blast
    qed
    then show ?thesis using Session_Read ok' by (auto split: option.split link.split)
  next
    case (Says i raw)
    then show ?thesis using ok' kept [OF kept_serve] in_hub [of i] server_okD(2) [OF ok] by simp
  next
    case (Overflowed i)
    then show ?thesis
      using ok' server_ok_hang_up [OF server_ok_direct [OF ok'] fin] by (simp add: send_direct_def hub_encode_def)
  next
    case (Leaves i)
    then show ?thesis using ok' server_ok_hang_up [OF ok' fin] by simp
  next
    case (Keys_Change keys)
    then show ?thesis using ok' by (simp add: server_ok_def)
  next
    case (Fed i s)
    then show ?thesis using ok' kept [OF kept_work] server_okD(1) [OF ok] by (simp add: Let_def)
  qed
qed

lemma server_ok_run:
  assumes "finite known"
  shows "server_ok known events (fold server_step events (new_server known))"
proof (induction events rule: rev_induct)
  case Nil
  show ?case by (simp add: server_ok_def new_server_def new_hub_def hub_reachable.start [unfolded new_hub_def] subscriber_at_def new_subscriber_def)
next
  case (snoc e events)
  then show ?case using server_ok_step [OF snoc assms refl] by simp
qed

text \<open>C11. A stream belongs to the session it was opened with. Whatever clients send, however connections come
  and go and whatever the gateway does to the session keys: a connection is offered user \<open>u\<close>'s
  private frames only if it was opened with a cookie that stood for \<open>u\<close> when it was read, it is
  offered only channels that exist and that it holds, and once it is gone it is offered nothing.\<close>

theorem streams_belong_to_sessions:
  assumes "g = fold server_step events (new_server (known_channels symbols widths ratio))"
  shows "(i \<in> set (held (hb_by_user (sv_hub g)) u) \<longrightarrow>
      dget (sv_links g) i = Some Serving \<and> earned (known_channels symbols widths ratio) events i u) \<and>
    (i \<in> set (listeners ch (sv_hub g)) \<longrightarrow>
      dget (sv_links g) i = Some Serving \<and> ch \<in> known_channels symbols widths ratio \<and> ch \<in> sb_channels (subscriber_at i (sv_hub g)))"
proof -
  have ok: "server_ok (known_channels symbols widths ratio) events g"
    unfolding assms by (rule server_ok_run) (simp add: known_channels_def)
  have inv: "hub_inv (sv_hub g)" using hub_reachable_inv [OF server_okD(1) [OF ok]] .
  then have "(i \<in> set (held (hb_by_user (sv_hub g)) u)) = (i \<in> set (hb_subscribers (sv_hub g)) \<and> sb_user_id (subscriber_at i (sv_hub g)) = u)"
    "(i \<in> set (listeners ch (sv_hub g))) = (i \<in> set (hb_subscribers (sv_hub g)) \<and> ch \<in> sb_channels (subscriber_at i (sv_hub g)))"
    by (simp_all add: hub_inv_def listeners_def)
  then show ?thesis using server_okD(3) [OF ok, of i] server_okD(7) [OF ok, of i] subsetD [OF server_okD(4) [OF ok, of i]] by auto
qed

text \<open>Two browsers, one with a session; it asks for a channel that exists and one that does not.\<close>

definition request_text :: "string \<Rightarrow> string list \<Rightarrow> string" where
  "request_text op channels = json_dumps (JObj [(''op'', JStr op), (''channels'', JList (map JStr channels))])"

definition demo_venue :: "symbol list" where
  "demo_venue = [\<lparr> sm_symbol_id = 1, sm_name = ''QAA'', sm_tick_size_ticks = 100, sm_lot_size = 1 \<rparr>]"

definition demo_browsers :: "server_event list" where
  "demo_browsers =
     [Keys_Change (session_create 60 1000 ''tok'' 41 []), Opens 0 ''tok'', Opens 1 ''guess'', Session_Read 0 (Some 2000),
      Session_Read 1 (Some 2000), Says 0 (request_text ''subscribe'' [''tape:QAA'', ''tape:QAZ''])]"

theorem streams_belong_to_sessions_witness:
  "(let g = fold server_step demo_browsers (new_server (known_channels demo_venue [1] 60))
    in held (hb_by_user (sv_hub g)) 41 = [0] \<and> listeners ''tape:QAA'' (sv_hub g) = [0] \<and> listeners ''tape:QAZ'' (sv_hub g) = [] \<and>
       earned (known_channels demo_venue [1] 60) demo_browsers 0 41 \<and> ''tape:QAA'' \<in> known_channels demo_venue [1] 60 \<and>
       dget (sv_links g) 1 = Some Gone)"
proof -
  let ?g = "fold server_step demo_browsers (new_server (known_channels demo_venue [1] 60))"
  have "held (hb_by_user (sv_hub ?g)) 41 = [0]" "listeners ''tape:QAA'' (sv_hub ?g) = [0]" "listeners ''tape:QAZ'' (sv_hub ?g) = []"
    "dget (sv_links ?g) 1 = Some Gone" by code_simp+
  then show ?thesis using streams_belong_to_sessions [of ?g demo_browsers demo_venue "[1]" 60 0 41 "''tape:QAA''"] by (simp add: Let_def)
qed

subsection \<open>What one request does\<close>

definition answers :: "string set \<Rightarrow> string \<Rightarrow> string list \<Rightarrow> json list" where
  "answers known op channels =
     (let unknown = sort (remdups (filter (\<lambda>c. c \<notin> known) channels))
      in (if unknown = [] then [] else [error_message ''unknown_channel'' (join_with '', '' unknown)]) @
         (if set channels \<inter> known \<noteq> {} \<and> op \<notin> {''subscribe'', ''unsubscribe''}
          then [error_message ''unknown_channel'' (''unknown op: '' @ op)] else []))"

lemma parse_request_text: "parse_frame (request_text op channels) = Some (op, remdups channels)"
proof -
  have "wf_json (JObj [(''op'', JStr op), (''channels'', JList (map JStr channels))])" by simp
  then have "json_loads (request_text op channels) = Inr (JObj [(''op'', JStr op), (''channels'', JList (map JStr channels))])"
    unfolding request_text_def by (rule json_loads_dumps)
  moreover have "List.map_filter str_of (map JStr channels) = channels" by (induction channels) (simp_all add: map_filter_simps)
  moreover have "list_all (\<lambda>c. str_of c \<noteq> None) (map JStr channels)" by (simp add: list_all_iff)
  ultimately show ?thesis by (simp add: parse_frame_def)
qed

lemma reply_at:
  assumes "\<not> sb_closed (subscriber_at i h)" "int (length (sb_private (subscriber_at i h))) < sb_private_max (subscriber_at i h)"
  shows "subscriber_at i (reply_to i payload h) =
      hand_over ((subscriber_at i h)\<lparr>sb_private := sb_private (subscriber_at i h) @ [json_dumps payload]\<rparr>)"
    "j \<noteq> i \<Longrightarrow> subscriber_at j (reply_to i payload h) = subscriber_at j h"
  using assms by (simp_all add: reply_to_eq Let_def offer_private_def sb_flush_def hand_over_def)

text \<open>C40. A request does what it says. Sent as the text the browser writes, for a connection that is keeping up:
  the channels it names that exist are added or dropped, the others are named back in order, an
  unknown operation is answered and changes nothing, and no other connection notices.\<close>

theorem requests_are_served:
  assumes "\<not> sb_closed (subscriber_at i h)" "int (length (sb_private (subscriber_at i h))) + 2 \<le> sb_private_max (subscriber_at i h)"
  shows "(let h' = serve_frame known i (request_text op channels) h; s = subscriber_at i h; s' = subscriber_at i h'; asked = set channels \<inter> known
    in sb_channels s' = (if op = ''subscribe'' then sb_channels s \<union> asked else if op = ''unsubscribe'' then sb_channels s - asked
                         else sb_channels s) \<and>
       sb_private s' = sb_private s @ map json_dumps (answers known op channels) \<and>
       (\<forall>j. j \<noteq> i \<longrightarrow> subscriber_at j h' = subscriber_at j h))"
proof -
  define s where "s = subscriber_at i h"
  define unknown where "unknown = remdups (filter (\<lambda>c. c \<notin> known) channels)"
  define asked where "asked = filter (\<lambda>c. c \<in> known) (remdups channels)"
  define h1 where "h1 = (if unknown = [] then h
    else reply_to i (error_message ''unknown_channel'' (join_with '', '' (sort unknown))) h)"
  have asked: "set asked = set channels \<inter> known" "asked = [] \<longleftrightarrow> set channels \<inter> known = {}"
    by (auto simp: asked_def filter_empty_conv)
  have eq: "serve_frame known i (request_text op channels) h = (if asked = [] then h1
      else if op = ''subscribe'' then hub_subscribe i asked h1
      else if op = ''unsubscribe'' then hub_unsubscribe i asked h1
      else reply_to i (error_message ''unknown_channel'' (''unknown op: '' @ op)) h1)"
    by (simp add: serve_frame_def parse_request_text Let_def unknown_def asked_def h1_def remdups_filter)
  define first where "first = (if unknown = [] then [] else [error_message ''unknown_channel'' (join_with '', '' (sort unknown))])"
  have ans: "answers known op channels = first @
      (if asked \<noteq> [] \<and> op \<notin> {''subscribe'', ''unsubscribe''} then [error_message ''unknown_channel'' (''unknown op: '' @ op)] else [])"
  proof -
    have "sort unknown = [] \<longleftrightarrow> unknown = []" by (metis set_empty set_sort)
    then show ?thesis using asked(2) by (simp add: answers_def Let_def first_def unknown_def)
  qed
  have h1: "sb_channels (subscriber_at i h1) = sb_channels s" "sb_private (subscriber_at i h1) = sb_private s @ map json_dumps first"
    "\<not> sb_closed (subscriber_at i h1)" "sb_private_max (subscriber_at i h1) = sb_private_max s"
    "j \<noteq> i \<Longrightarrow> subscriber_at j h1 = subscriber_at j h" for j
    using reply_at [of i h] assms by (simp_all add: h1_def first_def s_def hand_over_def)
  have room: "int (length (sb_private (subscriber_at i h1))) < sb_private_max (subscriber_at i h1)"
    using assms(2) by (simp add: h1(2,4) s_def first_def)
  show ?thesis
    unfolding Let_def eq ans s_def [symmetric] asked(1) [symmetric]
    using h1 reply_at [OF h1(3) room]
    by (simp add: hub_subscribe_def hub_unsubscribe_def sb_subscribe_def sb_unsubscribe_def hand_over_def)
qed

theorem requests_are_served_witness:
  "sb_channels (subscriber_at 0 (serve_frame {''tape:QAA''} 0 (request_text ''subscribe'' [''tape:QAA'', ''x'']) (hub_connect 0 41 new_hub))) =
     {''tape:QAA''} \<and>
   sb_private (subscriber_at 0 (serve_frame {''tape:QAA''} 0 (request_text ''subscribe'' [''tape:QAA'', ''x'']) (hub_connect 0 41 new_hub))) =
     [json_dumps (error_message ''unknown_channel'' ''x'')]"
proof -
  let ?h = "hub_connect 0 41 new_hub"
  have s: "subscriber_at 0 ?h = new_subscriber 41 PRIVATE_BUFFER_MAX" by (simp add: hub_connect_def hub_add_def)
  have "\<not> sb_closed (subscriber_at 0 ?h)"
    "int (length (sb_private (subscriber_at 0 ?h))) + 2 \<le> sb_private_max (subscriber_at 0 ?h)"
    unfolding s by (simp_all add: new_subscriber_def PRIVATE_BUFFER_MAX_def)
  from requests_are_served [OF this, of "{''tape:QAA''}" "''subscribe''" "[''tape:QAA'', ''x'']"]
  show ?thesis unfolding s by (simp add: new_subscriber_def answers_def Let_def)
qed

end
