(* ===== verification/Spec2Isabelle.thy ===== *)
theory Spec2Isabelle
  imports Recovery Read_Routes Risk_Spec Market_Checkpoint Conflation_Spec Private_Router Order_Flow_Spec Archive_Process Backtest_Service Market_Maker_Spec
    Rate_Limit Access Stream_Server
begin

text \<open>
  \<^bold>\<open>Quant Arena: a verification library for the simulated exchange\<close>

  \<^bold>\<open>The program.\<close> A gateway checks each order against a trader's cash and inventory and appends it to
  the inbound stream; the matcher reads that stream, matches on one order book per symbol and
  appends what happened to the outbound stream; the ledger, the gateway's own risk state and
  fan-out each rebuild their view from the outbound stream alone, and fan-out sends browsers what
  moved, twenty times a second. Every process saves checkpoints and, after a restart, reads on
  from them. Source files are named relative to \<open>src/\<close>.

  \<^bold>\<open>Theories, and the code each models.\<close>

  \<^item> \<open>Prelude\<close>: exceptions as values (\<open>exn + 'a\<close>), insertion-ordered dictionaries as association lists,
    decimal numerals, sorting by a key. \<open>Struct_Codec\<close>: Python's \<open>struct\<close> formats, little endian.
    \<open>Json\<close>: the part of the \<open>json\<close> module the services use, with its round trip.
  \<^item> \<open>Contracts\<close> (contracts/v1/generated/contracts.py): the thirteen record classes, their byte layouts,
    \<open>pack\<close>, \<open>unpack_any\<close>, \<open>with_seq\<close>.
  \<^item> \<open>Naive_Model\<close> (engine/naive_model.py): orders, price levels and the book; an order object is
    shared by the level's queue and the index, so objects live in a store under references.
    \<open>Matching_Spec\<close>: price-time priority on two queues, and that the book refines it.
  \<^item> \<open>Matcher\<close> (services/matcher/adapter.py): \<open>NaiveMatcher\<close>, from inbound to outbound records.
    \<open>Matcher_Spec\<close>: its specification and refinement. \<open>Snapshot\<close> (services/matcher/snapshot.py and the
    adapter's \<open>snapshot\<close> and \<open>restore\<close>): the binary format and that a restored engine goes on the same.
  \<^item> \<open>Recovery\<close> (services/matcher/runner.py and checkpointing.py, services/checkpoint.py): the process
    against its two streams, crashes at any step, anchor counting, the resume guard, trimming.
  \<^item> \<open>Ledger\<close>, \<open>Ledger_Spec\<close>, \<open>Read_Model\<close> (services/ledger/ledger.py and consumer.py,
    services/gateway/models.py): balances, positions, open orders, fees, the checkpoint, and the database
    tables the consumer keeps. \<open>Order_Projection\<close> is the interface between an engine and whoever
    follows its orders; \<open>Checkpointed\<close> the contract of a state that is dumped and loaded;
    \<open>Stream_Replay\<close> the loop that reads a stream to its end. Each is a locale, interpreted for the
    ledger, the risk state and the market state.
  \<^item> \<open>Risk\<close>, \<open>Risk_Spec\<close> (services/gateway/risk.py, \<open>_abandon\<close> of routes_orders.py): reservations,
    their release, market-order pricing and the checkpoint.
  \<^item> \<open>Market\<close>, \<open>Market_Spec\<close>, \<open>Market_Checkpoint\<close> (services/fanout/book.py, bars.py, state.py, runner.py):
    books, tape and bars rebuilt from the stream, and their checkpoint.
  \<^item> \<open>Subscribers\<close>, \<open>Messages\<close>, \<open>Private_Router\<close>, \<open>Conflation\<close>, \<open>Conflation_Spec\<close> (services/fanout/subscribers.py,
    messages.py, private.py, conflation.py): connections and their writers, the hub's indexes, the
    browser's frames, the private stream, one tick.
  \<^item> \<open>Halt\<close> (services/gateway/streams.py, services/fanout/halt.py): the halt state, published and read.
    \<open>Streams\<close> (services/gateway/streams.py): the one producer that batches appends and answers them.
  \<^item> \<open>Idempotency\<close>, \<open>Order_Flow\<close>, \<open>Order_Flow_Spec\<close> (services/gateway/idempotency.py, routes_orders.py):
    the order and cancel handlers cut at their awaits, the append script, stored outcomes and retries.
  \<^item> \<open>Settings\<close> (config/settings.py): the symbol table.
  \<^item> \<open>Archive\<close>, \<open>Archive_Spec\<close>, \<open>Archiver\<close>, \<open>Archive_Process\<close> (services/archiver/state.py, writer.py,
    runner.py): the rows cut from the stream, sealed minute by minute, their files, and the process
    with its low-water-mark checkpoint through crashes.
  \<^item> \<open>Float64\<close>: Python's floats as the rationals they are (round to nearest, ties to even), \<open>round\<close>,
    \<open>fmean\<close> and \<open>pstdev\<close>. \<open>Backtest\<close>, \<open>Backtest_Run\<close> (services/backtest/): bars from the dataset, the
    moving-average strategy, the portfolio, the run loop, metrics, manifest and the endpoint.
    \<open>Backtest_Spec\<close>, \<open>Backtest_Metrics\<close>, \<open>Backtest_Service\<close>: its results, over any strategy through
    the locale \<open>bt_strategy\<close>, interpreted on the strategy the code has.
  \<^item> \<open>Fair_Value\<close>, \<open>Quoting\<close>, \<open>Bot_Client\<close>, \<open>Market_Maker\<close>, \<open>Market_Maker_Spec\<close> (services/bots/fairvalue.py,
    quoting.py, obligations.py, client.py, market_maker.py, noise.py): the random walk of fair values, the quotes around it,
    the client of the gateway with its idempotency keys, the market maker's step and its invariant.
    The gateway is a function of the requests so far.

  \<^item> \<open>Sessions\<close>, \<open>Access\<close>, \<open>Rate_Limit\<close> (services/gateway/sessions.py, routes_auth.py, security.py, deps.py,
    ratelimit.py): the session store as a locale and on expiring Redis keys; registration, login and
    logout cut at their awaits; the token bucket in floating point.
  \<^item> \<open>Read_Routes\<close> (the read endpoints of services/gateway/routes_orders.py): open orders and portfolio
    from the consumer's tables, composed with the consumer, the ledger and the engine.
  \<^item> \<open>Stream_Server\<close> (services/fanout/server.py): the connections of \<open>/stream\<close>, from the cookie to the
    subscription requests and the clean-up, over the hub of \<open>Subscribers\<close>.

  \<^bold>\<open>What the lemmas show.\<close> The engine is a refinement of price-time priority and never raises; its
  process writes each answer once whatever crashes; the money the exchange granted is all there;
  no account that is checked can overspend; the ledger's, the gateway's and fan-out's order views
  are the engine's book; a client order id is spent once and answered one way; restarts change
  nothing; the archive's files are exact through crashes; what a browser is owed reaches it in order;
  a session is worth exactly what its login was, and a stream belongs to its session; what the read
  endpoints return is the engine's book and the ledger's balances; nobody sends orders faster than
  the rate allows; a backtest never sees the future nor spends money it has not; and the market maker keeps track of
  its orders and never sends two decisions under one key.

  \<^bold>\<open>Bounds and fuel.\<close> Prices, quantities and ids are Python integers (\<open>int\<close>); the field widths are
  enforced where records are packed. The matching loop terminates by a measure on the book. The
  loops that read a stream are \<open>partial_function\<close>s whose \<open>None\<close> is a loop that does not end; \<open>replays_end\<close>
  below and \<open>recovery_resumes\<close> say that they do. \<open>json_loads\<close> takes the input's length as its fuel,
  which its round trip shows to be enough.

  \<^bold>\<open>Environment.\<close> Redis, the database and the clock are arguments: what a read returned, whether a
  write landed, the time. \<open>reads_on\<close> is the promise of \<open>XREAD\<close> on a stream that stands still.

  \<^bold>\<open>Not modelled.\<close> The asyncio loops that call the modelled steps, the start-up order, logging and
  \<open>/health\<close>; the routes that list the configuration; the rate limiter's verdict is an argument of
  \<open>Order_Flow\<close>, and \<open>Rate_Limit\<close> says what it is; the expiry of stored outcomes; the password hash
  and the random bytes (parameters); Parquet itself; the other bots' schedules and the swarm that
  starts them; the C++ engine, which is tested against the reference book; the code generator,
  scripts, benchmarks and the web client.
\<close>

section \<open>Properties across the components\<close>

text \<open>C29. Every service's rebuild ends, with the whole stream applied in order: on a stream that stands still
  the replay loops of the ledger, of the gateway's risk state and of fan-out all return, whatever the
  batch sizes, counting every entry once.\<close>

theorem replays_end:
  assumes "reads_on read start entries" "market_ok m"
  shows "ledger_replay_after read start 0 l = Some (ledger_run entries l, int (length entries)) \<and>
    risk_replay read start 0 rk =
      Some ((risk_run entries rk)\<lparr>rk_last_seq := id_at start entries (length entries)\<rparr>, int (length entries)) \<and>
    fanout_replay read start 0 m = Some (Inr (fold market_step entries m, int (length entries)))"
  using lgr.loop_from_start [OF assms(1), where n = 0 and s = l] rkl.loop_from_start [OF assms(1), where n = 0 and s = rk]
    fl.loop_from_start [OF assms, where n = 0] by simp

definition demo_log :: "(string \<times> wire) list" where
  "demo_log =
     [(''1-0'', OrderAccepted_new 9 1 11 42 50000 3 1 2 1), (''1-1'', OrderAccepted_new 9 2 12 43 50000 2 1 1 1),
      (''2-0'', OrderCancelled_new 9 1 11 42 3 1 1)]"

theorem replays_end_witness:
  "ledger_replay_after (entries_after ''0-0'' 2 demo_log) ''0-0'' 0 new_ledger = Some (ledger_run demo_log new_ledger, 3) \<and>
    fanout_replay (entries_after ''0-0'' 2 demo_log) ''0-0'' 0 (new_market [1, 60]) =
      Some (Inr (fold market_step demo_log (new_market [1, 60]), 3))"
proof -
  have r: "reads_on (entries_after ''0-0'' 2 demo_log) ''0-0'' demo_log"
    by (rule entries_after_reads_on) (simp_all add: demo_log_def)
  have "market_ok (new_market [1, 60])" by (rule market_ok_new) simp
  moreover have "length demo_log = 3" by (simp add: demo_log_def)
  ultimately show ?thesis using replays_end [OF r, where m = "new_market [1, 60]" and l = new_ledger and rk = new_risk] by simp
qed

end
